(* ===== verification/Prelude.thy ===== *)
theory Prelude
  imports Main "HOL-Library.Word"
begin

text \<open>
  Shared vocabulary of the development: the panics of the kernel as values, sequencing of
  fallible steps, the checked machine arithmetic of the Rust core library, the bit-counting
  methods of \<open>u64\<close>, and the generic lemmas on them that every component uses.

  The kernel image is built with the \<open>dev\<close> profile, so integer overflow and an index out of
  bounds panic.  A panicking computation is \<open>Inl p\<close>, a returning one \<open>Inr v\<close>; an
  \<open>Option\<close> of the source stays an \<open>option\<close> inside the \<open>Inr\<close>.
\<close>

unbundle bit_operations_syntax

subsection \<open>Panics and sequencing\<close>

datatype panic = Arith_overflow | Index_bounds | Assert_failed string

type_synonym 'a checked = "panic + 'a"
type_synonym u8 = "8 word"
type_synonym u64 = "64 word"

fun and_then :: "'e + 'a \<Rightarrow> ('a \<Rightarrow> 'e + 'b) \<Rightarrow> 'e + 'b" where
  "and_then (Inl e) f = Inl e"
| "and_then (Inr x) f = f x"

definition require :: "bool \<Rightarrow> string \<Rightarrow> 'a checked \<Rightarrow> 'a checked" where
  "require b msg k = (if b then k else Inl (Assert_failed msg))"

named_theorems checked_simps \<open>inversion of successful checked computations\<close>

lemma and_then_Inr_iff [checked_simps]:
  "and_then m f = Inr y \<longleftrightarrow> (\<exists>x. m = Inr x \<and> f x = Inr y)"
  by (cases m) auto

lemma Inr_and_then_iff [checked_simps]:
  "Inr y = and_then m f \<longleftrightarrow> (\<exists>x. m = Inr x \<and> f x = Inr y)"
  by (cases m) auto

lemma and_then_Inl_iff:
  "and_then m f = Inl e \<longleftrightarrow> m = Inl e \<or> (\<exists>x. m = Inr x \<and> f x = Inl e)"
  by (cases m) auto

lemma and_then_cong [fundef_cong]:
  "m = m' \<Longrightarrow> (\<And>x. m' = Inr x \<Longrightarrow> f x = g x) \<Longrightarrow> and_then m f = and_then m' g"
  by (cases m') auto

lemma require_True [simp]: "b \<Longrightarrow> require b msg k = k"
  by (simp add: require_def)

lemma require_False [simp]: "\<not> b \<Longrightarrow> require b msg k = Inl (Assert_failed msg)"
  by (simp add: require_def)

lemma require_Inr_iff [checked_simps]: "require b msg k = Inr y \<longleftrightarrow> b \<and> k = Inr y"
  by (simp add: require_def)

lemma require_cong [fundef_cong]:
  "b = b' \<Longrightarrow> (b' \<Longrightarrow> k = k') \<Longrightarrow> require b msg k = require b' msg k'"
  by (simp add: require_def)

text \<open>A \<open>for\<close> loop over a list of items whose body may panic.\<close>

fun for_each :: "'i list \<Rightarrow> ('i \<Rightarrow> 's \<Rightarrow> 'e + 's) \<Rightarrow> 's \<Rightarrow> 'e + 's" where
  "for_each [] f s = Inr s"
| "for_each (i # is) f s = and_then (f i s) (for_each is f)"

lemma for_each_append:
  "for_each (xs @ ys) f s = and_then (for_each xs f s) (for_each ys f)"
proof (induction xs arbitrary: s)
  case (Cons x xs)
  then show ?case by (cases "f x s") auto
qed simp

text \<open>The loop rule: an invariant indexed by the items already handled.\<close>

lemma for_each_invariant:
  assumes "P [] s"
    and "\<And>done i rest s. xs = done @ i # rest \<Longrightarrow> P done s \<Longrightarrow> \<exists>s'. f i s = Inr s' \<and> P (done @ [i]) s'"
  shows "\<exists>s'. for_each xs f s = Inr s' \<and> P xs s'"
proof -
  have "\<exists>s'. for_each ys f s = Inr s' \<and> P (pre @ ys) s'"
    if "xs = pre @ ys" "P pre s" for pre ys s
    using that
  proof (induction ys arbitrary: pre s)
    case (Cons y ys)
    from assms(2)[OF Cons.prems] obtain t where t: "f y s = Inr t" "P (pre @ [y]) t" by blast
    have "xs = (pre @ [y]) @ ys" using Cons.prems(1) by simp
    from Cons.IH[OF this t(2)] t(1) show ?case by simp
  qed simp
  from this[of "[]" xs s] assms(1) show ?thesis by simp
qed

text \<open>Partial correctness of a loop: what every step that returns keeps, the loop keeps.\<close>

lemma for_each_preserves:
  assumes "for_each xs f s = Inr s'" and "Q s"
    and "\<And>i t t'. i \<in> set xs \<Longrightarrow> f i t = Inr t' \<Longrightarrow> Q t \<Longrightarrow> Q t'"
  shows "Q s'"
  using assms
proof (induction xs arbitrary: s)
  case (Cons x xs)
  then show ?case by (auto simp: checked_simps)
qed simp

subsection \<open>Machine arithmetic on 64-bit values\<close>

abbreviation u64_limit :: nat where "u64_limit \<equiv> 18446744073709551616"

lemma u64_limit_eq: "u64_limit = 2 ^ 64"
  by simp

text \<open>
  \<open>a + b\<close>, \<open>a * b\<close> with overflow checks, and the methods \<open>checked_add\<close>, \<open>checked_mul\<close>,
  \<open>saturating_add\<close>, \<open>div_ceil\<close>, \<open>next_multiple_of\<close> of \<open>u64\<close> and \<open>usize\<close>.
\<close>

definition uadd :: "nat \<Rightarrow> nat \<Rightarrow> nat checked" where
  "uadd a b = (if a + b < u64_limit then Inr (a + b) else Inl Arith_overflow)"

definition umul :: "nat \<Rightarrow> nat \<Rightarrow> nat checked" where
  "umul a b = (if a * b < u64_limit then Inr (a * b) else Inl Arith_overflow)"

definition usub :: "nat \<Rightarrow> nat \<Rightarrow> nat checked" where
  "usub a b = (if b \<le> a then Inr (a - b) else Inl Arith_overflow)"

definition checked_add :: "nat \<Rightarrow> nat \<Rightarrow> nat option" where
  "checked_add a b = (if a + b < u64_limit then Some (a + b) else None)"

definition checked_mul :: "nat \<Rightarrow> nat \<Rightarrow> nat option" where
  "checked_mul a b = (if a * b < u64_limit then Some (a * b) else None)"

definition saturating_add :: "nat \<Rightarrow> nat \<Rightarrow> nat" where
  "saturating_add a b = min (a + b) (u64_limit - 1)"

definition div_ceil :: "nat \<Rightarrow> nat \<Rightarrow> nat" where
  "div_ceil a b = (a + (b - 1)) div b"

lemma uadd_Inr_iff [checked_simps]: "uadd a b = Inr c \<longleftrightarrow> c = a + b \<and> a + b < u64_limit"
  by (auto simp: uadd_def)

lemma uadd_ok [simp]: "a + b < u64_limit \<Longrightarrow> uadd a b = Inr (a + b)"
  by (simp add: uadd_def)

lemma umul_Inr_iff [checked_simps]: "umul a b = Inr c \<longleftrightarrow> c = a * b \<and> a * b < u64_limit"
  by (auto simp: umul_def)

lemma umul_ok [simp]: "a * b < u64_limit \<Longrightarrow> umul a b = Inr (a * b)"
  by (simp add: umul_def)

lemma usub_Inr_iff [checked_simps]: "usub a b = Inr c \<longleftrightarrow> c = a - b \<and> b \<le> a"
  by (auto simp: usub_def)

lemma usub_ok [simp]: "b \<le> a \<Longrightarrow> usub a b = Inr (a - b)"
  by (simp add: usub_def)

lemma checked_add_Some_iff [checked_simps]:
  "checked_add a b = Some c \<longleftrightarrow> c = a + b \<and> a + b < u64_limit"
  by (auto simp: checked_add_def)

lemma checked_mul_Some_iff [checked_simps]:
  "checked_mul a b = Some c \<longleftrightarrow> c = a * b \<and> a * b < u64_limit"
  by (auto simp: checked_mul_def)

lemma div_ceil_le_iff: "0 < b \<Longrightarrow> div_ceil a b \<le> c \<longleftrightarrow> a \<le> c * b"
proof -
  assume b: "0 < b"
  have "div_ceil a b \<le> c \<longleftrightarrow> (a + (b - 1)) div b < Suc c"
    by (simp add: div_ceil_def less_Suc_eq_le)
  also have "\<dots> \<longleftrightarrow> a + (b - 1) < Suc c * b"
    using b by (simp add: div_less_iff_less_mult)
  also have "\<dots> \<longleftrightarrow> a \<le> c * b" using b by auto
  finally show ?thesis .
qed

lemma le_div_ceil_mult: "0 < b \<Longrightarrow> a \<le> div_ceil a b * b"
  using div_ceil_le_iff[of b a "div_ceil a b"] by simp

lemma div_ceil_mult_less: "0 < b \<Longrightarrow> div_ceil a b * b < a + b"
proof -
  assume "0 < b"
  then have "div_ceil a b * b \<le> a + (b - 1)" by (simp add: div_ceil_def)
  with \<open>0 < b\<close> show ?thesis by linarith
qed

lemma div_ceil_mult_least: "0 < b \<Longrightarrow> a \<le> m \<Longrightarrow> b dvd m \<Longrightarrow> div_ceil a b * b \<le> m"
  by (metis div_ceil_le_iff dvd_def mult.commute mult_le_mono1)

subsection \<open>Bit counting on 64-bit words\<close>

definition count_ones :: "u64 \<Rightarrow> nat" where
  "count_ones w = length (filter (bit w) [0..<64])"

definition count_zeros :: "u64 \<Rightarrow> nat" where
  "count_zeros w = length (filter (\<lambda>i. \<not> bit w i) [0..<64])"

definition trailing_zeros :: "u64 \<Rightarrow> nat" where
  "trailing_zeros w = length (takeWhile (\<lambda>i. \<not> bit w i) [0..<64])"

lemma length_filter_upt: "length (filter P [0..<n]) = card {i. i < n \<and> P i}"
proof -
  have "length (filter P [0..<n]) = card (set (filter P [0..<n]))"
    by (metis distinct_card distinct_filter distinct_upt)
  then show ?thesis by (simp add: conj_commute)
qed

lemma count_ones_card: "count_ones w = card {i. i < 64 \<and> bit w i}"
  by (simp add: count_ones_def length_filter_upt)

lemma count_zeros_card: "count_zeros w = card {i. i < 64 \<and> \<not> bit w i}"
  by (simp add: count_zeros_def length_filter_upt)

lemma bit_u64_bound: "bit (w :: u64) i \<Longrightarrow> i < 64"
  using bit_imp_le_length[of w i] by simp

lemma u64_neq_0_iff: "(w :: u64) \<noteq> 0 \<longleftrightarrow> (\<exists>i<64. bit w i)"
  using bit_u64_bound by (auto simp: bit_eq_iff)

lemma length_takeWhile_upt:
  assumes "\<And>j. j < i \<Longrightarrow> P j" and "\<not> P i" and "i < n"
  shows "length (takeWhile P [0..<n]) = i"
proof -
  have "[0..<n] = [0..<i] @ i # [Suc i..<n]"
    using assms(3)
    by (metis le_add1 less_imp_add_positive upt_add_eq_append upt_conv_Cons zero_le
        less_add_same_cancel1)
  moreover have "takeWhile P ([0..<i] @ i # [Suc i..<n]) = [0..<i]"
    using assms(1,2) by (subst takeWhile_append2) auto
  ultimately show ?thesis by simp
qed

text \<open>\<open>trailing_zeros\<close> of a non-zero word is its lowest set bit.\<close>

lemma trailing_zeros_least:
  assumes "w \<noteq> 0"
  shows "bit w (trailing_zeros w)" and "\<And>j. j < trailing_zeros w \<Longrightarrow> \<not> bit w j"
    and "trailing_zeros w < 64"
proof -
  from assms obtain k where k: "bit w k" "k < 64" by (auto simp: u64_neq_0_iff)
  define i where "i = (LEAST i. bit w i)"
  have bi: "bit w i" unfolding i_def using k(1) by (rule LeastI)
  have min: "\<not> bit w j" if "j < i" for j using that not_less_Least unfolding i_def by blast
  have "i < 64" using bi by (rule bit_u64_bound)
  have "trailing_zeros w = i"
    unfolding trailing_zeros_def using min bi \<open>i < 64\<close> by (intro length_takeWhile_upt) auto
  then show "bit w (trailing_zeros w)" "\<And>j. j < trailing_zeros w \<Longrightarrow> \<not> bit w j"
    "trailing_zeros w < 64" using bi min \<open>i < 64\<close> by auto
qed

subsection \<open>Masks and powers of two\<close>

text \<open>
  A single-bit word \<open>1 << k\<close>, the low mask \<open>(1 << k) - 1\<close> and the run mask
  \<open>((1 << t) - 1) << b\<close>, read bit by bit and as numbers.
\<close>

lemma bit_minus_one_u64: "bit (- 1 :: u64) i \<longleftrightarrow> i < 64"
  by simp

lemma bit_single_u64: "bit (push_bit k 1 :: u64) i \<longleftrightarrow> i = k \<and> k < 64"
  by (auto simp: bit_simps)

lemma minus_one_mask_u64: "(push_bit k 1 :: u64) - 1 = mask k"
  by (simp add: mask_eq_decr_exp)

lemma bit_run_mask:
  "bit (push_bit b (push_bit t 1 - 1) :: u64) i \<longleftrightarrow> b \<le> i \<and> i < b + t \<and> i < 64"
  by (simp only: minus_one_mask_u64) (auto simp: bit_simps)

lemma unat_single_u64: "k < 64 \<Longrightarrow> unat (2 ^ k :: u64) = 2 ^ k"
proof -
  assume k: "k < 64"
  have "(2 ^ k :: u64) = word_of_nat (2 ^ k)" by simp
  then show ?thesis
    using k power_strict_increasing[of k 64 "2::nat"]
    by (simp only: unsigned_of_nat) (simp add: take_bit_nat_eq_self)
qed

lemma unat_mask_u64: "k < 64 \<Longrightarrow> unat (mask k :: u64) = 2 ^ k - 1"
proof -
  assume k: "k < 64"
  have "(mask k :: u64) = 2 ^ k - 1" by (simp add: mask_eq_decr_exp)
  moreover have "(2 ^ k :: u64) \<noteq> 0"
    using unat_single_u64[OF k] by (metis power_not_zero unsigned_0 zero_neq_numeral)
  ultimately show ?thesis using unat_single_u64[OF k] by (simp add: unat_minus_one)
qed

lemma unat_and_mask: "unat (w AND mask k :: u64) = unat w mod 2 ^ k"
  by (simp only: take_bit_eq_mask[symmetric] unsigned_take_bit_eq) (simp only: take_bit_eq_mod)

lemma unat_split_mask: "unat (w AND NOT (mask k) :: u64) + unat (w AND mask k) = unat w"
proof -
  have "w = (w AND NOT (mask k)) OR (w AND mask k)"
    by (simp add: bit_eq_iff bit_simps) blast
  moreover have "(w AND NOT (mask k)) AND (w AND mask k) = 0"
    by (simp add: bit_eq_iff bit_simps)
  ultimately have sum: "w = (w AND NOT (mask k)) + (w AND mask k)"
    using disjunctive_add_eq_or by metis
  have "w AND NOT (mask k) \<le> w" by (simp add: word_and_le2)
  with sum show ?thesis by (metis unat_plus_simple)
qed

lemma unat_and_not_mask: "unat (w AND NOT (mask k) :: u64) = unat w div 2 ^ k * 2 ^ k"
  using unat_split_mask[of w k]
  by (metis unat_and_mask add_right_cancel div_mult_mod_eq)

lemma unat_u64_bound: "unat (w :: u64) < u64_limit"
  using unsigned_less[of w] by simp

lemma unat_word_of_nat_u64: "n < u64_limit \<Longrightarrow> unat (word_of_nat n :: u64) = n"
  by (simp add: unsigned_of_nat take_bit_nat_eq_self)


subsection \<open>Options and results of the source inside a checked computation\<close>

text \<open>
  The \<open>?\<close> operator: \<open>on_some\<close> on an \<open>Option\<close>, \<open>try_then\<close> on a \<open>Result\<close>, and
  \<open>ok_or\<close>, which turns the one into the other.
\<close>

definition on_some :: "'a option checked \<Rightarrow> 'b \<Rightarrow> ('a \<Rightarrow> 'b checked) \<Rightarrow> 'b checked" where
  "on_some m b f = and_then m (\<lambda>r. case r of None \<Rightarrow> Inr b | Some x \<Rightarrow> f x)"

definition try_then :: "('e + 'a) checked \<Rightarrow> ('a \<Rightarrow> ('e + 'b) checked) \<Rightarrow> ('e + 'b) checked" where
  "try_then m f = and_then m (\<lambda>r. case r of Inl e \<Rightarrow> Inr (Inl e) | Inr x \<Rightarrow> f x)"

definition ok_or :: "'a option \<Rightarrow> 'e \<Rightarrow> 'e + 'a" where
  "ok_or m e = (case m of None \<Rightarrow> Inl e | Some x \<Rightarrow> Inr x)"

lemma try_then_simps [simp]:
  "try_then (Inr (Inr x)) f = f x" "try_then (Inr (Inl e)) f = Inr (Inl e)" "try_then (Inl p) f = Inl p"
  by (simp_all add: try_then_def)

lemma try_then_ok_iff [checked_simps]:
  "try_then m f = Inr (Inr y) \<longleftrightarrow> (\<exists>x. m = Inr (Inr x) \<and> f x = Inr (Inr y))"
  by (cases m; cases "projr m") (auto simp: try_then_def)

lemma ok_or_simps [simp]: "ok_or None e = Inl e" "ok_or (Some x) e = Inr x"
  by (simp_all add: ok_or_def)

lemma ok_or_Inr_iff [checked_simps]: "ok_or m e = Inr x \<longleftrightarrow> m = Some x"
  by (auto simp: ok_or_def split: option.splits)

text \<open>Computations that return, whatever the result: no panic.\<close>

definition returns :: "'a checked \<Rightarrow> bool" where
  "returns m \<longleftrightarrow> (\<exists>x. m = Inr x)"

lemma returns_simps [simp]: "returns (Inr x)" "\<not> returns (Inl p)"
  by (simp_all add: returns_def)

lemma returns_and_then: "returns m \<Longrightarrow> (\<And>x. m = Inr x \<Longrightarrow> returns (f x)) \<Longrightarrow> returns (and_then m f)"
  by (auto simp: returns_def)

lemma returns_try_then:
  "returns m \<Longrightarrow> (\<And>x. m = Inr (Inr x) \<Longrightarrow> returns (f x)) \<Longrightarrow> returns (try_then m f)"
  by (auto simp: returns_def try_then_def split: sum.splits)

subsection \<open>Little-endian numbers in byte strings\<close>

fun le_bytes :: "u8 list \<Rightarrow> nat" where
  "le_bytes [] = 0"
| "le_bytes (b # bs) = unat b + 256 * le_bytes bs"

lemma le_bytes_bound: "le_bytes bs < 256 ^ length bs"
proof (induction bs)
  case (Cons b bs)
  have "unat b < 256" using unsigned_less[of b] by simp
  with Cons show ?case by simp
qed simp

lemma word_of_nat_mult_256: "(word_of_nat (unat b + 256 * n) :: u8) = b"
proof (rule word_unat_eq_iff[THEN iffD2])
  have "unat b < 256" using unsigned_less[of b] by simp
  then show "unat (word_of_nat (unat b + 256 * n) :: u8) = unat b"
    by (simp only: unsigned_of_nat) (simp add: take_bit_eq_mod)
qed

text \<open>\<open>to_le_bytes\<close> of a number of \<open>n\<close> bytes, and its inverse on byte strings of that length.\<close>

fun to_le :: "nat \<Rightarrow> nat \<Rightarrow> u8 list" where
  "to_le 0 v = []"
| "to_le (Suc n) v = word_of_nat v # to_le n (v div 256)"

lemma length_to_le [simp]: "length (to_le n v) = n"
  by (induction n arbitrary: v) simp_all

lemma to_le_le_bytes: "to_le (length bs) (le_bytes bs) = bs"
proof (induction bs)
  case (Cons b bs)
  have b: "unat b < 256" using unsigned_less[of b] by simp
  have "(unat b + 256 * le_bytes bs) div 256 = le_bytes bs" using b by simp
  moreover have "(word_of_nat (unat b + 256 * le_bytes bs) :: u8) = b"
    by (rule word_of_nat_mult_256)
  ultimately show ?case using Cons by simp
qed simp

lemma le_bytes_to_le: "le_bytes (to_le n v) = v mod 256 ^ n"
proof (induction n arbitrary: v)
  case (Suc n)
  have "unat (word_of_nat v :: u8) = v mod 256" by (simp add: unsigned_of_nat take_bit_eq_mod)
  then show ?case using Suc by (simp add: mod_mult2_eq)
qed simp

text \<open>\<open>data[i]\<close>, \<open>data[i..j]\<close> and \<open>uN::from_le_bytes([data[i], ...])\<close>, which panic out of range.\<close>

definition index_at :: "'a list \<Rightarrow> nat \<Rightarrow> 'a checked" where
  "index_at xs i = (if i < length xs then Inr (xs ! i) else Inl Index_bounds)"

definition slice_at :: "'a list \<Rightarrow> nat \<Rightarrow> nat \<Rightarrow> 'a list checked" where
  "slice_at xs i j = (if i \<le> j \<and> j \<le> length xs then Inr (take (j - i) (drop i xs)) else Inl Index_bounds)"

definition le_at :: "u8 list \<Rightarrow> nat \<Rightarrow> nat \<Rightarrow> nat checked" where
  "le_at xs i n = and_then (slice_at xs i (i + n)) (\<lambda>bs. Inr (le_bytes bs))"

lemma index_at_ok [simp]: "i < length xs \<Longrightarrow> index_at xs i = Inr (xs ! i)"
  by (simp add: index_at_def)

lemma slice_at_ok [simp]: "i \<le> j \<Longrightarrow> j \<le> length xs \<Longrightarrow> slice_at xs i j = Inr (take (j - i) (drop i xs))"
  by (simp add: slice_at_def)

lemma le_at_ok [simp]: "i + n \<le> length xs \<Longrightarrow> le_at xs i n = Inr (le_bytes (take n (drop i xs)))"
  by (simp add: le_at_def)

lemma le_at_bound: "le_at xs i n = Inr v \<Longrightarrow> v < 256 ^ n"
  using le_bytes_bound[of "take n (drop i xs)"]
  by (auto simp: le_at_def slice_at_def split: if_splits)

text \<open>Big-endian numbers: \<open>to_be_bytes\<close> and \<open>from_be_bytes\<close>.\<close>

definition to_be :: "nat \<Rightarrow> nat \<Rightarrow> u8 list" where
  "to_be n v = rev (to_le n v)"

definition be_bytes :: "u8 list \<Rightarrow> nat" where
  "be_bytes bs = le_bytes (rev bs)"

definition be_at :: "u8 list \<Rightarrow> nat \<Rightarrow> nat \<Rightarrow> nat checked" where
  "be_at xs i n = and_then (slice_at xs i (i + n)) (\<lambda>bs. Inr (be_bytes bs))"

lemma length_to_be [simp]: "length (to_be n v) = n"
  by (simp add: to_be_def)

lemma be_bytes_to_be [simp]: "be_bytes (to_be n v) = v mod 256 ^ n"
  by (simp add: be_bytes_def to_be_def le_bytes_to_le)

lemma be_bytes_bound: "be_bytes bs < 256 ^ length bs"
  using le_bytes_bound[of "rev bs"] by (simp add: be_bytes_def)

lemma be_at_ok [simp]: "i + n \<le> length xs \<Longrightarrow> be_at xs i n = Inr (be_bytes (take n (drop i xs)))"
  by (simp add: be_at_def)

text \<open>\<open>data.get(i..j)\<close>.\<close>

definition get_range :: "'a list \<Rightarrow> nat \<Rightarrow> nat \<Rightarrow> 'a list option" where
  "get_range xs i j = (if i \<le> j \<and> j \<le> length xs then Some (take (j - i) (drop i xs)) else None)"

lemma get_range_Some_iff:
  "get_range xs i j = Some ys \<longleftrightarrow> i \<le> j \<and> j \<le> length xs \<and> ys = take (j - i) (drop i xs)"
  by (auto simp: get_range_def)

definition checked_next_multiple_of :: "nat \<Rightarrow> nat \<Rightarrow> nat option" where
  "checked_next_multiple_of a b =
     (if div_ceil a b * b < u64_limit then Some (div_ceil a b * b) else None)"


end
