(* ===== verification/Addr.thy ===== *)
theory Addr
  imports Prelude
begin

text \<open>
  \<open>kernel/src/mm/addr.rs\<close>: the alignment API that the macro \<open>impl_addr!\<close> generates for both
  \<open>PhysAddr\<close> and \<open>VirtAddr\<close>.  An address is the \<open>u64\<close> it wraps.
\<close>

definition FRAME_SIZE :: nat where "FRAME_SIZE = 4096"

definition is_power_of_two :: "u64 \<Rightarrow> bool" where
  "is_power_of_two a \<longleftrightarrow> count_ones a = 1"

definition align_down :: "u64 \<Rightarrow> u64 \<Rightarrow> u64 checked" where
  "align_down addr align =
     require (is_power_of_two align) ''align must be a power of two''
       (Inr (addr AND NOT (align - 1)))"

definition align_up :: "u64 \<Rightarrow> u64 \<Rightarrow> u64 checked" where
  "align_up addr align =
     require (is_power_of_two align) ''align must be a power of two''
       (and_then (uadd (unat addr) (unat (align - 1)))
          (\<lambda>s. Inr (word_of_nat s AND NOT (align - 1))))"

definition is_aligned :: "u64 \<Rightarrow> u64 \<Rightarrow> bool checked" where
  "is_aligned addr align =
     require (is_power_of_two align) ''align must be a power of two''
       (Inr (addr AND (align - 1) = 0))"

definition frame_index :: "u64 \<Rightarrow> u64" where
  "frame_index addr = addr div word_of_nat FRAME_SIZE"

subsection \<open>The bit tricks are the arithmetic they stand for\<close>

lemma power_of_two_iff: "is_power_of_two a \<longleftrightarrow> (\<exists>k<64. a = 2 ^ k)"
proof
  assume "is_power_of_two a"
  then have "card {i. i < 64 \<and> bit a i} = 1"
    by (simp add: is_power_of_two_def count_ones_card)
  then obtain k where k: "{i. i < 64 \<and> bit a i} = {k}" by (auto simp: card_1_singleton_iff)
  then have "k < 64" by auto
  have "bit a i \<longleftrightarrow> i = k" for i
    using k bit_u64_bound[of a i] by blast
  then have "a = push_bit k 1"
    using \<open>k < 64\<close> by (intro bit_eqI) (simp only: bit_single_u64, blast)
  with \<open>k < 64\<close> show "\<exists>k<64. a = 2 ^ k" by (auto simp: push_bit_eq_mult)
next
  assume "\<exists>k<64. a = 2 ^ k"
  then obtain k where "k < 64" "a = push_bit k 1" by (auto simp: push_bit_eq_mult)
  then have "{i. i < 64 \<and> bit a i} = {k}" using bit_single_u64[of k] by auto
  then show "is_power_of_two a" by (simp add: is_power_of_two_def count_ones_card)
qed

lemma power_of_two_cases:
  assumes "is_power_of_two a"
  obtains k where "k < 64" "a = 2 ^ k" "unat a = 2 ^ k" "a - 1 = mask k"
proof -
  from assms obtain k where k: "k < 64" "a = 2 ^ k" by (auto simp: power_of_two_iff)
  with unat_single_u64[of k] minus_one_mask_u64[of k] show thesis
    by (intro that[of k]) (simp_all add: push_bit_eq_mult)
qed

lemma align_down_div:
  assumes "align_down addr align = Inr r"
  shows "unat r = unat addr div unat align * unat align" and "is_power_of_two align"
proof -
  from assms show p2: "is_power_of_two align" by (simp add: align_down_def checked_simps)
  then obtain k where k: "unat align = 2 ^ k" "align - 1 = mask k"
    by (elim power_of_two_cases) simp
  from assms p2 have "r = addr AND NOT (align - 1)" by (simp add: align_down_def)
  then show "unat r = unat addr div unat align * unat align"
    by (simp add: k unat_and_not_mask)
qed

lemma align_up_div_ceil:
  assumes "align_up addr align = Inr r"
  shows "unat r = div_ceil (unat addr) (unat align) * unat align" and "is_power_of_two align"
proof -
  from assms show p2: "is_power_of_two align" by (simp add: align_up_def checked_simps)
  then obtain k where k: "k < 64" "unat align = 2 ^ k" "align - 1 = mask k"
    by (elim power_of_two_cases) simp
  from assms p2 obtain s where s: "s = unat addr + unat (align - 1)" "s < u64_limit"
    and r: "r = word_of_nat s AND NOT (align - 1)"
    by (auto simp: align_up_def checked_simps)
  have "s = unat addr + (2 ^ k - 1)" using s(1) k by (simp only: unat_mask_u64)
  moreover have "unat r = s div 2 ^ k * 2 ^ k"
    unfolding r k(3) unat_and_not_mask unat_word_of_nat_u64[OF s(2)] ..
  ultimately show "unat r = div_ceil (unat addr) (unat align) * unat align"
    by (simp add: k(2) div_ceil_def)
qed

lemma is_aligned_dvd:
  "is_power_of_two align \<Longrightarrow> is_aligned addr align = Inr (unat align dvd unat addr)"
proof -
  assume p2: "is_power_of_two align"
  then obtain k where k: "unat align = 2 ^ k" "align - 1 = mask k" by (elim power_of_two_cases) simp
  have "addr AND (align - 1) = 0 \<longleftrightarrow> unat addr mod 2 ^ k = 0"
    unfolding k(2) unat_and_mask[symmetric] by (simp add: unat_0_iff)
  then show ?thesis using p2 by (simp add: is_aligned_def k(1) dvd_eq_mod_eq_0)
qed

lemma frame_index_div: "unat (frame_index addr) = unat addr div FRAME_SIZE"
  by (simp add: frame_index_def unat_div_distrib unat_word_of_nat_u64 FRAME_SIZE_def)

lemma power_of_two_4096 [simp]: "is_power_of_two 4096"
  unfolding power_of_two_iff by (rule exI[of _ 12]) simp

end
