(* ===== verification/Bitmap.thy ===== *)
theory Bitmap
  imports Addr
begin

text \<open>
  \<open>kernel/src/mm/bitmap.rs\<close>: \<open>FrameBitmap\<close>, one bit per 4 KiB frame over a slice of \<open>u64\<close>
  words (1 = used, 0 = free).  Frame numbers and the \<open>usize\<close> indices are naturals with the
  checked arithmetic of the Prelude; an index outside the word slice panics as in Rust.
  The abstraction is the set \<open>bm_free\<close> of free absolute frame numbers.
\<close>

definition BITS_PER_WORD :: nat where "BITS_PER_WORD = 64"

record frame_bitmap =
  bm_words :: "u64 list"
  bm_base :: nat
  bm_count :: nat

definition bitmap_new :: "u64 list \<Rightarrow> nat \<Rightarrow> nat \<Rightarrow> frame_bitmap checked" where
  "bitmap_new ws base count =
     require (count \<le> length ws * BITS_PER_WORD) ''word(s) can't hold frame(s)''
       (Inr \<lparr>bm_words = ws, bm_base = base, bm_count = count\<rparr>)"

definition fill_used :: "frame_bitmap \<Rightarrow> frame_bitmap" where
  "fill_used b = b\<lparr>bm_words := replicate (length (bm_words b)) (- 1)\<rparr>"

definition fill_free :: "frame_bitmap \<Rightarrow> frame_bitmap" where
  "fill_free b = b\<lparr>bm_words := replicate (length (bm_words b)) 0\<rparr>"

text \<open>Reading and writing one word of the slice, with the bounds check of the index.\<close>

definition word_at :: "u64 list \<Rightarrow> nat \<Rightarrow> u64 checked" where
  "word_at ws i = (if i < length ws then Inr (ws ! i) else Inl Index_bounds)"

definition word_put :: "u64 list \<Rightarrow> nat \<Rightarrow> u64 \<Rightarrow> u64 list checked" where
  "word_put ws i w = (if i < length ws then Inr (ws[i := w]) else Inl Index_bounds)"

definition word_and_bit :: "frame_bitmap \<Rightarrow> nat \<Rightarrow> (nat \<times> nat) checked" where
  "word_and_bit b frame =
     require (bm_base b \<le> frame) ''frame is below base_frame''
       (let rel = frame - bm_base b in
        require (rel < bm_count b) ''frame is out of range''
          (Inr (rel div BITS_PER_WORD, rel mod BITS_PER_WORD)))"

definition set_used :: "frame_bitmap \<Rightarrow> nat \<Rightarrow> frame_bitmap checked" where
  "set_used b frame =
     and_then (word_and_bit b frame) (\<lambda>(word, bi).
     and_then (word_at (bm_words b) word) (\<lambda>w.
     and_then (word_put (bm_words b) word (w OR push_bit bi 1)) (\<lambda>ws.
       Inr (b\<lparr>bm_words := ws\<rparr>))))"

definition set_free :: "frame_bitmap \<Rightarrow> nat \<Rightarrow> frame_bitmap checked" where
  "set_free b frame =
     and_then (word_and_bit b frame) (\<lambda>(word, bi).
     and_then (word_at (bm_words b) word) (\<lambda>w.
     and_then (word_put (bm_words b) word (w AND NOT (push_bit bi 1))) (\<lambda>ws.
       Inr (b\<lparr>bm_words := ws\<rparr>))))"

definition is_used :: "frame_bitmap \<Rightarrow> nat \<Rightarrow> bool checked" where
  "is_used b frame =
     and_then (word_and_bit b frame) (\<lambda>(word, bi).
     and_then (word_at (bm_words b) word) (\<lambda>w.
       Inr (w AND push_bit bi 1 \<noteq> 0)))"

definition count_free :: "frame_bitmap \<Rightarrow> nat checked" where
  "count_free b =
     (let full_words = bm_count b div BITS_PER_WORD;
          remaining_bits = bm_count b mod BITS_PER_WORD in
      if length (bm_words b) < full_words then Inl Index_bounds
      else let free = sum_list (map count_zeros (take full_words (bm_words b))) in
        if remaining_bits > 0 then
          and_then (word_at (bm_words b) full_words) (\<lambda>w.
            let m = push_bit remaining_bits 1 - 1 in
            Inr (free + count_ones (NOT w AND m)))
        else Inr free)"

text \<open>
  The word-at-a-time scan of \<open>first_used_rel\<close>: the loop over \<open>i\<close> up to \<open>end\<close>, one masked
  word per round; \<open>scan_take\<close> and \<open>scan_mask\<close> are its locals \<open>take\<close> and \<open>mask\<close>.
\<close>

definition scan_take :: "nat \<Rightarrow> nat \<Rightarrow> nat" where
  "scan_take i end = min (BITS_PER_WORD - i mod BITS_PER_WORD) (end - i)"

definition scan_mask :: "nat \<Rightarrow> nat \<Rightarrow> u64" where
  "scan_mask i end =
     (if scan_take i end = BITS_PER_WORD then - 1
      else push_bit (i mod BITS_PER_WORD) (push_bit (scan_take i end) 1 - 1))"

function first_used_loop :: "u64 list \<Rightarrow> nat \<Rightarrow> nat \<Rightarrow> nat option checked" where
  "first_used_loop ws i end =
     (if i < end then
        and_then (word_at ws (i div BITS_PER_WORD)) (\<lambda>w.
          let hit = w AND scan_mask i end in
          if hit \<noteq> 0 then Inr (Some (i div BITS_PER_WORD * BITS_PER_WORD + trailing_zeros hit))
          else first_used_loop ws (i + scan_take i end) end)
      else Inr None)"
  by pat_completeness auto
termination
  by (relation "measure (\<lambda>(ws, i, end). end - i)") (auto simp: scan_take_def BITS_PER_WORD_def)

definition first_used_rel :: "frame_bitmap \<Rightarrow> nat \<Rightarrow> nat \<Rightarrow> nat option checked" where
  "first_used_rel b start len =
     and_then (uadd start len) (\<lambda>end. first_used_loop (bm_words b) start end)"

declare first_used_loop.simps [simp del]

subsection \<open>Bit positions\<close>

text \<open>
  \<open>bm_used b rel\<close>: the bit of relative frame \<open>rel\<close>.  A well-formed bitmap has words for all
  its frames, which \<open>FrameBitmap::new\<close> asserts.
\<close>

definition bm_used :: "frame_bitmap \<Rightarrow> nat \<Rightarrow> bool" where
  "bm_used b rel \<longleftrightarrow> bit (bm_words b ! (rel div 64)) (rel mod 64)"

definition bm_wf :: "frame_bitmap \<Rightarrow> bool" where
  "bm_wf b \<longleftrightarrow> bm_count b \<le> length (bm_words b) * 64 \<and> bm_base b + bm_count b < u64_limit"

definition bm_range :: "frame_bitmap \<Rightarrow> nat set" where
  "bm_range b = {bm_base b..<bm_base b + bm_count b}"

definition bm_free :: "frame_bitmap \<Rightarrow> nat set" where
  "bm_free b = {f \<in> bm_range b. \<not> bm_used b (f - bm_base b)}"

lemma bm_rangeD: "f \<in> bm_range b \<Longrightarrow> bm_base b \<le> f \<and> f - bm_base b < bm_count b"
  by (auto simp: bm_range_def)

lemma word_index_bound: "rel < n \<Longrightarrow> n \<le> len * 64 \<Longrightarrow> rel div 64 < (len :: nat)"
  by (simp add: div_less_iff_less_mult)

lemma bit_scan_mask:
  assumes "i < end"
  shows "bit (scan_mask i end) k \<longleftrightarrow> i mod 64 \<le> k \<and> k < i mod 64 + scan_take i end"
proof -
  have "i mod 64 + scan_take i end \<le> 64"
    by (simp add: scan_take_def BITS_PER_WORD_def min_def) arith
  moreover have "i mod 64 = 0" if "scan_take i end = 64"
    using that by (auto simp: scan_take_def BITS_PER_WORD_def min_def split: if_splits)
  ultimately show ?thesis
    using bit_run_mask[of "i mod 64" "scan_take i end" k] bit_minus_one_u64[of k]
    by (auto simp: scan_mask_def BITS_PER_WORD_def)
qed

text \<open>The positions a round looks at, \<open>{i..<i + take}\<close>, lie in one word.\<close>

lemma scan_positions:
  assumes "i < end" and "i \<le> j" and "j < i + scan_take i end"
  shows "j div 64 = i div 64" and "j mod 64 = i mod 64 + (j - i)" and "j < end"
proof -
  from assms(3) have lt: "i mod 64 + (j - i) < 64" and "j < end"
    using assms(1,2) by (auto simp: scan_take_def BITS_PER_WORD_def min_def split: if_splits)
  then show "j < end" by simp
  have j: "j = i div 64 * 64 + (i mod 64 + (j - i))"
    using assms(2) by simp
  show "j div 64 = i div 64" by (subst j, subst div_mult_self3) (use lt in auto)
  show "j mod 64 = i mod 64 + (j - i)" by (subst j, subst mod_mult_self3) (use lt in auto)
qed

definition pos_used :: "u64 list \<Rightarrow> nat \<Rightarrow> bool" where
  "pos_used ws j \<longleftrightarrow> bit (ws ! (j div 64)) (j mod 64)"

lemma scan_round_clear:
  assumes "i < end" and "ws ! (i div 64) AND scan_mask i end = 0"
    and "i \<le> j" and "j < i + scan_take i end"
  shows "\<not> pos_used ws j"
proof -
  have "bit (scan_mask i end) (j mod 64)"
    using assms scan_positions(2)[OF assms(1,3,4)] by (simp add: bit_scan_mask) arith
  moreover have "\<not> bit (ws ! (i div 64) AND scan_mask i end) (j mod 64)"
    using assms(2) by simp
  ultimately show ?thesis
    using scan_positions(1)[OF assms(1,3,4)] by (simp add: pos_used_def bit_and_iff)
qed

lemma scan_round_hit:
  assumes "i < end" and hit: "ws ! (i div 64) AND scan_mask i end \<noteq> 0"
    and r: "r = i div 64 * 64 + trailing_zeros (ws ! (i div 64) AND scan_mask i end)"
  shows "i \<le> r" and "r < end" and "pos_used ws r"
    and "\<And>j. i \<le> j \<Longrightarrow> j < r \<Longrightarrow> \<not> pos_used ws j"
proof -
  let ?h = "ws ! (i div 64) AND scan_mask i end" and ?tz = "trailing_zeros (ws ! (i div 64) AND scan_mask i end)"
  note tz = trailing_zeros_least[OF hit]
  from tz(1) have in_mask: "i mod 64 \<le> ?tz" "?tz < i mod 64 + scan_take i end"
    and set: "bit (ws ! (i div 64)) ?tz"
    using assms(1) by (auto simp: bit_and_iff bit_scan_mask)
  have i: "i = i div 64 * 64 + i mod 64" by simp
  show "i \<le> r" and bound: "r < end"
    using r in_mask i scan_positions(3)[OF assms(1), of r] by linarith+
  show "pos_used ws r" using set tz(3) by (simp add: pos_used_def r)
  fix j assume j: "i \<le> j" "j < r"
  have j': "j < i + scan_take i end" using j r in_mask i by linarith
  note pos = scan_positions[OF assms(1) j(1) j']
  have "j mod 64 < ?tz" using j r pos(2) i by linarith
  then have "\<not> bit ?h (j mod 64)" by (rule tz(2))
  moreover have "bit (scan_mask i end) (j mod 64)"
    using assms(1) pos(2) j' j(1) by (simp add: bit_scan_mask) arith
  ultimately show "\<not> pos_used ws j" using pos(1) by (simp add: pos_used_def bit_and_iff)
qed

lemma first_used_loop_unfold:
  "i < end \<Longrightarrow> i div 64 < length ws \<Longrightarrow>
   first_used_loop ws i end =
     (if ws ! (i div 64) AND scan_mask i end \<noteq> 0
      then Inr (Some (i div 64 * 64 + trailing_zeros (ws ! (i div 64) AND scan_mask i end)))
      else first_used_loop ws (i + scan_take i end) end)"
  by (subst first_used_loop.simps) (simp add: word_at_def BITS_PER_WORD_def)

text \<open>
  The scan never panics inside the slice; it returns the first used position, or none exactly
  when every position is free.
\<close>

definition first_used_spec :: "u64 list \<Rightarrow> nat \<Rightarrow> nat \<Rightarrow> nat option \<Rightarrow> bool" where
  "first_used_spec ws i end res =
     (case res of
        None \<Rightarrow> \<forall>j\<in>{i..<end}. \<not> pos_used ws j
      | Some r \<Rightarrow> r \<in> {i..<end} \<and> pos_used ws r \<and> (\<forall>j\<in>{i..<r}. \<not> pos_used ws j))"

lemma first_used_loop_correct:
  "end \<le> length ws * 64 \<Longrightarrow> \<exists>res. first_used_loop ws i end = Inr res \<and> first_used_spec ws i end res"
proof (induction ws i "end" rule: first_used_loop.induct)
  case (1 ws i "end")
  show ?case
  proof (cases "i < end")
    case False
    then show ?thesis by (simp add: first_used_loop.simps first_used_spec_def)
  next
    case True
    have idx: "i div 64 < length ws" using True "1.prems" by (rule word_index_bound)
    note unfold = first_used_loop_unfold[OF True idx]
    show ?thesis
    proof (cases "ws ! (i div 64) AND scan_mask i end = 0")
      case hit: False
      note found = scan_round_hit[OF True hit refl]
      from found hit show ?thesis by (auto simp: unfold first_used_spec_def)
    next
      case clear: True
      from "1.IH"[OF True _ refl] idx clear "1.prems" obtain res
        where res: "first_used_loop ws (i + scan_take i end) end = Inr res"
          "first_used_spec ws (i + scan_take i end) end res"
        by (auto simp: word_at_def BITS_PER_WORD_def)
      have free: "\<not> pos_used ws j" if "i \<le> j" "j < i + scan_take i end" for j
        using True clear that by (rule scan_round_clear)
      have "first_used_spec ws i end res"
        using res(2) free by (auto simp: first_used_spec_def split: option.splits)
      with res(1) clear show ?thesis by (simp add: unfold)
    qed
  qed
qed

lemma first_used_loop_ge: "first_used_loop ws i end = Inr (Some r) \<Longrightarrow> i \<le> r"
proof (induction ws i "end" rule: first_used_loop.induct)
  case (1 ws i "end")
  from "1.prems" have less: "i < end"
    by (subst (asm) first_used_loop.simps) (auto split: if_splits)
  with "1.prems" have idx: "i div 64 < length ws"
    by (subst (asm) first_used_loop.simps) (auto simp: word_at_def BITS_PER_WORD_def split: if_splits)
  note unfold = first_used_loop_unfold[OF less idx]
  show ?case
  proof (cases "ws ! (i div 64) AND scan_mask i end = 0")
    case True
    with "1.IH"[OF less _ refl] idx "1.prems" show ?thesis
      by (force simp: unfold word_at_def BITS_PER_WORD_def)
  next
    case False
    with "1.prems" scan_round_hit(1)[OF less False refl] show ?thesis by (simp add: unfold)
  qed
qed

text \<open>
  \<open>find_free_run\<close>: the loop over \<open>start_rel\<close>, which jumps to the next aligned start or past
  the first used frame of the candidate run.
\<close>

definition udiv_ceil :: "nat \<Rightarrow> nat \<Rightarrow> nat checked" where
  "udiv_ceil a b = require (b \<noteq> 0) ''attempt to divide by zero'' (Inr (div_ceil a b))"

lemma first_used_rel_ge: "first_used_rel b start len = Inr (Some r) \<Longrightarrow> start \<le> r"
  by (auto simp: first_used_rel_def checked_simps dest: first_used_loop_ge)

lemma next_aligned_greater:
  "0 < a \<Longrightarrow> absf mod a \<noteq> 0 \<Longrightarrow> absf < div_ceil absf a * a"
  using le_div_ceil_mult[of a absf] by (metis le_neq_implies_less mod_mult_self2_is_0)

function find_run_loop :: "frame_bitmap \<Rightarrow> nat \<Rightarrow> nat \<Rightarrow> nat \<Rightarrow> nat option checked" where
  "find_run_loop b n align_frames start_rel =
     and_then (uadd start_rel n) (\<lambda>run_end.
       if run_end \<le> bm_count b then
         and_then (uadd (bm_base b) start_rel) (\<lambda>absf.
           if absf mod align_frames \<noteq> 0 then
             and_then (udiv_ceil absf align_frames) (\<lambda>q.
             and_then (umul q align_frames) (\<lambda>next_abs.
               find_run_loop b n align_frames (next_abs - bm_base b)))
           else
             and_then (first_used_rel b start_rel n) (\<lambda>hit.
               case hit of
                 None \<Rightarrow> Inr (Some absf)
               | Some used_rel \<Rightarrow> find_run_loop b n align_frames (used_rel + 1)))
       else Inr None)"
  by pat_completeness auto
termination
proof (relation "measure (\<lambda>(b, n, a, s). Suc (bm_count b) - s)", goal_cases)
  case (2 b n align_frames start_rel run_end absf q next_abs)
  then have "absf < next_abs" "absf = bm_base b + start_rel" "start_rel \<le> bm_count b"
    by (auto simp: checked_simps udiv_ceil_def intro!: next_aligned_greater)
  then show ?case by auto
next
  case (3 b n align_frames start_rel run_end absf hit used_rel)
  then have "start_rel \<le> used_rel" "start_rel \<le> bm_count b"
    by (auto simp: checked_simps dest!: first_used_rel_ge)
  then show ?case by auto
qed simp

definition find_free_run :: "frame_bitmap \<Rightarrow> nat \<Rightarrow> nat \<Rightarrow> nat option checked" where
  "find_free_run b n align_frames =
     require (n > 0) ''find_free_run: n must be at least 1''
       (require (align_frames > 0) ''find_free_run: align_frames must be at least 1''
         (find_run_loop b n align_frames 0))"

declare find_run_loop.simps [simp del]

subsection \<open>Single-frame operations over the abstraction\<close>

lemma bm_used_pos: "bm_used b rel = pos_used (bm_words b) rel"
  by (simp add: bm_used_def pos_used_def)

lemma bm_free_iff:
  "f \<in> bm_free b \<longleftrightarrow> bm_base b \<le> f \<and> f - bm_base b < bm_count b \<and> \<not> pos_used (bm_words b) (f - bm_base b)"
  by (auto simp: bm_free_def bm_range_def bm_used_pos)

lemma bm_free_subset: "bm_free b \<subseteq> bm_range b"
  by (auto simp: bm_free_def)

lemma bm_free_add_iff:
  "bm_base b + k \<in> bm_free b \<longleftrightarrow> k < bm_count b \<and> \<not> pos_used (bm_words b) k"
  by (simp add: bm_free_iff)

lemma finite_bm_free [simp]: "finite (bm_free b)"
  by (rule finite_subset[OF bm_free_subset]) (simp add: bm_range_def)

lemma word_and_bit_ok:
  "f \<in> bm_range b \<Longrightarrow>
   word_and_bit b f = Inr ((f - bm_base b) div 64, (f - bm_base b) mod 64)"
  by (auto simp: word_and_bit_def Let_def BITS_PER_WORD_def dest: bm_rangeD)

lemma word_and_bit_out: "f \<notin> bm_range b \<Longrightarrow> \<exists>msg. word_and_bit b f = Inl (Assert_failed msg)"
  by (auto simp: word_and_bit_def Let_def bm_range_def require_def)

text \<open>Rewriting one bit of one word changes exactly that position.\<close>

lemma pos_used_update:
  assumes "rel div 64 < length ws"
    and "\<And>k. k < 64 \<Longrightarrow> bit w k \<longleftrightarrow> (if k = rel mod 64 then v else bit (ws ! (rel div 64)) k)"
  shows "pos_used (ws[rel div 64 := w]) j \<longleftrightarrow> (if j = rel then v else pos_used ws j)"
proof (cases "j div 64 = rel div 64")
  case True
  then have "j = rel \<longleftrightarrow> j mod 64 = rel mod 64" by (metis div_mult_mod_eq)
  with True assms show ?thesis by (simp add: pos_used_def)
next
  case False
  then show ?thesis by (auto simp: pos_used_def)
qed

lemma bm_index_bound:
  "bm_wf b \<Longrightarrow> f \<in> bm_range b \<Longrightarrow> (f - bm_base b) div 64 < length (bm_words b)"
  by (auto simp: bm_wf_def dest!: bm_rangeD intro: word_index_bound)

definition same_shape :: "frame_bitmap \<Rightarrow> frame_bitmap \<Rightarrow> bool" where
  "same_shape b b' \<longleftrightarrow> bm_base b' = bm_base b \<and> bm_count b' = bm_count b
     \<and> length (bm_words b') = length (bm_words b)"

lemma same_shape_refl [simp]: "same_shape b b"
  by (simp add: same_shape_def)

lemma same_shape_trans [trans]: "same_shape a b \<Longrightarrow> same_shape b c \<Longrightarrow> same_shape a c"
  by (simp add: same_shape_def)

lemma same_shape_wf: "same_shape b b' \<Longrightarrow> bm_wf b' = bm_wf b"
  by (simp add: same_shape_def bm_wf_def)

lemma same_shape_range: "same_shape b b' \<Longrightarrow> bm_range b' = bm_range b"
  by (simp add: same_shape_def bm_range_def)

lemma set_used_ok:
  assumes "bm_wf b" and "f \<in> bm_range b"
  obtains b' where "set_used b f = Inr b'" "same_shape b b'" "bm_free b' = bm_free b - {f}"
proof -
  let ?rel = "f - bm_base b" and ?ws = "bm_words b"
  let ?w = "?ws ! (?rel div 64) OR push_bit (?rel mod 64) 1"
  let ?b' = "b\<lparr>bm_words := ?ws[?rel div 64 := ?w]\<rparr>"
  note idx = bm_index_bound[OF assms]
  have "bit ?w k \<longleftrightarrow> (if k = ?rel mod 64 then True else bit (?ws ! (?rel div 64)) k)" for k
    by (simp only: bit_or_iff bit_single_u64) auto
  then have pos: "pos_used (bm_words ?b') j \<longleftrightarrow> j = ?rel \<or> pos_used ?ws j" for j
    using pos_used_update[OF idx, of ?w True j] by auto
  have "set_used b f = Inr ?b'"
    using idx by (simp add: set_used_def word_and_bit_ok[OF assms(2)] word_at_def word_put_def)
  moreover have "same_shape b ?b'" by (simp add: same_shape_def)
  moreover have "bm_free ?b' = bm_free b - {f}"
    using pos bm_rangeD[OF assms(2)] by (auto simp: bm_free_iff)
  ultimately show thesis by (rule that)
qed

lemma set_free_eq:
  "word_and_bit b f = Inr (i, k) \<Longrightarrow> i < length (bm_words b) \<Longrightarrow>
   set_free b f = Inr (b\<lparr>bm_words := (bm_words b)[i := bm_words b ! i AND NOT (push_bit k 1)]\<rparr>)"
  unfolding set_free_def by (simp only: and_then.simps word_at_def word_put_def if_True split)

lemma set_free_ok:
  assumes "bm_wf b" and "f \<in> bm_range b"
  obtains b' where "set_free b f = Inr b'" "same_shape b b'" "bm_free b' = insert f (bm_free b)"
proof -
  let ?rel = "f - bm_base b" and ?ws = "bm_words b"
  define w where "w = ?ws ! (?rel div 64) AND NOT (push_bit (?rel mod 64) 1)"
  let ?b' = "b\<lparr>bm_words := ?ws[?rel div 64 := w]\<rparr>"
  note idx = bm_index_bound[OF assms]
  have "bit w k \<longleftrightarrow> (if k = ?rel mod 64 then False else bit (?ws ! (?rel div 64)) k)" if "k < 64" for k
    using that unfolding w_def
    by (simp only: bit_and_iff bit_not_iff bit_single_u64 possible_bit_word) auto
  then have pos: "pos_used (bm_words ?b') j \<longleftrightarrow> j \<noteq> ?rel \<and> pos_used ?ws j" for j
    using pos_used_update[OF idx, of w False j] by auto
  have "set_free b f = Inr ?b'"
    unfolding w_def by (rule set_free_eq[OF word_and_bit_ok[OF assms(2)] idx])
  moreover have "same_shape b ?b'" by (simp add: same_shape_def)
  moreover have "bm_free ?b' = insert f (bm_free b)"
  proof (rule set_eqI)
    fix g
    have "bm_base b \<le> g \<Longrightarrow> g - bm_base b = ?rel \<longleftrightarrow> g = f"
      using bm_rangeD[OF assms(2)] by auto
    with pos bm_rangeD[OF assms(2)] show "g \<in> bm_free ?b' \<longleftrightarrow> g \<in> insert f (bm_free b)"
      by (cases "g = f") (simp_all add: bm_free_iff, blast)
  qed
  ultimately show thesis by (rule that)
qed

lemma is_used_ok:
  assumes "bm_wf b" and "f \<in> bm_range b"
  shows "is_used b f = Inr (f \<notin> bm_free b)"
proof -
  let ?rel = "f - bm_base b"
  have "bm_words b ! (?rel div 64) AND push_bit (?rel mod 64) 1 \<noteq> 0 \<longleftrightarrow> pos_used (bm_words b) ?rel"
    using bit_single_u64[of "?rel mod 64"] mod_less_divisor[of 64 ?rel]
    by (simp add: u64_neq_0_iff bit_and_iff pos_used_def del: push_bit_of_1)
  then show ?thesis
    using bm_index_bound[OF assms] bm_rangeD[OF assms(2)]
    by (simp add: is_used_def word_and_bit_ok[OF assms(2)] word_at_def bm_free_iff)
qed

text \<open>Out of range, every single-frame operation is the assertion failure of the code.\<close>

lemma out_of_range_panics:
  assumes "f \<notin> bm_range b"
  shows "\<exists>msg. set_used b f = Inl (Assert_failed msg)"
    and "\<exists>msg. set_free b f = Inl (Assert_failed msg)"
    and "\<exists>msg. is_used b f = Inl (Assert_failed msg)"
  using word_and_bit_out[OF assms] by (auto simp: set_used_def set_free_def is_used_def)

lemma pos_used_replicate:
  "j < n * 64 \<Longrightarrow> pos_used (replicate n w) j \<longleftrightarrow> bit w (j mod 64)"
  by (simp add: pos_used_def word_index_bound[of j "n * 64"])

lemma fill_used_free: "bm_wf b \<Longrightarrow> same_shape b (fill_used b) \<and> bm_free (fill_used b) = {}"
  by (auto simp: same_shape_def fill_used_def bm_free_iff bm_wf_def pos_used_replicate)

lemma fill_free_free: "bm_wf b \<Longrightarrow> same_shape b (fill_free b) \<and> bm_free (fill_free b) = bm_range b"
  by (auto simp: same_shape_def fill_free_def bm_free_iff bm_range_def bm_wf_def pos_used_replicate)

subsection \<open>Counting the free frames\<close>

definition free_below :: "u64 list \<Rightarrow> nat \<Rightarrow> nat set" where
  "free_below ws n = {j. j < n \<and> \<not> pos_used ws j}"

lemma finite_free_below [simp]: "finite (free_below ws n)"
  by (simp add: free_below_def)

lemma free_below_extend:
  assumes "r \<le> 64"
  shows "card (free_below ws (n * 64 + r))
    = card (free_below ws (n * 64)) + card {k. k < r \<and> \<not> bit (ws ! n) k}"
proof -
  let ?new = "(\<lambda>k. n * 64 + k) ` {k. k < r \<and> \<not> bit (ws ! n) k}"
  have pos: "pos_used ws (n * 64 + k) \<longleftrightarrow> bit (ws ! n) k" if "k < r" for k
    using that assms by (simp add: pos_used_def)
  have "j \<in> ?new" if "n * 64 \<le> j" "j < n * 64 + r" "\<not> pos_used ws j" for j
    using that pos[of "j - n * 64"] by (intro image_eqI[of _ _ "j - n * 64"]) auto
  then have "free_below ws (n * 64 + r) = free_below ws (n * 64) \<union> ?new"
    using pos by (auto simp: free_below_def) (meson not_le)
  moreover have "free_below ws (n * 64) \<inter> ?new = {}" by (auto simp: free_below_def)
  moreover have "card ?new = card {k. k < r \<and> \<not> bit (ws ! n) k}"
    by (intro card_image inj_onI) simp
  ultimately show ?thesis by (simp add: card_Un_disjoint)
qed

lemma sum_count_zeros:
  "n \<le> length ws \<Longrightarrow> sum_list (map count_zeros (take n ws)) = card (free_below ws (n * 64))"
proof (induction n)
  case 0
  then show ?case by (simp add: free_below_def)
next
  case (Suc n)
  then have "sum_list (map count_zeros (take (Suc n) ws))
      = card (free_below ws (n * 64)) + count_zeros (ws ! n)"
    by (simp add: take_Suc_conv_app_nth)
  also have "\<dots> = card (free_below ws (n * 64 + 64))"
    using free_below_extend[of 64 ws n] by (simp add: count_zeros_card)
  finally show ?case by (simp add: add.commute)
qed

lemma count_ones_masked:
  "r < 64 \<Longrightarrow> count_ones (NOT w AND (push_bit r 1 - 1)) = card {k. k < r \<and> \<not> bit w k}"
proof -
  assume "r < 64"
  then have "k < 64 \<and> bit (NOT w AND (push_bit r 1 - 1)) k \<longleftrightarrow> k < r \<and> \<not> bit w k" for k
    unfolding minus_one_mask_u64
    by (auto simp: bit_and_iff bit_not_iff bit_mask_iff possible_bit_word)
  then show ?thesis by (simp only: count_ones_card)
qed

lemma count_free_below:
  assumes "bm_wf b"
  shows "count_free b = Inr (card (free_below (bm_words b) (bm_count b)))"
proof -
  let ?n = "bm_count b div 64" and ?r = "bm_count b mod 64" and ?ws = "bm_words b"
  have len: "bm_count b \<le> length ?ws * 64" using assms by (simp add: bm_wf_def)
  then have n: "?n \<le> length ?ws" by (simp add: div_le_mono[of "bm_count b" "length ?ws * 64" 64, simplified])
  have split: "card (free_below ?ws (bm_count b))
      = card (free_below ?ws (?n * 64)) + card {k. k < ?r \<and> \<not> bit (?ws ! ?n) k}"
    using free_below_extend[of ?r ?ws ?n] by simp
  have "?n < length ?ws" if "0 < ?r"
    using that len by (metis add_cancel_left_right div_mult_mod_eq le_antisym n nat_less_le not_gr0
        nat_mult_le_cancel_disj mult.commute le_add1 order_trans)
  with n split show ?thesis
    by (auto simp: count_free_def Let_def BITS_PER_WORD_def sum_count_zeros word_at_def
        count_ones_masked simp del: push_bit_of_1)
qed

lemma bm_free_image: "bm_free b = (\<lambda>j. bm_base b + j) ` free_below (bm_words b) (bm_count b)"
  by (force simp: bm_free_iff free_below_def image_iff)

lemma count_free_ok: "bm_wf b \<Longrightarrow> count_free b = Inr (card (bm_free b))"
  by (simp add: count_free_below bm_free_image card_image inj_on_def)

subsection \<open>First fit\<close>

text \<open>
  A free run at absolute frame \<open>g\<close>, and what first fit promises: the lowest aligned start of a
  free run, or none when no aligned run exists.
\<close>

definition free_run :: "frame_bitmap \<Rightarrow> nat \<Rightarrow> nat \<Rightarrow> nat \<Rightarrow> bool" where
  "free_run b n a g \<longleftrightarrow> a dvd g \<and> {g..<g + n} \<subseteq> bm_free b"

definition first_fit :: "frame_bitmap \<Rightarrow> nat \<Rightarrow> nat \<Rightarrow> nat \<Rightarrow> nat option \<Rightarrow> bool" where
  "first_fit b n a lo res =
     (case res of
        None \<Rightarrow> \<forall>g. lo \<le> g \<longrightarrow> \<not> free_run b n a g
      | Some f \<Rightarrow> lo \<le> f \<and> free_run b n a f \<and> (\<forall>g. lo \<le> g \<longrightarrow> g < f \<longrightarrow> \<not> free_run b n a g))"

lemma first_fit_skip:
  assumes "first_fit b n a hi res" and "lo \<le> hi"
    and "\<And>g. lo \<le> g \<Longrightarrow> g < hi \<Longrightarrow> \<not> free_run b n a g"
  shows "first_fit b n a lo res"
  using assms by (auto simp: first_fit_def split: option.splits) (meson not_le)+

lemma free_run_bounds:
  assumes "free_run b n a g" and "0 < n"
  shows "bm_base b \<le> g" and "g + n \<le> bm_base b + bm_count b"
proof -
  have "g \<in> {g..<g + n}" "g + n - 1 \<in> {g..<g + n}" using assms(2) by auto
  then have "g \<in> bm_range b" "g + n - 1 \<in> bm_range b"
    using assms(1) bm_free_subset[of b] by (auto simp only: free_run_def)
  then show "bm_base b \<le> g" "g + n \<le> bm_base b + bm_count b"
    using assms(2) by (auto simp: bm_range_def)
qed

lemma first_used_rel_run:
  assumes "bm_wf b" and "start + n \<le> bm_count b"
  obtains res where "first_used_rel b start n = Inr res"
    and "first_used_spec (bm_words b) start (start + n) res"
proof -
  have "start + n \<le> length (bm_words b) * 64" and "start + n < u64_limit"
    using assms by (auto simp: bm_wf_def)
  with first_used_loop_correct[of "start + n" "bm_words b" start] that show thesis
    by (auto simp: first_used_rel_def)
qed

lemma find_run_loop_correct:
  assumes "bm_wf b" and "0 < n" and "0 < a" and "bm_base b + bm_count b + a + n < u64_limit"
    and "start \<le> bm_count b + a"
  shows "\<exists>res. find_run_loop b n a start = Inr res \<and> first_fit b n a (bm_base b + start) res"
  using assms
proof (induction b n a start rule: find_run_loop.induct)
  case (1 b n a start)
  let ?base = "bm_base b" and ?absf = "bm_base b + start"
  note prems = "1.prems"
  have ov: "uadd start n = Inr (start + n)" "uadd ?base start = Inr ?absf"
    using prems by auto
  note unfold = find_run_loop.simps[of b n a start]
  consider (past) "bm_count b < start + n"
    | (unaligned) "start + n \<le> bm_count b" "?absf mod a \<noteq> 0"
    | (aligned) "start + n \<le> bm_count b" "?absf mod a = 0"
    by linarith
  then show ?case
  proof cases
    case past
    then have "\<not> free_run b n a g" if "?absf \<le> g" for g
      using that free_run_bounds[of b n a g] prems(2) by linarith
    then show ?thesis using past by (simp add: unfold ov first_fit_def)
  next
    case unaligned
    let ?next = "div_ceil ?absf a * a"
    have lt: "?next < ?absf + a" and gt: "?absf < ?next"
      using prems(3) unaligned(2) by (auto intro: div_ceil_mult_less next_aligned_greater)
    have q: "udiv_ceil ?absf a = Inr (div_ceil ?absf a)" "umul (div_ceil ?absf a) a = Inr ?next"
      using prems lt unaligned(1) by (auto simp: udiv_ceil_def)
    have "?next - ?base \<le> bm_count b + a" using lt unaligned(1) by linarith
    with "1.IH"(1)[OF ov(1) unaligned(1) ov(2) unaligned(2) q(1) q(2)] prems
    obtain res where res: "find_run_loop b n a (?next - ?base) = Inr res"
      "first_fit b n a (?base + (?next - ?base)) res" by blast
    have "first_fit b n a ?absf res"
    proof (rule first_fit_skip[OF res(2)])
      fix g assume "?absf \<le> g" "g < ?base + (?next - ?base)"
      then show "\<not> free_run b n a g"
        using div_ceil_mult_least[OF prems(3), of ?absf g] gt by (auto simp: free_run_def)
    qed (use gt in simp)
    with res(1) show ?thesis using unaligned by (simp add: unfold ov q)
  next
    case aligned
    obtain hit where hit: "first_used_rel b start n = Inr hit"
      and spec: "first_used_spec (bm_words b) start (start + n) hit"
      using prems(1) aligned(1) by (rule first_used_rel_run)
    show ?thesis
    proof (cases hit)
      case None
      have "g \<in> bm_free b" if "g \<in> {?absf..<?absf + n}" for g
      proof -
        have "g - ?base \<in> {start..<start + n}" using that by auto
        then have "?base + (g - ?base) \<in> bm_free b"
          using spec None aligned(1) unfolding bm_free_add_iff by (auto simp: first_used_spec_def)
        with that show ?thesis by simp
      qed
      then have "{?absf..<?absf + n} \<subseteq> bm_free b" by blast
      with aligned(2) have "first_fit b n a ?absf (Some ?absf)"
        by (auto simp: first_fit_def free_run_def mod_eq_0_iff_dvd)
      then show ?thesis using aligned None hit by (simp add: unfold ov)
    next
      case (Some r)
      with spec have r: "start \<le> r" "r < start + n" "pos_used (bm_words b) r"
        by (auto simp: first_used_spec_def)
      have "r + 1 \<le> bm_count b + a" using r(2) aligned(1) by simp
      with "1.IH"(2)[OF ov(1) aligned(1) ov(2) _ hit Some] aligned(2) prems
      obtain res where res: "find_run_loop b n a (r + 1) = Inr res"
        "first_fit b n a (?base + (r + 1)) res" by blast
      have "first_fit b n a ?absf res"
      proof (rule first_fit_skip[OF res(2)])
        fix g assume "?absf \<le> g" "g < ?base + (r + 1)"
        then have "?base + r \<in> {g..<g + n}" using r by auto
        moreover have "?base + r \<notin> bm_free b" using r(3) by (simp add: bm_free_add_iff)
        ultimately show "\<not> free_run b n a g" by (auto simp: free_run_def)
      qed (use r in simp)
      with res(1) show ?thesis using aligned Some hit by (simp add: unfold ov)
    qed
  qed
qed

lemma find_free_run_ok:
  assumes "bm_wf b" and "0 < n" and "0 < a" and "bm_base b + bm_count b + a + n < u64_limit"
  obtains res where "find_free_run b n a = Inr res" and "first_fit b n a (bm_base b) res"
proof -
  from find_run_loop_correct[OF assms, of 0] that assms(2,3) show thesis
    by (auto simp: find_free_run_def)
qed

subsection \<open>Loops over frame ranges\<close>

lemma for_each_set_used:
  assumes "bm_wf b" and "set fs \<subseteq> bm_range b"
  obtains b' where "for_each fs (\<lambda>f b. set_used b f) b = Inr b'" "same_shape b b'"
    "bm_free b' = bm_free b - set fs"
proof -
  let ?P = "\<lambda>done b'. same_shape b b' \<and> bm_free b' = bm_free b - set done"
  have "\<exists>b'. for_each fs (\<lambda>f b. set_used b f) b = Inr b' \<and> ?P fs b'"
  proof (rule for_each_invariant)
    fix pre f rest c
    assume fs: "fs = pre @ f # rest" and c: "?P pre c"
    have "f \<in> bm_range c" "bm_wf c"
      using assms c fs same_shape_range same_shape_wf by auto
    from set_used_ok[OF this(2,1)] obtain d
      where d: "set_used c f = Inr d" "same_shape c d" "bm_free d = bm_free c - {f}" .
    then show "\<exists>s'. set_used c f = Inr s' \<and> ?P (pre @ [f]) s'"
      using c same_shape_trans by (intro exI[of _ d]) auto
  qed simp
  with that show thesis by blast
qed

lemma for_each_set_free:
  assumes "bm_wf b" and "set fs \<subseteq> bm_range b"
  obtains b' where "for_each fs (\<lambda>f b. set_free b f) b = Inr b'" "same_shape b b'"
    "bm_free b' = bm_free b \<union> set fs"
proof -
  let ?P = "\<lambda>done b'. same_shape b b' \<and> bm_free b' = bm_free b \<union> set done"
  have "\<exists>b'. for_each fs (\<lambda>f b. set_free b f) b = Inr b' \<and> ?P fs b'"
  proof (rule for_each_invariant)
    fix pre f rest c
    assume fs: "fs = pre @ f # rest" and c: "?P pre c"
    have "f \<in> bm_range c" "bm_wf c"
      using assms c fs same_shape_range same_shape_wf by auto
    from set_free_ok[OF this(2,1)] obtain d
      where d: "set_free c f = Inr d" "same_shape c d" "bm_free d = insert f (bm_free c)" .
    then show "\<exists>s'. set_free c f = Inr s' \<and> ?P (pre @ [f]) s'"
      using c same_shape_trans by (intro exI[of _ d]) auto
  qed simp
  with that show thesis by blast
qed

text \<open>Partial correctness without size bounds: any run the search returns is free and aligned.\<close>

lemma find_run_loop_sound:
  "find_run_loop b n a start = Inr (Some f) \<Longrightarrow> bm_wf b \<Longrightarrow> 0 < n \<Longrightarrow> free_run b n a f"
proof (induction b n a start rule: find_run_loop.induct)
  case (1 b n a start)
  from "1.prems"(1) have ov: "uadd start n = Inr (start + n)" "uadd (bm_base b) start = Inr (bm_base b + start)"
    and fit: "start + n \<le> bm_count b"
    by (subst (asm) find_run_loop.simps, auto simp: checked_simps split: if_splits)+
  note unfold = find_run_loop.simps[of b n a start]
  show ?case
  proof (cases "(bm_base b + start) mod a = 0")
    case False
    with "1.prems"(1) fit obtain q next_abs where
      q: "udiv_ceil (bm_base b + start) a = Inr q" "umul q a = Inr next_abs"
      "find_run_loop b n a (next_abs - bm_base b) = Inr (Some f)"
      by (auto simp: unfold ov and_then_Inr_iff)
    show ?thesis
      by (rule "1.IH"(1)[OF ov(1) fit ov(2) False q]) (use "1.prems" in auto)
  next
    case True
    obtain hit where hit: "first_used_rel b start n = Inr hit"
      "first_used_spec (bm_words b) start (start + n) hit"
      using "1.prems"(2) fit by (rule first_used_rel_run)
    show ?thesis
    proof (cases hit)
      case None
      have "g \<in> bm_free b" if "g \<in> {bm_base b + start..<bm_base b + start + n}" for g
      proof -
        have "g - bm_base b \<in> {start..<start + n}" using that by auto
        then have "bm_base b + (g - bm_base b) \<in> bm_free b"
          using hit(2) None fit unfolding bm_free_add_iff by (auto simp: first_used_spec_def)
        with that show ?thesis by simp
      qed
      moreover have "f = bm_base b + start"
        using "1.prems"(1) None hit(1) True fit by (simp add: unfold ov)
      ultimately show ?thesis using True by (auto simp: free_run_def)
    next
      case (Some r)
      from "1.prems"(1) Some hit(1) True fit have "find_run_loop b n a (r + 1) = Inr (Some f)"
        by (simp add: unfold ov)
      moreover have "\<not> (bm_base b + start) mod a \<noteq> 0" using True by simp
      ultimately show ?thesis
        using "1.IH"(2)[OF ov(1) fit ov(2) _ hit(1) Some] "1.prems"(2,3) by blast
    qed
  qed
qed

lemma find_free_run_sound:
  "find_free_run b n a = Inr (Some f) \<Longrightarrow> bm_wf b \<Longrightarrow> 0 < n \<and> 0 < a \<and> free_run b n a f"
  by (auto simp: find_free_run_def checked_simps intro: find_run_loop_sound)


end
