(* ===== verification/Frame_Pool.thy ===== *)
theory Frame_Pool
  imports Prelude "HOL-Library.Multiset"
begin

text \<open>
  The interface between the physical memory manager and its clients (kernel stacks, page tables,
  the heap, the ELF loader): a pool of frames with \<open>alloc\<close> and \<open>release\<close>.  The laws are what a
  client relies on; the lemmas proved from them once are about whole sequences of allocations.
\<close>

text \<open>Allocating \<open>n\<close> frames one after the other, giving up at the first refusal.\<close>

fun alloc_many :: "('s \<Rightarrow> ('a option \<times> 's) checked) \<Rightarrow> nat \<Rightarrow> 's \<Rightarrow> ('a list \<times> bool \<times> 's) checked" where
  "alloc_many alloc 0 s = Inr ([], True, s)"
| "alloc_many alloc (Suc n) s =
     and_then (alloc s) (\<lambda>(r, s').
       case r of
         None \<Rightarrow> Inr ([], False, s')
       | Some a \<Rightarrow> and_then (alloc_many alloc n s') (\<lambda>(as, ok, s''). Inr (a # as, ok, s'')))"

locale frame_pool =
  fixes alloc :: "'s \<Rightarrow> ('a option \<times> 's) checked"
    and release :: "'a \<Rightarrow> 's \<Rightarrow> 's checked"
    and avail :: "'s \<Rightarrow> 'a set"
    and managed :: "'s \<Rightarrow> 'a set"
    and inv :: "'s \<Rightarrow> bool"
  assumes avail_managed: "inv s \<Longrightarrow> avail s \<subseteq> managed s"
    and alloc_total: "inv s \<Longrightarrow> \<exists>r s'. alloc s = Inr (r, s')"
    and alloc_some: "inv s \<Longrightarrow> alloc s = Inr (Some a, s') \<Longrightarrow>
      a \<in> avail s \<and> avail s' = avail s - {a} \<and> managed s' = managed s \<and> inv s'"
    and alloc_none: "inv s \<Longrightarrow> alloc s = Inr (None, s') \<Longrightarrow>
      avail s' = avail s \<and> managed s' = managed s \<and> inv s'"
    and release_lent: "inv s \<Longrightarrow> a \<in> managed s - avail s \<Longrightarrow>
      \<exists>s'. release a s = Inr s' \<and> avail s' = insert a (avail s) \<and> managed s' = managed s \<and> inv s'"
    and release_avail: "inv s \<Longrightarrow> a \<in> avail s \<Longrightarrow> \<exists>e. release a s = Inl e"
begin

text \<open>A sequence of allocations returns, and never hands the same frame out twice.\<close>

lemma alloc_many_spec:
  "inv s \<Longrightarrow> \<exists>as ok s'. alloc_many alloc n s = Inr (as, ok, s') \<and> distinct as
     \<and> set as \<subseteq> avail s \<and> avail s' = avail s - set as \<and> managed s' = managed s \<and> inv s'
     \<and> (ok \<longleftrightarrow> length as = n)"
proof (induction n arbitrary: s)
  case (Suc n)
  obtain r s' where r: "alloc s = Inr (r, s')" using alloc_total[OF Suc.prems] by blast
  show ?case
  proof (cases r)
    case None
    with r alloc_none[OF Suc.prems, of s'] show ?thesis by simp
  next
    case (Some a)
    with r have a: "a \<in> avail s" "avail s' = avail s - {a}" "managed s' = managed s" "inv s'"
      using alloc_some[OF Suc.prems, of a s'] by auto
    from Suc.IH[OF a(4)] obtain as ok s''
      where "alloc_many alloc n s' = Inr (as, ok, s'')" "distinct as" "set as \<subseteq> avail s'"
        "avail s'' = avail s' - set as" "managed s'' = managed s'" "inv s''" "ok \<longleftrightarrow> length as = n"
      by blast
    with a r Some show ?thesis by auto
  qed
qed simp

text \<open>Releasing lent frames, in any order, makes exactly those available again.\<close>

lemma release_all_spec:
  "inv s \<Longrightarrow> distinct as \<Longrightarrow> set as \<subseteq> managed s - avail s \<Longrightarrow>
   \<exists>s'. for_each as release s = Inr s' \<and> avail s' = avail s \<union> set as \<and> managed s' = managed s \<and> inv s'"
proof (induction as arbitrary: s)
  case (Cons a as)
  then obtain t where t: "release a s = Inr t" "avail t = insert a (avail s)"
    "managed t = managed s" "inv t"
    using release_lent[of s a] by auto
  with Cons.IH[of t] Cons.prems show ?case by auto
qed simp

lemma alloc_many_release_all:
  assumes "inv s" and "alloc_many alloc n s = Inr (as, ok, s')" and "mset as' = mset as"
  shows "\<exists>t. for_each as' release s' = Inr t \<and> avail t = avail s \<and> inv t"
proof -
  from alloc_many_spec[OF assms(1), of n] assms(2)
  have *: "distinct as" "set as \<subseteq> avail s" "avail s' = avail s - set as" "managed s' = managed s"
    "inv s'" by auto
  have "distinct as'" "set as' = set as"
    using assms(3) *(1) by (metis mset_eq_imp_distinct_iff, metis mset_eq_setD)
  moreover have "set as \<subseteq> managed s' - avail s'" "avail s' \<union> set as = avail s"
    using *(2-4) avail_managed[OF assms(1)] by auto
  ultimately show ?thesis using release_all_spec[OF *(5), of as'] by auto
qed

text \<open>A frame cannot be released twice in a row.\<close>

lemma double_release_panics:
  assumes "inv s" and "a \<in> managed s - avail s" and "release a s = Inr s'"
  shows "\<exists>e. release a s' = Inl e"
  using release_lent[OF assms(1,2)] assms(3) release_avail[of s' a] by auto

end

end
