(* ===== verification/Pmm.thy ===== *)
theory Pmm
  imports Bitmap Frame_Pool
begin

text \<open>
  \<open>kernel/src/mm/pmm.rs\<close> with the part of \<open>kernel/src/mm/hhdm.rs\<close> it calls: the physical
  memory manager built from the boot loader's memory map.  The state \<open>mm_state\<close> holds the one
  \<open>PMM\<close> instance, the fault-injection counters, the HHDM bookkeeping and the bytes of physical
  memory, which the HHDM aliases at \<open>phys + offset\<close>.
\<close>

subsection \<open>State\<close>

text \<open>The entry types of the boot loader's memory map that \<open>type_name\<close> tells apart.\<close>

datatype memmap_type = MEMMAP_USABLE | MEMMAP_RESERVED | MEMMAP_ACPI_RECLAIMABLE
  | MEMMAP_ACPI_NVS | MEMMAP_BAD_MEMORY | MEMMAP_BOOTLOADER_RECLAIMABLE
  | MEMMAP_EXECUTABLE_AND_MODULES | MEMMAP_FRAMEBUFFER | MEMMAP_MAPPED_RESERVED | MEMMAP_OTHER nat

record mem_entry =
  me_base :: nat
  me_length :: nat
  me_type :: memmap_type

definition MAX_USABLE_REGIONS :: nat where "MAX_USABLE_REGIONS = 64"
definition LOW_MEM_LIMIT :: nat where "LOW_MEM_LIMIT = 1048576"
definition LOW_MEM_FRAME_COUNT :: nat where "LOW_MEM_FRAME_COUNT = LOW_MEM_LIMIT div FRAME_SIZE"
definition LOW_BITMAP_WORD_COUNT :: nat where
  "LOW_BITMAP_WORD_COUNT = div_ceil LOW_MEM_FRAME_COUNT 64"

record pmm =
  pm_bitmap :: frame_bitmap
  pm_bitmap_base :: nat
  pm_bitmap_bytes :: nat
  pm_low_bitmap :: frame_bitmap
  pm_low_reserved :: nat
  pm_regions :: "(nat \<times> nat) list"

record pmm_stats =
  st_total :: nat
  st_used :: nat
  st_free :: nat
  st_low_reserved :: nat

record mm_state =
  mm_pmm :: "pmm option"
  mm_inject_skip :: nat
  mm_inject_failures :: nat
  mm_hhdm_offset :: nat
  mm_phys_end :: nat
  mm_ram :: "nat \<Rightarrow> u8"

subsection \<open>HHDM\<close>

definition hhdm_init :: "nat \<Rightarrow> nat \<Rightarrow> mm_state \<Rightarrow> mm_state" where
  "hhdm_init off phys_end s = s\<lparr>mm_hhdm_offset := off, mm_phys_end := phys_end\<rparr>"

definition hhdm_offset :: "mm_state \<Rightarrow> nat checked" where
  "hhdm_offset s =
     require (mm_hhdm_offset s \<noteq> u64_limit - 1) ''mm::hhdm::init was never called''
       (Inr (mm_hhdm_offset s))"

definition phys_to_virt :: "mm_state \<Rightarrow> nat \<Rightarrow> nat checked" where
  "phys_to_virt s phys = and_then (hhdm_offset s) (\<lambda>off. uadd phys off)"

definition virt_to_phys_hhdm :: "mm_state \<Rightarrow> nat \<Rightarrow> nat checked" where
  "virt_to_phys_hhdm s addr =
     and_then (hhdm_offset s) (\<lambda>off.
     if addr \<ge> off then
       and_then (uadd off (mm_phys_end s)) (\<lambda>limit.
         require (addr < limit) ''virt_to_phys_hhdm: outside the HHDM range'' (Inr (addr - off)))
     else Inl (Assert_failed ''virt_to_phys_hhdm: outside the HHDM range''))"

subsection \<open>Queries of the \<open>Pmm\<close> struct\<close>

fun any_region :: "nat \<Rightarrow> (nat \<times> nat) list \<Rightarrow> bool checked" where
  "any_region addr [] = Inr False"
| "any_region addr ((base, len) # rs) =
     (if addr \<ge> base then
        and_then (uadd addr FRAME_SIZE) (\<lambda>frame_end.
        and_then (uadd base len) (\<lambda>region_end.
          if frame_end \<le> region_end then Inr True else any_region addr rs))
      else any_region addr rs)"

definition is_usable_frame :: "pmm \<Rightarrow> nat \<Rightarrow> bool checked" where
  "is_usable_frame p frame =
     and_then (umul frame FRAME_SIZE) (\<lambda>addr.
     and_then (uadd (pm_bitmap_base p) (pm_bitmap_bytes p)) (\<lambda>bitmap_end.
       if addr \<ge> pm_bitmap_base p \<and> addr < bitmap_end then Inr False
       else any_region addr (pm_regions p)))"

text \<open>\<open>bitmap_for\<close> borrows the bitmap that owns a frame: here a reader and a writer.\<close>

definition bitmap_for :: "pmm \<Rightarrow> nat \<Rightarrow> frame_bitmap" where
  "bitmap_for p frame =
     (if frame < bm_count (pm_low_bitmap p) then pm_low_bitmap p else pm_bitmap p)"

definition put_bitmap_for :: "pmm \<Rightarrow> nat \<Rightarrow> frame_bitmap \<Rightarrow> pmm" where
  "put_bitmap_for p frame b =
     (if frame < bm_count (pm_low_bitmap p) then p\<lparr>pm_low_bitmap := b\<rparr> else p\<lparr>pm_bitmap := b\<rparr>)"

definition with_pmm :: "(pmm \<Rightarrow> ('r \<times> pmm) checked) \<Rightarrow> mm_state \<Rightarrow> ('r \<times> mm_state) checked" where
  "with_pmm f s =
     (case mm_pmm s of
        None \<Rightarrow> Inl (Assert_failed ''mm::pmm::init was never called'')
      | Some p \<Rightarrow> and_then (f p) (\<lambda>(r, p'). Inr (r, s\<lparr>mm_pmm := Some p'\<rparr>)))"

definition with_pmm_ref :: "(pmm \<Rightarrow> 'r checked) \<Rightarrow> mm_state \<Rightarrow> 'r checked" where
  "with_pmm_ref f s =
     (case mm_pmm s of
        None \<Rightarrow> Inl (Assert_failed ''mm::pmm::init was never called'')
      | Some p \<Rightarrow> f p)"

subsection \<open>Initialisation\<close>

definition usable :: "mem_entry \<Rightarrow> bool" where
  "usable e \<longleftrightarrow> me_type e = MEMMAP_USABLE"

text \<open>The first pass: usable bytes, number of usable regions, highest usable end.\<close>

definition scan_entry :: "mem_entry \<Rightarrow> nat \<times> nat \<times> nat \<Rightarrow> (nat \<times> nat \<times> nat) checked" where
  "scan_entry e = (\<lambda>(bytes, regions, highest).
     and_then (uadd (me_base e) (me_length e)) (\<lambda>end.
       if usable e then
         and_then (uadd bytes (me_length e)) (\<lambda>bytes'. Inr (bytes', regions + 1, max highest end))
       else Inr (bytes, regions, highest)))"

text \<open>\<open>max_by_key(|e| e.length)\<close>: the last of the longest entries.\<close>

fun max_by_length :: "mem_entry list \<Rightarrow> mem_entry option" where
  "max_by_length [] = None"
| "max_by_length (e # es) =
     (case max_by_length es of
        None \<Rightarrow> Some e
      | Some m \<Rightarrow> Some (if me_length e \<le> me_length m then m else e))"

definition bitmap_region_for :: "mem_entry list \<Rightarrow> nat \<Rightarrow> mem_entry option" where
  "bitmap_region_for entries bitmap_bytes =
     max_by_length (filter (\<lambda>e. bitmap_bytes \<le> me_length e)
       (filter (\<lambda>e. LOW_MEM_LIMIT \<le> me_base e) (filter usable entries)))"

text \<open>The words the bitmap slice finds in memory before \<open>fill_used\<close>.\<close>

definition ram_word :: "(nat \<Rightarrow> u8) \<Rightarrow> nat \<Rightarrow> u64" where
  "ram_word ram a = fold (\<lambda>i w. w OR push_bit (8 * i) (ucast (ram (a + i)))) [0..<8] 0"

definition free_entry :: "mem_entry \<Rightarrow> frame_bitmap \<Rightarrow> frame_bitmap checked" where
  "free_entry e b =
     and_then (uadd (me_base e) (me_length e)) (\<lambda>end.
       for_each [div_ceil (me_base e) FRAME_SIZE..<end div FRAME_SIZE] (\<lambda>f b. set_free b f) b)"

definition move_low_frame ::
    "nat \<Rightarrow> frame_bitmap \<times> frame_bitmap \<times> nat \<Rightarrow> (frame_bitmap \<times> frame_bitmap \<times> nat) checked" where
  "move_low_frame f = (\<lambda>(bitmap, low, reserved).
     and_then (set_used bitmap f) (\<lambda>bitmap'.
     and_then (set_free low f) (\<lambda>low'. Inr (bitmap', low', reserved + 1))))"

definition move_low_entry ::
    "nat \<Rightarrow> mem_entry \<Rightarrow> frame_bitmap \<times> frame_bitmap \<times> nat \<Rightarrow> (frame_bitmap \<times> frame_bitmap \<times> nat) checked" where
  "move_low_entry low_count e st =
     and_then (uadd (me_base e) (me_length e)) (\<lambda>end.
       let start_frame = div_ceil (me_base e) FRAME_SIZE;
           end_frame = min (end div FRAME_SIZE) low_count in
       if start_frame \<ge> end_frame then Inr st
       else for_each [start_frame..<end_frame] move_low_frame st)"

definition usable_table :: "mem_entry list \<Rightarrow> (nat \<times> nat) list" where
  "usable_table entries =
     map (\<lambda>e. (me_base e, me_length e)) (take MAX_USABLE_REGIONS (filter usable entries))"

definition build_pmm :: "mem_entry list \<Rightarrow> mm_state \<Rightarrow> pmm checked" where
  "build_pmm entries s =
     and_then (for_each entries scan_entry (0, 0, 0)) (\<lambda>(usable_bytes, regions, highest).
     let total_frames = highest div FRAME_SIZE;
         bitmap_words = div_ceil total_frames 64;
         bitmap_bytes = bitmap_words * 8 in
     require (total_frames > 0) ''mm::pmm::init: no USABLE memory reported by Limine''
     (case bitmap_region_for entries bitmap_bytes of
        None \<Rightarrow> Inl (Assert_failed ''mm::pmm::init: no USABLE region is large enough for the bitmap'')
      | Some region \<Rightarrow>
     let bitmap_base = me_base region in
     and_then (phys_to_virt s bitmap_base) (\<lambda>bitmap_virt.
     and_then (bitmap_new (map (\<lambda>i. ram_word (mm_ram s) (bitmap_base + 8 * i)) [0..<bitmap_words]) 0 total_frames)
       (\<lambda>bitmap0.
     and_then (for_each (filter usable entries) free_entry (fill_used bitmap0)) (\<lambda>bitmap1.
     let first = bitmap_base div FRAME_SIZE; frames = div_ceil bitmap_bytes FRAME_SIZE in
     and_then (uadd first frames) (\<lambda>last.
     and_then (for_each [first..<last] (\<lambda>f b. set_used b f) bitmap1) (\<lambda>bitmap2.
     let low_count = min LOW_MEM_FRAME_COUNT total_frames in
     and_then (bitmap_new (replicate LOW_BITMAP_WORD_COUNT 0) 0 low_count) (\<lambda>low0.
     and_then (for_each (filter usable entries) (move_low_entry low_count)
                 (bitmap2, fill_used low0, 0)) (\<lambda>(bitmap3, low1, reserved).
     and_then (set_used bitmap3 0) (\<lambda>bitmap4.
     and_then (set_used low1 0) (\<lambda>low2.
     and_then (count_free bitmap4) (\<lambda>free_frames.
       Inr \<lparr>pm_bitmap = bitmap4, pm_bitmap_base = bitmap_base, pm_bitmap_bytes = bitmap_bytes,
            pm_low_bitmap = low2, pm_low_reserved = reserved,
            pm_regions = usable_table entries\<rparr>))))))))))))"

definition pmm_init :: "mem_entry list \<Rightarrow> mm_state \<Rightarrow> mm_state checked" where
  "pmm_init entries s =
     and_then (build_pmm entries s) (\<lambda>p. Inr (s\<lparr>mm_pmm := Some p\<rparr>))"

subsection \<open>Allocation and release\<close>

definition take_injected_failure :: "mm_state \<Rightarrow> bool \<times> mm_state" where
  "take_injected_failure s =
     (if mm_inject_skip s > 0 then (False, s\<lparr>mm_inject_skip := mm_inject_skip s - 1\<rparr>)
      else if mm_inject_failures s > 0
        then (True, s\<lparr>mm_inject_failures := mm_inject_failures s - 1\<rparr>)
      else (False, s))"

definition inject_alloc_failures_after :: "nat \<Rightarrow> nat \<Rightarrow> mm_state \<Rightarrow> mm_state" where
  "inject_alloc_failures_after skip n s = s\<lparr>mm_inject_skip := skip, mm_inject_failures := n\<rparr>"

definition inject_alloc_failures :: "nat \<Rightarrow> mm_state \<Rightarrow> mm_state" where
  "inject_alloc_failures n s = inject_alloc_failures_after 0 n s"

text \<open>The bodies of the closures that \<open>alloc_frame\<close> and its kin pass to \<open>with_pmm\<close>.\<close>

definition pmm_alloc_one :: "pmm \<Rightarrow> (nat option \<times> pmm) checked" where
  "pmm_alloc_one p =
     and_then (find_free_run (pm_bitmap p) 1 1) (\<lambda>found.
       case found of
         None \<Rightarrow> Inr (None, p)
       | Some frame \<Rightarrow>
           and_then (set_used (pm_bitmap p) frame) (\<lambda>b.
           and_then (umul frame FRAME_SIZE) (\<lambda>phys.
             Inr (Some phys, p\<lparr>pm_bitmap := b\<rparr>))))"

definition pmm_alloc_low :: "pmm \<Rightarrow> (nat option \<times> pmm) checked" where
  "pmm_alloc_low p =
     and_then (find_free_run (pm_low_bitmap p) 1 1) (\<lambda>found.
       case found of
         None \<Rightarrow> Inr (None, p)
       | Some frame \<Rightarrow>
           and_then (set_used (pm_low_bitmap p) frame) (\<lambda>b.
           and_then (umul frame FRAME_SIZE) (\<lambda>phys.
             Inr (Some phys, p\<lparr>pm_low_bitmap := b\<rparr>))))"

definition pmm_alloc_run :: "nat \<Rightarrow> nat \<Rightarrow> pmm \<Rightarrow> (nat option \<times> pmm) checked" where
  "pmm_alloc_run n align_frames p =
     and_then (find_free_run (pm_bitmap p) n align_frames) (\<lambda>found.
       case found of
         None \<Rightarrow> Inr (None, p)
       | Some start \<Rightarrow>
           and_then (uadd start n) (\<lambda>end.
           and_then (for_each [start..<end] (\<lambda>f b. set_used b f) (pm_bitmap p)) (\<lambda>b.
           and_then (umul start FRAME_SIZE) (\<lambda>phys.
             Inr (Some phys, p\<lparr>pm_bitmap := b\<rparr>)))))"

definition pmm_free_one :: "nat \<Rightarrow> pmm \<Rightarrow> (unit \<times> pmm) checked" where
  "pmm_free_one frame p =
     and_then (is_usable_frame p frame) (\<lambda>ok.
     require ok ''free_frame: not a usable frame''
     (and_then (is_used (bitmap_for p frame) frame) (\<lambda>used.
      require used ''free_frame: double free''
      (and_then (set_free (bitmap_for p frame) frame) (\<lambda>b.
        Inr ((), put_bitmap_for p frame b))))))"

definition alloc_frame :: "mm_state \<Rightarrow> (nat option \<times> mm_state) checked" where
  "alloc_frame s =
     (let (failed, s') = take_injected_failure s in
      if failed then Inr (None, s') else with_pmm pmm_alloc_one s')"

definition zero_frame :: "nat \<Rightarrow> (nat \<Rightarrow> u8) \<Rightarrow> nat \<Rightarrow> u8" where
  "zero_frame phys ram = (\<lambda>a. if phys \<le> a \<and> a < phys + FRAME_SIZE then 0 else ram a)"

definition alloc_frame_zeroed :: "mm_state \<Rightarrow> (nat option \<times> mm_state) checked" where
  "alloc_frame_zeroed s =
     and_then (alloc_frame s) (\<lambda>(r, s').
       case r of
         None \<Rightarrow> Inr (None, s')
       | Some phys \<Rightarrow>
           and_then (phys_to_virt s' phys) (\<lambda>virt.
             Inr (Some phys, s'\<lparr>mm_ram := zero_frame (virt - mm_hhdm_offset s') (mm_ram s')\<rparr>)))"

definition alloc_contiguous :: "nat \<Rightarrow> nat \<Rightarrow> mm_state \<Rightarrow> (nat option \<times> mm_state) checked" where
  "alloc_contiguous n_frames align_frames s =
     (if n_frames = 0 then Inr (None, s)
      else with_pmm (pmm_alloc_run n_frames align_frames) s)"

definition alloc_frame_low :: "mm_state \<Rightarrow> (nat option \<times> mm_state) checked" where
  "alloc_frame_low s = with_pmm pmm_alloc_low s"

definition free_frame :: "nat \<Rightarrow> mm_state \<Rightarrow> mm_state checked" where
  "free_frame phys s =
     require (phys mod FRAME_SIZE = 0) ''free_frame: not frame-aligned''
     (let frame = phys div FRAME_SIZE in
      require (frame \<noteq> 0) ''free_frame: physical frame 0 is never allocated''
      (and_then (with_pmm (pmm_free_one frame) s) (\<lambda>(_, s'). Inr s')))"

definition free_contiguous :: "nat \<Rightarrow> nat \<Rightarrow> mm_state \<Rightarrow> mm_state checked" where
  "free_contiguous phys n_frames s =
     require (phys mod FRAME_SIZE = 0) ''free_contiguous: not frame-aligned''
     (for_each [0..<n_frames]
        (\<lambda>i st. and_then (uadd (phys div FRAME_SIZE) i) (\<lambda>f.
                 and_then (umul f FRAME_SIZE) (\<lambda>a. free_frame a st))) s)"

definition pmm_stats_of :: "mm_state \<Rightarrow> pmm_stats checked" where
  "pmm_stats_of = with_pmm_ref (\<lambda>p.
     and_then (count_free (pm_bitmap p)) (\<lambda>free.
     and_then (usub (bm_count (pm_bitmap p)) free) (\<lambda>used.
       Inr \<lparr>st_total = bm_count (pm_bitmap p), st_used = used, st_free = free,
            st_low_reserved = pm_low_reserved p\<rparr>)))"

definition is_frame_used :: "nat \<Rightarrow> mm_state \<Rightarrow> bool checked" where
  "is_frame_used phys = with_pmm_ref (\<lambda>p.
     let frame = phys div FRAME_SIZE in
     if frame < bm_count (pm_low_bitmap p) then is_used (pm_low_bitmap p) frame
     else is_used (pm_bitmap p) frame)"

definition bitmap_region :: "mm_state \<Rightarrow> (nat \<times> nat) checked" where
  "bitmap_region = with_pmm_ref (\<lambda>p. Inr (pm_bitmap_base p, pm_bitmap_bytes p))"

subsection \<open>Well-formed states\<close>

text \<open>
  A frame is grantable when it is not frame 0, the general bitmap covers it, and
  \<open>is_usable_frame\<close> accepts it.  The invariant: both bitmaps are well formed and start at
  frame 0, the low pool covers the frames below 1 MiB, the general pool holds none of those, and
  every free frame of either pool is grantable.
\<close>

definition grantable :: "pmm \<Rightarrow> nat set" where
  "grantable p = {f. 0 < f \<and> f < bm_count (pm_bitmap p) \<and> is_usable_frame p f = Inr True}"

definition region_bounds :: "pmm \<Rightarrow> bool" where
  "region_bounds p \<longleftrightarrow> pm_bitmap_base p + pm_bitmap_bytes p < u64_limit
     \<and> (\<forall>(base, len)\<in>set (pm_regions p). base + len < u64_limit)"

definition pmm_inv :: "pmm \<Rightarrow> bool" where
  "pmm_inv p \<longleftrightarrow> bm_wf (pm_bitmap p) \<and> bm_base (pm_bitmap p) = 0
     \<and> bm_wf (pm_low_bitmap p) \<and> bm_base (pm_low_bitmap p) = 0
     \<and> bm_count (pm_low_bitmap p) = min LOW_MEM_FRAME_COUNT (bm_count (pm_bitmap p))
     \<and> (bm_count (pm_bitmap p) + 1) * FRAME_SIZE < u64_limit \<and> region_bounds p
     \<and> (\<forall>f\<in>bm_free (pm_bitmap p). bm_count (pm_low_bitmap p) \<le> f)
     \<and> bm_free (pm_bitmap p) \<subseteq> grantable p \<and> bm_free (pm_low_bitmap p) \<subseteq> grantable p"

lemma pmm_invD:
  assumes "pmm_inv p"
  shows "bm_wf (pm_bitmap p)" "bm_base (pm_bitmap p) = 0" "bm_wf (pm_low_bitmap p)"
    "bm_base (pm_low_bitmap p) = 0"
    "bm_count (pm_low_bitmap p) \<le> bm_count (pm_bitmap p)"
    "(bm_count (pm_bitmap p) + 1) * FRAME_SIZE < u64_limit" "region_bounds p"
    "bm_free (pm_bitmap p) \<subseteq> grantable p" "bm_free (pm_low_bitmap p) \<subseteq> grantable p"
    "\<And>f. f \<in> bm_free (pm_bitmap p) \<Longrightarrow> bm_count (pm_low_bitmap p) \<le> f"
  using assms by (auto simp: pmm_inv_def)

text \<open>The arithmetic facts that keep the checked operations of the allocator in range.\<close>

lemma FRAME_SIZE_pos [simp]: "0 < FRAME_SIZE" "FRAME_SIZE \<noteq> 0"
  by (simp_all add: FRAME_SIZE_def)

lemma pmm_inv_small:
  assumes "pmm_inv p" and "f \<le> bm_count (pm_bitmap p)"
  shows "f * FRAME_SIZE < u64_limit" and "f * FRAME_SIZE + FRAME_SIZE < u64_limit"
    and "f + 4095 < u64_limit"
proof -
  have "(f + 1) * FRAME_SIZE \<le> (bm_count (pm_bitmap p) + 1) * FRAME_SIZE"
    using assms(2) by (intro mult_le_mono1) simp
  with pmm_invD(6)[OF assms(1)] have *: "(f + 1) * FRAME_SIZE < u64_limit" by linarith
  then show "f * FRAME_SIZE < u64_limit" "f * FRAME_SIZE + FRAME_SIZE < u64_limit"
    by (simp_all add: FRAME_SIZE_def)
  from * show "f + 4095 < u64_limit" by (simp add: FRAME_SIZE_def)
qed

text \<open>\<open>is_usable_frame\<close> reads only the region table and the place of the bitmap.\<close>

lemma any_region_total:
  "\<forall>(base, len)\<in>set rs. base + len < u64_limit \<Longrightarrow> addr + FRAME_SIZE < u64_limit \<Longrightarrow>
   any_region addr rs
     = Inr (\<exists>(base, len)\<in>set rs. base \<le> addr \<and> addr + FRAME_SIZE \<le> base + len)"
  by (induction addr rs rule: any_region.induct) auto

lemma is_usable_frame_eq:
  assumes "region_bounds p" and "f * FRAME_SIZE + FRAME_SIZE < u64_limit"
  shows "is_usable_frame p f = Inr
    (\<not> (pm_bitmap_base p \<le> f * FRAME_SIZE \<and> f * FRAME_SIZE < pm_bitmap_base p + pm_bitmap_bytes p)
     \<and> (\<exists>(base, len)\<in>set (pm_regions p). base \<le> f * FRAME_SIZE \<and> f * FRAME_SIZE + FRAME_SIZE \<le> base + len))"
  using assms by (auto simp: is_usable_frame_def region_bounds_def any_region_total)

definition same_tables :: "pmm \<Rightarrow> pmm \<Rightarrow> bool" where
  "same_tables p q \<longleftrightarrow> same_shape (pm_bitmap p) (pm_bitmap q)
     \<and> same_shape (pm_low_bitmap p) (pm_low_bitmap q)
     \<and> pm_bitmap_base q = pm_bitmap_base p \<and> pm_bitmap_bytes q = pm_bitmap_bytes p
     \<and> pm_regions q = pm_regions p"

lemma same_tables_grantable: "same_tables p q \<Longrightarrow> grantable q = grantable p"
  by (simp add: same_tables_def grantable_def is_usable_frame_def same_shape_def cong: if_cong)

lemma pmm_inv_transfer:
  assumes "pmm_inv p" and "same_tables p q"
    and "bm_free (pm_bitmap q) \<subseteq> {f \<in> grantable p. bm_count (pm_low_bitmap p) \<le> f}"
    and "bm_free (pm_low_bitmap q) \<subseteq> grantable p"
  shows "pmm_inv q"
proof -
  have "region_bounds q" using assms by (simp add: pmm_inv_def same_tables_def region_bounds_def)
  with assms same_tables_grantable[OF assms(2)] show ?thesis
    using same_shape_wf[of "pm_bitmap p" "pm_bitmap q"]
      same_shape_wf[of "pm_low_bitmap p" "pm_low_bitmap q"]
    by (auto simp: pmm_inv_def same_tables_def same_shape_def)
qed

subsection \<open>One frame at a time\<close>

lemma first_fit_one:
  assumes "first_fit b 1 1 0 res"
  shows "res = (if bm_free b = {} then None else Some (Min (bm_free b)))"
proof (cases res)
  case None
  with assms have "\<forall>g. g \<notin> bm_free b" by (auto simp: first_fit_def free_run_def)
  with None show ?thesis by auto
next
  case (Some f)
  with assms have f: "f \<in> bm_free b" "\<And>g. g < f \<Longrightarrow> g \<notin> bm_free b"
    by (auto simp: first_fit_def free_run_def)
  then have "Min (bm_free b) = f" by (intro Min_eqI) (auto simp: not_less[symmetric])
  with Some f(1) show ?thesis by auto
qed

text \<open>
  The search of either pool for one frame: the lowest free frame, or none exactly when the pool
  is empty, and the bitmap with that frame marked used.
\<close>

lemma take_lowest:
  assumes "bm_wf b" and "bm_base b = 0" and "bm_count b + 4095 < u64_limit"
  shows "find_free_run b 1 1 = Inr (if bm_free b = {} then None else Some (Min (bm_free b)))"
proof -
  obtain res where "find_free_run b 1 1 = Inr res" "first_fit b 1 1 (bm_base b) res"
    using assms by (auto intro: find_free_run_ok[of b 1 1])
  with assms(2) first_fit_one show ?thesis by auto
qed

lemma bm_free_lt: "f \<in> bm_free b \<Longrightarrow> bm_base b = 0 \<Longrightarrow> f < bm_count b"
  by (auto simp: bm_free_iff)

lemma pmm_alloc_one_none:
  assumes "pmm_inv p" and "bm_free (pm_bitmap p) = {}"
  shows "pmm_alloc_one p = Inr (None, p)"
  using assms take_lowest[of "pm_bitmap p"] pmm_inv_small(3)[OF assms(1) le_refl]
  by (simp add: pmm_alloc_one_def pmm_invD)

lemma pmm_alloc_one_some:
  assumes inv: "pmm_inv p" and ne: "bm_free (pm_bitmap p) \<noteq> {}"
  obtains q where "pmm_alloc_one p = Inr (Some (Min (bm_free (pm_bitmap p)) * FRAME_SIZE), q)"
    and "pmm_inv q" and "same_tables p q" and "pm_low_bitmap q = pm_low_bitmap p"
    and "bm_free (pm_bitmap q) = bm_free (pm_bitmap p) - {Min (bm_free (pm_bitmap p))}"
proof -
  let ?b = "pm_bitmap p" and ?f = "Min (bm_free (pm_bitmap p))"
  note D = pmm_invD[OF inv]
  have f: "?f \<in> bm_free ?b" using ne by simp
  then have "?f \<in> bm_range ?b" using bm_free_subset by blast
  from set_used_ok[OF D(1) this] obtain b'
    where b': "set_used ?b ?f = Inr b'" "same_shape ?b b'" "bm_free b' = bm_free ?b - {?f}" .
  let ?q = "p\<lparr>pm_bitmap := b'\<rparr>"
  have "?f * FRAME_SIZE < u64_limit"
    using bm_free_lt[OF f D(2)] by (intro pmm_inv_small(1)[OF inv]) simp
  then have "pmm_alloc_one p = Inr (Some (?f * FRAME_SIZE), ?q)"
    using ne take_lowest[OF D(1,2)] pmm_inv_small(3)[OF inv le_refl] b'(1)
    by (simp add: pmm_alloc_one_def)
  moreover have tables: "same_tables p ?q" using b'(2) by (simp add: same_tables_def)
  moreover have "pmm_inv ?q"
    by (rule pmm_inv_transfer[OF inv tables]) (use D(8,9,10) b'(3) in auto)
  ultimately show thesis using b'(3) by (intro that[of ?q]) simp_all
qed

lemma pmm_alloc_low_none:
  assumes "pmm_inv p" and "bm_free (pm_low_bitmap p) = {}"
  shows "pmm_alloc_low p = Inr (None, p)"
  using assms take_lowest[of "pm_low_bitmap p"] pmm_inv_small(3)[OF assms(1) pmm_invD(5)[OF assms(1)]]
  by (simp add: pmm_alloc_low_def pmm_invD)

lemma pmm_alloc_low_some:
  assumes inv: "pmm_inv p" and ne: "bm_free (pm_low_bitmap p) \<noteq> {}"
  obtains q where "pmm_alloc_low p = Inr (Some (Min (bm_free (pm_low_bitmap p)) * FRAME_SIZE), q)"
    and "pmm_inv q" and "same_tables p q" and "pm_bitmap q = pm_bitmap p"
    and "bm_free (pm_low_bitmap q) = bm_free (pm_low_bitmap p) - {Min (bm_free (pm_low_bitmap p))}"
proof -
  let ?b = "pm_low_bitmap p" and ?f = "Min (bm_free (pm_low_bitmap p))"
  note D = pmm_invD[OF inv]
  have f: "?f \<in> bm_free ?b" using ne by simp
  then have "?f \<in> bm_range ?b" using bm_free_subset by blast
  from set_used_ok[OF D(3) this] obtain b'
    where b': "set_used ?b ?f = Inr b'" "same_shape ?b b'" "bm_free b' = bm_free ?b - {?f}" .
  let ?q = "p\<lparr>pm_low_bitmap := b'\<rparr>"
  have "?f * FRAME_SIZE < u64_limit"
    using bm_free_lt[OF f D(4)] D(5) by (intro pmm_inv_small(1)[OF inv]) simp
  then have "pmm_alloc_low p = Inr (Some (?f * FRAME_SIZE), ?q)"
    using ne take_lowest[OF D(3,4)] pmm_inv_small(3)[OF inv D(5)] b'(1)
    by (simp add: pmm_alloc_low_def)
  moreover have tables: "same_tables p ?q" using b'(2) by (simp add: same_tables_def)
  moreover have "pmm_inv ?q"
    by (rule pmm_inv_transfer[OF inv tables]) (use D(8,9,10) b'(3) in auto)
  ultimately show thesis using b'(3) by (intro that[of ?q]) simp_all
qed

text \<open>Releasing a frame: the three outcomes of \<open>free_frame\<close> on a grantable frame.\<close>

definition pool_of :: "pmm \<Rightarrow> nat set" where
  "pool_of p = bm_free (pm_bitmap p) \<union> bm_free (pm_low_bitmap p)"

lemma bitmap_for_free:
  assumes "pmm_inv p"
  shows "f \<in> bm_free (bitmap_for p f) \<longleftrightarrow> f \<in> pool_of p"
  using pmm_invD[OF assms] bm_free_lt[of f "pm_low_bitmap p"]
  by (auto simp: bitmap_for_def pool_of_def not_le[symmetric])

lemma bitmap_for_ok:
  assumes "pmm_inv p" and "f < bm_count (pm_bitmap p)"
  shows "bm_wf (bitmap_for p f)" and "f \<in> bm_range (bitmap_for p f)"
  using pmm_invD[OF assms(1)] assms(2) by (auto simp: bitmap_for_def bm_range_def)

lemma grantable_usable: "f \<in> grantable p \<Longrightarrow> is_usable_frame p f = Inr True"
  by (simp add: grantable_def)

lemma pmm_free_one_free:
  assumes inv: "pmm_inv p" and "f \<in> grantable p" and "f \<in> pool_of p"
  shows "pmm_free_one f p = Inl (Assert_failed ''free_frame: double free'')"
proof -
  from assms(2) have "f < bm_count (pm_bitmap p)" by (simp add: grantable_def)
  note ok = bitmap_for_ok[OF inv this]
  with assms grantable_usable[OF assms(2)] bitmap_for_free[OF inv] is_used_ok[OF ok]
  show ?thesis by (simp add: pmm_free_one_def)
qed

lemma pmm_free_one_used:
  assumes inv: "pmm_inv p" and gr: "f \<in> grantable p" and used: "f \<notin> pool_of p"
  obtains q where "pmm_free_one f p = Inr ((), q)" and "pmm_inv q" and "same_tables p q"
    and "bm_free (pm_bitmap q)
      = (if f < bm_count (pm_low_bitmap p) then bm_free (pm_bitmap p) else insert f (bm_free (pm_bitmap p)))"
    and "bm_free (pm_low_bitmap q)
      = (if f < bm_count (pm_low_bitmap p) then insert f (bm_free (pm_low_bitmap p)) else bm_free (pm_low_bitmap p))"
proof -
  note D = pmm_invD[OF inv]
  let ?b = "bitmap_for p f"
  from gr have "f < bm_count (pm_bitmap p)" by (simp add: grantable_def)
  note ok = bitmap_for_ok[OF inv this]
  from set_free_ok[OF ok] obtain b'
    where b': "set_free ?b f = Inr b'" "same_shape ?b b'" "bm_free b' = insert f (bm_free ?b)" .
  let ?q = "put_bitmap_for p f b'"
  have run: "pmm_free_one f p = Inr ((), ?q)"
    using grantable_usable[OF gr] is_used_ok[OF ok] bitmap_for_free[OF inv] used b'(1)
    by (simp add: pmm_free_one_def)
  have tables: "same_tables p ?q"
    using b'(2) by (simp add: same_tables_def put_bitmap_for_def bitmap_for_def split: if_splits)
  have frees: "bm_free (pm_bitmap ?q)
      = (if f < bm_count (pm_low_bitmap p) then bm_free (pm_bitmap p) else insert f (bm_free (pm_bitmap p)))"
    "bm_free (pm_low_bitmap ?q)
      = (if f < bm_count (pm_low_bitmap p) then insert f (bm_free (pm_low_bitmap p)) else bm_free (pm_low_bitmap p))"
    using b'(3) by (simp_all add: put_bitmap_for_def bitmap_for_def)
  have "pmm_inv ?q"
    by (rule pmm_inv_transfer[OF inv tables]) (use D(8,9,10) frees gr in \<open>auto split: if_splits\<close>)
  from run this tables frees show thesis by (rule that)
qed

lemma pmm_free_one_not_usable:
  "is_usable_frame p f = Inr False \<Longrightarrow>
   pmm_free_one f p = Inl (Assert_failed ''free_frame: not a usable frame'')"
  by (simp add: pmm_free_one_def)

subsection \<open>Contiguous runs\<close>

lemma pmm_alloc_run_ok:
  assumes inv: "pmm_inv p" and "0 < n" and "0 < a"
    and bound: "bm_count (pm_bitmap p) + a + n < u64_limit"
  obtains (none) "pmm_alloc_run n a p = Inr (None, p)"
      "\<And>g. a dvd g \<Longrightarrow> \<not> {g..<g + n} \<subseteq> bm_free (pm_bitmap p)"
  | (some) f q where "pmm_alloc_run n a p = Inr (Some (f * FRAME_SIZE), q)" "a dvd f"
      "{f..<f + n} \<subseteq> bm_free (pm_bitmap p)" "pmm_inv q" "same_tables p q"
      "pm_low_bitmap q = pm_low_bitmap p" "bm_free (pm_bitmap q) = bm_free (pm_bitmap p) - {f..<f + n}"
proof -
  let ?b = "pm_bitmap p"
  note D = pmm_invD[OF inv]
  have "bm_base ?b + bm_count ?b + a + n < u64_limit" using bound D(2) by simp
  from find_free_run_ok[OF D(1) assms(2,3) this] obtain res
    where res: "find_free_run ?b n a = Inr res" "first_fit ?b n a 0 res" using D(2) by auto
  show thesis
  proof (cases res)
    case None
    with res show thesis
      by (intro none) (auto simp: pmm_alloc_run_def first_fit_def free_run_def)
  next
    case (Some f)
    with res have f: "a dvd f" "{f..<f + n} \<subseteq> bm_free ?b" by (auto simp: first_fit_def free_run_def)
    then have run: "free_run ?b n a f" by (simp add: free_run_def)
    then have hi: "f + n \<le> bm_count ?b" using free_run_bounds(2)[OF run assms(2)] D(2) by simp
    have "set [f..<f + n] \<subseteq> bm_range ?b" using f(2) bm_free_subset by auto
    from for_each_set_used[OF D(1) this] obtain b'
      where b': "for_each [f..<f + n] (\<lambda>f b. set_used b f) ?b = Inr b'" "same_shape ?b b'"
        "bm_free b' = bm_free ?b - {f..<f + n}" by auto
    let ?q = "p\<lparr>pm_bitmap := b'\<rparr>"
    have "f * FRAME_SIZE < u64_limit" "f + n < u64_limit"
      using pmm_inv_small(1)[OF inv, of f] pmm_inv_small(3)[OF inv le_refl] hi by auto
    then have alloc: "pmm_alloc_run n a p = Inr (Some (f * FRAME_SIZE), ?q)"
      using res(1) Some b'(1) by (simp add: pmm_alloc_run_def)
    have tables: "same_tables p ?q" using b'(2) by (simp add: same_tables_def)
    have "pmm_inv ?q"
      by (rule pmm_inv_transfer[OF inv tables]) (use D(8,9,10) b'(3) in auto)
    with alloc f tables b'(3) show thesis by (intro some[of f ?q]) simp_all
  qed
qed


subsection \<open>The state-level operations as a frame pool\<close>

definition mm_inv :: "mm_state \<Rightarrow> bool" where
  "mm_inv s \<longleftrightarrow> (case mm_pmm s of None \<Rightarrow> False | Some p \<Rightarrow> pmm_inv p)"

definition frame_addrs :: "nat set \<Rightarrow> nat set" where
  "frame_addrs fs = (\<lambda>f. f * FRAME_SIZE) ` fs"

definition mm_avail :: "mm_state \<Rightarrow> nat set" where
  "mm_avail s = (case mm_pmm s of None \<Rightarrow> {} | Some p \<Rightarrow> frame_addrs (pool_of p))"

definition mm_managed :: "mm_state \<Rightarrow> nat set" where
  "mm_managed s = (case mm_pmm s of None \<Rightarrow> {} | Some p \<Rightarrow> frame_addrs (grantable p))"

definition mm_general :: "mm_state \<Rightarrow> nat set" where
  "mm_general s = (case mm_pmm s of None \<Rightarrow> {} | Some p \<Rightarrow> frame_addrs (bm_free (pm_bitmap p)))"

definition mm_low :: "mm_state \<Rightarrow> nat set" where
  "mm_low s = (case mm_pmm s of None \<Rightarrow> {} | Some p \<Rightarrow> frame_addrs (bm_free (pm_low_bitmap p)))"

lemma frame_addrs_mem [simp]: "f * FRAME_SIZE \<in> frame_addrs fs \<longleftrightarrow> f \<in> fs"
  by (auto simp: frame_addrs_def)

lemma frame_addrs_Diff [simp]: "frame_addrs (A - {f}) = frame_addrs A - {f * FRAME_SIZE}"
  by (auto simp: frame_addrs_def)

lemma frame_addrs_insert [simp]: "frame_addrs (insert f A) = insert (f * FRAME_SIZE) (frame_addrs A)"
  by (auto simp: frame_addrs_def)

lemma frame_addrs_mono: "A \<subseteq> B \<Longrightarrow> frame_addrs A \<subseteq> frame_addrs B"
  by (auto simp: frame_addrs_def)

lemma mm_invE:
  assumes "mm_inv s"
  obtains p where "mm_pmm s = Some p" "pmm_inv p"
  using assms by (auto simp: mm_inv_def split: option.splits)

lemma pools_disjoint:
  assumes "pmm_inv p"
  shows "bm_free (pm_bitmap p) \<inter> bm_free (pm_low_bitmap p) = {}"
  using pmm_invD(4,10)[OF assms] bm_free_lt[of _ "pm_low_bitmap p"] by fastforce

lemma mm_avail_managed: "mm_inv s \<Longrightarrow> mm_avail s \<subseteq> mm_managed s"
  by (elim mm_invE)
    (auto simp: mm_avail_def mm_managed_def pool_of_def
      intro!: frame_addrs_mono dest: pmm_invD(8,9)[THEN subsetD])

lemma take_injected_pmm:
  "take_injected_failure s = (b, s') \<Longrightarrow> mm_pmm s' = mm_pmm s"
  by (auto simp: take_injected_failure_def split: if_splits)

lemma mm_views_cong:
  assumes "mm_pmm s' = mm_pmm s"
  shows "mm_inv s' = mm_inv s" "mm_avail s' = mm_avail s" "mm_managed s' = mm_managed s"
    "mm_general s' = mm_general s" "mm_low s' = mm_low s"
  using assms by (simp_all add: mm_inv_def mm_avail_def mm_managed_def mm_general_def mm_low_def)

text \<open>
  \<open>alloc_frame\<close> draws the lowest frame of the general pool and \<open>alloc_frame_low\<close> the lowest of
  the low pool; the other pool is untouched.
\<close>

definition lends :: "(mm_state \<Rightarrow> nat set) \<Rightarrow> (mm_state \<Rightarrow> nat set) \<Rightarrow> mm_state \<Rightarrow> nat \<Rightarrow> mm_state \<Rightarrow> bool" where
  "lends own other s a s' \<longleftrightarrow> a \<in> own s \<and> (\<forall>x\<in>own s. a \<le> x) \<and> own s' = own s - {a} \<and> other s' = other s
     \<and> mm_avail s' = mm_avail s - {a} \<and> mm_managed s' = mm_managed s \<and> mm_inv s'"

lemma lends_avail: "lends own other s a s' \<Longrightarrow> mm_avail s' = mm_avail s - {a}"
  by (simp add: lends_def)

lemma Min_frame_addrs:
  "finite A \<Longrightarrow> A \<noteq> {} \<Longrightarrow> x \<in> frame_addrs A \<Longrightarrow> Min A * FRAME_SIZE \<le> x"
  by (auto simp: frame_addrs_def)

lemma with_pmm_alloc_one:
  assumes "mm_inv s"
  obtains (none) "with_pmm pmm_alloc_one s = Inr (None, s)" "mm_general s = {}"
  | (some) a s' where "with_pmm pmm_alloc_one s = Inr (Some a, s')" "lends mm_general mm_low s a s'"
proof -
  from assms obtain p where p: "mm_pmm s = Some p" "pmm_inv p" by (rule mm_invE)
  have same: "s\<lparr>mm_pmm := Some p\<rparr> = s" using p(1) by simp
  let ?m = "Min (bm_free (pm_bitmap p))"
  show thesis
  proof (cases "bm_free (pm_bitmap p) = {}")
    case True
    then show thesis
      using p same pmm_alloc_one_none[OF p(2)]
      by (intro none) (simp_all add: with_pmm_def mm_general_def frame_addrs_def)
  next
    case False
    then have m: "?m \<in> bm_free (pm_bitmap p)" by simp
    have low: "?m \<notin> bm_free (pm_low_bitmap p)" using m pools_disjoint[OF p(2)] by blast
    from pmm_alloc_one_some[OF p(2) False] obtain q
      where q: "pmm_alloc_one p = Inr (Some (?m * FRAME_SIZE), q)" "pmm_inv q" "same_tables p q"
        "pm_low_bitmap q = pm_low_bitmap p" "bm_free (pm_bitmap q) = bm_free (pm_bitmap p) - {?m}" .
    have pool: "pool_of q = pool_of p - {?m}" using q(4,5) low by (auto simp: pool_of_def)
    have "lends mm_general mm_low s (?m * FRAME_SIZE) (s\<lparr>mm_pmm := Some q\<rparr>)"
      using p q m pool same_tables_grantable[OF q(3)] Min_frame_addrs[of "bm_free (pm_bitmap p)"] False
      by (simp add: lends_def mm_general_def mm_low_def mm_avail_def mm_managed_def mm_inv_def)
    with p(1) q(1) show thesis by (intro some) (simp_all add: with_pmm_def)
  qed
qed

lemma with_pmm_alloc_low:
  assumes "mm_inv s"
  obtains (none) "alloc_frame_low s = Inr (None, s)" "mm_low s = {}"
  | (some) a s' where "alloc_frame_low s = Inr (Some a, s')" "lends mm_low mm_general s a s'"
proof -
  from assms obtain p where p: "mm_pmm s = Some p" "pmm_inv p" by (rule mm_invE)
  have same: "s\<lparr>mm_pmm := Some p\<rparr> = s" using p(1) by simp
  let ?m = "Min (bm_free (pm_low_bitmap p))"
  show thesis
  proof (cases "bm_free (pm_low_bitmap p) = {}")
    case True
    then show thesis
      using p same pmm_alloc_low_none[OF p(2)]
      by (intro none) (simp_all add: alloc_frame_low_def with_pmm_def mm_low_def frame_addrs_def)
  next
    case False
    then have m: "?m \<in> bm_free (pm_low_bitmap p)" by simp
    have gen: "?m \<notin> bm_free (pm_bitmap p)" using m pools_disjoint[OF p(2)] by blast
    from pmm_alloc_low_some[OF p(2) False] obtain q
      where q: "pmm_alloc_low p = Inr (Some (?m * FRAME_SIZE), q)" "pmm_inv q" "same_tables p q"
        "pm_bitmap q = pm_bitmap p" "bm_free (pm_low_bitmap q) = bm_free (pm_low_bitmap p) - {?m}" .
    have pool: "pool_of q = pool_of p - {?m}" using q(4,5) gen by (auto simp: pool_of_def)
    have "lends mm_low mm_general s (?m * FRAME_SIZE) (s\<lparr>mm_pmm := Some q\<rparr>)"
      using p q m pool same_tables_grantable[OF q(3)] Min_frame_addrs[of "bm_free (pm_low_bitmap p)"] False
      by (simp add: lends_def mm_general_def mm_low_def mm_avail_def mm_managed_def mm_inv_def)
    with p(1) q(1) show thesis by (intro some) (simp_all add: alloc_frame_low_def with_pmm_def)
  qed
qed

lemma alloc_frame_cases:
  assumes "mm_inv s"
  obtains (none) s' where "alloc_frame s = Inr (None, s')" "mm_pmm s' = mm_pmm s"
      "mm_general s = {} \<or> (mm_inject_skip s = 0 \<and> 0 < mm_inject_failures s)"
  | (some) a s' where "alloc_frame s = Inr (Some a, s')" "lends mm_general mm_low s a s'"
proof -
  obtain b t where inj: "take_injected_failure s = (b, t)" by (cases "take_injected_failure s")
  have t: "mm_pmm t = mm_pmm s" using inj by (rule take_injected_pmm)
  show thesis
  proof (cases b)
    case True
    with inj have "mm_inject_skip s = 0 \<and> 0 < mm_inject_failures s"
      by (auto simp: take_injected_failure_def split: if_splits)
    with True inj t show thesis by (intro none[of t]) (simp_all add: alloc_frame_def)
  next
    case False
    then have run: "alloc_frame s = with_pmm pmm_alloc_one t" by (simp add: alloc_frame_def inj)
    have "mm_inv t" using assms mm_views_cong(1)[OF t] by simp
    then show thesis
    proof (cases rule: with_pmm_alloc_one)
      case none
      with run t mm_views_cong(4)[OF t] show thesis by (intro that(1)[of t]) simp_all
    next
      case (some a s')
      with run mm_views_cong[OF t] show thesis by (intro that(2)) (simp_all add: lends_def)
    qed
  qed
qed


text \<open>\<open>free_frame\<close> on an address of a managed frame, lent or available.\<close>

lemma frame_addrs_cases:
  assumes "a \<in> frame_addrs fs"
  obtains f where "a = f * FRAME_SIZE" "f \<in> fs" "a mod FRAME_SIZE = 0" "a div FRAME_SIZE = f"
  using assms by (auto simp: frame_addrs_def)

lemma free_frame_lent:
  assumes "mm_inv s" and "a \<in> mm_managed s" and "a \<notin> mm_avail s"
  obtains s' where "free_frame a s = Inr s'" "mm_avail s' = insert a (mm_avail s)"
    "mm_managed s' = mm_managed s" "mm_inv s'"
    "mm_general s' = (if a < LOW_MEM_LIMIT then mm_general s else insert a (mm_general s))"
    "mm_low s' = (if a < LOW_MEM_LIMIT then insert a (mm_low s) else mm_low s)"
proof -
  from assms(1) obtain p where p: "mm_pmm s = Some p" "pmm_inv p" by (rule mm_invE)
  from assms(2) p(1) have "a \<in> frame_addrs (grantable p)" by (simp add: mm_managed_def)
  then obtain f where f: "a = f * FRAME_SIZE" "f \<in> grantable p" "a mod FRAME_SIZE = 0"
    "a div FRAME_SIZE = f" by (rule frame_addrs_cases)
  from assms(3) p(1) f(1) have "f \<notin> pool_of p" by (simp add: mm_avail_def)
  from pmm_free_one_used[OF p(2) f(2) this] obtain q
    where q: "pmm_free_one f p = Inr ((), q)" "pmm_inv q" "same_tables p q"
      "bm_free (pm_bitmap q)
        = (if f < bm_count (pm_low_bitmap p) then bm_free (pm_bitmap p) else insert f (bm_free (pm_bitmap p)))"
      "bm_free (pm_low_bitmap q)
        = (if f < bm_count (pm_low_bitmap p) then insert f (bm_free (pm_low_bitmap p)) else bm_free (pm_low_bitmap p))" .
  have low: "f < bm_count (pm_low_bitmap p) \<longleftrightarrow> a < LOW_MEM_LIMIT"
    using f(1,2) p(2)
    by (auto simp: pmm_inv_def grantable_def LOW_MEM_FRAME_COUNT_def LOW_MEM_LIMIT_def FRAME_SIZE_def)
  have "0 < f" using f(2) by (simp add: grantable_def)
  then have "free_frame a s = Inr (s\<lparr>mm_pmm := Some q\<rparr>)"
    using p(1) q(1) f(3,4) by (simp add: free_frame_def with_pmm_def)
  moreover have "pool_of q = insert f (pool_of p)" using q(4,5) by (auto simp: pool_of_def)
  ultimately show thesis
    using p(1) q f(1) same_tables_grantable[OF q(3)] low
    by (intro that[of "s\<lparr>mm_pmm := Some q\<rparr>"]) (simp_all add: mm_avail_def mm_managed_def mm_inv_def mm_general_def mm_low_def)
qed

lemma free_frame_available:
  assumes "mm_inv s" and "a \<in> mm_avail s"
  shows "free_frame a s = Inl (Assert_failed ''free_frame: double free'')"
proof -
  from assms(1) obtain p where p: "mm_pmm s = Some p" "pmm_inv p" by (rule mm_invE)
  from assms(2) p(1) have "a \<in> frame_addrs (pool_of p)" by (simp add: mm_avail_def)
  then obtain f where f: "f \<in> pool_of p" "a mod FRAME_SIZE = 0" "a div FRAME_SIZE = f"
    by (rule frame_addrs_cases)
  have gr: "f \<in> grantable p" using f(1) pmm_invD(8,9)[OF p(2)] by (auto simp: pool_of_def)
  then have "0 < f" by (simp add: grantable_def)
  with f p pmm_free_one_free[OF p(2) gr f(1)] show ?thesis
    by (simp add: free_frame_def with_pmm_def)
qed

lemma free_frame_returns:
  assumes "mm_inv s" and "a \<in> mm_managed s - mm_avail s"
  shows "\<exists>s'. free_frame a s = Inr s' \<and> mm_avail s' = insert a (mm_avail s)
      \<and> mm_managed s' = mm_managed s \<and> mm_inv s'"
proof -
  from assms(2) have "a \<in> mm_managed s" "a \<notin> mm_avail s" by auto
  from free_frame_lent[OF assms(1) this] show ?thesis by metis
qed

lemma mm_pools_avail: "mm_general s \<subseteq> mm_avail s" "mm_low s \<subseteq> mm_avail s"
  by (auto simp: mm_general_def mm_low_def mm_avail_def pool_of_def frame_addrs_def
      split: option.splits)

text \<open>The PMM provides the frame-pool interface, once for each of its two pools.\<close>

interpretation general_pool: frame_pool alloc_frame free_frame mm_avail mm_managed mm_inv
proof
  fix s assume inv: "mm_inv s"
  show "mm_avail s \<subseteq> mm_managed s" using inv by (rule mm_avail_managed)
  show "\<exists>r s'. alloc_frame s = Inr (r, s')" using inv by (cases rule: alloc_frame_cases) auto
next
  fix s a s' assume "mm_inv s" "alloc_frame s = Inr (Some a, s')"
  then show "a \<in> mm_avail s \<and> mm_avail s' = mm_avail s - {a} \<and> mm_managed s' = mm_managed s \<and> mm_inv s'"
  proof (cases rule: alloc_frame_cases)
    case (some b t)
    then have "lends mm_general mm_low s a s'" using \<open>alloc_frame s = Inr (Some a, s')\<close> by simp
    then show ?thesis using mm_pools_avail(1)[of s] unfolding lends_def by blast
  qed simp
next
  fix s s' assume inv: "mm_inv s" and none: "alloc_frame s = Inr (None, s')"
  from inv none have same: "mm_pmm s' = mm_pmm s" by (cases rule: alloc_frame_cases) simp_all
  with inv show "mm_avail s' = mm_avail s \<and> mm_managed s' = mm_managed s \<and> mm_inv s'"
    using mm_views_cong[OF same] by simp
next
  fix s a assume "mm_inv s" "a \<in> mm_managed s - mm_avail s"
  then show "\<exists>s'. free_frame a s = Inr s' \<and> mm_avail s' = insert a (mm_avail s)
      \<and> mm_managed s' = mm_managed s \<and> mm_inv s'"
    by (rule free_frame_returns)
next
  fix s a assume "mm_inv s" "a \<in> mm_avail s"
  then show "\<exists>e. free_frame a s = Inl e" by (simp add: free_frame_available)
qed

interpretation low_pool: frame_pool alloc_frame_low free_frame mm_avail mm_managed mm_inv
proof
  fix s assume inv: "mm_inv s"
  show "mm_avail s \<subseteq> mm_managed s" using inv by (rule mm_avail_managed)
  show "\<exists>r s'. alloc_frame_low s = Inr (r, s')" using inv by (cases rule: with_pmm_alloc_low) auto
next
  fix s a s' assume "mm_inv s" "alloc_frame_low s = Inr (Some a, s')"
  then show "a \<in> mm_avail s \<and> mm_avail s' = mm_avail s - {a} \<and> mm_managed s' = mm_managed s \<and> mm_inv s'"
  proof (cases rule: with_pmm_alloc_low)
    case (some b t)
    then have "lends mm_low mm_general s a s'" using \<open>alloc_frame_low s = Inr (Some a, s')\<close> by simp
    then show ?thesis using mm_pools_avail(2)[of s] unfolding lends_def by blast
  qed simp
next
  fix s s' assume inv: "mm_inv s" and none: "alloc_frame_low s = Inr (None, s')"
  from inv none have "s' = s" by (cases rule: with_pmm_alloc_low) simp_all
  with inv show "mm_avail s' = mm_avail s \<and> mm_managed s' = mm_managed s \<and> mm_inv s'" by simp
next
  fix s a assume "mm_inv s" "a \<in> mm_managed s - mm_avail s"
  then show "\<exists>s'. free_frame a s = Inr s' \<and> mm_avail s' = insert a (mm_avail s)
      \<and> mm_managed s' = mm_managed s \<and> mm_inv s'"
    by (rule free_frame_returns)
next
  fix s a assume "mm_inv s" "a \<in> mm_avail s"
  then show "\<exists>e. free_frame a s = Inl e" by (simp add: free_frame_available)
qed


subsection \<open>Initialisation from a memory map\<close>

text \<open>
  The frames lying wholly inside an entry, and what the loader documents of the map: no entry
  reaches past the 52-bit physical address space and usable entries are page aligned.
\<close>

definition entry_end :: "mem_entry \<Rightarrow> nat" where
  "entry_end e = me_base e + me_length e"

definition entry_frames :: "mem_entry \<Rightarrow> nat set" where
  "entry_frames e = {f. me_base e \<le> f * FRAME_SIZE \<and> f * FRAME_SIZE + FRAME_SIZE \<le> entry_end e}"

definition usable_frames :: "mem_entry list \<Rightarrow> nat set" where
  "usable_frames entries = (\<Union>e\<in>set (filter usable entries). entry_frames e)"

definition memory_map_ok :: "mem_entry list \<Rightarrow> bool" where
  "memory_map_ok entries \<longleftrightarrow>
     list_all (\<lambda>e. entry_end e \<le> 4503599627370496
       \<and> (usable e \<longrightarrow> FRAME_SIZE dvd me_base e \<and> FRAME_SIZE dvd me_length e)) entries
     \<and> sum_list (map me_length (filter usable entries)) < u64_limit"

definition highest_end :: "mem_entry list \<Rightarrow> nat" where
  "highest_end entries = foldr (\<lambda>e h. max h (entry_end e)) (filter usable entries) 0"

definition frames_total :: "mem_entry list \<Rightarrow> nat" where
  "frames_total entries = highest_end entries div FRAME_SIZE"

definition bitmap_bytes_for :: "mem_entry list \<Rightarrow> nat" where
  "bitmap_bytes_for entries = div_ceil (frames_total entries) 64 * 8"

definition storage_frames :: "mem_entry \<Rightarrow> nat \<Rightarrow> nat set" where
  "storage_frames r bytes = {me_base r div FRAME_SIZE..<me_base r div FRAME_SIZE + div_ceil bytes FRAME_SIZE}"

lemma entry_frames_interval:
  "{div_ceil (me_base e) FRAME_SIZE..<entry_end e div FRAME_SIZE} = entry_frames e"
proof -
  have "f < entry_end e div FRAME_SIZE \<longleftrightarrow> f * FRAME_SIZE + FRAME_SIZE \<le> entry_end e" for f
    using less_eq_div_iff_mult_less_eq[of FRAME_SIZE "Suc f" "entry_end e"]
    by (simp add: Suc_le_eq add.commute)
  then show ?thesis
    by (simp only: set_eq_iff atLeastLessThan_iff entry_frames_def mem_Collect_eq
        div_ceil_le_iff[OF FRAME_SIZE_pos(1)]) simp
qed

lemma highest_end_ge: "e \<in> set entries \<Longrightarrow> usable e \<Longrightarrow> entry_end e \<le> highest_end entries"
  unfolding highest_end_def by (induction entries) (auto simp: max_def)

lemma highest_end_le: "\<forall>e\<in>set entries. entry_end e \<le> m \<Longrightarrow> highest_end entries \<le> m"
  unfolding highest_end_def by (induction entries) auto

lemma entry_frames_total:
  "e \<in> set entries \<Longrightarrow> usable e \<Longrightarrow> f \<in> entry_frames e \<Longrightarrow> f < frames_total entries"
proof -
  assume e: "e \<in> set entries" "usable e" "f \<in> entry_frames e"
  from e(3) have "f * FRAME_SIZE + FRAME_SIZE \<le> entry_end e" by (simp add: entry_frames_def)
  with highest_end_ge[OF e(1,2)] have "Suc f * FRAME_SIZE \<le> highest_end entries" by simp
  then have "Suc f \<le> highest_end entries div FRAME_SIZE"
    by (simp only: less_eq_div_iff_mult_less_eq FRAME_SIZE_pos)
  then show ?thesis by (simp only: frames_total_def Suc_le_eq)
qed

lemma scan_entries_ok:
  assumes "\<forall>e\<in>set entries. entry_end e < u64_limit"
    and "b + sum_list (map me_length (filter usable entries)) < u64_limit"
  shows "\<exists>b' c'. for_each entries scan_entry (b, c, h)
    = Inr (b', c', foldr (\<lambda>e h. max h (entry_end e)) (filter usable entries) h)"
  using assms
proof (induction entries arbitrary: b c h)
  case (Cons e es)
  have fold_max: "foldr (\<lambda>e h. max h (entry_end e)) xs (max h m)
      = max (foldr (\<lambda>e h. max h (entry_end e)) xs h) m" for xs and h m :: nat
    by (induction xs) auto
  let ?b = "if usable e then b + me_length e else b" and ?c = "if usable e then c + 1 else c"
  let ?h = "if usable e then max h (entry_end e) else h"
  have e: "entry_end e < u64_limit" using Cons.prems(1) by simp
  have sum: "?b + sum_list (map me_length (filter usable es)) < u64_limit"
    using Cons.prems(2) by (cases "usable e") simp_all
  then have "b + me_length e < u64_limit" if "usable e" using that by simp
  with e have step: "scan_entry e (b, c, h) = Inr (?b, ?c, ?h)"
    by (cases "usable e") (simp_all add: scan_entry_def entry_end_def)
  have "foldr (\<lambda>e h. max h (entry_end e)) (filter usable (e # es)) h
      = foldr (\<lambda>e h. max h (entry_end e)) (filter usable es) ?h"
    by (cases "usable e") (simp_all add: fold_max)
  with Cons.IH[OF _ sum, of ?c ?h] Cons.prems(1) show ?case
    by (simp only: for_each.simps step and_then.simps list.set_intros) simp
qed simp

lemma max_by_length_in: "max_by_length es = Some e \<Longrightarrow> e \<in> set es"
  by (induction es arbitrary: e) (auto split: option.splits if_splits)

lemma bitmap_region_for_Some:
  "bitmap_region_for entries n = Some r \<Longrightarrow>
   r \<in> set entries \<and> usable r \<and> LOW_MEM_LIMIT \<le> me_base r \<and> n \<le> me_length r"
  by (auto simp: bitmap_region_for_def dest!: max_by_length_in)

lemma free_entry_ok:
  assumes "bm_wf b" and "bm_base b = 0" and "entry_end e < u64_limit"
    and "entry_frames e \<subseteq> {..<bm_count b}"
  obtains b' where "free_entry e b = Inr b'" "same_shape b b'" "bm_free b' = bm_free b \<union> entry_frames e"
proof -
  have "set [div_ceil (me_base e) FRAME_SIZE..<entry_end e div FRAME_SIZE] \<subseteq> bm_range b"
    using assms(2,4) entry_frames_interval[of e] by (auto simp: bm_range_def)
  from for_each_set_free[OF assms(1) this] obtain b'
    where b': "for_each [div_ceil (me_base e) FRAME_SIZE..<entry_end e div FRAME_SIZE] (\<lambda>f b. set_free b f) b = Inr b'"
      "same_shape b b'" "bm_free b' = bm_free b \<union> set [div_ceil (me_base e) FRAME_SIZE..<entry_end e div FRAME_SIZE]" .
  have "free_entry e b = Inr b'" using b'(1) assms(3) by (simp add: free_entry_def entry_end_def)
  moreover have "bm_free b' = bm_free b \<union> entry_frames e"
    unfolding b'(3) set_upt entry_frames_interval ..
  ultimately show thesis using b'(2) by (intro that)
qed

lemma free_entries_ok:
  assumes "bm_wf b" and "bm_base b = 0" and "\<forall>e\<in>set es. entry_end e < u64_limit"
    and "(\<Union>e\<in>set es. entry_frames e) \<subseteq> {..<bm_count b}"
  obtains b' where "for_each es free_entry b = Inr b'" "same_shape b b'"
    "bm_free b' = bm_free b \<union> (\<Union>e\<in>set es. entry_frames e)"
proof -
  let ?P = "\<lambda>pre b'. same_shape b b' \<and> bm_free b' = bm_free b \<union> (\<Union>e\<in>set pre. entry_frames e)"
  have "\<exists>b'. for_each es free_entry b = Inr b' \<and> ?P es b'"
  proof (rule for_each_invariant)
    fix pre e rest c
    assume es: "es = pre @ e # rest" and c: "?P pre c"
    have shape: "same_shape b c" using c by blast
    have "bm_wf c" using same_shape_wf[OF shape] assms(1) by simp
    moreover have "bm_base c = 0" "bm_count c = bm_count b"
      using shape assms(2) by (simp_all add: same_shape_def)
    moreover have "e \<in> set es" using es by simp
    ultimately have "bm_wf c" "bm_base c = 0" "entry_end e < u64_limit"
      "entry_frames e \<subseteq> {..<bm_count c}"
      using assms(3,4) by (simp_all only:) blast+
    from free_entry_ok[OF this] obtain d
      where d: "free_entry e c = Inr d" "same_shape c d" "bm_free d = bm_free c \<union> entry_frames e" .
    have "same_shape b d" using c d(2) same_shape_trans by blast
    moreover have "bm_free d = bm_free b \<union> (\<Union>e\<in>set (pre @ [e]). entry_frames e)"
      using c d(3) by (simp add: Un_ac)
    ultimately show "\<exists>s'. free_entry e c = Inr s' \<and> ?P (pre @ [e]) s'" using d(1) by blast
  qed simp
  with that show thesis by blast
qed

text \<open>Moving the low frames of the map from the general bitmap to the low one.\<close>

definition low_moved :: "frame_bitmap \<Rightarrow> frame_bitmap \<Rightarrow> nat set \<Rightarrow> frame_bitmap \<times> frame_bitmap \<times> nat \<Rightarrow> bool" where
  "low_moved b low fs = (\<lambda>(b', low', _). same_shape b b' \<and> same_shape low low'
     \<and> bm_free b' = bm_free b - fs \<and> bm_free low' = bm_free low \<union> fs)"

lemma low_moved_trans:
  "low_moved b low A (c, l, m) \<Longrightarrow> low_moved c l B st \<Longrightarrow> low_moved b low (A \<union> B) st"
  by (cases st) (simp add: low_moved_def same_shape_def Diff_Un Int_Diff_Un Un_ac, blast)

lemma move_low_frames_ok:
  assumes "bm_wf b" "bm_wf low" and "set fs \<subseteq> bm_range b" "set fs \<subseteq> bm_range low"
  shows "\<exists>st. for_each fs move_low_frame (b, low, n) = Inr st \<and> low_moved b low (set fs) st"
proof (rule for_each_invariant[where P = "\<lambda>pre. low_moved b low (set pre)"])
  fix pre f rest st
  assume fs: "fs = pre @ f # rest" and st: "low_moved b low (set pre) st"
  obtain c l k where st_eq: "st = (c, l, k)" by (cases st)
  with st have *: "same_shape b c" "same_shape low l" by (auto simp: low_moved_def)
  have wf: "bm_wf c" "bm_wf l"
    using assms(1,2) same_shape_wf[OF *(1)] same_shape_wf[OF *(2)] by simp_all
  have rng: "f \<in> bm_range c" "f \<in> bm_range l"
    using assms(3,4) fs same_shape_range[OF *(1)] same_shape_range[OF *(2)] by auto
  from set_used_ok[OF wf(1) rng(1)] obtain c'
    where c': "set_used c f = Inr c'" "same_shape c c'" "bm_free c' = bm_free c - {f}" .
  from set_free_ok[OF wf(2) rng(2)] obtain l'
    where l': "set_free l f = Inr l'" "same_shape l l'" "bm_free l' = insert f (bm_free l)" .
  have "low_moved c l {f} (c', l', k + 1)" using c' l' by (simp add: low_moved_def)
  from low_moved_trans[OF st[unfolded st_eq] this]
  have "low_moved b low (set (pre @ [f])) (c', l', k + 1)" by simp
  then show "\<exists>s'. move_low_frame f st = Inr s' \<and> low_moved b low (set (pre @ [f])) s'"
    using c'(1) l'(1) by (auto simp: move_low_frame_def st_eq)
qed (simp add: low_moved_def)

lemma move_low_entries_ok:
  assumes "bm_wf b" "bm_wf low" "bm_base b = 0" "bm_base low = 0"
    and "bm_count low = k" "k \<le> bm_count b" and "\<forall>e\<in>set es. entry_end e < u64_limit"
  shows "\<exists>st. for_each es (move_low_entry k) (b, low, n) = Inr st
    \<and> low_moved b low ((\<Union>e\<in>set es. entry_frames e) \<inter> {..<k}) st"
proof (rule for_each_invariant[where P = "\<lambda>pre. low_moved b low ((\<Union>e\<in>set pre. entry_frames e) \<inter> {..<k})"])
  fix pre e rest st
  assume es: "es = pre @ e # rest" and st: "low_moved b low ((\<Union>e\<in>set pre. entry_frames e) \<inter> {..<k}) st"
  obtain c l m where st_eq: "st = (c, l, m)" by (cases st)
  with st have *: "same_shape b c" "same_shape low l" by (auto simp: low_moved_def)
  let ?fs = "[div_ceil (me_base e) FRAME_SIZE..<min (entry_end e div FRAME_SIZE) k]"
  have fs: "set ?fs = entry_frames e \<inter> {..<k}"
    unfolding entry_frames_interval[symmetric] by auto
  have wf: "bm_wf c" "bm_wf l"
    using assms(1,2) same_shape_wf[OF *(1)] same_shape_wf[OF *(2)] by simp_all
  have "bm_range c = {..<bm_count b}" "bm_range l = {..<k}"
    using assms(3-5) same_shape_range[OF *(1)] same_shape_range[OF *(2)]
    by (simp_all add: bm_range_def atLeast0LessThan)
  then have rng: "set ?fs \<subseteq> bm_range c" "set ?fs \<subseteq> bm_range l"
    unfolding fs using assms(6) by fastforce+
  from move_low_frames_ok[OF wf rng, of m] obtain st'
    where st': "for_each ?fs move_low_frame st = Inr st'" "low_moved c l (set ?fs) st'"
    by (auto simp: st_eq)
  have "entry_end e < u64_limit" using assms(7) es by simp
  then have "move_low_entry k e st = Inr st'"
    using st'(1)
    by (cases "min (entry_end e div FRAME_SIZE) k \<le> div_ceil (me_base e) FRAME_SIZE")
      (simp_all add: move_low_entry_def Let_def entry_end_def)
  moreover have "low_moved b low ((\<Union>e\<in>set (pre @ [e]). entry_frames e) \<inter> {..<k}) st'"
    using low_moved_trans[OF st[unfolded st_eq] st'(2)[unfolded fs]] by (simp add: Int_Un_distrib2 Un_ac)
  ultimately show "\<exists>s'. move_low_entry k e st = Inr s'
      \<and> low_moved b low ((\<Union>e\<in>set (pre @ [e]). entry_frames e) \<inter> {..<k}) s'" by blast
qed (simp add: low_moved_def)


lemma storage_in_region:
  assumes "FRAME_SIZE dvd me_base r" "FRAME_SIZE dvd me_length r" "n \<le> me_length r"
  shows "storage_frames r n \<subseteq> entry_frames r"
proof -
  obtain b l where bl: "me_base r = FRAME_SIZE * b" "me_length r = FRAME_SIZE * l"
    using assms(1,2) by (auto simp: dvd_def)
  have "div_ceil n FRAME_SIZE \<le> l"
    using assms(3) by (simp add: div_ceil_le_iff bl(2) mult.commute)
  then have "storage_frames r n \<subseteq> {b..<b + l}" by (auto simp: storage_frames_def bl(1))
  moreover have "div_ceil (FRAME_SIZE * b) FRAME_SIZE = b"
    by (simp add: div_ceil_def FRAME_SIZE_def)
  moreover have "(FRAME_SIZE * b + FRAME_SIZE * l) div FRAME_SIZE = b + l"
    by (simp add: distrib_left[symmetric])
  ultimately show ?thesis
    using entry_frames_interval[of r] by (simp add: entry_end_def bl)
qed

text \<open>What the map says the pools should hold, and the PMM that \<open>init\<close> builds.\<close>

definition initial_pool :: "mem_entry list \<Rightarrow> mem_entry \<Rightarrow> nat set" where
  "initial_pool entries r =
     usable_frames entries - storage_frames r (bitmap_bytes_for entries) - {0}"

definition initial_pmm :: "mem_entry list \<Rightarrow> mem_entry \<Rightarrow> pmm \<Rightarrow> bool" where
  "initial_pmm entries r p \<longleftrightarrow>
     bm_wf (pm_bitmap p) \<and> bm_base (pm_bitmap p) = 0 \<and> bm_count (pm_bitmap p) = frames_total entries
     \<and> bm_wf (pm_low_bitmap p) \<and> bm_base (pm_low_bitmap p) = 0
     \<and> bm_count (pm_low_bitmap p) = min LOW_MEM_FRAME_COUNT (frames_total entries)
     \<and> bm_free (pm_bitmap p) = initial_pool entries r \<inter> {LOW_MEM_FRAME_COUNT..}
     \<and> bm_free (pm_low_bitmap p) = initial_pool entries r \<inter> {..<LOW_MEM_FRAME_COUNT}
     \<and> pm_bitmap_base p = me_base r \<and> pm_bitmap_bytes p = bitmap_bytes_for entries
     \<and> pm_regions p = usable_table entries"

lemma bitmap_new_wf:
  assumes "n \<le> length ws * 64" and "n < u64_limit"
  obtains b where "bitmap_new ws 0 n = Inr b" "bm_wf b" "bm_base b = 0" "bm_count b = n"
  using assms by (auto simp: bitmap_new_def BITS_PER_WORD_def bm_wf_def)

lemma memory_map_okD:
  assumes "memory_map_ok entries" and "e \<in> set entries"
  shows "entry_end e \<le> 4503599627370496" "entry_end e < u64_limit"
    and "usable e \<Longrightarrow> FRAME_SIZE dvd me_base e" "usable e \<Longrightarrow> FRAME_SIZE dvd me_length e"
  using assms by (auto simp: memory_map_ok_def list_all_iff)

lemma frames_total_bound:
  "memory_map_ok entries \<Longrightarrow> frames_total entries \<le> 1099511627776"
proof -
  assume "memory_map_ok entries"
  then have "highest_end entries \<le> 4503599627370496"
    by (intro highest_end_le ballI) (rule memory_map_okD)
  then have "highest_end entries div 4096 \<le> 4503599627370496 div 4096" by (rule div_le_mono)
  then show ?thesis by (simp add: frames_total_def FRAME_SIZE_def)
qed

lemma usable_frames_total: "usable_frames entries \<subseteq> {..<frames_total entries}"
  using entry_frames_total by (auto simp: usable_frames_def)

text \<open>A region that can hold the bitmap lies above 1 MiB, so the map covers the low frames.\<close>

lemma frames_total_ge_low:
  assumes "memory_map_ok entries" and "bitmap_region_for entries (bitmap_bytes_for entries) = Some r"
    and "0 < frames_total entries"
  shows "LOW_MEM_FRAME_COUNT \<le> frames_total entries"
proof -
  note r = bitmap_region_for_Some[OF assms(2)]
  have "0 < div_ceil (frames_total entries) 64" using assms(3) by (simp add: div_ceil_def div_greater_zero_iff)
  then have "LOW_MEM_LIMIT \<le> entry_end r" using r by (auto simp: entry_end_def)
  also have "\<dots> \<le> highest_end entries" using r by (intro highest_end_ge) auto
  finally have "LOW_MEM_LIMIT div FRAME_SIZE \<le> frames_total entries"
    unfolding frames_total_def by (rule div_le_mono)
  then show ?thesis by (simp add: LOW_MEM_FRAME_COUNT_def)
qed

lemma initial_bitmaps:
  assumes "memory_map_ok entries" and r: "bitmap_region_for entries (bitmap_bytes_for entries) = Some r"
    and "0 < frames_total entries"
    and b0: "bm_wf b0" "bm_base b0 = 0" "bm_count b0 = frames_total entries"
    and l0: "bm_wf l0" "bm_base l0 = 0" "bm_count l0 = min LOW_MEM_FRAME_COUNT (frames_total entries)"
  obtains b1 b2 b3 b4 l1 l2 n where
    "for_each (filter usable entries) free_entry (fill_used b0) = Inr b1"
    "for_each [me_base r div FRAME_SIZE..<me_base r div FRAME_SIZE
       + div_ceil (bitmap_bytes_for entries) FRAME_SIZE] (\<lambda>f b. set_used b f) b1 = Inr b2"
    "for_each (filter usable entries) (move_low_entry (bm_count l0)) (b2, fill_used l0, 0) = Inr (b3, l1, n)"
    "set_used b3 0 = Inr b4" "set_used l1 0 = Inr l2" "same_shape b0 b4" "same_shape l0 l2"
    "bm_free b4 = initial_pool entries r \<inter> {LOW_MEM_FRAME_COUNT..}"
    "bm_free l2 = initial_pool entries r \<inter> {..<LOW_MEM_FRAME_COUNT}"
proof -
  let ?es = "filter usable entries" and ?k = "bm_count l0"
  let ?sf = "[me_base r div FRAME_SIZE..<me_base r div FRAME_SIZE
       + div_ceil (bitmap_bytes_for entries) FRAME_SIZE]"
  have rr: "r \<in> set entries" "usable r" "LOW_MEM_LIMIT \<le> me_base r" "bitmap_bytes_for entries \<le> me_length r"
    using bitmap_region_for_Some[OF r] by auto
  have low: "?k = LOW_MEM_FRAME_COUNT" using frames_total_ge_low[OF assms(1) r assms(3)] l0(3) by simp
  have ends: "\<forall>e\<in>set ?es. entry_end e < u64_limit" using memory_map_okD(2)[OF assms(1)] by auto
  have uf: "(\<Union>e\<in>set ?es. entry_frames e) = usable_frames entries" by (simp add: usable_frames_def)
  note fu = fill_used_free[OF b0(1)] and fl = fill_used_free[OF l0(1)]
  have wf: "bm_wf (fill_used b0)" "bm_base (fill_used b0) = 0" "bm_count (fill_used b0) = frames_total entries"
    using fu b0 same_shape_wf[of b0 "fill_used b0"] by (auto simp: same_shape_def)
  from free_entries_ok[OF wf(1,2) ends] usable_frames_total[of entries] wf(3) obtain b1
    where b1: "for_each ?es free_entry (fill_used b0) = Inr b1" "same_shape (fill_used b0) b1"
      "bm_free b1 = usable_frames entries" unfolding uf using fu by auto
  have wf1: "bm_wf b1" "bm_base b1 = 0" "bm_count b1 = frames_total entries"
    using b1(2) wf same_shape_wf[OF b1(2)] by (auto simp: same_shape_def)
  have sf: "set ?sf = storage_frames r (bitmap_bytes_for entries)" by (simp add: storage_frames_def)
  have "storage_frames r (bitmap_bytes_for entries) \<subseteq> entry_frames r"
    using rr memory_map_okD(3,4)[OF assms(1)] by (intro storage_in_region) auto
  then have "set ?sf \<subseteq> bm_range b1"
    using rr entry_frames_total[OF rr(1,2)] wf1(2,3) unfolding sf bm_range_def by auto
  from for_each_set_used[OF wf1(1) this] obtain b2
    where b2: "for_each ?sf (\<lambda>f b. set_used b f) b1 = Inr b2" "same_shape b1 b2"
      "bm_free b2 = usable_frames entries - storage_frames r (bitmap_bytes_for entries)"
    unfolding sf b1(3) by metis
  have wf2: "bm_wf b2" "bm_base b2 = 0" "?k \<le> bm_count b2"
    using b2(2) wf1 same_shape_wf[OF b2(2)] l0(3) by (auto simp: same_shape_def)
  have wfl: "bm_wf (fill_used l0)" "bm_base (fill_used l0) = 0" "bm_count (fill_used l0) = ?k"
    using fl l0 same_shape_wf[of l0 "fill_used l0"] by (auto simp: same_shape_def)
  from move_low_entries_ok[OF wf2(1) wfl(1) wf2(2) wfl(2,3) wf2(3) ends, of 0] obtain st
    where st: "for_each ?es (move_low_entry ?k) (b2, fill_used l0, 0) = Inr st"
      "low_moved b2 (fill_used l0) (usable_frames entries \<inter> {..<?k}) st" unfolding uf by blast
  obtain b3 l1 n where st_eq: "st = (b3, l1, n)" by (cases st)
  with st(2) fl have m: "same_shape b2 b3" "same_shape (fill_used l0) l1"
    "bm_free b3 = bm_free b2 - (usable_frames entries \<inter> {..<?k})"
    "bm_free l1 = usable_frames entries \<inter> {..<?k}" by (auto simp: low_moved_def)
  have wf3: "bm_wf b3" "0 \<in> bm_range b3"
    using same_shape_wf[OF m(1)] same_shape_range[OF m(1)] wf2 low
    by (auto simp: bm_range_def LOW_MEM_FRAME_COUNT_def LOW_MEM_LIMIT_def FRAME_SIZE_def)
  have wfl1: "bm_wf l1" "0 \<in> bm_range l1"
    using same_shape_wf[OF m(2)] same_shape_range[OF m(2)] wfl low
    by (auto simp: bm_range_def LOW_MEM_FRAME_COUNT_def LOW_MEM_LIMIT_def FRAME_SIZE_def)
  from set_used_ok[OF wf3] obtain b4
    where b4: "set_used b3 0 = Inr b4" "same_shape b3 b4" "bm_free b4 = bm_free b3 - {0}" .
  from set_used_ok[OF wfl1] obtain l2
    where l2: "set_used l1 0 = Inr l2" "same_shape l1 l2" "bm_free l2 = bm_free l1 - {0}" .
  have not_low: "f \<notin> storage_frames r (bitmap_bytes_for entries)" if "f < LOW_MEM_FRAME_COUNT" for f
    using that div_le_mono[OF rr(3), of FRAME_SIZE] by (auto simp: storage_frames_def LOW_MEM_FRAME_COUNT_def)
  have "bm_free b4 = initial_pool entries r \<inter> {LOW_MEM_FRAME_COUNT..}"
    unfolding b4(3) m(3) b2(3) low initial_pool_def by (auto simp: not_less)
  moreover have "bm_free l2 = initial_pool entries r \<inter> {..<LOW_MEM_FRAME_COUNT}"
    unfolding l2(3) m(4) low initial_pool_def using not_low by auto
  moreover have "same_shape b0 b4"
    using fu b1(2) b2(2) m(1) b4(2) by (simp add: same_shape_def)
  moreover have "same_shape l0 l2" using fl m(2) l2(2) by (simp add: same_shape_def)
  ultimately show thesis using b1(1) b2(1) st(1) st_eq b4(1) l2(1) by (intro that) simp_all
qed


lemma build_pmm_ok:
  assumes ok: "memory_map_ok entries"
    and r: "bitmap_region_for entries (bitmap_bytes_for entries) = Some r"
    and pos: "0 < frames_total entries" and virt: "phys_to_virt s (me_base r) = Inr v"
  obtains p where "build_pmm entries s = Inr p" "initial_pmm entries r p"
proof -
  let ?T = "frames_total entries" and ?B = "bitmap_bytes_for entries"
  note T = frames_total_bound[OF ok]
  have ends: "\<forall>e\<in>set entries. entry_end e < u64_limit" using memory_map_okD(2)[OF ok] by auto
  have sum: "0 + sum_list (map me_length (filter usable entries)) < u64_limit"
    using ok by (simp add: memory_map_ok_def)
  from scan_entries_ok[OF ends sum, of 0 0] obtain ub rc
    where scan: "for_each entries scan_entry (0, 0, 0) = Inr (ub, rc, highest_end entries)"
    unfolding highest_end_def by blast
  let ?ws = "map (\<lambda>i. ram_word (mm_ram s) (me_base r + 8 * i)) [0..<div_ceil ?T 64]"
  have "?T \<le> length ?ws * 64" using le_div_ceil_mult[of 64 ?T] by simp
  from bitmap_new_wf[OF this] T obtain b0
    where b0: "bitmap_new ?ws 0 ?T = Inr b0" "bm_wf b0" "bm_base b0 = 0" "bm_count b0 = ?T" by auto
  let ?k = "min LOW_MEM_FRAME_COUNT ?T"
  have "?k \<le> length (replicate LOW_BITMAP_WORD_COUNT (0::u64)) * 64"
    using le_div_ceil_mult[of 64 LOW_MEM_FRAME_COUNT] by (simp add: LOW_BITMAP_WORD_COUNT_def)
  moreover have "?k < u64_limit" using T by simp
  ultimately obtain l0
    where l0: "bitmap_new (replicate LOW_BITMAP_WORD_COUNT 0) 0 ?k = Inr l0" "bm_wf l0" "bm_base l0 = 0"
      "bm_count l0 = ?k" by (rule bitmap_new_wf)
  from initial_bitmaps[OF ok r pos b0(2-4) l0(2-4)] obtain b1 b2 b3 b4 l1 l2 n where *:
    "for_each (filter usable entries) free_entry (fill_used b0) = Inr b1"
    "for_each [me_base r div FRAME_SIZE..<me_base r div FRAME_SIZE + div_ceil ?B FRAME_SIZE]
       (\<lambda>f b. set_used b f) b1 = Inr b2"
    "for_each (filter usable entries) (move_low_entry (bm_count l0)) (b2, fill_used l0, 0) = Inr (b3, l1, n)"
    "set_used b3 0 = Inr b4" "set_used l1 0 = Inr l2" "same_shape b0 b4" "same_shape l0 l2"
    "bm_free b4 = initial_pool entries r \<inter> {LOW_MEM_FRAME_COUNT..}"
    "bm_free l2 = initial_pool entries r \<inter> {..<LOW_MEM_FRAME_COUNT}" .
  have wf: "bm_wf b4" "bm_wf l2" "bm_base b4 = 0" "bm_base l2 = 0" "bm_count b4 = ?T" "bm_count l2 = ?k"
    using *(6,7) b0 l0 same_shape_wf[OF *(6)] same_shape_wf[OF *(7)] by (simp_all add: same_shape_def)
  have rr: "r \<in> set entries" "?B \<le> me_length r" using bitmap_region_for_Some[OF r] by auto
  have "me_base r div FRAME_SIZE + div_ceil ?B FRAME_SIZE < u64_limit"
  proof -
    have "me_base r div FRAME_SIZE \<le> me_base r" "div_ceil ?B FRAME_SIZE \<le> me_length r"
      using rr(2) by (simp_all add: div_le_dividend div_ceil_le_iff FRAME_SIZE_def)
    with memory_map_okD(1)[OF ok rr(1)] show ?thesis unfolding entry_end_def by linarith
  qed
  then have "build_pmm entries s = Inr \<lparr>pm_bitmap = b4, pm_bitmap_base = me_base r,
      pm_bitmap_bytes = ?B, pm_low_bitmap = l2, pm_low_reserved = n, pm_regions = usable_table entries\<rparr>"
    using pos r virt b0(1) l0(1,4) *(1-5) count_free_ok[OF wf(1)]
    by (simp add: build_pmm_def scan frames_total_def[symmetric] bitmap_bytes_for_def[symmetric] Let_def)
  moreover have "initial_pmm entries r \<lparr>pm_bitmap = b4, pm_bitmap_base = me_base r,
      pm_bitmap_bytes = ?B, pm_low_bitmap = l2, pm_low_reserved = n, pm_regions = usable_table entries\<rparr>"
    using wf *(8,9) by (simp add: initial_pmm_def)
  ultimately show thesis by (rule that)
qed

text \<open>
  The region table holds at most \<open>MAX_USABLE_REGIONS\<close> entries; when the map has no more usable
  regions than that, the table knows all of them and the built PMM is well formed, with exactly
  the grantable frames free.
\<close>

lemma usable_table_set:
  "length (filter usable entries) \<le> MAX_USABLE_REGIONS \<Longrightarrow>
   set (usable_table entries) = (\<lambda>e. (me_base e, me_length e)) ` set (filter usable entries)"
  by (simp add: usable_table_def)

lemma storage_frames_bytes:
  assumes "FRAME_SIZE dvd me_base r"
  shows "me_base r \<le> f * FRAME_SIZE \<and> f * FRAME_SIZE < me_base r + n \<longleftrightarrow> f \<in> storage_frames r n"
proof -
  obtain b where b: "me_base r = b * FRAME_SIZE" using assms by (auto simp: dvd_def mult.commute)
  have "f * FRAME_SIZE < b * FRAME_SIZE + n \<longleftrightarrow> f < b + div_ceil n FRAME_SIZE" if "b \<le> f"
  proof -
    have "f * FRAME_SIZE < b * FRAME_SIZE + n \<longleftrightarrow> (f - b) * FRAME_SIZE < n"
      using that by (simp add: diff_mult_distrib less_diff_conv2 add.commute mult_le_mono1)
    also have "\<dots> \<longleftrightarrow> \<not> div_ceil n FRAME_SIZE \<le> f - b"
      by (simp add: div_ceil_le_iff not_le)
    finally show ?thesis using that by auto
  qed
  then show ?thesis by (auto simp: storage_frames_def b)
qed

lemma initial_grantable:
  assumes ok: "memory_map_ok entries" and len: "length (filter usable entries) \<le> MAX_USABLE_REGIONS"
    and r: "bitmap_region_for entries (bitmap_bytes_for entries) = Some r"
    and p: "initial_pmm entries r p"
  shows "region_bounds p" and "grantable p = initial_pool entries r"
proof -
  note rr = bitmap_region_for_Some[OF r]
  have "me_base r + bitmap_bytes_for entries < u64_limit"
    using rr memory_map_okD(2)[OF ok, of r] by (simp add: entry_end_def)
  then show rb: "region_bounds p"
    using p memory_map_okD(2)[OF ok]
    by (auto simp: region_bounds_def initial_pmm_def usable_table_set[OF len] entry_end_def)
  have small: "f * FRAME_SIZE + FRAME_SIZE < u64_limit" if "f < frames_total entries" for f
    using that frames_total_bound[OF ok] by (simp add: FRAME_SIZE_def)
  have dvd: "FRAME_SIZE dvd me_base r" using rr memory_map_okD(3)[OF ok] by blast
  have usable_iff: "is_usable_frame p f = Inr (f \<notin> storage_frames r (bitmap_bytes_for entries)
      \<and> f \<in> usable_frames entries)" if "f < frames_total entries" for f
  proof -
    have "(\<exists>(base, len)\<in>set (pm_regions p). base \<le> f * FRAME_SIZE \<and> f * FRAME_SIZE + FRAME_SIZE \<le> base + len)
        \<longleftrightarrow> f \<in> usable_frames entries"
      using p by (auto simp: initial_pmm_def usable_table_set[OF len] usable_frames_def entry_frames_def entry_end_def)
    then show ?thesis
      using p storage_frames_bytes[OF dvd] by (simp add: is_usable_frame_eq[OF rb small[OF that]] initial_pmm_def)
  qed
  show "grantable p = initial_pool entries r"
    using p usable_frames_total[of entries]
    by (auto simp: grantable_def initial_pmm_def initial_pool_def usable_iff)
qed

lemma initial_pmm_inv:
  assumes "memory_map_ok entries" and "length (filter usable entries) \<le> MAX_USABLE_REGIONS"
    and "bitmap_region_for entries (bitmap_bytes_for entries) = Some r"
    and "0 < frames_total entries" and p: "initial_pmm entries r p"
  shows "pmm_inv p" and "pool_of p = grantable p"
proof -
  note g = initial_grantable[OF assms(1-3,5)]
  have "(frames_total entries + 1) * FRAME_SIZE < u64_limit"
    using frames_total_bound[OF assms(1)] by (simp add: FRAME_SIZE_def)
  with p g frames_total_ge_low[OF assms(1,3,4)] show "pmm_inv p"
    by (auto simp: pmm_inv_def initial_pmm_def)
  show "pool_of p = grantable p"
    using p g(2) by (auto simp: pool_of_def initial_pmm_def)
qed


subsection \<open>Who owns which frame\<close>

definition run_addrs :: "nat \<Rightarrow> nat \<Rightarrow> nat set" where
  "run_addrs a n = (\<lambda>i. a + i * FRAME_SIZE) ` {..<n}"

lemma run_addrs_frames: "run_addrs (f * FRAME_SIZE) n = frame_addrs {f..<f + n}"
proof -
  have "{f..<f + n} = (\<lambda>i. f + i) ` {..<n}"
    using image_add_atLeastLessThan[of f 0 n] by (simp add: lessThan_atLeast0 add.commute)
  then show ?thesis
    by (simp add: run_addrs_def frame_addrs_def image_image distrib_right add.commute)
qed

lemma frame_addrs_Diff_sets: "frame_addrs (A - B) = frame_addrs A - frame_addrs B"
  unfolding frame_addrs_def by (rule image_set_diff) (simp add: inj_on_def)

lemma pmm_alloc_run_sound:
  assumes inv: "pmm_inv p" and run: "pmm_alloc_run n a p = Inr (Some addr, q)"
  obtains f where "addr = f * FRAME_SIZE" "{f..<f + n} \<subseteq> bm_free (pm_bitmap p)" "a dvd f" "pmm_inv q"
    "same_tables p q" "pm_low_bitmap q = pm_low_bitmap p"
    "bm_free (pm_bitmap q) = bm_free (pm_bitmap p) - {f..<f + n}"
proof -
  note D = pmm_invD[OF inv]
  from run obtain f b where f: "find_free_run (pm_bitmap p) n a = Inr (Some f)"
    and b: "for_each [f..<f + n] (\<lambda>f b. set_used b f) (pm_bitmap p) = Inr b"
    and q: "addr = f * FRAME_SIZE" "q = p\<lparr>pm_bitmap := b\<rparr>"
    by (auto simp: pmm_alloc_run_def checked_simps split: option.splits)
  from find_free_run_sound[OF f D(1)] have fr: "a dvd f" "{f..<f + n} \<subseteq> bm_free (pm_bitmap p)"
    by (auto simp: free_run_def)
  then have "set [f..<f + n] \<subseteq> bm_range (pm_bitmap p)" using bm_free_subset by auto
  from for_each_set_used[OF D(1) this] b
  have b': "same_shape (pm_bitmap p) b" "bm_free b = bm_free (pm_bitmap p) - {f..<f + n}" by auto
  have tables: "same_tables p q" using b'(1) by (simp add: same_tables_def q(2))
  have "pmm_inv q"
    by (rule pmm_inv_transfer[OF inv tables]) (use D(8,9,10) b'(2) q(2) in auto)
  with fr q b' tables show thesis by (intro that[of f]) simp_all
qed

lemma alloc_contiguous_sound:
  assumes "mm_inv s" and run: "alloc_contiguous n al s = Inr (Some a, s')"
  shows "run_addrs a n \<subseteq> mm_general s" and "mm_avail s' = mm_avail s - run_addrs a n"
    and "mm_managed s' = mm_managed s" and "mm_inv s'" and "al * FRAME_SIZE dvd a" and "mm_low s' = mm_low s"
proof -
  from assms(1) obtain p where p: "mm_pmm s = Some p" "pmm_inv p" by (rule mm_invE)
  from run p(1) obtain q where q: "pmm_alloc_run n al p = Inr (Some a, q)" "s' = s\<lparr>mm_pmm := Some q\<rparr>"
    by (auto simp: alloc_contiguous_def with_pmm_def checked_simps split: if_splits)
  from pmm_alloc_run_sound[OF p(2) q(1)] obtain f where
    f: "a = f * FRAME_SIZE" "{f..<f + n} \<subseteq> bm_free (pm_bitmap p)" "al dvd f" "pmm_inv q"
    "same_tables p q" "pm_low_bitmap q = pm_low_bitmap p"
    "bm_free (pm_bitmap q) = bm_free (pm_bitmap p) - {f..<f + n}" .
  have "pool_of q = pool_of p - {f..<f + n}"
    using f(2,6,7) pools_disjoint[OF p(2)] by (auto simp: pool_of_def)
  with f p q(2) show "run_addrs a n \<subseteq> mm_general s" "mm_avail s' = mm_avail s - run_addrs a n"
    "mm_managed s' = mm_managed s" "mm_inv s'" "al * FRAME_SIZE dvd a" "mm_low s' = mm_low s"
    by (simp_all add: mm_avail_def mm_managed_def mm_general_def mm_low_def mm_inv_def run_addrs_frames
        frame_addrs_Diff_sets frame_addrs_mono same_tables_grantable)
qed

lemma alloc_contiguous_refused:
  "alloc_contiguous n al s = Inr (None, s') \<Longrightarrow> s' = s"
  by (auto simp: alloc_contiguous_def with_pmm_def pmm_alloc_run_def checked_simps
      split: if_splits option.splits)

lemma free_frame_Inr_lent:
  assumes "mm_inv s" and run: "free_frame a s = Inr s'"
  shows "a \<in> mm_managed s - mm_avail s"
proof -
  from assms(1) obtain p where p: "mm_pmm s = Some p" "pmm_inv p" by (rule mm_invE)
  let ?f = "a div FRAME_SIZE"
  from run p(1) obtain q where f: "a = ?f * FRAME_SIZE" "0 < ?f"
    and q: "pmm_free_one ?f p = Inr ((), q)"
    by (auto simp: free_frame_def with_pmm_def checked_simps Let_def)
  from q have us: "is_usable_frame p ?f = Inr True" "is_used (bitmap_for p ?f) ?f = Inr True"
    by (auto simp: pmm_free_one_def checked_simps)
  then have "?f \<in> bm_range (bitmap_for p ?f)" using out_of_range_panics(3) by fastforce
  then have lt: "?f < bm_count (pm_bitmap p)"
    using pmm_invD[OF p(2)] by (auto simp: bm_range_def bitmap_for_def split: if_splits)
  note ok = bitmap_for_ok[OF p(2) lt]
  have "?f \<notin> pool_of p" using us(2) is_used_ok[OF ok] bitmap_for_free[OF p(2)] by simp
  moreover have "?f \<in> grantable p" using f(2) lt us(1) by (simp add: grantable_def)
  ultimately have "?f * FRAME_SIZE \<in> mm_managed s - mm_avail s"
    using p(1) by (simp add: mm_managed_def mm_avail_def)
  then show ?thesis using f(1) by simp
qed

text \<open>
  Every history of the allocator: the state with the set of frames currently lent.  A caller may
  ask for anything and may release any address; panicking calls are not steps, since the kernel
  stops there.
\<close>

inductive pmm_step :: "mm_state \<times> nat set \<Rightarrow> mm_state \<times> nat set \<Rightarrow> bool" where
  step_alloc: "alloc_frame s = Inr (Some a, s') \<Longrightarrow> pmm_step (s, L) (s', insert a L)"
| step_alloc_none: "alloc_frame s = Inr (None, s') \<Longrightarrow> pmm_step (s, L) (s', L)"
| step_low: "alloc_frame_low s = Inr (Some a, s') \<Longrightarrow> pmm_step (s, L) (s', insert a L)"
| step_low_none: "alloc_frame_low s = Inr (None, s') \<Longrightarrow> pmm_step (s, L) (s', L)"
| step_run: "alloc_contiguous n al s = Inr (Some a, s') \<Longrightarrow> pmm_step (s, L) (s', L \<union> run_addrs a n)"
| step_run_none: "alloc_contiguous n al s = Inr (None, s') \<Longrightarrow> pmm_step (s, L) (s', L)"
| step_free: "free_frame a s = Inr s' \<Longrightarrow> pmm_step (s, L) (s', L - {a})"
| step_inject: "pmm_step (s, L) (inject_alloc_failures_after k n s, L)"

inductive pmm_reachable :: "mem_entry list \<Rightarrow> mm_state \<times> nat set \<Rightarrow> bool" for entries where
  reach_boot: "pmm_init entries s0 = Inr s \<Longrightarrow> pmm_reachable entries (s, {})"
| reach_step: "pmm_reachable entries x \<Longrightarrow> pmm_step x y \<Longrightarrow> pmm_reachable entries y"

inductive_cases pmm_stepE: "pmm_step (s, L) y"

text \<open>Managed frames are split between the lent and the available ones.\<close>

definition pmm_split :: "mm_state \<times> nat set \<Rightarrow> bool" where
  "pmm_split = (\<lambda>(s, L). mm_inv s \<and> L = mm_managed s - mm_avail s)"

lemma pmm_step_split:
  assumes "pmm_step x y" and "pmm_split x"
  shows "pmm_split y"
  using assms
proof (induction rule: pmm_step.induct)
  case (step_alloc s a s' L)
  then show ?case
    using general_pool.alloc_some[of s a s'] mm_avail_managed[of s] by (auto simp: pmm_split_def)
next
  case (step_alloc_none s s' L)
  then show ?case using general_pool.alloc_none[of s s'] by (auto simp: pmm_split_def)
next
  case (step_low s a s' L)
  then show ?case
    using low_pool.alloc_some[of s a s'] mm_avail_managed[of s] by (auto simp: pmm_split_def)
next
  case (step_low_none s s' L)
  then show ?case using low_pool.alloc_none[of s s'] by (auto simp: pmm_split_def)
next
  case (step_run n al s a s' L)
  then have "mm_inv s" by (simp add: pmm_split_def)
  note run = alloc_contiguous_sound[OF this step_run.hyps]
  have "run_addrs a n \<subseteq> mm_managed s"
    using run(1) mm_pools_avail(1) mm_avail_managed[OF \<open>mm_inv s\<close>] by blast
  with run step_run.prems show ?case by (auto simp: pmm_split_def)
next
  case (step_run_none n al s s' L)
  then show ?case by (simp add: alloc_contiguous_refused[OF step_run_none.hyps])
next
  case (step_free a s s' L)
  then have inv: "mm_inv s" by (simp add: pmm_split_def)
  from free_frame_returns[OF inv free_frame_Inr_lent[OF inv step_free.hyps]] step_free
  show ?case by (auto simp: pmm_split_def)
next
  case (step_inject s L k n)
  then show ?case
    by (simp add: pmm_split_def inject_alloc_failures_after_def mm_inv_def mm_managed_def mm_avail_def)
qed


lemma pmm_step_managed:
  assumes "pmm_step x y" and "pmm_split x"
  shows "mm_managed (fst y) = mm_managed (fst x)"
  using assms
proof (induction rule: pmm_step.induct)
  case (step_free a s s' L)
  then have inv: "mm_inv s" by (simp add: pmm_split_def)
  from free_frame_returns[OF inv free_frame_Inr_lent[OF inv step_free.hyps]] step_free
  show ?case by auto
next
  case (step_inject s L k n)
  then show ?case by (simp add: inject_alloc_failures_after_def mm_managed_def)
qed (auto simp: pmm_split_def alloc_contiguous_sound(3)
      dest: general_pool.alloc_some general_pool.alloc_none low_pool.alloc_some low_pool.alloc_none
        alloc_contiguous_refused)

text \<open>What booting from a documented memory map establishes, and every history keeps.\<close>

definition boot_map :: "mem_entry list \<Rightarrow> bool" where
  "boot_map entries \<longleftrightarrow> memory_map_ok entries \<and> length (filter usable entries) \<le> MAX_USABLE_REGIONS"

definition boot_region :: "mem_entry list \<Rightarrow> mem_entry option" where
  "boot_region entries = bitmap_region_for entries (bitmap_bytes_for entries)"

lemma build_pmm_needs:
  assumes "memory_map_ok entries" and "build_pmm entries s = Inr p"
  obtains r where "boot_region entries = Some r" "0 < frames_total entries" "initial_pmm entries r p"
proof -
  have ends: "\<forall>e\<in>set entries. entry_end e < u64_limit" using memory_map_okD(2)[OF assms(1)] by auto
  have sum: "0 + sum_list (map me_length (filter usable entries)) < u64_limit"
    using assms(1) by (simp add: memory_map_ok_def)
  from scan_entries_ok[OF ends sum, of 0 0] obtain ub rc
    where scan: "for_each entries scan_entry (0, 0, 0) = Inr (ub, rc, highest_end entries)"
    unfolding highest_end_def by blast
  have pos: "0 < frames_total entries"
    using assms(2) by (auto simp: build_pmm_def scan frames_total_def[symmetric] Let_def checked_simps)
  obtain r where r: "bitmap_region_for entries (bitmap_bytes_for entries) = Some r"
    using assms(2)
    by (auto simp: build_pmm_def scan frames_total_def[symmetric] bitmap_bytes_for_def[symmetric]
        Let_def checked_simps split: option.splits)
  obtain v where v: "phys_to_virt s (me_base r) = Inr v"
    using assms(2) r
    by (auto simp: build_pmm_def scan frames_total_def[symmetric] bitmap_bytes_for_def[symmetric] Let_def checked_simps)
  from build_pmm_ok[OF assms(1) r pos v] assms(2) have "initial_pmm entries r p" by auto
  with r pos show thesis by (intro that) (simp_all add: boot_region_def)
qed

lemma reachable_split:
  assumes "pmm_reachable entries x" and "boot_map entries"
  shows "pmm_split x \<and> (\<exists>r. boot_region entries = Some r
    \<and> mm_managed (fst x) = frame_addrs (initial_pool entries r))"
  using assms
proof (induction rule: pmm_reachable.induct)
  case (reach_boot s0 s)
  then obtain p where p: "build_pmm entries s0 = Inr p" "mm_pmm s = Some p"
    by (auto simp: pmm_init_def checked_simps)
  have map: "memory_map_ok entries" "length (filter usable entries) \<le> MAX_USABLE_REGIONS"
    using reach_boot.prems by (simp_all add: boot_map_def)
  from build_pmm_needs[OF map(1) p(1)] obtain r
    where r: "boot_region entries = Some r" "0 < frames_total entries" "initial_pmm entries r p" .
  note r' = r(1)[unfolded boot_region_def]
  note inv = initial_pmm_inv[OF map r' r(2,3)]
  have "grantable p = initial_pool entries r" by (rule initial_grantable(2)[OF map r' r(3)])
  with inv r(1) p(2) show ?case
    by (simp add: pmm_split_def mm_inv_def mm_managed_def mm_avail_def)
next
  case (reach_step x y)
  then have "pmm_split x" by blast
  with reach_step pmm_step_split[of x y] pmm_step_managed[of x y] show ?case by simp
qed

lemma reachableD:
  assumes "pmm_reachable entries (s, L)" and "boot_map entries"
  shows "mm_inv s" and "L = mm_managed s - mm_avail s"
  using reachable_split[OF assms] by (auto simp: pmm_split_def)

lemma initial_pool_facts:
  assumes "boot_map entries" and "boot_region entries = Some r" and "f \<in> initial_pool entries r"
  shows "0 < f" and "f < frames_total entries" and "f \<in> usable_frames entries"
    and "\<not> (me_base r \<le> f * FRAME_SIZE \<and> f * FRAME_SIZE < me_base r + bitmap_bytes_for entries)"
proof -
  have "r \<in> set entries" "usable r"
    using assms(2) bitmap_region_for_Some by (auto simp: boot_region_def)
  then have "FRAME_SIZE dvd me_base r"
    using assms(1) memory_map_okD(3) by (auto simp: boot_map_def)
  from storage_frames_bytes[OF this] assms(3)
  show "\<not> (me_base r \<le> f * FRAME_SIZE \<and> f * FRAME_SIZE < me_base r + bitmap_bytes_for entries)"
    by (auto simp: initial_pool_def)
  show "0 < f" "f < frames_total entries" "f \<in> usable_frames entries"
    using assms(3) usable_frames_total[of entries] by (auto simp: initial_pool_def)
qed

subsection \<open>Properties\<close>

text \<open>
  The witnesses run on a small map: two usable regions, frames 1 and 2 below 1 MiB and frames
  256 to 263 above, and a reserved one.  The bitmap takes frame 256.
\<close>

definition demo_map :: "mem_entry list" where
  "demo_map = [\<lparr>me_base = 4096, me_length = 8192, me_type = MEMMAP_USABLE\<rparr>,
     \<lparr>me_base = 12288, me_length = 4096, me_type = MEMMAP_RESERVED\<rparr>,
     \<lparr>me_base = 1048576, me_length = 32768, me_type = MEMMAP_USABLE\<rparr>]"

definition demo_boot :: mm_state where
  "demo_boot = \<lparr>mm_pmm = None, mm_inject_skip = 0, mm_inject_failures = 0,
     mm_hhdm_offset = 18446603336221196288, mm_phys_end = 1081344, mm_ram = (\<lambda>_. 170)\<rparr>"

lemma demo_map_ok: "boot_map demo_map"
  by (simp add: boot_map_def memory_map_ok_def demo_map_def entry_end_def usable_def
      FRAME_SIZE_def MAX_USABLE_REGIONS_def)

lemma demo_frames: "frames_total demo_map = 264" "bitmap_bytes_for demo_map = 40"
  by (simp_all add: frames_total_def highest_end_def demo_map_def usable_def entry_end_def
      FRAME_SIZE_def bitmap_bytes_for_def div_ceil_def)

lemma demo_region:
  "boot_region demo_map = Some \<lparr>me_base = 1048576, me_length = 32768, me_type = MEMMAP_USABLE\<rparr>"
  unfolding boot_region_def demo_frames
  by (simp add: bitmap_region_for_def demo_map_def usable_def LOW_MEM_LIMIT_def)

lemma demo_virt: "phys_to_virt demo_boot (me_base \<lparr>me_base = 1048576, me_length = 32768, me_type = MEMMAP_USABLE\<rparr>)
    = Inr 18446603336222244864"
  by (simp add: phys_to_virt_def hhdm_offset_def demo_boot_def uadd_def)

lemma demo_boots: "\<exists>s. pmm_init demo_map demo_boot = Inr s \<and> pmm_reachable demo_map (s, {})"
proof -
  from demo_map_ok have "memory_map_ok demo_map" by (simp add: boot_map_def)
  from build_pmm_ok[OF this demo_region[unfolded boot_region_def] _ demo_virt]
  obtain p where "build_pmm demo_map demo_boot = Inr p" by (auto simp: demo_frames)
  then show ?thesis
    by (auto simp: pmm_init_def intro!: pmm_reachable.reach_boot[of demo_map demo_boot])
qed


lemma pmm_init_builds:
  assumes "boot_map entries" and "boot_region entries = Some r" and "0 < frames_total entries"
    and "phys_to_virt s (me_base r) = Inr v"
  shows "\<exists>s'. pmm_init entries s = Inr s'
    \<and> mm_general s' = frame_addrs {f \<in> usable_frames entries. LOW_MEM_FRAME_COUNT \<le> f
          \<and> f \<notin> storage_frames r (bitmap_bytes_for entries)}
    \<and> mm_low s' = frame_addrs {f \<in> usable_frames entries. 0 < f \<and> f < LOW_MEM_FRAME_COUNT}"
proof -
  from assms(1) have map: "memory_map_ok entries" by (simp add: boot_map_def)
  from build_pmm_ok[OF map assms(2)[unfolded boot_region_def] assms(3,4)] obtain p
    where p: "build_pmm entries s = Inr p" "initial_pmm entries r p" .
  have "LOW_MEM_LIMIT \<le> me_base r"
    using assms(2) bitmap_region_for_Some unfolding boot_region_def by blast
  then have "LOW_MEM_FRAME_COUNT \<le> me_base r div FRAME_SIZE"
    unfolding LOW_MEM_FRAME_COUNT_def by (rule div_le_mono)
  then have "f \<notin> storage_frames r (bitmap_bytes_for entries)" if "f < LOW_MEM_FRAME_COUNT" for f
    using that by (auto simp: storage_frames_def)
  then have "initial_pool entries r \<inter> {..<LOW_MEM_FRAME_COUNT}
      = {f \<in> usable_frames entries. 0 < f \<and> f < LOW_MEM_FRAME_COUNT}"
    by (auto simp: initial_pool_def)
  moreover have "initial_pool entries r \<inter> {LOW_MEM_FRAME_COUNT..}
      = {f \<in> usable_frames entries. LOW_MEM_FRAME_COUNT \<le> f
          \<and> f \<notin> storage_frames r (bitmap_bytes_for entries)}"
    by (auto simp: initial_pool_def LOW_MEM_FRAME_COUNT_def LOW_MEM_LIMIT_def FRAME_SIZE_def)
  ultimately show ?thesis
    using p by (simp add: pmm_init_def mm_general_def mm_low_def initial_pmm_def)
qed

lemma pmm_init_panics:
  assumes "boot_map entries" and "boot_region entries = Some r" and "0 < frames_total entries"
    and "phys_to_virt s (me_base r) = Inl e"
  shows "pmm_init entries s = Inl e"
proof -
  have map: "memory_map_ok entries" using assms(1) by (simp add: boot_map_def)
  have ends: "\<forall>e\<in>set entries. entry_end e < u64_limit" using memory_map_okD(2)[OF map] by auto
  have sum: "0 + sum_list (map me_length (filter usable entries)) < u64_limit"
    using map by (simp add: memory_map_ok_def)
  from scan_entries_ok[OF ends sum, of 0 0] obtain ub rc
    where scan: "for_each entries scan_entry (0, 0, 0) = Inr (ub, rc, highest_end entries)"
    unfolding highest_end_def by blast
  show ?thesis using assms(2-4)
    by (simp add: pmm_init_def build_pmm_def scan boot_region_def frames_total_def[symmetric]
        bitmap_bytes_for_def[symmetric] Let_def)
qed

text \<open>
  C3. Booting builds the PMM the memory map describes: whenever the map is well formed, reaches at least one frame and has a
  region above 1 MiB for the bitmap, \<open>init\<close> panics exactly when the bitmap has no address in the direct map (its
  offset is not set, or the sum overflows); otherwise it returns, the general pool is exactly the usable frames at or above
  1 MiB outside the bitmap's own storage, and the low pool exactly the usable frames below 1 MiB except frame 0.
\<close>
theorem pmm_init_pools:
  assumes "boot_map entries" and "boot_region entries = Some r" and "0 < frames_total entries"
  shows "if mm_hhdm_offset s = u64_limit - 1 \<or> u64_limit \<le> me_base r + mm_hhdm_offset s
    then \<exists>e. pmm_init entries s = Inl e
    else \<exists>s'. pmm_init entries s = Inr s'
      \<and> mm_general s' = frame_addrs {f \<in> usable_frames entries. LOW_MEM_FRAME_COUNT \<le> f
            \<and> f \<notin> storage_frames r (bitmap_bytes_for entries)}
      \<and> mm_low s' = frame_addrs {f \<in> usable_frames entries. 0 < f \<and> f < LOW_MEM_FRAME_COUNT}"
proof (cases "mm_hhdm_offset s = u64_limit - 1 \<or> u64_limit \<le> me_base r + mm_hhdm_offset s")
  case True
  then have "\<exists>e. phys_to_virt s (me_base r) = Inl e"
    by (auto simp: phys_to_virt_def hhdm_offset_def uadd_def require_def)
  then show ?thesis using True pmm_init_panics[OF assms] by auto
next
  case False
  then have "phys_to_virt s (me_base r) = Inr (me_base r + mm_hhdm_offset s)"
    by (simp add: phys_to_virt_def hhdm_offset_def uadd_def)
  from pmm_init_builds[OF assms this] show ?thesis using False by simp
qed

lemma demo_usable: "usable_frames demo_map = {1, 2, 256, 257, 258, 259, 260, 261, 262, 263}"
proof -
  have "usable_frames demo_map = {1..<3} \<union> {256..<264}"
    by (simp add: usable_frames_def demo_map_def usable_def entry_frames_interval[symmetric]
        entry_end_def div_ceil_def FRAME_SIZE_def)
  then show ?thesis by (simp add: atLeastLessThan_nat_numeral atLeastLessThanSuc) auto
qed

lemma demo_pools:
  "{f \<in> usable_frames demo_map. LOW_MEM_FRAME_COUNT \<le> f \<and> f \<notin> storage_frames
      \<lparr>me_base = 1048576, me_length = 32768, me_type = MEMMAP_USABLE\<rparr> (bitmap_bytes_for demo_map)}
    = {257, 258, 259, 260, 261, 262, 263}"
  "{f \<in> usable_frames demo_map. 0 < f \<and> f < LOW_MEM_FRAME_COUNT} = {1, 2}"
  unfolding demo_usable demo_frames
  by (auto simp: storage_frames_def LOW_MEM_FRAME_COUNT_def LOW_MEM_LIMIT_def FRAME_SIZE_def div_ceil_def)

lemma pmm_init_pools_witness:
  "\<exists>s'. pmm_init demo_map demo_boot = Inr s' \<and> mm_general s' = frame_addrs {257, 258, 259, 260, 261, 262, 263}
     \<and> mm_low s' = frame_addrs {1, 2}"
  using pmm_init_pools[OF demo_map_ok demo_region, of demo_boot]
  by (simp add: demo_pools demo_frames(1) demo_boot_def)

lemma alloc_frame_lowest:
  assumes "mm_inv s" and "mm_inject_failures s = 0" and "a \<in> mm_general s"
    and "\<forall>x\<in>mm_general s. a \<le> x"
  obtains s' where "alloc_frame s = Inr (Some a, s')" "mm_general s' = mm_general s - {a}"
    "mm_inject_failures s' = 0" "mm_inv s'"
proof -
  from assms(1) show thesis
  proof (cases rule: alloc_frame_cases)
    case (none s')
    with assms(2,3) show thesis by auto
  next
    case (some b s')
    then have b: "b = a" using assms(3,4) by (auto simp: lends_def intro: le_antisym)
    have "mm_inject_failures s' = 0"
      using some(1) assms(2)
      by (auto simp: alloc_frame_def with_pmm_def take_injected_failure_def checked_simps
          split: if_splits option.splits)
    with some b show thesis by (intro that[of s']) (simp_all add: lends_def)
  qed
qed

text \<open>The first two allocations on the small map: frames 257 and 258.\<close>

lemma demo_run:
  obtains s0 s1 s2 where "pmm_reachable demo_map (s0, {})" "alloc_frame s0 = Inr (Some 1052672, s1)"
    "pmm_reachable demo_map (s1, {1052672})" "alloc_frame s1 = Inr (Some 1056768, s2)"
    "pmm_reachable demo_map (s2, {1056768, 1052672})"
    "mm_general s0 = {1052672, 1056768, 1060864, 1064960, 1069056, 1073152, 1077248}"
    "mm_inject_failures s0 = 0" "mm_hhdm_offset s0 = 18446603336221196288"
proof -
  from pmm_init_builds[OF demo_map_ok demo_region _ demo_virt] obtain s0 where
    boot: "pmm_init demo_map demo_boot = Inr s0" and gen: "mm_general s0 = frame_addrs {257, 258, 259, 260, 261, 262, 263}"
    by (auto simp: demo_pools demo_frames(1))
  have r0: "pmm_reachable demo_map (s0, {})" using boot by (rule pmm_reachable.reach_boot)
  have fields: "mm_inject_failures s0 = 0" "mm_hhdm_offset s0 = 18446603336221196288"
    using boot by (auto simp: pmm_init_def demo_boot_def checked_simps)
  moreover have gen0: "mm_general s0 = {1052672, 1056768, 1060864, 1064960, 1069056, 1073152, 1077248}"
    by (simp add: gen frame_addrs_def FRAME_SIZE_def)
  ultimately obtain s1 where s1: "alloc_frame s0 = Inr (Some 1052672, s1)"
    "mm_general s1 = {1056768, 1060864, 1064960, 1069056, 1073152, 1077248}" "mm_inject_failures s1 = 0" "mm_inv s1"
    using reachableD(1)[OF r0 demo_map_ok] alloc_frame_lowest[of s0 1052672] by auto
  have "\<forall>x\<in>mm_general s1. 1056768 \<le> x" by (simp add: s1(2))
  then obtain s2 where s2: "alloc_frame s1 = Inr (Some 1056768, s2)"
    using alloc_frame_lowest[OF s1(4,3), of 1056768] s1(2) by blast
  have r1: "pmm_reachable demo_map (s1, {1052672})"
    using pmm_reachable.reach_step[OF r0 pmm_step.step_alloc[OF s1(1)]] .
  have r2: "pmm_reachable demo_map (s2, {1056768, 1052672})"
    using pmm_reachable.reach_step[OF r1 pmm_step.step_alloc[OF s2]] .
  from r0 s1(1) r1 s2 r2 gen0 fields show thesis by (rule that)
qed

text \<open>
  C1. No frame has two owners: in every history of the allocator since boot (any interleaving of
  single, low and contiguous allocations, releases, refused requests and injected failures), what
  \<open>alloc_frame\<close>, \<open>alloc_frame_low\<close> and \<open>alloc_contiguous\<close> hand out is disjoint from everything
  lent and not yet released.
\<close>
theorem frames_have_one_owner:
  assumes "boot_map entries" and "pmm_reachable entries (s, L)"
  shows "(\<forall>a s'. alloc_frame s = Inr (Some a, s') \<longrightarrow> a \<notin> L)
    \<and> (\<forall>a s'. alloc_frame_low s = Inr (Some a, s') \<longrightarrow> a \<notin> L)
    \<and> (\<forall>n al a s'. alloc_contiguous n al s = Inr (Some a, s') \<longrightarrow> run_addrs a n \<inter> L = {})"
proof -
  note inv = reachableD[OF assms(2,1)]
  have "a \<notin> L" if "alloc_frame s = Inr (Some a, s')" for a s'
    using general_pool.alloc_some[OF inv(1) that] inv(2) by blast
  moreover have "a \<notin> L" if "alloc_frame_low s = Inr (Some a, s')" for a s'
    using low_pool.alloc_some[OF inv(1) that] inv(2) by blast
  moreover have "run_addrs a n \<inter> L = {}" if "alloc_contiguous n al s = Inr (Some a, s')" for n al a s'
    using alloc_contiguous_sound(1)[OF inv(1) that] mm_pools_avail(1)[of s] inv(2) by blast
  ultimately show ?thesis by blast
qed

lemma frames_have_one_owner_witness:
  "\<exists>s s2. pmm_reachable demo_map (s, {1052672}) \<and> alloc_frame s = Inr (Some 1056768, s2)
     \<and> (1056768::nat) \<notin> {1052672}"
proof (rule demo_run)
  fix s0 s1 s2
  assume r: "pmm_reachable demo_map (s1, {1052672})" "alloc_frame s1 = Inr (Some 1056768, s2)"
  have "(1056768::nat) \<notin> {1052672}"
    by (rule frames_have_one_owner[OF demo_map_ok r(1), THEN conjunct1, rule_format, OF r(2)])
  with r show ?thesis by (intro exI[of _ s1] exI[of _ s2] conjI)
qed

text \<open>
  C2. \<open>free_frame\<close> returns exactly for the addresses lent and not yet released, and then the
  address is available again; on every other address (released before, never handed out, frame 0,
  unaligned, reserved memory, the bitmap's storage) it panics.
\<close>
theorem free_frame_iff_lent:
  assumes "boot_map entries" and "pmm_reachable entries (s, L)"
  shows "(case free_frame a s of Inr s' \<Rightarrow> a \<in> L \<and> mm_avail s' = insert a (mm_avail s)
      \<and> (\<exists>e. free_frame a s' = Inl e) | Inl _ \<Rightarrow> a \<notin> L)"
proof -
  note inv = reachableD[OF assms(2,1)]
  show ?thesis
  proof (cases "free_frame a s")
    case (Inl e)
    then show ?thesis using inv free_frame_returns[OF inv(1), of a] by auto
  next
    case (Inr s')
    note lent = free_frame_Inr_lent[OF inv(1) Inr]
    from general_pool.double_release_panics[OF inv(1) lent Inr] free_frame_returns[OF inv(1) lent]
    show ?thesis using Inr lent inv(2) by auto
  qed
qed

lemma free_frame_iff_lent_witness:
  "\<exists>s. pmm_reachable demo_map (s, {1052672}) \<and> (\<exists>s'. free_frame 1052672 s = Inr s')
     \<and> (\<exists>e. free_frame 1056768 s = Inl e) \<and> (\<exists>e. free_frame 0 s = Inl e)"
proof (rule demo_run)
  fix s0 s1 s2
  assume r: "pmm_reachable demo_map (s1, {1052672})"
  note iff = free_frame_iff_lent[OF demo_map_ok r]
  have "\<exists>s'. free_frame 1052672 s1 = Inr s'"
  proof (cases "free_frame 1052672 s1")
    case Inl
    with iff[of 1052672] show ?thesis by simp
  qed blast
  moreover have "\<exists>e. free_frame 1056768 s1 = Inl e"
    using iff[of 1056768] by (cases "free_frame 1056768 s1") auto
  moreover have "\<exists>e. free_frame 0 s1 = Inl e"
    using iff[of 0] by (cases "free_frame 0 s1") auto
  ultimately show ?thesis using r by blast
qed

text \<open>
  Only memory the boot loader called usable is ever lent: a frame from \<open>alloc_frame\<close> is
  aligned, lies wholly inside a usable entry, is at or above 1 MiB and never overlaps the bitmap's
  own storage; one from \<open>alloc_frame_low\<close> is a usable frame below 1 MiB and never frame 0.
\<close>
theorem lent_frames_are_usable:
  assumes "boot_map entries" and "pmm_reachable entries (s, L)" and "boot_region entries = Some r"
    and "a \<in> L"
  shows "\<exists>f. a = f * FRAME_SIZE \<and> 0 < f \<and> f \<in> usable_frames entries
    \<and> \<not> (me_base r \<le> a \<and> a < me_base r + bitmap_bytes_for entries)"
proof -
  from reachable_split[OF assms(2,1)] assms(3)
  have "mm_managed s = frame_addrs (initial_pool entries r)" by auto
  with reachableD(2)[OF assms(2,1)] assms(4) have "a \<in> frame_addrs (initial_pool entries r)" by blast
  then obtain f where "a = f * FRAME_SIZE" "f \<in> initial_pool entries r" by (rule frame_addrs_cases)
  with initial_pool_facts[OF assms(1,3)] show ?thesis by blast
qed

lemma lent_frames_are_usable_witness:
  "\<exists>s. pmm_reachable demo_map (s, {1052672})
     \<and> (\<exists>f. 1052672 = f * FRAME_SIZE \<and> 0 < f \<and> f \<in> usable_frames demo_map)"
proof (rule demo_run)
  fix s0 s1 s2
  assume r: "pmm_reachable demo_map (s1, {1052672})"
  from lent_frames_are_usable[OF demo_map_ok r demo_region, of 1052672] r show ?thesis by auto
qed

text \<open>
  Releasing everything undoes everything: after any number of successful \<open>alloc_frame\<close> calls
  in a reachable state, releasing the frames obtained, in any order, panics nowhere and leaves
  exactly the frames available that were available before.
\<close>
theorem alloc_release_roundtrip:
  assumes "boot_map entries" and "pmm_reachable entries (s, L)"
    and "alloc_many alloc_frame n s = Inr (as, ok, s')" and "mset as' = mset as"
  shows "\<exists>t. for_each as' free_frame s' = Inr t \<and> mm_avail t = mm_avail s"
  using general_pool.alloc_many_release_all[OF reachableD(1)[OF assms(2,1)] assms(3,4)] by blast

lemma alloc_release_roundtrip_witness:
  "\<exists>s s2 t. alloc_many alloc_frame 2 s = Inr ([1052672, 1056768], True, s2)
     \<and> for_each [1056768, 1052672] free_frame s2 = Inr t \<and> mm_avail t = mm_avail s"
proof (rule demo_run)
  fix s0 s1 s2
  assume r: "pmm_reachable demo_map (s0, {})" "alloc_frame s0 = Inr (Some 1052672, s1)"
    "alloc_frame s1 = Inr (Some 1056768, s2)"
  have many: "alloc_many alloc_frame 2 s0 = Inr ([1052672, 1056768], True, s2)"
    using r by (simp add: numeral_2_eq_2)
  have "mset [1056768, 1052672] = mset [1052672, 1056768 :: nat]" by (simp add: add_mset_commute)
  from alloc_release_roundtrip[OF demo_map_ok r(1) many this] many show ?thesis by blast
qed

text \<open>
  First fit for single frames: in a reachable state \<open>alloc_frame\<close> returns the lowest available
  frame of the general pool and takes only that one; it refuses only when that pool is empty or a
  failure was injected.
\<close>
theorem alloc_frame_first_fit:
  assumes "boot_map entries" and "pmm_reachable entries (s, L)"
  shows "\<exists>r s'. alloc_frame s = Inr (r, s') \<and>
    (case r of
       Some a \<Rightarrow> a \<in> mm_general s \<and> (\<forall>x\<in>mm_general s. a \<le> x)
         \<and> mm_general s' = mm_general s - {a} \<and> mm_low s' = mm_low s
     | None \<Rightarrow> (mm_general s = {} \<or> 0 < mm_inject_failures s)
         \<and> mm_general s' = mm_general s \<and> mm_low s' = mm_low s)"
  using reachableD(1)[OF assms(2,1)]
proof (cases rule: alloc_frame_cases)
  case (none s')
  then show ?thesis using mm_views_cong(4,5)[OF none(2)] by auto
next
  case (some a s')
  then show ?thesis by (auto simp: lends_def)
qed

lemma alloc_frame_first_fit_witness:
  "\<exists>s s'. pmm_reachable demo_map (s, {}) \<and> alloc_frame s = Inr (Some 1052672, s')
     \<and> mm_general s' = mm_general s - {1052672}"
proof (rule demo_run)
  fix s0 s1 s2
  assume r: "pmm_reachable demo_map (s0, {})" "alloc_frame s0 = Inr (Some 1052672, s1)"
  from alloc_frame_first_fit[OF demo_map_ok r(1)] r show ?thesis by auto
qed


end
