(* ===== verification/Paging.thy ===== *)
theory Paging
  imports Pmm
begin

text \<open>
  \<open>kernel/src/mm/paging.rs\<close>: page-table flags, entries and tables.  A table is one frame of
  physical memory; its 512 entries are the 64-bit words stored there, which the code reaches
  through the HHDM alias of the frame.  \<open>next_table\<close> and \<open>next_table_or_create\<close> are the only
  ways from one level to the next.
\<close>

definition ENTRIES_PER_TABLE :: nat where "ENTRIES_PER_TABLE = 512"

subsection \<open>Flags\<close>

type_synonym page_flags = u64

definition FLAG_PRESENT :: page_flags where "FLAG_PRESENT = push_bit 0 1"
definition FLAG_WRITABLE :: page_flags where "FLAG_WRITABLE = push_bit 1 1"
definition FLAG_USER :: page_flags where "FLAG_USER = push_bit 2 1"
definition FLAG_WRITE_THROUGH :: page_flags where "FLAG_WRITE_THROUGH = push_bit 3 1"
definition FLAG_NO_CACHE :: page_flags where "FLAG_NO_CACHE = push_bit 4 1"
definition FLAG_ACCESSED :: page_flags where "FLAG_ACCESSED = push_bit 5 1"
definition FLAG_DIRTY :: page_flags where "FLAG_DIRTY = push_bit 6 1"
definition FLAG_HUGE :: page_flags where "FLAG_HUGE = push_bit 7 1"
definition FLAG_GLOBAL :: page_flags where "FLAG_GLOBAL = push_bit 8 1"
definition FLAG_NO_EXECUTE :: page_flags where "FLAG_NO_EXECUTE = push_bit 63 1"

definition FLAGS_MASK :: u64 where
  "FLAGS_MASK = FLAG_PRESENT OR FLAG_WRITABLE OR FLAG_USER OR FLAG_WRITE_THROUGH OR FLAG_NO_CACHE
     OR FLAG_ACCESSED OR FLAG_DIRTY OR FLAG_HUGE OR FLAG_GLOBAL OR FLAG_NO_EXECUTE"

definition from_bits_truncate :: "u64 \<Rightarrow> page_flags" where
  "from_bits_truncate bits = bits AND FLAGS_MASK"

definition flags_contain :: "page_flags \<Rightarrow> page_flags \<Rightarrow> bool" where
  "flags_contain f g \<longleftrightarrow> f AND g = g"

lemmas flag_defs = FLAG_PRESENT_def FLAG_WRITABLE_def FLAG_USER_def FLAG_WRITE_THROUGH_def
  FLAG_NO_CACHE_def FLAG_ACCESSED_def FLAG_DIRTY_def FLAG_HUGE_def FLAG_GLOBAL_def
  FLAG_NO_EXECUTE_def

subsection \<open>Entries\<close>

definition PHYS_ADDR_MASK :: u64 where "PHYS_ADDR_MASK = 0x000ffffffffff000"
definition HUGE_PAGE_ALIGN :: nat where "HUGE_PAGE_ALIGN = 2 * 1024 * 1024"

definition pte_present :: "u64 \<Rightarrow> bool" where
  "pte_present e \<longleftrightarrow> e AND FLAG_PRESENT \<noteq> 0"

definition pte_huge :: "u64 \<Rightarrow> bool" where
  "pte_huge e \<longleftrightarrow> e AND FLAG_HUGE \<noteq> 0"

definition pte_addr :: "u64 \<Rightarrow> nat" where
  "pte_addr e = unat (e AND PHYS_ADDR_MASK)"

definition pte_flags :: "u64 \<Rightarrow> page_flags" where
  "pte_flags e = from_bits_truncate e"

definition pte_set :: "nat \<Rightarrow> page_flags \<Rightarrow> u64 checked" where
  "pte_set addr flags =
     require (addr mod FRAME_SIZE = 0) ''PageTableEntry::set: not 4 KiB aligned''
     (require (flags_contain flags FLAG_HUGE \<longrightarrow> addr mod HUGE_PAGE_ALIGN = 0)
        ''PageTableEntry::set: (HUGE) not 2 MiB aligned''
      (Inr ((word_of_nat addr AND PHYS_ADDR_MASK) OR (flags AND NOT PHYS_ADDR_MASK))))"

subsection \<open>Tables in physical memory\<close>

definition pml4_index :: "nat \<Rightarrow> nat" where "pml4_index virt = virt div 2 ^ 39 mod 512"
definition pdpt_index :: "nat \<Rightarrow> nat" where "pdpt_index virt = virt div 2 ^ 30 mod 512"
definition pd_index :: "nat \<Rightarrow> nat" where "pd_index virt = virt div 2 ^ 21 mod 512"
definition pt_index :: "nat \<Rightarrow> nat" where "pt_index virt = virt div 2 ^ 12 mod 512"

definition ram_put :: "nat \<Rightarrow> u64 \<Rightarrow> (nat \<Rightarrow> u8) \<Rightarrow> nat \<Rightarrow> u8" where
  "ram_put a w ram = (\<lambda>x. if a \<le> x \<and> x < a + 8 then ucast (drop_bit (8 * (x - a)) w) else ram x)"

text \<open>\<open>table.entry(i)\<close> and \<open>*table.entry_mut(i) = e\<close> for the table in the frame at \<open>t\<close>.\<close>

definition table_entry :: "mm_state \<Rightarrow> nat \<Rightarrow> nat \<Rightarrow> u64" where
  "table_entry s t i = ram_word (mm_ram s) (t + 8 * i)"

definition put_entry :: "nat \<Rightarrow> nat \<Rightarrow> u64 \<Rightarrow> mm_state \<Rightarrow> mm_state" where
  "put_entry t i e s = s\<lparr>mm_ram := ram_put (t + 8 * i) e (mm_ram s)\<rparr>"

definition next_table :: "mm_state \<Rightarrow> u64 \<Rightarrow> nat option checked" where
  "next_table s e =
     (if \<not> pte_present e then Inr None
      else require (\<not> pte_huge e) ''paging::next_table: entry is a huge (leaf) mapping, not a table''
        (and_then (phys_to_virt s (pte_addr e)) (\<lambda>virt. Inr (Some (pte_addr e)))))"

definition next_table_or_create :: "nat \<Rightarrow> nat \<Rightarrow> page_flags \<Rightarrow> mm_state \<Rightarrow> (nat \<times> mm_state) checked" where
  "next_table_or_create t i parent_flags s =
     and_then
       (if \<not> pte_present (table_entry s t i) then
          and_then (alloc_frame_zeroed s) (\<lambda>(r, s1).
            case r of
              None \<Rightarrow> Inl (Assert_failed ''paging::next_table_or_create: out of memory for a page table'')
            | Some frame \<Rightarrow>
                and_then (pte_set frame (parent_flags OR FLAG_PRESENT)) (\<lambda>e. Inr (put_entry t i e s1)))
        else Inr s)
       (\<lambda>s2. and_then (next_table s2 (table_entry s2 t i)) (\<lambda>r.
          case r of None \<Rightarrow> Inl (Assert_failed ''just ensured present'') | Some t' \<Rightarrow> Inr (t', s2)))"

subsection \<open>Words in memory\<close>

lemma bit_ram_word: "bit (ram_word ram a) n \<longleftrightarrow> n < 64 \<and> bit (ram (a + n div 8)) (n mod 8)"
proof -
  have step: "bit (fold (\<lambda>i w. w OR push_bit (8 * i) (ucast (ram (a + i)) :: u64)) [0..<k] 0) n
      \<longleftrightarrow> n < 8 * k \<and> bit (ram (a + n div 8)) (n mod 8)" if "k \<le> 8" for k
    using that
  proof (induction k)
    case (Suc k)
    have "bit (push_bit (8 * k) (ucast (ram (a + k)) :: u64)) n
        \<longleftrightarrow> 8 * k \<le> n \<and> n < 8 * Suc k \<and> bit (ram (a + n div 8)) (n mod 8)"
    proof (cases "8 * k \<le> n \<and> n < 8 * Suc k")
      case True
      then have "n div 8 = k" "n mod 8 = n - 8 * k" by (auto simp: div_nat_eqI modulo_nat_def)
      with True Suc.prems show ?thesis by (auto simp: bit_simps)
    next
      case False
      then show ?thesis using bit_imp_le_length[of "ram (a + k)" "n - 8 * k"] by (auto simp: bit_simps)
    qed
    with Suc show ?case by (auto simp: bit_simps)
  qed simp
  show ?thesis using step[of 8] by (simp add: ram_word_def)
qed

lemma ram_word_put_same [simp]: "ram_word (ram_put a w ram) a = w"
proof (rule bit_word_eqI)
  fix n assume n: "n < LENGTH(64)"
  then have "n div 8 < 8" by simp
  moreover have "8 * (n div 8) + n mod 8 = n" by simp
  ultimately show "bit (ram_word (ram_put a w ram) a) n = bit w n"
    using n by (simp add: bit_ram_word ram_put_def bit_simps)
qed

lemma ram_word_put_other: "a + 8 \<le> b \<or> b + 8 \<le> a \<Longrightarrow> ram_word (ram_put a w ram) b = ram_word ram b"
  by (rule bit_word_eqI) (auto simp: bit_ram_word ram_put_def)

lemma ram_word_cong: "(\<And>i. i < 8 \<Longrightarrow> ram' (a + i) = ram (a + i)) \<Longrightarrow> ram_word ram' a = ram_word ram a"
  by (rule bit_word_eqI) (simp add: bit_ram_word)


subsection \<open>Reading back what was set\<close>

lemma bit_PHYS_ADDR_MASK: "bit PHYS_ADDR_MASK n \<longleftrightarrow> 12 \<le> n \<and> n < 52"
proof -
  have shifted: "PHYS_ADDR_MASK = push_bit 12 (mask 40)"
    by (simp add: PHYS_ADDR_MASK_def mask_eq_exp_minus_1 push_bit_eq_mult)
  show ?thesis
    unfolding shifted bit_push_bit_iff bit_mask_iff by auto
qed

lemma bit_flag [simp]:
  "bit FLAG_PRESENT n \<longleftrightarrow> n = 0" "bit FLAG_WRITABLE n \<longleftrightarrow> n = 1" "bit FLAG_USER n \<longleftrightarrow> n = 2"
  "bit FLAG_WRITE_THROUGH n \<longleftrightarrow> n = 3" "bit FLAG_NO_CACHE n \<longleftrightarrow> n = 4" "bit FLAG_ACCESSED n \<longleftrightarrow> n = 5"
  "bit FLAG_DIRTY n \<longleftrightarrow> n = 6" "bit FLAG_HUGE n \<longleftrightarrow> n = 7" "bit FLAG_GLOBAL n \<longleftrightarrow> n = 8"
  "bit FLAG_NO_EXECUTE n \<longleftrightarrow> n = 63"
  unfolding flag_defs bit_single_u64 by auto

lemma bit_FLAGS_MASK: "bit FLAGS_MASK n \<longleftrightarrow> n < 9 \<or> n = 63"
  by (auto simp: FLAGS_MASK_def bit_simps)

lemma and_flag_eq_0: "bit_set = {n. bit (f :: u64) n} \<Longrightarrow> e AND f \<noteq> 0 \<longleftrightarrow> (\<exists>n\<in>bit_set. bit e n)"
  using bit_u64_bound[of e] by (auto simp: bit_eq_iff bit_simps)

lemma pte_present_bit: "pte_present e \<longleftrightarrow> bit e 0"
  unfolding pte_present_def by (subst and_flag_eq_0[of "{0}"]) auto

lemma pte_huge_bit: "pte_huge e \<longleftrightarrow> bit e 7"
  unfolding pte_huge_def by (subst and_flag_eq_0[of "{7}"]) auto

lemma flags_contain_bits: "flags_contain f g \<longleftrightarrow> (\<forall>n. bit g n \<longrightarrow> bit f n)"
  by (auto simp: flags_contain_def bit_eq_iff bit_simps dest: bit_u64_bound)

lemma bit_word_of_frame:
  assumes "FRAME_SIZE dvd a" and "a < 2 ^ 52"
  shows "bit (word_of_nat a :: u64) n \<longrightarrow> 12 \<le> n \<and> n < 52"
proof -
  have low: "\<not> bit a n" if "n < 12"
  proof -
    from assms(1) obtain k where "a = 4096 * k" by (auto simp: FRAME_SIZE_def dvd_def)
    moreover have "(4096 :: nat) = 2 ^ n * 2 ^ (12 - n)"
      using that by (simp add: power_add[symmetric])
    ultimately have "a = 2 ^ n * (2 ^ (12 - n) * k)" by simp
    then have "a div 2 ^ n = 2 ^ (12 - n) * k" by simp
    moreover have "even (2 ^ (12 - n) * k)" using that by simp
    ultimately show ?thesis by (simp add: bit_iff_odd)
  qed
  have high: "\<not> bit a n" if "52 \<le> n"
  proof -
    have "a < 2 ^ n" using assms(2) that by (meson order_less_le_trans power_increasing one_le_numeral)
    then show ?thesis by (simp add: bit_iff_odd)
  qed
  from low high show ?thesis by (auto simp: bit_simps not_less[symmetric])
qed

lemma word_of_frame_masked:
  "FRAME_SIZE dvd a \<Longrightarrow> a < 2 ^ 52 \<Longrightarrow> word_of_nat a AND PHYS_ADDR_MASK = (word_of_nat a :: u64)"
  using bit_word_of_frame[of a] by (auto simp: bit_eq_iff bit_and_iff bit_PHYS_ADDR_MASK)

text \<open>An entry written by \<open>set\<close> reads back as it was written.\<close>

lemma pte_set_fields:
  assumes "pte_set a flags = Inr e" and "a < 2 ^ 52"
  shows "pte_addr e = a" and "pte_flags e = from_bits_truncate flags"
    and "pte_present e = bit flags 0" and "pte_huge e = bit flags 7"
proof -
  from assms(1) have al: "FRAME_SIZE dvd a"
    and e: "e = word_of_nat a OR (flags AND NOT PHYS_ADDR_MASK)"
    using word_of_frame_masked[OF _ assms(2)]
    by (auto simp: pte_set_def checked_simps dvd_eq_mod_eq_0)
  have w: "bit (word_of_nat a :: u64) n \<longrightarrow> 12 \<le> n \<and> n < 52" for n
    by (rule bit_word_of_frame[OF al assms(2)])
  have "e AND PHYS_ADDR_MASK = word_of_nat a"
    using w by (auto simp: e bit_eq_iff bit_and_iff bit_or_iff bit_not_iff bit_PHYS_ADDR_MASK)
  moreover have "unat (word_of_nat a :: u64) = a"
    using assms(2) by (intro unat_word_of_nat_u64) simp
  ultimately show "pte_addr e = a" by (simp add: pte_addr_def)
  show "pte_flags e = from_bits_truncate flags"
  proof (rule bit_word_eqI)
    fix n assume "n < LENGTH(64)"
    show "bit (pte_flags e) n = bit (from_bits_truncate flags) n"
      using w[of n] by (auto simp: e pte_flags_def from_bits_truncate_def bit_and_iff bit_or_iff
          bit_not_iff bit_PHYS_ADDR_MASK bit_FLAGS_MASK)
  qed
  show "pte_present e = bit flags 0" "pte_huge e = bit flags 7"
    using w[of 0] w[of 7] by (auto simp: e pte_present_bit pte_huge_bit bit_and_iff bit_or_iff
        bit_not_iff bit_PHYS_ADDR_MASK)
qed

lemma pte_set_aligned:
  "FRAME_SIZE dvd a \<Longrightarrow> \<not> bit flags 7 \<or> HUGE_PAGE_ALIGN dvd a \<Longrightarrow> \<exists>e. pte_set a flags = Inr e"
  by (auto simp: pte_set_def flags_contain_bits require_def dvd_eq_mod_eq_0)

lemma pte_addr_aligned [simp]: "FRAME_SIZE dvd pte_addr e"
proof -
  have "e AND PHYS_ADDR_MASK = (e AND PHYS_ADDR_MASK) AND NOT (mask 12)"
    by (auto simp: bit_eq_iff bit_and_iff bit_PHYS_ADDR_MASK bit_not_iff bit_mask_iff)
  then have "pte_addr e = unat (e AND PHYS_ADDR_MASK) div 2 ^ 12 * 2 ^ 12"
    unfolding pte_addr_def using unat_and_not_mask[of "e AND PHYS_ADDR_MASK" 12] by simp
  then show ?thesis by (simp add: FRAME_SIZE_def)
qed

lemma pte_addr_bound: "pte_addr e < 2 ^ 52"
proof -
  have "e AND PHYS_ADDR_MASK = (e AND PHYS_ADDR_MASK) AND mask 52"
    by (auto simp: bit_eq_iff bit_and_iff bit_PHYS_ADDR_MASK bit_mask_iff)
  then have "pte_addr e = unat (e AND PHYS_ADDR_MASK) mod 2 ^ 52"
    unfolding pte_addr_def using unat_and_mask[of "e AND PHYS_ADDR_MASK" 52] by simp
  then show ?thesis by simp
qed


end
