(* ===== verification/Vmm.thy ===== *)
theory Vmm
  imports Paging
begin

text \<open>
  \<open>kernel/src/mm/vmm/mod.rs\<close> and \<open>vmm/teardown.rs\<close>: address spaces.  An address space is the
  physical address of its PML4; every operation walks the tables in the physical memory of
  \<open>mm_state\<close>.  \<open>invlpg\<close>, CR3 and the other control registers have no counterpart: the model is
  of what the tables say.  A walk that meets a huge entry at the PML4 or PDPT level hits the
  \<open>debug_assert\<close> of \<open>next_table\<close>, and every table access the HHDM addition that may overflow.
\<close>

datatype page_size = Normal | Huge

definition HUGE_PAGE_SIZE :: nat where "HUGE_PAGE_SIZE = 2 * 1024 * 1024"

definition intermediate_flags :: "page_flags \<Rightarrow> page_flags" where
  "intermediate_flags leaf_flags =
     (if flags_contain leaf_flags FLAG_USER then FLAG_PRESENT OR FLAG_WRITABLE OR FLAG_USER
      else FLAG_PRESENT OR FLAG_WRITABLE)"

definition pml4_table :: "nat \<Rightarrow> mm_state \<Rightarrow> nat checked" where
  "pml4_table p s = and_then (phys_to_virt s p) (\<lambda>virt. Inr p)"

definition map_4k :: "nat \<Rightarrow> nat \<Rightarrow> nat \<Rightarrow> page_flags \<Rightarrow> mm_state \<Rightarrow> mm_state checked" where
  "map_4k p virt phys flags s =
     require (virt mod FRAME_SIZE = 0) ''vmm::map_4k: virt not 4 KiB aligned''
     (require (phys mod FRAME_SIZE = 0) ''vmm::map_4k: phys not 4 KiB aligned''
     (and_then (pml4_table p s) (\<lambda>pml4.
      and_then (next_table_or_create pml4 (pml4_index virt) (intermediate_flags flags) s) (\<lambda>(pdpt, s1).
      and_then (next_table_or_create pdpt (pdpt_index virt) (intermediate_flags flags) s1) (\<lambda>(pd, s2).
      require (\<not> pte_huge (table_entry s2 pd (pd_index virt)))
        ''vmm::map_4k: falls inside an existing 2 MiB mapping''
      (and_then (next_table_or_create pd (pd_index virt) (intermediate_flags flags) s2) (\<lambda>(pt, s3).
       require (\<not> pte_present (table_entry s3 pt (pt_index virt))) ''vmm::map_4k: already mapped''
       (and_then (pte_set phys (flags OR FLAG_PRESENT)) (\<lambda>e.
          Inr (put_entry pt (pt_index virt) e s3))))))))))"

definition map_2m :: "nat \<Rightarrow> nat \<Rightarrow> nat \<Rightarrow> page_flags \<Rightarrow> mm_state \<Rightarrow> mm_state checked" where
  "map_2m p virt phys flags s =
     require (virt mod HUGE_PAGE_SIZE = 0) ''vmm::map_2m: virt not 2 MiB aligned''
     (require (phys mod HUGE_PAGE_SIZE = 0) ''vmm::map_2m: phys not 2 MiB aligned''
     (and_then (pml4_table p s) (\<lambda>pml4.
      and_then (next_table_or_create pml4 (pml4_index virt) (intermediate_flags flags) s) (\<lambda>(pdpt, s1).
      and_then (next_table_or_create pdpt (pdpt_index virt) (intermediate_flags flags) s1) (\<lambda>(pd, s2).
      require (\<not> pte_present (table_entry s2 pd (pd_index virt))) ''vmm::map_2m: already mapped''
      (and_then (pte_set phys (flags OR FLAG_PRESENT OR FLAG_HUGE)) (\<lambda>e.
         Inr (put_entry pd (pd_index virt) e s2))))))))"

function map_range_loop ::
    "nat \<Rightarrow> nat \<Rightarrow> nat \<Rightarrow> nat \<Rightarrow> page_flags \<Rightarrow> nat \<Rightarrow> mm_state \<Rightarrow> mm_state checked" where
  "map_range_loop p virt phys len flags done s =
     (if done < len then
        and_then (uadd virt done) (\<lambda>v.
        and_then (uadd phys done) (\<lambda>q.
          if v mod HUGE_PAGE_SIZE = 0 \<and> q mod HUGE_PAGE_SIZE = 0 \<and> len - done \<ge> HUGE_PAGE_SIZE then
            and_then (map_2m p v q flags s) (\<lambda>s'.
              map_range_loop p virt phys len flags (done + HUGE_PAGE_SIZE) s')
          else
            and_then (map_4k p v q flags s) (\<lambda>s'.
              map_range_loop p virt phys len flags (done + FRAME_SIZE) s')))
      else Inr s)"
  by auto
termination
  by (relation "measure (\<lambda>(p, virt, phys, len, flags, done, s). len - done)")
    (auto simp: FRAME_SIZE_def HUGE_PAGE_SIZE_def)

declare map_range_loop.simps [simp del]

definition map_range :: "nat \<Rightarrow> nat \<Rightarrow> nat \<Rightarrow> nat \<Rightarrow> page_flags \<Rightarrow> mm_state \<Rightarrow> mm_state checked" where
  "map_range p virt phys len flags s =
     require (virt mod FRAME_SIZE = 0) ''vmm::map_range: virt not 4 KiB aligned''
     (require (phys mod FRAME_SIZE = 0) ''vmm::map_range: phys not 4 KiB aligned''
     (require (len \<noteq> 0 \<and> len mod FRAME_SIZE = 0) ''vmm::map_range: len is zero or not a multiple of FRAME_SIZE''
      (map_range_loop p virt phys len flags 0 s)))"

definition unmap :: "nat \<Rightarrow> nat \<Rightarrow> mm_state \<Rightarrow> (nat option \<times> mm_state) checked" where
  "unmap p virt s =
     require (virt mod FRAME_SIZE = 0) ''vmm::unmap: virt not 4 KiB aligned''
     (and_then (pml4_table p s) (\<lambda>pml4.
      on_some (next_table s (table_entry s pml4 (pml4_index virt))) (None, s) (\<lambda>pdpt.
      on_some (next_table s (table_entry s pdpt (pdpt_index virt))) (None, s) (\<lambda>pd.
      let pd_entry = table_entry s pd (pd_index virt) in
      if pte_huge pd_entry then
        if \<not> pte_present pd_entry then Inr (None, s)
        else Inr (Some (pte_addr pd_entry), put_entry pd (pd_index virt) 0 s)
      else
        on_some (next_table s pd_entry) (None, s) (\<lambda>pt.
        let pt_entry = table_entry s pt (pt_index virt) in
        if \<not> pte_present pt_entry then Inr (None, s)
        else Inr (Some (pte_addr pt_entry), put_entry pt (pt_index virt) 0 s))))))"

definition translate :: "nat \<Rightarrow> nat \<Rightarrow> mm_state \<Rightarrow> (nat \<times> page_flags \<times> page_size) option checked" where
  "translate p virt s =
     and_then (pml4_table p s) (\<lambda>pml4.
     on_some (next_table s (table_entry s pml4 (pml4_index virt))) None (\<lambda>pdpt.
     on_some (next_table s (table_entry s pdpt (pdpt_index virt))) None (\<lambda>pd.
     let pd_entry = table_entry s pd (pd_index virt) in
     if pte_huge pd_entry then
       if \<not> pte_present pd_entry then Inr None
       else and_then (uadd (pte_addr pd_entry) (virt mod HUGE_PAGE_SIZE)) (\<lambda>phys.
         Inr (Some (phys, pte_flags pd_entry, Huge)))
     else
       on_some (next_table s pd_entry) None (\<lambda>pt.
       let pt_entry = table_entry s pt (pt_index virt) in
       if \<not> pte_present pt_entry then Inr None
       else and_then (uadd (pte_addr pt_entry) (virt mod FRAME_SIZE)) (\<lambda>phys.
         Inr (Some (phys, pte_flags pt_entry, Normal)))))))"

text \<open>\<open>kernel_address_space\<close> with the value of the static \<open>KERNEL_PML4\<close>, and \<open>new_user\<close>.\<close>

definition kernel_address_space :: "nat \<Rightarrow> nat checked" where
  "kernel_address_space kernel_pml4 =
     require (kernel_pml4 \<noteq> 0) ''vmm::kernel_address_space: init_kernel_space was never called''
       (Inr kernel_pml4)"

definition new_user :: "nat \<Rightarrow> mm_state \<Rightarrow> (nat \<times> mm_state) checked" where
  "new_user kernel_pml4 s =
     and_then (alloc_frame_zeroed s) (\<lambda>(r, s1).
       case r of
         None \<Rightarrow> Inl (Assert_failed ''vmm::new_user: out of memory for a PML4'')
       | Some new_pml4 \<Rightarrow>
           and_then (kernel_address_space kernel_pml4) (\<lambda>kernel.
           and_then (pml4_table kernel s1) (\<lambda>kernel_table.
           and_then (pml4_table new_pml4 s1) (\<lambda>new_table.
           and_then (for_each [256..<ENTRIES_PER_TABLE]
               (\<lambda>i st. Inr (put_entry new_table i (table_entry st kernel_table i) st)) s1) (\<lambda>s2.
             Inr (new_pml4, s2))))))"

subsection \<open>Tearing down a process's half\<close>

text \<open>The four nested loops of \<open>free_user_space\<close>, innermost first.\<close>

definition expect_table :: "mm_state \<Rightarrow> u64 \<Rightarrow> nat checked" where
  "expect_table s e = and_then (next_table s e) (\<lambda>r.
     case r of None \<Rightarrow> Inl (Assert_failed ''just confirmed present'') | Some t \<Rightarrow> Inr t)"

definition free_pt_entry :: "nat \<Rightarrow> nat \<Rightarrow> mm_state \<Rightarrow> mm_state checked" where
  "free_pt_entry pt i s =
     (let e = table_entry s pt i in
      if pte_present e then
        and_then (free_frame (pte_addr e) s) (\<lambda>s'. Inr (put_entry pt i 0 s'))
      else Inr s)"

definition free_pd_entry :: "nat \<Rightarrow> nat \<Rightarrow> mm_state \<Rightarrow> mm_state checked" where
  "free_pd_entry pd i s =
     (let e = table_entry s pd i in
      if \<not> pte_present e then Inr s
      else if pte_huge e then
        and_then (free_frame (pte_addr e) s) (\<lambda>s'. Inr (put_entry pd i 0 s'))
      else
        and_then (expect_table s e) (\<lambda>pt.
        and_then (for_each [0..<ENTRIES_PER_TABLE] (free_pt_entry pt) s) (\<lambda>s'.
          free_frame (pte_addr (table_entry s' pd i)) (put_entry pd i 0 s'))))"

definition free_pdpt_entry :: "nat \<Rightarrow> nat \<Rightarrow> mm_state \<Rightarrow> mm_state checked" where
  "free_pdpt_entry pdpt i s =
     (let e = table_entry s pdpt i in
      if \<not> pte_present e then Inr s
      else
        require (\<not> pte_huge e) ''vmm::free_user_space: unexpected 1 GiB page''
        (and_then (expect_table s e) (\<lambda>pd.
         and_then (for_each [0..<ENTRIES_PER_TABLE] (free_pd_entry pd) s) (\<lambda>s'.
           free_frame (pte_addr (table_entry s' pdpt i)) (put_entry pdpt i 0 s')))))"

definition free_pml4_entry :: "nat \<Rightarrow> nat \<Rightarrow> mm_state \<Rightarrow> mm_state checked" where
  "free_pml4_entry pml4 i s =
     (let e = table_entry s pml4 i in
      if \<not> pte_present e then Inr s
      else
        and_then (expect_table s e) (\<lambda>pdpt.
        and_then (for_each [0..<ENTRIES_PER_TABLE] (free_pdpt_entry pdpt) s) (\<lambda>s'.
          free_frame (pte_addr (table_entry s' pml4 i)) (put_entry pml4 i 0 s'))))"

definition free_user_space :: "nat \<Rightarrow> mm_state \<Rightarrow> mm_state checked" where
  "free_user_space p s =
     and_then (pml4_table p s) (\<lambda>pml4. for_each [0..<256] (free_pml4_entry pml4) s)"

definition destroy :: "nat \<Rightarrow> mm_state \<Rightarrow> mm_state checked" where
  "destroy p s = free_frame p s"


subsection \<open>Fresh zeroed frames\<close>

text \<open>
  States the tables can be walked in: the PMM is consistent, the HHDM was recorded, and every
  managed frame is an address a table entry can hold and the HHDM can alias.
\<close>

definition vm_ok :: "mm_state \<Rightarrow> bool" where
  "vm_ok s \<longleftrightarrow> mm_inv s \<and> mm_hhdm_offset s < u64_limit - 1
     \<and> (\<forall>f\<in>mm_managed s. f < 2 ^ 52 \<and> f + mm_hhdm_offset s < u64_limit)"

definition mm_lent :: "mm_state \<Rightarrow> nat set" where
  "mm_lent s = mm_managed s - mm_avail s"

definition same_hhdm :: "mm_state \<Rightarrow> mm_state \<Rightarrow> bool" where
  "same_hhdm s s' \<longleftrightarrow> mm_hhdm_offset s' = mm_hhdm_offset s \<and> mm_managed s' = mm_managed s
     \<and> (mm_inject_failures s = 0 \<longrightarrow> mm_inject_failures s' = 0)"

lemma vm_okD:
  assumes "vm_ok s"
  shows "mm_inv s" and "f \<in> mm_managed s \<Longrightarrow> f < 2 ^ 52" and "f \<in> mm_managed s \<Longrightarrow> FRAME_SIZE dvd f"
    and "f \<in> mm_managed s \<Longrightarrow> phys_to_virt s f = Inr (f + mm_hhdm_offset s)"
  using assms
  by (auto simp: vm_ok_def phys_to_virt_def hhdm_offset_def mm_managed_def frame_addrs_def
      elim!: mm_invE)

lemma vm_ok_transfer: "vm_ok s \<Longrightarrow> same_hhdm s s' \<Longrightarrow> mm_inv s' \<Longrightarrow> vm_ok s'"
  by (simp add: vm_ok_def same_hhdm_def)

lemma alloc_frame_frame:
  assumes "alloc_frame s = Inr (r, s')"
  shows "mm_ram s' = mm_ram s" and "mm_hhdm_offset s' = mm_hhdm_offset s"
    and "mm_inject_failures s = 0 \<Longrightarrow> mm_inject_failures s' = 0"
  using assms
  by (auto simp: alloc_frame_def with_pmm_def take_injected_failure_def checked_simps
      split: if_splits option.splits)

lemma finite_mm_general: "finite (mm_general s)"
  by (auto simp: mm_general_def frame_addrs_def split: option.splits)

text \<open>The two outcomes of \<open>alloc_frame_zeroed\<close>.\<close>

lemma alloc_frame_zeroed_cases:
  assumes ok: "vm_ok s"
  obtains (none) s' where "alloc_frame_zeroed s = Inr (None, s')"
      "mm_general s = {} \<or> 0 < mm_inject_failures s"
  | (some) n s' where "alloc_frame_zeroed s = Inr (Some n, s')" "vm_ok s'" "same_hhdm s s'"
      "n \<in> mm_general s" "mm_general s' = mm_general s - {n}" "mm_avail s' = mm_avail s - {n}"
      "mm_ram s' = zero_frame n (mm_ram s)"
  using vm_okD(1)[OF ok]
proof (cases rule: alloc_frame_cases)
  case (none t)
  then show thesis by (intro that(1)[of t]) (auto simp: alloc_frame_zeroed_def)
next
  case (some n t)
  let ?t = "t\<lparr>mm_ram := zero_frame n (mm_ram t)\<rparr>"
  have views: "mm_pmm ?t = mm_pmm t" by simp
  note fr = alloc_frame_frame[OF some(1)]
  have l: "n \<in> mm_general s" "mm_general t = mm_general s - {n}" "mm_avail t = mm_avail s - {n}"
    "mm_managed t = mm_managed s" "mm_inv t"
    using some(2) by (simp_all add: lends_def)
  have same: "same_hhdm s t" using fr l(4) by (simp add: same_hhdm_def)
  have okt: "vm_ok t" by (rule vm_ok_transfer[OF ok same l(5)])
  have "n \<in> mm_managed t"
    using l(1,4) mm_pools_avail(1) mm_avail_managed[OF vm_okD(1)[OF ok]] by blast
  then have "alloc_frame_zeroed s = Inr (Some n, ?t)"
    using some(1) vm_okD(4)[OF okt] by (simp add: alloc_frame_zeroed_def)
  moreover have "same_hhdm s ?t"
    using same mm_views_cong(3)[OF views] by (simp add: same_hhdm_def)
  moreover have "vm_ok ?t"
    by (rule vm_ok_transfer[OF ok \<open>same_hhdm s ?t\<close>]) (use mm_views_cong(1)[OF views] l(5) in simp)
  ultimately show thesis
    using l mm_views_cong[OF views] fr(1) by (intro that(2)[of n ?t]) simp_all
qed

subsection \<open>The tree of tables\<close>

text \<open>
  The table reached from the PML4 along a path of indices, last index first, and the paths that
  lead to a table of the four levels.
\<close>

definition link_of :: "u64 \<Rightarrow> nat option" where
  "link_of e = (if pte_present e \<and> \<not> pte_huge e then Some (pte_addr e) else None)"

fun table_at :: "mm_state \<Rightarrow> nat \<Rightarrow> nat list \<Rightarrow> nat option" where
  "table_at s p [] = Some p"
| "table_at s p (i # path) =
     (case table_at s p path of None \<Rightarrow> None | Some t \<Rightarrow> link_of (table_entry s t i))"

definition pt_path :: "nat list \<Rightarrow> bool" where
  "pt_path q \<longleftrightarrow> length q \<le> 3 \<and> (\<forall>i\<in>set q. i < 512)"

text \<open>
  A well-formed address space: every table is a lent frame, no table is reached twice, no entry
  of the two upper levels is a leaf, and a page directory has no huge entry that is not present.
\<close>

definition space_wf :: "mm_state \<Rightarrow> nat \<Rightarrow> bool" where
  "space_wf s p \<longleftrightarrow> vm_ok s
     \<and> (\<forall>q t. pt_path q \<longrightarrow> table_at s p q = Some t \<longrightarrow> t \<in> mm_lent s)
     \<and> (\<forall>q r t. pt_path q \<longrightarrow> pt_path r \<longrightarrow> table_at s p q = Some t \<longrightarrow> table_at s p r = Some t \<longrightarrow> q = r)
     \<and> (\<forall>q t i. pt_path q \<longrightarrow> length q \<le> 1 \<longrightarrow> table_at s p q = Some t \<longrightarrow> i < 512
          \<longrightarrow> pte_present (table_entry s t i) \<longrightarrow> \<not> pte_huge (table_entry s t i))
     \<and> (\<forall>q t i. pt_path q \<longrightarrow> length q = 2 \<longrightarrow> table_at s p q = Some t \<longrightarrow> i < 512
          \<longrightarrow> pte_huge (table_entry s t i) \<longrightarrow> pte_present (table_entry s t i))"

lemma space_wfD:
  assumes "space_wf s p"
  shows "vm_ok s"
    and "pt_path q \<Longrightarrow> table_at s p q = Some t \<Longrightarrow> t \<in> mm_lent s"
    and "pt_path q \<Longrightarrow> pt_path r \<Longrightarrow> table_at s p q = Some t \<Longrightarrow> table_at s p r = Some t \<Longrightarrow> q = r"
    and "pt_path q \<Longrightarrow> length q \<le> 1 \<Longrightarrow> table_at s p q = Some t \<Longrightarrow> i < 512
      \<Longrightarrow> pte_present (table_entry s t i) \<Longrightarrow> \<not> pte_huge (table_entry s t i)"
    and "pt_path q \<Longrightarrow> length q = 2 \<Longrightarrow> table_at s p q = Some t \<Longrightarrow> i < 512
      \<Longrightarrow> pte_huge (table_entry s t i) \<Longrightarrow> pte_present (table_entry s t i)"
  using assms unfolding space_wf_def by blast+

lemma pt_path_simps [simp]:
  "pt_path []" "pt_path (i # q) \<longleftrightarrow> i < 512 \<and> length q \<le> 2 \<and> pt_path q"
  by (auto simp: pt_path_def)

lemma index_bounds [simp]:
  "pml4_index v < 512" "pdpt_index v < 512" "pd_index v < 512" "pt_index v < 512"
  by (simp_all add: pml4_index_def pdpt_index_def pd_index_def pt_index_def)

text \<open>What a virtual address resolves to, read off the tree.\<close>

definition lookup_pt :: "mm_state \<Rightarrow> nat \<Rightarrow> nat \<Rightarrow> (nat \<times> page_flags \<times> page_size) option" where
  "lookup_pt s pt v =
     (let e = table_entry s pt (pt_index v) in
      if pte_present e then Some (pte_addr e + v mod FRAME_SIZE, pte_flags e, Normal) else None)"

definition lookup_pd :: "mm_state \<Rightarrow> nat \<Rightarrow> nat \<Rightarrow> (nat \<times> page_flags \<times> page_size) option" where
  "lookup_pd s pd v =
     (let e = table_entry s pd (pd_index v) in
      if pte_huge e then
        (if pte_present e then Some (pte_addr e + v mod HUGE_PAGE_SIZE, pte_flags e, Huge) else None)
      else case link_of e of None \<Rightarrow> None | Some pt \<Rightarrow> lookup_pt s pt v)"

definition lookup_va :: "mm_state \<Rightarrow> nat \<Rightarrow> nat \<Rightarrow> (nat \<times> page_flags \<times> page_size) option" where
  "lookup_va s p v =
     (case table_at s p [pdpt_index v, pml4_index v] of None \<Rightarrow> None | Some pd \<Rightarrow> lookup_pd s pd v)"

lemma next_table_wf:
  assumes "space_wf s p" and "pt_path (i # q)" and "table_at s p q = Some t"
    and "pte_present (table_entry s t i) \<longrightarrow> \<not> pte_huge (table_entry s t i)"
  shows "next_table s (table_entry s t i) = Inr (table_at s p (i # q))"
proof (cases "pte_present (table_entry s t i)")
  case True
  then have at: "table_at s p (i # q) = Some (pte_addr (table_entry s t i))"
    using assms(3,4) by (simp add: link_of_def)
  from space_wfD(2)[OF assms(1,2) at] have "pte_addr (table_entry s t i) \<in> mm_managed s"
    by (simp add: mm_lent_def)
  with True assms(4) at show ?thesis
    by (simp add: next_table_def vm_okD(4)[OF space_wfD(1)[OF assms(1)]])
qed (use assms(3) in \<open>simp add: next_table_def link_of_def\<close>)

lemma pml4_table_wf: "space_wf s p \<Longrightarrow> pml4_table p s = Inr p"
  using space_wfD(1)[of s p] space_wfD(2)[of s p "[]" p]
  by (simp add: pml4_table_def vm_okD(4) mm_lent_def)

text \<open>\<open>translate\<close> never panics in a well-formed space and computes \<open>lookup_va\<close>.\<close>

lemma page_offset_fits: "pte_addr e + v mod HUGE_PAGE_SIZE < u64_limit" "pte_addr e + v mod FRAME_SIZE < u64_limit"
proof -
  have "v mod HUGE_PAGE_SIZE < 2097152" "v mod FRAME_SIZE < 4096"
    by (simp_all add: HUGE_PAGE_SIZE_def FRAME_SIZE_def)
  moreover have "pte_addr e < 4503599627370496" using pte_addr_bound[of e] by simp
  ultimately show "pte_addr e + v mod HUGE_PAGE_SIZE < u64_limit" "pte_addr e + v mod FRAME_SIZE < u64_limit"
    by linarith+
qed

lemma translate_lookup:
  assumes wf: "space_wf s p"
  shows "translate p v s = Inr (lookup_va s p v)"
proof -
  let ?i4 = "pml4_index v" and ?i3 = "pdpt_index v" and ?i2 = "pd_index v"
  have n1: "next_table s (table_entry s p ?i4) = Inr (table_at s p [?i4])"
    by (rule next_table_wf[OF wf]) (use space_wfD(4)[OF wf, of "[]"] in auto)
  have n2: "next_table s (table_entry s t ?i3) = Inr (table_at s p [?i3, ?i4])"
    if "table_at s p [?i4] = Some t" for t
    by (rule next_table_wf[OF wf _ that]) (use space_wfD(4)[OF wf _ _ that] in auto)
  have n3: "next_table s (table_entry s t ?i2) = Inr (table_at s p [?i2, ?i3, ?i4])"
    if "table_at s p [?i3, ?i4] = Some t" "\<not> pte_huge (table_entry s t ?i2)" for t
    by (rule next_table_wf[OF wf _ that(1)]) (use that(2) in auto)
  show ?thesis
  proof (cases "table_at s p [?i4]")
    case None
    then show ?thesis by (simp add: translate_def pml4_table_wf[OF wf] on_some_def n1 lookup_va_def)
  next
    case t3: (Some pdpt)
    show ?thesis
    proof (cases "table_at s p [?i3, ?i4]")
      case None
      with t3 n2[OF t3] show ?thesis
        by (simp add: translate_def pml4_table_wf[OF wf] on_some_def n1 lookup_va_def
            del: table_at.simps)
    next
      case t2: (Some pd)
      have at3: "table_at s p [?i2, ?i3, ?i4] = link_of (table_entry s pd ?i2)" using t2 by simp
      show ?thesis
        using t3 n2[OF t3] t2 n3[OF t2] at3
        by (cases "link_of (table_entry s pd ?i2)")
          (simp_all add: translate_def pml4_table_wf[OF wf] on_some_def n1 lookup_va_def lookup_pd_def
            lookup_pt_def Let_def page_offset_fits del: table_at.simps)
    qed
  qed
qed



subsection \<open>Writing one entry\<close>

lemma slot_unique:
  assumes "FRAME_SIZE dvd t" "FRAME_SIZE dvd u" "i < 512" "j < 512" "t \<noteq> u \<or> i \<noteq> j"
  shows "t + 8 * i + 8 \<le> u + 8 * j \<or> u + 8 * j + 8 \<le> t + 8 * i"
proof -
  from assms(1,2) obtain a b where "t = 4096 * a" "u = 4096 * b"
    unfolding FRAME_SIZE_def dvd_def by blast
  with assms(3-5) show ?thesis by (cases "a < b"; cases "b < a") auto
qed

lemma table_entry_put:
  assumes "FRAME_SIZE dvd t" "FRAME_SIZE dvd u" "i < 512" "j < 512"
  shows "table_entry (put_entry t i e s) u j = (if u = t \<and> j = i then e else table_entry s u j)"
proof (cases "u = t \<and> j = i")
  case False
  then have "t + 8 * i + 8 \<le> u + 8 * j \<or> u + 8 * j + 8 \<le> t + 8 * i"
    using slot_unique[OF assms] by blast
  from ram_word_put_other[OF this] False show ?thesis by (auto simp: table_entry_def put_entry_def)
qed (simp add: table_entry_def put_entry_def)

lemma table_entry_zeroed:
  assumes "FRAME_SIZE dvd n" "FRAME_SIZE dvd u" "j < 512" "mm_ram s' = zero_frame n (mm_ram s)"
  shows "table_entry s' u j = (if u = n then 0 else table_entry s u j)"
proof (cases "u = n")
  case True
  have "bit (ram_word (zero_frame n (mm_ram s)) (n + 8 * j)) k = bit (0 :: u64) k" for k
    using assms(3) by (auto simp: bit_ram_word zero_frame_def FRAME_SIZE_def)
  then have "ram_word (zero_frame n (mm_ram s)) (n + 8 * j) = 0" by (intro bit_word_eqI) auto
  with True show ?thesis by (simp add: table_entry_def assms(4))
next
  case False
  from assms(1,2) obtain a b where ab: "n = 4096 * a" "u = 4096 * b"
    unfolding FRAME_SIZE_def dvd_def by blast
  have "n + 4096 \<le> u \<or> u + 4096 \<le> n" using False ab by (cases a b rule: linorder_cases) auto
  then have "zero_frame n (mm_ram s) (u + 8 * j + i) = mm_ram s (u + 8 * j + i)" if "i < 8" for i
    using that assms(3) by (auto simp: zero_frame_def FRAME_SIZE_def)
  then have "ram_word (zero_frame n (mm_ram s)) (u + 8 * j) = ram_word (mm_ram s) (u + 8 * j)"
    by (rule ram_word_cong)
  then show ?thesis using False by (simp add: table_entry_def assms(4))
qed

text \<open>States that agree on the entries of a space's tables, except at one slot.\<close>

definition agree_but :: "mm_state \<Rightarrow> nat \<Rightarrow> nat \<Rightarrow> nat \<Rightarrow> mm_state \<Rightarrow> bool" where
  "agree_but s p t0 i0 s' \<longleftrightarrow> (\<forall>q t i. pt_path q \<longrightarrow> table_at s p q = Some t \<longrightarrow> i < 512
     \<longrightarrow> (t, i) \<noteq> (t0, i0) \<longrightarrow> table_entry s' t i = table_entry s t i)"

lemma agree_butD:
  "agree_but s p t0 i0 s' \<Longrightarrow> pt_path q \<Longrightarrow> table_at s p q = Some t \<Longrightarrow> i < 512
    \<Longrightarrow> (t, i) \<noteq> (t0, i0) \<Longrightarrow> table_entry s' t i = table_entry s t i"
  by (simp add: agree_but_def)

text \<open>Changing an entry that links to nothing, before and after, moves no table.\<close>

lemma table_at_same:
  assumes "agree_but s p t0 i0 s'" and "pt_path q"
    and "\<And>q. pt_path (i0 # q) \<Longrightarrow> table_at s p q = Some t0
      \<Longrightarrow> link_of (table_entry s' t0 i0) = link_of (table_entry s t0 i0)"
  shows "table_at s' p q = table_at s p q"
  using assms(2)
proof (induction q)
  case (Cons i q)
  then have IH: "table_at s' p q = table_at s p q" by simp
  show ?case
  proof (cases "table_at s p q")
    case (Some t)
    have "link_of (table_entry s' t i) = link_of (table_entry s t i)"
    proof (cases "(t, i) = (t0, i0)")
      case True
      then show ?thesis using assms(3)[of q] Cons.prems Some by simp
    next
      case False
      then show ?thesis using agree_butD[OF assms(1) _ Some, of i] Cons.prems by simp
    qed
    with IH Some show ?thesis by simp
  qed (use IH in simp)
qed simp

text \<open>Spaces whose tables and entries agree resolve every address alike.\<close>

lemma lookup_va_cong:
  assumes at: "\<And>q. pt_path q \<Longrightarrow> table_at s' p q = table_at s p q"
    and entry: "\<And>q t i. pt_path q \<Longrightarrow> table_at s p q = Some t \<Longrightarrow> i < 512 \<Longrightarrow> table_entry s' t i = table_entry s t i"
  shows "lookup_va s' p v = lookup_va s p v"
proof -
  have "lookup_pd s' pd v = lookup_pd s pd v" if pd: "table_at s p [pdpt_index v, pml4_index v] = Some pd" for pd
  proof -
    have "lookup_pt s' x v = lookup_pt s x v" if "link_of (table_entry s pd (pd_index v)) = Some x" for x
      using entry[of "[pd_index v, pdpt_index v, pml4_index v]" x "pt_index v"] that pd
      by (simp add: lookup_pt_def)
    then show ?thesis using entry[OF _ pd, of "pd_index v"] by (simp add: lookup_pd_def Let_def split: option.split)
  qed
  then show ?thesis
    using at[of "[pdpt_index v, pml4_index v]"] by (simp add: lookup_va_def split: option.split del: table_at.simps)
qed

text \<open>Linking a fresh empty table into an empty slot adds that table and nothing else.\<close>

lemma table_at_linked:
  assumes wf: "space_wf s p" and slot: "pt_path (i0 # q0)" "table_at s p q0 = Some t0"
    and old: "link_of (table_entry s t0 i0) = None" and new: "link_of (table_entry s' t0 i0) = Some n"
    and agree: "agree_but s p t0 i0 s'" and zero: "\<And>i. i < 512 \<Longrightarrow> table_entry s' n i = 0"
    and q: "pt_path q"
  shows "table_at s' p q = (if q = i0 # q0 then Some n else table_at s p q)"
  using q
proof (induction q)
  case (Cons i q)
  then have IH: "table_at s' p q = (if q = i0 # q0 then Some n else table_at s p q)" by simp
  show ?case
  proof (cases "q = i0 # q0")
    case True
    then have "table_at s' p (i # q) = None"
      using IH zero[of i] Cons.prems by (simp add: link_of_def pte_present_bit)
    moreover have "table_at s p (i # q) = None" using True slot(2) old by simp
    moreover have "i # q \<noteq> i0 # q0" using True by (metis length_Cons n_not_Suc_n)
    ultimately show ?thesis by simp
  next
    case False
    with IH have IH': "table_at s' p q = table_at s p q" by simp
    show ?thesis
    proof (cases "table_at s p q")
      case None
      with slot(2) have "q \<noteq> q0" by auto
      with None IH' show ?thesis by simp
    next
      case (Some t)
      show ?thesis
      proof (cases "(t, i) = (t0, i0)")
        case True
        then have "q = q0" using space_wfD(3)[OF wf _ _ Some, of q0] Cons.prems slot by simp
        with True IH' Some new show ?thesis by simp
      next
        case neq: False
        then have "table_entry s' t i = table_entry s t i"
          using agree_butD[OF agree _ Some, of i] Cons.prems by simp
        moreover have "i # q \<noteq> i0 # q0" using neq Some slot(2) by auto
        ultimately show ?thesis using IH' Some by (simp only: table_at.simps option.case if_False)
      qed
    qed
  qed
qed (use slot in simp)



subsection \<open>Walking down, creating tables on the way\<close>

definition tables_of :: "mm_state \<Rightarrow> nat \<Rightarrow> nat set" where
  "tables_of s p = {t. \<exists>q. pt_path q \<and> table_at s p q = Some t}"

definition in_tables :: "mm_state \<Rightarrow> nat \<Rightarrow> nat \<Rightarrow> bool" where
  "in_tables s p a \<longleftrightarrow> (\<exists>q t. pt_path q \<and> table_at s p q = Some t \<and> t \<le> a \<and> a < t + FRAME_SIZE)"

text \<open>
  What creating tables may do: nothing that a lookup, a frame already lent or a byte outside the
  tables can notice.
\<close>

definition grows :: "nat \<Rightarrow> mm_state \<Rightarrow> nat \<Rightarrow> mm_state \<Rightarrow> bool" where
  "grows k s p s' \<longleftrightarrow> space_wf s' p \<and> same_hhdm s s' \<and> (\<forall>v. lookup_va s' p v = lookup_va s p v)
     \<and> mm_avail s' \<subseteq> mm_avail s \<and> mm_lent s \<subseteq> mm_lent s'
     \<and> (\<forall>a. \<not> in_tables s' p a \<longrightarrow> mm_ram s' a = mm_ram s a)
     \<and> (\<forall>a. in_tables s p a \<longrightarrow> in_tables s' p a)
     \<and> card (mm_general s) \<le> k + card (mm_general s')
     \<and> tables_of s' p \<subseteq> tables_of s p \<union> mm_avail s"

lemma growsD:
  assumes "grows k s p s'"
  shows "space_wf s' p" "same_hhdm s s'" "lookup_va s' p v = lookup_va s p v" "mm_avail s' \<subseteq> mm_avail s"
    "mm_lent s \<subseteq> mm_lent s'" "\<not> in_tables s' p a \<Longrightarrow> mm_ram s' a = mm_ram s a"
    "in_tables s p a \<Longrightarrow> in_tables s' p a" "card (mm_general s) \<le> k + card (mm_general s')"
    "tables_of s' p \<subseteq> tables_of s p \<union> mm_avail s"
  using assms unfolding grows_def by blast+

lemma in_tables_iff:
  assumes "space_wf s p"
  shows "in_tables s p a \<longleftrightarrow> a div FRAME_SIZE * FRAME_SIZE \<in> tables_of s p"
proof -
  have "t \<le> a \<and> a < t + FRAME_SIZE \<longleftrightarrow> t = a div FRAME_SIZE * FRAME_SIZE" if "FRAME_SIZE dvd t" for t
    using that by (auto simp: dvd_def FRAME_SIZE_def)
  moreover have "FRAME_SIZE dvd t" if "pt_path q" "table_at s p q = Some t" for q t
    using space_wfD(2)[OF assms that] vm_okD(3)[OF space_wfD(1)[OF assms]] by (simp add: mm_lent_def)
  ultimately show ?thesis unfolding in_tables_def tables_of_def by blast
qed

lemma tables_lent: "space_wf s p \<Longrightarrow> tables_of s p \<subseteq> mm_lent s"
  unfolding tables_of_def using space_wfD(2)[of s p] by blast

lemma grows_trans:
  assumes "grows k s p s1" and "grows l s1 p s2"
  shows "grows (k + l) s p s2"
proof -
  have "mm_ram s2 a = mm_ram s a" if "\<not> in_tables s2 p a" for a
    using growsD(6)[OF assms(2) that] growsD(6)[OF assms(1), of a] growsD(7)[OF assms(2), of a] that by auto
  then show ?thesis
    using growsD[OF assms(1)] growsD[OF assms(2)] unfolding grows_def same_hhdm_def
    by (auto dest: subsetD)
qed

lemma ram_put_frame: "a < t + 8 * i \<or> t + 8 * i + 8 \<le> a \<Longrightarrow> mm_ram (put_entry t i e s) a = mm_ram s a"
  by (auto simp: put_entry_def ram_put_def)

lemma put_entry_views [simp]:
  "mm_pmm (put_entry t i e s) = mm_pmm s" "mm_hhdm_offset (put_entry t i e s) = mm_hhdm_offset s"
  "mm_inject_failures (put_entry t i e s) = mm_inject_failures s"
  "mm_inject_skip (put_entry t i e s) = mm_inject_skip s"
  by (simp_all add: put_entry_def)

lemma table_frame: "space_wf s p \<Longrightarrow> pt_path q \<Longrightarrow> table_at s p q = Some t \<Longrightarrow> FRAME_SIZE dvd t \<and> t < 2 ^ 52"
  using space_wfD(2)[of s p q t] vm_okD(2,3)[OF space_wfD(1)] by (auto simp: mm_lent_def)

lemma lookup_linked:
  assumes wf: "space_wf s p" and slot: "pt_path (i0 # q0)" "table_at s p q0 = Some t0"
    and old: "\<not> pte_present (table_entry s t0 i0)" and new: "link_of (table_entry s' t0 i0) = Some n"
    and agree: "agree_but s p t0 i0 s'" and zero: "\<And>i. i < 512 \<Longrightarrow> table_entry s' n i = 0"
  shows "lookup_va s' p v = lookup_va s p v"
proof -
  let ?q = "[pdpt_index v, pml4_index v]"
  have old': "link_of (table_entry s t0 i0) = None" using old by (simp add: link_of_def)
  note at = table_at_linked[OF wf slot old' new agree zero]
  have none: "lookup_pt s' n v = None" "lookup_pd s' n v = None"
    by (simp_all add: lookup_pt_def lookup_pd_def zero pte_present_bit link_of_def)
  have at2: "table_at s' p ?q = (if ?q = i0 # q0 then Some n else table_at s p ?q)"
    by (rule at) simp_all
  show ?thesis
  proof (cases "?q = i0 # q0")
    case True
    then have "table_at s p ?q = None" using slot(2) old' by (metis table_at.simps(2) option.case(2))
    with True at2 none show ?thesis by (simp add: lookup_va_def del: table_at.simps)
  next
    case False
    with at2 have same: "table_at s' p ?q = table_at s p ?q" by (simp only: if_False)
    show ?thesis
    proof (cases "table_at s p ?q")
      case (Some pd)
      let ?e = "table_entry s pd (pd_index v)" and ?e' = "table_entry s' pd (pd_index v)"
      have "lookup_pd s' pd v = lookup_pd s pd v"
      proof (cases "(pd, pd_index v) = (t0, i0)")
        case True
        then have "lookup_pd s pd v = None" using old by (simp add: lookup_pd_def link_of_def Let_def)
        moreover have "\<not> pte_huge ?e'" "link_of ?e' = Some n"
          using True new by (auto simp: link_of_def split: if_splits)
        ultimately show ?thesis using none by (simp add: lookup_pd_def)
      next
        case ne: False
        have e: "?e' = ?e" using agree_butD[OF agree _ Some _ ne] by simp
        have "lookup_pt s' pt v = lookup_pt s pt v" if "link_of ?e = Some pt" for pt
        proof -
          have l3: "table_at s p (pd_index v # ?q) = Some pt" using Some that by simp
          have "pd_index v # ?q \<noteq> q0" using slot(1) by auto
          then have "pt \<noteq> t0" using space_wfD(3)[OF wf _ _ l3, of q0] slot by auto
          then have "table_entry s' pt (pt_index v) = table_entry s pt (pt_index v)"
            using agree_butD[OF agree _ l3] by simp
          then show ?thesis by (simp add: lookup_pt_def)
        qed
        then show ?thesis by (simp add: lookup_pd_def e Let_def split: option.split)
      qed
      with same Some show ?thesis by (simp add: lookup_va_def del: table_at.simps)
    qed (use same in \<open>simp add: lookup_va_def del: table_at.simps\<close>)
  qed
qed

lemma space_wf_linked:
  assumes wf: "space_wf s p" and slot: "pt_path (i0 # q0)" "table_at s p q0 = Some t0"
    and old: "\<not> pte_present (table_entry s t0 i0)" and new: "link_of (table_entry s' t0 i0) = Some n"
    and agree: "agree_but s p t0 i0 s'" and zero: "\<And>i. i < 512 \<Longrightarrow> table_entry s' n i = 0"
    and ok: "vm_ok s'" and lent: "mm_lent s \<subseteq> mm_lent s'" "n \<in> mm_lent s'" "n \<notin> mm_lent s"
  shows "space_wf s' p"
proof -
  have old': "link_of (table_entry s t0 i0) = None" using old by (simp add: link_of_def)
  note at = table_at_linked[OF wf slot old' new agree zero]
  have nhuge: "\<not> pte_huge (table_entry s' t0 i0)" using new by (auto simp: link_of_def split: if_splits)
  have "t \<in> mm_lent s'" if "pt_path q" "table_at s' p q = Some t" for q t
    using at[OF _ that(1)] that space_wfD(2)[OF wf that(1)] lent by (auto split: if_splits)
  moreover have "q = r"
    if "pt_path q" "pt_path r" "table_at s' p q = Some t" "table_at s' p r = Some t" for q r t
  proof -
    have "n \<noteq> u" if "pt_path x" "table_at s p x = Some u" for x u
      using space_wfD(2)[OF wf that] lent(3) by auto
    then show ?thesis
      using that(3,4) at[OF _ that(1)] at[OF _ that(2)] space_wfD(3)[OF wf that(1,2)] that(1,2)
      by (auto split: if_splits)
  qed
  moreover have "\<not> pte_huge (table_entry s' t i)"
    if "pt_path q" "length q \<le> 1" "table_at s' p q = Some t" "i < 512"
      "pte_present (table_entry s' t i)" for q t i
  proof (cases "q = i0 # q0")
    case True
    then have "t = n" using at[OF _ that(1)] that(3) by simp
    with zero[OF that(4)] that(5) show ?thesis by (simp add: pte_present_bit)
  next
    case False
    then have old_at: "table_at s p q = Some t" using at[OF _ that(1)] that(3) by simp
    show ?thesis
    proof (cases "(t, i) = (t0, i0)")
      case True
      with nhuge show ?thesis by simp
    next
      case False
      with agree_butD[OF agree that(1) old_at that(4)] that(5) space_wfD(4)[OF wf that(1,2) old_at that(4)]
      show ?thesis by simp
    qed
  qed
  moreover have "pte_present (table_entry s' t i)"
    if "pt_path q" "length q = 2" "table_at s' p q = Some t" "i < 512"
      "pte_huge (table_entry s' t i)" for q t i
  proof (cases "q = i0 # q0")
    case True
    then have "t = n" using at[OF _ that(1)] that(3) by simp
    with zero[OF that(4)] that(5) show ?thesis by (simp add: pte_huge_bit)
  next
    case False
    then have old_at: "table_at s p q = Some t" using at[OF _ that(1)] that(3) by simp
    show ?thesis
    proof (cases "(t, i) = (t0, i0)")
      case True
      with nhuge that(5) show ?thesis by simp
    next
      case False
      with agree_butD[OF agree that(1) old_at that(4)] that(5) space_wfD(5)[OF wf that(1,2) old_at that(4)]
      show ?thesis by simp
    qed
  qed
  ultimately show ?thesis using ok unfolding space_wf_def by blast
qed


lemma in_tablesI:
  "pt_path q \<Longrightarrow> table_at s p q = Some t \<Longrightarrow> t \<le> a \<Longrightarrow> a < t + FRAME_SIZE \<Longrightarrow> in_tables s p a"
  unfolding in_tables_def by blast

lemma next_table_or_create_grows:
  assumes wf: "space_wf s p" and slot: "pt_path (i # q)" "table_at s p q = Some t"
    and leaf: "pte_present (table_entry s t i) \<longrightarrow> \<not> pte_huge (table_entry s t i)"
    and left: "mm_general s \<noteq> {} \<and> mm_inject_failures s = 0 \<or> returns (next_table_or_create t i f s)" and flags: "\<not> bit f 7"
  obtains t' s' where "next_table_or_create t i f s = Inr (t', s')" "grows 1 s p s'"
    "table_at s' p (i # q) = Some t'" "agree_but s p t i s'"
    "\<And>r. pt_path r \<Longrightarrow> r \<noteq> i # q \<Longrightarrow> table_at s' p r = table_at s p r"
    "table_at s p (i # q) = None \<Longrightarrow> (\<And>j. j < 512 \<Longrightarrow> table_entry s' t' j = 0)"
    "table_at s p (i # q) \<noteq> None \<Longrightarrow> s' = s"
proof (cases "pte_present (table_entry s t i)")
  case True
  then obtain t' where t': "table_at s p (i # q) = Some t'"
    using leaf slot(2) by (simp add: link_of_def)
  have "next_table_or_create t i f s = Inr (t', s)"
    using True t' next_table_wf[OF wf slot leaf] by (simp add: next_table_or_create_def del: table_at.simps)
  moreover have "grows 1 s p s" using wf by (simp add: grows_def same_hhdm_def)
  ultimately show thesis using t' by (intro that) (simp_all add: agree_but_def)
next
  case old: False
  have ok: "vm_ok s" by (rule space_wfD(1)[OF wf])
  note al_t = table_frame[OF wf _ slot(2)]
  from slot(1) have t: "FRAME_SIZE dvd t" "i < 512" using al_t by simp_all
  from ok show thesis
  proof (cases rule: alloc_frame_zeroed_cases)
    case (none s1)
    then have "\<not> returns (next_table_or_create t i f s)" using old by (simp add: next_table_or_create_def)
    with left none(2) show thesis by auto
  next
    case (some n s1)
    have avail: "n \<in> mm_avail s" using some(4) mm_pools_avail(1) by blast
    then have man: "n \<in> mm_managed s" using mm_avail_managed[OF vm_okD(1)[OF ok]] by blast
    note n = vm_okD(2,3)[OF ok man]
    obtain e where e: "pte_set n (f OR FLAG_PRESENT) = Inr e"
      using pte_set_aligned[of n "f OR FLAG_PRESENT"] n(2) flags by (auto simp: bit_or_iff)
    have link: "link_of e = Some n"
      using pte_set_fields[OF e n(1)] flags by (simp add: link_of_def bit_or_iff)
    define s' where "s' = put_entry t i e s1"
    have entry: "table_entry s' u j = (if u = t \<and> j = i then e else if u = n then 0 else table_entry s u j)"
      if "FRAME_SIZE dvd u" "j < 512" for u j
      unfolding s'_def table_entry_put[OF t(1) that(1) t(2) that(2)]
        table_entry_zeroed[OF n(2) that some(7)] by (rule refl)
    have not_n: "u \<noteq> n" if "pt_path r" "table_at s p r = Some u" for r u
      using space_wfD(2)[OF wf that] avail by (auto simp: mm_lent_def)
    have "t \<noteq> n" using not_n[OF _ slot(2)] slot(1) by simp
    have agree: "agree_but s p t i s'"
      unfolding agree_but_def using entry not_n table_frame[OF wf] by auto
    have zero: "table_entry s' n j = 0" if "j < 512" for j
      using entry[OF n(2) that] \<open>t \<noteq> n\<close> by simp
    have new: "link_of (table_entry s' t i) = Some n" using entry[OF t] link by simp
    have pmm: "mm_pmm s' = mm_pmm s1" by (simp add: s'_def)
    have ok': "vm_ok s'"
      by (rule vm_ok_transfer[OF some(2)])
        (use mm_views_cong[OF pmm] vm_okD(1)[OF some(2)] in \<open>simp_all add: same_hhdm_def s'_def\<close>)
    have same: "same_hhdm s s'"
      using some(3) mm_views_cong[OF pmm] by (simp add: same_hhdm_def s'_def)
    have lent: "mm_lent s' = insert n (mm_lent s)"
      using same some(6) man mm_views_cong(2)[OF pmm] by (auto simp: mm_lent_def same_hhdm_def)
    have n_new: "n \<notin> mm_lent s" using avail by (simp add: mm_lent_def)
    have wf': "space_wf s' p"
      by (rule space_wf_linked[OF wf slot old new agree zero ok']) (use lent n_new in auto)
    have none: "link_of (table_entry s t i) = None" using old by (simp add: link_of_def)
    note at = table_at_linked[OF wf slot none new agree zero]
    have at_new: "table_at s' p (i # q) = Some n" using at[of "i # q"] slot(1) by simp
    have at_old: "table_at s' p r = table_at s p r" if "pt_path r" "r \<noteq> i # q" for r
      using at[of r] that by simp
    have at_q: "table_at s' p q = Some t"
      using at_old[of q] slot by (simp add: list.size(4))
    have "table_entry s' t i = e" using entry[OF t] by simp
    then have run: "next_table_or_create t i f s = Inr (n, s')"
      using old some(1) e at_new next_table_wf[OF wf' slot(1) at_q] link
      by (simp add: next_table_or_create_def s'_def[symmetric] link_of_def split: if_splits del: table_at.simps)
    have bytes: "mm_ram s' a = mm_ram s a" if "\<not> in_tables s' p a" for a
    proof -
      have "pt_path q" using slot(1) by simp
      with that have "\<not> (t \<le> a \<and> a < t + FRAME_SIZE)" "\<not> (n \<le> a \<and> a < n + FRAME_SIZE)"
        using in_tablesI[OF _ at_q] in_tablesI[OF slot(1) at_new] by blast+
      then show ?thesis
        using ram_put_frame[of a t i e s1] t(2) some(7)
        by (auto simp: s'_def zero_frame_def FRAME_SIZE_def)
    qed
    have tables: "in_tables s' p a" if "in_tables s p a" for a
    proof -
      from that obtain r u where r: "pt_path r" "table_at s p r = Some u" "u \<le> a" "a < u + FRAME_SIZE"
        unfolding in_tables_def by blast
      have "r \<noteq> i # q" using r(2) slot(2) none by auto
      with at_old[OF r(1)] r show ?thesis unfolding in_tables_def by auto
    qed
    have card: "card (mm_general s) \<le> Suc (card (mm_general s'))"
      using some(4,5) finite_mm_general[of s] mm_views_cong(4)[OF pmm] by (simp add: card_Diff_singleton_if)
    have news: "tables_of s' p \<subseteq> tables_of s p \<union> mm_avail s"
    proof
      fix u assume "u \<in> tables_of s' p"
      then obtain r where r: "pt_path r" "table_at s' p r = Some u" by (auto simp: tables_of_def)
      show "u \<in> tables_of s p \<union> mm_avail s"
        using r at_new at_old[OF r(1)] avail unfolding tables_of_def by (cases "r = i # q") auto
    qed
    have "grows 1 s p s'"
      unfolding grows_def
      using wf' same lookup_linked[OF wf slot old new agree zero] lent some(6) mm_views_cong(2)[OF pmm]
        bytes tables card news by auto
    with run at_new agree at_old zero none slot(2) show thesis
      by (intro that[of n s']) simp_all
  qed
qed



subsection \<open>Setting a leaf\<close>

text \<open>The 36 bits of an address the walk looks at; bits 48 and up are not translated.\<close>

definition page_number :: "nat \<Rightarrow> nat" where
  "page_number v = v div FRAME_SIZE mod 2 ^ 36"

definition big_page_number :: "nat \<Rightarrow> nat" where
  "big_page_number v = v div HUGE_PAGE_SIZE mod 2 ^ 27"

lemma digits_eq_iff:
  "(x :: nat) mod (512 * b) = y mod (512 * b) \<longleftrightarrow> x mod 512 = y mod 512 \<and> x div 512 mod b = y div 512 mod b"
proof -
  have split: "512 * a + r = 512 * a' + r' \<longleftrightarrow> r = r' \<and> a = a'" if "r < 512" "r' < 512" for a a' r r' :: nat
  proof
    assume eq: "512 * a + r = 512 * a' + r'"
    then have "(512 * a + r) mod 512 = (512 * a' + r') mod 512" by simp
    then have "r = r'" using that by simp
    with eq show "r = r' \<and> a = a'" by simp
  qed simp
  show ?thesis
    unfolding mod_mult2_eq[of _ 512 b] by (rule split) simp_all
qed

lemma page_number_eq_iff:
  "page_number v = page_number w \<longleftrightarrow> pml4_index v = pml4_index w \<and> pdpt_index v = pdpt_index w
     \<and> pd_index v = pd_index w \<and> pt_index v = pt_index w"
proof -
  have p: "(2 :: nat) ^ 36 = 512 * (512 * (512 * 512))" by simp
  have d: "x div 2 ^ 12 div 512 = x div 2 ^ 21" "x div 2 ^ 21 div 512 = x div 2 ^ 30"
    "x div 2 ^ 30 div 512 = x div 2 ^ 39" for x :: nat
    by (simp_all add: div_mult2_eq[symmetric])
  have f: "FRAME_SIZE = 2 ^ 12" by (simp add: FRAME_SIZE_def)
  show ?thesis
    unfolding page_number_def p f digits_eq_iff d pml4_index_def pdpt_index_def pd_index_def pt_index_def
    by blast
qed

lemma big_page_number_eq_iff:
  "big_page_number v = big_page_number w \<longleftrightarrow> pml4_index v = pml4_index w \<and> pdpt_index v = pdpt_index w
     \<and> pd_index v = pd_index w"
proof -
  have p: "(2 :: nat) ^ 27 = 512 * (512 * 512)" by simp
  have d: "x div 2 ^ 21 div 512 = x div 2 ^ 30" "x div 2 ^ 30 div 512 = x div 2 ^ 39" for x :: nat
    by (simp_all add: div_mult2_eq[symmetric])
  have f: "HUGE_PAGE_SIZE = 2 ^ 21" by (simp add: HUGE_PAGE_SIZE_def)
  show ?thesis
    unfolding big_page_number_def p f digits_eq_iff d pml4_index_def pdpt_index_def pd_index_def
    by blast
qed

text \<open>Writing an entry of a last-level table changes no table and only one page's lookup.\<close>

lemma put_entry_agree:
  assumes "space_wf s p" and "FRAME_SIZE dvd t" and "i < 512"
  shows "agree_but s p t i (put_entry t i e s)"
  using table_entry_put[OF assms(2) _ assms(3)] table_frame[OF assms(1)]
  unfolding agree_but_def by auto

lemma put_entry_state:
  assumes "vm_ok s"
  shows "vm_ok (put_entry t i e s)" "mm_lent (put_entry t i e s) = mm_lent s"
    "same_hhdm s (put_entry t i e s)" "mm_avail (put_entry t i e s) = mm_avail s"
    "mm_general (put_entry t i e s) = mm_general s"
proof -
  have pmm: "mm_pmm (put_entry t i e s) = mm_pmm s" by simp
  note v = mm_views_cong[OF pmm]
  show "same_hhdm s (put_entry t i e s)" "mm_avail (put_entry t i e s) = mm_avail s"
    "mm_lent (put_entry t i e s) = mm_lent s" "mm_general (put_entry t i e s) = mm_general s"
    using v by (simp_all add: same_hhdm_def mm_lent_def)
  show "vm_ok (put_entry t i e s)" using assms v by (simp add: vm_ok_def)
qed

lemma put_leaf:
  fixes e :: u64
  assumes wf: "space_wf s p" and at: "table_at s p [pd_index w, pdpt_index w, pml4_index w] = Some pt"
  defines "s' \<equiv> put_entry pt (pt_index w) e s"
  shows "space_wf s' p" and "pt_path q \<Longrightarrow> table_at s' p q = table_at s p q"
    and "lookup_va s' p v = (if page_number v = page_number w
           then (if pte_present e then Some (pte_addr e + v mod FRAME_SIZE, pte_flags e, Normal) else None)
           else lookup_va s p v)"
proof -
  let ?i = "pt_index w" and ?path = "[pd_index w, pdpt_index w, pml4_index w]"
  have path: "pt_path ?path" by simp
  have pt: "FRAME_SIZE dvd pt" using table_frame[OF wf path at] by simp
  have agree: "agree_but s p pt ?i s'"
    unfolding s'_def by (rule put_entry_agree[OF wf pt]) simp
  have uniq: "q = ?path" if "pt_path q" "table_at s p q = Some pt" for q
    using space_wfD(3)[OF wf that(1) path that(2) at] .
  show same: "table_at s' p q = table_at s p q" if "pt_path q" for q
    by (rule table_at_same[OF agree that]) (use uniq in fastforce)
  have upper: "table_entry s' t i = table_entry s t i"
    if "pt_path q" "length q \<le> 2" "table_at s p q = Some t" "i < 512" for q t i
  proof -
    have "t \<noteq> pt" using uniq[OF that(1)] that(2,3) by auto
    then show ?thesis using agree_butD[OF agree that(1,3,4)] by simp
  qed
  note st = put_entry_state[OF space_wfD(1)[OF wf], of pt ?i e, folded s'_def]
  show "space_wf s' p"
    unfolding space_wf_def
  proof (intro conjI allI impI)
    show "vm_ok s'" by (rule st(1))
    show "t \<in> mm_lent s'" if "pt_path q" "table_at s' p q = Some t" for q t
      using space_wfD(2)[OF wf that(1)] that same st(2) by simp
    show "q = r" if "pt_path q" "pt_path r" "table_at s' p q = Some t" "table_at s' p r = Some t" for q r t
      using space_wfD(3)[OF wf that(1,2)] that same by simp
    show "\<not> pte_huge (table_entry s' t i)"
      if "pt_path q" "length q \<le> 1" "table_at s' p q = Some t" "i < 512" "pte_present (table_entry s' t i)" for q t i
    proof -
      have at: "table_at s p q = Some t" using that same by simp
      have "length q \<le> 2" using that(2) by simp
      from upper[OF that(1) this at that(4)] space_wfD(4)[OF wf that(1,2) at that(4)] that(5)
      show ?thesis by simp
    qed
    show "pte_present (table_entry s' t i)"
      if "pt_path q" "length q = 2" "table_at s' p q = Some t" "i < 512" "pte_huge (table_entry s' t i)" for q t i
    proof -
      have at: "table_at s p q = Some t" using that same by simp
      have "length q \<le> 2" using that(2) by simp
      from upper[OF that(1) this at that(4)] space_wfD(5)[OF wf that(1,2) at that(4)] that(5)
      show ?thesis by simp
    qed
  qed
  have entry: "table_entry s' u (pt_index v) = (if u = pt \<and> pt_index v = ?i then e else table_entry s u (pt_index v))"
    if "pt_path q" "table_at s p q = Some u" for q u
    unfolding s'_def using table_frame[OF wf that] pt by (intro table_entry_put) simp_all
  let ?q2 = "[pdpt_index v, pml4_index v]" and ?q3 = "[pd_index v, pdpt_index v, pml4_index v]"
  have same2: "table_at s' p ?q2 = table_at s p ?q2" by (rule same) simp
  show "lookup_va s' p v = (if page_number v = page_number w
      then (if pte_present e then Some (pte_addr e + v mod FRAME_SIZE, pte_flags e, Normal) else None)
      else lookup_va s p v)"
  proof (cases "page_number v = page_number w")
    case True
    then have idx: "pml4_index v = pml4_index w" "pdpt_index v = pdpt_index w" "pd_index v = pd_index w"
      "pt_index v = ?i" by (simp_all add: page_number_eq_iff)
    from at obtain pd where pd: "table_at s p [pdpt_index w, pml4_index w] = Some pd"
      and link: "link_of (table_entry s pd (pd_index w)) = Some pt"
      by (cases "table_at s p [pdpt_index w, pml4_index w]") (simp_all del: table_at.simps add: table_at.simps(2)[of s p "pd_index w"])
    have "table_entry s' pd (pd_index w) = table_entry s pd (pd_index w)"
      by (rule upper[OF _ _ pd]) simp_all
    moreover have "\<not> pte_huge (table_entry s pd (pd_index w))" using link by (auto simp: link_of_def split: if_splits)
    moreover have "table_entry s' pt ?i = e" using entry[OF path at] idx(4) by simp
    ultimately show ?thesis
      using True same2 pd link idx by (simp add: lookup_va_def lookup_pd_def lookup_pt_def Let_def del: table_at.simps)
  next
    case False
    have "lookup_pd s' pd v = lookup_pd s pd v" if pd: "table_at s p ?q2 = Some pd" for pd
    proof -
      have e: "table_entry s' pd (pd_index v) = table_entry s pd (pd_index v)"
        by (rule upper[OF _ _ pd]) simp_all
      have "lookup_pt s' u v = lookup_pt s u v" if "link_of (table_entry s pd (pd_index v)) = Some u" for u
      proof -
        have at3: "table_at s p ?q3 = Some u" using pd that by simp
        have "\<not> (u = pt \<and> pt_index v = ?i)"
          using uniq[of ?q3] at3 False by (auto simp: page_number_eq_iff simp del: table_at.simps)
        then show ?thesis using entry[OF _ at3] by (auto simp: lookup_pt_def)
      qed
      then show ?thesis by (simp add: lookup_pd_def e Let_def split: option.split)
    qed
    with False same2 show ?thesis by (simp add: lookup_va_def split: option.split del: table_at.simps)
  qed
qed



subsection \<open>Mapping a page\<close>

lemma intermediate_not_huge: "\<not> bit (intermediate_flags f) 7"
  by (simp add: intermediate_flags_def bit_or_iff)

lemma general_nonempty: "0 < card (mm_general s) \<Longrightarrow> mm_general s \<noteq> {}"
  by auto

text \<open>The walk of \<open>map_4k\<close> down to the last table, on an address that resolves to nothing.\<close>

definition walk_tables :: "nat \<Rightarrow> nat \<Rightarrow> page_flags \<Rightarrow> mm_state \<Rightarrow> (nat \<times> mm_state) checked" where
  "walk_tables p v f s = and_then (next_table_or_create p (pml4_index v) f s) (\<lambda>(pdpt, s1). next_table_or_create pdpt (pdpt_index v) f s1)"

lemma walk_to_pd:
  assumes wf: "space_wf s p" and left: "2 \<le> card (mm_general s) \<and> mm_inject_failures s = 0 \<or> returns (walk_tables p v f s)"
    and f: "\<not> bit f 7"
  obtains pdpt s1 pd s2 where "next_table_or_create p (pml4_index v) f s = Inr (pdpt, s1)"
    "next_table_or_create pdpt (pdpt_index v) f s1 = Inr (pd, s2)" "grows 2 s p s2"
    "table_at s2 p [pdpt_index v, pml4_index v] = Some pd"
proof -
  let ?i4 = "pml4_index v" and ?i3 = "pdpt_index v"
  have some: "mm_general s \<noteq> {} \<and> mm_inject_failures s = 0 \<or> returns (next_table_or_create p ?i4 f s)"
    using left general_nonempty[of s] by (auto simp: walk_tables_def returns_def checked_simps)
  have s4: "pt_path (?i4 # [])" "table_at s p [] = Some p" by simp_all
  have l4: "pte_present (table_entry s p ?i4) \<longrightarrow> \<not> pte_huge (table_entry s p ?i4)"
    using space_wfD(4)[OF wf, of "[]" p] by simp
  obtain pdpt s1 where one: "next_table_or_create p ?i4 f s = Inr (pdpt, s1)" "grows 1 s p s1"
    "table_at s1 p [?i4] = Some pdpt"
    using next_table_or_create_grows[OF wf s4 l4 some f] by metis
  have wf1: "space_wf s1 p" by (rule growsD(1)[OF one(2)])
  have left1: "mm_general s1 \<noteq> {} \<and> mm_inject_failures s1 = 0 \<or> returns (next_table_or_create pdpt ?i3 f s1)"
    using growsD(2,8)[OF one(2)] left one(1) by (auto simp: same_hhdm_def walk_tables_def)
  have s3: "pt_path (?i3 # [?i4])" by simp
  have l3: "pte_present (table_entry s1 pdpt ?i3) \<longrightarrow> \<not> pte_huge (table_entry s1 pdpt ?i3)"
    using space_wfD(4)[OF wf1 _ _ one(3)] by simp
  obtain pd s2 where two: "next_table_or_create pdpt ?i3 f s1 = Inr (pd, s2)" "grows 1 s1 p s2"
    "table_at s2 p [?i3, ?i4] = Some pd"
    using next_table_or_create_grows[OF wf1 s3 one(3) l3 left1 f] by metis
  have "grows 2 s p s2" using grows_trans[OF one(2) two(2)] by (simp add: numeral_2_eq_2)
  with one(1) two show thesis by (intro that)
qed

lemma lookup_none_pd:
  assumes wf: "space_wf s p" and pd: "table_at s p [pdpt_index v, pml4_index v] = Some pd"
    and none: "lookup_va s p v = None"
  shows "\<not> pte_huge (table_entry s pd (pd_index v))"
    and "table_at s p [pd_index v, pdpt_index v, pml4_index v] = Some pt \<Longrightarrow> \<not> pte_present (table_entry s pt (pt_index v))"
proof -
  have l: "lookup_pd s pd v = None" using none pd by (simp add: lookup_va_def del: table_at.simps)
  then show nh: "\<not> pte_huge (table_entry s pd (pd_index v))"
    using space_wfD(5)[OF wf _ _ pd] by (auto simp: lookup_pd_def Let_def split: if_splits)
  assume "table_at s p [pd_index v, pdpt_index v, pml4_index v] = Some pt"
  then have "link_of (table_entry s pd (pd_index v)) = Some pt"
    using pd by (simp del: table_at.simps add: table_at.simps(2)[of s p "pd_index v"])
  with l nh show "\<not> pte_present (table_entry s pt (pt_index v))"
    by (auto simp: lookup_pd_def lookup_pt_def Let_def split: if_splits)
qed

lemma map_4k_returned:
  assumes wf: "space_wf s p" and left: "3 \<le> card (mm_general s) \<and> mm_inject_failures s = 0 \<or> returns (map_4k p virt phys flags s)"
    and virt: "FRAME_SIZE dvd virt" and phys: "FRAME_SIZE dvd phys" "phys < 2 ^ 52"
    and flags: "\<not> bit flags 7" and none: "lookup_va s p virt = None"
  obtains s' where "map_4k p virt phys flags s = Inr s'" "space_wf s' p" "same_hhdm s s'"
    "\<And>v. lookup_va s' p v = (if page_number v = page_number virt
        then Some (phys + v mod FRAME_SIZE, from_bits_truncate (flags OR FLAG_PRESENT), Normal)
        else lookup_va s p v)"
    "mm_lent s \<subseteq> mm_lent s'" "mm_avail s' \<subseteq> mm_avail s" "card (mm_general s) \<le> 3 + card (mm_general s')"
    "\<And>a. \<not> in_tables s' p a \<Longrightarrow> mm_ram s' a = mm_ram s a"
    "\<And>a. in_tables s p a \<Longrightarrow> in_tables s' p a"
    "tables_of s' p \<subseteq> tables_of s p \<union> mm_avail s"
proof -
  let ?f = "intermediate_flags flags"
  let ?i4 = "pml4_index virt" and ?i3 = "pdpt_index virt" and ?i2 = "pd_index virt" and ?i1 = "pt_index virt"
  note f = intermediate_not_huge[of flags]
  have "2 \<le> card (mm_general s) \<and> mm_inject_failures s = 0 \<or> returns (walk_tables p virt ?f s)"
    using left pml4_table_wf[OF wf] by (auto simp: map_4k_def walk_tables_def returns_def checked_simps)
  from walk_to_pd[OF wf this f] obtain pdpt s1 pd s2 where
    w: "next_table_or_create p ?i4 ?f s = Inr (pdpt, s1)" "next_table_or_create pdpt ?i3 ?f s1 = Inr (pd, s2)"
      "grows 2 s p s2" "table_at s2 p [?i3, ?i4] = Some pd" .
  have wf2: "space_wf s2 p" by (rule growsD(1)[OF w(3)])
  have none2: "lookup_va s2 p virt = None" using growsD(3)[OF w(3)] none by simp
  note nh = lookup_none_pd(1)[OF wf2 w(4) none2]
  have left2: "mm_general s2 \<noteq> {} \<and> mm_inject_failures s2 = 0 \<or> returns (next_table_or_create pd ?i2 ?f s2)"
    using growsD(2,8)[OF w(3)] left pml4_table_wf[OF wf] w(1,2)
    by (auto simp: same_hhdm_def map_4k_def returns_def checked_simps)
  have slot: "pt_path (?i2 # [?i3, ?i4])" by simp
  obtain pt s3 where three: "next_table_or_create pd ?i2 ?f s2 = Inr (pt, s3)" "grows 1 s2 p s3"
    "table_at s3 p [?i2, ?i3, ?i4] = Some pt"
    using next_table_or_create_grows[OF wf2 slot w(4) _ left2 f] nh by metis
  have g: "grows 3 s p s3" using grows_trans[OF w(3) three(2)] by (simp add: numeral_3_eq_3)
  have wf3: "space_wf s3 p" by (rule growsD(1)[OF g])
  have none3: "lookup_va s3 p virt = None" using growsD(3)[OF g] none by simp
  obtain pd3 where pd3: "table_at s3 p [?i3, ?i4] = Some pd3"
    using three(3) by (cases "table_at s3 p [?i3, ?i4]") (simp_all del: table_at.simps add: table_at.simps(2)[of s3 p ?i2])
  note np = lookup_none_pd(2)[OF wf3 pd3 none3 three(3)]
  obtain e where e: "pte_set phys (flags OR FLAG_PRESENT) = Inr e"
    using pte_set_aligned[OF phys(1), of "flags OR FLAG_PRESENT"] flags by (auto simp: bit_or_iff)
  note fields = pte_set_fields[OF e phys(2)]
  define s' where "s' = put_entry pt ?i1 e s3"
  note leaf = put_leaf[OF wf3 three(3), where e = e, folded s'_def]
  have run: "map_4k p virt phys flags s = Inr s'"
    using virt phys(1) pml4_table_wf[OF wf] w(1,2) three(1) nh np e
    by (simp add: map_4k_def s'_def dvd_eq_mod_eq_0)
  have path: "pt_path [?i2, ?i3, ?i4]" by simp
  note st = put_entry_state[OF space_wfD(1)[OF wf3], of pt ?i1 e, folded s'_def]
  have tables: "in_tables s' p a = in_tables s3 p a" for a
    unfolding in_tables_def using leaf(2) by auto
  have bytes: "mm_ram s' a = mm_ram s a" if "\<not> in_tables s' p a" for a
  proof -
    have out: "\<not> in_tables s3 p a" using that tables by simp
    then have "\<not> (pt \<le> a \<and> a < pt + FRAME_SIZE)" using in_tablesI[OF path three(3)] by blast
    then have "a < pt + 8 * ?i1 \<or> pt + 8 * ?i1 + 8 \<le> a"
      using index_bounds(4)[of virt] unfolding FRAME_SIZE_def by linarith
    from ram_put_frame[OF this, of e s3] growsD(6)[OF g out] show ?thesis by (simp add: s'_def)
  qed
  have look: "lookup_va s' p v = (if page_number v = page_number virt
      then Some (phys + v mod FRAME_SIZE, from_bits_truncate (flags OR FLAG_PRESENT), Normal)
      else lookup_va s p v)" for v
    using leaf(3)[of v] fields growsD(3)[OF g, of v] by (simp add: bit_or_iff)
  have "tables_of s' p = tables_of s3 p" unfolding tables_of_def using leaf(2) by auto
  moreover have "same_hhdm s s'" using growsD(2)[OF g] st(3) unfolding same_hhdm_def by simp
  ultimately show thesis
    using run leaf(1) look bytes tables st(2,4,5) growsD[OF g]
    by (intro that[of s']) auto
qed

lemma map_4k_ok:
  assumes wf: "space_wf s p" and left: "3 \<le> card (mm_general s)" "mm_inject_failures s = 0"
    and virt: "FRAME_SIZE dvd virt" and phys: "FRAME_SIZE dvd phys" "phys < 2 ^ 52"
    and flags: "\<not> bit flags 7" and none: "lookup_va s p virt = None"
  obtains s' where "map_4k p virt phys flags s = Inr s'" "space_wf s' p" "same_hhdm s s'"
    "\<And>v. lookup_va s' p v = (if page_number v = page_number virt
        then Some (phys + v mod FRAME_SIZE, from_bits_truncate (flags OR FLAG_PRESENT), Normal)
        else lookup_va s p v)"
    "mm_lent s \<subseteq> mm_lent s'" "mm_avail s' \<subseteq> mm_avail s" "card (mm_general s) \<le> 3 + card (mm_general s')"
    "\<And>a. \<not> in_tables s' p a \<Longrightarrow> mm_ram s' a = mm_ram s a"
    "\<And>a. in_tables s p a \<Longrightarrow> in_tables s' p a"
    "tables_of s' p \<subseteq> tables_of s p \<union> mm_avail s"
  by (rule map_4k_returned[OF wf disjI1[OF conjI[OF left]] virt phys flags none]) (rule that; assumption)

subsection \<open>Huge leaves and unmapping\<close>

text \<open>
  Writing an entry of a page directory where neither the old nor the new entry links to a table
  (a huge leaf set or removed).
\<close>

lemma put_big:
  fixes e :: u64
  assumes wf: "space_wf s p" and at: "table_at s p [pdpt_index w, pml4_index w] = Some pd"
    and old: "link_of (table_entry s pd (pd_index w)) = None" and new: "link_of e = None"
    and huge: "pte_huge e \<Longrightarrow> pte_present e"
  defines "s' \<equiv> put_entry pd (pd_index w) e s"
  shows "space_wf s' p" and "pt_path q \<Longrightarrow> table_at s' p q = table_at s p q"
    and "lookup_va s' p v = (if big_page_number v = big_page_number w
           then (if pte_present e then Some (pte_addr e + v mod HUGE_PAGE_SIZE, pte_flags e, Huge) else None)
           else lookup_va s p v)"
proof -
  let ?i = "pd_index w" and ?path = "[pdpt_index w, pml4_index w]"
  have path: "pt_path ?path" by simp
  have pd: "FRAME_SIZE dvd pd" using table_frame[OF wf path at] by simp
  have agree: "agree_but s p pd ?i s'"
    unfolding s'_def by (rule put_entry_agree[OF wf pd]) simp
  have uniq: "q = ?path" if "pt_path q" "table_at s p q = Some pd" for q
    using space_wfD(3)[OF wf that(1) path that(2) at] .
  have slot: "table_entry s' pd ?i = e"
    unfolding s'_def using table_entry_put[OF pd pd] by simp
  show same: "table_at s' p q = table_at s p q" if "pt_path q" for q
    by (rule table_at_same[OF agree that]) (use slot old new in simp)
  have other: "table_entry s' t i = table_entry s t i"
    if "pt_path q" "table_at s p q = Some t" "i < 512" "q \<noteq> ?path" for q t i
    using agree_butD[OF agree that(1,2,3)] uniq[OF that(1)] that(2,4) by blast
  note st = put_entry_state[OF space_wfD(1)[OF wf], of pd ?i e, folded s'_def]
  show "space_wf s' p"
    unfolding space_wf_def
  proof (intro conjI allI impI)
    show "vm_ok s'" by (rule st(1))
    show "t \<in> mm_lent s'" if "pt_path q" "table_at s' p q = Some t" for q t
      using space_wfD(2)[OF wf that(1)] that same st(2) by simp
    show "q = r" if "pt_path q" "pt_path r" "table_at s' p q = Some t" "table_at s' p r = Some t" for q r t
      using space_wfD(3)[OF wf that(1,2)] that same by simp
    show "\<not> pte_huge (table_entry s' t i)"
      if "pt_path q" "length q \<le> 1" "table_at s' p q = Some t" "i < 512" "pte_present (table_entry s' t i)" for q t i
    proof -
      have at: "table_at s p q = Some t" using that same by simp
      have "q \<noteq> ?path" using that(2) by auto
      from other[OF that(1) at that(4) this] space_wfD(4)[OF wf that(1,2) at that(4)] that(5)
      show ?thesis by simp
    qed
    show "pte_present (table_entry s' t i)"
      if "pt_path q" "length q = 2" "table_at s' p q = Some t" "i < 512" "pte_huge (table_entry s' t i)" for q t i
    proof (cases "(t, i) = (pd, ?i)")
      case True
      then show ?thesis using that(5) slot huge by simp
    next
      case False
      have at: "table_at s p q = Some t" using that same by simp
      from agree_butD[OF agree that(1) at that(4) False] space_wfD(5)[OF wf that(1,2) at that(4)] that(5)
      show ?thesis by simp
    qed
  qed
  let ?q2 = "[pdpt_index v, pml4_index v]" and ?q3 = "[pd_index v, pdpt_index v, pml4_index v]"
  have same2: "table_at s' p ?q2 = table_at s p ?q2" by (rule same) simp
  show "lookup_va s' p v = (if big_page_number v = big_page_number w
      then (if pte_present e then Some (pte_addr e + v mod HUGE_PAGE_SIZE, pte_flags e, Huge) else None)
      else lookup_va s p v)"
  proof (cases "big_page_number v = big_page_number w")
    case True
    then have idx: "pml4_index v = pml4_index w" "pdpt_index v = pdpt_index w" "pd_index v = ?i"
      by (simp_all add: big_page_number_eq_iff)
    have "pte_huge e \<or> \<not> pte_present e" using new by (auto simp: link_of_def split: if_splits)
    then show ?thesis
      using True same2 at idx slot new huge
      by (auto simp: lookup_va_def lookup_pd_def Let_def simp del: table_at.simps)
  next
    case False
    have "lookup_pd s' u v = lookup_pd s u v" if u: "table_at s p ?q2 = Some u" for u
    proof -
      have "(u, pd_index v) \<noteq> (pd, ?i)"
        using uniq[of ?q2] u False by (auto simp: big_page_number_eq_iff simp del: table_at.simps)
      then have e: "table_entry s' u (pd_index v) = table_entry s u (pd_index v)"
        using agree_butD[OF agree _ u] by simp
      have "lookup_pt s' x v = lookup_pt s x v" if "link_of (table_entry s u (pd_index v)) = Some x" for x
      proof -
        have at3: "table_at s p ?q3 = Some x" using u that by simp
        have "table_entry s' x (pt_index v) = table_entry s x (pt_index v)"
          by (rule other[OF _ at3]) simp_all
        then show ?thesis by (simp add: lookup_pt_def)
      qed
      then show ?thesis by (simp add: lookup_pd_def e Let_def split: option.split)
    qed
    with False same2 show ?thesis by (simp add: lookup_va_def split: option.split del: table_at.simps)
  qed
qed

lemma mult_mod_page: "HUGE_PAGE_SIZE dvd v \<Longrightarrow> v mod HUGE_PAGE_SIZE = 0" "FRAME_SIZE dvd v \<Longrightarrow> v mod FRAME_SIZE = 0"
  by (simp_all add: dvd_eq_mod_eq_0)

text \<open>
  \<open>unmap\<close> removes exactly the page the address lies in, 4 KiB or 2 MiB, and returns where that
  page was mapped.
\<close>

definition same_leaf :: "page_size \<Rightarrow> nat \<Rightarrow> nat \<Rightarrow> bool" where
  "same_leaf sz v w \<longleftrightarrow> (case sz of Normal \<Rightarrow> page_number v = page_number w
     | Huge \<Rightarrow> big_page_number v = big_page_number w)"

definition leaf_base :: "nat \<times> page_flags \<times> page_size \<Rightarrow> nat \<Rightarrow> nat" where
  "leaf_base m v = (case m of (phys, fl, sz) \<Rightarrow>
     phys - (case sz of Normal \<Rightarrow> v mod FRAME_SIZE | Huge \<Rightarrow> v mod HUGE_PAGE_SIZE))"

lemma link_of_zero [simp]: "link_of 0 = None" "\<not> pte_huge 0" "\<not> pte_present 0"
  by (simp_all add: link_of_def pte_present_bit pte_huge_bit)

lemma unmap_ok:
  assumes wf: "space_wf s p" and virt: "FRAME_SIZE dvd virt"
  shows "case lookup_va s p virt of
      None \<Rightarrow> unmap p virt s = Inr (None, s)
    | Some (phys, fl, sz) \<Rightarrow> \<exists>s'. unmap p virt s = Inr (Some (leaf_base (phys, fl, sz) virt), s')
        \<and> space_wf s' p \<and> (\<forall>v. lookup_va s' p v = (if same_leaf sz v virt then None else lookup_va s p v))
        \<and> same_hhdm s s' \<and> mm_avail s' = mm_avail s \<and> tables_of s' p = tables_of s p"
proof -
  let ?i4 = "pml4_index virt" and ?i3 = "pdpt_index virt" and ?i2 = "pd_index virt" and ?i1 = "pt_index virt"
  have n1: "next_table s (table_entry s p ?i4) = Inr (table_at s p [?i4])"
    by (rule next_table_wf[OF wf]) (use space_wfD(4)[OF wf, of "[]"] in auto)
  have n2: "next_table s (table_entry s t ?i3) = Inr (table_at s p [?i3, ?i4])"
    if "table_at s p [?i4] = Some t" for t
    by (rule next_table_wf[OF wf _ that]) (use space_wfD(4)[OF wf _ _ that] in auto)
  have n3: "next_table s (table_entry s t ?i2) = Inr (table_at s p [?i2, ?i3, ?i4])"
    if "table_at s p [?i3, ?i4] = Some t" "\<not> pte_huge (table_entry s t ?i2)" for t
    by (rule next_table_wf[OF wf _ that(1)]) (use that(2) in auto)
  show ?thesis
  proof (cases "table_at s p [?i3, ?i4]")
    case None
    then show ?thesis
      using virt n1 n2 by (cases "table_at s p [?i4]")
        (simp_all add: unmap_def pml4_table_wf[OF wf] on_some_def lookup_va_def dvd_eq_mod_eq_0 del: table_at.simps)
  next
    case t2: (Some pd)
    then obtain pdpt where t3: "table_at s p [?i4] = Some pdpt"
      by (cases "table_at s p [?i4]") (simp_all del: table_at.simps add: table_at.simps(2)[of s p ?i3])
    let ?e = "table_entry s pd ?i2"
    have look: "lookup_va s p virt = lookup_pd s pd virt"
      using t2 by (simp add: lookup_va_def del: table_at.simps)
    note start = unmap_def pml4_table_wf[OF wf] on_some_def n1 t3 n2[OF t3] t2
    show ?thesis
    proof (cases "pte_huge ?e")
      case True
      have pres: "pte_present ?e" using space_wfD(5)[OF wf _ _ t2] True by simp
      have "link_of ?e = None" using True by (simp add: link_of_def)
      note big = put_big[OF wf t2 this link_of_zero(1)]
      have "tables_of (put_entry pd ?i2 0 s) p = tables_of s p" using big(2) by (simp add: tables_of_def cong: conj_cong)
      then show ?thesis
        using True pres virt big(1,3) put_entry_state(3,4)[OF space_wfD(1)[OF wf], of pd ?i2 0]
        by (simp add: start look lookup_pd_def Let_def leaf_base_def same_leaf_def dvd_eq_mod_eq_0 del: table_at.simps)
    next
      case nh: False
      have at3: "table_at s p [?i2, ?i3, ?i4] = link_of ?e" using t2 by simp
      show ?thesis
      proof (cases "link_of ?e")
        case None
        then show ?thesis using nh virt n3[OF t2 nh] at3
          by (simp add: start look lookup_pd_def Let_def dvd_eq_mod_eq_0 del: table_at.simps)
      next
        case (Some pt)
        with at3 have pt: "table_at s p [?i2, ?i3, ?i4] = Some pt" by simp
        note leaf = put_leaf[OF wf pt, where e = 0]
        have "tables_of (put_entry pt ?i1 0 s) p = tables_of s p" using leaf(2) by (simp add: tables_of_def cong: conj_cong)
        then show ?thesis
          using nh virt n3[OF t2 nh] pt Some leaf(1,3) put_entry_state(3,4)[OF space_wfD(1)[OF wf], of pt ?i1 0]
          by (simp add: start look lookup_pd_def lookup_pt_def Let_def leaf_base_def same_leaf_def dvd_eq_mod_eq_0
              del: table_at.simps)
      qed
    qed
  qed
qed



subsection \<open>A new user space\<close>

definition copied_upto :: "nat \<Rightarrow> nat \<Rightarrow> nat \<Rightarrow> mm_state \<Rightarrow> mm_state \<Rightarrow> bool" where
  "copied_upto n k a s s' \<longleftrightarrow> (\<forall>u j. FRAME_SIZE dvd u \<longrightarrow> j < 512 \<longrightarrow> table_entry s' u j
        = (if u = n \<and> 256 \<le> j \<and> j < a then table_entry s k j else table_entry s u j))
    \<and> mm_pmm s' = mm_pmm s \<and> mm_hhdm_offset s' = mm_hhdm_offset s
    \<and> mm_inject_failures s' = mm_inject_failures s"

lemma copied_uptoD:
  assumes "copied_upto n k a s s'"
  shows "FRAME_SIZE dvd u \<Longrightarrow> j < 512 \<Longrightarrow> table_entry s' u j
      = (if u = n \<and> 256 \<le> j \<and> j < a then table_entry s k j else table_entry s u j)"
    and "mm_pmm s' = mm_pmm s" "mm_hhdm_offset s' = mm_hhdm_offset s"
      "mm_inject_failures s' = mm_inject_failures s"
  using assms unfolding copied_upto_def by blast+

lemma copy_upper_half:
  assumes "FRAME_SIZE dvd n" "FRAME_SIZE dvd k" "n \<noteq> k" "a \<le> 512"
  shows "\<exists>s'. for_each [256..<a] (\<lambda>i st. Inr (put_entry n i (table_entry st k i) st) :: mm_state checked) s = Inr s'
    \<and> copied_upto n k a s s'"
  using assms(4)
proof (induction a)
  case (Suc a)
  then obtain s1 where s1: "for_each [256..<a] (\<lambda>i st. Inr (put_entry n i (table_entry st k i) st) :: mm_state checked) s = Inr s1"
    and c1: "copied_upto n k a s s1" by auto
  note e = copied_uptoD(1)[OF c1] and st = copied_uptoD(2-4)[OF c1]
  show ?case
  proof (cases "256 \<le> a")
    case True
    let ?s' = "put_entry n a (table_entry s1 k a) s1"
    have "table_entry ?s' u j = (if u = n \<and> 256 \<le> j \<and> j < Suc a then table_entry s k j else table_entry s u j)"
      if "FRAME_SIZE dvd u" "j < 512" for u j
    proof -
      have "table_entry ?s' u j = (if u = n \<and> j = a then table_entry s1 k a else table_entry s1 u j)"
        using Suc.prems by (intro table_entry_put[OF assms(1) that(1) _ that(2)]) simp
      moreover have "table_entry s1 k a = table_entry s k a"
        using e[OF assms(2), of a] Suc.prems assms(3) by simp
      ultimately show ?thesis using e[OF that] True by (auto simp: less_Suc_eq)
    qed
    then have "copied_upto n k (Suc a) s ?s'" using st by (simp add: copied_upto_def)
    with True s1 show ?thesis
      by (intro exI[of _ ?s']) (simp add: for_each_append)
  next
    case False
    have "table_entry s1 u j = (if u = n \<and> 256 \<le> j \<and> j < Suc a then table_entry s k j else table_entry s u j)"
      if "FRAME_SIZE dvd u" "j < 512" for u j
    proof -
      have "\<not> (256 \<le> j \<and> j < a)" "\<not> (256 \<le> j \<and> j < Suc a)" using False by auto
      with e[OF that] show ?thesis by auto
    qed
    then have "copied_upto n k (Suc a) s s1" using st by (simp add: copied_upto_def)
    with s1 False show ?thesis by simp
  qed
qed (simp add: copied_upto_def)

lemma table_at_snoc_cong:
  assumes "table_entry s' p' i = table_entry s p i"
    and "\<And>r t j. pt_path (j # r @ [i]) \<Longrightarrow> table_at s p (r @ [i]) = Some t \<Longrightarrow> table_entry s' t j = table_entry s t j"
  shows "pt_path (r @ [i]) \<Longrightarrow> table_at s' p' (r @ [i]) = table_at s p (r @ [i])"
proof (induction r)
  case (Cons j r)
  then have "table_at s' p' (r @ [i]) = table_at s p (r @ [i])" by simp
  with assms(2)[of j r] Cons.prems show ?case by (auto split: option.split)
qed (use assms(1) in simp)

lemma new_user_ok:
  assumes wf: "space_wf s k" and left: "mm_general s \<noteq> {}" "mm_inject_failures s = 0"
  obtains n s' where "new_user k s = Inr (n, s')" "space_wf s' n" "space_wf s' k"
    "\<And>v. lookup_va s' k v = lookup_va s k v"
    "\<And>v. lookup_va s' n v = (if pml4_index v < 256 then None else lookup_va s k v)"
    "n \<in> mm_avail s" "mm_avail s' = mm_avail s - {n}"
    "\<And>i. 256 \<le> i \<Longrightarrow> i < 512 \<Longrightarrow> table_entry s' n i = table_entry s' k i"
proof -
  have ok: "vm_ok s" by (rule space_wfD(1)[OF wf])
  have k: "FRAME_SIZE dvd k" using table_frame[OF wf, of "[]" k] by simp
  have klent: "k \<in> mm_lent s" using space_wfD(2)[OF wf, of "[]" k] by simp
  from ok show thesis
  proof (cases rule: alloc_frame_zeroed_cases)
    case (none s1)
    with left show thesis by simp
  next
    case (some n s1)
    have avail: "n \<in> mm_avail s" using some(4) mm_pools_avail(1) by blast
    then have man: "n \<in> mm_managed s" using mm_avail_managed[OF vm_okD(1)[OF ok]] by blast
    note n = vm_okD(2,3)[OF ok man]
    have "n \<noteq> k" using klent avail by (auto simp: mm_lent_def)
    from copy_upper_half[OF n(2) k this order_refl, of s1] obtain s' where
      s': "for_each [256..<512] (\<lambda>i st. Inr (put_entry n i (table_entry st k i) st) :: mm_state checked) s1 = Inr s'"
      and c: "copied_upto n k 512 s1 s'" by blast
    note e1 = copied_uptoD(1)[OF c] and st = copied_uptoD(2-4)[OF c]
    note z = table_entry_zeroed[OF n(2) _ _ some(7)]
    have e: "table_entry s' u j = (if u = n then (if 256 \<le> j then table_entry s k j else 0) else table_entry s u j)"
      if "FRAME_SIZE dvd u" "j < 512" for u j
      using e1[OF that] z[OF that] z[OF k that(2)] \<open>n \<noteq> k\<close> that(2) by (simp split: if_splits)
    note views = mm_views_cong[OF st(1)]
    have same: "same_hhdm s s'" using some(3) views st by (simp add: same_hhdm_def)
    have ok': "vm_ok s'"
      by (rule vm_ok_transfer[OF ok same]) (use views(1) vm_okD(1)[OF some(2)] in simp)
    have av: "mm_avail s' = mm_avail s - {n}" using views(2) some(6) by simp
    have lent: "mm_lent s' = insert n (mm_lent s)"
      using same av man avail by (auto simp: mm_lent_def same_hhdm_def)
    have n_new: "n \<notin> mm_lent s" using avail by (simp add: mm_lent_def)
    have keep: "table_entry s' t j = table_entry s t j"
      if "pt_path q" "table_at s k q = Some t" "j < 512" for q t j
    proof -
      have "t \<noteq> n" using space_wfD(2)[OF wf that(1,2)] n_new by auto
      then show ?thesis using e[OF _ that(3)] table_frame[OF wf that(1,2)] by simp
    qed
    have at_k: "table_at s' k q = table_at s k q" if "pt_path q" for q
      by (rule table_at_same[of s k k 0 s']) (use that keep in \<open>auto simp: agree_but_def\<close>)
    have hi: "table_at s' n (r @ [i]) = table_at s k (r @ [i])" if "pt_path (r @ [i])" "256 \<le> i" for r i
    proof (rule table_at_snoc_cong[OF _ _ that(1)])
      show "table_entry s' n i = table_entry s k i" using e[OF n(2), of i] that by (simp add: pt_path_def)
      show "table_entry s' t j = table_entry s t j"
        if "pt_path (j # r @ [i])" "table_at s k (r @ [i]) = Some t" for r t j
        using keep[OF _ that(2)] that(1) by simp
    qed
    have lo: "table_at s' n (r @ [i]) = None" if "i < 256" for r i
    proof (induction r)
      case Nil
      then show ?case using e[OF n(2), of i] that by simp
    qed simp
    have cases_n: "(q = [] \<and> t = n) \<or> (q \<noteq> [] \<and> table_at s k q = Some t)"
      if "pt_path q" "table_at s' n q = Some t" for q t
    proof (cases q rule: rev_exhaust)
      case (snoc r i)
      then show ?thesis using lo[of i r] hi[of r i] that by (cases "i < 256") auto
    qed (use that in simp)
    have not_n: "t \<noteq> n" if "pt_path q" "table_at s k q = Some t" for q t
      using space_wfD(2)[OF wf that] n_new by auto
    have wfk: "space_wf s' k"
      unfolding space_wf_def using ok' at_k keep lent space_wfD[OF wf] by (auto 4 4)
    have wfn: "space_wf s' n"
      unfolding space_wf_def
    proof (intro conjI allI impI)
      show "vm_ok s'" by (rule ok')
      show "t \<in> mm_lent s'" if "pt_path q" "table_at s' n q = Some t" for q t
        using cases_n[OF that] space_wfD(2)[OF wf that(1)] lent by auto
      show "q = r" if "pt_path q" "pt_path r" "table_at s' n q = Some t" "table_at s' n r = Some t" for q r t
        using cases_n[OF that(1,3)] cases_n[OF that(2,4)] space_wfD(3)[OF wf that(1,2)]
          not_n[OF that(1)] not_n[OF that(2)] by auto
      show "\<not> pte_huge (table_entry s' t i)"
        if "pt_path q" "length q \<le> 1" "table_at s' n q = Some t" "i < 512" "pte_present (table_entry s' t i)" for q t i
        using cases_n[OF that(1,3)]
      proof
        assume "q = [] \<and> t = n"
        then show ?thesis
          using e[OF n(2) that(4)] that(5) space_wfD(4)[OF wf, of "[]" k i] that(4) by (auto split: if_splits)
      next
        assume "q \<noteq> [] \<and> table_at s k q = Some t"
        then show ?thesis
          using keep[OF that(1) _ that(4)] space_wfD(4)[OF wf that(1,2) _ that(4)] that(5) by simp
      qed
      show "pte_present (table_entry s' t i)"
        if "pt_path q" "length q = 2" "table_at s' n q = Some t" "i < 512" "pte_huge (table_entry s' t i)" for q t i
        using cases_n[OF that(1,3)] keep[OF that(1) _ that(4)] space_wfD(5)[OF wf that(1,2) _ that(4)] that(2,5)
        by auto
    qed
    have pt_same: "lookup_pt s' t v = lookup_pt s t v" if "pt_path q" "table_at s k q = Some t" for q t v
      using keep[OF that] by (simp add: lookup_pt_def)
    have pd_same: "lookup_pd s' pd v = lookup_pd s pd v" if "table_at s k [pdpt_index v, pml4_index v] = Some pd" for pd v
    proof -
      have en: "table_entry s' pd (pd_index v) = table_entry s pd (pd_index v)"
        using keep[OF _ that] by simp
      have "lookup_pt s' x v = lookup_pt s x v" if "link_of (table_entry s pd (pd_index v)) = Some x" for x
        using pt_same[of "[pd_index v, pdpt_index v, pml4_index v]" x v] that
          \<open>table_at s k [pdpt_index v, pml4_index v] = Some pd\<close> by simp
      then show ?thesis by (simp add: lookup_pd_def en Let_def split: option.split)
    qed
    have look_k: "lookup_va s' k v = lookup_va s k v" for v
      using at_k[of "[pdpt_index v, pml4_index v]"] pd_same
      by (simp add: lookup_va_def split: option.split del: table_at.simps)
    have look_n: "lookup_va s' n v = (if pml4_index v < 256 then None else lookup_va s k v)" for v
      using lo[of "pml4_index v" "[pdpt_index v]"] hi[of "[pdpt_index v]" "pml4_index v"] pd_same[of v]
      by (auto simp: lookup_va_def split: option.split simp del: table_at.simps)
    have "n \<in> mm_lent s'" "k \<in> mm_lent s'" using lent klent by auto
    then have "pml4_table n s1 = Inr n" "pml4_table k s1 = Inr k"
      using vm_okD(4)[OF ok'] some(3) same st by (auto simp: pml4_table_def mm_lent_def phys_to_virt_def hhdm_offset_def)
    moreover have "k \<noteq> 0"
      using klent vm_okD(1)[OF ok]
      by (auto simp: mm_lent_def mm_managed_def frame_addrs_def grantable_def FRAME_SIZE_def elim!: mm_invE)
    ultimately have "new_user k s = Inr (n, s')"
      using some(1) s'
      by (simp add: new_user_def kernel_address_space_def ENTRIES_PER_TABLE_def del: upt_rec_numeral)
    with wfn wfk look_k look_n avail av show thesis
      using e[OF n(2)] e[OF k] \<open>n \<noteq> k\<close> by (intro that[of n s']) auto
  qed
qed



subsection \<open>Properties\<close>

lemma next_table_or_create_present:
  assumes "space_wf s p" and "pt_path (i # q)" and "table_at s p q = Some t"
    and "table_at s p (i # q) = Some t'"
  shows "next_table_or_create t i f s = Inr (t', s)"
proof -
  have e: "pte_present (table_entry s t i)" "\<not> pte_huge (table_entry s t i)"
    using assms(3,4) by (auto simp: link_of_def split: if_splits)
  then show ?thesis
    using next_table_wf[OF assms(1-3)] assms(4) by (simp add: next_table_or_create_def del: table_at.simps)
qed

lemma fresh_space:
  assumes "vm_ok s" and "alloc_frame_zeroed s = Inr (Some n, s')"
  shows "space_wf s' n" and "lookup_va s' n v = None" and "mm_general s' = mm_general s - {n}"
    and "mm_inject_failures s = 0 \<Longrightarrow> mm_inject_failures s' = 0" and "n \<in> mm_general s"
proof -
  from assms(1) have A: "vm_ok s' \<and> n \<in> mm_lent s' \<and> (\<forall>j<512. table_entry s' n j = 0)
      \<and> mm_general s' = mm_general s - {n} \<and> same_hhdm s s' \<and> n \<in> mm_general s"
  proof (cases rule: alloc_frame_zeroed_cases)
    case (some m t)
    then have [simp]: "m = n" "t = s'" using assms(2) by auto
    have "n \<in> mm_managed s"
      using some(4) mm_pools_avail(1) mm_avail_managed[OF vm_okD(1)[OF assms(1)]] by auto
    note man = this vm_okD(3)[OF assms(1) this]
    have "\<forall>j<512. table_entry s' n j = 0"
      using table_entry_zeroed[OF man(2) man(2) _ some(7)[simplified]] by simp
    then show ?thesis using some man by (auto simp: mm_lent_def same_hhdm_def)
  qed (use assms(2) in simp)
  have at: "table_at s' n q = (if q = [] then Some n else None)" if "pt_path q" for q
    using that A by (induction q) auto
  show "space_wf s' n"
    unfolding space_wf_def using A at by (auto split: if_splits)
  show "lookup_va s' n v = None"
    using at[of "[pdpt_index v, pml4_index v]"] by (simp add: lookup_va_def del: table_at.simps)
  show "mm_general s' = mm_general s - {n}" "n \<in> mm_general s"
    "mm_inject_failures s = 0 \<Longrightarrow> mm_inject_failures s' = 0"
    using A by (auto simp: same_hhdm_def)
qed

text \<open>The small map again, now with an empty address space in its first free frame.\<close>

lemma demo_space:
  obtains s where "space_wf s 1052672" "\<And>v. lookup_va s 1052672 v = None"
    "mm_general s = {1056768, 1060864, 1064960, 1069056, 1073152, 1077248}" "mm_inject_failures s = 0"
proof -
  from demo_run obtain s0 s1 s2 where r: "pmm_reachable demo_map (s0, {})"
    "alloc_frame s0 = Inr (Some 1052672, s1)" and gen: "mm_general s0 = {1052672, 1056768, 1060864, 1064960, 1069056, 1073152, 1077248}"
    and hh: "mm_hhdm_offset s0 = 18446603336221196288" "mm_inject_failures s0 = 0"
    by metis
  have inv: "mm_inv s0" by (rule reachableD(1)[OF r(1) demo_map_ok])
  have "f < 264 * FRAME_SIZE" if "f \<in> mm_managed s0" for f
  proof -
    from reachable_split[OF r(1) demo_map_ok] demo_region
    have "mm_managed s0 = frame_addrs (initial_pool demo_map \<lparr>me_base = 1048576, me_length = 32768, me_type = MEMMAP_USABLE\<rparr>)"
      by auto
    with that obtain i where i: "f = i * FRAME_SIZE"
      "i \<in> initial_pool demo_map \<lparr>me_base = 1048576, me_length = 32768, me_type = MEMMAP_USABLE\<rparr>"
      by (auto elim: frame_addrs_cases)
    from initial_pool_facts(2)[OF demo_map_ok demo_region i(2)] i(1) demo_frames(1) show ?thesis
      by (simp add: FRAME_SIZE_def)
  qed
  then have "f < 4503599627370496 \<and> f < 140737488355328" if "f \<in> mm_managed s0" for f
    using that unfolding FRAME_SIZE_def by fastforce
  then have ok: "vm_ok s0" using inv hh(1) by (simp add: vm_ok_def)
  from ok show thesis
  proof (cases rule: alloc_frame_zeroed_cases)
    case (none t)
    with gen hh show thesis by simp
  next
    case (some n t)
    have "n = 1052672" using some(1) r(2) by (auto simp: alloc_frame_zeroed_def checked_simps split: option.splits)
    with fresh_space[OF ok some(1)] gen hh(2) show thesis by (intro that[of t]) auto
  qed
qed



text \<open>
  C4. Mapping a 4 KiB page does what the caller asked and nothing else: on an aligned address that
  resolves to nothing, with three frames left for tables, \<open>map_4k\<close> returns; afterwards
  \<open>translate\<close> resolves exactly the addresses of that page to the given frame with the given flags
  (plus \<open>PRESENT\<close>), every other address resolves as before, every byte outside the page tables is
  unchanged, and the address space is still well formed.
\<close>
theorem map_4k_translates:
  assumes "space_wf s p" and "3 \<le> card (mm_general s)" and "mm_inject_failures s = 0"
    and "FRAME_SIZE dvd virt" and "FRAME_SIZE dvd phys" and "phys < 2 ^ 52"
    and "\<not> flags_contain flags FLAG_HUGE" and "translate p virt s = Inr None"
  shows "\<exists>s'. map_4k p virt phys flags s = Inr s' \<and> space_wf s' p
    \<and> (\<forall>v. translate p v s' = (if page_number v = page_number virt
         then Inr (Some (phys + v mod FRAME_SIZE, from_bits_truncate (flags OR FLAG_PRESENT), Normal))
         else translate p v s))
    \<and> (\<forall>a. \<not> in_tables s' p a \<longrightarrow> mm_ram s' a = mm_ram s a)"
proof -
  have "\<not> bit flags 7" using assms(7) by (auto simp: flags_contain_bits)
  moreover have "lookup_va s p virt = None" using assms(8) translate_lookup[OF assms(1)] by simp
  ultimately obtain s' where "map_4k p virt phys flags s = Inr s'" "space_wf s' p"
    "\<And>v. lookup_va s' p v = (if page_number v = page_number virt
        then Some (phys + v mod FRAME_SIZE, from_bits_truncate (flags OR FLAG_PRESENT), Normal)
        else lookup_va s p v)"
    "\<And>a. \<not> in_tables s' p a \<Longrightarrow> mm_ram s' a = mm_ram s a"
    using map_4k_ok[OF assms(1-6)] by metis
  then show ?thesis using translate_lookup[OF assms(1)] translate_lookup[of s' p] by simp
qed

lemma map_4k_translates_witness:
  "\<exists>s s'. map_4k 1052672 4194304 8192 FLAG_USER s = Inr s'
     \<and> translate 1052672 4194304 s = Inr None
     \<and> translate 1052672 4194400 s' = Inr (Some (8288, from_bits_truncate (FLAG_USER OR FLAG_PRESENT), Normal))
     \<and> translate 1052672 4198400 s' = Inr None"
proof (rule demo_space)
  fix s
  assume s: "space_wf s 1052672" "\<And>v. lookup_va s 1052672 v = None"
    "mm_general s = {1056768, 1060864, 1064960, 1069056, 1073152, 1077248}" "mm_inject_failures s = 0"
  have none: "translate 1052672 v s = Inr None" for v using translate_lookup[OF s(1)] s(2) by simp
  have "\<not> flags_contain FLAG_USER FLAG_HUGE" by (auto simp: flags_contain_bits)
  moreover have "3 \<le> card (mm_general s)" by (simp add: s(3))
  moreover have "FRAME_SIZE dvd 4194304" "FRAME_SIZE dvd 8192" "(8192 :: nat) < 2 ^ 52" by (simp_all add: FRAME_SIZE_def)
  ultimately obtain s' where s': "map_4k 1052672 4194304 8192 FLAG_USER s = Inr s'"
    "\<forall>v. translate 1052672 v s' = (if page_number v = page_number 4194304
       then Inr (Some (8192 + v mod FRAME_SIZE, from_bits_truncate (FLAG_USER OR FLAG_PRESENT), Normal))
       else translate 1052672 v s)"
    using map_4k_translates[OF s(1) _ s(4), of 4194304 8192 FLAG_USER] none by blast
  from s'(2)[rule_format, of 4194400] s'(2)[rule_format, of 4198400] s'(1) none show ?thesis
    by (intro exI[of _ s] exI[of _ s']) (simp add: page_number_def FRAME_SIZE_def)
qed

text \<open>
  No page is ever remapped silently: \<open>map_4k\<close> on an aligned address that already resolves,
  through a 4 KiB or a 2 MiB page, panics, whatever the frame and the flags.
\<close>
theorem map_4k_never_remaps:
  assumes "space_wf s p" and "FRAME_SIZE dvd virt" and "FRAME_SIZE dvd phys"
    and "translate p virt s = Inr (Some m)"
  shows "map_4k p virt phys flags s = Inl (Assert_failed
    (if snd (snd m) = Huge then ''vmm::map_4k: falls inside an existing 2 MiB mapping''
     else ''vmm::map_4k: already mapped''))"
proof -
  let ?i4 = "pml4_index virt" and ?i3 = "pdpt_index virt" and ?i2 = "pd_index virt" and ?i1 = "pt_index virt"
  note wf = assms(1)
  have look: "lookup_va s p virt = Some m" using assms(4) translate_lookup[OF wf] by simp
  then obtain pd where pd: "table_at s p [?i3, ?i4] = Some pd" and lpd: "lookup_pd s pd virt = Some m"
    by (auto simp: lookup_va_def simp del: table_at.simps split: option.splits)
  then obtain pdpt where pdpt: "table_at s p [?i4] = Some pdpt"
    by (cases "table_at s p [?i4]") (simp_all del: table_at.simps add: table_at.simps(2)[of s p ?i3])
  have w1: "next_table_or_create p ?i4 f s = Inr (pdpt, s)" for f
    by (rule next_table_or_create_present[OF wf _ _ pdpt]) simp_all
  have w2: "next_table_or_create pdpt ?i3 f s = Inr (pd, s)" for f
    by (rule next_table_or_create_present[OF wf _ pdpt pd]) simp
  show ?thesis
  proof (cases "pte_huge (table_entry s pd ?i2)")
    case True
    with lpd have "snd (snd m) = Huge" by (auto simp: lookup_pd_def Let_def split: if_splits)
    with True show ?thesis
      using assms(2,3) w1 w2 by (simp add: map_4k_def pml4_table_wf[OF wf] dvd_eq_mod_eq_0)
  next
    case False
    with lpd obtain pt where pt: "link_of (table_entry s pd ?i2) = Some pt" and lpt: "lookup_pt s pt virt = Some m"
      by (auto simp: lookup_pd_def Let_def split: option.splits)
    have at: "table_at s p [?i2, ?i3, ?i4] = Some pt" using pd pt by simp
    have w3: "next_table_or_create pd ?i2 f s = Inr (pt, s)" for f
      by (rule next_table_or_create_present[OF wf _ pd at]) simp
    have "pte_present (table_entry s pt ?i1)" "snd (snd m) \<noteq> Huge"
      using lpt by (auto simp: lookup_pt_def Let_def split: if_splits)
    with False show ?thesis
      using assms(2,3) w1 w2 w3 by (simp add: map_4k_def pml4_table_wf[OF wf] dvd_eq_mod_eq_0)
  qed
qed

lemma map_4k_never_remaps_witness:
  "\<exists>s. map_4k 1052672 4194304 12288 FLAG_USER s = Inl (Assert_failed ''vmm::map_4k: already mapped'')"
proof (rule demo_space)
  fix s
  assume s: "space_wf s 1052672" "\<And>v. lookup_va s 1052672 v = None"
    "mm_general s = {1056768, 1060864, 1064960, 1069056, 1073152, 1077248}" "mm_inject_failures s = 0"
  have f: "\<not> bit FLAG_USER 7" "FRAME_SIZE dvd 4194304" "FRAME_SIZE dvd 8192" "FRAME_SIZE dvd 12288"
    "(8192 :: nat) < 2 ^ 52" "3 \<le> card (mm_general s)" by (simp_all add: FRAME_SIZE_def s(3))
  obtain s' where wf: "space_wf s' 1052672" and look: "lookup_va s' 1052672 4194304
      = Some (8192 + 4194304 mod FRAME_SIZE, from_bits_truncate (FLAG_USER OR FLAG_PRESENT), Normal)"
    using map_4k_ok[OF s(1) f(6) s(4) f(2,3,5,1) s(2)] by metis
  from map_4k_never_remaps[OF wf f(2,4), of "(8192 + 4194304 mod FRAME_SIZE, from_bits_truncate (FLAG_USER OR FLAG_PRESENT), Normal)" FLAG_USER]
  show ?thesis using translate_lookup[OF wf, of 4194304] look by auto
qed

text \<open>
  \<open>unmap\<close> undoes a mapping: it never panics on an aligned address; where nothing is mapped it
  returns \<open>None\<close> and changes nothing; otherwise it returns the base of the frame (4 KiB or 2 MiB)
  the page was mapped to, afterwards exactly the addresses of that page resolve to nothing, and no
  frame is freed.
\<close>
theorem unmap_translates:
  assumes "space_wf s p" and "FRAME_SIZE dvd virt"
  shows "case translate p virt s of
      Inr None \<Rightarrow> unmap p virt s = Inr (None, s)
    | Inr (Some (phys, fl, sz)) \<Rightarrow> \<exists>s'. unmap p virt s = Inr (Some (leaf_base (phys, fl, sz) virt), s')
        \<and> space_wf s' p \<and> mm_avail s' = mm_avail s
        \<and> (\<forall>v. translate p v s' = (if same_leaf sz v virt then Inr None else translate p v s))
    | Inl _ \<Rightarrow> False"
proof (cases "lookup_va s p virt")
  case None
  then show ?thesis using unmap_ok[OF assms] translate_lookup[OF assms(1)] by simp
next
  case (Some m)
  obtain phys fl sz where m: "m = (phys, fl, sz)" by (cases m)
  with unmap_ok[OF assms] Some obtain s' where
    "unmap p virt s = Inr (Some (leaf_base (phys, fl, sz) virt), s')" "space_wf s' p"
    "\<forall>v. lookup_va s' p v = (if same_leaf sz v virt then None else lookup_va s p v)" "mm_avail s' = mm_avail s"
    by auto
  then show ?thesis using Some m translate_lookup[OF assms(1)] translate_lookup[of s' p]
    by auto
qed

lemma unmap_translates_witness:
  "\<exists>s s'. unmap 1052672 4194304 s = Inr (Some 8192, s') \<and> translate 1052672 4194304 s' = Inr None"
proof (rule demo_space)
  fix s
  assume s: "space_wf s 1052672" "\<And>v. lookup_va s 1052672 v = None"
    "mm_general s = {1056768, 1060864, 1064960, 1069056, 1073152, 1077248}" "mm_inject_failures s = 0"
  have f: "\<not> bit FLAG_USER 7" "FRAME_SIZE dvd 4194304" "FRAME_SIZE dvd 8192"
    "(8192 :: nat) < 2 ^ 52" "3 \<le> card (mm_general s)" by (simp_all add: FRAME_SIZE_def s(3))
  obtain t where wf: "space_wf t 1052672" and look: "lookup_va t 1052672 4194304
      = Some (8192 + 4194304 mod FRAME_SIZE, from_bits_truncate (FLAG_USER OR FLAG_PRESENT), Normal)"
    using map_4k_ok[OF s(1) f(5) s(4) f(2,3,4,1) s(2)] by metis
  have "translate 1052672 4194304 t = Inr (Some (8192, from_bits_truncate (FLAG_USER OR FLAG_PRESENT), Normal))"
    using translate_lookup[OF wf] look by (simp add: FRAME_SIZE_def)
  with unmap_translates[OF wf f(2)] obtain s' where
    "unmap 1052672 4194304 t = Inr (Some (leaf_base (8192, from_bits_truncate (FLAG_USER OR FLAG_PRESENT), Normal) 4194304), s')"
    "\<forall>v. translate 1052672 v s' = (if same_leaf Normal v 4194304 then Inr None else translate 1052672 v t)"
    by auto
  then show ?thesis
    by (intro exI[of _ t] exI[of _ s']) (simp add: leaf_base_def FRAME_SIZE_def same_leaf_def)
qed

text \<open>
  A new user space shares the kernel and nothing else: with a frame left, \<open>new_user\<close> returns a
  well-formed space whose PML4 is a frame nobody owned, in which every address of the upper half
  resolves as in the kernel's space, by the very same PML4 entries, and every address of the user
  half to nothing; the kernel's own space is unchanged.
\<close>
theorem new_user_shares_kernel_half:
  assumes "space_wf s k" and "mm_general s \<noteq> {}" and "mm_inject_failures s = 0"
  shows "\<exists>n s'. new_user k s = Inr (n, s') \<and> space_wf s' n \<and> space_wf s' k \<and> n \<in> mm_avail s
    \<and> (\<forall>v. translate k v s' = translate k v s)
    \<and> (\<forall>v. translate n v s' = (if pml4_index v < 256 then Inr None else translate k v s))
    \<and> (\<forall>i. 256 \<le> i \<and> i < 512 \<longrightarrow> table_entry s' n i = table_entry s' k i)"
proof -
  from new_user_ok[OF assms] obtain n s' where r: "new_user k s = Inr (n, s')"
    "space_wf s' n" "space_wf s' k" "\<And>v. lookup_va s' k v = lookup_va s k v"
    "\<And>v. lookup_va s' n v = (if pml4_index v < 256 then None else lookup_va s k v)"
    "n \<in> mm_avail s" "\<And>i. 256 \<le> i \<Longrightarrow> i < 512 \<Longrightarrow> table_entry s' n i = table_entry s' k i"
    by metis
  show ?thesis
    by (intro exI[of _ n] exI[of _ s'])
      (use r translate_lookup[OF assms(1)] translate_lookup[OF r(2)] translate_lookup[OF r(3)] in simp)
qed

lemma new_user_shares_kernel_half_witness:
  "\<exists>s n s'. new_user 1052672 s = Inr (n, s') \<and> n \<noteq> 1052672 \<and> translate n 4194304 s' = Inr None"
proof (rule demo_space)
  fix s
  assume s: "space_wf s 1052672" "\<And>v. lookup_va s 1052672 v = None"
    "mm_general s = {1056768, 1060864, 1064960, 1069056, 1073152, 1077248}" "mm_inject_failures s = 0"
  then have "mm_general s \<noteq> {}" by simp
  from new_user_shares_kernel_half[OF s(1) this s(4)] obtain n s' where
    r: "new_user 1052672 s = Inr (n, s')" "n \<in> mm_avail s"
    "\<forall>v. translate n v s' = (if pml4_index v < 256 then Inr None else translate 1052672 v s)" by blast
  have "(1052672 :: nat) \<notin> mm_avail s" using space_wfD(2)[OF s(1), of "[]"] by (simp add: mm_lent_def)
  with r show ?thesis
    by (intro exI[of _ s] exI[of _ n] exI[of _ s']) (auto simp: pml4_index_def)
qed


end
