(* ===== verification/Elf.thy ===== *)
theory Elf
  imports Vmm
begin

text \<open>
  \<open>kernel/src/proc/elf.rs\<close>: the ELF64 loader.  A file is a list of bytes nobody has checked;
  every rejection is a value of \<open>elf_error\<close>, and \<open>load\<close> maps the segments of an accepted file
  into the address space of \<open>Vmm\<close>, frame by frame.
\<close>

subsection \<open>Constants and types\<close>

definition ELFCLASS64 :: u8 where "ELFCLASS64 = 2"
definition ELFDATA2LSB :: u8 where "ELFDATA2LSB = 1"
definition EV_CURRENT :: u8 where "EV_CURRENT = 1"
definition ET_EXEC :: nat where "ET_EXEC = 2"
definition EM_X86_64 :: nat where "EM_X86_64 = 0x3e"
definition PT_LOAD :: nat where "PT_LOAD = 1"
definition PT_DYNAMIC :: nat where "PT_DYNAMIC = 2"
definition PT_INTERP :: nat where "PT_INTERP = 3"
definition PT_TLS :: nat where "PT_TLS = 7"
definition PF_X :: nat where "PF_X = 1"
definition PF_W :: nat where "PF_W = 2"
definition EHDR_SIZE :: nat where "EHDR_SIZE = 64"
definition PHDR_SIZE :: nat where "PHDR_SIZE = 56"
definition SEGMENT_LOW :: nat where "SEGMENT_LOW = 0x400000"
definition SEGMENT_HIGH :: nat where "SEGMENT_HIGH = 0x700000000000"

datatype elf_error = TooShort | BadMagic | WrongClass | WrongEndian | WrongVersion | WrongMachine
  | WrongType | TruncatedProgramHeaders | SegmentOutOfRange | SegmentOverlap | WriteAndExecute
  | FilesizeExceedsMemsize | UnsupportedInterp | UnsupportedDynamic | UnsupportedTls
  | EntryNotExecutable | OutOfMemory

record program_header =
  p_type :: nat
  p_flags :: nat
  p_offset :: nat
  p_vaddr :: nat
  p_filesz :: nat
  p_memsz :: nat
  page_start :: nat
  page_end :: nat

type_synonym 'a elf_result = "(elf_error + 'a) checked"

subsection \<open>Reading the file\<close>

definition uint_at :: "nat \<Rightarrow> u8 list \<Rightarrow> nat \<Rightarrow> nat option checked" where
  "uint_at n data off =
     and_then (uadd off n) (\<lambda>limit. Inr (map_option le_bytes (get_range data off limit)))"

definition u16_at :: "u8 list \<Rightarrow> nat \<Rightarrow> nat option checked" where "u16_at = uint_at 2"
definition u32_at :: "u8 list \<Rightarrow> nat \<Rightarrow> nat option checked" where "u32_at = uint_at 4"
definition u64_at :: "u8 list \<Rightarrow> nat \<Rightarrow> nat option checked" where "u64_at = uint_at 8"

definition or_err :: "'a option checked \<Rightarrow> elf_error \<Rightarrow> 'a elf_result" where
  "or_err m e = and_then m (\<lambda>r. Inr (ok_or r e))"

definition read_phdr :: "u8 list \<Rightarrow> nat \<Rightarrow> program_header elf_result" where
  "read_phdr data off =
     (let get_u32 = \<lambda>k. and_then (uadd off k) (\<lambda>a. or_err (u32_at data a) TruncatedProgramHeaders);
          get_u64 = \<lambda>k. and_then (uadd off k) (\<lambda>a. or_err (u64_at data a) TruncatedProgramHeaders) in
      try_then (get_u64 16) (\<lambda>vaddr.
      try_then (get_u64 40) (\<lambda>memsz.
      try_then (Inr (ok_or (checked_add vaddr memsz) SegmentOutOfRange)) (\<lambda>seg_end.
      try_then (Inr (ok_or (checked_next_multiple_of seg_end FRAME_SIZE) SegmentOutOfRange)) (\<lambda>pend.
      try_then (get_u32 0) (\<lambda>ty.
      try_then (get_u32 4) (\<lambda>flags.
      try_then (get_u64 8) (\<lambda>offset.
      try_then (get_u64 32) (\<lambda>filesz.
        Inr (Inr \<lparr>p_type = ty, p_flags = flags, p_offset = offset, p_vaddr = vaddr,
          p_filesz = filesz, p_memsz = memsz,
          page_start = vaddr div FRAME_SIZE * FRAME_SIZE, page_end = pend\<rparr>))))))))))"

definition validate_header :: "u8 list \<Rightarrow> unit elf_result" where
  "validate_header data =
     (if length data < EHDR_SIZE then Inr (Inl TooShort)
      else if take 4 data \<noteq> [0x7f, 0x45, 0x4c, 0x46] then Inr (Inl BadMagic)
      else if data ! 4 \<noteq> ELFCLASS64 then Inr (Inl WrongClass)
      else if data ! 5 \<noteq> ELFDATA2LSB then Inr (Inl WrongEndian)
      else if data ! 6 \<noteq> EV_CURRENT then Inr (Inl WrongVersion)
      else try_then (or_err (u16_at data 16) TooShort) (\<lambda>ty.
        if ty \<noteq> ET_EXEC then Inr (Inl WrongType)
        else try_then (or_err (u16_at data 18) TooShort) (\<lambda>machine.
          if machine \<noteq> EM_X86_64 then Inr (Inl WrongMachine) else Inr (Inr ()))))"

definition validate_segment :: "u8 list \<Rightarrow> program_header \<Rightarrow> elf_error + unit" where
  "validate_segment data ph =
     (if p_filesz ph > p_memsz ph then Inl FilesizeExceedsMemsize
      else if p_flags ph AND PF_W \<noteq> 0 \<and> p_flags ph AND PF_X \<noteq> 0 then Inl WriteAndExecute
      else and_then (ok_or (checked_add (p_vaddr ph) (p_memsz ph)) SegmentOutOfRange) (\<lambda>seg_end.
        if p_vaddr ph < SEGMENT_LOW \<or> seg_end > SEGMENT_HIGH then Inl SegmentOutOfRange
        else and_then (ok_or (checked_add (p_offset ph) (p_filesz ph)) SegmentOutOfRange) (\<lambda>file_end.
          if file_end > length data then Inl SegmentOutOfRange else Inr ())))"

subsection \<open>The passes of \<open>load\<close>\<close>

text \<open>The loop that reads the program headers.\<close>

fun read_headers :: "u8 list \<Rightarrow> nat \<Rightarrow> nat \<Rightarrow> nat list \<Rightarrow> program_header list elf_result" where
  "read_headers data phoff phentsize [] = Inr (Inr [])"
| "read_headers data phoff phentsize (i # is) =
     and_then (umul i phentsize) (\<lambda>step.
     try_then (Inr (ok_or (checked_add phoff step) TruncatedProgramHeaders)) (\<lambda>off.
     try_then (Inr (ok_or (checked_add off PHDR_SIZE) TruncatedProgramHeaders)) (\<lambda>limit.
       if limit > length data then Inr (Inl TruncatedProgramHeaders)
       else try_then (read_phdr data off) (\<lambda>ph.
         try_then (read_headers data phoff phentsize is) (\<lambda>phs. Inr (Inr (ph # phs)))))))"

fun select_loads :: "program_header list \<Rightarrow> elf_error + program_header list" where
  "select_loads [] = Inr []"
| "select_loads (ph # phs) =
     (if p_type ph = PT_INTERP then Inl UnsupportedInterp
      else if p_type ph = PT_DYNAMIC then Inl UnsupportedDynamic
      else if p_type ph = PT_TLS then Inl UnsupportedTls
      else if p_type ph = PT_LOAD then and_then (select_loads phs) (\<lambda>r. Inr (ph # r))
      else select_loads phs)"

definition pages_overlap :: "program_header \<Rightarrow> program_header \<Rightarrow> bool" where
  "pages_overlap a b \<longleftrightarrow> page_start a < page_end b \<and> page_start b < page_end a"

fun check_overlaps :: "program_header list \<Rightarrow> elf_error + unit" where
  "check_overlaps [] = Inr ()"
| "check_overlaps (a # rest) =
     (if list_ex (pages_overlap a) rest then Inl SegmentOverlap else check_overlaps rest)"

definition entry_in :: "nat \<Rightarrow> program_header \<Rightarrow> bool" where
  "entry_in entry ph \<longleftrightarrow> p_flags ph AND PF_X \<noteq> 0 \<and> p_vaddr ph \<le> entry
     \<and> entry < saturating_add (p_vaddr ph) (p_memsz ph)"

text \<open>Everything \<open>load\<close> does before the first \<open>map_4k\<close>: the entry point and the segments to map.\<close>

definition parse_image :: "u8 list \<Rightarrow> (nat \<times> program_header list) elf_result" where
  "parse_image data =
     try_then (validate_header data) (\<lambda>_.
     try_then (or_err (u64_at data 24) TooShort) (\<lambda>entry.
     try_then (or_err (u64_at data 32) TooShort) (\<lambda>phoff.
     try_then (or_err (u16_at data 54) TooShort) (\<lambda>phentsize.
     try_then (or_err (u16_at data 56) TooShort) (\<lambda>phnum.
     if phentsize < PHDR_SIZE then Inr (Inl TruncatedProgramHeaders)
     else
     try_then (Inr (ok_or (checked_mul phnum phentsize) TruncatedProgramHeaders)) (\<lambda>table_len.
     try_then (Inr (ok_or (checked_add phoff table_len) TruncatedProgramHeaders)) (\<lambda>table_end.
     if table_end > length data then Inr (Inl TruncatedProgramHeaders)
     else
     try_then (read_headers data phoff phentsize [0..<phnum]) (\<lambda>headers.
     try_then (Inr (select_loads headers)) (\<lambda>loads.
     try_then (Inr (for_each loads (\<lambda>ph _. validate_segment data ph) ())) (\<lambda>_.
     try_then (Inr (check_overlaps loads)) (\<lambda>_.
     if \<not> list_ex (entry_in entry) loads then Inr (Inl EntryNotExecutable)
     else Inr (Inr (entry, loads)))))))))))))"

subsection \<open>Mapping\<close>

definition segment_flags :: "program_header \<Rightarrow> page_flags" where
  "segment_flags ph =
     (let f = FLAG_USER;
          f = (if p_flags ph AND PF_W \<noteq> 0 then f OR FLAG_WRITABLE else f) in
      if p_flags ph AND PF_X = 0 then f OR FLAG_NO_EXECUTE else f)"

definition copy_bytes :: "nat \<Rightarrow> u8 list \<Rightarrow> mm_state \<Rightarrow> mm_state" where
  "copy_bytes dst bs s =
     s\<lparr>mm_ram := (\<lambda>a. if dst \<le> a \<and> a < dst + length bs then bs ! (a - dst) else mm_ram s a)\<rparr>"

text \<open>\<open>data[i..j]\<close>, which panics out of range, and the copy of one page's file bytes.\<close>

definition slice :: "'a list \<Rightarrow> nat \<Rightarrow> nat \<Rightarrow> 'a list checked" where
  "slice xs i j = (case get_range xs i j of None \<Rightarrow> Inl Index_bounds | Some ys \<Rightarrow> Inr ys)"

definition fill_page :: "u8 list \<Rightarrow> program_header \<Rightarrow> nat \<Rightarrow> nat \<Rightarrow> mm_state \<Rightarrow> mm_state checked" where
  "fill_page data ph page frame s =
     and_then (phys_to_virt s frame) (\<lambda>virt.
     and_then (uadd page FRAME_SIZE) (\<lambda>next_page.
     and_then (uadd (p_vaddr ph) (p_filesz ph)) (\<lambda>file_limit.
     let file_start = max page (p_vaddr ph); file_end = min next_page file_limit in
     if file_end > file_start then
       and_then (usub file_start (p_vaddr ph)) (\<lambda>rel.
       and_then (uadd rel (p_offset ph)) (\<lambda>src_off.
       let dst_off = file_start - page; len = file_end - file_start in
       and_then (uadd src_off len) (\<lambda>src_end.
       and_then (slice data src_off src_end) (\<lambda>bs.
         Inr (copy_bytes (frame + dst_off) bs s)))))
     else Inr s)))"

function map_segment_loop ::
    "nat \<Rightarrow> u8 list \<Rightarrow> program_header \<Rightarrow> nat \<Rightarrow> mm_state \<Rightarrow> ((elf_error + unit) \<times> mm_state) checked" where
  "map_segment_loop p data ph page s =
     (if page < page_end ph then
        and_then (alloc_frame_zeroed s) (\<lambda>(r, s1).
          case r of
            None \<Rightarrow> Inr (Inl OutOfMemory, s1)
          | Some frame \<Rightarrow>
              and_then (fill_page data ph page frame s1) (\<lambda>s2.
              and_then (map_4k p page frame (segment_flags ph) s2) (\<lambda>s3.
                map_segment_loop p data ph (page + FRAME_SIZE) s3)))
      else Inr (Inr (), s))"
  by auto
termination
  by (relation "measure (\<lambda>(p, data, ph, page, s). page_end ph - page)") (auto simp: FRAME_SIZE_def)

declare map_segment_loop.simps [simp del]

definition map_segment ::
    "nat \<Rightarrow> u8 list \<Rightarrow> program_header \<Rightarrow> mm_state \<Rightarrow> ((elf_error + unit) \<times> mm_state) checked" where
  "map_segment p data ph s = map_segment_loop p data ph (page_start ph) s"

fun map_segments ::
    "nat \<Rightarrow> u8 list \<Rightarrow> program_header list \<Rightarrow> mm_state \<Rightarrow> ((elf_error + unit) \<times> mm_state) checked" where
  "map_segments p data [] s = Inr (Inr (), s)"
| "map_segments p data (ph # phs) s =
     and_then (map_segment p data ph s) (\<lambda>(r, s').
       case r of Inl e \<Rightarrow> Inr (Inl e, s') | Inr _ \<Rightarrow> map_segments p data phs s')"

definition load :: "nat \<Rightarrow> u8 list \<Rightarrow> mm_state \<Rightarrow> ((elf_error + nat) \<times> mm_state) checked" where
  "load p data s =
     and_then (parse_image data) (\<lambda>r.
       case r of
         Inl e \<Rightarrow> Inr (Inl e, s)
       | Inr (entry, loads) \<Rightarrow>
           and_then (map_segments p data loads s) (\<lambda>(r', s').
             case r' of Inl e \<Rightarrow> Inr (Inl e, s') | Inr _ \<Rightarrow> Inr (Inr entry, s')))"


subsection \<open>Parsing never panics\<close>

text \<open>No slice the loader is given is longer than \<open>isize::MAX\<close>.\<close>

definition file_ok :: "u8 list \<Rightarrow> bool" where
  "file_ok data \<longleftrightarrow> length data < 2 ^ 63"

lemma returns_or_err: "returns m \<Longrightarrow> returns (or_err m e)"
  unfolding or_err_def by (rule returns_and_then) simp_all

lemma uint_at_returns: "off + n < u64_limit \<Longrightarrow> returns (uint_at n data off)"
  by (simp add: uint_at_def)

lemma or_err_uint [simp]:
  "off + n < u64_limit \<Longrightarrow> or_err (uint_at n data off) e
     = Inr (ok_or (map_option le_bytes (get_range data off (off + n))) e)"
  by (simp add: or_err_def uint_at_def)

lemma le_bytes_range: "map_option le_bytes (get_range data off (off + n)) = Some v \<Longrightarrow> v < 256 ^ n"
  using le_bytes_bound[of "take n (drop off data)"]
  by (auto simp: get_range_def split: if_splits)

lemma returns_pure_or: "returns (Inr (ok_or m e) :: 'a elf_result)"
  by simp

lemma read_phdr_returns:
  assumes "off + PHDR_SIZE \<le> length data" and "file_ok data"
  shows "returns (read_phdr data off)"
proof -
  have b: "off + 56 < u64_limit" using assms by (simp add: PHDR_SIZE_def file_ok_def)
  show ?thesis
    unfolding read_phdr_def Let_def u32_at_def u64_at_def
    using b by (intro returns_try_then) simp_all
qed

lemma read_headers_returns:
  assumes "file_ok data" and "\<forall>i\<in>set is. i < 65536" and "phentsize < 65536"
  shows "returns (read_headers data phoff phentsize is)"
  using assms(2)
proof (induction "is")
  case (Cons i "is")
  have "i * phentsize < 65536 * 65536"
    using Cons.prems assms(3) by (intro mult_strict_mono) auto
  then have "umul i phentsize = Inr (i * phentsize)" by (simp add: umul_def)
  with Cons show ?case
    by (auto intro!: returns_try_then read_phdr_returns[OF _ assms(1)]
        simp: checked_simps)
qed simp

lemma validate_header_returns: "returns (validate_header data)"
  unfolding validate_header_def u16_at_def by (auto intro!: returns_try_then)

lemma parse_image_returns:
  assumes "file_ok data"
  shows "returns (parse_image data)"
proof -
  have r: "returns (read_headers data phoff phentsize [0..<phnum])"
    if "ok_or (map_option le_bytes (get_range data 54 56)) TooShort = Inr phentsize"
       "ok_or (map_option le_bytes (get_range data 56 58)) TooShort = Inr phnum" for phoff phentsize phnum
  proof -
    have "phentsize < 65536" "phnum < 65536"
      using that le_bytes_range[of data 54 2 phentsize] le_bytes_range[of data 56 2 phnum]
      by (simp_all add: checked_simps)
    then show ?thesis by (intro read_headers_returns[OF assms]) auto
  qed
  show ?thesis
    unfolding parse_image_def u16_at_def u64_at_def
    by (auto intro!: returns_try_then validate_header_returns r)
qed

subsection \<open>What an accepted file guarantees\<close>

definition segment_ok :: "u8 list \<Rightarrow> program_header \<Rightarrow> bool" where
  "segment_ok data ph \<longleftrightarrow> p_filesz ph \<le> p_memsz ph
     \<and> \<not> (p_flags ph AND PF_W \<noteq> 0 \<and> p_flags ph AND PF_X \<noteq> 0)
     \<and> SEGMENT_LOW \<le> p_vaddr ph \<and> p_vaddr ph + p_memsz ph \<le> SEGMENT_HIGH
     \<and> p_offset ph + p_filesz ph \<le> length data
     \<and> page_start ph = p_vaddr ph div FRAME_SIZE * FRAME_SIZE
     \<and> page_end ph = div_ceil (p_vaddr ph + p_memsz ph) FRAME_SIZE * FRAME_SIZE"

definition image_ok :: "u8 list \<Rightarrow> nat \<Rightarrow> program_header list \<Rightarrow> bool" where
  "image_ok data entry loads \<longleftrightarrow> (\<forall>ph\<in>set loads. segment_ok data ph)
     \<and> (\<forall>i<length loads. \<forall>j<i. \<not> pages_overlap (loads ! j) (loads ! i))
     \<and> (\<exists>ph\<in>set loads. p_flags ph AND PF_X \<noteq> 0 \<and> p_vaddr ph \<le> entry \<and> entry < p_vaddr ph + p_memsz ph)"

lemma read_phdr_pages:
  "read_phdr data off = Inr (Inr ph) \<Longrightarrow> page_start ph = p_vaddr ph div FRAME_SIZE * FRAME_SIZE
     \<and> page_end ph = div_ceil (p_vaddr ph + p_memsz ph) FRAME_SIZE * FRAME_SIZE"
  by (auto simp: read_phdr_def Let_def checked_simps checked_next_multiple_of_def split: if_splits)

lemma read_headers_pages:
  "read_headers data phoff phentsize is = Inr (Inr phs) \<Longrightarrow> ph \<in> set phs
    \<Longrightarrow> page_start ph = p_vaddr ph div FRAME_SIZE * FRAME_SIZE
     \<and> page_end ph = div_ceil (p_vaddr ph + p_memsz ph) FRAME_SIZE * FRAME_SIZE"
  by (induction "is" arbitrary: phs) (auto simp: checked_simps read_phdr_pages split: if_splits)

lemma select_loads_sub: "select_loads phs = Inr r \<Longrightarrow> set r \<subseteq> set phs \<and> (\<forall>ph\<in>set r. p_type ph = PT_LOAD)"
  by (induction phs arbitrary: r) (auto simp: checked_simps split: if_splits)

lemma for_each_unit:
  "for_each xs (\<lambda>x _. f x) () = Inr () \<longleftrightarrow> (\<forall>x\<in>set xs. f x = Inr ())"
  by (induction xs) (auto simp: checked_simps)

lemma check_overlaps_iff:
  "check_overlaps xs = Inr () \<longleftrightarrow> (\<forall>i<length xs. \<forall>j<i. \<not> pages_overlap (xs ! j) (xs ! i))"
proof (induction xs)
  case (Cons a xs)
  have "(\<forall>i<length (a # xs). \<forall>j<i. \<not> pages_overlap ((a # xs) ! j) ((a # xs) ! i))
      \<longleftrightarrow> (\<forall>i<length xs. \<not> pages_overlap a (xs ! i)) \<and> (\<forall>i<length xs. \<forall>j<i. \<not> pages_overlap (xs ! j) (xs ! i))"
    by (auto simp: All_less_Suc2)
  then show ?case using Cons by (auto simp: list_ex_length)
qed simp

lemma validate_segment_ok:
  "validate_segment data ph = Inr () \<Longrightarrow> p_filesz ph \<le> p_memsz ph
     \<and> \<not> (p_flags ph AND PF_W \<noteq> 0 \<and> p_flags ph AND PF_X \<noteq> 0)
     \<and> SEGMENT_LOW \<le> p_vaddr ph \<and> p_vaddr ph + p_memsz ph \<le> SEGMENT_HIGH
     \<and> p_offset ph + p_filesz ph \<le> length data"
  by (auto simp: validate_segment_def checked_simps split: if_splits)

lemma parse_image_ok:
  assumes "parse_image data = Inr (Inr (entry, loads))"
  shows "image_ok data entry loads"
proof -
  from assms obtain phoff phentsize phnum headers where
    h: "read_headers data phoff phentsize [0..<phnum] = Inr (Inr headers)"
    and l: "select_loads headers = Inr loads"
    and v: "for_each loads (\<lambda>ph _. validate_segment data ph) () = Inr ()"
    and o: "check_overlaps loads = Inr ()"
    and e: "list_ex (entry_in entry) loads"
    by (auto simp: parse_image_def checked_simps split: if_splits)
  have seg: "segment_ok data ph" if "ph \<in> set loads" for ph
    using validate_segment_ok[of data ph] v that read_headers_pages[OF h, of ph] select_loads_sub[OF l]
    by (auto simp: for_each_unit segment_ok_def)
  from e obtain ph where ph: "ph \<in> set loads" "entry_in entry ph" by (auto simp: list_ex_iff)
  have "p_vaddr ph + p_memsz ph \<le> SEGMENT_HIGH" using seg[OF ph(1)] by (simp add: segment_ok_def)
  then have "saturating_add (p_vaddr ph) (p_memsz ph) = p_vaddr ph + p_memsz ph"
    by (simp add: saturating_add_def SEGMENT_HIGH_def)
  with ph o seg show ?thesis by (auto simp: image_ok_def check_overlaps_iff entry_in_def)
qed



subsection \<open>Loading one page\<close>

text \<open>The byte the program must find at address \<open>v\<close> of a segment: the file's, or zero.\<close>

definition segment_byte :: "u8 list \<Rightarrow> program_header \<Rightarrow> nat \<Rightarrow> u8" where
  "segment_byte data ph v =
     (if p_vaddr ph \<le> v \<and> v < p_vaddr ph + p_filesz ph then data ! (p_offset ph + (v - p_vaddr ph)) else 0)"

lemma segment_okD:
  assumes "segment_ok data ph" and "file_ok data"
  shows "p_offset ph + p_filesz ph \<le> length data" "p_vaddr ph + p_filesz ph < u64_limit"
    "page_end ph \<le> SEGMENT_HIGH" "SEGMENT_LOW \<le> page_start ph" "FRAME_SIZE dvd page_start ph"
    "FRAME_SIZE dvd page_end ph" "p_offset ph + p_filesz ph < u64_limit"
proof -
  note d = assms(1)[unfolded segment_ok_def]
  show "p_offset ph + p_filesz ph \<le> length data" using d by simp
  then show "p_offset ph + p_filesz ph < u64_limit" using assms(2) by (simp add: file_ok_def)
  show "p_vaddr ph + p_filesz ph < u64_limit" using d by (simp add: SEGMENT_HIGH_def)
  have "div_ceil (p_vaddr ph + p_memsz ph) FRAME_SIZE * FRAME_SIZE \<le> SEGMENT_HIGH"
    using d by (intro div_ceil_mult_least) (simp_all add: FRAME_SIZE_def SEGMENT_HIGH_def)
  then show "page_end ph \<le> SEGMENT_HIGH" using d by simp
  have "SEGMENT_LOW = SEGMENT_LOW div FRAME_SIZE * FRAME_SIZE" by (simp add: SEGMENT_LOW_def FRAME_SIZE_def)
  also have "\<dots> \<le> p_vaddr ph div FRAME_SIZE * FRAME_SIZE" using d by (intro mult_le_mono1 div_le_mono) simp
  finally show "SEGMENT_LOW \<le> page_start ph" using d by simp
  show "FRAME_SIZE dvd page_start ph" "FRAME_SIZE dvd page_end ph" using d by simp_all
qed

definition filled :: "u8 list \<Rightarrow> program_header \<Rightarrow> nat \<Rightarrow> nat \<Rightarrow> (nat \<Rightarrow> u8) \<Rightarrow> nat \<Rightarrow> u8" where
  "filled data ph page frame ram = (\<lambda>a. if frame \<le> a \<and> a < frame + FRAME_SIZE
     then segment_byte data ph (page + (a - frame)) else ram a)"

lemma slice_len: "i + n \<le> length xs \<Longrightarrow> slice xs i (i + n) = Inr (take n (drop i xs))"
  by (simp add: slice_def get_range_def)

lemma fill_page_ok:
  assumes seg: "segment_ok data ph" and fok: "file_ok data" and page: "page < SEGMENT_HIGH"
    and virt: "phys_to_virt s frame = Inr virt"
    and zero: "\<And>a. frame \<le> a \<Longrightarrow> a < frame + FRAME_SIZE \<Longrightarrow> mm_ram s a = 0"
  shows "fill_page data ph page frame s = Inr (s\<lparr>mm_ram := filled data ph page frame (mm_ram s)\<rparr>)"
proof -
  note d = segment_okD[OF seg fok]
  have next_page: "page + FRAME_SIZE < u64_limit" using page by (simp add: SEGMENT_HIGH_def FRAME_SIZE_def)
  let ?fs = "max page (p_vaddr ph)" and ?fe = "min (page + FRAME_SIZE) (p_vaddr ph + p_filesz ph)"
  show ?thesis
  proof (cases "?fs < ?fe")
    case True
    define src where "src = ?fs - p_vaddr ph + p_offset ph"
    define len where "len = ?fe - ?fs"
    let ?src = src and ?len = len
    let ?bs = "take ?len (drop ?src data)"
    have inside: "?src + ?len \<le> p_offset ph + p_filesz ph" using True unfolding src_def len_def by auto
    then have fits: "?src + ?len \<le> length data" "?src + ?len < u64_limit" "?src < u64_limit"
      using d(1,7) by linarith+
    have len: "length ?bs = ?len" using fits(1) by simp
    note sl = slice_len[OF fits(1)]
    have run: "fill_page data ph page frame s = Inr (copy_bytes (frame + (?fs - page)) ?bs s)"
      using True virt next_page d(2) fits(2,3) sl
      by (simp add: fill_page_def Let_def src_def[symmetric] len_def[symmetric])
    have "mm_ram (copy_bytes (frame + (?fs - page)) ?bs s) a = filled data ph page frame (mm_ram s) a" for a
    proof (cases "frame + (?fs - page) \<le> a \<and> a < frame + (?fs - page) + ?len")
      case in_copy: True
      then have k: "a - (frame + (?fs - page)) < len" by linarith
      have in_frame: "frame \<le> a \<and> a < frame + FRAME_SIZE" using in_copy True unfolding len_def by auto
      have in_file: "p_vaddr ph \<le> page + (a - frame) \<and> page + (a - frame) < p_vaddr ph + p_filesz ph"
        using in_copy True unfolding len_def by auto
      have "mm_ram (copy_bytes (frame + (?fs - page)) ?bs s) a = ?bs ! (a - (frame + (?fs - page)))"
        unfolding copy_bytes_def len using in_copy by simp
      also have "\<dots> = data ! (src + (a - (frame + (?fs - page))))"
        using fits(1) k by (simp only: nth_take) (rule nth_drop, linarith)
      also have "src + (a - (frame + (?fs - page))) = p_offset ph + (page + (a - frame) - p_vaddr ph)"
        using in_copy True unfolding src_def by (auto simp: max_def split: if_splits)
      also have "data ! (p_offset ph + (page + (a - frame) - p_vaddr ph)) = filled data ph page frame (mm_ram s) a"
        by (simp only: filled_def segment_byte_def if_P[OF in_frame] if_P[OF in_file])
      finally show ?thesis .
    next
      case out: False
      then have "mm_ram (copy_bytes (frame + (?fs - page)) ?bs s) a = mm_ram s a"
        unfolding copy_bytes_def len using out by auto
      moreover have "\<not> (p_vaddr ph \<le> page + (a - frame) \<and> page + (a - frame) < p_vaddr ph + p_filesz ph)"
        if "frame \<le> a \<and> a < frame + FRAME_SIZE"
        using out that True unfolding len_def by auto
      ultimately show ?thesis using zero[of a] by (auto simp: filled_def segment_byte_def)
    qed
    then have "copy_bytes (frame + (?fs - page)) ?bs s = s\<lparr>mm_ram := filled data ph page frame (mm_ram s)\<rparr>"
      by (simp add: copy_bytes_def fun_eq_iff)
    with run show ?thesis by simp
  next
    case False
    then have run: "fill_page data ph page frame s = Inr s"
      using virt next_page d(2) by (auto simp: fill_page_def Let_def)
    have "filled data ph page frame (mm_ram s) a = mm_ram s a" for a
      using False zero[of a] by (auto simp: filled_def segment_byte_def)
    then have "filled data ph page frame (mm_ram s) = mm_ram s" by auto
    with run show ?thesis by simp
  qed
qed

text \<open>A loaded byte: mapped with these flags, in a lent frame that is not a page table.\<close>

definition holds_byte :: "mm_state \<Rightarrow> nat \<Rightarrow> nat \<Rightarrow> page_flags \<Rightarrow> u8 \<Rightarrow> bool" where
  "holds_byte s p v fl b \<longleftrightarrow> (\<exists>f. lookup_va s p v = Some (f + v mod FRAME_SIZE, fl, Normal)
     \<and> f \<in> mm_lent s \<and> f \<notin> tables_of s p \<and> mm_ram s (f + v mod FRAME_SIZE) = b)"

lemma segment_flags_no_huge: "\<not> bit (segment_flags ph) 7"
  by (simp add: segment_flags_def Let_def bit_or_iff)

lemma frame_of_byte: "FRAME_SIZE dvd f \<Longrightarrow> (f + v mod FRAME_SIZE) div FRAME_SIZE * FRAME_SIZE = f"
  by (auto simp: dvd_def FRAME_SIZE_def)

lemma outside_frame_entry:
  assumes "FRAME_SIZE dvd n" "FRAME_SIZE dvd t" "t \<noteq> n" "i < 512"
    and "\<And>a. \<not> (n \<le> a \<and> a < n + FRAME_SIZE) \<Longrightarrow> ram a = mm_ram s a"
  shows "table_entry (s\<lparr>mm_ram := ram\<rparr>) t i = table_entry s t i"
proof -
  from assms(1,2) obtain a b where ab: "n = 4096 * a" "t = 4096 * b"
    unfolding FRAME_SIZE_def dvd_def by blast
  have "n + 4096 \<le> t \<or> t + 4096 \<le> n" using assms(3) ab by (cases a b rule: linorder_cases) auto
  then have "ram (t + 8 * i + k) = mm_ram s (t + 8 * i + k)" if "k < 8" for k
    using that assms(4) by (intro assms(5)) (auto simp: FRAME_SIZE_def)
  then have "ram_word ram (t + 8 * i) = ram_word (mm_ram s) (t + 8 * i)" by (rule ram_word_cong)
  then show ?thesis by (simp add: table_entry_def)
qed


lemma page_in_frame:
  assumes "FRAME_SIZE dvd page" "page \<le> v" "v < page + FRAME_SIZE"
  shows "v = page + v mod FRAME_SIZE"
proof -
  from assms(1) obtain k where k: "page = 4096 * k" by (auto simp: dvd_def FRAME_SIZE_def)
  define r where "r = v - page"
  have "v = 4096 * k + r" "r < 4096" using assms(2,3) k by (auto simp: r_def FRAME_SIZE_def)
  then show ?thesis using k by (simp add: FRAME_SIZE_def)
qed

lemma load_page:
  assumes wf: "space_wf s p" and left: "4 \<le> card (mm_general s)" "mm_inject_failures s = 0"
    and seg: "segment_ok data ph" and fok: "file_ok data"
    and page: "FRAME_SIZE dvd page" "page < SEGMENT_HIGH" and none: "lookup_va s p page = None"
  obtains frame s1 s2 s3 where "alloc_frame_zeroed s = Inr (Some frame, s1)"
    "fill_page data ph page frame s1 = Inr s2" "map_4k p page frame (segment_flags ph) s2 = Inr s3"
    "space_wf s3 p" "mm_inject_failures s3 = 0" "card (mm_general s) \<le> 4 + card (mm_general s3)"
    "\<And>v. page_number v \<noteq> page_number page \<Longrightarrow> lookup_va s3 p v = lookup_va s p v"
    "\<And>v. page \<le> v \<Longrightarrow> v < page + FRAME_SIZE \<Longrightarrow> page_number v = page_number page \<Longrightarrow>
      holds_byte s3 p v (from_bits_truncate (segment_flags ph OR FLAG_PRESENT)) (segment_byte data ph v)"
    "\<And>v fl b. holds_byte s p v fl b \<Longrightarrow> page_number v \<noteq> page_number page \<Longrightarrow> holds_byte s3 p v fl b"
proof -
  have ok: "vm_ok s" by (rule space_wfD(1)[OF wf])
  from ok show thesis
  proof (cases rule: alloc_frame_zeroed_cases)
    case (none t)
    with left show thesis by auto
  next
    case (some frame s1)
    have avail: "frame \<in> mm_avail s" using some(4) mm_pools_avail(1) by blast
    then have man: "frame \<in> mm_managed s" using mm_avail_managed[OF vm_okD(1)[OF ok]] by blast
    have lent_old: "frame \<notin> mm_lent s" using avail by (simp add: mm_lent_def)
    have tab: "t \<noteq> frame \<and> FRAME_SIZE dvd t" if "t \<in> tables_of s p" for t
      using tables_lent[OF wf] that lent_old vm_okD(3)[OF ok] by (auto simp: mm_lent_def)
    have fr: "FRAME_SIZE dvd frame" "frame < 2 ^ 52" using vm_okD(2,3)[OF ok man] by auto
    have same1: "mm_managed s1 = mm_managed s" using some(3) by (simp add: same_hhdm_def)
    have zero: "mm_ram s1 a = 0" if "frame \<le> a" "a < frame + FRAME_SIZE" for a
      using that some(7) by (simp add: zero_frame_def)
    have virt: "phys_to_virt s1 frame = Inr (frame + mm_hhdm_offset s1)"
      using vm_okD(4)[OF some(2), of frame] man same1 by simp
    let ?ram = "filled data ph page frame (mm_ram s1)"
    define s2 where "s2 = s1\<lparr>mm_ram := ?ram\<rparr>"
    note fill = fill_page_ok[OF seg fok page(2) virt zero, folded s2_def]
    have ram2: "?ram a = mm_ram s a" if "\<not> (frame \<le> a \<and> a < frame + FRAME_SIZE)" for a
      using that some(7) by (auto simp: filled_def zero_frame_def)
    have pmm2: "mm_pmm s2 = mm_pmm s1" by (simp add: s2_def)
    note views2 = mm_views_cong[OF pmm2]
    have lent2: "mm_lent s2 = insert frame (mm_lent s)" and avail2: "mm_avail s2 = mm_avail s - {frame}"
      and gen2: "mm_general s2 = mm_general s - {frame}"
      using views2 same1 some(5,6) man by (auto simp: mm_lent_def)
    have mid: "space_wf s2 p" "lookup_va s2 p v = lookup_va s p v" "tables_of s2 p = tables_of s p" for v
    proof -
      let ?m = "s\<lparr>mm_ram := ?ram\<rparr>"
      have ent: "table_entry s2 t i = table_entry s t i" if "t \<in> tables_of s p" "i < 512" for t i
      proof -
        have "table_entry ?m t i = table_entry s t i"
          by (rule outside_frame_entry[OF fr(1) _ _ that(2) ram2]) (use tab[OF that(1)] in auto)
        then show ?thesis by (simp add: table_entry_def s2_def)
      qed
      have agree: "agree_but s p p 0 s2" unfolding agree_but_def tables_of_def[symmetric]
        using ent unfolding tables_of_def by blast
      have agree': "table_entry s2 t i = table_entry s t i" if "pt_path q" "table_at s p q = Some t" "i < 512" for q t i
        using ent[of t i] that unfolding tables_of_def by blast
      have at: "table_at s2 p q = table_at s p q" if "pt_path q" for q
        by (rule table_at_same[OF agree that]) (use agree' in auto)
      have ok2: "vm_ok s2"
        using some(2,3) views2 by (simp add: vm_ok_def s2_def)
      show "space_wf s2 p"
        unfolding space_wf_def using ok2 at agree' lent2 space_wfD[OF wf] by (auto 4 4)
      show "tables_of s2 p = tables_of s p" unfolding tables_of_def using at by auto
      show "lookup_va s2 p v = lookup_va s p v" for v
        by (rule lookup_va_cong) (use at agree' in auto)
    qed
    have left2: "3 \<le> card (mm_general s2)" "mm_inject_failures s2 = 0"
      using left some(3,4) gen2 finite_mm_general[of s]
      by (simp_all add: card_Diff_singleton_if same_hhdm_def s2_def)
    have none2: "lookup_va s2 p page = None" using none mid(2) by simp
    from map_4k_ok[OF mid(1) left2 page(1) fr segment_flags_no_huge none2]
    obtain s3 where m: "map_4k p page frame (segment_flags ph) s2 = Inr s3" "space_wf s3 p" "same_hhdm s2 s3"
      "\<And>v. lookup_va s3 p v = (if page_number v = page_number page
        then Some (frame + v mod FRAME_SIZE, from_bits_truncate (segment_flags ph OR FLAG_PRESENT), Normal)
        else lookup_va s2 p v)"
      "mm_lent s2 \<subseteq> mm_lent s3" "card (mm_general s2) \<le> 3 + card (mm_general s3)"
      "\<And>a. \<not> in_tables s3 p a \<Longrightarrow> mm_ram s3 a = mm_ram s2 a"
      "tables_of s3 p \<subseteq> tables_of s2 p \<union> mm_avail s2"
      by metis
    have fresh: "f \<notin> tables_of s3 p" if "f \<in> mm_lent s2" "f \<notin> tables_of s p" for f
      using m(8) that mid(3) by (auto simp: mm_lent_def)
    have keep: "mm_ram s3 (f + v mod FRAME_SIZE) = mm_ram s2 (f + v mod FRAME_SIZE)"
      if "f \<in> mm_lent s2" "f \<notin> tables_of s p" for f v
    proof (rule m(7))
      have "FRAME_SIZE dvd f" using that(1) vm_okD(3)[OF space_wfD(1)[OF mid(1)]] by (simp add: mm_lent_def)
      then show "\<not> in_tables s3 p (f + v mod FRAME_SIZE)"
        using fresh[OF that] by (simp add: in_tables_iff[OF m(2)] frame_of_byte)
    qed
    have frame2: "frame \<in> mm_lent s2" "frame \<notin> tables_of s p" using lent2 tab by auto
    have new: "holds_byte s3 p v (from_bits_truncate (segment_flags ph OR FLAG_PRESENT)) (segment_byte data ph v)"
      if "page \<le> v" "v < page + FRAME_SIZE" "page_number v = page_number page" for v
    proof -
      have "v mod FRAME_SIZE < FRAME_SIZE" by (simp add: FRAME_SIZE_def)
      then have "mm_ram s2 (frame + v mod FRAME_SIZE) = segment_byte data ph v"
        using page_in_frame[OF page(1) that(1,2)] by (simp add: s2_def filled_def)
      then show ?thesis
        unfolding holds_byte_def using m(4)[of v] that(3) keep[OF frame2] fresh[OF frame2] m(5) frame2(1)
        by (intro exI[of _ frame]) auto
    qed
    have old: "holds_byte s3 p v fl b" if "holds_byte s p v fl b" "page_number v \<noteq> page_number page" for v fl b
    proof -
      from that(1) obtain f where f: "lookup_va s p v = Some (f + v mod FRAME_SIZE, fl, Normal)"
        "f \<in> mm_lent s" "f \<notin> tables_of s p" "mm_ram s (f + v mod FRAME_SIZE) = b"
        unfolding holds_byte_def by blast
      have f2: "f \<in> mm_lent s2" using f(2) lent2 by simp
      have dv: "FRAME_SIZE dvd f" using f(2) vm_okD(3)[OF ok] by (simp add: mm_lent_def)
      have "f \<noteq> frame" using f(2) lent_old by auto
      then have "\<not> (frame \<le> f + v mod FRAME_SIZE \<and> f + v mod FRAME_SIZE < frame + FRAME_SIZE)"
        using dv fr(1) by (auto simp: dvd_def FRAME_SIZE_def)
      from ram2[OF this] have "mm_ram s2 (f + v mod FRAME_SIZE) = b" using f(4) by (simp add: s2_def)
      then show ?thesis
        unfolding holds_byte_def using m(4)[of v] that(2) mid(2) f(1,3) keep[OF f2 f(3)] fresh[OF f2 f(3)] m(5) f2
        by (intro exI[of _ f]) auto
    qed
    have card: "card (mm_general s) \<le> 4 + card (mm_general s3)"
      using m(6) gen2 some(4) finite_mm_general[of s] by (simp add: card_Diff_singleton_if)
    show thesis
      by (rule that[OF some(1) fill m(1,2) _ card _ new old])
        (use m(3,4) left2(2) mid(2) in \<open>simp_all add: same_hhdm_def\<close>)
  qed
qed



subsection \<open>Loading every segment\<close>

lemma page_number_low: "v < 2 ^ 48 \<Longrightarrow> page_number v = v div FRAME_SIZE"
  by (simp add: page_number_def FRAME_SIZE_def less_mult_imp_div_less)

lemma page_number_inside:
  assumes "FRAME_SIZE dvd page" "page \<le> v" "v < page + FRAME_SIZE"
  shows "page_number v = page_number page"
proof -
  from assms(1) obtain k where k: "page = FRAME_SIZE * k" by (auto simp: dvd_def)
  have "v div FRAME_SIZE = k" using assms(2,3) k by (intro div_nat_eqI) (auto simp: FRAME_SIZE_def)
  then show ?thesis using k by (simp add: page_number_def FRAME_SIZE_def)
qed

lemma page_number_outside:
  assumes "FRAME_SIZE dvd page" "v < 2 ^ 48" "page < 2 ^ 48" "\<not> (page \<le> v \<and> v < page + FRAME_SIZE)"
  shows "page_number v \<noteq> page_number page"
proof
  assume "page_number v = page_number page"
  then have "v div FRAME_SIZE = page div FRAME_SIZE" using assms(2,3) by (simp add: page_number_low)
  moreover from assms(1) obtain k where "page = FRAME_SIZE * k" by (auto simp: dvd_def)
  ultimately have "v div 4096 = k" "page = 4096 * k" by (simp_all add: FRAME_SIZE_def)
  then have "page \<le> v \<and> v < page + FRAME_SIZE" by (auto simp: FRAME_SIZE_def)
  with assms(4) show False by blast
qed

text \<open>What mapping a range of addresses \<open>[lo, hi)\<close> of a segment must achieve.\<close>

definition range_loaded :: "u8 list \<Rightarrow> program_header \<Rightarrow> nat \<Rightarrow> nat \<Rightarrow> nat \<Rightarrow> mm_state \<Rightarrow> mm_state \<Rightarrow> bool" where
  "range_loaded data ph p lo hi s s' \<longleftrightarrow> space_wf s' p \<and> mm_inject_failures s' = 0
     \<and> (\<forall>v. lo \<le> v \<and> v < hi \<longrightarrow> holds_byte s' p v
           (from_bits_truncate (segment_flags ph OR FLAG_PRESENT)) (segment_byte data ph v))
     \<and> (\<forall>v<2 ^ 48. \<not> (lo \<le> v \<and> v < hi) \<longrightarrow> lookup_va s' p v = lookup_va s p v)
     \<and> (\<forall>v<2 ^ 48. \<forall>fl b. \<not> (lo \<le> v \<and> v < hi) \<longrightarrow> holds_byte s p v fl b \<longrightarrow> holds_byte s' p v fl b)"

lemma range_loadedD:
  assumes "range_loaded data ph p lo hi s s'"
  shows "space_wf s' p" "mm_inject_failures s' = 0"
    and "lo \<le> v \<Longrightarrow> v < hi \<Longrightarrow> holds_byte s' p v
      (from_bits_truncate (segment_flags ph OR FLAG_PRESENT)) (segment_byte data ph v)"
    and "v < 2 ^ 48 \<Longrightarrow> \<not> (lo \<le> v \<and> v < hi) \<Longrightarrow> lookup_va s' p v = lookup_va s p v"
    and "v < 2 ^ 48 \<Longrightarrow> \<not> (lo \<le> v \<and> v < hi) \<Longrightarrow> holds_byte s p v fl b \<Longrightarrow> holds_byte s' p v fl b"
  using assms unfolding range_loaded_def by blast+

lemma map_segment_loop_ok:
  assumes "space_wf s p" and "4 * n \<le> card (mm_general s)" and "mm_inject_failures s = 0"
    and seg: "segment_ok data ph" and fok: "file_ok data"
    and "FRAME_SIZE dvd page" and "page_end ph = page + n * FRAME_SIZE"
    and "\<forall>v. page \<le> v \<and> v < page_end ph \<longrightarrow> lookup_va s p v = None"
  shows "\<exists>s'. map_segment_loop p data ph page s = Inr (Inr (), s')
    \<and> range_loaded data ph p page (page_end ph) s s' \<and> card (mm_general s) \<le> 4 * n + card (mm_general s')"
  using assms(1-3,6-8)
proof (induction n arbitrary: s page)
  case 0
  then show ?case by (subst map_segment_loop.simps) (auto simp: range_loaded_def)
next
  case (Suc n)
  have high: "page_end ph \<le> SEGMENT_HIGH" by (rule segment_okD(3)[OF seg fok])
  have lt: "page < page_end ph" using Suc.prems(5) by (simp add: FRAME_SIZE_def)
  have lt2: "page + FRAME_SIZE \<le> page_end ph" unfolding Suc.prems(5) by simp
  have "4 \<le> card (mm_general s)" "page < SEGMENT_HIGH" "lookup_va s p page = None"
    using Suc.prems(2,6) lt high by auto
  from load_page[OF Suc.prems(1) this(1) Suc.prems(3) seg fok Suc.prems(4) this(2,3)]
  obtain frame s1 s2 s3 where step: "alloc_frame_zeroed s = Inr (Some frame, s1)"
    "fill_page data ph page frame s1 = Inr s2" "map_4k p page frame (segment_flags ph) s2 = Inr s3"
    "space_wf s3 p" "mm_inject_failures s3 = 0" "card (mm_general s) \<le> 4 + card (mm_general s3)"
    "\<And>v. page_number v \<noteq> page_number page \<Longrightarrow> lookup_va s3 p v = lookup_va s p v"
    "\<And>v. page \<le> v \<Longrightarrow> v < page + FRAME_SIZE \<Longrightarrow> page_number v = page_number page \<Longrightarrow>
      holds_byte s3 p v (from_bits_truncate (segment_flags ph OR FLAG_PRESENT)) (segment_byte data ph v)"
    "\<And>v fl b. holds_byte s p v fl b \<Longrightarrow> page_number v \<noteq> page_number page \<Longrightarrow> holds_byte s3 p v fl b"
    by metis
  have p48: "page < 2 ^ 48" "page_end ph < 2 ^ 48" using lt high by (auto simp: SEGMENT_HIGH_def)
  note outside = page_number_outside[OF Suc.prems(4) _ p48(1)]
  have "4 * n \<le> card (mm_general s3)" using step(6) Suc.prems(2) by simp
  moreover have "FRAME_SIZE dvd page + FRAME_SIZE" using Suc.prems(4) by simp
  moreover have "page_end ph = page + FRAME_SIZE + n * FRAME_SIZE" using Suc.prems(5) by simp
  moreover have "\<forall>v. page + FRAME_SIZE \<le> v \<and> v < page_end ph \<longrightarrow> lookup_va s3 p v = None"
    using step(7) outside p48(2) Suc.prems(6) by auto
  ultimately obtain s' where s': "map_segment_loop p data ph (page + FRAME_SIZE) s3 = Inr (Inr (), s')"
    "range_loaded data ph p (page + FRAME_SIZE) (page_end ph) s3 s'"
    "card (mm_general s3) \<le> 4 * n + card (mm_general s')"
    using Suc.IH[OF step(4) _ step(5), of "page + FRAME_SIZE"] by blast
  have run: "map_segment_loop p data ph page s = Inr (Inr (), s')"
    using lt step(1-3) s'(1) by (subst map_segment_loop.simps) simp
  note r = range_loadedD[OF s'(2)]
  have "range_loaded data ph p page (page_end ph) s s'"
    unfolding range_loaded_def
  proof (intro conjI allI impI)
    show "space_wf s' p" "mm_inject_failures s' = 0" by (rule r(1), rule r(2))
    show "holds_byte s' p v (from_bits_truncate (segment_flags ph OR FLAG_PRESENT)) (segment_byte data ph v)"
      if "page \<le> v \<and> v < page_end ph" for v
    proof (cases "v < page + FRAME_SIZE")
      case True
      then have "holds_byte s3 p v (from_bits_truncate (segment_flags ph OR FLAG_PRESENT)) (segment_byte data ph v)"
        using that by (intro step(8) page_number_inside[OF Suc.prems(4)]) simp_all
      moreover have "v < 2 ^ 48" using that p48(2) by simp
      ultimately show ?thesis using r(5)[of v] True by simp
    next
      case False
      then show ?thesis using r(3)[of v] that by simp
    qed
    show "lookup_va s' p v = lookup_va s p v" if "v < 2 ^ 48" "\<not> (page \<le> v \<and> v < page_end ph)" for v
    proof -
      have out: "\<not> (page \<le> v \<and> v < page + FRAME_SIZE)" "\<not> (page + FRAME_SIZE \<le> v \<and> v < page_end ph)"
        using that(2) lt2 by auto
      from step(7)[OF outside[OF that(1) out(1)]] r(4)[OF that(1) out(2)] show ?thesis by simp
    qed
    show "holds_byte s' p v fl b"
      if "v < 2 ^ 48" "\<not> (page \<le> v \<and> v < page_end ph)" "holds_byte s p v fl b" for v fl b
    proof -
      have out: "\<not> (page \<le> v \<and> v < page + FRAME_SIZE)" "\<not> (page + FRAME_SIZE \<le> v \<and> v < page_end ph)"
        using that(2) lt2 by auto
      show ?thesis by (rule r(5)[OF that(1) out(2) step(9)[OF that(3) outside[OF that(1) out(1)]]])
    qed
  qed
  with run s'(3) step(6) show ?case by (intro exI[of _ s']) auto
qed

definition segment_pages :: "program_header \<Rightarrow> nat" where
  "segment_pages ph = (page_end ph - page_start ph) div FRAME_SIZE"

lemma segment_extent:
  assumes "segment_ok data ph" and "file_ok data"
  shows "page_end ph = page_start ph + segment_pages ph * FRAME_SIZE" and "page_start ph \<le> page_end ph"
proof -
  note d = assms(1)[unfolded segment_ok_def]
  have "p_vaddr ph div FRAME_SIZE * FRAME_SIZE \<le> p_vaddr ph" by simp
  also have "\<dots> \<le> p_vaddr ph + p_memsz ph" by simp
  also have "\<dots> \<le> page_end ph" using d le_div_ceil_mult[of FRAME_SIZE "p_vaddr ph + p_memsz ph"] by (simp add: FRAME_SIZE_def)
  finally show le: "page_start ph \<le> page_end ph" using d by simp
  have "FRAME_SIZE dvd page_end ph - page_start ph" using segment_okD(5,6)[OF assms] le by (simp add: dvd_diff_nat)
  then show "page_end ph = page_start ph + segment_pages ph * FRAME_SIZE"
    using le by (simp add: segment_pages_def)
qed

definition in_segment :: "program_header \<Rightarrow> nat \<Rightarrow> bool" where
  "in_segment ph v \<longleftrightarrow> page_start ph \<le> v \<and> v < page_end ph"

lemma map_segments_ok:
  assumes "space_wf s p" and "4 * sum_list (map segment_pages phs) \<le> card (mm_general s)"
    and "mm_inject_failures s = 0" and "file_ok data" and "\<forall>ph\<in>set phs. segment_ok data ph"
    and "check_overlaps phs = Inr ()" and "\<forall>ph\<in>set phs. \<forall>v. in_segment ph v \<longrightarrow> lookup_va s p v = None"
  shows "\<exists>s'. map_segments p data phs s = Inr (Inr (), s') \<and> space_wf s' p
    \<and> (\<forall>ph\<in>set phs. \<forall>v. in_segment ph v \<longrightarrow> holds_byte s' p v
         (from_bits_truncate (segment_flags ph OR FLAG_PRESENT)) (segment_byte data ph v))
    \<and> (\<forall>v<2 ^ 48. (\<forall>ph\<in>set phs. \<not> in_segment ph v) \<longrightarrow> lookup_va s' p v = lookup_va s p v)
    \<and> (\<forall>v<2 ^ 48. \<forall>fl b. (\<forall>ph\<in>set phs. \<not> in_segment ph v) \<longrightarrow> holds_byte s p v fl b \<longrightarrow> holds_byte s' p v fl b)"
  using assms(1-3,5-7)
proof (induction phs arbitrary: s)
  case (Cons ph phs)
  have seg: "segment_ok data ph" using Cons.prems(4) by simp
  note ext = segment_extent[OF seg assms(4)]
  have "4 * segment_pages ph \<le> card (mm_general s)" using Cons.prems(2) by simp
  moreover have "\<forall>v. page_start ph \<le> v \<and> v < page_end ph \<longrightarrow> lookup_va s p v = None"
    using Cons.prems(6) by (simp add: in_segment_def)
  ultimately obtain s1 where s1: "map_segment p data ph s = Inr (Inr (), s1)"
    "range_loaded data ph p (page_start ph) (page_end ph) s s1"
    "card (mm_general s) \<le> 4 * segment_pages ph + card (mm_general s1)"
    using map_segment_loop_ok[OF Cons.prems(1) _ Cons.prems(3) seg assms(4) segment_okD(5)[OF seg assms(4)] ext(1)]
    unfolding map_segment_def by blast
  note r = range_loadedD[OF s1(2), folded in_segment_def]
  have low: "v < 2 ^ 48" if "in_segment x v" "segment_ok data x" for x v
    using that(1) segment_okD(3)[OF that(2) assms(4)] by (simp add: in_segment_def SEGMENT_HIGH_def)
  have apart: "\<not> in_segment ph v" if "in_segment x v" "x \<in> set phs" for x v
  proof -
    have "\<not> pages_overlap ph x" using Cons.prems(5) that(2) by (auto simp: list_ex_iff split: if_splits)
    with that(1) show ?thesis by (auto simp: pages_overlap_def in_segment_def)
  qed
  have seg': "\<forall>ph\<in>set phs. segment_ok data ph" and o': "check_overlaps phs = Inr ()"
    using Cons.prems(4,5) by (auto split: if_splits)
  have wf1: "space_wf s1 p" and inj1: "mm_inject_failures s1 = 0" by (rule r(1), rule r(2))
  have left1: "4 * sum_list (map segment_pages phs) \<le> card (mm_general s1)" using s1(3) Cons.prems(2) by simp
  have none1: "\<forall>x\<in>set phs. \<forall>v. in_segment x v \<longrightarrow> lookup_va s1 p v = None"
  proof (intro ballI allI impI)
    fix x v assume x: "x \<in> set phs" "in_segment x v"
    from r(4)[OF low[OF x(2)] apart[OF x(2,1)]] seg' Cons.prems(6) x show "lookup_va s1 p v = None" by simp
  qed
  obtain s' where s': "map_segments p data phs s1 = Inr (Inr (), s')" "space_wf s' p"
    "\<forall>ph\<in>set phs. \<forall>v. in_segment ph v \<longrightarrow> holds_byte s' p v
       (from_bits_truncate (segment_flags ph OR FLAG_PRESENT)) (segment_byte data ph v)"
    "\<forall>v<2 ^ 48. (\<forall>ph\<in>set phs. \<not> in_segment ph v) \<longrightarrow> lookup_va s' p v = lookup_va s1 p v"
    "\<forall>v<2 ^ 48. \<forall>fl b. (\<forall>ph\<in>set phs. \<not> in_segment ph v) \<longrightarrow> holds_byte s1 p v fl b \<longrightarrow> holds_byte s' p v fl b"
    using Cons.IH[OF wf1 left1 inj1 seg' o' none1] by blast
  have "holds_byte s' p v (from_bits_truncate (segment_flags ph OR FLAG_PRESENT)) (segment_byte data ph v)"
    if "in_segment ph v" for v
  proof -
    have "holds_byte s1 p v (from_bits_truncate (segment_flags ph OR FLAG_PRESENT)) (segment_byte data ph v)"
      using r(3)[of v] that by (simp add: in_segment_def)
    then show ?thesis using s'(5) low[OF that seg] that apart by blast
  qed
  moreover have "lookup_va s' p v = lookup_va s p v"
    if "v < 2 ^ 48" "\<forall>x\<in>set (ph # phs). \<not> in_segment x v" for v
    using s'(4) r(4)[OF that(1)] that by simp
  moreover have "holds_byte s' p v fl b"
    if "v < 2 ^ 48" "\<forall>x\<in>set (ph # phs). \<not> in_segment x v" "holds_byte s p v fl b" for v fl b
    using s'(5) r(5)[OF that(1) _ that(3)] that by simp
  ultimately show ?case
    using s1(1) s'(1-3) by (intro exI[of _ s']) simp
qed simp



subsection \<open>Properties\<close>

text \<open>
  The witnesses load a small program: one executable segment of four bytes at 4 MiB, whose file
  bytes follow the headers.
\<close>

definition demo_elf :: "u8 list" where
  "demo_elf = [127, 69, 76, 70, 2, 1, 1, 0, 0, 0, 0, 0, 0, 0, 0, 0, 2, 0, 62, 0, 1, 0, 0, 0,
     0, 0, 64, 0, 0, 0, 0, 0, 64, 0, 0, 0, 0, 0, 0, 0, 0, 0, 0, 0, 0, 0, 0, 0, 0, 0, 0, 0, 64, 0,
     56, 0, 1, 0, 0, 0, 0, 0, 0, 0, 1, 0, 0, 0, 5, 0, 0, 0, 120, 0, 0, 0, 0, 0, 0, 0,
     0, 0, 64, 0, 0, 0, 0, 0, 0, 0, 64, 0, 0, 0, 0, 0, 4, 0, 0, 0, 0, 0, 0, 0, 4, 0, 0, 0, 0, 0, 0, 0,
     0, 16, 0, 0, 0, 0, 0, 0, 244, 235, 253, 144]"

definition demo_header :: program_header where
  "demo_header = \<lparr>p_type = 1, p_flags = 5, p_offset = 120, p_vaddr = 0x400000, p_filesz = 4,
     p_memsz = 4, page_start = 0x400000, page_end = 0x401000\<rparr>"

lemma demo_read:
  "uint_at 2 demo_elf 16 = Inr (Some 2)" "uint_at 2 demo_elf 18 = Inr (Some 62)"
  "uint_at 8 demo_elf 24 = Inr (Some 4194304)" "uint_at 8 demo_elf 32 = Inr (Some 64)"
  "uint_at 2 demo_elf 54 = Inr (Some 56)" "uint_at 2 demo_elf 56 = Inr (Some 1)"
  "uint_at 4 demo_elf 64 = Inr (Some 1)" "uint_at 4 demo_elf 68 = Inr (Some 5)"
  "uint_at 8 demo_elf 72 = Inr (Some 120)" "uint_at 8 demo_elf 80 = Inr (Some 4194304)"
  "uint_at 8 demo_elf 96 = Inr (Some 4)" "uint_at 8 demo_elf 104 = Inr (Some 4)"
  by (simp_all add: uint_at_def get_range_def demo_elf_def)

lemma demo_elf_length: "length demo_elf = 124"
  by (simp add: demo_elf_def)

lemma demo_parse: "parse_image demo_elf = Inr (Inr (4194304, [demo_header]))"
proof -
  have "validate_header demo_elf = Inr (Inr ())"
    unfolding validate_header_def u16_at_def or_err_def demo_read demo_elf_length
    by (simp add: EHDR_SIZE_def demo_elf_def ELFCLASS64_def ELFDATA2LSB_def EV_CURRENT_def ET_EXEC_def EM_X86_64_def)
  moreover have "read_phdr demo_elf 64 = Inr (Inr demo_header)"
    by (simp add: read_phdr_def Let_def u32_at_def u64_at_def or_err_def demo_read checked_add_def
        checked_next_multiple_of_def div_ceil_def FRAME_SIZE_def demo_header_def del: or_err_uint)
  moreover have "validate_segment demo_elf demo_header = Inr ()"
    by (simp add: validate_segment_def demo_header_def checked_add_def demo_elf_length
        SEGMENT_LOW_def SEGMENT_HIGH_def PF_W_def PF_X_def)
  moreover have "entry_in 4194304 demo_header"
    by (simp add: entry_in_def demo_header_def PF_X_def saturating_add_def)
  moreover have "select_loads [demo_header] = Inr [demo_header]"
    by (simp add: demo_header_def PT_INTERP_def PT_DYNAMIC_def PT_TLS_def PT_LOAD_def)
  ultimately show ?thesis
    by (simp add: parse_image_def u16_at_def u64_at_def or_err_def demo_read checked_mul_def checked_add_def
        demo_elf_length PHDR_SIZE_def list_ex_iff del: or_err_uint select_loads.simps)
qed

text \<open>
  No file can make the parser panic: on every byte string (of a length a slice can have), the
  passes of \<open>load\<close> that run before the first page is mapped return, with the entry point and the
  segments or with an \<open>ElfError\<close>; no header field makes an addition overflow or an index run out
  of bounds.
\<close>
theorem elf_parse_never_panics:
  assumes "length data < 2 ^ 63"
  shows "\<exists>r. parse_image data = Inr r"
  using parse_image_returns[of data] assms by (simp add: returns_def file_ok_def)

lemma elf_parse_never_panics_witness:
  "\<exists>r. parse_image (replicate 100 255) = Inr r"
  by (rule elf_parse_never_panics) simp

text \<open>
  C6. What an accepted image guarantees, whatever the bytes were: every segment lies in the user
  window below the stack, its file bytes lie in the file and are at most its memory size, it is
  never both writable and executable (as page flags: writable pages are no-execute), no two
  segments share a page, and the entry point lies in an executable segment.
\<close>
theorem elf_accepted_image_safe:
  assumes "parse_image data = Inr (Inr (entry, loads))"
  shows "(\<forall>ph\<in>set loads. SEGMENT_LOW \<le> p_vaddr ph \<and> p_vaddr ph + p_memsz ph \<le> SEGMENT_HIGH
        \<and> p_filesz ph \<le> p_memsz ph \<and> p_offset ph + p_filesz ph \<le> length data
        \<and> (flags_contain (segment_flags ph) FLAG_WRITABLE \<longrightarrow> flags_contain (segment_flags ph) FLAG_NO_EXECUTE))
    \<and> (\<forall>i<length loads. \<forall>j<i. \<forall>v. \<not> (in_segment (loads ! i) v \<and> in_segment (loads ! j) v))
    \<and> (\<exists>ph\<in>set loads. in_segment ph entry \<and> \<not> flags_contain (segment_flags ph) FLAG_NO_EXECUTE)"
proof -
  note ok = parse_image_ok[OF assms, unfolded image_ok_def]
  have wx: "flags_contain (segment_flags ph) FLAG_WRITABLE \<longrightarrow> flags_contain (segment_flags ph) FLAG_NO_EXECUTE"
    if "ph \<in> set loads" for ph
    using ok that by (auto simp: segment_ok_def segment_flags_def Let_def flags_contain_bits bit_or_iff)
  have apart: "\<not> (in_segment (loads ! i) v \<and> in_segment (loads ! j) v)" if "i < length loads" "j < i" for i j v
    using ok that by (fastforce simp: pages_overlap_def in_segment_def)
  from ok obtain ph where ph: "ph \<in> set loads" "p_flags ph AND PF_X \<noteq> 0" "p_vaddr ph \<le> entry"
    "entry < p_vaddr ph + p_memsz ph" by blast
  then have "segment_ok data ph" using ok by blast
  then have "page_start ph \<le> p_vaddr ph" "p_vaddr ph + p_memsz ph \<le> page_end ph"
    using le_div_ceil_mult[of FRAME_SIZE "p_vaddr ph + p_memsz ph"]
    by (simp_all add: segment_ok_def FRAME_SIZE_def)
  with ph have "in_segment ph entry" "\<not> flags_contain (segment_flags ph) FLAG_NO_EXECUTE"
    by (auto simp: in_segment_def segment_flags_def Let_def flags_contain_bits bit_or_iff)
  with ph(1) wx apart ok show ?thesis by (auto simp: segment_ok_def)
qed

lemma elf_accepted_image_safe_witness:
  "parse_image demo_elf = Inr (Inr (4194304, [demo_header])) \<and> in_segment demo_header 4194304
     \<and> \<not> flags_contain (segment_flags demo_header) FLAG_NO_EXECUTE"
  using elf_accepted_image_safe[OF demo_parse] demo_parse by simp

text \<open>
  C5. The loader does what the program headers say: given an accepted image, an address space in
  which the segments' pages are free, and four frames per page, \<open>load\<close> returns the entry point;
  every byte of every segment is then mapped with exactly the segment's permissions and holds the
  file's byte, or zero beyond the file's part; every other user address resolves as before.
\<close>
theorem elf_load_maps_image:
  assumes "space_wf s p" and "mm_inject_failures s = 0" and "length data < 2 ^ 63"
    and "parse_image data = Inr (Inr (entry, loads))"
    and "4 * sum_list (map segment_pages loads) \<le> card (mm_general s)"
    and "\<forall>ph\<in>set loads. \<forall>v. in_segment ph v \<longrightarrow> translate p v s = Inr None"
  shows "\<exists>s'. load p data s = Inr (Inr entry, s') \<and> space_wf s' p
    \<and> (\<forall>ph\<in>set loads. \<forall>v. in_segment ph v \<longrightarrow> (\<exists>phys.
         translate p v s' = Inr (Some (phys, from_bits_truncate (segment_flags ph OR FLAG_PRESENT), Normal))
         \<and> mm_ram s' phys = segment_byte data ph v))
    \<and> (\<forall>v<2 ^ 48. (\<forall>ph\<in>set loads. \<not> in_segment ph v) \<longrightarrow> translate p v s' = translate p v s)"
proof -
  have fok: "file_ok data" using assms(3) by (simp add: file_ok_def)
  note ok = parse_image_ok[OF assms(4), unfolded image_ok_def]
  have "\<forall>ph\<in>set loads. \<forall>v. in_segment ph v \<longrightarrow> lookup_va s p v = None"
    using assms(6) translate_lookup[OF assms(1)] by simp
  from map_segments_ok[OF assms(1,5,2) fok _ _ this] ok obtain s' where s':
    "map_segments p data loads s = Inr (Inr (), s')" "space_wf s' p"
    "\<forall>ph\<in>set loads. \<forall>v. in_segment ph v \<longrightarrow> holds_byte s' p v
       (from_bits_truncate (segment_flags ph OR FLAG_PRESENT)) (segment_byte data ph v)"
    "\<forall>v<2 ^ 48. (\<forall>ph\<in>set loads. \<not> in_segment ph v) \<longrightarrow> lookup_va s' p v = lookup_va s p v"
    unfolding check_overlaps_iff by auto
  have "load p data s = Inr (Inr entry, s')" using assms(4) s'(1) by (simp add: load_def)
  moreover have "\<exists>phys. translate p v s' = Inr (Some (phys, from_bits_truncate (segment_flags ph OR FLAG_PRESENT), Normal))
      \<and> mm_ram s' phys = segment_byte data ph v" if "ph \<in> set loads" "in_segment ph v" for ph v
  proof -
    from s'(3) that have "holds_byte s' p v (from_bits_truncate (segment_flags ph OR FLAG_PRESENT)) (segment_byte data ph v)"
      by blast
    then show ?thesis unfolding holds_byte_def translate_lookup[OF s'(2)] by auto
  qed
  ultimately show ?thesis
    using s'(2,4) translate_lookup[OF assms(1)] translate_lookup[OF s'(2)] by (intro exI[of _ s']) simp
qed

lemma elf_load_maps_image_witness:
  "\<exists>s s' phys. load 1052672 demo_elf s = Inr (Inr 4194304, s')
     \<and> translate 1052672 4194305 s' = Inr (Some (phys, from_bits_truncate (segment_flags demo_header OR FLAG_PRESENT), Normal))
     \<and> mm_ram s' phys = 0xeb"
proof (rule demo_space)
  fix s
  assume s: "space_wf s 1052672" "\<And>v. lookup_va s 1052672 v = None"
    "mm_general s = {1056768, 1060864, 1064960, 1069056, 1073152, 1077248}" "mm_inject_failures s = 0"
  have "length demo_elf < 2 ^ 63" by (simp add: demo_elf_length)
  moreover have "4 * sum_list (map segment_pages [demo_header]) \<le> card (mm_general s)"
    by (simp add: s(3) segment_pages_def demo_header_def FRAME_SIZE_def)
  moreover have "\<forall>ph\<in>set [demo_header]. \<forall>v. in_segment ph v \<longrightarrow> translate 1052672 v s = Inr None"
    using s(2) translate_lookup[OF s(1)] by simp
  ultimately obtain s' where l: "load 1052672 demo_elf s = Inr (Inr 4194304, s')"
    and m: "\<forall>ph\<in>set [demo_header]. \<forall>v. in_segment ph v \<longrightarrow> (\<exists>phys.
       translate 1052672 v s' = Inr (Some (phys, from_bits_truncate (segment_flags ph OR FLAG_PRESENT), Normal))
       \<and> mm_ram s' phys = segment_byte demo_elf ph v)"
    using elf_load_maps_image[OF s(1,4) _ demo_parse] by blast
  have "in_segment demo_header 4194305" by (simp add: in_segment_def demo_header_def)
  moreover have "segment_byte demo_elf demo_header 4194305 = 0xeb"
    by (simp add: segment_byte_def demo_header_def demo_elf_def)
  ultimately obtain phys where "translate 1052672 4194305 s'
      = Inr (Some (phys, from_bits_truncate (segment_flags demo_header OR FLAG_PRESENT), Normal))"
    "mm_ram s' phys = 0xeb" using m by fastforce
  with l show ?thesis by blast
qed


end
