(* ===== verification/Heap.thy ===== *)
theory Heap
  imports Vmm
begin

text \<open>
  \<open>mm/heap\<close>: the kernel heap.  \<open>slab.rs\<close> (eight size classes in 4 KiB slabs), \<open>large.rs\<close> (runs of frames) and the
  routing between them in \<open>mod.rs\<close>.  Pointers are addresses, 0 is null.  The headers at the base of the slabs and the
  \<open>FreeNode\<close>s in the free slots are two maps from addresses, what clients keep in their objects is the memory of the
  direct map; \<open>slot_inside\<close> shows that they do not overlap.  The list walk of \<open>alloc_object\<close> is a partial function:
  \<open>None\<close> is not returning.
\<close>

subsection \<open>Size classes\<close>

definition CLASS_SIZES :: "nat list" where
  "CLASS_SIZES = [16, 32, 64, 128, 256, 512, 1024, 2048]"

definition NUM_CLASSES :: nat where "NUM_CLASSES = 8"
definition MAX_SLAB_SIZE :: nat where "MAX_SLAB_SIZE = 2048"
definition MAX_SLOTS :: nat where "MAX_SLOTS = 256"
definition ALLOCATED_WORDS :: nat where "ALLOCATED_WORDS = 4"

text \<open>\<open>repr(C)\<close>: three \<open>u32\<close>, padding, three pointers, four words.\<close>

definition SLAB_HEADER_SIZE :: nat where "SLAB_HEADER_SIZE = 72"

record slab_header =
  sh_class_idx :: nat
  sh_total_count :: nat
  sh_free_count :: nat
  sh_free_head :: nat
  sh_next :: nat
  sh_prev :: nat
  sh_allocated :: "u64 list"

definition object_area_offset :: "nat \<Rightarrow> nat" where
  "object_area_offset class_size = div_ceil SLAB_HEADER_SIZE class_size * class_size"

definition capacity_for :: "nat \<Rightarrow> nat checked" where
  "capacity_for class_size =
     and_then (usub FRAME_SIZE (object_area_offset class_size)) (\<lambda>room.
       require (room div class_size \<le> MAX_SLOTS) ''capacity_for: exceeds the allocated bitmap'' (Inr (room div class_size)))"

text \<open>\<open>next_power_of_two\<close> as its exponent.\<close>

definition class_index_for :: "nat \<Rightarrow> nat checked" where
  "class_index_for required =
     (case List.find (\<lambda>i. required \<le> 2 ^ i) [0..<64] of
        None \<Rightarrow> Inl Arith_overflow
      | Some i \<Rightarrow> require (2 ^ max i 4 \<le> MAX_SLAB_SIZE) ''class_index_for: doesn't fit any slab class'' (Inr (max i 4 - 4)))"

subsection \<open>State\<close>

record large_entry =
  le_virt :: nat
  le_frames :: nat

definition MAX_LARGE_OBJECTS :: nat where "MAX_LARGE_OBJECTS = 512"

definition EMPTY_ENTRY :: large_entry where "EMPTY_ENTRY = \<lparr>le_virt = 0, le_frames = 0\<rparr>"

record large_table =
  lt_entries :: "large_entry list"
  lt_count :: nat
  lt_total_frames :: nat

definition large_new :: large_table where
  "large_new = \<lparr>lt_entries = replicate MAX_LARGE_OBJECTS EMPTY_ENTRY, lt_count = 0, lt_total_frames = 0\<rparr>"

record heap =
  hp_classes :: "nat list"
  hp_large :: large_table
  hp_bytes_in_use :: nat
  hp_small_objects :: nat
  hp_slabs :: nat
  hp_header :: "nat \<Rightarrow> slab_header"
  hp_node :: "nat \<Rightarrow> nat"
  hp_mm :: mm_state

text \<open>\<open>HeapState::new\<close>, over whatever the memory holds.\<close>

definition heap_new :: "(nat \<Rightarrow> slab_header) \<Rightarrow> (nat \<Rightarrow> nat) \<Rightarrow> mm_state \<Rightarrow> heap" where
  "heap_new headers nodes s = \<lparr>hp_classes = replicate NUM_CLASSES 0, hp_large = large_new, hp_bytes_in_use = 0,
     hp_small_objects = 0, hp_slabs = 0, hp_header = headers, hp_node = nodes, hp_mm = s\<rparr>"

definition upd_header :: "nat \<Rightarrow> (slab_header \<Rightarrow> slab_header) \<Rightarrow> heap \<Rightarrow> heap" where
  "upd_header b f h = h\<lparr>hp_header := (hp_header h)(b := f (hp_header h b))\<rparr>"

subsection \<open>Slabs\<close>

definition slot_index :: "nat \<Rightarrow> nat \<Rightarrow> nat \<Rightarrow> nat checked" where
  "slot_index base p class_size =
     and_then (usub p base) (\<lambda>a. and_then (usub a (object_area_offset class_size)) (\<lambda>a. Inr (a div class_size)))"

definition slot_bit :: "nat \<Rightarrow> u64" where "slot_bit slot = push_bit (slot mod 64) 1"

definition slot_is_allocated :: "slab_header \<Rightarrow> nat \<Rightarrow> bool checked" where
  "slot_is_allocated hdr slot = and_then (index_at (sh_allocated hdr) (slot div 64)) (\<lambda>w. Inr (w AND slot_bit slot \<noteq> 0))"

definition slot_set_allocated :: "nat \<Rightarrow> slab_header \<Rightarrow> slab_header checked" where
  "slot_set_allocated slot hdr = and_then (index_at (sh_allocated hdr) (slot div 64)) (\<lambda>w.
     Inr (hdr\<lparr>sh_allocated := (sh_allocated hdr)[slot div 64 := w OR slot_bit slot]\<rparr>))"

definition slot_clear_allocated :: "nat \<Rightarrow> slab_header \<Rightarrow> slab_header checked" where
  "slot_clear_allocated slot hdr = and_then (index_at (sh_allocated hdr) (slot div 64)) (\<lambda>w.
     Inr (hdr\<lparr>sh_allocated := (sh_allocated hdr)[slot div 64 := w AND NOT (slot_bit slot)]\<rparr>))"

definition pop_free :: "nat \<Rightarrow> nat \<Rightarrow> heap \<Rightarrow> (nat \<times> heap) checked" where
  "pop_free b class_size h =
     (let hdr = hp_header h b; node = sh_free_head hdr in
      require (0 < sh_free_count hdr) ''pop_free: slab has no free objects''
      (and_then (usub (sh_free_count hdr) 1) (\<lambda>n.
       and_then (slot_index b node class_size) (\<lambda>slot.
       and_then (slot_set_allocated slot (hdr\<lparr>sh_free_head := hp_node h node, sh_free_count := n\<rparr>)) (\<lambda>hdr'.
         Inr (node, upd_header b (\<lambda>_. hdr') h))))))"

definition set_class_head :: "nat \<Rightarrow> nat \<Rightarrow> heap \<Rightarrow> heap" where
  "set_class_head ci b h = h\<lparr>hp_classes := (hp_classes h)[ci := b]\<rparr>"

definition unlink :: "nat \<Rightarrow> nat \<Rightarrow> heap \<Rightarrow> heap" where
  "unlink ci b h =
     (let hdr = hp_header h b;
          h1 = (if sh_prev hdr = 0 then set_class_head ci (sh_next hdr) h
                else upd_header (sh_prev hdr) (\<lambda>p. p\<lparr>sh_next := sh_next hdr\<rparr>) h) in
      if sh_next hdr \<noteq> 0 then upd_header (sh_next hdr) (\<lambda>n. n\<lparr>sh_prev := sh_prev hdr\<rparr>) h1 else h1)"

text \<open>The first slab of the list with a free slot, or 0.\<close>

partial_function (option) find_slab :: "(nat \<Rightarrow> slab_header) \<Rightarrow> nat \<Rightarrow> nat option" where
  "find_slab headers cursor =
     (if cursor = 0 then Some 0
      else if 0 < sh_free_count (headers cursor) then Some cursor
      else find_slab headers (sh_next (headers cursor)))"

text \<open>One round of the loop that threads the slots of a fresh slab.\<close>

definition thread_slot :: "nat \<Rightarrow> nat \<Rightarrow> nat \<Rightarrow> heap \<Rightarrow> heap" where
  "thread_slot b class_size i h =
     (let obj = b + object_area_offset class_size + i * class_size in
      upd_header b (\<lambda>hdr. hdr\<lparr>sh_free_head := obj\<rparr>) (h\<lparr>hp_node := (hp_node h)(obj := sh_free_head (hp_header h b))\<rparr>))"

definition init_slab :: "nat \<Rightarrow> nat \<Rightarrow> nat \<Rightarrow> nat \<Rightarrow> heap \<Rightarrow> heap" where
  "init_slab ci class_size capacity b h =
     (let head = hp_classes h ! ci;
          h1 = upd_header b (\<lambda>_. \<lparr>sh_class_idx = ci, sh_total_count = capacity, sh_free_count = capacity, sh_free_head = 0,
                 sh_next = head, sh_prev = 0, sh_allocated = replicate ALLOCATED_WORDS 0\<rparr>) h;
          h2 = (if head \<noteq> 0 then upd_header head (\<lambda>n. n\<lparr>sh_prev := b\<rparr>) h1 else h1) in
      fold (thread_slot b class_size) (rev [0..<capacity]) (set_class_head ci b h2))"

definition new_slab :: "nat \<Rightarrow> heap \<Rightarrow> ((nat \<times> bool) option \<times> heap) checked" where
  "new_slab ci h =
     (let class_size = CLASS_SIZES ! ci in
      and_then (alloc_frame (hp_mm h)) (\<lambda>(r, mm).
        case r of
          None \<Rightarrow> Inr (None, h\<lparr>hp_mm := mm\<rparr>)
        | Some phys \<Rightarrow>
            and_then (phys_to_virt mm phys) (\<lambda>b.
            and_then (capacity_for class_size) (\<lambda>capacity.
            and_then (pop_free b class_size (init_slab ci class_size capacity b (h\<lparr>hp_mm := mm\<rparr>))) (\<lambda>(p, h').
              Inr (Some (p, True), h'))))))"

definition alloc_object :: "nat \<Rightarrow> heap \<Rightarrow> ((nat \<times> bool) option \<times> heap) checked option" where
  "alloc_object ci h =
     (case find_slab (hp_header h) (hp_classes h ! ci) of
        None \<Rightarrow> None
      | Some b \<Rightarrow> Some (if b = 0 then new_slab ci h
                        else and_then (pop_free b (CLASS_SIZES ! ci) h) (\<lambda>(p, h'). Inr (Some (p, False), h'))))"

definition free_object :: "nat \<Rightarrow> nat \<Rightarrow> heap \<Rightarrow> (bool \<times> heap) checked" where
  "free_object ci p h =
     (let b = p div FRAME_SIZE * FRAME_SIZE; hdr = hp_header h b; class_size = CLASS_SIZES ! ci in
      require (sh_class_idx hdr = ci) ''heap: class mismatch''
      (and_then (slot_index b p class_size) (\<lambda>slot.
       and_then (slot_is_allocated hdr slot) (\<lambda>used.
       require used ''heap: double free''
       (and_then (slot_clear_allocated slot hdr) (\<lambda>hd1.
        let hd2 = hd1\<lparr>sh_free_head := p, sh_free_count := sh_free_count hd1 + 1\<rparr>;
            h2 = upd_header b (\<lambda>_. hd2) (h\<lparr>hp_node := (hp_node h)(p := sh_free_head hdr)\<rparr>) in
        require (sh_free_count hd1 + 1 < 2 ^ 32) ''free_count overflows''
        (if sh_free_count hd2 \<noteq> sh_total_count hd2 then Inr (False, h2)
         else
           and_then (virt_to_phys_hhdm (hp_mm h2) b) (\<lambda>phys.
           and_then (free_frame phys (hp_mm h2)) (\<lambda>mm.
             Inr (True, (unlink ci b h2)\<lparr>hp_mm := mm\<rparr>))))))))))"

subsection \<open>Large objects\<close>

definition find_entry :: "nat \<Rightarrow> large_table \<Rightarrow> nat option" where
  "find_entry virt t = List.find (\<lambda>i. le_virt (lt_entries t ! i) = virt) [0..<length (lt_entries t)]"

definition large_alloc :: "nat \<Rightarrow> heap \<Rightarrow> (nat option \<times> heap) checked" where
  "large_alloc n_frames h =
     (case find_entry 0 (hp_large h) of
        None \<Rightarrow> Inr (None, h)
      | Some slot \<Rightarrow>
          and_then (alloc_contiguous n_frames 1 (hp_mm h)) (\<lambda>(r, mm).
            case r of
              None \<Rightarrow> Inr (None, h\<lparr>hp_mm := mm\<rparr>)
            | Some phys \<Rightarrow>
                and_then (phys_to_virt mm phys) (\<lambda>virt.
                and_then (uadd (lt_count (hp_large h)) 1) (\<lambda>count.
                and_then (uadd (lt_total_frames (hp_large h)) n_frames) (\<lambda>total.
                  Inr (Some virt, h\<lparr>hp_mm := mm, hp_large := \<lparr>lt_entries = (lt_entries (hp_large h))[slot := \<lparr>le_virt = virt, le_frames = n_frames\<rparr>],
                    lt_count = count, lt_total_frames = total\<rparr>\<rparr>))))))"

definition large_free :: "nat \<Rightarrow> heap \<Rightarrow> (nat \<times> heap) checked" where
  "large_free p h =
     (case find_entry p (hp_large h) of
        None \<Rightarrow> Inl (Assert_failed ''heap: free of unknown large object'')
      | Some slot \<Rightarrow>
          let frames = le_frames (lt_entries (hp_large h) ! slot) in
          and_then (usub (lt_count (hp_large h)) 1) (\<lambda>count.
          and_then (usub (lt_total_frames (hp_large h)) frames) (\<lambda>total.
          and_then (virt_to_phys_hhdm (hp_mm h) p) (\<lambda>phys.
          and_then (free_contiguous phys frames (hp_mm h)) (\<lambda>mm.
            Inr (frames, h\<lparr>hp_mm := mm, hp_large := \<lparr>lt_entries = (lt_entries (hp_large h))[slot := EMPTY_ENTRY],
              lt_count = count, lt_total_frames = total\<rparr>\<rparr>))))))"

subsection \<open>Routing\<close>

datatype alloc_kind = Small nat | Large nat | Rejected

definition classify :: "nat \<Rightarrow> nat \<Rightarrow> alloc_kind checked" where
  "classify size0 align =
     (let bytes = max size0 1 in
      if FRAME_SIZE < align then Inr Rejected
      else if MAX_SLAB_SIZE < max bytes align then Inr (Large (max (div_ceil bytes FRAME_SIZE) 1))
      else and_then (class_index_for (max bytes align)) (\<lambda>ci. Inr (Small ci)))"

definition heap_alloc :: "nat \<Rightarrow> nat \<Rightarrow> heap \<Rightarrow> (nat \<times> heap) checked option" where
  "heap_alloc bytes align h =
     (case classify bytes align of
        Inl e \<Rightarrow> Some (Inl e)
      | Inr Rejected \<Rightarrow> Some (Inr (0, h))
      | Inr (Small ci) \<Rightarrow> map_option (\<lambda>r.
          and_then r (\<lambda>(out, h1).
            case out of
              None \<Rightarrow> Inr (0, h1)
            | Some (p, fresh) \<Rightarrow>
                and_then (uadd (hp_slabs h1) (of_bool fresh)) (\<lambda>slabs.
                and_then (uadd (hp_small_objects h1) 1) (\<lambda>n.
                and_then (uadd (hp_bytes_in_use h1) (CLASS_SIZES ! ci)) (\<lambda>total.
                  Inr (p, h1\<lparr>hp_slabs := slabs, hp_small_objects := n, hp_bytes_in_use := total\<rparr>))))))
          (alloc_object ci h)
      | Inr (Large n_frames) \<Rightarrow> Some (
          and_then (large_alloc n_frames h) (\<lambda>(out, h1).
            case out of
              None \<Rightarrow> Inr (0, h1)
            | Some p \<Rightarrow>
                and_then (umul n_frames FRAME_SIZE) (\<lambda>b.
                and_then (uadd (hp_bytes_in_use h1) b) (\<lambda>total. Inr (p, h1\<lparr>hp_bytes_in_use := total\<rparr>))))))"

definition heap_dealloc :: "nat \<Rightarrow> nat \<Rightarrow> nat \<Rightarrow> heap \<Rightarrow> heap checked" where
  "heap_dealloc p bytes align h =
     and_then (classify bytes align) (\<lambda>kind.
       case kind of
         Small ci \<Rightarrow>
           and_then (free_object ci p h) (\<lambda>(gone, h1).
           and_then (usub (hp_slabs h1) (of_bool gone)) (\<lambda>slabs.
           and_then (usub (hp_small_objects h1) 1) (\<lambda>n.
           and_then (usub (hp_bytes_in_use h1) (CLASS_SIZES ! ci)) (\<lambda>total.
             Inr (h1\<lparr>hp_slabs := slabs, hp_small_objects := n, hp_bytes_in_use := total\<rparr>)))))
       | Large _ \<Rightarrow>
           and_then (large_free p h) (\<lambda>(frames, h1).
           and_then (umul frames FRAME_SIZE) (\<lambda>b.
           and_then (usub (hp_bytes_in_use h1) b) (\<lambda>total. Inr (h1\<lparr>hp_bytes_in_use := total\<rparr>))))
       | Rejected \<Rightarrow> Inl (Assert_failed ''heap::dealloc: rejected layout was never allocated''))"

text \<open>\<open>write_bytes\<close> and \<open>copy_nonoverlapping\<close> on the direct map.\<close>

definition write_zeros :: "nat \<Rightarrow> nat \<Rightarrow> heap \<Rightarrow> heap" where
  "write_zeros p n h = (let a = p - mm_hhdm_offset (hp_mm h) in
     h\<lparr>hp_mm := hp_mm h\<lparr>mm_ram := (\<lambda>x. if a \<le> x \<and> x < a + n then 0 else mm_ram (hp_mm h) x)\<rparr>\<rparr>)"

definition copy_bytes :: "nat \<Rightarrow> nat \<Rightarrow> nat \<Rightarrow> heap \<Rightarrow> heap" where
  "copy_bytes src dst n h = (let s = src - mm_hhdm_offset (hp_mm h); d = dst - mm_hhdm_offset (hp_mm h); ram = mm_ram (hp_mm h) in
     h\<lparr>hp_mm := hp_mm h\<lparr>mm_ram := (\<lambda>x. if d \<le> x \<and> x < d + n then ram (s + (x - d)) else ram x)\<rparr>\<rparr>)"

definition heap_alloc_zeroed :: "nat \<Rightarrow> nat \<Rightarrow> heap \<Rightarrow> (nat \<times> heap) checked option" where
  "heap_alloc_zeroed bytes align h = map_option (\<lambda>r. and_then r (\<lambda>(p, h1).
     Inr (p, if p \<noteq> 0 then write_zeros p bytes h1 else h1))) (heap_alloc bytes align h)"

definition heap_realloc :: "nat \<Rightarrow> nat \<Rightarrow> nat \<Rightarrow> nat \<Rightarrow> heap \<Rightarrow> (nat \<times> heap) checked option" where
  "heap_realloc p bytes align new_size h =
     (if 2 ^ 63 \<le> (new_size + align - 1) div align * align then Some (Inr (0, h))
      else case (classify bytes align, classify new_size align) of
        (Inl e, _) \<Rightarrow> Some (Inl e)
      | (_, Inl e) \<Rightarrow> Some (Inl e)
      | (Inr old, Inr new) \<Rightarrow>
          if old = new \<and> old \<noteq> Rejected then Some (Inr (p, h))
          else map_option (\<lambda>r. and_then r (\<lambda>(q, h1).
            if q = 0 then Inr (q, h1)
            else and_then (heap_dealloc p bytes align (copy_bytes p q (min bytes new_size) h1)) (\<lambda>h2. Inr (q, h2))))
            (heap_alloc new_size align h))"

record heap_stats =
  hs_bytes_in_use :: nat
  hs_small_objects_in_use :: nat
  hs_slabs :: nat
  hs_large_objects :: nat
  hs_large_frames :: nat

definition heap_stats_of :: "heap \<Rightarrow> heap_stats" where
  "heap_stats_of h = \<lparr>hs_bytes_in_use = hp_bytes_in_use h, hs_small_objects_in_use = hp_small_objects h, hs_slabs = hp_slabs h,
     hs_large_objects = lt_count (hp_large h), hs_large_frames = lt_total_frames (hp_large h)\<rparr>"

end
