(* ===== verification/Heap_Slabs.thy ===== *)
theory Heap_Slabs
  imports Heap
begin

text \<open>
  The slabs of the kernel heap: the layout of the eight classes, the bitmap of a header, the free list of a slab and the
  doubly linked list of a class as lists in memory, and what taking a slot, giving one back, adding a slab and unlinking one
  do to them.
\<close>

subsection \<open>The size classes\<close>

abbreviation csize :: "nat \<Rightarrow> nat" where "csize ci \<equiv> CLASS_SIZES ! ci"

definition slab_cap :: "nat \<Rightarrow> nat" where
  "slab_cap ci = (FRAME_SIZE - object_area_offset (csize ci)) div csize ci"

definition slot_addr :: "nat \<Rightarrow> nat \<Rightarrow> nat \<Rightarrow> nat" where
  "slot_addr b ci i = b + object_area_offset (csize ci) + i * csize ci"

lemma less_8_cases: "ci < (8::nat) \<Longrightarrow> ci = 0 \<or> ci = 1 \<or> ci = 2 \<or> ci = 3 \<or> ci = 4 \<or> ci = 5 \<or> ci = 6 \<or> ci = 7"
  by linarith

lemma class_facts:
  assumes "ci < 8"
  shows "csize ci = 2 ^ (ci + 4)" "capacity_for (csize ci) = Inr (slab_cap ci)" "0 < slab_cap ci" "slab_cap ci \<le> 256"
    "object_area_offset (csize ci) + slab_cap ci * csize ci \<le> FRAME_SIZE" "SLAB_HEADER_SIZE \<le> object_area_offset (csize ci)"
    "csize ci dvd object_area_offset (csize ci)" "csize ci dvd FRAME_SIZE" "16 \<le> csize ci"
  using less_8_cases[OF assms]
  by (elim disjE; simp add: CLASS_SIZES_def slab_cap_def capacity_for_def object_area_offset_def div_ceil_def SLAB_HEADER_SIZE_def
      FRAME_SIZE_def MAX_SLOTS_def usub_def)+

text \<open>A slot lies behind the header and inside the frame, and no two overlap.\<close>

lemma slot_inside:
  assumes "ci < 8" "i < slab_cap ci"
  shows "b + SLAB_HEADER_SIZE \<le> slot_addr b ci i" "slot_addr b ci i + csize ci \<le> b + FRAME_SIZE" "slot_addr b ci i < b + FRAME_SIZE"
proof -
  note f = class_facts[OF assms(1)]
  have "(i + 1) * csize ci \<le> slab_cap ci * csize ci" using assms(2) by (intro mult_le_mono1) simp
  then have "i * csize ci + csize ci \<le> slab_cap ci * csize ci" by (simp add: algebra_simps)
  then show "slot_addr b ci i + csize ci \<le> b + FRAME_SIZE" using f(5) by (simp add: slot_addr_def)
  then show "slot_addr b ci i < b + FRAME_SIZE" using f(9) by linarith
  show "b + SLAB_HEADER_SIZE \<le> slot_addr b ci i" using f(6) by (simp add: slot_addr_def)
qed

lemma slots_apart:
  assumes "ci < 8" "i < j" shows "slot_addr b ci i + csize ci \<le> slot_addr b ci j"
proof -
  have "(i + 1) * csize ci \<le> j * csize ci" using assms(2) by (intro mult_le_mono1) simp
  then show ?thesis by (simp add: slot_addr_def algebra_simps)
qed

lemma slot_addr_inj: "ci < 8 \<Longrightarrow> slot_addr b ci i = slot_addr b ci j \<longleftrightarrow> i = j"
  using class_facts(9)[of ci] by (auto simp: slot_addr_def)

lemma slot_index_addr: "ci < 8 \<Longrightarrow> slot_index b (slot_addr b ci i) (csize ci) = Inr i"
  using class_facts(9)[of ci] by (simp add: slot_index_def slot_addr_def usub_def)

lemma slot_base:
  assumes "ci < 8" "i < slab_cap ci" "FRAME_SIZE dvd b"
  shows "slot_addr b ci i div FRAME_SIZE * FRAME_SIZE = b"
proof -
  obtain k where k: "b = FRAME_SIZE * k" using assms(3) by blast
  have "slot_addr b ci i div FRAME_SIZE = k"
  proof (rule div_nat_eqI)
    show "FRAME_SIZE * k \<le> slot_addr b ci i" using slot_inside(1)[OF assms(1,2), of b] k by simp
    show "slot_addr b ci i < FRAME_SIZE * Suc k" using slot_inside(3)[OF assms(1,2), of b] k by simp
  qed
  then show ?thesis using k by simp
qed

subsection \<open>The bitmap of a header\<close>

definition taken :: "slab_header \<Rightarrow> nat set" where
  "taken hdr = {i. i div 64 < length (sh_allocated hdr) \<and> bit (sh_allocated hdr ! (i div 64)) (i mod 64)}"

lemma bit_slot_bit: "bit (slot_bit i) k \<longleftrightarrow> k = i mod 64"
proof -
  have "i mod 64 < LENGTH(64)" by simp
  then show ?thesis unfolding slot_bit_def bit_push_bit_iff bit_1_iff possible_bit_word by auto
qed

lemma and_slot_bit: "w AND slot_bit i \<noteq> 0 \<longleftrightarrow> bit w (i mod 64)"
proof
  assume b: "bit w (i mod 64)"
  have "bit (w AND slot_bit i) (i mod 64)" using b by (simp add: bit_and_iff bit_slot_bit)
  then show "w AND slot_bit i \<noteq> 0" by (metis bit_0_eq bot_apply bot_bool_def)
next
  assume "w AND slot_bit i \<noteq> 0"
  then obtain k where "bit (w AND slot_bit i) k" using bit_eqI[of "w AND slot_bit i" 0] by auto
  then show "bit w (i mod 64)" by (auto simp: bit_and_iff bit_slot_bit)
qed

lemma slot_is_allocated_eq: "i div 64 < length (sh_allocated hdr) \<Longrightarrow> slot_is_allocated hdr i = Inr (i \<in> taken hdr)"
  by (simp add: slot_is_allocated_def taken_def and_slot_bit)

lemma same_slot: "i div 64 = j div 64 \<Longrightarrow> i mod 64 = j mod 64 \<Longrightarrow> i = (j::nat)"
  by (metis div_mult_mod_eq)

lemma slot_set_ok:
  assumes "i div 64 < length (sh_allocated hdr)"
  obtains hdr' where "slot_set_allocated i hdr = Inr hdr'" "taken hdr' = insert i (taken hdr)"
    "hdr' = hdr\<lparr>sh_allocated := sh_allocated hdr'\<rparr>" "length (sh_allocated hdr') = length (sh_allocated hdr)"
proof -
  let ?w = "sh_allocated hdr ! (i div 64)"
  let ?h = "hdr\<lparr>sh_allocated := (sh_allocated hdr)[i div 64 := ?w OR slot_bit i]\<rparr>"
  have "taken ?h = insert i (taken hdr)"
    using assms same_slot[of _ i] by (auto simp: taken_def nth_list_update bit_or_iff bit_slot_bit split: if_splits)
  then show ?thesis using assms that[of ?h] by (simp add: slot_set_allocated_def)
qed

lemma slot_clear_ok:
  assumes "i div 64 < length (sh_allocated hdr)"
  obtains hdr' where "slot_clear_allocated i hdr = Inr hdr'" "taken hdr' = taken hdr - {i}"
    "hdr' = hdr\<lparr>sh_allocated := sh_allocated hdr'\<rparr>" "length (sh_allocated hdr') = length (sh_allocated hdr)"
proof -
  let ?w = "sh_allocated hdr ! (i div 64)"
  let ?h = "hdr\<lparr>sh_allocated := (sh_allocated hdr)[i div 64 := ?w AND NOT (slot_bit i)]\<rparr>"
  have lt: "k mod 64 < 64" for k :: nat by simp
  have "taken ?h = taken hdr - {i}"
    using assms same_slot[of _ i] lt
    by (auto simp: taken_def nth_list_update bit_and_iff bit_not_iff bit_slot_bit split: if_splits)
  then show ?thesis using assms that[of ?h] by (simp add: slot_clear_allocated_def)
qed

subsection \<open>Lists in memory\<close>

fun node_list :: "(nat \<Rightarrow> nat) \<Rightarrow> nat \<Rightarrow> nat list \<Rightarrow> bool" where
  "node_list nx p [] \<longleftrightarrow> p = 0"
| "node_list nx p (x # xs) \<longleftrightarrow> p = x \<and> x \<noteq> 0 \<and> node_list nx (nx x) xs"

lemma node_list_cong: "(\<And>x. x \<in> set xs \<Longrightarrow> nx' x = nx x) \<Longrightarrow> node_list nx' p xs = node_list nx p xs"
  by (induction xs arbitrary: p) auto

text \<open>A segment of slabs: from \<open>p\<close>, whose predecessor is \<open>q\<close>, up to \<open>r\<close>, whose predecessor is \<open>s\<close>.\<close>

fun slab_seg :: "(nat \<Rightarrow> slab_header) \<Rightarrow> nat \<Rightarrow> nat \<Rightarrow> nat list \<Rightarrow> nat \<Rightarrow> nat \<Rightarrow> bool" where
  "slab_seg hs p q [] r s \<longleftrightarrow> p = r \<and> q = s"
| "slab_seg hs p q (b # bs) r s \<longleftrightarrow> p = b \<and> b \<noteq> 0 \<and> sh_prev (hs b) = q \<and> slab_seg hs (sh_next (hs b)) b bs r s"

definition slab_list :: "(nat \<Rightarrow> slab_header) \<Rightarrow> nat \<Rightarrow> nat list \<Rightarrow> bool" where
  "slab_list hs p bs \<longleftrightarrow> (\<exists>s. slab_seg hs p 0 bs 0 s)"

lemma slab_seg_append: "slab_seg hs p q (xs @ ys) r s \<longleftrightarrow> (\<exists>m n. slab_seg hs p q xs m n \<and> slab_seg hs m n ys r s)"
  by (induction xs arbitrary: p q) auto

lemma slab_seg_cong:
  "(\<And>b. b \<in> set bs \<Longrightarrow> sh_next (hs' b) = sh_next (hs b) \<and> sh_prev (hs' b) = sh_prev (hs b)) \<Longrightarrow> slab_seg hs' p q bs r s = slab_seg hs p q bs r s"
  by (induction bs arbitrary: p q) auto

lemma slab_seg_end: "slab_seg hs p q bs r s \<Longrightarrow> (bs = [] \<longrightarrow> s = q) \<and> (bs \<noteq> [] \<longrightarrow> s = last bs \<and> p = hd bs \<and> p \<noteq> 0 \<and> sh_next (hs (last bs)) = r)"
  by (induction bs arbitrary: p q) (auto split: if_splits)

text \<open>Redirecting the link out of a segment, and the one back into it.\<close>

lemma slab_seg_set_next:
  assumes "slab_seg hs p q bs r s" "bs \<noteq> []" "distinct bs" "sh_next (hs' s) = m" "sh_prev (hs' s) = sh_prev (hs s)"
    "\<And>b. b \<in> set bs \<Longrightarrow> b \<noteq> s \<Longrightarrow> sh_next (hs' b) = sh_next (hs b) \<and> sh_prev (hs' b) = sh_prev (hs b)"
  shows "slab_seg hs' p q bs m s"
  using assms
proof (induction bs arbitrary: p q)
  case (Cons b bs)
  show ?case
  proof (cases "bs = []")
    case True
    then show ?thesis using Cons.prems by auto
  next
    case False
    then have "s = last bs" using slab_seg_end Cons.prems(1) by fastforce
    then have "b \<noteq> s" using Cons.prems(3) False by auto
    then show ?thesis using Cons False by auto
  qed
qed simp

lemma slab_seg_set_prev:
  assumes "slab_seg hs p q bs r s" "bs \<noteq> []" "distinct bs" "sh_prev (hs' p) = m" "sh_next (hs' p) = sh_next (hs p)"
    "\<And>b. b \<in> set bs \<Longrightarrow> b \<noteq> p \<Longrightarrow> sh_next (hs' b) = sh_next (hs b) \<and> sh_prev (hs' b) = sh_prev (hs b)"
  shows "slab_seg hs' p m bs r s"
proof (cases bs)
  case (Cons b cs)
  have "slab_seg hs' (sh_next (hs b)) b cs r s = slab_seg hs (sh_next (hs b)) b cs r s"
    by (rule slab_seg_cong) (use assms Cons in auto)
  then show ?thesis using assms Cons by auto
qed (use assms in simp)

lemma find_slab_seg:
  "slab_seg hs p q bs 0 s \<Longrightarrow> find_slab hs p = Some (case List.find (\<lambda>b. 0 < sh_free_count (hs b)) bs of Some b \<Rightarrow> b | None \<Rightarrow> 0)"
proof (induction bs arbitrary: p q)
  case Nil
  then show ?case by (subst find_slab.simps) simp
next
  case (Cons b bs)
  then show ?case by (subst find_slab.simps) auto
qed
subsection \<open>One slab\<close>

text \<open>The free list of a slab runs through exactly the slots whose bit is clear.\<close>

definition slab_ok :: "slab_header \<Rightarrow> (nat \<Rightarrow> nat) \<Rightarrow> nat \<Rightarrow> nat \<Rightarrow> bool" where
  "slab_ok hdr nx ci b \<longleftrightarrow> sh_class_idx hdr = ci \<and> sh_total_count hdr = slab_cap ci \<and> length (sh_allocated hdr) = 4
     \<and> taken hdr \<subseteq> {..<slab_cap ci}
     \<and> (\<exists>fl. distinct fl \<and> set fl = slot_addr b ci ` ({..<slab_cap ci} - taken hdr) \<and> length fl = sh_free_count hdr
          \<and> node_list nx (sh_free_head hdr) fl)"

lemma taken_cong: "sh_allocated hdr' = sh_allocated hdr \<Longrightarrow> taken hdr' = taken hdr"
  by (simp add: taken_def)

lemma slab_ok_cong:
  assumes "ci < 8" "slab_ok hdr nx ci b"
    and "\<And>x. b \<le> x \<Longrightarrow> x < b + FRAME_SIZE \<Longrightarrow> nx' x = nx x"
    and "sh_class_idx hdr' = sh_class_idx hdr" "sh_total_count hdr' = sh_total_count hdr" "sh_allocated hdr' = sh_allocated hdr"
      "sh_free_count hdr' = sh_free_count hdr" "sh_free_head hdr' = sh_free_head hdr"
  shows "slab_ok hdr' nx' ci b"
proof -
  obtain fl where fl: "distinct fl" "set fl = slot_addr b ci ` ({..<slab_cap ci} - taken hdr)" "length fl = sh_free_count hdr"
    "node_list nx (sh_free_head hdr) fl" using assms(2) by (auto simp: slab_ok_def)
  have "nx' x = nx x" if x: "x \<in> set fl" for x
  proof -
    obtain i where i: "x = slot_addr b ci i" "i < slab_cap ci" using x fl(2) by auto
    show ?thesis using slot_inside[OF assms(1) i(2), of b] i(1) by (intro assms(3)) auto
  qed
  then have "node_list nx' (sh_free_head hdr) fl" using node_list_cong[of fl nx' nx] fl(4) by simp
  then show ?thesis using assms fl(1-3) taken_cong[OF assms(6)] by (auto simp: slab_ok_def)
qed

lemma slab_ok_links: "ci < 8 \<Longrightarrow> slab_ok hdr nx ci b \<Longrightarrow> slab_ok (hdr\<lparr>sh_next := n\<rparr>) nx ci b \<and> slab_ok (hdr\<lparr>sh_prev := n\<rparr>) nx ci b"
  by (intro conjI; erule slab_ok_cong; simp)

lemma slab_free_count:
  assumes "ci < 8" "slab_ok hdr nx ci b"
  shows "sh_free_count hdr = slab_cap ci - card (taken hdr)" "taken hdr \<subseteq> {..<slab_cap ci}" "finite (taken hdr)"
proof -
  obtain fl where fl: "distinct fl" "set fl = slot_addr b ci ` ({..<slab_cap ci} - taken hdr)" "length fl = sh_free_count hdr"
    using assms(2) by (auto simp: slab_ok_def)
  show t: "taken hdr \<subseteq> {..<slab_cap ci}" using assms(2) by (simp add: slab_ok_def)
  then show fin: "finite (taken hdr)" by (rule finite_subset) simp
  have "sh_free_count hdr = card (slot_addr b ci ` ({..<slab_cap ci} - taken hdr))"
    using fl distinct_card by metis
  also have "\<dots> = card ({..<slab_cap ci} - taken hdr)"
    by (rule card_image) (simp add: inj_on_def slot_addr_inj[OF assms(1)])
  also have "\<dots> = slab_cap ci - card (taken hdr)" using t fin by (simp add: card_Diff_subset)
  finally show "sh_free_count hdr = slab_cap ci - card (taken hdr)" .
qed

lemma slot_word: "ci < 8 \<Longrightarrow> i < slab_cap ci \<Longrightarrow> i div 64 < 4"
  using class_facts(4)[of ci] by (simp add: less_mult_imp_div_less)

lemma pop_free_ok:
  assumes "ci < 8" "slab_ok (hp_header h b) (hp_node h) ci b" "0 < sh_free_count (hp_header h b)"
  obtains i hdr where "i < slab_cap ci" "i \<notin> taken (hp_header h b)"
    "pop_free b (csize ci) h = Inr (slot_addr b ci i, upd_header b (\<lambda>_. hdr) h)"
    "slab_ok hdr (hp_node h) ci b" "taken hdr = insert i (taken (hp_header h b))"
    "sh_next hdr = sh_next (hp_header h b)" "sh_prev hdr = sh_prev (hp_header h b)"
proof -
  let ?h = "hp_header h b"
  obtain fl where fl: "distinct fl" "set fl = slot_addr b ci ` ({..<slab_cap ci} - taken ?h)" "length fl = sh_free_count ?h"
    "node_list (hp_node h) (sh_free_head ?h) fl" using assms(2) by (auto simp: slab_ok_def)
  then obtain p ps where p: "fl = p # ps" using assms(3) by (cases fl) auto
  then obtain i where i: "p = slot_addr b ci i" "i < slab_cap ci" "i \<notin> taken ?h" using fl(2) by auto
  have head: "sh_free_head ?h = p" "node_list (hp_node h) (hp_node h p) ps" using fl(4) p by auto
  let ?g = "?h\<lparr>sh_free_head := hp_node h p, sh_free_count := sh_free_count ?h - 1\<rparr>"
  have len: "length (sh_allocated ?h) = 4" using assms(2) by (simp add: slab_ok_def)
  then have "i div 64 < length (sh_allocated ?g)" using slot_word[OF assms(1) i(2)] by simp
  then obtain hdr where hdr: "slot_set_allocated i ?g = Inr hdr" "taken hdr = insert i (taken ?g)"
    "hdr = ?g\<lparr>sh_allocated := sh_allocated hdr\<rparr>" "length (sh_allocated hdr) = length (sh_allocated ?g)"
    by (rule slot_set_ok)
  define al where "al = sh_allocated hdr"
  have eq: "hdr = ?g\<lparr>sh_allocated := al\<rparr>" using hdr(3) al_def by simp
  have t: "taken hdr = insert i (taken ?h)" using hdr(2) taken_cong[of ?g ?h] by simp
  have ps: "distinct ps" "set ps = slot_addr b ci ` ({..<slab_cap ci} - taken hdr)" "length ps = sh_free_count ?h - 1"
  proof -
    show "distinct ps" "length ps = sh_free_count ?h - 1" using fl(1,3) p by auto
    have "set ps = set fl - {p}" using fl(1) p by auto
    also have "\<dots> = slot_addr b ci ` ({..<slab_cap ci} - taken hdr)"
      unfolding fl(2) t i(1) using slot_addr_inj[OF assms(1)] by auto
    finally show "set ps = slot_addr b ci ` ({..<slab_cap ci} - taken hdr)" .
  qed
  have fields: "sh_class_idx hdr = sh_class_idx ?h" "sh_total_count hdr = sh_total_count ?h" "sh_free_count hdr = sh_free_count ?h - 1"
    "sh_free_head hdr = hp_node h p" "sh_next hdr = sh_next ?h" "sh_prev hdr = sh_prev ?h" unfolding eq by simp_all
  have "taken hdr \<subseteq> {..<slab_cap ci}" using t i(2) assms(2) by (auto simp: slab_ok_def)
  then have ok: "slab_ok hdr (hp_node h) ci b"
    using ps head(2) hdr(4) len assms(2) fields unfolding slab_ok_def by auto
  have sub: "usub (sh_free_count ?h) 1 = Inr (sh_free_count ?h - 1)" using assms(3) by (simp add: usub_def)
  have "pop_free b (csize ci) h = Inr (p, upd_header b (\<lambda>_. hdr) h)"
    unfolding pop_free_def Let_def head(1) sub
    using assms(3) hdr(1) slot_index_addr[OF assms(1), of b i] by (simp add: i(1))
  then show thesis using that[of i hdr] i ok t fields(5,6) by simp
qed
text \<open>The tail of \<open>free_object\<close> once the slot is on the free list.\<close>

definition settle_slab :: "nat \<Rightarrow> nat \<Rightarrow> heap \<Rightarrow> (bool \<times> heap) checked" where
  "settle_slab ci b h =
     (if sh_free_count (hp_header h b) \<noteq> sh_total_count (hp_header h b) then Inr (False, h)
      else and_then (virt_to_phys_hhdm (hp_mm h) b) (\<lambda>phys. and_then (free_frame phys (hp_mm h)) (\<lambda>mm. Inr (True, (unlink ci b h)\<lparr>hp_mm := mm\<rparr>))))"

definition put_slot :: "nat \<Rightarrow> nat \<Rightarrow> slab_header \<Rightarrow> heap \<Rightarrow> heap" where
  "put_slot b p hdr h = upd_header b (\<lambda>_. hdr) (h\<lparr>hp_node := (hp_node h)(p := sh_free_head (hp_header h b))\<rparr>)"

lemma free_object_live:
  assumes "ci < 8" "slab_ok (hp_header h b) (hp_node h) ci b" "i \<in> taken (hp_header h b)" "FRAME_SIZE dvd b" "b \<noteq> 0"
  obtains hdr where "free_object ci (slot_addr b ci i) h = settle_slab ci b (put_slot b (slot_addr b ci i) hdr h)"
    "slab_ok hdr ((hp_node h)(slot_addr b ci i := sh_free_head (hp_header h b))) ci b"
    "taken hdr = taken (hp_header h b) - {i}" "sh_next hdr = sh_next (hp_header h b)" "sh_prev hdr = sh_prev (hp_header h b)"
proof -
  let ?h = "hp_header h b" let ?p = "slot_addr b ci i"
  have i: "i < slab_cap ci" using slab_free_count(2)[OF assms(1,2)] assms(3) by auto
  have len: "length (sh_allocated ?h) = 4" and cls: "sh_class_idx ?h = ci" using assms(2) by (auto simp: slab_ok_def)
  then have w: "i div 64 < length (sh_allocated ?h)" using slot_word[OF assms(1) i] by simp
  then obtain hd1 where hd1: "slot_clear_allocated i ?h = Inr hd1" "taken hd1 = taken ?h - {i}"
    "hd1 = ?h\<lparr>sh_allocated := sh_allocated hd1\<rparr>" "length (sh_allocated hd1) = length (sh_allocated ?h)"
    by (rule slot_clear_ok)
  define al where "al = sh_allocated hd1"
  have eq: "hd1 = ?h\<lparr>sh_allocated := al\<rparr>" using hd1(3) al_def by simp
  define hdr where "hdr = hd1\<lparr>sh_free_head := ?p, sh_free_count := sh_free_count hd1 + 1\<rparr>"
  have fields: "sh_class_idx hdr = sh_class_idx ?h" "sh_total_count hdr = sh_total_count ?h" "sh_free_count hdr = sh_free_count ?h + 1"
    "sh_free_head hdr = ?p" "sh_next hdr = sh_next ?h" "sh_prev hdr = sh_prev ?h" "sh_allocated hdr = al" unfolding hdr_def eq by simp_all
  have t: "taken hdr = taken ?h - {i}" using hd1(2) taken_cong[of hdr hd1] by (simp add: hdr_def)
  obtain fl where fl: "distinct fl" "set fl = slot_addr b ci ` ({..<slab_cap ci} - taken ?h)" "length fl = sh_free_count ?h"
    "node_list (hp_node h) (sh_free_head ?h) fl" using assms(2) by (auto simp: slab_ok_def)
  let ?nx = "(hp_node h)(?p := sh_free_head ?h)"
  have np: "?p \<notin> set fl" using fl(2) assms(3) slot_addr_inj[OF assms(1)] by auto
  have "node_list ?nx (sh_free_head ?h) fl" using node_list_cong[of fl ?nx "hp_node h"] np fl(4) by fastforce
  moreover have "?p \<noteq> 0" using assms(5) by (simp add: slot_addr_def)
  ultimately have nl: "node_list ?nx ?p (?p # fl)" by simp
  have "set (?p # fl) = slot_addr b ci ` ({..<slab_cap ci} - taken hdr)"
    unfolding t using fl(2) i assms(3) slot_addr_inj[OF assms(1)] by auto
  then have ok: "slab_ok hdr ?nx ci b"
    using nl np fl(1,3) hd1(4) len assms(2) fields t unfolding slab_ok_def al_def
    by (intro conjI exI[of _ "?p # fl"]) auto
  have "sh_free_count ?h < 256" 
  proof -
    have "card (taken ?h) > 0" using assms(3) slab_free_count(3)[OF assms(1,2)] by (auto simp: card_gt_0_iff)
    then show ?thesis using slab_free_count(1)[OF assms(1,2)] class_facts(3,4)[OF assms(1)] by linarith
  qed
  then have lt: "sh_free_count hd1 + 1 < 2 ^ 32" unfolding eq by simp
  have used: "slot_is_allocated ?h i = Inr True" using slot_is_allocated_eq[OF w] assms(3) by simp
  have suc: "hd1\<lparr>sh_free_head := ?p, sh_free_count := Suc (sh_free_count hd1)\<rparr> = hdr" by (simp add: hdr_def)
  have suc2: "hd1\<lparr>sh_free_head := ?p, sh_free_count := sh_free_count hdr\<rparr> = hdr" by (simp add: hdr_def)
  have suc3: "hd1\<lparr>sh_free_head := ?p, sh_free_count := sh_total_count hdr\<rparr> = hdr" if "sh_free_count hdr = sh_total_count hdr"
    using suc2 that by simp
  have lt2: "sh_free_count hd1 < 4294967295" using lt by simp
  have cnt: "sh_total_count hd1 = sh_total_count hdr" "Suc (sh_free_count hd1) = sh_free_count hdr" by (simp_all add: hdr_def)
  have run: "free_object ci ?p h = settle_slab ci b (put_slot b ?p hdr h)"
    using cls used lt2
    by (simp add: free_object_def slot_base[OF assms(1) i assms(4)] Let_def slot_index_addr[OF assms(1)] hd1(1)
        settle_slab_def put_slot_def suc suc2 suc3 cnt upd_header_def)
  show thesis by (rule that[OF run ok t fields(5,6)])
qed

lemma free_object_twice:
  assumes "ci < 8" "slab_ok (hp_header h b) (hp_node h) ci b" "i < slab_cap ci" "i \<notin> taken (hp_header h b)" "FRAME_SIZE dvd b"
  shows "free_object ci (slot_addr b ci i) h = Inl (Assert_failed ''heap: double free'')"
proof -
  let ?h = "hp_header h b"
  have len: "length (sh_allocated ?h) = 4" and cls: "sh_class_idx ?h = ci" using assms(2) by (auto simp: slab_ok_def)
  then have "slot_is_allocated ?h i = Inr False" using slot_is_allocated_eq[of i ?h] slot_word[OF assms(1,3)] assms(4) by simp
  then show ?thesis using cls
    by (simp add: free_object_def slot_base[OF assms(1,3,5)] Let_def slot_index_addr[OF assms(1)])
qed

text \<open>A fresh slab: every slot is threaded, none is taken.\<close>

lemma thread_slots:
  assumes "ci < 8" "k \<le> slab_cap ci" "b \<noteq> 0"
  obtains hdr nx where
    "fold (thread_slot b (csize ci)) (rev [k..<slab_cap ci]) h = h\<lparr>hp_header := (hp_header h)(b := hdr), hp_node := nx\<rparr>"
    "hdr = (hp_header h b)\<lparr>sh_free_head := sh_free_head hdr\<rparr>"
    "sh_free_head (hp_header h b) = 0 \<Longrightarrow> node_list nx (sh_free_head hdr) (map (slot_addr b ci) [k..<slab_cap ci])"
    "\<And>x. \<not> (b \<le> x \<and> x < b + FRAME_SIZE) \<Longrightarrow> nx x = hp_node h x"
    "\<And>x. x < slot_addr b ci k \<Longrightarrow> nx x = hp_node h x"
  using assms(2)
proof (induction "slab_cap ci - k" arbitrary: k thesis)
  case 0
  then have e: "[k..<slab_cap ci] = []" by simp
  show ?case by (rule 0(2)[where hdr = "hp_header h b" and nx = "hp_node h"]) (simp_all add: e)
next
  case (Suc n)
  then have lt: "k < slab_cap ci" by simp
  have "n = slab_cap ci - Suc k" "Suc k \<le> slab_cap ci" using Suc.hyps(2) lt by auto
  then obtain hdr nx where r:
    "fold (thread_slot b (csize ci)) (rev [Suc k..<slab_cap ci]) h = h\<lparr>hp_header := (hp_header h)(b := hdr), hp_node := nx\<rparr>"
    "hdr = (hp_header h b)\<lparr>sh_free_head := sh_free_head hdr\<rparr>"
    "sh_free_head (hp_header h b) = 0 \<Longrightarrow> node_list nx (sh_free_head hdr) (map (slot_addr b ci) [Suc k..<slab_cap ci])"
    "\<And>x. \<not> (b \<le> x \<and> x < b + FRAME_SIZE) \<Longrightarrow> nx x = hp_node h x"
    "\<And>x. x < slot_addr b ci (Suc k) \<Longrightarrow> nx x = hp_node h x"
    using Suc.hyps(1)[of "Suc k"] by blast
  let ?p = "slot_addr b ci k"
  let ?hdr = "hdr\<lparr>sh_free_head := ?p\<rparr>" let ?nx = "nx(?p := sh_free_head hdr)"
  have up: "[k..<slab_cap ci] = k # [Suc k..<slab_cap ci]" using lt by (rule upt_conv_Cons)
  have run: "fold (thread_slot b (csize ci)) (rev [k..<slab_cap ci]) h = h\<lparr>hp_header := (hp_header h)(b := ?hdr), hp_node := ?nx\<rparr>"
    by (simp add: up r(1) thread_slot_def Let_def upd_header_def slot_addr_def[symmetric])
  have inside: "b \<le> ?p" "?p < b + FRAME_SIZE" using slot_inside[OF assms(1) lt, of b] by auto
  have less: "slot_addr b ci k < slot_addr b ci (Suc k)" using class_facts(9)[OF assms(1)] by (simp add: slot_addr_def)
  have nl: "node_list ?nx (sh_free_head ?hdr) (map (slot_addr b ci) [k..<slab_cap ci])" if z: "sh_free_head (hp_header h b) = 0"
  proof -
    have "node_list ?nx (sh_free_head hdr) (map (slot_addr b ci) [Suc k..<slab_cap ci])"
      by (rule node_list_cong[THEN iffD2, OF _ r(3)[OF z]]) (auto simp: slot_addr_inj[OF assms(1)])
    moreover have "?p \<noteq> 0" using assms(3) by (simp add: slot_addr_def)
    ultimately show ?thesis by (simp add: up)
  qed
  have eq: "?hdr = (hp_header h b)\<lparr>sh_free_head := sh_free_head ?hdr\<rparr>" by (subst r(2)) simp
  show ?case
  proof (rule Suc.prems(1)[OF run eq nl])
    show "?nx x = hp_node h x" if "\<not> (b \<le> x \<and> x < b + FRAME_SIZE)" for x using r(4)[OF that] inside that by auto
    show "?nx x = hp_node h x" if "x < ?p" for x using r(5)[of x] less that by simp
  qed
qed
subsection \<open>The slabs of every class\<close>

definition slabs_wf :: "(nat \<Rightarrow> nat list) \<Rightarrow> heap \<Rightarrow> bool" where
  "slabs_wf ls h \<longleftrightarrow> length (hp_classes h) = 8 \<and> (\<forall>ci<8. slab_list (hp_header h) (hp_classes h ! ci) (ls ci) \<and> distinct (ls ci)
     \<and> (\<forall>b\<in>set (ls ci). slab_ok (hp_header h b) (hp_node h) ci b \<and> FRAME_SIZE dvd b))"

definition small_blocks :: "(nat \<Rightarrow> nat list) \<Rightarrow> heap \<Rightarrow> (nat \<times> alloc_kind) set" where
  "small_blocks ls h = {(slot_addr b ci i, Small ci) |b ci i. ci < 8 \<and> b \<in> set (ls ci) \<and> i \<in> taken (hp_header h b)}"

lemma slabs_wfD:
  assumes "slabs_wf ls h" "ci < 8"
  shows "slab_list (hp_header h) (hp_classes h ! ci) (ls ci)" "distinct (ls ci)" "length (hp_classes h) = 8"
    "b \<in> set (ls ci) \<Longrightarrow> slab_ok (hp_header h b) (hp_node h) ci b" "b \<in> set (ls ci) \<Longrightarrow> FRAME_SIZE dvd b"
  using assms by (auto simp: slabs_wf_def)

lemma slab_seg_nonzero: "slab_seg hs p q bs r s \<Longrightarrow> b \<in> set bs \<Longrightarrow> b \<noteq> 0"
  by (induction bs arbitrary: p q) auto

lemma slabs_wf_nonzero: "slabs_wf ls h \<Longrightarrow> ci < 8 \<Longrightarrow> b \<in> set (ls ci) \<Longrightarrow> b \<noteq> 0"
  using slabs_wfD(1) slab_seg_nonzero by (fastforce simp: slab_list_def)

lemma one_class: "slabs_wf ls h \<Longrightarrow> ci < 8 \<Longrightarrow> cj < 8 \<Longrightarrow> b \<in> set (ls ci) \<Longrightarrow> b \<in> set (ls cj) \<Longrightarrow> ci = cj"
  using slabs_wfD(4)[of ls h ci b] slabs_wfD(4)[of ls h cj b] by (simp add: slab_ok_def)

lemma frames_apart:
  assumes "FRAME_SIZE dvd b" "FRAME_SIZE dvd c" "b < c" shows "b + FRAME_SIZE \<le> (c::nat)"
proof -
  obtain k l where k: "b = FRAME_SIZE * k" "c = FRAME_SIZE * l" using assms(1,2) by blast
  have "k < l" using assms(3) k by simp
  then have "FRAME_SIZE * (k + 1) \<le> FRAME_SIZE * l" by (intro mult_le_mono2) simp
  then show ?thesis using k by simp
qed

lemma frame_unique: "FRAME_SIZE dvd b \<Longrightarrow> FRAME_SIZE dvd c \<Longrightarrow> b \<le> x \<Longrightarrow> x < b + FRAME_SIZE \<Longrightarrow> c \<le> x \<Longrightarrow> x < c + FRAME_SIZE \<Longrightarrow> b = (c::nat)"
  using frames_apart[of b c] frames_apart[of c b] by linarith

text \<open>Changing what one slab holds, but not its links.\<close>

lemma slabs_wf_update:
  assumes wf: "slabs_wf ls h" and ci: "ci < 8" "b \<in> set (ls ci)" and ok: "slab_ok hdr nx ci b"
    and links: "sh_next hdr = sh_next (hp_header h b)" "sh_prev hdr = sh_prev (hp_header h b)"
    and nx: "\<And>x. \<not> (b \<le> x \<and> x < b + FRAME_SIZE) \<Longrightarrow> nx x = hp_node h x"
    and h': "hp_header h' = (hp_header h)(b := hdr)" "hp_node h' = nx" "hp_classes h' = hp_classes h"
  shows "slabs_wf ls h'"
  unfolding slabs_wf_def
proof (intro conjI allI impI ballI)
  show "length (hp_classes h') = 8" using slabs_wfD(3)[OF wf ci(1)] h'(3) by simp
  fix cj :: nat assume cj: "cj < 8"
  show "slab_list (hp_header h') (hp_classes h' ! cj) (ls cj)"
  proof -
    have "sh_next (hp_header h' x) = sh_next (hp_header h x) \<and> sh_prev (hp_header h' x) = sh_prev (hp_header h x)" for x
      using links by (simp add: h')
    then have "slab_seg (hp_header h') p q (ls cj) r s = slab_seg (hp_header h) p q (ls cj) r s" for p q r s
      by (intro slab_seg_cong)
    then show ?thesis using slabs_wfD(1)[OF wf cj] by (simp add: slab_list_def h'(3))
  qed
  show "distinct (ls cj)" by (rule slabs_wfD(2)[OF wf cj])
  fix c assume c: "c \<in> set (ls cj)"
  show "FRAME_SIZE dvd c" by (rule slabs_wfD(5)[OF wf cj c])
  show "slab_ok (hp_header h' c) (hp_node h') cj c"
  proof (cases "c = b")
    case True
    then have "cj = ci" using one_class[OF wf ci(1) cj ci(2)] c by simp
    then show ?thesis using ok True h' by simp
  next
    case False
    show ?thesis unfolding h'
    proof (rule slab_ok_cong[OF cj slabs_wfD(4)[OF wf cj c]])
      show "nx x = hp_node h x" if "c \<le> x" "x < c + FRAME_SIZE" for x
        using nx[of x] that frame_unique[OF slabs_wfD(5)[OF wf ci] slabs_wfD(5)[OF wf cj c]] False by blast
    qed (use False in auto)
  qed
qed

lemma slab_slot_unique:
  assumes "ci < 8" "i < slab_cap ci" "j < slab_cap ci" "FRAME_SIZE dvd b" "FRAME_SIZE dvd c" "slot_addr b ci i = slot_addr c ci j"
  shows "b = c" "i = j"
proof -
  show "b = c" using frame_unique[OF assms(4,5), of "slot_addr b ci i"] slot_inside[OF assms(1,2), of b] slot_inside[OF assms(1,3), of c]
      assms(6) by simp
  then show "i = j" using assms(6) slot_addr_inj[OF assms(1)] by simp
qed

lemma small_blocks_mem: "(p, k) \<in> small_blocks ls h \<longleftrightarrow> (\<exists>b ci i. ci < 8 \<and> b \<in> set (ls ci) \<and> i \<in> taken (hp_header h b) \<and> p = slot_addr b ci i \<and> k = Small ci)"
  by (auto simp: small_blocks_def)

lemma small_blocksI: "ci < 8 \<Longrightarrow> b \<in> set (ls ci) \<Longrightarrow> i \<in> taken (hp_header h b) \<Longrightarrow> (slot_addr b ci i, Small ci) \<in> small_blocks ls h"
  by (auto simp: small_blocks_mem)

lemma small_blocks_insert:
  assumes "slabs_wf ls h" "ci < 8" "b \<in> set (ls ci)" "hp_header h' = (hp_header h)(b := hdr)" "taken hdr = insert i (taken (hp_header h b))"
  shows "small_blocks ls h' = insert (slot_addr b ci i, Small ci) (small_blocks ls h)"
proof (rule set_eqI, clarify)
  fix p k
  have one: "cj = ci" if "cj < 8" "b \<in> set (ls cj)" for cj using one_class[OF assms(1,2) that(1) assms(3) that(2)] by simp
  have t: "taken (hp_header h' c) = (if c = b then insert i (taken (hp_header h b)) else taken (hp_header h c))" for c
    using assms(4,5) by simp
  show "(p, k) \<in> small_blocks ls h' \<longleftrightarrow> (p, k) \<in> insert (slot_addr b ci i, Small ci) (small_blocks ls h)" (is "?l \<longleftrightarrow> ?r")
  proof
    assume ?l
    then obtain c cj j where c: "cj < 8" "c \<in> set (ls cj)" "j \<in> taken (hp_header h' c)" "p = slot_addr c cj j" "k = Small cj"
      unfolding small_blocks_mem by blast
    then consider "c = b" "j = i" | "j \<in> taken (hp_header h c)" using t by (auto split: if_splits)
    then show ?r
    proof cases
      case 1
      then show ?thesis using c one by simp
    next
      case 2
      then show ?thesis using small_blocksI[of cj c ls j h, OF c(1,2) 2] c(4,5) by simp
    qed
  next
    assume ?r
    then consider "p = slot_addr b ci i" "k = Small ci" | "(p, k) \<in> small_blocks ls h" by auto
    then show ?l
    proof cases
      case 1
      then show ?thesis using assms(2,3) t unfolding small_blocks_mem by auto
    next
      case 2
      then show ?thesis using t unfolding small_blocks_mem by (metis insertCI)
    qed
  qed
qed

lemma small_blocks_remove:
  assumes "slabs_wf ls h" "ci < 8" "b \<in> set (ls ci)" "hp_header h' = (hp_header h)(b := hdr)" "taken hdr = taken (hp_header h b) - {i}"
    "i \<in> taken (hp_header h b)"
  shows "small_blocks ls h' = small_blocks ls h - {(slot_addr b ci i, Small ci)}"
proof (rule set_eqI, clarify)
  fix p k
  have t: "taken (hp_header h' c) = (if c = b then taken (hp_header h b) - {i} else taken (hp_header h c))" for c
    using assms(4,5) by simp
  have cap: "j < slab_cap cj" if "cj < 8" "c \<in> set (ls cj)" "j \<in> taken (hp_header h c)" for c cj j
    using slab_free_count(2)[OF that(1) slabs_wfD(4)[OF assms(1) that(1,2)]] that(3) by blast
  show "(p, k) \<in> small_blocks ls h' \<longleftrightarrow> (p, k) \<in> small_blocks ls h - {(slot_addr b ci i, Small ci)}" (is "?l \<longleftrightarrow> ?r")
  proof
    assume ?l
    then obtain c cj j where c: "cj < 8" "c \<in> set (ls cj)" "j \<in> taken (hp_header h' c)" "p = slot_addr c cj j" "k = Small cj"
      unfolding small_blocks_mem by blast
    then have j: "j \<in> taken (hp_header h c)" "c = b \<Longrightarrow> j \<noteq> i" using t by (auto split: if_splits)
    have "p \<noteq> slot_addr b ci i" if "cj = ci"
      using slab_slot_unique[OF assms(2) _ _ slabs_wfD(5)[OF assms(1,2)] slabs_wfD(5)[OF assms(1,2)]] j c(1,2,4) that cap assms(2,3,6) by metis
    then show ?r using small_blocksI[of cj c ls j h, OF c(1,2) j(1)] c(4,5) by auto
  next
    assume r: ?r
    then have "(p, k) \<in> small_blocks ls h" by simp
    then obtain c cj j where c: "cj < 8" "c \<in> set (ls cj)" "j \<in> taken (hp_header h c)" "p = slot_addr c cj j" "k = Small cj"
      unfolding small_blocks_mem by blast
    have "j \<in> taken (hp_header h' c)"
    proof (cases "c = b")
      case True
      then have "cj = ci" using one_class[OF assms(1,2) c(1) assms(3)] c(2) by simp
      then show ?thesis using r c t True by auto
    qed (use t c in simp)
    then show ?l using c small_blocks_mem by blast
  qed
qed
text \<open>What linking and unlinking leave alone.\<close>

definition same_slab :: "slab_header \<Rightarrow> slab_header \<Rightarrow> bool" where
  "same_slab g f \<longleftrightarrow> sh_class_idx g = sh_class_idx f \<and> sh_total_count g = sh_total_count f \<and> sh_allocated g = sh_allocated f
     \<and> sh_free_count g = sh_free_count f \<and> sh_free_head g = sh_free_head f"

lemma same_slab_ok:
  assumes "ci < 8" "slab_ok f nx ci b" "same_slab g f" "\<And>x. b \<le> x \<Longrightarrow> x < b + FRAME_SIZE \<Longrightarrow> nx' x = nx x"
  shows "slab_ok g nx' ci b"
  using assms(3) by (intro slab_ok_cong[OF assms(1,2,4)]) (simp_all add: same_slab_def)

lemma same_slab_taken: "same_slab g f \<Longrightarrow> taken g = taken f"
  by (rule taken_cong) (simp add: same_slab_def)

lemma unlink_frame:
  "hp_node (unlink ci b h) = hp_node h" "hp_mm (unlink ci b h) = hp_mm h" "hp_large (unlink ci b h) = hp_large h"
  "hp_bytes_in_use (unlink ci b h) = hp_bytes_in_use h" "hp_small_objects (unlink ci b h) = hp_small_objects h"
  "hp_slabs (unlink ci b h) = hp_slabs h" "same_slab (hp_header (unlink ci b h) x) (hp_header h x)"
  by (simp_all add: unlink_def Let_def upd_header_def set_class_head_def same_slab_def)

lemma unlink_links:
  assumes "b \<noteq> sh_prev (hp_header h b)" "b \<noteq> sh_next (hp_header h b)"
  shows "sh_next (hp_header (unlink ci b h) x)
      = (if x = sh_prev (hp_header h b) \<and> x \<noteq> 0 then sh_next (hp_header h b) else sh_next (hp_header h x))"
    "sh_prev (hp_header (unlink ci b h) x)
      = (if x = sh_next (hp_header h b) \<and> x \<noteq> 0 then sh_prev (hp_header h b) else sh_prev (hp_header h x))"
    "hp_classes (unlink ci b h) = (if sh_prev (hp_header h b) = 0 then (hp_classes h)[ci := sh_next (hp_header h b)] else hp_classes h)"
  using assms by (auto simp: unlink_def Let_def upd_header_def set_class_head_def)

lemma unlink_seg:
  assumes seg: "slab_seg (hp_header h) p 0 (xs @ b # ys) 0 s" and d: "distinct (xs @ b # ys)"
  defines "n \<equiv> sh_next (hp_header h b)" and "m \<equiv> sh_prev (hp_header h b)"
  shows "b \<noteq> n" "b \<noteq> m" "\<exists>s'. slab_seg (hp_header (unlink ci b h)) (if m = 0 then n else p) 0 (xs @ ys) 0 s'"
    "m \<noteq> 0 \<Longrightarrow> m \<in> set xs" "n \<noteq> 0 \<Longrightarrow> n \<in> set ys"
proof -
  let ?hs = "hp_header h"
  have a: "slab_seg ?hs p 0 xs b m" "b \<noteq> 0" "slab_seg ?hs n b ys 0 s"
    using seg by (auto simp: slab_seg_append n_def m_def)
  have m: "(m = 0 \<longleftrightarrow> xs = []) \<and> (xs \<noteq> [] \<longrightarrow> m = last xs)"
    using slab_seg_end[OF a(1)] slab_seg_nonzero[OF a(1)] by (cases "xs = []") auto
  have n: "(n = 0 \<longleftrightarrow> ys = []) \<and> (ys \<noteq> [] \<longrightarrow> n = hd ys)" using slab_seg_end[OF a(3)] a(3) by (cases "ys = []") auto
  show mx: "m \<in> set xs" if "m \<noteq> 0" using m that by auto
  show ny: "n \<in> set ys" if "n \<noteq> 0" using n that by auto
  show bn: "b \<noteq> n" using ny d a(2) by (cases "n = 0") auto
  show bm: "b \<noteq> m" using mx d a(2) by (cases "m = 0") auto
  note links = unlink_links[OF bm[unfolded m_def] bn[unfolded n_def], folded n_def m_def, of ci]
  let ?hs' = "hp_header (unlink ci b h)"
  have front: "slab_seg ?hs' (if m = 0 then n else p) 0 xs n m"
  proof (cases "xs = []")
    case True
    then show ?thesis using m by simp
  next
    case False
    have "slab_seg ?hs' p 0 xs n m"
    proof (rule slab_seg_set_next[OF a(1) False])
      show "distinct xs" using d by simp
      have "m \<in> set xs" "m \<noteq> 0" using mx m False by simp_all
      moreover have "n \<notin> set xs \<or> n = 0" using ny d by auto
      ultimately have "m \<noteq> n" by blast
      then show "sh_next (?hs' m) = n" "sh_prev (?hs' m) = sh_prev (?hs m)" using links m False by auto
      show "sh_next (?hs' x) = sh_next (?hs x) \<and> sh_prev (?hs' x) = sh_prev (?hs x)" if "x \<in> set xs" "x \<noteq> m" for x
        using links that ny d by (cases "n = 0") auto
    qed
    then show ?thesis using m False by simp
  qed
  have "\<exists>s'. slab_seg ?hs' n m ys 0 s'"
  proof (cases "ys = []")
    case True
    then show ?thesis using n by simp
  next
    case False
    have "slab_seg ?hs' n m ys 0 s"
    proof (rule slab_seg_set_prev[OF a(3) False])
      show "distinct ys" using d by simp
      have ny': "n \<in> set ys" using ny n False by simp
      then have "n \<noteq> m" using mx d by (cases "m = 0") (use n False in auto)
      then show "sh_prev (?hs' n) = m" "sh_next (?hs' n) = sh_next (?hs n)" using links n False by auto
      show "sh_next (?hs' x) = sh_next (?hs x) \<and> sh_prev (?hs' x) = sh_prev (?hs x)" if "x \<in> set ys" "x \<noteq> n" for x
        using links that mx d by (cases "m = 0") auto
    qed
    then show ?thesis by blast
  qed
  then show "\<exists>s'. slab_seg ?hs' (if m = 0 then n else p) 0 (xs @ ys) 0 s'" using front slab_seg_append by blast
qed

lemma unlink_wf:
  assumes wf: "slabs_wf ls h" and ci: "ci < 8" "b \<in> set (ls ci)"
  shows "slabs_wf (ls(ci := remove1 b (ls ci))) (unlink ci b h)"
proof -
  obtain xs ys where sp: "ls ci = xs @ b # ys" "b \<notin> set xs" using split_list_first[OF ci(2)] by blast
  have d: "distinct (xs @ b # ys)" using slabs_wfD(2)[OF wf ci(1)] sp(1) by simp
  obtain s where seg: "slab_seg (hp_header h) (hp_classes h ! ci) 0 (xs @ b # ys) 0 s"
    using slabs_wfD(1)[OF wf ci(1)] sp(1) by (auto simp: slab_list_def)
  note u = unlink_seg[OF seg d]
  note links = unlink_links[OF u(2,1), of ci]
  have rm: "remove1 b (ls ci) = xs @ ys" using sp by (simp add: remove1_append)
  have len: "length (hp_classes h) = 8" by (rule slabs_wfD(3)[OF wf ci(1)])
  show ?thesis unfolding slabs_wf_def
  proof (intro conjI allI impI ballI)
    show "length (hp_classes (unlink ci b h)) = 8" using len by (simp add: links(3))
    fix cj :: nat assume cj: "cj < 8"
    show "distinct ((ls(ci := remove1 b (ls ci))) cj)" using slabs_wfD(2)[OF wf cj] d rm by auto
    show "slab_list (hp_header (unlink ci b h)) (hp_classes (unlink ci b h) ! cj) ((ls(ci := remove1 b (ls ci))) cj)"
    proof (cases "cj = ci")
      case True
      have "hp_classes (unlink ci b h) ! ci = (if sh_prev (hp_header h b) = 0 then sh_next (hp_header h b) else hp_classes h ! ci)"
        using len ci by (simp add: links(3))
      then show ?thesis using u(3)[of ci] rm True by (simp add: slab_list_def)
    next
      case False
      have out: "x \<notin> set (ls ci)" if "x \<in> set (ls cj)" for x using one_class[OF wf cj ci(1) that] False by blast
      have in_ls: "sh_prev (hp_header h b) \<noteq> 0 \<Longrightarrow> sh_prev (hp_header h b) \<in> set (ls ci)"
        "sh_next (hp_header h b) \<noteq> 0 \<Longrightarrow> sh_next (hp_header h b) \<in> set (ls ci)" using u(4,5) sp by auto
      have "slab_seg (hp_header (unlink ci b h)) p q (ls cj) r s = slab_seg (hp_header h) p q (ls cj) r s" for p q r s
        by (rule slab_seg_cong) (use links in_ls out in auto)
      then show ?thesis using slabs_wfD(1)[OF wf cj] False by (simp add: slab_list_def links(3))
    qed
    fix c assume "c \<in> set ((ls(ci := remove1 b (ls ci))) cj)"
    then have c: "c \<in> set (ls cj)" using rm sp by (auto split: if_splits)
    show "FRAME_SIZE dvd c" by (rule slabs_wfD(5)[OF wf cj c])
    show "slab_ok (hp_header (unlink ci b h) c) (hp_node (unlink ci b h)) cj c"
      by (rule same_slab_ok[OF cj slabs_wfD(4)[OF wf cj c]]) (simp_all add: unlink_frame)
  qed
qed

lemma unlink_blocks:
  assumes wf: "slabs_wf ls h" and ci: "ci < 8" "b \<in> set (ls ci)" and empty: "taken (hp_header h b) = {}"
  shows "small_blocks (ls(ci := remove1 b (ls ci))) (unlink ci b h) = small_blocks ls h"
proof -
  have t: "taken (hp_header (unlink ci b h) c) = taken (hp_header h c)" for c by (rule same_slab_taken[OF unlink_frame(7)])
  have "set (remove1 b (ls ci)) = set (ls ci) - {b}" by (rule set_remove1_eq[OF slabs_wfD(2)[OF wf ci(1)]])
  then have "(c \<in> set ((ls(ci := remove1 b (ls ci))) cj) \<and> i \<in> taken (hp_header h c)) = (c \<in> set (ls cj) \<and> i \<in> taken (hp_header h c))" for c cj i
    using empty by auto
  then show ?thesis unfolding small_blocks_def t by (metis (no_types, lifting))
qed
text \<open>A fresh slab at the head of its class.\<close>

lemma taken_fresh: "sh_allocated hdr = replicate 4 0 \<Longrightarrow> taken hdr = {}"
  by (auto simp: taken_def)

lemma init_slab_ok:
  assumes ci: "ci < 8" and b: "b \<noteq> 0" "b \<noteq> hp_classes h ! ci"
  obtains hs nx where "init_slab ci (csize ci) (slab_cap ci) b h = h\<lparr>hp_classes := (hp_classes h)[ci := b], hp_header := hs, hp_node := nx\<rparr>"
    "slab_ok (hs b) nx ci b" "taken (hs b) = {}" "sh_next (hs b) = hp_classes h ! ci" "sh_prev (hs b) = 0"
    "\<And>x. x \<noteq> b \<Longrightarrow> same_slab (hs x) (hp_header h x) \<and> sh_next (hs x) = sh_next (hp_header h x)
       \<and> sh_prev (hs x) = (if x = hp_classes h ! ci \<and> x \<noteq> 0 then b else sh_prev (hp_header h x))"
    "\<And>x. \<not> (b \<le> x \<and> x < b + FRAME_SIZE) \<Longrightarrow> nx x = hp_node h x"
proof -
  let ?head = "hp_classes h ! ci"
  let ?new = "\<lparr>sh_class_idx = ci, sh_total_count = slab_cap ci, sh_free_count = slab_cap ci, sh_free_head = 0,
                 sh_next = ?head, sh_prev = 0, sh_allocated = replicate ALLOCATED_WORDS 0\<rparr>"
  let ?h1 = "upd_header b (\<lambda>_. ?new) h"
  let ?h2 = "if ?head \<noteq> 0 then upd_header ?head (\<lambda>n. n\<lparr>sh_prev := b\<rparr>) ?h1 else ?h1"
  let ?h3 = "set_class_head ci b ?h2"
  have run: "init_slab ci (csize ci) (slab_cap ci) b h = fold (thread_slot b (csize ci)) (rev [0..<slab_cap ci]) ?h3"
    by (simp add: init_slab_def Let_def)
  have h3b: "hp_header ?h3 b = ?new" using b by (simp add: set_class_head_def upd_header_def)
  have h3x: "same_slab (hp_header ?h3 x) (hp_header h x) \<and> sh_next (hp_header ?h3 x) = sh_next (hp_header h x)
       \<and> sh_prev (hp_header ?h3 x) = (if x = ?head \<and> x \<noteq> 0 then b else sh_prev (hp_header h x))" if "x \<noteq> b" for x
    using that b by (auto simp: set_class_head_def upd_header_def same_slab_def)
  have h3: "?h3 = h\<lparr>hp_classes := (hp_classes h)[ci := b], hp_header := hp_header ?h3\<rparr>"
    by (simp add: set_class_head_def upd_header_def)
  from thread_slots[OF ci, of 0 b ?h3] b(1) obtain hdr nx where
    r: "fold (thread_slot b (csize ci)) (rev [0..<slab_cap ci]) ?h3 = ?h3\<lparr>hp_header := (hp_header ?h3)(b := hdr), hp_node := nx\<rparr>"
    "hdr = (hp_header ?h3 b)\<lparr>sh_free_head := sh_free_head hdr\<rparr>"
    "sh_free_head (hp_header ?h3 b) = 0 \<Longrightarrow> node_list nx (sh_free_head hdr) (map (slot_addr b ci) [0..<slab_cap ci])"
    "\<And>x. \<not> (b \<le> x \<and> x < b + FRAME_SIZE) \<Longrightarrow> nx x = hp_node ?h3 x" by (metis le0)
  define fh where "fh = sh_free_head hdr"
  have hdr: "hdr = ?new\<lparr>sh_free_head := fh\<rparr>" using r(2) h3b fh_def by simp
  have t: "taken hdr = {}" using hdr by (intro taken_fresh) (simp add: ALLOCATED_WORDS_def)
  have "node_list nx fh (map (slot_addr b ci) [0..<slab_cap ci])" using r(3) h3b fh_def by simp
  moreover have "distinct (map (slot_addr b ci) [0..<slab_cap ci])" by (simp add: distinct_map inj_on_def slot_addr_inj[OF ci])
  ultimately have ok: "slab_ok hdr nx ci b" unfolding slab_ok_def t
    by (intro conjI exI[of _ "map (slot_addr b ci) [0..<slab_cap ci]"]) (simp_all add: hdr ALLOCATED_WORDS_def lessThan_atLeast0)
  have node: "hp_node ?h3 = hp_node h" by (simp add: set_class_head_def upd_header_def)
  show thesis
  proof (rule that[where hs = "(hp_header ?h3)(b := hdr)" and nx = nx])
    show "init_slab ci (csize ci) (slab_cap ci) b h
        = h\<lparr>hp_classes := (hp_classes h)[ci := b], hp_header := (hp_header ?h3)(b := hdr), hp_node := nx\<rparr>"
      unfolding run r(1) by (subst h3) simp
    show "slab_ok (((hp_header ?h3)(b := hdr)) b) nx ci b" "taken (((hp_header ?h3)(b := hdr)) b) = {}"
      "sh_next (((hp_header ?h3)(b := hdr)) b) = ?head" "sh_prev (((hp_header ?h3)(b := hdr)) b) = 0"
      using ok t by (simp_all add: hdr)
    show "same_slab (((hp_header ?h3)(b := hdr)) x) (hp_header h x) \<and> sh_next (((hp_header ?h3)(b := hdr)) x) = sh_next (hp_header h x)
       \<and> sh_prev (((hp_header ?h3)(b := hdr)) x) = (if x = ?head \<and> x \<noteq> 0 then b else sh_prev (hp_header h x))" if "x \<noteq> b" for x
      using h3x[OF that] that by simp
    show "nx x = hp_node h x" if "\<not> (b \<le> x \<and> x < b + FRAME_SIZE)" for x using r(4)[OF that] node by simp
  qed
qed

lemma init_slab_wf:
  assumes wf: "slabs_wf ls h" and ci: "ci < 8" and b: "b \<noteq> 0" "FRAME_SIZE dvd b" "\<And>cj. cj < 8 \<Longrightarrow> b \<notin> set (ls cj)"
  obtains h1 where "init_slab ci (csize ci) (slab_cap ci) b h = h1" "slabs_wf (ls(ci := b # ls ci)) h1" "taken (hp_header h1 b) = {}"
    "small_blocks (ls(ci := b # ls ci)) h1 = small_blocks ls h" "\<And>x. x \<noteq> b \<Longrightarrow> taken (hp_header h1 x) = taken (hp_header h x)"
    "h1 = h\<lparr>hp_classes := hp_classes h1, hp_header := hp_header h1, hp_node := hp_node h1\<rparr>"
proof -
  let ?head = "hp_classes h ! ci"
  obtain s where seg: "slab_seg (hp_header h) ?head 0 (ls ci) 0 s" using slabs_wfD(1)[OF wf ci] by (auto simp: slab_list_def)
  have head: "?head = 0 \<and> ls ci = [] \<or> ?head \<noteq> 0 \<and> ls ci \<noteq> [] \<and> ?head \<in> set (ls ci)"
    using slab_seg_end[OF seg] seg by (cases "ls ci") auto
  then have bh: "b \<noteq> ?head" using b(1,3) ci by auto
  obtain hs nx where r: "init_slab ci (csize ci) (slab_cap ci) b h = h\<lparr>hp_classes := (hp_classes h)[ci := b], hp_header := hs, hp_node := nx\<rparr>"
    "slab_ok (hs b) nx ci b" "taken (hs b) = {}" "sh_next (hs b) = ?head" "sh_prev (hs b) = 0"
    "\<And>x. x \<noteq> b \<Longrightarrow> same_slab (hs x) (hp_header h x) \<and> sh_next (hs x) = sh_next (hp_header h x)
       \<and> sh_prev (hs x) = (if x = ?head \<and> x \<noteq> 0 then b else sh_prev (hp_header h x))"
    "\<And>x. \<not> (b \<le> x \<and> x < b + FRAME_SIZE) \<Longrightarrow> nx x = hp_node h x"
    by (rule init_slab_ok[OF ci b(1) bh]) (rule that; assumption)
  let ?h1 = "h\<lparr>hp_classes := (hp_classes h)[ci := b], hp_header := hs, hp_node := nx\<rparr>" and ?ls = "ls(ci := b # ls ci)"
  have len: "length (hp_classes h) = 8" by (rule slabs_wfD(3)[OF wf ci])
  have nb: "x \<noteq> b" if "cj < 8" "x \<in> set (ls cj)" for x cj using b(3) that by blast
  have t: "taken (hs x) = taken (hp_header h x)" if "x \<noteq> b" for x using r(6)[OF that] same_slab_taken by blast
  have "slabs_wf ?ls ?h1" unfolding slabs_wf_def
  proof (intro conjI allI impI ballI)
    show "length (hp_classes ?h1) = 8" using len by simp
    fix cj :: nat assume cj: "cj < 8"
    show "distinct (?ls cj)" using slabs_wfD(2)[OF wf cj] b(3) cj by auto
    show "slab_list (hp_header ?h1) (hp_classes ?h1 ! cj) (?ls cj)"
    proof (cases "cj = ci")
      case True
      have "\<exists>s. slab_seg hs ?head b (ls ci) 0 s"
      proof (cases "ls ci = []")
        case True
        then show ?thesis using head by simp
      next
        case False
        have "slab_seg hs ?head b (ls ci) 0 s"
          by (rule slab_seg_set_prev[OF seg False slabs_wfD(2)[OF wf ci]]) (use r(6) nb[OF ci] head False bh in auto)
        then show ?thesis by blast
      qed
      then show ?thesis using True len ci b(1) r(4,5) by (simp add: slab_list_def)
    next
      case False
      have "sh_next (hs x) = sh_next (hp_header h x) \<and> sh_prev (hs x) = sh_prev (hp_header h x)" if x: "x \<in> set (ls cj)" for x
      proof -
        have "x \<noteq> ?head \<or> x = 0" using head one_class[OF wf cj ci x] False by auto
        then show ?thesis using r(6)[OF nb[OF cj x]] by auto
      qed
      then have "slab_seg hs p q (ls cj) r s = slab_seg (hp_header h) p q (ls cj) r s" for p q r s
        by (rule slab_seg_cong)
      then show ?thesis using slabs_wfD(1)[OF wf cj] False by (simp add: slab_list_def)
    qed
    fix c assume c: "c \<in> set (?ls cj)"
    show "FRAME_SIZE dvd c" using b(2) c slabs_wfD(5)[OF wf cj] by (auto split: if_splits)
    show "slab_ok (hp_header ?h1 c) (hp_node ?h1) cj c"
    proof (cases "c = b")
      case True
      then have "cj = ci" using c nb[OF cj] by (auto split: if_splits)
      then show ?thesis using r(2) True by simp
    next
      case False
      then have cl: "c \<in> set (ls cj)" using c by (auto split: if_splits)
      have "slab_ok (hs c) nx cj c"
      proof (rule same_slab_ok[OF cj slabs_wfD(4)[OF wf cj cl]])
        show "same_slab (hs c) (hp_header h c)" using r(6)[OF False] by simp
        show "nx x = hp_node h x" if "c \<le> x" "x < c + FRAME_SIZE" for x
          using r(7)[of x] that frame_unique[OF b(2) slabs_wfD(5)[OF wf cj cl]] False by blast
      qed
      then show ?thesis by simp
    qed
  qed
  moreover have "small_blocks ?ls ?h1 = small_blocks ls h"
  proof -
    have "(c \<in> set (?ls cj) \<and> i \<in> taken (hs c)) = (c \<in> set (ls cj) \<and> i \<in> taken (hp_header h c))" if "cj < 8" for c cj i
      using t[of c] r(3) nb[OF that] by auto
    then show ?thesis unfolding small_blocks_def by (simp cong: conj_cong)
  qed
  ultimately show thesis using r(1,3) t by (intro that[of ?h1]) simp_all
qed

end
