(* ===== verification/Heap_Inv.thy ===== *)
theory Heap_Inv
  imports Heap_Slabs "HOL-Library.Disjoint_Sets"
begin

text \<open>
  The invariant of the kernel heap: which frames it owns, the blocks it serves as one set without overlaps, and for every
  operation that the invariant holds again, that no counter overflows and that the blocks change by exactly one.
\<close>

subsection \<open>What the heap owns\<close>

fun kind_bytes :: "alloc_kind \<Rightarrow> nat" where
  "kind_bytes (Small ci) = csize ci"
| "kind_bytes (Large n) = n * FRAME_SIZE"
| "kind_bytes Rejected = 0"

definition block_bytes :: "nat \<times> alloc_kind \<Rightarrow> nat set" where
  "block_bytes = (\<lambda>(p, k). {p..<p + kind_bytes k})"

text \<open>Memory the direct map can name, up to the end of the physical memory.\<close>

definition mem_ok :: "mm_state \<Rightarrow> bool" where
  "mem_ok s \<longleftrightarrow> vm_ok s \<and> FRAME_SIZE dvd mm_hhdm_offset s \<and> mm_hhdm_offset s + mm_phys_end s < u64_limit
     \<and> (\<forall>f\<in>mm_managed s. 0 < f \<and> f + FRAME_SIZE \<le> mm_phys_end s)"

abbreviation hp_off :: "heap \<Rightarrow> nat" where "hp_off h \<equiv> mm_hhdm_offset (hp_mm h)"

definition table_live :: "large_table \<Rightarrow> nat set" where
  "table_live t = {i. i < length (lt_entries t) \<and> le_virt (lt_entries t ! i) \<noteq> 0}"

definition large_block :: "large_table \<Rightarrow> nat \<Rightarrow> nat \<times> alloc_kind" where
  "large_block t i = (le_virt (lt_entries t ! i), Large (le_frames (lt_entries t ! i)))"

definition large_frames :: "nat \<Rightarrow> large_table \<Rightarrow> nat \<Rightarrow> nat set" where
  "large_frames off t i = run_addrs (le_virt (lt_entries t ! i) - off) (le_frames (lt_entries t ! i))"

definition slab_frames :: "(nat \<Rightarrow> nat list) \<Rightarrow> nat \<Rightarrow> nat set" where
  "slab_frames ls off = {a. \<exists>ci<8. a + off \<in> set (ls ci)}"

definition large_wf :: "nat \<Rightarrow> large_table \<Rightarrow> bool" where
  "large_wf off t \<longleftrightarrow> length (lt_entries t) = MAX_LARGE_OBJECTS
     \<and> (\<forall>i\<in>table_live t. 0 < le_frames (lt_entries t ! i) \<and> off \<le> le_virt (lt_entries t ! i) \<and> FRAME_SIZE dvd le_virt (lt_entries t ! i))
     \<and> disjoint_family_on (large_frames off t) (table_live t)
     \<and> lt_count t = card (table_live t) \<and> lt_total_frames t = (\<Sum>i\<in>table_live t. le_frames (lt_entries t ! i))"

definition large_owned :: "nat \<Rightarrow> large_table \<Rightarrow> nat set" where
  "large_owned off t = (\<Union>i\<in>table_live t. large_frames off t i)"

definition heap_frames :: "(nat \<Rightarrow> nat list) \<Rightarrow> heap \<Rightarrow> nat set" where
  "heap_frames ls h = slab_frames ls (hp_off h) \<union> large_owned (hp_off h) (hp_large h)"

definition heap_blocks :: "(nat \<Rightarrow> nat list) \<Rightarrow> heap \<Rightarrow> (nat \<times> alloc_kind) set" where
  "heap_blocks ls h = small_blocks ls h \<union> large_block (hp_large h) ` table_live (hp_large h)"

text \<open>
  The state of the heap over \<open>ls\<close>, the slabs of each class: every slab has a live object and is a frame the heap was lent,
  so is every frame of a large object, and no frame serves twice.
\<close>

definition owns_ok :: "(nat \<Rightarrow> nat list) \<Rightarrow> heap \<Rightarrow> bool" where
  "owns_ok ls h \<longleftrightarrow> mem_ok (hp_mm h) \<and> slabs_wf ls h \<and> large_wf (hp_off h) (hp_large h)
     \<and> (\<forall>ci<8. \<forall>b\<in>set (ls ci). hp_off h \<le> b)
     \<and> heap_frames ls h \<subseteq> mm_lent (hp_mm h) \<and> slab_frames ls (hp_off h) \<inter> large_owned (hp_off h) (hp_large h) = {}"

text \<open>The frame a byte is in.\<close>

definition frame_of :: "nat \<Rightarrow> nat" where "frame_of x = x div FRAME_SIZE * FRAME_SIZE"

lemma frame_of_in: "FRAME_SIZE dvd b \<Longrightarrow> b \<le> x \<Longrightarrow> x < b + FRAME_SIZE \<Longrightarrow> frame_of x = b"
proof -
  assume a: "FRAME_SIZE dvd b" "b \<le> x" "x < b + FRAME_SIZE"
  obtain k where k: "b = FRAME_SIZE * k" using a(1) by blast
  have "x div FRAME_SIZE = k" by (rule div_nat_eqI) (use a k in auto)
  then show ?thesis using k by (simp add: frame_of_def)
qed

lemma frame_of_run:
  assumes "FRAME_SIZE dvd p" "FRAME_SIZE dvd off" "off \<le> p" "x \<in> {p..<p + n * FRAME_SIZE}"
  shows "frame_of x - off \<in> run_addrs (p - off) n" "off \<le> frame_of x"
proof -
  obtain i r where x: "x = p + i * FRAME_SIZE + r" "r < FRAME_SIZE" "i < n"
  proof
    show "x = p + (x - p) div FRAME_SIZE * FRAME_SIZE + (x - p) mod FRAME_SIZE" using assms(4) by simp
    show "(x - p) mod FRAME_SIZE < FRAME_SIZE" by simp
    show "(x - p) div FRAME_SIZE < n" using assms(4) by (intro less_mult_imp_div_less) auto
  qed
  have "frame_of x = p + i * FRAME_SIZE" using x assms(1) by (intro frame_of_in) auto
  then show "off \<le> frame_of x" "frame_of x - off \<in> run_addrs (p - off) n"
    using assms(3) x(3) by (auto simp: run_addrs_def image_iff intro!: bexI[of _ i])
qed

lemma owns_okD:
  assumes "owns_ok ls h"
  shows "mem_ok (hp_mm h)" "slabs_wf ls h" "large_wf (hp_off h) (hp_large h)" "ci < 8 \<Longrightarrow> b \<in> set (ls ci) \<Longrightarrow> hp_off h \<le> b"
    "heap_frames ls h \<subseteq> mm_lent (hp_mm h)" "slab_frames ls (hp_off h) \<inter> large_owned (hp_off h) (hp_large h) = {}"
    "FRAME_SIZE dvd hp_off h" "vm_ok (hp_mm h)" "mm_inv (hp_mm h)"
  using assms by (auto simp: owns_ok_def mem_ok_def vm_ok_def)

lemma small_block_frame:
  assumes "slabs_wf ls h" "ci < 8" "b \<in> set (ls ci)" "i \<in> taken (hp_header h b)" "x \<in> block_bytes (slot_addr b ci i, Small ci)"
  shows "frame_of x = b"
proof -
  have "i < slab_cap ci" using slab_free_count(2)[OF assms(2) slabs_wfD(4)[OF assms(1-3)]] assms(4) by blast
  from slot_inside[OF assms(2) this, of b] show ?thesis
    using assms(5) by (intro frame_of_in slabs_wfD(5)[OF assms(1-3)]) (auto simp: block_bytes_def)
qed

lemma large_block_frame:
  assumes "large_wf off t" "FRAME_SIZE dvd off" "i \<in> table_live t" "x \<in> block_bytes (large_block t i)"
  shows "frame_of x - off \<in> large_frames off t i" "off \<le> frame_of x"
  using assms frame_of_run[of "le_virt (lt_entries t ! i)" off x "le_frames (lt_entries t ! i)"]
  by (auto simp: large_wf_def block_bytes_def large_block_def large_frames_def)

lemma large_in_owned: "i \<in> table_live t \<Longrightarrow> large_frames off t i \<subseteq> large_owned off t"
  by (auto simp: large_owned_def)

lemma slab_in_frames: "ci < 8 \<Longrightarrow> b \<in> set (ls ci) \<Longrightarrow> off \<le> b \<Longrightarrow> b - off \<in> slab_frames ls off"
  by (auto simp: slab_frames_def)

text \<open>No byte belongs to two blocks.\<close>

lemma blocks_apart:
  assumes ok: "owns_ok ls h" and x: "x \<in> block_bytes u" "x \<in> block_bytes v" and uv: "u \<in> heap_blocks ls h" "v \<in> heap_blocks ls h"
  shows "u = v"
proof -
  note D = owns_okD[OF ok]
  note lf = large_block_frame[OF D(3,7)]
  have mixed: False if u: "u \<in> small_blocks ls h" and i: "i \<in> table_live (hp_large h)" and x: "x \<in> block_bytes u" "x \<in> block_bytes (large_block (hp_large h) i)" for u i
  proof -
    obtain b ci j where b: "ci < 8" "b \<in> set (ls ci)" "j \<in> taken (hp_header h b)" "u = (slot_addr b ci j, Small ci)"
      using u by (auto simp: small_blocks_def)
    have "frame_of x = b" using small_block_frame[OF D(2) b(1-3)] x(1) b(4) by simp
    then have "frame_of x - hp_off h \<in> slab_frames ls (hp_off h)" using slab_in_frames b(1,2) D(4) by blast
    moreover have "frame_of x - hp_off h \<in> large_owned (hp_off h) (hp_large h)" using lf(1)[OF i x(2)] large_in_owned[OF i] by blast
    ultimately show False using D(6) by blast
  qed
  from uv show ?thesis unfolding heap_blocks_def
  proof (elim UnE imageE)
    assume "u \<in> small_blocks ls h" "v \<in> small_blocks ls h"
    then obtain b ci j c cj k where
      b: "ci < 8" "b \<in> set (ls ci)" "j \<in> taken (hp_header h b)" "u = (slot_addr b ci j, Small ci)" and
      c: "cj < 8" "c \<in> set (ls cj)" "k \<in> taken (hp_header h c)" "v = (slot_addr c cj k, Small cj)"
      by (auto simp: small_blocks_def)
    have "frame_of x = b" using x(1) b(4) by (intro small_block_frame[OF D(2) b(1-3)]) simp
    moreover have "frame_of x = c" using x(2) c(4) by (intro small_block_frame[OF D(2) c(1-3)]) simp
    ultimately have "b = c" by simp
    moreover then have e: "ci = cj" using one_class[OF D(2) b(1) c(1) b(2)] c(2) by simp
    moreover have "j = k"
    proof (rule ccontr)
      assume "j \<noteq> k"
      then consider "j < k" | "k < j" by linarith
      then show False
        using slots_apart[OF b(1), of j k b] slots_apart[OF b(1), of k j b] x \<open>b = c\<close> e b(4) c(4)
        by cases (auto simp: block_bytes_def)
    qed
    ultimately show ?thesis using b(4) c(4) by simp
  next
    fix i j assume i: "u = large_block (hp_large h) i" "i \<in> table_live (hp_large h)" and j: "v = large_block (hp_large h) j" "j \<in> table_live (hp_large h)"
    have "i = j"
    proof (rule ccontr)
      assume "i \<noteq> j"
      then have "large_frames (hp_off h) (hp_large h) i \<inter> large_frames (hp_off h) (hp_large h) j = {}"
        using D(3) i(2) j(2) by (auto simp: large_wf_def disjoint_family_on_def)
      then show False using lf(1)[OF i(2)] lf(1)[OF j(2)] x i(1) j(1) by blast
    qed
    then show ?thesis using i j by simp
  qed (use mixed x in blast)+
qed
text \<open>The blocks fit into memory, so no counter of the heap overflows.\<close>

lemma heap_frames_fit:
  assumes ok: "owns_ok ls h" and a: "a \<in> heap_frames ls h"
  shows "a + FRAME_SIZE \<le> mm_phys_end (hp_mm h)" "0 < a" "a \<in> mm_managed (hp_mm h)" "a \<notin> mm_avail (hp_mm h)"
  using owns_okD(1,5)[OF ok] a by (auto simp: mem_ok_def mm_lent_def)

lemma block_frame:
  assumes ok: "owns_ok ls h" and u: "u \<in> heap_blocks ls h" and x: "x \<in> block_bytes u"
  shows "frame_of x - hp_off h \<in> heap_frames ls h" "hp_off h \<le> frame_of x"
proof -
  note D = owns_okD[OF ok]
  consider (small) b ci i where "ci < 8" "b \<in> set (ls ci)" "i \<in> taken (hp_header h b)" "u = (slot_addr b ci i, Small ci)"
    | (large) i where "i \<in> table_live (hp_large h)" "u = large_block (hp_large h) i"
    using u by (auto simp: heap_blocks_def small_blocks_def)
  then have "frame_of x - hp_off h \<in> heap_frames ls h \<and> hp_off h \<le> frame_of x"
  proof cases
    case small
    have "frame_of x = b" using x small(4) by (intro small_block_frame[OF D(2) small(1-3)]) simp
    then show ?thesis using slab_in_frames[of ci b ls, OF small(1,2) D(4)[OF small(1,2)]] D(4)[OF small(1,2)] by (simp add: heap_frames_def)
  next
    case large
    then show ?thesis using large_block_frame[OF D(3,7) large(1)] x large_in_owned[OF large(1)] by (auto simp: heap_frames_def)
  qed
  then show "frame_of x - hp_off h \<in> heap_frames ls h" "hp_off h \<le> frame_of x" by auto
qed

lemma frame_of_le: "frame_of x \<le> x" "x < frame_of x + FRAME_SIZE"
proof -
  have "x = frame_of x + x mod FRAME_SIZE" by (simp add: frame_of_def)
  moreover have "x mod FRAME_SIZE < FRAME_SIZE" by simp
  ultimately show "frame_of x \<le> x" "x < frame_of x + FRAME_SIZE" by linarith+
qed

lemma block_below:
  assumes ok: "owns_ok ls h" and u: "u \<in> heap_blocks ls h"
  shows "block_bytes u \<subseteq> {..<hp_off h + mm_phys_end (hp_mm h)}"
proof
  fix x assume x: "x \<in> block_bytes u"
  show "x \<in> {..<hp_off h + mm_phys_end (hp_mm h)}"
    using heap_frames_fit(1)[OF ok block_frame(1)[OF ok u x]] block_frame(2)[OF ok u x] frame_of_le[of x] by simp
qed

lemma finite_small_blocks:
  assumes "slabs_wf ls h" shows "finite (small_blocks ls h)"
proof -
  have "small_blocks ls h = (\<Union>ci\<in>{..<8}. \<Union>b\<in>set (ls ci). (\<lambda>i. (slot_addr b ci i, Small ci)) ` taken (hp_header h b))"
    by (auto simp: small_blocks_def)
  moreover have "finite (taken (hp_header h b))" if "ci < 8" "b \<in> set (ls ci)" for b ci
    using slab_free_count(3)[OF that(1) slabs_wfD(4)[OF assms that]] .
  ultimately show ?thesis by simp
qed

lemma finite_table_live: "finite (table_live t)" by (simp add: table_live_def)

lemma finite_heap_blocks: "owns_ok ls h \<Longrightarrow> finite (heap_blocks ls h)"
  by (simp add: heap_blocks_def finite_small_blocks owns_okD(2) finite_table_live)

definition blocks_total :: "(nat \<times> alloc_kind) set \<Rightarrow> nat" where
  "blocks_total B = (\<Sum>u\<in>B. kind_bytes (snd u))"

lemma card_block_bytes: "card (block_bytes u) = kind_bytes (snd u)"
  by (cases u) (simp add: block_bytes_def)

lemma blocks_total_bound:
  assumes ok: "owns_ok ls h" shows "blocks_total (heap_blocks ls h) < u64_limit"
proof -
  let ?B = "heap_blocks ls h"
  have "blocks_total ?B = (\<Sum>u\<in>?B. card (block_bytes u))" by (simp add: blocks_total_def card_block_bytes)
  also have "\<dots> = card (\<Union>u\<in>?B. block_bytes u)"
  proof (rule card_UN_disjoint[symmetric])
    show "finite ?B" by (rule finite_heap_blocks[OF ok])
    show "\<forall>u\<in>?B. finite (block_bytes u)" by (auto simp: block_bytes_def)
    show "\<forall>u\<in>?B. \<forall>v\<in>?B. u \<noteq> v \<longrightarrow> block_bytes u \<inter> block_bytes v = {}" using blocks_apart[OF ok] by blast
  qed
  also have "\<dots> \<le> card {..<hp_off h + mm_phys_end (hp_mm h)}"
    using block_below[OF ok] by (intro card_mono) auto
  also have "\<dots> < u64_limit" using owns_okD(1)[OF ok] by (simp add: mem_ok_def)
  finally show ?thesis .
qed

lemma block_positive:
  assumes "owns_ok ls h" "u \<in> heap_blocks ls h" shows "0 < kind_bytes (snd u)"
  using assms class_facts(9) owns_okD(3)[OF assms(1)]
  by (fastforce simp: heap_blocks_def small_blocks_def large_block_def large_wf_def FRAME_SIZE_def)

lemma small_count_bound:
  assumes ok: "owns_ok ls h" shows "card (small_blocks ls h) < u64_limit"
proof -
  have sub: "small_blocks ls h \<subseteq> heap_blocks ls h" by (auto simp: heap_blocks_def)
  have "card (small_blocks ls h) \<le> card (heap_blocks ls h)" by (rule card_mono[OF finite_heap_blocks[OF ok] sub])
  also have "\<dots> = (\<Sum>u\<in>heap_blocks ls h. 1)" by simp
  also have "\<dots> \<le> blocks_total (heap_blocks ls h)"
    unfolding blocks_total_def by (rule sum_mono) (use block_positive[OF ok] in fastforce)
  also have "\<dots> < u64_limit" by (rule blocks_total_bound[OF ok])
  finally show ?thesis .
qed

lemma slab_count_bound:
  assumes ok: "owns_ok ls h" shows "(\<Sum>ci<8. length (ls ci)) < u64_limit"
proof -
  note D = owns_okD[OF ok]
  have "(\<Sum>ci<8. length (ls ci)) = (\<Sum>ci<8. card (set (ls ci)))"
    using slabs_wfD(2)[OF D(2)] by (simp add: distinct_card)
  also have "\<dots> = card (\<Union>ci<8. set (ls ci))"
    by (rule card_UN_disjoint[symmetric]) (use one_class[OF D(2)] in auto)
  also have "\<dots> \<le> card {..<hp_off h + mm_phys_end (hp_mm h)}"
  proof (rule card_mono)
    show "(\<Union>ci<8. set (ls ci)) \<subseteq> {..<hp_off h + mm_phys_end (hp_mm h)}"
    proof
      fix b assume "b \<in> (\<Union>ci<8. set (ls ci))"
      then obtain ci where ci: "ci < 8" "b \<in> set (ls ci)" by auto
      have "b - hp_off h \<in> heap_frames ls h" using slab_in_frames[of ci b ls, OF ci D(4)[OF ci]] by (simp add: heap_frames_def)
      from heap_frames_fit(1)[OF ok this] D(4)[OF ci] show "b \<in> {..<hp_off h + mm_phys_end (hp_mm h)}"
        by (simp add: FRAME_SIZE_def)
    qed
  qed simp
  also have "\<dots> < u64_limit" using D(1) by (simp add: mem_ok_def)
  finally show ?thesis .
qed

lemma large_block_inj:
  assumes ok: "owns_ok ls h" shows "inj_on (large_block (hp_large h)) (table_live (hp_large h))"
proof (rule inj_onI)
  fix i j assume i: "i \<in> table_live (hp_large h)" and j: "j \<in> table_live (hp_large h)" and eq: "large_block (hp_large h) i = large_block (hp_large h) j"
  note wf = owns_okD(3)[OF ok]
  have "large_frames (hp_off h) (hp_large h) i = large_frames (hp_off h) (hp_large h) j"
    using eq by (simp add: large_block_def large_frames_def)
  moreover have "large_frames (hp_off h) (hp_large h) i \<noteq> {}" using wf i by (auto simp: large_wf_def large_frames_def run_addrs_def)
  moreover have "large_frames (hp_off h) (hp_large h) i \<inter> large_frames (hp_off h) (hp_large h) j = {}" if "i \<noteq> j"
    using wf i j that unfolding large_wf_def disjoint_family_on_def by blast
  ultimately show "i = j" by auto
qed

lemma large_total_bound:
  assumes ok: "owns_ok ls h" shows "lt_total_frames (hp_large h) < u64_limit" "lt_count (hp_large h) \<le> 512"
proof -
  let ?t = "hp_large h"
  note wf = owns_okD(3)[OF ok]
  have "lt_total_frames ?t = (\<Sum>i\<in>table_live ?t. le_frames (lt_entries ?t ! i))" using wf by (simp add: large_wf_def)
  also have "\<dots> \<le> (\<Sum>i\<in>table_live ?t. kind_bytes (snd (large_block ?t i)))"
    by (rule sum_mono) (simp add: large_block_def FRAME_SIZE_def)
  also have "\<dots> = blocks_total (large_block ?t ` table_live ?t)"
    unfolding blocks_total_def by (subst sum.reindex[OF large_block_inj[OF ok]]) simp
  also have "\<dots> \<le> blocks_total (heap_blocks ls h)"
    unfolding blocks_total_def by (rule sum_mono2[OF finite_heap_blocks[OF ok]]) (auto simp: heap_blocks_def)
  also have "\<dots> < u64_limit" by (rule blocks_total_bound[OF ok])
  finally show "lt_total_frames ?t < u64_limit" .
  have "card (table_live ?t) \<le> card {..<512::nat}" using wf by (intro card_mono) (auto simp: table_live_def large_wf_def MAX_LARGE_OBJECTS_def)
  then show "lt_count ?t \<le> 512" using wf by (simp add: large_wf_def)
qed
subsection \<open>Allocating a small object\<close>

definition no_empty :: "(nat \<Rightarrow> nat list) \<Rightarrow> heap \<Rightarrow> bool" where
  "no_empty ls h \<longleftrightarrow> (\<forall>ci<8. \<forall>b\<in>set (ls ci). taken (hp_header h b) \<noteq> {})"

definition same_mem :: "mm_state \<Rightarrow> mm_state \<Rightarrow> bool" where
  "same_mem s' s \<longleftrightarrow> mm_hhdm_offset s' = mm_hhdm_offset s \<and> mm_phys_end s' = mm_phys_end s \<and> mm_managed s' = mm_managed s
     \<and> mm_ram s' = mm_ram s"

lemma mem_ok_same: "mem_ok s \<Longrightarrow> same_mem s' s \<Longrightarrow> mm_inv s' \<Longrightarrow> mem_ok s'"
  by (simp add: mem_ok_def vm_ok_def same_mem_def)

lemma alloc_frame_mem:
  assumes "mm_inv s" "alloc_frame s = Inr (r, s')"
  shows "same_mem s' s" "mm_inv s'"
proof -
  have "mm_phys_end s' = mm_phys_end s"
    using assms(2) by (auto simp: alloc_frame_def with_pmm_def take_injected_failure_def checked_simps split: if_splits option.splits)
  moreover have "mm_managed s' = mm_managed s \<and> mm_inv s'"
    using general_pool.alloc_some[OF assms(1), of _ s'] general_pool.alloc_none[OF assms(1), of s'] assms(2) by (cases r) auto
  ultimately show "same_mem s' s" "mm_inv s'" using alloc_frame_frame(1,2)[OF assms(2)] by (auto simp: same_mem_def)
qed

text \<open>What an operation keeps besides the slabs: the large objects, the counters, and the frames in anyone's hands.\<close>

definition keeps :: "(nat \<Rightarrow> nat list) \<Rightarrow> heap \<Rightarrow> (nat \<Rightarrow> nat list) \<Rightarrow> heap \<Rightarrow> bool" where
  "keeps ls h ls' h' \<longleftrightarrow> mm_avail (hp_mm h') \<union> heap_frames ls' h' = mm_avail (hp_mm h) \<union> heap_frames ls h
     \<and> hp_bytes_in_use h' = hp_bytes_in_use h \<and> hp_small_objects h' = hp_small_objects h \<and> hp_slabs h' = hp_slabs h
     \<and> same_mem (hp_mm h') (hp_mm h)"

lemma find_slab_class:
  assumes wf: "slabs_wf ls h" and ci: "ci < 8"
  obtains (none) "find_slab (hp_header h) (hp_classes h ! ci) = Some 0"
  | (some) b where "find_slab (hp_header h) (hp_classes h ! ci) = Some b" "b \<in> set (ls ci)" "b \<noteq> 0" "0 < sh_free_count (hp_header h b)"
proof -
  obtain s where seg: "slab_seg (hp_header h) (hp_classes h ! ci) 0 (ls ci) 0 s" using slabs_wfD(1)[OF wf ci] by (auto simp: slab_list_def)
  show thesis
  proof (cases "List.find (\<lambda>b. 0 < sh_free_count (hp_header h b)) (ls ci)")
    case None
    then show thesis using find_slab_seg[OF seg] by (intro none) simp
  next
    case (Some b)
    then have b: "b \<in> set (ls ci)" "0 < sh_free_count (hp_header h b)" by (auto simp: find_Some_iff)
    show thesis by (rule some[of b]) (use find_slab_seg[OF seg] Some b slabs_wf_nonzero[OF wf ci b(1)] in simp_all)
  qed
qed

text \<open>The block handed out is free before, and sits in a slab of the new state.\<close>

definition small_given :: "(nat \<Rightarrow> nat list) \<Rightarrow> heap \<Rightarrow> nat \<Rightarrow> (nat \<Rightarrow> nat list) \<Rightarrow> heap \<Rightarrow> nat \<Rightarrow> bool" where
  "small_given ls h ci ls' h' p \<longleftrightarrow> owns_ok ls' h' \<and> no_empty ls' h' \<and> hp_large h' = hp_large h
     \<and> small_blocks ls' h' = insert (p, Small ci) (small_blocks ls h) \<and> (p, Small ci) \<notin> small_blocks ls h
     \<and> csize ci dvd p \<and> p \<noteq> 0 \<and> keeps ls h ls' h'"

lemma slot_aligned: "ci < 8 \<Longrightarrow> FRAME_SIZE dvd b \<Longrightarrow> csize ci dvd slot_addr b ci i"
  using class_facts(7,8)[of ci] by (simp add: slot_addr_def dvd_trans)

lemma owns_ok_cong:
  assumes "owns_ok ls h" "slabs_wf ls h'" "hp_large h' = hp_large h" "hp_mm h' = hp_mm h"
  shows "owns_ok ls h'" "heap_frames ls h' = heap_frames ls h"
  using assms by (simp_all add: owns_ok_def heap_frames_def)

lemma pop_given:
  assumes ok: "owns_ok ls h" and ci: "ci < 8" and b: "b \<in> set (ls ci)" "0 < sh_free_count (hp_header h b)"
    and others: "\<And>cj c. cj < 8 \<Longrightarrow> c \<in> set (ls cj) \<Longrightarrow> c \<noteq> b \<Longrightarrow> taken (hp_header h c) \<noteq> {}"
  obtains p h' where "pop_free b (csize ci) h = Inr (p, h')" "small_given ls h ci ls h' p"
proof -
  note wf = owns_okD(2)[OF ok]
  from pop_free_ok[OF ci slabs_wfD(4)[OF wf ci b(1)] b(2)] obtain i hdr where
    r: "i < slab_cap ci" "i \<notin> taken (hp_header h b)" "pop_free b (csize ci) h = Inr (slot_addr b ci i, upd_header b (\<lambda>_. hdr) h)"
    "slab_ok hdr (hp_node h) ci b" "taken hdr = insert i (taken (hp_header h b))"
    "sh_next hdr = sh_next (hp_header h b)" "sh_prev hdr = sh_prev (hp_header h b)" by blast
  let ?h' = "upd_header b (\<lambda>_. hdr) h"
  have f: "hp_header ?h' = (hp_header h)(b := hdr)" "hp_node ?h' = hp_node h" "hp_classes ?h' = hp_classes h" "hp_large ?h' = hp_large h"
    "hp_mm ?h' = hp_mm h" "hp_bytes_in_use ?h' = hp_bytes_in_use h" "hp_small_objects ?h' = hp_small_objects h" "hp_slabs ?h' = hp_slabs h"
    by (simp_all add: upd_header_def)
  have wf': "slabs_wf ls ?h'" by (rule slabs_wf_update[OF wf ci b(1) r(4,6,7) _ f(1-3)]) simp
  have blk: "small_blocks ls ?h' = insert (slot_addr b ci i, Small ci) (small_blocks ls h)"
    by (rule small_blocks_insert[OF wf ci b(1) f(1) r(5)])
  have fresh: "(slot_addr b ci i, Small ci) \<notin> small_blocks ls h"
  proof
    assume "(slot_addr b ci i, Small ci) \<in> small_blocks ls h"
    then obtain c j where c: "c \<in> set (ls ci)" "j \<in> taken (hp_header h c)" "slot_addr b ci i = slot_addr c ci j"
      by (auto simp: small_blocks_mem)
    have "j < slab_cap ci" using slab_free_count(2)[OF ci slabs_wfD(4)[OF wf ci c(1)]] c(2) by blast
    from slab_slot_unique[OF ci r(1) this slabs_wfD(5)[OF wf ci b(1)] slabs_wfD(5)[OF wf ci c(1)] c(3)] c(2) r(2) show False by simp
  qed
  have "no_empty ls ?h'" unfolding no_empty_def f(1) using others r(5) by auto
  moreover note owns = owns_ok_cong[OF ok wf' f(4,5)]
  moreover have "keeps ls h ls ?h'" by (simp add: keeps_def owns(2) f same_mem_def)
  ultimately have "small_given ls h ci ls ?h' (slot_addr b ci i)"
    using blk fresh f(4) slot_aligned[OF ci slabs_wfD(5)[OF wf ci b(1)]] slabs_wf_nonzero[OF wf ci b(1)]
    by (simp add: small_given_def slot_addr_def)
  then show thesis by (rule that[OF r(3)])
qed

lemma owns_ok_mm:
  assumes ok: "owns_ok ls h" and mm: "same_mem s (hp_mm h)" "mm_inv s" "mm_avail s \<subseteq> mm_avail (hp_mm h)"
  shows "owns_ok ls (h\<lparr>hp_mm := s\<rparr>)" "heap_frames ls (h\<lparr>hp_mm := s\<rparr>) = heap_frames ls h"
proof -
  have "mem_ok s" by (rule mem_ok_same[OF owns_okD(1)[OF ok] mm(1,2)])
  moreover have "mm_lent (hp_mm h) \<subseteq> mm_lent s" using mm(1,3) by (auto simp: mm_lent_def same_mem_def)
  ultimately show "owns_ok ls (h\<lparr>hp_mm := s\<rparr>)" "heap_frames ls (h\<lparr>hp_mm := s\<rparr>) = heap_frames ls h"
    using ok mm(1) by (auto simp: owns_ok_def heap_frames_def slabs_wf_def same_mem_def)
qed
lemma slab_frames_cons: "ci < 8 \<Longrightarrow> slab_frames (ls(ci := (phys + off) # ls ci)) off = insert phys (slab_frames ls off)"
  by (auto simp: slab_frames_def)

lemma new_slab_given:
  assumes ok: "owns_ok ls h" and full: "no_empty ls h" and ci: "ci < 8" and run: "alloc_frame (hp_mm h) = Inr (Some phys, mm)"
  obtains p ls' h' where "new_slab ci h = Inr (Some (p, True), h')" "small_given ls h ci ls' h' p"
    "(\<Sum>ci<8. length (ls' ci)) = (\<Sum>ci<8. length (ls ci)) + 1"
proof -
  note D = owns_okD[OF ok]
  note am = alloc_frame_mem[OF D(9) run]
  have phys: "phys \<in> mm_avail (hp_mm h)" "mm_avail mm = mm_avail (hp_mm h) - {phys}"
    using general_pool.alloc_some[OF D(9) run] by auto
  let ?off = "hp_off h" let ?b = "phys + ?off" let ?h1 = "h\<lparr>hp_mm := mm\<rparr>" let ?ls = "ls(ci := ?b # ls ci)"
  have off: "mm_hhdm_offset mm = ?off" using am(1) by (simp add: same_mem_def)
  have man: "phys \<in> mm_managed (hp_mm h)" using mm_avail_managed[OF D(9)] phys(1) by blast
  have lent: "phys \<in> mm_lent mm" using man phys(2) am(1) by (simp add: mm_lent_def same_mem_def)
  have pos: "0 < phys" and fd: "FRAME_SIZE dvd phys" using D(1) man vm_okD(3)[OF D(8) man] by (auto simp: mem_ok_def)
  have out: "phys \<notin> heap_frames ls h" using D(5) phys(1) by (auto simp: mm_lent_def)
  have virt: "phys_to_virt mm phys = Inr ?b"
    using vm_okD(4)[of mm phys] mem_ok_same[OF D(1) am] man am(1) off by (simp add: mem_ok_def same_mem_def)
  have o1: "owns_ok ls ?h1" "heap_frames ls ?h1 = heap_frames ls h" using owns_ok_mm[OF ok am] phys(2) by auto
  have nb: "?b \<notin> set (ls cj)" if "cj < 8" for cj using out that by (auto simp: heap_frames_def slab_frames_def)
  have bd: "FRAME_SIZE dvd ?b" "?b \<noteq> 0" using fd D(7) pos by auto
  obtain h2 where h2: "init_slab ci (csize ci) (slab_cap ci) ?b ?h1 = h2" "slabs_wf ?ls h2" "taken (hp_header h2 ?b) = {}"
    "small_blocks ?ls h2 = small_blocks ls ?h1" "\<And>x. x \<noteq> ?b \<Longrightarrow> taken (hp_header h2 x) = taken (hp_header ?h1 x)"
    "h2 = ?h1\<lparr>hp_classes := hp_classes h2, hp_header := hp_header h2, hp_node := hp_node h2\<rparr>"
    by (rule init_slab_wf[OF owns_okD(2)[OF o1(1)] ci bd(2,1)]) (use nb in auto)
  have f2: "hp_mm h2 = mm" "hp_large h2 = hp_large h" "hp_bytes_in_use h2 = hp_bytes_in_use h"
    "hp_small_objects h2 = hp_small_objects h" "hp_slabs h2 = hp_slabs h" by (subst h2(6); simp)+
  have fr2: "heap_frames ?ls h2 = insert phys (heap_frames ls h)"
    by (simp add: heap_frames_def f2 off slab_frames_cons[OF ci])
  have o2: "owns_ok ?ls h2"
    unfolding owns_ok_def
  proof (intro conjI)
    show "mem_ok (hp_mm h2)" "large_wf (hp_off h2) (hp_large h2)" using owns_okD(1,3)[OF o1(1)] by (simp_all add: f2)
    show "slabs_wf ?ls h2" by (rule h2(2))
    show "\<forall>ci<8. \<forall>b\<in>set (?ls ci). hp_off h2 \<le> b" using D(4) by (auto simp: f2 off)
    show "heap_frames ?ls h2 \<subseteq> mm_lent (hp_mm h2)" using owns_okD(5)[OF o1(1)] o1(2) lent by (simp add: fr2 f2)
    show "slab_frames ?ls (hp_off h2) \<inter> large_owned (hp_off h2) (hp_large h2) = {}"
      using D(6) out by (simp add: f2 off slab_frames_cons[OF ci] heap_frames_def)
  qed
  have cnt: "0 < sh_free_count (hp_header h2 ?b)"
    using slab_free_count(1)[OF ci slabs_wfD(4)[OF h2(2) ci, of ?b]] h2(3) class_facts(3)[OF ci] by simp
  have others: "taken (hp_header h2 c) \<noteq> {}" if "cj < 8" "c \<in> set (?ls cj)" "c \<noteq> ?b" for cj c
    using full that h2(5)[OF that(3)] unfolding no_empty_def by (auto split: if_splits)
  obtain p h3 where h3: "pop_free ?b (csize ci) h2 = Inr (p, h3)" "small_given ?ls h2 ci ?ls h3 p"
    by (rule pop_given[OF o2 ci _ cnt others]) auto
  have run3: "new_slab ci h = Inr (Some (p, True), h3)"
    by (simp add: new_slab_def run virt class_facts(2)[OF ci] h2(1) h3(1))
  have sb: "small_blocks ?ls h2 = small_blocks ls h" using h2(4) by (simp add: small_blocks_def)
  have "keeps ls h ?ls h2"
    using fr2 phys am(1) f2 by (auto simp: keeps_def)
  then have "small_given ls h ci ?ls h3 p"
    using h3(2) sb f2 unfolding small_given_def keeps_def same_mem_def by simp
  moreover have "(\<Sum>ci<8. length (?ls ci)) = (\<Sum>ci<8. length (ls ci)) + 1"
  proof -
    have "(\<Sum>cj<8. length (?ls cj)) = (\<Sum>cj<8. length (ls cj) + (if cj = ci then 1 else 0))" by (rule sum.cong) auto
    also have "\<dots> = (\<Sum>cj<8. length (ls cj)) + 1" using ci by (simp add: sum.distrib)
    finally show ?thesis .
  qed
  ultimately show thesis by (rule that[OF run3])
qed

lemma alloc_object_ok:
  assumes ok: "owns_ok ls h" and full: "no_empty ls h" and ci: "ci < 8"
  obtains (none) mm where "alloc_object ci h = Some (Inr (None, h\<lparr>hp_mm := mm\<rparr>))" "mm_pmm mm = mm_pmm (hp_mm h)"
      "mm_general (hp_mm h) = {} \<or> (mm_inject_skip (hp_mm h) = 0 \<and> 0 < mm_inject_failures (hp_mm h))"
      "same_mem mm (hp_mm h)"
  | (some) p fresh ls' h' where "alloc_object ci h = Some (Inr (Some (p, fresh), h'))" "small_given ls h ci ls' h' p"
      "(\<Sum>ci<8. length (ls' ci)) = (\<Sum>ci<8. length (ls ci)) + of_bool fresh"
proof -
  note D = owns_okD[OF ok]
  from D(2) ci show thesis
  proof (cases rule: find_slab_class)
    case none
    then have run: "alloc_object ci h = Some (new_slab ci h)" by (simp add: alloc_object_def)
    from D(9) show thesis
    proof (cases rule: alloc_frame_cases)
      case (none mm)
      then show thesis using alloc_frame_mem(1)[OF D(9) none(1)] by (intro that(1)[of mm]) (simp_all add: run new_slab_def)
    next
      case (some a mm)
      from new_slab_given[OF ok full ci some(1)] obtain p ls' h' where
        "new_slab ci h = Inr (Some (p, True), h')" "small_given ls h ci ls' h' p"
        "(\<Sum>ci<8. length (ls' ci)) = (\<Sum>ci<8. length (ls ci)) + 1" by blast
      then show thesis using run by (intro that(2)[of p True h' ls']) simp_all
    qed
  next
    case (some b)
    from pop_given[OF ok ci some(2,4)] full obtain p h' where "pop_free b (csize ci) h = Inr (p, h')" "small_given ls h ci ls h' p"
      by (auto simp: no_empty_def)
    then show thesis using some by (intro that(2)[of p False h' ls]) (simp_all add: alloc_object_def)
  qed
qed
subsection \<open>Freeing a small object\<close>

lemma free_frame_mem:
  assumes "free_frame a s = Inr s'"
  shows "mm_hhdm_offset s' = mm_hhdm_offset s" "mm_phys_end s' = mm_phys_end s" "mm_ram s' = mm_ram s"
  using assms by (auto simp: free_frame_def with_pmm_def checked_simps Let_def split: option.splits)

lemma heap_frame_virt:
  assumes ok: "owns_ok ls h" and a: "a \<in> heap_frames ls h"
  shows "virt_to_phys_hhdm (hp_mm h) (a + hp_off h) = Inr a"
proof -
  have "mm_hhdm_offset (hp_mm h) + mm_phys_end (hp_mm h) < u64_limit" "hp_off h \<noteq> u64_limit - 1"
    using owns_okD(1)[OF ok] by (auto simp: mem_ok_def vm_ok_def)
  moreover have "a < mm_phys_end (hp_mm h)" using heap_frames_fit(1)[OF ok a] by (simp add: FRAME_SIZE_def)
  ultimately show ?thesis by (simp add: virt_to_phys_hhdm_def hhdm_offset_def uadd_def)
qed

lemma slab_frames_remove:
  assumes wf: "slabs_wf ls h" and ci: "ci < 8" "b \<in> set (ls ci)" and off: "off \<le> b"
  shows "slab_frames (ls(ci := remove1 b (ls ci))) off = slab_frames ls off - {b - off}"
proof -
  have "set (remove1 b (ls ci)) = set (ls ci) - {b}" by (rule set_remove1_eq[OF slabs_wfD(2)[OF wf ci(1)]])
  moreover have "cj = ci" if "cj < 8" "b \<in> set (ls cj)" for cj using one_class[OF wf ci(1) that(1) ci(2) that(2)] by simp
  ultimately have "(a + off \<in> set ((ls(ci := remove1 b (ls ci))) cj)) = (a + off \<in> set (ls cj) \<and> a + off \<noteq> b)" if "cj < 8" for a cj
    using that by auto
  then have "a \<in> slab_frames (ls(ci := remove1 b (ls ci))) off \<longleftrightarrow> a \<in> slab_frames ls off \<and> a + off \<noteq> b" for a
    unfolding slab_frames_def by blast
  moreover have "a + off \<noteq> b \<longleftrightarrow> a \<noteq> b - off" for a using off by auto
  ultimately show ?thesis by blast
qed

definition small_taken_back :: "(nat \<Rightarrow> nat list) \<Rightarrow> heap \<Rightarrow> nat \<Rightarrow> (nat \<Rightarrow> nat list) \<Rightarrow> heap \<Rightarrow> nat \<Rightarrow> bool" where
  "small_taken_back ls h ci ls' h' p \<longleftrightarrow> owns_ok ls' h' \<and> no_empty ls' h' \<and> hp_large h' = hp_large h
     \<and> small_blocks ls' h' = small_blocks ls h - {(p, Small ci)} \<and> keeps ls h ls' h'"

lemma length_remove1_sum:
  fixes ls :: "nat \<Rightarrow> nat list"
  assumes "ci < 8" "b \<in> set (ls ci)"
  shows "(\<Sum>cj<8. length (ls cj)) = (\<Sum>cj<8. length ((ls(ci := remove1 b (ls ci))) cj)) + 1"
proof -
  let ?ls = "ls(ci := remove1 b (ls ci))"
  have "0 < length (ls ci)" using assms(2) by (cases "ls ci") auto
  then have "length (ls cj) = length (?ls cj) + (if cj = ci then 1 else 0)" for cj using assms(2) by (auto simp: length_remove1)
  then have "(\<Sum>cj<8. length (ls cj)) = (\<Sum>cj<8. length (?ls cj) + (if cj = ci then 1 else 0))" by (intro sum.cong) auto
  also have "\<dots> = (\<Sum>cj<8. length (?ls cj)) + 1" using assms(1) by (simp add: sum.distrib)
  finally show ?thesis .
qed

lemma free_object_ok:
  assumes ok: "owns_ok ls h" and full: "no_empty ls h" and p: "(p, Small ci) \<in> small_blocks ls h"
  obtains gone ls' h' where "free_object ci p h = Inr (gone, h')" "small_taken_back ls h ci ls' h' p"
    "(\<Sum>ci<8. length (ls ci)) = (\<Sum>ci<8. length (ls' ci)) + of_bool gone"
proof -
  note D = owns_okD[OF ok]
  obtain b i where b: "ci < 8" "b \<in> set (ls ci)" "i \<in> taken (hp_header h b)" "p = slot_addr b ci i"
    using p by (auto simp: small_blocks_mem)
  note bd = slabs_wfD(5)[OF D(2) b(1,2)]
  from free_object_live[OF b(1) slabs_wfD(4)[OF D(2) b(1,2)] b(3) bd slabs_wf_nonzero[OF D(2) b(1,2)]] obtain hdr where
    r: "free_object ci (slot_addr b ci i) h = settle_slab ci b (put_slot b (slot_addr b ci i) hdr h)"
    "slab_ok hdr ((hp_node h)(slot_addr b ci i := sh_free_head (hp_header h b))) ci b"
    "taken hdr = taken (hp_header h b) - {i}" "sh_next hdr = sh_next (hp_header h b)" "sh_prev hdr = sh_prev (hp_header h b)" by blast
  let ?h2 = "put_slot b (slot_addr b ci i) hdr h"
  have f: "hp_header ?h2 = (hp_header h)(b := hdr)" "hp_node ?h2 = (hp_node h)(slot_addr b ci i := sh_free_head (hp_header h b))"
    "hp_classes ?h2 = hp_classes h" "hp_large ?h2 = hp_large h"
    "hp_mm ?h2 = hp_mm h" "hp_bytes_in_use ?h2 = hp_bytes_in_use h" "hp_small_objects ?h2 = hp_small_objects h" "hp_slabs ?h2 = hp_slabs h"
    by (simp_all add: put_slot_def upd_header_def)
  have i: "i < slab_cap ci" using slab_free_count(2)[OF b(1) slabs_wfD(4)[OF D(2) b(1,2)]] b(3) by blast
  have wf2: "slabs_wf ls ?h2"
    by (rule slabs_wf_update[OF D(2) b(1,2) r(2,4,5) _ f(1-3)]) (use slot_inside[OF b(1) i, of b] in auto)
  have blk2: "small_blocks ls ?h2 = small_blocks ls h - {(p, Small ci)}"
    unfolding b(4) by (rule small_blocks_remove[OF D(2) b(1,2) f(1) r(3) b(3)])
  note o2 = owns_ok_cong[OF ok wf2 f(4,5)]
  have cnt: "sh_free_count hdr = sh_total_count hdr \<longleftrightarrow> taken hdr = {}"
  proof -
    note c = slab_free_count[OF b(1) r(2)]
    have "sh_total_count hdr = slab_cap ci" using r(2) by (simp add: slab_ok_def)
    moreover have "card (taken hdr) \<le> slab_cap ci" using card_mono[OF _ c(2)] by simp
    moreover have "card (taken hdr) = 0 \<longleftrightarrow> taken hdr = {}" using c(3) by simp
    ultimately show ?thesis using c(1) class_facts(3)[OF b(1)] by linarith
  qed
  show thesis
  proof (cases "taken hdr = {}")
    case False
    then have run: "free_object ci p h = Inr (False, ?h2)" unfolding b(4) r(1) by (simp add: settle_slab_def f cnt)
    have "no_empty ls ?h2" using full False by (auto simp: no_empty_def f)
    then have "small_taken_back ls h ci ls ?h2 p"
      using o2 blk2 by (simp add: small_taken_back_def f keeps_def same_mem_def)
    then show thesis using run by (intro that[of False ?h2 ls]) simp_all
  next
    case True
    let ?a = "b - hp_off h"
    note ob = D(4)[OF b(1,2)]
    have a: "?a \<in> heap_frames ls h" using slab_in_frames[of ci b ls, OF b(1,2) ob] by (simp add: heap_frames_def)
    have virt: "virt_to_phys_hhdm (hp_mm h) b = Inr ?a" using heap_frame_virt[OF ok a] ob by simp
    from free_frame_lent[OF D(9) heap_frames_fit(3,4)[OF ok a]] obtain mm where
      mm: "free_frame ?a (hp_mm h) = Inr mm" "mm_avail mm = insert ?a (mm_avail (hp_mm h))" "mm_managed mm = mm_managed (hp_mm h)" "mm_inv mm"
      by metis
    note fm = free_frame_mem[OF mm(1)]
    let ?h3 = "(unlink ci b ?h2)\<lparr>hp_mm := mm\<rparr>" let ?ls = "ls(ci := remove1 b (ls ci))"
    have run: "free_object ci p h = Inr (True, ?h3)" unfolding b(4) r(1) by (simp add: settle_slab_def f cnt True virt mm(1))
    have same: "same_mem mm (hp_mm h)" using fm mm(3) by (simp add: same_mem_def)
    have wf3: "slabs_wf ?ls (unlink ci b ?h2)" by (rule unlink_wf[OF wf2 b(1,2)])
    have t2: "taken (hp_header ?h2 b) = {}" using True f(1) by simp
    have blk3: "small_blocks ?ls ?h3 = small_blocks ls h - {(p, Small ci)}"
      using unlink_blocks[OF wf2 b(1,2) t2] blk2 by (simp add: small_blocks_def)
    have sf: "slab_frames ?ls (hp_off h) = slab_frames ls (hp_off h) - {?a}" by (rule slab_frames_remove[OF D(2) b(1,2) ob])
    have ina: "?a \<in> slab_frames ls (hp_off h)" using slab_in_frames[of ci b ls, OF b(1,2) ob] .
    have fr3: "heap_frames ?ls ?h3 = heap_frames ls h - {?a}"
      using D(6) ina by (auto simp: heap_frames_def sf unlink_frame f fm)
    have rm: "set (?ls cj) \<subseteq> set (ls cj)" for cj using set_remove1_subset[of b "ls ci"] by auto
    have "owns_ok ?ls ?h3" unfolding owns_ok_def
    proof (intro conjI)
      show "mem_ok (hp_mm ?h3)" using mem_ok_same[OF D(1) same mm(4)] by simp
      show "slabs_wf ?ls ?h3" using wf3 by (simp add: slabs_wf_def)
      show "large_wf (hp_off ?h3) (hp_large ?h3)" using D(3) by (simp add: unlink_frame f fm)
      show "\<forall>ci<8. \<forall>b\<in>set (?ls ci). hp_off ?h3 \<le> b" by (intro allI impI ballI) (use D(4)[OF _ subsetD[OF rm]] in \<open>simp add: fm del: fun_upd_apply\<close>)
      show "heap_frames ?ls ?h3 \<subseteq> mm_lent (hp_mm ?h3)" unfolding fr3 using D(5) mm(2,3) by (auto simp: mm_lent_def)
      show "slab_frames ?ls (hp_off ?h3) \<inter> large_owned (hp_off ?h3) (hp_large ?h3) = {}"
        using D(6) sf by (auto simp: unlink_frame f fm)
    qed
    moreover have "no_empty ?ls ?h3"
    proof -
      have "taken (hp_header ?h3 c) = taken (hp_header ?h2 c)" for c using same_slab_taken[OF unlink_frame(7)] by simp
      moreover have "c \<noteq> b" if "cj < 8" "c \<in> set (?ls cj)" for c cj
        using one_class[OF D(2) b(1) that(1) b(2)] that(2) slabs_wfD(2)[OF D(2) b(1)] by (auto split: if_splits simp: set_remove1_eq)
      ultimately show ?thesis using full subsetD[OF rm] unfolding no_empty_def by (simp add: f del: fun_upd_apply) (metis fun_upd_other)
    qed
    moreover have "keeps ls h ?ls ?h3"
      using fr3 mm(2) a same by (auto simp: keeps_def unlink_frame f)
    ultimately have "small_taken_back ls h ci ?ls ?h3 p" using blk3 by (simp add: small_taken_back_def unlink_frame f)
    then show thesis using run length_remove1_sum[of ci b ls, OF b(1,2)] by (intro that[of True ?h3 ?ls]) simp_all
  qed
qed
subsection \<open>Large objects\<close>

lemma for_each_cong': "(\<And>i s. i \<in> set xs \<Longrightarrow> f i s = g i s) \<Longrightarrow> for_each xs f s = for_each xs g s"
proof (induction xs arbitrary: s)
  case (Cons x xs)
  then show ?case by (cases "g x s") auto
qed simp

lemma for_each_map': "for_each (map q xs) f s = for_each xs (\<lambda>i. f (q i)) s"
proof (induction xs arbitrary: s)
  case (Cons x xs)
  then show ?case by (cases "f (q x) s") auto
qed simp

lemma free_contiguous_ok:
  assumes inv: "mm_inv s" and al: "FRAME_SIZE dvd a" and lent: "run_addrs a n \<subseteq> mm_lent s" and fit: "a + n * FRAME_SIZE < u64_limit"
  obtains s' where "free_contiguous a n s = Inr s'" "mm_avail s' = mm_avail s \<union> run_addrs a n" "mm_inv s'" "same_mem s' s" "mm_ram s' = mm_ram s"
proof -
  let ?q = "\<lambda>i. a + i * FRAME_SIZE"
  obtain k where k: "a = FRAME_SIZE * k" using al by blast
  have step: "and_then (uadd (a div FRAME_SIZE) i) (\<lambda>f. and_then (umul f FRAME_SIZE) (\<lambda>c. free_frame c t)) = free_frame (?q i) t"
    if "i \<in> set [0..<n]" for i t
  proof -
    have "i < n" using that by simp
    then have "i * FRAME_SIZE \<le> n * FRAME_SIZE" by simp
    then have "a + i * FRAME_SIZE < u64_limit" using fit by linarith
    moreover have "k + i \<le> (k + i) * FRAME_SIZE" by (simp add: FRAME_SIZE_def)
    ultimately show ?thesis using k by (simp add: uadd_def umul_def algebra_simps)
  qed
  have body: "for_each [0..<n] (\<lambda>i t. and_then (uadd (a div FRAME_SIZE) i) (\<lambda>f. and_then (umul f FRAME_SIZE) (\<lambda>c. free_frame c t))) s
    = for_each [0..<n] (\<lambda>i. free_frame (?q i)) s"
    by (rule for_each_cong'[OF step])
  have run: "free_contiguous a n s = for_each (map ?q [0..<n]) free_frame s"
    using al by (simp add: free_contiguous_def for_each_map' body mod_eq_0_iff_dvd)
  have set_q: "set (map ?q [0..<n]) = run_addrs a n" by (auto simp: run_addrs_def)
  have "distinct (map ?q [0..<n])" by (simp add: distinct_map inj_on_def)
  then obtain s' where s': "for_each (map ?q [0..<n]) free_frame s = Inr s'" "mm_avail s' = mm_avail s \<union> run_addrs a n" "mm_managed s' = mm_managed s" "mm_inv s'"
    using general_pool.release_all_spec[OF inv, of "map ?q [0..<n]"] lent unfolding set_q mm_lent_def by blast
  have "mm_hhdm_offset s' = mm_hhdm_offset s \<and> mm_phys_end s' = mm_phys_end s \<and> mm_ram s' = mm_ram s"
    by (rule for_each_preserves[OF s'(1)]) (use free_frame_mem in auto)
  then show thesis using s' run by (intro that[of s']) (simp_all add: same_mem_def)
qed

lemma alloc_contiguous_mem:
  assumes "alloc_contiguous n al s = Inr (r, s')"
  shows "mm_hhdm_offset s' = mm_hhdm_offset s" "mm_phys_end s' = mm_phys_end s" "mm_ram s' = mm_ram s"
  using assms by (auto simp: alloc_contiguous_def with_pmm_def checked_simps split: if_splits option.splits)

lemma alloc_contiguous_total:
  assumes inv: "mm_inv s" and n: "0 < n" "n \<le> 2 ^ 52"
  shows "\<exists>r s'. alloc_contiguous n 1 s = Inr (r, s')"
proof -
  obtain p where p: "mm_pmm s = Some p" "pmm_inv p" using inv by (rule mm_invE)
  have "bm_count (pm_bitmap p) + 1 + n < u64_limit" using pmm_inv_small(1)[OF p(2) le_refl] n(2) by (simp add: FRAME_SIZE_def)
  from p(2) n(1) _ this show ?thesis
    by (cases rule: pmm_alloc_run_ok) (use n p in \<open>simp_all add: alloc_contiguous_def with_pmm_def\<close>)
qed

lemma find_entry_cases:
  obtains (none) "find_entry v t = None" "\<And>i. i < length (lt_entries t) \<Longrightarrow> le_virt (lt_entries t ! i) \<noteq> v"
  | (some) i where "find_entry v t = Some i" "i < length (lt_entries t)" "le_virt (lt_entries t ! i) = v"
proof (cases "find_entry v t")
  case None
  then show thesis by (intro none) (auto simp: find_entry_def find_None_iff)
next
  case (Some i)
  then show thesis by (intro some[of i]) (auto simp: find_entry_def find_Some_iff)
qed

lemma table_live_set:
  assumes "slot < length (lt_entries t)"
  shows "table_live \<lparr>lt_entries = (lt_entries t)[slot := e], lt_count = c, lt_total_frames = f\<rparr>
    = (if le_virt e = 0 then table_live t - {slot} else insert slot (table_live t))"
  using assms by (auto simp: table_live_def nth_list_update split: if_splits)

definition large_given :: "(nat \<Rightarrow> nat list) \<Rightarrow> heap \<Rightarrow> nat \<Rightarrow> heap \<Rightarrow> nat \<Rightarrow> bool" where
  "large_given ls h n h' p \<longleftrightarrow> owns_ok ls h' \<and> hp_classes h' = hp_classes h \<and> hp_header h' = hp_header h \<and> hp_node h' = hp_node h
     \<and> large_block (hp_large h') ` table_live (hp_large h') = insert (p, Large n) (large_block (hp_large h) ` table_live (hp_large h))
     \<and> (p, Large n) \<notin> large_block (hp_large h) ` table_live (hp_large h)
     \<and> FRAME_SIZE dvd p \<and> p \<noteq> 0 \<and> keeps ls h ls h'"

lemma large_alloc_ok:
  assumes ok: "owns_ok ls h" and n: "0 < n" "n \<le> 2 ^ 52"
  obtains (none) "large_alloc n h = Inr (None, h)"
      "table_live (hp_large h) = {..<MAX_LARGE_OBJECTS} \<or> alloc_contiguous n 1 (hp_mm h) = Inr (None, hp_mm h)"
  | (some) p h' where "large_alloc n h = Inr (Some p, h')" "large_given ls h n h' p"
proof -
  note D = owns_okD[OF ok]
  let ?t = "hp_large h"
  show thesis
  proof (cases rule: find_entry_cases[of 0 ?t])
    case none
    then have "table_live ?t = {..<MAX_LARGE_OBJECTS}" using D(3) by (auto simp: table_live_def large_wf_def)
    then show thesis using none by (intro that(1)) (simp_all add: large_alloc_def)
  next
    case (some slot)
    obtain r mm where run: "alloc_contiguous n 1 (hp_mm h) = Inr (r, mm)" using alloc_contiguous_total[OF D(9) n] by blast
    show thesis
    proof (cases r)
      case None
      then have "mm = hp_mm h" using alloc_contiguous_refused run by blast
      then show thesis using some(1) run None by (intro that(1)) (simp_all add: large_alloc_def)
    next
      case (Some a)
      note ac = alloc_contiguous_sound[OF D(9) run[unfolded Some]] alloc_contiguous_mem[OF run]
      let ?off = "hp_off h" let ?p = "a + ?off"
      have av: "run_addrs a n \<subseteq> mm_avail (hp_mm h)" using ac(1) mm_pools_avail(1) by blast
      have ain: "a \<in> run_addrs a n" using n(1) by (auto simp: run_addrs_def intro!: image_eqI[of _ _ 0])
      have man: "run_addrs a n \<subseteq> mm_managed (hp_mm h)" using av mm_avail_managed[OF D(9)] by blast
      have pos: "0 < a" and fd: "FRAME_SIZE dvd a" using D(1) man ain vm_okD(3)[OF D(8)] by (auto simp: mem_ok_def)
      have same: "same_mem mm (hp_mm h)" using ac by (simp add: same_mem_def)
      have mok: "mem_ok mm" by (rule mem_ok_same[OF D(1) same ac(4)])
      have virt: "phys_to_virt mm a = Inr ?p" using vm_okD(4)[of mm a] mok man ain ac(3,7) by (auto simp: mem_ok_def)
      let ?e = "\<lparr>le_virt = ?p, le_frames = n\<rparr>"
      define t' where "t' = \<lparr>lt_entries = (lt_entries ?t)[slot := ?e], lt_count = lt_count ?t + 1, lt_total_frames = lt_total_frames ?t + n\<rparr>"
      have tf: "length (lt_entries t') = length (lt_entries ?t)" "lt_count t' = lt_count ?t + 1" "lt_total_frames t' = lt_total_frames ?t + n"
        by (simp_all add: t'_def)
      let ?h' = "h\<lparr>hp_mm := mm, hp_large := t'\<rparr>"
      have notl: "slot \<notin> table_live ?t" using some(3) by (simp add: table_live_def)
      have live: "table_live t' = insert slot (table_live ?t)" using table_live_set[OF some(2), of ?e] pos by (simp add: t'_def)
      have ent: "lt_entries t' ! i = (if i = slot then ?e else lt_entries ?t ! i)" for i using some(2) by (simp add: t'_def nth_list_update)
      have old: "i \<in> table_live ?t \<Longrightarrow> i \<noteq> slot" for i using notl by blast
      have lf: "large_frames ?off t' i = (if i = slot then run_addrs a n else large_frames ?off ?t i)" for i
        by (simp add: large_frames_def ent)
      have apart: "run_addrs a n \<inter> heap_frames ls h = {}" using av D(5) by (auto simp: mm_lent_def)
      then have apart1: "run_addrs a n \<inter> large_frames ?off ?t i = {}" if "i \<in> table_live ?t" for i
        using large_in_owned[OF that, of ?off] by (auto simp: heap_frames_def)
      have owned: "large_owned ?off t' = run_addrs a n \<union> large_owned ?off ?t"
        unfolding large_owned_def live using lf old by auto
      have wft: "large_wf ?off t'" unfolding large_wf_def
      proof (intro conjI ballI)
        show "length (lt_entries t') = MAX_LARGE_OBJECTS" using D(3) tf by (simp add: large_wf_def)
        show "disjoint_family_on (large_frames ?off t') (table_live t')"
          using D(3) apart1 old unfolding live disjoint_family_on_def lf large_wf_def by (auto simp: Int_commute)
        show "lt_count t' = card (table_live t')" unfolding live using D(3) notl finite_table_live[of ?t] tf by (simp add: large_wf_def)
        have "(\<Sum>i\<in>table_live ?t. le_frames (lt_entries t' ! i)) = (\<Sum>i\<in>table_live ?t. le_frames (lt_entries ?t ! i))"
          by (rule sum.cong) (use old ent in auto)
        then show "lt_total_frames t' = (\<Sum>i\<in>table_live t'. le_frames (lt_entries t' ! i))"
          unfolding live using D(3) notl finite_table_live[of ?t] ent[of slot] tf by (simp add: large_wf_def)
        fix i assume i: "i \<in> table_live t'"
        show "0 < le_frames (lt_entries t' ! i)" "?off \<le> le_virt (lt_entries t' ! i)" "FRAME_SIZE dvd le_virt (lt_entries t' ! i)"
          using i D(3,7) fd n(1) unfolding live ent large_wf_def by auto
      qed
      have fr: "heap_frames ls ?h' = run_addrs a n \<union> heap_frames ls h"
        using owned ac(7) by (auto simp: heap_frames_def)
      have own': "owns_ok ls ?h'" unfolding owns_ok_def
      proof (intro conjI)
        show "mem_ok (hp_mm ?h')" using mok by simp
        show "slabs_wf ls ?h'" using D(2) by (simp add: slabs_wf_def)
        show "large_wf (hp_off ?h') (hp_large ?h')" using wft ac(7) by simp
        show "\<forall>ci<8. \<forall>b\<in>set (ls ci). hp_off ?h' \<le> b" using D(4) ac(7) by simp
        show "heap_frames ls ?h' \<subseteq> mm_lent (hp_mm ?h')" unfolding fr using D(5) man ac(2,3) apart by (auto simp: mm_lent_def)
        show "slab_frames ls (hp_off ?h') \<inter> large_owned (hp_off ?h') (hp_large ?h') = {}"
          using owned D(6) apart ac(7) by (auto simp: heap_frames_def)
      qed
      have "lt_total_frames ?t + n < u64_limit" "lt_count ?t + 1 < u64_limit"
        using large_total_bound[OF own'] tf by simp_all
      then have res: "large_alloc n h = Inr (Some ?p, ?h')"
        using some(1) run Some virt by (simp add: large_alloc_def uadd_def t'_def)
      have img: "large_block t' ` table_live t' = insert (?p, Large n) (large_block ?t ` table_live ?t)"
      proof -
        have "large_block t' i = (if i = slot then (?p, Large n) else large_block ?t i)" for i
          by (simp add: large_block_def ent)
        then show ?thesis unfolding live using old by auto
      qed
      have new: "(?p, Large n) \<notin> large_block ?t ` table_live ?t"
      proof
        assume "(?p, Large n) \<in> large_block ?t ` table_live ?t"
        then obtain i where i: "i \<in> table_live ?t" "le_virt (lt_entries ?t ! i) = ?p" "le_frames (lt_entries ?t ! i) = n"
          by (auto simp: large_block_def)
        then have "a \<in> large_frames ?off ?t i" using ain by (simp add: large_frames_def)
        then show False using apart1[OF i(1)] ain by blast
      qed
      have "keeps ls h ls ?h'" unfolding keeps_def using fr ac(2) av same by auto
      then have "large_given ls h n ?h' ?p"
        unfolding large_given_def using own' img new fd D(7) pos by simp
      then show thesis by (rule that(2)[OF res])
    qed
  qed
qed
definition large_taken_back :: "(nat \<Rightarrow> nat list) \<Rightarrow> heap \<Rightarrow> nat \<Rightarrow> heap \<Rightarrow> nat \<Rightarrow> bool" where
  "large_taken_back ls h n h' p \<longleftrightarrow> owns_ok ls h' \<and> hp_classes h' = hp_classes h \<and> hp_header h' = hp_header h \<and> hp_node h' = hp_node h
     \<and> large_block (hp_large h') ` table_live (hp_large h') = large_block (hp_large h) ` table_live (hp_large h) - {(p, Large n)}
     \<and> keeps ls h ls h'"

lemma virt_unique:
  assumes ok: "owns_ok ls h" and "i \<in> table_live (hp_large h)" "j \<in> table_live (hp_large h)"
    and eq: "le_virt (lt_entries (hp_large h) ! i) = le_virt (lt_entries (hp_large h) ! j)"
  shows "i = j"
proof (rule ccontr)
  assume "i \<noteq> j"
  note wf = owns_okD(3)[OF ok]
  let ?a = "le_virt (lt_entries (hp_large h) ! i) - hp_off h"
  have "?a \<in> large_frames (hp_off h) (hp_large h) i" "?a \<in> large_frames (hp_off h) (hp_large h) j"
    using wf assms(2,3) eq by (auto simp: large_wf_def large_frames_def run_addrs_def intro!: image_eqI[of _ _ 0])
  moreover have "large_frames (hp_off h) (hp_large h) i \<inter> large_frames (hp_off h) (hp_large h) j = {}"
    using wf assms(2,3) \<open>i \<noteq> j\<close> unfolding large_wf_def disjoint_family_on_def by blast
  ultimately show False by blast
qed

lemma large_free_ok:
  assumes ok: "owns_ok ls h" and p: "(p, Large n) \<in> large_block (hp_large h) ` table_live (hp_large h)"
  obtains h' where "large_free p h = Inr (n, h')" "large_taken_back ls h n h' p"
proof -
  note D = owns_okD[OF ok]
  let ?t = "hp_large h" let ?off = "hp_off h"
  obtain i where i: "i \<in> table_live ?t" "le_virt (lt_entries ?t ! i) = p" "le_frames (lt_entries ?t ! i) = n"
    using p by (auto simp: large_block_def)
  have p0: "p \<noteq> 0" and il: "i < length (lt_entries ?t)" using i(1,2) by (auto simp: table_live_def)
  have wi: "0 < n" "?off \<le> p" "FRAME_SIZE dvd p" using D(3) i by (auto simp: large_wf_def)
  have find: "find_entry p ?t = Some i"
  proof (cases rule: find_entry_cases[of p ?t])
    case none
    then show ?thesis using il i(2) by simp
  next
    case (some j)
    then have "j \<in> table_live ?t" using p0 by (simp add: table_live_def)
    then show ?thesis using virt_unique[OF ok i(1)] i(2) some by simp
  qed
  let ?a = "p - ?off"
  have run_i: "large_frames ?off ?t i = run_addrs ?a n" using i by (simp add: large_frames_def)
  then have own: "run_addrs ?a n \<subseteq> heap_frames ls h" using large_in_owned[OF i(1), of ?off] by (auto simp: heap_frames_def)
  have ain: "?a \<in> run_addrs ?a n" using wi(1) by (auto simp: run_addrs_def intro!: image_eqI[of _ _ 0])
  have virt: "virt_to_phys_hhdm (hp_mm h) p = Inr ?a" using heap_frame_virt[OF ok, of ?a] own ain wi(2) by auto
  have ad: "FRAME_SIZE dvd ?a" using wi(3) D(7) by simp
  have last: "?a + (n - 1) * FRAME_SIZE \<in> heap_frames ls h" using own wi(1) by (auto simp: run_addrs_def)
  have "n * FRAME_SIZE = (n - 1) * FRAME_SIZE + FRAME_SIZE" using wi(1) by (cases n) simp_all
  then have fit: "?a + n * FRAME_SIZE < u64_limit" using heap_frames_fit(1)[OF ok last] D(1) by (simp add: mem_ok_def)
  have lent: "run_addrs ?a n \<subseteq> mm_lent (hp_mm h)" using own D(5) by blast
  obtain mm where mm: "free_contiguous ?a n (hp_mm h) = Inr mm" "mm_avail mm = mm_avail (hp_mm h) \<union> run_addrs ?a n" "mm_inv mm"
    "same_mem mm (hp_mm h)" "mm_ram mm = mm_ram (hp_mm h)" by (rule free_contiguous_ok[OF D(9) ad lent fit])
  have off: "mm_hhdm_offset mm = ?off" using mm(4) by (simp add: same_mem_def)
  define t' where "t' = \<lparr>lt_entries = (lt_entries ?t)[i := EMPTY_ENTRY], lt_count = lt_count ?t - 1, lt_total_frames = lt_total_frames ?t - n\<rparr>"
  have tf: "length (lt_entries t') = length (lt_entries ?t)" "lt_count t' = lt_count ?t - 1" "lt_total_frames t' = lt_total_frames ?t - n"
    by (simp_all add: t'_def)
  let ?h' = "h\<lparr>hp_mm := mm, hp_large := t'\<rparr>"
  have live: "table_live t' = table_live ?t - {i}" using table_live_set[OF il, of EMPTY_ENTRY] by (simp add: t'_def EMPTY_ENTRY_def)
  have ent: "k \<noteq> i \<Longrightarrow> lt_entries t' ! k = lt_entries ?t ! k" for k by (simp add: t'_def)
  have lf: "large_frames ?off t' k = large_frames ?off ?t k" if "k \<in> table_live t'" for k
    using that live ent[of k] by (simp add: large_frames_def)
  have cnt: "1 \<le> lt_count ?t" "n \<le> lt_total_frames ?t"
    using D(3) i(1,3) finite_table_live[of ?t] sum.remove[OF finite_table_live i(1), of "\<lambda>i. le_frames (lt_entries ?t ! i)"]
    by (auto simp: large_wf_def Suc_le_eq card_gt_0_iff)
  have res: "large_free p h = Inr (n, ?h')"
    using find cnt i(3) virt mm(1) by (simp add: large_free_def usub_def t'_def Let_def)
  have wft: "large_wf ?off t'" unfolding large_wf_def
  proof (intro conjI ballI)
    show "length (lt_entries t') = MAX_LARGE_OBJECTS" using D(3) tf by (simp add: large_wf_def)
    show "disjoint_family_on (large_frames ?off t') (table_live t')"
      using D(3) lf unfolding disjoint_family_on_def large_wf_def live by auto
    show "lt_count t' = card (table_live t')" unfolding live using D(3) tf i(1) by (simp add: large_wf_def finite_table_live)
    have "(\<Sum>k\<in>table_live ?t - {i}. le_frames (lt_entries t' ! k)) = (\<Sum>k\<in>table_live ?t - {i}. le_frames (lt_entries ?t ! k))"
      by (rule sum.cong) (use ent in auto)
    then show "lt_total_frames t' = (\<Sum>k\<in>table_live t'. le_frames (lt_entries t' ! k))"
      unfolding live tf using D(3) i(3) sum.remove[OF finite_table_live i(1), of "\<lambda>i. le_frames (lt_entries ?t ! i)"] by (simp add: large_wf_def)
    fix k assume k: "k \<in> table_live t'"
    then have "lt_entries t' ! k = lt_entries ?t ! k" "k \<in> table_live ?t" using live ent[of k] by auto
    then show "0 < le_frames (lt_entries t' ! k)" "?off \<le> le_virt (lt_entries t' ! k)" "FRAME_SIZE dvd le_virt (lt_entries t' ! k)"
      using D(3) by (auto simp: large_wf_def)
  qed
  have others: "run_addrs ?a n \<inter> large_frames ?off ?t k = {}" if "k \<in> table_live ?t" "k \<noteq> i" for k
    using D(3) i(1) that run_i unfolding large_wf_def disjoint_family_on_def by blast
  have owned: "large_owned ?off t' = large_owned ?off ?t - run_addrs ?a n"
  proof -
    have "large_owned ?off t' = (\<Union>k\<in>table_live ?t - {i}. large_frames ?off ?t k)" using lf live by (simp add: large_owned_def)
    moreover have "large_owned ?off ?t = run_addrs ?a n \<union> (\<Union>k\<in>table_live ?t - {i}. large_frames ?off ?t k)"
      using i(1) run_i by (auto simp: large_owned_def)
    ultimately show ?thesis using others by auto
  qed
  have "run_addrs ?a n \<inter> slab_frames ls ?off = {}" using D(6) run_i large_in_owned[OF i(1), of ?off] by auto
  then have fr: "heap_frames ls ?h' = heap_frames ls h - run_addrs ?a n" using owned by (auto simp: heap_frames_def off)
  have own': "owns_ok ls ?h'" unfolding owns_ok_def
  proof (intro conjI)
    show "mem_ok (hp_mm ?h')" using mem_ok_same[OF D(1) mm(4,3)] by simp
    show "slabs_wf ls ?h'" using D(2) by (simp add: slabs_wf_def)
    show "large_wf (hp_off ?h') (hp_large ?h')" using wft off by simp
    show "\<forall>ci<8. \<forall>b\<in>set (ls ci). hp_off ?h' \<le> b" using D(4) off by simp
    show "heap_frames ls ?h' \<subseteq> mm_lent (hp_mm ?h')" unfolding fr using D(5) mm(2,4) by (auto simp: mm_lent_def same_mem_def)
    show "slab_frames ls (hp_off ?h') \<inter> large_owned (hp_off ?h') (hp_large ?h') = {}"
      using owned D(6) off by auto
  qed
  have img: "large_block t' ` table_live t' = large_block ?t ` table_live ?t - {(p, Large n)}"
  proof -
    have "large_block t' k = large_block ?t k" if "k \<in> table_live t'" for k using that live ent[of k] by (simp add: large_block_def)
    then have "large_block t' ` table_live t' = large_block ?t ` (table_live ?t - {i})" unfolding live by (auto simp: live)
    also have "\<dots> = large_block ?t ` table_live ?t - large_block ?t ` {i}"
      by (rule inj_on_image_set_diff[OF large_block_inj[OF ok]]) (use i(1) in auto)
    finally show ?thesis using i by (simp add: large_block_def)
  qed
  have "keeps ls h ls ?h'" unfolding keeps_def using fr mm(2,4) own by auto
  then have "large_taken_back ls h n ?h' p" unfolding large_taken_back_def using own' img by simp
  then show thesis by (rule that[OF res])
qed
subsection \<open>Layouts\<close>

text \<open>What \<open>Layout\<close> guarantees: the alignment is a power of two, and rounding the size up to it does not overflow \<open>isize\<close>.\<close>

definition layout_ok :: "nat \<Rightarrow> nat \<Rightarrow> bool" where
  "layout_ok n al \<longleftrightarrow> (\<exists>k. al = 2 ^ k) \<and> n + al \<le> 2 ^ 63"

lemma class_index_for_ok:
  assumes "0 < r" "r \<le> 2048"
  obtains ci where "class_index_for r = Inr ci" "ci < 8" "r \<le> csize ci"
proof -
  let ?P = "\<lambda>i. r \<le> 2 ^ i"
  obtain i where i: "List.find ?P [0..<64] = Some i"
  proof (cases "List.find ?P [0..<64]")
    case None
    then have "\<forall>x<64. \<not> r \<le> 2 ^ x" by (auto simp: find_None_iff)
    then have "\<not> r \<le> 2 ^ 11" by (elim allE[of _ 11]) simp
    then show ?thesis using assms(2) by simp
  qed (use that in auto)
  then have pi: "r \<le> 2 ^ i" and least: "\<And>j. j < i \<Longrightarrow> \<not> r \<le> 2 ^ j" by (auto simp: find_Some_iff)
  have "i \<le> 11"
  proof (rule ccontr)
    assume "\<not> i \<le> 11"
    then show False using least[of 11] assms(2) by simp
  qed
  then have m: "4 \<le> max i 4" "max i 4 \<le> 11" by auto
  then have "(2::nat) ^ max i 4 \<le> 2 ^ 11" by (intro power_increasing) auto
  then have run: "class_index_for r = Inr (max i 4 - 4)" using i by (simp add: class_index_for_def MAX_SLAB_SIZE_def)
  have ci: "max i 4 - 4 < 8" using m by linarith
  have "r \<le> csize (max i 4 - 4)"
  proof -
    have "csize (max i 4 - 4) = 2 ^ max i 4" using class_facts(1)[OF ci] m(1) by simp
    moreover have "(2::nat) ^ i \<le> 2 ^ max i 4" by (rule power_increasing) auto
    ultimately show ?thesis using pi by linarith
  qed
  with run ci show thesis by (rule that)
qed

lemma pow2_dvd: "(\<exists>k. a = (2::nat) ^ k) \<Longrightarrow> a \<le> 2 ^ m \<Longrightarrow> a dvd 2 ^ m"
proof -
  assume "\<exists>k. a = (2::nat) ^ k" "a \<le> 2 ^ m"
  then obtain k where k: "a = 2 ^ k" "(2::nat) ^ k \<le> 2 ^ m" by auto
  then have "k \<le> m" by (intro power_le_imp_le_exp[of 2]) auto
  then show ?thesis unfolding k(1) by (rule le_imp_power_dvd)
qed

lemma classify_cases:
  assumes "layout_ok n al"
  obtains (small) ci where "classify n al = Inr (Small ci)" "ci < 8" "n \<le> csize ci" "al dvd csize ci"
  | (large) k where "classify n al = Inr (Large k)" "0 < k" "k \<le> 2 ^ 52" "n \<le> k * FRAME_SIZE" "al dvd FRAME_SIZE"
  | (rejected) "classify n al = Inr Rejected" "FRAME_SIZE < al"
proof (cases "FRAME_SIZE < al")
  case True
  then show thesis by (intro rejected) (simp_all add: classify_def)
next
  case False
  let ?r = "max (max n 1) al"
  have pow: "\<exists>k. al = (2::nat) ^ k" using assms by (simp add: layout_ok_def)
  show thesis
  proof (cases "MAX_SLAB_SIZE < ?r")
    case True
    let ?k = "max (div_ceil (max n 1) FRAME_SIZE) 1"
    have run: "classify n al = Inr (Large ?k)" using False True by (simp add: classify_def)
    have "max n 1 \<le> div_ceil (max n 1) FRAME_SIZE * FRAME_SIZE" by (rule le_div_ceil_mult) simp
    then have fits: "n \<le> ?k * FRAME_SIZE" 
      using mult_le_mono1[of "div_ceil (max n 1) FRAME_SIZE" ?k FRAME_SIZE] by simp
    have "n \<le> 2 ^ 63" using assms by (simp add: layout_ok_def)
    then have "?k \<le> 2 ^ 52" by (auto simp: div_ceil_def FRAME_SIZE_def)
    moreover have "al dvd FRAME_SIZE" using pow2_dvd[OF pow, of 12] False by (simp add: FRAME_SIZE_def)
    ultimately show thesis using run fits by (intro large[of ?k]) simp_all
  next
    case small: False
    have "0 < ?r" "?r \<le> 2048" using small by (auto simp: MAX_SLAB_SIZE_def)
    then obtain ci where ci: "class_index_for ?r = Inr ci" "ci < 8" "?r \<le> csize ci" by (rule class_index_for_ok)
    have "al dvd csize ci" using pow2_dvd[OF pow, of "ci + 4"] ci(3) class_facts(1)[OF ci(2)] by simp
    then show thesis using ci False small by (intro that(1)[of ci]) (simp_all add: classify_def)
  qed
qed

subsection \<open>The heap and its clients\<close>

text \<open>The state over \<open>A\<close>, the frames free or in the heap's hands: the counters are exact.\<close>

definition heap_wf :: "nat set \<Rightarrow> (nat \<Rightarrow> nat list) \<Rightarrow> heap \<Rightarrow> bool" where
  "heap_wf A ls h \<longleftrightarrow> owns_ok ls h \<and> no_empty ls h \<and> A = mm_avail (hp_mm h) \<union> heap_frames ls h
     \<and> hp_bytes_in_use h = blocks_total (heap_blocks ls h) \<and> hp_small_objects h = card (small_blocks ls h)
     \<and> hp_slabs h = (\<Sum>ci<8. length (ls ci))"

lemma heap_wfD:
  assumes "heap_wf A ls h"
  shows "owns_ok ls h" "no_empty ls h" "A = mm_avail (hp_mm h) \<union> heap_frames ls h"
    "hp_bytes_in_use h = blocks_total (heap_blocks ls h)" "hp_small_objects h = card (small_blocks ls h)" "hp_slabs h = (\<Sum>ci<8. length (ls ci))"
  using assms by (simp_all add: heap_wf_def)

lemma counters_free:
  "owns_ok ls (h\<lparr>hp_slabs := a, hp_small_objects := b, hp_bytes_in_use := c\<rparr>) = owns_ok ls h"
  "no_empty ls (h\<lparr>hp_slabs := a, hp_small_objects := b, hp_bytes_in_use := c\<rparr>) = no_empty ls h"
  "heap_frames ls (h\<lparr>hp_slabs := a, hp_small_objects := b, hp_bytes_in_use := c\<rparr>) = heap_frames ls h"
  "heap_blocks ls (h\<lparr>hp_slabs := a, hp_small_objects := b, hp_bytes_in_use := c\<rparr>) = heap_blocks ls h"
  "small_blocks ls (h\<lparr>hp_slabs := a, hp_small_objects := b, hp_bytes_in_use := c\<rparr>) = small_blocks ls h"
  by (simp_all add: owns_ok_def slabs_wf_def no_empty_def heap_frames_def heap_blocks_def small_blocks_def)

lemma counters_free_bytes:
  "owns_ok ls (h\<lparr>hp_bytes_in_use := c\<rparr>) = owns_ok ls h" "no_empty ls (h\<lparr>hp_bytes_in_use := c\<rparr>) = no_empty ls h"
  "heap_frames ls (h\<lparr>hp_bytes_in_use := c\<rparr>) = heap_frames ls h" "heap_blocks ls (h\<lparr>hp_bytes_in_use := c\<rparr>) = heap_blocks ls h"
  "small_blocks ls (h\<lparr>hp_bytes_in_use := c\<rparr>) = small_blocks ls h"
  by (simp_all add: owns_ok_def slabs_wf_def no_empty_def heap_frames_def heap_blocks_def small_blocks_def)

lemma small_not_large: "(p, Small ci) \<notin> large_block t ` X" "(p, Large n) \<notin> small_blocks ls h"
  by (auto simp: large_block_def small_blocks_mem)

lemma blocks_total_insert: "finite B \<Longrightarrow> u \<notin> B \<Longrightarrow> blocks_total (insert u B) = blocks_total B + kind_bytes (snd u)"
  by (simp add: blocks_total_def)

lemma blocks_total_remove: "finite B \<Longrightarrow> u \<in> B \<Longrightarrow> blocks_total B = blocks_total (B - {u}) + kind_bytes (snd u)"
  using sum.remove[of B u "\<lambda>u. kind_bytes (snd u)"] by (simp add: blocks_total_def)

text \<open>Allocation always returns: null with the blocks as they were, or one more block.\<close>

definition block_given :: "nat set \<Rightarrow> (nat \<Rightarrow> nat list) \<Rightarrow> heap \<Rightarrow> alloc_kind \<Rightarrow> (nat \<Rightarrow> nat list) \<Rightarrow> heap \<Rightarrow> nat \<Rightarrow> bool" where
  "block_given A ls h k ls' h' p \<longleftrightarrow> heap_wf A ls' h' \<and> heap_blocks ls' h' = insert (p, k) (heap_blocks ls h) \<and> (p, k) \<notin> heap_blocks ls h
     \<and> p \<noteq> 0 \<and> same_mem (hp_mm h') (hp_mm h)"

lemma heap_alloc_small:
  assumes wf: "heap_wf A ls h" and kind: "classify n al = Inr (Small ci)" and ci: "ci < 8"
  obtains (none) mm where "heap_alloc n al h = Some (Inr (0, h\<lparr>hp_mm := mm\<rparr>))" "mm_pmm mm = mm_pmm (hp_mm h)" "same_mem mm (hp_mm h)"
      "mm_general (hp_mm h) = {} \<or> (mm_inject_skip (hp_mm h) = 0 \<and> 0 < mm_inject_failures (hp_mm h))"
  | (some) p ls' h' where "heap_alloc n al h = Some (Inr (p, h'))" "block_given A ls h (Small ci) ls' h' p" "csize ci dvd p"
proof -
  note W = heap_wfD[OF wf]
  from W(1,2) ci show thesis
  proof (cases rule: alloc_object_ok)
    case (none mm)
    then show thesis by (intro that(1)[of mm]) (simp_all add: heap_alloc_def kind)
  next
    case (some p fresh ls' h1)
    note g = some(2)[unfolded small_given_def keeps_def]
    have o: "owns_ok ls' h1" using g by simp
    have blocks: "heap_blocks ls' h1 = insert (p, Small ci) (heap_blocks ls h)" "(p, Small ci) \<notin> heap_blocks ls h"
      using g small_not_large(1) by (auto simp: heap_blocks_def)
    have fin: "finite (small_blocks ls h)" using finite_small_blocks owns_okD(2)[OF W(1)] by blast
    have n1: "hp_small_objects h1 + 1 = card (small_blocks ls' h1)" using g W(5) fin by simp
    have b1: "hp_bytes_in_use h1 + csize ci = blocks_total (heap_blocks ls' h1)"
      using g W(4) blocks blocks_total_insert[OF finite_heap_blocks[OF W(1)] blocks(2)] by simp
    have s1: "hp_slabs h1 + of_bool fresh = (\<Sum>ci<8. length (ls' ci))" using g W(6) some(3) by simp
    let ?h' = "h1\<lparr>hp_slabs := hp_slabs h1 + of_bool fresh, hp_small_objects := hp_small_objects h1 + 1, hp_bytes_in_use := hp_bytes_in_use h1 + csize ci\<rparr>"
    have run: "heap_alloc n al h = Some (Inr (p, ?h'))"
      using some(1) slab_count_bound[OF o] small_count_bound[OF o] blocks_total_bound[OF o] n1 b1 s1
      by (simp add: heap_alloc_def kind uadd_def)
    have "heap_wf A ls' ?h'"
      using g W(3) n1 b1 s1 by (simp add: heap_wf_def counters_free)
    then have "block_given A ls h (Small ci) ls' ?h' p" using blocks g by (simp add: block_given_def counters_free)
    then show thesis using run g by (intro that(2)[of p ?h' ls']) simp_all
  qed
qed

lemma heap_alloc_large:
  assumes wf: "heap_wf A ls h" and kind: "classify n al = Inr (Large k)" and k: "0 < k" "k \<le> 2 ^ 52"
  obtains (none) "heap_alloc n al h = Some (Inr (0, h))"
      "table_live (hp_large h) = {..<MAX_LARGE_OBJECTS} \<or> alloc_contiguous k 1 (hp_mm h) = Inr (None, hp_mm h)"
  | (some) p h' where "heap_alloc n al h = Some (Inr (p, h'))" "block_given A ls h (Large k) ls h' p" "FRAME_SIZE dvd p"
proof -
  note W = heap_wfD[OF wf]
  from W(1) k show thesis
  proof (cases rule: large_alloc_ok)
    case none
    then show thesis by (intro that(1)) (simp_all add: heap_alloc_def kind)
  next
    case (some p h1)
    note g = some(2)[unfolded large_given_def keeps_def]
    have o: "owns_ok ls h1" using g by simp
    have sm: "small_blocks ls h1 = small_blocks ls h" using g by (simp add: small_blocks_def)
    have blocks: "heap_blocks ls h1 = insert (p, Large k) (heap_blocks ls h)" "(p, Large k) \<notin> heap_blocks ls h"
      using g sm small_not_large(2) by (auto simp: heap_blocks_def)
    have b1: "hp_bytes_in_use h1 + k * FRAME_SIZE = blocks_total (heap_blocks ls h1)"
      using g W(4) blocks blocks_total_insert[OF finite_heap_blocks[OF W(1)] blocks(2)] by simp
    let ?h' = "h1\<lparr>hp_bytes_in_use := hp_bytes_in_use h1 + k * FRAME_SIZE\<rparr>"
    have run: "heap_alloc n al h = Some (Inr (p, ?h'))"
      using some(1) blocks_total_bound[OF o] b1 by (simp add: heap_alloc_def kind uadd_def umul_def)
    have "no_empty ls h1" using g W(2) by (simp add: no_empty_def)
    then have "heap_wf A ls ?h'"
      using g W(3,5,6) b1 sm by (simp add: heap_wf_def counters_free_bytes)
    then have "block_given A ls h (Large k) ls ?h' p" using blocks g by (simp add: block_given_def counters_free_bytes)
    then show thesis using run g by (intro that(2)[of p ?h']) simp_all
  qed
qed

lemma heap_wf_mm:
  assumes wf: "heap_wf A ls h" and mm: "mm_pmm mm = mm_pmm (hp_mm h)" "same_mem mm (hp_mm h)"
  shows "heap_wf A ls (h\<lparr>hp_mm := mm\<rparr>)" "heap_blocks ls (h\<lparr>hp_mm := mm\<rparr>) = heap_blocks ls h"
proof -
  note W = heap_wfD[OF wf]
  note v = mm_views_cong[OF mm(1)]
  have "mm_inv mm" using v(1) owns_okD(9)[OF W(1)] by simp
  from owns_ok_mm[OF W(1) mm(2) this] v(2) have o: "owns_ok ls (h\<lparr>hp_mm := mm\<rparr>)" "heap_frames ls (h\<lparr>hp_mm := mm\<rparr>) = heap_frames ls h" by simp_all
  show "heap_blocks ls (h\<lparr>hp_mm := mm\<rparr>) = heap_blocks ls h" by (simp add: heap_blocks_def small_blocks_def)
  then show "heap_wf A ls (h\<lparr>hp_mm := mm\<rparr>)"
    using W o v(2) by (simp add: heap_wf_def no_empty_def small_blocks_def)
qed
definition block_gone :: "nat set \<Rightarrow> (nat \<Rightarrow> nat list) \<Rightarrow> heap \<Rightarrow> alloc_kind \<Rightarrow> (nat \<Rightarrow> nat list) \<Rightarrow> heap \<Rightarrow> nat \<Rightarrow> bool" where
  "block_gone A ls h k ls' h' p \<longleftrightarrow> heap_wf A ls' h' \<and> heap_blocks ls' h' = heap_blocks ls h - {(p, k)} \<and> same_mem (hp_mm h') (hp_mm h)"

lemma heap_dealloc_small:
  assumes wf: "heap_wf A ls h" and kind: "classify n al = Inr (Small ci)" and p: "(p, Small ci) \<in> heap_blocks ls h"
  obtains ls' h' where "heap_dealloc p n al h = Inr h'" "block_gone A ls h (Small ci) ls' h' p"
proof -
  note W = heap_wfD[OF wf]
  have ps: "(p, Small ci) \<in> small_blocks ls h" using p small_not_large(1) by (auto simp: heap_blocks_def)
  obtain gone ls' h1 where f: "free_object ci p h = Inr (gone, h1)" "small_taken_back ls h ci ls' h1 p"
    "(\<Sum>ci<8. length (ls ci)) = (\<Sum>ci<8. length (ls' ci)) + of_bool gone" by (rule free_object_ok[OF W(1,2) ps])
  note g = f(2)[unfolded small_taken_back_def keeps_def]
  have blocks: "heap_blocks ls' h1 = heap_blocks ls h - {(p, Small ci)}" using g small_not_large(1)[of p ci "hp_large h"] by (simp add: heap_blocks_def Un_Diff)
  have fin: "finite (small_blocks ls h)" using finite_small_blocks owns_okD(2)[OF W(1)] by blast
  have n1: "hp_small_objects h1 = card (small_blocks ls' h1) + 1" using g W(5) card_Suc_Diff1[OF fin ps] by simp
  have b1: "hp_bytes_in_use h1 = blocks_total (heap_blocks ls' h1) + csize ci"
    using g W(4) blocks blocks_total_remove[OF finite_heap_blocks[OF W(1)] p] by simp
  have s1: "hp_slabs h1 = (\<Sum>ci<8. length (ls' ci)) + of_bool gone" using g W(6) f(3) by simp
  let ?h' = "h1\<lparr>hp_slabs := (\<Sum>ci<8. length (ls' ci)), hp_small_objects := card (small_blocks ls' h1), hp_bytes_in_use := blocks_total (heap_blocks ls' h1)\<rparr>"
  have run: "heap_dealloc p n al h = Inr ?h'"
    using n1 b1 s1 by (simp add: heap_dealloc_def kind f(1) usub_def)
  have "heap_wf A ls' ?h'" using g W(3) by (simp add: heap_wf_def counters_free)
  then have "block_gone A ls h (Small ci) ls' ?h' p" using blocks g by (simp add: block_gone_def counters_free)
  then show thesis by (rule that[OF run])
qed

lemma heap_dealloc_large:
  assumes wf: "heap_wf A ls h" and kind: "classify n al = Inr (Large k)" and p: "(p, Large k) \<in> heap_blocks ls h"
  obtains h' where "heap_dealloc p n al h = Inr h'" "block_gone A ls h (Large k) ls h' p"
proof -
  note W = heap_wfD[OF wf]
  have pl: "(p, Large k) \<in> large_block (hp_large h) ` table_live (hp_large h)" using p small_not_large(2) by (auto simp: heap_blocks_def)
  obtain h1 where f: "large_free p h = Inr (k, h1)" "large_taken_back ls h k h1 p" by (rule large_free_ok[OF W(1) pl])
  note g = f(2)[unfolded large_taken_back_def keeps_def]
  have sm: "small_blocks ls h1 = small_blocks ls h" using g by (simp add: small_blocks_def)
  have blocks: "heap_blocks ls h1 = heap_blocks ls h - {(p, Large k)}" using g sm small_not_large(2)[of p k ls h] by (simp add: heap_blocks_def Un_Diff)
  have b1: "hp_bytes_in_use h1 = blocks_total (heap_blocks ls h1) + k * FRAME_SIZE"
    using g W(4) blocks blocks_total_remove[OF finite_heap_blocks[OF W(1)] p] by simp
  let ?h' = "h1\<lparr>hp_bytes_in_use := blocks_total (heap_blocks ls h1)\<rparr>"
  have fit: "k * FRAME_SIZE < u64_limit" using b1 g W(4) blocks_total_bound[OF W(1)] by simp
  have run: "heap_dealloc p n al h = Inr ?h'"
    using b1 fit by (simp add: heap_dealloc_def kind f(1) usub_def umul_def)
  have "no_empty ls h1" using g W(2) by (simp add: no_empty_def)
  then have "heap_wf A ls ?h'" using g W(3,5,6) sm by (simp add: heap_wf_def counters_free_bytes)
  then have "block_gone A ls h (Large k) ls ?h' p" using blocks g by (simp add: block_gone_def counters_free_bytes)
  then show thesis by (rule that[OF run])
qed

text \<open>
  What the clients hold: the layouts they asked for, by address.  \<open>heap_rel A B h\<close>: the heap \<open>h\<close> serves exactly the
  clients' blocks \<open>B\<close> from the frames \<open>A\<close>.
\<close>

type_synonym ledger = "nat \<Rightarrow> (nat \<times> nat) option"

definition kind_of :: "nat \<times> nat \<Rightarrow> alloc_kind" where
  "kind_of = (\<lambda>(n, al). case classify n al of Inr k \<Rightarrow> k | Inl _ \<Rightarrow> Rejected)"

definition ledger_blocks :: "ledger \<Rightarrow> (nat \<times> alloc_kind) set" where
  "ledger_blocks B = (\<lambda>p. (p, kind_of (the (B p)))) ` dom B"

definition ledger_ok :: "ledger \<Rightarrow> bool" where
  "ledger_ok B \<longleftrightarrow> (\<forall>p n al. B p = Some (n, al) \<longrightarrow> layout_ok n al \<and> al \<le> FRAME_SIZE)"

definition heap_rel :: "nat set \<Rightarrow> ledger \<Rightarrow> heap \<Rightarrow> bool" where
  "heap_rel A B h \<longleftrightarrow> ledger_ok B \<and> (\<exists>ls. heap_wf A ls h \<and> heap_blocks ls h = ledger_blocks B)"

lemma ledger_blocks_mem: "(p, k) \<in> ledger_blocks B \<longleftrightarrow> (\<exists>l. B p = Some l \<and> k = kind_of l)"
  by (auto simp: ledger_blocks_def image_iff dom_def)

lemma ledger_blocks_insert: "(p, kind_of l) \<notin> ledger_blocks B \<Longrightarrow> B p = None \<Longrightarrow> ledger_blocks (B(p \<mapsto> l)) = insert (p, kind_of l) (ledger_blocks B)"
  by (auto simp: ledger_blocks_mem split: if_splits)

lemma ledger_blocks_remove: "ledger_blocks (B(p := None)) = ledger_blocks B - {(p, kind_of (the (B p)))}" if "B p = Some l"
  using that by (auto simp: ledger_blocks_mem split: if_splits)

lemma layout_kind:
  assumes "layout_ok n al" "al \<le> FRAME_SIZE"
  shows "classify n al = Inr (kind_of (n, al))" "n \<le> kind_bytes (kind_of (n, al))"
    "(\<exists>ci<8. kind_of (n, al) = Small ci \<and> al dvd csize ci) \<or> (\<exists>k. kind_of (n, al) = Large k \<and> 0 < k \<and> k \<le> 2 ^ 52 \<and> al dvd FRAME_SIZE)"
proof -
  have "classify n al = Inr (kind_of (n, al)) \<and> n \<le> kind_bytes (kind_of (n, al)) \<and>
    ((\<exists>ci<8. kind_of (n, al) = Small ci \<and> al dvd csize ci) \<or> (\<exists>k. kind_of (n, al) = Large k \<and> 0 < k \<and> k \<le> 2 ^ 52 \<and> al dvd FRAME_SIZE))"
    using assms(1)
  proof (cases rule: classify_cases)
    case (small ci)
    then show ?thesis by (simp add: kind_of_def)
  next
    case (large k)
    then show ?thesis by (simp add: kind_of_def)
  next
    case rejected
    then show ?thesis using assms(2) by simp
  qed
  then show "classify n al = Inr (kind_of (n, al))" "n \<le> kind_bytes (kind_of (n, al))"
    "(\<exists>ci<8. kind_of (n, al) = Small ci \<and> al dvd csize ci) \<or> (\<exists>k. kind_of (n, al) = Large k \<and> 0 < k \<and> k \<le> 2 ^ 52 \<and> al dvd FRAME_SIZE)"
    by blast+
qed

text \<open>A block is in memory the heap was given, and at an address of its own.\<close>

definition in_frames :: "nat set \<Rightarrow> nat \<Rightarrow> nat set \<Rightarrow> bool" where
  "in_frames A off X \<longleftrightarrow> (\<forall>x\<in>X. off \<le> x \<and> frame_of (x - off) \<in> A)"

lemma frame_of_diff: "FRAME_SIZE dvd off \<Longrightarrow> off \<le> x \<Longrightarrow> frame_of (x - off) = frame_of x - off"
proof -
  assume a: "FRAME_SIZE dvd off" "off \<le> x"
  obtain k where k: "off = FRAME_SIZE * k" using a(1) by blast
  obtain y where y: "x = y + FRAME_SIZE * k" using a(2) k le_Suc_ex by (metis add.commute)
  show ?thesis by (simp add: frame_of_def k y algebra_simps)
qed

lemma block_in_frames:
  assumes wf: "heap_wf A ls h" and u: "u \<in> heap_blocks ls h"
  shows "in_frames A (hp_off h) (block_bytes u)"
  unfolding in_frames_def
proof
  fix x assume x: "x \<in> block_bytes u"
  note W = heap_wfD[OF wf]
  note b = block_frame[OF W(1) u x]
  have "hp_off h \<le> x" using b(2) frame_of_le(1)[of x] by linarith
  then show "hp_off h \<le> x \<and> frame_of (x - hp_off h) \<in> A" using b(1) W(3) frame_of_diff[OF owns_okD(7)[OF W(1)]] by simp
qed

lemma block_address_unique:
  assumes ok: "owns_ok ls h" and u: "(p, k) \<in> heap_blocks ls h" "(p, l) \<in> heap_blocks ls h" shows "k = l"
proof -
  have "p \<in> block_bytes (p, k)" "p \<in> block_bytes (p, l)"
    using block_positive[OF ok u(1)] block_positive[OF ok u(2)] by (auto simp: block_bytes_def)
  from blocks_apart[OF ok this u] show ?thesis by simp
qed

end
