(* ===== verification/Heap_Props.thy ===== *)
theory Heap_Props
  imports Heap_Inv
begin

text \<open>
  What the kernel heap promises its clients, from the invariant of \<open>Heap_Inv\<close>: blocks of their own, freeing that is exact,
  \<open>realloc\<close> that keeps the data, and every frame back in the end.
\<close>

subsection \<open>Requests against the ledger\<close>

lemma heap_relE:
  assumes "heap_rel A B h"
  obtains ls where "heap_wf A ls h" "heap_blocks ls h = ledger_blocks B" "ledger_ok B"
  using assms by (auto simp: heap_rel_def)

lemma heap_rel_new:
  assumes "mem_ok s" shows "heap_rel (mm_avail s) Map.empty (heap_new headers nodes s)"
proof -
  let ?h = "heap_new headers nodes s" let ?ls = "\<lambda>_. []"
  have live: "table_live (hp_large ?h) = {}" by (auto simp: heap_new_def large_new_def table_live_def EMPTY_ENTRY_def)
  have sm: "small_blocks ?ls ?h = {}" by (simp add: small_blocks_def)
  have own: "large_owned (hp_off ?h) (hp_large ?h) = {}" "slab_frames ?ls (hp_off ?h) = {}"
    by (simp_all add: large_owned_def live slab_frames_def)
  have "owns_ok ?ls ?h"
    using assms live own
    by (simp add: owns_ok_def heap_frames_def slabs_wf_def large_wf_def slab_list_def)
       (simp add: heap_new_def large_new_def NUM_CLASSES_def disjoint_family_on_def)
  moreover have "heap_blocks ?ls ?h = {}" by (simp add: heap_blocks_def sm live)
  ultimately have "heap_wf (mm_avail s) ?ls ?h"
    using own sm by (simp add: heap_wf_def no_empty_def heap_frames_def blocks_total_def) (simp add: heap_new_def)
  then show ?thesis using \<open>heap_blocks ?ls ?h = {}\<close> by (auto simp: heap_rel_def ledger_ok_def ledger_blocks_def)
qed

text \<open>The block of an accepted request.\<close>

definition served :: "nat set \<Rightarrow> ledger \<Rightarrow> heap \<Rightarrow> nat \<Rightarrow> nat \<Rightarrow> nat \<Rightarrow> heap \<Rightarrow> bool" where
  "served A B h n al p h' \<longleftrightarrow> heap_rel A (B(p \<mapsto> (n, al))) h' \<and> B p = None \<and> al dvd p
     \<and> (\<forall>q m a. B q = Some (m, a) \<longrightarrow> {p..<p + n} \<inter> {q..<q + m} = {}) \<and> in_frames A (hp_off h) {p..<p + n}"

lemma block_given_served:
  assumes wf: "heap_wf A ls h" "heap_blocks ls h = ledger_blocks B" "ledger_ok B"
    and lay: "layout_ok n al" "al \<le> FRAME_SIZE"
    and g: "block_given A ls h (kind_of (n, al)) ls' h' p" and al: "al dvd p"
  shows "served A B h n al p h'"
proof -
  let ?k = "kind_of (n, al)"
  note G = g[unfolded block_given_def]
  have o': "owns_ok ls' h'" using G heap_wfD(1) by blast
  have inb: "(p, ?k) \<in> heap_blocks ls' h'" using G by simp
  have old: "(q, kind_of l) \<in> heap_blocks ls' h'" if "B q = Some l" for q l
    using G wf(2) that by (simp add: ledger_blocks_mem)
  have none: "B p = None"
  proof (rule ccontr)
    assume "B p \<noteq> None"
    then obtain l where l: "B p = Some l" by blast
    have "?k = kind_of l" by (rule block_address_unique[OF o' inb old[OF l]])
    then show False using G wf(2) l by (simp add: ledger_blocks_mem)
  qed
  have "(p, ?k) \<notin> ledger_blocks B" using G wf(2) by simp
  then have "heap_blocks ls' h' = ledger_blocks (B(p \<mapsto> (n, al)))" using G wf(2) none by (simp add: ledger_blocks_insert)
  moreover have "ledger_ok (B(p \<mapsto> (n, al)))" using wf(3) lay by (simp add: ledger_ok_def)
  ultimately have rel: "heap_rel A (B(p \<mapsto> (n, al))) h'" using G by (auto simp: heap_rel_def)
  have apart: "{p..<p + n} \<inter> {q..<q + m} = {}" if q: "B q = Some (m, a)" for q m a
  proof -
    have lq: "m \<le> kind_bytes (kind_of (m, a))" using wf(3) q by (intro layout_kind(2)) (auto simp: ledger_ok_def)
    have "{p..<p + n} \<subseteq> block_bytes (p, ?k)" "{q..<q + m} \<subseteq> block_bytes (q, kind_of (m, a))"
      using layout_kind(2)[OF lay] lq by (auto simp: block_bytes_def)
    moreover have "(p, ?k) \<noteq> (q, kind_of (m, a))" using none q by auto
    ultimately show ?thesis using blocks_apart[OF o' _ _ inb old[OF q]] by blast
  qed
  have "in_frames A (hp_off h') (block_bytes (p, ?k))" using block_in_frames[OF _ inb] G by blast
  moreover have "hp_off h' = hp_off h" using G by (simp add: same_mem_def)
  ultimately have "in_frames A (hp_off h) {p..<p + n}"
    using layout_kind(2)[OF lay] by (auto simp: in_frames_def block_bytes_def)
  then show ?thesis using rel none al apart by (simp add: served_def)
qed

text \<open>Every reason to answer null.\<close>

definition alloc_refused :: "nat \<Rightarrow> nat \<Rightarrow> heap \<Rightarrow> bool" where
  "alloc_refused n al h \<longleftrightarrow> FRAME_SIZE < al \<or> (case kind_of (n, al) of
      Small ci \<Rightarrow> mm_general (hp_mm h) = {} \<or> (mm_inject_skip (hp_mm h) = 0 \<and> 0 < mm_inject_failures (hp_mm h))
    | Large k \<Rightarrow> table_live (hp_large h) = {..<MAX_LARGE_OBJECTS} \<or> alloc_contiguous k 1 (hp_mm h) = Inr (None, hp_mm h)
    | Rejected \<Rightarrow> False)"

lemma heap_alloc_rel:
  assumes rel: "heap_rel A B h" and lay: "layout_ok n al"
  obtains p h' where "heap_alloc n al h = Some (Inr (p, h'))" "same_mem (hp_mm h') (hp_mm h)"
    "p = 0 \<Longrightarrow> heap_rel A B h'" "p \<noteq> 0 \<Longrightarrow> served A B h n al p h'"
    "p = 0 \<Longrightarrow> alloc_refused n al h"
    "p \<noteq> 0 \<Longrightarrow> al \<le> FRAME_SIZE"
proof -
  obtain ls where wf: "heap_wf A ls h" "heap_blocks ls h = ledger_blocks B" "ledger_ok B" using rel by (rule heap_relE)
  from lay show thesis
  proof (cases rule: classify_cases)
    case (small ci)
    have fr: "al \<le> FRAME_SIZE" using small(1) by (auto simp: classify_def Let_def split: if_splits)
    have k: "kind_of (n, al) = Small ci" using small(1) by (simp add: kind_of_def)
    from wf(1) small(1,2) show ?thesis
    proof (cases rule: heap_alloc_small)
      case (none mm)
      have "heap_rel A B (h\<lparr>hp_mm := mm\<rparr>)" using heap_wf_mm[OF wf(1) none(2,3)] wf(2,3) by (auto simp: heap_rel_def)
      then show ?thesis using none k by (intro that[of 0 "h\<lparr>hp_mm := mm\<rparr>"]) (auto simp: alloc_refused_def)
    next
      case (some p ls' h')
      have "served A B h n al p h'" using block_given_served[OF wf lay fr] some(2,3) small(4) k dvd_trans by metis
      then show ?thesis using some fr by (intro that[of p h']) (auto simp: block_given_def)
    qed
  next
    case (large k)
    have fr: "al \<le> FRAME_SIZE" using large(1) by (auto simp: classify_def Let_def split: if_splits)
    have kk: "kind_of (n, al) = Large k" using large(1) by (simp add: kind_of_def)
    from wf(1) large(1-3) show ?thesis
    proof (cases rule: heap_alloc_large)
      case none
      then show ?thesis using rel kk by (intro that[of 0 h]) (auto simp: same_mem_def alloc_refused_def)
    next
      case (some p h')
      have "served A B h n al p h'" using block_given_served[OF wf lay fr] some(2,3) large(5) kk dvd_trans by metis
      then show ?thesis using some fr by (intro that[of p h']) (auto simp: block_given_def)
    qed
  next
    case rejected
    then have "heap_alloc n al h = Some (Inr (0, h))" by (simp add: heap_alloc_def)
    then show ?thesis using rel rejected(2) by (intro that[of 0 h]) (auto simp: same_mem_def alloc_refused_def)
  qed
qed

lemma heap_dealloc_rel:
  assumes rel: "heap_rel A B h" and p: "B p = Some (n, al)"
  obtains h' where "heap_dealloc p n al h = Inr h'" "heap_rel A (B(p := None)) h'" "same_mem (hp_mm h') (hp_mm h)"
proof -
  obtain ls where wf: "heap_wf A ls h" "heap_blocks ls h = ledger_blocks B" "ledger_ok B" using rel by (rule heap_relE)
  have lay: "layout_ok n al" "al \<le> FRAME_SIZE" using wf(3) p by (auto simp: ledger_ok_def)
  note k = layout_kind[OF lay]
  have inb: "(p, kind_of (n, al)) \<in> heap_blocks ls h" using wf(2) p by (auto simp: ledger_blocks_mem)
  have ledger: "ledger_ok (B(p := None))" using wf(3) by (simp add: ledger_ok_def)
  have "\<exists>ls' h'. heap_dealloc p n al h = Inr h' \<and> block_gone A ls h (kind_of (n, al)) ls' h' p"
    using k(3)
  proof (elim disjE exE conjE)
    fix ci assume ci: "kind_of (n, al) = Small ci"
    from heap_dealloc_small[OF wf(1) k(1)[unfolded ci] inb[unfolded ci]] ci show ?thesis by metis
  next
    fix m assume m: "kind_of (n, al) = Large m"
    from heap_dealloc_large[OF wf(1) k(1)[unfolded m] inb[unfolded m]] m show ?thesis by metis
  qed
  then obtain ls' h' where r: "heap_dealloc p n al h = Inr h'" "block_gone A ls h (kind_of (n, al)) ls' h' p" by blast
  have "heap_rel A (B(p := None)) h'"
    using r(2) ledger wf(2) ledger_blocks_remove[of B p, OF p] p by (auto simp: heap_rel_def block_gone_def)
  then show thesis using r by (intro that[of h']) (auto simp: block_gone_def)
qed
subsection \<open>Moving a block\<close>

lemma kind_eq_bytes: "kind_of (n, al) = kind_of (m, al) \<Longrightarrow> layout_ok m al \<Longrightarrow> al \<le> FRAME_SIZE \<Longrightarrow> m \<le> kind_bytes (kind_of (n, al))"
  using layout_kind(2) by metis

lemma round_up_layout:
  assumes lay: "layout_ok n al" and al: "al \<le> FRAME_SIZE" and fits: "\<not> 2 ^ 63 \<le> (m + al - 1) div al * al"
  shows "layout_ok m al"
proof -
  obtain k where k: "al = 2 ^ k" using lay by (auto simp: layout_ok_def)
  then have "k \<le> 12" using al power_le_imp_le_exp[of "2::nat" k 12] by (simp add: FRAME_SIZE_def)
  then have d: "al dvd 2 ^ 63" unfolding k by (intro le_imp_power_dvd) simp
  let ?q = "(m + al - 1) div al"
  have pos: "0 < al" using k by simp
  then have "div_ceil m al = ?q" by (simp add: div_ceil_def)
  then have mq: "m \<le> ?q * al" using le_div_ceil_mult[OF pos, of m] by simp
  obtain z where z: "2 ^ 63 = z * al" using d by (metis dvd_def mult.commute)
  have "?q * al < z * al" using fits z by simp
  then have "?q < z" by simp
  then have "(?q + 1) * al \<le> z * al" by (intro mult_le_mono1) simp
  then have "m + al \<le> 2 ^ 63" using mq z by (simp add: distrib_right)
  then show ?thesis using k by (auto simp: layout_ok_def)
qed

text \<open>What a client reads at an address of the direct map.\<close>

definition byte_at :: "heap \<Rightarrow> nat \<Rightarrow> u8" where "byte_at h v = mm_ram (hp_mm h) (v - hp_off h)"

lemma same_mem_bytes: "same_mem (hp_mm h') (hp_mm h) \<Longrightarrow> byte_at h' v = byte_at h v"
  by (simp add: byte_at_def same_mem_def)

lemma heap_rel_ram:
  assumes rel: "heap_rel A B h" shows "heap_rel A B (h\<lparr>hp_mm := hp_mm h\<lparr>mm_ram := r\<rparr>\<rparr>)"
proof -
  obtain ls where wf: "heap_wf A ls h" "heap_blocks ls h = ledger_blocks B" "ledger_ok B" using rel by (rule heap_relE)
  let ?h = "h\<lparr>hp_mm := hp_mm h\<lparr>mm_ram := r\<rparr>\<rparr>"
  note v = mm_views_cong[of "hp_mm h\<lparr>mm_ram := r\<rparr>" "hp_mm h"]
  have "owns_ok ls ?h = owns_ok ls h" using v by (simp add: owns_ok_def mem_ok_def vm_ok_def slabs_wf_def heap_frames_def mm_lent_def)
  moreover have "no_empty ls ?h = no_empty ls h" "heap_frames ls ?h = heap_frames ls h" "heap_blocks ls ?h = heap_blocks ls h"
    "small_blocks ls ?h = small_blocks ls h"
    by (simp_all add: no_empty_def heap_frames_def heap_blocks_def small_blocks_def)
  ultimately show ?thesis using wf v unfolding heap_rel_def heap_wf_def by (intro conjI exI[of _ ls]) auto
qed

lemma copy_bytes_at:
  assumes "hp_off h \<le> d" "hp_off h \<le> s"
  shows "hp_off h \<le> v \<Longrightarrow> byte_at (copy_bytes s d n h) v = (if d \<le> v \<and> v < d + n then byte_at h (s + (v - d)) else byte_at h v)"
  using assms by (auto simp: copy_bytes_def byte_at_def Let_def add.commute)

lemma in_framesD: "in_frames A off X \<Longrightarrow> x \<in> X \<Longrightarrow> off \<le> x"
  by (auto simp: in_frames_def)

lemma ledger_in_frames:
  assumes rel: "heap_rel A B h" and q: "B q = Some (m, a)"
  shows "in_frames A (hp_off h) {q..<q + m}"
proof -
  obtain ls where wf: "heap_wf A ls h" "heap_blocks ls h = ledger_blocks B" "ledger_ok B" using rel by (rule heap_relE)
  have inb: "(q, kind_of (m, a)) \<in> heap_blocks ls h" using wf(2) q by (auto simp: ledger_blocks_mem)
  have "m \<le> kind_bytes (kind_of (m, a))" using wf(3) q by (intro layout_kind(2)) (auto simp: ledger_ok_def)
  then show ?thesis using block_in_frames[OF wf(1) inb] by (auto simp: in_frames_def block_bytes_def)
qed

lemma ledger_nonzero:
  assumes rel: "heap_rel A B h" and q: "B q = Some l"
  shows "q \<noteq> 0" "hp_off h \<le> q"
proof -
  obtain ls where wf: "heap_wf A ls h" "heap_blocks ls h = ledger_blocks B" using rel by (rule heap_relE)
  note o = heap_wfD(1)[OF wf(1)]
  have inb: "(q, kind_of l) \<in> heap_blocks ls h" using wf(2) q by (auto simp: ledger_blocks_mem)
  have "q \<in> block_bytes (q, kind_of l)" using block_positive[OF o inb] by (simp add: block_bytes_def)
  note f = block_frame[OF o inb this]
  show "q \<noteq> 0" "hp_off h \<le> q" using heap_frames_fit(2)[OF o f(1)] f(2) frame_of_le(1)[of q] by auto
qed

subsection \<open>Histories\<close>

text \<open>
  Any sequence of requests since \<open>HeapState::new\<close> by clients that keep \<open>GlobalAlloc\<close>'s contract: they free what they were given,
  with the layout they asked for.
\<close>

inductive heap_history :: "mm_state \<Rightarrow> heap \<Rightarrow> ledger \<Rightarrow> bool" for s where
  history_new: "heap_history s (heap_new headers nodes s) Map.empty"
| history_alloc: "heap_history s h B \<Longrightarrow> layout_ok n al \<Longrightarrow> heap_alloc n al h = Some (Inr (p, h'))
    \<Longrightarrow> heap_history s h' (if p = 0 then B else B(p \<mapsto> (n, al)))"
| history_zeroed: "heap_history s h B \<Longrightarrow> layout_ok n al \<Longrightarrow> heap_alloc_zeroed n al h = Some (Inr (p, h'))
    \<Longrightarrow> heap_history s h' (if p = 0 then B else B(p \<mapsto> (n, al)))"
| history_dealloc: "heap_history s h B \<Longrightarrow> B p = Some (n, al) \<Longrightarrow> heap_dealloc p n al h = Inr h' \<Longrightarrow> heap_history s h' (B(p := None))"
| history_realloc: "heap_history s h B \<Longrightarrow> B p = Some (n, al) \<Longrightarrow> 0 < m \<Longrightarrow> heap_realloc p n al m h = Some (Inr (q, h'))
    \<Longrightarrow> heap_history s h' (if q = 0 then B else (B(p := None))(q \<mapsto> (m, al)))"

text \<open>The outcome of \<open>realloc\<close>: null and nothing moved, or the data at a block of the new size.\<close>

definition moved :: "nat set \<Rightarrow> ledger \<Rightarrow> heap \<Rightarrow> nat \<Rightarrow> nat \<Rightarrow> nat \<Rightarrow> nat \<Rightarrow> nat \<Rightarrow> heap \<Rightarrow> bool" where
  "moved A B h p n al m q h' \<longleftrightarrow> heap_rel A ((B(p := None))(q \<mapsto> (m, al))) h'
     \<and> (\<forall>i<min n m. byte_at h' (q + i) = byte_at h (p + i))
     \<and> (\<forall>r k a i. r \<noteq> p \<longrightarrow> B r = Some (k, a) \<longrightarrow> i < k \<longrightarrow> byte_at h' (r + i) = byte_at h (r + i))"

lemma heap_realloc_rel:
  assumes rel: "heap_rel A B h" and p: "B p = Some (n, al)" and m: "0 < m"
  obtains q h' where "heap_realloc p n al m h = Some (Inr (q, h'))" "hp_off h' = hp_off h"
    "q = 0 \<Longrightarrow> heap_rel A B h' \<and> same_mem (hp_mm h') (hp_mm h)" "q \<noteq> 0 \<Longrightarrow> moved A B h p n al m q h'"
proof -
  obtain ls where wf: "heap_wf A ls h" "heap_blocks ls h = ledger_blocks B" "ledger_ok B" using rel by (rule heap_relE)
  have lay: "layout_ok n al" "al \<le> FRAME_SIZE" using wf(3) p by (auto simp: ledger_ok_def)
  note k = layout_kind[OF lay]
  show thesis
  proof (cases "2 ^ 63 \<le> (m + al - 1) div al * al")
    case True
    then show thesis using rel by (intro that[of 0 h]) (simp_all add: heap_realloc_def same_mem_def)
  next
    case fits: False
    have lm: "layout_ok m al" by (rule round_up_layout[OF lay fits])
    note km = layout_kind[OF lm lay(2)]
    show thesis
    proof (cases "kind_of (n, al) = kind_of (m, al)")
      case True
      have run: "heap_realloc p n al m h = Some (Inr (p, h))" using fits k(1,3) km(1) True by (auto simp: heap_realloc_def)
      have inb: "(p, kind_of (n, al)) \<in> heap_blocks ls h" using wf(2) p by (auto simp: ledger_blocks_mem)
      have "ledger_blocks ((B(p := None))(p \<mapsto> (m, al))) = ledger_blocks B"
        using p True by (auto simp: ledger_blocks_mem split: if_splits)
      then have "heap_rel A ((B(p := None))(p \<mapsto> (m, al))) h"
        using wf lm lay(2) by (auto simp: heap_rel_def ledger_ok_def)
      then have "moved A B h p n al m p h" by (simp add: moved_def)
      moreover have "p \<noteq> 0" by (rule ledger_nonzero(1)[of A B h, OF rel p])
      ultimately show thesis using run by (intro that[of p h]) simp_all
    next
      case False
      obtain q h1 where a: "heap_alloc m al h = Some (Inr (q, h1))" "same_mem (hp_mm h1) (hp_mm h)" "q = 0 \<Longrightarrow> heap_rel A B h1"
        "q \<noteq> 0 \<Longrightarrow> served A B h m al q h1" by (rule heap_alloc_rel[OF rel lm]) (rule that; assumption)
      have off1: "hp_off h1 = hp_off h" using a(2) by (simp add: same_mem_def)
      have go: "heap_realloc p n al m h = Some (if q = 0 then Inr (q, h1)
          else and_then (heap_dealloc p n al (copy_bytes p q (min n m) h1)) (\<lambda>h2. Inr (q, h2)))"
        using fits k(1) km(1) False a(1) by (simp add: heap_realloc_def)
      show thesis
      proof (cases "q = 0")
        case True
        then show thesis using go a(2,3) off1 by (intro that[of 0 h1]) simp_all
      next
        case False
        note S = a(4)[OF False, unfolded served_def]
        let ?h2 = "copy_bytes p q (min n m) h1"
        have off2: "hp_off ?h2 = hp_off h" using off1 by (simp add: copy_bytes_def Let_def)
        have pq: "p \<noteq> q" using S p by auto
        have rel2: "heap_rel A (B(q \<mapsto> (m, al))) ?h2" using heap_rel_ram S unfolding copy_bytes_def Let_def by blast
        have p2: "(B(q \<mapsto> (m, al))) p = Some (n, al)" using p pq by simp
        obtain h3 where d: "heap_dealloc p n al ?h2 = Inr h3" "heap_rel A ((B(q \<mapsto> (m, al)))(p := None)) h3" "same_mem (hp_mm h3) (hp_mm ?h2)"
          by (rule heap_dealloc_rel[OF rel2 p2])
        have lq: "hp_off h1 \<le> q" using S m in_framesD[of A "hp_off h" "{q..<q + m}" q] off1 by simp
        have byte3: "byte_at h3 v = (if q \<le> v \<and> v < q + min n m then byte_at h (p + (v - q)) else byte_at h v)" if "hp_off h \<le> v" "hp_off h \<le> p" for v
          using same_mem_bytes[OF d(3)] copy_bytes_at[of h1 q p v "min n m"] same_mem_bytes[OF a(2)] lq that off1 by simp
        have lp: "hp_off h \<le> p" by (rule ledger_nonzero(2)[of A B h, OF rel p])
        have data: "byte_at h3 (q + i) = byte_at h (p + i)" if "i < min n m" for i
          using byte3[of "q + i"] lp that lq off1 by simp
        have others: "byte_at h3 (r + i) = byte_at h (r + i)" if r: "r \<noteq> p" "B r = Some (c, b)" "i < c" for r c b i
        proof -
          have ir: "hp_off h \<le> r + i" using in_framesD[OF ledger_in_frames[OF rel r(2)], of "r + i"] r(3) by simp
          have "r + i \<notin> {q..<q + m}" using S r by (metis IntI atLeastLessThan_iff emptyE le_add1 nat_add_left_cancel_less)
          then show ?thesis using byte3[OF ir lp] by auto
        qed
        have "heap_rel A ((B(p := None))(q \<mapsto> (m, al))) h3" using d(2) pq by (simp add: fun_upd_twist)
        then have "moved A B h p n al m q h3" using data others by (simp add: moved_def)
        moreover have "hp_off h3 = hp_off h" using d(3) off2 by (simp add: same_mem_def)
        ultimately show thesis using go False d(1) by (intro that[of q h3]) simp_all
      qed
    qed
  qed
qed
lemma heap_zeroed_rel:
  assumes rel: "heap_rel A B h" and lay: "layout_ok n al" and run: "heap_alloc_zeroed n al h = Some (Inr (p, h'))"
  shows "heap_rel A (if p = 0 then B else B(p \<mapsto> (n, al))) h'"
proof -
  from rel lay obtain q h1 where a: "heap_alloc n al h = Some (Inr (q, h1))" "q = 0 \<Longrightarrow> heap_rel A B h1" "q \<noteq> 0 \<Longrightarrow> served A B h n al q h1"
    by (rule heap_alloc_rel) (rule that; assumption)
  then have "p = q" "h' = (if q \<noteq> 0 then write_zeros q n h1 else h1)" using run by (auto simp: heap_alloc_zeroed_def)
  then show ?thesis using a(2,3) heap_rel_ram by (auto simp: served_def write_zeros_def Let_def)
qed

lemma history_rel:
  assumes "heap_history s h B" and "mem_ok s"
  shows "heap_rel (mm_avail s) B h"
  using assms
proof (induction rule: heap_history.induct)
  case (history_new headers nodes)
  then show ?case by (rule heap_rel_new)
next
  case (history_alloc h B n al p h')
  from history_alloc.IH[OF history_alloc.prems] history_alloc.hyps(2) obtain q h1 where
    "heap_alloc n al h = Some (Inr (q, h1))" "q = 0 \<Longrightarrow> heap_rel (mm_avail s) B h1" "q \<noteq> 0 \<Longrightarrow> served (mm_avail s) B h n al q h1"
    by (rule heap_alloc_rel) (rule that; assumption)
  then show ?case using history_alloc.hyps(3) by (auto simp: served_def)
next
  case (history_zeroed h B n al p h')
  then show ?case using heap_zeroed_rel by blast
next
  case (history_dealloc h B p n al h')
  from history_dealloc.IH[OF history_dealloc.prems] history_dealloc.hyps(2) obtain h1 where
    "heap_dealloc p n al h = Inr h1" "heap_rel (mm_avail s) (B(p := None)) h1" by (rule heap_dealloc_rel) (rule that; assumption)
  then show ?case using history_dealloc.hyps(3) by (simp del: fun_upd_apply)
next
  case (history_realloc h B p n al m q h')
  from history_realloc.IH[OF history_realloc.prems] history_realloc.hyps(2,3) obtain r h1 where
    "heap_realloc p n al m h = Some (Inr (r, h1))" "r = 0 \<Longrightarrow> heap_rel (mm_avail s) B h1 \<and> same_mem (hp_mm h1) (hp_mm h)"
    "r \<noteq> 0 \<Longrightarrow> moved (mm_avail s) B h p n al m r h1"
    by (rule heap_realloc_rel) (rule that; assumption)
  then show ?case using history_realloc.hyps(4) by (auto simp: moved_def)
qed

text \<open>The counters, read off the ledger.\<close>

definition small_held :: "ledger \<Rightarrow> nat set" where
  "small_held B = {p \<in> dom B. \<exists>ci. kind_of (the (B p)) = Small ci}"

definition large_held :: "ledger \<Rightarrow> nat set" where
  "large_held B = {p \<in> dom B. \<exists>k. kind_of (the (B p)) = Large k}"

lemma inj_ledger: "inj_on (\<lambda>p. (p, kind_of (the (B p)))) X"
  by (simp add: inj_on_def)

lemma heap_rel_blocks:
  assumes wf: "heap_wf A ls h" and eq: "heap_blocks ls h = ledger_blocks B"
  shows "small_blocks ls h = (\<lambda>p. (p, kind_of (the (B p)))) ` small_held B"
    "large_block (hp_large h) ` table_live (hp_large h) = (\<lambda>p. (p, kind_of (the (B p)))) ` large_held B"
proof -
  let ?S = "small_blocks ls h" and ?L = "large_block (hp_large h) ` table_live (hp_large h)"
  have S: "?S = {(p, k) \<in> ledger_blocks B. \<exists>ci. k = Small ci}" and L: "?L = {(p, k) \<in> ledger_blocks B. \<exists>m. k = Large m}"
    unfolding eq[symmetric] heap_blocks_def by (auto simp: small_blocks_def large_block_def)
  show "?S = (\<lambda>p. (p, kind_of (the (B p)))) ` small_held B" unfolding S ledger_blocks_def small_held_def by (auto simp: image_iff)
  show "?L = (\<lambda>p. (p, kind_of (the (B p)))) ` large_held B" unfolding L ledger_blocks_def large_held_def by (auto simp: image_iff)
qed

lemma heap_rel_stats:
  assumes rel: "heap_rel A B h"
  shows "hs_bytes_in_use (heap_stats_of h) = (\<Sum>p\<in>dom B. kind_bytes (kind_of (the (B p))))"
    "hs_small_objects_in_use (heap_stats_of h) = card (small_held B)"
    "hs_large_objects (heap_stats_of h) = card (large_held B)"
    "hs_large_frames (heap_stats_of h) * FRAME_SIZE = (\<Sum>p\<in>large_held B. kind_bytes (kind_of (the (B p))))"
    "finite (dom B)"
proof -
  obtain ls where wf: "heap_wf A ls h" "heap_blocks ls h = ledger_blocks B" using rel by (rule heap_relE)
  note W = heap_wfD[OF wf(1)] and b = heap_rel_blocks[OF wf]
  show "finite (dom B)"
    using finite_heap_blocks[OF W(1)] wf(2) finite_imageD[OF _ inj_ledger, of B "dom B"] by (simp add: ledger_blocks_def)
  show "hs_bytes_in_use (heap_stats_of h) = (\<Sum>p\<in>dom B. kind_bytes (kind_of (the (B p))))"
    unfolding heap_stats_of_def using W(4) wf(2) by (simp add: blocks_total_def ledger_blocks_def sum.reindex[OF inj_ledger])
  show "hs_small_objects_in_use (heap_stats_of h) = card (small_held B)"
    unfolding heap_stats_of_def using W(5) b(1) card_image[OF inj_ledger] by simp
  note lw = owns_okD(3)[OF W(1)] and inj = large_block_inj[OF W(1)]
  have "card (table_live (hp_large h)) = card (large_held B)" using card_image[OF inj] card_image[OF inj_ledger] b(2) by metis
  then show "hs_large_objects (heap_stats_of h) = card (large_held B)" using lw by (simp add: heap_stats_of_def large_wf_def)
  have "lt_total_frames (hp_large h) * FRAME_SIZE = (\<Sum>i\<in>table_live (hp_large h). kind_bytes (snd (large_block (hp_large h) i)))"
    using lw by (simp add: large_wf_def large_block_def sum_distrib_right)
  also have "\<dots> = (\<Sum>u\<in>large_block (hp_large h) ` table_live (hp_large h). kind_bytes (snd u))" by (subst sum.reindex[OF inj]) simp
  also have "\<dots> = (\<Sum>p\<in>large_held B. kind_bytes (kind_of (the (B p))))" unfolding b(2) by (subst sum.reindex[OF inj_ledger]) simp
  finally show "hs_large_frames (heap_stats_of h) * FRAME_SIZE = (\<Sum>p\<in>large_held B. kind_bytes (kind_of (the (B p))))"
    by (simp add: heap_stats_of_def)
qed

lemma heap_rel_idle:
  assumes rel: "heap_rel A Map.empty h"
  shows "mm_avail (hp_mm h) = A" "hp_slabs h = 0"
proof -
  obtain ls where wf: "heap_wf A ls h" "heap_blocks ls h = ledger_blocks Map.empty" using rel by (rule heap_relE)
  note W = heap_wfD[OF wf(1)]
  have none: "heap_blocks ls h = {}" using wf(2) by (simp add: ledger_blocks_def)
  have ls: "ls ci = []" if ci: "ci < 8" for ci
  proof (cases "ls ci")
    case (Cons b bs)
    then obtain i where "i \<in> taken (hp_header h b)" using W(2) ci unfolding no_empty_def by (metis all_not_in_conv list.set_intros(1))
    then have "(slot_addr b ci i, Small ci) \<in> heap_blocks ls h" using small_blocksI[of ci b ls i h] Cons ci by (simp add: heap_blocks_def)
    then show ?thesis using none by simp
  qed
  have "table_live (hp_large h) = {}" using none by (simp add: heap_blocks_def)
  then have "heap_frames ls h = {}" using ls by (auto simp: heap_frames_def slab_frames_def large_owned_def)
  then show "mm_avail (hp_mm h) = A" using W(3) by simp
  show "hp_slabs h = 0" using W(6) ls by simp
qed
subsection \<open>Freeing twice\<close>

lemma large_free_unknown:
  assumes rel: "heap_rel A B h" and p: "B p = None" "p \<noteq> 0" and kind: "classify n al = Inr (Large k)"
  shows "heap_dealloc p n al h = Inl (Assert_failed ''heap: free of unknown large object'')"
proof -
  obtain ls where wf: "heap_wf A ls h" "heap_blocks ls h = ledger_blocks B" using rel by (rule heap_relE)
  have "find_entry p (hp_large h) = None"
  proof (cases rule: find_entry_cases[of p "hp_large h"])
    case (some i)
    then have "i \<in> table_live (hp_large h)" using p(2) by (simp add: table_live_def)
    then have "large_block (hp_large h) i \<in> ledger_blocks B" using wf(2) by (auto simp: heap_blocks_def)
    then show ?thesis using some(3) p(1) by (auto simp: large_block_def ledger_blocks_mem)
  qed
  then show ?thesis by (simp add: heap_dealloc_def kind large_free_def)
qed

text \<open>The blocks of one slab's frame are its slots.\<close>

lemma slab_of_block:
  assumes ok: "owns_ok ls h" and b: "ci < 8" "b \<in> set (ls ci)" and q: "(q, k) \<in> heap_blocks ls h" "frame_of q = b"
  shows "k = Small ci"
proof -
  note D = owns_okD[OF ok]
  have x: "q \<in> block_bytes (q, k)" using block_positive[OF ok q(1)] by (simp add: block_bytes_def)
  consider (small) c cj i where "cj < 8" "c \<in> set (ls cj)" "i \<in> taken (hp_header h c)" "(q, k) = (slot_addr c cj i, Small cj)"
    | (large) i where "i \<in> table_live (hp_large h)" "(q, k) = large_block (hp_large h) i"
    using q(1) by (auto simp: heap_blocks_def small_blocks_def)
  then show ?thesis
  proof cases
    case small
    have "frame_of q = c" using x small(4) by (intro small_block_frame[OF D(2) small(1-3)]) simp
    then show ?thesis using one_class[OF D(2) b(1) small(1) b(2)] small(2,4) q(2) by simp
  next
    case large
    have "b - hp_off h \<in> large_owned (hp_off h) (hp_large h)"
      using large_block_frame(1)[OF D(3,7) large(1)] x large(2) large_in_owned[OF large(1)] q(2) by auto
    moreover have "b - hp_off h \<in> slab_frames ls (hp_off h)" using slab_in_frames[of ci b ls, OF b D(4)[OF b]] .
    ultimately show ?thesis using D(6) by blast
  qed
qed

lemma small_free_twice:
  assumes rel: "heap_rel A B h" and p: "B p = Some (n, al)" and kind: "kind_of (n, al) = Small ci"
    and q: "B q = Some l" "q \<noteq> p" "frame_of q = frame_of p" and run: "heap_dealloc p n al h = Inr h'"
  shows "heap_dealloc p n al h' = Inl (Assert_failed ''heap: double free'')"
proof -
  obtain ls where wf: "heap_wf A ls h" "heap_blocks ls h = ledger_blocks B" "ledger_ok B" using rel by (rule heap_relE)
  have lay: "layout_ok n al" "al \<le> FRAME_SIZE" using wf(3) p by (auto simp: ledger_ok_def)
  have cl: "classify n al = Inr (Small ci)" using layout_kind(1)[OF lay] kind by simp
  note o = heap_wfD(1)[OF wf(1)]
  have "(p, Small ci) \<in> heap_blocks ls h" using wf(2) p kind by (auto simp: ledger_blocks_mem)
  then have "(p, Small ci) \<in> small_blocks ls h" using small_not_large(1)[of p ci "hp_large h"] by (simp add: heap_blocks_def)
  then obtain b i where b: "ci < 8" "b \<in> set (ls ci)" "i \<in> taken (hp_header h b)" "p = slot_addr b ci i"
    by (auto simp: small_blocks_mem)
  have bp: "0 < csize ci" using class_facts(9)[OF b(1)] by linarith
  have fp: "frame_of p = b" using bp b(4) by (intro small_block_frame[OF owns_okD(2)[OF o] b(1-3)]) (simp add: block_bytes_def)
  have i: "i < slab_cap ci" using slab_free_count(2)[OF b(1) slabs_wfD(4)[OF owns_okD(2)[OF o] b(1,2)]] b(3) by blast
  have "(q, kind_of l) \<in> heap_blocks ls h" using wf(2) q(1) by (auto simp: ledger_blocks_mem)
  then have kq: "kind_of l = Small ci" using slab_of_block[OF o b(1,2)] q(3) fp by simp
  obtain h1 where "heap_dealloc p n al h = Inr h1" "heap_rel A (B(p := None)) h1" by (rule heap_dealloc_rel[OF rel p])
  then have rel': "heap_rel A (B(p := None)) h'" using run by simp
  obtain ls' where wf': "heap_wf A ls' h'" "heap_blocks ls' h' = ledger_blocks (B(p := None))" using rel' by (rule heap_relE)
  note o' = heap_wfD(1)[OF wf'(1)]
  have "(q, Small ci) \<in> heap_blocks ls' h'" using wf'(2) q(1,2) kq by (auto simp: ledger_blocks_mem)
  then have "(q, Small ci) \<in> small_blocks ls' h'" using small_not_large(1)[of q ci "hp_large h'"] by (simp add: heap_blocks_def)
  then obtain c j where c: "c \<in> set (ls' ci)" "j \<in> taken (hp_header h' c)" "q = slot_addr c ci j" by (auto simp: small_blocks_mem)
  have "frame_of q = c" using bp c(3) by (intro small_block_frame[OF owns_okD(2)[OF o'] b(1) c(1,2)]) (simp add: block_bytes_def)
  then have bl: "b \<in> set (ls' ci)" using c(1) q(3) fp by simp
  have free: "i \<notin> taken (hp_header h' b)"
  proof
    assume "i \<in> taken (hp_header h' b)"
    then have "(p, Small ci) \<in> ledger_blocks (B(p := None))" using small_blocksI[of ci b ls' i h'] b(1,4) bl wf'(2) by (auto simp: heap_blocks_def)
    then show False by (simp add: ledger_blocks_mem)
  qed
  note wf2 = owns_okD(2)[OF o']
  from free_object_twice[OF b(1) slabs_wfD(4)[OF wf2 b(1) bl] i free slabs_wfD(5)[OF wf2 b(1) bl]] b(4)
  show ?thesis by (simp add: heap_dealloc_def cl)
qed

subsection \<open>Properties\<close>

text \<open>
  C7. Every block is the client's own: an allocation that does not answer null returns an address aligned as asked, whose
  bytes lie in frames the heap may use and belong to no live block, and from there on the heap serves one block more.
\<close>
theorem heap_alloc_fresh:
  assumes "heap_rel A B h" and "layout_ok n al" and "heap_alloc n al h = Some (Inr (p, h'))" and "p \<noteq> 0"
  shows "heap_rel A (B(p \<mapsto> (n, al))) h' \<and> B p = None \<and> al dvd p
    \<and> (\<forall>q m a. B q = Some (m, a) \<longrightarrow> {p..<p + n} \<inter> {q..<q + m} = {}) \<and> in_frames A (hp_off h) {p..<p + n}"
proof -
  from assms(1,2) obtain q h1 where a: "heap_alloc n al h = Some (Inr (q, h1))" "q \<noteq> 0 \<Longrightarrow> served A B h n al q h1"
    by (rule heap_alloc_rel) (rule that; assumption)
  then have "served A B h n al p h'" using assms(3,4) by simp
  then show ?thesis by (simp add: served_def)
qed

text \<open>
  C8. Allocation never panics and always returns, whatever layout a client may build: the walk of the slab list ends, no
  counter overflows, and the answer is null exactly for an alignment above a frame, an exhausted or failing frame
  allocator, no contiguous run, or a full table of large objects; the clients' blocks are then as before.
\<close>
theorem heap_alloc_returns:
  assumes "heap_rel A B h" and "layout_ok n al"
  shows "\<exists>p h'. heap_alloc n al h = Some (Inr (p, h')) \<and> heap_rel A (if p = 0 then B else B(p \<mapsto> (n, al))) h'
    \<and> (p = 0 \<longrightarrow> alloc_refused n al h)"
proof -
  from assms obtain p h' where a: "heap_alloc n al h = Some (Inr (p, h'))" "p = 0 \<Longrightarrow> heap_rel A B h'"
    "p \<noteq> 0 \<Longrightarrow> served A B h n al p h'" "p = 0 \<Longrightarrow> alloc_refused n al h"
    by (rule heap_alloc_rel) (rule that; assumption)
  then show ?thesis by (intro exI[of _ p] exI[of _ h']) (auto simp: served_def)
qed

text \<open>
  C9. Freeing twice panics: after a live block is freed, a second \<open>dealloc\<close> of it stops at the double-free check while its
  slab still holds another object, and at the table lookup when it was a large object.
\<close>
theorem heap_double_free_panics:
  assumes "heap_rel A B h" and "B p = Some (n, al)" and "heap_dealloc p n al h = Inr h'"
    and "(\<exists>k. kind_of (n, al) = Large k) \<or> (\<exists>q l. q \<noteq> p \<and> B q = Some l \<and> frame_of q = frame_of p)"
  shows "\<exists>msg. heap_dealloc p n al h' = Inl (Assert_failed msg)"
proof -
  have lay: "layout_ok n al" "al \<le> FRAME_SIZE" using assms(1,2) by (auto simp: heap_rel_def ledger_ok_def)
  note k = layout_kind[OF lay]
  obtain h1 where "heap_dealloc p n al h = Inr h1" "heap_rel A (B(p := None)) h1" by (rule heap_dealloc_rel[OF assms(1,2)])
  then have rel': "heap_rel A (B(p := None)) h'" using assms(3) by simp
  from k(3) show ?thesis
  proof (elim disjE exE conjE)
    fix ci assume ci: "kind_of (n, al) = Small ci"
    then obtain q l where "q \<noteq> p" "B q = Some l" "frame_of q = frame_of p" using assms(4) by auto
    then show ?thesis using small_free_twice[OF assms(1,2) ci _ _ _ assms(3)] by blast
  next
    fix m assume "kind_of (n, al) = Large m"
    then show ?thesis using large_free_unknown[OF rel' _ ledger_nonzero(1)[of A B h p, OF assms(1,2)], of n al m] k(1) by simp
  qed
qed

text \<open>
  C10. \<open>realloc\<close> keeps the data: on a live block it returns; null leaves every block and byte as it was, and otherwise the
  block's bytes up to the smaller size are at the new address, no other block's bytes have changed, and the old block
  is gone.
\<close>
theorem heap_realloc_keeps_data:
  assumes "heap_rel A B h" and "B p = Some (n, al)" and "0 < m"
  shows "\<exists>q h'. heap_realloc p n al m h = Some (Inr (q, h'))
    \<and> (if q = 0 then heap_rel A B h' \<and> (\<forall>v. byte_at h' v = byte_at h v)
       else heap_rel A ((B(p := None))(q \<mapsto> (m, al))) h' \<and> (\<forall>i<min n m. byte_at h' (q + i) = byte_at h (p + i))
         \<and> (\<forall>r k a i. r \<noteq> p \<longrightarrow> B r = Some (k, a) \<longrightarrow> i < k \<longrightarrow> byte_at h' (r + i) = byte_at h (r + i)))"
proof -
  from assms obtain q h' where r: "heap_realloc p n al m h = Some (Inr (q, h'))"
    "q = 0 \<Longrightarrow> heap_rel A B h' \<and> same_mem (hp_mm h') (hp_mm h)" "q \<noteq> 0 \<Longrightarrow> moved A B h p n al m q h'"
    by (rule heap_realloc_rel) (rule that; assumption)
  then show ?thesis using same_mem_bytes by (intro exI[of _ q] exI[of _ h']) (auto simp: moved_def)
qed

text \<open>
  C11. The heap loses nothing: after any history of requests the live blocks account exactly for every counter of
  \<open>stats\<close>, every \<open>dealloc\<close> of a live block returns, and when all blocks are freed every frame is back with the PMM.
\<close>
theorem heap_history_exact:
  assumes "mem_ok s" and "heap_history s h B"
  shows "hs_bytes_in_use (heap_stats_of h) = (\<Sum>p\<in>dom B. kind_bytes (kind_of (the (B p))))
    \<and> hs_small_objects_in_use (heap_stats_of h) = card (small_held B) \<and> hs_large_objects (heap_stats_of h) = card (large_held B)
    \<and> hs_large_frames (heap_stats_of h) * FRAME_SIZE = (\<Sum>p\<in>large_held B. kind_bytes (kind_of (the (B p))))
    \<and> (\<forall>p n al. B p = Some (n, al) \<longrightarrow> (\<exists>h'. heap_dealloc p n al h = Inr h'))
    \<and> (B = Map.empty \<longrightarrow> mm_avail (hp_mm h) = mm_avail s \<and> hs_slabs (heap_stats_of h) = 0)"
proof -
  have rel: "heap_rel (mm_avail s) B h" by (rule history_rel[OF assms(2,1)])
  have "\<exists>h'. heap_dealloc p n al h = Inr h'" if "B p = Some (n, al)" for p n al
    using heap_dealloc_rel[of "mm_avail s" B h, OF rel that] by blast
  then show ?thesis using heap_rel_stats[OF rel] heap_rel_idle[of "mm_avail s" h] rel by (auto simp: heap_stats_of_def)
qed

subsection \<open>Witnesses\<close>

text \<open>The heap of the small machine: seven frames above 1 MiB.\<close>

lemma heap_demo_memory:
  obtains s where "mem_ok s" "mm_general s = frame_addrs {257, 258, 259, 260, 261, 262, 263}" "mm_inject_failures s = 0"
    "mm_hhdm_offset s = 18446603336221196288"
proof -
  let ?r = "\<lparr>me_base = 1048576, me_length = 32768, me_type = MEMMAP_USABLE\<rparr>"
  from pmm_init_builds[OF demo_map_ok demo_region _ demo_virt] obtain s where
    boot: "pmm_init demo_map demo_boot = Inr s" and gen: "mm_general s = frame_addrs {257, 258, 259, 260, 261, 262, 263}"
    by (auto simp: demo_pools demo_frames(1))
  have r: "pmm_reachable demo_map (s, {})" using boot by (rule pmm_reachable.reach_boot)
  have f: "mm_inject_failures s = 0" "mm_hhdm_offset s = 18446603336221196288" "mm_phys_end s = 1081344"
    using boot by (auto simp: pmm_init_def demo_boot_def checked_simps)
  have man: "0 < a \<and> a + FRAME_SIZE \<le> 1081344" if "a \<in> mm_managed s" for a
  proof -
    from reachable_split[OF r demo_map_ok] demo_region
    have "mm_managed s = frame_addrs (initial_pool demo_map ?r)" by auto
    with that obtain i where i: "a = i * FRAME_SIZE" "i \<in> initial_pool demo_map ?r" by (auto elim: frame_addrs_cases)
    have "i < 264" using initial_pool_facts(2)[OF demo_map_ok demo_region i(2)] demo_frames(1) by simp
    then have "(i + 1) * FRAME_SIZE \<le> 264 * FRAME_SIZE" by (intro mult_le_mono1) simp
    then show ?thesis using initial_pool_facts(1)[OF demo_map_ok demo_region i(2)] i(1) by (simp add: FRAME_SIZE_def)
  qed
  have "a < 2 ^ 52 \<and> a + 18446603336221196288 < u64_limit" if "a \<in> mm_managed s" for a
    using man[OF that] by (simp add: FRAME_SIZE_def)
  then have "vm_ok s" using reachableD(1)[OF r demo_map_ok] f by (simp add: vm_ok_def)
  then have "mem_ok s" using man f by (auto simp: mem_ok_def FRAME_SIZE_def)
  then show thesis using gen f by (intro that[of s])
qed

lemma heap_demo_kinds: "kind_of (100, 8) = Small 3" "kind_of (5000, 8) = Large 2"
  by code_simp+

lemma heap_demo_layouts: "layout_ok 100 8" "layout_ok 5000 8"
  unfolding layout_ok_def by (intro conjI exI[of _ 3]; simp)+

lemma heap_demo:
  obtains s h0 where "mem_ok s" "heap_history s h0 Map.empty" "heap_rel (mm_avail s) Map.empty h0"
    "\<not> alloc_refused 100 8 h0" "\<not> alloc_refused 5000 8 h0"
proof -
  obtain s where s: "mem_ok s" "mm_general s = frame_addrs {257, 258, 259, 260, 261, 262, 263}" "mm_inject_failures s = 0"
    by (rule heap_demo_memory)
  let ?h = "heap_new (\<lambda>_. \<lparr>sh_class_idx = 0, sh_total_count = 0, sh_free_count = 0, sh_free_head = 0, sh_next = 0, sh_prev = 0, sh_allocated = []\<rparr>) (\<lambda>_. 0) s"
  have f: "hp_mm ?h = s" "table_live (hp_large ?h) = {}" by (auto simp: heap_new_def large_new_def table_live_def EMPTY_ENTRY_def)
  have "\<not> alloc_refused 100 8 ?h" using s by (simp add: alloc_refused_def heap_demo_kinds f frame_addrs_def FRAME_SIZE_def)
  moreover have "\<not> alloc_refused 5000 8 ?h"
  proof -
    have inv: "mm_inv s" using s(1) by (simp add: mem_ok_def vm_ok_def)
    then obtain p where p: "mm_pmm s = Some p" "pmm_inv p" by (rule mm_invE)
    have eq: "frame_addrs (bm_free (pm_bitmap p)) = frame_addrs {257, 258, 259, 260, 261, 262, 263}" using s(2) p(1) by (simp add: mm_general_def)
    have mem: "f \<in> bm_free (pm_bitmap p) \<longleftrightarrow> f \<in> {257, 258, 259, 260, 261, 262, 263}" for f
      using frame_addrs_mem[of f "bm_free (pm_bitmap p)"] frame_addrs_mem[of f "{257, 258, 259, 260, 261, 262, 263}"] unfolding eq by blast
    have free: "{257..<257 + 2} \<subseteq> bm_free (pm_bitmap p)" by (auto simp: mem)
    have bound: "bm_count (pm_bitmap p) + 1 + 2 < u64_limit" using pmm_inv_small(1)[OF p(2) le_refl] by (simp add: FRAME_SIZE_def)
    have "pmm_alloc_run 2 1 p \<noteq> Inr (None, p)"
    proof (rule pmm_alloc_run_ok[OF p(2) _ _ bound])
      assume "\<And>g. 1 dvd g \<Longrightarrow> \<not> {g..<g + 2} \<subseteq> bm_free (pm_bitmap p)"
      from this[of 257] free show ?thesis by simp
    qed simp_all
    then have "alloc_contiguous 2 1 s \<noteq> Inr (None, s)"
      using p(1) by (auto simp: alloc_contiguous_def with_pmm_def checked_simps dest: arg_cong[of _ _ mm_pmm])
    then show ?thesis unfolding alloc_refused_def heap_demo_kinds f by (auto simp: FRAME_SIZE_def MAX_LARGE_OBJECTS_def dest: equalityD2[THEN subsetD, of _ _ 0])
  qed
  ultimately show thesis using heap_rel_new[OF s(1)] heap_history.history_new s(1) by (intro that[of s ?h]) auto
qed

lemma heap_demo_alloc:
  assumes "heap_rel A Map.empty h0" "layout_ok n al" "\<not> alloc_refused n al h0"
  obtains p h1 where "heap_alloc n al h0 = Some (Inr (p, h1))" "p \<noteq> 0" "heap_rel A [p \<mapsto> (n, al)] h1"
proof -
  from assms(1,2) obtain p h1 where a: "heap_alloc n al h0 = Some (Inr (p, h1))" "p \<noteq> 0 \<Longrightarrow> served A Map.empty h0 n al p h1"
    "p = 0 \<Longrightarrow> alloc_refused n al h0"
    by (rule heap_alloc_rel) (rule that; assumption)
  then show thesis using assms(3) by (intro that[of p h1]) (auto simp: served_def)
qed

lemma heap_alloc_fresh_witness:
  "\<exists>A h p h'. heap_alloc 100 8 h = Some (Inr (p, h')) \<and> heap_rel A [p \<mapsto> (100, 8)] h' \<and> 8 dvd p \<and> in_frames A (hp_off h) {p..<p + 100}"
proof (rule heap_demo)
  fix s h0 assume d: "heap_rel (mm_avail s) Map.empty h0" "\<not> alloc_refused 100 8 h0"
  obtain p h1 where a: "heap_alloc 100 8 h0 = Some (Inr (p, h1))" "p \<noteq> 0"
    by (rule heap_demo_alloc[OF d(1) heap_demo_layouts(1) d(2)])
  show ?thesis using heap_alloc_fresh[OF d(1) heap_demo_layouts(1) a] a by blast
qed

lemma heap_alloc_returns_witness:
  "\<exists>A h p h'. heap_alloc 5000 8 h = Some (Inr (p, h')) \<and> p \<noteq> 0 \<and> heap_rel A [p \<mapsto> (5000, 8)] h'"
proof (rule heap_demo)
  fix s h0 assume d: "heap_rel (mm_avail s) Map.empty h0" "\<not> alloc_refused 5000 8 h0"
  from heap_alloc_returns[OF d(1) heap_demo_layouts(2)] obtain p h' where
    r: "heap_alloc 5000 8 h0 = Some (Inr (p, h'))" "heap_rel (mm_avail s) (if p = 0 then Map.empty else [p \<mapsto> (5000, 8)]) h'"
      "p = 0 \<longrightarrow> alloc_refused 5000 8 h0" by blast
  then have "p \<noteq> 0" using d(2) by blast
  then show ?thesis using r(1,2) by auto
qed

lemma heap_double_free_panics_witness:
  "\<exists>h p h1 h2 msg. heap_alloc 5000 8 h = Some (Inr (p, h1)) \<and> heap_dealloc p 5000 8 h1 = Inr h2
     \<and> heap_dealloc p 5000 8 h2 = Inl (Assert_failed msg)"
proof (rule heap_demo)
  fix s h0 assume d: "heap_rel (mm_avail s) Map.empty h0" "\<not> alloc_refused 5000 8 h0"
  obtain p h1 where a: "heap_alloc 5000 8 h0 = Some (Inr (p, h1))" "heap_rel (mm_avail s) [p \<mapsto> (5000, 8)] h1"
    by (rule heap_demo_alloc[OF d(1) heap_demo_layouts(2) d(2)])
  obtain h2 where f: "heap_dealloc p 5000 8 h1 = Inr h2" by (rule heap_dealloc_rel[OF a(2), of p 5000 8]) simp_all
  have "\<exists>msg. heap_dealloc p 5000 8 h2 = Inl (Assert_failed msg)"
    by (rule heap_double_free_panics[OF a(2) _ f]) (simp_all add: heap_demo_kinds)
  then show ?thesis using a(1) f by blast
qed

lemma heap_realloc_keeps_data_witness:
  "\<exists>h p h1 q h2. heap_alloc 100 8 h = Some (Inr (p, h1)) \<and> heap_realloc p 100 8 3000 h1 = Some (Inr (q, h2))
     \<and> byte_at h2 (if q = 0 then p + 99 else q + 99) = byte_at h1 (p + 99)"
proof (rule heap_demo)
  fix s h0 assume d: "heap_rel (mm_avail s) Map.empty h0" "\<not> alloc_refused 100 8 h0"
  obtain p h1 where a: "heap_alloc 100 8 h0 = Some (Inr (p, h1))" "heap_rel (mm_avail s) [p \<mapsto> (100, 8)] h1"
    by (rule heap_demo_alloc[OF d(1) heap_demo_layouts(1) d(2)])
  have m: "(99::nat) < min 100 3000" by simp
  from heap_realloc_keeps_data[OF a(2), of p 100 8 3000] obtain q h2 where
    r: "heap_realloc p 100 8 3000 h1 = Some (Inr (q, h2))"
      "if q = 0 then \<forall>v. byte_at h2 v = byte_at h1 v else \<forall>i<min 100 3000. byte_at h2 (q + i) = byte_at h1 (p + i)"
    by (auto split: if_splits)
  then have "byte_at h2 (if q = 0 then p + 99 else q + 99) = byte_at h1 (p + 99)" using m by (cases "q = 0") auto
  then show ?thesis using a(1) r(1) by blast
qed

lemma heap_history_exact_witness:
  "\<exists>s h0 p h1 h2. heap_alloc 100 8 h0 = Some (Inr (p, h1)) \<and> hs_bytes_in_use (heap_stats_of h1) = 128
     \<and> heap_dealloc p 100 8 h1 = Inr h2 \<and> mm_avail (hp_mm h2) = mm_avail s"
proof (rule heap_demo)
  fix s h0 assume d: "mem_ok s" "heap_history s h0 Map.empty" "heap_rel (mm_avail s) Map.empty h0" "\<not> alloc_refused 100 8 h0"
  obtain p h1 where a: "heap_alloc 100 8 h0 = Some (Inr (p, h1))" "p \<noteq> 0" "heap_rel (mm_avail s) [p \<mapsto> (100, 8)] h1"
    by (rule heap_demo_alloc[OF d(3) heap_demo_layouts(1) d(4)])
  have b: "heap_history s h1 [p \<mapsto> (100, 8)]"
    using heap_history.history_alloc[OF d(2) heap_demo_layouts(1) a(1)] a(2) by simp
  from heap_history_exact[OF d(1) b] have st: "hs_bytes_in_use (heap_stats_of h1) = 128"
    by (simp add: heap_demo_kinds CLASS_SIZES_def)
  have "\<forall>q n al. [p \<mapsto> (100, 8)] q = Some (n, al) \<longrightarrow> (\<exists>h'. heap_dealloc q n al h1 = Inr h')" using heap_history_exact[OF d(1) b] by blast
  from this[rule_format, of p 100 8] obtain h2 where f: "heap_dealloc p 100 8 h1 = Inr h2" by auto
  have "heap_history s h2 Map.empty" using heap_history.history_dealloc[OF b _ f] by simp
  from heap_history_exact[OF d(1) this] have "mm_avail (hp_mm h2) = mm_avail s" by simp
  then show ?thesis using a(1) st f by blast
qed

end
