(* ===== verification/Virtio.thy ===== *)
theory Virtio
  imports Addr
begin

text \<open>
  \<open>crates/otter-virtio\<close>: the split virtqueue of virtio 1.2, feature negotiation and queue set-up over a transport, and the two
  request headers.  The ring memory is a function from offsets to bytes, every access to it at the offset the code computes
  and at the width of the field.  A \<open>u16\<close> that wraps is a natural with \<open>mod 65536\<close> written out.  The transport is
  a record of functions over the state of a device.
\<close>

subsection \<open>Layout\<close>

record layout =
  ly_desc_offset :: nat
  ly_avail_offset :: nat
  ly_used_offset :: nat
  ly_total_size :: nat
  ly_queue_size :: nat

definition for_size :: "nat \<Rightarrow> layout option" where
  "for_size n =
     (if n = 0 \<or> 32768 < n \<or> n AND (n - 1) \<noteq> 0 then None
      else let desc_offset = 0; avail_offset = desc_offset + 16 * n;
               unaligned = avail_offset + 6 + 2 * n + 3; used_offset = unaligned - unaligned mod 4 in
        Some \<lparr>ly_desc_offset = desc_offset, ly_avail_offset = avail_offset, ly_used_offset = used_offset,
          ly_total_size = used_offset + 6 + 8 * n, ly_queue_size = n\<rparr>)"

subsection \<open>Ring memory\<close>

type_synonym bytes_at = "nat \<Rightarrow> u8"

definition get_le :: "nat \<Rightarrow> nat \<Rightarrow> bytes_at \<Rightarrow> nat" where
  "get_le k a m = le_bytes (map (\<lambda>i. m (a + i)) [0..<k])"

definition put_le :: "nat \<Rightarrow> nat \<Rightarrow> nat \<Rightarrow> bytes_at \<Rightarrow> bytes_at" where
  "put_le k a v m = (\<lambda>x. if a \<le> x \<and> x < a + k then to_le k v ! (x - a) else m x)"

record ring_memory =
  rm_bytes :: bytes_at
  rm_phys :: nat
  rm_len :: nat

definition DESC_F_NEXT :: nat where "DESC_F_NEXT = 1"
definition DESC_F_WRITE :: nat where "DESC_F_WRITE = 2"

record descriptor =
  ds_addr :: nat
  ds_len :: nat
  ds_flags :: nat
  ds_next :: nat

definition descriptor_offset :: "layout \<Rightarrow> nat \<Rightarrow> nat" where
  "descriptor_offset l d = ly_desc_offset l + d * 16"

definition write_descriptor :: "layout \<Rightarrow> nat \<Rightarrow> descriptor \<Rightarrow> bytes_at \<Rightarrow> bytes_at" where
  "write_descriptor l d x m =
     (let a = descriptor_offset l d in
      put_le 2 (a + 14) (ds_next x) (put_le 2 (a + 12) (ds_flags x) (put_le 4 (a + 8) (ds_len x) (put_le 8 a (ds_addr x) m))))"

definition read_descriptor :: "layout \<Rightarrow> nat \<Rightarrow> bytes_at \<Rightarrow> descriptor" where
  "read_descriptor l d m =
     (let a = descriptor_offset l d in
      \<lparr>ds_addr = get_le 8 a m, ds_len = get_le 4 (a + 8) m, ds_flags = get_le 2 (a + 12) m, ds_next = get_le 2 (a + 14) m\<rparr>)"

record buffer =
  bf_addr :: nat
  bf_len :: nat
  bf_device_writes :: bool

subsection \<open>The queue\<close>

record split_queue =
  sq_layout :: layout
  sq_mem :: bytes_at
  sq_phys :: nat
  sq_len :: nat
  sq_free_descs :: "nat list"
  sq_num_free :: nat
  sq_next_avail :: nat
  sq_next_used :: nat
  sq_last_notify_idx :: nat
  sq_event_idx_enabled :: bool
  sq_token_map :: "nat list"

datatype add_error = EmptyBuffers | QueueFull

definition split_queue_new :: "layout \<Rightarrow> ring_memory \<Rightarrow> split_queue option" where
  "split_queue_new l r =
     (if rm_len r < ly_total_size l then None
      else Some \<lparr>sq_layout = l, sq_mem = (\<lambda>x. if x < rm_len r then 0 else rm_bytes r x), sq_phys = rm_phys r, sq_len = rm_len r,
        sq_free_descs = [0..<ly_queue_size l], sq_num_free = ly_queue_size l, sq_next_avail = 0, sq_next_used = 0,
        sq_last_notify_idx = 0, sq_event_idx_enabled = False, sq_token_map = replicate (ly_queue_size l) 0\<rparr>)"

definition desc_phys_addr :: "split_queue \<Rightarrow> nat checked" where
  "desc_phys_addr q = uadd (sq_phys q) (ly_desc_offset (sq_layout q))"

definition avail_phys_addr :: "split_queue \<Rightarrow> nat checked" where
  "avail_phys_addr q = uadd (sq_phys q) (ly_avail_offset (sq_layout q))"

definition used_phys_addr :: "split_queue \<Rightarrow> nat checked" where
  "used_phys_addr q = uadd (sq_phys q) (ly_used_offset (sq_layout q))"

definition free_descriptors :: "split_queue \<Rightarrow> nat" where
  "free_descriptors q = sq_num_free q"

text \<open>\<open>xs[i] = v\<close> on a vector.\<close>

definition set_at :: "'a list \<Rightarrow> nat \<Rightarrow> 'a \<Rightarrow> 'a list checked" where
  "set_at xs i v = (if i < length xs then Inr (xs[i := v]) else Inl Index_bounds)"

text \<open>The descriptors from the top of the free pool, for \<open>i\<close> in \<open>0..needed\<close>.\<close>

fun take_free :: "nat list \<Rightarrow> nat \<Rightarrow> nat list \<Rightarrow> nat list checked" where
  "take_free free num_free [] = Inr []"
| "take_free free num_free (i # is) =
     and_then (usub num_free 1) (\<lambda>a. and_then (usub a i) (\<lambda>k. and_then (index_at free k) (\<lambda>d.
     and_then (take_free free num_free is) (\<lambda>ds. Inr (d # ds)))))"

text \<open>The loop that writes the chain.\<close>

fun build_chain :: "layout \<Rightarrow> nat list \<Rightarrow> buffer list \<Rightarrow> bytes_at \<Rightarrow> bytes_at" where
  "build_chain l (d # ds) (b # bs) m =
     build_chain l ds bs (write_descriptor l d
       \<lparr>ds_addr = bf_addr b, ds_len = bf_len b,
        ds_flags = (if bf_device_writes b then DESC_F_WRITE else 0) OR (if ds \<noteq> [] then DESC_F_NEXT else 0),
        ds_next = (if ds \<noteq> [] then hd ds else 0)\<rparr> m)"
| "build_chain l _ _ m = m"

definition avail_entry :: "layout \<Rightarrow> nat \<Rightarrow> nat checked" where
  "avail_entry l i = require (ly_queue_size l \<noteq> 0) ''remainder with a divisor of zero''
     (Inr (ly_avail_offset l + 4 + i mod ly_queue_size l * 2))"

definition used_entry :: "layout \<Rightarrow> nat \<Rightarrow> nat checked" where
  "used_entry l i = require (ly_queue_size l \<noteq> 0) ''remainder with a divisor of zero''
     (Inr (ly_used_offset l + 4 + i mod ly_queue_size l * 8))"

definition wrapping_inc16 :: "nat \<Rightarrow> nat" where "wrapping_inc16 i = (i + 1) mod 65536"

definition add_buffers :: "buffer list \<Rightarrow> nat \<Rightarrow> split_queue \<Rightarrow> ((add_error + unit) \<times> split_queue) checked" where
  "add_buffers buffers token q =
     (let l = sq_layout q; needed = length buffers in
      if buffers = [] then Inr (Inl EmptyBuffers, q)
      else if sq_num_free q < needed then Inr (Inl QueueFull, q)
      else
        and_then (take_free (sq_free_descs q) (sq_num_free q) [0..<needed]) (\<lambda>allocated.
        let m = build_chain l allocated buffers (sq_mem q) in
        and_then (index_at allocated 0) (\<lambda>head.
        and_then (set_at (sq_token_map q) head token) (\<lambda>tokens.
        and_then (avail_entry l (sq_next_avail q)) (\<lambda>entry.
        let next_avail = wrapping_inc16 (sq_next_avail q) in
        Inr (Inr (), q\<lparr>sq_num_free := sq_num_free q - needed, sq_token_map := tokens, sq_next_avail := next_avail,
          sq_mem := put_le 2 (ly_avail_offset l + 2) next_avail (put_le 2 entry head m)\<rparr>))))))"

function return_chain :: "layout \<Rightarrow> bytes_at \<Rightarrow> nat \<Rightarrow> nat list \<Rightarrow> nat \<Rightarrow> (nat list \<times> nat) checked" where
  "return_chain l m desc_idx free num_free =
     (if num_free < length free then
        let x = read_descriptor l desc_idx m; free' = free[num_free := desc_idx] in
        if ds_flags x AND DESC_F_NEXT = 0 then Inr (free', num_free + 1)
        else return_chain l m (ds_next x) free' (num_free + 1)
      else Inl Index_bounds)"
  by auto
termination
  by (relation "measure (\<lambda>(l, m, d, free, num_free). length free - num_free)") (auto simp: Let_def)

definition return_descriptor_chain :: "nat \<Rightarrow> split_queue \<Rightarrow> split_queue checked" where
  "return_descriptor_chain desc_idx q =
     and_then (return_chain (sq_layout q) (sq_mem q) desc_idx (sq_free_descs q) (sq_num_free q)) (\<lambda>(free, num_free).
       Inr (q\<lparr>sq_free_descs := free, sq_num_free := num_free\<rparr>))"

definition pop_used :: "split_queue \<Rightarrow> ((nat \<times> nat) option \<times> split_queue) checked" where
  "pop_used q =
     (let l = sq_layout q; m = sq_mem q in
      if get_le 2 (ly_used_offset l + 2) m = sq_next_used q then Inr (None, q)
      else
        and_then (used_entry l (sq_next_used q)) (\<lambda>entry.
        let desc_idx = get_le 4 entry m mod 65536; len = get_le 4 (entry + 4) m in
        and_then (index_at (sq_token_map q) desc_idx) (\<lambda>token.
        and_then (return_descriptor_chain desc_idx (q\<lparr>sq_next_used := wrapping_inc16 (sq_next_used q)\<rparr>)) (\<lambda>q'.
          Inr (Some (token, len), q')))))"

definition wrapping_sub16 :: "nat \<Rightarrow> nat \<Rightarrow> nat" where
  "wrapping_sub16 a b = (a + 65536 - b) mod 65536"

definition should_notify :: "split_queue \<Rightarrow> bool \<times> split_queue" where
  "should_notify q =
     (let l = sq_layout q; m = sq_mem q in
      if \<not> sq_event_idx_enabled q then (get_le 2 (ly_used_offset l) m AND 1 = 0, q)
      else let avail_event = get_le 2 (ly_used_offset l + 4 + ly_queue_size l * 8) m;
               new = sq_next_avail q; old = sq_last_notify_idx q in
        (wrapping_sub16 (wrapping_sub16 new avail_event) 1 < wrapping_sub16 new old, q\<lparr>sq_last_notify_idx := new\<rparr>))"

definition set_used_event :: "nat \<Rightarrow> split_queue \<Rightarrow> split_queue" where
  "set_used_event v q = q\<lparr>sq_mem := put_le 2 (ly_avail_offset (sq_layout q) + 4 + ly_queue_size (sq_layout q) * 2) v (sq_mem q)\<rparr>"

definition set_event_idx_enabled :: "bool \<Rightarrow> split_queue \<Rightarrow> split_queue" where
  "set_event_idx_enabled enabled q = q\<lparr>sq_event_idx_enabled := enabled\<rparr>"

subsection \<open>Transport and initialisation\<close>

type_synonym u16 = "16 word"
type_synonym u32 = "32 word"

definition VIRTIO_F_VERSION_1 :: u64 where "VIRTIO_F_VERSION_1 = push_bit 32 1"
definition STATUS_ACKNOWLEDGE :: u8 where "STATUS_ACKNOWLEDGE = 1"
definition STATUS_DRIVER :: u8 where "STATUS_DRIVER = 2"
definition STATUS_FEATURES_OK :: u8 where "STATUS_FEATURES_OK = 8"
definition STATUS_DRIVER_OK :: u8 where "STATUS_DRIVER_OK = 4"
definition STATUS_FAILED :: u8 where "STATUS_FAILED = 128"

datatype init_error = NoVersion1 | FeaturesRejected | NoSuchQueue | ZeroMaxQueueSize | MsixNotAccepted

record 's transport =
  tr_device_feature :: "nat \<Rightarrow> 's \<Rightarrow> u32 \<times> 's"
  tr_set_driver_feature :: "nat \<Rightarrow> u32 \<Rightarrow> 's \<Rightarrow> 's"
  tr_status :: "'s \<Rightarrow> u8 \<times> 's"
  tr_set_status :: "u8 \<Rightarrow> 's \<Rightarrow> 's"
  tr_num_queues :: "'s \<Rightarrow> nat \<times> 's"
  tr_select_queue :: "nat \<Rightarrow> 's \<Rightarrow> 's"
  tr_queue_size :: "'s \<Rightarrow> nat \<times> 's"
  tr_set_queue_size :: "nat \<Rightarrow> 's \<Rightarrow> 's"
  tr_set_queue_msix_vector :: "nat \<Rightarrow> 's \<Rightarrow> 's"
  tr_queue_msix_vector :: "'s \<Rightarrow> nat \<times> 's"
  tr_set_queue_addresses :: "nat \<Rightarrow> nat \<Rightarrow> nat \<Rightarrow> 's \<Rightarrow> 's"
  tr_set_queue_enable :: "bool \<Rightarrow> 's \<Rightarrow> 's"
  tr_queue_notify_off :: "'s \<Rightarrow> nat \<times> 's"
  tr_config_generation :: "'s \<Rightarrow> nat \<times> 's"
  tr_read_config :: "nat \<Rightarrow> nat \<Rightarrow> 's \<Rightarrow> u8 list \<times> 's"
  tr_notify :: "nat \<Rightarrow> nat \<Rightarrow> 's \<Rightarrow> 's"

definition negotiate :: "'s transport \<Rightarrow> u64 \<Rightarrow> 's \<Rightarrow> (init_error + u64) \<times> 's" where
  "negotiate t wanted s0 =
     (let s = tr_set_status t (STATUS_ACKNOWLEDGE OR STATUS_DRIVER) (tr_set_status t STATUS_ACKNOWLEDGE (tr_set_status t 0 s0));
          (low, s) = tr_device_feature t 0 s; (high, s) = tr_device_feature t 1 s;
          offered = (ucast low :: u64) OR push_bit 32 (ucast high) in
      if offered AND VIRTIO_F_VERSION_1 = 0 then (Inl NoVersion1, tr_set_status t STATUS_FAILED s)
      else let negotiated = offered AND (wanted OR VIRTIO_F_VERSION_1);
               s = tr_set_driver_feature t 0 (ucast (negotiated AND 0xffffffff)) s;
               s = tr_set_driver_feature t 1 (ucast (drop_bit 32 negotiated)) s;
               s = tr_set_status t (STATUS_ACKNOWLEDGE OR STATUS_DRIVER OR STATUS_FEATURES_OK) s;
               (st, s) = tr_status t s in
        if st AND STATUS_FEATURES_OK = 0 then (Inl FeaturesRejected, tr_set_status t STATUS_FAILED s)
        else (Inr negotiated, s))"

text \<open>\<open>while result < size { result <<= 1 }\<close>: the shift of a \<open>u16\<close> drops the bits it pushes out.\<close>

partial_function (option) round_up_loop :: "nat \<Rightarrow> nat \<Rightarrow> nat option" where
  "round_up_loop size0 result = (if result < size0 then round_up_loop size0 (result * 2 mod 65536) else Some result)"

definition queue_size_for :: "'s transport \<Rightarrow> nat \<Rightarrow> nat \<Rightarrow> 's \<Rightarrow> ((init_error + nat) \<times> 's) option" where
  "queue_size_for t index desired s =
     (let (num, s) = tr_num_queues t s in
      if num \<le> index then Some (Inl NoSuchQueue, s)
      else let s = tr_select_queue t index s; (max_size, s) = tr_queue_size t s in
        if max_size = 0 then Some (Inl ZeroMaxQueueSize, s)
        else map_option (\<lambda>result. (Inr (min result max_size), s)) (round_up_loop (min desired max_size) 1))"

definition setup_queue :: "'s transport \<Rightarrow> nat \<Rightarrow> split_queue \<Rightarrow> nat \<Rightarrow> 's \<Rightarrow> ((init_error + nat) \<times> 's) checked" where
  "setup_queue t index q msix_vector s =
     (let s = tr_set_queue_size t (ly_queue_size (sq_layout q)) (tr_select_queue t index s) in
      and_then (desc_phys_addr q) (\<lambda>desc. and_then (avail_phys_addr q) (\<lambda>avail. and_then (used_phys_addr q) (\<lambda>used.
        let s = tr_set_queue_msix_vector t msix_vector (tr_set_queue_addresses t desc avail used s);
            (v, s) = tr_queue_msix_vector t s in
        if v = 0xffff then Inr (Inl MsixNotAccepted, s)
        else let (notify_off, s) = tr_queue_notify_off t s in
          Inr (Inr notify_off, tr_set_queue_enable t True s)))))"

definition finish_init :: "'s transport \<Rightarrow> 's \<Rightarrow> 's" where
  "finish_init t s = (let (st, s) = tr_status t s in tr_set_status t (st OR STATUS_DRIVER_OK) s)"

partial_function (option) read_config_consistent :: "'s transport \<Rightarrow> nat \<Rightarrow> nat \<Rightarrow> 's \<Rightarrow> (u8 list \<times> 's) option" where
  "read_config_consistent t offset len s =
     (let (gen1, s) = tr_config_generation t s; (buf, s) = tr_read_config t offset len s; (gen2, s) = tr_config_generation t s in
      if gen1 = gen2 then Some (buf, s) else read_config_consistent t offset len s)"

subsection \<open>Request headers\<close>

record block_request =
  br_req_type :: u32
  br_reserved :: u32
  br_sector :: u64

definition block_request_new :: "u32 \<Rightarrow> u64 \<Rightarrow> block_request" where
  "block_request_new req_type sector = \<lparr>br_req_type = req_type, br_reserved = 0, br_sector = sector\<rparr>"

definition block_request_bytes :: "block_request \<Rightarrow> u8 list" where
  "block_request_bytes r = to_le 4 (unat (br_req_type r)) @ to_le 4 (unat (br_reserved r)) @ to_le 8 (unat (br_sector r))"

record net_header =
  nh_flags :: u8
  nh_gso_type :: u8
  nh_hdr_len :: u16
  nh_gso_size :: u16
  nh_csum_start :: u16
  nh_csum_offset :: u16
  nh_num_buffers :: u16

definition net_header_new :: net_header where
  "net_header_new = \<lparr>nh_flags = 0, nh_gso_type = 0, nh_hdr_len = 0, nh_gso_size = 0, nh_csum_start = 0, nh_csum_offset = 0, nh_num_buffers = 0\<rparr>"

definition net_header_bytes :: "net_header \<Rightarrow> u8 list" where
  "net_header_bytes x = [nh_flags x, nh_gso_type x] @ to_le 2 (unat (nh_hdr_len x)) @ to_le 2 (unat (nh_gso_size x))
     @ to_le 2 (unat (nh_csum_start x)) @ to_le 2 (unat (nh_csum_offset x)) @ to_le 2 (unat (nh_num_buffers x))"

definition net_header_from :: "u8 list \<Rightarrow> net_header" where
  "net_header_from b = (let w = (\<lambda>i. word_of_nat (le_bytes [b ! i, b ! (i + 1)])) in
     \<lparr>nh_flags = b ! 0, nh_gso_type = b ! 1, nh_hdr_len = w 2, nh_gso_size = w 4, nh_csum_start = w 6, nh_csum_offset = w 8, nh_num_buffers = w 10\<rparr>)"

end
