(* ===== verification/Virtio_Queue.thy ===== *)
theory Virtio_Queue
  imports Virtio "HOL-Library.Multiset"
begin

text \<open>
  The virtqueue against its specification: a list of requests on their way to the device, the ones it works on, and the
  finished ones on their way back.  The device is the one the virtio standard describes: it takes heads from the available
  ring in order, reads their chains, and returns each of them once, in any order, through the used ring.
\<close>

subsection \<open>Bytes\<close>

lemma get_le_bound: "get_le k a m < 256 ^ k"
  using le_bytes_bound[of "map (\<lambda>i. m (a + i)) [0..<k]"] by (simp add: get_le_def)

lemma get_put_same: "v < 256 ^ k \<Longrightarrow> get_le k a (put_le k a v m) = v"
proof -
  assume v: "v < 256 ^ k"
  have "map (\<lambda>i. put_le k a v m (a + i)) [0..<k] = to_le k v"
    by (rule nth_equalityI) (simp_all add: put_le_def)
  then show ?thesis using v by (simp add: get_le_def le_bytes_to_le)
qed

lemma get_put_other:
  assumes "a + k \<le> b \<or> b + j \<le> a"
  shows "get_le j b (put_le k a v m) = get_le j b m"
proof -
  have "map (\<lambda>i. put_le k a v m (b + i)) [0..<j] = map (\<lambda>i. m (b + i)) [0..<j]"
    using assms by (auto simp: put_le_def)
  then show ?thesis by (simp only: get_le_def)
qed

lemma get_le_cong: "(\<And>x. a \<le> x \<Longrightarrow> x < a + k \<Longrightarrow> m' x = m x) \<Longrightarrow> get_le k a m' = get_le k a m"
proof -
  assume "\<And>x. a \<le> x \<Longrightarrow> x < a + k \<Longrightarrow> m' x = m x"
  then have "map (\<lambda>i. m' (a + i)) [0..<k] = map (\<lambda>i. m (a + i)) [0..<k]" by auto
  then show ?thesis by (simp only: get_le_def)
qed

definition descriptor_fits :: "descriptor \<Rightarrow> bool" where
  "descriptor_fits x \<longleftrightarrow> ds_addr x < 2 ^ 64 \<and> ds_len x < 2 ^ 32 \<and> ds_flags x < 2 ^ 16 \<and> ds_next x < 2 ^ 16"

lemma put_fields:
  fixes a :: nat and m :: bytes_at
  assumes "v1 < 256 ^ 8" "v2 < 256 ^ 4" "v3 < 256 ^ 2" "v4 < 256 ^ 2"
  defines "m' \<equiv> put_le 2 (a + 14) v4 (put_le 2 (a + 12) v3 (put_le 4 (a + 8) v2 (put_le 8 a v1 m)))"
  shows "get_le 8 a m' = v1" "get_le 4 (a + 8) m' = v2" "get_le 2 (a + 12) m' = v3" "get_le 2 (a + 14) m' = v4"
proof -
  have "get_le 8 a m' = get_le 8 a (put_le 8 a v1 m)" unfolding m'_def
    by (subst get_put_other, simp, subst get_put_other, simp, subst get_put_other, simp, rule refl)
  then show "get_le 8 a m' = v1" using get_put_same[OF assms(1)] by simp
  have "get_le 4 (a + 8) m' = get_le 4 (a + 8) (put_le 4 (a + 8) v2 (put_le 8 a v1 m))" unfolding m'_def
    by (subst get_put_other, simp, subst get_put_other, simp, rule refl)
  then show "get_le 4 (a + 8) m' = v2" using get_put_same[OF assms(2)] by simp
  have "get_le 2 (a + 12) m' = get_le 2 (a + 12) (put_le 2 (a + 12) v3 (put_le 4 (a + 8) v2 (put_le 8 a v1 m)))" unfolding m'_def
    by (subst get_put_other, simp, rule refl)
  then show "get_le 2 (a + 12) m' = v3" using get_put_same[OF assms(3)] by simp
  show "get_le 2 (a + 14) m' = v4" unfolding m'_def by (rule get_put_same[OF assms(4)])
qed

lemma read_write_same:
  assumes "descriptor_fits x" shows "read_descriptor l d (write_descriptor l d x m) = x"
proof -
  have v: "ds_addr x < 256 ^ 8" "ds_len x < 256 ^ 4" "ds_flags x < 256 ^ 2" "ds_next x < 256 ^ 2"
    using assms by (simp_all add: descriptor_fits_def)
  show ?thesis unfolding read_descriptor_def write_descriptor_def Let_def put_fields[OF v] by simp
qed

lemma write_descriptor_outside: "\<not> (descriptor_offset l d \<le> x \<and> x < descriptor_offset l d + 16) \<Longrightarrow> write_descriptor l d y m x = m x"
  by (auto simp: write_descriptor_def put_le_def Let_def)

lemma read_descriptor_cong:
  assumes "\<And>x. descriptor_offset l d \<le> x \<Longrightarrow> x < descriptor_offset l d + 16 \<Longrightarrow> m' x = m x"
  shows "read_descriptor l d m' = read_descriptor l d m"
proof -
  have "get_le k (descriptor_offset l d + j) m' = get_le k (descriptor_offset l d + j) m" if "j + k \<le> 16" for j k
    by (rule get_le_cong, rule assms) (use that in auto)
  from this[of 0 8] this[of 8 4] this[of 12 2] this[of 14 2] show ?thesis by (simp add: read_descriptor_def Let_def)
qed

lemma read_write_other:
  assumes "d \<noteq> e" shows "read_descriptor l d (write_descriptor l e y m) = read_descriptor l d m"
proof (rule read_descriptor_cong, rule write_descriptor_outside)
  fix x assume x: "descriptor_offset l d \<le> x" "x < descriptor_offset l d + 16"
  have "d * 16 + 16 \<le> e * 16 \<or> e * 16 + 16 \<le> d * 16" using assms by linarith
  then show "\<not> (descriptor_offset l e \<le> x \<and> x < descriptor_offset l e + 16)" using x by (auto simp: descriptor_offset_def)
qed

subsection \<open>The layout\<close>

lemma nat_and_pred: "n \<noteq> 0 \<Longrightarrow> n AND (n - 1) = 0 \<longleftrightarrow> (\<exists>k. n = 2 ^ k)" for n :: nat
proof (induction n rule: less_induct)
  case (less n)
  show ?case
  proof (cases "even n")
    case True
    then obtain m where m: "n = 2 * m" by blast
    then have m0: "m \<noteq> 0" "m < n" using less.prems by auto
    obtain j where j: "m = Suc j" using m0(1) not0_implies_Suc by blast
    then have "n - 1 = 2 * j + 1" using m by simp
    moreover have "(2 * m) AND (2 * j + 1) = 2 * (m AND j)" by (subst and_rec) simp
    ultimately have "n AND (n - 1) = 2 * (m AND (m - 1))" using m j by simp
    moreover have "(\<exists>k. n = 2 ^ k) \<longleftrightarrow> (\<exists>k. m = 2 ^ k)"
    proof
      assume "\<exists>k. n = 2 ^ k"
      then obtain k where k: "2 * m = 2 ^ k" using m by auto
      then show "\<exists>k. m = 2 ^ k" by (cases k) auto
    next
      assume "\<exists>k. m = 2 ^ k"
      then show "\<exists>k. n = 2 ^ k" using m power_Suc by metis
    qed
    ultimately show ?thesis using less.IH[OF m0(2,1)] by simp
  next
    case False
    then obtain m where m: "n = 2 * m + 1" by (blast elim: oddE)
    have "n AND (n - 1) = 2 * m" unfolding m by (subst and_rec) simp
    moreover have "(\<exists>k. n = 2 ^ k) \<longleftrightarrow> m = 0"
    proof
      assume "\<exists>k. n = 2 ^ k"
      then obtain k where k: "2 * m + 1 = 2 ^ k" using m by auto
      show "m = 0"
      proof (cases k)
        case (Suc j)
        then have "even (2 * m + 1)" using k by simp
        then show ?thesis by simp
      qed (use k in simp)
    qed (use m in \<open>auto intro: exI[of _ 0]\<close>)
    ultimately show ?thesis by simp
  qed
qed

lemma for_size_iff:
  "for_size n = Some l \<longleftrightarrow> (\<exists>k\<le>15. n = 2 ^ k) \<and> ly_desc_offset l = 0 \<and> ly_avail_offset l = 16 * n
     \<and> ly_used_offset l = 18 * n + 9 - (18 * n + 9) mod 4 \<and> ly_total_size l = ly_used_offset l + 6 + 8 * n \<and> ly_queue_size l = n"
proof -
  have "(\<exists>k. n = 2 ^ k) \<and> n \<le> 32768 \<longleftrightarrow> (\<exists>k\<le>15. n = 2 ^ k)"
  proof
    assume "(\<exists>k. n = 2 ^ k) \<and> n \<le> 32768"
    then obtain k where k: "n = 2 ^ k" "(2::nat) ^ k \<le> 2 ^ 15" by auto
    then show "\<exists>k\<le>15. n = 2 ^ k" using power_le_imp_le_exp[of "2::nat" k 15] by auto
  next
    assume "\<exists>k\<le>15. n = 2 ^ k"
    then obtain k where k: "k \<le> 15" "n = 2 ^ k" by auto
    then have "(2::nat) ^ k \<le> 2 ^ 15" by (intro power_increasing) auto
    then show "(\<exists>k. n = 2 ^ k) \<and> n \<le> 32768" using k by auto
  qed
  moreover have "(\<exists>k\<le>15. n = 2 ^ k) \<Longrightarrow> n \<noteq> 0" by auto
  ultimately have dom: "\<not> (n = 0 \<or> 32768 < n \<or> n AND (n - 1) \<noteq> 0) \<longleftrightarrow> (\<exists>k\<le>15. n = 2 ^ k)"
    using nat_and_pred[of n] by (metis linorder_not_less)
  show ?thesis unfolding for_size_def using dom by (cases l) (auto simp: Let_def algebra_simps)
qed
subsection \<open>Chains of descriptors\<close>

definition desc_for :: "nat list \<Rightarrow> buffer \<Rightarrow> descriptor" where
  "desc_for ds b = \<lparr>ds_addr = bf_addr b, ds_len = bf_len b,
     ds_flags = (if bf_device_writes b then DESC_F_WRITE else 0) OR (if ds \<noteq> [] then DESC_F_NEXT else 0),
     ds_next = (if ds \<noteq> [] then hd ds else 0)\<rparr>"

fun chain_in :: "layout \<Rightarrow> bytes_at \<Rightarrow> nat list \<Rightarrow> buffer list \<Rightarrow> bool" where
  "chain_in l m (d # ds) (b # bs) \<longleftrightarrow> read_descriptor l d m = desc_for ds b \<and> chain_in l m ds bs"
| "chain_in l m ds bs \<longleftrightarrow> ds = [] \<and> bs = []"

definition buffers_ok :: "buffer list \<Rightarrow> bool" where
  "buffers_ok bs \<longleftrightarrow> (\<forall>b\<in>set bs. bf_addr b < 2 ^ 64 \<and> bf_len b < 2 ^ 32)"

lemma flag_bits [simp]: "(0::nat) OR 0 = 0" "(2::nat) OR 0 = 2" "(0::nat) OR 1 = 1" "(2::nat) OR 1 = 3" "(3::nat) AND 1 = 1" "(2::nat) AND 1 = 0"
  "(1::nat) AND 1 = 1" "(3::nat) AND 2 = 2" "(2::nat) AND 2 = 2" "(1::nat) AND 2 = 0" "(0::nat) AND 1 = 0" "(0::nat) AND 2 = 0"
  by simp_all

lemma desc_for_flags: "ds_flags (desc_for ds b) AND DESC_F_NEXT = 0 \<longleftrightarrow> ds = []" "ds_flags (desc_for ds b) AND DESC_F_WRITE = 0 \<longleftrightarrow> \<not> bf_device_writes b"
  "ds_flags (desc_for ds b) < 2 ^ 16"
  by (auto simp: desc_for_def DESC_F_NEXT_def DESC_F_WRITE_def)

lemma desc_for_next: "ds \<noteq> [] \<Longrightarrow> ds_next (desc_for ds b) = hd ds"
  by (simp add: desc_for_def)

lemma desc_for_fits: "bf_addr b < 2 ^ 64 \<Longrightarrow> bf_len b < 2 ^ 32 \<Longrightarrow> \<forall>d\<in>set ds. d < 65536 \<Longrightarrow> descriptor_fits (desc_for ds b)"
  using desc_for_flags(3)[of ds b] unfolding descriptor_fits_def by (cases ds) (simp_all add: desc_for_def)

lemma build_chain_Cons: "build_chain l (d # ds) (b # bs) m = build_chain l ds bs (write_descriptor l d (desc_for ds b) m)"
  by (simp add: desc_for_def)

lemma read_build_other: "d \<notin> set ds \<Longrightarrow> read_descriptor l d (build_chain l ds bs m) = read_descriptor l d m"
proof (induction l ds bs m rule: build_chain.induct)
  case (1 l e ds b bs m)
  then show ?case unfolding build_chain_Cons by (simp add: desc_for_def read_write_other)
qed auto

lemma build_chain_in:
  "distinct ds \<Longrightarrow> length ds = length bs \<Longrightarrow> \<forall>d\<in>set ds. d < 65536 \<Longrightarrow> buffers_ok bs \<Longrightarrow> chain_in l (build_chain l ds bs m) ds bs"
proof (induction ds arbitrary: bs m)
  case (Cons d ds)
  then obtain b cs where bs: "bs = b # cs" by (cases bs) auto
  have "descriptor_fits (desc_for ds b)" using Cons.prems bs by (intro desc_for_fits) (auto simp: buffers_ok_def)
  moreover have "chain_in l (build_chain l ds cs (write_descriptor l d (desc_for ds b) m)) ds cs"
    using Cons.prems bs by (intro Cons.IH) (auto simp: buffers_ok_def)
  ultimately show ?case using Cons.prems(1) bs unfolding bs build_chain_Cons by (simp add: read_build_other read_write_same)
qed simp

lemma build_chain_outside:
  "\<forall>d\<in>set ds. d < n \<Longrightarrow> ly_desc_offset l = 0 \<Longrightarrow> 16 * n \<le> x \<Longrightarrow> build_chain l ds bs m x = m x"
proof (induction l ds bs m rule: build_chain.induct)
  case (1 l e ds b bs m)
  have "write_descriptor l e (desc_for ds b) m x = m x"
    using 1(2-4) by (intro write_descriptor_outside) (auto simp: descriptor_offset_def)
  then show ?case using 1 unfolding build_chain_Cons by (simp add: desc_for_def)
qed auto

lemma chain_in_cong: "\<forall>d\<in>set ds. read_descriptor l d m' = read_descriptor l d m \<Longrightarrow> chain_in l m' ds bs = chain_in l m ds bs"
  by (induction l m ds bs rule: chain_in.induct) auto

lemma chain_in_length: "chain_in l m ds bs \<Longrightarrow> length bs = length ds"
  by (induction l m ds bs rule: chain_in.induct) auto

lemma return_chain_ok:
  "chain_in l m ds bs \<Longrightarrow> ds \<noteq> [] \<Longrightarrow> nf + length ds \<le> length free \<Longrightarrow>
   \<exists>free'. return_chain l m (hd ds) free nf = Inr (free', nf + length ds) \<and> length free' = length free
     \<and> take (nf + length ds) free' = take nf free @ ds"
proof (induction ds arbitrary: bs nf free)
  case (Cons d ds)
  then obtain b cs where bs: "bs = b # cs" by (cases bs) auto
  have rd: "read_descriptor l d m = desc_for ds b" and ch: "chain_in l m ds cs" using Cons.prems(1) bs by auto
  let ?free = "free[nf := d]"
  have nf: "nf < length free" using Cons.prems(3) by simp
  have tk: "take (nf + 1) ?free = take nf free @ [d]" using nf by (simp add: take_Suc_conv_app_nth)
  show ?case
  proof (cases "ds = []")
    case True
    then show ?thesis using nf tk rd by (subst return_chain.simps) (simp add: desc_for_flags Let_def)
  next
    case False
    have "nf + 1 + length ds \<le> length ?free" using Cons.prems(3) by simp
    from Cons.IH[OF ch False this] obtain free' where
      r: "return_chain l m (hd ds) ?free (nf + 1) = Inr (free', nf + 1 + length ds)" "length free' = length ?free"
        "take (nf + 1 + length ds) free' = take (nf + 1) ?free @ ds" by blast
    have "return_chain l m d free nf = return_chain l m (hd ds) ?free (nf + 1)"
      using nf rd False by (subst return_chain.simps) (simp add: desc_for_flags desc_for_next Let_def)
    then show ?thesis using r tk by simp
  qed
qed simp

lemma take_free_map: "\<forall>i\<in>set is. i < nf \<Longrightarrow> nf \<le> length free \<Longrightarrow> take_free free nf is = Inr (map (\<lambda>i. free ! (nf - 1 - i)) is)"
  by (induction "is") (auto simp: usub_def)

lemma take_free_ok:
  assumes "k \<le> nf" "nf \<le> length free"
  obtains ds where "take_free free nf [0..<k] = Inr ds" "length ds = k" "mset ds + mset (take (nf - k) free) = mset (take nf free)"
proof -
  let ?ds = "map (\<lambda>i. free ! (nf - 1 - i)) [0..<k]"
  have "?ds = rev (drop (nf - k) (take nf free))"
    using assms by (intro nth_equalityI) (auto simp: rev_nth intro!: arg_cong[of _ _ "\<lambda>i. free ! i"])
  moreover have "take nf free = take (nf - k) free @ drop (nf - k) (take nf free)"
    using append_take_drop_id[of "nf - k" "take nf free"] by (simp add: min_def)
  ultimately have "mset ?ds + mset (take (nf - k) free) = mset (take nf free)"
    by (metis mset_append mset_rev union_commute)
  moreover have "take_free free nf [0..<k] = Inr ?ds" using assms by (intro take_free_map) auto
  ultimately show thesis using that[of ?ds] by simp
qed
subsection \<open>The specification\<close>

type_synonym request = "nat \<times> buffer list"

record vq_spec =
  vs_waiting :: "request list"
  vs_held :: "request list"
  vs_finished :: "(request \<times> nat) list"

definition vs_all :: "vq_spec \<Rightarrow> request list" where
  "vs_all a = vs_waiting a @ vs_held a @ map fst (vs_finished a)"

definition vs_used :: "vq_spec \<Rightarrow> nat" where
  "vs_used a = sum_list (map (length \<circ> snd) (vs_all a))"

text \<open>What can be seen: the driver's calls with their results, and what the device reads and returns.\<close>

datatype vq_label = Added "buffer list" nat | Refused "buffer list" add_error | Popped "(nat \<times> nat) option"
  | Taken "buffer list" | Completed nat nat | Quiet

inductive spec_step :: "nat \<Rightarrow> vq_spec \<Rightarrow> vq_label \<Rightarrow> vq_spec \<Rightarrow> bool" for n where
  spec_added: "bs \<noteq> [] \<Longrightarrow> vs_used a + length bs \<le> n
    \<Longrightarrow> spec_step n a (Added bs token) (a\<lparr>vs_waiting := vs_waiting a @ [(token, bs)]\<rparr>)"
| spec_empty: "spec_step n a (Refused [] EmptyBuffers) a"
| spec_full: "bs \<noteq> [] \<Longrightarrow> n < vs_used a + length bs \<Longrightarrow> spec_step n a (Refused bs QueueFull) a"
| spec_taken: "vs_waiting a = r # rs \<Longrightarrow> spec_step n a (Taken (snd r)) (a\<lparr>vs_waiting := rs, vs_held := vs_held a @ [r]\<rparr>)"
| spec_completed: "k < length (vs_held a) \<Longrightarrow> spec_step n a (Completed k len)
    (a\<lparr>vs_held := take k (vs_held a) @ drop (k + 1) (vs_held a), vs_finished := vs_finished a @ [(vs_held a ! k, len)]\<rparr>)"
| spec_popped: "vs_finished a = (r, len) # rs \<Longrightarrow> spec_step n a (Popped (Some (fst r, len))) (a\<lparr>vs_finished := rs\<rparr>)"
| spec_none: "vs_finished a = [] \<Longrightarrow> spec_step n a (Popped None) a"
| spec_quiet: "spec_step n a Quiet a"

definition spec_init :: vq_spec where "spec_init = \<lparr>vs_waiting = [], vs_held = [], vs_finished = []\<rparr>"

inductive spec_exec :: "nat \<Rightarrow> vq_label list \<Rightarrow> vq_spec \<Rightarrow> bool" for n where
  spec_start: "spec_exec n [] spec_init"
| spec_next: "spec_exec n xs a \<Longrightarrow> spec_step n a x b \<Longrightarrow> spec_exec n (xs @ [x]) b"

subsection \<open>The device and the running system\<close>

record vq_world =
  vw_queue :: split_queue
  vw_dev_avail :: nat
  vw_dev_used :: nat
  vw_dev_held :: "nat list"

text \<open>The device follows a chain for at most as many descriptors as the queue has.\<close>

fun dev_chain :: "layout \<Rightarrow> bytes_at \<Rightarrow> nat \<Rightarrow> nat \<Rightarrow> buffer list" where
  "dev_chain l m 0 d = []"
| "dev_chain l m (Suc f) d =
     (let x = read_descriptor l d m in
      \<lparr>bf_addr = ds_addr x, bf_len = ds_len x, bf_device_writes = (ds_flags x AND DESC_F_WRITE \<noteq> 0)\<rparr>
        # (if ds_flags x AND DESC_F_NEXT = 0 then [] else dev_chain l m f (ds_next x)))"

definition on_mem :: "(bytes_at \<Rightarrow> bytes_at) \<Rightarrow> vq_world \<Rightarrow> vq_world" where
  "on_mem f w = w\<lparr>vw_queue := (vw_queue w)\<lparr>sq_mem := f (sq_mem (vw_queue w))\<rparr>\<rparr>"

definition dev_take :: "vq_world \<Rightarrow> (buffer list \<times> vq_world) option" where
  "dev_take w = (let l = sq_layout (vw_queue w); m = sq_mem (vw_queue w); n = ly_queue_size l in
     if get_le 2 (ly_avail_offset l + 2) m = vw_dev_avail w then None
     else let head = get_le 2 (ly_avail_offset l + 4 + vw_dev_avail w mod n * 2) m in
       Some (dev_chain l m n head, w\<lparr>vw_dev_avail := wrapping_inc16 (vw_dev_avail w), vw_dev_held := vw_dev_held w @ [head]\<rparr>))"

definition dev_complete :: "nat \<Rightarrow> nat \<Rightarrow> vq_world \<Rightarrow> vq_world" where
  "dev_complete k len w = (let l = sq_layout (vw_queue w); n = ly_queue_size l;
       entry = ly_used_offset l + 4 + vw_dev_used w mod n * 8; used = wrapping_inc16 (vw_dev_used w) in
     (on_mem (\<lambda>m. put_le 2 (ly_used_offset l + 2) used (put_le 4 (entry + 4) len (put_le 4 entry (vw_dev_held w ! k) m))) w)
       \<lparr>vw_dev_used := used, vw_dev_held := take k (vw_dev_held w) @ drop (k + 1) (vw_dev_held w)\<rparr>)"

text \<open>The device may set its suppression flag and its event index at any time.\<close>

definition dev_signal :: "nat \<Rightarrow> nat \<Rightarrow> vq_world \<Rightarrow> vq_world" where
  "dev_signal flags event w = (let l = sq_layout (vw_queue w) in
     on_mem (\<lambda>m. put_le 2 (ly_used_offset l + 4 + ly_queue_size l * 8) event (put_le 2 (ly_used_offset l) flags m)) w)"

inductive vq_step :: "vq_world \<Rightarrow> vq_label \<Rightarrow> vq_world \<Rightarrow> bool" where
  vq_add: "buffers_ok bs \<Longrightarrow> add_buffers bs token (vw_queue w) = Inr (Inr (), q) \<Longrightarrow> vq_step w (Added bs token) (w\<lparr>vw_queue := q\<rparr>)"
| vq_refuse: "buffers_ok bs \<Longrightarrow> add_buffers bs token (vw_queue w) = Inr (Inl e, q) \<Longrightarrow> vq_step w (Refused bs e) (w\<lparr>vw_queue := q\<rparr>)"
| vq_pop: "pop_used (vw_queue w) = Inr (r, q) \<Longrightarrow> vq_step w (Popped r) (w\<lparr>vw_queue := q\<rparr>)"
| vq_take: "dev_take w = Some (bs, w') \<Longrightarrow> vq_step w (Taken bs) w'"
| vq_complete: "k < length (vw_dev_held w) \<Longrightarrow> len < 2 ^ 32 \<Longrightarrow> vq_step w (Completed k len) (dev_complete k len w)"
| vq_signal: "vq_step w Quiet (dev_signal flags event w)"
| vq_event: "vq_step w Quiet (w\<lparr>vw_queue := set_used_event v (vw_queue w)\<rparr>)"
| vq_mode: "vq_step w Quiet (w\<lparr>vw_queue := set_event_idx_enabled b (vw_queue w)\<rparr>)"
| vq_notify: "should_notify (vw_queue w) = (b, q) \<Longrightarrow> vq_step w Quiet (w\<lparr>vw_queue := q\<rparr>)"

inductive vq_exec :: "layout \<Rightarrow> ring_memory \<Rightarrow> vq_label list \<Rightarrow> vq_world \<Rightarrow> bool" for l r where
  vq_start: "split_queue_new l r = Some q \<Longrightarrow> vq_exec l r [] \<lparr>vw_queue = q, vw_dev_avail = 0, vw_dev_used = 0, vw_dev_held = []\<rparr>"
| vq_next: "vq_exec l r xs w \<Longrightarrow> vq_step w x w' \<Longrightarrow> vq_exec l r (xs @ [x]) w'"

inductive_cases vq_stepE: "vq_step w x w'"

subsection \<open>The relation between them\<close>

text \<open>A live request is its chain of descriptors, its token and its buffers.\<close>

type_synonym live = "nat list \<times> request"

definition live_ok :: "split_queue \<Rightarrow> live \<Rightarrow> bool" where
  "live_ok q x \<longleftrightarrow> fst x \<noteq> [] \<and> chain_in (sq_layout q) (sq_mem q) (fst x) (snd (snd x)) \<and> buffers_ok (snd (snd x))
     \<and> sq_token_map q ! hd (fst x) = fst (snd x)"

definition chains :: "live list \<Rightarrow> nat multiset" where
  "chains X = mset (concat (map fst X))"

definition pool_ok :: "nat \<Rightarrow> split_queue \<Rightarrow> live list \<Rightarrow> bool" where
  "pool_ok n q X \<longleftrightarrow> length (sq_free_descs q) = n \<and> sq_num_free q \<le> n \<and> length (sq_token_map q) = n
     \<and> chains X + mset (take (sq_num_free q) (sq_free_descs q)) = mset [0..<n]"

definition avail_ok :: "layout \<Rightarrow> bytes_at \<Rightarrow> nat \<Rightarrow> nat \<Rightarrow> live list \<Rightarrow> nat \<Rightarrow> bool" where
  "avail_ok l m next_avail dev_avail W t \<longleftrightarrow> next_avail = (t + length W) mod 65536 \<and> get_le 2 (ly_avail_offset l + 2) m = next_avail
     \<and> dev_avail = t mod 65536
     \<and> (\<forall>k<length W. get_le 2 (ly_avail_offset l + 4 + (t + k) mod ly_queue_size l * 2) m = hd (fst (W ! k)))"

definition used_ok :: "layout \<Rightarrow> bytes_at \<Rightarrow> nat \<Rightarrow> nat \<Rightarrow> (live \<times> nat) list \<Rightarrow> nat \<Rightarrow> bool" where
  "used_ok l m next_used dev_used F c \<longleftrightarrow> next_used = c mod 65536 \<and> dev_used = (c + length F) mod 65536
     \<and> get_le 2 (ly_used_offset l + 2) m = dev_used
     \<and> (\<forall>k<length F. get_le 4 (ly_used_offset l + 4 + (c + k) mod ly_queue_size l * 8) m = hd (fst (fst (F ! k)))
          \<and> get_le 4 (ly_used_offset l + 4 + (c + k) mod ly_queue_size l * 8 + 4) m = snd (F ! k))"

text \<open>\<open>W\<close>, \<open>H\<close> and \<open>F\<close> are the requests on the way, with the device, and finished; \<open>t\<close> and \<open>c\<close> count what was taken and popped.\<close>

definition vq_at :: "layout \<Rightarrow> vq_world \<Rightarrow> vq_spec \<Rightarrow> live list \<Rightarrow> live list \<Rightarrow> (live \<times> nat) list \<Rightarrow> nat \<Rightarrow> nat \<Rightarrow> bool" where
  "vq_at l w a W H F t c \<longleftrightarrow> sq_layout (vw_queue w) = l \<and> for_size (ly_queue_size l) = Some l
     \<and> pool_ok (ly_queue_size l) (vw_queue w) (W @ H @ map fst F) \<and> (\<forall>x\<in>set (W @ H @ map fst F). live_ok (vw_queue w) x)
     \<and> avail_ok l (sq_mem (vw_queue w)) (sq_next_avail (vw_queue w)) (vw_dev_avail w) W t
     \<and> used_ok l (sq_mem (vw_queue w)) (sq_next_used (vw_queue w)) (vw_dev_used w) F c
     \<and> vw_dev_held w = map (hd \<circ> fst) H
     \<and> vs_waiting a = map snd W \<and> vs_held a = map snd H \<and> vs_finished a = map (\<lambda>(x, len). (snd x, len)) F"

definition vq_rel :: "layout \<Rightarrow> vq_world \<Rightarrow> vq_spec \<Rightarrow> bool" where
  "vq_rel l w a \<longleftrightarrow> (\<exists>W H F t c. vq_at l w a W H F t c)"

lemma chains_simps [simp]: "chains [] = {#}" "chains (x # X) = mset (fst x) + chains X" "chains (X @ Y) = chains X + chains Y"
  by (simp_all add: chains_def)

lemma chain_mem: "x \<in> set X \<Longrightarrow> mset (fst x) \<subseteq># chains X"
proof (induction X)
  case (Cons y X)
  then show ?case by (auto intro: subset_mset.add_increasing subset_mset.add_increasing2)
qed simp

lemma pool_okD:
  assumes p: "pool_ok n q X"
  shows "length (sq_free_descs q) = n" "sq_num_free q \<le> n" "length (sq_token_map q) = n"
    "size (chains X) + sq_num_free q = n" "x \<in> set X \<Longrightarrow> d \<in> set (fst x) \<Longrightarrow> d < n"
    "x \<in> set X \<Longrightarrow> distinct (fst x)" "x \<in> set X \<Longrightarrow> length (fst x) \<le> n - sq_num_free q"
    "d \<in> set (take (sq_num_free q) (sq_free_descs q)) \<Longrightarrow> d < n"
    "x \<in> set X \<Longrightarrow> d \<in> set (fst x) \<Longrightarrow> d \<notin> set (take (sq_num_free q) (sq_free_descs q))"
    "distinct (concat (map fst X))" "distinct (take (sq_num_free q) (sq_free_descs q))"
proof -
  let ?all = "concat (map fst X) @ take (sq_num_free q) (sq_free_descs q)"
  have eq: "mset ?all = mset [0..<n]" using p by (simp add: pool_ok_def chains_def)
  show l: "length (sq_free_descs q) = n" "sq_num_free q \<le> n" "length (sq_token_map q) = n" using p by (simp_all add: pool_ok_def)
  have "length ?all = n" using eq by (metis size_mset length_upt diff_zero)
  then show sz: "size (chains X) + sq_num_free q = n" using l by (auto simp: chains_def min_def split: if_splits)
  have d: "distinct ?all" using eq distinct_upt mset_eq_imp_distinct_iff by blast
  have s: "set ?all = {..<n}" using mset_eq_setD[OF eq] by auto
  show "distinct (concat (map fst X))" "distinct (take (sq_num_free q) (sq_free_descs q))" using d by auto
  show "d \<in> set (take (sq_num_free q) (sq_free_descs q)) \<Longrightarrow> d < n" using s by auto
  { assume x: "x \<in> set X"
    show "distinct (fst x)" using d x by (auto simp: distinct_concat_iff)
    show "length (fst x) \<le> n - sq_num_free q" using size_mset_mono[OF chain_mem[OF x]] sz by simp
    assume dx: "d \<in> set (fst x)"
    show "d < n" using s x dx by auto
    show "d \<notin> set (take (sq_num_free q) (sq_free_descs q))" using d x dx by auto }
qed

lemma length_live: "(\<And>x. x \<in> set X \<Longrightarrow> fst x \<noteq> []) \<Longrightarrow> length X \<le> size (chains X)"
proof (induction X)
  case (Cons x X)
  then have a: "fst x \<noteq> []" "length X \<le> size (chains X)" by auto
  then have "1 \<le> length (fst x)" by (cases "fst x") auto
  then show ?case using a(2) by simp
qed simp

lemma used_chains: "(\<And>x. x \<in> set X \<Longrightarrow> length (snd (snd x)) = length (fst x)) \<Longrightarrow> sum_list (map (length \<circ> snd) (map snd X)) = size (chains X)"
  by (induction X) auto
subsection \<open>What each part of the ring memory holds\<close>

lemma layout_facts:
  assumes "for_size n = Some l"
  shows "ly_queue_size l = n" "ly_desc_offset l = 0" "ly_avail_offset l = 16 * n" "18 * n + 6 \<le> ly_used_offset l" "ly_used_offset l mod 4 = 0"
    "ly_total_size l = ly_used_offset l + 6 + 8 * n" "0 < n" "n \<le> 32768" "n dvd 65536" "ly_used_offset l \<le> 18 * n + 9"
proof -
  note i = assms[unfolded for_size_iff]
  show "ly_queue_size l = n" "ly_desc_offset l = 0" "ly_avail_offset l = 16 * n" "ly_total_size l = ly_used_offset l + 6 + 8 * n" using i by auto
  obtain k where k: "k \<le> 15" "n = 2 ^ k" using i by blast
  have "(2::nat) ^ k \<le> 2 ^ 15" using k(1) by (intro power_increasing) auto
  then show "0 < n" "n \<le> 32768" using k(2) by auto
  have "(2::nat) ^ k dvd 2 ^ 16" using k(1) by (intro le_imp_power_dvd) simp
  then show "n dvd 65536" using k(2) by simp
  have "(18 * n + 9) mod 4 < 4" "ly_used_offset l = 18 * n + 9 - (18 * n + 9) mod 4" using i by auto
  then show "18 * n + 6 \<le> ly_used_offset l" "ly_used_offset l \<le> 18 * n + 9" by linarith+
  have "ly_used_offset l = (18 * n + 9) div 4 * 4" using i by (metis minus_mod_eq_div_mult)
  then show "ly_used_offset l mod 4 = 0" by simp
qed

definition same_on :: "nat \<Rightarrow> nat \<Rightarrow> bytes_at \<Rightarrow> bytes_at \<Rightarrow> bool" where
  "same_on a b m' m \<longleftrightarrow> (\<forall>x. a \<le> x \<longrightarrow> x < b \<longrightarrow> m' x = m x)"

lemma same_on_refl: "same_on a b m m" by (simp add: same_on_def)

lemma same_on_trans: "same_on a b m2 m1 \<Longrightarrow> same_on a b m1 m0 \<Longrightarrow> same_on a b m2 m0" by (simp add: same_on_def)

lemma same_on_put: "b \<le> e \<or> e + k \<le> a \<Longrightarrow> same_on a b (put_le k e v m) m"
  by (auto simp: same_on_def put_le_def)

lemma same_on_get: "same_on a b m' m \<Longrightarrow> a \<le> e \<Longrightarrow> e + k \<le> b \<Longrightarrow> get_le k e m' = get_le k e m"
  by (rule get_le_cong) (auto simp: same_on_def)

lemma live_ok_mem:
  assumes f: "for_size n = Some l" and l: "sq_layout q = l" "sq_layout q' = l" and d: "\<forall>d\<in>set (fst x). d < n"
    and same: "same_on 0 (16 * n) (sq_mem q') (sq_mem q)" and tok: "sq_token_map q' = sq_token_map q" and ok: "live_ok q x"
  shows "live_ok q' x"
proof -
  have "read_descriptor l e (sq_mem q') = read_descriptor l e (sq_mem q)" if "e \<in> set (fst x)" for e
  proof (rule read_descriptor_cong)
    fix y assume y: "descriptor_offset l e \<le> y" "y < descriptor_offset l e + 16"
    have "e + 1 \<le> n" using d that by auto
    then have "y < 16 * n" using y layout_facts(2)[OF f] by (simp add: descriptor_offset_def)
    then show "sq_mem q' y = sq_mem q y" using same by (simp add: same_on_def)
  qed
  then show ?thesis using ok l tok chain_in_cong[of "fst x" l "sq_mem q'" "sq_mem q"] by (simp add: live_ok_def)
qed

lemma avail_entry_in: "0 < n \<Longrightarrow> i mod n * 2 + 2 \<le> 2 * n" for n :: nat
proof -
  assume "0 < n"
  then have "i mod n < n" by simp
  then show ?thesis by linarith
qed

lemma used_entry_in: "0 < n \<Longrightarrow> i mod n * 8 + 8 \<le> 8 * n" for n :: nat
proof -
  assume "0 < n"
  then have "i mod n < n" by simp
  then show ?thesis by linarith
qed

lemma avail_ok_mem:
  assumes f: "for_size n = Some l" and same: "same_on (16 * n) (18 * n + 4) m' m" and ok: "avail_ok l m i j W t"
  shows "avail_ok l m' i j W t"
proof -
  note L = layout_facts[OF f]
  have "get_le 2 (ly_avail_offset l + 2) m' = get_le 2 (ly_avail_offset l + 2) m" using L by (intro same_on_get[OF same]) auto
  moreover have "get_le 2 (ly_avail_offset l + 4 + k mod n * 2) m' = get_le 2 (ly_avail_offset l + 4 + k mod n * 2) m" for k
    using L avail_entry_in[of n k] by (intro same_on_get[OF same]) auto
  ultimately show ?thesis using ok L by (simp add: avail_ok_def)
qed

lemma used_ok_mem:
  assumes f: "for_size n = Some l" and same: "same_on (ly_used_offset l + 2) (ly_used_offset l + 4 + 8 * n) m' m" and ok: "used_ok l m i j F c"
  shows "used_ok l m' i j F c"
proof -
  note L = layout_facts[OF f]
  have "get_le 2 (ly_used_offset l + 2) m' = get_le 2 (ly_used_offset l + 2) m" using L by (intro same_on_get[OF same]) auto
  moreover have "get_le 4 (ly_used_offset l + 4 + k mod n * 8) m' = get_le 4 (ly_used_offset l + 4 + k mod n * 8) m"
    "get_le 4 (ly_used_offset l + 4 + k mod n * 8 + 4) m' = get_le 4 (ly_used_offset l + 4 + k mod n * 8 + 4) m" for k
    using L used_entry_in[of n k] by (intro same_on_get[OF same]; simp)+
  ultimately show ?thesis using ok L by (simp add: used_ok_def)
qed

lemma mod_entry: "n dvd 65536 \<Longrightarrow> k mod 65536 mod n = k mod n" for k n :: nat
  by (rule mod_mod_cancel)

lemma inc_mod: "wrapping_inc16 (k mod 65536) = (k + 1) mod 65536"
  by (simp add: wrapping_inc16_def mod_simps)

lemma entries_differ: "j < k \<Longrightarrow> k < n \<Longrightarrow> (t + j) mod n \<noteq> (t + k) mod n" for n :: nat
proof
  assume a: "j < k" "k < n" "(t + j) mod n = (t + k) mod n"
  then have "(t + k - (t + j)) mod n = 0" by (metis mod_eq_iff_dvd_symdiff_nat mod_eq_0_iff_dvd dvd_minus_mod add_le_mono le_refl less_imp_le mod_eq_dvd_iff_nat)
  then have "n dvd k - j" by auto
  then show False using a by (auto dest: dvd_imp_le)
qed

subsection \<open>The driver's calls\<close>

lemma vq_atD:
  assumes "vq_at l w a W H F t c"
  shows "sq_layout (vw_queue w) = l" "for_size (ly_queue_size l) = Some l" "pool_ok (ly_queue_size l) (vw_queue w) (W @ H @ map fst F)"
    "x \<in> set (W @ H @ map fst F) \<Longrightarrow> live_ok (vw_queue w) x"
    "avail_ok l (sq_mem (vw_queue w)) (sq_next_avail (vw_queue w)) (vw_dev_avail w) W t"
    "used_ok l (sq_mem (vw_queue w)) (sq_next_used (vw_queue w)) (vw_dev_used w) F c"
    "vw_dev_held w = map (hd \<circ> fst) H" "vs_waiting a = map snd W" "vs_held a = map snd H" "vs_finished a = map (\<lambda>(x, len). (snd x, len)) F"
  using assms unfolding vq_at_def by blast+

lemma vq_used:
  assumes "vq_at l w a W H F t c"
  shows "vs_used a + sq_num_free (vw_queue w) = ly_queue_size l"
proof -
  note R = vq_atD[OF assms]
  let ?X = "W @ H @ map fst F"
  have all: "vs_all a = map snd ?X" using R(8-10) by (simp add: vs_all_def case_prod_beta comp_def)
  have "length (snd (snd x)) = length (fst x)" if "x \<in> set ?X" for x
    using R(4)[OF that] chain_in_length by (auto simp: live_ok_def)
  then have "vs_used a = size (chains ?X)" unfolding vs_used_def all by (rule used_chains)
  then show ?thesis using pool_okD(4)[OF R(3)] by simp
qed

lemma live_bounds:
  assumes "vq_at l w a W H F t c"
  shows "length (W @ H @ map fst F) + sq_num_free (vw_queue w) \<le> ly_queue_size l"
proof -
  note R = vq_atD[OF assms]
  have "fst x \<noteq> []" if "x \<in> set (W @ H @ map fst F)" for x using R(4)[OF that] by (simp add: live_ok_def)
  then have "length (W @ H @ map fst F) \<le> size (chains (W @ H @ map fst F))" by (rule length_live)
  then show ?thesis using pool_okD(4)[OF R(3)] by linarith
qed

lemma add_rejects:
  assumes "vq_at l w a W H F t c"
  shows "bs = [] \<Longrightarrow> add_buffers bs token (vw_queue w) = Inr (Inl EmptyBuffers, vw_queue w)"
    "bs \<noteq> [] \<Longrightarrow> sq_num_free (vw_queue w) < length bs \<Longrightarrow> add_buffers bs token (vw_queue w) = Inr (Inl QueueFull, vw_queue w)"
  by (simp_all add: add_buffers_def Let_def)

lemma add_accepts:
  assumes at: "vq_at l w a W H F t c" and bs: "bs \<noteq> []" "buffers_ok bs" and room: "length bs \<le> sq_num_free (vw_queue w)"
  obtains q ds where "add_buffers bs token (vw_queue w) = Inr (Inr (), q)"
    "vq_at l (w\<lparr>vw_queue := q\<rparr>) (a\<lparr>vs_waiting := vs_waiting a @ [(token, bs)]\<rparr>) (W @ [(ds, token, bs)]) H F t c"
    "sq_num_free q = sq_num_free (vw_queue w) - length bs" "\<And>x. ly_total_size l \<le> x \<Longrightarrow> sq_mem q x = sq_mem (vw_queue w) x"
proof -
  note R = vq_atD[OF at]
  let ?q = "vw_queue w" let ?X = "W @ H @ map fst F" let ?m = "sq_mem ?q"
  define n where "n = ly_queue_size l"
  have f: "for_size n = Some l" using R(2) n_def by simp
  note L = layout_facts[OF f] and P = pool_okD[OF R(3), folded n_def]
  obtain ds where ds: "take_free (sq_free_descs ?q) (sq_num_free ?q) [0..<length bs] = Inr ds" "length ds = length bs"
    "mset ds + mset (take (sq_num_free ?q - length bs) (sq_free_descs ?q)) = mset (take (sq_num_free ?q) (sq_free_descs ?q))"
    using take_free_ok[OF room, of "sq_free_descs ?q"] P(1,2) by auto
  have ne: "ds \<noteq> []" using ds(2) bs(1) by auto
  have sub: "mset ds \<subseteq># mset (take (sq_num_free ?q) (sq_free_descs ?q))" using ds(3) by (metis mset_subset_eq_add_left)
  have in_free: "d \<in> set (take (sq_num_free ?q) (sq_free_descs ?q))" if "d \<in> set ds" for d
    using sub that by (metis mset_subset_eqD set_mset_mset)
  have dn: "d < n" if "d \<in> set ds" for d using P(8)[OF in_free[OF that]] .
  have dist: "distinct ds" 
  proof -
    have "distinct (ds @ take (sq_num_free ?q - length bs) (sq_free_descs ?q))"
      using mset_eq_imp_distinct_iff[of "ds @ take (sq_num_free ?q - length bs) (sq_free_descs ?q)" "take (sq_num_free ?q) (sq_free_descs ?q)"]
        ds(3) P(11) by simp
    then show ?thesis by simp
  qed
  have hd: "hd ds < n" using dn ne by simp
  define m1 where "m1 = build_chain l ds bs ?m"
  define entry where "entry = ly_avail_offset l + 4 + sq_next_avail ?q mod n * 2"
  define m2 where "m2 = put_le 2 (ly_avail_offset l + 2) (wrapping_inc16 (sq_next_avail ?q)) (put_le 2 entry (hd ds) m1)"
  let ?q1 = "?q\<lparr>sq_token_map := (sq_token_map ?q)[hd ds := token], sq_mem := m1\<rparr>"
  let ?q2 = "?q\<lparr>sq_num_free := sq_num_free ?q - length bs, sq_token_map := (sq_token_map ?q)[hd ds := token],
     sq_next_avail := wrapping_inc16 (sq_next_avail ?q), sq_mem := m2\<rparr>"
  have run: "add_buffers bs token ?q = Inr (Inr (), ?q2)"
    using bs(1) room ds(1) ne hd P(3) R(1) L(1,7)
    by (simp add: add_buffers_def Let_def set_at_def avail_entry_def m2_def m1_def entry_def hd_conv_nth[symmetric])
  have en: "16 * n + 4 \<le> entry" "entry + 2 \<le> 18 * n + 4" using avail_entry_in[OF L(7), of "sq_next_avail ?q"] L(3) by (auto simp: entry_def)
  have low: "same_on 0 (16 * n) m2 m1"
    unfolding m2_def using en L(3) by (intro same_on_trans[OF same_on_put same_on_put]) auto
  have high: "same_on (ly_used_offset l + 2) (ly_used_offset l + 4 + 8 * n) m2 ?m"
  proof -
    have "same_on (ly_used_offset l + 2) (ly_used_offset l + 4 + 8 * n) m1 ?m"
      unfolding m1_def same_on_def using build_chain_outside[of ds n l _ bs ?m] dn L(2,4) by auto
    moreover have "same_on (ly_used_offset l + 2) (ly_used_offset l + 4 + 8 * n) m2 m1"
      unfolding m2_def using en L(3,4) by (intro same_on_trans[OF same_on_put same_on_put]) auto
    ultimately show ?thesis by (rule same_on_trans[rotated])
  qed
  have old1: "live_ok ?q1 x" if x: "x \<in> set ?X" for x
  proof -
    have out: "e \<notin> set ds" if "e \<in> set (fst x)" for e using P(9)[OF x that] in_free by blast
    have lx: "live_ok ?q x" by (rule R(4)[OF x])
    have "chain_in l m1 (fst x) (snd (snd x)) = chain_in l ?m (fst x) (snd (snd x))"
      unfolding m1_def using out read_build_other by (intro chain_in_cong) blast
    moreover have "hd (fst x) \<noteq> hd ds" using out[of "hd (fst x)"] lx ne by (metis hd_in_set live_ok_def)
    ultimately show ?thesis using lx R(1) by (simp add: live_ok_def)
  qed
  have new1: "live_ok ?q1 (ds, token, bs)"
    using build_chain_in[OF dist ds(2), of l ?m] dn L(8) bs(2) ne hd P(3) R(1) by (fastforce simp: live_ok_def m1_def)
  have lives: "live_ok ?q2 x" if "x \<in> set ((W @ [(ds, token, bs)]) @ H @ map fst F)" for x
  proof (rule live_ok_mem[OF f, of ?q1])
    have x: "x \<in> set ?X \<or> x = (ds, token, bs)" using that by auto
    then show "\<forall>d\<in>set (fst x). d < n" using P(5)[of x] dn by (elim disjE) simp_all
    show "live_ok ?q1 x" using x old1[of x] new1 by blast
  qed (use R(1) low in simp_all)
  have av: "avail_ok l m2 (wrapping_inc16 (sq_next_avail ?q)) (vw_dev_avail w) (W @ [(ds, token, bs)]) t"
  proof -
    note A = R(5)[unfolded avail_ok_def]
    have na: "sq_next_avail ?q = (t + length W) mod 65536" using A by blast
    have inc: "wrapping_inc16 (sq_next_avail ?q) = (t + length (W @ [(ds, token, bs)])) mod 65536" unfolding na inc_mod by simp
    have e: "entry = ly_avail_offset l + 4 + (t + length W) mod n * 2" unfolding entry_def na using mod_entry[OF L(9)] by simp
    have idx: "get_le 2 (ly_avail_offset l + 2) m2 = wrapping_inc16 (sq_next_avail ?q)"
      unfolding m2_def by (rule get_put_same) (simp add: wrapping_inc16_def)
    have lenW: "length W < n" using live_bounds[OF at] room bs(1) n_def by (cases bs) auto
    have get: "get_le 2 (ly_avail_offset l + 4 + (t + k) mod n * 2) m2 = hd (fst ((W @ [(ds, token, bs)]) ! k))" if "k < length (W @ [(ds, token, bs)])" for k
    proof (cases "k = length W")
      case True
      have "get_le 2 entry m2 = get_le 2 entry (put_le 2 entry (hd ds) m1)" unfolding m2_def using en L(3) by (intro get_put_other) auto
      also have "\<dots> = hd ds" using hd L(8) by (intro get_put_same) simp
      finally show ?thesis using e True by simp
    next
      case False
      then have k: "k < length W" using that by simp
      let ?e = "ly_avail_offset l + 4 + (t + k) mod n * 2"
      have ne: "(t + k) mod n \<noteq> (t + length W) mod n" by (rule entries_differ[OF k lenW])
      have i2: "entry + 2 \<le> ?e \<or> ?e + 2 \<le> entry" unfolding e using ne by linarith
      have i1: "ly_avail_offset l + 2 + 2 \<le> ?e \<or> ?e + 2 \<le> ly_avail_offset l + 2" by simp
      have "get_le 2 ?e m2 = get_le 2 ?e m1"
        unfolding m2_def get_put_other[OF i1] by (rule get_put_other[OF i2])
      also have "\<dots> = get_le 2 ?e ?m"
      proof (rule get_le_cong)
        fix x assume "?e \<le> x" "x < ?e + 2"
        then show "m1 x = ?m x" unfolding m1_def using dn L(2,3) by (intro build_chain_outside[of ds n]) auto
      qed
      finally show ?thesis using A k n_def by (simp add: nth_append)
    qed
    show ?thesis unfolding avail_ok_def using A idx inc get n_def by simp
  qed
  have us: "used_ok l m2 (sq_next_used ?q) (vw_dev_used w) F c" by (rule used_ok_mem[OF f high R(6)])
  have pool: "pool_ok n ?q2 ((W @ [(ds, token, bs)]) @ H @ map fst F)"
    using R(3) by (auto simp: pool_ok_def n_def[symmetric] ds(3)[symmetric] ac_simps)
  have "vq_at l (w\<lparr>vw_queue := ?q2\<rparr>) (a\<lparr>vs_waiting := vs_waiting a @ [(token, bs)]\<rparr>) (W @ [(ds, token, bs)]) H F t c"
    unfolding vq_at_def using R(1,2,7-10) pool lives av us n_def by simp
  moreover have "sq_mem ?q2 x = ?m x" if x: "ly_total_size l \<le> x" for x
    using build_chain_outside[of ds n l x bs ?m] dn L(2,3,4,6) en x by (auto simp: m2_def m1_def put_le_def)
  ultimately show thesis by (intro that[OF run]) simp_all
qed

lemma desc_for_writes: "0 < (ds_flags (desc_for ds b) AND DESC_F_WRITE) \<longleftrightarrow> bf_device_writes b"
  by (metis desc_for_flags(2) neq0_conv)

lemma counts_differ: "0 < k \<Longrightarrow> k < 65536 \<Longrightarrow> (c + k) mod 65536 \<noteq> c mod 65536" for c k :: nat
  using entries_differ[of 0 k 65536 c] by simp

lemma finished_head:
  assumes at: "vq_at l w a W H ((x, len) # F) t c"
  shows "hd (fst x) < ly_queue_size l" "fst x \<noteq> []" "chain_in l (sq_mem (vw_queue w)) (fst x) (snd (snd x))"
    "sq_token_map (vw_queue w) ! hd (fst x) = fst (snd x)"
proof -
  note R = vq_atD[OF at]
  have x: "x \<in> set (W @ H @ map fst ((x, len) # F))" by simp
  show "fst x \<noteq> []" "chain_in l (sq_mem (vw_queue w)) (fst x) (snd (snd x))" "sq_token_map (vw_queue w) ! hd (fst x) = fst (snd x)"
    using R(4)[OF x] R(1) by (simp_all add: live_ok_def)
  then show "hd (fst x) < ly_queue_size l" using pool_okD(5)[OF R(3) x] by simp
qed

lemma pop_nothing:
  assumes "vq_at l w a W H [] t c" shows "pop_used (vw_queue w) = Inr (None, vw_queue w)"
  using vq_atD(1,6)[OF assms] by (simp add: pop_used_def used_ok_def Let_def)

lemma used_ok_tail: "used_ok l m i j (x # F) c \<Longrightarrow> used_ok l m ((c + 1) mod 65536) j F (c + 1)"
proof -
  assume u: "used_ok l m i j (x # F) c"
  note U = u[unfolded used_ok_def]
  have "get_le 4 (ly_used_offset l + 4 + (c + 1 + k) mod ly_queue_size l * 8) m = hd (fst (fst (F ! k)))
      \<and> get_le 4 (ly_used_offset l + 4 + (c + 1 + k) mod ly_queue_size l * 8 + 4) m = snd (F ! k)" if "k < length F" for k
    using U that by (elim conjE allE[of _ "Suc k"]) simp
  then show ?thesis using U by (simp add: used_ok_def)
qed

lemma avail_ok_tail: "avail_ok l m i j (x # W) t \<Longrightarrow> avail_ok l m i ((t + 1) mod 65536) W (t + 1)"
proof -
  assume u: "avail_ok l m i j (x # W) t"
  note U = u[unfolded avail_ok_def]
  have "get_le 2 (ly_avail_offset l + 4 + (t + 1 + k) mod ly_queue_size l * 2) m = hd (fst (W ! k))" if "k < length W" for k
    using U that by (elim conjE allE[of _ "Suc k"]) simp
  then show ?thesis using U by (simp add: avail_ok_def)
qed

lemma pop_something:
  assumes at: "vq_at l w a W H ((x, len) # F) t c"
  obtains q where "pop_used (vw_queue w) = Inr (Some (fst (snd x), len), q)"
    "vq_at l (w\<lparr>vw_queue := q\<rparr>) (a\<lparr>vs_finished := map (\<lambda>(x, len). (snd x, len)) F\<rparr>) W H F t (c + 1)"
proof -
  note R = vq_atD[OF at] and X = finished_head[OF at]
  let ?q = "vw_queue w" let ?m = "sq_mem ?q" let ?X = "W @ H @ x # map fst F"
  define n where "n = ly_queue_size l"
  have f: "for_size n = Some l" using R(2) n_def by simp
  note L = layout_facts[OF f] and P = pool_okD[OF R(3), folded n_def] and U = R(6)[unfolded used_ok_def]
  have nu: "sq_next_used ?q = c mod 65536" using U by blast
  have idx: "get_le 2 (ly_used_offset l + 2) ?m = (c + length ((x, len) # F)) mod 65536" using U by metis
  have lenF: "length ((x, len) # F) \<le> n" using live_bounds[OF at] n_def by simp
  have ne: "get_le 2 (ly_used_offset l + 2) ?m \<noteq> sq_next_used ?q"
    unfolding idx nu by (rule counts_differ) (use lenF L(8) in simp_all)
  have e: "c mod 65536 mod n = c mod n" by (rule mod_entry[OF L(9)])
  have id: "get_le 4 (ly_used_offset l + 4 + c mod n * 8) ?m = hd (fst x)" "get_le 4 (ly_used_offset l + 4 + c mod n * 8 + 4) ?m = len"
    using U[THEN conjunct2, THEN conjunct2, THEN conjunct2, THEN spec, of 0] n_def by simp_all
  have hn: "hd (fst x) < n" using X(1) n_def by simp
  then have h16: "hd (fst x) mod 65536 = hd (fst x)" using L(8) by simp
  have size: "sq_num_free ?q + length (fst x) \<le> length (sq_free_descs ?q)" 
    using P(1,4) by simp
  obtain free' where r: "return_chain l ?m (hd (fst x)) (sq_free_descs ?q) (sq_num_free ?q) = Inr (free', sq_num_free ?q + length (fst x))"
    "length free' = length (sq_free_descs ?q)" "take (sq_num_free ?q + length (fst x)) free' = take (sq_num_free ?q) (sq_free_descs ?q) @ fst x"
    using return_chain_ok[OF X(3,2) size] by blast
  let ?q1 = "?q\<lparr>sq_next_used := wrapping_inc16 (sq_next_used ?q), sq_free_descs := free', sq_num_free := sq_num_free ?q + length (fst x)\<rparr>"
  have ent: "used_entry l (sq_next_used ?q) = Inr (ly_used_offset l + 4 + c mod n * 8)"
    unfolding used_entry_def nu L(1) e using L(7) by simp
  have ret: "return_descriptor_chain (hd (fst x)) (?q\<lparr>sq_next_used := wrapping_inc16 (sq_next_used ?q)\<rparr>) = Inr ?q1"
    unfolding return_descriptor_chain_def using r(1) R(1) by simp
  have tok: "index_at (sq_token_map ?q) (hd (fst x)) = Inr (fst (snd x))"
    using hn P(3) X(4) by (simp add: index_at_def)
  have run: "pop_used ?q = Inr (Some (fst (snd x), len), ?q1)"
    unfolding pop_used_def Let_def R(1) ent and_then.simps id h16 tok ret using ne by simp
  have pool: "pool_ok n ?q1 (W @ H @ map fst F)"
    using R(3) r(2,3) size by (simp add: pool_ok_def n_def[symmetric] ac_simps)
  have "used_ok l ?m (wrapping_inc16 (sq_next_used ?q)) (vw_dev_used w) F (c + 1)" unfolding nu inc_mod by (rule used_ok_tail[OF R(6)])
  then have "vq_at l (w\<lparr>vw_queue := ?q1\<rparr>) (a\<lparr>vs_finished := map (\<lambda>(x, len). (snd x, len)) F\<rparr>) W H F t (c + 1)"
    unfolding vq_at_def using R pool n_def by (simp add: live_ok_def)
  then show thesis by (rule that[OF run])
qed

subsection \<open>The device's steps\<close>

lemma dev_chain_ok: "chain_in l m ds bs \<Longrightarrow> ds \<noteq> [] \<Longrightarrow> length ds \<le> f \<Longrightarrow> dev_chain l m f (hd ds) = bs"
proof (induction ds arbitrary: bs f)
  case (Cons d ds)
  then obtain b cs g where bs: "bs = b # cs" "f = Suc g" by (cases bs; cases f) auto
  have rd: "read_descriptor l d m = desc_for ds b" and ch: "chain_in l m ds cs" using Cons.prems(1) bs by auto
  have b: "\<lparr>bf_addr = ds_addr (desc_for ds b), bf_len = ds_len (desc_for ds b), bf_device_writes = bf_device_writes b\<rparr> = b"
    by (cases b) (simp add: desc_for_def)
  show ?case
  proof (cases "ds = []")
    case True
    then show ?thesis using rd ch b bs by (cases cs) (simp_all add: desc_for_flags desc_for_writes Let_def)
  next
    case False
    then show ?thesis using rd b bs Cons.IH[OF ch False, of g] Cons.prems(3) by (simp add: desc_for_flags desc_for_writes desc_for_next Let_def)
  qed
qed simp

lemma take_nothing: "vq_at l w a [] H F t c \<Longrightarrow> dev_take w = None"
  using vq_atD(1,5)[of l w a "[]" H F t c] by (simp add: dev_take_def avail_ok_def Let_def)

lemma take_something:
  assumes at: "vq_at l w a (x # W) H F t c"
  obtains w' where "dev_take w = Some (snd (snd x), w')"
    "vq_at l w' (a\<lparr>vs_waiting := map snd W, vs_held := vs_held a @ [snd x]\<rparr>) W (H @ [x]) F (t + 1) c"
proof -
  note R = vq_atD[OF at]
  let ?q = "vw_queue w" let ?m = "sq_mem ?q"
  define n where "n = ly_queue_size l"
  have f: "for_size n = Some l" using R(2) n_def by simp
  note L = layout_facts[OF f] and P = pool_okD[OF R(3), folded n_def] and A = R(5)[unfolded avail_ok_def]
  have lx: "live_ok ?q x" by (rule R(4)) simp
  then have X: "fst x \<noteq> []" "chain_in l ?m (fst x) (snd (snd x))" using R(1) by (simp_all add: live_ok_def)
  have lenx: "length (fst x) \<le> n" using P(4) by simp
  have da: "vw_dev_avail w = t mod 65536" using A by blast
  have idx: "get_le 2 (ly_avail_offset l + 2) ?m = (t + length (x # W)) mod 65536" using A by metis
  have "length (x # W) \<le> n" using live_bounds[OF at] n_def by simp
  then have ne: "get_le 2 (ly_avail_offset l + 2) ?m \<noteq> vw_dev_avail w"
    unfolding idx da by (intro counts_differ) (use L(8) in simp_all)
  have e: "t mod 65536 mod n = t mod n" by (rule mod_entry[OF L(9)])
  have head: "get_le 2 (ly_avail_offset l + 4 + t mod n * 2) ?m = hd (fst x)" using A[THEN conjunct2, THEN conjunct2, THEN conjunct2, THEN spec, of 0] n_def by simp
  let ?w = "w\<lparr>vw_dev_avail := wrapping_inc16 (vw_dev_avail w), vw_dev_held := vw_dev_held w @ [hd (fst x)]\<rparr>"
  have run: "dev_take w = Some (snd (snd x), ?w)"
    using ne e head R(1) L(1) dev_chain_ok[OF X(2,1) lenx] by (simp add: dev_take_def Let_def da)
  have "avail_ok l ?m (sq_next_avail ?q) (wrapping_inc16 (vw_dev_avail w)) W (t + 1)" unfolding da inc_mod by (rule avail_ok_tail[OF R(5)])
  then have "vq_at l ?w (a\<lparr>vs_waiting := map snd W, vs_held := vs_held a @ [snd x]\<rparr>) W (H @ [x]) F (t + 1) c"
    unfolding vq_at_def using R by (auto simp: pool_ok_def ac_simps)
  then show thesis by (rule that[OF run])
qed
lemma split_at: "k < length xs \<Longrightarrow> mset xs = mset (take k xs @ drop (k + 1) xs) + {#xs ! k#}"
  by (metis id_take_nth_drop Suc_eq_plus1 mset_append mset.simps(2) add_mset_add_single union_assoc union_commute)

lemma chains_perm: "mset X = mset Y \<Longrightarrow> chains X = chains Y"
proof -
  have "chains X = \<Sum>\<^sub># (image_mset (mset \<circ> fst) (mset X))" for X by (induction X) simp_all
  then show "mset X = mset Y \<Longrightarrow> chains X = chains Y" by simp
qed

lemma same_set: "mset X = mset Y \<Longrightarrow> set X = set Y"
  by (metis set_mset_mset)

lemma used_ok_put:
  assumes f: "for_size n = Some l" and u: "used_ok l m i j F c" and room: "length F < n" and h: "hd (fst x) < n" and len: "len < 2 ^ 32"
  defines "entry \<equiv> ly_used_offset l + 4 + j mod n * 8"
  shows "used_ok l (put_le 2 (ly_used_offset l + 2) (wrapping_inc16 j) (put_le 4 (entry + 4) len (put_le 4 entry (hd (fst x)) m)))
    i (wrapping_inc16 j) (F @ [(x, len)]) c" (is "used_ok l ?m _ _ _ _")
proof -
  note L = layout_facts[OF f] and U = u[unfolded used_ok_def]
  have j: "j = (c + length F) mod 65536" using U by blast
  have e: "entry = ly_used_offset l + 4 + (c + length F) mod n * 8" unfolding entry_def j mod_entry[OF L(9)] ..
  have idx: "get_le 2 (ly_used_offset l + 2) ?m = wrapping_inc16 j" by (rule get_put_same) (simp add: wrapping_inc16_def)
  have get: "get_le 4 (ly_used_offset l + 4 + (c + k) mod n * 8) ?m = hd (fst (fst ((F @ [(x, len)]) ! k)))
      \<and> get_le 4 (ly_used_offset l + 4 + (c + k) mod n * 8 + 4) ?m = snd ((F @ [(x, len)]) ! k)" if "k < length (F @ [(x, len)])" for k
  proof -
    let ?e = "ly_used_offset l + 4 + (c + k) mod n * 8"
    have i1: "ly_used_offset l + 2 + 2 \<le> ?e \<or> ?e + 4 \<le> ly_used_offset l + 2" "ly_used_offset l + 2 + 2 \<le> ?e + 4 \<or> ?e + 4 + 4 \<le> ly_used_offset l + 2"
      by simp_all
    show ?thesis
    proof (cases "k = length F")
      case True
      have "get_le 4 entry (put_le 4 (entry + 4) len (put_le 4 entry (hd (fst x)) m)) = hd (fst x)"
        using h L(8) by (subst get_put_other) (simp_all add: get_put_same)
      then show ?thesis unfolding get_put_other[OF i1(1)] get_put_other[OF i1(2)] using True e len by (simp add: get_put_same)
    next
      case False
      then have k: "k < length F" using that by simp
      have ne: "(c + k) mod n \<noteq> (c + length F) mod n" by (rule entries_differ[OF k room])
      have i2: "entry + 4 \<le> ?e \<or> ?e + 4 \<le> entry" "entry + 4 + 4 \<le> ?e \<or> ?e + 4 \<le> entry + 4"
        "entry + 4 \<le> ?e + 4 \<or> ?e + 4 + 4 \<le> entry" "entry + 4 + 4 \<le> ?e + 4 \<or> ?e + 4 + 4 \<le> entry + 4"
        unfolding e using ne by linarith+
      have "get_le 4 ?e ?m = get_le 4 ?e m" unfolding get_put_other[OF i1(1)] get_put_other[OF i2(2)] by (rule get_put_other[OF i2(1)])
      moreover have "get_le 4 (?e + 4) ?m = get_le 4 (?e + 4) m" unfolding get_put_other[OF i1(2)] get_put_other[OF i2(4)] by (rule get_put_other[OF i2(3)])
      ultimately show ?thesis using U k L(1) by (simp add: nth_append)
    qed
  qed
  show ?thesis unfolding used_ok_def using U idx get L(1) by (simp add: j inc_mod)
qed

lemma complete_ok:
  assumes at: "vq_at l w a W H F t c" and k: "k < length (vw_dev_held w)" and len: "len < 2 ^ 32"
  shows "vq_at l (dev_complete k len w) (a\<lparr>vs_held := take k (vs_held a) @ drop (k + 1) (vs_held a), vs_finished := vs_finished a @ [(vs_held a ! k, len)]\<rparr>)
    W (take k H @ drop (k + 1) H) (F @ [(H ! k, len)]) t c"
proof -
  note R = vq_atD[OF at]
  let ?q = "vw_queue w" let ?m = "sq_mem ?q" let ?X = "W @ H @ map fst F" let ?w = "dev_complete k len w"
  let ?Y = "W @ (take k H @ drop (k + 1) H) @ map fst (F @ [(H ! k, len)])"
  define n where "n = ly_queue_size l"
  have f: "for_size n = Some l" using R(2) n_def by simp
  note L = layout_facts[OF f] and P = pool_okD[OF R(3), folded n_def]
  have kH: "k < length H" using k R(7) by simp
  have held: "vw_dev_held w ! k = hd (fst (H ! k))" using R(7) kH by simp
  have inX: "H ! k \<in> set ?X" using kH by simp
  have same: "mset ?Y = mset ?X" using split_at[OF kH] by simp
  have lx: "live_ok ?q (H ! k)" by (rule R(4)[OF inX])
  then have hn: "hd (fst (H ! k)) < n" using P(5)[OF inX] by (simp add: live_ok_def)
  have lenF: "length F < n" using live_bounds[OF at] kH n_def by simp
  define entry where "entry = ly_used_offset l + 4 + vw_dev_used w mod n * 8"
  define m2 where "m2 = put_le 2 (ly_used_offset l + 2) (wrapping_inc16 (vw_dev_used w)) (put_le 4 (entry + 4) len (put_le 4 entry (hd (fst (H ! k))) ?m))"
  have q: "vw_queue ?w = ?q\<lparr>sq_mem := m2\<rparr>" "vw_dev_used ?w = wrapping_inc16 (vw_dev_used w)" "vw_dev_avail ?w = vw_dev_avail w"
    "vw_dev_held ?w = map (hd \<circ> fst) (take k H @ drop (k + 1) H)"
    unfolding dev_complete_def Let_def on_mem_def held m2_def entry_def R(1) n_def by (simp_all add: R(7) take_map drop_map)
  have low: "same_on 0 (18 * n + 4) m2 ?m" unfolding m2_def using L(4) entry_def
    by (intro same_on_trans[OF same_on_put same_on_trans[OF same_on_put same_on_put]]) auto
  then have low1: "same_on 0 (16 * n) m2 ?m" and low2: "same_on (16 * n) (18 * n + 4) m2 ?m" by (simp_all add: same_on_def)
  have lives: "live_ok (vw_queue ?w) x" if "x \<in> set ?Y" for x
  proof (rule live_ok_mem[OF f, of ?q])
    have x: "x \<in> set ?X" using that same_set[OF same] by blast
    show "\<forall>d\<in>set (fst x). d < n" "live_ok ?q x" using P(5)[OF x] R(4)[OF x] by blast+
  qed (use R(1) q low1 in simp_all)
  have av: "avail_ok l m2 (sq_next_avail ?q) (vw_dev_avail w) W t" by (rule avail_ok_mem[OF f low2 R(5)])
  have us: "used_ok l m2 (sq_next_used ?q) (wrapping_inc16 (vw_dev_used w)) (F @ [(H ! k, len)]) c"
    unfolding m2_def entry_def by (rule used_ok_put[OF f R(6) lenF hn len])
  have pool: "pool_ok n (vw_queue ?w) ?Y" 
    using R(3) unfolding pool_ok_def chains_perm[OF same] by (simp add: n_def q)
  show ?thesis unfolding vq_at_def
    using pool lives av us R(1,2,8-10) n_def kH by (simp add: q take_map drop_map)
qed

lemma quiet_ok:
  assumes at: "vq_at l w a W H F t c"
    and w: "vw_dev_avail w' = vw_dev_avail w" "vw_dev_used w' = vw_dev_used w" "vw_dev_held w' = vw_dev_held w"
    and q: "sq_layout (vw_queue w') = l" "sq_free_descs (vw_queue w') = sq_free_descs (vw_queue w)" "sq_num_free (vw_queue w') = sq_num_free (vw_queue w)"
      "sq_next_avail (vw_queue w') = sq_next_avail (vw_queue w)" "sq_next_used (vw_queue w') = sq_next_used (vw_queue w)"
      "sq_token_map (vw_queue w') = sq_token_map (vw_queue w)"
    and low: "same_on 0 (18 * ly_queue_size l + 4) (sq_mem (vw_queue w')) (sq_mem (vw_queue w))"
    and high: "same_on (ly_used_offset l + 2) (ly_used_offset l + 4 + 8 * ly_queue_size l) (sq_mem (vw_queue w')) (sq_mem (vw_queue w))"
  shows "vq_at l w' a W H F t c"
proof -
  note R = vq_atD[OF at]
  define n where "n = ly_queue_size l"
  have f: "for_size n = Some l" using R(2) n_def by simp
  have low1: "same_on 0 (16 * n) (sq_mem (vw_queue w')) (sq_mem (vw_queue w))" "same_on (16 * n) (18 * n + 4) (sq_mem (vw_queue w')) (sq_mem (vw_queue w))"
    using low by (simp_all add: same_on_def n_def)
  have lives: "live_ok (vw_queue w') x" if x: "x \<in> set (W @ H @ map fst F)" for x
    using pool_okD(5)[OF R(3) x, folded n_def] by (intro live_ok_mem[OF f R(1) q(1) _ low1(1) q(6) R(4)[OF x]]) blast
  show ?thesis unfolding vq_at_def w q
    using R avail_ok_mem[OF f low1(2) R(5)] used_ok_mem[OF f high[folded n_def] R(6)] lives by (simp add: pool_ok_def q)
qed

lemma signal_ok:
  assumes at: "vq_at l w a W H F t c" shows "vq_at l (dev_signal flags event w) a W H F t c"
proof (rule quiet_ok[OF at])
  note R = vq_atD[OF at]
  note L = layout_facts[OF R(2)]
  have q: "sq_mem (vw_queue (dev_signal flags event w)) = put_le 2 (ly_used_offset l + 4 + ly_queue_size l * 8) event (put_le 2 (ly_used_offset l) flags (sq_mem (vw_queue w)))"
    by (simp add: dev_signal_def on_mem_def Let_def R(1))
  show "same_on 0 (18 * ly_queue_size l + 4) (sq_mem (vw_queue (dev_signal flags event w))) (sq_mem (vw_queue w))"
    "same_on (ly_used_offset l + 2) (ly_used_offset l + 4 + 8 * ly_queue_size l) (sq_mem (vw_queue (dev_signal flags event w))) (sq_mem (vw_queue w))"
    unfolding q using L(4) by (intro same_on_trans[OF same_on_put same_on_put]; simp)+
qed (use vq_atD(1)[OF at] in \<open>simp_all add: dev_signal_def on_mem_def Let_def\<close>)

lemma event_ok:
  assumes at: "vq_at l w a W H F t c" shows "vq_at l (w\<lparr>vw_queue := set_used_event v (vw_queue w)\<rparr>) a W H F t c"
proof (rule quiet_ok[OF at])
  note R = vq_atD[OF at]
  note L = layout_facts[OF R(2)]
  have q: "sq_mem (set_used_event v (vw_queue w)) = put_le 2 (ly_avail_offset l + 4 + ly_queue_size l * 2) v (sq_mem (vw_queue w))"
    by (simp add: set_used_event_def R(1))
  show "same_on 0 (18 * ly_queue_size l + 4) (sq_mem (vw_queue (w\<lparr>vw_queue := set_used_event v (vw_queue w)\<rparr>))) (sq_mem (vw_queue w))"
    "same_on (ly_used_offset l + 2) (ly_used_offset l + 4 + 8 * ly_queue_size l) (sq_mem (vw_queue (w\<lparr>vw_queue := set_used_event v (vw_queue w)\<rparr>))) (sq_mem (vw_queue w))"
    using L(3,4) by (simp_all add: q same_on_put)
qed (use vq_atD(1)[OF at] in \<open>simp_all add: set_used_event_def\<close>)

lemma mode_ok:
  assumes at: "vq_at l w a W H F t c"
  shows "vq_at l (w\<lparr>vw_queue := set_event_idx_enabled b (vw_queue w)\<rparr>) a W H F t c"
    "vq_at l (w\<lparr>vw_queue := snd (should_notify (vw_queue w))\<rparr>) a W H F t c"
  by (rule quiet_ok[OF at]; use vq_atD(1)[OF at] in \<open>simp add: set_event_idx_enabled_def should_notify_def Let_def same_on_refl\<close>)+
subsection \<open>The simulation\<close>

lemma get_zero: "(\<And>x. a \<le> x \<Longrightarrow> x < a + k \<Longrightarrow> m x = 0) \<Longrightarrow> get_le k a m = 0"
proof -
  assume "\<And>x. a \<le> x \<Longrightarrow> x < a + k \<Longrightarrow> m x = 0"
  then have "map (\<lambda>i. m (a + i)) [0..<k] = replicate k 0" by (intro nth_equalityI) auto
  moreover have "le_bytes (replicate k 0) = 0" for k by (induction k) simp_all
  ultimately show ?thesis by (simp only: get_le_def)
qed

lemma start_ok:
  assumes f: "for_size n = Some l" and q: "split_queue_new l r = Some q"
  shows "vq_at l \<lparr>vw_queue = q, vw_dev_avail = 0, vw_dev_used = 0, vw_dev_held = []\<rparr> spec_init [] [] [] 0 0"
proof -
  note L = layout_facts[OF f]
  have big: "ly_total_size l \<le> rm_len r" and q': "q = \<lparr>sq_layout = l, sq_mem = (\<lambda>x. if x < rm_len r then 0 else rm_bytes r x), sq_phys = rm_phys r,
      sq_len = rm_len r, sq_free_descs = [0..<n], sq_num_free = n, sq_next_avail = 0, sq_next_used = 0,
      sq_last_notify_idx = 0, sq_event_idx_enabled = False, sq_token_map = replicate n 0\<rparr>"
    using q L(1) by (auto simp: split_queue_new_def split: if_splits)
  have "get_le 2 (ly_avail_offset l + 2) (sq_mem q) = 0" "get_le 2 (ly_used_offset l + 2) (sq_mem q) = 0"
    using big L(3,4,6) by (intro get_zero; simp add: q')+
  then show ?thesis unfolding vq_at_def using f L(1) by (simp add: q' pool_ok_def avail_ok_def used_ok_def spec_init_def)
qed

lemma vq_step_ok:
  assumes at: "vq_at l w a W H F t c" and step: "vq_step w x w'"
  shows "\<exists>b. spec_step (ly_queue_size l) a x b \<and> vq_rel l w' b"
  using step
proof cases
  case (vq_add bs token q)
  have ne: "bs \<noteq> []" using vq_add(4) add_rejects(1)[OF at] by auto
  then have room: "length bs \<le> sq_num_free (vw_queue w)" using vq_add(4) add_rejects(2)[OF at, of bs token] by (auto simp: not_less[symmetric])
  obtain q' ds where q': "add_buffers bs token (vw_queue w) = Inr (Inr (), q')"
    "vq_at l (w\<lparr>vw_queue := q'\<rparr>) (a\<lparr>vs_waiting := vs_waiting a @ [(token, bs)]\<rparr>) (W @ [(ds, token, bs)]) H F t c"
    by (rule add_accepts[OF at ne vq_add(3) room])
  have "spec_step (ly_queue_size l) a (Added bs token) (a\<lparr>vs_waiting := vs_waiting a @ [(token, bs)]\<rparr>)"
    using vq_used[OF at] room by (intro spec_added[OF ne]) linarith
  moreover have "w' = w\<lparr>vw_queue := q'\<rparr>" using q'(1) vq_add(2,4) by simp
  then have "vq_rel l w' (a\<lparr>vs_waiting := vs_waiting a @ [(token, bs)]\<rparr>)" using q'(2) unfolding vq_rel_def by blast
  ultimately show ?thesis using vq_add(1) by blast
next
  case (vq_refuse bs token e q)
  have rel: "vq_rel l w a" using at unfolding vq_rel_def by blast
  show ?thesis
  proof (cases "bs = []")
    case True
    then have "e = EmptyBuffers" "q = vw_queue w" using vq_refuse(4) add_rejects(1)[OF at] by auto
    then show ?thesis using vq_refuse(1,2) True rel spec_empty[of "ly_queue_size l" a] by auto
  next
    case ne: False
    have full: "sq_num_free (vw_queue w) < length bs"
    proof (rule ccontr)
      assume "\<not> sq_num_free (vw_queue w) < length bs"
      then have "length bs \<le> sq_num_free (vw_queue w)" by simp
      from add_accepts[OF at ne vq_refuse(3) this, of token] show False using vq_refuse(4) by (metis Inl_Inr_False Inr_inject prod.inject)
    qed
    then have "e = QueueFull" "q = vw_queue w" using vq_refuse(4) add_rejects(2)[OF at ne full] by auto
    moreover have "spec_step (ly_queue_size l) a (Refused bs QueueFull) a" using full vq_used[OF at] by (intro spec_full[OF ne]) linarith
    ultimately show ?thesis using vq_refuse(1,2) rel by auto
  qed
next
  case (vq_pop r q)
  show ?thesis
  proof (cases F)
    case Nil
    then have "r = None" "q = vw_queue w" using vq_pop(3) pop_nothing[of l w a W H t c] at by auto
    moreover have "spec_step (ly_queue_size l) a (Popped None) a" using vq_atD(10)[OF at] Nil by (intro spec_none) simp
    moreover have "vq_rel l w a" using at unfolding vq_rel_def by blast
    ultimately show ?thesis using vq_pop(1,2) by auto
  next
    case (Cons y G)
    obtain x len where y: "y = (x, len)" by (cases y)
    let ?b = "a\<lparr>vs_finished := map (\<lambda>(x, len). (snd x, len)) G\<rparr>"
    have at': "vq_at l w a W H ((x, len) # G) t c" using at Cons y by simp
    obtain q' where q': "pop_used (vw_queue w) = Inr (Some (fst (snd x), len), q')" "vq_at l (w\<lparr>vw_queue := q'\<rparr>) ?b W H G t (c + 1)"
      by (rule pop_something[OF at'])
    have "spec_step (ly_queue_size l) a (Popped (Some (fst (snd x), len))) ?b"
      using vq_atD(10)[OF at'] by (intro spec_popped) simp
    moreover have "w' = w\<lparr>vw_queue := q'\<rparr>" using q'(1) vq_pop(2,3) by simp
    then have "vq_rel l w' ?b" using q'(2) unfolding vq_rel_def by blast
    ultimately show ?thesis using vq_pop(1,3) q'(1) by auto
  qed
next
  case (vq_take bs)
  show ?thesis
  proof (cases W)
    case Nil
    then show ?thesis using vq_take(2) take_nothing[of l w a H F t c] at by simp
  next
    case (Cons x V)
    let ?b = "a\<lparr>vs_waiting := map snd V, vs_held := vs_held a @ [snd x]\<rparr>"
    have at': "vq_at l w a (x # V) H F t c" using at Cons by simp
    obtain w1 where w1: "dev_take w = Some (snd (snd x), w1)" "vq_at l w1 ?b V (H @ [x]) F (t + 1) c"
      by (rule take_something[OF at'])
    have "spec_step (ly_queue_size l) a (Taken (snd (snd x))) ?b" using vq_atD(8)[OF at'] by (intro spec_taken) simp
    moreover have "w' = w1" using w1(1) vq_take(2) by simp
    then have "vq_rel l w' ?b" using w1(2) unfolding vq_rel_def by blast
    ultimately show ?thesis using vq_take(1,2) w1(1) by auto
  qed
next
  case (vq_complete k len)
  let ?b = "a\<lparr>vs_held := take k (vs_held a) @ drop (k + 1) (vs_held a), vs_finished := vs_finished a @ [(vs_held a ! k, len)]\<rparr>"
  have "k < length (vs_held a)" using vq_complete(3) vq_atD(7,9)[OF at] by simp
  then have "spec_step (ly_queue_size l) a (Completed k len) ?b" by (rule spec_completed)
  moreover have "vq_rel l w' ?b" using complete_ok[OF at vq_complete(3,4)] vq_complete(2) unfolding vq_rel_def by blast
  ultimately show ?thesis using vq_complete(1) by blast
next
  case (vq_signal flags event)
  then show ?thesis using signal_ok[OF at] spec_quiet unfolding vq_rel_def by blast
next
  case (vq_event v)
  then show ?thesis using event_ok[OF at] spec_quiet unfolding vq_rel_def by blast
next
  case (vq_mode b)
  then show ?thesis using mode_ok(1)[OF at] spec_quiet unfolding vq_rel_def by blast
next
  case (vq_notify b q)
  then have "w' = w\<lparr>vw_queue := snd (should_notify (vw_queue w))\<rparr>" by simp
  then show ?thesis using mode_ok(2)[OF at] spec_quiet vq_notify(1) unfolding vq_rel_def by blast
qed

lemma vq_exec_ok:
  assumes f: "for_size n = Some l" and x: "vq_exec l r ls w"
  shows "\<exists>a. spec_exec n ls a \<and> vq_rel l w a"
  using x
proof induction
  case (vq_start q)
  then show ?case using start_ok[OF f vq_start] spec_start unfolding vq_rel_def by blast
next
  case (vq_next ls w x w')
  obtain a W H F t c where a: "spec_exec n ls a" "vq_at l w a W H F t c" using vq_next.IH unfolding vq_rel_def by blast
  have "ly_queue_size l = n" by (rule layout_facts(1)[OF f])
  then show ?case using vq_step_ok[OF a(2) vq_next.hyps(2)] spec_next[OF a(1)] by auto
qed

lemma vq_exec_at:
  assumes f: "for_size n = Some l" and x: "vq_exec l r ls w"
  obtains a W H F t c where "spec_exec n ls a" "vq_at l w a W H F t c"
  using vq_exec_ok[OF f x] unfolding vq_rel_def by blast
subsection \<open>What a run does to requests\<close>

definition added_of :: "vq_label list \<Rightarrow> request list" where
  "added_of ls = concat (map (\<lambda>x. case x of Added bs token \<Rightarrow> [(token, bs)] | _ \<Rightarrow> []) ls)"

definition taken_of :: "vq_label list \<Rightarrow> buffer list list" where
  "taken_of ls = concat (map (\<lambda>x. case x of Taken bs \<Rightarrow> [bs] | _ \<Rightarrow> []) ls)"

definition completed_of :: "vq_label list \<Rightarrow> nat list" where
  "completed_of ls = concat (map (\<lambda>x. case x of Completed k len \<Rightarrow> [len] | _ \<Rightarrow> []) ls)"

definition popped_of :: "vq_label list \<Rightarrow> (nat \<times> nat) list" where
  "popped_of ls = concat (map (\<lambda>x. case x of Popped (Some r) \<Rightarrow> [r] | _ \<Rightarrow> []) ls)"

lemmas traces = added_of_def taken_of_def completed_of_def popped_of_def

lemma spec_trace:
  "spec_exec n ls a \<Longrightarrow> map snd (added_of ls) = taken_of ls @ map snd (vs_waiting a)
     \<and> mset (map fst (added_of ls)) = mset (map fst (popped_of ls)) + mset (map fst (vs_all a))
     \<and> completed_of ls = map snd (popped_of ls) @ map snd (vs_finished a)"
proof (induction rule: spec_exec.induct)
  case spec_start
  then show ?case by (simp add: traces spec_init_def vs_all_def)
next
  case (spec_next ls a x b)
  from spec_next.hyps(2) spec_next.IH show ?case
  proof cases
    case (spec_completed k len)
    have "mset (map fst (vs_held a)) = mset (map fst (take k (vs_held a) @ drop (k + 1) (vs_held a))) + {#fst (vs_held a ! k)#}"
      using split_at[OF spec_completed(3)] by (metis mset_map image_mset_union image_mset_single)
    then show ?thesis using spec_next.IH spec_completed(1,2) by (simp add: traces vs_all_def)
  qed (auto simp: traces vs_all_def)
qed

subsection \<open>Layout and set-up\<close>

lemma wrapping_sub16_plus: "a < 65536 \<Longrightarrow> b < 65536 \<Longrightarrow> (b + wrapping_sub16 a b) mod 65536 = a"
  by (simp add: wrapping_sub16_def mod_simps)

lemma wrapping_sub16_less: "wrapping_sub16 a b < 65536"
  by (simp add: wrapping_sub16_def)

text \<open>\<open>event\<close> is passed when it is one of the indices from \<open>old\<close> to \<open>new\<close>.\<close>

lemma event_passed:
  assumes "new < 65536" "old < 65536" "event < 65536"
  shows "wrapping_sub16 (wrapping_sub16 new event) 1 < wrapping_sub16 new old \<longleftrightarrow> (\<exists>j<wrapping_sub16 new old. event = (old + j) mod 65536)"
proof -
  have sub: "wrapping_sub16 a b = (if b \<le> a then a - b else a + 65536 - b)" if "a < 65536" "b < 65536" for a b
    using that by (auto simp: wrapping_sub16_def mod_if)
  have no: "wrapping_sub16 new old = (if old \<le> new then new - old else new + 65536 - old)" by (rule sub) (use assms in auto)
  have ne: "wrapping_sub16 new event = (if event \<le> new then new - event else new + 65536 - event)" by (rule sub) (use assms in auto)
  have eo: "wrapping_sub16 event old = (if old \<le> event then event - old else event + 65536 - old)" by (rule sub) (use assms in auto)
  have n1: "wrapping_sub16 (wrapping_sub16 new event) 1 = (if 1 \<le> wrapping_sub16 new event then wrapping_sub16 new event - 1 else wrapping_sub16 new event + 65535)"
    using sub[OF wrapping_sub16_less, of 1 new event] by simp
  have ex: "(\<exists>j<wrapping_sub16 new old. event = (old + j) mod 65536) \<longleftrightarrow> wrapping_sub16 event old < wrapping_sub16 new old"
  proof
    assume "\<exists>j<wrapping_sub16 new old. event = (old + j) mod 65536"
    then obtain j where j: "j < wrapping_sub16 new old" "event = (old + j) mod 65536" by blast
    have "j < 65536" using j(1) wrapping_sub16_less[of new old] by linarith
    then have "wrapping_sub16 event old = j"
      using sub[OF assms(3,2)] j(2) assms(2) by (cases "old + j < 65536") (auto simp: mod_if)
    then show "wrapping_sub16 event old < wrapping_sub16 new old" using j(1) by simp
  next
    assume "wrapping_sub16 event old < wrapping_sub16 new old"
    then show "\<exists>j<wrapping_sub16 new old. event = (old + j) mod 65536" using wrapping_sub16_plus[OF assms(3,2)] by metis
  qed
  have "wrapping_sub16 (wrapping_sub16 new event) 1 < wrapping_sub16 new old \<longleftrightarrow> wrapping_sub16 event old < wrapping_sub16 new old"
  proof (cases "event \<le> new")
    case True
    then show ?thesis using assms unfolding n1 unfolding no ne eo by (cases "old \<le> new"; cases "old \<le> event"; cases "event = new") auto
  next
    case False
    then show ?thesis using assms unfolding n1 unfolding no ne eo by (cases "old \<le> new"; cases "old \<le> event") auto
  qed
  then show ?thesis unfolding ex .
qed

text \<open>Doubling from a power of two reaches any size up to \<open>32768\<close> and falls to \<open>0\<close> beyond, where it stays.\<close>

lemma round_up_ok: "j \<le> 15 \<Longrightarrow> size0 \<le> 32768 \<Longrightarrow> \<forall>i<j. 2 ^ i < size0 \<Longrightarrow>
  \<exists>k\<le>15. round_up_loop size0 (2 ^ j) = Some (2 ^ k) \<and> size0 \<le> 2 ^ k \<and> (\<forall>i<k. 2 ^ i < size0)"
proof (induction "15 - j" arbitrary: j)
  case 0
  then have "j = 15" by simp
  then show ?case using 0(3,4) by (intro exI[of _ 15]) (simp add: round_up_loop.simps[of size0 32768])
next
  case (Suc d)
  show ?case
  proof (cases "2 ^ j < size0")
    case True
    have j: "d = 15 - (j + 1)" "j + 1 \<le> 15" using Suc(2) by auto
    have "(2::nat) ^ (j + 1) \<le> 2 ^ 15" using j(2) by (intro power_increasing) auto
    then have "round_up_loop size0 (2 ^ j) = round_up_loop size0 (2 ^ (j + 1))"
      using True by (subst round_up_loop.simps) (simp add: mult.commute)
    moreover have "\<forall>i<j + 1. 2 ^ i < size0" using Suc(5) True less_Suc_eq by auto
    ultimately show ?thesis using Suc(1)[OF j(1,2) Suc(4)] by simp
  next
    case False
    then show ?thesis using Suc(3,5) by (intro exI[of _ j]) (auto simp: round_up_loop.simps[of size0 "2 ^ j"])
  qed
qed

lemma round_up_zero: "0 < size0 \<Longrightarrow> round_up_loop size0 0 = None"
proof -
  assume p: "0 < size0"
  have "0 < s \<longrightarrow> r \<noteq> 0" if "round_up_loop s r = Some y" for s r y
  proof (rule round_up_loop.raw_induct[where P = "\<lambda>s r y. 0 < s \<longrightarrow> r \<noteq> 0", OF _ that], goal_cases)
    case (1 loop s r y)
    then show ?case using 1(1)[of s 0 y] by (cases "r = 0"; cases "s = 0") auto
  qed
  then show ?thesis using p by (cases "round_up_loop size0 0") auto
qed

lemma round_up_big: "j \<le> 15 \<Longrightarrow> 32768 < size0 \<Longrightarrow> round_up_loop size0 (2 ^ j) = None"
proof (induction "15 - j" arbitrary: j)
  case 0
  then show ?case using round_up_zero[of size0] by (subst round_up_loop.simps) simp
next
  case (Suc d)
  have j: "d = 15 - (j + 1)" "j + 1 \<le> 15" using Suc(2) by auto
  have "(2::nat) ^ (j + 1) \<le> 2 ^ 15" using j(2) by (intro power_increasing) auto
  then have "round_up_loop size0 (2 ^ j) = round_up_loop size0 (2 ^ (j + 1))"
    using Suc(4) by (subst round_up_loop.simps) (simp add: mult.commute)
  then show ?case using Suc(1)[OF j Suc(4)] by simp
qed

end
