(* ===== verification/Virtio_Props.thy ===== *)
theory Virtio_Props
  imports Virtio_Queue "HOL-Library.Sublist"
begin

text \<open>
  What holds of a virtqueue in every run against a device that follows the standard, what happens with one that does not,
  and the set-up of queues.
\<close>

subsection \<open>A run on which the properties are tried\<close>

definition sample_layout :: layout where
  "sample_layout = \<lparr>ly_desc_offset = 0, ly_avail_offset = 64, ly_used_offset = 80, ly_total_size = 118, ly_queue_size = 4\<rparr>"

definition sample_ring :: ring_memory where
  "sample_ring = \<lparr>rm_bytes = (\<lambda>_. 255), rm_phys = 4096, rm_len = 118\<rparr>"

definition sample_buffers :: "buffer list" where
  "sample_buffers = [\<lparr>bf_addr = 8192, bf_len = 16, bf_device_writes = False\<rparr>, \<lparr>bf_addr = 12288, bf_len = 512, bf_device_writes = True\<rparr>]"

definition sample_labels :: "vq_label list" where
  "sample_labels = [Added sample_buffers 7, Taken sample_buffers, Completed 0 512, Popped (Some (7, 512))]"

lemma sample_for_size: "for_size 4 = Some sample_layout"
proof -
  have "\<exists>k\<le>15. (4::nat) = 2 ^ k" by (intro exI[of _ 2]) simp
  then show ?thesis unfolding for_size_iff by (simp add: sample_layout_def)
qed

lemma sample_run: obtains w where "vq_exec sample_layout sample_ring sample_labels w"
proof -
  let ?l = sample_layout and ?b = sample_buffers
  obtain q where q: "split_queue_new ?l sample_ring = Some q" "sq_num_free q = 4"
    by (simp add: split_queue_new_def sample_layout_def sample_ring_def)
  let ?w = "\<lparr>vw_queue = q, vw_dev_avail = 0, vw_dev_used = 0, vw_dev_held = []\<rparr>"
  have at0: "vq_at ?l ?w spec_init [] [] [] 0 0" by (rule start_ok[OF sample_for_size q(1)])
  have e0: "vq_exec ?l sample_ring [] ?w" by (rule vq_start[OF q(1)])
  have b: "?b \<noteq> []" "buffers_ok ?b" "length ?b \<le> sq_num_free (vw_queue ?w)"
    using q(2) by (simp_all add: sample_buffers_def buffers_ok_def)
  obtain q1 ds where q1: "add_buffers ?b 7 (vw_queue ?w) = Inr (Inr (), q1)"
    "vq_at ?l (?w\<lparr>vw_queue := q1\<rparr>) (spec_init\<lparr>vs_waiting := vs_waiting spec_init @ [(7::nat, ?b)]\<rparr>) ([] @ [(ds, 7::nat, ?b)]) [] [] 0 0"
    by (rule add_accepts[OF at0 b])
  let ?w1 = "?w\<lparr>vw_queue := q1\<rparr>" let ?a1 = "spec_init\<lparr>vs_waiting := vs_waiting spec_init @ [(7::nat, ?b)]\<rparr>"
  have e1: "vq_exec ?l sample_ring ([] @ [Added ?b 7]) ?w1" by (rule vq_next[OF e0 vq_add[OF b(2) q1(1)]])
  have at1: "vq_at ?l ?w1 ?a1 [(ds, 7::nat, ?b)] [] [] 0 0" using q1(2) by simp
  have "\<exists>w2 a2. dev_take ?w1 = Some (?b, w2) \<and> vq_at ?l w2 a2 [] [(ds, 7, ?b)] [] 1 0"
    by (rule take_something[OF at1]) force
  then obtain w2 a2 where w2: "dev_take ?w1 = Some (?b, w2)" and at2: "vq_at ?l w2 a2 [] [(ds, 7, ?b)] [] 1 0" by blast
  have e2: "vq_exec ?l sample_ring (([] @ [Added ?b 7]) @ [Taken ?b]) w2" by (rule vq_next[OF e1 vq_take[OF w2]])
  have k: "0 < length (vw_dev_held w2)" "(512::nat) < 2 ^ 32" using vq_atD(7)[OF at2] by simp_all
  let ?w3 = "dev_complete 0 512 w2"
  have e3: "vq_exec ?l sample_ring ((([] @ [Added ?b 7]) @ [Taken ?b]) @ [Completed 0 512]) ?w3"
    by (rule vq_next[OF e2 vq_complete[OF k]])
  have "\<exists>a. vq_at ?l ?w3 a [] [] [((ds, 7::nat, ?b), 512)] 1 0" using complete_ok[OF at2 k] by auto
  then obtain a3 where at3: "vq_at ?l ?w3 a3 [] [] [((ds, 7::nat, ?b), 512)] 1 0" by blast
  obtain q4 where q4: "pop_used (vw_queue ?w3) = Inr (Some (fst (snd (ds, 7::nat, ?b)), 512), q4)" by (rule pop_something[OF at3])
  have "vq_exec ?l sample_ring (((([] @ [Added ?b 7]) @ [Taken ?b]) @ [Completed 0 512]) @ [Popped (Some (7, 512))]) (?w3\<lparr>vw_queue := q4\<rparr>)"
    using q4 by (intro vq_next[OF e3 vq_pop]) simp
  then show thesis by (intro that) (simp add: sample_labels_def)
qed

subsection \<open>Refinement\<close>

text \<open>
  C12. A virtqueue and a device that follows the standard implement a queue of requests: whatever the order of the driver's
  calls and the device's actions, the run is one of the specification, in which a request waits, is held by the device and
  is finished, an addition is refused exactly when the descriptors of all live requests leave no room for it, and the free
  descriptors are those no live request uses.
\<close>

theorem virtqueue_refines:
  assumes "for_size n = Some l" "vq_exec l r ls w"
  shows "\<exists>a. spec_exec n ls a \<and> vq_rel l w a \<and> free_descriptors (vw_queue w) + vs_used a = n"
proof -
  obtain a W H F t c where a: "spec_exec n ls a" "vq_at l w a W H F t c" by (rule vq_exec_at[OF assms])
  then have "vq_rel l w a" unfolding vq_rel_def by blast
  then show ?thesis using a(1) vq_used[OF a(2)] layout_facts(1)[OF assms(1)] by (auto simp: free_descriptors_def)
qed

theorem virtqueue_refines_witness:
  "\<exists>w a. vq_exec sample_layout sample_ring sample_labels w \<and> spec_exec 4 sample_labels a \<and> free_descriptors (vw_queue w) + vs_used a = 4"
proof -
  obtain w where "vq_exec sample_layout sample_ring sample_labels w" by (rule sample_run)
  then show ?thesis using virtqueue_refines[OF sample_for_size] by blast
qed

text \<open>
  C13. Nothing is lost, invented or mixed up between driver and device: the device reads exactly the buffers that were added,
  in the order they were added; every token handed back was added, and no more often than it was added; and the lengths
  handed back are those the device wrote, in its order.
\<close>

theorem virtqueue_delivers:
  assumes "for_size n = Some l" "vq_exec l r ls w"
  shows "prefix (taken_of ls) (map snd (added_of ls)) \<and> mset (map fst (popped_of ls)) \<subseteq># mset (map fst (added_of ls))
    \<and> prefix (map snd (popped_of ls)) (completed_of ls)"
proof -
  obtain a W H F t c where a: "spec_exec n ls a" by (rule vq_exec_at[OF assms])
  show ?thesis using spec_trace[OF a] by simp
qed

theorem virtqueue_delivers_witness:
  "prefix (taken_of sample_labels) (map snd (added_of sample_labels)) \<and> popped_of sample_labels = [(7, 512)]"
proof -
  obtain w where "vq_exec sample_layout sample_ring sample_labels w" by (rule sample_run)
  then show ?thesis using virtqueue_delivers[OF sample_for_size, of sample_ring sample_labels w] by (simp add: popped_of_def sample_labels_def)
qed

text \<open>
  C14. With such a device no call of the driver panics: an empty addition and one without room leave the queue as it is, any
  other takes as many descriptors as it has buffers and writes only inside the ring memory, and taking a used entry returns.
\<close>

theorem virtqueue_calls_return:
  assumes "for_size n = Some l" "vq_exec l r ls w" "buffers_ok bs"
  shows "(if bs = [] then add_buffers bs token (vw_queue w) = Inr (Inl EmptyBuffers, vw_queue w)
      else if sq_num_free (vw_queue w) < length bs then add_buffers bs token (vw_queue w) = Inr (Inl QueueFull, vw_queue w)
      else \<exists>q. add_buffers bs token (vw_queue w) = Inr (Inr (), q) \<and> sq_num_free q + length bs = sq_num_free (vw_queue w)
        \<and> (\<forall>x. x < ly_total_size l \<or> sq_mem q x = sq_mem (vw_queue w) x))
    \<and> (\<exists>res q. pop_used (vw_queue w) = Inr (res, q))"
proof -
  obtain a W H F t c where a: "vq_at l w a W H F t c" by (rule vq_exec_at[OF assms(1,2)])
  have "\<exists>q. add_buffers bs token (vw_queue w) = Inr (Inr (), q) \<and> sq_num_free q + length bs = sq_num_free (vw_queue w)
        \<and> (\<forall>x. x < ly_total_size l \<or> sq_mem q x = sq_mem (vw_queue w) x)" if b: "bs \<noteq> []" "length bs \<le> sq_num_free (vw_queue w)"
  proof (rule add_accepts[OF a b(1) assms(3) b(2), of token])
    fix q ds
    assume q: "add_buffers bs token (vw_queue w) = Inr (Inr (), q)" "sq_num_free q = sq_num_free (vw_queue w) - length bs"
      "\<And>x. ly_total_size l \<le> x \<Longrightarrow> sq_mem q x = sq_mem (vw_queue w) x"
    then show ?thesis using b(2) by (metis le_add_diff_inverse2 not_less)
  qed
  moreover have "\<exists>res q. pop_used (vw_queue w) = Inr (res, q)"
  proof (cases F)
    case Nil
    then show ?thesis using pop_nothing[of l w a W H t c] a by auto
  next
    case (Cons y G)
    then show ?thesis using pop_something[of l w a W H "fst y" "snd y" G t c] a by (metis prod.collapse)
  qed
  ultimately show ?thesis using add_rejects[OF a, of bs token] by (simp add: not_less)
qed

theorem virtqueue_calls_return_witness:
  "\<exists>w res q. vq_exec sample_layout sample_ring sample_labels w \<and> pop_used (vw_queue w) = Inr (res, q)"
proof -
  obtain w where w: "vq_exec sample_layout sample_ring sample_labels w" by (rule sample_run)
  have "buffers_ok sample_buffers" by (simp add: sample_buffers_def buffers_ok_def)
  then show ?thesis using virtqueue_calls_return[OF sample_for_size w] w by blast
qed

subsection \<open>A device that does not follow the standard\<close>

text \<open>
  C15. A device can bring the kernel down: with whatever it leaves in the ring memory, a used entry whose id, cut to its low
  sixteen bits as the driver cuts it, is not the number of a descriptor, or any used entry at all while no request is live,
  makes the driver panic when it takes the entry.
\<close>

theorem spurious_completion_panics:
  assumes "for_size n = Some l" "vq_exec l r ls w" "get_le 2 (ly_used_offset l + 2) m \<noteq> sq_next_used (vw_queue w)"
    "n \<le> get_le 4 (ly_used_offset l + 4 + sq_next_used (vw_queue w) mod n * 8) m mod 65536 \<or> sq_num_free (vw_queue w) = n"
  shows "pop_used ((vw_queue w)\<lparr>sq_mem := m\<rparr>) = Inl Index_bounds"
proof -
  obtain a W H F t c where a: "vq_at l w a W H F t c" by (rule vq_exec_at[OF assms(1,2)])
  note R = vq_atD[OF a] and L = layout_facts[OF assms(1)]
  have P: "length (sq_free_descs (vw_queue w)) = n" "length (sq_token_map (vw_queue w)) = n" using pool_okD(1,3)[OF R(3)] L(1) by simp_all
  show ?thesis
  proof (cases "n \<le> get_le 4 (ly_used_offset l + 4 + sq_next_used (vw_queue w) mod n * 8) m mod 65536")
    case True
    then show ?thesis using assms(3) R(1) L(1,7) P by (simp add: pop_used_def used_entry_def Let_def index_at_def)
  next
    case False
    then have "sq_num_free (vw_queue w) = n" using assms(4) by blast
    then show ?thesis using assms(3) R(1) L(1,7) P False
      by (simp add: pop_used_def used_entry_def Let_def index_at_def return_descriptor_chain_def)
  qed
qed

theorem spurious_completion_panics_witness:
  "\<exists>w. vq_exec sample_layout sample_ring [] w \<and> pop_used ((vw_queue w)\<lparr>sq_mem := put_le 2 82 1 (\<lambda>_. 0)\<rparr>) = Inl Index_bounds"
proof -
  obtain q where q: "split_queue_new sample_layout sample_ring = Some q" "sq_num_free q = 4" "sq_next_used q = 0"
    by (simp add: split_queue_new_def sample_layout_def sample_ring_def)
  let ?w = "\<lparr>vw_queue = q, vw_dev_avail = 0, vw_dev_used = 0, vw_dev_held = []\<rparr>"
  have w: "vq_exec sample_layout sample_ring [] ?w" by (rule vq_start[OF q(1)])
  have "get_le 2 82 (put_le 2 82 1 (\<lambda>_. 0)) = 1" by (rule get_put_same) simp
  then have "get_le 2 (ly_used_offset sample_layout + 2) (put_le 2 82 1 (\<lambda>_. 0)) \<noteq> sq_next_used (vw_queue ?w)"
    using q(3) by (simp add: sample_layout_def)
  from spurious_completion_panics[OF sample_for_size w this] show ?thesis using q(2) w by auto
qed

subsection \<open>Layout, notification and set-up\<close>

text \<open>
  C16. A layout is computed for the powers of two up to \<open>32768\<close> and for nothing else; its three parts follow one another
  without overlapping, each field of each entry lies inside its part, and the parts are aligned as the standard demands.
\<close>

theorem layout_sound:
  "(for_size n = None \<longleftrightarrow> \<not> (\<exists>k\<le>15. n = 2 ^ k))
   \<and> (for_size n = Some l \<longrightarrow> (\<forall>d<n. descriptor_offset l d + 16 \<le> ly_avail_offset l)
     \<and> (\<forall>i. \<exists>e. avail_entry l i = Inr e \<and> ly_avail_offset l + 4 \<le> e \<and> e + 2 \<le> ly_avail_offset l + 4 + 2 * n)
     \<and> ly_avail_offset l + 6 + 2 * n \<le> ly_used_offset l
     \<and> (\<forall>i. \<exists>e. used_entry l i = Inr e \<and> ly_used_offset l + 4 \<le> e \<and> e + 8 \<le> ly_used_offset l + 4 + 8 * n)
     \<and> ly_used_offset l + 6 + 8 * n = ly_total_size l
     \<and> ly_desc_offset l mod 16 = 0 \<and> ly_avail_offset l mod 2 = 0 \<and> ly_used_offset l mod 4 = 0)"
proof (intro conjI[of _ "_ \<longrightarrow> _"] impI)
  have "for_size n \<noteq> None \<longleftrightarrow> (\<exists>k\<le>15. n = 2 ^ k)"
  proof
    assume "\<exists>k\<le>15. n = 2 ^ k"
    then have "for_size n = Some \<lparr>ly_desc_offset = 0, ly_avail_offset = 16 * n, ly_used_offset = 18 * n + 9 - (18 * n + 9) mod 4,
        ly_total_size = 18 * n + 9 - (18 * n + 9) mod 4 + 6 + 8 * n, ly_queue_size = n\<rparr>"
      unfolding for_size_iff by simp
    then show "for_size n \<noteq> None" by simp
  qed (auto simp: for_size_iff)
  then show "for_size n = None \<longleftrightarrow> \<not> (\<exists>k\<le>15. n = 2 ^ k)" by blast
next
  assume "for_size n = Some l"
  note L = layout_facts[OF this]
  have "descriptor_offset l d + 16 \<le> ly_avail_offset l" if "d < n" for d using that L(2,3) by (simp add: descriptor_offset_def)
  moreover have "\<exists>e. avail_entry l i = Inr e \<and> ly_avail_offset l + 4 \<le> e \<and> e + 2 \<le> ly_avail_offset l + 4 + 2 * n" for i
    using avail_entry_in[OF L(7), of i] L(1,7) by (simp add: avail_entry_def)
  moreover have "\<exists>e. used_entry l i = Inr e \<and> ly_used_offset l + 4 \<le> e \<and> e + 8 \<le> ly_used_offset l + 4 + 8 * n" for i
    using used_entry_in[OF L(7), of i] L(1,7) by (simp add: used_entry_def)
  moreover have "ly_avail_offset l + 6 + 2 * n \<le> ly_used_offset l" "ly_used_offset l + 6 + 8 * n = ly_total_size l"
    "ly_desc_offset l mod 16 = 0" "ly_avail_offset l mod 2 = 0" "ly_used_offset l mod 4 = 0" using L by simp_all
  ultimately show "(\<forall>d<n. descriptor_offset l d + 16 \<le> ly_avail_offset l)
     \<and> (\<forall>i. \<exists>e. avail_entry l i = Inr e \<and> ly_avail_offset l + 4 \<le> e \<and> e + 2 \<le> ly_avail_offset l + 4 + 2 * n)
     \<and> ly_avail_offset l + 6 + 2 * n \<le> ly_used_offset l
     \<and> (\<forall>i. \<exists>e. used_entry l i = Inr e \<and> ly_used_offset l + 4 \<le> e \<and> e + 8 \<le> ly_used_offset l + 4 + 8 * n)
     \<and> ly_used_offset l + 6 + 8 * n = ly_total_size l
     \<and> ly_desc_offset l mod 16 = 0 \<and> ly_avail_offset l mod 2 = 0 \<and> ly_used_offset l mod 4 = 0" by blast
qed

theorem layout_sound_witness:
  "descriptor_offset sample_layout 3 + 16 \<le> ly_avail_offset sample_layout \<and> ly_used_offset sample_layout mod 4 = 0"
proof -
  have "(3::nat) < 4" by simp
  then show ?thesis using layout_sound[of 4 sample_layout] sample_for_size by blast
qed

text \<open>
  C17. With event indices, the driver rings exactly when the device's index is one of those published since the driver last
  asked, whatever the counters have wrapped to; without them, exactly when the device has not set its flag.
\<close>

theorem notify_exact:
  assumes "sq_next_avail q < 65536" "sq_last_notify_idx q < 65536"
  defines "fresh \<equiv> wrapping_sub16 (sq_next_avail q) (sq_last_notify_idx q)"
    and "event \<equiv> get_le 2 (ly_used_offset (sq_layout q) + 4 + ly_queue_size (sq_layout q) * 8) (sq_mem q)"
  shows "should_notify q = (if sq_event_idx_enabled q then (\<exists>j<fresh. event = (sq_last_notify_idx q + j) mod 65536, q\<lparr>sq_last_notify_idx := sq_next_avail q\<rparr>)
    else (even (get_le 2 (ly_used_offset (sq_layout q)) (sq_mem q)), q))"
proof -
  have "event < 65536" unfolding event_def using get_le_bound[of 2] by simp
  from event_passed[OF assms(1,2) this] show ?thesis
    by (simp add: should_notify_def Let_def fresh_def event_def even_iff_mod_2_eq_zero and_one_eq)
qed

theorem notify_exact_witness:
  "\<exists>q. sq_next_avail q = 1 \<and> sq_last_notify_idx q = 65534 \<and> fst (should_notify q)"
proof -
  let ?q = "\<lparr>sq_layout = sample_layout, sq_mem = put_le 2 116 65535 (\<lambda>_. 0), sq_phys = 0, sq_len = 118, sq_free_descs = [0..<4], sq_num_free = 4,
     sq_next_avail = 1, sq_next_used = 0, sq_last_notify_idx = 65534, sq_event_idx_enabled = True, sq_token_map = [0, 0, 0, 0]\<rparr>"
  have "get_le 2 116 (put_le 2 116 65535 (\<lambda>_. 0)) = 65535" by (rule get_put_same) simp
  moreover have "\<exists>j<3. (65535::nat) = (65534 + j) mod 65536" by (intro exI[of _ 1]) simp
  ultimately have "fst (should_notify ?q)" using notify_exact[of ?q] by (simp add: sample_layout_def wrapping_sub16_def)
  then show ?thesis by (intro exI[of _ ?q]) simp
qed

text \<open>
  C18. The size of a queue is the wish or the device's maximum, whichever is less, rounded up to a power of two and cut to the
  maximum (so it is a power of two only where the maximum is one); beyond \<open>32768\<close> the rounding shifts its bit out of
  the \<open>u16\<close> and never returns.
\<close>

theorem queue_size_exact:
  assumes "tr_num_queues t s = (num, s1)" "index < num" "tr_queue_size t (tr_select_queue t index s1) = (max_size, s2)" "0 < max_size"
  shows "if min desired max_size \<le> 32768
    then \<exists>k\<le>15. queue_size_for t index desired s = Some (Inr (min (2 ^ k) max_size), s2) \<and> min desired max_size \<le> 2 ^ k \<and> (\<forall>i<k. 2 ^ i < min desired max_size)
    else queue_size_for t index desired s = None"
proof (cases "min desired max_size \<le> 32768")
  case True
  then obtain k where "k \<le> 15" "round_up_loop (min desired max_size) 1 = Some (2 ^ k)" "min desired max_size \<le> 2 ^ k" "\<forall>i<k. 2 ^ i < min desired max_size"
    using round_up_ok[of 0 "min desired max_size"] by auto
  then show ?thesis using True assms by (auto simp: queue_size_for_def intro!: exI[of _ k])
next
  case False
  then have "32768 < min desired max_size" by (rule not_le_imp_less)
  from round_up_big[OF _ this, of 0] have "round_up_loop (min desired max_size) 1 = None" by simp
  then show ?thesis using False assms by (simp add: queue_size_for_def)
qed

text \<open>A device with one queue of at most \<open>max_size\<close> entries and every other register at zero.\<close>

definition sample_transport :: "nat \<Rightarrow> unit transport" where
  "sample_transport max_size = \<lparr>tr_device_feature = (\<lambda>_ s. (0, s)), tr_set_driver_feature = (\<lambda>_ _ s. s), tr_status = (\<lambda>s. (0, s)),
     tr_set_status = (\<lambda>_ s. s), tr_num_queues = (\<lambda>s. (1, s)), tr_select_queue = (\<lambda>_ s. s), tr_queue_size = (\<lambda>s. (max_size, s)),
     tr_set_queue_size = (\<lambda>_ s. s), tr_set_queue_msix_vector = (\<lambda>_ s. s), tr_queue_msix_vector = (\<lambda>s. (0, s)),
     tr_set_queue_addresses = (\<lambda>_ _ _ s. s), tr_set_queue_enable = (\<lambda>_ s. s), tr_queue_notify_off = (\<lambda>s. (0, s)),
     tr_config_generation = (\<lambda>s. (0, s)), tr_read_config = (\<lambda>_ n s. (replicate n 0, s)), tr_notify = (\<lambda>_ _ s. s)\<rparr>"

theorem queue_size_exact_witness:
  "queue_size_for (sample_transport 40000) 0 40000 () = None
   \<and> (\<exists>k\<le>15. queue_size_for (sample_transport 24) 0 20 () = Some (Inr (min (2 ^ k) 24), ()) \<and> 20 \<le> (2::nat) ^ k)"
proof -
  have "queue_size_for (sample_transport 40000) 0 40000 () = None"
    using queue_size_exact[of "sample_transport 40000" "()" 1 "()" 0 40000 "()" 40000] by (simp add: sample_transport_def)
  moreover have "\<exists>k\<le>15. queue_size_for (sample_transport 24) 0 20 () = Some (Inr (min (2 ^ k) 24), ()) \<and> 20 \<le> (2::nat) ^ k"
    using queue_size_exact[of "sample_transport 24" "()" 1 "()" 0 24 "()" 20] by (auto simp: sample_transport_def)
  ultimately show ?thesis ..
qed

text \<open>What is negotiated was offered and was wanted, or is the bit the driver insists on.\<close>

lemma negotiate_sound:
  assumes "negotiate t wanted s = (Inr f, s')"
  shows "bit f 32 \<and> (\<forall>i. bit f i \<longrightarrow> i = 32 \<or> bit wanted i)"
proof -
  have v: "bit VIRTIO_F_VERSION_1 i \<longleftrightarrow> i = 32" for i
    unfolding VIRTIO_F_VERSION_1_def by (subst bit_push_bit_iff, subst bit_1_iff) (auto simp: possible_bit_def)
  obtain offered where o: "f = offered AND (wanted OR VIRTIO_F_VERSION_1)" "offered AND VIRTIO_F_VERSION_1 \<noteq> 0"
    using assms by (auto simp: negotiate_def Let_def split: prod.splits if_splits)
  have "bit offered 32"
  proof (rule ccontr)
    assume "\<not> bit offered 32"
    then have "\<not> bit (offered AND VIRTIO_F_VERSION_1) i" for i unfolding bit_and_iff v by blast
    then have "offered AND VIRTIO_F_VERSION_1 = 0" by (simp add: bit_eq_iff)
    then show False using o(2) by blast
  qed
  then show ?thesis unfolding o(1) bit_and_iff bit_or_iff v by blast
qed

text \<open>The headers survive the wire.\<close>

lemma two_bytes: "(word_of_nat (le_bytes [word_of_nat (unat x), word_of_nat (unat x div 256)]) :: u16) = x"
proof -
  have "to_le 2 (unat x) = [word_of_nat (unat x), word_of_nat (unat x div 256)]" by (simp add: numeral_2_eq_2)
  then have "le_bytes [word_of_nat (unat x), word_of_nat (unat x div 256)] = unat x mod 256 ^ 2" by (metis le_bytes_to_le)
  also have "\<dots> = unat x"
  proof -
    have "unat x < 2 ^ LENGTH(16)" by (rule unsigned_less)
    then show ?thesis by simp
  qed
  finally show ?thesis by simp
qed

lemmas two_bytes_simp = two_bytes[simplified]

lemma net_header_roundtrip: "net_header_from (net_header_bytes h) = h"
proof -
  have to2: "to_le 2 v = [word_of_nat v, word_of_nat (v div 256)]" for v by (simp add: numeral_2_eq_2)
  show ?thesis
    by (cases h) (simp add: net_header_from_def net_header_bytes_def to2 Let_def two_bytes_simp nth_Cons')
qed

end
