(* ===== verification/Vm_Ranges.thy ===== *)
theory Vm_Ranges
  imports Vmm
begin

text \<open>
  The part of \<open>kernel/src/mm/vmm/mod.rs\<close> that decides which physical memory the kernel's own
  tables map: \<open>merge_ranges\<close>, \<open>subtract_ranges\<close>, \<open>map_hhdm\<close>, \<open>map_kernel_image\<close> and
  \<open>init_kernel_space\<close>.  A fixed-size output table is a list with the table's capacity as bound; the
  linker's section symbols and the boot loader's executable-address response are parameters.
\<close>

type_synonym range = "nat \<times> nat"

definition MAX_MEMMAP_RANGES :: nat where "MAX_MEMMAP_RANGES = 128"

subsection \<open>Merging\<close>

text \<open>The first loop: the kept entries, clipped and rounded outward.\<close>

definition collect_range :: "nat \<Rightarrow> nat \<Rightarrow> mem_entry \<Rightarrow> range list \<Rightarrow> range list checked" where
  "collect_range ceiling cap e out =
     and_then (uadd (me_base e) (me_length e)) (\<lambda>entry_end.
     let start = min (me_base e) ceiling; end0 = min entry_end ceiling in
     if end0 \<le> start then Inr out
     else
       let start' = start div FRAME_SIZE * FRAME_SIZE in
       and_then (uadd end0 (FRAME_SIZE - 1)) (\<lambda>up.
       let end' = up div FRAME_SIZE * FRAME_SIZE in
       require (length out < cap) ''vmm::merge_ranges: more memory-map entries than this table can hold''
         (Inr (out @ [(start', end')]))))"

text \<open>The in-place merge: one step of the loop over \<open>read\<close>.\<close>

definition merge_step :: "nat \<Rightarrow> range list \<times> nat \<Rightarrow> range list \<times> nat" where
  "merge_step read = (\<lambda>(slice, write).
     if 0 < write \<and> fst (slice ! read) \<le> snd (slice ! (write - 1))
     then (slice[write - 1 := (fst (slice ! (write - 1)), max (snd (slice ! (write - 1))) (snd (slice ! read)))], write)
     else (slice[write := slice ! read], write + 1))"

definition merge_ranges ::
    "mem_entry list \<Rightarrow> (mem_entry \<Rightarrow> bool) \<Rightarrow> nat \<Rightarrow> nat \<Rightarrow> range list checked" where
  "merge_ranges entries keep ceiling cap =
     and_then (for_each (filter keep entries) (collect_range ceiling cap) []) (\<lambda>out.
     let slice = sort_key fst out;
         (slice', write) = fold merge_step [0..<length out] (slice, 0) in
     Inr (take write slice'))"

subsection \<open>Subtracting\<close>

definition push_range :: "nat \<Rightarrow> range \<Rightarrow> range list \<Rightarrow> range list checked" where
  "push_range cap r out =
     require (length out < cap) ''vmm::subtract_ranges: more resulting ranges than this table can hold''
       (Inr (out @ [r]))"

fun cut_range :: "nat \<Rightarrow> nat \<Rightarrow> range list \<Rightarrow> nat \<Rightarrow> range list \<Rightarrow> (nat \<times> range list) checked" where
  "cut_range cap from_end [] cursor out = Inr (cursor, out)"
| "cut_range cap from_end ((bad_start, bad_end) # bads) cursor out =
     (if bad_end \<le> cursor \<or> bad_start \<ge> from_end then cut_range cap from_end bads cursor out
      else
        and_then (if bad_start > cursor then push_range cap (cursor, bad_start) out else Inr out) (\<lambda>out'.
        let cursor' = max cursor bad_end in
        if cursor' \<ge> from_end then Inr (cursor', out') else cut_range cap from_end bads cursor' out'))"

definition subtract_one :: "nat \<Rightarrow> range list \<Rightarrow> range \<Rightarrow> range list \<Rightarrow> range list checked" where
  "subtract_one cap bads = (\<lambda>(from_start, from_end) out.
     and_then (cut_range cap from_end bads from_start out) (\<lambda>(cursor, out').
       if cursor < from_end then push_range cap (cursor, from_end) out' else Inr out'))"

definition subtract_ranges :: "nat \<Rightarrow> range list \<Rightarrow> range list \<Rightarrow> range list checked" where
  "subtract_ranges cap from bads = for_each from (subtract_one cap bads) []"

subsection \<open>The kernel's own tables\<close>

definition map_hhdm_gap :: "nat \<Rightarrow> nat \<Rightarrow> nat \<Rightarrow> page_flags \<Rightarrow> mm_state \<Rightarrow> mm_state checked" where
  "map_hhdm_gap p start end flags s =
     (if end \<le> start then Inr s
      else and_then (phys_to_virt s start) (\<lambda>virt. map_range p virt start (end - start) flags s))"

definition HHDM_CEILING :: nat where "HHDM_CEILING = 4 * 1024 * 1024 * 1024"

definition bad_memory :: "mem_entry \<Rightarrow> bool" where
  "bad_memory e \<longleftrightarrow> me_type e = MEMMAP_BAD_MEMORY"

definition map_hhdm :: "nat \<Rightarrow> mem_entry list \<Rightarrow> mm_state \<Rightarrow> mm_state checked" where
  "map_hhdm p entries s =
     (let flags = FLAG_WRITABLE OR FLAG_NO_EXECUTE OR FLAG_GLOBAL in
      and_then (merge_ranges entries (\<lambda>e. \<not> bad_memory e) (u64_limit - 1) MAX_MEMMAP_RANGES) (\<lambda>mappable.
      and_then (merge_ranges entries bad_memory (u64_limit - 1) MAX_MEMMAP_RANGES) (\<lambda>bad.
      and_then (subtract_ranges MAX_MEMMAP_RANGES mappable bad) (\<lambda>to_map.
      and_then (for_each to_map (\<lambda>(start, end) st. map_hhdm_gap p start end flags st) s) (\<lambda>s1.
      and_then (merge_ranges entries (\<lambda>_. True) HHDM_CEILING MAX_MEMMAP_RANGES) (\<lambda>known.
      and_then (for_each known (\<lambda>(start, end) (st, next_free).
           and_then (map_hhdm_gap p next_free start flags st) (\<lambda>st'. Inr (st', max next_free end))) (s1, 0))
        (\<lambda>(s2, next_free). map_hhdm_gap p next_free HHDM_CEILING flags s2)))))))"

record kernel_image =
  ki_phys_base :: nat
  ki_virt_base :: nat
  ki_text_start :: nat
  ki_text_end :: nat
  ki_rodata_start :: nat
  ki_rodata_end :: nat
  ki_data_start :: nat
  ki_data_end :: nat

definition image_phys :: "kernel_image \<Rightarrow> nat \<Rightarrow> nat checked" where
  "image_phys k virt = and_then (usub virt (ki_virt_base k)) (\<lambda>off. uadd (ki_phys_base k) off)"

definition map_section :: "nat \<Rightarrow> kernel_image \<Rightarrow> nat \<Rightarrow> nat \<Rightarrow> page_flags \<Rightarrow> mm_state \<Rightarrow> mm_state checked" where
  "map_section p k start end flags s =
     and_then (image_phys k start) (\<lambda>phys.
     and_then (usub end start) (\<lambda>len. map_range p start phys len flags s))"

definition map_kernel_image :: "nat \<Rightarrow> kernel_image \<Rightarrow> mm_state \<Rightarrow> mm_state checked" where
  "map_kernel_image p k s =
     and_then (map_section p k (ki_text_start k) (ki_text_end k) FLAG_GLOBAL s) (\<lambda>s1.
     and_then (map_section p k (ki_rodata_start k) (ki_rodata_end k) (FLAG_GLOBAL OR FLAG_NO_EXECUTE) s1) (\<lambda>s2.
       map_section p k (ki_data_start k) (ki_data_end k) (FLAG_WRITABLE OR FLAG_GLOBAL OR FLAG_NO_EXECUTE) s2))"

text \<open>
  \<open>init_kernel_space\<close>, up to the control registers: the new PML4, which the code then loads into
  CR3 and stores in \<open>KERNEL_PML4\<close>.
\<close>

definition init_kernel_space :: "kernel_image \<Rightarrow> mem_entry list \<Rightarrow> mm_state \<Rightarrow> (nat \<times> mm_state) checked" where
  "init_kernel_space k entries s =
     and_then (alloc_frame_zeroed s) (\<lambda>(r, s1).
       case r of
         None \<Rightarrow> Inl (Assert_failed ''vmm::init_kernel_space: out of memory for the kernel PML4'')
       | Some p \<Rightarrow>
           and_then (map_kernel_image p k s1) (\<lambda>s2.
           and_then (map_hhdm p entries s2) (\<lambda>s3. Inr (p, s3))))"

subsection \<open>The merged ranges\<close>

definition points :: "range list \<Rightarrow> nat set" where
  "points rs = (\<Union>(a, b)\<in>set rs. {a..<b})"

lemma points_simps [simp]:
  "points [] = {}" "points (r # rs) = {fst r..<snd r} \<union> points rs"
  "points (rs @ rs') = points rs \<union> points rs'"
  by (auto simp: points_def)

text \<open>Sorted, non-empty ranges with a gap between any two.\<close>

fun separated :: "range list \<Rightarrow> bool" where
  "separated [] \<longleftrightarrow> True"
| "separated [r] \<longleftrightarrow> fst r < snd r"
| "separated (r # r' # rs) \<longleftrightarrow> fst r < snd r \<and> snd r < fst r' \<and> separated (r' # rs)"

definition absorb :: "range list \<Rightarrow> range \<Rightarrow> range list" where
  "absorb out r = (if out \<noteq> [] \<and> fst r \<le> snd (last out)
     then butlast out @ [(fst (last out), max (snd (last out)) (snd r))] else out @ [r])"

lemma separated_snoc:
  "separated (rs @ [r]) \<longleftrightarrow> separated rs \<and> fst r < snd r \<and> (rs \<noteq> [] \<longrightarrow> snd (last rs) < fst r)"
  by (induction rs rule: separated.induct) auto

lemma length_absorb: "length out \<le> length (absorb out r) \<and> length (absorb out r) \<le> Suc (length out)"
  by (auto simp: absorb_def)

lemma merge_in_place:
  assumes "n \<le> length rs"
  shows "\<exists>tab wr. fold merge_step [0..<n] (rs, 0) = (tab, wr) \<and> length tab = length rs
    \<and> take wr tab = foldl absorb [] (take n rs) \<and> wr = length (foldl absorb [] (take n rs))
    \<and> wr \<le> n \<and> drop n tab = drop n rs"
  using assms
proof (induction n)
  case (Suc n)
  then obtain tab wr where IH: "fold merge_step [0..<n] (rs, 0) = (tab, wr)" "length tab = length rs"
    "take wr tab = foldl absorb [] (take n rs)" "wr = length (foldl absorb [] (take n rs))"
    "wr \<le> n" "drop n tab = drop n rs" by auto
  let ?out = "foldl absorb [] (take n rs)"
  have n: "n < length rs" using Suc.prems by simp
  then have rd: "tab ! n = rs ! n" using IH(2,6) by (metis nth_via_drop Cons_nth_drop_Suc)
  have tk: "take (Suc n) rs = take n rs @ [rs ! n]" using n by (rule take_Suc_conv_app_nth)
  have lst: "tab ! (wr - 1) = last ?out" if "0 < wr"
    using that IH(2-5) n by (metis diff_less last_conv_nth length_0_conv length_greater_0_conv nth_take zero_less_one
        One_nat_def)
  have dn: "drop (Suc n) tab = drop (Suc n) rs" using IH(6) by (metis drop_Suc tl_drop)
  show ?case
  proof (cases "0 < wr \<and> fst (rs ! n) \<le> snd (last ?out)")
    case True
    let ?m = "(fst (last ?out), max (snd (last ?out)) (snd (rs ! n)))"
    have "fold merge_step [0..<Suc n] (rs, 0) = (tab[wr - 1 := ?m], wr)"
      using IH(1) True rd lst by (simp add: merge_step_def)
    moreover have "foldl absorb [] (take (Suc n) rs) = butlast ?out @ [?m]"
      using True IH(4) by (auto simp: tk absorb_def)
    moreover have "take wr (tab[wr - 1 := ?m]) = butlast ?out @ [?m]"
    proof -
      have "take wr (tab[wr - 1 := ?m]) = (take wr tab)[wr - 1 := ?m]" by (simp add: take_update_swap)
      also have "\<dots> = butlast ?out @ [?m]"
        using True IH(3,4) by (cases ?out rule: rev_cases) auto
      finally show ?thesis .
    qed
    ultimately show ?thesis using IH(2,4,5) True dn n
      by (simp add: drop_update_cancel)
  next
    case False
    then have "fold merge_step [0..<Suc n] (rs, 0) = (tab[wr := rs ! n], Suc wr)"
      using IH(1) rd lst by (auto simp: merge_step_def)
    moreover have "foldl absorb [] (take (Suc n) rs) = ?out @ [rs ! n]"
      using False IH(4) by (auto simp: tk absorb_def)
    moreover have "take (Suc wr) (tab[wr := rs ! n]) = ?out @ [rs ! n]"
      using IH(2,3,5) n by (simp add: take_Suc_conv_app_nth)
    ultimately show ?thesis using IH(2,4,5) dn n by simp
  qed
qed simp

lemma foldl_absorb:
  assumes "sorted (map fst rs)" and "\<forall>r\<in>set rs. fst r < snd r"
  shows "separated (foldl absorb [] rs) \<and> points (foldl absorb [] rs) = points rs
    \<and> (rs \<noteq> [] \<longrightarrow> fst (last (foldl absorb [] rs)) \<le> fst (last rs)) \<and> (foldl absorb [] rs = [] \<longleftrightarrow> rs = [])"
  using assms
proof (induction rs rule: rev_induct)
  case (snoc r rs)
  let ?out = "foldl absorb [] rs"
  have IH: "separated ?out" "points ?out = points rs" "rs \<noteq> [] \<Longrightarrow> fst (last ?out) \<le> fst (last rs)"
    "?out = [] \<longleftrightarrow> rs = []"
    using snoc.IH snoc.prems by (auto simp: sorted_append)
  have r: "fst r < snd r" using snoc.prems(2) by simp
  have last_le: "fst (last rs) \<le> fst r" if "rs \<noteq> []"
    using snoc.prems(1) that by (simp add: sorted_append)
  show ?case
  proof (cases "?out \<noteq> [] \<and> fst r \<le> snd (last ?out)")
    case True
    then obtain pre x where out: "?out = pre @ [x]" by (cases ?out rule: rev_cases) auto
    have ne: "rs \<noteq> []" using True IH(4) by simp
    have le: "fst x \<le> fst r" using IH(3)[OF ne] last_le[OF ne] out by simp
    have new: "foldl absorb [] (rs @ [r]) = pre @ [(fst x, max (snd x) (snd r))]"
      using True out by (simp add: absorb_def)
    have "separated (pre @ [(fst x, max (snd x) (snd r))])"
      using IH(1) unfolding out separated_snoc by auto
    moreover have "fst r \<le> snd x" using True out by simp
    then have "{fst x..<max (snd x) (snd r)} = {fst x..<snd x} \<union> {fst r..<snd r}"
      using le by auto
    then have "points (pre @ [(fst x, max (snd x) (snd r))]) = points (rs @ [r])"
      using IH(2) by (simp add: out Un_assoc[symmetric])
    ultimately show ?thesis using new le by (auto simp: sorted_append)
  next
    case False
    then have new: "foldl absorb [] (rs @ [r]) = ?out @ [r]" by (auto simp: absorb_def)
    have "separated (?out @ [r])" using IH(1) r False by (auto simp: separated_snoc)
    then show ?thesis using new IH(2) by auto
  qed
qed simp


text \<open>Non-empty, and bounded by page boundaries.\<close>

definition range_ok :: "range \<Rightarrow> bool" where
  "range_ok r \<longleftrightarrow> fst r < snd r \<and> FRAME_SIZE dvd fst r \<and> FRAME_SIZE dvd snd r"

text \<open>The page-rounded points of an entry clipped to a ceiling.\<close>

definition touches :: "nat \<Rightarrow> mem_entry \<Rightarrow> nat \<Rightarrow> bool" where
  "touches ceiling e v \<longleftrightarrow> (\<exists>a. me_base e \<le> a \<and> a < me_base e + me_length e \<and> a < ceiling
     \<and> a div FRAME_SIZE = v div FRAME_SIZE)"

lemma page_hull:
  assumes "lo < hi"
  shows "v \<in> {lo div FRAME_SIZE * FRAME_SIZE..<div_ceil hi FRAME_SIZE * FRAME_SIZE}
    \<longleftrightarrow> (\<exists>a. lo \<le> a \<and> a < hi \<and> a div FRAME_SIZE = v div FRAME_SIZE)"
proof
  assume v: "v \<in> {lo div FRAME_SIZE * FRAME_SIZE..<div_ceil hi FRAME_SIZE * FRAME_SIZE}"
  then have "v div FRAME_SIZE < div_ceil hi FRAME_SIZE" by (simp add: less_mult_imp_div_less)
  then have "v div FRAME_SIZE * FRAME_SIZE < hi"
    using div_ceil_le_iff[of FRAME_SIZE hi "v div FRAME_SIZE"] by (simp add: FRAME_SIZE_def)
  moreover have "lo div FRAME_SIZE \<le> v div FRAME_SIZE"
    using v div_le_mono[of "lo div FRAME_SIZE * FRAME_SIZE" v FRAME_SIZE] by (simp add: FRAME_SIZE_def)
  ultimately show "\<exists>a. lo \<le> a \<and> a < hi \<and> a div FRAME_SIZE = v div FRAME_SIZE"
    using assms by (intro exI[of _ "max lo (v div FRAME_SIZE * FRAME_SIZE)"]) (auto simp: FRAME_SIZE_def max_def)
next
  assume "\<exists>a. lo \<le> a \<and> a < hi \<and> a div FRAME_SIZE = v div FRAME_SIZE"
  then obtain a where a: "lo \<le> a" "a < hi" "a div FRAME_SIZE = v div FRAME_SIZE" by blast
  have "lo div FRAME_SIZE * FRAME_SIZE \<le> v div FRAME_SIZE * FRAME_SIZE"
    using div_le_mono[OF a(1), of FRAME_SIZE] a(3) by simp
  also have "\<dots> \<le> v" by simp
  finally have low: "lo div FRAME_SIZE * FRAME_SIZE \<le> v" .
  have "v div FRAME_SIZE * FRAME_SIZE \<le> a" using a(3) by (metis div_times_less_eq_dividend)
  then have "\<not> div_ceil hi FRAME_SIZE \<le> v div FRAME_SIZE"
    using a(2) by (simp add: div_ceil_le_iff FRAME_SIZE_def)
  then have "v < div_ceil hi FRAME_SIZE * FRAME_SIZE"
    by (simp add: not_le div_less_iff_less_mult FRAME_SIZE_def)
  with low show "v \<in> {lo div FRAME_SIZE * FRAME_SIZE..<div_ceil hi FRAME_SIZE * FRAME_SIZE}" by simp
qed

lemma collect_ranges_ok:
  assumes "for_each es (collect_range ceiling cap) out = Inr out'"
  shows "(\<forall>v. v \<in> points out' \<longleftrightarrow> v \<in> points out \<or> (\<exists>e\<in>set es. touches ceiling e v))
    \<and> ((\<forall>r\<in>set out. range_ok r)
       \<longrightarrow> (\<forall>r\<in>set out'. range_ok r))"
  using assms
proof (induction es arbitrary: out)
  case (Cons e es)
  then obtain mid where mid: "collect_range ceiling cap e out = Inr mid"
    and rest: "for_each es (collect_range ceiling cap) mid = Inr out'" by (auto simp: checked_simps)
  let ?lo = "min (me_base e) ceiling" and ?hi = "min (me_base e + me_length e) ceiling"
  have t: "touches ceiling e v \<longleftrightarrow> (\<exists>a. ?lo \<le> a \<and> a < ?hi \<and> a div FRAME_SIZE = v div FRAME_SIZE)" for v
    unfolding touches_def by (auto simp: min_def)
  show ?case
  proof (cases "?hi \<le> ?lo")
    case True
    then have "mid = out" using mid by (auto simp: collect_range_def checked_simps Let_def)
    moreover have "\<not> touches ceiling e v" for v
      unfolding t using True by (intro notI) (elim exE conjE, linarith)
    ultimately show ?thesis using Cons.IH[OF rest] by simp
  next
    case False
    let ?r = "(?lo div FRAME_SIZE * FRAME_SIZE, div_ceil ?hi FRAME_SIZE * FRAME_SIZE)"
    have m: "mid = out @ [?r]"
      using mid False by (auto simp: collect_range_def checked_simps Let_def div_ceil_def)
    have hull: "v \<in> {fst ?r..<snd ?r} \<longleftrightarrow> touches ceiling e v" for v
    proof -
      have "?lo < ?hi" using False by linarith
      from page_hull[OF this, of v] show ?thesis unfolding t by (simp only: fst_conv snd_conv)
    qed
    have "?lo \<in> {fst ?r..<snd ?r}" unfolding hull t using False by (intro exI[of _ ?lo]) auto
    then have "fst ?r < snd ?r" by (meson atLeastLessThan_iff le_less_trans)
    then have "range_ok ?r" unfolding range_ok_def by (intro conjI) (assumption, simp_all)
    then have good: "(\<forall>r\<in>set out. range_ok r)
       \<longrightarrow> (\<forall>r\<in>set mid. range_ok r)"
      unfolding m by simp
    have pts: "v \<in> points mid \<longleftrightarrow> v \<in> points out \<or> touches ceiling e v" for v
      using hull[of v] unfolding m by (simp del: atLeastLessThan_iff)
    have "v \<in> points out' \<longleftrightarrow> v \<in> points out \<or> (\<exists>e\<in>set (e # es). touches ceiling e v)" for v
      using Cons.IH[OF rest, THEN conjunct1, rule_format, of v] pts[of v] by auto
    with Cons.IH[OF rest, THEN conjunct2] good show ?thesis by blast
  qed
qed simp

lemma absorb_range_ok:
  assumes "range_ok r" and "\<forall>x\<in>set out. range_ok x"
  shows "\<forall>x\<in>set (absorb out r). range_ok x"
proof (cases "out \<noteq> [] \<and> fst r \<le> snd (last out)")
  case True
  then obtain pre y where out: "out = pre @ [y]" by (cases out rule: rev_cases) auto
  have "range_ok y" using assms(2) out by simp
  then have "range_ok (fst y, max (snd y) (snd r))" using assms(1) by (auto simp: range_ok_def max_def)
  then show ?thesis using True assms(2) out by (simp add: absorb_def)
next
  case False
  then have "absorb out r = out @ [r]" by (auto simp: absorb_def)
  then show ?thesis using assms by simp
qed

lemma foldl_absorb_ok:
  "\<forall>r\<in>set rs. range_ok r \<Longrightarrow> \<forall>r\<in>set out. range_ok r \<Longrightarrow> \<forall>r\<in>set (foldl absorb out rs). range_ok r"
proof (induction rs arbitrary: out)
  case (Cons r rs)
  have "range_ok r" "\<forall>x\<in>set rs. range_ok x" using Cons.prems(1) by simp_all
  then show ?case
    unfolding foldl.simps by (intro Cons.IH absorb_range_ok Cons.prems(2))
qed simp

lemma merge_ranges_spec:
  assumes "merge_ranges entries keep ceiling cap = Inr rs"
  shows "separated rs" and "v \<in> points rs \<longleftrightarrow> (\<exists>e\<in>set entries. keep e \<and> touches ceiling e v)"
    and "\<forall>r\<in>set rs. range_ok r"
proof -
  obtain out where out: "for_each (filter keep entries) (collect_range ceiling cap) [] = Inr out"
    using assms by (cases "for_each (filter keep entries) (collect_range ceiling cap) []")
      (simp_all add: merge_ranges_def)
  have rs: "take (snd (fold merge_step [0..<length out] (sort_key fst out, 0)))
        (fst (fold merge_step [0..<length out] (sort_key fst out, 0))) = rs"
    using assms out by (simp add: merge_ranges_def Let_def case_prod_beta)
  from merge_in_place[of "length out" "sort_key fst out"] rs
  have merged: "rs = foldl absorb [] (sort_key fst out)" by auto
  note c = collect_ranges_ok[OF out]
  then have good: "\<forall>r\<in>set out. range_ok r" by simp
  have f: "separated rs \<and> points rs = points (sort_key fst out)"
    using foldl_absorb[of "sort_key fst out"] good unfolding merged by (simp add: range_ok_def)
  then show "separated rs" by simp
  have "points (sort_key fst out) = points out" by (simp add: points_def)
  then show "v \<in> points rs \<longleftrightarrow> (\<exists>e\<in>set entries. keep e \<and> touches ceiling e v)"
    using f c by auto
  show "\<forall>r\<in>set rs. range_ok r"
    unfolding merged by (rule foldl_absorb_ok) (use good in simp_all)
qed

lemma separated_sorted: "separated rs \<Longrightarrow> sorted (map fst rs)"
proof (induction rs rule: separated.induct)
  case (3 r r' rs)
  then show ?case by (auto intro: order_trans[OF less_imp_le])
qed simp_all

lemma cut_range_points:
  assumes "cut_range cap hi bads cursor out = Inr (c, out')" and "sorted (map fst bads)"
  shows "points out' \<union> {c..<hi} = points out \<union> ({cursor..<hi} - points bads)"
  using assms
proof (induction bads arbitrary: cursor out)
  case (Cons b bads)
  obtain lo bhi where b: "b = (lo, bhi)" by (cases b)
  have later: "lo \<le> fst r" if "r \<in> set bads" for r using Cons.prems(2) that by (auto simp: b)
  then have above: "points bads \<subseteq> {lo..}" by (force simp: points_def)
  have srt: "sorted (map fst bads)" using Cons.prems(2) by simp
  show ?case
  proof (cases "bhi \<le> cursor \<or> lo \<ge> hi")
    case True
    then have "cut_range cap hi bads cursor out = Inr (c, out')" using Cons.prems(1) b by auto
    from Cons.IH[OF this srt] True show ?thesis by (auto simp: b)
  next
    case False
    then obtain mid where mid: "mid = (if lo > cursor then out @ [(cursor, lo)] else out)"
      and rest: "(if max cursor bhi \<ge> hi then Inr (max cursor bhi, mid)
        else cut_range cap hi bads (max cursor bhi) mid) = Inr (c, out')"
      using Cons.prems(1) b by (auto simp: checked_simps push_range_def Let_def split: if_splits)
    have pm: "points mid = points out \<union> {cursor..<lo}" using mid by auto
    have eq: "{cursor..<hi} - points (b # bads) = {cursor..<lo} \<union> ({max cursor bhi..<hi} - points bads)"
      using False above by (auto simp: b)
    show ?thesis
    proof (cases "max cursor bhi \<ge> hi")
      case True
      then have "c = max cursor bhi" "out' = mid" using rest by auto
      with True pm eq show ?thesis by simp
    next
      case more: False
      then have "cut_range cap hi bads (max cursor bhi) mid = Inr (c, out')" using rest by simp
      from Cons.IH[OF this srt] pm eq show ?thesis by auto
    qed
  qed
qed simp

lemma subtract_ranges_spec:
  assumes "subtract_ranges cap good bads = Inr rs" and "sorted (map fst bads)"
  shows "points rs = points good - points bads"
proof -
  have "points rs' = points out \<union> (points xs - points bads)"
    if "for_each xs (subtract_one cap bads) out = Inr rs'" for xs out rs'
    using that
  proof (induction xs arbitrary: out)
    case (Cons x xs)
    obtain lo hi where x: "x = (lo, hi)" by (cases x)
    from Cons.prems obtain mid where mid: "subtract_one cap bads x out = Inr mid"
      and rest: "for_each xs (subtract_one cap bads) mid = Inr rs'" by (auto simp: checked_simps)
    from mid obtain c out' where cut: "cut_range cap hi bads lo out = Inr (c, out')"
      and m: "(if c < hi then push_range cap (c, hi) out' else Inr out') = Inr mid"
      by (auto simp: subtract_one_def x checked_simps)
    have "points mid = points out' \<union> {c..<hi}" using m by (auto simp: push_range_def checked_simps split: if_splits)
    with cut_range_points[OF cut assms(2)] Cons.IH[OF rest] show ?case by (auto simp: x)
  qed simp
  from this[of good "[]" rs] assms(1) show ?thesis by (simp add: subtract_ranges_def)
qed



subsection \<open>The tables are large enough\<close>

lemma collect_ranges_returns:
  assumes "\<forall>e\<in>set es. me_base e + me_length e + FRAME_SIZE < u64_limit" and "length out + length es \<le> cap"
  shows "\<exists>out'. for_each es (collect_range ceiling cap) out = Inr out' \<and> length out' \<le> length out + length es"
  using assms
proof (induction es arbitrary: out)
  case (Cons e es)
  have fits: "me_base e + me_length e < u64_limit" "min (me_base e + me_length e) ceiling + (FRAME_SIZE - 1) < u64_limit"
    using Cons.prems(1) by (auto simp: FRAME_SIZE_def min_def)
  obtain mid where mid: "collect_range ceiling cap e out = Inr mid" "length mid \<le> Suc (length out)"
    using fits Cons.prems(2)
    by (cases "min (me_base e + me_length e) ceiling \<le> min (me_base e) ceiling")
      (simp_all add: collect_range_def Let_def)
  then have "length mid + length es \<le> cap" using Cons.prems(2) by simp
  with Cons.IH[of mid] Cons.prems(1) mid show ?case by fastforce
qed simp

lemma length_foldl_absorb: "length (foldl absorb out rs) \<le> length out + length rs"
proof (induction rs arbitrary: out)
  case (Cons r rs)
  have "length (absorb out r) \<le> Suc (length out)" using length_absorb by blast
  with Cons[of "absorb out r"] show ?case by simp
qed simp

lemma merge_ranges_returns:
  assumes "\<forall>e\<in>set entries. me_base e + me_length e + FRAME_SIZE < u64_limit"
    and "length (filter keep entries) \<le> cap"
  shows "\<exists>rs. merge_ranges entries keep ceiling cap = Inr rs \<and> length rs \<le> length (filter keep entries)"
proof -
  obtain out where out: "for_each (filter keep entries) (collect_range ceiling cap) [] = Inr out"
    "length out \<le> length (filter keep entries)"
    using collect_ranges_returns[of "filter keep entries" "[]" cap ceiling] assms by auto
  from merge_in_place[of "length out" "sort_key fst out"] obtain tab wr where
    m: "fold merge_step [0..<length out] (sort_key fst out, 0) = (tab, wr)" "wr \<le> length out" by auto
  then show ?thesis using out by (simp add: merge_ranges_def min_def)
qed

definition starts_in :: "range list \<Rightarrow> nat \<Rightarrow> nat \<Rightarrow> nat" where
  "starts_in bads lo hi = length (filter (\<lambda>b. lo < fst b \<and> fst b < hi) bads)"

lemma starts_in_mono: "lo \<le> lo' \<Longrightarrow> starts_in bads lo' hi \<le> starts_in bads lo hi"
  unfolding starts_in_def by (induction bads) auto

lemma cut_range_returns:
  "length out + starts_in bads cursor hi \<le> cap \<Longrightarrow> \<exists>c out'. cut_range cap hi bads cursor out = Inr (c, out')
     \<and> length out' \<le> length out + starts_in bads cursor hi"
proof (induction bads arbitrary: cursor out)
  case (Cons b bads)
  obtain lo bhi where b: "b = (lo, bhi)" by (cases b)
  let ?new = "if cursor < lo \<and> lo < hi then 1 else (0 :: nat)"
  have cnt: "starts_in (b # bads) cursor hi = ?new + starts_in bads cursor hi"
    by (simp add: starts_in_def b)
  show ?case
  proof (cases "bhi \<le> cursor \<or> lo \<ge> hi")
    case True
    have "length out + starts_in bads cursor hi \<le> cap" using Cons.prems cnt by simp
    from Cons.IH[OF this] True cnt show ?thesis by (fastforce simp: b)
  next
    case False
    let ?mid = "if lo > cursor then out @ [(cursor, lo)] else out"
    have push: "(if lo > cursor then push_range cap (cursor, lo) out else Inr out) = Inr ?mid"
      using Cons.prems cnt False by (auto simp: push_range_def)
    have len: "length ?mid = length out + ?new" using False by simp
    have mono: "starts_in bads (max cursor bhi) hi \<le> starts_in bads cursor hi" by (rule starts_in_mono) simp
    show ?thesis
    proof (cases "max cursor bhi \<ge> hi")
      case True
      then have "cut_range cap hi (b # bads) cursor out = Inr (max cursor bhi, ?mid)"
        using False push by (simp add: b Let_def)
      then show ?thesis using len cnt by simp
    next
      case more: False
      then have run: "cut_range cap hi (b # bads) cursor out = cut_range cap hi bads (max cursor bhi) ?mid"
        using False push by (simp add: b Let_def)
      have "length ?mid + starts_in bads (max cursor bhi) hi \<le> cap" using len mono cnt Cons.prems by simp
      from Cons.IH[OF this] obtain c out' where
        "cut_range cap hi bads (max cursor bhi) ?mid = Inr (c, out')"
        "length out' \<le> length ?mid + starts_in bads (max cursor bhi) hi" by blast
      with run len mono cnt show ?thesis by simp
    qed
  qed
qed simp

text \<open>A bad range starts inside at most one of the ranges it is subtracted from.\<close>

lemma hits_at_most_one:
  "separated rs \<Longrightarrow> sum_list (map (\<lambda>(lo, hi). if lo < x \<and> x < hi then 1 else 0) rs) \<le> (1 :: nat)"
proof -
  have zero: "sum_list (map (\<lambda>(lo, hi). if lo < x \<and> x < hi then 1 else 0) rs) = (0 :: nat)"
    if "separated rs" "rs \<noteq> [] \<longrightarrow> x \<le> fst (hd rs)" for rs
    using that by (induction rs rule: separated.induct) auto
  show "separated rs \<Longrightarrow> sum_list (map (\<lambda>(lo, hi). if lo < x \<and> x < hi then 1 else 0) rs) \<le> (1 :: nat)"
  proof (induction rs rule: separated.induct)
    case (3 r r' rs)
    show ?case
    proof (cases "fst r < x \<and> x < snd r")
      case True
      then have "sum_list (map (\<lambda>(lo, hi). if lo < x \<and> x < hi then 1 else 0) (r' # rs)) = (0 :: nat)"
        using 3 by (intro zero) auto
      then show ?thesis by (cases r) (simp only: list.map sum_list.Cons prod.case add_0_right split: if_split, simp)
    next
      case False
      then have "sum_list (map (\<lambda>(lo, hi). if lo < x \<and> x < hi then 1 else 0) (r # r' # rs))
          = sum_list (map (\<lambda>(lo, hi). if lo < x \<and> x < hi then 1 else (0 :: nat)) (r' # rs))"
        by (cases r) (simp only: list.map sum_list.Cons prod.case fst_conv snd_conv if_False add_0)
      then show ?thesis using 3(1) 3(2) by (simp only: separated.simps(3))
    qed
  qed (auto split: prod.splits)
qed

lemma starts_in_total:
  "separated rs \<Longrightarrow> sum_list (map (\<lambda>(lo, hi). starts_in bads lo hi) rs) \<le> length bads"
proof (induction bads)
  case (Cons b bads)
  have "sum_list (map (\<lambda>(lo, hi). starts_in (b # bads) lo hi) rs)
      = sum_list (map (\<lambda>(lo, hi). if lo < fst b \<and> fst b < hi then 1 else 0) rs)
        + sum_list (map (\<lambda>(lo, hi). starts_in bads lo hi) rs)"
    unfolding sum_list_addf[symmetric] by (rule arg_cong[of _ _ sum_list]) (auto simp: starts_in_def)
  with hits_at_most_one[OF Cons.prems, of "fst b"] Cons show ?case by simp
qed (induction rs, auto simp: starts_in_def)

lemma subtract_ranges_returns:
  assumes "separated good" and "length good + length bads \<le> cap"
  shows "\<exists>rs. subtract_ranges cap good bads = Inr rs"
proof -
  have "\<exists>rs. for_each xs (subtract_one cap bads) out = Inr rs"
    if "length out + length xs + sum_list (map (\<lambda>(lo, hi). starts_in bads lo hi) xs) \<le> cap" for xs out
    using that
  proof (induction xs arbitrary: out)
    case (Cons x xs)
    obtain lo hi where x: "x = (lo, hi)" by (cases x)
    have "length out + starts_in bads lo hi \<le> cap" using Cons.prems by (simp add: x)
    from cut_range_returns[OF this] obtain c out' where
      cut: "cut_range cap hi bads lo out = Inr (c, out')" "length out' \<le> length out + starts_in bads lo hi" by blast
    obtain mid where mid: "subtract_one cap bads x out = Inr mid" "length mid \<le> Suc (length out')"
      using cut Cons.prems by (cases "c < hi") (simp_all add: subtract_one_def x push_range_def)
    have "length mid + length xs + sum_list (map (\<lambda>(lo, hi). starts_in bads lo hi) xs) \<le> cap"
      using mid(2) cut(2) Cons.prems by (simp add: x)
    from Cons.IH[OF this] mid(1) show ?case by simp
  qed simp
  from this[of "[]" good] starts_in_total[OF assms(1), of bads] assms(2)
  show ?thesis by (simp add: subtract_ranges_def)
qed

subsection \<open>Properties\<close>

text \<open>
  The kernel maps good memory and only good memory: for a memory map of at most 128 entries
  that end a page below 2^64, both merges and the subtraction return, and an address is in the
  ranges \<open>map_hhdm\<close> maps exactly when its page contains an address of some entry that is not bad
  memory and none of any bad one, however the entries overlap, are ordered or miss page boundaries.
\<close>
theorem hhdm_ranges_exact:
  assumes "length entries \<le> MAX_MEMMAP_RANGES"
    and "\<forall>e\<in>set entries. me_base e + me_length e + FRAME_SIZE < u64_limit"
  shows "\<exists>mappable bad to_map.
      merge_ranges entries (\<lambda>e. \<not> bad_memory e) (u64_limit - 1) MAX_MEMMAP_RANGES = Inr mappable
    \<and> merge_ranges entries bad_memory (u64_limit - 1) MAX_MEMMAP_RANGES = Inr bad
    \<and> subtract_ranges MAX_MEMMAP_RANGES mappable bad = Inr to_map
    \<and> (\<forall>v. v \<in> points to_map \<longleftrightarrow>
         (\<exists>e\<in>set entries. \<not> bad_memory e \<and> (\<exists>a. me_base e \<le> a \<and> a < me_base e + me_length e
            \<and> a div FRAME_SIZE = v div FRAME_SIZE))
       \<and> \<not> (\<exists>e\<in>set entries. bad_memory e \<and> (\<exists>a. me_base e \<le> a \<and> a < me_base e + me_length e
            \<and> a div FRAME_SIZE = v div FRAME_SIZE)))"
proof -
  have total: "length (filter (\<lambda>e. \<not> bad_memory e) entries) + length (filter bad_memory entries) = length entries"
    using sum_length_filter_compl[of bad_memory entries] by simp
  have caps: "length (filter (\<lambda>e. \<not> bad_memory e) entries) \<le> MAX_MEMMAP_RANGES"
    "length (filter bad_memory entries) \<le> MAX_MEMMAP_RANGES"
    using total assms(1) by linarith+
  obtain mappable where m: "merge_ranges entries (\<lambda>e. \<not> bad_memory e) (u64_limit - 1) MAX_MEMMAP_RANGES = Inr mappable"
    "length mappable \<le> length (filter (\<lambda>e. \<not> bad_memory e) entries)"
    using merge_ranges_returns[OF assms(2) caps(1), of "u64_limit - 1"] by blast
  obtain bad where b: "merge_ranges entries bad_memory (u64_limit - 1) MAX_MEMMAP_RANGES = Inr bad"
    "length bad \<le> length (filter bad_memory entries)"
    using merge_ranges_returns[OF assms(2) caps(2), of "u64_limit - 1"] by blast
  obtain to_map where t: "subtract_ranges MAX_MEMMAP_RANGES mappable bad = Inr to_map"
  proof -
    have "length mappable + length bad \<le> MAX_MEMMAP_RANGES" using m(2) b(2) total assms(1) by linarith
    from subtract_ranges_returns[OF merge_ranges_spec(1)[OF m(1)] this] that show thesis by blast
  qed
  have pts: "points to_map = points mappable - points bad"
    by (rule subtract_ranges_spec[OF t separated_sorted[OF merge_ranges_spec(1)[OF b(1)]]])
  have touch: "touches (u64_limit - 1) e v \<longleftrightarrow> (\<exists>a. me_base e \<le> a \<and> a < me_base e + me_length e
      \<and> a div FRAME_SIZE = v div FRAME_SIZE)" if "e \<in> set entries" for e v
  proof -
    have "me_base e + me_length e < u64_limit - 1" using assms(2) that by (auto simp: FRAME_SIZE_def)
    then have "a < u64_limit - 1" if "a < me_base e + me_length e" for a using that by linarith
    then show ?thesis unfolding touches_def by blast
  qed
  show ?thesis
    using m(1) b(1) t pts merge_ranges_spec(2)[OF m(1)] merge_ranges_spec(2)[OF b(1)] touch by auto
qed

lemma hhdm_ranges_exact_witness:
  "\<exists>mappable bad to_map.
      merge_ranges demo_map (\<lambda>e. \<not> bad_memory e) (u64_limit - 1) MAX_MEMMAP_RANGES = Inr mappable
    \<and> merge_ranges demo_map bad_memory (u64_limit - 1) MAX_MEMMAP_RANGES = Inr bad
    \<and> subtract_ranges MAX_MEMMAP_RANGES mappable bad = Inr to_map \<and> 5000 \<in> points to_map"
proof -
  have ok: "length demo_map \<le> MAX_MEMMAP_RANGES"
    "\<forall>e\<in>set demo_map. me_base e + me_length e + FRAME_SIZE < u64_limit"
    by (simp_all add: demo_map_def MAX_MEMMAP_RANGES_def FRAME_SIZE_def)
  from hhdm_ranges_exact[OF ok] obtain mappable bad to_map where
    r: "merge_ranges demo_map (\<lambda>e. \<not> bad_memory e) (u64_limit - 1) MAX_MEMMAP_RANGES = Inr mappable"
      "merge_ranges demo_map bad_memory (u64_limit - 1) MAX_MEMMAP_RANGES = Inr bad"
      "subtract_ranges MAX_MEMMAP_RANGES mappable bad = Inr to_map"
    and v: "\<forall>v. v \<in> points to_map \<longleftrightarrow>
         (\<exists>e\<in>set demo_map. \<not> bad_memory e \<and> (\<exists>a. me_base e \<le> a \<and> a < me_base e + me_length e
            \<and> a div FRAME_SIZE = v div FRAME_SIZE))
       \<and> \<not> (\<exists>e\<in>set demo_map. bad_memory e \<and> (\<exists>a. me_base e \<le> a \<and> a < me_base e + me_length e
            \<and> a div FRAME_SIZE = v div FRAME_SIZE))" by blast
  have "5000 \<in> points to_map"
    unfolding v[rule_format] by (auto simp: demo_map_def bad_memory_def FRAME_SIZE_def intro!: exI[of _ 5000])
  with r show ?thesis by blast
qed


end
