(* ===== verification/Ring_Buffers.thy ===== *)
theory Ring_Buffers
  imports Prelude
begin

text \<open>
  The kernel's two ring buffers: \<open>SpscRing\<close> (\<open>kernel/src/drivers/ps2/ring.rs\<close>), which the
  keyboard interrupt fills while a thread empties it, and \<open>BootRing\<close>
  (\<open>kernel/src/console/boot_ring.rs\<close>), which keeps the newest bytes of the boot log.  \<open>SpscRing\<close>
  is modelled twice: as the operations one after the other, and as the interleaving of the
  individual loads, the slot access and the store of a concurrent \<open>push\<close> and \<open>pop\<close>.
\<close>

subsection \<open>A bounded queue\<close>

text \<open>
  What a client of a lossy bounded queue relies on: \<open>push\<close> appends unless \<open>cap\<close> values wait,
  \<open>pop\<close> takes the oldest.
\<close>

locale bounded_queue =
  fixes push :: "'a \<Rightarrow> 'q \<Rightarrow> 'q"
    and pop :: "'q \<Rightarrow> 'a option \<times> 'q"
    and contents :: "'q \<Rightarrow> 'a list"
    and inv :: "'q \<Rightarrow> bool"
    and cap :: "'q \<Rightarrow> nat"
  assumes push_contents: "inv q \<Longrightarrow> contents (push v q)
      = (if length (contents q) < cap q then contents q @ [v] else contents q)"
    and push_inv: "inv q \<Longrightarrow> inv (push v q) \<and> cap (push v q) = cap q"
    and pop_contents: "inv q \<Longrightarrow> pop q = (r, q') \<Longrightarrow>
      (case contents q of [] \<Rightarrow> r = None \<and> contents q' = [] | x # xs \<Rightarrow> r = Some x \<and> contents q' = xs)"
    and pop_inv: "inv q \<Longrightarrow> pop q = (r, q') \<Longrightarrow> inv q' \<and> cap q' = cap q"
begin

lemma push_all:
  "inv q \<Longrightarrow> inv (fold push vs q) \<and> cap (fold push vs q) = cap q
    \<and> contents (fold push vs q) = contents q @ take (cap q - length (contents q)) vs"
proof (induction vs arbitrary: q)
  case (Cons v vs)
  note p = push_inv[OF Cons.prems, of v]
  note IH = Cons.IH[of "push v q"] and c = push_contents[OF Cons.prems, of v]
  show ?case
  proof (cases "length (contents q) < cap q")
    case True
    then have "cap q - length (contents q) = Suc (cap q - Suc (length (contents q)))" by simp
    with IH p c True show ?thesis by simp
  qed (use IH p c in simp)
qed simp

fun pop_n :: "nat \<Rightarrow> 'q \<Rightarrow> 'a list \<times> 'q" where
  "pop_n 0 q = ([], q)"
| "pop_n (Suc n) q = (case pop q of (None, q') \<Rightarrow> ([], q')
     | (Some x, q') \<Rightarrow> (let (xs, q'') = pop_n n q' in (x # xs, q'')))"

lemma pop_n_contents:
  "inv q \<Longrightarrow> pop_n n q = (xs, q') \<Longrightarrow> xs = take n (contents q) \<and> contents q' = drop n (contents q) \<and> inv q'"
proof (induction n arbitrary: q xs q')
  case (Suc n)
  obtain r q1 where p: "pop q = (r, q1)" by (cases "pop q")
  note q1 = pop_contents[OF Suc.prems(1) p] pop_inv[OF Suc.prems(1) p]
  show ?case
  proof (cases "contents q")
    case Nil
    with q1 p Suc.prems(2) show ?thesis by simp
  next
    case (Cons y ys)
    obtain zs q2 where rec: "pop_n n q1 = (zs, q2)" by (cases "pop_n n q1")
    with Suc.IH[OF _ rec] q1 p Suc.prems(2) Cons show ?thesis by auto
  qed
qed simp

end

subsection \<open>\<open>SpscRing\<close>\<close>

text \<open>A slot never written is \<open>None\<close> (\<open>MaybeUninit::uninit()\<close>); \<open>N\<close> is the length of the buffer.\<close>

record 'a spsc_ring =
  rg_buf :: "'a option list"
  rg_head :: nat
  rg_tail :: nat
  rg_dropped :: nat

definition ring_new :: "nat \<Rightarrow> 'a spsc_ring" where
  "ring_new n = \<lparr>rg_buf = replicate n None, rg_head = 0, rg_tail = 0, rg_dropped = 0\<rparr>"

definition ring_push :: "'a \<Rightarrow> 'a spsc_ring \<Rightarrow> 'a spsc_ring" where
  "ring_push value r =
     (let n = length (rg_buf r); next = (rg_head r + 1) mod n in
      if next = rg_tail r then r\<lparr>rg_dropped := (rg_dropped r + 1) mod u64_limit\<rparr>
      else r\<lparr>rg_buf := (rg_buf r)[rg_head r := Some value], rg_head := next\<rparr>)"

definition ring_pop :: "'a spsc_ring \<Rightarrow> 'a option \<times> 'a spsc_ring" where
  "ring_pop r =
     (if rg_tail r = rg_head r then (None, r)
      else (rg_buf r ! rg_tail r, r\<lparr>rg_tail := (rg_tail r + 1) mod length (rg_buf r)\<rparr>))"

definition ring_is_empty :: "'a spsc_ring \<Rightarrow> bool" where
  "ring_is_empty r \<longleftrightarrow> rg_tail r = rg_head r"

text \<open>
  The ring with the history it stands for: \<open>acc\<close> the values accepted so far and \<open>k\<close> how many of
  them were popped.  Both cursors are these counts modulo the buffer length.
\<close>

definition ring_holds :: "'a list \<Rightarrow> nat \<Rightarrow> 'a spsc_ring \<Rightarrow> bool" where
  "ring_holds acc k r \<longleftrightarrow> 0 < length (rg_buf r) \<and> k \<le> length acc \<and> length acc < k + length (rg_buf r)
     \<and> rg_head r = length acc mod length (rg_buf r) \<and> rg_tail r = k mod length (rg_buf r)
     \<and> (\<forall>i. k \<le> i \<and> i < length acc \<longrightarrow> rg_buf r ! (i mod length (rg_buf r)) = Some (acc ! i))"

lemma ring_new_holds: "0 < n \<Longrightarrow> ring_holds [] 0 (ring_new n)"
  by (simp add: ring_holds_def ring_new_def)

lemma mod_eq_window:
  fixes x y n :: nat
  assumes "x \<le> y" "y < x + n"
  shows "x mod n = y mod n \<longleftrightarrow> x = y"
proof
  assume "x mod n = y mod n"
  then have "n dvd y - x" using assms(1) by (metis mod_eq_dvd_iff_nat)
  moreover have "y - x < n" using assms by linarith
  ultimately have "y - x = 0" using nat_dvd_not_less by blast
  with assms(1) show "x = y" by simp
qed simp

lemma full_test:
  fixes k a n :: nat
  assumes "k \<le> a" "a < k + n"
  shows "Suc (a mod n) mod n = k mod n \<longleftrightarrow> a + 1 = k + n"
proof (cases "a + 1 = k + n")
  case True
  then have "Suc a = k + n" by simp
  then have "Suc a mod n = k mod n" by (metis mod_add_self2)
  with True show ?thesis by (simp add: mod_Suc_eq)
next
  case False
  then have "k \<le> Suc a" "Suc a < k + n" using assms by auto
  from mod_eq_window[OF this] assms(1) have "k mod n \<noteq> Suc a mod n" by simp
  with False show ?thesis by (simp add: mod_Suc_eq)
qed

lemma ring_write_keeps:
  assumes "ring_holds acc k r" and "length acc + 1 < k + length (rg_buf r)"
  shows "ring_holds (acc @ [v]) k (r\<lparr>rg_buf := (rg_buf r)[rg_head r := Some v],
     rg_head := Suc (rg_head r) mod length (rg_buf r)\<rparr>)"
proof -
  let ?n = "length (rg_buf r)"
  note h = assms(1)[unfolded ring_holds_def]
  have "(rg_buf r)[rg_head r := Some v] ! (i mod ?n) = Some ((acc @ [v]) ! i)"
    if "k \<le> i" "i < length (acc @ [v])" for i
  proof (cases "i = length acc")
    case True
    then show ?thesis using h by (simp add: nth_list_update)
  next
    case False
    then have i: "i < length acc" using that(2) by simp
    have "i mod ?n \<noteq> length acc mod ?n"
      using mod_eq_window[of i "length acc" ?n] i h that(1) by auto
    then show ?thesis using h that(1) i by (simp add: nth_list_update nth_append)
  qed
  then show ?thesis using h assms(2) by (simp add: ring_holds_def mod_Suc_eq)
qed

lemma ring_push_holds:
  assumes "ring_holds acc k r"
  shows "if length acc + 1 < k + length (rg_buf r) then ring_holds (acc @ [v]) k (ring_push v r)
    else ring_holds acc k (ring_push v r) \<and> rg_dropped (ring_push v r) = (rg_dropped r + 1) mod u64_limit"
proof -
  let ?n = "length (rg_buf r)"
  note h = assms[unfolded ring_holds_def]
  have test: "(rg_head r + 1) mod ?n = rg_tail r \<longleftrightarrow> length acc + 1 = k + ?n"
    using full_test[of k "length acc" ?n] h by simp
  show ?thesis
  proof (cases "length acc + 1 = k + ?n")
    case True
    then show ?thesis using test h by (simp add: ring_push_def ring_holds_def)
  next
    case False
    then have room: "length acc + 1 < k + ?n" using h by simp
    have "ring_push v r = r\<lparr>rg_buf := (rg_buf r)[rg_head r := Some v], rg_head := Suc (rg_head r) mod ?n\<rparr>"
      using False test by (simp add: ring_push_def Let_def)
    with ring_write_keeps[OF assms room] room show ?thesis by simp
  qed
qed

lemma ring_pop_holds:
  assumes "ring_holds acc k r" and "ring_pop r = (x, r')"
  shows "if k = length acc then x = None \<and> r' = r
    else x = Some (acc ! k) \<and> ring_holds acc (Suc k) r'"
proof -
  note h = assms(1)[unfolded ring_holds_def]
  have "rg_tail r = rg_head r \<longleftrightarrow> k = length acc"
    using mod_eq_window[of k "length acc" "length (rg_buf r)"] h by auto
  then show ?thesis using assms(2) h by (auto simp: ring_pop_def ring_holds_def mod_Suc_eq)
qed

text \<open>The values waiting in the ring, and the bounded queue they form.\<close>

definition ring_contents :: "'a spsc_ring \<Rightarrow> 'a list" where
  "ring_contents r = (let n = length (rg_buf r) in
     map (\<lambda>i. the (rg_buf r ! ((rg_tail r + i) mod n))) [0..<(rg_head r + n - rg_tail r) mod n])"

definition ring_inv :: "'a spsc_ring \<Rightarrow> bool" where
  "ring_inv r \<longleftrightarrow> (\<exists>acc k. ring_holds acc k r)"

definition ring_capacity :: "'a spsc_ring \<Rightarrow> nat" where
  "ring_capacity r = length (rg_buf r) - 1"

lemma window_length:
  fixes k a n :: nat
  assumes "0 < n" "k \<le> a" "a < k + n"
  shows "(a mod n + n - k mod n) mod n = a - k"
proof -
  define d r where "d = a - k" and "r = k mod n"
  have d: "a = k + d" "d < n" using assms by (auto simp: d_def)
  have r: "r < n" using assms(1) by (simp add: r_def)
  have am: "a mod n = (r + d) mod n" by (simp add: d(1) r_def mod_add_left_eq)
  show ?thesis
  proof (cases "r + d < n")
    case True
    then have "a mod n + n - k mod n = d + n" using am by (simp add: r_def)
    then show ?thesis using d by simp
  next
    case False
    then have "a mod n = r + d - n" using am r d(2) by (simp add: le_mod_geq)
    then have "a mod n + n - k mod n = d" using False by (simp add: r_def)
    then show ?thesis using d by simp
  qed
qed

lemma ring_contents_holds:
  assumes "ring_holds acc k r"
  shows "ring_contents r = drop k acc"
proof (rule nth_equalityI)
  note h = assms[unfolded ring_holds_def]
  have len: "(rg_head r + length (rg_buf r) - rg_tail r) mod length (rg_buf r) = length acc - k"
    using window_length[of "length (rg_buf r)" k "length acc"] h by simp
  have d: "k \<le> length acc" using h by simp
  show "length (ring_contents r) = length (drop k acc)" by (simp add: ring_contents_def len)
  fix i assume "i < length (ring_contents r)"
  then have i: "i < length acc - k" by (simp add: ring_contents_def len)
  then have "rg_buf r ! ((k + i) mod length (rg_buf r)) = Some (acc ! (k + i))" using h by simp
  moreover have "rg_tail r = k mod length (rg_buf r)" using h by simp
  ultimately show "ring_contents r ! i = drop k acc ! i"
    using i d unfolding ring_contents_def Let_def len by (simp add: mod_add_left_eq)
qed

interpretation spsc: bounded_queue ring_push ring_pop ring_contents ring_inv ring_capacity
proof
  fix q :: "'a spsc_ring" and v
  assume "ring_inv q"
  then obtain acc k where h: "ring_holds acc k q" by (auto simp: ring_inv_def)
  then have d: "k \<le> length acc" "0 < length (rg_buf q)" by (simp_all add: ring_holds_def)
  note p = ring_push_holds[OF h, of v]
  have room: "length (ring_contents q) < ring_capacity q \<longleftrightarrow> length acc + 1 < k + length (rg_buf q)"
    using d by (auto simp: ring_contents_holds[OF h] ring_capacity_def)
  show "ring_contents (ring_push v q)
      = (if length (ring_contents q) < ring_capacity q then ring_contents q @ [v] else ring_contents q)"
    using p room d by (auto simp: ring_contents_holds[OF h] ring_contents_holds split: if_splits)
  have "length (rg_buf (ring_push v q)) = length (rg_buf q)" by (simp add: ring_push_def Let_def)
  then show "ring_inv (ring_push v q) \<and> ring_capacity (ring_push v q) = ring_capacity q"
    using p by (auto simp: ring_inv_def ring_capacity_def split: if_splits)
next
  fix q q' :: "'a spsc_ring" and r
  assume "ring_inv q" and pop: "ring_pop q = (r, q')"
  then obtain acc k where h: "ring_holds acc k q" by (auto simp: ring_inv_def)
  note p = ring_pop_holds[OF h pop]
  have k: "k \<le> length acc" using h by (simp add: ring_holds_def)
  show "case ring_contents q of [] \<Rightarrow> r = None \<and> ring_contents q' = []
      | x # xs \<Rightarrow> r = Some x \<and> ring_contents q' = xs"
  proof (cases "k = length acc")
    case True
    then show ?thesis using p h by (simp add: ring_contents_holds)
  next
    case False
    then have "drop k acc = acc ! k # drop (Suc k) acc" using k by (simp add: Cons_nth_drop_Suc)
    then show ?thesis using p h False by (simp add: ring_contents_holds)
  qed
  have "length (rg_buf q') = length (rg_buf q)" using pop by (auto simp: ring_pop_def split: if_splits)
  then show "ring_inv q' \<and> ring_capacity q' = ring_capacity q"
    using p h by (auto simp: ring_inv_def ring_capacity_def split: if_splits)
qed

subsection \<open>A push and a pop at the same time\<close>

text \<open>
  The interrupt handler is the only producer and one thread the only consumer; each load of the
  other side's cursor, the slot access and the store of the own cursor is a step of its own.  Each
  side's own cursor is written by nobody else, so its load needs no step.  \<open>accepted\<close> and
  \<open>taken\<close> record the values published and handed out so far.
\<close>

datatype 'a producer = P_idle | P_loaded 'a nat | P_written 'a

datatype 'a consumer = C_idle | C_loaded nat | C_read 'a

record 'a spsc_run =
  ru_ring :: "'a spsc_ring"
  ru_producer :: "'a producer"
  ru_consumer :: "'a consumer"
  ru_accepted :: "'a list"
  ru_taken :: "'a list"

inductive spsc_step :: "'a spsc_run \<Rightarrow> 'a spsc_run \<Rightarrow> bool" where
  push_load: "ru_producer s = P_idle
    \<Longrightarrow> spsc_step s (s\<lparr>ru_producer := P_loaded v (rg_tail (ru_ring s))\<rparr>)"
| push_full: "ru_producer s = P_loaded v t
    \<Longrightarrow> (rg_head (ru_ring s) + 1) mod length (rg_buf (ru_ring s)) = t
    \<Longrightarrow> spsc_step s (s\<lparr>ru_producer := P_idle,
          ru_ring := (ru_ring s)\<lparr>rg_dropped := (rg_dropped (ru_ring s) + 1) mod u64_limit\<rparr>\<rparr>)"
| push_write: "ru_producer s = P_loaded v t
    \<Longrightarrow> (rg_head (ru_ring s) + 1) mod length (rg_buf (ru_ring s)) \<noteq> t
    \<Longrightarrow> spsc_step s (s\<lparr>ru_producer := P_written v,
          ru_ring := (ru_ring s)\<lparr>rg_buf := (rg_buf (ru_ring s))[rg_head (ru_ring s) := Some v]\<rparr>\<rparr>)"
| push_publish: "ru_producer s = P_written v
    \<Longrightarrow> spsc_step s (s\<lparr>ru_producer := P_idle, ru_accepted := ru_accepted s @ [v],
          ru_ring := (ru_ring s)\<lparr>rg_head := (rg_head (ru_ring s) + 1) mod length (rg_buf (ru_ring s))\<rparr>\<rparr>)"
| pop_load: "ru_consumer s = C_idle
    \<Longrightarrow> spsc_step s (s\<lparr>ru_consumer := C_loaded (rg_head (ru_ring s))\<rparr>)"
| pop_empty: "ru_consumer s = C_loaded h \<Longrightarrow> rg_tail (ru_ring s) = h
    \<Longrightarrow> spsc_step s (s\<lparr>ru_consumer := C_idle\<rparr>)"
| pop_read: "ru_consumer s = C_loaded h \<Longrightarrow> rg_tail (ru_ring s) \<noteq> h
    \<Longrightarrow> rg_buf (ru_ring s) ! rg_tail (ru_ring s) = Some v
    \<Longrightarrow> spsc_step s (s\<lparr>ru_consumer := C_read v\<rparr>)"
| pop_publish: "ru_consumer s = C_read v
    \<Longrightarrow> spsc_step s (s\<lparr>ru_consumer := C_idle, ru_taken := ru_taken s @ [v],
          ru_ring := (ru_ring s)\<lparr>rg_tail := (rg_tail (ru_ring s) + 1) mod length (rg_buf (ru_ring s))\<rparr>\<rparr>)"

definition run_start :: "nat \<Rightarrow> 'a spsc_run" where
  "run_start n = \<lparr>ru_ring = ring_new n, ru_producer = P_idle, ru_consumer = C_idle, ru_accepted = [], ru_taken = []\<rparr>"

inductive spsc_reachable :: "nat \<Rightarrow> 'a spsc_run \<Rightarrow> bool" for n where
  run_init: "spsc_reachable n (run_start n)"
| run_step: "spsc_reachable n s \<Longrightarrow> spsc_step s s' \<Longrightarrow> spsc_reachable n s'"

text \<open>
  The invariant: the ring holds the accepted values from the first not taken on; a tail the
  producer loaded may be stale but never ahead, a head the consumer loaded likewise.
\<close>

definition producer_ok :: "'a spsc_run \<Rightarrow> bool" where
  "producer_ok s \<longleftrightarrow> (let a = length (ru_accepted s); k = length (ru_taken s); n = length (rg_buf (ru_ring s)) in
     case ru_producer s of
       P_idle \<Rightarrow> True
     | P_loaded v t \<Rightarrow> \<exists>j\<le>k. t = j mod n \<and> a < j + n
     | P_written v \<Rightarrow> a + 1 < k + n \<and> rg_buf (ru_ring s) ! (a mod n) = Some v)"

definition consumer_ok :: "'a spsc_run \<Rightarrow> bool" where
  "consumer_ok s \<longleftrightarrow> (let a = length (ru_accepted s); k = length (ru_taken s); n = length (rg_buf (ru_ring s)) in
     case ru_consumer s of
       C_idle \<Rightarrow> True
     | C_loaded h \<Rightarrow> \<exists>j. k \<le> j \<and> j \<le> a \<and> h = j mod n
     | C_read v \<Rightarrow> k < a \<and> v = ru_accepted s ! k)"

definition run_inv :: "'a spsc_run \<Rightarrow> bool" where
  "run_inv s \<longleftrightarrow> ring_holds (ru_accepted s) (length (ru_taken s)) (ru_ring s)
     \<and> ru_taken s = take (length (ru_taken s)) (ru_accepted s) \<and> producer_ok s \<and> consumer_ok s"

lemmas run_defs = run_inv_def producer_ok_def consumer_ok_def Let_def

lemma nth_write_other:
  fixes k i a n :: nat
  assumes "k \<le> i" "i < a" "a < k + n"
  shows "xs[a mod n := v] ! (i mod n) = xs ! (i mod n)"
proof -
  have "i mod n \<noteq> a mod n" using mod_eq_window[of i a n] assms by simp
  then show ?thesis by simp
qed

text \<open>Writing the slot at \<open>head\<close> while there is room touches no value that waits.\<close>

lemma ring_slot_free:
  assumes "ring_holds acc k r" "length acc + 1 < k + length (rg_buf r)"
  shows "ring_holds acc k (r\<lparr>rg_buf := (rg_buf r)[rg_head r := Some v]\<rparr>)"
    and "(rg_buf r)[rg_head r := Some v] ! (length acc mod length (rg_buf r)) = Some v"
proof -
  note h = assms(1)[unfolded ring_holds_def]
  show "ring_holds acc k (r\<lparr>rg_buf := (rg_buf r)[rg_head r := Some v]\<rparr>)"
    using h by (auto simp: ring_holds_def nth_write_other[of k _ "length acc" "length (rg_buf r)"])
  show "(rg_buf r)[rg_head r := Some v] ! (length acc mod length (rg_buf r)) = Some v"
    using h by simp
qed

lemma run_inv_push_load:
  assumes "run_inv s"
  shows "run_inv (s\<lparr>ru_producer := P_loaded v (rg_tail (ru_ring s))\<rparr>)"
  using assms by (auto simp: run_defs ring_holds_def split: consumer.splits)

lemma run_inv_push_full:
  assumes "run_inv s"
  shows "run_inv (s\<lparr>ru_producer := P_idle, ru_ring := (ru_ring s)\<lparr>rg_dropped := d\<rparr>\<rparr>)"
  using assms by (auto simp: run_defs ring_holds_def split: consumer.splits)

lemma run_inv_push_write:
  assumes inv: "run_inv s" and p: "ru_producer s = P_loaded v t"
    and room: "(rg_head (ru_ring s) + 1) mod length (rg_buf (ru_ring s)) \<noteq> t"
  shows "run_inv (s\<lparr>ru_producer := P_written v,
     ru_ring := (ru_ring s)\<lparr>rg_buf := (rg_buf (ru_ring s))[rg_head (ru_ring s) := Some v]\<rparr>\<rparr>)"
proof -
  let ?n = "length (rg_buf (ru_ring s))" and ?a = "length (ru_accepted s)" and ?k = "length (ru_taken s)"
  from inv have h: "ring_holds (ru_accepted s) ?k (ru_ring s)" by (simp add: run_inv_def)
  from inv p obtain j where j: "j \<le> ?k" "t = j mod ?n" "?a < j + ?n" by (auto simp: run_defs)
  have "?a + 1 \<noteq> j + ?n" using full_test[of j ?a ?n] room j h by (simp add: ring_holds_def)
  with j have r: "?a + 1 < ?k + ?n" by simp
  show ?thesis
    using inv r ring_slot_free[OF h r, of v] by (auto simp: run_defs split: consumer.splits)
qed

lemma run_inv_push_publish:
  assumes inv: "run_inv s" and p: "ru_producer s = P_written v"
  shows "run_inv (s\<lparr>ru_producer := P_idle, ru_accepted := ru_accepted s @ [v],
     ru_ring := (ru_ring s)\<lparr>rg_head := (rg_head (ru_ring s) + 1) mod length (rg_buf (ru_ring s))\<rparr>\<rparr>)"
proof -
  let ?n = "length (rg_buf (ru_ring s))" and ?a = "length (ru_accepted s)" and ?k = "length (ru_taken s)"
  from inv have h: "ring_holds (ru_accepted s) ?k (ru_ring s)"
    and t: "ru_taken s = take ?k (ru_accepted s)" by (simp_all add: run_inv_def)
  from inv p have w: "?a + 1 < ?k + ?n" "rg_buf (ru_ring s) ! (?a mod ?n) = Some v"
    by (auto simp: run_defs)
  have "ring_holds (ru_accepted s @ [v]) ?k
      ((ru_ring s)\<lparr>rg_head := (rg_head (ru_ring s) + 1) mod ?n\<rparr>)"
    using h w by (auto simp: ring_holds_def nth_append mod_Suc_eq less_Suc_eq)
  moreover have "?k \<le> ?a" using h by (simp add: ring_holds_def)
  moreover have "consumer_ok (s\<lparr>ru_producer := P_idle, ru_accepted := ru_accepted s @ [v],
     ru_ring := (ru_ring s)\<lparr>rg_head := (rg_head (ru_ring s) + 1) mod ?n\<rparr>\<rparr>)"
  proof (cases "ru_consumer s")
    case (C_loaded g)
    with inv obtain j where "?k \<le> j" "j \<le> ?a" "g = j mod ?n" by (auto simp: run_defs)
    then have "?k \<le> j \<and> j \<le> Suc ?a \<and> g = j mod ?n" by simp
    then show ?thesis using C_loaded unfolding consumer_ok_def Let_def by auto
  qed (use inv in \<open>auto simp: run_defs nth_append\<close>)
  ultimately show ?thesis using t by (simp add: run_inv_def producer_ok_def)
qed

lemma run_inv_pop_load:
  assumes "run_inv s"
  shows "run_inv (s\<lparr>ru_consumer := C_loaded (rg_head (ru_ring s))\<rparr>)"
  using assms by (auto simp: run_defs ring_holds_def split: producer.splits)

lemma run_inv_pop_empty:
  assumes "run_inv s"
  shows "run_inv (s\<lparr>ru_consumer := C_idle\<rparr>)"
  using assms by (auto simp: run_defs split: producer.splits)

text \<open>The slot the consumer reads has been published: never uninitialised, never a torn value.\<close>

lemma pop_reads_published:
  assumes inv: "run_inv s" and c: "ru_consumer s = C_loaded h" and ne: "rg_tail (ru_ring s) \<noteq> h"
  shows "length (ru_taken s) < length (ru_accepted s)"
    and "rg_buf (ru_ring s) ! rg_tail (ru_ring s) = Some (ru_accepted s ! length (ru_taken s))"
proof -
  let ?n = "length (rg_buf (ru_ring s))" and ?a = "length (ru_accepted s)" and ?k = "length (ru_taken s)"
  from inv have h: "ring_holds (ru_accepted s) ?k (ru_ring s)" by (simp add: run_inv_def)
  from inv c obtain j where j: "?k \<le> j" "j \<le> ?a" "h = j mod ?n" by (auto simp: run_defs)
  have "j \<noteq> ?k" using ne j h by (auto simp: ring_holds_def)
  with j show k: "?k < ?a" by simp
  with h show "rg_buf (ru_ring s) ! rg_tail (ru_ring s) = Some (ru_accepted s ! ?k)"
    by (simp add: ring_holds_def)
qed

lemma run_inv_pop_read:
  assumes inv: "run_inv s" and c: "ru_consumer s = C_loaded h" and ne: "rg_tail (ru_ring s) \<noteq> h"
    and v: "rg_buf (ru_ring s) ! rg_tail (ru_ring s) = Some v"
  shows "run_inv (s\<lparr>ru_consumer := C_read v\<rparr>)"
  using inv pop_reads_published[OF inv c ne] v by (auto simp: run_defs split: producer.splits)

lemma run_inv_pop_publish:
  assumes inv: "run_inv s" and c: "ru_consumer s = C_read v"
  shows "run_inv (s\<lparr>ru_consumer := C_idle, ru_taken := ru_taken s @ [v],
     ru_ring := (ru_ring s)\<lparr>rg_tail := (rg_tail (ru_ring s) + 1) mod length (rg_buf (ru_ring s))\<rparr>\<rparr>)"
proof -
  let ?n = "length (rg_buf (ru_ring s))" and ?a = "length (ru_accepted s)" and ?k = "length (ru_taken s)"
  from inv have h: "ring_holds (ru_accepted s) ?k (ru_ring s)"
    and t: "ru_taken s = take ?k (ru_accepted s)" by (simp_all add: run_inv_def)
  from inv c have r: "?k < ?a" "v = ru_accepted s ! ?k" by (auto simp: run_defs)
  have "ru_taken s @ [v] = take (Suc ?k) (ru_accepted s)"
    using t r by (metis take_Suc_conv_app_nth)
  moreover have "ring_holds (ru_accepted s) (Suc ?k)
      ((ru_ring s)\<lparr>rg_tail := (rg_tail (ru_ring s) + 1) mod ?n\<rparr>)"
    using h r by (auto simp: ring_holds_def mod_Suc_eq)
  moreover have "producer_ok (s\<lparr>ru_consumer := C_idle, ru_taken := ru_taken s @ [v],
     ru_ring := (ru_ring s)\<lparr>rg_tail := (rg_tail (ru_ring s) + 1) mod ?n\<rparr>\<rparr>)"
  proof (cases "ru_producer s")
    case (P_loaded w t')
    with inv obtain j where "j \<le> ?k" "t' = j mod ?n" "?a < j + ?n" by (auto simp: run_defs)
    then have "j \<le> Suc ?k \<and> t' = j mod ?n \<and> ?a < j + ?n" by simp
    then show ?thesis using P_loaded unfolding producer_ok_def Let_def by auto
  qed (use inv in \<open>auto simp: run_defs\<close>)
  moreover have "min ?a (Suc ?k) = Suc ?k" using r(1) by simp
  ultimately show ?thesis by (simp add: run_inv_def consumer_ok_def)
qed

lemma spsc_step_inv: "spsc_step s s' \<Longrightarrow> run_inv s \<Longrightarrow> run_inv s'"
proof (induction rule: spsc_step.induct)
  case (push_write s v t)
  then show ?case by (intro run_inv_push_write)
next
  case (pop_read s h v)
  then show ?case by (intro run_inv_pop_read)
qed (simp_all add: run_inv_push_load run_inv_push_full run_inv_push_publish run_inv_pop_load
    run_inv_pop_empty run_inv_pop_publish del: One_nat_def)

lemma spsc_step_buf: "spsc_step s s' \<Longrightarrow> length (rg_buf (ru_ring s')) = length (rg_buf (ru_ring s))"
  by (induction rule: spsc_step.induct) simp_all

lemma spsc_reachable_inv:
  "spsc_reachable n s \<Longrightarrow> 0 < n \<Longrightarrow> run_inv s \<and> length (rg_buf (ru_ring s)) = n"
proof (induction rule: spsc_reachable.induct)
  case run_init
  then show ?case using ring_new_holds[of n]
    by (simp add: run_defs run_start_def) (simp add: ring_new_def)
next
  case (run_step s s')
  then show ?case using spsc_step_inv spsc_step_buf by metis
qed

text \<open>
  C19. However an interrupt-time \<open>push\<close> and a \<open>pop\<close> interleave, load by load and store by
  store, the values handed out are the values accepted, in order and each once, at most \<open>N - 1\<close>
  accepted values wait, and a consumer past its emptiness test always finds in its slot the oldest
  waiting value: \<open>assume_init\<close> never reads a slot that was not written.
\<close>

theorem spsc_fifo:
  assumes "spsc_reachable n s" and "0 < n"
  shows "ru_taken s = take (length (ru_taken s)) (ru_accepted s)
    \<and> length (ru_accepted s) \<le> length (ru_taken s) + (n - 1)
    \<and> (case ru_consumer s of
         C_loaded h \<Rightarrow> rg_tail (ru_ring s) \<noteq> h \<longrightarrow> length (ru_taken s) < length (ru_accepted s)
           \<and> rg_buf (ru_ring s) ! rg_tail (ru_ring s) = Some (ru_accepted s ! length (ru_taken s))
       | C_read v \<Rightarrow> v = ru_accepted s ! length (ru_taken s)
       | C_idle \<Rightarrow> True)"
proof -
  from spsc_reachable_inv[OF assms] have inv: "run_inv s" and n: "length (rg_buf (ru_ring s)) = n"
    by simp_all
  then have "length (ru_accepted s) \<le> length (ru_taken s) + (n - 1)"
    and "consumer_ok s" and "ru_taken s = take (length (ru_taken s)) (ru_accepted s)"
    by (auto simp: run_inv_def ring_holds_def)
  then show ?thesis using pop_reads_published[OF inv]
    by (simp add: consumer_ok_def Let_def split: consumer.splits)
qed

text \<open>A two-slot ring after one push, with the consumer about to read.\<close>

definition demo_ring_run :: "nat spsc_run" where
  "demo_ring_run = \<lparr>ru_ring = \<lparr>rg_buf = [Some 7, None], rg_head = 1, rg_tail = 0, rg_dropped = 0\<rparr>,
     ru_producer = P_idle, ru_consumer = C_loaded 1, ru_accepted = [7], ru_taken = []\<rparr>"

lemma demo_ring_reachable: "spsc_reachable 2 demo_ring_run"
proof -
  let ?s0 = "run_start 2 :: nat spsc_run"
  let ?s1 = "?s0\<lparr>ru_producer := P_loaded 7 0\<rparr>"
  let ?s2 = "?s1\<lparr>ru_producer := P_written 7, ru_ring := (ru_ring ?s1)\<lparr>rg_buf := [Some 7, None]\<rparr>\<rparr>"
  let ?s3 = "?s2\<lparr>ru_producer := P_idle, ru_accepted := [7], ru_ring := (ru_ring ?s2)\<lparr>rg_head := 1\<rparr>\<rparr>"
  have "spsc_reachable 2 ?s0" by (rule run_init)
  moreover have "spsc_step ?s0 ?s1"
    using push_load[of ?s0 7] by (simp add: run_start_def ring_new_def)
  moreover have "spsc_step ?s1 ?s2"
    using push_write[of ?s1 7 0] by (simp add: run_start_def ring_new_def numeral_2_eq_2)
  moreover have "spsc_step ?s2 ?s3"
    using push_publish[of ?s2 7] by (simp add: run_start_def ring_new_def)
  moreover have "spsc_step ?s3 demo_ring_run"
    using pop_load[of ?s3] by (simp add: run_start_def ring_new_def demo_ring_run_def)
  ultimately show ?thesis by (meson run_step)
qed

theorem spsc_fifo_witness:
  "rg_buf (ru_ring demo_ring_run) ! rg_tail (ru_ring demo_ring_run) = Some 7"
  using spsc_fifo[OF demo_ring_reachable] by (simp add: demo_ring_run_def)

text \<open>
  Run one after the other, pushes and pops are a bounded first-in first-out queue: after
  pushing a list of values onto a ring and popping \<open>n\<close> times, the pops yield the oldest \<open>n\<close> of the
  values that waited, followed by the longest prefix of the pushed ones that fitted in
  \<open>N - 1\<close> slots; the rest were dropped.
\<close>

theorem spsc_sequential:
  assumes "ring_inv r"
  shows "fst (spsc.pop_n n (fold ring_push vs r))
    = take n (ring_contents r @ take (ring_capacity r - length (ring_contents r)) vs)"
proof -
  obtain xs q where "spsc.pop_n n (fold ring_push vs r) = (xs, q)"
    by (cases "spsc.pop_n n (fold ring_push vs r)")
  with spsc.pop_n_contents[OF conjunct1[OF spsc.push_all[OF assms, of vs]]] spsc.push_all[OF assms, of vs]
  show ?thesis by simp
qed

theorem spsc_sequential_witness:
  "fst (spsc.pop_n 3 (fold ring_push [1, 2, 3] (ring_new 3))) = [1, 2 :: nat]"
proof -
  have h: "ring_holds [] 0 (ring_new 3 :: nat spsc_ring)" by (simp add: ring_new_holds)
  then have i: "ring_inv (ring_new 3 :: nat spsc_ring)" unfolding ring_inv_def by blast
  show ?thesis
    using spsc_sequential[OF i, of 3 "[1, 2, 3]"] ring_contents_holds[OF h]
    by (simp add: ring_capacity_def ring_new_def)
qed

subsection \<open>\<open>BootRing\<close>\<close>

definition BOOT_RING_CAPACITY :: nat where
  "BOOT_RING_CAPACITY = 16 * 1024"

record boot_ring =
  br_buf :: "u8 list"
  br_pos :: nat
  br_wrapped :: bool

definition boot_ring_new :: "nat \<Rightarrow> boot_ring" where
  "boot_ring_new cap = \<lparr>br_buf = replicate cap 0, br_pos = 0, br_wrapped = False\<rparr>"

definition boot_ring_put :: "u8 \<Rightarrow> boot_ring \<Rightarrow> boot_ring checked" where
  "boot_ring_put b r =
     (if br_pos r < length (br_buf r) then
        (let r1 = r\<lparr>br_buf := (br_buf r)[br_pos r := b], br_pos := br_pos r + 1\<rparr> in
         Inr (if br_pos r1 = length (br_buf r1) then r1\<lparr>br_pos := 0, br_wrapped := True\<rparr> else r1))
      else Inl Index_bounds)"

definition boot_ring_write :: "u8 list \<Rightarrow> boot_ring \<Rightarrow> boot_ring checked" where
  "boot_ring_write bytes = for_each bytes boot_ring_put"

text \<open>The slices the callback of \<open>for_each_segment\<close> is handed, in order.\<close>

definition boot_ring_segments :: "boot_ring \<Rightarrow> u8 list list" where
  "boot_ring_segments r =
     (if br_wrapped r then [drop (br_pos r) (br_buf r)] else []) @ [take (br_pos r) (br_buf r)]"

text \<open>The history a boot ring stands for: \<open>bs\<close> is everything written so far.\<close>

definition boot_ring_holds :: "u8 list \<Rightarrow> boot_ring \<Rightarrow> bool" where
  "boot_ring_holds bs r \<longleftrightarrow> br_pos r < length (br_buf r)
     \<and> (if br_wrapped r then length (br_buf r) \<le> length bs
          \<and> drop (br_pos r) (br_buf r) @ take (br_pos r) (br_buf r) = drop (length bs - length (br_buf r)) bs
        else take (br_pos r) (br_buf r) = bs)"

lemma boot_ring_put_holds:
  assumes "boot_ring_holds bs r"
  shows "\<exists>r'. boot_ring_put b r = Inr r' \<and> boot_ring_holds (bs @ [b]) r' \<and> length (br_buf r') = length (br_buf r)"
proof -
  define B p where "B = br_buf r" and "p = br_pos r"
  have p: "p < length B" using assms by (simp add: boot_ring_holds_def B_def p_def)
  have tk: "take (Suc p) (B[p := b]) = take p B @ [b]" using p by (simp add: take_Suc_conv_app_nth)
  have dr: "drop (Suc p) (B[p := b]) = drop (Suc p) B" by simp
  show ?thesis
  proof (cases "br_wrapped r")
    case True
    have l: "length B \<le> length bs" and w: "drop p B @ take p B = drop (length bs - length B) bs"
      using assms True by (simp_all add: boot_ring_holds_def B_def p_def)
    have "drop p B = B ! p # drop (Suc p) B" using p by (simp add: Cons_nth_drop_Suc)
    then have "drop (Suc p) B @ take p B = drop (Suc (length bs - length B)) bs"
      using arg_cong[OF w, of tl] by (simp add: tl_drop drop_Suc)
    then have "drop (Suc p) B @ take p B @ [b] = drop (length (bs @ [b]) - length B) (bs @ [b])"
      using l p by (simp add: Suc_diff_le) 
    then show ?thesis using True p l tk dr
      by (auto simp: boot_ring_put_def boot_ring_holds_def Let_def B_def[symmetric] p_def[symmetric])
  next
    case False
    then have t: "take p B = bs" using assms by (simp add: boot_ring_holds_def B_def p_def)
    then show ?thesis using False p tk dr
      by (auto simp: boot_ring_put_def boot_ring_holds_def Let_def B_def[symmetric] p_def[symmetric])
  qed
qed

text \<open>
  The boot log: writing never panics, and a replay hands the callback at most two segments that
  together are the newest \<open>CAP\<close> bytes written, in order (all of them while they fit).
\<close>

theorem boot_ring_replays:
  assumes "0 < cap"
  shows "\<exists>r. boot_ring_write bs (boot_ring_new cap) = Inr r
    \<and> concat (boot_ring_segments r) = drop (length bs - cap) bs \<and> length (boot_ring_segments r) \<le> 2"
proof -
  have "\<exists>r. for_each bs boot_ring_put (boot_ring_new cap) = Inr r
      \<and> (boot_ring_holds bs r \<and> length (br_buf r) = cap)"
    using assms
    by (intro for_each_invariant[where P = "\<lambda>bs r. boot_ring_holds bs r \<and> length (br_buf r) = cap"])
      (auto simp: boot_ring_holds_def[of "[]"] boot_ring_new_def dest: boot_ring_put_holds)
  then show ?thesis
    by (fastforce simp: boot_ring_write_def boot_ring_holds_def boot_ring_segments_def split: if_splits)
qed

theorem boot_ring_replays_witness:
  "\<exists>r. boot_ring_write [1, 2, 3] (boot_ring_new 2) = Inr r \<and> concat (boot_ring_segments r) = [2, 3]"
proof -
  have "boot_ring_write [1, 2, 3] (boot_ring_new 2) = Inr \<lparr>br_buf = [3, 2], br_pos = 1, br_wrapped = True\<rparr>"
    by (simp add: boot_ring_write_def boot_ring_new_def boot_ring_put_def numeral_2_eq_2)
  with boot_ring_replays[of 2 "[1, 2, 3]"] show ?thesis by simp
qed

end
