(* ===== verification/Block_Cache.thy ===== *)
theory Block_Cache
  imports Prelude "HOL-Library.Multiset"
begin

text \<open>
  The write-back block cache of \<open>kernel/src/block/cache.rs\<close>.  Its blocks are a list in insertion
  order; recency is a counter value in each entry.  The abstract view is a map from block address
  to data and dirty flag together with the addresses in order of last use.
\<close>

type_synonym u32 = "32 word"

definition CACHE_BLOCK_SIZE :: nat where "CACHE_BLOCK_SIZE = 4096"
definition DEFAULT_BUDGET :: nat where "DEFAULT_BUDGET = 8 * 1024 * 1024"
definition MAX_BLOCKS :: nat where "MAX_BLOCKS = DEFAULT_BUDGET div CACHE_BLOCK_SIZE"

record cache_entry =
  ce_lba :: u64
  ce_data :: "u8 list"
  ce_dirty :: bool
  ce_hits :: u32

record block_cache =
  bc_blocks :: "cache_entry list"
  bc_max_blocks :: nat
  bc_hit_counter :: u32

subsection \<open>Operations\<close>

definition cache_new :: block_cache where
  "cache_new = \<lparr>bc_blocks = [], bc_max_blocks = MAX_BLOCKS, bc_hit_counter = 0\<rparr>"

text \<open>
  The loop \<open>for entry in blocks.iter_mut() { if entry.lba == lba { ...; return } }\<close>: the first
  entry of the address is updated, and handed on as it was; \<open>None\<close> when the loop runs to its end.
\<close>

fun with_entry :: "u64 \<Rightarrow> (cache_entry \<Rightarrow> cache_entry) \<Rightarrow> cache_entry list \<Rightarrow> (cache_entry \<times> cache_entry list) option" where
  "with_entry lba f [] = None"
| "with_entry lba f (e # es) =
     (if ce_lba e = lba then Some (e, f e # es)
      else map_option (\<lambda>(x, es'). (x, e # es')) (with_entry lba f es))"

definition cache_get :: "u64 \<Rightarrow> block_cache \<Rightarrow> u8 list option \<times> block_cache" where
  "cache_get lba c =
     (case with_entry lba (\<lambda>e. e\<lparr>ce_hits := bc_hit_counter c\<rparr>) (bc_blocks c) of
        Some (e, bs) \<Rightarrow> (Some (ce_data e), c\<lparr>bc_blocks := bs, bc_hit_counter := bc_hit_counter c + 1\<rparr>)
      | None \<Rightarrow> (None, c))"

text \<open>The scan for the entry with the fewest hits, from index \<open>i\<close> on.\<close>

fun lru_scan :: "cache_entry list \<Rightarrow> nat \<Rightarrow> nat \<Rightarrow> u32 \<Rightarrow> nat" where
  "lru_scan [] i lru_idx lru_hits = lru_idx"
| "lru_scan (e # es) i lru_idx lru_hits =
     (if ce_hits e < lru_hits then lru_scan es (Suc i) i (ce_hits e)
      else lru_scan es (Suc i) lru_idx lru_hits)"

definition evict_lru :: "cache_entry list \<Rightarrow> cache_entry list checked" where
  "evict_lru bs =
     (if bs = [] then Inl Index_bounds
      else let i = lru_scan bs 0 0 (ce_hits (bs ! 0)) in Inr (take i bs @ drop (Suc i) bs))"

definition cache_put :: "u64 \<Rightarrow> u8 list \<Rightarrow> bool \<Rightarrow> block_cache \<Rightarrow> block_cache checked" where
  "cache_put lba data dirty c =
     require (length data mod 2 ^ 32 = CACHE_BLOCK_SIZE) ''cache entry must be exactly 4 KiB''
       (case with_entry lba (\<lambda>e. e\<lparr>ce_data := data, ce_dirty := ce_dirty e \<or> dirty, ce_hits := bc_hit_counter c\<rparr>)
               (bc_blocks c) of
          Some (e, bs) \<Rightarrow> require (length data = length (ce_data e)) ''copy_from_slice''
              (Inr (c\<lparr>bc_blocks := bs, bc_hit_counter := bc_hit_counter c + 1\<rparr>))
        | None \<Rightarrow>
            and_then (if bc_max_blocks c \<le> length (bc_blocks c) then evict_lru (bc_blocks c) else Inr (bc_blocks c))
              (\<lambda>bs. Inr (c\<lparr>bc_blocks := bs @ [\<lparr>ce_lba = lba, ce_data = data, ce_dirty = dirty,
                        ce_hits = bc_hit_counter c\<rparr>], bc_hit_counter := bc_hit_counter c + 1\<rparr>)))"

definition set_dirty :: "bool \<Rightarrow> u64 \<Rightarrow> block_cache \<Rightarrow> block_cache" where
  "set_dirty d lba c = (case with_entry lba (\<lambda>e. e\<lparr>ce_dirty := d\<rparr>) (bc_blocks c) of
     Some (_, bs) \<Rightarrow> c\<lparr>bc_blocks := bs\<rparr> | None \<Rightarrow> c)"

definition mark_dirty :: "u64 \<Rightarrow> block_cache \<Rightarrow> block_cache" where "mark_dirty = set_dirty True"
definition clear_dirty :: "u64 \<Rightarrow> block_cache \<Rightarrow> block_cache" where "clear_dirty = set_dirty False"

definition get_dirty_blocks :: "block_cache \<Rightarrow> (u64 \<times> u8 list) list" where
  "get_dirty_blocks c = sort_key fst (map (\<lambda>e. (ce_lba e, ce_data e)) (filter ce_dirty (bc_blocks c)))"

definition block_count :: "block_cache \<Rightarrow> nat" where
  "block_count c = length (bc_blocks c)"

definition dirty_block_count :: "block_cache \<Rightarrow> nat" where
  "dirty_block_count c = length (filter ce_dirty (bc_blocks c))"

definition cache_clear :: "block_cache \<Rightarrow> block_cache" where
  "cache_clear c = c\<lparr>bc_blocks := []\<rparr>"

text \<open>A use of the cache after the other.\<close>

datatype cache_op = Op_get u64 | Op_put u64 "u8 list" bool | Op_mark u64 | Op_clean u64 | Op_clear

fun cache_step :: "cache_op \<Rightarrow> block_cache \<Rightarrow> block_cache checked" where
  "cache_step (Op_get lba) c = Inr (snd (cache_get lba c))"
| "cache_step (Op_put lba data dirty) c = cache_put lba data dirty c"
| "cache_step (Op_mark lba) c = Inr (mark_dirty lba c)"
| "cache_step (Op_clean lba) c = Inr (clear_dirty lba c)"
| "cache_step Op_clear c = Inr (cache_clear c)"

subsection \<open>The abstract cache\<close>

text \<open>
  The map a cache stands for, the addresses from the least to the most recently used, and the
  well-formedness every operation keeps as long as fewer than \<open>2 ^ 32\<close> uses have been counted.
\<close>

definition cached :: "block_cache \<Rightarrow> u64 \<Rightarrow> (u8 list \<times> bool) option" where
  "cached c = map_of (map (\<lambda>e. (ce_lba e, ce_data e, ce_dirty e)) (bc_blocks c))"

definition lru_order :: "block_cache \<Rightarrow> u64 list" where
  "lru_order c = map ce_lba (sort_key ce_hits (bc_blocks c))"

definition cache_wf :: "block_cache \<Rightarrow> bool" where
  "cache_wf c \<longleftrightarrow> distinct (map ce_lba (bc_blocks c)) \<and> distinct (map ce_hits (bc_blocks c))
     \<and> (\<forall>e\<in>set (bc_blocks c). length (ce_data e) = CACHE_BLOCK_SIZE \<and> ce_hits e < bc_hit_counter c)
     \<and> length (bc_blocks c) \<le> bc_max_blocks c \<and> 0 < bc_max_blocks c"

lemma cache_new_wf: "cache_wf cache_new"
  by (simp add: cache_wf_def cache_new_def MAX_BLOCKS_def DEFAULT_BUDGET_def CACHE_BLOCK_SIZE_def)

lemma with_entry_None: "with_entry lba f bs = None \<longleftrightarrow> lba \<notin> ce_lba ` set bs"
  by (induction bs) auto

lemma with_entry_Some:
  "with_entry lba f bs = Some (e, bs') \<Longrightarrow>
    \<exists>as cs. bs = as @ e # cs \<and> ce_lba e = lba \<and> bs' = as @ f e # cs"
proof (induction bs arbitrary: bs')
  case (Cons b bs)
  show ?case
  proof (cases "ce_lba b = lba")
    case True
    then show ?thesis using Cons.prems by (intro exI[of _ "[]"] exI[of _ bs]) auto
  next
    case False
    then obtain es where es: "with_entry lba f bs = Some (e, es)" "bs' = b # es"
      using Cons.prems by auto
    from Cons.IH[OF es(1)] obtain as cs where "bs = as @ e # cs" "ce_lba e = lba" "es = as @ f e # cs"
      by blast
    then show ?thesis using es(2) by (intro exI[of _ "b # as"] exI[of _ cs]) simp
  qed
qed simp

text \<open>An entry of the cache splits its block list into what lies before and after it.\<close>

lemma with_entry_cases:
  assumes "distinct (map ce_lba bs)"
  obtains (absent) "with_entry lba f bs = None" "map_of (map (\<lambda>e. (ce_lba e, g e)) bs) lba = None"
  | (present) as e cs where "with_entry lba f bs = Some (e, as @ f e # cs)" "bs = as @ e # cs"
      "ce_lba e = lba" "lba \<notin> ce_lba ` set (as @ cs)"
      "map_of (map (\<lambda>e. (ce_lba e, g e)) bs) lba = Some (g e)"
proof (cases "with_entry lba f bs")
  case None
  then have "lba \<notin> fst ` set (map (\<lambda>e. (ce_lba e, g e)) bs)" by (auto simp: with_entry_None)
  then show ?thesis using None absent by (simp add: map_of_eq_None_iff)
next
  case (Some p)
  obtain e bs' where p: "p = (e, bs')" by (cases p)
  from with_entry_Some[OF Some[unfolded p]] obtain as cs
    where s: "bs = as @ e # cs" "ce_lba e = lba" "bs' = as @ f e # cs" by blast
  have "lba \<notin> ce_lba ` set (as @ cs)" using assms s by auto
  moreover have "map_of (map (\<lambda>e. (ce_lba e, g e)) bs) lba = Some (g e)"
    using assms s by (intro map_of_is_SomeI) (auto simp: comp_def)
  ultimately show ?thesis using present Some p s by blast
qed

lemma sort_key_unique:
  assumes "mset ys = mset xs" "distinct (map f xs)" "sorted (map f ys)"
  shows "sort_key f xs = ys"
proof (rule properties_for_sort_key[OF assms(1) _ assms(3)])
  fix k
  have one: "length (filter (\<lambda>x. f k = f x) zs) \<le> 1" if "mset zs = mset xs" for zs
  proof -
    have "distinct (map f zs)" using assms(2) that by (metis mset_eq_imp_distinct_iff mset_map)
    then show ?thesis by (induction zs) (auto simp: filter_empty_conv)
  qed
  have "mset (filter (\<lambda>x. f k = f x) ys) = mset (filter (\<lambda>x. f k = f x) xs)"
    using assms(1) by (simp add: mset_filter)
  then show "filter (\<lambda>x. f k = f x) ys = filter (\<lambda>x. f k = f x) xs"
    using one[OF assms(1)] one[OF refl]
    by (cases "filter (\<lambda>x. f k = f x) ys"; cases "filter (\<lambda>x. f k = f x) xs") auto
qed

lemma sort_key_newest:
  assumes "\<And>x. x \<in> set as \<Longrightarrow> f x < f e" "\<And>x. x \<in> set cs \<Longrightarrow> f x < f e" "distinct (map f (as @ cs))"
  shows "sort_key f (as @ e # cs) = sort_key f (as @ cs) @ [e]"
proof (rule sort_key_unique)
  have "f e \<notin> f ` set (as @ cs)" using assms(1,2) by fastforce
  then show "distinct (map f (as @ e # cs))" using assms(3) by auto
  show "sorted (map f (sort_key f (as @ cs) @ [e]))"
    using assms(1,2) by (auto simp: sorted_append intro: less_imp_le)
qed simp

text \<open>The scan finds an entry no other entry is older than.\<close>

lemma lru_scan_min:
  assumes "lru_idx < i" "i \<le> length bs" "lru_hits = ce_hits (bs ! lru_idx)"
    and "\<And>j. j < i \<Longrightarrow> lru_hits \<le> ce_hits (bs ! j)"
  shows "lru_scan (drop i bs) i lru_idx lru_hits < length bs
    \<and> (\<forall>j<length bs. ce_hits (bs ! lru_scan (drop i bs) i lru_idx lru_hits) \<le> ce_hits (bs ! j))"
  using assms
proof (induction "length bs - i" arbitrary: i lru_idx lru_hits)
  case 0
  then show ?case by simp
next
  case (Suc d)
  then have i: "i < length bs" by simp
  then have dr: "drop i bs = bs ! i # drop (Suc i) bs" by (simp add: Cons_nth_drop_Suc)
  show ?case
  proof (cases "ce_hits (bs ! i) < lru_hits")
    case True
    have "ce_hits (bs ! i) \<le> ce_hits (bs ! j)" if "j < Suc i" for j
      using that True Suc.prems(4)[of j] by (cases "j = i") auto
    with Suc.hyps(1)[of "Suc i" i "ce_hits (bs ! i)"] Suc.hyps(2) i True show ?thesis
      by (simp add: dr)
  next
    case False
    have "lru_hits \<le> ce_hits (bs ! j)" if "j < Suc i" for j
      using that False Suc.prems(4)[of j] by (cases "j = i") auto
    with Suc.hyps(1)[of "Suc i" lru_idx lru_hits] Suc.hyps(2) Suc.prems i False show ?thesis
      by (simp add: dr)
  qed
qed

lemma evict_lru_oldest:
  assumes "bs \<noteq> []" "distinct (map ce_hits bs)"
  obtains as e cs where "evict_lru bs = Inr (as @ cs)" "bs = as @ e # cs"
    "sort_key ce_hits bs = e # sort_key ce_hits (as @ cs)"
proof -
  define i where "i = lru_scan bs 0 0 (ce_hits (bs ! 0))"
  have step: "lru_scan bs 0 0 (ce_hits (bs ! 0)) = lru_scan (drop 1 bs) 1 0 (ce_hits (bs ! 0))"
    using assms(1) by (cases bs) auto
  have i: "i < length bs" "\<And>j. j < length bs \<Longrightarrow> ce_hits (bs ! i) \<le> ce_hits (bs ! j)"
    using lru_scan_min[of 0 1 bs "ce_hits (bs ! 0)"] assms(1)
    by (auto simp: i_def step Suc_leI)
  let ?rest = "take i bs @ drop (Suc i) bs"
  have bs: "bs = take i bs @ bs ! i # drop (Suc i) bs" using i(1) by (rule id_take_nth_drop)
  have "sort_key ce_hits bs = bs ! i # sort_key ce_hits ?rest"
  proof (rule sort_key_unique[OF _ assms(2)])
    show "mset (bs ! i # sort_key ce_hits ?rest) = mset bs"
      by (subst (4) bs) simp
    have "\<forall>x\<in>set ?rest. ce_hits (bs ! i) \<le> ce_hits x"
    proof
      fix x assume "x \<in> set ?rest"
      then have "x \<in> set bs" by (auto dest: in_set_takeD in_set_dropD)
      then show "ce_hits (bs ! i) \<le> ce_hits x" using i(2) by (auto simp: in_set_conv_nth)
    qed
    then show "sorted (map ce_hits (bs ! i # sort_key ce_hits ?rest))" by auto
  qed
  then show ?thesis
    using that[of "take i bs" "drop (Suc i) bs" "bs ! i"] assms(1) bs
    by (simp add: evict_lru_def i_def Let_def)
qed

subsection \<open>Refinement of a least-recently-used map\<close>

text \<open>
  What a client may rely on: a finite map from addresses to data, at most \<open>max_blocks\<close> of them,
  that makes room by dropping the address used longest ago.
\<close>

record lru_map =
  lm_map :: "u64 \<Rightarrow> (u8 list \<times> bool) option"
  lm_order :: "u64 list"

definition lru_touch :: "u64 \<Rightarrow> u64 list \<Rightarrow> u64 list" where
  "lru_touch lba order = filter (\<lambda>x. x \<noteq> lba) order @ [lba]"

definition lru_get :: "u64 \<Rightarrow> lru_map \<Rightarrow> u8 list option \<times> lru_map" where
  "lru_get lba m = (case lm_map m lba of None \<Rightarrow> (None, m)
     | Some (d, _) \<Rightarrow> (Some d, m\<lparr>lm_order := lru_touch lba (lm_order m)\<rparr>))"

definition lru_put :: "nat \<Rightarrow> u64 \<Rightarrow> u8 list \<Rightarrow> bool \<Rightarrow> lru_map \<Rightarrow> lru_map" where
  "lru_put limit lba data dirty m =
     (case lm_map m lba of
        Some (_, was) \<Rightarrow> \<lparr>lm_map = (lm_map m)(lba \<mapsto> (data, was \<or> dirty)), lm_order = lru_touch lba (lm_order m)\<rparr>
      | None \<Rightarrow>
          if limit \<le> length (lm_order m)
          then \<lparr>lm_map = (lm_map m)(hd (lm_order m) := None, lba \<mapsto> (data, dirty)), lm_order = tl (lm_order m) @ [lba]\<rparr>
          else \<lparr>lm_map = (lm_map m)(lba \<mapsto> (data, dirty)), lm_order = lm_order m @ [lba]\<rparr>)"

definition abs_cache :: "block_cache \<Rightarrow> lru_map" where
  "abs_cache c = \<lparr>lm_map = cached c, lm_order = lru_order c\<rparr>"

lemma length_lru_order: "length (lru_order c) = length (bc_blocks c)"
  by (simp add: lru_order_def)

lemma cached_append:
  "lba \<notin> ce_lba ` set as \<Longrightarrow> map_of (map (\<lambda>e. (ce_lba e, g e)) (as @ e # cs)) =
     (map_of (map (\<lambda>e. (ce_lba e, g e)) (as @ cs)))(ce_lba e \<mapsto> g e)" if "ce_lba e = lba"
  using that by (induction as) auto

lemma counter_step: "(c :: u32) \<noteq> - 1 \<Longrightarrow> h \<le> c \<Longrightarrow> h < c + 1"
proof -
  assume "c \<noteq> - 1" and h: "h \<le> c"
  then have "1 + c \<noteq> 0" by (metis add.commute add_eq_0_iff)
  then have "unat (c + 1) = Suc (unat c)" by (simp add: unatSuc add.commute)
  then show "h < c + 1" using h by (simp add: word_less_nat_alt word_le_nat_alt)
qed

text \<open>
  Rewriting an entry in place, with a fresh hit value and its address kept: what both \<open>get\<close> and
  the hit branch of \<open>put\<close> do.
\<close>

lemma touch_entry:
  assumes wf: "cache_wf c" and room: "bc_hit_counter c \<noteq> - 1" and split: "bc_blocks c = as @ e # cs"
    and e': "ce_lba e' = ce_lba e" "ce_hits e' = bc_hit_counter c" "length (ce_data e') = CACHE_BLOCK_SIZE"
  shows "abs_cache (c\<lparr>bc_blocks := as @ e' # cs, bc_hit_counter := bc_hit_counter c + 1\<rparr>)
      = \<lparr>lm_map = (cached c)(ce_lba e \<mapsto> (ce_data e', ce_dirty e')), lm_order = lru_touch (ce_lba e) (lru_order c)\<rparr>"
    and "cache_wf (c\<lparr>bc_blocks := as @ e' # cs, bc_hit_counter := bc_hit_counter c + 1\<rparr>)"
proof -
  note w = wf[unfolded cache_wf_def split]
  have notin: "ce_lba e \<notin> ce_lba ` set as" "ce_lba e \<notin> ce_lba ` set cs" using w by auto
  have less: "ce_hits x < ce_hits e'" if "x \<in> set (as @ cs)" for x using w that e' by auto
  have "sort_key ce_hits (as @ e' # cs) = sort_key ce_hits (as @ cs) @ [e']"
    using less w by (intro sort_key_newest) auto
  moreover have "filter (\<lambda>x. ce_lba x \<noteq> ce_lba e) (as @ e # cs) = as @ cs"
    using notin by simp (metis (mono_tags, lifting) filter_True image_eqI)
  then have "filter (\<lambda>x. ce_lba x \<noteq> ce_lba e) (sort_key ce_hits (as @ e # cs)) = sort_key ce_hits (as @ cs)"
    by (simp only: filter_sort)
  then have "filter (\<lambda>x. x \<noteq> ce_lba e) (map ce_lba (sort_key ce_hits (as @ e # cs)))
      = map ce_lba (sort_key ce_hits (as @ cs))"
    by (simp add: filter_map comp_def)
  ultimately show "abs_cache (c\<lparr>bc_blocks := as @ e' # cs, bc_hit_counter := bc_hit_counter c + 1\<rparr>)
      = \<lparr>lm_map = (cached c)(ce_lba e \<mapsto> (ce_data e', ce_dirty e')), lm_order = lru_touch (ce_lba e) (lru_order c)\<rparr>"
    using notin(1) e'(1)
      cached_append[OF refl notin(1), of "\<lambda>e. (ce_data e, ce_dirty e)" cs]
      cached_append[OF e'(1) notin(1), of "\<lambda>e. (ce_data e, ce_dirty e)" cs]
    by (simp add: abs_cache_def cached_def lru_order_def lru_touch_def split)
  have "ce_hits x < bc_hit_counter c + 1" if "x \<in> set (as @ e' # cs)" for x
    using room by (rule counter_step) (use that less e'(2) in \<open>auto intro: less_imp_le\<close>)
  moreover have "distinct (map ce_hits (as @ e' # cs))"
    using w less by fastforce
  ultimately show "cache_wf (c\<lparr>bc_blocks := as @ e' # cs, bc_hit_counter := bc_hit_counter c + 1\<rparr>)"
    using w e' by (auto simp: cache_wf_def)
qed

lemma lm_abs [simp]: "lm_map (abs_cache c) = cached c" "lm_order (abs_cache c) = lru_order c"
  by (simp_all add: abs_cache_def)

lemma get_refines:
  assumes "cache_wf c" "bc_hit_counter c \<noteq> - 1" "cache_get lba c = (r, c')"
  shows "(r, abs_cache c') = lru_get lba (abs_cache c) \<and> cache_wf c' \<and> bc_max_blocks c' = bc_max_blocks c"
proof -
  let ?f = "\<lambda>e. e\<lparr>ce_hits := bc_hit_counter c\<rparr>"
  have d: "distinct (map ce_lba (bc_blocks c))" using assms(1) by (simp add: cache_wf_def)
  from d show ?thesis
  proof (cases rule: with_entry_cases[where lba = lba and f = ?f and g = "\<lambda>e. (ce_data e, ce_dirty e)"])
    case absent
    then show ?thesis using assms by (simp add: cache_get_def lru_get_def cached_def)
  next
    case (present as e cs)
    have c': "c' = c\<lparr>bc_blocks := as @ ?f e # cs, bc_hit_counter := bc_hit_counter c + 1\<rparr>" "r = Some (ce_data e)"
      using assms(3) present(1) by (simp_all add: cache_get_def)
    have len: "length (ce_data e) = CACHE_BLOCK_SIZE" using assms(1) present(2) by (simp add: cache_wf_def)
    have m: "cached c lba = Some (ce_data e, ce_dirty e)" using present(5) by (simp add: cached_def)
    then have "(cached c)(lba \<mapsto> (ce_data e, ce_dirty e)) = cached c" by auto
    then show ?thesis
      using touch_entry[OF assms(1,2) present(2), of "?f e"] len c' m present(3)
      by (simp add: lru_get_def)
  qed
qed

lemma put_hit_refines:
  assumes wf: "cache_wf c" and room: "bc_hit_counter c \<noteq> - 1" and len: "length data = CACHE_BLOCK_SIZE"
    and here: "cached c lba = Some (d, was)"
  shows "\<exists>c'. cache_put lba data dirty c = Inr c' \<and> abs_cache c' = lru_put (bc_max_blocks c) lba data dirty (abs_cache c)
    \<and> cache_wf c' \<and> bc_max_blocks c' = bc_max_blocks c"
proof -
  let ?f = "\<lambda>e. e\<lparr>ce_data := data, ce_dirty := ce_dirty e \<or> dirty, ce_hits := bc_hit_counter c\<rparr>"
  have d: "distinct (map ce_lba (bc_blocks c))" using wf by (simp add: cache_wf_def)
  have l: "length data mod 2 ^ 32 = CACHE_BLOCK_SIZE" using len by (simp add: CACHE_BLOCK_SIZE_def)
  from d show ?thesis
  proof (cases rule: with_entry_cases[where lba = lba and f = ?f and g = "\<lambda>e. (ce_data e, ce_dirty e)"])
    case absent
    then show ?thesis using here by (simp add: cached_def)
  next
    case (present as e cs)
    have le: "length (ce_data e) = CACHE_BLOCK_SIZE" using wf present(2) by (simp add: cache_wf_def)
    have m: "cached c lba = Some (ce_data e, ce_dirty e)" using present(5) by (simp add: cached_def)
    show ?thesis
      using touch_entry[OF wf room present(2), of "?f e"] len le l m present(1,3)
      by (simp add: cache_put_def lru_put_def)
  qed
qed

text \<open>Appending a fresh entry to blocks that hold neither its address nor its hit value.\<close>

lemma append_entry:
  fixes dirty :: bool
  assumes wf: "cache_wf (c\<lparr>bc_blocks := bs\<rparr>)" and room: "bc_hit_counter c \<noteq> - 1"
    and new: "lba \<notin> ce_lba ` set bs" "length data = CACHE_BLOCK_SIZE" "length bs < bc_max_blocks c"
  defines "e \<equiv> \<lparr>ce_lba = lba, ce_data = data, ce_dirty = dirty, ce_hits = bc_hit_counter c\<rparr>"
  defines "c' \<equiv> c\<lparr>bc_blocks := bs @ [e], bc_hit_counter := bc_hit_counter c + 1\<rparr>"
  shows "abs_cache c' = \<lparr>lm_map = (cached (c\<lparr>bc_blocks := bs\<rparr>))(lba \<mapsto> (data, dirty)),
      lm_order = lru_order (c\<lparr>bc_blocks := bs\<rparr>) @ [lba]\<rparr>"
    and "cache_wf c'"
proof -
  note w = wf[unfolded cache_wf_def]
  have less: "ce_hits x < bc_hit_counter c" if "x \<in> set bs" for x using w that by auto
  have "sort_key ce_hits (bs @ [e]) = sort_key ce_hits bs @ [e]"
    using sort_key_newest[of bs ce_hits e "[]"] less w by (simp add: e_def)
  then show "abs_cache c' = \<lparr>lm_map = (cached (c\<lparr>bc_blocks := bs\<rparr>))(lba \<mapsto> (data, dirty)),
      lm_order = lru_order (c\<lparr>bc_blocks := bs\<rparr>) @ [lba]\<rparr>"
    using cached_append[of e lba bs "\<lambda>e. (ce_data e, ce_dirty e)" "[]"] new(1)
    by (simp add: c'_def abs_cache_def cached_def lru_order_def) (simp add: e_def)
  have "ce_hits x < bc_hit_counter c + 1" if "x \<in> set (bs @ [e])" for x
    using room by (rule counter_step) (use that less in \<open>auto simp: e_def intro: less_imp_le\<close>)
  moreover have "bc_hit_counter c \<notin> ce_hits ` set bs" using less by fastforce
  ultimately show "cache_wf c'" using w new by (auto simp: cache_wf_def c'_def e_def)
qed

lemma put_miss_refines:
  assumes wf: "cache_wf c" and room: "bc_hit_counter c \<noteq> - 1" and len: "length data = CACHE_BLOCK_SIZE"
    and miss: "cached c lba = None"
  shows "\<exists>c'. cache_put lba data dirty c = Inr c' \<and> abs_cache c' = lru_put (bc_max_blocks c) lba data dirty (abs_cache c)
    \<and> cache_wf c' \<and> bc_max_blocks c' = bc_max_blocks c"
proof -
  note w = wf[unfolded cache_wf_def]
  have l: "length data mod 2 ^ 32 = CACHE_BLOCK_SIZE" using len by (simp add: CACHE_BLOCK_SIZE_def)
  have notin: "lba \<notin> ce_lba ` set (bc_blocks c)"
    using miss by (simp add: cached_def map_of_eq_None_iff image_comp comp_def)
  then have none: "\<And>f. with_entry lba f (bc_blocks c) = None" by (simp add: with_entry_None)
  show ?thesis
  proof (cases "bc_max_blocks c \<le> length (bc_blocks c)")
    case False
    then show ?thesis
      using append_entry[of "bc_blocks c" c lba data dirty] wf room notin len none l miss
      by (simp add: cache_put_def lru_put_def length_lru_order)
  next
    case True
    then have "bc_blocks c \<noteq> []" using w by auto
    with w obtain as e cs where ev: "evict_lru (bc_blocks c) = Inr (as @ cs)" "bc_blocks c = as @ e # cs"
      "sort_key ce_hits (bc_blocks c) = e # sort_key ce_hits (as @ cs)"
      using evict_lru_oldest by metis
    have wf': "cache_wf (c\<lparr>bc_blocks := as @ cs\<rparr>)" using w ev(2) by (auto simp: cache_wf_def)
    have "ce_lba e \<notin> ce_lba ` set as" "ce_lba e \<notin> ce_lba ` set cs" using w ev(2) by auto
    then have del: "cached (c\<lparr>bc_blocks := as @ cs\<rparr>) = (cached c)(ce_lba e := None)"
      using cached_append[of e "ce_lba e" as "\<lambda>e. (ce_data e, ce_dirty e)" cs]
      by (auto simp: cached_def ev(2) fun_eq_iff map_of_eq_None_iff)
    have short: "length (as @ cs) < bc_max_blocks c" using w ev(2) by simp
    have ord: "lru_order c = ce_lba e # lru_order (c\<lparr>bc_blocks := as @ cs\<rparr>)"
      using ev(3) by (simp add: lru_order_def)
    show ?thesis
      using append_entry[OF wf' room _ len short, of lba dirty] notin none l miss True ev(1,2) del ord
      by (simp add: cache_put_def lru_put_def length_lru_order)
  qed
qed

text \<open>
  C20. The cache is a least-recently-used map: on a well-formed cache whose use counter is not
  about to wrap, a lookup returns what the abstract map holds and moves the block to the newest
  place, and inserting a 4 KiB block always returns, stores the block, keeps a dirty block dirty,
  and on a full cache gives up exactly the block used longest ago.
\<close>

theorem cache_refines_lru:
  assumes "cache_wf c" and "bc_hit_counter c \<noteq> - 1" and "length data = CACHE_BLOCK_SIZE"
  shows "apsnd abs_cache (cache_get lba c) = lru_get lba (abs_cache c) \<and> cache_wf (snd (cache_get lba c))
    \<and> (\<exists>c'. cache_put lba data dirty c = Inr c' \<and> cache_wf c'
         \<and> abs_cache c' = lru_put (bc_max_blocks c) lba data dirty (abs_cache c))"
proof -
  obtain r c1 where g: "cache_get lba c = (r, c1)" by (cases "cache_get lba c")
  show ?thesis
  proof (cases "cached c lba")
    case None
    with get_refines[OF assms(1,2) g] put_miss_refines[OF assms None, of dirty] g show ?thesis by auto
  next
    case (Some p)
    then obtain d was where "cached c lba = Some (d, was)" by (cases p) simp
    with get_refines[OF assms(1,2) g] put_hit_refines[OF assms this, of dirty] g show ?thesis by auto
  qed
qed

definition demo_block :: "nat \<Rightarrow> u8 list" where
  "demo_block n = replicate 4096 (of_nat n)"

text \<open>A full cache of two blocks: block 16, dirty, was used before block 8.\<close>

definition demo_cache :: block_cache where
  "demo_cache = \<lparr>bc_blocks = [\<lparr>ce_lba = 8, ce_data = demo_block 1, ce_dirty = False, ce_hits = 2\<rparr>,
     \<lparr>ce_lba = 16, ce_data = demo_block 2, ce_dirty = True, ce_hits = 1\<rparr>], bc_max_blocks = 2, bc_hit_counter = 3\<rparr>"

lemma demo_cache_facts:
  "cache_wf demo_cache" "bc_hit_counter demo_cache \<noteq> - 1" "length (demo_block n) = CACHE_BLOCK_SIZE"
  "lru_order demo_cache = [16, 8]" "cached demo_cache 16 = Some (demo_block 2, True)"
  "cached demo_cache 24 = None" "bc_max_blocks demo_cache = 2" "block_count demo_cache = 2"
  by (simp_all add: cache_wf_def demo_cache_def demo_block_def CACHE_BLOCK_SIZE_def lru_order_def cached_def block_count_def word_le_nat_alt)

theorem cache_refines_lru_witness:
  "\<exists>c'. cache_put 24 (demo_block 3) False demo_cache = Inr c' \<and> lru_order c' = [8, 24]"
  using cache_refines_lru[OF demo_cache_facts(1,2,3), of 24 3 False] demo_cache_facts(4,6)
  demo_cache_facts(7)
  by (auto simp: lru_put_def abs_cache_def)

subsection \<open>Dirty blocks\<close>

lemma set_get_dirty_blocks:
  "distinct (map ce_lba (bc_blocks c)) \<Longrightarrow>
     (lba, d) \<in> set (get_dirty_blocks c) \<longleftrightarrow> cached c lba = Some (d, True)"
  by (force simp: get_dirty_blocks_def cached_def comp_def)

lemma set_dirty_refines:
  assumes "cache_wf c"
  shows "cached (set_dirty d lba c) = (case cached c lba of None \<Rightarrow> cached c
      | Some (x, _) \<Rightarrow> (cached c)(lba \<mapsto> (x, d)))"
    and "lru_order (set_dirty d lba c) = lru_order c" and "cache_wf (set_dirty d lba c)"
proof -
  let ?f = "ce_dirty_update (\<lambda>_. d)"
  have w: "distinct (map ce_lba (bc_blocks c))" "distinct (map ce_hits (bc_blocks c))"
    using assms by (simp_all add: cache_wf_def)
  from w(1) have "cached (set_dirty d lba c) = (case cached c lba of None \<Rightarrow> cached c
      | Some (x, _) \<Rightarrow> (cached c)(lba \<mapsto> (x, d)))
    \<and> lru_order (set_dirty d lba c) = lru_order c \<and> cache_wf (set_dirty d lba c)"
  proof (cases rule: with_entry_cases[where lba = lba and f = ?f and g = "\<lambda>e. (ce_data e, ce_dirty e)"])
    case absent
    then show ?thesis using assms by (simp add: set_dirty_def cached_def)
  next
    case (present as e cs)
    have "sort_key ce_hits (map (\<lambda>x. if x = e then ?f e else x) (bc_blocks c))
        = map (\<lambda>x. if x = e then ?f e else x) (sort_key ce_hits (bc_blocks c))"
    proof (rule sort_key_unique)
      have h: "ce_hits (if x = e then ?f e else x) = ce_hits x" for x by simp
      show "distinct (map ce_hits (map (\<lambda>x. if x = e then ?f e else x) (bc_blocks c)))"
        using w(2) by (simp only: map_map comp_def h)
      show "sorted (map ce_hits (map (\<lambda>x. if x = e then ?f e else x) (sort_key ce_hits (bc_blocks c))))"
        by (simp only: map_map comp_def h sorted_sort_key)
    qed simp
    moreover have "e \<notin> set as" "e \<notin> set cs" using present(3,4) by auto
    then have "map (\<lambda>x. if x = e then ?f e else x) (bc_blocks c) = as @ ?f e # cs"
      using present(2) by (auto intro: map_idI)
    ultimately have "map ce_lba (sort_key ce_hits (as @ ?f e # cs)) = lru_order c"
      by (simp add: lru_order_def comp_def)
    moreover have "cache_wf (c\<lparr>bc_blocks := as @ ?f e # cs\<rparr>)"
      using assms present(2) by (auto simp: cache_wf_def)
    moreover have "cached (c\<lparr>bc_blocks := as @ ?f e # cs\<rparr>) = (cached c)(lba \<mapsto> (ce_data e, d))"
      using present(2,3,4) cached_append[of "?f e" lba as "\<lambda>e. (ce_data e, ce_dirty e)" cs]
        cached_append[of e lba as "\<lambda>e. (ce_data e, ce_dirty e)" cs]
      by (simp add: cached_def image_Un del: map_append)
    moreover have "cached c lba = Some (ce_data e, ce_dirty e)" using present(5) by (simp add: cached_def)
    ultimately show ?thesis using present(1) by (simp add: set_dirty_def lru_order_def)
  qed
  then show "cached (set_dirty d lba c) = (case cached c lba of None \<Rightarrow> cached c
      | Some (x, _) \<Rightarrow> (cached c)(lba \<mapsto> (x, d)))"
    and "lru_order (set_dirty d lba c) = lru_order c" and "cache_wf (set_dirty d lba c)" by simp_all
qed

text \<open>
  The flush list is exact: it holds each dirty block once, with its data, in increasing
  address order; marking and clearing change the dirty flag of the one block they name, and neither
  its data nor its age.
\<close>

theorem dirty_blocks_exact:
  assumes "cache_wf c"
  shows "sorted (map fst (get_dirty_blocks c)) \<and> distinct (map fst (get_dirty_blocks c))
    \<and> (\<forall>lba d. (lba, d) \<in> set (get_dirty_blocks c) \<longleftrightarrow> cached c lba = Some (d, True))
    \<and> cached (mark_dirty lba c) = (cached c)(lba := map_option (\<lambda>(d, _). (d, True)) (cached c lba))
    \<and> cached (clear_dirty lba c) = (cached c)(lba := map_option (\<lambda>(d, _). (d, False)) (cached c lba))
    \<and> lru_order (mark_dirty lba c) = lru_order c \<and> lru_order (clear_dirty lba c) = lru_order c"
proof -
  have d: "distinct (map ce_lba (bc_blocks c))" using assms by (simp add: cache_wf_def)
  have "distinct (map ce_lba (filter ce_dirty (bc_blocks c)))" using d by (rule distinct_map_filter)
  moreover have "mset (map fst (get_dirty_blocks c)) = mset (map ce_lba (filter ce_dirty (bc_blocks c)))"
    by (simp add: get_dirty_blocks_def image_mset.compositionality comp_def)
  ultimately have "distinct (map fst (get_dirty_blocks c))" using mset_eq_imp_distinct_iff by blast
  moreover have "sorted (map fst (get_dirty_blocks c))" by (simp add: get_dirty_blocks_def)
  moreover have "cached (set_dirty b lba c) = (cached c)(lba := map_option (\<lambda>(d, _). (d, b)) (cached c lba))" for b
    unfolding set_dirty_refines(1)[OF assms, of b lba]
    by (cases "cached c lba") (simp_all add: fun_upd_idem split: prod.splits)
  moreover have "\<forall>lba d. (lba, d) \<in> set (get_dirty_blocks c) \<longleftrightarrow> cached c lba = Some (d, True)"
    using set_get_dirty_blocks[OF d] by blast
  ultimately show ?thesis
    using set_dirty_refines(2)[OF assms] unfolding mark_dirty_def clear_dirty_def by (intro conjI)
qed

theorem dirty_blocks_exact_witness:
  "(16, demo_block 2) \<in> set (get_dirty_blocks demo_cache)"
  using dirty_blocks_exact[OF demo_cache_facts(1)] demo_cache_facts(5) by blast

text \<open>Only \<open>put\<close> brings an address in.\<close>

lemma with_entry_lbas:
  assumes "with_entry lba f bs = Some (e, bs')" and "\<And>e. ce_lba (f e) = ce_lba e"
  shows "ce_lba ` set bs' = ce_lba ` set bs"
  using with_entry_Some[OF assms(1)] assms(2) by auto

lemma evict_lru_lbas: "evict_lru bs = Inr bs' \<Longrightarrow> ce_lba ` set bs' \<subseteq> ce_lba ` set bs"
proof -
  assume "evict_lru bs = Inr bs'"
  then have "bs' = take (lru_scan bs 0 0 (ce_hits (bs ! 0))) bs @ drop (Suc (lru_scan bs 0 0 (ce_hits (bs ! 0)))) bs"
    by (simp add: evict_lru_def Let_def split: if_splits)
  then have "set bs' \<subseteq> set bs" using set_take_subset set_drop_subset by (metis Un_subset_iff set_append)
  then show ?thesis by (rule image_mono)
qed

lemma set_dirty_lbas: "ce_lba ` set (bc_blocks (set_dirty d l c)) = ce_lba ` set (bc_blocks c)"
proof (cases "with_entry l (\<lambda>e. e\<lparr>ce_dirty := d\<rparr>) (bc_blocks c)")
  case (Some r)
  obtain e bs where r: "r = (e, bs)" by (cases r)
  have "ce_lba ` set bs = ce_lba ` set (bc_blocks c)" by (rule with_entry_lbas[OF Some[unfolded r]]) simp
  then show ?thesis by (simp add: set_dirty_def Some r)
qed (simp add: set_dirty_def)

lemma cache_step_lbas:
  assumes "cache_step op c = Inr c'" and "lba \<notin> ce_lba ` set (bc_blocks c)" and "\<And>d b. op \<noteq> Op_put lba d b"
  shows "lba \<notin> ce_lba ` set (bc_blocks c')"
proof (cases op)
  case (Op_put l d b)
  then have l: "l \<noteq> lba" using assms(3) by blast
  show ?thesis
  proof (cases "with_entry l (\<lambda>e. e\<lparr>ce_data := d, ce_dirty := ce_dirty e \<or> b, ce_hits := bc_hit_counter c\<rparr>) (bc_blocks c)")
    case None
    with assms(1) Op_put obtain bs where bs: "(if bc_max_blocks c \<le> length (bc_blocks c) then evict_lru (bc_blocks c) else Inr (bc_blocks c)) = Inr bs"
      "ce_lba ` set (bc_blocks c') = insert l (ce_lba ` set bs)"
      by (cases "bc_max_blocks c \<le> length (bc_blocks c)") (auto simp: cache_put_def checked_simps)
    have "ce_lba ` set bs \<subseteq> ce_lba ` set (bc_blocks c)" using bs(1) evict_lru_lbas by (auto split: if_splits)
    then show ?thesis using assms(2) l bs(2) by auto
  next
    case (Some r)
    obtain e bs where r: "r = (e, bs)" by (cases r)
    have "ce_lba ` set bs = ce_lba ` set (bc_blocks c)" by (rule with_entry_lbas[OF Some[unfolded r]]) simp
    moreover have "bc_blocks c' = bs" using assms(1) Op_put Some r by (auto simp: cache_put_def checked_simps)
    ultimately show ?thesis using assms(2) by simp
  qed
next
  case (Op_get l)
  show ?thesis
  proof (cases "with_entry l (\<lambda>e. e\<lparr>ce_hits := bc_hit_counter c\<rparr>) (bc_blocks c)")
    case None
    then show ?thesis using assms(1,2) Op_get by (auto simp: cache_get_def)
  next
    case (Some r)
    obtain e bs where r: "r = (e, bs)" by (cases r)
    have "ce_lba ` set bs = ce_lba ` set (bc_blocks c)" by (rule with_entry_lbas[OF Some[unfolded r]]) simp
    then show ?thesis using assms(1,2) Op_get Some r by (auto simp: cache_get_def)
  qed
next
  case Op_clear
  then show ?thesis using assms(1) by (auto simp: cache_clear_def)
next
  case (Op_mark l)
  then have "c' = set_dirty True l c" using assms(1) by (simp add: mark_dirty_def)
  then show ?thesis using assms(2) by (simp only: set_dirty_lbas not_False_eq_True)
next
  case (Op_clean l)
  then have "c' = set_dirty False l c" using assms(1) by (simp add: clear_dirty_def)
  then show ?thesis using assms(2) by (simp only: set_dirty_lbas not_False_eq_True)
qed

lemma cache_steps_lbas:
  assumes "for_each ops cache_step c = Inr c'" and "lba \<notin> ce_lba ` set (bc_blocks c)" and "\<forall>d b. Op_put lba d b \<notin> set ops"
  shows "lba \<notin> ce_lba ` set (bc_blocks c')"
  using assms
proof (induction ops arbitrary: c)
  case (Cons op ops)
  then obtain c1 where "cache_step op c = Inr c1" "for_each ops cache_step c1 = Inr c'" by (auto simp: checked_simps)
  then show ?case using Cons.IH[of c1] cache_step_lbas[of op c c1 lba] Cons.prems(2,3) by auto
qed simp

lemma absent_lba:
  assumes "lba \<notin> ce_lba ` set (bc_blocks c)"
  shows "lba \<notin> fst ` set (get_dirty_blocks c)" "fst (cache_get lba c) = None"
proof -
  have "with_entry lba (\<lambda>e. e\<lparr>ce_hits := bc_hit_counter c\<rparr>) (bc_blocks c) = None" using assms by (simp only: with_entry_None not_False_eq_True)
  then show "fst (cache_get lba c) = None" by (simp add: cache_get_def)
  show "lba \<notin> fst ` set (get_dirty_blocks c)" using assms by (auto simp: get_dirty_blocks_def)
qed

text \<open>
  C21.  Making room loses writes: when the block used longest ago is dirty, inserting another block into a full cache
  drops it without handing it out.  Its data was due for writing back before; whatever is done with the cache
  afterwards, until that address is put again, \<open>get\<close> does not find it and no flush list holds it.
\<close>

theorem eviction_drops_dirty_block:
  assumes "cache_wf c" and "bc_hit_counter c \<noteq> - 1" and "length data = CACHE_BLOCK_SIZE"
    and "bc_max_blocks c \<le> block_count c" and "cached c lba = None"
    and "cached c (hd (lru_order c)) = Some (old, True)"
  shows "(hd (lru_order c), old) \<in> set (get_dirty_blocks c)
    \<and> (\<exists>c'. cache_put lba data dirty c = Inr c' \<and> cached c' (hd (lru_order c)) = None
         \<and> (\<forall>ops c''. for_each ops cache_step c' = Inr c'' \<longrightarrow> (\<forall>d b. Op_put (hd (lru_order c)) d b \<notin> set ops)
              \<longrightarrow> fst (cache_get (hd (lru_order c)) c'') = None \<and> hd (lru_order c) \<notin> fst ` set (get_dirty_blocks c'')))"
proof -
  let ?old = "hd (lru_order c)"
  from put_miss_refines[OF assms(1,2,3,5), of dirty] obtain c' where p: "cache_put lba data dirty c = Inr c'"
    "abs_cache c' = lru_put (bc_max_blocks c) lba data dirty (abs_cache c)" "cache_wf c'" by blast
  have "?old \<noteq> lba" using assms(5,6) by auto
  then have gone: "cached c' ?old = None"
    using arg_cong[OF p(2), of lm_map] assms(4,5) by (simp add: lru_put_def length_lru_order block_count_def)
  then have "?old \<notin> ce_lba ` set (bc_blocks c')" by (force simp: cached_def map_of_eq_None_iff)
  with cache_steps_lbas absent_lba have later: "fst (cache_get ?old c'') = None \<and> ?old \<notin> fst ` set (get_dirty_blocks c'')"
    if "for_each ops cache_step c' = Inr c''" "\<forall>d b. Op_put ?old d b \<notin> set ops" for ops c'' using that by metis
  have "distinct (map ce_lba (bc_blocks c))" using assms(1) by (simp add: cache_wf_def)
  then have "(?old, old) \<in> set (get_dirty_blocks c)" using assms(6) by (force simp: set_get_dirty_blocks)
  with p(1) gone later show ?thesis by blast
qed

theorem eviction_drops_dirty_block_witness:
  "\<exists>c'. cache_put 24 (demo_block 3) False demo_cache = Inr c' \<and> fst (cache_get 16 c') = None
    \<and> (\<forall>c''. for_each [Op_get 16, Op_clean 24] cache_step c' = Inr c'' \<longrightarrow> 16 \<notin> fst ` set (get_dirty_blocks c''))"
proof -
  have lru: "hd (lru_order demo_cache) = 16" using demo_cache_facts by simp
  from eviction_drops_dirty_block[OF demo_cache_facts(1,2,3) _ demo_cache_facts(6), of _ 3 False]
  obtain c' where c': "cache_put 24 (demo_block 3) False demo_cache = Inr c'"
    and later: "\<And>ops c''. for_each ops cache_step c' = Inr c'' \<Longrightarrow> \<forall>d b. Op_put 16 d b \<notin> set ops
      \<Longrightarrow> fst (cache_get 16 c'') = None \<and> 16 \<notin> fst ` set (get_dirty_blocks c'')"
    using demo_cache_facts(4,5,7,8) unfolding lru by auto
  have "fst (cache_get 16 c') = None" using later[of "[]" c'] by simp
  moreover have "16 \<notin> fst ` set (get_dirty_blocks c'')" if "for_each [Op_get 16, Op_clean 24] cache_step c' = Inr c''" for c''
    using later[OF that] by simp
  ultimately show ?thesis using c' by blast
qed

end
