(* ===== verification/Crc32.thy ===== *)
theory Crc32
  imports Prelude
begin

text \<open>
  The table-driven CRC-32 of \<open>crates/otter-part/src/crc.rs\<close>, which guards GPT headers and entry
  arrays, its equality with the bit-serial definition of the checksum, and the errors it detects.
\<close>

subsection \<open>The code\<close>

type_synonym crc = "32 word"

text \<open>The body of the inner loop of \<open>crc32_table\<close>.\<close>

definition crc_step :: "crc \<Rightarrow> crc" where
  "crc_step crc = (if crc AND 1 \<noteq> 0 then drop_bit 1 crc XOR 0xEDB88320 else drop_bit 1 crc)"

definition crc32_table :: "crc list" where
  "crc32_table = map (\<lambda>i. (crc_step ^^ 8) (word_of_nat i)) [0..<256]"

definition crc_update :: "crc \<Rightarrow> u8 \<Rightarrow> crc" where
  "crc_update crc byte = crc32_table ! unat ((crc XOR ucast byte) AND 0xFF) XOR drop_bit 8 crc"

definition crc32 :: "u8 list \<Rightarrow> crc" where
  "crc32 data = NOT (foldl crc_update (NOT 0) data)"

subsection \<open>The bit-serial checksum\<close>

text \<open>
  The reference: the message is fed bit by bit, the least significant bit of each byte first,
  into the shift register of the reflected polynomial.
\<close>

definition crc_feed :: "crc \<Rightarrow> bool \<Rightarrow> crc" where
  "crc_feed crc b = (if bit crc 0 \<noteq> b then drop_bit 1 crc XOR 0xEDB88320 else drop_bit 1 crc)"

definition byte_bits :: "u8 \<Rightarrow> bool list" where
  "byte_bits b = map (bit b) [0..<8]"

definition crc32_serial :: "u8 list \<Rightarrow> crc" where
  "crc32_serial data = NOT (foldl crc_feed (NOT 0) (concat (map byte_bits data)))"

lemma crc_step_alt: "crc_step c = (if bit c 0 then drop_bit 1 c XOR 0xEDB88320 else drop_bit 1 c)"
proof -
  have "c AND 1 \<noteq> 0 \<longleftrightarrow> bit c 0" by (simp add: bit_0 and_one_eq odd_iff_mod_2_eq_one)
  then show ?thesis by (simp add: crc_step_def)
qed

lemma crc_step_xor: "crc_step (x XOR y) = crc_step x XOR crc_step y"
  by (auto simp: crc_step_alt bit_xor_iff drop_bit_xor ac_simps)

lemma crc_steps_xor: "(crc_step ^^ n) (x XOR y) = (crc_step ^^ n) x XOR (crc_step ^^ n) y"
  by (induction n) (simp_all add: crc_step_xor)

text \<open>Zeros pass through the register.\<close>

lemma crc_steps_zeros:
  assumes "\<And>i. i < n \<Longrightarrow> \<not> bit z i"
  shows "(crc_step ^^ n) z = drop_bit n z"
  using assms
proof (induction n)
  case (Suc n)
  then have "(crc_step ^^ n) z = drop_bit n z" by simp
  moreover have "\<not> bit (drop_bit n z) 0" using Suc.prems[of n] by (simp add: bit_drop_bit_eq)
  ultimately show ?case by (simp add: crc_step_alt[of "drop_bit n z"])
qed simp

lemma length_crc32_table: "length crc32_table = 256"
  by (simp add: crc32_table_def)

lemma nth_crc32_table: "i < 256 \<Longrightarrow> crc32_table ! i = (crc_step ^^ 8) (word_of_nat i)"
  unfolding crc32_table_def by (subst nth_map) (auto simp del: upt_rec_numeral)

lemma table_is_eight_steps: "crc32_table ! unat (x AND 0xFF) XOR drop_bit 8 x = (crc_step ^^ 8) x"
proof -
  let ?lo = "x AND mask 8" and ?hi = "x AND NOT (mask 8)"
  have "x AND 0xFF = ?lo" by (simp add: mask_eq_exp_minus_1)
  moreover have "unat ?lo < 256" using and_mask_less' [of 8 x] by (simp add: word_less_nat_alt)
  moreover have "(crc_step ^^ 8) ?hi = drop_bit 8 ?hi"
    by (rule crc_steps_zeros) (simp add: bit_simps)
  moreover have "drop_bit 8 ?hi = drop_bit 8 x"
    by (rule bit_eqI) (auto simp: bit_simps dest: bit_imp_le_length)
  moreover have "x = ?lo XOR ?hi" by (rule bit_eqI) (auto simp: bit_simps)
  ultimately show ?thesis using crc_steps_xor[of 8 ?lo ?hi] by (simp add: nth_crc32_table)
qed

lemma crc_update_steps: "crc_update c b = (crc_step ^^ 8) (c XOR ucast b)"
proof -
  have "drop_bit 8 (c XOR ucast b) = drop_bit 8 c"
    by (rule bit_eqI) (use bit_imp_le_length[of b] in \<open>auto simp: bit_simps\<close>)
  then show ?thesis using table_is_eight_steps[of "c XOR ucast b"] by (simp add: crc_update_def)
qed

text \<open>Feeding the low bits of a word is stepping the register with the word added at the start.\<close>

lemma feed_low_bits:
  "foldl crc_feed c (map (bit b) [0..<n]) = (crc_step ^^ n) (c XOR b) XOR drop_bit n b" for b :: crc
proof (induction n)
  case (Suc n)
  let ?s = "(crc_step ^^ n) (c XOR b)"
  have "bit (?s XOR drop_bit n b) 0 \<noteq> bit b n \<longleftrightarrow> bit ?s 0"
    by (simp add: bit_xor_iff bit_drop_bit_eq) blast
  moreover have "drop_bit 1 (?s XOR drop_bit n b) = drop_bit 1 ?s XOR drop_bit (Suc n) b"
    by (simp add: drop_bit_xor)
  ultimately have "crc_feed (?s XOR drop_bit n b) (bit b n) = crc_step ?s XOR drop_bit (Suc n) b"
    unfolding crc_feed_def crc_step_alt[of ?s] by (simp only: if_distrib[of "\<lambda>x. x XOR _"] ac_simps cong: if_cong) simp
  then show ?case using Suc by simp
qed (simp add: xor.assoc)

lemma feed_byte: "foldl crc_feed c (byte_bits b) = crc_update c b"
proof -
  have "byte_bits b = map (bit (ucast b :: crc)) [0..<8]"
    by (simp add: byte_bits_def bit_simps del: upt_rec_numeral)
  moreover have "drop_bit 8 (ucast b :: crc) = 0"
    by (rule bit_eqI) (use bit_imp_le_length[of b] in \<open>auto simp: bit_simps\<close>)
  ultimately show ?thesis by (simp add: feed_low_bits crc_update_steps)
qed

text \<open>
  C23. The table-driven loop computes the CRC-32 of the bit-serial definition, for every message;
  the table index is always in range.
\<close>

theorem crc32_equals_serial:
  "crc32 data = crc32_serial data \<and> unat ((c XOR ucast (b :: u8)) AND 0xFF :: crc) < length crc32_table"
proof
  have "foldl crc_feed c (concat (map byte_bits xs)) = foldl crc_update c xs" for c xs
    by (induction xs arbitrary: c) (simp_all add: feed_byte)
  then show "crc32 data = crc32_serial data" by (simp add: crc32_def crc32_serial_def)
  have "(c XOR ucast b) AND 0xFF = (c XOR ucast b) AND mask 8" by (simp add: mask_eq_exp_minus_1)
  then show "unat ((c XOR ucast b) AND 0xFF) < length crc32_table"
    using and_mask_less'[of 8 "c XOR ucast b"] by (simp add: word_less_nat_alt length_crc32_table)
qed

subsection \<open>Errors the checksum detects\<close>

lemma xor_left_cancel_crc: "x XOR y = x XOR z \<longleftrightarrow> y = z" for x y z :: crc
  by (auto simp: bit_eq_iff bit_xor_iff)

lemma xor_right_cancel_crc: "x XOR z = y XOR z \<longleftrightarrow> x = y" for x y z :: crc
  by (auto simp: bit_eq_iff bit_xor_iff)

lemma crc_step_inj: "crc_step x = crc_step y \<Longrightarrow> x = y"
proof -
  assume eq: "crc_step x = crc_step y"
  have top: "bit (crc_step z) 31 \<longleftrightarrow> bit z 0" for z
    using bit_imp_le_length[of z 32] by (auto simp: crc_step_alt bit_simps)
  have low: "bit x 0 = bit y 0" using top eq by metis
  then have "drop_bit 1 x = drop_bit 1 y"
    using eq by (auto simp: crc_step_alt xor_right_cancel_crc split: if_splits)
  then have "bit x (Suc i) = bit y (Suc i)" for i
    by (metis bit_drop_bit_eq plus_1_eq_Suc comp_apply)
  then show "x = y" using low by (metis bit_eqI not0_implies_Suc)
qed

lemma crc_steps_inj: "(crc_step ^^ n) x = (crc_step ^^ n) y \<longleftrightarrow> x = y"
  by (induction n) (auto dest: crc_step_inj)

lemma crc_updates_inj: "foldl crc_update c ys = foldl crc_update d ys \<longleftrightarrow> c = d"
proof (induction ys arbitrary: c d)
  case (Cons y ys)
  have "c XOR ucast y = d XOR ucast y \<longleftrightarrow> c = d" by (metis xor_left_cancel_crc xor.commute)
  then show ?case using Cons by (simp add: crc_update_steps crc_steps_inj)
qed simp

lemma inj_byte: "inj (ucast :: u8 \<Rightarrow> crc)"
proof (rule injI)
  fix a b :: u8
  assume "(ucast a :: crc) = ucast b"
  then have "bit (ucast a :: crc) i = bit (ucast b :: crc) i" for i by simp
  then have "i < 32 \<longrightarrow> bit a i = bit b i" for i by (auto simp: bit_simps)
  then show "a = b" by (intro bit_eqI) auto
qed

text \<open>
  Changing one byte of a message, in any way and anywhere, changes its checksum, so a header
  or entry array damaged in one byte never verifies.
\<close>

theorem crc32_detects_byte_error:
  "crc32 (xs @ a # ys) = crc32 (xs @ b # ys) \<longleftrightarrow> a = b"
proof -
  let ?c = "foldl crc_update (NOT 0) xs"
  have "crc32 (xs @ a # ys) = crc32 (xs @ b # ys) \<longleftrightarrow> crc_update ?c a = crc_update ?c b"
    by (simp add: crc32_def crc_updates_inj)
  also have "\<dots> \<longleftrightarrow> ?c XOR ucast a = ?c XOR ucast b" by (simp add: crc_update_steps crc_steps_inj)
  also have "\<dots> \<longleftrightarrow> (ucast a :: crc) = ucast b" by (rule xor_left_cancel_crc)
  also have "\<dots> \<longleftrightarrow> a = b" by (simp add: inj_eq[OF inj_byte])
  finally show ?thesis .
qed

end
