(* ===== verification/Guid.thy ===== *)
theory Guid
  imports Prelude
begin

text \<open>
  GUIDs (\<open>crates/otter-part/src/guid.rs\<close>): sixteen bytes in on-disk order, their text form and
  the parser of it.  Texts are ASCII byte strings.
\<close>

type_synonym guid = "u8 list"

subsection \<open>Parsing\<close>

definition hex_digit :: "u8 \<Rightarrow> u8 option" where
  "hex_digit b = (if 48 \<le> b \<and> b \<le> 57 then Some (b - 48)
     else if 65 \<le> b \<and> b \<le> 70 then Some (b - 65 + 10)
     else if 97 \<le> b \<and> b \<le> 102 then Some (b - 97 + 10) else None)"

text \<open>The loop of \<open>parse_hex_u16\<close>, \<open>parse_hex_u32\<close> and \<open>parse_hex_u64\<close>, at each width.\<close>

fun parse_hex_from :: "'w::len word \<Rightarrow> u8 list \<Rightarrow> 'w word option" where
  "parse_hex_from value [] = Some value"
| "parse_hex_from value (b # bs) = (case hex_digit b of None \<Rightarrow> None
     | Some digit \<Rightarrow> parse_hex_from (value * 16 + ucast digit) bs)"

definition parse_hex_u32 :: "u8 list \<Rightarrow> 32 word option" where "parse_hex_u32 = parse_hex_from 0"
definition parse_hex_u16 :: "u8 list \<Rightarrow> 16 word option" where "parse_hex_u16 = parse_hex_from 0"
definition parse_hex_u64 :: "u8 list \<Rightarrow> 64 word option" where "parse_hex_u64 = parse_hex_from 0"

definition guid_parse :: "u8 list \<Rightarrow> guid option" where
  "guid_parse bytes =
     (if length bytes \<noteq> 36 then None
      else if bytes ! 8 \<noteq> 45 \<or> bytes ! 13 \<noteq> 45 \<or> bytes ! 18 \<noteq> 45 \<or> bytes ! 23 \<noteq> 45 then None
      else case parse_hex_u32 (take 8 bytes) of None \<Rightarrow> None | Some v0 \<Rightarrow>
        case parse_hex_u16 (take 4 (drop 9 bytes)) of None \<Rightarrow> None | Some v1 \<Rightarrow>
        case parse_hex_u16 (take 4 (drop 14 bytes)) of None \<Rightarrow> None | Some v2 \<Rightarrow>
        case parse_hex_u16 (take 4 (drop 19 bytes)) of None \<Rightarrow> None | Some v3 \<Rightarrow>
        case parse_hex_u64 (take 12 (drop 24 bytes)) of None \<Rightarrow> None | Some v4 \<Rightarrow>
          Some (to_le 4 (unat v0) @ to_le 2 (unat v1) @ to_le 2 (unat v2)
            @ rev (to_le 2 (unat v3)) @ drop 2 (rev (to_le 8 (unat v4)))))"

subsection \<open>Formatting\<close>

text \<open>\<open>{:0nX}\<close>: \<open>n\<close> upper-case hexadecimal digits of a number below \<open>16 ^ n\<close>.\<close>

definition hex_char :: "nat \<Rightarrow> u8" where
  "hex_char d = (if d < 10 then 48 + word_of_nat d else 55 + word_of_nat d)"

fun hex_upper :: "nat \<Rightarrow> nat \<Rightarrow> u8 list" where
  "hex_upper 0 v = []"
| "hex_upper (Suc n) v = hex_upper n (v div 16) @ [hex_char (v mod 16)]"

definition guid_display :: "guid \<Rightarrow> u8 list" where
  "guid_display bytes =
     hex_upper 8 (le_bytes (take 4 bytes)) @ [45] @ hex_upper 4 (le_bytes (take 2 (drop 4 bytes))) @ [45]
     @ hex_upper 4 (le_bytes (take 2 (drop 6 bytes))) @ [45]
     @ hex_upper 4 (le_bytes (rev (take 2 (drop 8 bytes)))) @ [45]
     @ hex_upper 12 (le_bytes (rev ([0, 0] @ take 6 (drop 10 bytes))))"

subsection \<open>The two are inverse\<close>

definition ascii_upper :: "u8 \<Rightarrow> u8" where
  "ascii_upper b = (if 97 \<le> b \<and> b \<le> 122 then b - 32 else b)"

lemma length_hex_upper [simp]: "length (hex_upper n v) = n"
  by (induction n arbitrary: v) simp_all

text \<open>What the parser knows of one byte is what it knows of its upper case.\<close>

lemma hex_char_word: "hex_char (unat d) = (if d < 10 then 48 + d else 55 + d)" for d :: u8
  by (simp add: hex_char_def word_less_nat_alt)

lemma hex_digit_Some: "hex_digit b = Some d \<Longrightarrow> d < 16 \<and> ascii_upper b = hex_char (unat d)"
  unfolding hex_char_word hex_digit_def ascii_upper_def
  by (auto split: if_splits; unat_arith)

lemma hex_digit_of_upper:
  assumes "d < 16" "ascii_upper b = hex_char (unat d)"
  shows "hex_digit b = Some d"
proof (cases "d < 10")
  case True
  then have u: "ascii_upper b = 48 + d" using assms(2) by (simp add: hex_char_word)
  have "\<not> (97 \<le> b \<and> b \<le> 122)"
  proof
    assume l: "97 \<le> b \<and> b \<le> 122"
    then have "b = 80 + d" using u by (simp add: ascii_upper_def diff_eq_eq)
    then show False using l True by unat_arith
  qed
  then have b: "b = 48 + d" using u by (auto simp: ascii_upper_def split: if_splits)
  moreover have "48 \<le> b \<and> b \<le> 57" using True unfolding b by (simp add: word_le_nat_alt word_less_nat_alt unat_word_ariths)
  ultimately show ?thesis by (simp add: hex_digit_def)
next
  case False
  then have u: "ascii_upper b = 55 + d" using assms(2) by (simp add: hex_char_word)
  show ?thesis
  proof (cases "97 \<le> b \<and> b \<le> 122")
    case True
    then have b: "b = 87 + d" using u by (simp add: ascii_upper_def diff_eq_eq)
    moreover have "97 \<le> b \<and> b \<le> 102" using False assms(1) unfolding b by (simp add: word_le_nat_alt word_less_nat_alt unat_word_ariths)
    moreover have "\<not> b \<le> 57" "\<not> b \<le> 70" using True by unat_arith+
    ultimately show ?thesis by (simp add: hex_digit_def)
  next
    case no: False
    then have b: "b = 55 + d" using u by (auto simp: ascii_upper_def split: if_splits)
    moreover have "65 \<le> b \<and> b \<le> 70 \<and> \<not> b \<le> 57" using False assms(1) unfolding b by (simp add: word_le_nat_alt word_less_nat_alt unat_word_ariths)
    ultimately show ?thesis by (simp add: hex_digit_def)
  qed
qed

lemma parse_hex_append:
  "parse_hex_from v (xs @ ys) = (case parse_hex_from v xs of None \<Rightarrow> None | Some w \<Rightarrow> parse_hex_from w ys)"
  by (induction xs arbitrary: v) (auto split: option.splits)

text \<open>Parsing accepts exactly the texts whose upper case is the formatted value.\<close>

lemma parse_hex_upper:
  "v < 16 ^ length s \<Longrightarrow> map ascii_upper s = hex_upper (length s) v
    \<Longrightarrow> parse_hex_from a s = Some (a * 16 ^ length s + word_of_nat v)"
proof (induction s arbitrary: v rule: rev_induct)
  case (snoc b s)
  let ?d = "word_of_nat (v mod 16) :: u8"
  have d: "unat ?d = v mod 16" by (simp add: unsigned_of_nat take_bit_nat_eq_self)
  have eqs: "map ascii_upper s = hex_upper (length s) (v div 16)" "ascii_upper b = hex_char (v mod 16)"
    using snoc.prems(2) by simp_all
  have "v div 16 < 16 ^ length s" using snoc.prems(1) by (simp add: less_mult_imp_div_less mult.commute)
  then have "parse_hex_from a s = Some (a * 16 ^ length s + word_of_nat (v div 16))"
    using snoc.IH eqs(1) by blast
  moreover have "hex_digit b = Some ?d"
    using hex_digit_of_upper[of ?d b] eqs(2) d by (simp add: word_less_nat_alt)
  moreover have "(ucast ?d :: 'a word) = word_of_nat (v mod 16)"
    by (metis d of_nat_unat)
  moreover have "(word_of_nat v :: 'a word) = word_of_nat (v div 16) * 16 + word_of_nat (v mod 16)"
    by (metis div_mult_mod_eq of_nat_add of_nat_mult of_nat_numeral)
  ultimately show ?case by (simp add: parse_hex_append algebra_simps)
qed simp

lemma parse_hex_digits:
  "parse_hex_from a s = Some w \<Longrightarrow>
    \<exists>v<16 ^ length s. map ascii_upper s = hex_upper (length s) v \<and> w = a * 16 ^ length s + word_of_nat v"
proof (induction s arbitrary: w rule: rev_induct)
  case (snoc b s)
  then obtain u d where u: "parse_hex_from a s = Some u" and d: "hex_digit b = Some d"
    by (auto simp: parse_hex_append split: option.splits)
  from snoc.IH[OF u] obtain v where v: "v < 16 ^ length s" "map ascii_upper s = hex_upper (length s) v" by blast
  note hd = hex_digit_Some[OF d]
  then have "unat d < 16" by (simp add: word_less_nat_alt)
  then have "v * 16 + unat d < 16 ^ length (s @ [b])"
    and "map ascii_upper (s @ [b]) = hex_upper (length (s @ [b])) (v * 16 + unat d)"
    using v hd by simp_all
  then show ?case using parse_hex_upper snoc.prems by (metis option.inject)
qed simp

text \<open>One group of digits: its number read back from the bytes it is stored as.\<close>

lemma parse_group:
  assumes "16 ^ length s \<le> (2 :: nat) ^ LENGTH('w::len)"
  shows "parse_hex_from (0 :: 'w word) s = Some w
    \<longleftrightarrow> unat w < 16 ^ length s \<and> map ascii_upper s = hex_upper (length s) (unat w)"
proof
  assume "parse_hex_from (0 :: 'w word) s = Some w"
  from parse_hex_digits[OF this] obtain v
    where "v < 16 ^ length s" "map ascii_upper s = hex_upper (length s) v" "w = word_of_nat v" by auto
  moreover have "unat (word_of_nat v :: 'w word) = v"
    using calculation(1) assms by (simp add: unsigned_of_nat take_bit_nat_eq_self)
  ultimately show "unat w < 16 ^ length s \<and> map ascii_upper s = hex_upper (length s) (unat w)" by simp
next
  assume "unat w < 16 ^ length s \<and> map ascii_upper s = hex_upper (length s) (unat w)"
  with parse_hex_upper[of "unat w" s "0 :: 'w word"] show "parse_hex_from (0 :: 'w word) s = Some w" by simp
qed

lemma parse_group_bytes:
  assumes "length s = 2 * n" "(256 :: nat) ^ n \<le> 2 ^ LENGTH('w::len)"
  shows "(\<exists>w :: 'w word. parse_hex_from 0 s = Some w \<and> bs = to_le n (unat w))
    \<longleftrightarrow> length bs = n \<and> map ascii_upper s = hex_upper (2 * n) (le_bytes bs)"
proof -
  have pw: "(16 :: nat) ^ length s = 256 ^ n" using assms(1) by (simp add: power_mult)
  have p: "parse_hex_from (0 :: 'w word) s = Some w
      \<longleftrightarrow> unat w < 256 ^ n \<and> map ascii_upper s = hex_upper (2 * n) (unat w)" for w
    using parse_group[where 'w = 'w, of s w] assms pw by simp
  show ?thesis
  proof
    assume "\<exists>w :: 'w word. parse_hex_from 0 s = Some w \<and> bs = to_le n (unat w)"
    then show "length bs = n \<and> map ascii_upper s = hex_upper (2 * n) (le_bytes bs)"
      by (auto simp: p le_bytes_to_le)
  next
    assume r: "length bs = n \<and> map ascii_upper s = hex_upper (2 * n) (le_bytes bs)"
    then have l: "le_bytes bs < 256 ^ n" using le_bytes_bound by blast
    then have "unat (word_of_nat (le_bytes bs) :: 'w word) = le_bytes bs"
      using assms(2) by (simp add: unsigned_of_nat take_bit_nat_eq_self)
    then show "\<exists>w :: 'w word. parse_hex_from 0 s = Some w \<and> bs = to_le n (unat w)"
      using r l to_le_le_bytes[of bs] by (intro exI[of _ "word_of_nat (le_bytes bs)"]) (simp add: p)
  qed
qed

lemma ascii_upper_dash [simp]: "ascii_upper c = 45 \<longleftrightarrow> c = 45"
proof -
  have "97 \<le> c \<Longrightarrow> c - 32 \<noteq> 45" by unat_arith
  then show ?thesis by (auto simp: ascii_upper_def)
qed

lemma take_to_le: "m \<le> n \<Longrightarrow> take m (to_le n v) = to_le m v"
  by (induction m n arbitrary: v rule: diff_induct) simp_all

lemma le_bytes_zeros: "le_bytes (bs @ [0, 0]) = le_bytes bs"
  by (induction bs) simp_all

text \<open>A text of the right length, cut at the dashes.\<close>

lemma split_text:
  fixes s :: "u8 list"
  assumes "length s = 36"
  obtains t0 c0 t1 c1 t2 c2 t3 c3 t4 where "s = t0 @ c0 # t1 @ c1 # t2 @ c2 # t3 @ c3 # t4"
    "length t0 = 8" "length t1 = 4" "length t2 = 4" "length t3 = 4" "length t4 = 12"
proof -
  have split_at: "\<exists>s c r. xs = s @ c # r \<and> length s = n \<and> length r = length xs - n - 1"
    if "n < length xs" for n and xs :: "u8 list"
    using id_take_nth_drop[OF that] that by (intro exI[of _ "take n xs"] exI) auto
  obtain t0 c0 r0 where p0: "s = t0 @ c0 # r0" "length t0 = 8" "length r0 = 27"
    using split_at[of 8 "s"] assms by auto
  obtain t1 c1 r1 where p1: "r0 = t1 @ c1 # r1" "length t1 = 4" "length r1 = 22"
    using split_at[of 4 r0] p0 by auto
  obtain t2 c2 r2 where p2: "r1 = t2 @ c2 # r2" "length t2 = 4" "length r2 = 17"
    using split_at[of 4 r1] p1 by auto
  obtain t3 c3 t4 where p3: "r2 = t3 @ c3 # t4" "length t3 = 4" "length t4 = 12"
    using split_at[of 4 r2] p2 by auto
  show ?thesis using that p0 p1 p2 p3 by blast
qed

lemma guid_parse_split:
  assumes "length t0 = 8" "length t1 = 4" "length t2 = 4" "length t3 = 4" "length t4 = 12"
  shows "guid_parse (t0 @ c0 # t1 @ c1 # t2 @ c2 # t3 @ c3 # t4) = Some g \<longleftrightarrow>
    c0 = 45 \<and> c1 = 45 \<and> c2 = 45 \<and> c3 = 45 \<and> (\<exists>b0 b1 b2 b3 b4. g = b0 @ b1 @ b2 @ rev b3 @ rev b4
      \<and> (\<exists>v. parse_hex_u32 t0 = Some v \<and> b0 = to_le 4 (unat v))
      \<and> (\<exists>v. parse_hex_u16 t1 = Some v \<and> b1 = to_le 2 (unat v))
      \<and> (\<exists>v. parse_hex_u16 t2 = Some v \<and> b2 = to_le 2 (unat v))
      \<and> (\<exists>v. parse_hex_u16 t3 = Some v \<and> b3 = to_le 2 (unat v))
      \<and> (\<exists>v. parse_hex_u64 t4 = Some v \<and> b4 = to_le 6 (unat v)))"
proof -
  have b4: "drop 2 (rev (to_le 8 v)) = rev (to_le 6 v)" for v
    by (simp add: drop_rev take_to_le)
  show ?thesis
    by (simp add: guid_parse_def b4 assms nth_append split: option.splits) blast
qed

lemma parse_group_64: "length s = 12 \<Longrightarrow> (\<exists>w. parse_hex_u64 s = Some w \<and> bs = to_le 6 (unat w))
    \<longleftrightarrow> length bs = 6 \<and> map ascii_upper s = hex_upper 12 (le_bytes bs)"
  using parse_group_bytes[where 'w = 64, of s 6 bs] by (simp add: parse_hex_u64_def)

lemma parse_group_32: "length s = 8 \<Longrightarrow> (\<exists>w. parse_hex_u32 s = Some w \<and> bs = to_le 4 (unat w))
    \<longleftrightarrow> length bs = 4 \<and> map ascii_upper s = hex_upper 8 (le_bytes bs)"
  using parse_group_bytes[where 'w = 32, of s 4 bs] by (simp add: parse_hex_u32_def)

lemma parse_group_16: "length s = 4 \<Longrightarrow> (\<exists>w. parse_hex_u16 s = Some w \<and> bs = to_le 2 (unat w))
    \<longleftrightarrow> length bs = 2 \<and> map ascii_upper s = hex_upper 4 (le_bytes bs)"
  using parse_group_bytes[where 'w = 16, of s 2 bs] by (simp add: parse_hex_u16_def)

text \<open>The sixteen bytes of a GUID, by the five groups they are written in.\<close>

lemma take_drop_append: "take m (drop n xs) @ drop (m + n) xs = drop n xs"
  by (metis append_take_drop_id drop_drop)

lemma guid_groups:
  assumes "length g = 16"
  obtains b0 b1 b2 b3 b4 where "g = b0 @ b1 @ b2 @ rev b3 @ rev b4"
    "length b0 = 4" "length b1 = 2" "length b2 = 2" "length b3 = 2" "length b4 = 6"
proof
  show "g = take 4 g @ take 2 (drop 4 g) @ take 2 (drop 6 g) @ rev (rev (take 2 (drop 8 g))) @ rev (rev (drop 10 g))"
    using take_drop_append[of 2 4 g] take_drop_append[of 2 6 g] take_drop_append[of 2 8 g] by simp
qed (use assms in simp_all)

lemma guid_display_groups:
  "length b0 = 4 \<Longrightarrow> length b1 = 2 \<Longrightarrow> length b2 = 2 \<Longrightarrow> length b3 = 2 \<Longrightarrow> length b4 = 6 \<Longrightarrow>
    guid_display (b0 @ b1 @ b2 @ rev b3 @ rev b4) = hex_upper 8 (le_bytes b0) @ 45 # hex_upper 4 (le_bytes b1)
      @ 45 # hex_upper 4 (le_bytes b2) @ 45 # hex_upper 4 (le_bytes b3) @ 45 # hex_upper 12 (le_bytes b4)"
  by (simp add: guid_display_def le_bytes_zeros)

text \<open>
  Parsing is the exact inverse of formatting: a text parses to a GUID if and only if, in
  upper case, it is what formatting that GUID prints.  So every GUID survives being printed and
  parsed back, case does not matter, and nothing else is accepted.
\<close>

theorem guid_text_roundtrip:
  "guid_parse s = Some g \<longleftrightarrow> length g = 16 \<and> map ascii_upper s = guid_display g"
proof (cases "length s = 36")
  case False
  have "length (guid_display g) = 36" by (simp add: guid_display_def)
  then have "map ascii_upper s \<noteq> guid_display g" using False by (metis length_map)
  then show ?thesis using False by (simp add: guid_parse_def)
next
  case True
  from split_text[OF True] obtain t0 c0 t1 c1 t2 c2 t3 c3 t4
    where t: "s = t0 @ c0 # t1 @ c1 # t2 @ c2 # t3 @ c3 # t4"
    and l: "length t0 = 8" "length t1 = 4" "length t2 = 4" "length t3 = 4" "length t4 = 12" by blast
  note groups = parse_group_32[OF l(1)] parse_group_16[OF l(2)] parse_group_16[OF l(3)]
    parse_group_16[OF l(4)] parse_group_64[OF l(5)]
  show ?thesis
  proof
    assume "guid_parse s = Some g"
    then show "length g = 16 \<and> map ascii_upper s = guid_display g"
      unfolding t guid_parse_split[OF l] groups by (auto simp: guid_display_groups)
  next
    assume r: "length g = 16 \<and> map ascii_upper s = guid_display g"
    from guid_groups[OF conjunct1[OF r]] obtain b0 b1 b2 b3 b4 where g: "g = b0 @ b1 @ b2 @ rev b3 @ rev b4"
      and b: "length b0 = 4" "length b1 = 2" "length b2 = 2" "length b3 = 2" "length b4 = 6" by blast
    have eqs: "map ascii_upper t0 = hex_upper 8 (le_bytes b0)" "c0 = 45"
      "map ascii_upper t1 = hex_upper 4 (le_bytes b1)" "c1 = 45"
      "map ascii_upper t2 = hex_upper 4 (le_bytes b2)" "c2 = 45"
      "map ascii_upper t3 = hex_upper 4 (le_bytes b3)" "c3 = 45"
      "map ascii_upper t4 = hex_upper 12 (le_bytes b4)"
      using r l unfolding t g guid_display_groups[OF b] by auto
    show "guid_parse s = Some g"
      unfolding t g guid_parse_split[OF l] groups
      using eqs b by blast
  qed
qed

end
