(* ===== verification/Partitions.thy ===== *)
theory Partitions
  imports Crc32 Guid
begin

text \<open>
  Reading partition tables: \<open>crates/otter-part/src/lib.rs\<close> (\<open>read_table\<close>), \<open>mbr.rs\<close> and
  \<open>gpt.rs\<close>.  The block device behind the \<open>SectorRead\<close> trait is a record of its geometry and of
  what a read of each sector returns; the parsers only ever read.
\<close>

subsection \<open>Data\<close>

datatype part_error = Io | NoTable | Corrupt | Unsupported

record disk =
  dk_sector_size :: nat
  dk_sector_count :: nat
  dk_read :: "nat \<Rightarrow> u8 list option"

datatype scheme = Scheme_Mbr nat | Scheme_Gpt guid bool

datatype part_kind = Kind_Mbr u8 | Kind_Gpt guid guid nat

record partition =
  pt_number :: nat
  pt_first_lba :: nat
  pt_sectors :: nat
  pt_bootable :: bool
  pt_name :: "nat list"
  pt_kind :: part_kind

record part_table =
  tb_scheme :: scheme
  tb_partitions :: "partition list"

type_synonym 'a part_result = "(part_error + 'a) checked"

definition EFI_SYSTEM :: guid where
  "EFI_SYSTEM = [0x28, 0x73, 0x2A, 0xC1, 0x1F, 0xF8, 0xD2, 0x11, 0xBA, 0x4B, 0x00, 0xA0, 0xC9, 0x3E, 0xC9, 0x3B]"

definition BASIC_DATA :: guid where
  "BASIC_DATA = [0xA2, 0xA0, 0xD0, 0xEB, 0xE5, 0xB9, 0x33, 0x44, 0x87, 0xC0, 0x68, 0xB6, 0xB7, 0x26, 0x99, 0xC7]"

definition read_sector :: "disk \<Rightarrow> nat \<Rightarrow> u8 list part_result" where
  "read_sector d lba = Inr (ok_or (dk_read d lba) Io)"

definition is_power_of_two_in_range :: "nat \<Rightarrow> nat \<Rightarrow> nat \<Rightarrow> bool" where
  "is_power_of_two_in_range n lo hi \<longleftrightarrow> lo \<le> n \<and> n \<le> hi \<and> n AND (n - 1) = 0"

abbreviation fail :: "part_error \<Rightarrow> 'a part_result" where "fail e \<equiv> Inr (Inl e)"

abbreviation ok :: "'a \<Rightarrow> 'a part_result" where "ok x \<equiv> Inr (Inr x)"

subsection \<open>The master boot record\<close>

text \<open>The loop over the four boot indicators, which both readers run.\<close>

fun boot_indicators_ok :: "u8 list \<Rightarrow> nat list \<Rightarrow> bool checked" where
  "boot_indicators_ok buf [] = Inr True"
| "boot_indicators_ok buf (i # is) = and_then (index_at buf (446 + i * 16))
     (\<lambda>boot. if boot \<noteq> 0 \<and> boot \<noteq> 0x80 then Inr False else boot_indicators_ok buf is)"

definition check_boot_sector :: "u8 list \<Rightarrow> unit part_result" where
  "check_boot_sector buf =
     and_then (index_at buf 510) (\<lambda>b0. and_then (index_at buf 511) (\<lambda>b1.
       if b0 \<noteq> 0x55 \<or> b1 \<noteq> 0xAA then fail NoTable
       else and_then (boot_indicators_ok buf [0..<4]) (\<lambda>good. if good then ok () else fail NoTable)))"

definition mbr_slot :: "nat \<Rightarrow> u8 list \<Rightarrow> nat \<Rightarrow> partition list \<Rightarrow> partition list checked" where
  "mbr_slot sector_count buf slot partitions =
     (let base = 446 + slot * 16 in
      and_then (index_at buf base) (\<lambda>boot.
      and_then (le_at buf (base + 8) 4) (\<lambda>start.
      and_then (le_at buf (base + 12) 4) (\<lambda>size.
      and_then (index_at buf (base + 4)) (\<lambda>system_id.
        if system_id = 0 \<or> start = 0 \<or> size = 0 then Inr partitions
        else if sector_count < saturating_add start size then Inr partitions
        else Inr (partitions @ [\<lparr>pt_number = slot + 1, pt_first_lba = start, pt_sectors = size,
               pt_bootable = (boot = 0x80), pt_name = [], pt_kind = Kind_Mbr system_id\<rparr>]))))))"

definition read_mbr :: "disk \<Rightarrow> (nat \<times> partition list) part_result" where
  "read_mbr d =
     (if \<not> is_power_of_two_in_range (dk_sector_size d) 512 4096 then fail Unsupported
      else try_then (read_sector d 0) (\<lambda>buf.
        try_then (check_boot_sector buf) (\<lambda>_.
        and_then (le_at buf 440 4) (\<lambda>disk_signature.
        and_then (for_each [0..<4] (mbr_slot (dk_sector_count d) buf) []) (\<lambda>partitions.
          ok (disk_signature, partitions))))))"

subsection \<open>UTF-16 names\<close>

fun chunks :: "nat \<Rightarrow> 'a list \<Rightarrow> 'a list list" where
  "chunks n xs = (if n = 0 \<or> xs = [] then [] else take n xs # chunks n (drop n xs))"

declare chunks.simps [simp del]

text \<open>The code units up to the first NUL.\<close>

fun utf16_units :: "u8 list list \<Rightarrow> nat list" where
  "utf16_units [] = []"
| "utf16_units (pair # rest) =
     (if length pair = 2 then
        (let cu = le_bytes pair in if cu = 0 then [] else cu # utf16_units rest)
      else utf16_units rest)"

text \<open>\<open>char::from_u32\<close>: the Unicode scalar values.\<close>

definition char_from_u32 :: "nat \<Rightarrow> nat option" where
  "char_from_u32 c = (if c < 0x110000 \<and> \<not> (0xD800 \<le> c \<and> c < 0xE000) then Some c else None)"

definition push_char :: "nat \<Rightarrow> nat" where
  "push_char c = (case char_from_u32 c of Some c \<Rightarrow> c | None \<Rightarrow> 0xFFFD)"

definition is_high :: "nat \<Rightarrow> bool" where "is_high cu \<longleftrightarrow> cu AND 0xFC00 = 0xD800"
definition is_low :: "nat \<Rightarrow> bool" where "is_low cu \<longleftrightarrow> cu AND 0xFC00 = 0xDC00"

fun utf16_decode :: "nat list \<Rightarrow> nat list" where
  "utf16_decode [] = []"
| "utf16_decode (cu # rest) =
     (if is_high cu then
        (case rest of
           low # rest' \<Rightarrow>
             if is_low low
             then push_char (0x10000 + ((push_bit 10 (cu AND 0x03FF)) OR (low AND 0x03FF))) # utf16_decode rest'
             else 0xFFFD # utf16_decode rest
         | [] \<Rightarrow> 0xFFFD # utf16_decode rest)
      else if is_low cu then 0xFFFD # utf16_decode rest
      else if cu = 0xFFFE \<or> cu = 0xFFFF then 0xFFFD # utf16_decode rest
      else push_char cu # utf16_decode rest)"

definition decode_utf16_name :: "u8 list \<Rightarrow> nat list" where
  "decode_utf16_name bytes = utf16_decode (utf16_units (chunks 2 bytes))"

subsection \<open>The GUID partition table\<close>

definition EFI_PART_SIGNATURE :: "u8 list" where
  "EFI_PART_SIGNATURE = [69, 70, 73, 32, 80, 65, 82, 84]"

definition MIN_HEADER_SIZE :: nat where "MIN_HEADER_SIZE = 92"
definition MAX_ARRAY_SIZE :: nat where "MAX_ARRAY_SIZE = 1024 * 1024"

record gpt_header =
  gh_first_usable :: nat
  gh_last_usable :: nat
  gh_disk_guid :: guid
  gh_array_lba :: nat
  gh_num_entries :: nat
  gh_entry_size :: nat
  gh_array_crc :: nat

text \<open>The last checks of \<open>read_header\<close>: the entry array lies in the disk and outside the usable range.\<close>

definition array_misplaced :: "nat \<Rightarrow> nat \<Rightarrow> nat \<Rightarrow> nat \<Rightarrow> nat \<Rightarrow> bool" where
  "array_misplaced array_lba array_end first_usable last_usable sector_count =
     (if array_lba < first_usable then first_usable < array_end
      else if array_lba \<le> last_usable then True
      else sector_count < array_end)"

definition header_crc_ok :: "u8 list \<Rightarrow> nat \<Rightarrow> nat \<Rightarrow> bool checked" where
  "header_crc_ok buf header_size crc_stored =
     and_then (slice_at buf 0 header_size) (\<lambda>crc_buf.
       Inr (unat (crc32 (take 16 crc_buf @ [0, 0, 0, 0] @ drop 20 crc_buf)) = crc_stored))"

text \<open>The fields behind the checksum, from \<open>MyLBA\<close> on.\<close>

definition header_fields :: "u8 list \<Rightarrow> nat \<Rightarrow> nat \<Rightarrow> nat \<Rightarrow> gpt_header option part_result" where
  "header_fields buf lba sector_size sector_count =
     and_then (le_at buf 24 8) (\<lambda>my_lba.
     if my_lba \<noteq> lba then ok None else
     and_then (le_at buf 32 8) (\<lambda>alt_lba.
     and_then (le_at buf 40 8) (\<lambda>first_usable.
     and_then (le_at buf 48 8) (\<lambda>last_usable.
     if last_usable < first_usable \<or> sector_count \<le> last_usable then ok None else
     and_then (slice_at buf 56 72) (\<lambda>disk_guid.
     and_then (le_at buf 72 8) (\<lambda>array_lba.
     and_then (le_at buf 80 4) (\<lambda>num_entries.
     and_then (le_at buf 84 4) (\<lambda>entry_size.
     and_then (le_at buf 88 4) (\<lambda>array_crc.
     if \<not> is_power_of_two_in_range entry_size 128 0x80000000 then ok None else
     and_then (umul entry_size num_entries) (\<lambda>array_bytes.
     if MAX_ARRAY_SIZE < array_bytes then ok None else
     let array_sectors = div_ceil array_bytes sector_size;
         array_end = saturating_add array_lba array_sectors in
     if array_misplaced array_lba array_end first_usable last_usable sector_count then ok None
     else ok (Some \<lparr>gh_first_usable = first_usable, gh_last_usable = last_usable, gh_disk_guid = disk_guid,
       gh_array_lba = array_lba, gh_num_entries = num_entries, gh_entry_size = entry_size,
       gh_array_crc = array_crc\<rparr>)))))))))))"

definition read_header :: "disk \<Rightarrow> nat \<Rightarrow> nat \<Rightarrow> nat \<Rightarrow> gpt_header option part_result" where
  "read_header d lba sector_size sector_count =
     try_then (read_sector d lba) (\<lambda>buf.
     and_then (slice_at buf 0 8) (\<lambda>signature.
     if signature \<noteq> EFI_PART_SIGNATURE then ok None else
     and_then (le_at buf 12 4) (\<lambda>header_size.
     if header_size < MIN_HEADER_SIZE \<or> sector_size < header_size then ok None else
     and_then (le_at buf 16 4) (\<lambda>crc_stored.
     and_then (header_crc_ok buf header_size crc_stored) (\<lambda>good.
     if \<not> good then ok None else header_fields buf lba sector_size sector_count)))))"

definition parse_entry :: "u8 list \<Rightarrow> nat \<Rightarrow> nat \<Rightarrow> nat \<Rightarrow> partition option part_result" where
  "parse_entry bytes idx first_usable last_usable =
     and_then (slice_at bytes 0 16) (\<lambda>type_guid.
     if type_guid = replicate 16 0 then ok None else
     and_then (slice_at bytes 16 32) (\<lambda>unique_guid.
     and_then (le_at bytes 32 8) (\<lambda>first_lba.
     and_then (le_at bytes 40 8) (\<lambda>last_lba.
     and_then (le_at bytes 48 8) (\<lambda>attributes.
     if first_lba < first_usable \<or> last_usable < last_lba \<or> last_lba < first_lba then ok None else
     and_then (slice_at bytes 56 128) (\<lambda>name_bytes.
     and_then (if idx + 1 < 2 ^ 32 then Inr (idx + 1) else Inl Arith_overflow) (\<lambda>number.
     and_then (uadd (last_lba - first_lba) 1) (\<lambda>sectors.
     ok (Some \<lparr>pt_number = number, pt_first_lba = first_lba, pt_sectors = sectors,
       pt_bootable = (attributes AND 4 \<noteq> 0), pt_name = decode_utf16_name name_bytes,
       pt_kind = Kind_Gpt type_guid unique_guid attributes\<rparr>)))))))))"

fun read_sectors :: "disk \<Rightarrow> nat \<Rightarrow> nat list \<Rightarrow> u8 list part_result" where
  "read_sectors d array_lba [] = ok []"
| "read_sectors d array_lba (i # is) =
     and_then (uadd array_lba i) (\<lambda>lba. try_then (read_sector d lba) (\<lambda>sector_buf.
       try_then (read_sectors d array_lba is) (\<lambda>rest. ok (sector_buf @ rest))))"

fun parse_entries :: "u8 list list \<Rightarrow> nat \<Rightarrow> nat \<Rightarrow> nat \<Rightarrow> partition list part_result" where
  "parse_entries [] idx first_usable last_usable = ok []"
| "parse_entries (entry_bytes # rest) idx first_usable last_usable =
     try_then (parse_entry entry_bytes idx first_usable last_usable) (\<lambda>entry.
       try_then (parse_entries rest (idx + 1) first_usable last_usable) (\<lambda>ps.
         ok (case entry of Some p \<Rightarrow> p # ps | None \<Rightarrow> ps)))"

definition read_array :: "disk \<Rightarrow> gpt_header \<Rightarrow> nat \<Rightarrow> (guid \<times> partition list) part_result" where
  "read_array d h sector_size =
     (let array_bytes = min (gh_entry_size h * gh_num_entries h) (u64_limit - 1);
          array_sectors = div_ceil array_bytes sector_size in
      try_then (read_sectors d (gh_array_lba h) [0..<array_sectors]) (\<lambda>array_buf.
      and_then (slice_at array_buf 0 array_bytes) (\<lambda>array.
      if unat (crc32 array) \<noteq> gh_array_crc h then fail Corrupt else
      try_then (parse_entries (chunks (gh_entry_size h) array) 0 (gh_first_usable h) (gh_last_usable h))
        (\<lambda>partitions. ok (gh_disk_guid h, partitions)))))"

text \<open>What \<open>read_gpt\<close> does once the primary table is given up.\<close>

definition read_backup :: "disk \<Rightarrow> (guid \<times> bool \<times> partition list) part_result" where
  "read_backup d =
     and_then (usub (dk_sector_count d) 1) (\<lambda>last_lba.
     try_then (read_header d last_lba (dk_sector_size d) (dk_sector_count d)) (\<lambda>backup.
     case backup of
       Some header \<Rightarrow> and_then (read_array d header (dk_sector_size d)) (\<lambda>r. case r of
           Inr (disk_guid, partitions) \<Rightarrow> ok (disk_guid, True, partitions)
         | Inl _ \<Rightarrow> fail Corrupt)
     | None \<Rightarrow> fail Corrupt))"

definition read_gpt :: "disk \<Rightarrow> (guid \<times> bool \<times> partition list) part_result" where
  "read_gpt d =
     (if \<not> is_power_of_two_in_range (dk_sector_size d) 512 4096 then fail Unsupported
      else try_then (read_header d 1 (dk_sector_size d) (dk_sector_count d)) (\<lambda>primary.
        case primary of
          Some header \<Rightarrow> and_then (read_array d header (dk_sector_size d)) (\<lambda>r. case r of
              Inr (disk_guid, partitions) \<Rightarrow> ok (disk_guid, False, partitions)
            | Inl _ \<Rightarrow> read_backup d)
        | None \<Rightarrow> read_backup d))"

subsection \<open>\<open>read_table\<close>\<close>

fun has_gpt_marker :: "u8 list \<Rightarrow> nat list \<Rightarrow> bool checked" where
  "has_gpt_marker buf [] = Inr False"
| "has_gpt_marker buf (i # is) = and_then (index_at buf (446 + i * 16 + 4))
     (\<lambda>system_id. if system_id = 0xEE then Inr True else has_gpt_marker buf is)"

definition read_table :: "disk \<Rightarrow> part_table part_result" where
  "read_table d =
     (if \<not> is_power_of_two_in_range (dk_sector_size d) 512 4096 then fail Unsupported
      else try_then (read_sector d 0) (\<lambda>buf.
        try_then (check_boot_sector buf) (\<lambda>_.
        and_then (has_gpt_marker buf [0..<4]) (\<lambda>gpt.
        if gpt then try_then (read_gpt d) (\<lambda>(disk_guid, used_backup, partitions).
          ok \<lparr>tb_scheme = Scheme_Gpt disk_guid used_backup, tb_partitions = partitions\<rparr>)
        else try_then (read_mbr d) (\<lambda>(disk_signature, partitions).
          ok \<lparr>tb_scheme = Scheme_Mbr disk_signature, tb_partitions = partitions\<rparr>)))))"

subsection \<open>No table makes the reader panic, and every partition it returns lies in the disk\<close>

text \<open>
  What \<open>SectorRead\<close> documents: a read fills a buffer of exactly one sector, and only sectors of
  the device can be read.
\<close>

definition disk_ok :: "disk \<Rightarrow> bool" where
  "disk_ok d \<longleftrightarrow> dk_sector_count d < u64_limit
     \<and> (\<forall>lba bs. dk_read d lba = Some bs \<longrightarrow> length bs = dk_sector_size d \<and> lba < dk_sector_count d)"

text \<open>A step that returns, and whose successful result satisfies \<open>P\<close>.\<close>

definition yields :: "'a part_result \<Rightarrow> ('a \<Rightarrow> bool) \<Rightarrow> bool" where
  "yields m P \<longleftrightarrow> (\<exists>r. m = Inr r \<and> (\<forall>x. r = Inr x \<longrightarrow> P x))"

lemma yields_ok [simp]: "yields (ok x) P \<longleftrightarrow> P x"
  by (simp add: yields_def)

lemma yields_fail [simp]: "yields (fail e) P"
  by (simp add: yields_def)

lemma yields_try_then: "yields m Q \<Longrightarrow> (\<And>x. Q x \<Longrightarrow> yields (f x) P) \<Longrightarrow> yields (try_then m f) P"
  by (auto simp: yields_def try_then_def split: sum.splits)

lemma yields_read_sector:
  "disk_ok d \<Longrightarrow> yields (read_sector d lba) (\<lambda>bs. length bs = dk_sector_size d \<and> lba < dk_sector_count d)"
  by (cases "dk_read d lba") (auto simp: yields_def read_sector_def disk_ok_def)

definition partition_ok :: "nat \<Rightarrow> partition \<Rightarrow> bool" where
  "partition_ok n p \<longleftrightarrow> 0 < pt_number p \<and> 0 < pt_sectors p \<and> pt_first_lba p + pt_sectors p \<le> n"

text \<open>Partitions of a table: each in the disk, their numbers strictly increasing from \<open>i\<close> on.\<close>

definition partitions_ok :: "nat \<Rightarrow> nat \<Rightarrow> partition list \<Rightarrow> bool" where
  "partitions_ok n i ps \<longleftrightarrow> (\<forall>p\<in>set ps. partition_ok n p \<and> i < pt_number p) \<and> sorted_wrt (<) (map pt_number ps)"

lemma yields_mono: "yields m P \<Longrightarrow> (\<And>x. P x \<Longrightarrow> Q x) \<Longrightarrow> yields m Q"
  by (auto simp: yields_def)

lemma chunks_Nil [simp]: "chunks n [] = []"
  by (simp add: chunks.simps)

text \<open>A buffer of \<open>k\<close> whole entries splits into \<open>k\<close> entries.\<close>

lemma chunks_whole:
  assumes "0 < n" "length xs = n * k"
  shows "length (chunks n xs) = k \<and> (\<forall>c\<in>set (chunks n xs). length c = n)"
  using assms(2)
proof (induction k arbitrary: xs)
  case (Suc k)
  have ne: "xs \<noteq> []" using Suc.prems assms(1) by auto
  then have "chunks n xs = take n xs # chunks n (drop n xs)" using assms(1) by (subst chunks.simps) simp
  moreover have "length (drop n xs) = n * k" using Suc.prems by simp
  ultimately show ?case using Suc.IH[of "drop n xs"] Suc.prems by simp
qed (simp add: assms)

lemma boot_indicators_return:
  "length buf \<ge> 512 \<Longrightarrow> \<forall>i\<in>set is. i < 4 \<Longrightarrow> \<exists>g. boot_indicators_ok buf is = Inr g"
  by (induction "is") auto

lemma has_gpt_marker_iff:
  "length buf \<ge> 512 \<Longrightarrow> \<forall>i\<in>set is. i < 4 \<Longrightarrow>
    has_gpt_marker buf is = Inr (\<exists>i\<in>set is. buf ! (446 + i * 16 + 4) = 0xEE)"
  by (induction "is") auto

lemma yields_boot_sector: "length buf \<ge> 512 \<Longrightarrow> yields (check_boot_sector buf) (\<lambda>_. True)"
  using boot_indicators_return[of buf "[0..<4]"]
  by (auto simp: check_boot_sector_def yields_def)

lemma partitions_ok_append:
  "partitions_ok n i ps \<Longrightarrow> \<forall>p\<in>set ps. pt_number p \<le> k \<Longrightarrow> partition_ok n q \<Longrightarrow> i \<le> k \<Longrightarrow> pt_number q = k + 1
    \<Longrightarrow> partitions_ok n i (ps @ [q])"
  by (auto simp: partitions_ok_def sorted_wrt_append less_Suc_eq_le)

lemma mbr_slot_ok:
  assumes "length buf \<ge> 512" "slot < 4" "n < u64_limit"
    and ps: "partitions_ok n 0 ps" "\<forall>p\<in>set ps. pt_number p \<le> slot"
  shows "\<exists>ps'. mbr_slot n buf slot ps = Inr ps' \<and> partitions_ok n 0 ps' \<and> (\<forall>p\<in>set ps'. pt_number p \<le> slot + 1)"
proof -
  let ?base = "446 + slot * 16"
  let ?start = "le_bytes (take 4 (drop (?base + 8) buf))" and ?size = "le_bytes (take 4 (drop (?base + 12) buf))"
  define q where "q = \<lparr>pt_number = slot + 1, pt_first_lba = ?start, pt_sectors = ?size,
    pt_bootable = (buf ! ?base = 0x80), pt_name = [], pt_kind = Kind_Mbr (buf ! (?base + 4))\<rparr>"
  have eq: "mbr_slot n buf slot ps =
    (if buf ! (?base + 4) = 0 \<or> ?start = 0 \<or> ?size = 0 \<or> n < saturating_add ?start ?size then Inr ps else Inr (ps @ [q]))"
    using assms(1,2) by (simp add: mbr_slot_def q_def)
  show ?thesis
  proof (cases "buf ! (?base + 4) = 0 \<or> ?start = 0 \<or> ?size = 0 \<or> n < saturating_add ?start ?size")
    case True
    then show ?thesis using eq ps by (auto simp: le_Suc_eq)
  next
    case False
    moreover have "?start < 256 ^ 4" "?size < 256 ^ 4"
      using le_bytes_bound[of "take 4 (drop (?base + 8) buf)"] le_bytes_bound[of "take 4 (drop (?base + 12) buf)"]
        assms(1,2) by simp_all
    ultimately have "partition_ok n q" by (simp add: partition_ok_def q_def saturating_add_def)
    then have "partitions_ok n 0 (ps @ [q])"
      using partitions_ok_append[OF ps, of q] by (simp add: q_def)
    then show ?thesis using False eq ps(2) by (auto simp: q_def le_Suc_eq)
  qed
qed

lemma upt_split:
  assumes "[0..<n] = pre @ i # rest"
  shows "i = length pre \<and> i < n"
proof -
  have "length pre < length [0..<n]" unfolding assms by simp
  moreover have "[0..<n] ! length pre = i" unfolding assms by simp
  ultimately show ?thesis by simp
qed

lemma yields_read_mbr:
  assumes "disk_ok d"
  shows "yields (read_mbr d) (\<lambda>(_, ps). partitions_ok (dk_sector_count d) 0 ps)"
proof (cases "is_power_of_two_in_range (dk_sector_size d) 512 4096")
  case True
  then have ss: "512 \<le> dk_sector_size d" by (simp add: is_power_of_two_in_range_def)
  have n: "dk_sector_count d < u64_limit" using assms by (simp add: disk_ok_def)
  have loop: "\<exists>ps. for_each [0..<4] (mbr_slot (dk_sector_count d) buf) [] = Inr ps
      \<and> (partitions_ok (dk_sector_count d) 0 ps \<and> (\<forall>p\<in>set ps. pt_number p \<le> length [0..<4::nat]))"
    if "512 \<le> length buf" for buf
  proof (rule for_each_invariant[where P = "\<lambda>is ps. partitions_ok (dk_sector_count d) 0 ps
      \<and> (\<forall>p\<in>set ps. pt_number p \<le> length is)"], goal_cases)
    case 1
    show ?case by (simp add: partitions_ok_def)
  next
    case (2 pre i rest ps)
    with upt_split[of 4 pre i rest] mbr_slot_ok[OF that, of i "dk_sector_count d" ps] n
    show ?case by auto
  qed
  have step: "yields (and_then (le_at buf 440 4) (\<lambda>sig. and_then (for_each [0..<4] (mbr_slot (dk_sector_count d) buf) [])
      (\<lambda>ps. ok (sig, ps)))) (\<lambda>(_, ps). partitions_ok (dk_sector_count d) 0 ps)" if "512 \<le> length buf" for buf
    using loop[OF that] that by (auto simp del: upt_rec_numeral)
  show ?thesis unfolding read_mbr_def if_not_P[OF not_not[THEN iffD2, OF True]]
    by (intro yields_try_then[OF yields_read_sector[OF assms]] yields_try_then[OF yields_boot_sector] step)
      (use ss in simp_all)
qed (simp add: read_mbr_def)

lemma yields_read_sectors:
  assumes "disk_ok d"
  shows "k \<le> m \<Longrightarrow> a + k < u64_limit \<Longrightarrow>
    yields (read_sectors d a [k..<m]) (\<lambda>bs. length bs = (m - k) * dk_sector_size d)"
proof (induction "m - k" arbitrary: k)
  case (Suc i)
  then have split: "[k..<m] = k # [Suc k..<m]" and k: "k < m" by (simp_all add: upt_conv_Cons)
  have "yields (read_sectors d a [Suc k..<m]) (\<lambda>bs. length bs = (m - Suc k) * dk_sector_size d)"
    if "a + k < dk_sector_count d"
    using Suc.hyps(1)[of "Suc k"] Suc.hyps(2) k that assms by (simp add: disk_ok_def)
  moreover have "dk_sector_size d + (m - Suc k) * dk_sector_size d = (m - k) * dk_sector_size d"
    using k by (metis Suc_diff_Suc mult_Suc)
  ultimately show ?case unfolding split using Suc.prems
    by (auto intro!: yields_try_then[OF yields_read_sector[OF assms]] yields_try_then)
qed simp

definition header_ok :: "nat \<Rightarrow> gpt_header \<Rightarrow> bool" where
  "header_ok n h \<longleftrightarrow> gh_last_usable h < n \<and> 128 \<le> gh_entry_size h \<and> gh_array_lba h < u64_limit
     \<and> gh_entry_size h * gh_num_entries h \<le> MAX_ARRAY_SIZE"

lemma yields_header_fields:
  assumes "length buf \<ge> 512"
  shows "yields (header_fields buf lba ss n) (\<lambda>h. \<forall>x. h = Some x \<longrightarrow> header_ok n x)"
proof -
  let ?es = "le_bytes (take 4 (drop 84 buf))" and ?ne = "le_bytes (take 4 (drop 80 buf))"
    and ?al = "le_bytes (take 8 (drop 72 buf))"
  have "?es < 2 ^ 32" "?ne < 2 ^ 32" "?al < u64_limit"
    using assms le_bytes_bound[of "take 4 (drop 84 buf)"] le_bytes_bound[of "take 4 (drop 80 buf)"]
      le_bytes_bound[of "take 8 (drop 72 buf)"] by simp_all
  then have "?es * ?ne < u64_limit" using mult_strict_mono[of ?es "2 ^ 32" ?ne "2 ^ 32"] by simp
  then show ?thesis using assms \<open>?al < u64_limit\<close>
    by (simp add: header_fields_def header_ok_def is_power_of_two_in_range_def Let_def)
qed

lemma yields_read_header:
  assumes "disk_ok d" "512 \<le> dk_sector_size d"
  shows "yields (read_header d lba (dk_sector_size d) n)
    (\<lambda>h. lba < dk_sector_count d \<and> (\<forall>x. h = Some x \<longrightarrow> header_ok n x))"
  unfolding read_header_def
proof (rule yields_try_then[OF yields_read_sector[OF assms(1)]])
  fix buf :: "u8 list"
  assume b: "length buf = dk_sector_size d \<and> lba < dk_sector_count d"
  then have "512 \<le> length buf" using assms(2) by simp
  from yields_header_fields[OF this, of lba "dk_sector_size d" n] b this
  show "yields (and_then (slice_at buf 0 8) (\<lambda>signature.
     if signature \<noteq> EFI_PART_SIGNATURE then ok None else
     and_then (le_at buf 12 4) (\<lambda>header_size.
     if header_size < MIN_HEADER_SIZE \<or> dk_sector_size d < header_size then ok None else
     and_then (le_at buf 16 4) (\<lambda>crc_stored.
     and_then (header_crc_ok buf header_size crc_stored) (\<lambda>good.
     if \<not> good then ok None else header_fields buf lba (dk_sector_size d) n)))))
    (\<lambda>h. lba < dk_sector_count d \<and> (\<forall>x. h = Some x \<longrightarrow> header_ok n x))"
    by (auto simp: header_crc_ok_def elim!: yields_mono)
qed

lemma yields_parse_entry:
  assumes "length bytes \<ge> 128" "idx + 1 < 2 ^ 32" "last_usable < n" "n < u64_limit"
  shows "yields (parse_entry bytes idx first_usable last_usable)
    (\<lambda>e. \<forall>p. e = Some p \<longrightarrow> partition_ok n p \<and> pt_number p = idx + 1)"
  using assms by (auto simp: parse_entry_def partition_ok_def uadd_def)

lemma yields_parse_entries:
  assumes "last_usable < n" "n < u64_limit"
  shows "\<forall>c\<in>set cs. 128 \<le> length c \<Longrightarrow> idx + length cs < 2 ^ 32 \<Longrightarrow>
    yields (parse_entries cs idx first_usable last_usable) (partitions_ok n idx)"
proof (induction cs arbitrary: idx)
  case Nil
  show ?case by (simp add: partitions_ok_def)
next
  case (Cons c cs)
  have e: "yields (parse_entry c idx first_usable last_usable)
      (\<lambda>e. \<forall>p. e = Some p \<longrightarrow> partition_ok n p \<and> pt_number p = idx + 1)"
    using Cons.prems assms by (intro yields_parse_entry) auto
  have r: "yields (parse_entries cs (idx + 1) first_usable last_usable) (partitions_ok n (idx + 1))"
    using Cons by simp
  show ?case
    by (simp only: parse_entries.simps)
      (intro yields_try_then[OF e] yields_try_then[OF r],
        auto simp: partitions_ok_def split: option.splits)
qed

lemma yields_read_array:
  assumes "disk_ok d" "512 \<le> dk_sector_size d" "header_ok (dk_sector_count d) h"
  shows "yields (read_array d h (dk_sector_size d)) (\<lambda>(_, ps). partitions_ok (dk_sector_count d) 0 ps)"
proof -
  let ?bytes = "gh_entry_size h * gh_num_entries h" and ?ss = "dk_sector_size d"
  have h: "gh_last_usable h < dk_sector_count d" "128 \<le> gh_entry_size h" "?bytes \<le> MAX_ARRAY_SIZE"
    and a: "gh_array_lba h < u64_limit" and n: "dk_sector_count d < u64_limit"
    using assms by (simp_all add: header_ok_def disk_ok_def)
  have m: "min ?bytes (u64_limit - 1) = ?bytes" using h(3) by (simp add: MAX_ARRAY_SIZE_def)
  have "128 * gh_num_entries h \<le> MAX_ARRAY_SIZE" using h(2,3) by (metis order_trans mult_le_mono1)
  then have ne: "gh_num_entries h < 2 ^ 32" by (simp add: MAX_ARRAY_SIZE_def)
  have entries: "yields (parse_entries (chunks (gh_entry_size h) array) 0 (gh_first_usable h) (gh_last_usable h))
      (partitions_ok (dk_sector_count d) 0)" if "length array = ?bytes" for array
    using chunks_whole[OF _ that] h ne n by (intro yields_parse_entries) auto
  have sectors: "yields (read_sectors d (gh_array_lba h) [0..<div_ceil ?bytes ?ss])
      (\<lambda>bs. length bs = div_ceil ?bytes ?ss * ?ss)"
    using yields_read_sectors[OF assms(1), of 0 "div_ceil ?bytes ?ss" "gh_array_lba h"] a by simp
  have "?bytes \<le> div_ceil ?bytes ?ss * ?ss" using assms(2) by (intro le_div_ceil_mult) simp
  then show ?thesis unfolding read_array_def Let_def m
    by (intro yields_try_then[OF sectors]) (auto intro!: yields_try_then[OF entries])
qed

lemma yields_read_backup:
  assumes "disk_ok d" "512 \<le> dk_sector_size d" "0 < dk_sector_count d"
  shows "yields (read_backup d) (\<lambda>(_, _, ps). partitions_ok (dk_sector_count d) 0 ps)"
proof -
  have arr: "yields (and_then (read_array d h (dk_sector_size d)) (\<lambda>r. case r of
      Inr (g, ps) \<Rightarrow> ok (g, True, ps) | Inl _ \<Rightarrow> fail Corrupt)) (\<lambda>(_, _, ps). partitions_ok (dk_sector_count d) 0 ps)"
    if "header_ok (dk_sector_count d) h" for h
    using yields_read_array[OF assms(1,2) that] by (auto simp: yields_def split: sum.splits)
  show ?thesis unfolding read_backup_def
    using assms(3) by (simp, intro yields_try_then[OF yields_read_header[OF assms(1,2)]])
      (auto simp: arr split: option.splits)
qed

lemma yields_read_gpt:
  assumes "disk_ok d"
  shows "yields (read_gpt d) (\<lambda>(_, _, ps). partitions_ok (dk_sector_count d) 0 ps)"
proof (cases "is_power_of_two_in_range (dk_sector_size d) 512 4096")
  case True
  then have ss: "512 \<le> dk_sector_size d" by (simp add: is_power_of_two_in_range_def)
  have arr: "yields (and_then (read_array d h (dk_sector_size d)) (\<lambda>r. case r of
      Inr (g, ps) \<Rightarrow> ok (g, False, ps) | Inl _ \<Rightarrow> read_backup d)) (\<lambda>(_, _, ps). partitions_ok (dk_sector_count d) 0 ps)"
    if "header_ok (dk_sector_count d) h" "1 < dk_sector_count d" for h
    using yields_read_array[OF assms ss that(1)] yields_read_backup[OF assms ss] that(2)
    by (auto simp: yields_def split: sum.splits)
  show ?thesis unfolding read_gpt_def if_not_P[OF not_not[THEN iffD2, OF True]]
    by (intro yields_try_then[OF yields_read_header[OF assms ss]])
      (auto simp: arr yields_read_backup[OF assms ss] split: option.splits)
qed (simp add: read_gpt_def)

lemma yields_read_table:
  assumes "disk_ok d"
  shows "yields (read_table d) (\<lambda>t. partitions_ok (dk_sector_count d) 0 (tb_partitions t)
    \<and> (\<exists>b. dk_read d 0 = Some b
        \<and> ((\<exists>g u. tb_scheme t = Scheme_Gpt g u) \<longleftrightarrow> (\<exists>i<4. b ! (446 + i * 16 + 4) = 0xEE))))"
proof (cases "is_power_of_two_in_range (dk_sector_size d) 512 4096")
  case True
  let ?goal = "\<lambda>t. partitions_ok (dk_sector_count d) 0 (tb_partitions t) \<and> (\<exists>b. dk_read d 0 = Some b
        \<and> ((\<exists>g u. tb_scheme t = Scheme_Gpt g u) \<longleftrightarrow> (\<exists>i<4. b ! (446 + i * 16 + 4) = 0xEE)))"
  show ?thesis
  proof (cases "dk_read d 0")
    case (Some b)
    then have b: "512 \<le> length b" using assms True by (auto simp: disk_ok_def is_power_of_two_in_range_def)
    have mark: "has_gpt_marker b [0..<4] = Inr (\<exists>i<4. b ! (446 + i * 16 + 4) = 0xEE)"
      using has_gpt_marker_iff[OF b, of "[0..<4]"] by (auto simp del: upt_rec_numeral)
    have gpt: "yields (try_then (read_gpt d) (\<lambda>(g, u, ps). ok \<lparr>tb_scheme = Scheme_Gpt g u, tb_partitions = ps\<rparr>)) ?goal"
      if "\<exists>i<4. b ! (446 + i * 16 + 4) = 0xEE"
      using that Some by (intro yields_try_then[OF yields_read_gpt[OF assms]]) auto
    have mbr: "yields (try_then (read_mbr d) (\<lambda>(s, ps). ok \<lparr>tb_scheme = Scheme_Mbr s, tb_partitions = ps\<rparr>)) ?goal"
      if "\<not> (\<exists>i<4. b ! (446 + i * 16 + 4) = 0xEE)"
      using that Some by (intro yields_try_then[OF yields_read_mbr[OF assms]]) auto
    have sec: "read_sector d 0 = ok b" using Some by (simp add: read_sector_def)
    show ?thesis unfolding read_table_def if_not_P[OF not_not[THEN iffD2, OF True]] sec try_then_simps mark and_then.simps
      by (intro yields_try_then[OF yields_boot_sector[OF b]]) (use gpt mbr in presburger)
  qed (use True in \<open>simp add: read_table_def read_sector_def\<close>)
qed (simp add: read_table_def)

text \<open>
  C22. Whatever the disk holds, reading its partition table returns (no index out of range, no
  overflow), and every partition of the table it returns is non-empty and lies inside the disk,
  with strictly increasing partition numbers from 1; the table is a GPT exactly when one of the
  four boot-sector entries has type 0xEE, so a damaged GPT is never read as its protective MBR.
\<close>

theorem read_table_sound:
  assumes "disk_ok d"
  shows "\<exists>r. read_table d = Inr r \<and> (\<forall>t. r = Inr t \<longrightarrow>
    (\<forall>p\<in>set (tb_partitions t). 0 < pt_number p \<and> 0 < pt_sectors p
        \<and> pt_first_lba p + pt_sectors p \<le> dk_sector_count d)
    \<and> sorted_wrt (<) (map pt_number (tb_partitions t))
    \<and> ((\<exists>g u. tb_scheme t = Scheme_Gpt g u)
        \<longleftrightarrow> (\<exists>i<4. the (dk_read d 0) ! (446 + i * 16 + 4) = 0xEE)))"
  using yields_read_table[OF assms]
  unfolding yields_def partitions_ok_def partition_ok_def by fastforce

lemma le_bytes_replicate_0 [simp]: "le_bytes (replicate n 0) = 0"
  by (induction n) simp_all

text \<open>A disk of 100 sectors with one bootable Linux partition of 50 sectors from sector 8.\<close>

definition demo_mbr :: "u8 list" where
  "demo_mbr = replicate 446 0 @ [0x80, 0, 0, 0, 0x83, 0, 0, 0, 8, 0, 0, 0, 50, 0, 0, 0] @ replicate 48 0 @ [0x55, 0xAA]"

definition demo_disk :: disk where
  "demo_disk = \<lparr>dk_sector_size = 512, dk_sector_count = 100,
     dk_read = (\<lambda>lba. if lba = 0 then Some demo_mbr else None)\<rparr>"

theorem read_table_sound_witness:
  "\<exists>t. read_table demo_disk = ok t \<and> map pt_first_lba (tb_partitions t) = [8]
    \<and> (\<forall>p\<in>set (tb_partitions t). pt_first_lba p + pt_sectors p \<le> 100)"
proof -
  have four: "[0..<4] = [0, 1, 2, 3 :: nat]" by (simp add: upt_rec)
  have ok: "disk_ok demo_disk" by (simp add: disk_ok_def demo_disk_def demo_mbr_def)
  have "read_table demo_disk = ok \<lparr>tb_scheme = Scheme_Mbr 0, tb_partitions = [\<lparr>pt_number = 1, pt_first_lba = 8,
      pt_sectors = 50, pt_bootable = True, pt_name = [], pt_kind = Kind_Mbr 0x83\<rparr>]\<rparr>"
    by (simp add: read_table_def read_mbr_def demo_disk_def demo_mbr_def read_sector_def is_power_of_two_in_range_def
        check_boot_sector_def mbr_slot_def nth_append nth_Cons' saturating_add_def four)
  then show ?thesis using read_table_sound[OF ok] by (auto simp: demo_disk_def)
qed

text \<open>
  A disk whose sector 1 cannot be read is reported as an I/O error: the backup table at the
  end of the disk is not tried, although it is tried whenever the primary header or its array
  reads but is damaged.
\<close>

theorem gpt_unreadable_primary:
  assumes "is_power_of_two_in_range (dk_sector_size d) 512 4096" and "dk_read d 1 = None"
  shows "read_gpt d = fail Io"
  using assms by (simp add: read_gpt_def read_header_def read_sector_def)

theorem gpt_unreadable_primary_witness: "read_gpt demo_disk = fail Io"
  by (rule gpt_unreadable_primary) (code_simp | simp add: demo_disk_def)+

subsection \<open>Partition names are valid Unicode, and well-formed UTF-16 is read exactly\<close>

text \<open>UTF-16 encoding of a scalar value.\<close>

definition utf16_encode :: "nat \<Rightarrow> nat list" where
  "utf16_encode c = (if c < 0x10000 then [c]
     else [0xD800 + (c - 0x10000) div 0x400, 0xDC00 + (c - 0x10000) mod 0x400])"

definition scalar :: "nat \<Rightarrow> bool" where
  "scalar c \<longleftrightarrow> c < 0x110000 \<and> \<not> (0xD800 \<le> c \<and> c < 0xE000)"

lemma and_surrogate_mask: "cu AND 0xFC00 = cu div 1024 mod 64 * 1024" for cu :: nat
proof -
  have "(0xFC00 :: nat) = push_bit 10 (mask 6)" by (simp add: push_bit_eq_mult mask_eq_exp_minus_1)
  moreover have "cu AND push_bit 10 (mask 6) = push_bit 10 (take_bit 6 (drop_bit 10 cu))"
    by (rule bit_eqI) (auto simp: bit_simps)
  ultimately show ?thesis by (simp add: push_bit_eq_mult take_bit_eq_mod drop_bit_eq_div)
qed

lemma surrogate_ranges:
  assumes "cu < 0x10000"
  shows "is_high cu \<longleftrightarrow> 0xD800 \<le> cu \<and> cu < 0xDC00" and "is_low cu \<longleftrightarrow> 0xDC00 \<le> cu \<and> cu < 0xE000"
proof -
  have m: "cu div 1024 mod 64 = cu div 1024" using assms by simp
  have b: "cu div 1024 * 1024 \<le> cu" "cu < cu div 1024 * 1024 + 1024"     using div_mult_mod_eq[of cu 1024] mod_less_divisor[of 1024 cu] by linarith+
  have r: "cu div 1024 * 1024 = k * 1024 \<longleftrightarrow> k * 1024 \<le> cu \<and> cu < k * 1024 + 1024" for k
  proof
    assume "k * 1024 \<le> cu \<and> cu < k * 1024 + 1024"
    then have "cu div 1024 = k" by (intro div_nat_eqI) simp_all
    then show "cu div 1024 * 1024 = k * 1024" by simp
  qed (use b in simp)
  show "is_high cu \<longleftrightarrow> 0xD800 \<le> cu \<and> cu < 0xDC00" "is_low cu \<longleftrightarrow> 0xDC00 \<le> cu \<and> cu < 0xE000"
    using r[of 54] r[of 55] by (simp_all add: is_high_def is_low_def and_surrogate_mask m)
qed

lemma surrogate_value:
  "push_bit 10 (hi AND 0x03FF) OR (lo AND 0x03FF) = hi mod 1024 * 1024 + lo mod 1024" for hi lo :: nat
proof -
  have k: "(0x03FF :: nat) = mask 10" by (simp add: mask_eq_exp_minus_1)
  have "push_bit 10 (take_bit 10 hi) AND take_bit 10 lo = 0"
    by (rule bit_eqI) (auto simp: bit_simps)
  then have "push_bit 10 (take_bit 10 hi) OR take_bit 10 lo = push_bit 10 (take_bit 10 hi) + take_bit 10 lo"
    by (simp add: disjunctive_add_eq_or)
  then show ?thesis unfolding k take_bit_eq_mask[symmetric] by (simp add: push_bit_eq_mult take_bit_eq_mod)
qed

lemma scalar_push_char: "scalar (push_char c)" and push_char_scalar: "scalar c \<Longrightarrow> push_char c = c"
  by (simp_all add: push_char_def char_from_u32_def scalar_def)

lemma utf16_decode_encode:
  assumes "scalar c" "c \<noteq> 0xFFFE" "c \<noteq> 0xFFFF"
  shows "utf16_decode (utf16_encode c @ rest) = c # utf16_decode rest"
proof (cases "c < 0x10000")
  case True
  then have "\<not> is_high c" "\<not> is_low c" using assms(1) by (auto simp: surrogate_ranges scalar_def)
  then show ?thesis using True assms by (simp add: utf16_encode_def push_char_scalar)
next
  case False
  define hi lo where "hi = 0xD800 + (c - 0x10000) div 0x400" and "lo = 0xDC00 + (c - 0x10000) mod 0x400"
  have b: "c < 0x110000" using assms(1) by (simp add: scalar_def)
  have "(c - 0x10000) div 0x400 < 0x400" using b by simp
  then have "is_high hi" "is_low lo" by (simp_all add: surrogate_ranges hi_def lo_def)
  moreover have "0x10000 + (hi mod 1024 * 1024 + lo mod 1024) = c"
  proof -
    have "hi mod 1024 = (c - 0x10000) div 0x400"
      using \<open>(c - 0x10000) div 0x400 < 0x400\<close> by (simp add: hi_def mod_add_eq[symmetric])
    moreover have "lo mod 1024 = (c - 0x10000) mod 0x400" by (simp add: lo_def mod_add_eq[symmetric])
    ultimately show ?thesis using False by simp
  qed
  ultimately have "is_high hi" "is_low lo" "push_char (0x10000 + (push_bit 10 (hi AND 0x03FF) OR (lo AND 0x03FF))) = c"
    using assms(1) by (simp_all only: surrogate_value push_char_scalar)
  moreover have "utf16_encode c = [hi, lo]" using False by (simp add: utf16_encode_def hi_def lo_def)
  ultimately show ?thesis by simp
qed

text \<open>
  Whatever sixteen-bit units a name holds, decoding yields only Unicode scalar values, so the
  string it builds is valid; and the UTF-16 encoding of a name of scalar values other than U+FFFE
  and U+FFFF decodes to that name.
\<close>

theorem utf16_name_roundtrip:
  "(\<forall>c\<in>set (utf16_decode us). scalar c)
    \<and> ((\<forall>c\<in>set s. scalar c \<and> c \<noteq> 0xFFFE \<and> c \<noteq> 0xFFFF) \<longrightarrow> utf16_decode (concat (map utf16_encode s)) = s)"
proof
  have r: "scalar 0xFFFD" by (simp add: scalar_def)
  show "\<forall>c\<in>set (utf16_decode us). scalar c"
  proof (induction us rule: utf16_decode.induct)
    case (2 cu rest)
    show ?case
      by (subst utf16_decode.simps(2))
        (use 2 in \<open>simp add: scalar_push_char r del: utf16_decode.simps split: list.split\<close>)
  qed simp
  show "(\<forall>c\<in>set s. scalar c \<and> c \<noteq> 0xFFFE \<and> c \<noteq> 0xFFFF) \<longrightarrow> utf16_decode (concat (map utf16_encode s)) = s"
    by (induction s) (simp_all add: utf16_decode_encode)
qed

theorem utf16_name_roundtrip_witness:
  "utf16_decode (concat (map utf16_encode [0x45, 0x1F9A6])) = [0x45, 0x1F9A6]"
  using utf16_name_roundtrip[where s = "[0x45, 0x1F9A6]"] by (simp add: scalar_def)

end
