(* ===== verification/Net_Proto.thy ===== *)
theory Net_Proto
  imports Prelude
begin

text \<open>
  The packet formats of \<open>crates/otter-net-proto/src/lib.rs\<close>: Ethernet, ARP, IPv4, ICMP echo, UDP,
  DHCP and DNS headers.  A parsed packet is its bytes, as in the code, and every accessor is the
  indexing the code does on them, which panics out of range; a builder is the vector it grows.
  Addresses are byte lists of their fixed length, 16- and 32-bit fields are natural numbers.
\<close>

type_synonym bytes = "u8 list"
type_synonym 'a str_result = "string + 'a"

subsection \<open>Addresses\<close>

type_synonym mac_addr = bytes
type_synonym ipv4_addr = bytes

definition mac_from_bytes :: "bytes \<Rightarrow> mac_addr str_result" where
  "mac_from_bytes bs = (if length bs < 6 then Inl ''MAC address requires 6 bytes'' else Inr (take 6 bs))"

definition mac_broadcast :: mac_addr where
  "mac_broadcast = [0xff, 0xff, 0xff, 0xff, 0xff, 0xff]"

definition mac_zero :: mac_addr where
  "mac_zero = [0, 0, 0, 0, 0, 0]"

definition ipv4_from_bytes :: "bytes \<Rightarrow> ipv4_addr str_result" where
  "ipv4_from_bytes bs = (if length bs < 4 then Inl ''IPv4 address requires 4 bytes'' else Inr (take 4 bs))"

definition ipv4_to_u32 :: "ipv4_addr \<Rightarrow> nat" where
  "ipv4_to_u32 ip = be_bytes ip"

definition ipv4_from_u32 :: "nat \<Rightarrow> ipv4_addr" where
  "ipv4_from_u32 a = to_be 4 a"

definition ipv4_broadcast :: ipv4_addr where
  "ipv4_broadcast = [255, 255, 255, 255]"

definition ipv4_zeros :: ipv4_addr where
  "ipv4_zeros = [0, 0, 0, 0]"

subsection \<open>The Internet checksum\<close>

text \<open>The sum of the 16-bit words, in a \<open>u32\<close>; an odd byte at the end counts as the high byte of a word.\<close>

definition add_u32 :: "nat \<Rightarrow> nat \<Rightarrow> nat checked" where
  "add_u32 a b = (if a + b < 2 ^ 32 then Inr (a + b) else Inl Arith_overflow)"

fun word_sum :: "bytes \<Rightarrow> nat \<Rightarrow> nat checked" where
  "word_sum [] acc = Inr acc"
| "word_sum [b] acc = add_u32 acc (be_bytes [b, 0])"
| "word_sum (a # b # bs) acc = and_then (add_u32 acc (be_bytes [a, b])) (word_sum bs)"

function fold_carries :: "nat \<Rightarrow> nat" where
  "fold_carries acc = (if acc div 2 ^ 16 > 0 then fold_carries (acc mod 2 ^ 16 + acc div 2 ^ 16) else acc)"
  by auto

lemma fold_carries_less: "0 < acc div 65536 \<Longrightarrow> acc mod 65536 + acc div 65536 < (acc :: nat)"
  using div_mult_mod_eq[of acc 65536] by linarith

termination fold_carries
  by (relation "measure id") (use fold_carries_less in auto)

declare fold_carries.simps [simp del]

definition checksum :: "bytes \<Rightarrow> nat checked" where
  "checksum data = and_then (word_sum data 0) (\<lambda>acc. Inr (0xFFFF - fold_carries acc mod 2 ^ 16))"

definition checksum_verify :: "bytes \<Rightarrow> bool checked" where
  "checksum_verify data = and_then (checksum data) (\<lambda>c. Inr (c = 0))"

subsection \<open>Ethernet II\<close>

definition eth_new :: "bytes \<Rightarrow> bytes str_result" where
  "eth_new data = (if length data < 14 then Inl ''Ethernet frame too short'' else Inr data)"

definition mac_at :: "bytes \<Rightarrow> nat \<Rightarrow> mac_addr str_result checked" where
  "mac_at data i = and_then (slice_at data i (i + 6)) (\<lambda>bs. Inr (mac_from_bytes bs))"

definition ipv4_at :: "bytes \<Rightarrow> nat \<Rightarrow> ipv4_addr str_result checked" where
  "ipv4_at data i = and_then (slice_at data i (i + 4)) (\<lambda>bs. Inr (ipv4_from_bytes bs))"

definition eth_dst :: "bytes \<Rightarrow> mac_addr str_result checked" where "eth_dst data = mac_at data 0"
definition eth_src :: "bytes \<Rightarrow> mac_addr str_result checked" where "eth_src data = mac_at data 6"
definition eth_ethertype :: "bytes \<Rightarrow> nat checked" where "eth_ethertype data = be_at data 12 2"

definition eth_payload :: "bytes \<Rightarrow> bytes" where
  "eth_payload data = (if 14 < length data then drop 14 data else [])"

definition eth_builder :: "mac_addr \<Rightarrow> mac_addr \<Rightarrow> nat \<Rightarrow> bytes" where
  "eth_builder dst src ethertype = dst @ src @ to_be 2 ethertype"

definition with_payload :: "bytes \<Rightarrow> bytes \<Rightarrow> bytes" where
  "with_payload payload data = data @ payload"

subsection \<open>ARP\<close>

definition arp_new :: "bytes \<Rightarrow> bytes str_result" where
  "arp_new data = (if length data < 28 then Inl ''ARP packet too short'' else Inr data)"

definition arp_hwtype :: "bytes \<Rightarrow> nat checked" where "arp_hwtype data = be_at data 0 2"
definition arp_ptype :: "bytes \<Rightarrow> nat checked" where "arp_ptype data = be_at data 2 2"
definition arp_hwlen :: "bytes \<Rightarrow> u8 checked" where "arp_hwlen data = index_at data 4"
definition arp_plen :: "bytes \<Rightarrow> u8 checked" where "arp_plen data = index_at data 5"
definition arp_oper :: "bytes \<Rightarrow> nat checked" where "arp_oper data = be_at data 6 2"
definition arp_sha :: "bytes \<Rightarrow> mac_addr str_result checked" where "arp_sha data = mac_at data 8"
definition arp_spa :: "bytes \<Rightarrow> ipv4_addr str_result checked" where "arp_spa data = ipv4_at data 14"
definition arp_tha :: "bytes \<Rightarrow> mac_addr str_result checked" where "arp_tha data = mac_at data 18"
definition arp_tpa :: "bytes \<Rightarrow> ipv4_addr str_result checked" where "arp_tpa data = ipv4_at data 24"

definition arp_request :: "mac_addr \<Rightarrow> ipv4_addr \<Rightarrow> ipv4_addr \<Rightarrow> bytes" where
  "arp_request sender_mac sender_ip target_ip =
     to_be 2 1 @ to_be 2 0x0800 @ [6] @ [4] @ to_be 2 1 @ sender_mac @ sender_ip @ mac_zero @ target_ip"

definition arp_reply :: "mac_addr \<Rightarrow> ipv4_addr \<Rightarrow> mac_addr \<Rightarrow> ipv4_addr \<Rightarrow> bytes" where
  "arp_reply sender_mac sender_ip target_mac target_ip =
     to_be 2 1 @ to_be 2 0x0800 @ [6] @ [4] @ to_be 2 2 @ sender_mac @ sender_ip @ target_mac @ target_ip"

subsection \<open>IPv4\<close>

definition ipv4_new :: "bytes \<Rightarrow> bytes str_result checked" where
  "ipv4_new data =
     (if length data < 20 then Inr (Inl ''IPv4 header too short'')
      else and_then (index_at data 0) (\<lambda>version_ihl.
        let ihl = unat (version_ihl AND 0x0F); header_len = ihl * 4 in
        if header_len < 20 \<or> length data < header_len then Inr (Inl ''Invalid IPv4 IHL'')
        else and_then (be_at data 2 2) (\<lambda>total.
          if total < header_len \<or> length data < total then Inr (Inl ''Invalid IPv4 total length'')
          else and_then (slice_at data 0 total) (\<lambda>d. Inr (Inr d)))))"

definition ipv4_version :: "bytes \<Rightarrow> u8 checked" where
  "ipv4_version d = and_then (index_at d 0) (\<lambda>b. Inr (drop_bit 4 b AND 0x0F))"

definition ipv4_ihl :: "bytes \<Rightarrow> u8 checked" where
  "ipv4_ihl d = and_then (index_at d 0) (\<lambda>b. Inr (b AND 0x0F))"

definition ipv4_header_len :: "bytes \<Rightarrow> nat checked" where
  "ipv4_header_len d = and_then (ipv4_ihl d) (\<lambda>ihl. Inr (unat ihl * 4))"

definition ipv4_dscp :: "bytes \<Rightarrow> u8 checked" where
  "ipv4_dscp d = and_then (index_at d 1) (\<lambda>b. Inr (drop_bit 2 b AND 0x3F))"

definition ipv4_ecn :: "bytes \<Rightarrow> u8 checked" where
  "ipv4_ecn d = and_then (index_at d 1) (\<lambda>b. Inr (b AND 0x03))"

definition ipv4_total_length :: "bytes \<Rightarrow> nat checked" where "ipv4_total_length d = be_at d 2 2"
definition ipv4_identification :: "bytes \<Rightarrow> nat checked" where "ipv4_identification d = be_at d 4 2"

definition ipv4_flags :: "bytes \<Rightarrow> u8 checked" where
  "ipv4_flags d = and_then (index_at d 6) (\<lambda>b. Inr (drop_bit 5 b AND 0x07))"

definition ipv4_frag_offset :: "bytes \<Rightarrow> nat checked" where
  "ipv4_frag_offset d = and_then (index_at d 6) (\<lambda>a. and_then (index_at d 7) (\<lambda>b.
     Inr (be_bytes [a AND 0x1F, b] AND 0x1FFF)))"

definition ipv4_ttl :: "bytes \<Rightarrow> u8 checked" where "ipv4_ttl d = index_at d 8"
definition ipv4_protocol :: "bytes \<Rightarrow> u8 checked" where "ipv4_protocol d = index_at d 9"
definition ipv4_checksum :: "bytes \<Rightarrow> nat checked" where "ipv4_checksum d = be_at d 10 2"
definition ipv4_src :: "bytes \<Rightarrow> ipv4_addr str_result checked" where "ipv4_src d = ipv4_at d 12"
definition ipv4_dst :: "bytes \<Rightarrow> ipv4_addr str_result checked" where "ipv4_dst d = ipv4_at d 16"

definition ipv4_verify_checksum :: "bytes \<Rightarrow> bool checked" where
  "ipv4_verify_checksum d = and_then (ipv4_header_len d) (\<lambda>n. and_then (slice_at d 0 n) checksum_verify)"

definition ipv4_payload :: "bytes \<Rightarrow> bytes checked" where
  "ipv4_payload d = and_then (ipv4_header_len d) (\<lambda>offset.
     Inr (if offset < length d then drop offset d else []))"

definition ipv4_builder :: "ipv4_addr \<Rightarrow> ipv4_addr \<Rightarrow> u8 \<Rightarrow> bytes" where
  "ipv4_builder src dst protocol = [0x45, 0, 0, 0, 0, 0, 0, 0, 64, protocol, 0, 0] @ src @ dst"

text \<open>\<open>data[i..i + 2].copy_from_slice(&v.to_be_bytes())\<close>.\<close>

definition put_be16 :: "nat \<Rightarrow> nat \<Rightarrow> bytes \<Rightarrow> bytes checked" where
  "put_be16 i v data =
     (if i + 2 \<le> length data then Inr (take i data @ to_be 2 v @ drop (i + 2) data) else Inl Index_bounds)"

definition ipv4_build :: "bytes \<Rightarrow> bytes checked" where
  "ipv4_build data =
     and_then (put_be16 2 (length data mod 2 ^ 16) data) (\<lambda>d.
     and_then (put_be16 10 0 d) (\<lambda>d.
     and_then (slice_at d 0 20) (\<lambda>h.
     and_then (checksum h) (\<lambda>cs. put_be16 10 cs d))))"

subsection \<open>ICMP echo\<close>

definition icmp_new :: "bytes \<Rightarrow> bytes str_result" where
  "icmp_new data = (if length data < 8 then Inl ''ICMP echo request too short'' else Inr data)"

definition icmp_type :: "bytes \<Rightarrow> u8 checked" where "icmp_type d = index_at d 0"
definition icmp_code :: "bytes \<Rightarrow> u8 checked" where "icmp_code d = index_at d 1"
definition icmp_checksum :: "bytes \<Rightarrow> nat checked" where "icmp_checksum d = be_at d 2 2"
definition icmp_identifier :: "bytes \<Rightarrow> nat checked" where "icmp_identifier d = be_at d 4 2"
definition icmp_sequence :: "bytes \<Rightarrow> nat checked" where "icmp_sequence d = be_at d 6 2"

definition icmp_payload :: "bytes \<Rightarrow> bytes" where
  "icmp_payload d = (if 8 < length d then drop 8 d else [])"

definition icmp_verify_checksum :: "bytes \<Rightarrow> bool checked" where
  "icmp_verify_checksum d = checksum_verify d"

definition icmp_request :: "nat \<Rightarrow> nat \<Rightarrow> bytes" where
  "icmp_request identifier sequence = [8, 0, 0, 0] @ to_be 2 identifier @ to_be 2 sequence"

definition icmp_reply :: "nat \<Rightarrow> nat \<Rightarrow> bytes" where
  "icmp_reply identifier sequence = [0, 0, 0, 0] @ to_be 2 identifier @ to_be 2 sequence"

definition icmp_build :: "bytes \<Rightarrow> bytes checked" where
  "icmp_build data = and_then (put_be16 2 0 data) (\<lambda>d. and_then (checksum d) (\<lambda>cs. put_be16 2 cs d))"

subsection \<open>UDP\<close>

definition udp_new :: "bytes \<Rightarrow> bytes str_result checked" where
  "udp_new data =
     (if length data < 8 then Inr (Inl ''UDP packet too short'')
      else and_then (be_at data 4 2) (\<lambda>len.
        if len < 8 \<or> length data < len then Inr (Inl ''Invalid UDP length'')
        else and_then (slice_at data 0 len) (\<lambda>d. Inr (Inr d))))"

definition udp_src_port :: "bytes \<Rightarrow> nat checked" where "udp_src_port d = be_at d 0 2"
definition udp_dst_port :: "bytes \<Rightarrow> nat checked" where "udp_dst_port d = be_at d 2 2"
definition udp_length :: "bytes \<Rightarrow> nat checked" where "udp_length d = be_at d 4 2"
definition udp_checksum :: "bytes \<Rightarrow> nat checked" where "udp_checksum d = be_at d 6 2"

definition udp_payload :: "bytes \<Rightarrow> bytes" where
  "udp_payload d = (if 8 < length d then drop 8 d else [])"

definition udp_pseudo :: "ipv4_addr \<Rightarrow> ipv4_addr \<Rightarrow> nat \<Rightarrow> bytes \<Rightarrow> bytes" where
  "udp_pseudo src dst len d = src @ dst @ [0] @ [17] @ to_be 2 len @ d"

definition udp_verify_checksum :: "ipv4_addr \<Rightarrow> ipv4_addr \<Rightarrow> bytes \<Rightarrow> bool checked" where
  "udp_verify_checksum src dst d =
     and_then (udp_checksum d) (\<lambda>c. if c = 0 then Inr True
       else and_then (udp_length d) (\<lambda>len. checksum_verify (udp_pseudo src dst len d)))"

definition udp_builder :: "nat \<Rightarrow> nat \<Rightarrow> bytes" where
  "udp_builder src_port dst_port = to_be 2 src_port @ to_be 2 dst_port @ [0, 0, 0, 0]"

definition udp_build :: "ipv4_addr \<Rightarrow> ipv4_addr \<Rightarrow> bytes \<Rightarrow> bytes checked" where
  "udp_build src dst data =
     (let len = length data mod 2 ^ 16 in
      and_then (put_be16 4 len data) (\<lambda>d.
      let pseudo = udp_pseudo src dst len d in
      and_then (put_be16 6 0 d) (\<lambda>d.
      and_then (checksum pseudo) (\<lambda>cs. put_be16 6 cs d))))"

subsection \<open>DHCP\<close>

definition dhcp_new :: "bytes \<Rightarrow> bytes str_result" where
  "dhcp_new data = (if length data < 240 then Inl ''DHCP packet too short'' else Inr data)"

definition dhcp_opcode :: "bytes \<Rightarrow> u8 checked" where "dhcp_opcode d = index_at d 0"
definition dhcp_hwtype :: "bytes \<Rightarrow> u8 checked" where "dhcp_hwtype d = index_at d 1"
definition dhcp_hwlen :: "bytes \<Rightarrow> u8 checked" where "dhcp_hwlen d = index_at d 2"
definition dhcp_hops :: "bytes \<Rightarrow> u8 checked" where "dhcp_hops d = index_at d 3"
definition dhcp_xid :: "bytes \<Rightarrow> nat checked" where "dhcp_xid d = be_at d 4 4"
definition dhcp_secs :: "bytes \<Rightarrow> nat checked" where "dhcp_secs d = be_at d 8 2"
definition dhcp_flags :: "bytes \<Rightarrow> nat checked" where "dhcp_flags d = be_at d 10 2"
definition dhcp_ciaddr :: "bytes \<Rightarrow> ipv4_addr str_result checked" where "dhcp_ciaddr d = ipv4_at d 12"
definition dhcp_yiaddr :: "bytes \<Rightarrow> ipv4_addr str_result checked" where "dhcp_yiaddr d = ipv4_at d 16"
definition dhcp_siaddr :: "bytes \<Rightarrow> ipv4_addr str_result checked" where "dhcp_siaddr d = ipv4_at d 20"
definition dhcp_giaddr :: "bytes \<Rightarrow> ipv4_addr str_result checked" where "dhcp_giaddr d = ipv4_at d 24"
definition dhcp_chaddr :: "bytes \<Rightarrow> mac_addr str_result checked" where "dhcp_chaddr d = mac_at d 28"
definition dhcp_magic_cookie :: "bytes \<Rightarrow> nat checked" where "dhcp_magic_cookie d = be_at d 236 4"

definition dhcp_options :: "bytes \<Rightarrow> bytes" where
  "dhcp_options d = (if 240 < length d then drop 240 d else [])"

text \<open>
  The walk over the options that \<open>get_message_type\<close> and the extractors of the DHCP client share.
  \<open>pick tag len rest\<close> looks at one option: its tag, its length byte and the bytes after it;
  \<open>offset + 1 >= len\<close> is \<open>tail = []\<close>, and the offset moves by \<open>2 + len\<close>.
\<close>

fun find_option :: "(nat \<Rightarrow> nat \<Rightarrow> bytes \<Rightarrow> 'a option) \<Rightarrow> bytes \<Rightarrow> 'a option" where
  "find_option pick [] = None"
| "find_option pick (tag # rest) =
     (if tag = 255 then None
      else if tag = 0 then find_option pick rest
      else (case rest of [] \<Rightarrow> None
        | len # value \<Rightarrow> (case pick (unat tag) (unat len) value of Some x \<Rightarrow> Some x
            | None \<Rightarrow> find_option pick (drop (unat len) value))))"

definition dhcp_message_type :: "bytes \<Rightarrow> u8 option" where
  "dhcp_message_type d = find_option
     (\<lambda>tag len value. if tag = 53 \<and> len = 1 \<and> 0 < length value then Some (value ! 0) else None) (dhcp_options d)"

definition dhcp_builder :: "nat \<Rightarrow> mac_addr \<Rightarrow> bytes" where
  "dhcp_builder xid client_mac = [1, 1, 6, 0] @ to_be 4 xid @ [0, 0] @ [0, 0] @ ipv4_zeros @ ipv4_zeros @ ipv4_zeros
     @ ipv4_zeros @ client_mac @ replicate 10 0 @ replicate 64 0 @ replicate 128 0 @ to_be 4 0x63825363"

definition with_message_type :: "u8 \<Rightarrow> bytes \<Rightarrow> bytes" where
  "with_message_type msg_type data = data @ [53, 1, msg_type]"

definition with_requested_ip :: "ipv4_addr \<Rightarrow> bytes \<Rightarrow> bytes" where
  "with_requested_ip ip data = data @ [50, 4] @ ip"

definition with_server_id :: "ipv4_addr \<Rightarrow> bytes \<Rightarrow> bytes" where
  "with_server_id ip data = data @ [54, 4] @ ip"

definition with_end :: "bytes \<Rightarrow> bytes" where
  "with_end data = data @ [255]"

subsection \<open>DNS headers and queries\<close>

definition dns_new :: "bytes \<Rightarrow> bytes str_result" where
  "dns_new data = (if length data < 12 then Inl ''DNS header too short'' else Inr data)"

definition dns_id :: "bytes \<Rightarrow> nat checked" where "dns_id d = be_at d 0 2"
definition dns_flags :: "bytes \<Rightarrow> nat checked" where "dns_flags d = be_at d 2 2"
definition dns_qdcount :: "bytes \<Rightarrow> nat checked" where "dns_qdcount d = be_at d 4 2"
definition dns_ancount :: "bytes \<Rightarrow> nat checked" where "dns_ancount d = be_at d 6 2"
definition dns_nscount :: "bytes \<Rightarrow> nat checked" where "dns_nscount d = be_at d 8 2"
definition dns_arcount :: "bytes \<Rightarrow> nat checked" where "dns_arcount d = be_at d 10 2"

definition query_new :: "bytes \<Rightarrow> nat \<Rightarrow> (bytes \<times> nat) str_result" where
  "query_new data offset = (if length data \<le> offset then Inl ''Query offset out of bounds'' else Inr (data, offset))"

text \<open>
  \<open>DnsQuery::parse_name\<close> from position \<open>pos\<close>, with the number of pointers followed (the length of
  \<open>visited\<close>) and the bytes of the result so far.  Characters 128 and up take two bytes in the
  result string, which its length test sees.
\<close>

definition utf8_len :: "bytes \<Rightarrow> nat" where
  "utf8_len bs = (\<Sum>b\<leftarrow>bs. if b < 128 then 1 else 2)"

function query_name_loop :: "bytes \<Rightarrow> nat \<Rightarrow> nat \<Rightarrow> bytes \<Rightarrow> (nat \<times> bytes) str_result" where
  "query_name_loop data pos visited name =
     (if length data \<le> pos then Inl ''Name extends beyond packet''
      else let byte = data ! pos in
        if byte AND 0xC0 = 0xC0 then
          (if length data \<le> pos + 1 then Inl ''Pointer extends beyond packet''
           else if 10 < visited then Inl ''Name compression loop detected''
           else query_name_loop data (unat (byte AND 0x3F) * 256 + unat (data ! (pos + 1))) (visited + 1) name)
        else if byte = 0 then Inr (pos + 1, name)
        else if length data < pos + 1 + unat byte then Inl ''Label extends beyond packet''
        else let name1 = (if name \<noteq> [] then name @ [46] else name) in
          if 255 < utf8_len name1 + unat byte then Inl ''Name too long''
          else query_name_loop data (pos + 1 + unat byte) visited (name1 @ take (unat byte) (drop (pos + 1) data)))"
  by pat_completeness auto

termination query_name_loop
  by (relation "measures [\<lambda>(_, _, visited, _). 11 - visited, \<lambda>(data, pos, _, _). length data - pos]") auto

declare query_name_loop.simps [simp del]

definition query_parse_name :: "bytes \<times> nat \<Rightarrow> (nat \<times> bytes) str_result" where
  "query_parse_name q = query_name_loop (fst q) (snd q) 0 []"

definition query_qtype :: "bytes \<times> nat \<Rightarrow> nat str_result checked" where
  "query_qtype q = (case query_parse_name q of Inl e \<Rightarrow> Inr (Inl e)
     | Inr (pos, _) \<Rightarrow> if length (fst q) \<le> pos + 1 then Inr (Inl ''QType extends beyond packet'')
         else and_then (be_at (fst q) pos 2) (\<lambda>v. Inr (Inr v)))"

definition query_qclass :: "bytes \<times> nat \<Rightarrow> nat str_result checked" where
  "query_qclass q = (case query_parse_name q of Inl e \<Rightarrow> Inr (Inl e)
     | Inr (pos, _) \<Rightarrow> if length (fst q) \<le> pos + 3 then Inr (Inl ''QClass extends beyond packet'')
         else and_then (be_at (fst q) (pos + 2) 2) (\<lambda>v. Inr (Inr v)))"

definition dns_query :: "nat \<Rightarrow> bytes" where
  "dns_query qid = to_be 2 qid @ [0, 0] @ [0, 1] @ [0, 0] @ [0, 0] @ [0, 0]"

text \<open>\<open>str::split\<close> at a separator byte.\<close>

fun split_on :: "u8 \<Rightarrow> bytes \<Rightarrow> bytes list" where
  "split_on s [] = [[]]"
| "split_on s (b # bs) = (if b = s then [] # split_on s bs
     else (case split_on s bs of [] \<Rightarrow> [[b]] | w # ws \<Rightarrow> (b # w) # ws))"

fun push_labels :: "bytes list \<Rightarrow> bytes \<Rightarrow> bytes str_result" where
  "push_labels [] data = Inr data"
| "push_labels (label # ls) data = (if 63 < length label then Inl ''Label too long''
     else push_labels ls (data @ [word_of_nat (length label)] @ label))"

definition with_question :: "bytes \<Rightarrow> nat \<Rightarrow> nat \<Rightarrow> bytes \<Rightarrow> bytes str_result" where
  "with_question name qtype qclass data = (case push_labels (split_on 46 name) data of Inl e \<Rightarrow> Inl e
     | Inr d \<Rightarrow> Inr (d @ [0] @ to_be 2 qtype @ to_be 2 qclass))"

subsection \<open>What the checksum computes\<close>

text \<open>The sum of the words as a number, and its ones'-complement value.\<close>

fun wsum :: "bytes \<Rightarrow> nat" where
  "wsum [] = 0"
| "wsum [b] = 256 * unat b"
| "wsum (a # b # bs) = 256 * unat a + unat b + wsum bs"

lemma be_bytes_pair: "be_bytes [a, b] = 256 * unat a + unat b"
  by (simp add: be_bytes_def)

lemma unat_byte_bound: "unat (b :: u8) \<le> 255"
proof -
  have "unat b < 256" using unsigned_less[of b] by simp
  then show ?thesis by simp
qed

lemma wsum_bound: "wsum bs \<le> 65535 * ((length bs + 1) div 2)"
proof (induction bs rule: wsum.induct)
  case (3 a b bs)
  have "256 * unat a + unat b \<le> 65535" using unat_byte_bound[of a] unat_byte_bound[of b] by linarith
  with 3 show ?case by simp
next
  case (2 b)
  then show ?case using unat_byte_bound[of b] by simp
qed simp

lemma wsum_append: "even (length xs) \<Longrightarrow> wsum (xs @ ys) = wsum xs + wsum ys"
  by (induction xs rule: wsum.induct) simp_all

lemma word_sum_eq: "acc + wsum bs < 2 ^ 32 \<Longrightarrow> word_sum bs acc = Inr (acc + wsum bs)"
  by (induction bs arbitrary: acc rule: wsum.induct) (simp_all add: add_u32_def be_bytes_pair algebra_simps)

lemma fold_carries_bound: "fold_carries s < 65536"
proof (induction s rule: fold_carries.induct)
  case (1 s)
  then show ?case by (cases "s div 2 ^ 16 > 0") (simp_all add: fold_carries.simps[of s] div_eq_0_iff)
qed

lemma fold_carries_cong: "\<exists>k. s = fold_carries s + 65535 * k"
proof (induction s rule: fold_carries.induct)
  case (1 s)
  show ?case
  proof (cases "s div 2 ^ 16 > 0")
    case True
    with 1 obtain k where k: "s mod 2 ^ 16 + s div 2 ^ 16 = fold_carries (s mod 2 ^ 16 + s div 2 ^ 16) + 65535 * k"
      by blast
    have "s = (s mod 2 ^ 16 + s div 2 ^ 16) + 65535 * (s div 2 ^ 16)"
      using div_mult_mod_eq[of s "2 ^ 16"] by simp
    also have "\<dots> = fold_carries (s mod 2 ^ 16 + s div 2 ^ 16) + 65535 * (k + s div 2 ^ 16)"
      using k by (simp only: distrib_left)
    also have "fold_carries (s mod 2 ^ 16 + s div 2 ^ 16) = fold_carries s"
      using True by (simp add: fold_carries.simps[of s])
    finally show ?thesis by blast
  qed (auto simp: fold_carries.simps[of s])
qed

lemma fold_carries_0: "fold_carries s = 0 \<longleftrightarrow> s = 0"
proof (induction s rule: fold_carries.induct)
  case (1 s)
  show ?case
  proof (cases "s div 2 ^ 16 > 0")
    case True
    then have "s mod 2 ^ 16 + s div 2 ^ 16 \<noteq> 0" "s \<noteq> 0" by auto
    then show ?thesis using 1 True by (subst fold_carries.simps) simp
  qed (auto simp: fold_carries.simps[of s])
qed

text \<open>The folded sum of a positive multiple of 65535 is all ones, and only then.\<close>

lemma fold_carries_ones: "fold_carries s = 65535 \<longleftrightarrow> 0 < s \<and> 65535 dvd s"
proof -
  obtain k where k: "s = fold_carries s + 65535 * k" using fold_carries_cong by blast
  then have "65535 dvd s \<longleftrightarrow> 65535 dvd fold_carries s" by (metis dvd_add_times_triv_right_iff mult.commute)
  moreover have "65535 dvd fold_carries s \<longleftrightarrow> fold_carries s = 0 \<or> fold_carries s = 65535"
    using fold_carries_bound[of s] by (auto simp: dvd_def)
  ultimately show ?thesis using fold_carries_0[of s] by auto
qed

lemma checksum_value:
  "length bs \<le> 131072 \<Longrightarrow> checksum bs = Inr (65535 - fold_carries (wsum bs))"
proof -
  assume "length bs \<le> 131072"
  then have "(length bs + 1) div 2 \<le> 65536" by simp
  then have "65535 * ((length bs + 1) div 2) \<le> 65535 * 65536" by (rule mult_le_mono2)
  then have "wsum bs < 2 ^ 32" using wsum_bound[of bs] by simp
  then show ?thesis using word_sum_eq[of 0 bs] fold_carries_bound[of "wsum bs"] by (simp add: checksum_def)
qed

text \<open>Storing the checksum of a message in a field that was zero makes the message verify.\<close>

lemma stored_checksum_verifies:
  assumes "length bs \<le> 131072" "checksum bs = Inr cs" "wsum bs' = wsum bs + cs" "length bs' = length bs"
  shows "checksum_verify bs' = Inr True"
proof -
  have cs: "cs = 65535 - fold_carries (wsum bs)" using checksum_value[OF assms(1)] assms(2) by simp
  obtain k where k: "wsum bs = fold_carries (wsum bs) + 65535 * k" using fold_carries_cong by blast
  have "wsum bs' = 65535 * (k + 1)" using assms(3) cs k fold_carries_bound[of "wsum bs"] by simp
  then have "fold_carries (wsum bs') = 65535" using fold_carries_ones by simp
  then show ?thesis using checksum_value[of bs'] assms(1,4) by (simp add: checksum_verify_def)
qed

lemma checksum_bound: "length bs \<le> 131072 \<Longrightarrow> checksum bs = Inr cs \<Longrightarrow> cs < 65536"
  by (auto simp: checksum_value)

subsection \<open>Built packets parse back\<close>

lemma to_be_2: "to_be 2 v = [word_of_nat (v div 256), word_of_nat v]"
  by (simp add: to_be_def numeral_2_eq_2)

lemma wsum_to_be: "v < 65536 \<Longrightarrow> wsum (to_be 2 v) = v"
  using be_bytes_to_be[of 2 v] by (simp add: to_be_2 be_bytes_pair)

lemma length_4_cases: "length xs = 4 \<Longrightarrow> \<exists>a b c d. xs = [a, b, c, d]"
  by (auto simp: numeral_eq_Suc length_Suc_conv)

lemma length_6_cases: "length xs = 6 \<Longrightarrow> \<exists>a b c d e f. xs = [a, b, c, d, e, f]"
  by (auto simp: numeral_eq_Suc length_Suc_conv)

lemma be_pair_to_be: "v < 65536 \<Longrightarrow> be_bytes [word_of_nat (v div 256), word_of_nat v] = v"
  using be_bytes_to_be[of 2 v] by (simp add: to_be_2)

definition ipv4_packet :: "nat \<Rightarrow> u8 \<Rightarrow> nat \<Rightarrow> ipv4_addr \<Rightarrow> ipv4_addr \<Rightarrow> bytes \<Rightarrow> bytes" where
  "ipv4_packet n protocol cs src dst p =
     [0x45, 0] @ to_be 2 n @ [0, 0, 0, 0, 64, protocol] @ to_be 2 cs @ src @ dst @ p"

lemma ipv4_build_packet:
  assumes "length src = 4" "length dst = 4" "20 + length p < 65536"
  shows "\<exists>cs. ipv4_build (with_payload p (ipv4_builder src dst protocol)) = Inr (ipv4_packet (20 + length p) protocol cs src dst p)
    \<and> checksum_verify (take 20 (ipv4_packet (20 + length p) protocol cs src dst p)) = Inr True"
proof -
  obtain a b c d where s: "src = [a, b, c, d]" using length_4_cases[OF assms(1)] by blast
  obtain e f g h where t: "dst = [e, f, g, h]" using length_4_cases[OF assms(2)] by blast
  let ?hd = "take 20 (ipv4_packet (20 + length p) protocol 0 src dst p)"
  have len: "length ?hd \<le> 131072" by (simp add: ipv4_packet_def)
  obtain cs where cs: "checksum ?hd = Inr cs" using checksum_value[OF len] by blast
  have l16: "(20 + length p) mod 65536 = 20 + length p" using assms(3) by simp
  have "wsum (take 20 (ipv4_packet (20 + length p) protocol cs src dst p)) = wsum ?hd + cs"
    using wsum_to_be[OF checksum_bound[OF len cs]] by (simp add: ipv4_packet_def s t to_be_2)
  moreover have "ipv4_build (with_payload p (ipv4_builder src dst protocol))
      = Inr (ipv4_packet (20 + length p) protocol cs src dst p)"
    using cs l16 by (simp add: ipv4_build_def with_payload_def ipv4_builder_def put_be16_def ipv4_packet_def s t to_be_2)
  moreover have "length (take 20 (ipv4_packet (20 + length p) protocol cs src dst p)) = length ?hd"
    by (simp add: ipv4_packet_def s t to_be_2)
  ultimately show ?thesis using stored_checksum_verifies[OF len cs] by blast
qed

lemma ipv4_parses_back:
  assumes "length src = 4" "length dst = 4" "20 + length p < 65536"
  shows "\<exists>pkt. ipv4_build (with_payload p (ipv4_builder src dst protocol)) = Inr pkt
    \<and> ipv4_new (pkt @ padding) = Inr (Inr pkt)
    \<and> ipv4_src pkt = Inr (Inr src) \<and> ipv4_dst pkt = Inr (Inr dst) \<and> ipv4_protocol pkt = Inr protocol
    \<and> ipv4_payload pkt = Inr p \<and> ipv4_verify_checksum pkt = Inr True"
proof -
  obtain a b c d where s: "src = [a, b, c, d]" using length_4_cases[OF assms(1)] by blast
  obtain e f g h where t: "dst = [e, f, g, h]" using length_4_cases[OF assms(2)] by blast
  from ipv4_build_packet[OF assms, of protocol] obtain cs where cs:
    "ipv4_build (with_payload p (ipv4_builder src dst protocol)) = Inr (ipv4_packet (20 + length p) protocol cs src dst p)"
    "checksum_verify (take 20 (ipv4_packet (20 + length p) protocol cs src dst p)) = Inr True" by blast
  let ?pkt = "ipv4_packet (20 + length p) protocol cs src dst p"
  have ihl: "(0x45 :: u8) AND 0x0F = 5" by simp
  have tot: "be_bytes [word_of_nat ((20 + length p) div 256), word_of_nat (20 + length p)] = 20 + length p"
    using assms(3) by (rule be_pair_to_be)
  have lp: "length ?pkt = 20 + length p" by (simp add: ipv4_packet_def s t to_be_2)
  have "index_at (?pkt @ padding) 0 = Inr 0x45" "be_at (?pkt @ padding) 2 2 = Inr (20 + length p)"
    using tot by (simp_all add: ipv4_packet_def s t to_be_2)
  then have "ipv4_new (?pkt @ padding) = Inr (Inr ?pkt)"
    using lp by (simp add: ipv4_new_def Let_def)
  moreover have "ipv4_payload ?pkt = Inr p"
    by (simp add: ipv4_payload_def ipv4_header_len_def ipv4_ihl_def ipv4_packet_def s t to_be_2)
  moreover have "ipv4_verify_checksum ?pkt = Inr True"
    using cs(2) by (simp add: ipv4_verify_checksum_def ipv4_header_len_def ipv4_ihl_def ipv4_packet_def s t to_be_2)
  ultimately show ?thesis
    using cs(1) by (simp add: ipv4_src_def ipv4_dst_def ipv4_protocol_def ipv4_at_def ipv4_from_bytes_def)
      (simp add: ipv4_packet_def s t to_be_2)
qed

text \<open>
  C24. An IPv4 packet built from addresses, a protocol and a payload that fits parses back to
  exactly these, with a checksum that verifies, also when the link layer pads the frame.
\<close>

theorem ipv4_roundtrip:
  assumes "length src = 4" "length dst = 4" "20 + length p < 65536"
  shows "\<exists>pkt. ipv4_build (with_payload p (ipv4_builder src dst protocol)) = Inr pkt
    \<and> ipv4_new (pkt @ padding) = Inr (Inr pkt)
    \<and> ipv4_src pkt = Inr (Inr src) \<and> ipv4_dst pkt = Inr (Inr dst) \<and> ipv4_protocol pkt = Inr protocol
    \<and> ipv4_payload pkt = Inr p \<and> ipv4_verify_checksum pkt = Inr True"
  using assms by (rule ipv4_parses_back)

theorem ipv4_roundtrip_witness:
  "\<exists>pkt. ipv4_build (with_payload [1, 2, 3] (ipv4_builder [10, 0, 2, 15] [10, 0, 2, 2] 17)) = Inr pkt
    \<and> ipv4_payload pkt = Inr [1, 2, 3]"
  using ipv4_roundtrip[of "[10, 0, 2, 15]" "[10, 0, 2, 2]" "[1, 2, 3]" 17 "[0, 0]"] by auto

definition udp_packet :: "nat \<Rightarrow> nat \<Rightarrow> nat \<Rightarrow> nat \<Rightarrow> bytes \<Rightarrow> bytes" where
  "udp_packet sport dport len cs p = to_be 2 sport @ to_be 2 dport @ to_be 2 len @ to_be 2 cs @ p"

lemma udp_build_packet:
  assumes "length src = 4" "length dst = 4" "8 + length p < 65536"
  shows "\<exists>cs<65536. udp_build src dst (with_payload p (udp_builder sport dport)) = Inr (udp_packet sport dport (8 + length p) cs p)
    \<and> checksum_verify (udp_pseudo src dst (8 + length p) (udp_packet sport dport (8 + length p) cs p)) = Inr True"
proof -
  obtain a b c d where s: "src = [a, b, c, d]" using length_4_cases[OF assms(1)] by blast
  obtain e f g h where t: "dst = [e, f, g, h]" using length_4_cases[OF assms(2)] by blast
  let ?ps = "\<lambda>cs. udp_pseudo src dst (8 + length p) (udp_packet sport dport (8 + length p) cs p)"
  have len: "length (?ps 0) \<le> 131072" using assms(3) by (simp add: udp_pseudo_def udp_packet_def s t)
  obtain cs where cs: "checksum (?ps 0) = Inr cs" using checksum_value[OF len] by blast
  note cb = checksum_bound[OF len cs]
  have l16: "(8 + length p) mod 65536 = 8 + length p" using assms(3) by simp
  have "wsum (?ps cs) = wsum (?ps 0) + cs"
    using wsum_to_be[OF cb] by (simp add: udp_pseudo_def udp_packet_def s t to_be_2)
  moreover have "length (?ps cs) = length (?ps 0)" by (simp add: udp_pseudo_def udp_packet_def)
  moreover have "udp_build src dst (with_payload p (udp_builder sport dport)) = Inr (udp_packet sport dport (8 + length p) cs p)"
    using cs l16 by (simp add: udp_build_def with_payload_def udp_builder_def put_be16_def udp_packet_def to_be_2 Let_def)
  ultimately show ?thesis using stored_checksum_verifies[OF len cs] cb by blast
qed

lemma udp_parses_back:
  assumes "length src = 4" "length dst = 4" "8 + length p < 65536" "sport < 65536" "dport < 65536"
  shows "\<exists>d. udp_build src dst (with_payload p (udp_builder sport dport)) = Inr d
    \<and> udp_new (d @ padding) = Inr (Inr d) \<and> udp_src_port d = Inr sport \<and> udp_dst_port d = Inr dport
    \<and> udp_payload d = p \<and> udp_verify_checksum src dst d = Inr True"
proof -
  from udp_build_packet[OF assms(1-3), of sport dport] obtain cs where cs: "cs < 65536"
    "udp_build src dst (with_payload p (udp_builder sport dport)) = Inr (udp_packet sport dport (8 + length p) cs p)"
    "checksum_verify (udp_pseudo src dst (8 + length p) (udp_packet sport dport (8 + length p) cs p)) = Inr True"
    by blast
  let ?d = "udp_packet sport dport (8 + length p) cs p"
  have lp: "length ?d = 8 + length p" by (simp add: udp_packet_def to_be_2)
  have len: "be_at (?d @ padding) 4 2 = Inr (8 + length p)" "be_at ?d 4 2 = Inr (8 + length p)"
    using be_pair_to_be[OF assms(3)] by (simp_all add: udp_packet_def to_be_2)
  then have "udp_new (?d @ padding) = Inr (Inr ?d)" using lp by (simp add: udp_new_def)
  moreover have "udp_src_port ?d = Inr sport" "udp_dst_port ?d = Inr dport" "udp_payload ?d = p"
    using be_pair_to_be[OF assms(4)] be_pair_to_be[OF assms(5)]
    by (simp_all add: udp_src_port_def udp_dst_port_def udp_payload_def udp_packet_def to_be_2)
  moreover have "udp_checksum ?d = Inr cs"
    using be_pair_to_be[OF cs(1)] by (simp add: udp_checksum_def udp_packet_def to_be_2)
  then have "udp_verify_checksum src dst ?d = Inr True"
    using cs(3) len(2) by (simp add: udp_verify_checksum_def udp_length_def)
  ultimately show ?thesis using cs(2) by blast
qed

text \<open>
  A UDP datagram built for two ports and a payload that fits parses back to exactly these,
  with a checksum over the pseudo-header that verifies, also with bytes after it.
\<close>

theorem udp_roundtrip:
  assumes "length src = 4" "length dst = 4" "8 + length p < 65536" "sport < 65536" "dport < 65536"
  shows "\<exists>d. udp_build src dst (with_payload p (udp_builder sport dport)) = Inr d
    \<and> udp_new (d @ padding) = Inr (Inr d) \<and> udp_src_port d = Inr sport \<and> udp_dst_port d = Inr dport
    \<and> udp_payload d = p \<and> udp_verify_checksum src dst d = Inr True"
  using assms by (rule udp_parses_back)

theorem udp_roundtrip_witness:
  "\<exists>d. udp_build [10, 0, 2, 15] [10, 0, 2, 2] (with_payload [7, 8, 9] (udp_builder 68 67)) = Inr d
    \<and> udp_payload d = [7, 8, 9]"
  using udp_roundtrip[of "[10, 0, 2, 15]" "[10, 0, 2, 2]" "[7, 8, 9]" 68 67 "[0]"] by auto

subsection \<open>Ethernet and ARP frames\<close>

lemma eth_fields:
  fixes p :: bytes
  assumes "length dst = 6" "length src = 6" "ty < 65536"
  defines "f \<equiv> with_payload p (eth_builder dst src ty)"
  shows "eth_new f = Inr f" "eth_dst f = Inr (Inr dst)" "eth_src f = Inr (Inr src)"
    "eth_ethertype f = Inr ty" "eth_payload f = p"
  using assms(1-3) be_pair_to_be[OF assms(3)] length_6_cases[OF assms(1)] length_6_cases[OF assms(2)]
  by (auto simp: f_def with_payload_def eth_builder_def eth_new_def eth_dst_def eth_src_def eth_ethertype_def
      eth_payload_def mac_at_def mac_from_bytes_def to_be_2)

lemma arp_fields:
  assumes "length sha = 6" "length spa = 4" "length tpa = 4"
  shows "arp_new (arp_request sha spa tpa) = Inr (arp_request sha spa tpa)"
    "arp_oper (arp_request sha spa tpa) = Inr 1" "arp_sha (arp_request sha spa tpa) = Inr (Inr sha)"
    "arp_spa (arp_request sha spa tpa) = Inr (Inr spa)" "arp_tpa (arp_request sha spa tpa) = Inr (Inr tpa)"
  using assms length_6_cases[OF assms(1)] length_4_cases[OF assms(2)] length_4_cases[OF assms(3)]
  by (auto simp: arp_request_def arp_new_def arp_oper_def arp_sha_def arp_spa_def arp_tpa_def mac_at_def
      mac_from_bytes_def ipv4_at_def ipv4_from_bytes_def mac_zero_def to_be_2 be_bytes_pair)

lemma arp_reply_fields:
  assumes "length sha = 6" "length spa = 4" "length tha = 6" "length tpa = 4"
  shows "arp_new (arp_reply sha spa tha tpa) = Inr (arp_reply sha spa tha tpa)"
    "arp_oper (arp_reply sha spa tha tpa) = Inr 2" "arp_sha (arp_reply sha spa tha tpa) = Inr (Inr sha)"
    "arp_spa (arp_reply sha spa tha tpa) = Inr (Inr spa)"
  using assms length_6_cases[OF assms(1)] length_4_cases[OF assms(2)] length_6_cases[OF assms(3)] length_4_cases[OF assms(4)]
  by (auto simp: arp_reply_def arp_new_def arp_oper_def arp_sha_def arp_spa_def mac_at_def
      mac_from_bytes_def ipv4_at_def ipv4_from_bytes_def to_be_2 be_bytes_pair)

end
