(* ===== verification/Arp_Cache.thy ===== *)
theory Arp_Cache
  imports Net_Proto "HOL-Library.AList"
begin

text \<open>
  The ARP cache of \<open>crates/otter-netlogic/src/lib.rs\<close> (\<open>ArpCache\<close>) and the actions the network
  state machines hand to their caller.  A \<open>BTreeMap\<close> is an association list; a walk over it visits
  the keys in increasing order.  Times are milliseconds in a \<open>u32\<close>.
\<close>

datatype action =
    Send bytes
  | Configured ipv4_addr ipv4_addr ipv4_addr ipv4_addr nat
  | Resolved string ipv4_addr
  | Failed string

record arp_entry =
  ae_mac :: mac_addr
  ae_ip :: ipv4_addr
  ae_inserted_at :: nat
  ae_last_request_at :: nat
  ae_request_count :: nat

record arp_cache =
  ar_entries :: "(nat \<times> arp_entry) list"
  ar_pending :: "(nat \<times> bytes list) list"
  ar_our_mac :: mac_addr
  ar_our_ip :: ipv4_addr

subsection \<open>Operations\<close>

definition arp_cache_new :: "mac_addr \<Rightarrow> ipv4_addr \<Rightarrow> arp_cache" where
  "arp_cache_new our_mac our_ip = \<lparr>ar_entries = [], ar_pending = [], ar_our_mac = our_mac, ar_our_ip = our_ip\<rparr>"

text \<open>Both maps without the address.\<close>

definition arp_forget :: "nat \<Rightarrow> arp_cache \<Rightarrow> arp_cache" where
  "arp_forget key c = c\<lparr>ar_entries := AList.delete key (ar_entries c), ar_pending := AList.delete key (ar_pending c)\<rparr>"

text \<open>The second half of \<open>resolve\<close>: queue the packet, then send, resend or give up.\<close>

definition arp_request_frame :: "ipv4_addr \<Rightarrow> arp_cache \<Rightarrow> bytes" where
  "arp_request_frame ip c =
     with_payload (arp_request (ar_our_mac c) (ar_our_ip c) ip) (eth_builder mac_broadcast (ar_our_mac c) 0x0806)"

definition arp_enqueue :: "nat \<Rightarrow> bytes \<Rightarrow> arp_cache \<Rightarrow> arp_cache" where
  "arp_enqueue key packet c =
     (let queue = (case map_of (ar_pending c) key of Some q \<Rightarrow> q | None \<Rightarrow> []) in
      c\<lparr>ar_pending := AList.update key (if length queue < 8 then queue @ [packet] else queue) (ar_pending c)\<rparr>)"

definition arp_await :: "ipv4_addr \<Rightarrow> bytes \<Rightarrow> nat \<Rightarrow> arp_cache \<Rightarrow> action list \<times> arp_cache" where
  "arp_await ip packet now_ms c =
     (let key = ipv4_to_u32 ip in
      case map_of (ar_entries c) key of
        None \<Rightarrow>
          (let entry = \<lparr>ae_mac = mac_zero, ae_ip = ip, ae_inserted_at = now_ms, ae_last_request_at = now_ms,
                 ae_request_count = 1\<rparr>;
               c1 = (arp_enqueue key packet c)\<lparr>ar_entries := AList.update key entry (ar_entries c)\<rparr> in
           ([Send (arp_request_frame ip c1)], c1))
      | Some entry \<Rightarrow>
          (let c1 = arp_enqueue key packet c in
           if 1000 \<le> now_ms - ae_last_request_at entry then
             if 3 \<le> ae_request_count entry then ([Failed ''ARP timeout''], arp_forget key c1)
             else
               (let entry1 = entry\<lparr>ae_last_request_at := now_ms,
                      ae_request_count := min (ae_request_count entry + 1) (2 ^ 32 - 1)\<rparr>;
                    c2 = c1\<lparr>ar_entries := AList.update key entry1 (ar_entries c1)\<rparr> in
                ([Send (arp_request_frame ip c2)], c2))
           else ([], c1)))"

definition arp_resolve :: "ipv4_addr \<Rightarrow> bytes \<Rightarrow> nat \<Rightarrow> arp_cache \<Rightarrow> action list \<times> arp_cache" where
  "arp_resolve ip packet now_ms c =
     (let key = ipv4_to_u32 ip in
      case map_of (ar_entries c) key of
        Some entry \<Rightarrow>
          if ae_mac entry \<noteq> mac_zero \<and> now_ms - ae_inserted_at entry < 60000 then ([], c)
          else if ae_mac entry \<noteq> mac_zero then arp_await ip packet now_ms (arp_forget key c)
          else arp_await ip packet now_ms c
      | None \<Rightarrow> arp_await ip packet now_ms c)"

definition arp_learn :: "mac_addr \<Rightarrow> ipv4_addr \<Rightarrow> nat \<Rightarrow> arp_cache \<Rightarrow> arp_cache" where
  "arp_learn sha spa now_ms c =
     c\<lparr>ar_entries := AList.update (ipv4_to_u32 spa) \<lparr>ae_mac = sha, ae_ip = spa, ae_inserted_at = now_ms,
          ae_last_request_at = now_ms, ae_request_count = 0\<rparr> (ar_entries c),
        ar_pending := AList.delete (ipv4_to_u32 spa) (ar_pending c)\<rparr>"

definition arp_answer :: "mac_addr \<Rightarrow> ipv4_addr \<Rightarrow> arp_cache \<Rightarrow> bytes" where
  "arp_answer sha spa c =
     with_payload (arp_reply (ar_our_mac c) (ar_our_ip c) sha spa) (eth_builder sha (ar_our_mac c) 0x0806)"

text \<open>What \<open>handle_packet\<close> does with an ARP packet.\<close>

definition arp_handle :: "bytes \<Rightarrow> nat \<Rightarrow> arp_cache \<Rightarrow> (action list \<times> arp_cache) checked" where
  "arp_handle pkt now_ms c =
     and_then (arp_oper pkt) (\<lambda>oper.
       if oper = 2 then
         and_then (arp_sha pkt) (\<lambda>sha. and_then (arp_spa pkt) (\<lambda>spa.
           case (sha, spa) of (Inr sha, Inr spa) \<Rightarrow> Inr ([], arp_learn sha spa now_ms c) | _ \<Rightarrow> Inr ([], c)))
       else if oper = 1 then
         and_then (arp_tpa pkt) (\<lambda>tpa. and_then (arp_sha pkt) (\<lambda>sha. and_then (arp_spa pkt) (\<lambda>spa.
           case (tpa, sha, spa) of
             (Inr tpa, Inr sha, Inr spa) \<Rightarrow>
               Inr (if tpa = ar_our_ip c then [Send (arp_answer sha spa c)] else [], c)
           | _ \<Rightarrow> Inr ([], c))))
       else Inr ([], c))"

definition arp_handle_packet :: "bytes \<Rightarrow> nat \<Rightarrow> arp_cache \<Rightarrow> (action list \<times> arp_cache) checked" where
  "arp_handle_packet data now_ms c =
     (case eth_new data of Inl _ \<Rightarrow> Inr ([], c)
      | Inr frame \<Rightarrow> and_then (eth_ethertype frame) (\<lambda>ty.
          if ty = 0x0806 then
            (case arp_new (eth_payload frame) of Inl _ \<Rightarrow> Inr ([], c) | Inr pkt \<Rightarrow> arp_handle pkt now_ms c)
          else Inr ([], c)))"

fun arp_expire :: "nat list \<Rightarrow> arp_cache \<Rightarrow> action list \<times> arp_cache" where
  "arp_expire [] c = ([], c)"
| "arp_expire (key # keys) c =
     (let failed = (case map_of (ar_pending c) key of Some _ \<Rightarrow> [Failed ''ARP timeout''] | None \<Rightarrow> []);
          (actions, c') = arp_expire keys (arp_forget key c) in
      (failed @ actions, c'))"

definition arp_tick :: "nat \<Rightarrow> arp_cache \<Rightarrow> action list \<times> arp_cache" where
  "arp_tick now_ms c =
     arp_expire (map fst (filter (\<lambda>(_, entry). 60000 \<le> now_ms - ae_inserted_at entry) (sort_key fst (ar_entries c)))) c"

definition arp_get_mac :: "ipv4_addr \<Rightarrow> arp_cache \<Rightarrow> mac_addr option" where
  "arp_get_mac ip c = map_option ae_mac (map_of (ar_entries c) (ipv4_to_u32 ip))"

subsection \<open>Resolution\<close>

text \<open>The states a cache can be in: addresses of the right length, one entry per address.\<close>

definition arp_wf :: "arp_cache \<Rightarrow> bool" where
  "arp_wf c \<longleftrightarrow> length (ar_our_mac c) = 6 \<and> length (ar_our_ip c) = 4
     \<and> distinct (map fst (ar_entries c)) \<and> distinct (map fst (ar_pending c))"

lemma arp_new_wf: "length m = 6 \<Longrightarrow> length ip = 4 \<Longrightarrow> arp_wf (arp_cache_new m ip)"
  by (simp add: arp_wf_def arp_cache_new_def)

lemma handle_request:
  assumes "length sha = 6" "length spa = 4" "length tpa = 4"
  shows "arp_handle_packet (with_payload (arp_request sha spa tpa) (eth_builder mac_broadcast sha 0x0806)) now c
    = Inr (if tpa = ar_our_ip c then [Send (arp_answer sha spa c)] else [], c)"
proof -
  have "length mac_broadcast = 6" by (simp add: mac_broadcast_def)
  from eth_fields[OF this assms(1), where ty = "0x0806" and p = "arp_request sha spa tpa"] arp_fields[OF assms]
  show ?thesis by (simp add: arp_handle_packet_def arp_handle_def)
qed

lemma handle_reply:
  assumes "length sha = 6" "length spa = 4" "length tha = 6" "length tpa = 4"
  shows "arp_handle_packet (with_payload (arp_reply sha spa tha tpa) (eth_builder tha sha 0x0806)) now c
    = Inr ([], arp_learn sha spa now c)"
  using eth_fields[OF assms(3,1), where ty = "0x0806" and p = "arp_reply sha spa tha tpa"] arp_reply_fields[OF assms]
  by (simp add: arp_handle_packet_def arp_handle_def)

lemma resolve_unknown:
  assumes "map_of (ar_entries c) (ipv4_to_u32 ip) = None"
  shows "\<exists>c1. arp_resolve ip packet now c = ([Send (arp_request_frame ip c)], c1)
    \<and> ar_our_mac c1 = ar_our_mac c \<and> ar_our_ip c1 = ar_our_ip c \<and> arp_get_mac ip c1 = Some mac_zero"
  using assms
  by (simp add: arp_resolve_def arp_await_def Let_def arp_get_mac_def arp_enqueue_def arp_request_frame_def update_conv')

text \<open>
  Address resolution works end to end: resolving an unknown address broadcasts one request;
  the host owning the address answers it, and with nothing else, whatever is in its cache; and
  when the answer arrives, the address resolves to that host's MAC and packets for it are no longer
  held back.  Until then a lookup of the address yields the all-zero MAC, not a miss.
\<close>

theorem arp_exchange_resolves:
  assumes "arp_wf a" and "arp_wf b" and "map_of (ar_entries a) (ipv4_to_u32 (ar_our_ip b)) = None"
  shows "\<exists>frame answer a1 a2.
    arp_resolve (ar_our_ip b) packet t0 a = ([Send frame], a1) \<and> arp_get_mac (ar_our_ip b) a1 = Some mac_zero
    \<and> arp_handle_packet frame t1 b = Inr ([Send answer], b)
    \<and> arp_handle_packet answer t2 a1 = Inr ([], a2) \<and> arp_get_mac (ar_our_ip b) a2 = Some (ar_our_mac b)
    \<and> map_of (ar_pending a2) (ipv4_to_u32 (ar_our_ip b)) = None"
proof -
  from resolve_unknown[OF assms(3), of packet t0] obtain a1 where r:
    "arp_resolve (ar_our_ip b) packet t0 a = ([Send (arp_request_frame (ar_our_ip b) a)], a1)"
    "arp_get_mac (ar_our_ip b) a1 = Some mac_zero" by blast
  have "arp_handle_packet (arp_request_frame (ar_our_ip b) a) t1 b
      = Inr ([Send (arp_answer (ar_our_mac a) (ar_our_ip a) b)], b)"
    using handle_request[of "ar_our_mac a" "ar_our_ip a" "ar_our_ip b"] assms(1,2)
    by (simp add: arp_request_frame_def arp_wf_def)
  moreover have "arp_handle_packet (arp_answer (ar_our_mac a) (ar_our_ip a) b) t2 a1
      = Inr ([], arp_learn (ar_our_mac b) (ar_our_ip b) t2 a1)"
    using handle_reply[of "ar_our_mac b" "ar_our_ip b" "ar_our_mac a" "ar_our_ip a"] assms(1,2)
    by (simp add: arp_answer_def arp_wf_def)
  ultimately show ?thesis using r
    by (auto simp: arp_learn_def arp_get_mac_def update_conv' delete_conv')
qed

definition demo_host :: "u8 \<Rightarrow> arp_cache" where
  "demo_host n = arp_cache_new [2, 0, 0, 0, 0, n] [10, 0, 0, n]"

theorem arp_exchange_resolves_witness:
  "\<exists>a1 frame. arp_resolve [10, 0, 0, 2] [1] 0 (demo_host 1) = ([Send frame], a1)
    \<and> (\<exists>answer. arp_handle_packet frame 1 (demo_host 2) = Inr ([Send answer], demo_host 2))"
proof -
  have "arp_wf (demo_host 1)" "arp_wf (demo_host 2)"
    and "map_of (ar_entries (demo_host 1)) (ipv4_to_u32 (ar_our_ip (demo_host 2))) = None"
    by (simp_all add: demo_host_def arp_new_wf) (simp add: arp_cache_new_def)
  from arp_exchange_resolves[OF this, of "[1]" 0 1 2] show ?thesis
    by (auto simp: demo_host_def arp_cache_new_def)
qed

text \<open>
  The packets queued for an address are discarded by the answer that resolves it: no action sends
  them.  The comment in the code leaves this to the caller, who is not handed them.
\<close>

lemma arp_reply_drops_queue:
  assumes "length sha = 6" "length spa = 4" "arp_wf c" "map_of (ar_pending c) (ipv4_to_u32 spa) = Some queue"
  shows "\<exists>c'. arp_handle_packet (with_payload (arp_reply sha spa (ar_our_mac c) (ar_our_ip c))
      (eth_builder (ar_our_mac c) sha 0x0806)) now c = Inr ([], c') \<and> map_of (ar_pending c') (ipv4_to_u32 spa) = None"
  using handle_reply[of sha spa "ar_our_mac c" "ar_our_ip c"] assms
  by (auto simp: arp_wf_def arp_learn_def delete_conv')

end
