(* ===== verification/Dhcp_Client.thy ===== *)
theory Dhcp_Client
  imports Arp_Cache
begin

text \<open>
  The DHCP client of \<open>crates/otter-netlogic/src/lib.rs\<close> (\<open>DhcpClient\<close>): a state machine driven by
  \<open>tick\<close> and by the DHCP payloads that arrive.  Times and leases are milliseconds in a \<open>u32\<close>,
  whose products panic on overflow.
\<close>

datatype dhcp_state = Init | Selecting | Requesting | Bound | Renewing | Rebinding

record dhcp_client =
  dc_state :: dhcp_state
  dc_our_mac :: mac_addr
  dc_xid :: nat
  dc_ip :: ipv4_addr
  dc_mask :: ipv4_addr
  dc_router :: ipv4_addr
  dc_dns :: ipv4_addr
  dc_lease_ms :: nat
  dc_state_entered_at :: nat
  dc_last_discover_at :: nat
  dc_last_request_at :: nat
  dc_discover_count :: nat
  dc_request_count :: nat
  dc_server_id :: "ipv4_addr option"
  dc_offered_ip :: "ipv4_addr option"

definition dhcp_client_new :: "mac_addr \<Rightarrow> nat \<Rightarrow> dhcp_client" where
  "dhcp_client_new our_mac xid = \<lparr>dc_state = Init, dc_our_mac = our_mac, dc_xid = xid, dc_ip = ipv4_zeros,
     dc_mask = ipv4_zeros, dc_router = ipv4_zeros, dc_dns = ipv4_zeros, dc_lease_ms = 3600000,
     dc_state_entered_at = 0, dc_last_discover_at = 0, dc_last_request_at = 0, dc_discover_count = 0,
     dc_request_count = 0, dc_server_id = None, dc_offered_ip = None\<rparr>"

definition mul_u32 :: "nat \<Rightarrow> nat \<Rightarrow> nat checked" where
  "mul_u32 a b = (if a * b < 2 ^ 32 then Inr (a * b) else Inl Arith_overflow)"

subsection \<open>Messages\<close>

definition dhcp_frame :: "ipv4_addr \<Rightarrow> mac_addr \<Rightarrow> bytes \<Rightarrow> bytes checked" where
  "dhcp_frame src our_mac dhcp =
     and_then (udp_build src ipv4_broadcast (with_payload dhcp (udp_builder 68 67))) (\<lambda>udp.
     and_then (ipv4_build (with_payload udp (ipv4_builder src ipv4_broadcast 17))) (\<lambda>ipv4.
     Inr (with_payload ipv4 (eth_builder mac_broadcast our_mac 0x0800))))"

definition build_discover :: "dhcp_client \<Rightarrow> bytes checked" where
  "build_discover c =
     dhcp_frame ipv4_zeros (dc_our_mac c) (with_end (with_message_type 1 (dhcp_builder (dc_xid c) (dc_our_mac c))))"

definition request_message :: "dhcp_client \<Rightarrow> bytes" where
  "request_message c =
     (let b0 = with_message_type 3 (dhcp_builder (dc_xid c) (dc_our_mac c));
          b1 = (case dc_offered_ip c of Some ip \<Rightarrow> with_requested_ip ip b0 | None \<Rightarrow> b0);
          b2 = (case dc_server_id c of Some server_id \<Rightarrow> with_server_id server_id b1 | None \<Rightarrow> b1) in
      with_end b2)"

definition build_request :: "dhcp_client \<Rightarrow> bytes checked" where
  "build_request c = dhcp_frame (dc_ip c) (dc_our_mac c) (request_message c)"

subsection \<open>Options\<close>

text \<open>\<open>Ipv4Addr::from_bytes(&options[offset + 2..offset + 6]).ok()\<close> behind its tests.\<close>

definition take_addr :: "bool \<Rightarrow> bytes \<Rightarrow> ipv4_addr option" where
  "take_addr good value = (if good \<and> 4 \<le> length value then Some (take 4 value) else None)"

definition extract_server_id :: "bytes \<Rightarrow> ipv4_addr option" where
  "extract_server_id = find_option (\<lambda>tag len value. take_addr (tag = 54 \<and> len = 4) value)"

definition extract_subnet_mask :: "bytes \<Rightarrow> ipv4_addr option" where
  "extract_subnet_mask = find_option (\<lambda>tag len value. take_addr (tag = 1 \<and> len = 4) value)"

definition extract_router :: "bytes \<Rightarrow> ipv4_addr option" where
  "extract_router = find_option (\<lambda>tag len value. take_addr (tag = 3 \<and> 4 \<le> len) value)"

definition extract_dns :: "bytes \<Rightarrow> ipv4_addr option" where
  "extract_dns = find_option (\<lambda>tag len value. take_addr (tag = 6 \<and> 4 \<le> len) value)"

definition extract_lease :: "bytes \<Rightarrow> nat option checked" where
  "extract_lease options =
     (case find_option (\<lambda>tag len value. take_addr (tag = 51 \<and> len = 4) value) options of
        None \<Rightarrow> Inr None
      | Some secs \<Rightarrow> and_then (mul_u32 (be_bytes secs) 1000) (\<lambda>ms. Inr (Some ms)))"

fun unwrap_or :: "'a option \<Rightarrow> 'a \<Rightarrow> 'a" where
  "unwrap_or None d = d"
| "unwrap_or (Some x) d = x"

text \<open>The configuration both an OFFER and an ACK set.\<close>

definition take_config :: "ipv4_addr \<Rightarrow> bytes \<Rightarrow> dhcp_client \<Rightarrow> dhcp_client checked" where
  "take_config yiaddr options c =
     and_then (extract_lease options) (\<lambda>lease.
       Inr (c\<lparr>dc_ip := yiaddr,
              dc_mask := unwrap_or (extract_subnet_mask options) [255, 255, 255, 0],
              dc_router := unwrap_or (extract_router options) ipv4_zeros,
              dc_dns := unwrap_or (extract_dns options) ipv4_zeros,
              dc_lease_ms := unwrap_or lease 3600000\<rparr>))"

subsection \<open>\<open>tick\<close>\<close>

type_synonym dhcp_step = "(action list \<times> dhcp_client) checked"

definition send_request :: "dhcp_client \<Rightarrow> dhcp_step" where
  "send_request c = and_then (build_request c) (\<lambda>request. Inr ([Send request], c))"

definition enter :: "dhcp_state \<Rightarrow> nat \<Rightarrow> dhcp_client \<Rightarrow> dhcp_client" where
  "enter st now_ms c = c\<lparr>dc_state := st, dc_state_entered_at := now_ms\<rparr>"

definition enter_requesting :: "dhcp_state \<Rightarrow> nat \<Rightarrow> dhcp_client \<Rightarrow> dhcp_client" where
  "enter_requesting st now_ms c = (enter st now_ms c)\<lparr>dc_request_count := 0, dc_last_request_at := now_ms\<rparr>"

definition retry_request :: "nat \<Rightarrow> dhcp_client \<Rightarrow> dhcp_step" where
  "retry_request now_ms c = send_request (c\<lparr>dc_request_count := dc_request_count c + 1, dc_last_request_at := now_ms\<rparr>)"

definition dhcp_tick :: "nat \<Rightarrow> dhcp_client \<Rightarrow> dhcp_step" where
  "dhcp_tick now_ms c =
     (case dc_state c of
        Init \<Rightarrow>
          (let c1 = (enter Selecting now_ms c)\<lparr>dc_discover_count := 0, dc_last_discover_at := now_ms\<rparr> in
           and_then (build_discover c1) (\<lambda>discover. Inr ([Send discover], c1)))
      | Selecting \<Rightarrow>
          (let elapsed = now_ms - dc_state_entered_at c;
               next_time = (if dc_discover_count c = 0 then Some 4000 else if dc_discover_count c = 1 then Some 8000
                 else if dc_discover_count c = 2 then Some 16000 else None) in
           case next_time of
             None \<Rightarrow> Inr ([Failed ''DHCP timeout''], c)
           | Some limit \<Rightarrow>
               if limit \<le> elapsed then
                 (let c1 = c\<lparr>dc_discover_count := dc_discover_count c + 1, dc_state_entered_at := now_ms\<rparr> in
                  and_then (build_discover c1) (\<lambda>discover. Inr ([Send discover], c1)))
               else Inr ([], c))
      | Requesting \<Rightarrow>
          (let elapsed = now_ms - dc_last_request_at c in
           if 1000 \<le> elapsed \<and> dc_request_count c < 3 then retry_request now_ms c
           else if 3 \<le> dc_request_count c then Inr ([Failed ''DHCP REQUEST timeout''], enter Init now_ms c)
           else Inr ([], c))
      | Bound \<Rightarrow>
          (let elapsed = now_ms - dc_state_entered_at c; t1 = dc_lease_ms c div 2 in
           and_then (mul_u32 (dc_lease_ms c) 7) (\<lambda>seven.
             let t2 = seven div 8 in
             Inr ([], if t2 \<le> elapsed then enter_requesting Rebinding now_ms c
                      else if t1 \<le> elapsed then enter_requesting Renewing now_ms c else c)))
      | Renewing \<Rightarrow>
          (let elapsed = now_ms - dc_last_request_at c in
           if 1000 \<le> elapsed \<and> dc_request_count c < 3 then retry_request now_ms c
           else if 3 \<le> dc_request_count c then Inr ([], enter_requesting Rebinding now_ms c)
           else Inr ([], c))
      | Rebinding \<Rightarrow>
          (let elapsed = now_ms - dc_state_entered_at c; remaining = dc_lease_ms c - elapsed in
           if remaining \<le> 0 then Inr ([], (enter Init now_ms c)\<lparr>dc_discover_count := 0\<rparr>)
           else if 1000 \<le> elapsed \<and> dc_request_count c < 3 then retry_request now_ms c
           else Inr ([], c)))"

subsection \<open>\<open>handle_packet\<close>\<close>

definition on_offer :: "bytes \<Rightarrow> nat \<Rightarrow> dhcp_client \<Rightarrow> dhcp_step" where
  "on_offer pkt now_ms c =
     and_then (dhcp_yiaddr pkt) (\<lambda>yiaddr. case yiaddr of Inl _ \<Rightarrow> Inr ([], c) | Inr yiaddr \<Rightarrow>
       (case extract_server_id (dhcp_options pkt) of None \<Rightarrow> Inr ([], c) | Some server_id \<Rightarrow>
         and_then (take_config yiaddr (dhcp_options pkt)
             (c\<lparr>dc_offered_ip := Some yiaddr, dc_server_id := Some server_id\<rparr>)) (\<lambda>c1.
           send_request (enter_requesting Requesting now_ms c1))))"

definition on_ack :: "bytes \<Rightarrow> nat \<Rightarrow> dhcp_client \<Rightarrow> dhcp_step" where
  "on_ack pkt now_ms c =
     and_then (dhcp_yiaddr pkt) (\<lambda>yiaddr. case yiaddr of Inl _ \<Rightarrow> Inr ([], c) | Inr yiaddr \<Rightarrow>
       and_then (take_config yiaddr (dhcp_options pkt) c) (\<lambda>c1.
         let c2 = enter Bound now_ms c1 in
         Inr ([Configured (dc_ip c2) (dc_mask c2) (dc_router c2) (dc_dns c2) (dc_lease_ms c2)], c2)))"

definition dhcp_dispatch :: "bytes \<Rightarrow> nat \<Rightarrow> dhcp_client \<Rightarrow> dhcp_step" where
  "dhcp_dispatch pkt now_ms c =
     (let msg_type = dhcp_message_type pkt in
      case dc_state c of
        Selecting \<Rightarrow> if msg_type = Some 2 then on_offer pkt now_ms c else Inr ([], c)
      | Init \<Rightarrow> Inr ([], c)
      | Bound \<Rightarrow> Inr ([], c)
      | _ \<Rightarrow>
          if msg_type = Some 5 then on_ack pkt now_ms c
          else if msg_type = Some 6 then Inr ([], (enter Init now_ms c)\<lparr>dc_discover_count := 0\<rparr>)
          else Inr ([], c))"

definition dhcp_handle_packet :: "bytes \<Rightarrow> nat \<Rightarrow> dhcp_client \<Rightarrow> dhcp_step" where
  "dhcp_handle_packet data now_ms c =
     (case dhcp_new data of Inl _ \<Rightarrow> Inr ([], c) | Inr pkt \<Rightarrow>
       and_then (dhcp_xid pkt) (\<lambda>xid. if xid \<noteq> dc_xid c then Inr ([], c) else
       and_then (dhcp_opcode pkt) (\<lambda>opcode. if opcode \<noteq> 2 then Inr ([], c) else
       and_then (dhcp_chaddr pkt) (\<lambda>chaddr.
         if (case chaddr of Inr m \<Rightarrow> m \<noteq> dc_our_mac c | Inl _ \<Rightarrow> False) then Inr ([], c)
         else dhcp_dispatch pkt now_ms c))))"

subsection \<open>The frames a client sends\<close>

lemma udp_packet_length: "length (udp_packet a b n cs p) = 8 + length p"
  by (simp add: udp_packet_def)

text \<open>A frame carries its message: every layer parses back and both checksums verify.\<close>

definition carries_dhcp :: "bytes \<Rightarrow> ipv4_addr \<Rightarrow> mac_addr \<Rightarrow> bytes \<Rightarrow> bool" where
  "carries_dhcp frame src our_mac dhcp \<longleftrightarrow>
     eth_new frame = Inr frame \<and> eth_dst frame = Inr (Inr mac_broadcast) \<and> eth_src frame = Inr (Inr our_mac)
     \<and> eth_ethertype frame = Inr 0x0800
     \<and> (\<exists>ip. ipv4_new (eth_payload frame) = Inr (Inr ip) \<and> ipv4_src ip = Inr (Inr src)
         \<and> ipv4_dst ip = Inr (Inr ipv4_broadcast) \<and> ipv4_protocol ip = Inr 17 \<and> ipv4_verify_checksum ip = Inr True
         \<and> (\<exists>udp seg. ipv4_payload ip = Inr seg \<and> udp_new seg = Inr (Inr udp) \<and> udp_src_port udp = Inr 68
             \<and> udp_dst_port udp = Inr 67 \<and> udp_verify_checksum src ipv4_broadcast udp = Inr True
             \<and> udp_payload udp = dhcp))"

lemma dhcp_frame_carries:
  assumes "length src = 4" "length our_mac = 6" "length dhcp < 60000"
  shows "\<exists>frame. dhcp_frame src our_mac dhcp = Inr frame \<and> carries_dhcp frame src our_mac dhcp"
proof -
  have b: "length ipv4_broadcast = 4" "length mac_broadcast = 6"
    by (simp_all add: ipv4_broadcast_def mac_broadcast_def)
  have fit: "8 + length dhcp < 65536" using assms(3) by simp
  from udp_build_packet[OF assms(1) b(1) fit, of 68 67] obtain cs where
    u: "udp_build src ipv4_broadcast (with_payload dhcp (udp_builder 68 67)) = Inr (udp_packet 68 67 (8 + length dhcp) cs dhcp)"
    by blast
  define udp where "udp = udp_packet 68 67 (8 + length dhcp) cs dhcp"
  have ul: "20 + length udp < 65536" using assms(3) by (simp add: udp_def udp_packet_length)
  from udp_parses_back[OF assms(1) b(1) fit, of 68 67 "[]"] u have up: "udp_new udp = Inr (Inr udp)"
    "udp_src_port udp = Inr 68" "udp_dst_port udp = Inr 67" "udp_payload udp = dhcp"
    "udp_verify_checksum src ipv4_broadcast udp = Inr True" by (auto simp: udp_def)
  from ipv4_parses_back[OF assms(1) b(1) ul, of 17 "[]"] obtain ip where
    ip: "ipv4_build (with_payload udp (ipv4_builder src ipv4_broadcast 17)) = Inr ip" "ipv4_new ip = Inr (Inr ip)"
    "ipv4_src ip = Inr (Inr src)" "ipv4_dst ip = Inr (Inr ipv4_broadcast)" "ipv4_protocol ip = Inr 17"
    "ipv4_payload ip = Inr udp" "ipv4_verify_checksum ip = Inr True" by auto
  show ?thesis
    using eth_fields[OF b(2) assms(2), where ty = "0x0800" and p = ip] u ip up
    by (simp add: dhcp_frame_def carries_dhcp_def udp_def[symmetric])
qed

definition client_wf :: "dhcp_client \<Rightarrow> bool" where
  "client_wf c \<longleftrightarrow> length (dc_our_mac c) = 6 \<and> length (dc_ip c) = 4 \<and> dc_xid c < 2 ^ 32
     \<and> (\<forall>ip. dc_offered_ip c = Some ip \<longrightarrow> length ip = 4) \<and> (\<forall>ip. dc_server_id c = Some ip \<longrightarrow> length ip = 4)"

lemma length_dhcp_builder: "length m = 6 \<Longrightarrow> length (dhcp_builder x m) = 240"
  by (simp add: dhcp_builder_def ipv4_zeros_def)

lemma request_message_length: "client_wf c \<Longrightarrow> length (request_message c) < 60000"
  by (simp add: request_message_def client_wf_def with_end_def with_server_id_def with_requested_ip_def
      with_message_type_def length_dhcp_builder Let_def split: option.split)

lemma build_request_carries:
  "client_wf c \<Longrightarrow> \<exists>frame. build_request c = Inr frame \<and> carries_dhcp frame (dc_ip c) (dc_our_mac c) (request_message c)"
  using dhcp_frame_carries[of "dc_ip c" "dc_our_mac c" "request_message c"] request_message_length[of c]
  by (simp add: build_request_def client_wf_def)

definition discover_message :: "dhcp_client \<Rightarrow> bytes" where
  "discover_message c = with_end (with_message_type 1 (dhcp_builder (dc_xid c) (dc_our_mac c)))"

lemma build_discover_carries:
  assumes "client_wf c"
  shows "\<exists>frame. build_discover c = Inr frame \<and> carries_dhcp frame ipv4_zeros (dc_our_mac c) (discover_message c)"
  using assms dhcp_frame_carries[of ipv4_zeros "dc_our_mac c" "discover_message c"]
  by (simp add: build_discover_def discover_message_def client_wf_def with_end_def with_message_type_def
      length_dhcp_builder ipv4_zeros_def)

text \<open>The fields of a client's message, read back by the accessors.\<close>

lemma message_fields:
  assumes "length m = 6" "x < 2 ^ 32"
  shows "dhcp_new (dhcp_builder x m @ r) = Inr (dhcp_builder x m @ r)"
    and "dhcp_xid (dhcp_builder x m @ r) = Inr x" and "dhcp_chaddr (dhcp_builder x m @ r) = Inr (Inr m)"
    and "dhcp_options (dhcp_builder x m @ r) = r"
proof -
  note L = length_dhcp_builder[OF assms(1), of x]
  show "dhcp_new (dhcp_builder x m @ r) = Inr (dhcp_builder x m @ r)"
    "dhcp_options (dhcp_builder x m @ r) = r" using L by (simp_all add: dhcp_new_def dhcp_options_def)
  have "take 4 (drop 4 (dhcp_builder x m @ r)) = to_be 4 x" by (simp add: dhcp_builder_def)
  then show "dhcp_xid (dhcp_builder x m @ r) = Inr x" using L assms(2) by (simp add: dhcp_xid_def)
  have "take 6 (drop 28 (dhcp_builder x m @ r)) = m" using assms(1) by (simp add: dhcp_builder_def ipv4_zeros_def)
  then show "dhcp_chaddr (dhcp_builder x m @ r) = Inr (Inr m)"
    using L assms(1) by (simp add: dhcp_chaddr_def mac_at_def mac_from_bytes_def)
qed

subsection \<open>The exchange\<close>

text \<open>Packets the client looks at: replies to its own transaction and hardware address.\<close>

definition for_client :: "dhcp_client \<Rightarrow> bytes \<Rightarrow> bool" where
  "for_client c pkt \<longleftrightarrow> 240 \<le> length pkt \<and> dhcp_xid pkt = Inr (dc_xid c) \<and> dhcp_opcode pkt = Inr 2
     \<and> dhcp_chaddr pkt = Inr (Inr (dc_our_mac c))"

lemma handle_for_client: "for_client c pkt \<Longrightarrow> dhcp_handle_packet pkt now c = dhcp_dispatch pkt now c"
  by (simp add: for_client_def dhcp_handle_packet_def dhcp_new_def)

lemma handle_not_for_client: "\<not> for_client c pkt \<Longrightarrow> dhcp_handle_packet pkt now c = Inr ([], c)"
proof (cases "length pkt < 240")
  case False
  then have "index_at pkt 0 = Inr (pkt ! 0)" by (intro index_at_ok) linarith
  moreover assume "\<not> for_client c pkt"
  ultimately show ?thesis using False
    by (auto simp: for_client_def dhcp_handle_packet_def dhcp_new_def dhcp_xid_def dhcp_opcode_def dhcp_chaddr_def
        mac_at_def mac_from_bytes_def)
qed (simp add: dhcp_handle_packet_def dhcp_new_def)

definition awaits_ack :: "dhcp_client \<Rightarrow> bool" where
  "awaits_ack c \<longleftrightarrow> dc_state c = Requesting \<or> dc_state c = Renewing \<or> dc_state c = Rebinding"

lemma dispatch_awaiting:
  "awaits_ack c \<Longrightarrow> dhcp_dispatch pkt now c = (if dhcp_message_type pkt = Some 5 then on_ack pkt now c
    else if dhcp_message_type pkt = Some 6 then Inr ([], (enter Init now c)\<lparr>dc_discover_count := 0\<rparr>) else Inr ([], c))"
  by (auto simp: awaits_ack_def dhcp_dispatch_def Let_def)

lemma on_offer_result:
  assumes "on_offer pkt now c = Inr (actions, c')"
  shows "actions = [] \<and> c' = c \<or> dc_state c' = Requesting
    \<and> dc_server_id c' = extract_server_id (dhcp_options pkt) \<and> dc_server_id c' \<noteq> None"
proof -
  obtain y where y: "dhcp_yiaddr pkt = Inr y" using assms by (cases "dhcp_yiaddr pkt") (auto simp: on_offer_def)
  show ?thesis
  proof (cases y)
    case (Inr ip)
    then show ?thesis using assms y
      by (cases "extract_server_id (dhcp_options pkt)")
        (auto simp: on_offer_def take_config_def send_request_def enter_requesting_def enter_def checked_simps)
  qed (use assms y in \<open>simp add: on_offer_def\<close>)
qed

lemma on_ack_result:
  assumes "on_ack pkt now c = Inr (actions, c')"
  shows "actions = [] \<and> c' = c \<or> dc_state c' = Bound
    \<and> actions = [Configured (dc_ip c') (dc_mask c') (dc_router c') (dc_dns c') (dc_lease_ms c')]"
proof -
  obtain y where y: "dhcp_yiaddr pkt = Inr y" using assms by (cases "dhcp_yiaddr pkt") (auto simp: on_ack_def)
  show ?thesis
  proof (cases y)
    case (Inr ip)
    then show ?thesis using assms y
      by (auto simp: on_ack_def take_config_def enter_def checked_simps Let_def)
  qed (use assms y in \<open>simp add: on_ack_def\<close>)
qed

text \<open>
  C25. A client is moved only by replies to itself.  A packet that changes its state or makes it act
  is at least 240 bytes long, carries its transaction id, is a BOOTREPLY to its MAC address, and is
  an OFFER naming a server while it is selecting (it then requests), an ACK while it waits for one
  (it is then bound and reports the configuration it took), or a NAK (it starts over).
\<close>

theorem dhcp_moved_only_by_own_replies:
  assumes "dhcp_handle_packet pkt now c = Inr (actions, c')" and "actions \<noteq> [] \<or> c' \<noteq> c"
  shows "for_client c pkt
    \<and> (dc_state c = Selecting \<and> dhcp_message_type pkt = Some 2 \<and> dc_state c' = Requesting
         \<and> dc_server_id c' = extract_server_id (dhcp_options pkt) \<and> dc_server_id c' \<noteq> None
       \<or> awaits_ack c \<and> dhcp_message_type pkt = Some 5 \<and> dc_state c' = Bound
         \<and> actions = [Configured (dc_ip c') (dc_mask c') (dc_router c') (dc_dns c') (dc_lease_ms c')]
       \<or> awaits_ack c \<and> dhcp_message_type pkt = Some 6 \<and> dc_state c' = Init \<and> actions = [])"
proof -
  have f: "for_client c pkt" using assms handle_not_for_client[of c pkt now] by auto
  then have d: "dhcp_dispatch pkt now c = Inr (actions, c')" using assms(1) handle_for_client by metis
  consider (sel) "dc_state c = Selecting" | (idle) "dc_state c = Init \<or> dc_state c = Bound" | (wait) "awaits_ack c"
    by (cases "dc_state c") (auto simp: awaits_ack_def)
  then show ?thesis
  proof cases
    case sel
    then have m: "dhcp_message_type pkt = Some 2" "on_offer pkt now c = Inr (actions, c')"
      using d assms(2) by (auto simp: dhcp_dispatch_def Let_def split: if_splits)
    then show ?thesis using sel f assms(2) on_offer_result by blast
  next
    case idle
    then show ?thesis using d assms(2) by (auto simp: dhcp_dispatch_def Let_def)
  next
    case wait
    note dw = d[unfolded dispatch_awaiting[OF wait]]
    consider (ack) "dhcp_message_type pkt = Some 5" | (nak) "dhcp_message_type pkt = Some 6"
      using dw assms(2) by (cases "dhcp_message_type pkt = Some 5"; cases "dhcp_message_type pkt = Some 6") auto
    then show ?thesis
    proof cases
      case ack
      then show ?thesis using wait f dw assms(2) on_ack_result[of pkt now c actions c'] by auto
    next
      case nak
      then show ?thesis using wait f dw by (auto simp: enter_def)
    qed
  qed
qed

text \<open>
  The discovery of a fresh client is well-formed through every layer: its first tick sends one
  Ethernet broadcast holding an IPv4 packet from 0.0.0.0 to 255.255.255.255 with a verifying
  checksum, holding a UDP datagram from port 68 to 67 with a verifying checksum, holding a DHCP
  message with the client's transaction id and MAC address and message type DISCOVER.
\<close>

theorem dhcp_discover_wellformed:
  assumes "length m = 6" and "x < 2 ^ 32"
  shows "\<exists>frame msg c. dhcp_tick t (dhcp_client_new m x) = Inr ([Send frame], c) \<and> dc_state c = Selecting
    \<and> carries_dhcp frame ipv4_zeros m msg \<and> dhcp_new msg = Inr msg \<and> dhcp_xid msg = Inr x
    \<and> dhcp_chaddr msg = Inr (Inr m) \<and> dhcp_message_type msg = Some 1"
proof -
  let ?c = "(enter Selecting t (dhcp_client_new m x))\<lparr>dc_discover_count := 0, dc_last_discover_at := t\<rparr>"
  have "client_wf ?c" using assms by (simp add: client_wf_def enter_def dhcp_client_new_def ipv4_zeros_def)
  from build_discover_carries[OF this] obtain frame where
    f: "build_discover ?c = Inr frame" "carries_dhcp frame ipv4_zeros m (discover_message ?c)"
    by (auto simp: enter_def dhcp_client_new_def)
  have "discover_message ?c = dhcp_builder x m @ [53, 1, 1, 255]"
    by (simp add: discover_message_def with_end_def with_message_type_def enter_def dhcp_client_new_def)
  moreover have "dhcp_message_type (dhcp_builder x m @ [53, 1, 1, 255]) = Some 1"
    by (simp add: dhcp_message_type_def message_fields[OF assms])
  moreover have "dc_state (dhcp_client_new m x) = Init" by (simp add: dhcp_client_new_def)
  ultimately show ?thesis
    using f message_fields[OF assms, of "[53, 1, 1, 255]"]
    by (intro exI[of _ frame] exI[of _ "discover_message ?c"] exI[of _ ?c])
      (simp add: dhcp_tick_def Let_def, simp add: enter_def)
qed

theorem dhcp_discover_wellformed_witness:
  "\<exists>frame c. dhcp_tick 0 (dhcp_client_new [2, 0, 0, 0, 0, 1] 7) = Inr ([Send frame], c) \<and> dc_state c = Selecting"
  using dhcp_discover_wellformed[of "[2, 0, 0, 0, 0, 1]" 7 0] by auto

text \<open>A client that requests, and the replies of a server: \<open>reply\<close> builds a BOOTREPLY with the options given.\<close>

definition reply :: "nat \<Rightarrow> mac_addr \<Rightarrow> ipv4_addr \<Rightarrow> bytes \<Rightarrow> bytes" where
  "reply x m yiaddr options = [2, 1, 6, 0] @ to_be 4 x @ replicate 8 0 @ yiaddr @ replicate 8 0 @ m
     @ replicate 206 0 @ options"

definition demo_client :: dhcp_client where
  "demo_client = (dhcp_client_new [2, 0, 0, 0, 0, 1] 7)\<lparr>dc_state := Requesting\<rparr>"

lemma demo_awaits: "awaits_ack demo_client"
  by (simp add: awaits_ack_def demo_client_def)

lemma demo_reply_for_client:
  "for_client demo_client (reply 7 [2, 0, 0, 0, 0, 1] [10, 0, 2, 15] options)"
  "dhcp_options (reply 7 [2, 0, 0, 0, 0, 1] [10, 0, 2, 15] options) = options"
  "dhcp_yiaddr (reply 7 [2, 0, 0, 0, 0, 1] [10, 0, 2, 15] options) = Inr (Inr [10, 0, 2, 15])"
proof -
  have b: "take 4 (drop 4 (reply 7 [2, 0, 0, 0, 0, 1] [10, 0, 2, 15] options)) = to_be 4 7" by (simp add: reply_def)
  show "for_client demo_client (reply 7 [2, 0, 0, 0, 0, 1] [10, 0, 2, 15] options)"
    using b by (simp add: for_client_def dhcp_xid_def dhcp_opcode_def dhcp_chaddr_def mac_at_def mac_from_bytes_def
        demo_client_def dhcp_client_new_def) (simp add: reply_def)
qed (simp_all add: dhcp_options_def reply_def dhcp_yiaddr_def ipv4_at_def ipv4_from_bytes_def)

theorem dhcp_moved_only_by_own_replies_witness:
  "\<exists>c'. dhcp_handle_packet (reply 7 [2, 0, 0, 0, 0, 1] [10, 0, 2, 15] [53, 1, 6, 255]) 5 demo_client = Inr ([], c')
    \<and> dc_state c' = Init"
proof -
  let ?p = "reply 7 [2, 0, 0, 0, 0, 1] [10, 0, 2, 15] [53, 1, 6, 255]"
  let ?c = "(enter Init 5 demo_client)\<lparr>dc_discover_count := 0\<rparr>"
  have t: "dhcp_message_type ?p = Some 6" by (simp add: dhcp_message_type_def demo_reply_for_client)
  have h: "dhcp_handle_packet ?p 5 demo_client = Inr ([], ?c)"
    using t demo_reply_for_client(1) by (simp add: handle_for_client dispatch_awaiting demo_awaits)
  have "?c \<noteq> demo_client" by (simp add: enter_def demo_client_def dhcp_client_new_def)
  with dhcp_moved_only_by_own_replies[OF h] h t show ?thesis by auto
qed

subsection \<open>Leases\<close>

text \<open>
  A lease of 613567 seconds or more (a little over seven days) brings the kernel down: the ACK
  that grants it overflows the conversion to milliseconds, or is accepted and then the next tick
  overflows the computation of the rebinding time.
\<close>

theorem dhcp_long_lease_panics:
  assumes "for_client c pkt" and "awaits_ack c" and "dhcp_message_type pkt = Some 5"
    and "dhcp_yiaddr pkt = Inr (Inr ip)"
    and "find_option (\<lambda>tag len value. take_addr (tag = 51 \<and> len = 4) value) (dhcp_options pkt) = Some secs"
    and "613567 \<le> be_bytes secs"
  shows "dhcp_handle_packet pkt now c = Inl Arith_overflow
    \<or> (\<exists>actions c'. dhcp_handle_packet pkt now c = Inr (actions, c') \<and> dhcp_tick t c' = Inl Arith_overflow)"
proof -
  have h: "dhcp_handle_packet pkt now c = on_ack pkt now c"
    using assms(1-3) by (simp add: handle_for_client dispatch_awaiting)
  show ?thesis
  proof (cases "be_bytes secs * 1000 < 2 ^ 32")
    case False
    then show ?thesis using assms(4,5)
      by (simp add: h on_ack_def take_config_def extract_lease_def mul_u32_def)
  next
    case True
    then obtain actions c' where c': "on_ack pkt now c = Inr (actions, c')" "dc_state c' = Bound"
        "dc_lease_ms c' = be_bytes secs * 1000"
      using assms(4,5) by (simp add: on_ack_def take_config_def extract_lease_def mul_u32_def enter_def Let_def)
    have "dhcp_tick t c' = Inl Arith_overflow"
      using c'(2,3) assms(6) by (simp add: dhcp_tick_def mul_u32_def Let_def)
    then show ?thesis using h c'(1) by auto
  qed
qed

theorem dhcp_long_lease_panics_witness:
  "dhcp_handle_packet (reply 7 [2, 0, 0, 0, 0, 1] [10, 0, 2, 15] [53, 1, 5, 51, 4, 255, 255, 255, 255, 255]) 5 demo_client
     = Inl Arith_overflow
   \<or> (\<exists>actions c'. dhcp_handle_packet (reply 7 [2, 0, 0, 0, 0, 1] [10, 0, 2, 15]
        [53, 1, 5, 51, 4, 255, 255, 255, 255, 255]) 5 demo_client = Inr (actions, c') \<and> dhcp_tick 6 c' = Inl Arith_overflow)"
  by (rule dhcp_long_lease_panics[where ip = "[10, 0, 2, 15]" and secs = "[255, 255, 255, 255]"])
    (simp_all add: demo_reply_for_client dhcp_message_type_def take_addr_def demo_awaits be_bytes_def)

text \<open>
  A rebinding client counts its remaining lease from the moment it began to rebind, not from the
  ACK: as long as less than a whole lease has passed since then, it keeps its address, so it holds
  the address up to seven eighths of a lease after the server's grant has run out.
\<close>

lemma rebinding_outlives_lease:
  assumes "dc_state c = Bound" "7 * dc_lease_ms c < 2 ^ 32" "7 * dc_lease_ms c div 8 \<le> t - dc_state_entered_at c"
    and "dhcp_tick t c = Inr (actions, c1)" "now - t < dc_lease_ms c" "dhcp_tick now c1 = Inr (actions', c2)"
  shows "dc_state c2 = Rebinding \<and> dc_ip c2 = dc_ip c"
proof -
  have c1: "c1 = enter_requesting Rebinding t c"
    using assms(1-4) by (simp add: dhcp_tick_def mul_u32_def Let_def mult.commute)
  then show ?thesis using assms(5,6)
    by (auto simp: dhcp_tick_def enter_requesting_def enter_def retry_request_def send_request_def checked_simps Let_def
        split: if_splits)
qed

end
