(* ===== verification/Dns_Lookup.thy ===== *)
theory Dns_Lookup
  imports Net_Proto
begin

text \<open>
  The DNS resolver of \<open>crates/otter-netlogic/src/dns.rs\<close>.  A name is its list of labels.  The loop
  that follows compression pointers need not end, so it is a \<open>partial_function\<close>: a call that never
  returns has the value \<open>None\<close>.  Every index it takes is behind the length test that precedes it.
\<close>

datatype lookup_error = InvalidName | NotFound | ServerFailure | Timeout | CnameLoop

datatype dns_step = Wait nat | Send_query bytes | Done "lookup_error + bytes"

type_synonym name_buf = "bytes list"
type_synonym 'a lookup_result = "lookup_error + 'a"

subsection \<open>Names\<close>

definition label_char :: "u8 \<Rightarrow> bool" where
  "label_char b \<longleftrightarrow> 65 \<le> b \<and> b \<le> 90 \<or> 97 \<le> b \<and> b \<le> 122 \<or> 48 \<le> b \<and> b \<le> 57 \<or> b = 95 \<or> b = 45"

definition strip_dot :: "bytes \<Rightarrow> bytes" where
  "strip_dot name = (if name \<noteq> [] \<and> last name = 46 then butlast name else name)"

fun has_double_dot :: "bytes \<Rightarrow> bool" where
  "has_double_dot (a # b # bs) \<longleftrightarrow> a = 46 \<and> b = 46 \<or> has_double_dot (b # bs)"
| "has_double_dot _ \<longleftrightarrow> False"

fun check_labels :: "bytes list \<Rightarrow> name_buf \<Rightarrow> name_buf lookup_result" where
  "check_labels [] labels = Inr labels"
| "check_labels (label # ls) labels =
     (if label = [] \<or> 63 < length label then Inl InvalidName
      else if \<not> list_all label_char label then Inl InvalidName
      else check_labels ls (labels @ [label]))"

definition name_parse :: "bytes \<Rightarrow> name_buf lookup_result" where
  "name_parse s =
     (let name = strip_dot s in
      if name = [] then Inl InvalidName
      else if 253 < length name then Inl InvalidName
      else if has_double_dot name then Inl InvalidName
      else if hd name = 46 \<or> last name = 46 then Inl InvalidName
      else (case check_labels (split_on 46 name) [] of
          Inl e \<Rightarrow> Inl e
        | Inr labels \<Rightarrow> if labels = [] then Inl InvalidName else Inr labels))"

definition name_encode :: "name_buf \<Rightarrow> bytes" where
  "name_encode labels = concat (map (\<lambda>label. word_of_nat (length label) # label) labels) @ [0]"

definition to_lower :: "u8 \<Rightarrow> u8" where
  "to_lower b = (if 65 \<le> b \<and> b \<le> 90 then b + 32 else b)"

definition names_equal :: "name_buf \<Rightarrow> name_buf \<Rightarrow> bool" where
  "names_equal a b \<longleftrightarrow> list_all2 (list_all2 (\<lambda>ca cb. to_lower ca = to_lower cb)) a b"

definition build_query :: "name_buf \<Rightarrow> nat \<Rightarrow> bytes lookup_result" where
  "build_query name qid =
     Inr (to_be 2 qid @ to_be 2 0x0100 @ to_be 2 1 @ to_be 2 0 @ to_be 2 0 @ to_be 2 0
       @ name_encode name @ to_be 2 1 @ to_be 2 1)"

subsection \<open>Compressed names\<close>

text \<open>\<open>seen[..count]\<close> of the \<open>LoopDetector\<close>: at most sixteen offsets are remembered.\<close>

definition check_and_add :: "nat \<Rightarrow> nat list \<Rightarrow> nat list lookup_result" where
  "check_and_add offset seen =
     (if offset \<in> set seen then Inl InvalidName
      else Inr (if length seen < 16 then seen @ [offset] else seen))"

definition is_pointer :: "u8 \<Rightarrow> bool" where
  "is_pointer b \<longleftrightarrow> b AND 0xC0 = 0xC0"

definition pointer_at :: "bytes \<Rightarrow> nat \<Rightarrow> nat" where
  "pointer_at msg offset = be_bytes [msg ! offset, msg ! (offset + 1)] AND 0x3FFF"

partial_function (option) name_loop ::
  "bytes \<Rightarrow> nat list \<Rightarrow> name_buf \<Rightarrow> nat option \<Rightarrow> nat \<Rightarrow> (nat \<times> name_buf) lookup_result option" where
  "name_loop msg seen labels first_next offset =
     (if length msg \<le> offset then Some (Inl InvalidName)
      else if is_pointer (msg ! offset) then
        (if length msg \<le> offset + 1 then Some (Inl InvalidName)
         else (case check_and_add (pointer_at msg offset) seen of
             Inl e \<Rightarrow> Some (Inl e)
           | Inr seen' \<Rightarrow> name_loop msg seen' labels
               (case first_next of None \<Rightarrow> Some (offset + 2) | Some n \<Rightarrow> Some n) (pointer_at msg offset)))
      else if 63 < unat (msg ! offset) then Some (Inl InvalidName)
      else if unat (msg ! offset) = 0 then
        Some (Inr (case first_next of None \<Rightarrow> offset + 1 | Some n \<Rightarrow> n, labels))
      else if length msg < offset + 1 + unat (msg ! offset) then Some (Inl InvalidName)
      else name_loop msg seen (labels @ [take (unat (msg ! offset)) (drop (offset + 1) msg)]) first_next
             (offset + 1 + unat (msg ! offset)))"

definition parse_name_at :: "bytes \<Rightarrow> nat \<Rightarrow> (nat \<times> name_buf) lookup_result option" where
  "parse_name_at msg offset = name_loop msg [] [] None offset"

subsection \<open>Responses\<close>

datatype response_action = A bytes | Cname_target name_buf | Not_found | Server_failure | Cname_loop

text \<open>One pass over the answer section: nothing for the current name, a CNAME to go on with, or a result.\<close>

datatype scan = No_record | Follow name_buf nat | Result response_action nat

definition u16_of :: "bytes \<Rightarrow> nat \<Rightarrow> nat" where
  "u16_of msg i = be_bytes [msg ! i, msg ! (i + 1)]"

fun scan_answers :: "bytes \<Rightarrow> name_buf \<Rightarrow> name_buf list \<Rightarrow> nat \<Rightarrow> nat \<Rightarrow> nat \<Rightarrow> scan lookup_result option" where
  "scan_answers msg current visited hops 0 offset = Some (Inr No_record)"
| "scan_answers msg current visited hops (Suc n) offset =
     (if length msg \<le> offset then Some (Inl InvalidName)
      else case parse_name_at msg offset of
        None \<Rightarrow> None
      | Some (Inl e) \<Rightarrow> Some (Inl e)
      | Some (Inr (off, rr_name)) \<Rightarrow>
          if length msg < off + 10 then Some (Inl InvalidName)
          else let rtype = u16_of msg off; rclass = u16_of msg (off + 2); rdlen = u16_of msg (off + 8); rd = off + 10 in
            if length msg < rd + rdlen then Some (Inl InvalidName)
            else if names_equal rr_name current \<and> rclass = 1 \<and> rtype = 1 \<and> rdlen = 4 then
              Some (Inr (Result (A (take rdlen (drop rd msg))) hops))
            else if names_equal rr_name current \<and> rclass = 1 \<and> rtype = 5 then
              (case parse_name_at msg rd of
                 None \<Rightarrow> None
               | Some (Inl e) \<Rightarrow> Some (Inl e)
               | Some (Inr (_, cname_target)) \<Rightarrow>
                   if list_ex (\<lambda>v. names_equal v cname_target) visited then Some (Inr (Result Cname_loop hops))
                   else if 8 < hops + 1 then Some (Inr (Result Cname_loop (hops + 1)))
                   else Some (Inr (Follow cname_target (hops + 1))))
            else scan_answers msg current visited hops n (rd + rdlen))"

lemma scan_follow_hops:
  "scan_answers msg current visited hops n offset = Some (Inr (Follow target h)) \<Longrightarrow> h = hops + 1 \<and> h \<le> 8"
proof (induction n arbitrary: offset)
  case (Suc n)
  then show ?case by (auto simp: Let_def split: if_splits option.splits sum.splits prod.splits)
qed simp

text \<open>The outer loop over the CNAME chain inside one response.\<close>

function follow_chain :: "bytes \<Rightarrow> nat \<Rightarrow> nat \<Rightarrow> name_buf \<Rightarrow> name_buf \<Rightarrow> name_buf list \<Rightarrow> nat
    \<Rightarrow> (response_action \<times> nat) lookup_result option" where
  "follow_chain msg ancount start expected current visited hops =
     (case scan_answers msg current visited hops ancount start of
        None \<Rightarrow> None
      | Some (Inl e) \<Rightarrow> Some (Inl e)
      | Some (Inr (Result action h)) \<Rightarrow> Some (Inr (action, h))
      | Some (Inr (Follow target h)) \<Rightarrow> follow_chain msg ancount start expected target (visited @ [target]) h
      | Some (Inr No_record) \<Rightarrow>
          Some (Inr (if names_equal current expected then Not_found else Cname_target current, hops)))"
  by pat_completeness auto

termination follow_chain
  by (relation "measure (\<lambda>(_, _, _, _, _, _, hops). 9 - hops)") (auto dest!: scan_follow_hops)

declare follow_chain.simps [simp del]

definition parse_response :: "bytes \<Rightarrow> name_buf \<Rightarrow> nat \<Rightarrow> nat \<Rightarrow> (response_action \<times> nat) lookup_result option" where
  "parse_response msg expected_name expected_id initial_hops =
     (if length msg < 12 then Some (Inl InvalidName)
      else if u16_of msg 0 \<noteq> expected_id then Some (Inl InvalidName)
      else let flags = u16_of msg 2 in
        if flags AND 0x8000 = 0 then Some (Inl InvalidName)
        else if flags AND 0x7800 \<noteq> 0 then Some (Inl InvalidName)
        else let rcode = flags AND 0x000F; tc = (flags AND 0x0200 \<noteq> 0); ancount = u16_of msg 6 in
          if u16_of msg 4 \<noteq> 1 then Some (Inl InvalidName)
          else case parse_name_at msg 12 of
            None \<Rightarrow> None
          | Some (Inl e) \<Rightarrow> Some (Inl e)
          | Some (Inr (offset, q_name)) \<Rightarrow>
              if length msg < offset + 4 then Some (Inl InvalidName)
              else if \<not> names_equal expected_name q_name then Some (Inl InvalidName)
              else if u16_of msg offset \<noteq> 1 \<or> u16_of msg (offset + 2) \<noteq> 1 then Some (Inl InvalidName)
              else if tc \<or> rcode \<noteq> 0 \<and> rcode \<noteq> 3 then Some (Inr (Server_failure, initial_hops))
              else if rcode = 3 then Some (Inr (Not_found, initial_hops))
              else follow_chain msg ancount (offset + 4) expected_name expected_name [expected_name] initial_hops)"

subsection \<open>The lookup state machine\<close>

text \<open>The identifier source \<open>ids\<close> is a parameter: the values it will hand out, in order.\<close>

record lookup =
  lk_name :: name_buf
  lk_now_start_ms :: nat
  lk_deadline_ms :: nat
  lk_ids :: "nat \<Rightarrow> nat"
  lk_ids_used :: nat
  lk_current_name :: name_buf
  lk_current_id :: nat
  lk_query_sent_at :: nat
  lk_next_retransmit_gap_ms :: nat
  lk_cname_hops :: nat
  lk_result :: "bytes lookup_result option"

definition lookup_start :: "bytes \<Rightarrow> nat \<Rightarrow> nat \<Rightarrow> (nat \<Rightarrow> nat) \<Rightarrow> (lookup \<times> bytes) lookup_result checked" where
  "lookup_start name now_ms timeout_ms ids =
     (case name_parse name of Inl e \<Rightarrow> Inr (Inl e) | Inr name \<Rightarrow>
       (case build_query name (ids 0) of Inl e \<Rightarrow> Inr (Inl e) | Inr query \<Rightarrow>
         and_then (uadd now_ms timeout_ms) (\<lambda>deadline.
           Inr (Inr (\<lparr>lk_name = name, lk_now_start_ms = now_ms, lk_deadline_ms = deadline, lk_ids = ids,
             lk_ids_used = 1, lk_current_name = name, lk_current_id = ids 0, lk_query_sent_at = now_ms,
             lk_next_retransmit_gap_ms = 1000, lk_cname_hops = 0, lk_result = None\<rparr>, query)))))"

definition next_wait_time :: "lookup \<Rightarrow> nat checked" where
  "next_wait_time l = and_then (uadd (lk_query_sent_at l) (lk_next_retransmit_gap_ms l))
     (\<lambda>t. Inr (min t (lk_deadline_ms l)))"

definition finish :: "bytes lookup_result \<Rightarrow> lookup \<Rightarrow> dns_step \<times> lookup" where
  "finish r l = (Done r, l\<lparr>lk_result := Some r\<rparr>)"

definition on_response :: "bytes \<Rightarrow> nat \<Rightarrow> lookup \<Rightarrow> (dns_step \<times> lookup) checked option" where
  "on_response msg now_ms l =
     (case lk_result l of Some r \<Rightarrow> Some (Inr (Done r, l)) | None \<Rightarrow>
       (case parse_response msg (lk_current_name l) (lk_current_id l) (lk_cname_hops l) of
          None \<Rightarrow> None
        | Some (Inl _) \<Rightarrow> Some (and_then (next_wait_time l) (\<lambda>t. Inr (Wait t, l)))
        | Some (Inr (A ip, _)) \<Rightarrow> Some (Inr (finish (Inr ip) l))
        | Some (Inr (Cname_target target, hops)) \<Rightarrow>
            (let l1 = l\<lparr>lk_cname_hops := hops\<rparr> in
             if 8 < hops then Some (Inr (finish (Inl CnameLoop) l1))
             else let l2 = l1\<lparr>lk_current_name := target, lk_current_id := lk_ids l (lk_ids_used l),
                      lk_ids_used := lk_ids_used l + 1, lk_query_sent_at := now_ms, lk_next_retransmit_gap_ms := 1000\<rparr> in
               (case build_query (lk_current_name l2) (lk_current_id l2) of
                  Inr q \<Rightarrow> Some (Inr (Send_query q, l2)) | Inl e \<Rightarrow> Some (Inr (finish (Inl e) l2))))
        | Some (Inr (Not_found, _)) \<Rightarrow> Some (Inr (finish (Inl NotFound) l))
        | Some (Inr (Server_failure, _)) \<Rightarrow> Some (Inr (finish (Inl ServerFailure) l))
        | Some (Inr (Cname_loop, _)) \<Rightarrow> Some (Inr (finish (Inl CnameLoop) l))))"

definition lookup_poll :: "nat \<Rightarrow> lookup \<Rightarrow> (dns_step \<times> lookup) checked" where
  "lookup_poll now_ms l =
     (case lk_result l of Some r \<Rightarrow> Inr (Done r, l) | None \<Rightarrow>
       if lk_deadline_ms l \<le> now_ms then Inr (finish (Inl Timeout) l)
       else and_then (uadd (lk_query_sent_at l) (lk_next_retransmit_gap_ms l)) (\<lambda>retransmit_time.
         if retransmit_time \<le> now_ms then
           (case build_query (lk_current_name l) (lk_current_id l) of
              Inl e \<Rightarrow> Inr (finish (Inl e) l)
            | Inr query \<Rightarrow> and_then (umul (lk_next_retransmit_gap_ms l) 2) (\<lambda>gap.
                Inr (Send_query query, l\<lparr>lk_query_sent_at := now_ms, lk_next_retransmit_gap_ms := gap\<rparr>)))
         else and_then (next_wait_time l) (\<lambda>t. Inr (Wait t, l))))"

subsection \<open>Names read back\<close>

definition name_ok :: "name_buf \<Rightarrow> bool" where
  "name_ok labels \<longleftrightarrow> (\<forall>l\<in>set labels. l \<noteq> [] \<and> length l \<le> 63)"

lemma check_labels_ok: "check_labels ls acc = Inr labels \<Longrightarrow> name_ok acc \<Longrightarrow> labels = acc @ ls \<and> name_ok labels"
proof (induction ls arbitrary: acc)
  case (Cons l ls)
  then have "l \<noteq> []" "length l \<le> 63" "check_labels ls (acc @ [l]) = Inr labels" by (auto split: if_splits)
  moreover have "name_ok (acc @ [l])" using Cons.prems(2) calculation(1,2) by (simp add: name_ok_def)
  ultimately show ?case using Cons.IH by fastforce
qed simp

lemma name_parse_ok: "name_parse s = Inr labels \<Longrightarrow> labels \<noteq> [] \<and> name_ok labels"
proof -
  assume "name_parse s = Inr labels"
  then have "labels \<noteq> []" "check_labels (split_on 46 (strip_dot s)) [] = Inr labels"
    by (auto simp: name_parse_def Let_def split: if_splits sum.splits)
  then show ?thesis using check_labels_ok by (metis empty_iff list.set(1) name_ok_def)
qed

lemma label_length_byte:
  assumes "l \<noteq> []" "length l \<le> 63"
  shows "unat (word_of_nat (length l) :: u8) = length l" and "\<not> is_pointer (word_of_nat (length l))"
proof -
  show u: "unat (word_of_nat (length l) :: u8) = length l"
    using assms by (simp add: unsigned_of_nat take_bit_nat_eq_self)
  have "(0xC0 :: u8) \<le> word_of_nat (length l)" if "is_pointer (word_of_nat (length l))"
    using that word_and_le2[of "word_of_nat (length l) :: u8" "0xC0"] unfolding is_pointer_def by simp
  then show "\<not> is_pointer (word_of_nat (length l))" using assms u by (auto simp: word_le_nat_alt)
qed

lemma name_loop_encoded:
  "name_ok labels \<Longrightarrow> name_loop (pre @ name_encode labels @ rest) seen acc None (length pre)
    = Some (Inr (length pre + length (name_encode labels), acc @ labels))"
proof (induction labels arbitrary: pre acc)
  case Nil
  show ?case by (subst name_loop.simps) (simp add: name_encode_def is_pointer_def)
next
  case (Cons l ls)
  then have l: "l \<noteq> []" "length l \<le> 63" and ls: "name_ok ls" by (simp_all add: name_ok_def)
  let ?msg = "pre @ name_encode (l # ls) @ rest"
  note b = label_length_byte[OF l]
  have msg: "?msg = (pre @ word_of_nat (length l) # l) @ name_encode ls @ rest" by (simp add: name_encode_def)
  have at: "?msg ! length pre = word_of_nat (length l)" by (simp add: name_encode_def nth_append)
  have tk: "take (length l) (drop (length pre + 1) ?msg) = l" by (simp add: name_encode_def)
  have c: "\<not> length ?msg \<le> length pre" "\<not> 63 < length l" "length l \<noteq> 0"
    "\<not> length ?msg < length pre + 1 + length l" using l by (simp_all add: name_encode_def)
  have "name_loop ?msg seen acc None (length pre) = name_loop ?msg seen (acc @ [l]) None (length pre + 1 + length l)"
    by (subst name_loop.simps) (simp only: at tk b c if_False simp_thms)
  also have "\<dots> = Some (Inr (length pre + 1 + length l + length (name_encode ls), (acc @ [l]) @ ls))"
    using Cons.IH[OF ls, of "pre @ word_of_nat (length l) # l" "acc @ [l]"] unfolding msg by simp
  finally show ?case by (simp add: name_encode_def)
qed

text \<open>
  A name that parses can be asked for: its encoding, wherever it stands in a message and
  whatever follows it, reads back to exactly its labels, with the position right behind it.
\<close>

theorem dns_name_roundtrip:
  assumes "name_parse s = Inr labels"
  shows "parse_name_at (pre @ name_encode labels @ rest) (length pre)
    = Some (Inr (length pre + length (name_encode labels), labels))"
  using name_loop_encoded[of labels pre rest "[]" "[]"] name_parse_ok[OF assms] by (simp add: parse_name_at_def)

theorem dns_name_roundtrip_witness:
  "parse_name_at ([7, 7] @ name_encode [[97, 98], [99]] @ [1]) 2 = Some (Inr (8, [[97, 98], [99]]))"
proof -
  have "name_parse [97, 98, 46, 99] = Inr [[97, 98], [99]]"
    by (simp add: name_parse_def strip_dot_def label_char_def)
  from dns_name_roundtrip[OF this, of "[7, 7]" "[1]"] show ?thesis by (simp add: name_encode_def eval_nat_numeral)
qed

subsection \<open>Compression pointers: when reading a name ends\<close>

text \<open>Where a pointer of the message points, for every place that looks like one.\<close>

definition pointer_targets :: "bytes \<Rightarrow> nat set" where
  "pointer_targets msg = {pointer_at msg i |i. i + 1 < length msg \<and> is_pointer (msg ! i)}"

lemma finite_pointer_targets: "finite (pointer_targets msg)"
proof -
  have "pointer_targets msg \<subseteq> pointer_at msg ` {..<length msg}" by (auto simp: pointer_targets_def)
  then show ?thesis by (rule finite_subset) simp
qed

lemma name_loop_returns:
  assumes "card (pointer_targets msg) \<le> 16"
  shows "set seen \<subseteq> pointer_targets msg \<Longrightarrow> distinct seen \<Longrightarrow> \<exists>r. name_loop msg seen labels first_next offset = Some r"
proof (induction "(card (pointer_targets msg) - length seen, length msg - offset)"
    arbitrary: seen labels first_next offset
    rule: wf_induct_rule[OF wf_lex_prod[OF wf_less wf_less]])
  case 1
  show ?case
  proof (cases "length msg \<le> offset")
    case True
    then show ?thesis by (subst name_loop.simps) simp
  next
    case inside: False
    show ?thesis
    proof (cases "is_pointer (msg ! offset)")
      case True
      show ?thesis
      proof (cases "length msg \<le> offset + 1 \<or> pointer_at msg offset \<in> set seen")
        case True
        then show ?thesis using inside \<open>is_pointer (msg ! offset)\<close>
          by (subst name_loop.simps) (auto simp: check_and_add_def)
      next
        case False
        let ?t = "pointer_at msg offset"
        have t: "?t \<in> pointer_targets msg" using False True by (auto simp: pointer_targets_def)
        then have sub: "set (seen @ [?t]) \<subseteq> pointer_targets msg" and d: "distinct (seen @ [?t])"
          using 1(2,3) False by auto
        then have c: "length (seen @ [?t]) \<le> card (pointer_targets msg)"
          using card_mono[OF finite_pointer_targets sub] by (simp add: distinct_card)
        then have add: "check_and_add ?t seen = Inr (seen @ [?t])"
          using False assms by (simp add: check_and_add_def)
        have "\<exists>r. name_loop msg (seen @ [?t]) labels n ?t = Some r" for n
          using c sub d by (intro 1(1)) auto
        then show ?thesis using inside True False add by (subst name_loop.simps) simp
      qed
    next
      case False
      show ?thesis
      proof (cases "63 < unat (msg ! offset) \<or> unat (msg ! offset) = 0 \<or> length msg < offset + 1 + unat (msg ! offset)")
        case True
        then show ?thesis using inside False by (subst name_loop.simps) auto
      next
        case go: False
        have "\<exists>r. name_loop msg seen labels' first_next (offset + 1 + unat (msg ! offset)) = Some r" for labels'
          using inside 1(2,3) by (intro 1(1)) auto
        then show ?thesis using inside False go by (subst name_loop.simps) simp
      qed
    qed
  qed
qed

text \<open>
  C26. Reading a name ends, with a name or an error, in every message whose compression pointers
  have at most sixteen different targets, as many as the loop detector remembers.
\<close>

theorem dns_name_parse_terminates:
  assumes "card (pointer_targets msg) \<le> 16"
  shows "\<exists>r. parse_name_at msg offset = Some r"
  using name_loop_returns[OF assms, of "[]"] by (simp add: parse_name_at_def)

theorem dns_name_parse_terminates_witness: "\<exists>r. parse_name_at [0xC0, 0] 0 = Some r"
proof -
  have "pointer_targets [0xC0, 0] \<subseteq> {pointer_at [0xC0, 0] 0}"
    by (auto simp: pointer_targets_def)
  then have "card (pointer_targets [0xC0, 0]) \<le> 16"
    using card_mono[of "{pointer_at [0xC0, 0] 0}" "pointer_targets [0xC0, 0]"] by simp
  then show ?thesis by (rule dns_name_parse_terminates)
qed

text \<open>With the detector full of other offsets, a pointer to itself is followed for ever.\<close>

lemma name_loop_stuck:
  "name_loop msg seen labels first_next x = Some r \<Longrightarrow>
    \<not> (x + 1 < length msg \<and> is_pointer (msg ! x) \<and> pointer_at msg x = x \<and> 16 \<le> length seen \<and> x \<notin> set seen)"
proof (rule name_loop.raw_induct[where P = "\<lambda>msg seen labels first_next x r.
      \<not> (x + 1 < length msg \<and> is_pointer (msg ! x) \<and> pointer_at msg x = x \<and> 16 \<le> length seen \<and> x \<notin> set seen)",
      rotated], goal_cases)
  case (2 loop msg seen labels first_next x r)
  show ?case
  proof
    assume s: "x + 1 < length msg \<and> is_pointer (msg ! x) \<and> pointer_at msg x = x \<and> 16 \<le> length seen \<and> x \<notin> set seen"
    then have "\<exists>n. loop msg seen labels n x = Some r"
      using 2(3) by (auto simp: check_and_add_def)
    then show False using 2(2) s by blast
  qed
qed

text \<open>
  The response that never ends: after the header, sixteen pointers each to the next two bytes, and
  then one to itself.
\<close>

definition pointer_bytes :: "nat \<Rightarrow> bytes" where
  "pointer_bytes target = [0xC0, word_of_nat target]"

definition loop_body :: bytes where
  "loop_body = concat (map (\<lambda>k. pointer_bytes (14 + 2 * k)) [0..<17]) @ pointer_bytes 46"

definition looping_response :: "nat \<Rightarrow> bytes" where
  "looping_response qid = to_be 2 qid @ [0x80, 0, 0, 1, 0, 0, 0, 0, 0, 0] @ loop_body"

lemma nth_pairs:
  "k < n \<Longrightarrow> concat (map (\<lambda>k. [a k, b k]) [0..<n]) ! (2 * k) = a k
    \<and> concat (map (\<lambda>k. [a k, b k]) [0..<n]) ! (2 * k + 1) = b k"
proof (induction n)
  case (Suc n)
  have "length (concat (map (\<lambda>k. [a k, b k]) [0..<n])) = 2 * n" by (induction n) simp_all
  then show ?case using Suc by (cases "k = n") (auto simp: nth_append)
qed simp

lemma pointer_and_mask: "v < 64 \<Longrightarrow> be_bytes [0xC0, word_of_nat v] AND 0x3FFF = v"
proof -
  assume "v < 64"
  then have "unat (word_of_nat v :: u8) = v" by (simp add: unsigned_of_nat take_bit_nat_eq_self)
  moreover have "(0x3FFF :: nat) = mask 14" by (simp add: mask_eq_exp_minus_1)
  moreover have "(49152 + v) mod 16384 = v" using mod_mult_self3[of 3 16384 v] \<open>v < 64\<close> by simp
  ultimately show ?thesis
    by (simp only: take_bit_eq_mask[symmetric] be_bytes_pair) (simp add: take_bit_eq_mod)
qed

lemma loop_body_pointers:
  "length loop_body = 36"
  "k < 17 \<Longrightarrow> loop_body ! (2 * k) = 0xC0 \<and> loop_body ! (2 * k + 1) = word_of_nat (14 + 2 * k)"
  "loop_body ! 34 = 0xC0" "loop_body ! 35 = word_of_nat 46"
proof -
  let ?ps = "concat (map (\<lambda>k. pointer_bytes (14 + 2 * k)) [0..<17])"
  have l: "length ?ps = 34" by (simp add: pointer_bytes_def upt_rec)
  then show "length loop_body = 36" "loop_body ! 34 = 0xC0" "loop_body ! 35 = word_of_nat 46"
    by (simp_all add: loop_body_def nth_append pointer_bytes_def)
  show "k < 17 \<Longrightarrow> loop_body ! (2 * k) = 0xC0 \<and> loop_body ! (2 * k + 1) = word_of_nat (14 + 2 * k)"
    using l nth_pairs[of k 17 "\<lambda>k. 0xC0" "\<lambda>k. word_of_nat (14 + 2 * k)"]
    by (simp add: loop_body_def nth_append pointer_bytes_def del: upt_rec_numeral)
qed

lemma is_pointer_C0: "is_pointer 0xC0"
  by (simp add: is_pointer_def)

lemma looping_response_pointers:
  shows "length (looping_response qid) = 48"
    and "k < 17 \<Longrightarrow> is_pointer (looping_response qid ! (12 + 2 * k)) \<and> pointer_at (looping_response qid) (12 + 2 * k) = 14 + 2 * k"
    and "is_pointer (looping_response qid ! 46)" and "pointer_at (looping_response qid) 46 = 46"
proof -
  have nth: "looping_response qid ! (12 + i) = loop_body ! i" for i
    by (simp add: looping_response_def nth_append)
  show "length (looping_response qid) = 48" by (simp add: looping_response_def loop_body_pointers)
  show "k < 17 \<Longrightarrow> is_pointer (looping_response qid ! (12 + 2 * k)) \<and> pointer_at (looping_response qid) (12 + 2 * k) = 14 + 2 * k"
    using loop_body_pointers(2)[of k] nth[of "2 * k"] nth[of "2 * k + 1"] pointer_and_mask[of "14 + 2 * k"]
    by (simp add: pointer_at_def is_pointer_C0)
  show "is_pointer (looping_response qid ! 46)" "pointer_at (looping_response qid) 46 = 46"
    using loop_body_pointers(3,4) nth[of 34] nth[of 35] pointer_and_mask[of 46]
    by (simp_all add: pointer_at_def is_pointer_C0)
qed

definition seen_after :: "nat \<Rightarrow> nat list" where
  "seen_after k = map (\<lambda>j. 14 + 2 * j) [0..<min k 16]"

lemma looping_step:
  assumes "k < 17" "name_loop (looping_response qid) (seen_after k) labels n (12 + 2 * k) = Some r"
  shows "\<exists>n. name_loop (looping_response qid) (seen_after (Suc k)) labels n (12 + 2 * Suc k) = Some r"
proof -
  have notin: "14 + 2 * k \<notin> set (seen_after k)" by (auto simp: seen_after_def)
  have "check_and_add (14 + 2 * k) (seen_after k) = Inr (seen_after (Suc k))"
  proof (cases "k < 16")
    case True
    then have "min (Suc k) 16 = Suc k" "min k 16 = k" by simp_all
    then show ?thesis using notin True by (simp add: check_and_add_def seen_after_def)
  next
    case False
    then show ?thesis using notin by (simp add: check_and_add_def seen_after_def min_def)
  qed
  then show ?thesis
    using assms looping_response_pointers(2)[OF assms(1), of qid] looping_response_pointers(1)[of qid]
    by (subst (asm) name_loop.simps) auto
qed

lemma looping_response_hangs: "parse_name_at (looping_response qid) 12 = None"
proof (rule ccontr)
  assume "parse_name_at (looping_response qid) 12 \<noteq> None"
  then obtain r where r: "name_loop (looping_response qid) [] [] None 12 = Some r" by (auto simp: parse_name_at_def)
  have "\<exists>n. name_loop (looping_response qid) (seen_after k) [] n (12 + 2 * k) = Some r" if "k \<le> 17" for k
    using that
  proof (induction k)
    case 0
    then show ?case using r by (auto simp: seen_after_def)
  next
    case (Suc k)
    then show ?case using looping_step[of k qid "[]" _ r] by fastforce
  qed
  from this[of 17] obtain n where n: "name_loop (looping_response qid) (seen_after 17) [] n 46 = Some r" by auto
  have "46 \<notin> set (seen_after 17)" "length (seen_after 17) = 16"
    by (auto simp: seen_after_def simp del: upt_rec_numeral)
  then show False using name_loop_stuck[OF n] looping_response_pointers(1,3,4)[of qid] by simp
qed

text \<open>
  C27. A resolver can be hung by one packet: the 48-byte response above, sent with the identifier of
  the current query, makes \<open>on_response\<close> of every unfinished lookup run for ever, because the loop
  detector stops recording after sixteen pointers.
\<close>

theorem dns_response_hangs_resolver:
  assumes "lk_result l = None" and "lk_current_id l < 65536"
  shows "on_response (looping_response (lk_current_id l)) now l = None"
proof -
  let ?m = "looping_response (lk_current_id l)"
  have "u16_of ?m 0 = lk_current_id l" "u16_of ?m 2 = 0x8000" "u16_of ?m 4 = 1"
    using be_pair_to_be[OF assms(2)]
    by (simp_all add: u16_of_def looping_response_def to_be_2 be_bytes_pair)
  then have "parse_response ?m name (lk_current_id l) hops = None" for name hops
    using looping_response_pointers(1) looping_response_hangs
    by (simp add: parse_response_def Let_def)
  then show ?thesis using assms(1) by (simp add: on_response_def)
qed

definition demo_lookup :: lookup where
  "demo_lookup = \<lparr>lk_name = [[97]], lk_now_start_ms = 0, lk_deadline_ms = 5000, lk_ids = (\<lambda>i. i), lk_ids_used = 1,
     lk_current_name = [[97]], lk_current_id = 7, lk_query_sent_at = 0, lk_next_retransmit_gap_ms = 1000,
     lk_cname_hops = 0, lk_result = None\<rparr>"

theorem dns_response_hangs_resolver_witness: "on_response (looping_response 7) 10 demo_lookup = None"
  using dns_response_hangs_resolver[of demo_lookup 10] by (simp add: demo_lookup_def)

subsection \<open>Where an address comes from\<close>

text \<open>
  The records of the answer section, by index and offset, and the names a chain of CNAME records of
  class IN leads to: what RFC 1034 lets a resolver believe of one response.
\<close>

inductive answer_at :: "bytes \<Rightarrow> nat \<Rightarrow> nat \<Rightarrow> nat \<Rightarrow> bool" for msg start where
  first_record: "answer_at msg start 0 start"
| next_record: "answer_at msg start i off \<Longrightarrow> parse_name_at msg off = Some (Inr (o1, nm))
    \<Longrightarrow> answer_at msg start (Suc i) (o1 + 10 + u16_of msg (o1 + 8))"

definition record_at :: "bytes \<Rightarrow> nat \<Rightarrow> name_buf \<Rightarrow> nat \<Rightarrow> nat \<Rightarrow> nat \<Rightarrow> bool" where
  "record_at msg off nm rtype rd rdlen \<longleftrightarrow> (\<exists>o1. parse_name_at msg off = Some (Inr (o1, nm)) \<and> rd = o1 + 10
     \<and> u16_of msg o1 = rtype \<and> u16_of msg (o1 + 2) = 1 \<and> u16_of msg (o1 + 8) = rdlen \<and> rd + rdlen \<le> length msg)"

definition answered :: "bytes \<Rightarrow> nat \<Rightarrow> nat \<Rightarrow> name_buf \<Rightarrow> nat \<Rightarrow> nat \<Rightarrow> nat \<Rightarrow> bool" where
  "answered msg start ancount name rtype rd rdlen \<longleftrightarrow>
     (\<exists>i off nm. i < ancount \<and> answer_at msg start i off \<and> record_at msg off nm rtype rd rdlen \<and> names_equal nm name)"

inductive cname_path :: "bytes \<Rightarrow> nat \<Rightarrow> nat \<Rightarrow> name_buf \<Rightarrow> name_buf \<Rightarrow> bool" for msg start ancount name where
  path_start: "cname_path msg start ancount name name"
| path_cname: "cname_path msg start ancount name cur \<Longrightarrow> answered msg start ancount cur 5 rd rdlen
    \<Longrightarrow> parse_name_at msg rd = Some (Inr (o1, target)) \<Longrightarrow> cname_path msg start ancount name target"

text \<open>What one pass over the records finds.\<close>

lemma scan_sound:
  assumes "scan_answers msg cur visited hops n off = Some (Inr s)"
    and "answer_at msg start i off" and "i + n = ancount"
  shows "(\<forall>ip h. s = Result (A ip) h \<longrightarrow> (\<exists>rd. answered msg start ancount cur 1 rd 4 \<and> ip = take 4 (drop rd msg)))
    \<and> (\<forall>t h. s = Follow t h \<longrightarrow> (\<exists>rd rdlen o1. answered msg start ancount cur 5 rd rdlen
        \<and> parse_name_at msg rd = Some (Inr (o1, t))))"
  using assms
proof (induction n arbitrary: off i)
  case (Suc n)
  from Suc.prems(1) have inside: "\<not> length msg \<le> off" by (auto split: if_splits)
  with Suc.prems(1) obtain o1 nm where p: "parse_name_at msg off = Some (Inr (o1, nm))"
    by (auto split: option.splits sum.splits)
  let ?rd = "o1 + 10" and ?len = "u16_of msg (o1 + 8)"
  note run = Suc.prems(1)[unfolded scan_answers.simps p option.case sum.case prod.case Let_def
      if_not_P[OF inside]]
  from run have fit: "?rd + ?len \<le> length msg" by (auto split: if_splits)
  have rec: "record_at msg off nm (u16_of msg o1) ?rd ?len" if "u16_of msg (o1 + 2) = 1"
    using p fit that by (auto simp: record_at_def)
  have here: "answered msg start ancount cur (u16_of msg o1) ?rd ?len" if "names_equal nm cur" "u16_of msg (o1 + 2) = 1"
    unfolding answered_def using rec[OF that(2)] that(1) Suc.prems(2,3)
    by (intro exI[of _ i] exI[of _ off] exI[of _ nm]) simp
  consider (a) "names_equal nm cur \<and> u16_of msg (o1 + 2) = 1 \<and> u16_of msg o1 = 1 \<and> ?len = 4"
    | (c) "names_equal nm cur \<and> u16_of msg (o1 + 2) = 1 \<and> u16_of msg o1 = 5"
    | (o) "\<not> (names_equal nm cur \<and> u16_of msg (o1 + 2) = 1 \<and> u16_of msg o1 = 1 \<and> ?len = 4)"
          "\<not> (names_equal nm cur \<and> u16_of msg (o1 + 2) = 1 \<and> u16_of msg o1 = 5)" by blast
  then show ?case
  proof cases
    case a
    then have "s = Result (A (take 4 (drop ?rd msg))) hops" using run fit by auto
    then show ?thesis using here a by auto
  next
    case c
    with run fit obtain o2 t where t: "parse_name_at msg ?rd = Some (Inr (o2, t))"
      by (auto split: option.splits sum.splits)
    have "s = Result Cname_loop hops \<or> s = Result Cname_loop (hops + 1) \<or> s = Follow t (hops + 1)"
      using run c fit t by (auto split: if_splits)
    then show ?thesis using here c t by auto
  next
    case o
    then have "scan_answers msg cur visited hops n (?rd + ?len) = Some (Inr s)" using run fit by (auto split: if_splits)
    moreover have "answer_at msg start (Suc i) (?rd + ?len)" using next_record[OF Suc.prems(2) p] by simp
    ultimately show ?thesis using Suc.IH[of "?rd + ?len" "Suc i"] Suc.prems(3) by simp
  qed
qed simp

lemma follow_chain_sound:
  "follow_chain msg ancount start name cur visited hops = Some (Inr (A ip, h)) \<Longrightarrow> cname_path msg start ancount name cur \<Longrightarrow>
    \<exists>final rd. cname_path msg start ancount name final \<and> answered msg start ancount final 1 rd 4 \<and> ip = take 4 (drop rd msg)"
proof (induction msg ancount start name cur visited hops rule: follow_chain.induct)
  case (1 msg ancount start name cur visited hops)
  from 1(2) obtain s where s: "scan_answers msg cur visited hops ancount start = Some (Inr s)"
    by (subst (asm) follow_chain.simps) (auto split: option.splits sum.splits)
  note snd = scan_sound[OF s first_record, of ancount]
  have run: "(case s of Result a k \<Rightarrow> Some (Inr (a, k))
      | Follow t k \<Rightarrow> follow_chain msg ancount start name t (visited @ [t]) k
      | No_record \<Rightarrow> Some (Inr (if names_equal cur name then Not_found else Cname_target cur, hops))) = Some (Inr (A ip, h))"
    using 1(2) by (subst (asm) follow_chain.simps) (simp add: s)
  show ?case
  proof (cases s)
    case No_record
    then show ?thesis using run by (auto split: if_splits)
  next
    case (Follow t k)
    then have "follow_chain msg ancount start name t (visited @ [t]) k = Some (Inr (A ip, h))" using run by simp
    moreover have "cname_path msg start ancount name t" using snd Follow 1(3) path_cname by fastforce
    ultimately show ?thesis using 1(1)[OF s refl Follow] by blast
  next
    case (Result a k)
    then show ?thesis using run snd 1(3) by auto
  qed
qed

text \<open>
  C28. A lookup only believes what a response to its own query says: when it ends with an address,
  the message carried the identifier of the current query, was marked a response, and asked for the
  current name; and the address is the data of an A record of class IN in its answer section, owned
  by a name that a chain of CNAME records of that section leads to from the current name.
\<close>

theorem dns_answer_sound:
  assumes "on_response msg now l = Some (Inr (Done (Inr ip), l'))" and "lk_result l = None"
  shows "u16_of msg 0 = lk_current_id l \<and> u16_of msg 2 AND 0x8000 \<noteq> 0 \<and> lk_result l' = Some (Inr ip)
    \<and> (\<exists>off q_name final rd. parse_name_at msg 12 = Some (Inr (off, q_name)) \<and> names_equal (lk_current_name l) q_name
        \<and> u16_of msg off = 1 \<and> cname_path msg (off + 4) (u16_of msg 6) (lk_current_name l) final
        \<and> answered msg (off + 4) (u16_of msg 6) final 1 rd 4 \<and> ip = take 4 (drop rd msg))"
proof -
  from assms obtain h where p: "parse_response msg (lk_current_name l) (lk_current_id l) (lk_cname_hops l) = Some (Inr (A ip, h))"
    and l': "lk_result l' = Some (Inr ip)"
    by (auto simp: on_response_def finish_def build_query_def Let_def checked_simps
        split: option.splits sum.splits response_action.splits if_splits)
  then obtain off q where q: "parse_name_at msg 12 = Some (Inr (off, q))" "names_equal (lk_current_name l) q"
    "u16_of msg off = 1" "u16_of msg 0 = lk_current_id l" "u16_of msg 2 AND 0x8000 \<noteq> 0"
    and f: "follow_chain msg (u16_of msg 6) (off + 4) (lk_current_name l) (lk_current_name l) [lk_current_name l]
      (lk_cname_hops l) = Some (Inr (A ip, h))"
    by (auto simp: parse_response_def Let_def split: if_splits option.splits sum.splits)
  from follow_chain_sound[OF f path_start] q l' show ?thesis by blast
qed

text \<open>A response with one A record for the name \<open>a\<close>: 10.0.0.1.\<close>

definition demo_response :: bytes where
  "demo_response = [0, 7, 0x80, 0, 0, 1, 0, 1, 0, 0, 0, 0, 1, 97, 0, 0, 1, 0, 1,
     1, 97, 0, 0, 1, 0, 1, 0, 0, 0, 9, 0, 4, 10, 0, 0, 1]"

lemma demo_response_names:
  "parse_name_at demo_response 12 = Some (Inr (15, [[97]]))" "parse_name_at demo_response 19 = Some (Inr (22, [[97]]))"
  by (simp_all add: parse_name_at_def demo_response_def name_loop.simps is_pointer_def)

lemma demo_response_answer:
  "on_response demo_response 9 demo_lookup = Some (Inr (Done (Inr [10, 0, 0, 1]), demo_lookup\<lparr>lk_result := Some (Inr [10, 0, 0, 1])\<rparr>))"
proof -
  have u: "u16_of demo_response 0 = 7" "u16_of demo_response 2 = 0x8000" "u16_of demo_response 4 = 1"
    "u16_of demo_response 6 = 1" "u16_of demo_response 15 = 1" "u16_of demo_response 17 = 1"
    "u16_of demo_response 22 = 1" "u16_of demo_response 24 = 1" "u16_of demo_response 30 = 4"
    "length demo_response = 36" "take 4 (drop 32 demo_response) = [10, 0, 0, 1]"
    by (simp_all add: u16_of_def demo_response_def be_bytes_pair)
  have "scan_answers demo_response [[97]] [[[97]]] 0 (Suc 0) 19 = Some (Inr (Result (A [10, 0, 0, 1]) 0))"
    by (simp add: u demo_response_names names_equal_def Let_def)
  then have "follow_chain demo_response 1 19 [[97]] [[97]] [[[97]]] 0 = Some (Inr (A [10, 0, 0, 1], 0))"
    by (subst follow_chain.simps) simp
  then have "parse_response demo_response [[97]] 7 0 = Some (Inr (A [10, 0, 0, 1], 0))"
    using u by (simp add: parse_response_def demo_response_names names_equal_def Let_def)
  then show ?thesis by (simp add: on_response_def demo_lookup_def finish_def)
qed

theorem dns_answer_sound_witness:
  "\<exists>off q_name final rd. names_equal [[97]] q_name \<and> answered demo_response (off + 4) 1 final 1 rd 4
    \<and> [10, 0, 0, 1] = take 4 (drop rd demo_response)"
proof -
  have "lk_result demo_lookup = None" "lk_current_name demo_lookup = [[97]]" "u16_of demo_response 6 = 1"
    by (simp_all add: demo_lookup_def u16_of_def demo_response_def be_bytes_pair)
  then show ?thesis using dns_answer_sound[OF demo_response_answer] by metis
qed

subsection \<open>Retransmission\<close>

text \<open>Polling at a list of times: the queries sent, and the lookup left.\<close>

fun poll_all :: "nat list \<Rightarrow> lookup \<Rightarrow> (bytes list \<times> lookup) checked" where
  "poll_all [] l = Inr ([], l)"
| "poll_all (t # ts) l = and_then (lookup_poll t l) (\<lambda>(step, l1). and_then (poll_all ts l1) (\<lambda>(qs, l2).
     Inr ((case step of Send_query q \<Rightarrow> q # qs | _ \<Rightarrow> qs), l2)))"

definition waiting :: "nat \<Rightarrow> nat \<Rightarrow> nat \<Rightarrow> lookup \<Rightarrow> bool" where
  "waiting start deadline k l \<longleftrightarrow> lk_deadline_ms l = deadline \<and> lk_next_retransmit_gap_ms l = 1000 * 2 ^ k
     \<and> start + 1000 * (2 ^ k - 1) \<le> lk_query_sent_at l \<and> lk_query_sent_at l \<le> max start deadline"

lemma poll_waiting:
  assumes w: "waiting start deadline k l" and r: "lk_result l = None" and d: "start \<le> deadline" "deadline < 2 ^ 62"
  shows "(\<exists>s l1. lookup_poll t l = Inr (s, l1) \<and> (\<forall>q. s \<noteq> Send_query q) \<and> (l1 = l \<or> lk_result l1 \<noteq> None))
    \<or> (\<exists>l1. lookup_poll t l = Inr (Send_query (projr (build_query (lk_current_name l) (lk_current_id l))), l1)
        \<and> lk_result l1 = None \<and> waiting start deadline (Suc k) l1 \<and> lk_current_name l1 = lk_current_name l
        \<and> lk_current_id l1 = lk_current_id l)"
proof (cases "deadline \<le> t")
  case True
  then show ?thesis using w r by (simp add: lookup_poll_def waiting_def finish_def)
next
  case False
  let ?g = "1000 * 2 ^ k :: nat"
  have g: "1000 * (2 ^ k - 1) + 1000 = ?g" by (simp add: diff_mult_distrib2)
  have k: "?g \<le> deadline + 1000"
  proof -
    have "start + 1000 * (2 ^ k - 1) \<le> deadline" using w d(1) unfolding waiting_def by linarith
    then show ?thesis using g by linarith
  qed
  have sum: "lk_query_sent_at l + ?g < u64_limit" "?g * 2 < u64_limit"
    using w d k by (simp_all add: waiting_def max_def)
  show ?thesis
  proof (cases "lk_query_sent_at l + ?g \<le> t")
    case True
    have "1000 * (2 ^ Suc k - 1) + 1000 = ?g + ?g" by (simp add: diff_mult_distrib2)
    moreover have "start + 1000 * (2 ^ k - 1) \<le> lk_query_sent_at l" using w unfolding waiting_def by blast
    ultimately have "start + 1000 * (2 ^ Suc k - 1) \<le> t" using g True by linarith
    then show ?thesis using True False sum w r
      by (auto simp: lookup_poll_def waiting_def build_query_def)
  next
    case short: False
    then show ?thesis using False sum w r by (simp add: lookup_poll_def waiting_def next_wait_time_def)
  qed
qed

lemma poll_done: "lk_result l = Some r \<Longrightarrow> poll_all ts l = Inr ([], l)"
  by (induction ts) (simp_all add: lookup_poll_def)

lemma poll_all_waiting:
  "waiting start deadline k l \<Longrightarrow> lk_result l = None \<Longrightarrow> start \<le> deadline \<Longrightarrow> deadline < 2 ^ 62 \<Longrightarrow>
    \<exists>qs l'. poll_all ts l = Inr (qs, l') \<and> start + 1000 * (2 ^ (k + length qs) - 1) \<le> deadline
      \<and> set qs \<subseteq> {projr (build_query (lk_current_name l) (lk_current_id l))}"
proof (induction ts arbitrary: k l)
  case Nil
  then show ?case by (auto simp: waiting_def)
next
  case (Cons t ts)
  from poll_waiting[OF Cons.prems, of t] show ?case
  proof (rule disjE)
    assume "\<exists>s l1. lookup_poll t l = Inr (s, l1) \<and> (\<forall>q. s \<noteq> Send_query q) \<and> (l1 = l \<or> lk_result l1 \<noteq> None)"
    then obtain s l1 where p: "lookup_poll t l = Inr (s, l1)" "\<forall>q. s \<noteq> Send_query q" "l1 = l \<or> lk_result l1 \<noteq> None" by blast
    show ?thesis
    proof (cases "lk_result l1")
      case None
      then have "l1 = l" using p(3) by auto
      with Cons.IH[OF Cons.prems] p show ?thesis by (cases s) auto
    next
      case (Some r)
      then show ?thesis using p Cons.prems poll_done[OF Some] by (cases s) (auto simp: waiting_def)
    qed
  next
    assume "\<exists>l1. lookup_poll t l = Inr (Send_query (projr (build_query (lk_current_name l) (lk_current_id l))), l1)
        \<and> lk_result l1 = None \<and> waiting start deadline (Suc k) l1 \<and> lk_current_name l1 = lk_current_name l
        \<and> lk_current_id l1 = lk_current_id l"
    then obtain l1 where p: "lookup_poll t l = Inr (Send_query (projr (build_query (lk_current_name l) (lk_current_id l))), l1)"
      "lk_result l1 = None" "waiting start deadline (Suc k) l1" "lk_current_name l1 = lk_current_name l"
      "lk_current_id l1 = lk_current_id l" by blast
    from Cons.IH[OF p(3,2) Cons.prems(3,4)] obtain qs l' where "poll_all ts l1 = Inr (qs, l')"
      "start + 1000 * (2 ^ (Suc k + length qs) - 1) \<le> deadline"
      "set qs \<subseteq> {projr (build_query (lk_current_name l) (lk_current_id l))}" using p(4,5) by auto
    then show ?thesis using p(1) by simp
  qed
qed

text \<open>
  C29. Polling never panics and retransmits rarely: however often and at whatever times a fresh
  lookup is polled, it re-sends only its one query, and \<open>n\<close> times at most when
  \<open>1000 * (2 ^ n - 1)\<close> milliseconds fit in its timeout, so the number of packets is logarithmic in it.
\<close>

theorem dns_retransmissions_bounded:
  assumes "lookup_start name now timeout ids = Inr (Inr (l, query))" and "now + timeout < 2 ^ 62"
  shows "\<exists>qs l'. poll_all ts l = Inr (qs, l') \<and> set qs \<subseteq> {query} \<and> 1000 * (2 ^ length qs - 1) \<le> timeout"
proof -
  from assms have l: "waiting now (now + timeout) 0 l" "lk_result l = None"
    "projr (build_query (lk_current_name l) (lk_current_id l)) = query"
    by (auto simp: lookup_start_def waiting_def build_query_def checked_simps split: sum.splits)
  from poll_all_waiting[OF l(1,2) _ assms(2), of ts] l(3) show ?thesis by auto
qed

theorem dns_retransmissions_bounded_witness:
  "\<exists>l query. lookup_start [97] 0 5000 (\<lambda>i. i) = Inr (Inr (l, query))
    \<and> (\<exists>qs l'. poll_all [500, 1200, 9000] l = Inr (qs, l') \<and> set qs \<subseteq> {query})"
proof -
  have "\<exists>l query. lookup_start [97] 0 5000 (\<lambda>i. i) = Inr (Inr (l, query))"
    by (simp add: lookup_start_def name_parse_def strip_dot_def label_char_def build_query_def)
  then obtain l query where s: "lookup_start [97] 0 5000 (\<lambda>i. i) = Inr (Inr (l, query))" by blast
  with dns_retransmissions_bounded[OF s, of "[500, 1200, 9000]"] show ?thesis by auto
qed

end
