(* ===== verification/Kstack.thy ===== *)
theory Kstack
  imports Vmm
begin

text \<open>
  \<open>kernel/src/mm/kstack.rs\<close>: guard-paged kernel stacks in fixed-stride slots.  The state is the
  slot allocator \<open>SLOTS\<close>, beside the memory manager's \<open>mm_state\<close> that \<open>allocate\<close> and \<open>free\<close>
  map and unmap the pages in.  Printing and the assembly of \<open>switch_stack_and_call\<close> are not
  modelled.
\<close>

subsection \<open>Slots\<close>

definition DYNAMIC_REGION_START :: nat where "DYNAMIC_REGION_START = 0xffffc00000000000"
definition DYNAMIC_REGION_END :: nat where "DYNAMIC_REGION_END = 0xffffd00000000000"
definition STACK_PAGES :: nat where "STACK_PAGES = 64 * 1024 div FRAME_SIZE"
definition STACK_BYTES :: nat where "STACK_BYTES = STACK_PAGES * FRAME_SIZE"
definition SLOT_SIZE :: nat where "SLOT_SIZE = FRAME_SIZE + STACK_BYTES"
definition NUM_SLOTS :: nat where "NUM_SLOTS = 4096"

lemmas slot_consts = DYNAMIC_REGION_START_def DYNAMIC_REGION_END_def STACK_PAGES_def STACK_BYTES_def
  SLOT_SIZE_def NUM_SLOTS_def FRAME_SIZE_def

record kernel_stack =
  ks_guard :: nat
  ks_bottom :: nat
  ks_top :: nat

record guard_match =
  gm_guard :: nat
  gm_bottom :: nat

definition slot_addrs :: "nat \<Rightarrow> kernel_stack checked" where
  "slot_addrs index =
     and_then (umul index SLOT_SIZE) (\<lambda>offset.
     and_then (uadd DYNAMIC_REGION_START offset) (\<lambda>base.
     and_then (uadd base FRAME_SIZE) (\<lambda>bottom.
     and_then (uadd bottom STACK_BYTES) (\<lambda>top.
       Inr \<lparr>ks_guard = base, ks_bottom = bottom, ks_top = top\<rparr>))))"

record slot_allocator =
  sl_next_fresh :: nat
  sl_free :: "nat list"

definition slots_new :: slot_allocator where
  "slots_new = \<lparr>sl_next_fresh = 0, sl_free = []\<rparr>"

text \<open>The vector \<open>free\<close> is pushed to and popped from at its end.\<close>

definition slot_claim :: "slot_allocator \<Rightarrow> (nat \<times> slot_allocator) checked" where
  "slot_claim a =
     (if sl_free a \<noteq> [] then Inr (last (sl_free a), a\<lparr>sl_free := butlast (sl_free a)\<rparr>)
      else require (sl_next_fresh a < NUM_SLOTS) ''kstack: stack slots are already live at once''
        (Inr (sl_next_fresh a, a\<lparr>sl_next_fresh := sl_next_fresh a + 1\<rparr>)))"

definition slot_release :: "nat \<Rightarrow> slot_allocator \<Rightarrow> slot_allocator" where
  "slot_release index a = a\<lparr>sl_free := sl_free a @ [index]\<rparr>"

subsection \<open>Guard pages\<close>

definition find_guard :: "nat \<Rightarrow> guard_match option checked" where
  "find_guard addr =
     (if addr < DYNAMIC_REGION_START then Inr None
      else let rel = addr - DYNAMIC_REGION_START in
        and_then (umul NUM_SLOTS SLOT_SIZE) (\<lambda>slot_region_len.
        if slot_region_len \<le> rel then Inr None
        else if FRAME_SIZE \<le> rel mod SLOT_SIZE then Inr None
        else and_then (slot_addrs (rel div SLOT_SIZE)) (\<lambda>stack.
          Inr (Some \<lparr>gm_guard = ks_guard stack, gm_bottom = ks_bottom stack\<rparr>))))"

subsection \<open>Allocating and freeing a stack\<close>

definition STACK_FLAGS :: page_flags where
  "STACK_FLAGS = FLAG_WRITABLE OR FLAG_NO_EXECUTE OR FLAG_GLOBAL"

definition map_stack_page :: "nat \<Rightarrow> kernel_stack \<Rightarrow> nat \<Rightarrow> mm_state \<Rightarrow> mm_state checked" where
  "map_stack_page space stack i s =
     and_then (alloc_frame_zeroed s) (\<lambda>(r, s1).
       case r of
         None \<Rightarrow> Inl (Assert_failed ''kstack::allocate: out of memory for a kernel stack'')
       | Some frame \<Rightarrow> and_then (uadd (ks_bottom stack) (i * FRAME_SIZE)) (\<lambda>virt.
           map_4k space virt frame STACK_FLAGS s1))"

definition kstack_allocate ::
    "nat \<Rightarrow> nat \<Rightarrow> mm_state \<Rightarrow> slot_allocator \<Rightarrow> (kernel_stack \<times> mm_state \<times> slot_allocator) checked" where
  "kstack_allocate kernel_pml4 pages s a =
     require (pages = STACK_PAGES) ''kstack::allocate: fixed-stride slots''
     (and_then (slot_claim a) (\<lambda>(index, a1).
      and_then (slot_addrs index) (\<lambda>stack.
      and_then (kernel_address_space kernel_pml4) (\<lambda>space.
      and_then (for_each [0..<STACK_PAGES] (map_stack_page space stack) s) (\<lambda>s1.
        Inr (stack, s1, a1))))))"

text \<open>One turn of the loop of \<open>free\<close>, which walks from \<open>bottom\<close> to \<open>top\<close> page by page.\<close>

definition unmap_stack_page :: "nat \<Rightarrow> nat \<Rightarrow> mm_state \<Rightarrow> mm_state checked" where
  "unmap_stack_page space addr s =
     and_then (unmap space addr s) (\<lambda>(r, s1).
       case r of None \<Rightarrow> Inr s1
       | Some phys \<Rightarrow> free_frame phys s1)"

definition stack_page_addrs :: "kernel_stack \<Rightarrow> nat list" where
  "stack_page_addrs stack = map (\<lambda>i. ks_bottom stack + i * FRAME_SIZE)
     [0..<div_ceil (ks_top stack - ks_bottom stack) FRAME_SIZE]"

definition kstack_free ::
    "nat \<Rightarrow> kernel_stack \<Rightarrow> bool \<Rightarrow> bool \<Rightarrow> mm_state \<Rightarrow> slot_allocator \<Rightarrow> (mm_state \<times> slot_allocator) checked" where
  "kstack_free kernel_pml4 stack owner_exited owner_is_current s a =
     require (\<not> owner_is_current) ''kstack::free: the currently running stack''
     (require owner_exited ''kstack::free: the owner has not exited''
     (and_then (kernel_address_space kernel_pml4) (\<lambda>space.
      and_then (for_each (stack_page_addrs stack) (unmap_stack_page space) s) (\<lambda>s1.
      and_then (usub (ks_guard stack) DYNAMIC_REGION_START) (\<lambda>offset.
        Inr (s1, slot_release (offset div SLOT_SIZE) a))))))"

subsection \<open>The slot layout\<close>

lemma slot_addrs_eq:
  assumes "index < NUM_SLOTS"
  shows "slot_addrs index = Inr \<lparr>ks_guard = DYNAMIC_REGION_START + index * SLOT_SIZE,
    ks_bottom = DYNAMIC_REGION_START + index * SLOT_SIZE + FRAME_SIZE,
    ks_top = DYNAMIC_REGION_START + index * SLOT_SIZE + SLOT_SIZE\<rparr>"
  using assms by (simp add: slot_addrs_def slot_consts umul_def uadd_def)

lemma slots_fit: "NUM_SLOTS * SLOT_SIZE \<le> DYNAMIC_REGION_END - DYNAMIC_REGION_START"
  by (simp add: slot_consts)

lemma in_slot_iff:
  fixes i off len size :: nat
  assumes "len \<le> size"
  shows "i * size + lo \<le> off \<and> off < i * size + lo + len \<and> lo + len \<le> size
    \<longleftrightarrow> off div size = i \<and> lo \<le> off mod size \<and> off mod size < lo + len \<and> lo + len \<le> size" (is "?L \<longleftrightarrow> ?R")
proof
  assume l: ?L
  define r where "r = off - i * size"
  have r: "off = i * size + r" "r < size" "lo \<le> r" "r < lo + len" using l by (auto simp: r_def)
  then show ?R using l by simp
next
  assume r: ?R
  then have "off = i * size + off mod size" using div_mult_mod_eq[of off size] by simp
  with r show ?L by linarith
qed

lemma find_guard_eq:
  "find_guard addr = Inr (if DYNAMIC_REGION_START \<le> addr \<and> (addr - DYNAMIC_REGION_START) div SLOT_SIZE < NUM_SLOTS
       \<and> (addr - DYNAMIC_REGION_START) mod SLOT_SIZE < FRAME_SIZE
     then Some \<lparr>gm_guard = DYNAMIC_REGION_START + (addr - DYNAMIC_REGION_START) div SLOT_SIZE * SLOT_SIZE,
       gm_bottom = DYNAMIC_REGION_START + (addr - DYNAMIC_REGION_START) div SLOT_SIZE * SLOT_SIZE + FRAME_SIZE\<rparr>
     else None)"
proof -
  have pos: "0 < SLOT_SIZE" and len: "umul NUM_SLOTS SLOT_SIZE = Inr (NUM_SLOTS * SLOT_SIZE)"
    by (simp_all add: slot_consts umul_def)
  have "NUM_SLOTS * SLOT_SIZE \<le> rel \<longleftrightarrow> \<not> rel div SLOT_SIZE < NUM_SLOTS" for rel
    using pos by (simp add: div_less_iff_less_mult not_less)
  then show ?thesis by (auto simp: find_guard_def Let_def len slot_addrs_eq not_less not_le)
qed

definition guard_page_of :: "nat \<Rightarrow> guard_match \<Rightarrow> bool" where
  "guard_page_of addr g \<longleftrightarrow> (\<exists>index stack. index < NUM_SLOTS \<and> slot_addrs index = Inr stack
     \<and> ks_guard stack \<le> addr \<and> addr < ks_bottom stack \<and> g = \<lparr>gm_guard = ks_guard stack, gm_bottom = ks_bottom stack\<rparr>)"

lemma in_guard_iff:
  "DYNAMIC_REGION_START + i * SLOT_SIZE \<le> addr \<and> addr < DYNAMIC_REGION_START + i * SLOT_SIZE + FRAME_SIZE
    \<longleftrightarrow> DYNAMIC_REGION_START \<le> addr \<and> (addr - DYNAMIC_REGION_START) div SLOT_SIZE = i
      \<and> (addr - DYNAMIC_REGION_START) mod SLOT_SIZE < FRAME_SIZE"
proof (cases "DYNAMIC_REGION_START \<le> addr")
  case True
  have f: "FRAME_SIZE < SLOT_SIZE" by (simp add: slot_consts)
  from True obtain off where "addr = DYNAMIC_REGION_START + off" using le_Suc_ex by blast
  then show ?thesis using in_slot_iff[of FRAME_SIZE SLOT_SIZE i 0 off] f by simp
qed auto

lemma guard_page_of_iff:
  "guard_page_of addr g \<longleftrightarrow> DYNAMIC_REGION_START \<le> addr \<and> (addr - DYNAMIC_REGION_START) div SLOT_SIZE < NUM_SLOTS
     \<and> (addr - DYNAMIC_REGION_START) mod SLOT_SIZE < FRAME_SIZE
     \<and> g = \<lparr>gm_guard = DYNAMIC_REGION_START + (addr - DYNAMIC_REGION_START) div SLOT_SIZE * SLOT_SIZE,
         gm_bottom = DYNAMIC_REGION_START + (addr - DYNAMIC_REGION_START) div SLOT_SIZE * SLOT_SIZE + FRAME_SIZE\<rparr>"
  (is "_ \<longleftrightarrow> ?a \<and> ?i < NUM_SLOTS \<and> ?m \<and> g = ?g ?i")
proof -
  have "guard_page_of addr g \<longleftrightarrow> (\<exists>index. index < NUM_SLOTS \<and> DYNAMIC_REGION_START + index * SLOT_SIZE \<le> addr
      \<and> addr < DYNAMIC_REGION_START + index * SLOT_SIZE + FRAME_SIZE \<and> g = ?g index)"
    unfolding guard_page_of_def by (intro ex_cong1) (auto simp: slot_addrs_eq)
  also have "\<dots> \<longleftrightarrow> (\<exists>index. index < NUM_SLOTS \<and> (?a \<and> ?i = index \<and> ?m) \<and> g = ?g index)"
    by (intro ex_cong1) (simp only: in_guard_iff[symmetric] conj_assoc)
  also have "\<dots> \<longleftrightarrow> ?a \<and> ?i < NUM_SLOTS \<and> ?m \<and> g = ?g ?i" by blast
  finally show ?thesis .
qed

text \<open>
  The overflow check of the double-fault handler is exact and needs no state: \<open>find_guard\<close>
  returns on every address, and it names a slot exactly when the address lies in that slot's guard
  page, whether or not the slot is allocated; every address outside all guard pages gives \<open>None\<close>.
\<close>

theorem find_guard_exact:
  "(find_guard addr = Inr (Some g) \<longleftrightarrow> guard_page_of addr g) \<and> (find_guard addr = Inr None \<longleftrightarrow> (\<nexists>g. guard_page_of addr g))"
  by (auto simp: find_guard_eq guard_page_of_iff)

text \<open>No address of a stack is in a guard page.\<close>

lemma stack_not_guard:
  assumes "index < NUM_SLOTS" "slot_addrs index = Inr stack" "ks_bottom stack \<le> addr" "addr < ks_top stack"
  shows "\<not> guard_page_of addr g"
proof -
  have f: "FRAME_SIZE < SLOT_SIZE" by (simp add: slot_consts)
  have s: "DYNAMIC_REGION_START + index * SLOT_SIZE + FRAME_SIZE \<le> addr" "addr < DYNAMIC_REGION_START + index * SLOT_SIZE + SLOT_SIZE"
    using assms by (auto simp: slot_addrs_eq)
  then have "DYNAMIC_REGION_START \<le> addr" by linarith
  then obtain off where "addr = DYNAMIC_REGION_START + off" using le_Suc_ex by blast
  then have "FRAME_SIZE \<le> (addr - DYNAMIC_REGION_START) mod SLOT_SIZE"
    using in_slot_iff[of "SLOT_SIZE - FRAME_SIZE" SLOT_SIZE index FRAME_SIZE off] f s by simp
  then show ?thesis by (simp add: guard_page_of_iff)
qed

subsection \<open>Mapping the pages of a stack\<close>

lemma STACK_FLAGS_bits: "\<not> bit STACK_FLAGS 7"
  by (simp add: STACK_FLAGS_def FLAG_WRITABLE_def FLAG_NO_EXECUTE_def FLAG_GLOBAL_def bit_or_iff bit_push_bit_iff)

lemma page_number_offset:
  assumes "FRAME_SIZE dvd b" "i < 2 ^ 36" "j < 2 ^ 36"
  shows "page_number (b + i * FRAME_SIZE) = page_number (b + j * FRAME_SIZE) \<longleftrightarrow> i = j"
proof -
  have "(b + k * FRAME_SIZE) div FRAME_SIZE = b div FRAME_SIZE + k" for k
    by (simp add: FRAME_SIZE_def)
  moreover have "(c + i) mod 2 ^ 36 = (c + j) mod 2 ^ 36 \<longleftrightarrow> i = j" for c :: nat
  proof
    assume "(c + i) mod 2 ^ 36 = (c + j) mod 2 ^ 36"
    then obtain q r where "c + i + 2 ^ 36 * q = c + j + 2 ^ 36 * r" unfolding nat_mod_eq_iff by blast
    then have "i + 2 ^ 36 * q = j + 2 ^ 36 * r" by linarith
    then have "i mod 2 ^ 36 = j mod 2 ^ 36" unfolding nat_mod_eq_iff by blast
    then show "i = j" using assms(2,3) by simp
  qed simp
  ultimately show ?thesis by (simp only: page_number_def)
qed


text \<open>
  The state after \<open>n\<close> pages of a stack were mapped from \<open>s0\<close>: page \<open>j\<close> resolves to the \<open>j\<close>-th
  of \<open>n\<close> different frames that were free before, are lent now, hold zeros and are no page table;
  every other address resolves as before.
\<close>

definition LEAF_FLAGS :: page_flags where
  "LEAF_FLAGS = from_bits_truncate (STACK_FLAGS OR FLAG_PRESENT)"

definition pages_mapped :: "nat \<Rightarrow> nat \<Rightarrow> mm_state \<Rightarrow> nat list \<Rightarrow> mm_state \<Rightarrow> bool" where
  "pages_mapped space bottom s0 fs s \<longleftrightarrow>
     (\<forall>v. lookup_va s space v =
        (case find (\<lambda>j. page_number v = page_number (bottom + j * FRAME_SIZE)) [0..<length fs] of
           Some j \<Rightarrow> Some (fs ! j + v mod FRAME_SIZE, LEAF_FLAGS, Normal)
         | None \<Rightarrow> lookup_va s0 space v))"

definition stack_frames :: "nat \<Rightarrow> mm_state \<Rightarrow> nat list \<Rightarrow> mm_state \<Rightarrow> bool" where
  "stack_frames space s0 fs s \<longleftrightarrow> space_wf s space \<and> same_hhdm s0 s \<and> distinct fs \<and> set fs \<subseteq> mm_avail s0
     \<and> set fs \<subseteq> mm_lent s \<and> set fs \<inter> tables_of s space = {} \<and> mm_avail s \<subseteq> mm_avail s0
     \<and> (\<forall>f\<in>set fs. \<forall>a. f \<le> a \<and> a < f + FRAME_SIZE \<longrightarrow> mm_ram s a = 0)
     \<and> tables_of s space \<subseteq> tables_of s0 space \<union> mm_avail s0
     \<and> card (mm_general s0) \<le> 4 * length fs + card (mm_general s)"

lemma pages_mapped_Nil: "pages_mapped space bottom s [] s"
  by (simp add: pages_mapped_def)

lemma find_upt_Suc:
  "find P [0..<Suc n] = (case find P [0..<n] of Some j \<Rightarrow> Some j | None \<Rightarrow> if P n then Some n else None)"
proof -
  have "find P (xs @ [x]) = (case find P xs of Some j \<Rightarrow> Some j | None \<Rightarrow> if P x then Some x else None)" for xs and x :: nat
    by (induction xs) auto
  then show ?thesis by simp
qed

text \<open>A step that touches no entry of a space's tables and takes none of them back.\<close>

lemma same_tables_keep:
  assumes wf: "space_wf s p" and ok: "vm_ok s'"
    and lent: "\<And>q t. pt_path q \<Longrightarrow> table_at s p q = Some t \<Longrightarrow> t \<in> mm_lent s'"
    and entry: "\<And>q t i. pt_path q \<Longrightarrow> table_at s p q = Some t \<Longrightarrow> i < 512 \<Longrightarrow> table_entry s' t i = table_entry s t i"
  shows "space_wf s' p" "lookup_va s' p v = lookup_va s p v" "tables_of s' p = tables_of s p"
proof -
  have at: "table_at s' p q = table_at s p q" if "pt_path q" for q
    by (rule table_at_same[of s p p 0 s']) (use that entry in \<open>auto simp: agree_but_def\<close>)
  show "space_wf s' p"
    unfolding space_wf_def using ok at entry lent space_wfD[OF wf] by (auto 4 4)
  show "lookup_va s' p v = lookup_va s p v" by (rule lookup_va_cong) (use at entry in auto)
  show "tables_of s' p = tables_of s p" using at by (auto simp: tables_of_def)
qed

lemma alloc_keeps_space:
  assumes wf: "space_wf s p" and run: "alloc_frame_zeroed s = Inr (Some n, s')" and ok: "vm_ok s'"
    and same: "same_hhdm s s'" and n: "n \<in> mm_general s" and av: "mm_avail s' = mm_avail s - {n}"
    and ram: "mm_ram s' = zero_frame n (mm_ram s)"
  shows "space_wf s' p" "lookup_va s' p v = lookup_va s p v" "tables_of s' p = tables_of s p"
    "mm_lent s' = insert n (mm_lent s)" "n \<notin> mm_lent s" "FRAME_SIZE dvd n" "n < 2 ^ 52"
proof -
  have avail: "n \<in> mm_avail s" using n mm_pools_avail(1) by blast
  then have man: "n \<in> mm_managed s" using mm_avail_managed[OF vm_okD(1)[OF space_wfD(1)[OF wf]]] by blast
  show lent: "mm_lent s' = insert n (mm_lent s)" and new: "n \<notin> mm_lent s"
    using same av man avail by (auto simp: mm_lent_def same_hhdm_def)
  show nf: "FRAME_SIZE dvd n" "n < 2 ^ 52" using vm_okD(2,3)[OF space_wfD(1)[OF wf] man] by auto
  have l: "t \<in> mm_lent s'" if "pt_path q" "table_at s p q = Some t" for q t
    using space_wfD(2)[OF wf that] lent by simp
  have e: "table_entry s' t i = table_entry s t i" if "pt_path q" "table_at s p q = Some t" "i < 512" for q t i
  proof -
    have "t \<noteq> n" using space_wfD(2)[OF wf that(1,2)] new by auto
    then show ?thesis using table_entry_zeroed[OF nf(1) _ that(3) ram] table_frame[OF wf that(1,2)] by simp
  qed
  note k = same_tables_keep[OF wf ok l e]
  show "space_wf s' p" by (rule k(1))
  show "lookup_va s' p v = lookup_va s p v" by (rule k(2))
  show "tables_of s' p = tables_of s p" by (rule k(3))
qed

lemma map_stack_page_ok:
  assumes pm: "pages_mapped space (ks_bottom stack) s0 fs s" and sf: "stack_frames space s0 fs s"
    and b: "FRAME_SIZE dvd ks_bottom stack" "ks_bottom stack + STACK_BYTES < u64_limit" and n: "length fs < STACK_PAGES"
    and room: "4 * STACK_PAGES \<le> card (mm_general s0) \<and> mm_inject_failures s0 = 0
      \<or> returns (map_stack_page space stack (length fs) s)"
    and none: "lookup_va s0 space (ks_bottom stack + length fs * FRAME_SIZE) = None"
  obtains f s' where "map_stack_page space stack (length fs) s = Inr s'"
    "pages_mapped space (ks_bottom stack) s0 (fs @ [f]) s'" "stack_frames space s0 (fs @ [f]) s'"
proof -
  let ?v = "ks_bottom stack + length fs * FRAME_SIZE"
  from sf have wf: "space_wf s space" and hh: "same_hhdm s0 s" and d: "distinct fs" and gen: "set fs \<subseteq> mm_avail s0"
    and lent: "set fs \<subseteq> mm_lent s" and nt: "set fs \<inter> tables_of s space = {}" and av: "mm_avail s \<subseteq> mm_avail s0"
    and z: "\<And>f a. f \<in> set fs \<Longrightarrow> f \<le> a \<Longrightarrow> a < f + FRAME_SIZE \<Longrightarrow> mm_ram s a = 0"
    and tb: "tables_of s space \<subseteq> tables_of s0 space \<union> mm_avail s0"
    and cd: "card (mm_general s0) \<le> 4 * length fs + card (mm_general s)"
    unfolding stack_frames_def by blast+
  have left: "4 \<le> card (mm_general s) \<and> mm_inject_failures s = 0 \<or> returns (map_stack_page space stack (length fs) s)"
    using cd room n hh by (auto simp: same_hhdm_def)
  from space_wfD(1)[OF wf] show thesis
  proof (cases rule: alloc_frame_zeroed_cases)
    case (none t)
    then show thesis using left by (auto simp: map_stack_page_def)
  next
    case (some f s1)
    note k = alloc_keeps_space[OF wf some(1,2,3,4,6,7)]
    have "card (mm_general s) = Suc (card (mm_general s1))"
      using some(4,5) finite_mm_general[of s] by (metis card_Suc_Diff1)
    then have left1: "3 \<le> card (mm_general s1) \<and> mm_inject_failures s1 = 0 \<or> returns (map_4k space ?v f STACK_FLAGS s1)"
      using left some(1,3) by (auto simp: same_hhdm_def map_stack_page_def returns_def checked_simps uadd_def split: if_splits)
    have sm: "(length fs) < 2 ^ 36" "STACK_PAGES < 2 ^ 36" using n by (simp_all add: slot_consts)
    have fresh: "find (\<lambda>j. page_number ?v = page_number (ks_bottom stack + j * FRAME_SIZE)) [0..<length fs] = None"
      using page_number_offset[OF b(1) sm(1)] sm by (auto simp: find_None_iff)
    have none1: "lookup_va s1 space ?v = None"
      using k(2)[of ?v] pm[unfolded pages_mapped_def, rule_format, of ?v] fresh none by simp
    have virt: "FRAME_SIZE dvd ?v" using b(1) by simp
    obtain s2 where m: "map_4k space ?v f STACK_FLAGS s1 = Inr s2" "space_wf s2 space" "same_hhdm s1 s2"
      "\<And>v. lookup_va s2 space v = (if page_number v = page_number ?v
        then Some (f + v mod FRAME_SIZE, LEAF_FLAGS, Normal) else lookup_va s1 space v)"
      "mm_lent s1 \<subseteq> mm_lent s2" "mm_avail s2 \<subseteq> mm_avail s1" "card (mm_general s1) \<le> 3 + card (mm_general s2)"
      "\<And>a. \<not> in_tables s2 space a \<Longrightarrow> mm_ram s2 a = mm_ram s1 a"
      "tables_of s2 space \<subseteq> tables_of s1 space \<union> mm_avail s1"
      using map_4k_returned[OF k(1) left1 virt k(6,7) STACK_FLAGS_bits none1] unfolding LEAF_FLAGS_def by metis
    have "length fs * FRAME_SIZE < STACK_BYTES" using n by (simp add: STACK_BYTES_def slot_consts)
    then have run: "map_stack_page space stack (length fs) s = Inr s2"
      using some(1) m(1) b(2) by (simp add: map_stack_page_def uadd_def)
    have new: "f \<notin> set fs" using lent k(5) by auto
    have fl: "set (fs @ [f]) \<subseteq> mm_lent s1" using lent k(4) by auto
    have dis: "set (fs @ [f]) \<inter> tables_of s2 space = {}"
      using nt k(3,5) tables_lent[OF wf] m(9) fl by (auto simp: mm_lent_def)
    have f_avail: "f \<in> mm_avail s0" using some(4) mm_pools_avail(1) av by blast
    have zero: "mm_ram s2 a = 0" if g: "g \<in> set (fs @ [f])" and a: "g \<le> a" "a < g + FRAME_SIZE" for g a
    proof -
      have "FRAME_SIZE dvd g" using g fl vm_okD(3)[OF some(2)] by (auto simp: mm_lent_def)
      then have "a div FRAME_SIZE * FRAME_SIZE = g" using a by (auto simp: dvd_def FRAME_SIZE_def)
      then have "\<not> in_tables s2 space a" using g dis by (auto simp: in_tables_iff[OF m(2)])
      moreover have "mm_ram s1 a = 0" using z[of g a] g a by (auto simp: some(7) zero_frame_def)
      ultimately show ?thesis using m(8) by simp
    qed
    have hh2: "same_hhdm s0 s2" using hh some(3) m(3) by (simp add: same_hhdm_def)
    have tb2: "tables_of s2 space \<subseteq> tables_of s0 space \<union> mm_avail s0"
      using m(9) k(3) tb some(6) av by auto
    have cd2: "card (mm_general s0) \<le> 4 * length (fs @ [f]) + card (mm_general s2)"
      using cd m(7) \<open>card (mm_general s) = Suc (card (mm_general s1))\<close> by simp
    have "stack_frames space s0 (fs @ [f]) s2"
      unfolding stack_frames_def
      using m(2) hh2 d new gen f_avail fl m(5) dis m(6) some(6) av zero tb2 cd2 by auto
    moreover have "pages_mapped space (ks_bottom stack) s0 (fs @ [f]) s2"
      unfolding pages_mapped_def
    proof
      fix v
      let ?f = "find (\<lambda>j. page_number v = page_number (ks_bottom stack + j * FRAME_SIZE)) [0..<length fs]"
      have old: "lookup_va s1 space v = (case ?f of Some j \<Rightarrow> Some (fs ! j + v mod FRAME_SIZE, LEAF_FLAGS, Normal)
          | None \<Rightarrow> lookup_va s0 space v)"
        using k(2)[of v] pm by (simp add: pages_mapped_def)
      have "?f = None" if "page_number v = page_number ?v" using fresh that by simp
      moreover have "j < length fs" if "?f = Some j" for j using that by (auto simp: find_Some_iff)
      ultimately show "lookup_va s2 space v = (case find (\<lambda>j. page_number v = page_number (ks_bottom stack + j * FRAME_SIZE))
            [0..<length (fs @ [f])] of Some j \<Rightarrow> Some ((fs @ [f]) ! j + v mod FRAME_SIZE, LEAF_FLAGS, Normal)
          | None \<Rightarrow> lookup_va s0 space v)"
        unfolding length_append_singleton find_upt_Suc m(4) old
        by (auto simp: nth_append split: option.splits)
    qed
    ultimately show thesis using run by (intro that)
  qed
qed

lemma kernel_space_nonzero:
  assumes "space_wf s k" shows "kernel_address_space k = Inr k"
proof -
  have "k \<in> mm_lent s" using space_wfD(2)[OF assms, of "[]" k] by simp
  then have "k \<noteq> 0" using vm_okD(1)[OF space_wfD(1)[OF assms]]
    by (auto simp: mm_lent_def mm_managed_def frame_addrs_def grantable_def FRAME_SIZE_def elim!: mm_invE)
  then show ?thesis by (simp add: kernel_address_space_def)
qed

text \<open>A slot is unmapped when no page of its stack resolves.\<close>

definition slot_unmapped :: "nat \<Rightarrow> kernel_stack \<Rightarrow> mm_state \<Rightarrow> bool" where
  "slot_unmapped space stack s \<longleftrightarrow> (\<forall>i<STACK_PAGES. lookup_va s space (ks_bottom stack + i * FRAME_SIZE) = None)"

lemma slot_geometry:
  assumes "index < NUM_SLOTS" "slot_addrs index = Inr stack"
  shows "FRAME_SIZE dvd ks_bottom stack" "ks_bottom stack + STACK_BYTES < u64_limit"
    "ks_top stack = ks_bottom stack + STACK_PAGES * FRAME_SIZE" "ks_bottom stack = ks_guard stack + FRAME_SIZE"
    "ks_guard stack = DYNAMIC_REGION_START + index * SLOT_SIZE"
proof -
  have s: "stack = \<lparr>ks_guard = DYNAMIC_REGION_START + index * SLOT_SIZE,
    ks_bottom = DYNAMIC_REGION_START + index * SLOT_SIZE + FRAME_SIZE,
    ks_top = DYNAMIC_REGION_START + index * SLOT_SIZE + SLOT_SIZE\<rparr>"
    using assms(2) by (simp add: slot_addrs_eq[OF assms(1)])
  have "FRAME_SIZE dvd DYNAMIC_REGION_START" "FRAME_SIZE dvd SLOT_SIZE" by (simp_all add: slot_consts)
  then show "FRAME_SIZE dvd ks_bottom stack" by (simp add: s)
  show "ks_bottom stack + STACK_BYTES < u64_limit" using assms(1) by (simp add: s slot_consts)
  show "ks_top stack = ks_bottom stack + STACK_PAGES * FRAME_SIZE" by (simp add: s slot_consts)
  show "ks_bottom stack = ks_guard stack + FRAME_SIZE" "ks_guard stack = DYNAMIC_REGION_START + index * SLOT_SIZE"
    by (simp_all add: s)
qed

lemma kstack_allocate_returned:
  assumes wf: "space_wf s k"
    and room: "4 * STACK_PAGES \<le> card (mm_general s) \<and> mm_inject_failures s = 0 \<or> returns (kstack_allocate k STACK_PAGES s a)"
    and claim: "slot_claim a = Inr (index, a')" "index < NUM_SLOTS" "slot_addrs index = Inr stack"
    and none: "slot_unmapped k stack s"
  obtains fs s' where "kstack_allocate k STACK_PAGES s a = Inr (stack, s', a')" "length fs = STACK_PAGES"
    "pages_mapped k (ks_bottom stack) s fs s'" "stack_frames k s fs s'"
proof -
  note g = slot_geometry[OF claim(2,3)]
  have start: "stack_frames k s [] s" using wf by (simp add: stack_frames_def same_hhdm_def)
  have room': "4 * STACK_PAGES \<le> card (mm_general s) \<and> mm_inject_failures s = 0 \<or> returns (for_each [0..<STACK_PAGES] (map_stack_page k stack) s)"
    using room claim kernel_space_nonzero[OF wf] by (auto simp: kstack_allocate_def returns_def checked_simps)
  have "\<exists>s'. for_each [0..<STACK_PAGES] (map_stack_page k stack) s = Inr s'
    \<and> for_each [0..<STACK_PAGES] (map_stack_page k stack) s = Inr s'
    \<and> (\<exists>fs. length fs = length [0..<STACK_PAGES] \<and> pages_mapped k (ks_bottom stack) s fs s' \<and> stack_frames k s fs s')"
  proof (rule for_each_invariant)
    show "for_each [] (map_stack_page k stack) s = Inr s
      \<and> (\<exists>fs. length fs = length [] \<and> pages_mapped k (ks_bottom stack) s fs s \<and> stack_frames k s fs s)"
      using start pages_mapped_Nil by auto
    fix pre i rest t
    assume xs: "[0..<STACK_PAGES] = pre @ i # rest"
      and P: "for_each pre (map_stack_page k stack) s = Inr t
        \<and> (\<exists>fs. length fs = length pre \<and> pages_mapped k (ks_bottom stack) s fs t \<and> stack_frames k s fs t)"
    from P obtain fs where fs: "length fs = length pre" "pages_mapped k (ks_bottom stack) s fs t" "stack_frames k s fs t" by blast
    have "length pre < STACK_PAGES" using arg_cong[OF xs, of length] by simp
    moreover from this have "i = length pre" using arg_cong[OF xs, of "\<lambda>ys. ys ! length pre"] by simp
    ultimately have i: "i = length fs" "length fs < STACK_PAGES" using fs(1) by simp_all
    have "lookup_va s k (ks_bottom stack + length fs * FRAME_SIZE) = None" using none i(2) by (simp add: slot_unmapped_def)
    moreover have "4 * STACK_PAGES \<le> card (mm_general s) \<and> mm_inject_failures s = 0 \<or> returns (map_stack_page k stack (length fs) t)"
      using room' P i(1) unfolding xs by (auto simp: for_each_append returns_def checked_simps)
    ultimately obtain f t' where
      "map_stack_page k stack (length fs) t = Inr t'" "pages_mapped k (ks_bottom stack) s (fs @ [f]) t'"
      "stack_frames k s (fs @ [f]) t'" using map_stack_page_ok[OF fs(2,3) g(1,2) i(2)] by metis
    then show "\<exists>t'. map_stack_page k stack i t = Inr t' \<and> for_each (pre @ [i]) (map_stack_page k stack) s = Inr t'
        \<and> (\<exists>fs. length fs = length (pre @ [i]) \<and> pages_mapped k (ks_bottom stack) s fs t' \<and> stack_frames k s fs t')"
      using i fs(1) P by (intro exI[of _ t']) (auto simp: for_each_append intro!: exI[of _ "fs @ [f]"])
  qed
  then obtain s' fs where r: "for_each [0..<STACK_PAGES] (map_stack_page k stack) s = Inr s'" "length fs = STACK_PAGES"
    "pages_mapped k (ks_bottom stack) s fs s'" "stack_frames k s fs s'" by auto
  then show thesis using claim kernel_space_nonzero[OF wf]
    by (intro that[of s' fs]) (simp_all add: kstack_allocate_def)
qed

lemma kstack_allocate_ok:
  assumes wf: "space_wf s k" and room: "4 * STACK_PAGES \<le> card (mm_general s)" and inj: "mm_inject_failures s = 0"
    and claim: "slot_claim a = Inr (index, a')" "index < NUM_SLOTS" "slot_addrs index = Inr stack"
    and none: "slot_unmapped k stack s"
  obtains fs s' where "kstack_allocate k STACK_PAGES s a = Inr (stack, s', a')" "length fs = STACK_PAGES"
    "pages_mapped k (ks_bottom stack) s fs s'" "stack_frames k s fs s'"
  by (rule kstack_allocate_returned[OF wf disjI1[OF conjI[OF room inj]] claim none]) (rule that; assumption)

lemma lookup_none_page:
  assumes "page_number v = page_number w"
  shows "lookup_va s p v = None \<longleftrightarrow> lookup_va s p w = None"
proof -
  have i: "pml4_index v = pml4_index w" "pdpt_index v = pdpt_index w" "pd_index v = pd_index w" "pt_index v = pt_index w"
    using assms by (simp_all add: page_number_eq_iff)
  have "lookup_pd s t v = None \<longleftrightarrow> lookup_pd s t w = None" for t
    by (auto simp: lookup_pd_def lookup_pt_def Let_def i split: option.splits if_splits)
  then show ?thesis by (simp add: lookup_va_def i split: option.splits)
qed

lemma page_number_within: "FRAME_SIZE dvd b \<Longrightarrow> x < FRAME_SIZE \<Longrightarrow> page_number (b + x) = page_number b"
  by (auto simp: page_number_def FRAME_SIZE_def dvd_def)

lemma pages_mapped_in:
  assumes "pages_mapped k b s0 fs s" "FRAME_SIZE dvd b" "length fs \<le> STACK_PAGES" "j < length fs" "x < FRAME_SIZE"
  shows "lookup_va s k (b + j * FRAME_SIZE + x) = Some (fs ! j + x, LEAF_FLAGS, Normal)"
proof -
  have al: "FRAME_SIZE dvd b + j * FRAME_SIZE" using assms(2) by simp
  have sm: "i < length fs \<Longrightarrow> i < 2 ^ 36" for i using assms(3) by (simp add: slot_consts)
  have "find (\<lambda>i. page_number (b + j * FRAME_SIZE + x) = page_number (b + i * FRAME_SIZE)) [0..<length fs] = Some j"
    unfolding page_number_within[OF al assms(5)]
    using assms(4) sm page_number_offset[OF assms(2)] by (auto simp: find_Some_iff intro!: exI[of _ j])
  moreover have "(b + j * FRAME_SIZE + x) mod FRAME_SIZE = x" 
  proof -
    obtain c where "b + j * FRAME_SIZE = FRAME_SIZE * c" using al by (rule dvdE)
    then show ?thesis using assms(5) by (simp only: mod_mult_self4 mod_less)
  qed
  ultimately show ?thesis using assms(1) by (simp add: pages_mapped_def)
qed

subsection \<open>Freeing a stack\<close>

text \<open>A live stack owns the frames of its pages: they are its own, lent, and no page tables.\<close>

definition stack_owned :: "nat \<Rightarrow> nat \<Rightarrow> nat list \<Rightarrow> mm_state \<Rightarrow> bool" where
  "stack_owned space bottom fs s \<longleftrightarrow> length fs = STACK_PAGES \<and> distinct fs \<and> set fs \<subseteq> mm_lent s \<and> set fs \<inter> tables_of s space = {}
     \<and> (\<forall>j<STACK_PAGES. lookup_va s space (bottom + j * FRAME_SIZE) = Some (fs ! j, LEAF_FLAGS, Normal))"

lemma stack_ownedD:
  assumes "stack_owned space bottom fs s"
  shows "length fs = STACK_PAGES" "distinct fs" "set fs \<subseteq> mm_lent s" "set fs \<inter> tables_of s space = {}"
    "j < STACK_PAGES \<Longrightarrow> lookup_va s space (bottom + j * FRAME_SIZE) = Some (fs ! j, LEAF_FLAGS, Normal)"
  using assms unfolding stack_owned_def by blast+

lemma allocated_owned:
  assumes "pages_mapped k b s0 fs s1" "stack_frames k s0 fs s1" "length fs = STACK_PAGES" "FRAME_SIZE dvd b"
  shows "stack_owned k b fs s1"
proof -
  have "lookup_va s1 k (b + j * FRAME_SIZE) = Some (fs ! j, LEAF_FLAGS, Normal)" if "j < STACK_PAGES" for j
    using pages_mapped_in[OF assms(1,4), of j 0] that assms(3) by (simp add: FRAME_SIZE_def)
  then show ?thesis using assms(2,3) by (simp add: stack_owned_def stack_frames_def)
qed

text \<open>After the first \<open>n\<close> pages were unmapped and their frames released.\<close>

definition pages_freed :: "nat \<Rightarrow> nat \<Rightarrow> nat list \<Rightarrow> mm_state \<Rightarrow> nat \<Rightarrow> mm_state \<Rightarrow> bool" where
  "pages_freed space bottom fs s1 n s \<longleftrightarrow> space_wf s space \<and> same_hhdm s1 s
     \<and> (\<forall>v. lookup_va s space v =
          (if \<exists>j<n. page_number v = page_number (bottom + j * FRAME_SIZE) then None else lookup_va s1 space v))
     \<and> mm_avail s = mm_avail s1 \<union> set (take n fs) \<and> tables_of s space = tables_of s1 space"

lemma free_keeps_space:
  assumes wf: "space_wf s p" and f: "f \<in> mm_lent s" "f \<notin> tables_of s p"
  obtains s' where "free_frame f s = Inr s'" "space_wf s' p" "\<And>v. lookup_va s' p v = lookup_va s p v"
    "tables_of s' p = tables_of s p" "same_hhdm s s'" "mm_avail s' = insert f (mm_avail s)"
proof -
  note ok = space_wfD(1)[OF wf]
  from f(1) have m: "f \<in> mm_managed s" "f \<notin> mm_avail s" by (simp_all add: mm_lent_def)
  obtain s' where r: "free_frame f s = Inr s'" "mm_avail s' = insert f (mm_avail s)" "mm_managed s' = mm_managed s" "mm_inv s'"
    using free_frame_lent[OF vm_okD(1)[OF ok] m] by metis
  have fr: "mm_ram s' = mm_ram s" "mm_hhdm_offset s' = mm_hhdm_offset s" "mm_inject_failures s' = mm_inject_failures s"
    using r(1) by (auto simp: free_frame_def with_pmm_def checked_simps Let_def split: option.splits)
  have same: "same_hhdm s s'" using fr r(3) by (simp add: same_hhdm_def)
  have lent: "t \<in> mm_lent s'" if "pt_path q" "table_at s p q = Some t" for q t
  proof -
    have "t \<noteq> f" using f(2) that by (auto simp: tables_of_def)
    then show ?thesis using space_wfD(2)[OF wf that] r(2,3) by (simp add: mm_lent_def)
  qed
  have entry: "table_entry s' t i = table_entry s t i" for t i by (simp add: table_entry_def fr(1))
  note k = same_tables_keep[OF wf vm_ok_transfer[OF ok same r(4)] lent entry]
  from r(1) k(1) k(2) k(3) same r(2) show thesis by (rule that)
qed

lemma unmap_stack_page_ok:
  assumes own: "stack_owned k (ks_bottom stack) fs s1"
    and g: "FRAME_SIZE dvd ks_bottom stack" and n: "n < STACK_PAGES"
    and P: "pages_freed k (ks_bottom stack) fs s1 n s"
  obtains s' where "unmap_stack_page k (ks_bottom stack + n * FRAME_SIZE) s = Inr s'"
    "pages_freed k (ks_bottom stack) fs s1 (Suc n) s'"
proof -
  let ?b = "ks_bottom stack" and ?v = "ks_bottom stack + n * FRAME_SIZE"
  from P have wf: "space_wf s k" and hh: "same_hhdm s1 s" and look: "\<And>v. lookup_va s k v =
      (if \<exists>j<n. page_number v = page_number (?b + j * FRAME_SIZE) then None else lookup_va s1 k v)"
    and av: "mm_avail s = mm_avail s1 \<union> set (take n fs)" and tb: "tables_of s k = tables_of s1 k"
    unfolding pages_freed_def by blast+
  note al = stack_ownedD(1)[OF own] and d = stack_ownedD(2)[OF own] and lent = stack_ownedD(3)[OF own] and nt = stack_ownedD(4)[OF own]
  have sm: "j < 2 ^ 36" if "j < STACK_PAGES" for j using that by (simp add: slot_consts)
  have pn: "page_number ?v = page_number (?b + j * FRAME_SIZE) \<longleftrightarrow> j = n" if "j < STACK_PAGES" for j
    using page_number_offset[OF g sm[OF n] sm[OF that]] by auto
  have np: "page_number ?v \<noteq> page_number (?b + j * FRAME_SIZE)" if "j < n" for j
    using pn[of j] that n by simp
  have vm: "?v mod FRAME_SIZE = 0" using g by (simp add: dvd_eq_mod_eq_0)
  have "lookup_va s1 k ?v = Some (fs ! n, LEAF_FLAGS, Normal)" by (rule stack_ownedD(5)[OF own n])
  moreover have "\<not> (\<exists>j<n. page_number ?v = page_number (?b + j * FRAME_SIZE))" using np by auto
  ultimately have l: "lookup_va s k ?v = Some (fs ! n, LEAF_FLAGS, Normal)" using look by simp
  have virt: "FRAME_SIZE dvd ?v" using g by simp
  from unmap_ok[OF wf virt] l obtain t where t: "unmap k ?v s = Inr (Some (fs ! n), t)" "space_wf t k"
    "\<And>v. lookup_va t k v = (if page_number v = page_number ?v then None else lookup_va s k v)" "same_hhdm s t"
    "mm_avail t = mm_avail s" "tables_of t k = tables_of s k"
    using vm by (auto simp: leaf_base_def same_leaf_def)
  have mem: "fs ! n \<in> set fs" using n al by simp
  have "fs ! n \<notin> set (take n fs)"
    using d n al by (auto simp: in_set_conv_nth nth_eq_iff_index_eq)
  then have "fs ! n \<in> mm_lent t"
    using mem lent hh t(4,5) av by (auto simp: mm_lent_def same_hhdm_def)
  moreover have "fs ! n \<notin> tables_of t k" using mem nt tb t(6) by auto
  ultimately obtain s' where s': "free_frame (fs ! n) t = Inr s'" "space_wf s' k" "\<And>v. lookup_va s' k v = lookup_va t k v"
    "tables_of s' k = tables_of t k" "same_hhdm t s'" "mm_avail s' = insert (fs ! n) (mm_avail t)"
    using free_keeps_space[OF t(2)] by metis
  have "pages_freed k ?b fs s1 (Suc n) s'"
    unfolding pages_freed_def
  proof (intro conjI allI)
    show "space_wf s' k" by (rule s'(2))
    show "same_hhdm s1 s'" using hh t(4) s'(5) by (simp add: same_hhdm_def)
    show "mm_avail s' = mm_avail s1 \<union> set (take (Suc n) fs)"
      using s'(6) t(5) av n al by (simp add: take_Suc_conv_app_nth)
    show "tables_of s' k = tables_of s1 k" using s'(4) t(6) tb by simp
    show "lookup_va s' k v = (if \<exists>j<Suc n. page_number v = page_number (?b + j * FRAME_SIZE) then None else lookup_va s1 k v)" for v
      using s'(3)[of v] t(3)[of v] look[of v] by (auto simp: less_Suc_eq)
  qed
  then show thesis using t(1) s'(1) by (intro that[of s']) (simp_all add: unmap_stack_page_def)
qed

lemma kstack_free_ok:
  assumes own: "stack_owned k (ks_bottom stack) fs s1" and wf: "space_wf s1 k"
    and slot: "index < NUM_SLOTS" "slot_addrs index = Inr stack"
  obtains s2 where "kstack_free k stack True False s1 a = Inr (s2, slot_release index a)"
    "pages_freed k (ks_bottom stack) fs s1 STACK_PAGES s2"
proof -
  note g = slot_geometry[OF slot]
  have addrs: "stack_page_addrs stack = map (\<lambda>i. ks_bottom stack + i * FRAME_SIZE) [0..<STACK_PAGES]"
    unfolding stack_page_addrs_def g(3) by (simp add: div_ceil_def FRAME_SIZE_def)
  have "\<exists>s2. for_each (stack_page_addrs stack) (unmap_stack_page k) s1 = Inr s2
    \<and> pages_freed k (ks_bottom stack) fs s1 (length (stack_page_addrs stack)) s2"
  proof (rule for_each_invariant)
    show "pages_freed k (ks_bottom stack) fs s1 (length []) s1"
      using wf by (simp add: pages_freed_def same_hhdm_def)
    fix pre x rest t
    assume xs: "stack_page_addrs stack = pre @ x # rest" and P: "pages_freed k (ks_bottom stack) fs s1 (length pre) t"
    have n: "length pre < STACK_PAGES" using arg_cong[OF xs, of length] addrs by simp
    have "x = stack_page_addrs stack ! length pre" by (simp add: xs)
    then have "x = ks_bottom stack + length pre * FRAME_SIZE" using n addrs by simp
    with unmap_stack_page_ok[OF own g(1) n P] show "\<exists>t'. unmap_stack_page k x t = Inr t'
        \<and> pages_freed k (ks_bottom stack) fs s1 (length (pre @ [x])) t'" by auto
  qed
  then obtain s2 where "for_each (stack_page_addrs stack) (unmap_stack_page k) s1 = Inr s2"
    "pages_freed k (ks_bottom stack) fs s1 STACK_PAGES s2" using addrs by auto
  moreover have "(ks_guard stack - DYNAMIC_REGION_START) div SLOT_SIZE = index" "DYNAMIC_REGION_START \<le> ks_guard stack"
    using g(5) by (simp_all add: slot_consts)
  ultimately show thesis using kernel_space_nonzero[OF wf]
    by (intro that[of s2]) (simp_all add: kstack_free_def usub_def)
qed

text \<open>The guard page is below the sixteen pages of the stack, none of which has its number.\<close>

lemma guard_not_in_stack:
  assumes "pages_mapped k (ks_bottom stack) s0 fs s" "length fs = STACK_PAGES" "index < NUM_SLOTS" "slot_addrs index = Inr stack"
    and x: "x < FRAME_SIZE"
  shows "lookup_va s k (ks_guard stack + x) = lookup_va s0 k (ks_guard stack + x)"
proof -
  note g = slot_geometry[OF assms(3,4)]
  have al: "FRAME_SIZE dvd ks_guard stack" using g(1) g(4) by simp
  have "page_number (ks_guard stack + x) \<noteq> page_number (ks_bottom stack + j * FRAME_SIZE)" if "j < STACK_PAGES" for j
    using page_number_offset[OF al, of 0 "Suc j"] that g(4) page_number_within[OF al x]
    by (simp add: slot_consts add.assoc)
  then have "find (\<lambda>j. page_number (ks_guard stack + x) = page_number (ks_bottom stack + j * FRAME_SIZE)) [0..<length fs] = None"
    using assms(2) by (auto simp: find_None_iff)
  then show ?thesis using assms(1) by (simp add: pages_mapped_def)
qed

text \<open>
  A kernel stack is what its users rely on, and freeing it undoes it: with a free slot whose
  pages are unmapped and enough frames, \<open>allocate\<close> returns; every page of the stack then resolves,
  writable and not executable, to its own frame, free before and filled with zeros, while the guard
  page resolves to nothing new; \<open>free\<close>, once its owner has exited, returns too, gives exactly these
  sixteen frames back to the allocator and the slot to the free list, and every address resolves
  as before.
\<close>

theorem kstack_roundtrip:
  assumes "space_wf s k" and "4 * STACK_PAGES \<le> card (mm_general s)" and "mm_inject_failures s = 0"
    and "slot_claim a = Inr (index, a')" "index < NUM_SLOTS" "slot_addrs index = Inr stack"
    and "\<forall>i<STACK_PAGES. translate k (ks_bottom stack + i * FRAME_SIZE) s = Inr None"
  shows "\<exists>fs s1 s2. kstack_allocate k STACK_PAGES s a = Inr (stack, s1, a')
    \<and> length fs = STACK_PAGES \<and> distinct fs \<and> set fs \<subseteq> mm_avail s
    \<and> (\<forall>j<STACK_PAGES. \<forall>x<FRAME_SIZE. translate k (ks_bottom stack + j * FRAME_SIZE + x) s1
         = Inr (Some (fs ! j + x, LEAF_FLAGS, Normal)) \<and> mm_ram s1 (fs ! j + x) = 0)
    \<and> (\<forall>x<FRAME_SIZE. translate k (ks_guard stack + x) s1 = translate k (ks_guard stack + x) s)
    \<and> kstack_free k stack True False s1 a' = Inr (s2, slot_release index a')
    \<and> mm_avail s2 = mm_avail s1 \<union> set fs \<and> (\<forall>v. translate k v s2 = translate k v s)"
proof -
  note g = slot_geometry[OF assms(5,6)]
  have none: "slot_unmapped k stack s" using assms(7) translate_lookup[OF assms(1)] by (simp add: slot_unmapped_def)
  obtain fs s1 where r: "kstack_allocate k STACK_PAGES s a = Inr (stack, s1, a')" "length fs = STACK_PAGES"
    "pages_mapped k (ks_bottom stack) s fs s1" "stack_frames k s fs s1"
    using kstack_allocate_ok[OF assms(1-6) none] by metis
  have own: "stack_owned k (ks_bottom stack) fs s1" by (rule allocated_owned[OF r(3,4,2) g(1)])
  obtain s2 where f: "kstack_free k stack True False s1 a' = Inr (s2, slot_release index a')"
    "pages_freed k (ks_bottom stack) fs s1 STACK_PAGES s2"
    using kstack_free_ok[OF own _ assms(5,6)] r(4) unfolding stack_frames_def by metis
  have sf: "space_wf s1 k" "distinct fs" "set fs \<subseteq> mm_avail s"
    "\<forall>f\<in>set fs. \<forall>a. f \<le> a \<and> a < f + FRAME_SIZE \<longrightarrow> mm_ram s1 a = 0"
    using r(4) unfolding stack_frames_def by blast+
  have pf: "space_wf s2 k" "mm_avail s2 = mm_avail s1 \<union> set fs" "\<And>v. lookup_va s2 k v =
      (if \<exists>j<STACK_PAGES. page_number v = page_number (ks_bottom stack + j * FRAME_SIZE) then None else lookup_va s1 k v)"
    using f(2) r(2) by (simp_all add: pages_freed_def)
  note tr = translate_lookup[OF assms(1)] translate_lookup[OF sf(1)] translate_lookup[OF pf(1)]
  have restored: "lookup_va s2 k v = lookup_va s k v" for v
  proof (cases "\<exists>j<STACK_PAGES. page_number v = page_number (ks_bottom stack + j * FRAME_SIZE)")
    case True
    then obtain j where j: "j < STACK_PAGES" "page_number v = page_number (ks_bottom stack + j * FRAME_SIZE)" by blast
    have "lookup_va s k (ks_bottom stack + j * FRAME_SIZE) = None" using none j(1) by (simp add: slot_unmapped_def)
    then have "lookup_va s k v = None" by (simp only: lookup_none_page[OF j(2)])
    then show ?thesis using True pf(3)[of v] by simp
  next
    case False
    then have "find (\<lambda>j. page_number v = page_number (ks_bottom stack + j * FRAME_SIZE)) [0..<length fs] = None"
      using r(2) by (auto simp: find_None_iff)
    then have "lookup_va s1 k v = lookup_va s k v" using r(3) by (simp add: pages_mapped_def)
    then show ?thesis using pf(3)[of v] False by simp
  qed
  have inside: "translate k (ks_bottom stack + j * FRAME_SIZE + x) s1 = Inr (Some (fs ! j + x, LEAF_FLAGS, Normal))
      \<and> mm_ram s1 (fs ! j + x) = 0" if "j < STACK_PAGES" "x < FRAME_SIZE" for j x
  proof -
    have "fs ! j \<in> set fs" using that(1) r(2) by simp
    then have "mm_ram s1 (fs ! j + x) = 0" using sf(4) that(2) by auto
    moreover have "lookup_va s1 k (ks_bottom stack + j * FRAME_SIZE + x) = Some (fs ! j + x, LEAF_FLAGS, Normal)"
      by (rule pages_mapped_in[OF r(3) g(1)]) (use that r(2) in simp_all)
    ultimately show ?thesis using tr(2) by simp
  qed
  have guard: "translate k (ks_guard stack + x) s1 = translate k (ks_guard stack + x) s" if "x < FRAME_SIZE" for x
    by (simp only: tr guard_not_in_stack[OF r(3,2) assms(5,6) that])
  have all: "translate k v s2 = translate k v s" for v using restored tr by simp
  show ?thesis
    using r(1,2) sf(2,3) inside guard f(1) pf(2) all
    by (intro exI[of _ fs] exI[of _ s1] exI[of _ s2]) blast
qed

text \<open>A map with 319 frames above the bitmap, and an empty address space in the first of them.\<close>

definition stack_demo_map :: "mem_entry list" where
  "stack_demo_map = [\<lparr>me_base = 4096, me_length = 8192, me_type = MEMMAP_USABLE\<rparr>,
     \<lparr>me_base = 1048576, me_length = 1310720, me_type = MEMMAP_USABLE\<rparr>]"

lemma stack_demo_space:
  obtains s k where "space_wf s k" "\<And>v. lookup_va s k v = None" "256 \<le> card (mm_general s)" "mm_inject_failures s = 0"
proof -
  let ?r = "\<lparr>me_base = 1048576, me_length = 1310720, me_type = MEMMAP_USABLE\<rparr>"
  have map: "boot_map stack_demo_map"
    by (simp add: boot_map_def memory_map_ok_def stack_demo_map_def entry_end_def usable_def FRAME_SIZE_def MAX_USABLE_REGIONS_def)
  have tot: "frames_total stack_demo_map = 576" "bitmap_bytes_for stack_demo_map = 72"
    by (simp_all add: frames_total_def highest_end_def stack_demo_map_def usable_def entry_end_def
        FRAME_SIZE_def bitmap_bytes_for_def div_ceil_def)
  have reg: "boot_region stack_demo_map = Some ?r"
    unfolding boot_region_def tot
    by (simp add: bitmap_region_for_def stack_demo_map_def usable_def LOW_MEM_LIMIT_def)
  have us: "usable_frames stack_demo_map = {1..<3} \<union> {256..<576}"
    by (simp add: usable_frames_def stack_demo_map_def usable_def entry_frames_interval[symmetric]
        entry_end_def div_ceil_def FRAME_SIZE_def)
  have pool: "{f \<in> usable_frames stack_demo_map. LOW_MEM_FRAME_COUNT \<le> f \<and> f \<notin> storage_frames ?r (bitmap_bytes_for stack_demo_map)}
      = {257..<576}"
    unfolding us tot by (auto simp: storage_frames_def LOW_MEM_FRAME_COUNT_def LOW_MEM_LIMIT_def FRAME_SIZE_def div_ceil_def)
  have v: "phys_to_virt demo_boot (me_base ?r) = Inr 18446603336222244864" using demo_virt by simp
  obtain s0 where boot: "pmm_init stack_demo_map demo_boot = Inr s0" and gen: "mm_general s0 = frame_addrs {257..<576}"
    using pmm_init_builds[OF map reg _ v] tot(1) unfolding pool by auto
  have reach: "pmm_reachable stack_demo_map (s0, {})" using boot by (rule pmm_reachable.reach_boot)
  have inv: "mm_inv s0" by (rule reachableD(1)[OF reach map])
  have fields: "mm_inject_failures s0 = 0" "mm_hhdm_offset s0 = 18446603336221196288"
    using boot by (auto simp: pmm_init_def demo_boot_def checked_simps)
  have "f < 576 * FRAME_SIZE" if "f \<in> mm_managed s0" for f
  proof -
    from reachable_split[OF reach map] reg
    have "mm_managed s0 = frame_addrs (initial_pool stack_demo_map ?r)" by auto
    with that obtain i where i: "f = i * FRAME_SIZE" "i \<in> initial_pool stack_demo_map ?r"
      by (auto elim: frame_addrs_cases)
    from initial_pool_facts(2)[OF map reg i(2)] i(1) tot(1) show ?thesis by (simp add: FRAME_SIZE_def)
  qed
  then have "f < 4503599627370496 \<and> f < 140737488355328" if "f \<in> mm_managed s0" for f
    using that unfolding FRAME_SIZE_def by fastforce
  then have ok: "vm_ok s0" using inv fields(2) by (simp add: vm_ok_def)
  have card: "card (mm_general s0) = 319"
    unfolding gen frame_addrs_def by (subst card_image) (auto simp: inj_on_def FRAME_SIZE_def)
  from ok show thesis
  proof (cases rule: alloc_frame_zeroed_cases)
    case (none t)
    then show thesis using card fields(1) by auto
  next
    case (some n t)
    note f = fresh_space[OF ok some(1)]
    have "card (mm_general t) = 318" using f(3,5) card by simp
    then show thesis using f(1,2,4) fields(1) by (intro that[of t n]) simp_all
  qed
qed

theorem kstack_roundtrip_witness:
  "\<exists>s k stack s1 a' s2. kstack_allocate k STACK_PAGES s slots_new = Inr (stack, s1, a')
    \<and> ks_guard stack = 0xffffc00000000000 \<and> kstack_free k stack True False s1 a' = Inr (s2, slot_release 0 a')"
proof (rule stack_demo_space)
  fix s k
  assume s: "space_wf s k" "\<And>v. lookup_va s k v = None" "256 \<le> card (mm_general s)" "mm_inject_failures s = 0"
  let ?stack = "\<lparr>ks_guard = DYNAMIC_REGION_START, ks_bottom = DYNAMIC_REGION_START + FRAME_SIZE, ks_top = DYNAMIC_REGION_START + SLOT_SIZE\<rparr>"
  have claim: "slot_claim slots_new = Inr (0, \<lparr>sl_next_fresh = 1, sl_free = []\<rparr>)"
    by (simp add: slot_claim_def slots_new_def NUM_SLOTS_def)
  have n: "0 < NUM_SLOTS" by (simp add: NUM_SLOTS_def)
  have a: "slot_addrs 0 = Inr ?stack" by (simp add: slot_addrs_eq[OF n])
  have room: "4 * STACK_PAGES \<le> card (mm_general s)" using s(3) by (simp add: STACK_PAGES_def FRAME_SIZE_def)
  have "\<forall>i<STACK_PAGES. translate k (ks_bottom ?stack + i * FRAME_SIZE) s = Inr None"
    using translate_lookup[OF s(1)] s(2) by simp
  from kstack_roundtrip[OF s(1) room s(4) claim n a this] obtain s1 s2 where
    r: "kstack_allocate k STACK_PAGES s slots_new = Inr (?stack, s1, \<lparr>sl_next_fresh = 1, sl_free = []\<rparr>)"
      "kstack_free k ?stack True False s1 \<lparr>sl_next_fresh = 1, sl_free = []\<rparr>
        = Inr (s2, slot_release 0 \<lparr>sl_next_fresh = 1, sl_free = []\<rparr>)" by blast
  have "ks_guard ?stack = 0xffffc00000000000" by (simp add: DYNAMIC_REGION_START_def)
  with r show ?thesis by blast
qed

subsection \<open>The slots in use\<close>

text \<open>The free list holds released slots below the bump mark, once each.\<close>

definition slots_ok :: "nat set \<Rightarrow> slot_allocator \<Rightarrow> bool" where
  "slots_ok used a \<longleftrightarrow> distinct (sl_free a) \<and> sl_next_fresh a \<le> NUM_SLOTS \<and> used \<inter> set (sl_free a) = {}
     \<and> used \<union> set (sl_free a) = {..<sl_next_fresh a}"

definition slot_index :: "kernel_stack \<Rightarrow> nat" where
  "slot_index stack = (ks_guard stack - DYNAMIC_REGION_START) div SLOT_SIZE"

lemma slots_ok_finite: "slots_ok used a \<Longrightarrow> finite used"
  unfolding slots_ok_def by (metis finite_Un finite_lessThan)

lemma slot_index_addrs: "index < NUM_SLOTS \<Longrightarrow> slot_addrs index = Inr stack \<Longrightarrow> slot_index stack = index"
  by (auto simp: slot_addrs_eq slot_index_def slot_consts)

lemma slot_claim_returns:
  assumes "slots_ok used a" "card used < NUM_SLOTS"
  shows "\<exists>r. slot_claim a = Inr r"
proof (cases "sl_free a = []")
  case True
  then have "used = {..<sl_next_fresh a}" using assms(1) by (simp add: slots_ok_def)
  then show ?thesis using True assms(2) by (simp add: slot_claim_def)
qed (simp add: slot_claim_def)

lemma slot_release_ok:
  "slots_ok used a \<Longrightarrow> index \<in> used \<Longrightarrow> slots_ok (used - {index}) (slot_release index a)"
  by (auto simp: slots_ok_def slot_release_def)

subsection \<open>The memory behind all stacks\<close>

definition slot_bottom :: "nat \<Rightarrow> nat" where
  "slot_bottom i = DYNAMIC_REGION_START + i * SLOT_SIZE + FRAME_SIZE"

lemma slot_bottom_addrs: "index < NUM_SLOTS \<Longrightarrow> slot_addrs index = Inr stack \<Longrightarrow> ks_bottom stack = slot_bottom index"
  by (auto simp: slot_addrs_eq slot_bottom_def)

lemma slot_pages_differ:
  assumes "i < NUM_SLOTS" "i' < NUM_SLOTS" "j < STACK_PAGES" "j' < STACK_PAGES" "i \<noteq> i'"
  shows "page_number (slot_bottom i + j * FRAME_SIZE) \<noteq> page_number (slot_bottom i' + j' * FRAME_SIZE)"
proof -
  have b: "slot_bottom i + j * FRAME_SIZE = DYNAMIC_REGION_START + (i * 17 + 1 + j) * FRAME_SIZE" for i j
    by (simp add: slot_bottom_def slot_consts algebra_simps)
  have "FRAME_SIZE dvd DYNAMIC_REGION_START" by (simp add: slot_consts)
  moreover have s: "i * 17 + 1 + j < 2 ^ 36" if "i < NUM_SLOTS" "j < STACK_PAGES" for i j using that by (simp add: slot_consts)
  moreover have "i * 17 + 1 + j \<noteq> i' * 17 + 1 + j'"
  proof
    assume e: "i * 17 + 1 + j = i' * 17 + 1 + j'"
    have "j < 17" "j' < 17" using assms(3,4) by (simp_all add: slot_consts)
    then have "(i * 17 + j) div 17 = i" "(i' * 17 + j') div 17 = i'" by simp_all
    then show False using e assms(5) by simp
  qed
  ultimately show ?thesis unfolding b using page_number_offset assms by blast
qed

text \<open>
  The slots in use have their frames, each its own; the others are unmapped.
\<close>

definition stacks_mapped :: "nat \<Rightarrow> nat set \<Rightarrow> mm_state \<Rightarrow> bool" where
  "stacks_mapped k used s \<longleftrightarrow> space_wf s k
     \<and> (\<exists>F. (\<forall>i\<in>used. stack_owned k (slot_bottom i) (F i) s) \<and> (\<forall>i\<in>used. \<forall>i'\<in>used. i \<noteq> i' \<longrightarrow> set (F i) \<inter> set (F i') = {}))
     \<and> (\<forall>i<NUM_SLOTS. i \<in> used \<or> (\<forall>j<STACK_PAGES. lookup_va s k (slot_bottom i + j * FRAME_SIZE) = None))"

lemma stacks_mappedE:
  assumes "stacks_mapped k used s"
  obtains F where "space_wf s k" "\<And>i. i \<in> used \<Longrightarrow> stack_owned k (slot_bottom i) (F i) s"
    "\<And>i i'. i \<in> used \<Longrightarrow> i' \<in> used \<Longrightarrow> i \<noteq> i' \<Longrightarrow> set (F i) \<inter> set (F i') = {}"
    "\<And>i j. i < NUM_SLOTS \<Longrightarrow> i \<notin> used \<Longrightarrow> j < STACK_PAGES \<Longrightarrow> lookup_va s k (slot_bottom i + j * FRAME_SIZE) = None"
proof -
  note st = assms[unfolded stacks_mapped_def]
  obtain F where F: "\<forall>i\<in>used. stack_owned k (slot_bottom i) (F i) s" "\<forall>i\<in>used. \<forall>i'\<in>used. i \<noteq> i' \<longrightarrow> set (F i) \<inter> set (F i') = {}"
    using st[THEN conjunct2, THEN conjunct1] by (elim exE conjE)
  note un = st[THEN conjunct2, THEN conjunct2]
  show thesis
  proof (rule that[of F])
    show "space_wf s k" by (rule st[THEN conjunct1])
    show "stack_owned k (slot_bottom i) (F i) s" if "i \<in> used" for i using F(1) that by (rule bspec)
    show "set (F i) \<inter> set (F i') = {}" if "i \<in> used" "i' \<in> used" "i \<noteq> i'" for i i'
      using bspec[OF bspec[OF F(2) that(1)] that(2)] that(3) by (rule mp)
    show "lookup_va s k (slot_bottom i + j * FRAME_SIZE) = None" if "i < NUM_SLOTS" "i \<notin> used" "j < STACK_PAGES" for i j
      using un that by (elim allE[of _ i]) simp
  qed
qed

lemma stack_owned_keep:
  assumes own: "stack_owned k (slot_bottom i) fs s" and lent: "set fs \<subseteq> mm_lent s'"
    and tb: "tables_of s' k \<subseteq> tables_of s k \<union> mm_avail s"
    and look: "\<And>j. j < STACK_PAGES \<Longrightarrow> lookup_va s' k (slot_bottom i + j * FRAME_SIZE) = lookup_va s k (slot_bottom i + j * FRAME_SIZE)"
  shows "stack_owned k (slot_bottom i) fs s'"
proof -
  have "set fs \<inter> mm_avail s = {}" using stack_ownedD(3)[OF own] by (auto simp: mm_lent_def)
  then have "set fs \<inter> tables_of s' k = {}" using stack_ownedD(4)[OF own] tb by blast
  then show ?thesis using stack_ownedD[OF own] lent look by (simp add: stack_owned_def)
qed

lemma stacks_mapped_add:
  assumes st: "stacks_mapped k used s" and n: "index < NUM_SLOTS" "index \<notin> used" "used \<subseteq> {..<NUM_SLOTS}"
    and al: "pages_mapped k (slot_bottom index) s fs s'" "stack_frames k s fs s'" "length fs = STACK_PAGES"
  shows "stacks_mapped k (insert index used) s'"
proof -
  obtain F where F: "\<And>i. i \<in> used \<Longrightarrow> stack_owned k (slot_bottom i) (F i) s" "\<And>i i'. i \<in> used \<Longrightarrow> i' \<in> used \<Longrightarrow> i \<noteq> i' \<Longrightarrow> set (F i) \<inter> set (F i') = {}"
    and un: "\<And>i j. i < NUM_SLOTS \<Longrightarrow> i \<notin> used \<Longrightarrow> j < STACK_PAGES \<Longrightarrow> lookup_va s k (slot_bottom i + j * FRAME_SIZE) = None"
    by (rule stacks_mappedE[OF st]) (rule that; assumption)
  from al(2) have sf: "space_wf s' k" "same_hhdm s s'" "set fs \<subseteq> mm_avail s" "mm_avail s' \<subseteq> mm_avail s" "tables_of s' k \<subseteq> tables_of s k \<union> mm_avail s"
    unfolding stack_frames_def by blast+
  have look: "lookup_va s' k (slot_bottom i + j * FRAME_SIZE) = lookup_va s k (slot_bottom i + j * FRAME_SIZE)"
    if "i < NUM_SLOTS" "j < STACK_PAGES" "i \<noteq> index" for i j
  proof -
    have "find (\<lambda>j'. page_number (slot_bottom i + j * FRAME_SIZE) = page_number (slot_bottom index + j' * FRAME_SIZE)) [0..<length fs] = None"
      using slot_pages_differ[OF that(1) n(1) that(2) _ that(3)] al(3) by (auto simp: find_None_iff)
    then show ?thesis using al(1) by (simp add: pages_mapped_def)
  qed
  have lent: "mm_lent s \<subseteq> mm_lent s'" using sf(2,4) by (auto simp: mm_lent_def same_hhdm_def)
  have "FRAME_SIZE dvd slot_bottom index" by (simp add: slot_bottom_def slot_consts)
  then have new: "stack_owned k (slot_bottom index) fs s'" by (rule allocated_owned[OF al])
  have old: "stack_owned k (slot_bottom i) (F i) s'" if "i \<in> used" for i
    using that n(2,3) stack_ownedD(3)[OF F(1)[OF that]] lent by (intro stack_owned_keep[OF F(1)[OF that] _ sf(5)] look) auto
  have new_disj: "set (F i) \<inter> set fs = {}" if "i \<in> used" for i
    using stack_ownedD(3)[OF F(1)[OF that]] sf(3) by (auto simp: mm_lent_def)
  let ?F = "F(index := fs)"
  have "\<forall>i\<in>insert index used. stack_owned k (slot_bottom i) (?F i) s'" using new old by simp
  moreover have "\<forall>i\<in>insert index used. \<forall>i'\<in>insert index used. i \<noteq> i' \<longrightarrow> set (?F i) \<inter> set (?F i') = {}"
  proof (intro ballI impI)
    fix i i' assume i: "i \<in> insert index used" "i' \<in> insert index used" "i \<noteq> i'"
    then consider "i = index" "i' \<in> used" | "i' = index" "i \<in> used" | "i \<in> used" "i' \<in> used" "i \<noteq> index" "i' \<noteq> index" by auto
    then show "set (?F i) \<inter> set (?F i') = {}"
      by cases (use new_disj F(2) i(3) in auto)
  qed
  moreover have "\<forall>i<NUM_SLOTS. i \<in> insert index used \<or> (\<forall>j<STACK_PAGES. lookup_va s' k (slot_bottom i + j * FRAME_SIZE) = None)"
    using look un by auto
  ultimately show ?thesis unfolding stacks_mapped_def by (intro conjI sf(1) exI[of _ ?F])
qed

lemma stacks_mapped_remove:
  assumes st: "stacks_mapped k used s" and n: "index \<in> used" "used \<subseteq> {..<NUM_SLOTS}" "slot_addrs index = Inr stack"
  obtains s' where "kstack_free k stack True False s a = Inr (s', slot_release index a)" "stacks_mapped k (used - {index}) s'"
proof -
  have ix: "index < NUM_SLOTS" using n by auto
  note b = slot_bottom_addrs[OF ix n(3)]
  obtain F where wf: "space_wf s k" and F: "\<And>i. i \<in> used \<Longrightarrow> stack_owned k (slot_bottom i) (F i) s"
      "\<And>i i'. i \<in> used \<Longrightarrow> i' \<in> used \<Longrightarrow> i \<noteq> i' \<Longrightarrow> set (F i) \<inter> set (F i') = {}"
    and un: "\<And>i j. i < NUM_SLOTS \<Longrightarrow> i \<notin> used \<Longrightarrow> j < STACK_PAGES \<Longrightarrow> lookup_va s k (slot_bottom i + j * FRAME_SIZE) = None"
    by (rule stacks_mappedE[OF st]) (rule that; assumption)
  have "stack_owned k (ks_bottom stack) (F index) s" using F(1)[OF n(1)] b by simp
  from kstack_free_ok[OF this wf ix n(3)] obtain s' where
    r: "kstack_free k stack True False s a = Inr (s', slot_release index a)" "pages_freed k (slot_bottom index) (F index) s STACK_PAGES s'"
    unfolding b by metis
  from r(2) have fr: "space_wf s' k" "same_hhdm s s'" "tables_of s' k = tables_of s k"
    "mm_avail s' = mm_avail s \<union> set (take STACK_PAGES (F index))"
    "\<And>v. lookup_va s' k v = (if \<exists>j<STACK_PAGES. page_number v = page_number (slot_bottom index + j * FRAME_SIZE) then None else lookup_va s k v)"
    unfolding pages_freed_def by blast+
  have look: "lookup_va s' k (slot_bottom i + j * FRAME_SIZE) = lookup_va s k (slot_bottom i + j * FRAME_SIZE)"
    if "i < NUM_SLOTS" "j < STACK_PAGES" "i \<noteq> index" for i j
    using slot_pages_differ[OF that(1) ix that(2) _ that(3)] unfolding fr(5) by auto
  have keep: "stack_owned k (slot_bottom i) (F i) s'" if "i \<in> used - {index}" for i
  proof (rule stack_owned_keep[OF F(1)])
    show "i \<in> used" using that by simp
    have "set (F i) \<inter> set (F index) = {}" using F(2)[of i index] that n(1) by auto
    then show "set (F i) \<subseteq> mm_lent s'"
      using stack_ownedD(1)[OF F(1)[OF n(1)]] stack_ownedD(3)[OF F(1)[of i]] that fr(2,4) by (auto simp: mm_lent_def same_hhdm_def)
    show "tables_of s' k \<subseteq> tables_of s k \<union> mm_avail s" using fr(3) by simp
    show "lookup_va s' k (slot_bottom i + j * FRAME_SIZE) = lookup_va s k (slot_bottom i + j * FRAME_SIZE)" if "j < STACK_PAGES" for j
      using \<open>i \<in> used - {index}\<close> n(2) that by (intro look) auto
  qed
  have "lookup_va s' k (slot_bottom i + j * FRAME_SIZE) = None" if "i < NUM_SLOTS" "i \<notin> used - {index}" "j < STACK_PAGES" for i j
  proof (cases "i = index")
    case True
    then show ?thesis unfolding fr(5) using that(3) by auto
  next
    case False
    then show ?thesis using look[OF that(1,3) False] un that by simp
  qed
  then have "\<forall>i<NUM_SLOTS. i \<in> used - {index} \<or> (\<forall>j<STACK_PAGES. lookup_va s' k (slot_bottom i + j * FRAME_SIZE) = None)" by blast
  moreover have "\<forall>i\<in>used - {index}. \<forall>i'\<in>used - {index}. i \<noteq> i' \<longrightarrow> set (F i) \<inter> set (F i') = {}"
    using F(2) by (intro ballI impI) simp
  moreover have "\<forall>i\<in>used - {index}. stack_owned k (slot_bottom i) (F i) s'" using keep by (intro ballI)
  ultimately have "stacks_mapped k (used - {index}) s'" unfolding stacks_mapped_def by (intro conjI fr(1) exI[of _ F])
  with r(1) show thesis by (rule that)
qed

text \<open>What \<open>allocate\<close> does when it returns, and when it does: with a slot and frames for the pages and their tables.\<close>

lemma slot_claim_fresh:
  assumes ok: "slots_ok used a" and c: "slot_claim a = Inr (index, a')"
  shows "index \<notin> used" "index < NUM_SLOTS" "slots_ok (insert index used) a'"
proof -
  have u: "sl_next_fresh a \<le> NUM_SLOTS" "used \<union> set (sl_free a) = {..<sl_next_fresh a}" "used \<inter> set (sl_free a) = {}" "distinct (sl_free a)"
    using ok unfolding slots_ok_def by blast+
  have "index \<notin> used \<and> index < NUM_SLOTS \<and> slots_ok (insert index used) a'"
  proof (cases "sl_free a = []")
    case True
    then show ?thesis using c u by (auto simp: slot_claim_def slots_ok_def checked_simps require_def split: if_splits)
  next
    case False
    let ?l = "butlast (sl_free a)" and ?i = "last (sl_free a)"
    have fr: "sl_free a = ?l @ [?i]" using False by simp
    have i: "index = ?i" "a' = a\<lparr>sl_free := ?l\<rparr>" using c False by (auto simp: slot_claim_def)
    have d: "distinct (?l @ [?i])" unfolding fr[symmetric] by (rule u(4))
    have e: "set (sl_free a) = insert ?i (set ?l)" using arg_cong[OF fr, of set] by simp
    have "?i \<in> {..<sl_next_fresh a}" using u(2) e by blast
    then show ?thesis using u d e unfolding i slots_ok_def by auto
  qed
  then show "index \<notin> used" "index < NUM_SLOTS" "slots_ok (insert index used) a'" by blast+
qed

lemma slots_ok_bound:
  assumes "slots_ok used a" shows "used \<subseteq> {..<NUM_SLOTS}"
proof -
  have u: "sl_next_fresh a \<le> NUM_SLOTS" "used \<union> set (sl_free a) = {..<sl_next_fresh a}" using assms unfolding slots_ok_def by blast+
  have "used \<subseteq> {..<sl_next_fresh a}" using u(2) by blast
  also have "\<dots> \<subseteq> {..<NUM_SLOTS}" using u(1) by simp
  finally show ?thesis .
qed

definition memory_for_stack :: "mm_state \<Rightarrow> bool" where
  "memory_for_stack s \<longleftrightarrow> 4 * STACK_PAGES \<le> card (mm_general s) \<and> mm_inject_failures s = 0"

lemma kstack_allocate_keeps:
  assumes st: "stacks_mapped k used s" and ok: "slots_ok used a"
    and run: "memory_for_stack s \<and> card used < NUM_SLOTS \<or> returns (kstack_allocate k STACK_PAGES s a)"
  obtains stack s' a' where "kstack_allocate k STACK_PAGES s a = Inr (stack, s', a')"
    "slot_index stack \<notin> used" "slot_index stack < NUM_SLOTS" "slot_addrs (slot_index stack) = Inr stack"
    "slots_ok (insert (slot_index stack) used) a'" "stacks_mapped k (insert (slot_index stack) used) s'"
    "card (mm_general s) \<le> 4 * STACK_PAGES + card (mm_general s')" "mm_inject_failures s = 0 \<longrightarrow> mm_inject_failures s' = 0"
proof -
  have wf: "space_wf s k" using st by (simp add: stacks_mapped_def)
  have "\<exists>x. slot_claim a = Inr x"
  proof (cases "card used < NUM_SLOTS")
    case True
    then show ?thesis by (rule slot_claim_returns[OF ok])
  next
    case False
    then show ?thesis using run by (auto simp: kstack_allocate_def returns_def checked_simps)
  qed
  then obtain index a' where c: "slot_claim a = Inr (index, a')" by auto
  note f = slot_claim_fresh[OF ok c]
  obtain stack where stack: "slot_addrs index = Inr stack" using slot_addrs_eq[OF f(2)] by blast
  note b = slot_bottom_addrs[OF f(2) stack] and ix = slot_index_addrs[OF f(2) stack]
  have none: "slot_unmapped k stack s" using st f(1,2) by (auto simp: slot_unmapped_def stacks_mapped_def b)
  have "4 * STACK_PAGES \<le> card (mm_general s) \<and> mm_inject_failures s = 0 \<or> returns (kstack_allocate k STACK_PAGES s a)"
    using run by (auto simp: memory_for_stack_def)
  from kstack_allocate_returned[OF wf this c f(2) stack none] obtain fs s' where
    r: "kstack_allocate k STACK_PAGES s a = Inr (stack, s', a')" "length fs = STACK_PAGES"
    "pages_mapped k (slot_bottom index) s fs s'" "stack_frames k s fs s'" unfolding b .
  from stacks_mapped_add[OF st f(2,1) slots_ok_bound[OF ok] r(3,4,2)] have "stacks_mapped k (insert index used) s'" .
  note k = this
  have b: "card (mm_general s) \<le> 4 * STACK_PAGES + card (mm_general s')" "mm_inject_failures s = 0 \<longrightarrow> mm_inject_failures s' = 0"
    using r(2,4) by (auto simp: stack_frames_def same_hhdm_def)
  show thesis by (rule that[OF r(1)]) (unfold ix, rule f(1), rule f(2), rule stack, rule f(3), rule k, rule b(1), rule b(2))
qed

end
