(* ===== verification/Sched.thy ===== *)
theory Sched
  imports Kstack "HOL-Library.Multiset"
begin

text \<open>
  \<open>kernel/src/sched\<close>: kernel threads and the preemptive round-robin scheduler (\<open>mod.rs\<close>,
  \<open>thread.rs\<close>, \<open>runqueue.rs\<close>, \<open>sleep.rs\<close>, \<open>waitqueue.rs\<close>), with the timer tick of \<open>time.rs\<close>.

  An \<open>Arc<Thread>\<close> is the thread's id; \<open>sc_threads\<close> holds the one allocation behind every id.  One
  core runs the kernel and every critical section runs with interrupts disabled, so each of them is
  one function on the state; \<open>spawn\<close>, which allocates the stack before it takes the scheduler's lock,
  is two of them.  Stacks are allocated and freed in the memory manager's own state, \<open>sc_kstacks\<close>;
  allocating or freeing one is one step, and \<open>force_exit\<close> retires the thread in the step that frees its
  stack.  Saved registers and the initial
  stack contents are not modelled: what \<open>switch_to\<close> hands over is the stack, the address space and the
  FPU state.  The heap allocations behind \<open>Arc\<close>, \<open>Box\<close> and the vectors are taken to succeed.
\<close>

subsection \<open>Threads\<close>

datatype thread_state = Ready | Running | Blocked | Sleeping | Exited

record thread =
  th_name :: string
  th_state :: thread_state
  th_stack :: kernel_stack
  th_exit_code :: int
  th_ticks_run :: nat
  th_dispatches :: nat
  th_handoff :: bool
  th_address_space :: "nat option"
  th_fpu :: "u8 list option"
  th_user_entry :: "nat \<times> nat"

text \<open>A user thread starts from the FPU image captured when the processor was set up.\<close>

definition thread_new ::
    "u8 list \<Rightarrow> string \<Rightarrow> kernel_stack \<Rightarrow> thread_state \<Rightarrow> nat option \<Rightarrow> nat \<times> nat \<Rightarrow> thread" where
  "thread_new pristine name stack st space user_entry_rsp =
     \<lparr>th_name = name, th_state = st, th_stack = stack, th_exit_code = 0, th_ticks_run = 0, th_dispatches = 0,
      th_handoff = False, th_address_space = space,
      th_fpu = (if space \<noteq> None then Some pristine else None),
      th_user_entry = (if space \<noteq> None then user_entry_rsp else (0, 0))\<rparr>"

subsection \<open>The scheduler's state\<close>

type_synonym tid = nat

text \<open>
  What \<open>kstack::allocate\<close> and \<open>free\<close> work on: the frames and page tables, and the slot allocator.
  \<open>kk_spawning\<close> collects the local variables \<open>stack\<close> of the calls of \<open>spawn\<close> between their two sections.
\<close>

record kstacks =
  kk_memory :: mm_state
  kk_slots :: slot_allocator
  kk_spawning :: "kernel_stack list"

record cpu =
  cp_rsp0 :: nat
  cp_kernel_rsp :: nat
  cp_current_thread :: nat
  cp_space :: nat
  cp_fpu :: "u8 list"
  cp_pristine_fpu :: "u8 list"

record sched =
  sc_threads :: "tid \<Rightarrow> thread"
  sc_current :: tid
  sc_idle :: tid
  sc_ready :: "tid list"
  sc_sleeping :: "(nat \<times> tid) list"
  sc_to_reap :: "tid list"
  sc_all :: "tid list"
  sc_retired :: "(tid \<times> int) list"
  sc_next_id :: nat
  sc_need_resched :: bool
  sc_timeslice_remaining :: nat
  sc_join_waiters :: "tid list"
  sc_ticks :: nat
  sc_kstacks :: kstacks
  sc_kernel_pml4 :: nat
  sc_cpu :: cpu

definition MAX_THREADS :: nat where "MAX_THREADS = 64"
definition TIMESLICE_TICKS :: nat where "TIMESLICE_TICKS = 10"
definition MAX_RETIRED :: nat where "MAX_RETIRED = 128"

definition state_of :: "sched \<Rightarrow> tid \<Rightarrow> thread_state" where
  "state_of s t = th_state (sc_threads s t)"

definition upd_thread :: "tid \<Rightarrow> (thread \<Rightarrow> thread) \<Rightarrow> sched \<Rightarrow> sched" where
  "upd_thread t f s = s\<lparr>sc_threads := (sc_threads s)(t := f (sc_threads s t))\<rparr>"

definition set_state :: "tid \<Rightarrow> thread_state \<Rightarrow> sched \<Rightarrow> sched" where
  "set_state t st = upd_thread t (\<lambda>th. th\<lparr>th_state := st\<rparr>)"

definition set_exit_code :: "tid \<Rightarrow> int \<Rightarrow> sched \<Rightarrow> sched" where
  "set_exit_code t code = upd_thread t (\<lambda>th. th\<lparr>th_exit_code := code\<rparr>)"

text \<open>\<open>fetch_add(1)\<close> wraps.\<close>

definition record_tick :: "tid \<Rightarrow> sched \<Rightarrow> sched" where
  "record_tick t = upd_thread t (\<lambda>th. th\<lparr>th_ticks_run := (th_ticks_run th + 1) mod u64_limit\<rparr>)"

definition record_dispatch :: "tid \<Rightarrow> sched \<Rightarrow> sched" where
  "record_dispatch t = upd_thread t (\<lambda>th. th\<lparr>th_dispatches := (th_dispatches th + 1) mod u64_limit\<rparr>)"

definition grant_handoff :: "tid \<Rightarrow> sched \<Rightarrow> sched" where
  "grant_handoff t = upd_thread t (\<lambda>th. th\<lparr>th_handoff := True\<rparr>)"

definition take_handoff :: "tid \<Rightarrow> sched \<Rightarrow> bool \<times> sched" where
  "take_handoff t s = (th_handoff (sc_threads s t), upd_thread t (\<lambda>th. th\<lparr>th_handoff := False\<rparr>) s)"

subsection \<open>The ready queue\<close>

definition push_back :: "tid \<Rightarrow> sched \<Rightarrow> sched checked" where
  "push_back t s = require (length (sc_ready s) < MAX_THREADS) ''sched::RunQueue: exceeded its reserved capacity''
     (Inr (s\<lparr>sc_ready := sc_ready s @ [t]\<rparr>))"

definition ready_len :: "sched \<Rightarrow> nat" where
  "ready_len s = length (sc_ready s)"

subsection \<open>Waking\<close>

definition wake :: "tid \<Rightarrow> sched \<Rightarrow> sched checked" where
  "wake t s =
     (if state_of s t = Blocked \<or> state_of s t = Sleeping then
        and_then (push_back t (set_state t Ready s)) (\<lambda>s1.
          Inr (if sc_current s1 = sc_idle s1 then s1\<lparr>sc_need_resched := True\<rparr> else s1))
      else Inr s)"

text \<open>\<open>Vec::swap_remove\<close> puts the last element into the hole.\<close>

definition swap_remove :: "nat \<Rightarrow> 'a list \<Rightarrow> 'a list" where
  "swap_remove i xs = (butlast xs)[i := last xs]"

lemma length_swap_remove [simp]: "length (swap_remove i xs) = length xs - 1"
  by (simp add: swap_remove_def)

function wake_due :: "nat \<Rightarrow> nat \<Rightarrow> bool \<Rightarrow> sched \<Rightarrow> (bool \<times> sched) checked" where
  "wake_due now i woke_any s =
     (if i < length (sc_sleeping s) then
        (if fst (sc_sleeping s ! i) \<le> now then
           (let t = snd (sc_sleeping s ! i); s1 = s\<lparr>sc_sleeping := swap_remove i (sc_sleeping s)\<rparr> in
            if state_of s1 t = Sleeping then
              and_then (push_back t (set_state t Ready s1)) (\<lambda>s2. wake_due now i True s2)
            else wake_due now i woke_any s1)
         else wake_due now (i + 1) woke_any s)
      else Inr (woke_any, s))"
  by auto
termination
  by (relation "measure (\<lambda>(now, i, w, s). length (sc_sleeping s) - i)")
    (auto simp: push_back_def set_state_def upd_thread_def require_def split: if_splits)

declare wake_due.simps [simp del]

subsection \<open>Retiring and reaping\<close>

definition retire :: "tid \<Rightarrow> sched \<Rightarrow> sched" where
  "retire t s =
     (let kept = (if MAX_RETIRED \<le> length (sc_retired s) then tl (sc_retired s) else sc_retired s) in
      s\<lparr>sc_all := filter (\<lambda>u. u \<noteq> t) (sc_all s),
        sc_retired := kept @ [(t, th_exit_code (sc_threads s t))]\<rparr>)"

definition free_stack :: "tid \<Rightarrow> bool \<Rightarrow> bool \<Rightarrow> sched \<Rightarrow> sched checked" where
  "free_stack t is_exited is_current s =
     and_then (kstack_free (sc_kernel_pml4 s) (th_stack (sc_threads s t)) is_exited is_current
         (kk_memory (sc_kstacks s)) (kk_slots (sc_kstacks s))) (\<lambda>(mm, slots).
       Inr (s\<lparr>sc_kstacks := (sc_kstacks s)\<lparr>kk_memory := mm, kk_slots := slots\<rparr>\<rparr>))"

definition reap_one :: "tid \<Rightarrow> sched \<Rightarrow> sched checked" where
  "reap_one t s =
     and_then (free_stack t (state_of s t = Exited) (t = sc_current s) s) (\<lambda>s1. Inr (retire t s1))"

definition reap :: "sched \<Rightarrow> sched checked" where
  "reap s = for_each (sc_to_reap s) reap_one (s\<lparr>sc_to_reap := []\<rparr>)"

subsection \<open>\<open>schedule\<close>\<close>

definition requeue :: "sched \<Rightarrow> sched checked" where
  "requeue s =
     (let prev = sc_current s in
      if prev = sc_idle s then Inr s
      else case state_of s prev of
        Running \<Rightarrow> push_back prev (set_state prev Ready s)
      | Exited \<Rightarrow> Inr (s\<lparr>sc_to_reap := sc_to_reap s @ [prev]\<rparr>)
      | Blocked \<Rightarrow> Inr s
      | Sleeping \<Rightarrow> Inr s
      | Ready \<Rightarrow> Inl (Assert_failed ''schedule: the current thread can't already be Ready''))"

text \<open>The loop that pops the ready queue, setting aside threads killed while they waited in it.\<close>

fun pick_next :: "(tid \<Rightarrow> thread_state) \<Rightarrow> tid \<Rightarrow> tid list \<Rightarrow> tid list \<Rightarrow> tid \<times> tid list \<times> tid list" where
  "pick_next st idle [] to_reap = (idle, [], to_reap)"
| "pick_next st idle (candidate # ready) to_reap =
     (if st candidate = Exited then pick_next st idle ready (to_reap @ [candidate])
      else (candidate, ready, to_reap))"

definition dispatch :: "sched \<Rightarrow> sched" where
  "dispatch s =
     (case pick_next (state_of s) (sc_idle s) (sc_ready s) (sc_to_reap s) of
        (next, ready, to_reap) \<Rightarrow>
          (record_dispatch next (set_state next Running (s\<lparr>sc_ready := ready, sc_to_reap := to_reap\<rparr>)))
            \<lparr>sc_current := next\<rparr>)"

definition space_of :: "sched \<Rightarrow> tid \<Rightarrow> nat checked" where
  "space_of s t =
     (case th_address_space (sc_threads s t) of Some sp \<Rightarrow> Inr sp | None \<Rightarrow> kernel_address_space (sc_kernel_pml4 s))"

definition save_fpu :: "tid \<Rightarrow> sched \<Rightarrow> sched" where
  "save_fpu t s = upd_thread t (\<lambda>th. th\<lparr>th_fpu := map_option (\<lambda>_. cp_fpu (sc_cpu s)) (th_fpu th)\<rparr>) s"

definition switch_context :: "tid \<Rightarrow> tid \<Rightarrow> sched \<Rightarrow> sched checked" where
  "switch_context prev next s =
     (let top = ks_top (th_stack (sc_threads s next));
          s1 = s\<lparr>sc_timeslice_remaining := TIMESLICE_TICKS,
                 sc_cpu := (sc_cpu s)\<lparr>cp_rsp0 := top, cp_kernel_rsp := top, cp_current_thread := next\<rparr>\<rparr> in
      and_then (space_of s1 prev) (\<lambda>prev_space.
      and_then (space_of s1 next) (\<lambda>next_space.
        let s2 = (if next_space \<noteq> prev_space then s1\<lparr>sc_cpu := (sc_cpu s1)\<lparr>cp_space := next_space\<rparr>\<rparr> else s1);
            s3 = save_fpu prev s2 in
        Inr (case th_fpu (sc_threads s3 next) of
               Some regs \<Rightarrow> s3\<lparr>sc_cpu := (sc_cpu s3)\<lparr>cp_fpu := regs\<rparr>\<rparr>
             | None \<Rightarrow> s3))))"

definition schedule :: "sched \<Rightarrow> sched checked" where
  "schedule s =
     and_then (reap s) (\<lambda>s1.
     and_then (requeue s1) (\<lambda>s2.
       let s3 = dispatch s2 in
       if sc_current s3 = sc_current s1 then Inr s3 else switch_context (sc_current s1) (sc_current s3) s3))"

definition yield_now :: "sched \<Rightarrow> sched checked" where
  "yield_now = schedule"

definition preempt_if_needed :: "sched \<Rightarrow> sched checked" where
  "preempt_if_needed s =
     (if sc_need_resched s then schedule (s\<lparr>sc_need_resched := False\<rparr>) else Inr s)"

subsection \<open>Time\<close>

definition on_timer_tick :: "sched \<Rightarrow> sched checked" where
  "on_timer_tick s =
     and_then (wake_due (sc_ticks s) 0 False (record_tick (sc_current s) s)) (\<lambda>(woke_any, s1).
       let s2 = (if woke_any \<and> sc_current s1 = sc_idle s1 then s1\<lparr>sc_need_resched := True\<rparr> else s1) in
       Inr (if sc_timeslice_remaining s2 \<le> 1 then
              s2\<lparr>sc_timeslice_remaining := TIMESLICE_TICKS, sc_need_resched := True\<rparr>
            else s2\<lparr>sc_timeslice_remaining := sc_timeslice_remaining s2 - 1\<rparr>))"

text \<open>The timer interrupt: the tick, then (after EOI) the reschedule it may have asked for.\<close>

definition timer_irq :: "sched \<Rightarrow> sched checked" where
  "timer_irq s =
     and_then (on_timer_tick (s\<lparr>sc_ticks := (sc_ticks s + 1) mod u64_limit\<rparr>)) preempt_if_needed"

subsection \<open>Blocking\<close>

definition block_current :: "(tid \<Rightarrow> sched \<Rightarrow> bool \<times> sched) \<Rightarrow> sched \<Rightarrow> sched checked" where
  "block_current prepare s =
     (let t = sc_current s in
      case prepare t (set_state t Blocked s) of
        (True, s1) \<Rightarrow> schedule s1
      | (False, s1) \<Rightarrow> Inr (set_state t Running s1))"

definition sleep_ms :: "nat \<Rightarrow> sched \<Rightarrow> sched checked" where
  "sleep_ms ms s =
     (let wake_at = saturating_add (sc_ticks s) ms in
      block_current (\<lambda>t s. (True, (set_state t Sleeping s)\<lparr>sc_sleeping := sc_sleeping s @ [(wake_at, t)]\<rparr>)) s)"

text \<open>A wait queue is the list of its waiters.  \<open>pop\<close> discards exited ones.\<close>

fun wq_pop :: "(tid \<Rightarrow> thread_state) \<Rightarrow> tid list \<Rightarrow> tid option \<times> tid list" where
  "wq_pop st [] = (None, [])"
| "wq_pop st (t # waiters) = (if st t \<noteq> Exited then (Some t, waiters) else wq_pop st waiters)"

definition wake_one :: "tid list \<Rightarrow> sched \<Rightarrow> (tid list \<times> sched) checked" where
  "wake_one waiters s =
     (case wq_pop (state_of s) waiters of
        (None, ws) \<Rightarrow> Inr (ws, s)
      | (Some t, ws) \<Rightarrow> and_then (wake t s) (\<lambda>s1. Inr (ws, s1)))"

lemma wq_pop_shorter: "wq_pop st ws = (Some t, ws') \<Longrightarrow> length ws' < length ws"
  by (induction st ws rule: wq_pop.induct) (auto split: if_splits)

function wake_all :: "tid list \<Rightarrow> sched \<Rightarrow> sched checked" where
  "wake_all waiters s =
     (case wq_pop (state_of s) waiters of
        (None, _) \<Rightarrow> Inr s
      | (Some t, ws) \<Rightarrow> and_then (wake t s) (wake_all ws))"
  by auto
termination
  by (relation "measure (\<lambda>(ws, s). length ws)") (auto dest: wq_pop_shorter[OF sym])

declare wake_all.simps [simp del]

definition wake_joiners :: "sched \<Rightarrow> sched checked" where
  "wake_joiners s = wake_all (sc_join_waiters s) (s\<lparr>sc_join_waiters := []\<rparr>)"

subsection \<open>Creating and ending threads\<close>

definition sched_init ::
    "kernel_stack \<Rightarrow> mm_state \<Rightarrow> slot_allocator \<Rightarrow> nat \<Rightarrow> nat \<Rightarrow> cpu \<Rightarrow> (tid \<Rightarrow> thread) \<Rightarrow> sched checked" where
  "sched_init boot_stack mm slots kernel_pml4 ticks cpu arena =
     and_then (kstack_allocate kernel_pml4 STACK_PAGES mm slots) (\<lambda>(idle_stack, mm1, slots1).
       let main = thread_new (cp_pristine_fpu cpu) ''main'' boot_stack Running None (0, 0);
           idle = thread_new (cp_pristine_fpu cpu) ''idle'' idle_stack Ready None (0, 0) in
       Inr \<lparr>sc_threads = arena(0 := main, 1 := idle), sc_current = 0, sc_idle = 1, sc_ready = [], sc_sleeping = [],
         sc_to_reap = [], sc_all = [0, 1], sc_retired = [], sc_next_id = 2, sc_need_resched = False,
         sc_timeslice_remaining = TIMESLICE_TICKS, sc_join_waiters = [], sc_ticks = ticks,
         sc_kstacks = \<lparr>kk_memory = mm1, kk_slots = slots1, kk_spawning = []\<rparr>,
         sc_kernel_pml4 = kernel_pml4, sc_cpu = cpu\<rparr>)"

text \<open>
  \<open>spawn\<close> and \<open>spawn_user\<close>, which differ in the address space and entry they record: the stack is
  allocated, and then, under the scheduler's lock, the thread registered.
\<close>

definition spawn_allocate :: "sched \<Rightarrow> (kernel_stack \<times> sched) checked" where
  "spawn_allocate s =
     and_then (kstack_allocate (sc_kernel_pml4 s) STACK_PAGES (kk_memory (sc_kstacks s)) (kk_slots (sc_kstacks s)))
       (\<lambda>(stack, mm, slots).
          Inr (stack, s\<lparr>sc_kstacks := \<lparr>kk_memory = mm, kk_slots = slots, kk_spawning = stack # kk_spawning (sc_kstacks s)\<rparr>\<rparr>))"

definition spawn_register ::
    "string \<Rightarrow> nat option \<Rightarrow> nat \<times> nat \<Rightarrow> kernel_stack \<Rightarrow> sched \<Rightarrow> (tid \<times> sched) checked" where
  "spawn_register name space user_entry_rsp stack s =
     and_then (uadd (sc_next_id s) 1) (\<lambda>next_id.
       let id = sc_next_id s;
           s1 = s\<lparr>sc_kstacks := (sc_kstacks s)\<lparr>kk_spawning := remove1 stack (kk_spawning (sc_kstacks s))\<rparr>, sc_next_id := next_id,
                  sc_threads := (sc_threads s)(id := thread_new (cp_pristine_fpu (sc_cpu s)) name stack Ready space user_entry_rsp),
                  sc_all := sc_all s @ [id]\<rparr> in
       and_then (push_back id s1) (\<lambda>s2. Inr (id, s2)))"

definition spawn_thread :: "string \<Rightarrow> nat option \<Rightarrow> nat \<times> nat \<Rightarrow> sched \<Rightarrow> (tid \<times> sched) checked" where
  "spawn_thread name space user_entry_rsp s =
     and_then (spawn_allocate s) (\<lambda>(stack, s1). spawn_register name space user_entry_rsp stack s1)"

definition spawn :: "string \<Rightarrow> sched \<Rightarrow> (tid \<times> sched) checked" where
  "spawn name = spawn_thread name None (0, 0)"

definition spawn_user :: "string \<Rightarrow> nat \<Rightarrow> nat \<Rightarrow> nat \<Rightarrow> sched \<Rightarrow> (tid \<times> sched) checked" where
  "spawn_user name space user_entry user_rsp = spawn_thread name (Some space) (user_entry, user_rsp)"

definition exit_current :: "sched \<Rightarrow> sched checked" where
  "exit_current s = and_then (wake_joiners (set_state (sc_current s) Exited s)) schedule"

text \<open>The trampoline when the thread's entry returned \<open>code\<close>.\<close>

definition thread_return :: "int \<Rightarrow> sched \<Rightarrow> sched checked" where
  "thread_return code s = exit_current (set_exit_code (sc_current s) code s)"

definition find_thread :: "tid \<Rightarrow> sched \<Rightarrow> tid option" where
  "find_thread who s = List.find (\<lambda>t. t = who) (sc_all s)"

datatype lookup_outcome = Live tid | Retired int

definition sched_lookup :: "tid \<Rightarrow> sched \<Rightarrow> lookup_outcome option" where
  "sched_lookup who s =
     (case find_thread who s of
        Some t \<Rightarrow> Some (Live t)
      | None \<Rightarrow> map_option (\<lambda>(_, code). Retired code) (List.find (\<lambda>(rid, _). rid = who) (sc_retired s)))"

text \<open>\<open>join\<close>: one turn of its \<open>wait_until\<close>; \<open>None\<close> is having to wait (the thread is parked).\<close>

definition join_turn :: "tid \<Rightarrow> sched \<Rightarrow> (int option \<times> sched) checked" where
  "join_turn who s =
     (case sched_lookup who s of
        None \<Rightarrow> Inl (Assert_failed ''sched::join: no such thread'')
      | Some (Retired code) \<Rightarrow> Inr (Some code, s)
      | Some (Live t) \<Rightarrow>
          if state_of s t = Exited then Inr (Some (th_exit_code (sc_threads s t)), s)
          else and_then (block_current (\<lambda>me s. if state_of s t = Exited then (False, s)
                 else (True, s\<lparr>sc_join_waiters := sc_join_waiters s @ [me]\<rparr>)) s) (\<lambda>s1. Inr (None, s1)))"

subsection \<open>\<open>force_exit\<close>\<close>

datatype kill_outcome = Not_found | Already_retired | Transitioned tid bool

definition force_exit_mark :: "tid \<Rightarrow> int \<Rightarrow> sched \<Rightarrow> (kill_outcome \<times> sched) checked" where
  "force_exit_mark who code s =
     (case find_thread who s of
        None \<Rightarrow> Inr (if list_ex (\<lambda>(rid, _). rid = who) (sc_retired s) then Already_retired else Not_found, s)
      | Some t \<Rightarrow>
          require (t \<noteq> sc_current s) ''sched::force_exit: use exit_current instead''
          (let prior = state_of s t in
           if prior = Exited then Inr (Transitioned t False, s)
           else
             let s1 = set_state t Exited (set_exit_code t code s);
                 s2 = (if prior = Sleeping then s1\<lparr>sc_sleeping := filter (\<lambda>e. snd e \<noteq> who) (sc_sleeping s1)\<rparr> else s1) in
             Inr (Transitioned t (prior = Blocked \<or> prior = Sleeping), s2)))"

definition force_exit_reap :: "tid \<Rightarrow> sched \<Rightarrow> sched checked" where
  "force_exit_reap t s = and_then (free_stack t True False s) (\<lambda>s1. Inr (retire t s1))"

definition force_exit :: "tid \<Rightarrow> int \<Rightarrow> sched \<Rightarrow> (bool \<times> sched) checked" where
  "force_exit who code s =
     and_then (force_exit_mark who code s) (\<lambda>(outcome, s1).
       case outcome of
         Not_found \<Rightarrow> Inr (False, s1)
       | Already_retired \<Rightarrow> Inr (True, s1)
       | Transitioned t reap_now \<Rightarrow>
           and_then (wake_joiners s1) (\<lambda>s2.
             if reap_now then and_then (force_exit_reap t s2) (\<lambda>s3. Inr (True, s3)) else Inr (True, s2)))"

subsection \<open>Everything that can happen\<close>

definition slot_of :: "sched \<Rightarrow> tid \<Rightarrow> nat" where
  "slot_of s t = slot_index (th_stack (sc_threads s t))"

text \<open>The slots of the threads, and of those about to be registered.\<close>

definition used_slots :: "sched \<Rightarrow> nat set" where
  "used_slots s = slot_of s ` set (sc_all s) \<union> slot_index ` set (kk_spawning (sc_kstacks s))"

text \<open>
  One event is one critical section (interrupts disabled) of the kernel: what the running thread
  does, what an interrupt handler does, and the two halves of \<open>force_exit\<close> and of \<open>spawn\<close>, which may be
  preempted between them.  Beside the scheduler's state the system holds the threads whose second half of
  \<open>force_exit\<close> is still to come.  \<open>Memory\<close> is the rest of the kernel: it allocates, frees, maps and
  unmaps memory between the scheduler's steps.
\<close>

datatype event = Yield | Sleep nat | Block | Join_wait | Return int
  | Spawn_stack | Spawn string "nat option" "nat \<times> nat" kernel_stack
  | Timer | Irq_exit | Wake tid | Wake_joiners | Kill tid int | Reap_killed tid
  | Memory mm_state

type_synonym sys = "sched \<times> tid list"

fun run_event :: "event \<Rightarrow> sys \<Rightarrow> sys checked" where
  "run_event Yield (s, dying) = and_then (yield_now s) (\<lambda>s1. Inr (s1, dying))"
| "run_event (Sleep ms) (s, dying) = and_then (sleep_ms ms s) (\<lambda>s1. Inr (s1, dying))"
| "run_event Block (s, dying) = and_then (block_current (\<lambda>t s. (True, s)) s) (\<lambda>s1. Inr (s1, dying))"
| "run_event Join_wait (s, dying) =
     and_then (block_current (\<lambda>t s. (True, s\<lparr>sc_join_waiters := sc_join_waiters s @ [t]\<rparr>)) s) (\<lambda>s1. Inr (s1, dying))"
| "run_event (Return code) (s, dying) = and_then (thread_return code s) (\<lambda>s1. Inr (s1, dying))"
| "run_event Spawn_stack (s, dying) = and_then (spawn_allocate s) (\<lambda>(_, s1). Inr (s1, dying))"
| "run_event (Spawn name space entry stack) (s, dying) =
     and_then (spawn_register name space entry stack s) (\<lambda>(_, s1). Inr (s1, dying))"
| "run_event Timer (s, dying) = and_then (timer_irq s) (\<lambda>s1. Inr (s1, dying))"
| "run_event Irq_exit (s, dying) = and_then (preempt_if_needed s) (\<lambda>s1. Inr (s1, dying))"
| "run_event (Wake t) (s, dying) = and_then (wake t s) (\<lambda>s1. Inr (s1, dying))"
| "run_event Wake_joiners (s, dying) = and_then (wake_joiners s) (\<lambda>s1. Inr (s1, dying))"
| "run_event (Kill t code) (s, dying) =
     and_then (force_exit_mark t code s) (\<lambda>(outcome, s1).
       Inr (s1, case outcome of Transitioned u True \<Rightarrow> dying @ [u] | _ \<Rightarrow> dying))"
| "run_event (Reap_killed t) (s, dying) = and_then (force_exit_reap t s) (\<lambda>s1. Inr (s1, remove1 t dying))"
| "run_event (Memory mm) (s, dying) = Inr (s\<lparr>sc_kstacks := (sc_kstacks s)\<lparr>kk_memory := mm\<rparr>\<rparr>, dying)"

text \<open>
  When an event can happen: the idle thread only halts; a thread in a wait queue is not asleep (and
  the joiners are woken together); a thread is registered with the stack allocated for it; nobody kills itself or the idle thread this way; the rest of the
  kernel leaves the frames and the mappings of live stacks alone, and the other slots unmapped.
\<close>

fun enabled :: "event \<Rightarrow> sys \<Rightarrow> bool" where
  "enabled (Wake t) (s, dying) \<longleftrightarrow> t < sc_next_id s \<and> state_of s t \<noteq> Sleeping \<and> t \<notin> set (sc_join_waiters s)"
| "enabled (Kill t code) (s, dying) \<longleftrightarrow> sc_current s \<noteq> sc_idle s \<and> t \<noteq> sc_current s \<and> t \<noteq> sc_idle s"
| "enabled (Reap_killed t) (s, dying) \<longleftrightarrow> t \<in> set dying"
| "enabled Timer (s, dying) \<longleftrightarrow> True"
| "enabled Irq_exit (s, dying) \<longleftrightarrow> True"
| "enabled Wake_joiners (s, dying) \<longleftrightarrow> True"
| "enabled (Memory mm) (s, dying) \<longleftrightarrow> stacks_mapped (sc_kernel_pml4 s) (used_slots s) mm"
| "enabled (Spawn name space entry stack) (s, dying) \<longleftrightarrow> sc_current s \<noteq> sc_idle s \<and> stack \<in> set (kk_spawning (sc_kstacks s))"
| "enabled _ (s, dying) \<longleftrightarrow> sc_current s \<noteq> sc_idle s"

text \<open>The boot stack is the only one so far, and its slot is the only one in use.\<close>

definition booted :: "sched \<Rightarrow> bool" where
  "booted s \<longleftrightarrow> (\<exists>boot_stack mm slots kernel_pml4 ticks cpu arena.
     sched_init boot_stack mm slots kernel_pml4 ticks cpu arena = Inr s
     \<and> slots_ok {slot_index boot_stack} slots \<and> slot_addrs (slot_index boot_stack) = Inr boot_stack
     \<and> stacks_mapped kernel_pml4 {slot_index boot_stack} mm \<and> kernel_pml4 \<noteq> 0)"

inductive sched_reachable :: "sys \<Rightarrow> bool" where
  reach_boot: "booted s \<Longrightarrow> sched_reachable (s, [])"
| reach_event: "sched_reachable y \<Longrightarrow> enabled e y \<Longrightarrow> run_event e y = Inr y' \<Longrightarrow> sched_reachable y'"

subsection \<open>The invariant\<close>

text \<open>Where a thread is, by its state; the current one may be on its way out of the processor.\<close>

definition placed :: "sched \<Rightarrow> tid list \<Rightarrow> tid \<Rightarrow> bool" where
  "placed s dying t \<longleftrightarrow> (case state_of s t of
      Ready \<Rightarrow> t \<noteq> sc_current s \<and> t \<in> set (sc_ready s) \<and> t \<notin> snd ` set (sc_sleeping s) \<and> t \<notin> set (sc_to_reap s) \<and> t \<notin> set dying
    | Running \<Rightarrow> t = sc_current s \<and> t \<notin> set (sc_ready s) \<and> t \<notin> snd ` set (sc_sleeping s) \<and> t \<notin> set (sc_to_reap s) \<and> t \<notin> set dying
    | Blocked \<Rightarrow> t \<notin> set (sc_ready s) \<and> t \<notin> snd ` set (sc_sleeping s) \<and> t \<notin> set (sc_to_reap s) \<and> t \<notin> set dying
    | Sleeping \<Rightarrow> t \<notin> set (sc_ready s) \<and> t \<in> snd ` set (sc_sleeping s) \<and> t \<notin> set (sc_to_reap s) \<and> t \<notin> set dying
    | Exited \<Rightarrow> t \<notin> snd ` set (sc_sleeping s)
        \<and> (if t = sc_current s then t \<notin> set (sc_ready s) \<and> t \<notin> set (sc_to_reap s) \<and> t \<notin> set dying
           else if t \<in> set (sc_ready s) then t \<notin> set (sc_to_reap s) \<and> t \<notin> set dying
           else t \<in> set (sc_to_reap s) \<longleftrightarrow> t \<notin> set dying))"

definition lists_ok :: "sched \<Rightarrow> tid list \<Rightarrow> bool" where
  "lists_ok s dying \<longleftrightarrow> distinct (sc_ready s) \<and> distinct (map snd (sc_sleeping s)) \<and> distinct (sc_to_reap s)
     \<and> distinct dying \<and> distinct (sc_all s)
     \<and> set (sc_ready s) \<union> snd ` set (sc_sleeping s) \<union> set (sc_to_reap s) \<union> set dying \<subseteq> set (sc_all s) - {sc_idle s}"

definition idle_ok :: "sched \<Rightarrow> bool" where
  "idle_ok s \<longleftrightarrow> sc_idle s \<in> set (sc_all s) \<and> sc_current s \<in> set (sc_all s)
     \<and> state_of s (sc_idle s) \<in> {Ready, Running} \<and> sc_kernel_pml4 s \<noteq> 0"

definition ids_ok :: "sched \<Rightarrow> bool" where
  "ids_ok s \<longleftrightarrow> (\<forall>t\<in>set (sc_all s). t < sc_next_id s) \<and> (\<forall>r\<in>set (sc_retired s). fst r < sc_next_id s \<and> fst r \<notin> set (sc_all s))
     \<and> (\<forall>t < sc_next_id s. t \<notin> set (sc_all s) \<longrightarrow> state_of s t = Exited)
     \<and> (\<forall>t\<in>set (sc_join_waiters s). t < sc_next_id s \<and> t \<noteq> sc_idle s \<and> state_of s t \<in> {Blocked, Exited})"

text \<open>
  The stacks of the live threads and of those about to be registered are different slots, those in use,
  each with its own memory.
\<close>

definition stacks_ok :: "sched \<Rightarrow> bool" where
  "stacks_ok s \<longleftrightarrow> inj_on (slot_of s) (set (sc_all s)) \<and> distinct (map slot_index (kk_spawning (sc_kstacks s)))
     \<and> slot_of s ` set (sc_all s) \<inter> slot_index ` set (kk_spawning (sc_kstacks s)) = {}
     \<and> slots_ok (used_slots s) (kk_slots (sc_kstacks s))
     \<and> (\<forall>t\<in>set (sc_all s). slot_addrs (slot_of s t) = Inr (th_stack (sc_threads s t)))
     \<and> (\<forall>stack\<in>set (kk_spawning (sc_kstacks s)). slot_addrs (slot_index stack) = Inr stack)
     \<and> stacks_mapped (sc_kernel_pml4 s) (used_slots s) (kk_memory (sc_kstacks s))"

lemma stacks_okD:
  assumes "stacks_ok s"
  shows "inj_on (slot_of s) (set (sc_all s))" "distinct (map slot_index (kk_spawning (sc_kstacks s)))"
    "slot_of s ` set (sc_all s) \<inter> slot_index ` set (kk_spawning (sc_kstacks s)) = {}"
    "slots_ok (used_slots s) (kk_slots (sc_kstacks s))"
    "t \<in> set (sc_all s) \<Longrightarrow> slot_addrs (slot_of s t) = Inr (th_stack (sc_threads s t))"
    "stack \<in> set (kk_spawning (sc_kstacks s)) \<Longrightarrow> slot_addrs (slot_index stack) = Inr stack"
    "stacks_mapped (sc_kernel_pml4 s) (used_slots s) (kk_memory (sc_kstacks s))"
  using assms unfolding stacks_ok_def by blast+

definition sched_wf :: "sched \<Rightarrow> tid list \<Rightarrow> bool" where
  "sched_wf s dying \<longleftrightarrow> lists_ok s dying \<and> idle_ok s \<and> ids_ok s \<and> stacks_ok s
     \<and> (\<forall>t\<in>set (sc_all s) - {sc_idle s}. placed s dying t)"

text \<open>Between two events the current thread, unless it is the idle one, is running.\<close>

definition sched_inv :: "sys \<Rightarrow> bool" where
  "sched_inv y \<longleftrightarrow> (case y of (s, dying) \<Rightarrow> sched_wf s dying
     \<and> (sc_current s \<noteq> sc_idle s \<longrightarrow> state_of s (sc_current s) = Running))"

lemma state_of_upd [simp]:
  "state_of (set_state t st s) u = (if u = t then st else state_of s u)"
  "state_of (set_exit_code t c s) u = state_of s u"
  "state_of (record_tick t s) u = state_of s u"
  "state_of (record_dispatch t s) u = state_of s u"
  by (auto simp: state_of_def set_state_def set_exit_code_def record_tick_def record_dispatch_def upd_thread_def)

lemma upd_thread_fields [simp]:
  "sc_current (upd_thread t f s) = sc_current s" "sc_idle (upd_thread t f s) = sc_idle s"
  "sc_ready (upd_thread t f s) = sc_ready s" "sc_sleeping (upd_thread t f s) = sc_sleeping s"
  "sc_to_reap (upd_thread t f s) = sc_to_reap s" "sc_all (upd_thread t f s) = sc_all s"
  "sc_retired (upd_thread t f s) = sc_retired s" "sc_next_id (upd_thread t f s) = sc_next_id s"
  "sc_join_waiters (upd_thread t f s) = sc_join_waiters s" "sc_kstacks (upd_thread t f s) = sc_kstacks s"
  "sc_kernel_pml4 (upd_thread t f s) = sc_kernel_pml4 s" "sc_ticks (upd_thread t f s) = sc_ticks s"
  "sc_need_resched (upd_thread t f s) = sc_need_resched s"
  "sc_timeslice_remaining (upd_thread t f s) = sc_timeslice_remaining s" "sc_cpu (upd_thread t f s) = sc_cpu s"
  by (simp_all add: upd_thread_def)


lemma th_stack_keep [simp]:
  "th_stack (sc_threads (set_state t st s) u) = th_stack (sc_threads s u)"
  "th_stack (sc_threads (set_exit_code t c s) u) = th_stack (sc_threads s u)"
  "th_stack (sc_threads (record_tick t s) u) = th_stack (sc_threads s u)"
  "th_stack (sc_threads (record_dispatch t s) u) = th_stack (sc_threads s u)"
  by (simp_all add: set_state_def set_exit_code_def record_tick_def record_dispatch_def upd_thread_def)

lemma set_state_fields [simp]:
  "sc_current (set_state t st s) = sc_current s" "sc_idle (set_state t st s) = sc_idle s"
  "sc_ready (set_state t st s) = sc_ready s" "sc_sleeping (set_state t st s) = sc_sleeping s"
  "sc_to_reap (set_state t st s) = sc_to_reap s" "sc_all (set_state t st s) = sc_all s"
  "sc_retired (set_state t st s) = sc_retired s" "sc_next_id (set_state t st s) = sc_next_id s"
  "sc_join_waiters (set_state t st s) = sc_join_waiters s" "sc_kstacks (set_state t st s) = sc_kstacks s"
  "sc_kernel_pml4 (set_state t st s) = sc_kernel_pml4 s" "sc_ticks (set_state t st s) = sc_ticks s"
  "sc_need_resched (set_state t st s) = sc_need_resched s"
  "sc_timeslice_remaining (set_state t st s) = sc_timeslice_remaining s"
  by (simp_all add: set_state_def)

lemma stacks_ok_cong:
  "(\<And>u. th_stack (sc_threads s' u) = th_stack (sc_threads s u)) \<Longrightarrow> sc_all s' = sc_all s \<Longrightarrow> sc_kstacks s' = sc_kstacks s
    \<Longrightarrow> sc_kernel_pml4 s' = sc_kernel_pml4 s \<Longrightarrow> stacks_ok s' = stacks_ok s"
  by (simp add: stacks_ok_def used_slots_def slot_of_def[abs_def])

text \<open>A thread whose state and whereabouts did not change is still in place.\<close>

lemma placed_same:
  assumes "state_of s' u = state_of s u" "u = sc_current s' \<longleftrightarrow> u = sc_current s"
    "u \<in> set (sc_ready s') \<longleftrightarrow> u \<in> set (sc_ready s)" "u \<in> snd ` set (sc_sleeping s') \<longleftrightarrow> u \<in> snd ` set (sc_sleeping s)"
    "u \<in> set (sc_to_reap s') \<longleftrightarrow> u \<in> set (sc_to_reap s)" "u \<in> set dying' \<longleftrightarrow> u \<in> set dying"
  shows "placed s' dying' u = placed s dying u"
  using assms by (cases "state_of s u") (auto simp: placed_def)

lemma sched_wfD:
  assumes "sched_wf s d"
  shows "lists_ok s d" "idle_ok s" "ids_ok s" "stacks_ok s"
    and "t \<in> set (sc_all s) \<Longrightarrow> t \<noteq> sc_idle s \<Longrightarrow> placed s d t"
    and "distinct (sc_ready s)" "distinct (map snd (sc_sleeping s))" "distinct (sc_to_reap s)" "distinct d" "distinct (sc_all s)"
    and "t \<in> set (sc_ready s) \<Longrightarrow> t \<in> set (sc_all s) \<and> t \<noteq> sc_idle s"
    and "t \<in> snd ` set (sc_sleeping s) \<Longrightarrow> t \<in> set (sc_all s) \<and> t \<noteq> sc_idle s"
    and "t \<in> set (sc_to_reap s) \<Longrightarrow> t \<in> set (sc_all s) \<and> t \<noteq> sc_idle s"
    and "t \<in> set d \<Longrightarrow> t \<in> set (sc_all s) \<and> t \<noteq> sc_idle s"
  using assms unfolding sched_wf_def lists_ok_def by blast+

lemma known_thread:
  assumes "sched_wf s d" "t < sc_next_id s" "state_of s t \<noteq> Exited" shows "t \<in> set (sc_all s)"
  using sched_wfD(3)[OF assms(1)] assms(2,3) unfolding ids_ok_def by blast

lemma blocked_not_idle:
  assumes "sched_wf s d" "state_of s t = Blocked \<or> state_of s t = Sleeping" shows "t \<noteq> sc_idle s"
  using sched_wfD(2)[OF assms(1)] assms(2) by (auto simp: idle_ok_def)

end
