(* ===== verification/Sched_Inv.thy ===== *)
theory Sched_Inv
  imports Sched
begin

text \<open>
  The scheduler's invariant is kept: what waking, reaping, dispatching and switching do to the queues, and that every
  event of \<open>Sched\<close> preserves \<open>sched_inv\<close> (\<open>event_keeps_inv\<close>, \<open>reachable_inv\<close>).
\<close>

subsection \<open>Waking keeps it\<close>

text \<open>The states reached by making a parked thread ready, off the sleep list \<open>sl\<close> that is left.\<close>

definition readied :: "tid \<Rightarrow> (nat \<times> tid) list \<Rightarrow> sched \<Rightarrow> sched \<Rightarrow> bool" where
  "readied t sl s s' \<longleftrightarrow>
     (\<exists>b. s' = (set_state t Ready s)\<lparr>sc_sleeping := sl, sc_ready := sc_ready s @ [t], sc_need_resched := b\<rparr>)"

lemma readied_fields:
  assumes "readied t sl s s'"
  shows "sc_current s' = sc_current s" "sc_idle s' = sc_idle s" "sc_sleeping s' = sl"
    "sc_to_reap s' = sc_to_reap s" "sc_all s' = sc_all s" "sc_next_id s' = sc_next_id s" "sc_ready s' = sc_ready s @ [t]"
    "sc_join_waiters s' = sc_join_waiters s" "sc_ticks s' = sc_ticks s" "sc_kstacks s' = sc_kstacks s" "sc_retired s' = sc_retired s"
    "sc_timeslice_remaining s' = sc_timeslice_remaining s" "sc_kernel_pml4 s' = sc_kernel_pml4 s"
    "state_of s' u = (if u = t then Ready else state_of s u)" "th_stack (sc_threads s' u) = th_stack (sc_threads s u)"
    "sc_cpu s' = sc_cpu s"
  using assms by (auto simp: readied_def state_of_def set_state_def upd_thread_def)

lemma readied_wf:
  assumes wf: "sched_wf s d" and r: "readied t sl s s'" and t: "t \<in> set (sc_all s)" "t \<noteq> sc_current s"
    and sl: "distinct (map snd sl)" "snd ` set sl = snd ` set (sc_sleeping s) - {t}"
    and st: "state_of s t = Blocked \<or> state_of s t = Sleeping" and j: "t \<notin> set (sc_join_waiters s)"
  shows "sched_wf s' d"
proof -
  note f = readied_fields[OF r]
  have idle: "t \<noteq> sc_idle s" by (rule blocked_not_idle[OF wf st])
  have "placed s d t" by (rule sched_wfD(5)[OF wf t(1) idle])
  then have rd: "t \<notin> set (sc_ready s)" "t \<notin> set (sc_to_reap s)" "t \<notin> set d" using st by (auto simp: placed_def)
  have "lists_ok s' d" using sched_wfD(1)[OF wf] t(1) rd idle sl by (auto simp: lists_ok_def f)
  moreover have "idle_ok s'" using sched_wfD(2)[OF wf] idle by (auto simp: idle_ok_def f)
  moreover have "ids_ok s'" using sched_wfD(3)[OF wf] t(1) j by (auto simp: ids_ok_def f)
  moreover have "stacks_ok s'" using sched_wfD(4)[OF wf] stacks_ok_cong[of s' s] f by simp
  moreover have "placed s' d u" if "u \<in> set (sc_all s)" "u \<noteq> sc_idle s" for u
  proof (cases "u = t")
    case True
    then show ?thesis using t rd sl by (simp add: placed_def f)
  next
    case False
    then have "placed s' d u = placed s d u" by (intro placed_same) (simp_all add: f sl)
    then show ?thesis using sched_wfD(5)[OF wf that] by simp
  qed
  ultimately show ?thesis by (simp add: sched_wf_def f)
qed

lemma wake_cases:
  assumes "wake t s = Inr s'"
  shows "s' = s \<and> state_of s t \<noteq> Blocked \<and> state_of s t \<noteq> Sleeping
    \<or> readied t (sc_sleeping s) s s' \<and> (state_of s t = Blocked \<or> state_of s t = Sleeping)"
proof (cases "state_of s t = Blocked \<or> state_of s t = Sleeping")
  case True
  then obtain s1 where "push_back t (set_state t Ready s) = Inr s1" "s' = (if sc_current s1 = sc_idle s1 then s1\<lparr>sc_need_resched := True\<rparr> else s1)"
    using assms by (auto simp: wake_def checked_simps)
  then have "readied t (sc_sleeping s) s s'"
    unfolding readied_def push_back_def
    by (intro exI[of _ "if sc_current s = sc_idle s then True else sc_need_resched s"]) (auto simp: checked_simps)
  with True show ?thesis by simp
qed (use assms in \<open>simp add: wake_def\<close>)

text \<open>There is room: every thread of the ready queue is one of the others.\<close>

lemma ready_room:
  assumes wf: "sched_wf s d" and t: "t \<in> set (sc_all s)" "t \<noteq> sc_idle s" "t \<notin> set (sc_ready s)"
  shows "length (sc_ready s) + 2 \<le> length (sc_all s)"
proof -
  have sub: "insert t (insert (sc_idle s) (set (sc_ready s))) \<subseteq> set (sc_all s)"
    using sched_wfD(2,11)[OF wf] t by (auto simp: idle_ok_def)
  have "sc_idle s \<notin> set (sc_ready s)" using sched_wfD(11)[OF wf] by blast
  then have "card (insert t (insert (sc_idle s) (set (sc_ready s)))) = length (sc_ready s) + 2"
    using t sched_wfD(6)[OF wf] by (simp add: distinct_card)
  then show ?thesis using card_mono[OF _ sub] sched_wfD(10)[OF wf] by (simp add: distinct_card)
qed

definition few_threads :: "sched \<Rightarrow> bool" where
  "few_threads s \<longleftrightarrow> length (sc_all s) \<le> MAX_THREADS + 1"

lemma push_back_room:
  assumes "sched_wf s d" "few_threads s" "t \<in> set (sc_all s)" "t \<noteq> sc_idle s" "t \<notin> set (sc_ready s)"
    and "sc_ready s' = sc_ready s"
  shows "push_back t s' = Inr (s'\<lparr>sc_ready := sc_ready s @ [t]\<rparr>)"
  using ready_room[OF assms(1,3,4,5)] assms(2,6) by (simp add: push_back_def few_threads_def)

text \<open>What waking threads leaves alone.\<close>

definition only_wakes :: "sched \<Rightarrow> sched \<Rightarrow> bool" where
  "only_wakes s s' \<longleftrightarrow> sc_current s' = sc_current s \<and> sc_idle s' = sc_idle s \<and> sc_all s' = sc_all s \<and> sc_to_reap s' = sc_to_reap s
     \<and> sc_next_id s' = sc_next_id s \<and> sc_ticks s' = sc_ticks s \<and> sc_kstacks s' = sc_kstacks s \<and> sc_retired s' = sc_retired s
     \<and> sc_timeslice_remaining s' = sc_timeslice_remaining s \<and> sc_kernel_pml4 s' = sc_kernel_pml4 s \<and> sc_cpu s' = sc_cpu s
     \<and> (\<exists>ws. sc_ready s' = sc_ready s @ ws)
     \<and> (\<forall>u. state_of s' u \<noteq> state_of s u \<longrightarrow> state_of s' u = Ready \<and> (state_of s u = Blocked \<or> state_of s u = Sleeping))"

lemma only_wakes_refl: "only_wakes s s"
  by (simp add: only_wakes_def)

lemma only_wakesD:
  assumes "only_wakes s s'"
  shows "sc_current s' = sc_current s" "sc_idle s' = sc_idle s" "sc_all s' = sc_all s" "sc_to_reap s' = sc_to_reap s"
    "sc_next_id s' = sc_next_id s" "sc_ticks s' = sc_ticks s" "sc_kstacks s' = sc_kstacks s" "sc_retired s' = sc_retired s"
    "sc_timeslice_remaining s' = sc_timeslice_remaining s" "sc_kernel_pml4 s' = sc_kernel_pml4 s" "sc_cpu s' = sc_cpu s"
    "\<exists>ws. sc_ready s' = sc_ready s @ ws"
    "state_of s' u = state_of s u \<or> state_of s' u = Ready \<and> (state_of s u = Blocked \<or> state_of s u = Sleeping)"
  using assms unfolding only_wakes_def by blast+

lemma only_wakes_trans:
  assumes "only_wakes s1 s2" "only_wakes s2 s3" shows "only_wakes s1 s3"
proof -
  have "state_of s3 u = state_of s1 u \<or> state_of s3 u = Ready \<and> (state_of s1 u = Blocked \<or> state_of s1 u = Sleeping)" for u
    using only_wakesD(13)[OF assms(1), of u] only_wakesD(13)[OF assms(2), of u] by auto
  moreover have "\<exists>ws. sc_ready s3 = sc_ready s1 @ ws"
    using only_wakesD(12)[OF assms(1)] only_wakesD(12)[OF assms(2)] by auto
  ultimately show ?thesis
    using only_wakesD(1-11)[OF assms(1)] only_wakesD(1-11)[OF assms(2)] by (auto simp: only_wakes_def)
qed

lemma readied_only_wakes:
  "readied t sl s s' \<Longrightarrow> state_of s t = Blocked \<or> state_of s t = Sleeping \<Longrightarrow> only_wakes s s'"
  using readied_fields by (auto simp: only_wakes_def)

lemma wake_wf:
  assumes wf: "sched_wf s d" and t: "t < sc_next_id s" "state_of s t \<noteq> Sleeping" "t \<notin> set (sc_join_waiters s)"
    and cur: "state_of s (sc_current s) \<noteq> Blocked" and run: "wake t s = Inr s'"
  shows "sched_wf s' d \<and> only_wakes s s' \<and> sc_join_waiters s' = sc_join_waiters s"
  using wake_cases[OF run]
proof (rule disjE)
  assume "readied t (sc_sleeping s) s s' \<and> (state_of s t = Blocked \<or> state_of s t = Sleeping)"
  then have r: "readied t (sc_sleeping s) s s'" and b: "state_of s t = Blocked" using t(2) by simp_all
  have a: "t \<in> set (sc_all s)" using known_thread[OF wf t(1)] b by simp
  have c: "t \<noteq> sc_current s" using b cur by auto
  have "placed s d t" using sched_wfD(5)[OF wf a] blocked_not_idle[OF wf] b by simp
  then have "snd ` set (sc_sleeping s) = snd ` set (sc_sleeping s) - {t}" by (simp add: placed_def b)
  from readied_wf[OF wf r a c sched_wfD(7)[OF wf] this] b t(3) show ?thesis
    using readied_only_wakes[OF r] readied_fields(8)[OF r] by simp
qed (use wf in \<open>simp add: only_wakes_refl\<close>)

lemma wake_returns:
  assumes wf: "sched_wf s d" and t: "t < sc_next_id s" and few: "few_threads s"
  shows "\<exists>s'. wake t s = Inr s'"
proof (cases "state_of s t = Blocked \<or> state_of s t = Sleeping")
  case True
  have a: "t \<in> set (sc_all s)" using known_thread[OF wf t] True by auto
  have i: "t \<noteq> sc_idle s" by (rule blocked_not_idle[OF wf True])
  have "t \<notin> set (sc_ready s)" using sched_wfD(5)[OF wf a i] True by (auto simp: placed_def)
  from push_back_room[OF wf few a i this] True show ?thesis by (simp add: wake_def)
qed (simp add: wake_def)

lemma wq_pop_Some: "wq_pop st ws = (Some t, ws') \<Longrightarrow> t \<in> set ws \<and> set ws' \<subseteq> set ws \<and> st t \<noteq> Exited"
  by (induction st ws rule: wq_pop.induct) (auto split: if_splits)

lemma wake_all_wf:
  assumes "sched_wf s d" and "\<forall>t\<in>set ws. t < sc_next_id s \<and> state_of s t \<noteq> Sleeping \<and> t \<notin> set (sc_join_waiters s)"
    and "state_of s (sc_current s) \<noteq> Blocked" and "wake_all ws s = Inr s'"
  shows "sched_wf s' d \<and> only_wakes s s' \<and> sc_join_waiters s' = sc_join_waiters s"
  using assms
proof (induction ws s arbitrary: s' rule: wake_all.induct)
  case (1 ws s)
  show ?case
  proof (cases "wq_pop (state_of s) ws")
    case (Pair r ws')
    show ?thesis
    proof (cases r)
      case None
      then show ?thesis using 1(2,5) Pair by (subst (asm) wake_all.simps) (simp add: only_wakes_refl)
    next
      case (Some t)
      then have p: "wq_pop (state_of s) ws = (Some t, ws')" using Pair by simp
      note w = wq_pop_Some[OF p]
      from 1(5) p obtain s1 where s1: "wake t s = Inr s1" "wake_all ws' s1 = Inr s'"
        by (subst (asm) wake_all.simps) (auto simp: checked_simps)
      have st: "t < sc_next_id s" "state_of s t \<noteq> Sleeping" "t \<notin> set (sc_join_waiters s)" using w 1(3) by auto
      note k = wake_wf[OF 1(2) st 1(4) s1(1)]
      have "\<forall>t\<in>set ws'. t < sc_next_id s1 \<and> state_of s1 t \<noteq> Sleeping \<and> t \<notin> set (sc_join_waiters s1)"
        using k w 1(3) unfolding only_wakes_def by (metis subsetD thread_state.distinct(5))
      moreover have "state_of s1 (sc_current s1) \<noteq> Blocked"
        using k 1(4) unfolding only_wakes_def by (metis thread_state.distinct(3))
      ultimately have "sched_wf s' d \<and> only_wakes s1 s' \<and> sc_join_waiters s' = sc_join_waiters s1"
        using 1(1)[OF p[symmetric] refl s1(1)] k s1(2) by simp
      with k show ?thesis using only_wakes_trans by auto
    qed
  qed
qed

lemma wake_all_returns:
  assumes "sched_wf s d" and "\<forall>t\<in>set ws. t < sc_next_id s \<and> state_of s t \<noteq> Sleeping \<and> t \<notin> set (sc_join_waiters s)"
    and "state_of s (sc_current s) \<noteq> Blocked" and "few_threads s"
  shows "\<exists>s'. wake_all ws s = Inr s'"
  using assms
proof (induction ws s rule: wake_all.induct)
  case (1 ws s)
  show ?case
  proof (cases "wq_pop (state_of s) ws")
    case (Pair r ws')
    show ?thesis
    proof (cases r)
      case None
      then show ?thesis using Pair by (subst wake_all.simps) simp
    next
      case (Some t)
      then have p: "wq_pop (state_of s) ws = (Some t, ws')" using Pair by simp
      note w = wq_pop_Some[OF p]
      have st: "t < sc_next_id s" "state_of s t \<noteq> Sleeping" "t \<notin> set (sc_join_waiters s)" using w 1(3) by auto
      obtain s1 where s1: "wake t s = Inr s1" using wake_returns[OF 1(2) st(1) 1(5)] by blast
      note k = wake_wf[OF 1(2) st 1(4) s1]
      have "\<forall>t\<in>set ws'. t < sc_next_id s1 \<and> state_of s1 t \<noteq> Sleeping \<and> t \<notin> set (sc_join_waiters s1)"
        using k w 1(3) unfolding only_wakes_def by (metis subsetD thread_state.distinct(5))
      moreover have "state_of s1 (sc_current s1) \<noteq> Blocked"
        using k 1(4) unfolding only_wakes_def by (metis thread_state.distinct(3))
      moreover have "few_threads s1" using k 1(5) by (simp add: only_wakes_def few_threads_def)
      ultimately have "\<exists>s'. wake_all ws' s1 = Inr s'" using 1(1)[OF p[symmetric] refl s1] k by simp
      then show ?thesis using p s1 by (subst wake_all.simps) simp
    qed
  qed
qed

subsection \<open>The sleep list\<close>

lemma mset_swap_remove: "i < length xs \<Longrightarrow> mset xs = add_mset (xs ! i) (mset (swap_remove i xs))"
proof -
  assume i: "i < length xs"
  then obtain ys y where xs: "xs = ys @ [y]" by (cases xs rule: rev_cases) auto
  show ?thesis
  proof (cases "i < length ys")
    case True
    then have "add_mset (ys ! i) (mset ys - {#ys ! i#}) = mset ys" by simp
    then show ?thesis using True by (simp add: xs swap_remove_def nth_append mset_update add_mset_commute)
  next
    case False
    then have "i = length ys" using i xs by simp
    then show ?thesis by (simp add: xs swap_remove_def list_update_beyond)
  qed
qed

lemma nth_swap_remove: "j < i \<Longrightarrow> i < length xs \<Longrightarrow> swap_remove i xs ! j = xs ! j"
  by (cases xs rule: rev_cases) (auto simp: swap_remove_def nth_append)

lemma swap_remove_keys:
  assumes "i < length xs" "distinct (map snd xs)"
  shows "distinct (map snd (swap_remove i xs))" "snd ` set (swap_remove i xs) = snd ` set xs - {snd (xs ! i)}"
proof -
  have m: "mset (map snd xs) = add_mset (snd (xs ! i)) (mset (map snd (swap_remove i xs)))"
    using mset_swap_remove[OF assms(1)] by simp
  then have "mset (map snd xs) = mset (snd (xs ! i) # map snd (swap_remove i xs))" by simp
  then have d: "distinct (snd (xs ! i) # map snd (swap_remove i xs))"
    using assms(2) mset_eq_imp_distinct_iff by blast
  then show "distinct (map snd (swap_remove i xs))" by simp
  have "set (map snd xs) = insert (snd (xs ! i)) (set (map snd (swap_remove i xs)))"
    using arg_cong[OF m, of set_mset] by simp
  then show "snd ` set (swap_remove i xs) = snd ` set xs - {snd (xs ! i)}" using d by auto
qed

text \<open>What one pass over the sleep list does.\<close>

definition due :: "nat \<Rightarrow> sched \<Rightarrow> tid set" where
  "due now s = {t. \<exists>w. (w, t) \<in> set (sc_sleeping s) \<and> w \<le> now}"

lemma sleeping_state:
  assumes "sched_wf s d" "t \<in> snd ` set (sc_sleeping s)" shows "state_of s t = Sleeping"
  using sched_wfD(5)[OF assms(1), of t] sched_wfD(12)[OF assms] assms(2) by (cases "state_of s t") (simp_all add: placed_def)

lemma wake_due_step:
  assumes wf: "sched_wf s d" and i: "i < length (sc_sleeping s)" and cur: "state_of s (sc_current s) \<noteq> Sleeping"
    and r: "readied (snd (sc_sleeping s ! i)) (swap_remove i (sc_sleeping s)) s s'"
  shows "sched_wf s' d" "only_wakes s s'" "sc_join_waiters s' = sc_join_waiters s"
proof -
  let ?t = "snd (sc_sleeping s ! i)"
  have m: "?t \<in> snd ` set (sc_sleeping s)" using i by simp
  note st = sleeping_state[OF wf m] and a = sched_wfD(12)[OF wf m]
  have j: "?t \<notin> set (sc_join_waiters s)" using sched_wfD(3)[OF wf] st by (auto simp: ids_ok_def)
  have c: "?t \<noteq> sc_current s" using st cur by auto
  note k = swap_remove_keys[OF i sched_wfD(7)[OF wf]]
  show "sched_wf s' d" using readied_wf[OF wf r _ c k _ j] a st by simp
  show "only_wakes s s'" using readied_only_wakes[OF r] st by simp
  show "sc_join_waiters s' = sc_join_waiters s" by (rule readied_fields(8)[OF r])
qed

definition due_woken :: "nat \<Rightarrow> sched \<Rightarrow> sched \<Rightarrow> bool" where
  "due_woken now s s' \<longleftrightarrow> mset (sc_sleeping s') = filter_mset (\<lambda>e. now < fst e) (mset (sc_sleeping s))
     \<and> (\<forall>u. state_of s' u = (if u \<in> due now s then Ready else state_of s u))
     \<and> (\<exists>ws. sc_ready s' = sc_ready s @ ws \<and> distinct ws \<and> set ws = due now s)"

lemma due_woken_step:
  assumes i: "i < length (sc_sleeping s)" "fst (sc_sleeping s ! i) \<le> now" and d: "distinct (map snd (sc_sleeping s))"
    and r: "readied (snd (sc_sleeping s ! i)) (swap_remove i (sc_sleeping s)) s s1" and w: "due_woken now s1 s'"
  shows "due_woken now s s'"
proof -
  let ?t = "snd (sc_sleeping s ! i)" and ?e = "sc_sleeping s ! i"
  note f = readied_fields[OF r] and m = mset_swap_remove[OF i(1)]
  have sets: "set (sc_sleeping s) = insert ?e (set (swap_remove i (sc_sleeping s)))"
    using arg_cong[OF m, of set_mset] by simp
  obtain w0 t0 where e: "?e = (w0, t0)" by (cases ?e)
  have due: "due now s = insert ?t (due now s1)" using sets i(2) by (auto simp: due_def f e)
  have "due now s1 \<subseteq> snd ` set (swap_remove i (sc_sleeping s))" by (force simp: due_def f)
  then have new: "?t \<notin> due now s1" using swap_remove_keys(2)[OF i(1) d] by blast
  from w obtain ws where ws: "sc_ready s' = sc_ready s1 @ ws" "distinct ws" "set ws = due now s1"
    by (auto simp: due_woken_def)
  show ?thesis
    unfolding due_woken_def
  proof (intro conjI allI)
    show "mset (sc_sleeping s') = filter_mset (\<lambda>e. now < fst e) (mset (sc_sleeping s))"
      using w i(2) by (simp add: due_woken_def f m)
    show "state_of s' u = (if u \<in> due now s then Ready else state_of s u)" for u
      using w due by (simp add: due_woken_def f)
    show "\<exists>ws. sc_ready s' = sc_ready s @ ws \<and> distinct ws \<and> set ws = due now s"
      using ws new due by (intro exI[of _ "?t # ws"]) (simp add: f)
  qed
qed

lemma wake_due_ok:
  assumes "sched_wf s d" "state_of s (sc_current s) \<noteq> Sleeping" "i \<le> length (sc_sleeping s)"
    and "\<forall>j<i. now < fst (sc_sleeping s ! j)"
  shows "wake_due now i woke s = Inr (w, s') \<Longrightarrow> sched_wf s' d \<and> only_wakes s s' \<and> sc_join_waiters s' = sc_join_waiters s
      \<and> due_woken now s s' \<and> (w \<longleftrightarrow> woke \<or> due now s \<noteq> {})"
    and "few_threads s \<Longrightarrow> \<exists>r. wake_due now i woke s = Inr r"
proof -
  have "(wake_due now i woke s = Inr (w, s') \<longrightarrow> sched_wf s' d \<and> only_wakes s s' \<and> sc_join_waiters s' = sc_join_waiters s
      \<and> due_woken now s s' \<and> (w \<longleftrightarrow> woke \<or> due now s \<noteq> {})) \<and> (few_threads s \<longrightarrow> (\<exists>r. wake_due now i woke s = Inr r))"
    using assms
  proof (induction now i woke s rule: wake_due.induct)
    case (1 now i woke s)
    note wf = 1(4) and cur = 1(5)
    show ?case
    proof (cases "i < length (sc_sleeping s)")
      case False
      have late: "\<forall>e\<in>set (sc_sleeping s). now < fst e"
      proof (rule ballI)
        fix e
        assume "e \<in> set (sc_sleeping s)"
        then obtain j where "j < length (sc_sleeping s)" "e = sc_sleeping s ! j" by (auto simp: in_set_conv_nth)
        then show "now < fst e" using 1(7) False by simp
      qed
      then have none: "due now s = {}" by (fastforce simp: due_def)
      moreover have "filter_mset (\<lambda>e. now < fst e) (mset (sc_sleeping s)) = mset (sc_sleeping s)"
        using late by (simp add: filter_mset_eq_conv)
      ultimately have "due_woken now s s" by (simp add: due_woken_def)
      note none this
      then show ?thesis using False wf none by (subst (1 2) wake_due.simps) (auto simp: only_wakes_refl)
    next
      case i: True
      show ?thesis
      proof (cases "fst (sc_sleeping s ! i) \<le> now")
        case False
        then have "\<forall>j<i + 1. now < fst (sc_sleeping s ! j)" using 1(7) by (auto simp: less_Suc_eq)
        from 1(3)[OF i False wf cur _ this] i False show ?thesis by (subst (1 2) wake_due.simps) simp
      next
        case e: True
        let ?t = "snd (sc_sleeping s ! i)" and ?s1 = "s\<lparr>sc_sleeping := swap_remove i (sc_sleeping s)\<rparr>"
        have m: "?t \<in> snd ` set (sc_sleeping s)" using i by simp
        note st = sleeping_state[OF wf m] and a = sched_wfD(12)[OF wf m]
        have st1: "state_of ?s1 ?t = Sleeping" using st by (simp add: state_of_def)
        have nr: "?t \<notin> set (sc_ready s)" using sched_wfD(5)[OF wf, of ?t] a st by (simp add: placed_def)
        have rd: "readied ?t (swap_remove i (sc_sleeping s)) s s2" if "push_back ?t (set_state ?t Ready ?s1) = Inr s2" for s2
          using that by (auto simp: push_back_def checked_simps readied_def set_state_def upd_thread_def
              intro!: exI[of _ "sc_need_resched s"])
        have few: "\<exists>s2. push_back ?t (set_state ?t Ready ?s1) = Inr s2" if "few_threads s"
          using push_back_room[OF wf that _ _ nr, of "set_state ?t Ready ?s1"] a by simp
        have next': "(wake_due now i True s2 = Inr (w, s') \<longrightarrow> sched_wf s' d \<and> only_wakes s2 s' \<and> sc_join_waiters s' = sc_join_waiters s2
              \<and> due_woken now s2 s' \<and> (w \<longleftrightarrow> True \<or> due now s2 \<noteq> {})) \<and> (few_threads s2 \<longrightarrow> (\<exists>r. wake_due now i True s2 = Inr r))"
          if p: "push_back ?t (set_state ?t Ready ?s1) = Inr s2" for s2
        proof -
          note r = rd[OF p]
          note k = wake_due_step[OF wf i cur r] and f = readied_fields[OF r]
          have "\<forall>j<i. now < fst (sc_sleeping s2 ! j)" using 1(7) i by (simp add: f nth_swap_remove)
          moreover have "state_of s2 (sc_current s2) \<noteq> Sleeping" using cur by (simp add: f)
          moreover have "i \<le> length (sc_sleeping s2)" using i by (simp add: f)
          ultimately show ?thesis by (intro 1(1)[OF i e refl refl st1 p k(1)])
        qed
        have "(fst (sc_sleeping s ! i), ?t) \<in> set (sc_sleeping s)" using i by simp
        then have "?t \<in> due now s" using e unfolding due_def by blast
        then have due: "due now s \<noteq> {}" by blast
        have eq: "wake_due now i woke s = and_then (push_back ?t (set_state ?t Ready ?s1)) (wake_due now i True)"
          using i e st1 by (subst wake_due.simps) (simp add: Let_def)
        show ?thesis
        proof (intro conjI impI)
          assume "wake_due now i woke s = Inr (w, s')"
          then obtain s2 where s2: "push_back ?t (set_state ?t Ready ?s1) = Inr s2" "wake_due now i True s2 = Inr (w, s')"
            by (auto simp: eq checked_simps)
          note k = wake_due_step[OF wf i cur rd[OF s2(1)]]
          note n = next'[OF s2(1), THEN conjunct1, rule_format, OF s2(2)]
          from n k due_woken_step[OF i e sched_wfD(7)[OF wf] rd[OF s2(1)], of s'] due
          show "sched_wf s' d" "only_wakes s s'" "sc_join_waiters s' = sc_join_waiters s" "due_woken now s s'" "w \<longleftrightarrow> woke \<or> due now s \<noteq> {}"
            using only_wakes_trans by auto
        next
          assume fs: "few_threads s"
          then obtain s2 where s2: "push_back ?t (set_state ?t Ready ?s1) = Inr s2" using few by blast
          have "few_threads s2" using fs by (simp add: few_threads_def readied_fields[OF rd[OF s2]])
          with next'[OF s2] show "\<exists>r. wake_due now i woke s = Inr r" by (simp add: eq s2)
        qed
      qed
    qed
  qed
  then show "wake_due now i woke s = Inr (w, s') \<Longrightarrow> sched_wf s' d \<and> only_wakes s s' \<and> sc_join_waiters s' = sc_join_waiters s
      \<and> due_woken now s s' \<and> (w \<longleftrightarrow> woke \<or> due now s \<noteq> {})"
    and "few_threads s \<Longrightarrow> \<exists>r. wake_due now i woke s = Inr r" by simp_all
qed


subsection \<open>Reaping keeps it\<close>

lemma lists_ok_filter:
  "lists_ok s d \<Longrightarrow> distinct (filter P (sc_to_reap s)) \<and> distinct (filter P d)"
  by (simp add: lists_ok_def)

lemma set_mono_tl: "x \<in> set (tl xs) \<Longrightarrow> x \<in> set xs"
  by (cases xs) auto

lemma retire_wf:
  assumes wf: "sched_wf s d" and t: "t \<in> set (sc_all s)" "t \<noteq> sc_idle s" "t \<noteq> sc_current s" "t \<notin> set (sc_ready s)"
    and ex: "state_of s t = Exited"
  obtains m where "\<And>v. sc_kernel_pml4 v = sc_kernel_pml4 s \<Longrightarrow> sc_threads v = sc_threads s \<Longrightarrow> sc_kstacks v = sc_kstacks s
      \<Longrightarrow> free_stack t True False v = Inr (v\<lparr>sc_kstacks := m\<rparr>)"
    "sched_wf ((retire t (s\<lparr>sc_kstacks := m\<rparr>))\<lparr>sc_to_reap := filter (\<lambda>u. u \<noteq> t) (sc_to_reap s)\<rparr>) (filter (\<lambda>u. u \<noteq> t) d)"
proof -
  let ?d = "filter (\<lambda>u. u \<noteq> t) d"
  note ok = stacks_okD[OF sched_wfD(4)[OF wf]]
  have used: "slot_of s t \<in> used_slots s" using t(1) by (simp add: used_slots_def)
  obtain mm where free: "kstack_free (sc_kernel_pml4 s) (th_stack (sc_threads s t)) True False (kk_memory (sc_kstacks s)) (kk_slots (sc_kstacks s))
      = Inr (mm, slot_release (slot_of s t) (kk_slots (sc_kstacks s)))"
    and mapped': "stacks_mapped (sc_kernel_pml4 s) (used_slots s - {slot_of s t}) mm"
    by (rule stacks_mapped_remove[OF ok(7) used slots_ok_bound[OF ok(4)] ok(5)[OF t(1)]])
  define m where "m = (sc_kstacks s)\<lparr>kk_memory := mm, kk_slots := slot_release (slot_of s t) (kk_slots (sc_kstacks s))\<rparr>"
  have m: "kk_spawning m = kk_spawning (sc_kstacks s)" "kk_memory m = mm" "kk_slots m = slot_release (slot_of s t) (kk_slots (sc_kstacks s))"
    by (simp_all add: m_def)
  define s' where "s' = (retire t (s\<lparr>sc_kstacks := m\<rparr>))\<lparr>sc_to_reap := filter (\<lambda>u. u \<noteq> t) (sc_to_reap s)\<rparr>"
  have st: "state_of s' u = state_of s u" and stack: "th_stack (sc_threads s' u) = th_stack (sc_threads s u)"
    and so: "slot_of s' = slot_of s" for u
    by (simp_all add: s'_def retire_def state_of_def slot_of_def[abs_def] Let_def)
  have f: "sc_current s' = sc_current s" "sc_idle s' = sc_idle s" "sc_ready s' = sc_ready s" "sc_sleeping s' = sc_sleeping s"
    "sc_to_reap s' = filter (\<lambda>u. u \<noteq> t) (sc_to_reap s)" "sc_all s' = filter (\<lambda>u. u \<noteq> t) (sc_all s)" "sc_next_id s' = sc_next_id s"
    "sc_join_waiters s' = sc_join_waiters s" "sc_kernel_pml4 s' = sc_kernel_pml4 s"
    "sc_kstacks s' = m" "set (sc_retired s') \<subseteq> insert (t, th_exit_code (sc_threads s t)) (set (sc_retired s))"
    by (auto simp: s'_def retire_def Let_def dest: set_mono_tl)
  have "placed s d t" by (rule sched_wfD(5)[OF wf t(1,2)])
  then have nos: "t \<notin> snd ` set (sc_sleeping s)" by (simp add: placed_def ex)
  have un: "used_slots s' = used_slots s - {slot_of s t}"
    using ok(1,3) t(1) by (auto simp: used_slots_def f so m inj_on_def)
  have "stacks_ok s'"
    unfolding stacks_ok_def un f(9,10) m
    using slot_release_ok[OF ok(4) used] mapped' ok(1-3,5,6) by (auto simp: so stack f inj_on_def)
  moreover have "lists_ok s' ?d" using sched_wfD(1)[OF wf] t(4) nos by (auto simp: lists_ok_def f)
  moreover have "idle_ok s'" using sched_wfD(2)[OF wf] t by (auto simp: idle_ok_def f st)
  moreover have "ids_ok s'"
  proof -
    have "fst r < sc_next_id s \<and> fst r \<notin> set (sc_all s')" if "r \<in> set (sc_retired s')" for r
    proof -
      from that f(11) have "r = (t, th_exit_code (sc_threads s t)) \<or> r \<in> set (sc_retired s)" by blast
      then show ?thesis using sched_wfD(3)[OF wf] t(1) by (auto simp: ids_ok_def f(6))
    qed
    then show ?thesis using sched_wfD(3)[OF wf] ex by (auto simp: ids_ok_def f st)
  qed
  moreover have "placed s' ?d u" if "u \<in> set (sc_all s)" "u \<noteq> t" "u \<noteq> sc_idle s" for u
  proof -
    have "placed s' ?d u = placed s d u" using that(2) by (intro placed_same) (simp_all add: f st)
    then show ?thesis using sched_wfD(5)[OF wf that(1,3)] by simp
  qed
  ultimately have "sched_wf s' ?d" by (auto simp: sched_wf_def f)
  then show thesis unfolding s'_def by (rule that[rotated]) (simp add: free_stack_def free m_def)
qed

text \<open>What reaping leaves alone.\<close>

definition only_reaps :: "sched \<Rightarrow> sched \<Rightarrow> bool" where
  "only_reaps s s' \<longleftrightarrow> sc_current s' = sc_current s \<and> sc_idle s' = sc_idle s \<and> sc_ready s' = sc_ready s
     \<and> sc_sleeping s' = sc_sleeping s \<and> sc_next_id s' = sc_next_id s \<and> sc_join_waiters s' = sc_join_waiters s
     \<and> sc_kernel_pml4 s' = sc_kernel_pml4 s \<and> sc_ticks s' = sc_ticks s \<and> sc_timeslice_remaining s' = sc_timeslice_remaining s
     \<and> sc_need_resched s' = sc_need_resched s \<and> sc_cpu s' = sc_cpu s \<and> sc_threads s' = sc_threads s
     \<and> length (sc_all s') \<le> length (sc_all s)"

lemma only_reaps_trans: "only_reaps s1 s2 \<Longrightarrow> only_reaps s2 s3 \<Longrightarrow> only_reaps s1 s3"
  by (auto simp: only_reaps_def)

lemma reap_one_wf:
  assumes wf: "sched_wf (s\<lparr>sc_to_reap := t # rest\<rparr>) d"
  shows "\<exists>s'. reap_one t s = Inr s' \<and> sched_wf (s'\<lparr>sc_to_reap := rest\<rparr>) d \<and> only_reaps s s'"
proof -
  let ?v = "s\<lparr>sc_to_reap := t # rest\<rparr>"
  have st: "state_of ?v u = state_of s u" "slot_of ?v = slot_of s" for u by (simp_all add: state_of_def slot_of_def[abs_def])
  have m: "t \<in> set (sc_all ?v)" "t \<noteq> sc_idle ?v" using sched_wfD(13)[OF wf, of t] by simp_all
  have p: "placed ?v d t" by (rule sched_wfD(5)[OF wf m])
  then have ex: "state_of s t = Exited" "t \<notin> set (sc_ready s)" "t \<noteq> sc_current s" "t \<notin> set d"
    by (auto simp: placed_def st split: thread_state.splits if_splits)
  have "t \<noteq> sc_current ?v" "t \<notin> set (sc_ready ?v)" "state_of ?v t = Exited" using ex by (simp_all add: st)
  from retire_wf[OF wf m this] obtain mm where
    r: "\<And>v. sc_kernel_pml4 v = sc_kernel_pml4 ?v \<Longrightarrow> sc_threads v = sc_threads ?v \<Longrightarrow> sc_kstacks v = sc_kstacks ?v
        \<Longrightarrow> free_stack t True False v = Inr (v\<lparr>sc_kstacks := mm\<rparr>)"
      "sched_wf ((retire t (?v\<lparr>sc_kstacks := mm\<rparr>))\<lparr>sc_to_reap := filter (\<lambda>u. u \<noteq> t) (sc_to_reap ?v)\<rparr>) (filter (\<lambda>u. u \<noteq> t) d)"
    by blast
  have fs: "free_stack t True False s = Inr (s\<lparr>sc_kstacks := mm\<rparr>)" by (rule r(1)) simp_all
  let ?s' = "retire t (s\<lparr>sc_kstacks := mm\<rparr>)"
  have "distinct (t # rest)" using sched_wfD(8)[OF wf] by simp
  then have nt: "filter (\<lambda>u. u \<noteq> t) rest = rest" by (auto simp: filter_id_conv)
  have nd: "filter (\<lambda>u. u \<noteq> t) d = d" using ex(4) by (auto simp: filter_id_conv)
  have "sched_wf (?s'\<lparr>sc_to_reap := rest\<rparr>) d"
    using r(2) unfolding nd by (cases "MAX_RETIRED \<le> length (sc_retired s)") (simp_all add: nt st retire_def Let_def)
  moreover have "reap_one t s = Inr ?s'" using fs ex by (simp add: reap_one_def)
  moreover have "only_reaps s ?s'" by (auto simp: only_reaps_def retire_def Let_def)
  ultimately show ?thesis by blast
qed

lemma reap_wf:
  assumes "sched_wf s d"
  shows "\<exists>s'. reap s = Inr s' \<and> sched_wf s' d \<and> only_reaps s s' \<and> sc_to_reap s' = []"
proof -
  have "\<exists>s'. for_each ts reap_one v = Inr s' \<and> sched_wf s' d \<and> only_reaps v s' \<and> sc_to_reap s' = []"
    if "sched_wf (v\<lparr>sc_to_reap := ts\<rparr>) d" "sc_to_reap v = []" for ts v
    using that
  proof (induction ts arbitrary: v)
    case Nil
    then have "v\<lparr>sc_to_reap := []\<rparr> = v" by simp
    with Nil show ?case by (auto simp: only_reaps_def)
  next
    case (Cons t ts)
    from reap_one_wf[OF Cons.prems(1)] obtain v1 where v1: "reap_one t v = Inr v1" "sched_wf (v1\<lparr>sc_to_reap := ts\<rparr>) d" "only_reaps v v1" by blast
    have "sc_to_reap v1 = []" using v1(1) Cons.prems(2)
      by (auto simp: reap_one_def free_stack_def retire_def Let_def checked_simps)
    from Cons.IH[OF v1(2) this] v1 show ?case using only_reaps_trans by fastforce
  qed
  from this[of "sc_to_reap s" "s\<lparr>sc_to_reap := []\<rparr>"] assms show ?thesis
    by (auto simp: reap_def only_reaps_def)
qed


subsection \<open>\<open>schedule\<close> keeps it\<close>

text \<open>The queue the next thread is picked from.\<close>

definition running_now :: "sched \<Rightarrow> bool" where
  "running_now s \<longleftrightarrow> sc_current s \<noteq> sc_idle s \<and> state_of s (sc_current s) = Running"

definition candidates :: "sched \<Rightarrow> tid list" where
  "candidates s = sc_ready s @ (if running_now s then [sc_current s] else [])"

lemma requeue_wf:
  assumes wf: "sched_wf s d" and run: "requeue s = Inr s'"
  shows "sched_wf (s'\<lparr>sc_current := sc_idle s\<rparr>) d" and "sc_ready s' = candidates s" and "sc_current s' = sc_current s"
    and "sc_idle s' = sc_idle s" and "sc_kernel_pml4 s' = sc_kernel_pml4 s" and "sc_next_id s' = sc_next_id s"
    and "state_of s' u = (if u = sc_current s \<and> running_now s then Ready else state_of s u)"
    and "sc_sleeping s' = sc_sleeping s" and "sc_all s' = sc_all s" and "sc_ticks s' = sc_ticks s"
    and "sc_join_waiters s' = sc_join_waiters s" and "sc_retired s' = sc_retired s"
proof -
  let ?c = "sc_current s"
  have st: "state_of (t\<lparr>sc_current := i\<rparr>) u = state_of t u" "slot_of (t\<lparr>sc_current := i\<rparr>) = slot_of t" for t u i
    by (simp_all add: state_of_def slot_of_def[abs_def])
  have st2: "state_of (t\<lparr>sc_ready := r\<rparr>) u = state_of t u" "state_of (t\<lparr>sc_to_reap := r\<rparr>) u = state_of t u" for t u r
    by (simp_all add: state_of_def)
  have other: "placed v d u" if "state_of v u = state_of s u" "u \<noteq> ?c" "sc_current v = sc_idle s" "u \<noteq> sc_idle s"
      "u \<in> set (sc_ready v) \<longleftrightarrow> u \<in> set (sc_ready s)" "sc_sleeping v = sc_sleeping s"
      "u \<in> set (sc_to_reap v) \<longleftrightarrow> u \<in> set (sc_to_reap s)" "u \<in> set (sc_all s)" for v u
  proof -
    have "placed v d u = placed s d u" by (rule placed_same) (use that in auto)
    then show ?thesis using sched_wfD(5)[OF wf that(8,4)] by simp
  qed
  have base: "lists_ok s d" "idle_ok s" "ids_ok s" "stacks_ok s" using sched_wfD(1-4)[OF wf] by auto
  have sk: "stacks_ok v" if "\<And>u. th_stack (sc_threads v u) = th_stack (sc_threads s u)" "sc_all v = sc_all s" "sc_kstacks v = sc_kstacks s"
      "sc_kernel_pml4 v = sc_kernel_pml4 s" for v
    using base(4) stacks_ok_cong[OF that] by simp
  have "sched_wf (s'\<lparr>sc_current := sc_idle s\<rparr>) d \<and> sc_ready s' = candidates s \<and> sc_current s' = sc_current s
    \<and> sc_idle s' = sc_idle s \<and> sc_kernel_pml4 s' = sc_kernel_pml4 s \<and> sc_next_id s' = sc_next_id s
    \<and> (\<forall>u. state_of s' u = (if u = sc_current s \<and> running_now s then Ready else state_of s u))
    \<and> sc_sleeping s' = sc_sleeping s \<and> sc_all s' = sc_all s \<and> sc_ticks s' = sc_ticks s
    \<and> sc_join_waiters s' = sc_join_waiters s \<and> sc_retired s' = sc_retired s"
  proof (cases "?c = sc_idle s")
    case True
    then have s': "s' = s" using run by (simp add: requeue_def)
    have "s\<lparr>sc_current := sc_current s\<rparr> = s" by simp
    then have "s'\<lparr>sc_current := sc_idle s\<rparr> = s" by (simp only: True s')
    then have "sched_wf (s'\<lparr>sc_current := sc_idle s\<rparr>) d" by (simp only: wf)
    then show ?thesis using True by (simp add: s' candidates_def running_now_def)
  next
    case ni: False
    have ca: "?c \<in> set (sc_all s)" using base(2) by (simp add: idle_ok_def)
    have pc: "placed s d ?c" by (rule sched_wfD(5)[OF wf ca ni])
    show ?thesis
    proof (cases "state_of s ?c")
      case Ready
      then show ?thesis using pc by (simp add: placed_def)
    next
      case Running
      then have s': "s' = (set_state ?c Ready s)\<lparr>sc_ready := sc_ready s @ [?c]\<rparr>"
        using run ni by (auto simp: requeue_def push_back_def checked_simps Let_def)
      have np: "?c \<notin> set (sc_ready s) \<and> ?c \<notin> snd ` set (sc_sleeping s) \<and> ?c \<notin> set (sc_to_reap s) \<and> ?c \<notin> set d"
        using pc Running by (simp add: placed_def)
      let ?v = "s'\<lparr>sc_current := sc_idle s\<rparr>"
      have "placed ?v d u" if "u \<in> set (sc_all s)" "u \<noteq> sc_idle s" for u
      proof (cases "u = ?c")
        case True
        then show ?thesis using np ni by (simp add: placed_def s' st st2)
      qed (rule other, use that in \<open>simp_all add: s' st st2\<close>)
      moreover have "lists_ok ?v d" using base(1) np ni ca by (auto simp: lists_ok_def s')
      moreover have "idle_ok ?v" using base(2) ni by (auto simp: idle_ok_def s' st st2)
      moreover have "ids_ok ?v" using base(3) Running ca by (auto simp: ids_ok_def s' st st2)
      moreover have "stacks_ok ?v" by (rule sk) (simp_all add: s')
      ultimately show ?thesis using Running ni
        by (auto simp: sched_wf_def s' st2 candidates_def running_now_def)
    next
      case Exited
      then have s': "s' = s\<lparr>sc_to_reap := sc_to_reap s @ [?c]\<rparr>"
        using run ni by (simp add: requeue_def Let_def)
      have np: "?c \<notin> set (sc_ready s) \<and> ?c \<notin> snd ` set (sc_sleeping s) \<and> ?c \<notin> set (sc_to_reap s) \<and> ?c \<notin> set d"
        using pc Exited by (simp add: placed_def)
      let ?v = "s'\<lparr>sc_current := sc_idle s\<rparr>"
      have "placed ?v d u" if "u \<in> set (sc_all s)" "u \<noteq> sc_idle s" for u
      proof (cases "u = ?c")
        case True
        then show ?thesis using np ni Exited by (simp add: placed_def s' st st2)
      qed (rule other, use that in \<open>simp_all add: s' st st2\<close>)
      moreover have "lists_ok ?v d" using base(1) np ni ca by (auto simp: lists_ok_def s')
      moreover have "idle_ok ?v" using base(2) ni by (auto simp: idle_ok_def s' st st2)
      moreover have "ids_ok ?v" using base(3) by (auto simp: ids_ok_def s' st st2)
      moreover have "stacks_ok ?v" by (rule sk) (simp_all add: s')
      ultimately show ?thesis using Exited ni
        by (auto simp: sched_wf_def s' st2 candidates_def running_now_def)
    next
      case Blocked
      then have s': "s' = s" using run ni by (simp add: requeue_def Let_def)
      have "placed (s\<lparr>sc_current := sc_idle s\<rparr>) d u" if "u \<in> set (sc_all s)" "u \<noteq> sc_idle s" for u
      proof (cases "u = ?c")
        case True
        then show ?thesis using pc Blocked by (simp add: placed_def st)
      qed (rule other, use that in \<open>simp_all add: st\<close>)
      then show ?thesis using wf Blocked ni base(2) sk[of "s\<lparr>sc_current := sc_idle s\<rparr>"]
        by (auto simp: sched_wf_def s' lists_ok_def idle_ok_def ids_ok_def st candidates_def running_now_def)
    next
      case Sleeping
      then have s': "s' = s" using run ni by (simp add: requeue_def Let_def)
      have "placed (s\<lparr>sc_current := sc_idle s\<rparr>) d u" if "u \<in> set (sc_all s)" "u \<noteq> sc_idle s" for u
      proof (cases "u = ?c")
        case True
        then show ?thesis using pc Sleeping by (simp add: placed_def st)
      qed (rule other, use that in \<open>simp_all add: st\<close>)
      then show ?thesis using wf Sleeping ni base(2) sk[of "s\<lparr>sc_current := sc_idle s\<rparr>"]
        by (auto simp: sched_wf_def s' lists_ok_def idle_ok_def ids_ok_def st candidates_def running_now_def)
    qed
  qed
  then show "sched_wf (s'\<lparr>sc_current := sc_idle s\<rparr>) d" and "sc_ready s' = candidates s" and "sc_current s' = sc_current s"
    and "sc_idle s' = sc_idle s" and "sc_kernel_pml4 s' = sc_kernel_pml4 s" and "sc_next_id s' = sc_next_id s"
    and "state_of s' u = (if u = sc_current s \<and> running_now s then Ready else state_of s u)"
    and "sc_sleeping s' = sc_sleeping s" and "sc_all s' = sc_all s" and "sc_ticks s' = sc_ticks s"
    and "sc_join_waiters s' = sc_join_waiters s" and "sc_retired s' = sc_retired s" by simp_all
qed

lemma requeue_returns:
  assumes wf: "sched_wf s d" and few: "few_threads s"
  shows "\<exists>s'. requeue s = Inr s'"
proof (cases "sc_current s = sc_idle s")
  case False
  have ca: "sc_current s \<in> set (sc_all s)" using sched_wfD(2)[OF wf] by (simp add: idle_ok_def)
  have pc: "placed s d (sc_current s)" by (rule sched_wfD(5)[OF wf ca False])
  show ?thesis
  proof (cases "state_of s (sc_current s)")
    case Running
    then have "sc_current s \<notin> set (sc_ready s)" using pc by (simp add: placed_def)
    from push_back_room[OF wf few ca False this, of "set_state (sc_current s) Ready s"] show ?thesis
      using Running False by (simp add: requeue_def Let_def)
  qed (use pc False in \<open>simp_all add: requeue_def placed_def Let_def\<close>)
qed (simp add: requeue_def)


lemma pick_next_spec:
  assumes "pick_next st idle q tr = (n, r, tr')"
  shows "\<exists>killed. tr' = tr @ killed \<and> (\<forall>k\<in>set killed. st k = Exited)
    \<and> (q = killed \<and> n = idle \<and> r = [] \<or> q = killed @ n # r \<and> st n \<noteq> Exited)"
  using assms
proof (induction st idle q tr rule: pick_next.induct)
  case (2 st idle c q tr)
  show ?case
  proof (cases "st c = Exited")
    case True
    with 2 obtain killed where "tr' = (tr @ [c]) @ killed" "\<forall>k\<in>set killed. st k = Exited"
      "q = killed \<and> n = idle \<and> r = [] \<or> q = killed @ n # r \<and> st n \<noteq> Exited" by auto
    then show ?thesis using True by (intro exI[of _ "c # killed"]) auto
  next
    case False
    then show ?thesis using 2 by (intro exI[of _ "[]"]) simp
  qed
qed simp

text \<open>What a dispatch does to the queues: the killed threads before the next one leave for the reaper.\<close>

definition dispatched :: "tid list \<Rightarrow> sched \<Rightarrow> sched \<Rightarrow> bool" where
  "dispatched killed v s \<longleftrightarrow> (\<forall>k\<in>set killed. state_of v k = Exited) \<and> sc_to_reap s = sc_to_reap v @ killed
     \<and> (sc_ready v = killed \<and> sc_current s = sc_idle v \<and> sc_ready s = []
        \<or> sc_ready v = killed @ sc_current s # sc_ready s \<and> state_of v (sc_current s) \<noteq> Exited)
     \<and> (\<forall>u. state_of s u = (if u = sc_current s then Running else state_of v u))"

lemma record_dispatch_fields [simp]:
  "sc_current (record_dispatch t s) = sc_current s" "sc_idle (record_dispatch t s) = sc_idle s"
  "sc_ready (record_dispatch t s) = sc_ready s" "sc_sleeping (record_dispatch t s) = sc_sleeping s"
  "sc_to_reap (record_dispatch t s) = sc_to_reap s" "sc_all (record_dispatch t s) = sc_all s"
  "sc_retired (record_dispatch t s) = sc_retired s" "sc_next_id (record_dispatch t s) = sc_next_id s"
  "sc_join_waiters (record_dispatch t s) = sc_join_waiters s" "sc_kstacks (record_dispatch t s) = sc_kstacks s"
  "sc_kernel_pml4 (record_dispatch t s) = sc_kernel_pml4 s" "sc_ticks (record_dispatch t s) = sc_ticks s"
  "sc_need_resched (record_dispatch t s) = sc_need_resched s"
  by (simp_all add: record_dispatch_def)

lemma state_of_field_updates [simp]:
  "state_of (s\<lparr>sc_current := a\<rparr>) u = state_of s u" "state_of (s\<lparr>sc_ready := b\<rparr>) u = state_of s u"
  "state_of (s\<lparr>sc_to_reap := b\<rparr>) u = state_of s u"
  "state_of (s\<lparr>sc_need_resched := n\<rparr>) u = state_of s u" "state_of (s\<lparr>sc_timeslice_remaining := k\<rparr>) u = state_of s u"
  "state_of (s\<lparr>sc_cpu := cp\<rparr>) u = state_of s u" "state_of (s\<lparr>sc_join_waiters := b\<rparr>) u = state_of s u"
  "state_of (s\<lparr>sc_ticks := k\<rparr>) u = state_of s u" "state_of (s\<lparr>sc_sleeping := e\<rparr>) u = state_of s u"
  by (simp_all add: state_of_def)

lemma dispatch_dispatched:
  "\<exists>killed. dispatched killed v (dispatch v)"
proof -
  obtain n r tr where p: "pick_next (state_of v) (sc_idle v) (sc_ready v) (sc_to_reap v) = (n, r, tr)"
    by (cases "pick_next (state_of v) (sc_idle v) (sc_ready v) (sc_to_reap v)") auto
  from pick_next_spec[OF p] obtain killed where k: "tr = sc_to_reap v @ killed" "\<forall>k\<in>set killed. state_of v k = Exited"
    "sc_ready v = killed \<and> n = sc_idle v \<and> r = [] \<or> sc_ready v = killed @ n # r \<and> state_of v n \<noteq> Exited" by blast
  have "dispatched killed v (dispatch v)"
    unfolding dispatched_def using k by (auto simp: dispatch_def p)
  then show ?thesis by blast
qed

lemma dispatch_keeps:
  "sc_idle (dispatch v) = sc_idle v" "sc_sleeping (dispatch v) = sc_sleeping v" "sc_all (dispatch v) = sc_all v"
  "sc_next_id (dispatch v) = sc_next_id v" "sc_join_waiters (dispatch v) = sc_join_waiters v"
  "sc_kernel_pml4 (dispatch v) = sc_kernel_pml4 v" "sc_kstacks (dispatch v) = sc_kstacks v"
  "sc_retired (dispatch v) = sc_retired v" "sc_ticks (dispatch v) = sc_ticks v"
  "th_stack (sc_threads (dispatch v) u) = th_stack (sc_threads v u)"
  by (simp_all add: dispatch_def split: prod.split)

lemma queue_split:
  assumes "distinct q" "idle \<notin> set q" "n = idle \<and> q = killed \<and> r = [] \<or> q = killed @ n # r \<and> X"
  shows "set q = set killed \<union> set r \<union> ({n} - {idle})"
    and "distinct r" "set killed \<inter> set r = {}" "n \<notin> set r" "n \<notin> set killed" "distinct killed"
  using assms by auto

lemma dispatch_wf:
  assumes wf: "sched_wf (v\<lparr>sc_current := sc_idle v\<rparr>) d"
  shows "sched_wf (dispatch v) d"
proof -
  let ?v = "v\<lparr>sc_current := sc_idle v\<rparr>" and ?s = "dispatch v" and ?n = "sc_current (dispatch v)"
  obtain killed where D: "dispatched killed v ?s" using dispatch_dispatched by blast
  note k = dispatch_keeps
  have st: "state_of ?s u = (if u = ?n then Running else state_of v u)" for u using D by (simp add: dispatched_def)
  have next': "?n = sc_idle v \<and> sc_ready v = killed \<and> sc_ready ?s = [] \<or> sc_ready v = killed @ ?n # sc_ready ?s \<and> state_of v ?n \<noteq> Exited"
    using D by (auto simp: dispatched_def)
  have tr: "sc_to_reap ?s = sc_to_reap v @ killed" using D by (simp add: dispatched_def)
  have nidle: "sc_idle v \<notin> set (sc_ready v)" using sched_wfD(11)[OF wf, of "sc_idle v"] by auto
  have dr: "distinct (sc_ready v)" using sched_wfD(6)[OF wf] by simp
  note dis = queue_split(2-6)[OF dr nidle next'] and q = queue_split(1)[OF dr nidle next']
  have pl: "placed ?v d u" if "u \<in> set (sc_all v)" "u \<noteq> sc_idle v" for u using sched_wfD(5)[OF wf, of u] that by simp
  have rd: "u \<in> set (sc_all v)" "u \<noteq> sc_idle v" "u \<notin> set (sc_to_reap v)" "u \<notin> set d" "u \<notin> snd ` set (sc_sleeping v)"
    "state_of v u = Ready \<or> state_of v u = Exited" if "u \<in> set (sc_ready v)" for u
  proof -
    show a: "u \<in> set (sc_all v)" "u \<noteq> sc_idle v" using sched_wfD(11)[OF wf, of u] that by simp_all
    from pl[OF a] that a(2) show "u \<notin> set (sc_to_reap v)" "u \<notin> set d" "u \<notin> snd ` set (sc_sleeping v)"
      "state_of v u = Ready \<or> state_of v u = Exited"
      by (auto simp: placed_def split: thread_state.splits)
  qed
  have nq: "?n \<in> set (sc_ready v)" if "?n \<noteq> sc_idle v" using q that by blast
  have na: "?n \<in> set (sc_all v)"
    using nq rd(1) sched_wfD(2)[OF wf] by (cases "?n = sc_idle v") (simp_all add: idle_ok_def)
  have nr: "state_of v ?n = Ready" if "?n \<noteq> sc_idle v"
    using next' rd(6)[OF nq[OF that]] that by (elim disjE conjE) simp_all
  have "placed ?s d u" if u: "u \<in> set (sc_all v)" "u \<noteq> sc_idle v" for u
  proof (cases "u = ?n")
    case True
    then have "u \<in> set (sc_ready v)" using q u by blast
    from rd[OF this] dis True show ?thesis by (simp add: placed_def st tr k)
  next
    case ne: False
    show ?thesis
    proof (cases "u \<in> set killed")
      case True
      then have ur: "u \<in> set (sc_ready v)" using q by blast
      from rd[OF this] dis True ne D show ?thesis by (auto simp: placed_def st tr k dispatched_def)
    next
      case False
      then have "placed ?s d u = placed ?v d u" using ne q u
        by (intro placed_same) (auto simp: st tr k)
      then show ?thesis using pl[OF u] by simp
    qed
  qed
  moreover have "lists_ok ?s d"
  proof -
    have "set killed \<inter> set (sc_to_reap v) = {}" using rd(3) q by blast
    moreover have "set (sc_ready ?s) \<subseteq> set (sc_all v) - {sc_idle v}" "set killed \<subseteq> set (sc_all v) - {sc_idle v}" using rd q by blast+
    ultimately show ?thesis using sched_wfD(1)[OF wf] dis by (auto simp: lists_ok_def tr k)
  qed
  moreover have "idle_ok ?s" using sched_wfD(2)[OF wf] na by (auto simp: idle_ok_def st k)
  moreover have "ids_ok ?s"
  proof -
    have "?n \<notin> set (sc_join_waiters v)" using nr sched_wfD(3)[OF wf] by (auto simp: ids_ok_def)
    then show ?thesis using sched_wfD(3)[OF wf] na by (auto simp: ids_ok_def st k)
  qed
  moreover have "stacks_ok ?s" using sched_wfD(4)[OF wf] stacks_ok_cong[of ?s ?v] by (simp add: k)
  ultimately show ?thesis by (simp add: sched_wf_def k)
qed


text \<open>The switch itself touches the processor, the timeslice and the FPU images only.\<close>

definition only_switches :: "sched \<Rightarrow> sched \<Rightarrow> bool" where
  "only_switches s s' \<longleftrightarrow> sc_current s' = sc_current s \<and> sc_idle s' = sc_idle s \<and> sc_ready s' = sc_ready s
     \<and> sc_sleeping s' = sc_sleeping s \<and> sc_to_reap s' = sc_to_reap s \<and> sc_all s' = sc_all s \<and> sc_retired s' = sc_retired s
     \<and> sc_next_id s' = sc_next_id s \<and> sc_join_waiters s' = sc_join_waiters s \<and> sc_kstacks s' = sc_kstacks s
     \<and> sc_kernel_pml4 s' = sc_kernel_pml4 s \<and> sc_ticks s' = sc_ticks s \<and> sc_need_resched s' = sc_need_resched s
     \<and> (\<forall>u. state_of s' u = state_of s u \<and> th_stack (sc_threads s' u) = th_stack (sc_threads s u))"

lemma sched_wf_cong:
  assumes "sc_current s' = sc_current s" "sc_idle s' = sc_idle s" "sc_ready s' = sc_ready s"
    "sc_sleeping s' = sc_sleeping s" "sc_to_reap s' = sc_to_reap s" "sc_all s' = sc_all s" "sc_retired s' = sc_retired s"
    "sc_next_id s' = sc_next_id s" "sc_join_waiters s' = sc_join_waiters s" "sc_kstacks s' = sc_kstacks s"
    "sc_kernel_pml4 s' = sc_kernel_pml4 s"
    "\<And>u. state_of s' u = state_of s u" "\<And>u. th_stack (sc_threads s' u) = th_stack (sc_threads s u)"
  shows "sched_wf s' d = sched_wf s d"
proof -
  have "stacks_ok s' = stacks_ok s" by (rule stacks_ok_cong) (simp_all add: assms)
  moreover have "placed s' d u = placed s d u" for u by (rule placed_same) (simp_all add: assms)
  moreover have "lists_ok s' d = lists_ok s d" "idle_ok s' = idle_ok s" by (simp_all add: lists_ok_def idle_ok_def assms)
  moreover have "ids_ok s' = ids_ok s" by (simp add: ids_ok_def assms)
  ultimately show ?thesis by (simp add: sched_wf_def assms)
qed

lemma only_switches_wf: "only_switches s s' \<Longrightarrow> sched_wf s' d = sched_wf s d"
  by (rule sched_wf_cong) (auto simp: only_switches_def)

lemma space_of_returns: "sc_kernel_pml4 s \<noteq> 0 \<Longrightarrow> \<exists>p. space_of s t = Inr p"
  by (auto simp: space_of_def kernel_address_space_def split: option.splits)

lemma only_switches_steps:
  "only_switches s (s\<lparr>sc_cpu := c\<rparr>)" "only_switches s (s\<lparr>sc_timeslice_remaining := n, sc_cpu := c\<rparr>)" "only_switches s (save_fpu t s)"
  by (simp_all add: only_switches_def save_fpu_def state_of_def upd_thread_def)

lemma only_switches_trans: "only_switches s1 s2 \<Longrightarrow> only_switches s2 s3 \<Longrightarrow> only_switches s1 s3"
  by (simp add: only_switches_def)

lemma switch_context_switches:
  assumes "switch_context prev next s = Inr s'"
  shows "only_switches s s'"
proof -
  let ?top = "ks_top (th_stack (sc_threads s next))"
  let ?s1 = "s\<lparr>sc_timeslice_remaining := TIMESLICE_TICKS,
    sc_cpu := (sc_cpu s)\<lparr>cp_rsp0 := ?top, cp_kernel_rsp := ?top, cp_current_thread := next\<rparr>\<rparr>"
  from assms obtain p n where s': "s' = (let s2 = (if n \<noteq> p then ?s1\<lparr>sc_cpu := (sc_cpu ?s1)\<lparr>cp_space := n\<rparr>\<rparr> else ?s1);
        s3 = save_fpu prev s2 in
      (case th_fpu (sc_threads s3 next) of Some regs \<Rightarrow> s3\<lparr>sc_cpu := (sc_cpu s3)\<lparr>cp_fpu := regs\<rparr>\<rparr> | None \<Rightarrow> s3))"
    unfolding switch_context_def Let_def and_then_Inr_iff by blast
  define s1 where "s1 = ?s1"
  define s2 where "s2 = (if n \<noteq> p then s1\<lparr>sc_cpu := (sc_cpu s1)\<lparr>cp_space := n\<rparr>\<rparr> else s1)"
  define s3 where "s3 = save_fpu prev s2"
  have "only_switches s s1" unfolding s1_def by (rule only_switches_steps(2))
  moreover have "only_switches s1 s2"
  proof (cases "n \<noteq> p")
    case True
    then have "s2 = s1\<lparr>sc_cpu := (sc_cpu s1)\<lparr>cp_space := n\<rparr>\<rparr>" by (simp add: s2_def)
    then show ?thesis using only_switches_steps(1) by simp
  next
    case False
    then have "s2 = s1" by (simp only: s2_def if_False)
    then show ?thesis by (simp add: only_switches_def)
  qed
  moreover have "only_switches s2 s3" unfolding s3_def by (rule only_switches_steps(3))
  moreover have "only_switches s3 s'"
  proof (cases "th_fpu (sc_threads s3 next)")
    case None
    then have "s' = s3" unfolding s' Let_def s1_def[symmetric] s2_def[symmetric] s3_def[symmetric] by simp
    then show ?thesis by (simp add: only_switches_def)
  next
    case (Some regs)
    then have "s' = s3\<lparr>sc_cpu := (sc_cpu s3)\<lparr>cp_fpu := regs\<rparr>\<rparr>"
      unfolding s' Let_def s1_def[symmetric] s2_def[symmetric] s3_def[symmetric] by simp
    then show ?thesis using only_switches_steps(1) by simp
  qed
  ultimately show ?thesis using only_switches_trans by blast
qed

lemma switch_context_returns:
  assumes "sc_kernel_pml4 s \<noteq> 0" shows "\<exists>s'. switch_context prev next s = Inr s'"
proof -
  define s1 where "s1 = s\<lparr>sc_timeslice_remaining := TIMESLICE_TICKS, sc_cpu := (sc_cpu s)\<lparr>cp_rsp0 := ks_top (th_stack (sc_threads s next)),
    cp_kernel_rsp := ks_top (th_stack (sc_threads s next)), cp_current_thread := next\<rparr>\<rparr>"
  have "sc_kernel_pml4 s1 \<noteq> 0" using assms by (simp add: s1_def)
  then obtain p q where "space_of s1 prev = Inr p" "space_of s1 next = Inr q" using space_of_returns by blast
  then show ?thesis unfolding switch_context_def Let_def s1_def[symmetric] by simp
qed

text \<open>What a call of \<open>schedule\<close> does.\<close>

definition scheduled :: "tid list \<Rightarrow> sched \<Rightarrow> sched \<Rightarrow> bool" where
  "scheduled killed s s' \<longleftrightarrow> (\<forall>k\<in>set killed. state_of s k = Exited)
     \<and> (candidates s = killed \<and> sc_current s' = sc_idle s \<and> sc_ready s' = [] \<or> candidates s = killed @ sc_current s' # sc_ready s')
     \<and> (\<forall>u. state_of s' u = (if u = sc_current s' then Running
          else if u = sc_current s \<and> running_now s then Ready else state_of s u))
     \<and> sc_idle s' = sc_idle s \<and> sc_sleeping s' = sc_sleeping s \<and> sc_next_id s' = sc_next_id s
     \<and> sc_join_waiters s' = sc_join_waiters s \<and> sc_ticks s' = sc_ticks s \<and> sc_kernel_pml4 s' = sc_kernel_pml4 s
     \<and> length (sc_all s') \<le> length (sc_all s)"

lemma only_reaps_state: "only_reaps s s' \<Longrightarrow> state_of s' = state_of s"
  by (simp add: only_reaps_def state_of_def[abs_def])

lemma schedule_ok:
  assumes wf: "sched_wf s d" and run: "schedule s = Inr s'"
  shows "sched_wf s' d \<and> (\<exists>killed. scheduled killed s s')"
proof -
  obtain s1 where s1: "reap s = Inr s1" "sched_wf s1 d" "only_reaps s s1" using reap_wf[OF wf] by blast
  with run obtain s2 where s2: "requeue s1 = Inr s2" by (auto simp: schedule_def checked_simps)
  let ?s3 = "dispatch s2"
  note q = requeue_wf[OF s1(2) s2]
  note r = only_reaps_state[OF s1(3)] s1(3)[unfolded only_reaps_def]
  have fin: "only_switches ?s3 s'"
    using run s1(1) s2 switch_context_switches
    by (cases "sc_current ?s3 = sc_current s1") (auto simp: schedule_def Let_def only_switches_def)
  have "sched_wf ?s3 d" using dispatch_wf q(1,4) by simp
  then have w: "sched_wf s' d" using only_switches_wf[OF fin] by simp
  obtain killed where k: "dispatched killed s2 ?s3" using dispatch_dispatched by blast
  have c: "candidates s1 = candidates s" "running_now s1 = running_now s" using r by (simp_all add: candidates_def running_now_def)
  have "scheduled killed s s'"
    unfolding scheduled_def
  proof (intro conjI)
    show "\<forall>k\<in>set killed. state_of s k = Exited"
      using k q(7) r(1) by (auto simp: dispatched_def split: if_splits)
    show "candidates s = killed \<and> sc_current s' = sc_idle s \<and> sc_ready s' = [] \<or> candidates s = killed @ sc_current s' # sc_ready s'"
      using k fin q(2,4) r c by (auto simp: dispatched_def only_switches_def)
    show "\<forall>u. state_of s' u = (if u = sc_current s' then Running
          else if u = sc_current s \<and> running_now s then Ready else state_of s u)"
      using k fin q(7) r c by (simp add: dispatched_def only_switches_def)
  qed (use fin q r in \<open>simp_all add: only_switches_def dispatch_keeps\<close>)
  with w show ?thesis by blast
qed

lemma schedule_returns:
  assumes wf: "sched_wf s d" and few: "few_threads s"
  shows "\<exists>s'. schedule s = Inr s'"
proof -
  obtain s1 where s1: "reap s = Inr s1" "sched_wf s1 d" "only_reaps s s1" using reap_wf[OF wf] by blast
  have "few_threads s1" using few s1(3) by (simp add: few_threads_def only_reaps_def)
  from requeue_returns[OF s1(2) this] obtain s2 where s2: "requeue s1 = Inr s2" by blast
  note q = requeue_wf[OF s1(2) s2]
  have "sc_kernel_pml4 (dispatch s2) \<noteq> 0" using q(5) sched_wfD(2)[OF s1(2)] by (simp add: dispatch_keeps idle_ok_def)
  from switch_context_returns[OF this] s1(1) s2 show ?thesis by (simp add: schedule_def Let_def)
qed


subsection \<open>Every event keeps it\<close>

lemma sched_invD:
  assumes "sched_inv (s, d)"
  shows "sched_wf s d" "sc_current s \<noteq> sc_idle s \<Longrightarrow> state_of s (sc_current s) = Running"
    "state_of s (sc_current s) \<noteq> Blocked" "state_of s (sc_current s) \<noteq> Sleeping" "state_of s (sc_current s) \<noteq> Exited"
proof -
  show w: "sched_wf s d" and r: "sc_current s \<noteq> sc_idle s \<Longrightarrow> state_of s (sc_current s) = Running"
    using assms by (auto simp: sched_inv_def)
  have "state_of s (sc_current s) \<in> {Ready, Running}"
    using sched_wfD(2)[OF w] r by (cases "sc_current s = sc_idle s") (simp_all add: idle_ok_def)
  then show "state_of s (sc_current s) \<noteq> Blocked" "state_of s (sc_current s) \<noteq> Sleeping" "state_of s (sc_current s) \<noteq> Exited"
    by auto
qed

lemma running_placed:
  assumes "sched_inv (s, d)" "sc_current s \<noteq> sc_idle s"
  shows "sc_current s \<in> set (sc_all s)" "sc_current s \<notin> set (sc_ready s)" "sc_current s \<notin> snd ` set (sc_sleeping s)"
    "sc_current s \<notin> set (sc_to_reap s)" "sc_current s \<notin> set d" "sc_current s \<notin> set (sc_join_waiters s)"
proof -
  note w = sched_invD(1,2)[OF assms(1)]
  show a: "sc_current s \<in> set (sc_all s)" using sched_wfD(2)[OF w(1)] by (simp add: idle_ok_def)
  have "placed s d (sc_current s)" by (rule sched_wfD(5)[OF w(1) a assms(2)])
  then show "sc_current s \<notin> set (sc_ready s)" "sc_current s \<notin> snd ` set (sc_sleeping s)"
    "sc_current s \<notin> set (sc_to_reap s)" "sc_current s \<notin> set d"
    using w(2)[OF assms(2)] by (auto simp: placed_def)
  show "sc_current s \<notin> set (sc_join_waiters s)" using w(2)[OF assms(2)] sched_wfD(3)[OF w(1)] by (auto simp: ids_ok_def)
qed

text \<open>The current thread gives up the processor: parked, asleep or gone.\<close>

definition leaving :: "thread_state \<Rightarrow> (nat \<times> tid) list \<Rightarrow> tid list \<Rightarrow> sched \<Rightarrow> sched" where
  "leaving st sl jw s = (set_state (sc_current s) st s)
     \<lparr>sc_sleeping := sc_sleeping s @ sl, sc_join_waiters := sc_join_waiters s @ jw\<rparr>"

lemma leaving_fields [simp]:
  "sc_current (leaving st sl jw s) = sc_current s" "sc_idle (leaving st sl jw s) = sc_idle s"
  "sc_ready (leaving st sl jw s) = sc_ready s" "sc_sleeping (leaving st sl jw s) = sc_sleeping s @ sl"
  "sc_to_reap (leaving st sl jw s) = sc_to_reap s" "sc_all (leaving st sl jw s) = sc_all s"
  "sc_retired (leaving st sl jw s) = sc_retired s" "sc_next_id (leaving st sl jw s) = sc_next_id s"
  "sc_join_waiters (leaving st sl jw s) = sc_join_waiters s @ jw" "sc_kstacks (leaving st sl jw s) = sc_kstacks s"
  "sc_kernel_pml4 (leaving st sl jw s) = sc_kernel_pml4 s" "sc_ticks (leaving st sl jw s) = sc_ticks s"
  "state_of (leaving st sl jw s) u = (if u = sc_current s then st else state_of s u)"
  "th_stack (sc_threads (leaving st sl jw s) u) = th_stack (sc_threads s u)"
  by (simp_all add: leaving_def)

lemma leaving_wf:
  assumes inv: "sched_inv (s, d)" and ni: "sc_current s \<noteq> sc_idle s"
    and how: "st = Blocked \<and> sl = [] \<and> (jw = [] \<or> jw = [sc_current s]) \<or> st = Exited \<and> sl = [] \<and> jw = []
      \<or> st = Sleeping \<and> sl = [(w, sc_current s)] \<and> jw = []"
  shows "sched_wf (leaving st sl jw s) d"
proof -
  let ?s = "leaving st sl jw s"
  note wf = sched_invD(1)[OF inv] and p = running_placed[OF inv ni]
  have "(a, sc_current s) \<notin> set (sc_sleeping s)" for a using p(3) by force
  then have "lists_ok ?s d" using sched_wfD(1)[OF wf] p ni how by (auto simp: lists_ok_def)
  moreover have "idle_ok ?s" using sched_wfD(2)[OF wf] ni by (auto simp: idle_ok_def)
  moreover have "ids_ok ?s" using sched_wfD(3)[OF wf] p ni how by (auto simp: ids_ok_def)
  moreover have "stacks_ok ?s" using sched_wfD(4)[OF wf] stacks_ok_cong[of ?s s] by simp
  moreover have "placed ?s d u" if "u \<in> set (sc_all s)" "u \<noteq> sc_idle s" for u
  proof (cases "u = sc_current s")
    case True
    then show ?thesis using p how by (auto simp: placed_def)
  next
    case False
    then have "placed ?s d u = placed s d u" using how by (intro placed_same) auto
    then show ?thesis using sched_wfD(5)[OF wf that] by simp
  qed
  ultimately show ?thesis by (simp add: sched_wf_def)
qed

lemma schedule_inv:
  assumes "sched_wf s d" "schedule s = Inr s'" shows "sched_inv (s', d)"
  using schedule_ok[OF assms] by (auto simp: sched_inv_def scheduled_def)

lemma park_event:
  assumes inv: "sched_inv (s, d)" and ni: "sc_current s \<noteq> sc_idle s"
    and prep: "prepare (sc_current s) (set_state (sc_current s) Blocked s) = (True, leaving st sl jw s)"
    and how: "st = Blocked \<and> sl = [] \<and> (jw = [] \<or> jw = [sc_current s]) \<or> st = Sleeping \<and> sl = [(w, sc_current s)] \<and> jw = []"
  shows "block_current prepare s = schedule (leaving st sl jw s)"
    and "block_current prepare s = Inr s' \<Longrightarrow> sched_inv (s', d)"
    and "few_threads s \<Longrightarrow> \<exists>s'. block_current prepare s = Inr s'"
proof -
  show eq: "block_current prepare s = schedule (leaving st sl jw s)" by (simp add: block_current_def prep)
  have w: "sched_wf (leaving st sl jw s) d" by (rule leaving_wf[OF inv ni]) (use how in auto)
  show "block_current prepare s = Inr s' \<Longrightarrow> sched_inv (s', d)" using schedule_inv[OF w] by (simp add: eq)
  show "few_threads s \<Longrightarrow> \<exists>s'. block_current prepare s = Inr s'"
    using schedule_returns[OF w] by (simp add: eq few_threads_def)
qed

lemma set_state_leaving:
  "set_state (sc_current s) st s = leaving st [] [] s"
  "(set_state (sc_current s) Sleeping (set_state (sc_current s) Blocked s))\<lparr>sc_sleeping := sc_sleeping s @ [e]\<rparr>
    = leaving Sleeping [e] [] s"
  "(set_state (sc_current s) Blocked s)\<lparr>sc_join_waiters := sc_join_waiters s @ [sc_current s]\<rparr> = leaving Blocked [] [sc_current s] s"
  by (simp_all add: leaving_def set_state_def upd_thread_def)

lemma sleep_event:
  assumes "sched_inv (s, d)" "sc_current s \<noteq> sc_idle s"
  shows "sleep_ms ms s = schedule (leaving Sleeping [(saturating_add (sc_ticks s) ms, sc_current s)] [] s)"
    and "sleep_ms ms s = Inr s' \<Longrightarrow> sched_inv (s', d)" and "few_threads s \<Longrightarrow> \<exists>s'. sleep_ms ms s = Inr s'"
  using park_event[OF assms, of "\<lambda>t v. (True, (set_state t Sleeping v)\<lparr>sc_sleeping := sc_sleeping v @ [(saturating_add (sc_ticks s) ms, t)]\<rparr>)"
      Sleeping "[(saturating_add (sc_ticks s) ms, sc_current s)]" "[]" "saturating_add (sc_ticks s) ms"]
  by (simp_all add: sleep_ms_def set_state_leaving(2) Let_def)

lemma block_event:
  assumes "sched_inv (s, d)" "sc_current s \<noteq> sc_idle s"
  shows "block_current (\<lambda>t s. (True, s)) s = Inr s' \<Longrightarrow> sched_inv (s', d)"
    and "few_threads s \<Longrightarrow> \<exists>s'. block_current (\<lambda>t s. (True, s)) s = Inr s'"
  using park_event[OF assms, of "\<lambda>t s. (True, s)" Blocked "[]" "[]" 0] by (simp_all add: set_state_leaving(1))

lemma join_wait_event:
  assumes "sched_inv (s, d)" "sc_current s \<noteq> sc_idle s"
  shows "block_current (\<lambda>t s. (True, s\<lparr>sc_join_waiters := sc_join_waiters s @ [t]\<rparr>)) s
      = schedule (leaving Blocked [] [sc_current s] s)"
    and "block_current (\<lambda>t s. (True, s\<lparr>sc_join_waiters := sc_join_waiters s @ [t]\<rparr>)) s = Inr s' \<Longrightarrow> sched_inv (s', d)"
    and "few_threads s \<Longrightarrow> \<exists>s'. block_current (\<lambda>t s. (True, s\<lparr>sc_join_waiters := sc_join_waiters s @ [t]\<rparr>)) s = Inr s'"
  using park_event[OF assms, of "\<lambda>t s. (True, s\<lparr>sc_join_waiters := sc_join_waiters s @ [t]\<rparr>)" Blocked "[]" "[sc_current s]" 0]
  by (simp_all add: set_state_leaving(3))


lemma joiners_ok:
  assumes "sched_wf s d" "t \<in> set (sc_join_waiters s)"
  shows "t < sc_next_id s" "state_of s t \<noteq> Sleeping"
  using sched_wfD(3)[OF assms(1)] assms(2) by (auto simp: ids_ok_def)

lemma clear_joiners_wf: "sched_wf s d \<Longrightarrow> sched_wf (s\<lparr>sc_join_waiters := []\<rparr>) d"
proof -
  assume wf: "sched_wf s d"
  let ?s = "s\<lparr>sc_join_waiters := []\<rparr>"
  have "stacks_ok ?s" using sched_wfD(4)[OF wf] stacks_ok_cong[of ?s s] by simp
  moreover have "placed ?s d u = placed s d u" for u by (intro placed_same) simp_all
  ultimately show ?thesis
    using wf by (simp add: sched_wf_def lists_ok_def idle_ok_def ids_ok_def)
qed

lemma wake_joiners_ok:
  assumes wf: "sched_wf s d" and cur: "state_of s (sc_current s) \<noteq> Blocked"
  shows "wake_joiners s = Inr s' \<Longrightarrow> sched_wf s' d \<and> only_wakes s s' \<and> sc_join_waiters s' = []"
    and "few_threads s \<Longrightarrow> \<exists>s'. wake_joiners s = Inr s'"
proof -
  let ?s = "s\<lparr>sc_join_waiters := []\<rparr>"
  note w = clear_joiners_wf[OF wf]
  have j: "\<forall>t\<in>set (sc_join_waiters s). t < sc_next_id ?s \<and> state_of ?s t \<noteq> Sleeping \<and> t \<notin> set (sc_join_waiters ?s)"
    using joiners_ok[OF wf] by auto
  have c: "state_of ?s (sc_current ?s) \<noteq> Blocked" using cur by simp
  have o: "only_wakes s s'" if "only_wakes ?s s'" using that by (simp add: only_wakes_def)
  show "wake_joiners s = Inr s' \<Longrightarrow> sched_wf s' d \<and> only_wakes s s' \<and> sc_join_waiters s' = []"
    using wake_all_wf[OF w j c] o by (simp add: wake_joiners_def)
  show "few_threads s \<Longrightarrow> \<exists>s'. wake_joiners s = Inr s'"
    using wake_all_returns[OF w j c] by (simp add: wake_joiners_def few_threads_def)
qed

lemma set_exit_code_fields [simp]:
  "sc_current (set_exit_code t c s) = sc_current s" "sc_idle (set_exit_code t c s) = sc_idle s"
  "sc_ready (set_exit_code t c s) = sc_ready s" "sc_sleeping (set_exit_code t c s) = sc_sleeping s"
  "sc_to_reap (set_exit_code t c s) = sc_to_reap s" "sc_all (set_exit_code t c s) = sc_all s"
  "sc_retired (set_exit_code t c s) = sc_retired s" "sc_next_id (set_exit_code t c s) = sc_next_id s"
  "sc_join_waiters (set_exit_code t c s) = sc_join_waiters s" "sc_kstacks (set_exit_code t c s) = sc_kstacks s"
  "sc_kernel_pml4 (set_exit_code t c s) = sc_kernel_pml4 s"
  by (simp_all add: set_exit_code_def)

lemma set_exit_code_wf: "sched_wf (set_exit_code t c s) d = sched_wf s d"
  by (rule sched_wf_cong) simp_all

lemma return_event:
  assumes inv: "sched_inv (s, d)" and ni: "sc_current s \<noteq> sc_idle s"
  shows "thread_return code s = Inr s' \<Longrightarrow> sched_inv (s', d)" and "few_threads s \<Longrightarrow> \<exists>s'. thread_return code s = Inr s'"
proof -
  let ?c = "set_exit_code (sc_current s) code s"
  let ?s = "leaving Exited [] [] ?c"
  have "sched_inv (?c, d)" using inv by (simp add: sched_inv_def set_exit_code_wf)
  then have w: "sched_wf ?s d" by (rule leaving_wf) (use ni in auto)
  have c: "state_of ?s (sc_current ?s) \<noteq> Blocked" by simp
  note k = wake_joiners_ok[OF w c]
  have eq: "thread_return code s = and_then (wake_joiners ?s) schedule"
    using set_state_leaving(1)[of ?c] by (simp add: thread_return_def exit_current_def)
  show "thread_return code s = Inr s' \<Longrightarrow> sched_inv (s', d)" using k(1) schedule_inv by (auto simp: eq checked_simps)
  assume few: "few_threads s"
  then obtain s1 where s1: "wake_joiners ?s = Inr s1" using k(2) by (auto simp: few_threads_def)
  have "few_threads s1" using k(1)[OF s1] few by (auto simp: few_threads_def dest: only_wakesD(3))
  from schedule_returns[OF conjunct1[OF k(1)[OF s1]] this] s1 show "\<exists>s'. thread_return code s = Inr s'" by (simp add: eq)
qed

lemma wakes_keep_inv:
  assumes "sched_inv (s, d)" "sched_wf s' d" "only_wakes s s'" shows "sched_inv (s', d)"
  using sched_invD(2-4)[OF assms(1)] only_wakesD(1,2)[OF assms(3)] only_wakesD(13)[OF assms(3), of "sc_current s"] assms(2)
  by (auto simp: sched_inv_def)

lemma wake_event:
  assumes "sched_inv (s, d)" "t < sc_next_id s" "state_of s t \<noteq> Sleeping" "t \<notin> set (sc_join_waiters s)" "wake t s = Inr s'"
  shows "sched_inv (s', d)"
  using wake_wf[OF sched_invD(1)[OF assms(1)] assms(2-4) sched_invD(3)[OF assms(1)] assms(5)] wakes_keep_inv[OF assms(1)] by blast

lemma wake_joiners_event:
  assumes "sched_inv (s, d)" "wake_joiners s = Inr s'" shows "sched_inv (s', d)"
  using wake_joiners_ok(1)[OF sched_invD(1,3)[OF assms(1)] assms(2)] wakes_keep_inv[OF assms(1)] by blast

lemma tick_fields [simp]:
  "sc_current (record_tick t s) = sc_current s" "sc_idle (record_tick t s) = sc_idle s"
  "sc_ready (record_tick t s) = sc_ready s" "sc_sleeping (record_tick t s) = sc_sleeping s"
  "sc_to_reap (record_tick t s) = sc_to_reap s" "sc_all (record_tick t s) = sc_all s"
  "sc_retired (record_tick t s) = sc_retired s" "sc_next_id (record_tick t s) = sc_next_id s"
  "sc_join_waiters (record_tick t s) = sc_join_waiters s" "sc_kstacks (record_tick t s) = sc_kstacks s"
  "sc_kernel_pml4 (record_tick t s) = sc_kernel_pml4 s" "sc_ticks (record_tick t s) = sc_ticks s"
  "sc_timeslice_remaining (record_tick t s) = sc_timeslice_remaining s" "sc_need_resched (record_tick t s) = sc_need_resched s"
  by (simp_all add: record_tick_def)

text \<open>What a tick does: the sleepers that are due get ready, and the timeslice runs down.\<close>

definition ticked :: "sched \<Rightarrow> sched \<Rightarrow> bool" where
  "ticked s s' \<longleftrightarrow> due_woken (sc_ticks s) s s' \<and> sc_current s' = sc_current s \<and> sc_idle s' = sc_idle s \<and> sc_all s' = sc_all s
     \<and> sc_to_reap s' = sc_to_reap s \<and> sc_next_id s' = sc_next_id s \<and> sc_ticks s' = sc_ticks s
     \<and> sc_kernel_pml4 s' = sc_kernel_pml4 s \<and> sc_join_waiters s' = sc_join_waiters s
     \<and> (if sc_timeslice_remaining s \<le> 1 then sc_timeslice_remaining s' = TIMESLICE_TICKS \<and> sc_need_resched s'
        else sc_timeslice_remaining s' = sc_timeslice_remaining s - 1)
     \<and> (due (sc_ticks s) s \<noteq> {} \<and> sc_current s = sc_idle s \<longrightarrow> sc_need_resched s')"

lemma on_timer_tick_ok:
  assumes inv: "sched_inv (s, d)"
  shows "on_timer_tick s = Inr s' \<Longrightarrow> sched_inv (s', d) \<and> ticked s s'"
    and "few_threads s \<Longrightarrow> \<exists>s'. on_timer_tick s = Inr s'"
proof -
  let ?t = "record_tick (sc_current s) s"
  have w: "sched_wf ?t d" using sched_wf_cong[of ?t s] sched_invD(1)[OF inv] by simp
  have i: "sched_inv (?t, d)" using w inv by (simp add: sched_inv_def)
  have c: "state_of ?t (sc_current ?t) \<noteq> Sleeping" using sched_invD(4)[OF inv] by simp
  note wd = wake_due_ok[OF w c, of 0 "sc_ticks s"]
  show "few_threads s \<Longrightarrow> \<exists>s'. on_timer_tick s = Inr s'"
    using wd(2)[of False] by (auto simp: few_threads_def on_timer_tick_def Let_def)
  assume "on_timer_tick s = Inr s'"
  then obtain woke s1 where s1: "wake_due (sc_ticks s) 0 False ?t = Inr (woke, s1)"
    and s': "s' = (let s2 = (if woke \<and> sc_current s1 = sc_idle s1 then s1\<lparr>sc_need_resched := True\<rparr> else s1) in
       if sc_timeslice_remaining s2 \<le> 1 then s2\<lparr>sc_timeslice_remaining := TIMESLICE_TICKS, sc_need_resched := True\<rparr>
       else s2\<lparr>sc_timeslice_remaining := sc_timeslice_remaining s2 - 1\<rparr>)"
    unfolding on_timer_tick_def Let_def by (auto simp: checked_simps)
  have k: "sched_wf s1 d" "only_wakes ?t s1" "sc_join_waiters s1 = sc_join_waiters s" "due_woken (sc_ticks s) ?t s1"
    "woke \<longleftrightarrow> due (sc_ticks s) s \<noteq> {}"
    using wd(1)[OF _ _ s1] by (simp_all add: due_def)
  have "sched_wf s' d = sched_wf s1 d" unfolding s' by (rule sched_wf_cong) (simp_all add: Let_def)
  then have w': "sched_wf s' d" using k(1) by simp
  have o: "only_wakes ?t s'" if "sc_timeslice_remaining s' = sc_timeslice_remaining s"
    using k(2) that by (auto simp: only_wakes_def s' Let_def split: if_splits)
  have cur: "sc_current s' = sc_current s" "sc_idle s' = sc_idle s" "state_of s' = state_of s1"
    using only_wakesD(1,2)[OF k(2)] by (auto simp: s' Let_def fun_eq_iff)
  have "sched_inv (s1, d)" by (rule wakes_keep_inv[OF i k(1,2)])
  then have "sched_inv (s', d)" using w' cur only_wakesD(1,2)[OF k(2)] by (simp add: sched_inv_def)
  moreover have "due (sc_ticks s) ?t = due (sc_ticks s) s" "state_of ?t = state_of s" "sc_sleeping s' = sc_sleeping s1"
    "sc_ready s' = sc_ready s1" by (auto simp: due_def fun_eq_iff s' Let_def)
  then have "due_woken (sc_ticks s) s s'" using k(4) cur(3) by (simp add: due_woken_def)
  then have "ticked s s'" using only_wakesD(1-9,10)[OF k(2)] k(3,5)
    unfolding ticked_def s' Let_def by simp
  ultimately show "sched_inv (s', d) \<and> ticked s s'" by blast
qed

lemma preempt_event:
  assumes inv: "sched_inv (s, d)"
  shows "preempt_if_needed s = Inr s' \<Longrightarrow> sched_inv (s', d)" and "few_threads s \<Longrightarrow> \<exists>s'. preempt_if_needed s = Inr s'"
proof -
  have w: "sched_wf (s\<lparr>sc_need_resched := False\<rparr>) d"
    using sched_wf_cong[of "s\<lparr>sc_need_resched := False\<rparr>" s] sched_invD(1)[OF inv] by simp
  show "preempt_if_needed s = Inr s' \<Longrightarrow> sched_inv (s', d)"
    using inv schedule_inv[OF w] by (auto simp: preempt_if_needed_def split: if_splits)
  show "few_threads s \<Longrightarrow> \<exists>s'. preempt_if_needed s = Inr s'"
    using schedule_returns[OF w] by (auto simp: preempt_if_needed_def few_threads_def)
qed

lemma timer_event:
  assumes inv: "sched_inv (s, d)"
  shows "timer_irq s = Inr s' \<Longrightarrow> sched_inv (s', d)" and "few_threads s \<Longrightarrow> \<exists>s'. timer_irq s = Inr s'"
proof -
  let ?s = "s\<lparr>sc_ticks := (sc_ticks s + 1) mod u64_limit\<rparr>"
  have i: "sched_inv (?s, d)"
    using sched_wf_cong[of ?s s] inv by (simp add: sched_inv_def)
  note t = on_timer_tick_ok[OF i]
  show "timer_irq s = Inr s' \<Longrightarrow> sched_inv (s', d)"
    using t(1) preempt_event(1) by (auto simp: timer_irq_def checked_simps)
  assume few: "few_threads s"
  then obtain s1 where s1: "on_timer_tick ?s = Inr s1" using t(2) by (auto simp: few_threads_def)
  have "few_threads s1" using t(1)[OF s1] few by (simp add: ticked_def few_threads_def)
  with preempt_event(2)[of s1 d] t(1)[OF s1] s1 show "\<exists>s'. timer_irq s = Inr s'" by (simp add: timer_irq_def)
qed

lemma spawn_stack_event:
  assumes inv: "sched_inv (s, d)"
  shows "spawn_allocate s = Inr (stack, s') \<Longrightarrow> sched_inv (s', d)"
    and "card (used_slots s) < NUM_SLOTS \<Longrightarrow> memory_for_stack (kk_memory (sc_kstacks s)) \<Longrightarrow> \<exists>r. spawn_allocate s = Inr r"
proof -
  let ?alloc = "kstack_allocate (sc_kernel_pml4 s) STACK_PAGES (kk_memory (sc_kstacks s)) (kk_slots (sc_kstacks s))"
  note wf = sched_invD(1)[OF inv]
  note ok = stacks_okD[OF sched_wfD(4)[OF wf]]
  {
    assume run: "spawn_allocate s = Inr (stack, s')"
    then have "returns ?alloc" by (auto simp: spawn_allocate_def returns_def checked_simps)
    then obtain stack1 mm1 slots1 where a: "?alloc = Inr (stack1, mm1, slots1)" "slot_index stack1 \<notin> used_slots s"
      "slot_addrs (slot_index stack1) = Inr stack1" "slots_ok (insert (slot_index stack1) (used_slots s)) slots1"
      "stacks_mapped (sc_kernel_pml4 s) (insert (slot_index stack1) (used_slots s)) mm1"
      by (rule kstack_allocate_keeps[OF ok(7,4) disjI2])
    have s': "s' = s\<lparr>sc_kstacks := \<lparr>kk_memory = mm1, kk_slots = slots1, kk_spawning = stack1 # kk_spawning (sc_kstacks s)\<rparr>\<rparr>"
      using run by (auto simp: spawn_allocate_def a(1))
    have so: "slot_of s' = slot_of s" "state_of s' u = state_of s u" for u
      by (simp_all add: s' slot_of_def[abs_def] state_of_def)
    have f: "sc_current s' = sc_current s" "sc_idle s' = sc_idle s" "sc_ready s' = sc_ready s" "sc_sleeping s' = sc_sleeping s"
      "sc_to_reap s' = sc_to_reap s" "sc_all s' = sc_all s" "sc_next_id s' = sc_next_id s" "sc_retired s' = sc_retired s"
      "sc_join_waiters s' = sc_join_waiters s" "sc_kernel_pml4 s' = sc_kernel_pml4 s" "sc_threads s' = sc_threads s"
      "sc_kstacks s' = \<lparr>kk_memory = mm1, kk_slots = slots1, kk_spawning = stack1 # kk_spawning (sc_kstacks s)\<rparr>"
      by (simp_all add: s')
    have un: "used_slots s' = insert (slot_index stack1) (used_slots s)" by (auto simp: used_slots_def so f)
    have "slot_index stack1 \<notin> slot_of s ` set (sc_all s)" "slot_index stack1 \<notin> slot_index ` set (kk_spawning (sc_kstacks s))"
      using a(2) by (simp_all add: used_slots_def)
    then have "stacks_ok s'"
      unfolding stacks_ok_def un using ok(1-3,5,6) a(3-5) by (simp add: so f)
    moreover have "placed s' d u = placed s d u" for u by (intro placed_same) (simp_all add: so f)
    ultimately have "sched_wf s' d" using wf by (simp add: sched_wf_def lists_ok_def idle_ok_def ids_ok_def so f)
    then show "sched_inv (s', d)" using inv by (simp add: sched_inv_def so f)
  }
  assume "card (used_slots s) < NUM_SLOTS" "memory_for_stack (kk_memory (sc_kstacks s))"
  then obtain stack mm1 slots1 where "?alloc = Inr (stack, mm1, slots1)"
    using kstack_allocate_keeps[OF ok(7,4) disjI1[OF conjI]] by metis
  then show "\<exists>r. spawn_allocate s = Inr r" by (simp add: spawn_allocate_def)
qed

lemma spawn_event:
  assumes inv: "sched_inv (s, d)" and mem: "stack \<in> set (kk_spawning (sc_kstacks s))"
  shows "spawn_register name space entry stack s = Inr (id', s')
      \<Longrightarrow> sched_inv (s', d) \<and> id' = sc_next_id s \<and> sc_all s' = sc_all s @ [id'] \<and> sc_ready s' = sc_ready s @ [id']
        \<and> state_of s' id' = Ready \<and> sc_current s' = sc_current s \<and> id' \<notin> set (sc_all s)"
    and "length (sc_all s) \<le> MAX_THREADS \<Longrightarrow> sc_next_id s + 1 < u64_limit \<Longrightarrow> \<exists>r. spawn_register name space entry stack s = Inr r"
proof -
  let ?id = "sc_next_id s" and ?sp = "kk_spawning (sc_kstacks s)"
  note wf = sched_invD(1)[OF inv]
  note ok = stacks_okD[OF sched_wfD(4)[OF wf]]
  have new: "?id \<notin> set (sc_all s)" using sched_wfD(3)[OF wf] by (auto simp: ids_ok_def)
  have nin: "?id \<notin> set (sc_ready s)" "?id \<notin> snd ` set (sc_sleeping s)" "?id \<notin> set (sc_to_reap s)" "?id \<notin> set d"
    "?id \<noteq> sc_idle s" "?id \<noteq> sc_current s"
    using new sched_wfD(11-14)[OF wf, of ?id] sched_wfD(2)[OF wf] by (auto simp: idle_ok_def)
  {
    assume run: "spawn_register name space entry stack s = Inr (id', s')"
    let ?th = "thread_new (cp_pristine_fpu (sc_cpu s)) name stack Ready space entry"
    have s': "s' = s\<lparr>sc_kstacks := (sc_kstacks s)\<lparr>kk_spawning := remove1 stack ?sp\<rparr>, sc_next_id := ?id + 1,
        sc_threads := (sc_threads s)(?id := ?th), sc_all := sc_all s @ [?id], sc_ready := sc_ready s @ [?id]\<rparr>" "id' = ?id"
      using run by (auto simp: spawn_register_def Let_def push_back_def uadd_def checked_simps split: if_splits)
    have st: "state_of s' u = (if u = ?id then Ready else state_of s u)" for u
      by (simp add: s' state_of_def thread_new_def)
    have so: "slot_of s' u = (if u = ?id then slot_index stack else slot_of s u)"
      and stk: "th_stack (sc_threads s' u) = (if u = ?id then stack else th_stack (sc_threads s u))" for u
      by (simp_all add: s' slot_of_def thread_new_def)
    have f: "sc_all s' = sc_all s @ [?id]" "sc_ready s' = sc_ready s @ [?id]" "sc_next_id s' = ?id + 1"
      "sc_kstacks s' = (sc_kstacks s)\<lparr>kk_spawning := remove1 stack ?sp\<rparr>"
      "sc_current s' = sc_current s" "sc_idle s' = sc_idle s" "sc_sleeping s' = sc_sleeping s" "sc_to_reap s' = sc_to_reap s"
      "sc_retired s' = sc_retired s" "sc_join_waiters s' = sc_join_waiters s" "sc_kernel_pml4 s' = sc_kernel_pml4 s"
      by (simp_all add: s')
    have "slot_of s' ` set (sc_all s) = slot_of s ` set (sc_all s)" using new so by (metis (no_types, lifting) image_cong)
    then have im: "slot_of s' ` set (sc_all s') = insert (slot_index stack) (slot_of s ` set (sc_all s))" using so[of ?id] by (simp add: f)
    have dsp: "distinct ?sp" "inj_on slot_index (set ?sp)" using ok(2) by (simp_all add: distinct_map)
    then have sp: "set (remove1 stack ?sp) = set ?sp - {stack}" by (simp add: set_remove1_eq)
    have spi: "slot_index ` set (remove1 stack ?sp) = slot_index ` set ?sp - {slot_index stack}"
      using dsp(2) mem unfolding sp by (auto simp: inj_on_def)
    have fresh: "slot_index stack \<notin> slot_of s ` set (sc_all s)" using ok(3) mem by blast
    have un: "used_slots s' = used_slots s"
      unfolding used_slots_def im using mem by (auto simp: f spi)
    have "stacks_ok s'"
      unfolding stacks_ok_def un
    proof (intro conjI ballI)
      have m: "w = ?id \<or> w \<in> set (sc_all s)" if "w \<in> set (sc_all s')" for w using that by (auto simp: f)
      have na: "slot_of s w \<noteq> slot_index stack" if "w \<in> set (sc_all s)" for w using fresh imageI[OF that, of "slot_of s"] by metis
      show "inj_on (slot_of s') (set (sc_all s'))"
      proof (rule inj_onI)
        fix u v
        assume uv: "u \<in> set (sc_all s')" "v \<in> set (sc_all s')" "slot_of s' u = slot_of s' v"
        show "u = v"
        proof (cases "u = ?id \<or> v = ?id")
          case True
          then show ?thesis using uv(3) m[OF uv(1)] m[OF uv(2)] True na[of u] na[of v] by (auto simp: so split: if_splits)
        next
          case False
          then show ?thesis using uv(3) m[OF uv(1)] m[OF uv(2)] ok(1) by (auto simp: so inj_on_def)
        qed
      qed
      show "distinct (map slot_index (kk_spawning (sc_kstacks s')))"
        using dsp by (auto simp: f distinct_map sp intro: inj_on_subset)
      show "slot_of s' ` set (sc_all s') \<inter> slot_index ` set (kk_spawning (sc_kstacks s')) = {}"
        unfolding im using ok(3) by (auto simp: f spi)
      show "slots_ok (used_slots s) (kk_slots (sc_kstacks s'))" using ok(4) by (simp add: f)
      show "stacks_mapped (sc_kernel_pml4 s') (used_slots s) (kk_memory (sc_kstacks s'))" using ok(7) by (simp add: f)
      show "slot_addrs (slot_of s' u) = Inr (th_stack (sc_threads s' u))" if "u \<in> set (sc_all s')" for u
        using m[OF that] ok(5)[of u] ok(6)[OF mem] by (cases "u = ?id") (auto simp: stk so)
      show "slot_addrs (slot_index k) = Inr k" if "k \<in> set (kk_spawning (sc_kstacks s'))" for k
        using that ok(6)[of k] by (simp add: f sp)
    qed
    moreover have "lists_ok s' d" using sched_wfD(1)[OF wf] nin new by (auto simp: lists_ok_def f)
    moreover have "idle_ok s'" using sched_wfD(2)[OF wf] nin by (auto simp: idle_ok_def st f)
    moreover have "ids_ok s'"
      using sched_wfD(3)[OF wf] by (auto simp: ids_ok_def st f less_Suc_eq)
    moreover have "placed s' d u" if "u \<in> set (sc_all s')" "u \<noteq> sc_idle s" for u
    proof (cases "u = ?id")
      case True
      then show ?thesis using nin by (simp add: placed_def st f)
    next
      case False
      then have "placed s' d u = placed s d u" by (intro placed_same) (auto simp: st f)
      then show ?thesis using sched_wfD(5)[OF wf, of u] that False by (simp add: f)
    qed
    ultimately have "sched_wf s' d" by (simp add: sched_wf_def f)
    moreover have "sc_current s \<noteq> sc_idle s \<Longrightarrow> state_of s' (sc_current s) = Running"
      using sched_invD(2)[OF inv] nin st by simp
    ultimately show "sched_inv (s', d) \<and> id' = sc_next_id s \<and> sc_all s' = sc_all s @ [id'] \<and> sc_ready s' = sc_ready s @ [id']
        \<and> state_of s' id' = Ready \<and> sc_current s' = sc_current s \<and> id' \<notin> set (sc_all s)"
      using st new by (simp add: sched_inv_def f s'(2))
  }
  assume few: "length (sc_all s) \<le> MAX_THREADS" and u: "?id + 1 < u64_limit"
  have "set (sc_ready s) \<subseteq> set (sc_all s) - {sc_idle s}" using sched_wfD(11)[OF wf] by blast
  then have "length (sc_ready s) < length (sc_all s)"
    using psubset_card_mono[of "set (sc_all s)" "set (sc_ready s)"] sched_wfD(2,6,10)[OF wf] by (auto simp: idle_ok_def distinct_card)
  with few show "\<exists>r. spawn_register name space entry stack s = Inr r"
    by (simp add: spawn_register_def uadd_def u[simplified] push_back_def Let_def)
qed

lemma find_self: "List.find (\<lambda>t. t = who) xs = (if who \<in> set xs then Some who else None)"
  by (induction xs) auto

lemma find_thread_eq: "find_thread t s = (if t \<in> set (sc_all s) then Some t else None)"
  by (simp add: find_thread_def find_self)

lemma kill_event:
  assumes inv: "sched_inv (s, d)" and t: "t \<noteq> sc_current s" "t \<noteq> sc_idle s" and run: "force_exit_mark t code s = Inr (outcome, s')"
  shows "sched_inv (s', case outcome of Transitioned u True \<Rightarrow> d @ [u] | _ \<Rightarrow> d)"
proof (cases "t \<in> set (sc_all s) \<and> state_of s t \<noteq> Exited")
  case False
  then have "s' = s \<and> (case outcome of Transitioned u True \<Rightarrow> d @ [u] | _ \<Rightarrow> d) = d"
    using run t by (auto simp: force_exit_mark_def find_thread_eq Let_def split: if_splits)
  then show ?thesis using inv by simp
next
  case True
  note wf = sched_invD(1)[OF inv]
  define parked where "parked \<longleftrightarrow> state_of s t = Blocked \<or> state_of s t = Sleeping"
  let ?d = "if parked then d @ [t] else d"
  from run True t have o: "outcome = Transitioned t parked"
    and s': "s' = (let s1 = set_state t Exited (set_exit_code t code s) in
      if state_of s t = Sleeping then s1\<lparr>sc_sleeping := filter (\<lambda>e. snd e \<noteq> t) (sc_sleeping s1)\<rparr> else s1)"
    by (auto simp: force_exit_mark_def find_thread_eq Let_def parked_def)
  have p: "placed s d t" using sched_wfD(5)[OF wf] True t by simp
  have sl: "sc_sleeping s' = filter (\<lambda>e. snd e \<noteq> t) (sc_sleeping s)"
  proof (cases "state_of s t = Sleeping")
    case False
    then have "t \<notin> snd ` set (sc_sleeping s)" using p True by (auto simp: placed_def split: thread_state.splits)
    then have "filter (\<lambda>e. snd e \<noteq> t) (sc_sleeping s) = sc_sleeping s" by (intro filter_True) auto
    then show ?thesis using False by (simp add: s' Let_def)
  qed (simp add: s' Let_def)
  have st: "state_of s' u = (if u = t then Exited else state_of s u)" for u by (simp add: s' Let_def)
  have f: "sc_all s' = sc_all s" "sc_ready s' = sc_ready s" "sc_next_id s' = sc_next_id s" "sc_kstacks s' = sc_kstacks s"
      "sc_current s' = sc_current s" "sc_idle s' = sc_idle s" "sc_to_reap s' = sc_to_reap s"
      "sc_retired s' = sc_retired s" "sc_join_waiters s' = sc_join_waiters s" "sc_kernel_pml4 s' = sc_kernel_pml4 s"
      "th_stack (sc_threads s' u) = th_stack (sc_threads s u)" for u
    by (simp_all add: s' Let_def)
  have nd: "t \<notin> set d" "t \<notin> set (sc_to_reap s)" "parked \<longleftrightarrow> t \<notin> set (sc_ready s)"
    using p True t(1) by (auto simp: placed_def parked_def split: thread_state.splits if_splits)
  have ss: "snd ` set (sc_sleeping s') = snd ` set (sc_sleeping s) - {t}" by (auto simp: sl)
  have "distinct (map snd (sc_sleeping s'))" using sched_wfD(7)[OF wf] by (simp add: sl distinct_map_filter)
  then have "lists_ok s' ?d" using sched_wfD(1)[OF wf] nd True t(2) ss by (simp add: lists_ok_def f) blast
  moreover have "idle_ok s'" using sched_wfD(2)[OF wf] t by (simp add: idle_ok_def f st)
  moreover have "ids_ok s'" using sched_wfD(3)[OF wf] by (simp add: ids_ok_def f st)
  moreover have "stacks_ok s'" using sched_wfD(4)[OF wf] stacks_ok_cong[of s' s] by (simp add: f)
  moreover have "placed s' ?d u" if u: "u \<in> set (sc_all s)" "u \<noteq> sc_idle s" for u
  proof (cases "u = t")
    case True
    then show ?thesis using nd t(1) by (simp add: placed_def st f ss)
  next
    case False
    then have "placed s' ?d u = placed s d u" by (intro placed_same) (simp_all add: st f ss)
    then show ?thesis using sched_wfD(5)[OF wf u] by simp
  qed
  ultimately have "sched_wf s' ?d" by (simp add: sched_wf_def f)
  then show ?thesis using sched_invD(2)[OF inv] t o by (cases parked) (simp_all add: sched_inv_def f st)
qed

lemma reap_killed_event:
  assumes inv: "sched_inv (s, d)" and t: "t \<in> set d"
  shows "\<exists>s'. force_exit_reap t s = Inr s' \<and> sched_inv (s', remove1 t d)"
proof -
  note wf = sched_invD(1)[OF inv]
  have m: "t \<in> set (sc_all s)" "t \<noteq> sc_idle s" using sched_wfD(14)[OF wf t] by simp_all
  have p: "placed s d t" by (rule sched_wfD(5)[OF wf m])
  then have ex: "state_of s t = Exited" "t \<notin> set (sc_ready s)" "t \<noteq> sc_current s" "t \<notin> set (sc_to_reap s)"
    using t by (auto simp: placed_def split: thread_state.splits if_splits)
  obtain mm where
    r: "\<And>v. sc_kernel_pml4 v = sc_kernel_pml4 s \<Longrightarrow> sc_threads v = sc_threads s \<Longrightarrow> sc_kstacks v = sc_kstacks s
        \<Longrightarrow> free_stack t True False v = Inr (v\<lparr>sc_kstacks := mm\<rparr>)"
      "sched_wf ((retire t (s\<lparr>sc_kstacks := mm\<rparr>))\<lparr>sc_to_reap := filter (\<lambda>u. u \<noteq> t) (sc_to_reap s)\<rparr>) (filter (\<lambda>u. u \<noteq> t) d)"
    by (rule retire_wf[OF wf m ex(3,2,1)]) blast
  let ?s' = "retire t (s\<lparr>sc_kstacks := mm\<rparr>)"
  have eq: "force_exit_reap t s = Inr ?s'" using r(1)[of s] by (simp add: force_exit_reap_def)
  have "filter (\<lambda>u. u \<noteq> t) (sc_to_reap s) = sc_to_reap s" using ex(4) by (intro filter_True) auto
  then have "?s'\<lparr>sc_to_reap := filter (\<lambda>u. u \<noteq> t) (sc_to_reap s)\<rparr> = ?s'" by (simp add: retire_def Let_def)
  moreover have "filter (\<lambda>u. u \<noteq> t) d = remove1 t d"
    using sched_wfD(9)[OF wf] by (simp add: distinct_remove1_removeAll removeAll_filter_not_eq eq_commute)
  ultimately have "sched_wf ?s' (remove1 t d)" using r(2) by simp
  moreover have "sc_current ?s' = sc_current s" "sc_idle ?s' = sc_idle s" "state_of ?s' u = state_of s u" for u
    by (simp_all add: retire_def Let_def state_of_def)
  ultimately have "sched_inv (?s', remove1 t d)" using sched_invD(2)[OF inv] by (simp add: sched_inv_def)
  with eq show ?thesis by blast
qed

lemma booted_inv:
  assumes "booted s" shows "sched_inv (s, [])"
proof -
  from assms obtain boot_stack mm slots k ticks cpu arena where
    b: "sched_init boot_stack mm slots k ticks cpu arena = Inr s" "slots_ok {slot_index boot_stack} slots"
    "slot_addrs (slot_index boot_stack) = Inr boot_stack" "stacks_mapped k {slot_index boot_stack} mm" "k \<noteq> 0"
    by (auto simp: booted_def)
  have "returns (kstack_allocate k STACK_PAGES mm slots)" using b(1) by (auto simp: sched_init_def returns_def checked_simps)
  then obtain stack mm1 slots1 where a: "kstack_allocate k STACK_PAGES mm slots = Inr (stack, mm1, slots1)"
    "slot_index stack \<notin> {slot_index boot_stack}" "slot_addrs (slot_index stack) = Inr stack"
    "slots_ok (insert (slot_index stack) {slot_index boot_stack}) slots1"
    "stacks_mapped k (insert (slot_index stack) {slot_index boot_stack}) mm1"
    by (rule kstack_allocate_keeps[OF b(4,2) disjI2])
  have s: "s = \<lparr>sc_threads = arena(0 := thread_new (cp_pristine_fpu cpu) ''main'' boot_stack Running None (0, 0), 1 := thread_new (cp_pristine_fpu cpu) ''idle'' stack Ready None (0, 0)),
         sc_current = 0, sc_idle = 1, sc_ready = [], sc_sleeping = [],
         sc_to_reap = [], sc_all = [0, 1], sc_retired = [], sc_next_id = 2, sc_need_resched = False,
         sc_timeslice_remaining = TIMESLICE_TICKS, sc_join_waiters = [], sc_ticks = ticks, sc_kstacks = \<lparr>kk_memory = mm1, kk_slots = slots1, kk_spawning = []\<rparr>,
         sc_kernel_pml4 = k, sc_cpu = cpu\<rparr>"
    using b(1) a(1) by (simp add: sched_init_def Let_def)
  have st: "state_of s 0 = Running" "state_of s 1 = Ready" "slot_of s 0 = slot_index boot_stack" "slot_of s 1 = slot_index stack"
    "th_stack (sc_threads s 0) = boot_stack" "th_stack (sc_threads s 1) = stack"
    by (simp_all add: s state_of_def slot_of_def thread_new_def)
  have f: "sc_all s = [0, 1]" "sc_current s = 0" "sc_idle s = 1" "sc_ready s = []" "sc_sleeping s = []" "sc_to_reap s = []"
    "sc_retired s = []" "sc_next_id s = 2" "sc_join_waiters s = []" "sc_kstacks s = \<lparr>kk_memory = mm1, kk_slots = slots1, kk_spawning = []\<rparr>" "sc_kernel_pml4 s = k"
    by (simp_all add: s)
  have "stacks_ok s" using a(2-5) b(3) by (simp add: stacks_ok_def used_slots_def f st[simplified] insert_commute)
  moreover have "ids_ok s" by (auto simp: ids_ok_def f less_2_cases_iff)
  moreover have "lists_ok s []" "idle_ok s" "placed s [] 0" using b(5) st by (simp_all add: lists_ok_def idle_ok_def placed_def f)
  moreover have "set (sc_all s) - {sc_idle s} = {0}" by (auto simp: f)
  ultimately have "sched_wf s []" by (simp add: sched_wf_def)
  then show ?thesis using st by (simp add: sched_inv_def f)
qed


text \<open>The rest of the kernel changes memory behind the stacks' back only.\<close>

lemma memory_event:
  assumes inv: "sched_inv (s, d)" and m: "stacks_mapped (sc_kernel_pml4 s) (used_slots s) mm"
  shows "sched_inv (s\<lparr>sc_kstacks := (sc_kstacks s)\<lparr>kk_memory := mm\<rparr>\<rparr>, d)"
proof -
  let ?s = "s\<lparr>sc_kstacks := (sc_kstacks s)\<lparr>kk_memory := mm\<rparr>\<rparr>"
  note wf = sched_invD(1)[OF inv]
  have so: "slot_of ?s = slot_of s" and st: "state_of ?s = state_of s" by (simp_all add: slot_of_def[abs_def] state_of_def[abs_def])
  have "used_slots ?s = used_slots s" by (simp add: used_slots_def so)
  then have "stacks_ok ?s" using sched_wfD(4)[OF wf] m by (simp add: stacks_ok_def so)
  moreover have "placed ?s d u = placed s d u" for u by (intro placed_same) (simp_all add: st)
  ultimately have "sched_wf ?s d" using wf by (simp add: sched_wf_def lists_ok_def idle_ok_def ids_ok_def st)
  then show ?thesis using inv by (simp add: sched_inv_def st)
qed

lemma event_keeps_inv:
  assumes inv: "sched_inv (s, d)" and en: "enabled e (s, d)" and run: "run_event e (s, d) = Inr y'"
  shows "sched_inv y'"
proof (cases e)
  case Yield
  then show ?thesis using run schedule_inv[OF sched_invD(1)[OF inv]] by (auto simp: yield_now_def checked_simps)
next
  case (Sleep ms)
  then show ?thesis using run en sleep_event(2)[OF inv] by (auto simp: checked_simps)
next
  case Block
  then show ?thesis using run en block_event(1)[OF inv] by (auto simp: checked_simps)
next
  case Join_wait
  then show ?thesis using run en join_wait_event(2)[OF inv] by (auto simp: checked_simps)
next
  case (Return code)
  then show ?thesis using run en return_event(1)[OF inv] by (auto simp: checked_simps)
next
  case Spawn_stack
  then show ?thesis using run spawn_stack_event(1)[OF inv] by (auto simp: checked_simps)
next
  case (Spawn name space entry stack)
  then obtain i s' where r: "spawn_register name space entry stack s = Inr (i, s')" "y' = (s', d)" using run by (auto simp: checked_simps)
  with spawn_event(1)[OF inv _ r(1)] en Spawn show ?thesis by simp
next
  case Timer
  then show ?thesis using run timer_event(1)[OF inv] by (auto simp: checked_simps)
next
  case Irq_exit
  then show ?thesis using run preempt_event(1)[OF inv] by (auto simp: checked_simps)
next
  case (Wake t)
  then show ?thesis using run en wake_event[OF inv] by (auto simp: checked_simps)
next
  case Wake_joiners
  then show ?thesis using run wake_joiners_event[OF inv] by (auto simp: checked_simps)
next
  case (Kill t code)
  then show ?thesis using run en kill_event[OF inv] by (auto simp: checked_simps)
next
  case (Reap_killed t)
  then show ?thesis using run en reap_killed_event[OF inv, of t] by (auto simp: checked_simps)
next
  case (Memory mm)
  then show ?thesis using run en memory_event[OF inv] by auto
qed

lemma reachable_inv: "sched_reachable y \<Longrightarrow> sched_inv y"
proof (induction rule: sched_reachable.induct)
  case (reach_event y e y')
  obtain s d where y: "y = (s, d)" by (cases y)
  show ?case by (rule event_keeps_inv[of s d e]) (use reach_event y in simp_all)
qed (rule booted_inv)

end
