(* ===== verification/Sched_Props.thy ===== *)
theory Sched_Props
  imports Sched_Inv
begin

text \<open>
  What the scheduler promises: no panic, bounded waiting, sleepers woken on time, exit codes for joiners; with a small
  booted system for the witnesses.
\<close>

subsection \<open>A ready thread gets its turn\<close>

text \<open>The threads ahead of \<open>t\<close> in the queue, and how long they can keep it waiting.\<close>

definition ahead :: "tid \<Rightarrow> tid list \<Rightarrow> nat" where
  "ahead t q = length (takeWhile (\<lambda>u. u \<noteq> t) q)"

definition wait_bound :: "tid \<Rightarrow> sched \<Rightarrow> nat" where
  "wait_bound t s = TIMESLICE_TICKS * ahead t (sc_ready s) + sc_timeslice_remaining s"

definition slice_ok :: "sched \<Rightarrow> bool" where
  "slice_ok s \<longleftrightarrow> 1 \<le> sc_timeslice_remaining s \<and> sc_timeslice_remaining s \<le> TIMESLICE_TICKS"

lemma ahead_append [simp]: "t \<in> set q \<Longrightarrow> ahead t (q @ ws) = ahead t q"
  by (simp add: ahead_def)

lemma ahead_drop: "t \<notin> set k \<Longrightarrow> t \<noteq> n \<Longrightarrow> ahead t (k @ n # r) = length k + 1 + ahead t r"
  by (induction k) (auto simp: ahead_def)

lemma schedule_slice:
  assumes wf: "sched_wf s d" and run: "schedule s = Inr s'"
  shows "sc_timeslice_remaining s' = sc_timeslice_remaining s \<or> sc_timeslice_remaining s' = TIMESLICE_TICKS"
proof -
  obtain s1 where s1: "reap s = Inr s1" "only_reaps s s1" using reap_wf[OF wf] by blast
  then obtain s2 where s2: "requeue s1 = Inr s2" using run by (auto simp: schedule_def checked_simps)
  have q: "sc_timeslice_remaining s2 = sc_timeslice_remaining s1"
    using s2 by (auto simp: requeue_def push_back_def checked_simps Let_def split: if_splits thread_state.splits)
  have dp: "sc_timeslice_remaining (dispatch v) = sc_timeslice_remaining v" for v
    by (simp add: dispatch_def record_dispatch_def split: prod.split)
  have sw: "sc_timeslice_remaining v' = TIMESLICE_TICKS" if "switch_context p n v = Inr v'" for p n v v'
    using that by (auto simp: switch_context_def Let_def checked_simps save_fpu_def upd_thread_def split: option.splits)
  show ?thesis using run s1 s2 q dp sw
    by (cases "sc_current (dispatch s2) = sc_current s1") (auto simp: schedule_def Let_def only_reaps_def)
qed

lemma schedule_wait:
  assumes wf: "sched_wf v d" and run: "schedule v = Inr s'" and t: "t \<in> set (sc_ready v)" "state_of s' t = Ready" and sl: "slice_ok v"
  shows "slice_ok s' \<and> t \<in> set (sc_ready s') \<and> ahead t (sc_ready s') < ahead t (sc_ready v)"
proof -
  obtain killed where k: "scheduled killed v s'" using schedule_ok[OF wf run] by blast
  have slice: "slice_ok s'" using schedule_slice[OF wf run] sl by (auto simp: slice_ok_def TIMESLICE_TICKS_def)
  have nc: "t \<noteq> sc_current s'" using k t(2) by (auto simp: scheduled_def)
  have "state_of v t \<noteq> Exited" using k t(2) nc
    by (cases "t = sc_current v \<and> running_now v") (auto simp: scheduled_def running_now_def)
  then have nk: "t \<notin> set killed" using k by (auto simp: scheduled_def)
  have tc: "t \<in> set (candidates v)" "ahead t (candidates v) = ahead t (sc_ready v)" using t(1) by (simp_all add: candidates_def)
  then have eq: "candidates v = killed @ sc_current s' # sc_ready s'" using k nk by (auto simp: scheduled_def)
  then have "ahead t (sc_ready v) = length killed + 1 + ahead t (sc_ready s')" using tc(2) ahead_drop[OF nk nc] by simp
  moreover have "t \<in> set (sc_ready s')" using tc(1) eq nk nc by auto
  ultimately show ?thesis using slice by simp
qed

lemma less_ahead_wait:
  "ahead t (sc_ready s') < ahead t (sc_ready s) \<Longrightarrow> slice_ok s \<Longrightarrow> slice_ok s' \<Longrightarrow> wait_bound t s' < wait_bound t s"
  by (simp add: wait_bound_def slice_ok_def TIMESLICE_TICKS_def)

text \<open>A thread's return is a \<open>schedule\<close> too, once the joiners are awake.\<close>

lemma return_steps:
  assumes inv: "sched_inv (s, d)" and ni: "sc_current s \<noteq> sc_idle s" and run: "thread_return code s = Inr s'"
  obtains v where "sched_wf v d" "schedule v = Inr s'" "\<exists>ws. sc_ready v = sc_ready s @ ws"
    "sc_timeslice_remaining v = sc_timeslice_remaining s"
    "wake_joiners (leaving Exited [] [] (set_exit_code (sc_current s) code s)) = Inr v"
    "only_wakes (leaving Exited [] [] (set_exit_code (sc_current s) code s)) v"
proof -
  let ?c = "set_exit_code (sc_current s) code s"
  let ?s = "leaving Exited [] [] ?c"
  have "sched_inv (?c, d)" using inv by (simp add: sched_inv_def set_exit_code_wf)
  then have w: "sched_wf ?s d" by (rule leaving_wf) (use ni in auto)
  have c: "state_of ?s (sc_current ?s) \<noteq> Blocked" by simp
  from run set_state_leaving(1)[of ?c] obtain v where v: "wake_joiners ?s = Inr v" "schedule v = Inr s'"
    by (auto simp: thread_return_def exit_current_def checked_simps)
  note k = wake_joiners_ok(1)[OF w c v(1)]
  have "sc_timeslice_remaining ?s = sc_timeslice_remaining s" by (simp add: leaving_def set_exit_code_def)
  with k v show thesis by (intro that[of v]) (simp_all add: only_wakes_def)
qed

text \<open>A step that keeps the timeslice and only appends to the queue changes nothing for \<open>t\<close>.\<close>

lemma appends_wait:
  assumes "sc_timeslice_remaining s' = sc_timeslice_remaining s" "\<exists>ws. sc_ready s' = sc_ready s @ ws" "t \<in> set (sc_ready s)" "slice_ok s"
  shows "slice_ok s' \<and> t \<in> set (sc_ready s') \<and> wait_bound t s' = wait_bound t s"
  using assms by (auto simp: slice_ok_def wait_bound_def)

lemma timer_slice:
  assumes inv: "sched_inv (s, d)" and run: "timer_irq s = Inr s'" and sl: "slice_ok s"
  shows "slice_ok s'"
proof -
  let ?s = "s\<lparr>sc_ticks := (sc_ticks s + 1) mod u64_limit\<rparr>"
  have i: "sched_inv (?s, d)" using sched_wf_cong[of ?s s] inv by (simp add: sched_inv_def)
  from run obtain s1 where s1: "on_timer_tick ?s = Inr s1" "preempt_if_needed s1 = Inr s'" by (auto simp: timer_irq_def checked_simps)
  note k = on_timer_tick_ok(1)[OF i s1(1)]
  have sl1: "slice_ok s1" using k sl by (auto simp: ticked_def slice_ok_def TIMESLICE_TICKS_def split: if_splits)
  have w: "sched_wf (s1\<lparr>sc_need_resched := False\<rparr>) d" using k sched_wf_cong[of "s1\<lparr>sc_need_resched := False\<rparr>" s1] by (simp add: sched_inv_def)
  show ?thesis using s1(2) sl1 schedule_slice[OF w, of s']
    by (auto simp: preempt_if_needed_def slice_ok_def TIMESLICE_TICKS_def split: if_splits)
qed

lemma tick_wait:
  assumes inv: "sched_inv (s, d)" and run: "timer_irq s = Inr s'" and t: "t \<in> set (sc_ready s)" "state_of s' t = Ready" and sl: "slice_ok s"
  shows "slice_ok s' \<and> t \<in> set (sc_ready s') \<and> wait_bound t s' < wait_bound t s"
proof -
  let ?s = "s\<lparr>sc_ticks := (sc_ticks s + 1) mod u64_limit\<rparr>"
  have i: "sched_inv (?s, d)" using sched_wf_cong[of ?s s] inv by (simp add: sched_inv_def)
  from run obtain s1 where s1: "on_timer_tick ?s = Inr s1" "preempt_if_needed s1 = Inr s'" by (auto simp: timer_irq_def checked_simps)
  note k = on_timer_tick_ok(1)[OF i s1(1)]
  obtain ws where ws: "sc_ready s1 = sc_ready s @ ws" using k by (auto simp: ticked_def due_woken_def)
  have t1: "t \<in> set (sc_ready s1)" "ahead t (sc_ready s1) = ahead t (sc_ready s)" using t(1) ws by simp_all
  have sl1: "slice_ok s1" and less: "\<not> sc_need_resched s1 \<Longrightarrow> wait_bound t s1 < wait_bound t s"
    using k sl t1 by (auto simp: ticked_def slice_ok_def wait_bound_def TIMESLICE_TICKS_def split: if_splits)
  show ?thesis
  proof (cases "sc_need_resched s1")
    case False
    then show ?thesis using s1(2) sl1 less t1 by (simp add: preempt_if_needed_def)
  next
    case True
    let ?v = "s1\<lparr>sc_need_resched := False\<rparr>"
    have w: "sched_wf ?v d" using k sched_wf_cong[of ?v s1] by (simp add: sched_inv_def)
    have r: "schedule ?v = Inr s'" using s1(2) True by (simp add: preempt_if_needed_def)
    have slv: "slice_ok ?v" using sl1 by (simp add: slice_ok_def)
    have q: "t \<in> set (sc_ready ?v)" using t1 by simp
    from schedule_wait[OF w r q t(2) slv] show ?thesis using less_ahead_wait[OF _ sl] t1(2) by simp
  qed
qed

text \<open>Every event, for a thread that is still ready after it.\<close>

lemma event_wait:
  assumes inv: "sched_inv (s, d)" and en: "enabled e (s, d)" and run: "run_event e (s, d) = Inr (s', d')"
    and sl: "slice_ok s"
  shows "slice_ok s' \<and> (t \<in> set (sc_ready s) \<and> state_of s' t = Ready \<longrightarrow>
    t \<in> set (sc_ready s') \<and> wait_bound t s' + (if e = Timer then 1 else 0) \<le> wait_bound t s)"
    (is "?goal")
proof -
  have sched: ?goal
    if sc: "sched_wf v d" "schedule v = Inr s'" "\<exists>ws. sc_ready v = sc_ready s @ ws"
      "sc_timeslice_remaining v = sc_timeslice_remaining s" "e \<noteq> Timer" for v
  proof -
    have v: "slice_ok v" using sc(4) sl by (simp add: slice_ok_def)
    have s': "slice_ok s'" using schedule_slice[OF sc(1,2)] v by (auto simp: slice_ok_def TIMESLICE_TICKS_def)
    have "t \<in> set (sc_ready s') \<and> wait_bound t s' \<le> wait_bound t s" if t: "t \<in> set (sc_ready s)" "state_of s' t = Ready"
    proof -
      have "t \<in> set (sc_ready v)" "ahead t (sc_ready v) = ahead t (sc_ready s)" using sc(3) t(1) by auto
      with schedule_wait[OF sc(1,2) _ t(2) v] less_ahead_wait[OF _ sl s'] show ?thesis by (simp add: less_imp_le)
    qed
    with s' sc(5) show ?thesis by simp
  qed
  have app: ?goal
    if "sc_timeslice_remaining s' = sc_timeslice_remaining s" "\<exists>ws. sc_ready s' = sc_ready s @ ws" "e \<noteq> Timer"
    using appends_wait[OF that(1,2) _ sl, of t] that sl by (auto simp: slice_ok_def)
  note wf = sched_invD(1)[OF inv]
  have lv: "sc_timeslice_remaining (leaving st l j v) = sc_timeslice_remaining v" for st l j v by (simp add: leaving_def)
  show ?thesis
  proof (cases e)
    case Yield
    then have "schedule s = Inr s'" using run by (auto simp: yield_now_def checked_simps)
    then show ?thesis by (intro sched[OF wf]) (simp_all add: Yield)
  next
    case (Sleep ms)
    let ?v = "leaving Sleeping [(saturating_add (sc_ticks s) ms, sc_current s)] [] s"
    have "schedule ?v = Inr s'" using run en Sleep sleep_event(1)[OF inv] by (auto simp: checked_simps)
    moreover have "sched_wf ?v d" by (rule leaving_wf[OF inv]) (use en Sleep in auto)
    ultimately show ?thesis by (intro sched[of ?v]) (simp_all add: Sleep lv)
  next
    case Block
    let ?v = "leaving Blocked [] [] s"
    have ni: "sc_current s \<noteq> sc_idle s" using en Block by simp
    have "block_current (\<lambda>t s. (True, s)) s = schedule ?v"
      by (rule park_event(1)[OF inv ni]) (simp_all add: set_state_leaving(1))
    then have "schedule ?v = Inr s'" using run Block by (auto simp: checked_simps)
    moreover have "sched_wf ?v d" by (rule leaving_wf[OF inv ni]) auto
    ultimately show ?thesis by (intro sched[of ?v]) (simp_all add: Block lv)
  next
    case Join_wait
    let ?v = "leaving Blocked [] [sc_current s] s"
    have "schedule ?v = Inr s'" using run en Join_wait join_wait_event(1)[OF inv] by (auto simp: checked_simps)
    moreover have "sched_wf ?v d" by (rule leaving_wf[OF inv]) (use en Join_wait in auto)
    ultimately show ?thesis by (intro sched[of ?v]) (simp_all add: Join_wait lv)
  next
    case (Return code)
    have ni: "sc_current s \<noteq> sc_idle s" using en Return by simp
    from return_steps[OF inv ni, of code s'] run Return obtain v where v: "sched_wf v d" "schedule v = Inr s'" "\<exists>ws. sc_ready v = sc_ready s @ ws"
      "sc_timeslice_remaining v = sc_timeslice_remaining s" by (auto simp: checked_simps)
    then show ?thesis by (intro sched[OF v]) (simp add: Return)
  next
    case Spawn_stack
    then show ?thesis using run
      by (intro app) (auto simp: checked_simps spawn_allocate_def)
  next
    case (Spawn name space entry stack)
    then show ?thesis using run
      by (intro app) (auto simp: checked_simps spawn_register_def push_back_def Let_def)
  next
    case Timer
    then have "timer_irq s = Inr s'" using run by (auto simp: checked_simps)
    with tick_wait[OF inv this _ _ sl, of t] timer_slice[OF inv this sl] Timer show ?thesis by (auto simp: Suc_le_eq)
  next
    case Irq_exit
    then have p: "preempt_if_needed s = Inr s'" using run by (auto simp: checked_simps)
    show ?thesis
    proof (cases "sc_need_resched s")
      case True
      let ?v = "s\<lparr>sc_need_resched := False\<rparr>"
      have "sched_wf ?v d" using wf sched_wf_cong[of ?v s] by simp
      moreover have "schedule ?v = Inr s'" using p True by (simp add: preempt_if_needed_def)
      ultimately show ?thesis by (intro sched[of ?v]) (simp_all add: Irq_exit)
    next
      case False
      then show ?thesis using p by (intro app) (simp_all add: Irq_exit preempt_if_needed_def)
    qed
  next
    case (Wake u)
    then have "wake u s = Inr s'" using run by (auto simp: checked_simps)
    then have "only_wakes s s'" using en Wake wake_wf[OF wf _ _ _ sched_invD(3)[OF inv], of u] by simp
    then show ?thesis by (intro app) (simp_all add: Wake only_wakes_def)
  next
    case Wake_joiners
    then have "wake_joiners s = Inr s'" using run by (auto simp: checked_simps)
    then have "only_wakes s s'" using wake_joiners_ok(1)[OF wf sched_invD(3)[OF inv]] by simp
    then show ?thesis by (intro app) (simp_all add: Wake_joiners only_wakes_def)
  next
    case (Kill u code)
    then show ?thesis using run
      by (intro app) (auto simp: checked_simps force_exit_mark_def Let_def set_exit_code_def set_state_def split: option.splits if_splits)
  next
    case (Reap_killed u)
    then show ?thesis using run
      by (intro app) (auto simp: checked_simps force_exit_reap_def free_stack_def retire_def Let_def)
  next
    case (Memory mm)
    then show ?thesis using run by (intro app) (auto simp: Memory)
  qed
qed

lemma booted_slice: "booted s \<Longrightarrow> slice_ok s"
  by (auto simp: booted_def sched_init_def slice_ok_def TIMESLICE_TICKS_def checked_simps Let_def)

lemma reachable_slice: "sched_reachable y \<Longrightarrow> slice_ok (fst y)"
proof (induction rule: sched_reachable.induct)
  case (reach_event y e y')
  obtain s d s' d' where y: "y = (s, d)" "y' = (s', d')" by (cases y; cases y') auto
  show ?case
    using event_wait[of s d e s' d' 0] reach_event reachable_inv[OF reach_event(1)] y by simp
qed (simp add: booted_slice)

text \<open>A stretch of the run in which \<open>t\<close> stays ready, with the number of its timer ticks.\<close>

inductive stays_ready :: "tid \<Rightarrow> sys \<Rightarrow> nat \<Rightarrow> sys \<Rightarrow> bool" where
  stays_start: "stays_ready t y 0 y"
| stays_event: "stays_ready t y n y' \<Longrightarrow> enabled e y' \<Longrightarrow> run_event e y' = Inr y'' \<Longrightarrow> state_of (fst y'') t = Ready
    \<Longrightarrow> stays_ready t y (if e = Timer then n + 1 else n) y''"

lemma stays_ready_bound:
  assumes "stays_ready t y n y'" "sched_inv y" "slice_ok (fst y)" "t \<in> set (sc_ready (fst y))"
  shows "sched_inv y' \<and> slice_ok (fst y') \<and> t \<in> set (sc_ready (fst y')) \<and> wait_bound t (fst y') + n \<le> wait_bound t (fst y)"
  using assms
proof (induction rule: stays_ready.induct)
  case (stays_event t y n y' e y'')
  obtain s d s' d' where y: "y' = (s, d)" "y'' = (s', d')" by (cases y'; cases y'') auto
  note IH = stays_event(5)[OF stays_event(6-8)]
  have run: "run_event e (s, d) = Inr (s', d')" and en: "enabled e (s, d)" and inv: "sched_inv (s, d)" and sl: "slice_ok s"
    using stays_event(2,3) IH y by simp_all
  from event_keeps_inv[OF inv en run] event_wait[OF inv en run sl, of t] IH stays_event(4) y show ?case
    by (auto split: if_splits)
qed simp

subsection \<open>Exit codes\<close>

definition exit_code :: "sched \<Rightarrow> tid \<Rightarrow> int" where
  "exit_code s t = th_exit_code (sc_threads s t)"

lemma wake_exit_code: "wake t s = Inr s' \<Longrightarrow> exit_code s' = exit_code s"
  by (auto simp: wake_def push_back_def checked_simps exit_code_def set_state_def upd_thread_def fun_eq_iff split: if_splits)

lemma wake_all_exit_code: "wake_all ws s = Inr s' \<Longrightarrow> exit_code s' = exit_code s"
proof (induction ws s arbitrary: s' rule: wake_all.induct)
  case (1 ws s)
  show ?case
  proof (cases "wq_pop (state_of s) ws")
    case (Pair r ws')
    then show ?thesis
    proof (cases r)
      case None
      then show ?thesis using 1(2) Pair by (subst (asm) wake_all.simps) simp
    next
      case (Some t)
      with 1(2) Pair obtain s1 where s1: "wake t s = Inr s1" "wake_all ws' s1 = Inr s'"
        by (subst (asm) wake_all.simps) (auto simp: checked_simps)
      have "exit_code s' = exit_code s1" using 1(1) Pair Some s1 by auto
      then show ?thesis using wake_exit_code[OF s1(1)] by simp
    qed
  qed
qed

lemma reap_keeps_others:
  assumes "t \<in> set (sc_all s)" "t \<notin> set (sc_to_reap s)" "reap s = Inr s'"
  shows "t \<in> set (sc_all s')"
proof -
  have "t \<in> set (sc_all v')" if "for_each ts reap_one v = Inr v'" "t \<in> set (sc_all v)" "t \<notin> set ts" for ts v v'
    using that
  proof (induction ts arbitrary: v)
    case (Cons u ts)
    then obtain v1 where v1: "reap_one u v = Inr v1" "for_each ts reap_one v1 = Inr v'" by (auto simp: checked_simps)
    then have "t \<in> set (sc_all v1)" using Cons.prems
      by (auto simp: reap_one_def free_stack_def retire_def Let_def checked_simps)
    then show ?case using Cons.IH v1(2) Cons.prems(3) by simp
  qed simp
  from this[of "sc_to_reap s" "s\<lparr>sc_to_reap := []\<rparr>" s'] assms show ?thesis by (simp add: reap_def)
qed

lemma schedule_exit_code:
  assumes wf: "sched_wf s d" and run: "schedule s = Inr s'"
  shows "exit_code s' = exit_code s" and "t \<in> set (sc_all s) \<Longrightarrow> t \<notin> set (sc_to_reap s) \<Longrightarrow> t \<in> set (sc_all s')"
proof -
  obtain s1 where s1: "reap s = Inr s1" "sched_wf s1 d" "only_reaps s s1" using reap_wf[OF wf] by blast
  with run obtain s2 where s2: "requeue s1 = Inr s2" by (auto simp: schedule_def checked_simps)
  have e1: "exit_code s1 = exit_code s" using s1(3) by (simp add: only_reaps_def exit_code_def fun_eq_iff)
  have e2: "exit_code s2 = exit_code s1" using s2
    by (auto simp: requeue_def push_back_def checked_simps exit_code_def set_state_def upd_thread_def fun_eq_iff Let_def
        split: if_splits thread_state.splits)
  have e3: "exit_code (dispatch v) = exit_code v" for v
    by (auto simp: dispatch_def exit_code_def record_dispatch_def set_state_def upd_thread_def fun_eq_iff split: prod.split)
  have e4: "exit_code v' = exit_code v \<and> sc_all v' = sc_all v" if "switch_context p n v = Inr v'" for p n v v'
    using that by (auto simp: switch_context_def Let_def checked_simps save_fpu_def upd_thread_def exit_code_def fun_eq_iff split: option.splits)
  show "exit_code s' = exit_code s" using run s1(1) s2 e1 e2 e3 e4
    by (cases "sc_current (dispatch s2) = sc_current s1") (auto simp: schedule_def Let_def)
  have all: "sc_all s' = sc_all s1" using run s1(1) s2 e4 requeue_wf(9)[OF s1(2) s2]
    by (cases "sc_current (dispatch s2) = sc_current s1") (auto simp: schedule_def Let_def dispatch_keeps)
  then show "t \<in> set (sc_all s) \<Longrightarrow> t \<notin> set (sc_to_reap s) \<Longrightarrow> t \<in> set (sc_all s')"
    using reap_keeps_others[OF _ _ s1(1)] by simp
qed

subsection \<open>A system that runs\<close>

fun run_all :: "event list \<Rightarrow> sys \<Rightarrow> sys checked" where
  "run_all [] y = Inr y"
| "run_all (e # es) y = require (enabled e y) ''not enabled'' (and_then (run_event e y) (run_all es))"

lemma run_all_reachable: "run_all es y = Inr y' \<Longrightarrow> sched_reachable y \<Longrightarrow> sched_reachable y'"
  by (induction es y rule: run_all.induct) (auto simp: checked_simps intro: reach_event)

definition demo_stack :: "nat \<Rightarrow> kernel_stack" where
  "demo_stack i = \<lparr>ks_guard = DYNAMIC_REGION_START + i * SLOT_SIZE,
    ks_bottom = DYNAMIC_REGION_START + i * SLOT_SIZE + FRAME_SIZE, ks_top = DYNAMIC_REGION_START + i * SLOT_SIZE + SLOT_SIZE\<rparr>"

lemma demo_stack: "i < NUM_SLOTS \<Longrightarrow> slot_addrs i = Inr (demo_stack i)"
  by (simp add: slot_addrs_eq demo_stack_def)

definition demo_cpu :: cpu where
  "demo_cpu = \<lparr>cp_rsp0 = 0, cp_kernel_rsp = 0, cp_current_thread = 0, cp_space = 1, cp_fpu = [], cp_pristine_fpu = []\<rparr>"

definition demo_boot :: "nat \<Rightarrow> mm_state \<Rightarrow> sched" where
  "demo_boot k mm = \<lparr>sc_threads = (\<lambda>_. thread_new [] ''none'' (demo_stack 0) Exited None (0, 0))
       (0 := thread_new [] ''main'' (demo_stack 0) Running None (0, 0), 1 := thread_new [] ''idle'' (demo_stack 1) Ready None (0, 0)),
     sc_current = 0, sc_idle = 1, sc_ready = [], sc_sleeping = [], sc_to_reap = [], sc_all = [0, 1], sc_retired = [], sc_next_id = 2,
     sc_need_resched = False, sc_timeslice_remaining = TIMESLICE_TICKS, sc_join_waiters = [], sc_ticks = 0,
     sc_kstacks = \<lparr>kk_memory = mm, kk_slots = \<lparr>sl_next_fresh = 2, sl_free = []\<rparr>, kk_spawning = []\<rparr>,
     sc_kernel_pml4 = k, sc_cpu = demo_cpu\<rparr>"

definition demo_spawning :: "nat \<Rightarrow> mm_state \<Rightarrow> sched" where
  "demo_spawning k mm = (demo_boot k mm)\<lparr>sc_kstacks :=
     \<lparr>kk_memory = mm, kk_slots = \<lparr>sl_next_fresh = 3, sl_free = []\<rparr>, kk_spawning = [demo_stack 2]\<rparr>\<rparr>"

definition demo_sys :: "nat \<Rightarrow> mm_state \<Rightarrow> sys" where
  "demo_sys k mm = ((demo_boot k mm)\<lparr>sc_kstacks :=
     \<lparr>kk_memory = mm, kk_slots = \<lparr>sl_next_fresh = 3, sl_free = []\<rparr>, kk_spawning = []\<rparr>, sc_next_id := 3,
     sc_threads := (sc_threads (demo_boot k mm))(2 := thread_new [] ''a'' (demo_stack 2) Ready None (0, 0)),
     sc_all := [0, 1, 2], sc_ready := [2]\<rparr>, [])"

lemma kstack_allocate_slot:
  "kstack_allocate k pages s a = Inr (stack, s', a') \<Longrightarrow> \<exists>index. slot_claim a = Inr (index, a') \<and> slot_addrs index = Inr stack"
  by (auto simp: kstack_allocate_def checked_simps)

lemma demo_allocate:
  assumes "stacks_mapped k {..<i} s" and "i < NUM_SLOTS" and "64 \<le> card (mm_general s)" and "mm_inject_failures s = 0"
  obtains s' where "kstack_allocate k STACK_PAGES s \<lparr>sl_next_fresh = i, sl_free = []\<rparr>
      = Inr (demo_stack i, s', \<lparr>sl_next_fresh = Suc i, sl_free = []\<rparr>)"
    "stacks_mapped k {..<Suc i} s'" "card (mm_general s) \<le> 64 + card (mm_general s')" "mm_inject_failures s' = 0"
proof -
  let ?a = "\<lparr>sl_next_fresh = i, sl_free = []\<rparr>"
  have ok: "slots_ok {..<i} ?a" using assms(2) by (simp add: slots_ok_def)
  have sixteen: "4 * STACK_PAGES = 64" by (simp add: slot_consts)
  have room: "memory_for_stack s \<and> card {..<i} < NUM_SLOTS" using assms(2-4) by (simp add: memory_for_stack_def sixteen)
  obtain stack s' a' where r: "kstack_allocate k STACK_PAGES s ?a = Inr (stack, s', a')" "slot_index stack < NUM_SLOTS"
    "stacks_mapped k (insert (slot_index stack) {..<i}) s'" "card (mm_general s) \<le> 64 + card (mm_general s')"
    "mm_inject_failures s' = 0"
    by (rule kstack_allocate_keeps[OF assms(1) ok disjI1[OF room]]) (simp add: sixteen assms(4))
  from kstack_allocate_slot[OF r(1)] have a: "a' = \<lparr>sl_next_fresh = Suc i, sl_free = []\<rparr>" "slot_addrs i = Inr stack"
    using assms(2) by (auto simp: slot_claim_def)
  have "stack = demo_stack i" using demo_stack[OF assms(2)] a(2) by simp
  moreover have "insert (slot_index stack) {..<i} = {..<Suc i}" using slot_index_addrs[OF assms(2) a(2)] by auto
  ultimately show thesis using r a(1) by (intro that) simp_all
qed

lemma demo_reachable:
  obtains k mm mm' where "sched_reachable (demo_boot k mm, [])" "memory_for_stack mm"
    "run_event Spawn_stack (demo_boot k mm, []) = Inr (demo_spawning k mm', [])"
    "sched_reachable (demo_spawning k mm', [])" "sched_reachable (demo_sys k mm')"
proof (rule stack_demo_space)
  fix s k
  assume s: "space_wf s k" "\<And>v. lookup_va s k v = None" "256 \<le> card (mm_general s)" "mm_inject_failures s = 0"
  have n: "0 < NUM_SLOTS" "1 < NUM_SLOTS" "2 < NUM_SLOTS" by (simp_all add: NUM_SLOTS_def)
  have "stacks_mapped k {..<0} s" using s(1,2) by (simp add: stacks_mapped_def)
  moreover have "64 \<le> card (mm_general s)" using s(3) by simp
  ultimately obtain s0 where s0: "stacks_mapped k {..<Suc 0} s0" "card (mm_general s) \<le> 64 + card (mm_general s0)" "mm_inject_failures s0 = 0"
    by (rule demo_allocate[OF _ n(1) _ s(4)])
  have "64 \<le> card (mm_general s0)" using s(3) s0(2) by simp
  then obtain s1 where s1: "kstack_allocate k STACK_PAGES s0 \<lparr>sl_next_fresh = 1, sl_free = []\<rparr>
      = Inr (demo_stack 1, s1, \<lparr>sl_next_fresh = 2, sl_free = []\<rparr>)"
    "stacks_mapped k {..<2} s1" "card (mm_general s0) \<le> 64 + card (mm_general s1)" "mm_inject_failures s1 = 0"
    using demo_allocate[OF s0(1) _ _ s0(3)] n(2) by (metis One_nat_def Suc_1)
  have m: "64 \<le> card (mm_general s1)" using s(3) s0(2) s1(3) by simp
  obtain s2 where s2: "kstack_allocate k STACK_PAGES s1 \<lparr>sl_next_fresh = 2, sl_free = []\<rparr>
      = Inr (demo_stack 2, s2, \<lparr>sl_next_fresh = Suc 2, sl_free = []\<rparr>)"
    by (rule demo_allocate[OF s1(2) n(3) m s1(4)])
  have i: "slot_index (demo_stack 0) = 0" by (rule slot_index_addrs[OF n(1) demo_stack[OF n(1)]])
  have "sched_init (demo_stack 0) s0 \<lparr>sl_next_fresh = 1, sl_free = []\<rparr> k 0 demo_cpu
      (\<lambda>_. thread_new [] ''none'' (demo_stack 0) Exited None (0, 0)) = Inr (demo_boot k s1)"
    using s1(1) by (simp add: sched_init_def Let_def demo_boot_def demo_cpu_def)
  moreover have "slots_ok {slot_index (demo_stack 0)} \<lparr>sl_next_fresh = 1, sl_free = []\<rparr>"
    by (auto simp: slots_ok_def i slot_consts)
  moreover have "slot_addrs (slot_index (demo_stack 0)) = Inr (demo_stack 0)" unfolding i by (rule demo_stack[OF n(1)])
  moreover have "stacks_mapped k {slot_index (demo_stack 0)} s0"
    using s0(1) by (simp add: i lessThan_Suc)
  moreover have "k \<noteq> 0" using kernel_space_nonzero[OF s(1)] by (auto simp: kernel_address_space_def checked_simps)
  ultimately have "booted (demo_boot k s1)" unfolding booted_def by blast
  then have b: "sched_reachable (demo_boot k s1, [])" by (rule reach_boot)
  have r: "run_event Spawn_stack (demo_boot k s1, []) = Inr (demo_spawning k s2, [])"
    using s2 by (simp add: spawn_allocate_def demo_boot_def demo_spawning_def)
  have p: "sched_reachable (demo_spawning k s2, [])" by (rule reach_event[OF b _ r]) (simp add: demo_boot_def)
  have "run_event (Spawn ''a'' None (0, 0) (demo_stack 2)) (demo_spawning k s2, []) = Inr (demo_sys k s2)"
    by (simp add: spawn_register_def uadd_def push_back_def MAX_THREADS_def Let_def demo_boot_def demo_sys_def demo_spawning_def demo_cpu_def)
  then have "sched_reachable (demo_sys k s2)" by (rule reach_event[OF p, rotated]) (simp add: demo_spawning_def demo_boot_def)
  moreover have "memory_for_stack s1" using m s1(4) by (simp add: memory_for_stack_def slot_consts)
  ultimately show thesis using b r p by (intro that)
qed

lemma demo_tick:
  "run_event Timer (demo_sys k mm) = Inr ((record_tick 0 (fst (demo_sys k mm)))\<lparr>sc_ticks := 1, sc_timeslice_remaining := 9\<rparr>, [])"
  by (simp add: demo_sys_def timer_irq_def on_timer_tick_def wake_due.simps demo_boot_def Let_def TIMESLICE_TICKS_def
      preempt_if_needed_def record_tick_def upd_thread_def)

subsection \<open>Properties\<close>

lemma event_returns:
  assumes inv: "sched_inv (s, d)" and en: "enabled e (s, d)" and threads: "length (sc_all s) + length (kk_spawning (sc_kstacks s)) \<le> MAX_THREADS"
    and ids: "sc_next_id s + 1 < u64_limit" and room: "e = Spawn_stack \<longrightarrow> memory_for_stack (kk_memory (sc_kstacks s))"
  shows "\<exists>y'. run_event e (s, d) = Inr y'"
proof -
  have few: "length (sc_all s) \<le> MAX_THREADS" using threads by simp
  have f: "few_threads s" using few by (simp add: few_threads_def)
  note wf = sched_invD(1)[OF inv]
  show ?thesis
  proof (cases e)
    case Yield
    then show ?thesis using schedule_returns[OF wf f] by (auto simp: yield_now_def)
  next
    case (Sleep ms)
    then show ?thesis using en sleep_event(3)[OF inv _ f, of ms] by auto
  next
    case Block
    then show ?thesis using en block_event(2)[OF inv _ f] by auto
  next
    case Join_wait
    then show ?thesis using en join_wait_event(3)[OF inv _ f] by auto
  next
    case (Return code)
    then show ?thesis using en return_event(2)[OF inv _ f, of code] by auto
  next
    case Spawn_stack
    have "card (used_slots s) \<le> length (sc_all s) + length (kk_spawning (sc_kstacks s))"
      using card_Un_le[of "slot_of s ` set (sc_all s)" "slot_index ` set (kk_spawning (sc_kstacks s))"]
        card_length[of "map (slot_of s) (sc_all s)"] card_length[of "map slot_index (kk_spawning (sc_kstacks s))"]
      by (simp add: used_slots_def)
    then have "card (used_slots s) < NUM_SLOTS" using threads by (simp add: MAX_THREADS_def NUM_SLOTS_def)
    with spawn_stack_event(2)[OF inv] room Spawn_stack obtain r where "spawn_allocate s = Inr r" by blast
    then show ?thesis by (cases r) (simp add: Spawn_stack)
  next
    case (Spawn name space entry stack)
    then have "stack \<in> set (kk_spawning (sc_kstacks s))" using en by simp
    from spawn_event(2)[OF inv this few ids, of name space entry] obtain r where "spawn_register name space entry stack s = Inr r" by blast
    then show ?thesis by (cases r) (simp add: Spawn)
  next
    case Timer
    then show ?thesis using timer_event(2)[OF inv f] by auto
  next
    case Irq_exit
    then show ?thesis using preempt_event(2)[OF inv f] by auto
  next
    case (Wake t)
    then show ?thesis using en wake_returns[OF wf _ f, of t] by auto
  next
    case Wake_joiners
    then show ?thesis using wake_joiners_ok(2)[OF wf sched_invD(3)[OF inv] f] by auto
  next
    case (Kill t code)
    then show ?thesis using en by (auto simp: force_exit_mark_def Let_def find_thread_eq)
  next
    case (Reap_killed t)
    then show ?thesis using en reap_killed_event[OF inv, of t] by auto
  qed simp
qed

text \<open>
  C30.  Invariant.  In every reachable state of the scheduler each thread is exactly where its state says: a ready
  thread once in the ready queue, a sleeping one once in the sleep list, a running one is the current one, a dead one
  still in the ready queue or due for exactly one of the two ways of being reaped; the kernel stacks of the live threads
  are pairwise different slots, none of them free; and the processor runs a running thread or the idle one.
\<close>

theorem sched_invariant:
  assumes "sched_reachable (s, dying)"
  shows "sched_wf s dying \<and> (sc_current s = sc_idle s \<or> state_of s (sc_current s) = Running)"
  using reachable_inv[OF assms] by (auto simp: sched_inv_def)

theorem sched_invariant_witness:
  "\<exists>k mm. sched_wf (fst (demo_sys k mm)) [] \<and> sc_ready (fst (demo_sys k mm)) = [2] \<and> state_of (fst (demo_sys k mm)) 0 = Running"
proof (rule demo_reachable)
  fix k mm mm' assume "sched_reachable (demo_sys k mm')"
  with sched_invariant[of "fst (demo_sys k mm')" "snd (demo_sys k mm')"]
  have "sched_wf (fst (demo_sys k mm')) [] \<and> sc_ready (fst (demo_sys k mm')) = [2] \<and> state_of (fst (demo_sys k mm')) 0 = Running"
    by (simp add: demo_sys_def demo_boot_def)
  then show ?thesis by blast
qed

text \<open>
  C31.  No panic.  With at most \<open>MAX_THREADS\<close> threads alive or being created and, where \<open>spawn\<close> allocates a stack, frames
  enough for its pages and their page tables, no event that can happen panics: the ready queue never exceeds its reserved
  capacity (\<open>schedule\<close>, \<open>wake\<close>, the timer and \<open>spawn\<close>), the current thread is never found ready, a stack is never freed
  while its thread runs, stack slots do not run out, allocating a stack finds its pages unmapped, and reaping one finds
  them mapped to frames that are lent, whatever else the kernel did to memory in between.
\<close>

theorem sched_no_panic:
  assumes "sched_reachable (s, dying)" and "enabled e (s, dying)"
    and "length (sc_all s) + length (kk_spawning (sc_kstacks s)) \<le> MAX_THREADS" and "sc_next_id s + 1 < u64_limit"
    and "e = Spawn_stack \<longrightarrow> memory_for_stack (kk_memory (sc_kstacks s))"
  shows "\<exists>s' dying'. run_event e (s, dying) = Inr (s', dying')"
  using event_returns[OF reachable_inv[OF assms(1)] assms(2-5)] by auto

theorem sched_no_panic_witness:
  "\<exists>k mm s' dying'. memory_for_stack mm \<and> run_event Spawn_stack (demo_boot k mm, []) = Inr (s', dying')"
proof (rule demo_reachable)
  fix k mm mm' assume r: "sched_reachable (demo_boot k mm, [])" and m: "memory_for_stack mm"
  have "enabled Spawn_stack (demo_boot k mm, [])" "sc_next_id (demo_boot k mm) + 1 < u64_limit"
    "length (sc_all (demo_boot k mm)) + length (kk_spawning (sc_kstacks (demo_boot k mm))) \<le> MAX_THREADS"
    "kk_memory (sc_kstacks (demo_boot k mm)) = mm"
    by (simp_all add: demo_boot_def MAX_THREADS_def)
  with sched_no_panic[OF r this(1,3,2)] m show ?thesis by metis
qed

text \<open>
  C32.  Bounded waiting.  A thread in the ready queue with \<open>k\<close> threads ahead of it stays ready for fewer than
  \<open>10 (k + 1)\<close> timer ticks, whatever else happens meanwhile: it is dispatched, or killed, before that.
\<close>

theorem ready_thread_runs:
  assumes "sched_reachable y" and "t \<in> set (sc_ready (fst y))" and "stays_ready t y n y'"
  shows "n < TIMESLICE_TICKS * (ahead t (sc_ready (fst y)) + 1)"
proof -
  note sl = reachable_slice[OF assms(1)]
  from stays_ready_bound[OF assms(3) reachable_inv[OF assms(1)] sl assms(2)]
  have "wait_bound t (fst y') + n \<le> wait_bound t (fst y)" "1 \<le> wait_bound t (fst y')"
    by (auto simp: wait_bound_def slice_ok_def)
  then show ?thesis using sl by (simp add: wait_bound_def slice_ok_def)
qed

theorem ready_thread_runs_witness:
  "\<exists>k mm. ahead 2 (sc_ready (fst (demo_sys k mm))) = 0 \<and> (\<exists>y'. stays_ready 2 (demo_sys k mm) 1 y') \<and> (1::nat) < TIMESLICE_TICKS"
proof (rule demo_reachable)
  fix k mm mm' assume reach: "sched_reachable (demo_sys k mm')"
  let ?s = "fst (demo_sys k mm')"
  let ?y = "((record_tick 0 ?s)\<lparr>sc_ticks := 1, sc_timeslice_remaining := 9\<rparr>, [])"
  have r: "sc_ready ?s = [2]" and e: "enabled Timer (demo_sys k mm')"
    by (simp_all add: demo_sys_def demo_boot_def)
  then have a: "ahead 2 (sc_ready ?s) = 0" by (simp add: ahead_def)
  have "state_of ?s 2 = Ready" by (simp add: demo_sys_def state_of_def thread_new_def)
  then have "state_of (fst ?y) 2 = Ready" by simp
  with stays_event[OF stays_start e demo_tick, of 2] have w: "stays_ready 2 (demo_sys k mm') 1 ?y" by simp
  from ready_thread_runs[OF reach _ w] r a have "(1::nat) < TIMESLICE_TICKS" by simp
  with a w show ?thesis by blast
qed

text \<open>
  Sleep.  A timer tick makes ready exactly the sleepers whose wake time has come, appends each of them once to the
  ready queue, keeps the others asleep with their wake times, and changes no other thread's state.
\<close>

theorem tick_wakes_due:
  assumes "sched_reachable (s, dying)" and "on_timer_tick s = Inr s'"
  shows "\<exists>ws. sc_ready s' = sc_ready s @ ws \<and> distinct ws \<and> set ws = {t. \<exists>w. (w, t) \<in> set (sc_sleeping s) \<and> w \<le> sc_ticks s}
      \<and> mset (sc_sleeping s') = filter_mset (\<lambda>e. sc_ticks s < fst e) (mset (sc_sleeping s))
      \<and> (\<forall>u. state_of s' u = (if u \<in> set ws then Ready else state_of s u))"
  using on_timer_tick_ok(1)[OF reachable_inv[OF assms(1)] assms(2)] by (auto simp: ticked_def due_woken_def due_def)

theorem tick_wakes_due_witness:
  "\<exists>k mm s'. on_timer_tick (fst (demo_sys k mm)) = Inr s' \<and> set (sc_ready s') = {2}"
proof (rule demo_reachable)
  fix k mm mm' assume "sched_reachable (demo_sys k mm')"
  then have d: "sched_reachable (fst (demo_sys k mm'), snd (demo_sys k mm'))" by simp
  have r: "on_timer_tick (fst (demo_sys k mm')) = Inr ((record_tick 0 (fst (demo_sys k mm')))\<lparr>sc_timeslice_remaining := 9\<rparr>)"
    by (simp add: demo_sys_def on_timer_tick_def wake_due.simps demo_boot_def Let_def TIMESLICE_TICKS_def record_tick_def upd_thread_def)
  from tick_wakes_due[OF d r] obtain ws where
    "sc_ready ((record_tick 0 (fst (demo_sys k mm')))\<lparr>sc_timeslice_remaining := 9\<rparr>) = sc_ready (fst (demo_sys k mm')) @ ws"
    "set ws = {t. \<exists>w. (w, t) \<in> set (sc_sleeping (fst (demo_sys k mm'))) \<and> w \<le> sc_ticks (fst (demo_sys k mm'))}" by blast
  then have "set (sc_ready ((record_tick 0 (fst (demo_sys k mm')))\<lparr>sc_timeslice_remaining := 9\<rparr>)) = {2}"
    by (simp add: demo_sys_def demo_boot_def)
  with r show ?thesis by blast
qed

text \<open>
  Exit codes.  When a thread's entry returns \<open>code\<close>, the scheduler moves on to another thread, and every later
  \<open>join\<close> on it (before it is reaped) returns \<open>code\<close> at once.
\<close>

theorem join_after_return:
  assumes "sched_reachable (s, dying)" and "sc_current s \<noteq> sc_idle s" and "thread_return code s = Inr s'"
  shows "sc_current s' \<noteq> sc_current s \<and> join_turn (sc_current s) s' = Inr (Some code, s')"
proof -
  let ?t = "sc_current s"
  let ?v = "leaving Exited [] [] (set_exit_code ?t code s)"
  note inv = reachable_inv[OF assms(1)]
  note p = running_placed[OF inv assms(2)]
  from return_steps[OF inv assms(2,3)] obtain v where v: "sched_wf v dying" "schedule v = Inr s'"
    "wake_joiners ?v = Inr v" "only_wakes ?v v" by blast
  have st: "state_of v ?t = Exited" "sc_current v = ?t" using only_wakesD(13)[OF v(4), of ?t] only_wakesD(1)[OF v(4)] by auto
  have "exit_code v = exit_code ?v" using wake_all_exit_code v(3) by (auto simp: wake_joiners_def exit_code_def fun_eq_iff)
  then have c: "exit_code v ?t = code"
    by (simp add: exit_code_def leaving_def set_exit_code_def set_state_def upd_thread_def)
  obtain killed where k: "scheduled killed v s'" using schedule_ok[OF v(1,2)] by blast
  have m: "?t \<in> set (sc_all v)" "?t \<notin> set (sc_to_reap v)" "?t \<notin> set (sc_ready v)" "?t \<noteq> sc_idle v"
    using p only_wakesD(2,3,4)[OF v(4)] assms(2) sched_wfD(5)[OF v(1), of ?t] st by (auto simp: placed_def)
  then have cand: "?t \<notin> set (candidates v)" using st by (simp add: candidates_def running_now_def)
  then have ne: "sc_current s' \<noteq> ?t" using k m(4) by (auto simp: scheduled_def)
  have st': "state_of s' ?t = Exited" using k ne st by (auto simp: scheduled_def running_now_def)
  have a': "?t \<in> set (sc_all s')" using schedule_exit_code(2)[OF v(1,2)] m by blast
  have "th_exit_code (sc_threads s' ?t) = code"
    using fun_cong[OF schedule_exit_code(1)[OF v(1,2)], of ?t] c by (simp add: exit_code_def)
  then show ?thesis using a' st' ne by (simp add: join_turn_def sched_lookup_def find_thread_eq)
qed

theorem join_after_return_witness:
  "\<exists>k mm s'. thread_return 7 (fst (demo_sys k mm)) = Inr s' \<and> join_turn 0 s' = Inr (Some 7, s')"
proof (rule demo_reachable)
  fix k mm mm' assume "sched_reachable (demo_sys k mm')"
  then have d: "sched_reachable (fst (demo_sys k mm'), snd (demo_sys k mm'))" by simp
  have c: "sc_current (fst (demo_sys k mm')) = 0" "sc_idle (fst (demo_sys k mm')) = 1"
      "length (sc_all (fst (demo_sys k mm'))) \<le> MAX_THREADS + 1"
    by (simp_all add: demo_sys_def demo_boot_def MAX_THREADS_def)
  then have ni: "sc_current (fst (demo_sys k mm')) \<noteq> sc_idle (fst (demo_sys k mm'))" and few: "few_threads (fst (demo_sys k mm'))"
    by (simp_all add: few_threads_def)
  from return_event(2)[OF reachable_inv[OF d] ni few] obtain s' where s': "thread_return 7 (fst (demo_sys k mm')) = Inr s'" by blast
  from join_after_return[OF d ni s'] s' c show ?thesis by auto
qed

end
