(* ===== verification/Sched_Mutex.thy ===== *)
theory Sched_Mutex
  imports Sched
begin

text \<open>
  \<open>Mutex\<close> of \<open>kernel/src/sched/mutex.rs\<close>: the sleeping mutex with direct hand-off, with \<open>wait_until\<close> of
  \<open>waitqueue.rs\<close>.  \<open>lock\<close> and \<open>unlock\<close> run with interrupts on, so a timer tick can preempt them between any two
  of their atomic actions; each thread has a program counter at the next one, and the interleaving is arbitrary.
  The scheduler appears as the state of each thread: only a \<open>Ready\<close> one takes a step.
\<close>

subsection \<open>The program\<close>

definition NO_OWNER :: tid where "NO_OWNER = 2 ^ 64 - 1"

record mutex =
  mx_locked :: bool
  mx_owner :: tid
  mx_queue :: "tid list"

definition mutex_new :: mutex where
  "mutex_new = \<lparr>mx_locked = False, mx_owner = NO_OWNER, mx_queue = []\<rparr>"

text \<open>
  \<open>L_\<close>: in \<open>lock\<close>, about to take a hand-off, to compare-and-exchange, to park, to record the owner.  \<open>U_\<close>: in
  \<open>unlock\<close>, about to pop a waiter, to grant it the hand-off, to wake it, or to clear \<open>locked\<close>.
\<close>

datatype pc = Outside | L_handoff | L_cas | L_park | L_own | Held | U_pop | U_grant tid | U_wake tid | U_free

record msys =
  ms_mutex :: mutex
  ms_pc :: "tid \<Rightarrow> pc"
  ms_handoff :: "tid \<Rightarrow> bool"
  ms_state :: "tid \<Rightarrow> thread_state"

definition goto :: "tid \<Rightarrow> pc \<Rightarrow> msys \<Rightarrow> msys" where
  "goto t l s = s\<lparr>ms_pc := (ms_pc s)(t := l)\<rparr>"

definition upd_mutex :: "(mutex \<Rightarrow> mutex) \<Rightarrow> msys \<Rightarrow> msys" where
  "upd_mutex f s = s\<lparr>ms_mutex := f (ms_mutex s)\<rparr>"

definition mutex_take_handoff :: "tid \<Rightarrow> msys \<Rightarrow> bool \<times> msys" where
  "mutex_take_handoff t s = (ms_handoff s t, s\<lparr>ms_handoff := (ms_handoff s)(t := False)\<rparr>)"

definition mutex_cas :: "msys \<Rightarrow> bool \<times> msys" where
  "mutex_cas s = (\<not> mx_locked (ms_mutex s), upd_mutex (\<lambda>m. m\<lparr>mx_locked := True\<rparr>) s)"

text \<open>The condition of \<open>wait_until\<close>, evaluated with interrupts off in \<open>block_current\<close>.\<close>

definition mutex_cond :: "tid \<Rightarrow> msys \<Rightarrow> bool \<times> msys" where
  "mutex_cond t s = (case mutex_take_handoff t s of (True, s1) \<Rightarrow> (True, s1) | (False, s1) \<Rightarrow> mutex_cas s1)"

text \<open>\<open>lock\<close> as far as its assertion, the only thing it does before it waits.\<close>

definition mutex_enter :: "tid \<Rightarrow> msys \<Rightarrow> msys checked" where
  "mutex_enter t s = require (mx_owner (ms_mutex s) \<noteq> t) ''sched::Mutex::lock: re-lock'' (Inr (goto t L_handoff s))"

definition mutex_step :: "tid \<Rightarrow> msys \<Rightarrow> msys checked" where
  "mutex_step t s =
     (case ms_pc s t of
        Outside \<Rightarrow> mutex_enter t s
      | L_handoff \<Rightarrow> (case mutex_take_handoff t s of (True, s1) \<Rightarrow> Inr (goto t L_own s1) | (False, s1) \<Rightarrow> Inr (goto t L_cas s1))
      | L_cas \<Rightarrow> (case mutex_cas s of (True, s1) \<Rightarrow> Inr (goto t L_own s1) | (False, s1) \<Rightarrow> Inr (goto t L_park s1))
      | L_park \<Rightarrow> (case mutex_cond t s of
            (True, s1) \<Rightarrow> Inr (goto t L_own s1)
          | (False, s1) \<Rightarrow> Inr (goto t L_handoff (upd_mutex (\<lambda>m. m\<lparr>mx_queue := mx_queue m @ [t]\<rparr>)
                (s1\<lparr>ms_state := (ms_state s1)(t := Blocked)\<rparr>))))
      | L_own \<Rightarrow> Inr (goto t Held (upd_mutex (\<lambda>m. m\<lparr>mx_owner := t\<rparr>) s))
      | Held \<Rightarrow> Inr (goto t U_pop (upd_mutex (\<lambda>m. m\<lparr>mx_owner := NO_OWNER\<rparr>) s))
      | U_pop \<Rightarrow> (case wq_pop (ms_state s) (mx_queue (ms_mutex s)) of
            (Some u, q) \<Rightarrow> Inr (goto t (U_grant u) (upd_mutex (\<lambda>m. m\<lparr>mx_queue := q\<rparr>) s))
          | (None, q) \<Rightarrow> Inr (goto t U_free (upd_mutex (\<lambda>m. m\<lparr>mx_queue := q\<rparr>) s)))
      | U_grant u \<Rightarrow> Inr (goto t (U_wake u) (s\<lparr>ms_handoff := (ms_handoff s)(u := True)\<rparr>))
      | U_wake u \<Rightarrow> Inr (goto t Outside (if ms_state s u = Blocked then s\<lparr>ms_state := (ms_state s)(u := Ready)\<rparr> else s))
      | U_free \<Rightarrow> Inr (goto t Outside (upd_mutex (\<lambda>m. m\<lparr>mx_locked := False\<rparr>) s)))"

text \<open>
  One thread takes its next step (a holder's is to drop its guard), or a holder calls \<open>lock\<close> once more, or a thread
  is killed where it stands.
\<close>

datatype mutex_event = Step tid | Relock tid | Die tid

fun mutex_run :: "mutex_event \<Rightarrow> msys \<Rightarrow> msys checked" where
  "mutex_run (Step t) s = (if ms_state s t = Ready \<and> t \<noteq> NO_OWNER then mutex_step t s else Inr s)"
| "mutex_run (Relock t) s = (if ms_state s t = Ready \<and> ms_pc s t = Held then mutex_enter t s else Inr s)"
| "mutex_run (Die t) s = Inr (s\<lparr>ms_state := (ms_state s)(t := Exited)\<rparr>)"

definition mutex_start :: msys where
  "mutex_start = \<lparr>ms_mutex = mutex_new, ms_pc = (\<lambda>_. Outside), ms_handoff = (\<lambda>_. False), ms_state = (\<lambda>_. Ready)\<rparr>"

inductive mutex_reachable :: "msys \<Rightarrow> bool" where
  mutex_reach_start: "mutex_reachable mutex_start"
| mutex_reach_step: "mutex_reachable s \<Longrightarrow> mutex_run e s = Inr s' \<Longrightarrow> mutex_reachable s'"

lemma NO_OWNER_not: "NO_OWNER \<noteq> 2" "2 \<noteq> NO_OWNER" "Suc 0 \<noteq> NO_OWNER" "NO_OWNER \<noteq> Suc 0"
  by (simp_all add: NO_OWNER_def)

subsection \<open>Ownership is one token\<close>

text \<open>Who has it: a thread past the acquisition and not yet past the release, or one with a hand-off pending.\<close>

definition owns :: "pc \<Rightarrow> bool" where
  "owns l \<longleftrightarrow> (case l of L_own \<Rightarrow> True | Held \<Rightarrow> True | U_pop \<Rightarrow> True | U_grant _ \<Rightarrow> True | U_free \<Rightarrow> True | _ \<Rightarrow> False)"

lemma owns_simps [simp]:
  "owns L_own" "owns Held" "owns U_pop" "owns (U_grant u)" "owns U_free"
  "\<not> owns Outside" "\<not> owns L_handoff" "\<not> owns L_cas" "\<not> owns L_park" "\<not> owns (U_wake u)"
  by (simp_all add: owns_def)

definition holders :: "msys \<Rightarrow> (tid + tid) set" where
  "holders s = {Inl t | t. owns (ms_pc s t)} \<union> {Inr t | t. ms_handoff s t}"

definition mutex_inv :: "msys \<Rightarrow> bool" where
  "mutex_inv s \<longleftrightarrow> (if mx_locked (ms_mutex s) then \<exists>h. holders s = {h} else holders s = {})
     \<and> (mx_owner (ms_mutex s) \<noteq> NO_OWNER \<longrightarrow> ms_pc s (mx_owner (ms_mutex s)) = Held)
     \<and> (\<forall>t. ms_pc s t = Held \<longrightarrow> mx_owner (ms_mutex s) = t)"

lemma holders_iff: "Inl t \<in> holders s \<longleftrightarrow> owns (ms_pc s t)" "Inr t \<in> holders s \<longleftrightarrow> ms_handoff s t"
  by (auto simp: holders_def)

lemma holders_goto:
  "holders (goto t l s) = holders s - {Inl t} \<union> (if owns l then {Inl t} else {})"
  by (auto simp: holders_def goto_def)

lemma holders_simps [simp]:
  "holders (upd_mutex f s) = holders s" "holders (s\<lparr>ms_state := st\<rparr>) = holders s"
  "holders (s\<lparr>ms_handoff := (ms_handoff s)(u := b)\<rparr>) = holders s - {Inr u} \<union> (if b then {Inr u} else {})"
  by (auto simp: holders_def upd_mutex_def)

lemma goto_fields [simp]:
  "ms_mutex (goto t l s) = ms_mutex s" "ms_state (goto t l s) = ms_state s" "ms_handoff (goto t l s) = ms_handoff s"
  "ms_pc (goto t l s) = (ms_pc s)(t := l)" "ms_mutex (upd_mutex f s) = f (ms_mutex s)" "ms_pc (upd_mutex f s) = ms_pc s"
  "ms_handoff (upd_mutex f s) = ms_handoff s" "ms_state (upd_mutex f s) = ms_state s"
  by (simp_all add: goto_def upd_mutex_def)

text \<open>How a step moves the token.\<close>

definition token_moves :: "msys \<Rightarrow> msys \<Rightarrow> bool" where
  "token_moves s s' \<longleftrightarrow>
     holders s' = holders s \<and> mx_locked (ms_mutex s') = mx_locked (ms_mutex s)
   \<or> holders s = {} \<and> (\<exists>h. holders s' = {h}) \<and> mx_locked (ms_mutex s')
   \<or> (\<exists>h h'. holders s = {h} \<and> holders s' = {h'}) \<and> mx_locked (ms_mutex s) \<and> mx_locked (ms_mutex s')
   \<or> holders s' = {} \<and> \<not> mx_locked (ms_mutex s')"

lemma mutex_step_token:
  assumes tok: "if mx_locked (ms_mutex s) then \<exists>h. holders s = {h} else holders s = {}" and run: "mutex_step t s = Inr s'"
  shows "token_moves s s'"
proof -
  have free: "holders s = {}" if "\<not> mx_locked (ms_mutex s)" using tok that by simp
  have one: "holders s = {h} \<and> mx_locked (ms_mutex s)" if "h \<in> holders s" for h
    using tok that by (cases "mx_locked (ms_mutex s)") auto
  have only: "holders s = {Inl t} \<and> mx_locked (ms_mutex s)" if "owns (ms_pc s t)"
    using one[of "Inl t"] that by (simp add: holders_iff)
  have hand: "holders s = {Inr t} \<and> mx_locked (ms_mutex s)" if "ms_handoff s t"
    using one[of "Inr t"] that by (simp add: holders_iff)
  have rest: "holders s - {Inl t} = holders s" if "\<not> owns (ms_pc s t)"
    using that holders_iff(1)[of t s] by (intro Diff_triv) auto
  have nohand: "holders s - {Inr t} = holders s" if "\<not> ms_handoff s t"
    using that holders_iff(2)[of t s] by (intro Diff_triv) auto
  show ?thesis
  proof (cases "ms_pc s t")
    case Outside
    then have "s' = goto t L_handoff s" using run by (simp add: mutex_step_def mutex_enter_def checked_simps)
    then show ?thesis using Outside rest by (simp add: token_moves_def holders_goto)
  next
    case L_handoff
    show ?thesis
    proof (cases "ms_handoff s t")
      case True
      then have "s' = goto t L_own (s\<lparr>ms_handoff := (ms_handoff s)(t := False)\<rparr>)"
        using run L_handoff by (simp add: mutex_step_def mutex_take_handoff_def)
      then show ?thesis using hand[OF True] by (simp add: token_moves_def holders_goto)
    next
      case False
      then have "s' = goto t L_cas (s\<lparr>ms_handoff := (ms_handoff s)(t := False)\<rparr>)"
        using run L_handoff by (simp add: mutex_step_def mutex_take_handoff_def)
      then show ?thesis using nohand[OF False] rest L_handoff by (simp add: token_moves_def holders_goto)
    qed
  next
    case L_cas
    show ?thesis
    proof (cases "mx_locked (ms_mutex s)")
      case True
      then have "s' = goto t L_park (upd_mutex (\<lambda>m. m\<lparr>mx_locked := True\<rparr>) s)" using run L_cas by (simp add: mutex_step_def mutex_cas_def)
      then show ?thesis using True rest L_cas by (simp add: token_moves_def holders_goto)
    next
      case False
      then have "s' = goto t L_own (upd_mutex (\<lambda>m. m\<lparr>mx_locked := True\<rparr>) s)" using run L_cas by (simp add: mutex_step_def mutex_cas_def)
      then show ?thesis using free[OF False] by (simp add: token_moves_def holders_goto)
    qed
  next
    case L_park
    let ?h = "s\<lparr>ms_handoff := (ms_handoff s)(t := False)\<rparr>"
    show ?thesis
    proof (cases "ms_handoff s t")
      case True
      then have "s' = goto t L_own ?h"
        using run L_park by (simp add: mutex_step_def mutex_cond_def mutex_take_handoff_def)
      then show ?thesis using hand[OF True] by (simp add: token_moves_def holders_goto)
    next
      case nh: False
      show ?thesis
      proof (cases "mx_locked (ms_mutex s)")
        case True
        with nh obtain q st where "s' = goto t L_handoff (upd_mutex (\<lambda>m. m\<lparr>mx_queue := q m\<rparr>)
            ((upd_mutex (\<lambda>m. m\<lparr>mx_locked := True\<rparr>) ?h)\<lparr>ms_state := st\<rparr>))"
          using run L_park that[of "\<lambda>m. mx_queue m @ [t]" "(ms_state s)(t := Blocked)"]
          by (simp add: mutex_step_def mutex_cond_def mutex_take_handoff_def mutex_cas_def)
        then show ?thesis using True nohand[OF nh] rest L_park by (simp add: token_moves_def holders_goto)
      next
        case False
        then have "s' = goto t L_own (upd_mutex (\<lambda>m. m\<lparr>mx_locked := True\<rparr>) ?h)"
          using run L_park nh by (simp add: mutex_step_def mutex_cond_def mutex_take_handoff_def mutex_cas_def)
        then show ?thesis using free[OF False] by (simp add: token_moves_def holders_goto)
      qed
    qed
  next
    case L_own
    then have "s' = goto t Held (upd_mutex (\<lambda>m. m\<lparr>mx_owner := t\<rparr>) s)" using run by (simp add: mutex_step_def)
    then show ?thesis using only L_own by (simp add: token_moves_def holders_goto)
  next
    case Held
    then have "s' = goto t U_pop (upd_mutex (\<lambda>m. m\<lparr>mx_owner := NO_OWNER\<rparr>) s)" using run by (simp add: mutex_step_def)
    then show ?thesis using only Held by (simp add: token_moves_def holders_goto)
  next
    case U_pop
    then obtain l f where "s' = goto t l (upd_mutex f s)" "owns l" "\<And>m. mx_locked (f m) = mx_locked m"
      using run by (auto simp: mutex_step_def split: prod.splits option.splits)
    then show ?thesis using only U_pop by (simp add: token_moves_def holders_goto)
  next
    case (U_grant u)
    then have "s' = goto t (U_wake u) (s\<lparr>ms_handoff := (ms_handoff s)(u := True)\<rparr>)" using run by (simp add: mutex_step_def)
    moreover have "{Inr u, Inl t} - {Inl t} = {Inr u :: tid + tid}" by auto
    ultimately show ?thesis using only U_grant by (simp add: token_moves_def holders_goto)
  next
    case (U_wake u)
    then obtain st where "s' = goto t Outside (s\<lparr>ms_state := st\<rparr>)" using run
      by (cases "ms_state s u = Blocked") (auto simp: mutex_step_def intro: that[of "ms_state s"])
    then show ?thesis using rest U_wake by (simp add: token_moves_def holders_goto)
  next
    case U_free
    then have "s' = goto t Outside (upd_mutex (\<lambda>m. m\<lparr>mx_locked := False\<rparr>) s)" using run by (simp add: mutex_step_def)
    then show ?thesis using only U_free by (simp add: token_moves_def holders_goto)
  qed
qed

lemma mutex_step_others:
  assumes "mutex_step t s = Inr s'" and "u \<noteq> t" shows "ms_pc s' u = ms_pc s u"
  using assms by (auto simp: mutex_step_def mutex_enter_def mutex_take_handoff_def mutex_cas_def mutex_cond_def checked_simps
      split: pc.splits prod.splits option.splits if_splits bool.splits)

lemma mutex_step_owner:
  assumes own: "mx_owner (ms_mutex s) \<noteq> NO_OWNER \<longrightarrow> ms_pc s (mx_owner (ms_mutex s)) = Held" and run: "mutex_step t s = Inr s'"
  shows "mx_owner (ms_mutex s') \<noteq> NO_OWNER \<longrightarrow> ms_pc s' (mx_owner (ms_mutex s')) = Held"
proof (cases "ms_pc s t = L_own \<or> ms_pc s t = Held")
  case True
  then show ?thesis using run by (auto simp: mutex_step_def)
next
  case False
  then have "mx_owner (ms_mutex s') = mx_owner (ms_mutex s)"
    using run by (auto simp: mutex_step_def mutex_enter_def mutex_take_handoff_def mutex_cas_def mutex_cond_def checked_simps
        split: pc.splits prod.splits option.splits if_splits bool.splits)
  then show ?thesis using own False mutex_step_others[OF run] by metis
qed

lemma mutex_step_held:
  assumes tok: "if mx_locked (ms_mutex s) then \<exists>h. holders s = {h} else holders s = {}"
    and own: "\<forall>t. ms_pc s t = Held \<longrightarrow> mx_owner (ms_mutex s) = t" and run: "mutex_step t s = Inr s'" and held: "ms_pc s' u = Held"
  shows "mx_owner (ms_mutex s') = u"
proof -
  have one: "u = v" if "owns (ms_pc s u)" "owns (ms_pc s v)" for u v
    using tok that holders_iff(1)[of u s] holders_iff(1)[of v s] by (auto split: if_splits)
  show ?thesis
  proof (cases "u = t")
    case True
    then have "ms_pc s t = L_own" using held run
      by (auto simp: mutex_step_def mutex_enter_def mutex_take_handoff_def mutex_cas_def mutex_cond_def checked_simps
          split: pc.splits prod.splits option.splits if_splits bool.splits)
    then show ?thesis using run True by (auto simp: mutex_step_def)
  next
    case False
    then have hu: "ms_pc s u = Held" using held mutex_step_others[OF run False] by simp
    then have "\<not> owns (ms_pc s t)" using one[of u t] False by auto
    then have "mx_owner (ms_mutex s') = mx_owner (ms_mutex s)"
      using run by (auto simp: mutex_step_def mutex_enter_def mutex_take_handoff_def mutex_cas_def mutex_cond_def checked_simps
          split: pc.splits prod.splits option.splits if_splits bool.splits)
    then show ?thesis using own hu by simp
  qed
qed

lemma mutex_invD:
  assumes "mutex_inv s"
  shows "if mx_locked (ms_mutex s) then \<exists>h. holders s = {h} else holders s = {}"
    "mx_owner (ms_mutex s) \<noteq> NO_OWNER \<longrightarrow> ms_pc s (mx_owner (ms_mutex s)) = Held"
    "\<forall>t. ms_pc s t = Held \<longrightarrow> mx_owner (ms_mutex s) = t"
  using assms unfolding mutex_inv_def by blast+

lemma mutex_step_inv:
  assumes inv: "mutex_inv s" and run: "mutex_step t s = Inr s'"
  shows "mutex_inv s'"
proof -
  note i = mutex_invD[OF inv]
  have "if mx_locked (ms_mutex s') then \<exists>h. holders s' = {h} else holders s' = {}"
    using mutex_step_token[OF i(1) run] i(1) unfolding token_moves_def by (elim disjE conjE exE) simp_all
  with mutex_step_owner[OF i(2) run] mutex_step_held[OF i(1,3) run] show ?thesis unfolding mutex_inv_def by blast
qed

text \<open>The assertion catches every holder that calls \<open>lock\<close> again.\<close>

lemma relock_panics:
  assumes "mutex_inv s" and "ms_pc s t = Held" shows "\<nexists>s'. mutex_enter t s = Inr s'"
  using mutex_invD(3)[OF assms(1)] assms(2) by (auto simp: mutex_enter_def)

lemma mutex_reachable_inv: "mutex_reachable s \<Longrightarrow> mutex_inv s"
proof (induction rule: mutex_reachable.induct)
  case mutex_reach_start
  then show ?case by (simp add: mutex_inv_def mutex_start_def mutex_new_def holders_def)
next
  case (mutex_reach_step s e s')
  show ?case
  proof (cases e)
    case (Step t)
    then show ?thesis using mutex_reach_step mutex_step_inv by (auto split: if_splits)
  next
    case (Relock t)
    then have "s' = s" using mutex_reach_step(2) relock_panics[OF mutex_reach_step(3), of t] by (auto split: if_splits)
    then show ?thesis using mutex_reach_step(3) by simp
  next
    case (Die t)
    then have "s' = s\<lparr>ms_state := (ms_state s)(t := Exited)\<rparr>" using mutex_reach_step(2) by simp
    then show ?thesis using mutex_reach_step(3) by (simp add: mutex_inv_def)
  qed
qed

fun mutex_runs :: "mutex_event list \<Rightarrow> msys \<Rightarrow> msys checked" where
  "mutex_runs [] s = Inr s"
| "mutex_runs (e # es) s = and_then (mutex_run e s) (mutex_runs es)"

lemma mutex_runs_reachable: "mutex_runs es s = Inr s' \<Longrightarrow> mutex_reachable s \<Longrightarrow> mutex_reachable s'"
  by (induction es s rule: mutex_runs.induct) (auto simp: checked_simps intro: mutex_reach_step)

text \<open>
  C33.  Mutual exclusion.  Whatever the interleaving of \<open>lock\<close> and \<open>unlock\<close>, and whoever is killed, at most one thread
  holds the mutex or is on its way to it by a hand-off, and nobody does while \<open>locked\<close> is false.  \<open>lock\<close> panics when
  the caller holds the mutex already, and in no other case, and \<open>unlock\<close> never: the recorded owner is the holder as
  long as it holds, and a thread outside never finds itself the owner.
\<close>

theorem mutex_excludes:
  assumes "mutex_reachable s"
  shows "(ms_pc s t = Held \<and> ms_pc s u = Held \<longrightarrow> t = u) \<and> (ms_pc s t = Held \<longrightarrow> mx_locked (ms_mutex s) \<and> \<not> ms_handoff s u)
    \<and> ((\<nexists>s'. mutex_run e s = Inr s') \<longleftrightarrow> (\<exists>v. e = Relock v \<and> ms_state s v = Ready \<and> ms_pc s v = Held))"
proof -
  note inv = mutex_reachable_inv[OF assms]
  note tok = mutex_invD(1)[OF inv]
  have held: "Inl v \<in> holders s" if "ms_pc s v = Held" for v using that by (simp add: holders_iff)
  have "(\<nexists>s'. mutex_run e s = Inr s') \<longleftrightarrow> (\<exists>v. e = Relock v \<and> ms_state s v = Ready \<and> ms_pc s v = Held)"
  proof (cases e)
    case (Step v)
    have "ms_pc s v = Outside \<Longrightarrow> v \<noteq> NO_OWNER \<Longrightarrow> mx_owner (ms_mutex s) \<noteq> v" using mutex_invD(2)[OF inv] by auto
    then have "\<exists>s'. mutex_run e s = Inr s'"
      by (cases "ms_pc s v") (auto simp: Step mutex_step_def mutex_enter_def split: prod.splits bool.splits option.splits)
    then show ?thesis by (simp add: Step)
  next
    case (Relock v)
    then show ?thesis using relock_panics[OF inv, of v] by auto
  qed simp
  moreover have "t = u" if "ms_pc s t = Held" "ms_pc s u = Held"
    using tok held[OF that(1)] held[OF that(2)] by (auto split: if_splits)
  moreover have "mx_locked (ms_mutex s) \<and> \<not> ms_handoff s u" if "ms_pc s t = Held"
    using tok held[OF that] holders_iff(2)[of u s] by (auto split: if_splits)
  ultimately show ?thesis by blast
qed

lemmas mutex_eval = NO_OWNER_not mutex_start_def mutex_new_def mutex_step_def mutex_enter_def mutex_take_handoff_def mutex_cas_def
  mutex_cond_def goto_def upd_mutex_def

definition holder_demo :: msys where
  "holder_demo = mutex_start\<lparr>ms_mutex := \<lparr>mx_locked = True, mx_owner = 1, mx_queue = [2]\<rparr>,
     ms_pc := (\<lambda>_. Outside)(1 := Held, 2 := L_handoff), ms_state := (\<lambda>_. Ready)(2 := Blocked)\<rparr>"

lemma holder_demo:
  "mutex_runs [Step 1, Step 1, Step 1, Step 1, Step 2, Step 2, Step 2, Step 2] mutex_start = Inr holder_demo"
  by (simp add: mutex_eval holder_demo_def) (simp add: fun_eq_iff)

theorem mutex_excludes_witness:
  "ms_pc holder_demo 1 = Held \<and> mx_queue (ms_mutex holder_demo) = [2] \<and> \<not> ms_handoff holder_demo 2
    \<and> (\<nexists>s'. mutex_run (Relock 1) holder_demo = Inr s')"
proof -
  have "ms_pc holder_demo 1 = Held \<and> ms_state holder_demo 1 = Ready \<and> mx_queue (ms_mutex holder_demo) = [2]"
    by (simp add: holder_demo_def)
  with mutex_excludes[OF mutex_runs_reachable[OF holder_demo mutex_reach_start], of 1 2 "Relock 1"] show ?thesis by blast
qed

text \<open>
  C34.  A lost wake-up.  \<open>unlock\<close> reads an empty queue and is preempted before it clears \<open>locked\<close>; a thread that now
  fails the compare-and-exchange parks; then \<open>locked\<close> is cleared.  The thread stays blocked on a free mutex that nobody
  else is using: no step of any thread that stays outside can wake it.
\<close>

theorem mutex_loses_wakeup:
  "\<exists>s. mutex_reachable s \<and> \<not> mx_locked (ms_mutex s) \<and> mx_queue (ms_mutex s) = [2] \<and> ms_state s 2 = Blocked
     \<and> \<not> ms_handoff s 2 \<and> ms_pc s = (\<lambda>_. Outside)(2 := L_handoff)"
proof -
  let ?es = "[Step 1, Step 1, Step 1, Step 1, Step 1, Step 1, Step 2, Step 2, Step 2, Step 2, Step 1]"
  obtain s where s: "mutex_runs ?es mutex_start = Inr s"
    and facts: "\<not> mx_locked (ms_mutex s) \<and> mx_queue (ms_mutex s) = [2] \<and> ms_state s 2 = Blocked
     \<and> \<not> ms_handoff s 2 \<and> ms_pc s = (\<lambda>_. Outside)(2 := L_handoff)"
    by (simp add: mutex_eval fun_eq_iff)
  then show ?thesis using mutex_runs_reachable[OF s mutex_reach_start] by blast
qed

end
