(* ===== verification/Utf8.thy ===== *)
theory Utf8
  imports Prelude
begin

text \<open>
  UTF-8 as the Rust core library has it: the encoding of a scalar value (\<open>String::push\<close>) and the strict
  validation and decoding of a byte string (\<open>str::from_utf8\<close>, \<open>chars\<close>).  A byte is a number below 256, a
  \<open>char\<close> is its scalar value.
\<close>

definition scalar :: "nat \<Rightarrow> bool" where
  "scalar c \<longleftrightarrow> c < 0xD800 \<or> 0xE000 \<le> c \<and> c \<le> 0x10FFFF"

definition utf8_char :: "nat \<Rightarrow> nat list" where
  "utf8_char c =
     (if c < 0x80 then [c]
      else if c < 0x800 then [0xC0 + c div 64, 0x80 + c mod 64]
      else if c < 0x10000 then [0xE0 + c div 4096, 0x80 + c div 64 mod 64, 0x80 + c mod 64]
      else [0xF0 + c div 262144, 0x80 + c div 4096 mod 64, 0x80 + c div 64 mod 64, 0x80 + c mod 64])"

definition utf8_encode :: "nat list \<Rightarrow> nat list" where
  "utf8_encode s = concat (map utf8_char s)"

definition cont :: "nat \<Rightarrow> bool" where
  "cont b \<longleftrightarrow> 0x80 \<le> b \<and> b \<le> 0xBF"

text \<open>The second byte a three or four byte sequence may have after its first.\<close>

definition second_ok :: "nat \<Rightarrow> nat \<Rightarrow> bool" where
  "second_ok b0 b1 \<longleftrightarrow> cont b1 \<and> (b0 = 0xE0 \<longrightarrow> 0xA0 \<le> b1) \<and> (b0 = 0xED \<longrightarrow> b1 \<le> 0x9F)
     \<and> (b0 = 0xF0 \<longrightarrow> 0x90 \<le> b1) \<and> (b0 = 0xF4 \<longrightarrow> b1 \<le> 0x8F)"

fun utf8_one :: "nat list \<Rightarrow> (nat \<times> nat list) option" where
  "utf8_one [] = None"
| "utf8_one (b0 # r) =
     (if b0 < 0x80 then Some (b0, r)
      else if 0xC2 \<le> b0 \<and> b0 \<le> 0xDF then
        (case r of b1 # r1 \<Rightarrow> if cont b1 then Some ((b0 - 0xC0) * 64 + (b1 - 0x80), r1) else None | _ \<Rightarrow> None)
      else if 0xE0 \<le> b0 \<and> b0 \<le> 0xEF then
        (case r of b1 # b2 # r2 \<Rightarrow>
           if second_ok b0 b1 \<and> cont b2 then Some ((b0 - 0xE0) * 4096 + (b1 - 0x80) * 64 + (b2 - 0x80), r2) else None
         | _ \<Rightarrow> None)
      else if 0xF0 \<le> b0 \<and> b0 \<le> 0xF4 then
        (case r of b1 # b2 # b3 # r3 \<Rightarrow>
           if second_ok b0 b1 \<and> cont b2 \<and> cont b3
           then Some ((b0 - 0xF0) * 262144 + (b1 - 0x80) * 4096 + (b2 - 0x80) * 64 + (b3 - 0x80), r3) else None
         | _ \<Rightarrow> None)
      else None)"

lemma utf8_one_shorter: "utf8_one bs = Some (c, r) \<Longrightarrow> length r < length bs"
  by (cases bs) (auto split: if_splits list.splits)

function utf8_decode :: "nat list \<Rightarrow> nat list option" where
  "utf8_decode bs =
     (if bs = [] then Some []
      else case utf8_one bs of None \<Rightarrow> None | Some (c, r) \<Rightarrow> map_option (Cons c) (utf8_decode r))"
  by auto
termination
  by (relation "measure length") (auto dest: utf8_one_shorter)

declare utf8_decode.simps [simp del]

subsection \<open>Round trip\<close>

text \<open>A scalar value in base 64.\<close>

lemma base64:
  fixes c :: nat
  defines "a \<equiv> c div 262144" and "b \<equiv> c div 4096 mod 64" and "d \<equiv> c div 64 mod 64" and "e \<equiv> c mod 64"
  shows "c = a * 262144 + b * 4096 + d * 64 + e" "b < 64" "d < 64" "e < 64" "c div 4096 = a * 64 + b" "c div 64 = a * 4096 + b * 64 + d"
proof -
  have e1: "c div 4096 = c div 64 div 64" "c div 262144 = c div 64 div 64 div 64" by (simp_all flip: div_mult2_eq)
  have 1: "c = c div 64 * 64 + e" unfolding e_def by simp
  have 2: "c div 64 = c div 64 div 64 * 64 + d" unfolding d_def by simp
  have 3: "c div 64 div 64 = c div 64 div 64 div 64 * 64 + b" unfolding b_def e1 by simp
  show "c div 4096 = a * 64 + b" using 3 unfolding a_def e1 by simp
  show "c div 64 = a * 4096 + b * 64 + d" using 2 3 unfolding a_def e1 by linarith
  show "c = a * 262144 + b * 4096 + d * 64 + e" using 1 2 3 unfolding a_def e1 by linarith
qed (simp_all add: b_def d_def e_def)

lemma utf8_char_cases:
  fixes c :: nat
  defines "a \<equiv> c div 262144" and "b \<equiv> c div 4096 mod 64" and "d \<equiv> c div 64 mod 64" and "e \<equiv> c mod 64"
  shows "c < 0x80 \<Longrightarrow> utf8_char c = [c]"
    and "0x80 \<le> c \<Longrightarrow> c < 0x800 \<Longrightarrow> utf8_char c = [0xC0 + d, 0x80 + e] \<and> c = d * 64 + e \<and> 2 \<le> d \<and> d < 32 \<and> e < 64"
    and "0x800 \<le> c \<Longrightarrow> c < 0x10000 \<Longrightarrow> utf8_char c = [0xE0 + b, 0x80 + d, 0x80 + e] \<and> c = b * 4096 + d * 64 + e
      \<and> b < 16 \<and> d < 64 \<and> e < 64"
    and "0x10000 \<le> c \<Longrightarrow> c \<le> 0x10FFFF \<Longrightarrow> utf8_char c = [0xF0 + a, 0x80 + b, 0x80 + d, 0x80 + e]
      \<and> c = a * 262144 + b * 4096 + d * 64 + e \<and> a < 5 \<and> b < 64 \<and> d < 64 \<and> e < 64"
proof -
  note n = base64[of c, folded a_def b_def d_def e_def]
  show "c < 0x80 \<Longrightarrow> utf8_char c = [c]" by (simp add: utf8_char_def)
  assume c: "0x80 \<le> c" "c < 0x800"
  then have z: "a = 0" "b = 0" using n(1) by linarith+
  have "c div 64 = d" "c = d * 64 + e" using n(1,6) unfolding z by simp_all
  then show "utf8_char c = [0xC0 + d, 0x80 + e] \<and> c = d * 64 + e \<and> 2 \<le> d \<and> d < 32 \<and> e < 64"
    using c n(4) by (simp add: utf8_char_def e_def[symmetric])
next
  note n = base64[of c, folded a_def b_def d_def e_def]
  assume c: "0x800 \<le> c" "c < 0x10000"
  then have z: "a = 0" using n(1) by linarith
  have e: "c div 4096 = b" "c = b * 4096 + d * 64 + e" using n(1,5) unfolding z by simp_all
  have "utf8_char c = [0xE0 + b, 0x80 + d, 0x80 + e]" using c e(1) by (simp add: utf8_char_def d_def e_def)
  moreover have "b < 16" using c e(2) by linarith
  ultimately show "utf8_char c = [0xE0 + b, 0x80 + d, 0x80 + e] \<and> c = b * 4096 + d * 64 + e \<and> b < 16 \<and> d < 64 \<and> e < 64"
    using e(2) n(3,4) by simp
next
  note n = base64[of c, folded a_def b_def d_def e_def]
  assume c: "0x10000 \<le> c" "c \<le> 0x10FFFF"
  have "utf8_char c = [0xF0 + a, 0x80 + b, 0x80 + d, 0x80 + e]" using c by (simp add: utf8_char_def a_def b_def d_def e_def)
  moreover have "a < 5" using c n(1) by linarith
  ultimately show "utf8_char c = [0xF0 + a, 0x80 + b, 0x80 + d, 0x80 + e]
      \<and> c = a * 262144 + b * 4096 + d * 64 + e \<and> a < 5 \<and> b < 64 \<and> d < 64 \<and> e < 64"
    using n(1,2,3,4) by blast
qed

lemma utf8_one_char:
  assumes "scalar c" shows "utf8_one (utf8_char c @ r) = Some (c, r)"
proof -
  consider "c < 0x80" | "0x80 \<le> c" "c < 0x800" | "0x800 \<le> c" "c < 0x10000" | "0x10000 \<le> c" "c \<le> 0x10FFFF"
    using assms unfolding scalar_def by linarith
  then show ?thesis
  proof cases
    case 1
    then show ?thesis using utf8_char_cases(1) by simp
  next
    case 2
    then obtain d e where "utf8_char c = [0xC0 + d, 0x80 + e]" "c = d * 64 + e" "2 \<le> d" "d < 32" "e < 64"
      using utf8_char_cases(2) by blast
    then show ?thesis by (simp add: cont_def)
  next
    case 3
    then obtain b d e where u: "utf8_char c = [0xE0 + b, 0x80 + d, 0x80 + e]" "c = b * 4096 + d * 64 + e" "b < 16" "d < 64" "e < 64"
      using utf8_char_cases(3) by blast
    have "b = 0 \<Longrightarrow> 32 \<le> d" using 3 u(2,5) by linarith
    moreover have "b = 13 \<Longrightarrow> d < 32" using assms u(2,4,5) unfolding scalar_def by (elim disjE) linarith+
    ultimately show ?thesis using u by (auto simp: cont_def second_ok_def)
  next
    case 4
    then obtain a b d e where u: "utf8_char c = [0xF0 + a, 0x80 + b, 0x80 + d, 0x80 + e]" "c = a * 262144 + b * 4096 + d * 64 + e"
      "a < 5" "b < 64" "d < 64" "e < 64" using utf8_char_cases(4) by blast
    have "a = 0 \<Longrightarrow> 16 \<le> b" "a = 4 \<Longrightarrow> b < 16" using 4 u(2,5,6) by linarith+
    then show ?thesis using u by (auto simp: cont_def second_ok_def)
  qed
qed

lemma utf8_char_nonempty [simp]: "utf8_char c \<noteq> []"
  by (simp add: utf8_char_def)

lemma utf8_decode_char: "scalar c \<Longrightarrow> utf8_decode (utf8_char c @ r) = map_option (Cons c) (utf8_decode r)"
  by (subst utf8_decode.simps) (simp add: utf8_one_char)

lemma utf8_encode_Nil [simp]: "utf8_encode [] = []"
  and utf8_encode_Cons [simp]: "utf8_encode (c # s) = utf8_char c @ utf8_encode s"
  and utf8_encode_append [simp]: "utf8_encode (s @ t) = utf8_encode s @ utf8_encode t"
  by (simp_all add: utf8_encode_def)

lemma utf8_roundtrip: "\<forall>c\<in>set s. scalar c \<Longrightarrow> utf8_decode (utf8_encode s) = Some s"
  by (induction s) (simp add: utf8_decode.simps, simp add: utf8_decode_char)

lemma scalar_3:
  assumes "x < 64" "y < 64" "k \<le> 15" "k = 13 \<Longrightarrow> x < 32" shows "scalar (k * 4096 + x * 64 + y)"
proof -
  consider "k \<le> 12" | "k = 13" | "14 \<le> k" by linarith
  then show ?thesis
  proof cases
    case 1
    then have "k * 4096 + x * 64 + y < 55296" using assms(1,2) by linarith
    then show ?thesis by (simp add: scalar_def)
  next
    case 2
    then have "k * 4096 + x * 64 + y < 55296" using assms(2,4) by simp
    then show ?thesis by (simp add: scalar_def)
  next
    case 3
    then have "57344 \<le> k * 4096 + x * 64 + y" "k * 4096 + x * 64 + y \<le> 1114111" using assms(1,2,3) by linarith+
    then show ?thesis by (simp add: scalar_def)
  qed
qed

lemma scalar_4:
  assumes "x < 64" "y < 64" "z < 64" "k \<le> 4" "k = 0 \<Longrightarrow> 16 \<le> x" "k = 4 \<Longrightarrow> x < 16"
  shows "scalar (k * 262144 + x * 4096 + y * 64 + z)"
proof -
  have "57344 \<le> k * 262144 + x * 4096 + y * 64 + z" using assms(5) by (cases "k = 0") simp_all
  moreover have "k * 262144 + x * 4096 + y * 64 + z \<le> 1114111"
  proof (cases "k = 4")
    case True
    then show ?thesis using assms(2,3,6) by simp
  next
    case False
    then have "k \<le> 3" using assms(4) by simp
    then show ?thesis using assms(1,2,3) by linarith
  qed
  ultimately show ?thesis by (simp add: scalar_def)
qed

lemma utf8_one_scalar: "utf8_one bs = Some (c, r) \<Longrightarrow> scalar c"
proof (cases bs)
  case (Cons b0 bs')
  assume u: "utf8_one bs = Some (c, r)"
  consider "b0 < 0x80" | "\<not> b0 < 0x80" "0xC2 \<le> b0 \<and> b0 \<le> 0xDF" | "0xE0 \<le> b0 \<and> b0 \<le> 0xEF" | "0xF0 \<le> b0 \<and> b0 \<le> 0xF4"
    using u Cons by (auto split: if_splits)
  then show ?thesis
  proof cases
    case 1
    then show ?thesis using u Cons by (simp add: scalar_def)
  next
    case 2
    then show ?thesis using u Cons by (auto simp: scalar_def cont_def split: if_splits list.splits)
  next
    case 3
    then obtain b1 b2 where "c = (b0 - 0xE0) * 4096 + (b1 - 0x80) * 64 + (b2 - 0x80)" "second_ok b0 b1" "cont b2"
      using u Cons by (auto split: if_splits list.splits)
    then show ?thesis using 3 scalar_3[of "b1 - 0x80" "b2 - 0x80" "b0 - 0xE0"] unfolding second_ok_def cont_def by auto
  next
    case 4
    then obtain b1 b2 b3 where "c = (b0 - 0xF0) * 262144 + (b1 - 0x80) * 4096 + (b2 - 0x80) * 64 + (b3 - 0x80)" "second_ok b0 b1" "cont b2" "cont b3"
      using u Cons by (auto split: if_splits list.splits)
    then show ?thesis using 4 scalar_4[of "b1 - 0x80" "b2 - 0x80" "b3 - 0x80" "b0 - 0xF0"] unfolding second_ok_def cont_def by auto
  qed
qed simp

lemma utf8_decode_scalar: "utf8_decode bs = Some s \<Longrightarrow> c \<in> set s \<Longrightarrow> scalar c"
proof (induction bs arbitrary: s rule: utf8_decode.induct)
  case (1 bs)
  show ?case
  proof (cases "bs = []")
    case False
    then obtain c' r s' where "utf8_one bs = Some (c', r)" "utf8_decode r = Some s'" "s = c' # s'"
      using 1(2) by (subst (asm) utf8_decode.simps) (auto split: option.splits)
    then show ?thesis using 1(1)[OF False] 1(3) utf8_one_scalar by auto
  qed (use 1 in \<open>simp add: utf8_decode.simps\<close>)
qed

text \<open>No byte of a non-ASCII character is below 128.\<close>

lemma utf8_char_high: "0x80 \<le> c \<Longrightarrow> b \<in> set (utf8_char c) \<Longrightarrow> 0x80 \<le> b"
  by (auto simp: utf8_char_def split: if_splits)

lemma utf8_char_ascii: "c < 0x80 \<Longrightarrow> utf8_char c = [c]"
  by (simp add: utf8_char_def)

lemma utf8_encode_ascii: "\<forall>c\<in>set s. c < 0x80 \<Longrightarrow> utf8_encode s = s"
  by (induction s) (simp_all add: utf8_char_ascii)

text \<open>Decoding is strict: only the encoding of a text decodes to it.\<close>

lemma split64: "x < 64 \<Longrightarrow> (a * 64 + x) div 64 = (a::nat)" "x < 64 \<Longrightarrow> (a * 64 + x) mod 64 = (x::nat)"
  by simp_all

lemma utf8_char_2:
  assumes "x < 64" "2 \<le> k" "k < 32" shows "utf8_char (k * 64 + x) = [0xC0 + k, 0x80 + x]"
proof -
  have "(k * 64 + x) div 64 = k" "(k * 64 + x) mod 64 = x" using assms(1) by simp_all
  moreover have "\<not> k * 64 + x < 0x80" "k * 64 + x < 0x800" using assms by linarith+
  ultimately show ?thesis by (simp add: utf8_char_def)
qed

lemma utf8_char_3:
  assumes "x < 64" "y < 64" "k < 16" "k = 0 \<Longrightarrow> 32 \<le> x"
  shows "utf8_char (k * 4096 + x * 64 + y) = [0xE0 + k, 0x80 + x, 0x80 + y]"
proof -
  let ?c = "k * 4096 + x * 64 + y"
  have e: "?c = (k * 64 + x) * 64 + y" by simp
  have "?c div 64 = k * 64 + x" "?c mod 64 = y" unfolding e using split64[OF assms(2)] by blast+
  moreover from this(1) have "?c div 64 mod 64 = x" "?c div 64 div 64 = k" using assms(1) by simp_all
  moreover have "?c div 4096 = ?c div 64 div 64" by (simp flip: div_mult2_eq)
  moreover have "\<not> ?c < 0x800" using assms(4) by (cases "k = 0") simp_all
  moreover have "?c < 0x10000" using assms(1-3) by linarith
  ultimately show ?thesis by (simp add: utf8_char_def)
qed

lemma utf8_char_4:
  assumes "x < 64" "y < 64" "z < 64" "k = 0 \<Longrightarrow> 16 \<le> x"
  shows "utf8_char (k * 262144 + x * 4096 + y * 64 + z) = [0xF0 + k, 0x80 + x, 0x80 + y, 0x80 + z]"
proof -
  let ?c = "k * 262144 + x * 4096 + y * 64 + z"
  have e: "?c = (k * 4096 + x * 64 + y) * 64 + z" "k * 4096 + x * 64 + y = (k * 64 + x) * 64 + y" by simp_all
  have 1: "?c div 64 = k * 4096 + x * 64 + y" "?c mod 64 = z" unfolding e(1) using split64[OF assms(3)] by blast+
  have 2: "?c div 64 div 64 = k * 64 + x" "?c div 64 mod 64 = y" unfolding 1(1) e(2) using split64[OF assms(2)] by blast+
  have "?c div 64 div 64 div 64 = k" "?c div 64 div 64 mod 64 = x" unfolding 2(1) using assms(1) by simp_all
  moreover have "?c div 4096 = ?c div 64 div 64" "?c div 262144 = ?c div 64 div 64 div 64" by (simp_all flip: div_mult2_eq)
  moreover have "\<not> ?c < 0x10000" using assms(4) by (cases "k = 0") simp_all
  ultimately show ?thesis using 1(2) 2(2) by (simp add: utf8_char_def)
qed

lemma utf8_one_inv: "utf8_one bs = Some (c, r) \<Longrightarrow> bs = utf8_char c @ r"
proof (cases bs)
  case (Cons b0 bs')
  assume u: "utf8_one bs = Some (c, r)"
  consider "b0 < 0x80" | "\<not> b0 < 0x80" "0xC2 \<le> b0 \<and> b0 \<le> 0xDF" | "0xE0 \<le> b0 \<and> b0 \<le> 0xEF" | "0xF0 \<le> b0 \<and> b0 \<le> 0xF4"
    using u Cons by (auto split: if_splits)
  then show ?thesis
  proof cases
    case 1
    then show ?thesis using u Cons by (simp add: utf8_char_def)
  next
    case 2
    then obtain b1 where "c = (b0 - 0xC0) * 64 + (b1 - 0x80)" "bs' = b1 # r" "cont b1"
      using u Cons by (auto split: if_splits list.splits)
    moreover from this have "b1 - 0x80 < 64" "0x80 + (b1 - 0x80) = b1" unfolding cont_def by linarith+
    moreover have "2 \<le> b0 - 0xC0" "b0 - 0xC0 < 32" "0xC0 + (b0 - 0xC0) = b0" using 2 by linarith+
    ultimately show ?thesis using Cons utf8_char_2[of "b1 - 0x80" "b0 - 0xC0"] by simp
  next
    case 3
    then obtain b1 b2 where "c = (b0 - 0xE0) * 4096 + (b1 - 0x80) * 64 + (b2 - 0x80)" "bs' = b1 # b2 # r" "second_ok b0 b1" "cont b2"
      using u Cons by (auto split: if_splits list.splits)
    moreover from this have "b1 - 0x80 < 64" "0x80 + (b1 - 0x80) = b1" "b2 - 0x80 < 64" "0x80 + (b2 - 0x80) = b2"
      "b0 - 0xE0 = 0 \<Longrightarrow> 32 \<le> b1 - 0x80" using 3 unfolding second_ok_def cont_def by auto
    moreover have "b0 - 0xE0 < 16" "0xE0 + (b0 - 0xE0) = b0" using 3 by linarith+
    ultimately show ?thesis using Cons utf8_char_3[of "b1 - 0x80" "b2 - 0x80" "b0 - 0xE0"] by simp
  next
    case 4
    then obtain b1 b2 b3 where "c = (b0 - 0xF0) * 262144 + (b1 - 0x80) * 4096 + (b2 - 0x80) * 64 + (b3 - 0x80)"
      "bs' = b1 # b2 # b3 # r" "second_ok b0 b1" "cont b2" "cont b3"
      using u Cons by (auto split: if_splits list.splits)
    moreover from this have "b1 - 0x80 < 64" "0x80 + (b1 - 0x80) = b1" "b2 - 0x80 < 64" "0x80 + (b2 - 0x80) = b2"
      "b3 - 0x80 < 64" "0x80 + (b3 - 0x80) = b3" "b0 - 0xF0 = 0 \<Longrightarrow> 16 \<le> b1 - 0x80"
      using 4 unfolding second_ok_def cont_def by auto
    moreover have "0xF0 + (b0 - 0xF0) = b0" using 4 by linarith
    ultimately show ?thesis using Cons utf8_char_4[of "b1 - 0x80" "b2 - 0x80" "b3 - 0x80" "b0 - 0xF0"] by simp
  qed
qed simp

lemma utf8_decode_inv: "utf8_decode bs = Some s \<Longrightarrow> utf8_encode s = bs"
proof (induction bs arbitrary: s rule: utf8_decode.induct)
  case (1 bs)
  show ?case
  proof (cases "bs = []")
    case False
    then obtain c r s' where "utf8_one bs = Some (c, r)" "utf8_decode r = Some s'" "s = c # s'"
      using 1(2) by (subst (asm) utf8_decode.simps) (auto split: option.splits)
    then show ?thesis using 1(1)[OF False] utf8_one_inv[of bs c r] by simp
  qed (use 1 in \<open>simp add: utf8_decode.simps\<close>)
qed

end
