(* ===== verification/Json.thy ===== *)
theory Json
  imports Utf8
begin

text \<open>
  \<open>crates/otter-json\<close>: the value type, the strict RFC 8259 parser (\<open>parser.rs\<close>) and the compact and pretty
  writers (\<open>ser.rs\<close>).  The parser's \<open>input\<close> and \<open>pos\<close> are the position and the bytes left.  \<open>f64\<close> is the type
  variable \<open>'f\<close>; what the core library does with it (\<open>is_finite\<close>, the two formats, \<open>parse\<close>) is a record of
  functions.
\<close>

subsection \<open>Values and errors\<close>

datatype 'f json_number = JInt int | JUInt nat | JFloat 'f

datatype 'f json = JNull | JBool bool | JNumber "'f json_number" | JString "nat list"
  | JArray "'f json list" | JObject "(nat list \<times> 'f json) list"

record 'f f64_lib =
  fl_finite :: "'f \<Rightarrow> bool"
  fl_sci :: "'f \<Rightarrow> nat list"
  fl_fixed :: "'f \<Rightarrow> nat list"
  fl_parse :: "nat list \<Rightarrow> 'f option"

datatype json_error_kind = UnexpectedEof | UnexpectedByte nat | InvalidLiteral | InvalidNumber | InvalidUnicodeEscape
  | InvalidEscape | InvalidUtf8 | UnterminatedString | ControlCharacterInString | TrailingComma | TrailingCharacters
  | DepthLimitExceeded | ExpectedColon | ExpectedString

record json_error =
  je_offset :: nat
  je_kind :: json_error_kind

definition MAX_DEPTH :: nat where "MAX_DEPTH = 128"

text \<open>Objects keep their pairs in order, duplicates included; the last one wins.\<close>

definition object_get :: "nat list \<Rightarrow> (nat list \<times> 'f json) list \<Rightarrow> 'f json option" where
  "object_get key entries = map_option snd (List.find (\<lambda>e. fst e = key) (rev entries))"

definition object_contains_key :: "nat list \<Rightarrow> (nat list \<times> 'f json) list \<Rightarrow> bool" where
  "object_contains_key key entries = list_ex (\<lambda>e. fst e = key) entries"

definition object_push :: "nat list \<Rightarrow> 'f json \<Rightarrow> (nat list \<times> 'f json) list \<Rightarrow> (nat list \<times> 'f json) list" where
  "object_push key v entries = entries @ [(key, v)]"

text \<open>\<open>insert\<close> replaces the value of the last occurrence, and returns it, or appends.\<close>

fun replace_first :: "nat list \<Rightarrow> 'f json \<Rightarrow> (nat list \<times> 'f json) list \<Rightarrow> (nat list \<times> 'f json) list" where
  "replace_first key v [] = []"
| "replace_first key v (e # es) = (if fst e = key then (fst e, v) # es else e # replace_first key v es)"

definition object_insert :: "nat list \<Rightarrow> 'f json \<Rightarrow> (nat list \<times> 'f json) list
    \<Rightarrow> 'f json option \<times> (nat list \<times> 'f json) list" where
  "object_insert key v entries =
     (case object_get key entries of
        Some old \<Rightarrow> (Some old, rev (replace_first key v (rev entries)))
      | None \<Rightarrow> (None, entries @ [(key, v)]))"

text \<open>\<open>remove\<close> takes out the first occurrence.\<close>

fun object_remove :: "nat list \<Rightarrow> (nat list \<times> 'f json) list \<Rightarrow> 'f json option \<times> (nat list \<times> 'f json) list" where
  "object_remove key [] = (None, [])"
| "object_remove key (e # es) =
     (if fst e = key then (Some (snd e), es) else (case object_remove key es of (v, es') \<Rightarrow> (v, e # es')))"

lemma find_rev_replace:
  "List.find (\<lambda>e. fst e = k) (replace_first key v es) =
     (if k = key then map_option (\<lambda>e. (fst e, v)) (List.find (\<lambda>e. fst e = k) es) else List.find (\<lambda>e. fst e = k) es)"
  by (induction es) auto

lemma object_get_insert:
  "object_insert key v entries = (old, entries') \<Longrightarrow>
     object_get k entries' = (if k = key then Some v else object_get k entries) \<and> old = object_get key entries"
  by (auto simp: object_insert_def object_get_def find_rev_replace split: option.splits)

lemma object_contains_get: "object_contains_key key entries \<longleftrightarrow> object_get key entries \<noteq> None"
  unfolding object_contains_key_def object_get_def by (force simp: find_None_iff list_ex_iff)

text \<open>Reading a value: every accessor is \<open>None\<close> on the other constructors.\<close>

definition json_as_bool :: "'f json \<Rightarrow> bool option" where
  "json_as_bool v = (case v of JBool b \<Rightarrow> Some b | _ \<Rightarrow> None)"

definition json_as_str :: "'f json \<Rightarrow> nat list option" where
  "json_as_str v = (case v of JString s \<Rightarrow> Some s | _ \<Rightarrow> None)"

definition json_as_number :: "'f json \<Rightarrow> 'f json_number option" where
  "json_as_number v = (case v of JNumber n \<Rightarrow> Some n | _ \<Rightarrow> None)"

definition json_as_array :: "'f json \<Rightarrow> 'f json list option" where
  "json_as_array v = (case v of JArray vs \<Rightarrow> Some vs | _ \<Rightarrow> None)"

definition json_as_object :: "'f json \<Rightarrow> (nat list \<times> 'f json) list option" where
  "json_as_object v = (case v of JObject es \<Rightarrow> Some es | _ \<Rightarrow> None)"

definition json_get :: "nat list \<Rightarrow> 'f json \<Rightarrow> 'f json option" where
  "json_get key v = Option.bind (json_as_object v) (object_get key)"

definition json_index :: "nat \<Rightarrow> 'f json \<Rightarrow> 'f json option" where
  "json_index i v = Option.bind (json_as_array v) (\<lambda>vs. if i < length vs then Some (vs ! i) else None)"

definition number_of_u64 :: "nat \<Rightarrow> 'f json_number" where
  "number_of_u64 u = (if u < 2 ^ 63 then JInt (int u) else JUInt u)"

subsection \<open>Scanning\<close>

type_synonym jst = "nat \<times> nat list"
type_synonym 'a jresult = "json_error + 'a"

definition err_at :: "nat \<Rightarrow> json_error_kind \<Rightarrow> 'a jresult" where
  "err_at offset kind = Inl \<lparr>je_offset = offset, je_kind = kind\<rparr>"

fun peek :: "jst \<Rightarrow> nat option" where
  "peek (pos, []) = None"
| "peek (pos, b # r) = Some b"

fun advance :: "nat \<Rightarrow> jst \<Rightarrow> jst" where
  "advance n (pos, rest) = (pos + n, drop n rest)"

definition is_ws :: "nat \<Rightarrow> bool" where
  "is_ws b \<longleftrightarrow> b = 32 \<or> b = 9 \<or> b = 10 \<or> b = 13"

definition skip_while :: "(nat \<Rightarrow> bool) \<Rightarrow> jst \<Rightarrow> jst" where
  "skip_while p st = advance (length (takeWhile p (snd st))) st"

definition skip_ws :: "jst \<Rightarrow> jst" where
  "skip_ws = skip_while is_ws"

fun parse_lit :: "nat list \<Rightarrow> 'v \<Rightarrow> nat \<Rightarrow> jst \<Rightarrow> ('v \<times> jst) jresult" where
  "parse_lit [] v start st = Inr (v, st)"
| "parse_lit (want # lit) v start st =
     (if peek st = Some want then parse_lit lit v start (advance 1 st) else err_at start InvalidLiteral)"

subsection \<open>Strings\<close>

definition hex_digit :: "nat \<Rightarrow> nat option" where
  "hex_digit b =
     (if 48 \<le> b \<and> b \<le> 57 then Some (b - 48)
      else if 97 \<le> b \<and> b \<le> 102 then Some (b - 97 + 10)
      else if 65 \<le> b \<and> b \<le> 70 then Some (b - 65 + 10)
      else None)"

fun hex_value :: "nat \<Rightarrow> nat list \<Rightarrow> nat option" where
  "hex_value cp [] = Some cp"
| "hex_value cp (b # bs) = (case hex_digit b of None \<Rightarrow> None | Some d \<Rightarrow> hex_value (cp * 16 + d) bs)"

definition parse_hex4 :: "nat \<Rightarrow> jst \<Rightarrow> (nat \<times> jst) jresult" where
  "parse_hex4 esc_pos st =
     (if length (snd st) < 4 then err_at esc_pos InvalidUnicodeEscape
      else case hex_value 0 (take 4 (snd st)) of
        None \<Rightarrow> err_at esc_pos InvalidUnicodeEscape
      | Some cp \<Rightarrow> Inr (cp, advance 4 st))"

definition high_surrogate :: "nat \<Rightarrow> bool" where "high_surrogate cp \<longleftrightarrow> 0xD800 \<le> cp \<and> cp \<le> 0xDBFF"
definition low_surrogate :: "nat \<Rightarrow> bool" where "low_surrogate cp \<longleftrightarrow> 0xDC00 \<le> cp \<and> cp \<le> 0xDFFF"

definition or_replacement :: "nat \<Rightarrow> nat" where
  "or_replacement c = (if scalar c then c else 0xFFFD)"

text \<open>What follows \<open>\u\<close>: the scalar pushed and the state after it.\<close>

definition parse_unicode_escape :: "nat \<Rightarrow> jst \<Rightarrow> (nat \<times> jst) jresult" where
  "parse_unicode_escape esc_pos st0 =
     and_then (parse_hex4 esc_pos st0) (\<lambda>(cp, st).
       if high_surrogate cp then
         (if take 2 (snd st) = [92, 117] then
            and_then (parse_hex4 (fst st) (advance 2 st)) (\<lambda>(low, st2).
              if low_surrogate low then Inr (or_replacement (0x10000 + (cp - 0xD800) * 1024 + (low - 0xDC00)), st2)
              else Inr (0xFFFD, st))
          else Inr (0xFFFD, st))
       else if low_surrogate cp then Inr (0xFFFD, st)
       else Inr (or_replacement cp, st))"

definition simple_escape :: "nat \<Rightarrow> nat option" where
  "simple_escape e =
     (if e = 34 then Some 34 else if e = 92 then Some 92 else if e = 47 then Some 47 else if e = 98 then Some 8
      else if e = 102 then Some 12 else if e = 110 then Some 10 else if e = 114 then Some 13 else if e = 116 then Some 9
      else None)"

definition plain_byte :: "nat \<Rightarrow> bool" where
  "plain_byte b \<longleftrightarrow> b \<noteq> 34 \<and> b \<noteq> 92 \<and> 32 \<le> b"

definition string_run :: "jst \<Rightarrow> (nat list \<times> jst) jresult" where
  "string_run st =
     (case utf8_decode (takeWhile plain_byte (snd st)) of
        None \<Rightarrow> err_at (fst st) InvalidUtf8
      | Some s \<Rightarrow> Inr (s, skip_while plain_byte st))"

text \<open>The escape after a backslash at \<open>esc_pos\<close>.\<close>

definition parse_escape :: "nat \<Rightarrow> nat \<Rightarrow> jst \<Rightarrow> (nat \<times> jst) jresult" where
  "parse_escape start esc_pos st =
     (case peek st of
        None \<Rightarrow> err_at start UnterminatedString
      | Some e \<Rightarrow> (case simple_escape e of
            Some c \<Rightarrow> Inr (c, advance 1 st)
          | None \<Rightarrow> if e = 117 then parse_unicode_escape esc_pos (advance 1 st) else err_at esc_pos InvalidEscape))"

lemma skip_while_shorter: "length (snd (skip_while p st)) \<le> length (snd st)"
  by (cases st) (simp add: skip_while_def)

lemma parse_hex4_shorter: "parse_hex4 e st = Inr (c, st') \<Longrightarrow> length (snd st') < length (snd st)"
  by (cases st) (auto simp: parse_hex4_def err_at_def split: if_splits option.splits)

lemma parse_unicode_escape_shorter: "parse_unicode_escape e st = Inr (c, st') \<Longrightarrow> length (snd st') < length (snd st)"
proof -
  assume "parse_unicode_escape e st = Inr (c, st')"
  then obtain cp st1 where 1: "parse_hex4 e st = Inr (cp, st1)"
    and "st' = st1 \<or> (\<exists>low. parse_hex4 (fst st1) (advance 2 st1) = Inr (low, st'))"
    by (auto simp: parse_unicode_escape_def checked_simps split: if_splits)
  moreover have "length (snd (advance 2 st1)) \<le> length (snd st1)" by (cases st1) simp
  ultimately show ?thesis using parse_hex4_shorter[OF 1] parse_hex4_shorter[of "fst st1" "advance 2 st1" _ st'] by fastforce
qed

lemma parse_escape_shorter: "parse_escape s e st = Inr (c, st') \<Longrightarrow> length (snd st') < length (snd st)"
  by (cases st rule: peek.cases)
    (auto simp: parse_escape_def err_at_def split: option.splits if_splits dest: parse_unicode_escape_shorter)

function string_loop :: "nat \<Rightarrow> nat list \<Rightarrow> jst \<Rightarrow> (nat list \<times> jst) jresult" where
  "string_loop start out st =
     and_then (string_run st) (\<lambda>(s, st1).
       case snd st1 of
         [] \<Rightarrow> err_at start UnterminatedString
       | b # r \<Rightarrow>
           if b = 34 then Inr (out @ s, advance 1 st1)
           else if b < 32 then err_at (fst st1) ControlCharacterInString
           else and_then (parse_escape start (fst st1) (advance 1 st1)) (\<lambda>(c, st2).
             string_loop start (out @ s @ [c]) st2))"
  by auto
termination
proof (relation "measure (\<lambda>(start, out, st). length (snd st))", goal_cases)
  case (2 start out st x s st1 b r y c st2)
  have "length (snd st1) \<le> length (snd st)" using 2(1,2) skip_while_shorter[of plain_byte st]
    by (auto simp: string_run_def err_at_def split: option.splits)
  moreover have "length (snd (advance 1 st1)) \<le> length (snd st1)" by (cases st1) simp
  ultimately show ?case using 2 parse_escape_shorter by fastforce
qed simp

declare string_loop.simps [simp del]

definition parse_string :: "jst \<Rightarrow> (nat list \<times> jst) jresult" where
  "parse_string st = string_loop (fst st) [] (advance 1 st)"

subsection \<open>Numbers\<close>

definition digit :: "nat \<Rightarrow> bool" where "digit b \<longleftrightarrow> 48 \<le> b \<and> b \<le> 57"

text \<open>\<open>str::parse\<close> on the decimal tokens the scanner accepts.\<close>

definition dec_value :: "nat list \<Rightarrow> nat" where
  "dec_value ds = foldl (\<lambda>n b. n * 10 + (b - 48)) 0 ds"

definition parse_i64 :: "nat list \<Rightarrow> int option" where
  "parse_i64 token =
     (let v = (case token of [] \<Rightarrow> 0 | b # ds \<Rightarrow> if b = 45 then - int (dec_value ds) else int (dec_value token)) in
      if - (2 ^ 63) \<le> v \<and> v < 2 ^ 63 then Some v else None)"

definition parse_u64 :: "nat list \<Rightarrow> nat option" where
  "parse_u64 token = (if take 1 token = [45] then None else if dec_value token < 2 ^ 64 then Some (dec_value token) else None)"

text \<open>One digit and the digits after it, or \<open>None\<close>.\<close>

definition some_digits :: "jst \<Rightarrow> jst option" where
  "some_digits st = (case peek st of Some b \<Rightarrow> if digit b then Some (skip_while digit (advance 1 st)) else None | None \<Rightarrow> None)"

definition int_part :: "jst \<Rightarrow> jst option" where
  "int_part st =
     (let st1 = (if peek st = Some 45 then advance 1 st else st) in
      if peek st1 = Some 48 then Some (advance 1 st1) else some_digits st1)"

definition frac_part :: "jst \<Rightarrow> (bool \<times> jst) option" where
  "frac_part st = (if peek st = Some 46 then map_option (Pair True) (some_digits (advance 1 st)) else Some (False, st))"

definition exp_part :: "jst \<Rightarrow> (bool \<times> jst) option" where
  "exp_part st =
     (if peek st = Some 101 \<or> peek st = Some 69 then
        (let st1 = advance 1 st; st2 = (if peek st1 = Some 43 \<or> peek st1 = Some 45 then advance 1 st1 else st1) in
         map_option (Pair True) (some_digits st2))
      else Some (False, st))"

definition number_of_token :: "'f f64_lib \<Rightarrow> bool \<Rightarrow> nat list \<Rightarrow> 'f json_number option" where
  "number_of_token L is_float token =
     (if is_float then map_option JFloat (fl_parse L token)
      else case parse_i64 token of
        Some i \<Rightarrow> Some (JInt i)
      | None \<Rightarrow> (case parse_u64 token of Some u \<Rightarrow> Some (JUInt u) | None \<Rightarrow> map_option JFloat (fl_parse L token)))"

definition parse_number :: "'f f64_lib \<Rightarrow> jst \<Rightarrow> ('f json_number \<times> jst) jresult" where
  "parse_number L st =
     (case int_part st of
        None \<Rightarrow> err_at (fst st) InvalidNumber
      | Some st1 \<Rightarrow> (case frac_part st1 of
          None \<Rightarrow> err_at (fst st) InvalidNumber
        | Some (fr, st2) \<Rightarrow> (case exp_part st2 of
            None \<Rightarrow> err_at (fst st) InvalidNumber
          | Some (ex, st3) \<Rightarrow>
              (case number_of_token L (fr \<or> ex) (take (fst st3 - fst st) (snd st)) of
                None \<Rightarrow> err_at (fst st) InvalidNumber
              | Some n \<Rightarrow> Inr (n, st3)))))"

subsection \<open>Values\<close>

text \<open>
  \<open>parse_value\<close>, \<open>parse_array\<close> and \<open>parse_object\<close> with their loops; \<open>depth\<close> is the number of arrays and objects
  already open.
\<close>

function parse_value :: "'f f64_lib \<Rightarrow> nat \<Rightarrow> jst \<Rightarrow> ('f json \<times> jst) jresult"
  and array_loop :: "'f f64_lib \<Rightarrow> nat \<Rightarrow> 'f json list \<Rightarrow> jst \<Rightarrow> ('f json list \<times> jst) jresult"
  and object_loop :: "'f f64_lib \<Rightarrow> nat \<Rightarrow> (nat list \<times> 'f json) list \<Rightarrow> jst \<Rightarrow> ((nat list \<times> 'f json) list \<times> jst) jresult"
where
  "parse_value L depth st0 =
     (let st = skip_ws st0 in
      case peek st of
        None \<Rightarrow> err_at (fst st) UnexpectedEof
      | Some b \<Rightarrow>
          if b = 34 then and_then (parse_string st) (\<lambda>(s, st1). Inr (JString s, st1))
          else if b = 123 then
            (let st1 = advance 1 st in
             if MAX_DEPTH < depth + 1 then err_at (fst st1) DepthLimitExceeded
             else let st2 = skip_ws st1 in
               if peek st2 = Some 125 then Inr (JObject [], advance 1 st2)
               else and_then (object_loop L (depth + 1) [] st2) (\<lambda>(entries, st3). Inr (JObject entries, st3)))
          else if b = 91 then
            (let st1 = advance 1 st in
             if MAX_DEPTH < depth + 1 then err_at (fst st1) DepthLimitExceeded
             else let st2 = skip_ws st1 in
               if peek st2 = Some 93 then Inr (JArray [], advance 1 st2)
               else and_then (array_loop L (depth + 1) [] st2) (\<lambda>(items, st3). Inr (JArray items, st3)))
          else if b = 116 then parse_lit [116, 114, 117, 101] (JBool True) (fst st) st
          else if b = 102 then parse_lit [102, 97, 108, 115, 101] (JBool False) (fst st) st
          else if b = 110 then parse_lit [110, 117, 108, 108] JNull (fst st) st
          else if b = 45 \<or> digit b then and_then (parse_number L st) (\<lambda>(n, st1). Inr (JNumber n, st1))
          else err_at (fst st) (UnexpectedByte b))"
| "array_loop L depth items st0 =
     and_then (parse_value L depth (skip_ws st0)) (\<lambda>(v, st1).
       let st = skip_ws st1 in
       case peek st of
         None \<Rightarrow> err_at (fst st) UnexpectedEof
       | Some b \<Rightarrow>
           if b = 44 then
             (let st2 = skip_ws (advance 1 st) in
              if peek st2 = Some 93 then err_at (fst st2) TrailingComma
              else array_loop L depth (items @ [v]) st2)
           else if b = 93 then Inr (items @ [v], advance 1 st)
           else err_at (fst st) (UnexpectedByte b))"
| "object_loop L depth entries st0 =
     (let st = skip_ws st0 in
      if peek st \<noteq> Some 34 then err_at (fst st) (if peek st = None then UnexpectedEof else ExpectedString)
      else and_then (parse_string st) (\<lambda>(key, st1).
        let st2 = skip_ws st1 in
        if peek st2 \<noteq> Some 58 then err_at (fst st2) (if peek st2 = None then UnexpectedEof else ExpectedColon)
        else and_then (parse_value L depth (skip_ws (advance 1 st2))) (\<lambda>(v, st3).
          let st4 = skip_ws st3 in
          case peek st4 of
            None \<Rightarrow> err_at (fst st4) UnexpectedEof
          | Some b \<Rightarrow>
              if b = 44 then
                (let st5 = skip_ws (advance 1 st4) in
                 if peek st5 = Some 125 then err_at (fst st5) TrailingComma
                 else object_loop L depth (object_push key v entries) st5)
              else if b = 125 then Inr (object_push key v entries, advance 1 st4)
              else err_at (fst st4) (UnexpectedByte b))))"
  by pat_completeness auto

text \<open>Nothing the parser calls ever moves backwards, so the loops end.\<close>

abbreviation left :: "jst \<Rightarrow> nat" where "left st \<equiv> length (snd st)"

lemma left_advance [simp]: "left (advance n st) = left st - n"
  by (cases st) simp

lemma left_skip: "left (skip_while p st) \<le> left st"
  by (rule skip_while_shorter)

lemma left_skip_ws: "left (skip_ws st) \<le> left st"
  by (simp add: skip_ws_def left_skip)

lemma peek_left: "peek st = Some b \<Longrightarrow> 0 < left st"
  by (cases st rule: peek.cases) auto

lemma string_run_left: "string_run st = Inr (s, st') \<Longrightarrow> left st' \<le> left st"
  using left_skip[of plain_byte st] by (auto simp: string_run_def err_at_def split: option.splits)

lemma string_loop_left: "string_loop start out st = Inr (s, st') \<Longrightarrow> left st' \<le> left st"
proof (induction start out st rule: string_loop.induct)
  case (1 start out st)
  from 1(2) obtain x st1 where r: "string_run st = Inr (x, st1)"
    and k: "(case snd st1 of [] \<Rightarrow> err_at start UnterminatedString
       | b # r \<Rightarrow> if b = 34 then Inr (out @ x, advance 1 st1) else if b < 32 then err_at (fst st1) ControlCharacterInString
           else and_then (parse_escape start (fst st1) (advance 1 st1)) (\<lambda>(c, st2). string_loop start (out @ x @ [c]) st2)) = Inr (s, st')"
    by (subst (asm) string_loop.simps) (auto simp: checked_simps)
  note l = string_run_left[OF r]
  obtain b r' where s1: "snd st1 = b # r'" using k by (cases "snd st1") (auto simp: err_at_def)
  show ?case
  proof (cases "b = 34")
    case True
    then have "st' = advance 1 st1" using k s1 by simp
    then show ?thesis using l by simp
  next
    case ne: False
    then have ge: "\<not> b < 32" using k s1 by (auto simp: err_at_def)
    with k s1 ne obtain c st2 where c: "parse_escape start (fst st1) (advance 1 st1) = Inr (c, st2)"
      "string_loop start (out @ x @ [c]) st2 = Inr (s, st')" by (auto simp: checked_simps)
    from 1(1)[OF r refl s1 ne ge c(1) refl c(2)] parse_escape_shorter[OF c(1)] l show ?thesis by simp
  qed
qed

lemma parse_string_left: "parse_string st = Inr (s, st') \<Longrightarrow> left st' \<le> left st"
  using string_loop_left[of "fst st" "[]" "advance 1 st"] by (simp add: parse_string_def)

lemma some_digits_left: "some_digits st = Some st' \<Longrightarrow> left st' \<le> left st"
  using left_skip[of digit "advance 1 st"] by (auto simp: some_digits_def split: option.splits if_splits)

lemma int_part_left: "int_part st = Some st' \<Longrightarrow> left st' \<le> left st"
  using some_digits_left[of st st'] some_digits_left[of "advance 1 st" st'] by (auto simp: int_part_def Let_def split: if_splits)

lemma frac_part_left: "frac_part st = Some (b, st') \<Longrightarrow> left st' \<le> left st"
  using some_digits_left[of "advance 1 st" st'] by (auto simp: frac_part_def split: if_splits)

lemma exp_part_left: "exp_part st = Some (b, st') \<Longrightarrow> left st' \<le> left st"
  using some_digits_left[of "advance 1 st" st'] some_digits_left[of "advance 1 (advance 1 st)" st']
  by (auto simp: exp_part_def Let_def split: if_splits)

lemma parse_number_left: "parse_number L st = Inr (n, st') \<Longrightarrow> left st' \<le> left st"
  by (fastforce simp: parse_number_def err_at_def split: option.splits prod.splits
      dest: int_part_left frac_part_left exp_part_left)

lemma parse_lit_left: "parse_lit lit v start st = Inr (w, st') \<Longrightarrow> left st' \<le> left st"
  by (induction lit v start st rule: parse_lit.induct) (auto simp: err_at_def split: if_splits)

lemma parser_left:
  fixes L L' L'' :: "'f f64_lib"
  shows "parse_value_array_loop_object_loop_dom (Inl (L, d, st)) \<Longrightarrow> parse_value L d st = Inr (v, st') \<Longrightarrow> left st' \<le> left st"
  "parse_value_array_loop_object_loop_dom (Inr (Inl (L', d', items, ast))) \<Longrightarrow> array_loop L' d' items ast = Inr (items', ast') \<Longrightarrow> left ast' \<le> left ast"
  "parse_value_array_loop_object_loop_dom (Inr (Inr (L'', d'', entries, ost))) \<Longrightarrow> object_loop L'' d'' entries ost = Inr (entries', ost') \<Longrightarrow> left ost' \<le> left ost"
proof (induction L d st and L' d' items ast and L'' d'' entries ost arbitrary: v st' and items' ast' and entries' ost'
    rule: parse_value_array_loop_object_loop.pinduct)
  case (1 L depth st0)
  let ?st = "skip_ws st0"
  note w = left_skip_ws[of st0]
  have w2: "left (skip_ws (advance 1 ?st)) \<le> left st0" using left_skip_ws[of "advance 1 ?st"] w by simp
  obtain b where b: "peek ?st = Some b" using 1(1,4) by (cases "peek ?st") (simp_all add: parse_value.psimps err_at_def Let_def)
  note run = 1(4)[unfolded parse_value.psimps[OF 1(1)] Let_def b option.case]
  show ?case
  proof (cases "b = 34 \<or> b = 116 \<or> b = 102 \<or> b = 110 \<or> b = 45 \<or> digit b")
    case True
    then show ?thesis using run w
      by (auto simp: checked_simps digit_def err_at_def dest!: parse_string_left parse_lit_left parse_number_left split: if_splits)
  next
    case False
    then consider "b = 123" "\<not> MAX_DEPTH < depth + 1" | "b = 91" "\<not> MAX_DEPTH < depth + 1" using run by (auto simp: err_at_def split: if_splits)
    then show ?thesis
    proof cases
      case o: 1
      show ?thesis
      proof (cases "peek (skip_ws (advance 1 ?st)) = Some 125")
        case True
        then show ?thesis using run o w2 by auto
      next
        case ne: False
        then obtain es where "object_loop L (depth + 1) [] (skip_ws (advance 1 ?st)) = Inr (es, st')"
          using run o by (auto simp: checked_simps)
        from 1(2)[OF refl b _ o(1) refl o(2) refl ne this] o w2 show ?thesis by simp
      qed
    next
      case o: 2
      show ?thesis
      proof (cases "peek (skip_ws (advance 1 ?st)) = Some 93")
        case True
        then show ?thesis using run o w2 by auto
      next
        case ne: False
        then obtain es where "array_loop L (depth + 1) [] (skip_ws (advance 1 ?st)) = Inr (es, st')"
          using run o by (auto simp: checked_simps)
        from 1(3)[OF refl b _ _ o(1) refl o(2) refl ne this] o w2 show ?thesis by simp
      qed
    qed
  qed
next
  case (2 L depth items st0)
  from 2(4) obtain v st1 where v: "parse_value L depth (skip_ws st0) = Inr (v, st1)"
    using 2(1) by (auto simp: array_loop.psimps checked_simps)
  have l1: "left st1 \<le> left st0" using 2(2)[OF v] left_skip_ws[of st0] by simp
  let ?st = "skip_ws st1"
  have l2: "left ?st \<le> left st0" using left_skip_ws[of st1] l1 by simp
  have l3: "left (skip_ws (advance 1 ?st)) \<le> left st0" using left_skip_ws[of "advance 1 ?st"] l2 by simp
  obtain b where b: "peek ?st = Some b" using 2(1,4) v by (cases "peek ?st") (simp_all add: array_loop.psimps err_at_def Let_def)
  show ?case
  proof (cases "b = 44 \<and> peek (skip_ws (advance 1 ?st)) \<noteq> Some 93")
    case True
    then have "array_loop L depth (items @ [v]) (skip_ws (advance 1 ?st)) = Inr (items', ast')"
      using 2(1,4) v b by (simp add: array_loop.psimps Let_def)
    from 2(3)[OF v refl refl b _ refl _ this] True l3 show ?thesis by simp
  next
    case False
    then have "ast' = advance 1 ?st" using 2(1,4) v b by (auto simp: array_loop.psimps Let_def err_at_def split: if_splits)
    then show ?thesis using l2 by simp
  qed
next
  case (3 L depth entries st0)
  let ?st = "skip_ws st0"
  have q: "peek ?st = Some 34" using 3(1,4) by (auto simp: object_loop.psimps Let_def err_at_def split: if_splits)
  obtain key st1 where key: "parse_string ?st = Inr (key, st1)" using 3(1,4) q by (auto simp: object_loop.psimps Let_def checked_simps)
  have k1: "left st1 \<le> left st0" using parse_string_left[OF key] left_skip_ws[of st0] by simp
  let ?st2 = "skip_ws st1"
  have c: "peek ?st2 = Some 58" using 3(1,4) q key by (auto simp: object_loop.psimps Let_def err_at_def split: if_splits)
  have k2: "left (skip_ws (advance 1 ?st2)) \<le> left st0" using left_skip_ws[of "advance 1 ?st2"] left_skip_ws[of st1] k1 by simp
  obtain v st3 where v: "parse_value L depth (skip_ws (advance 1 ?st2)) = Inr (v, st3)"
    using 3(1,4) q key c by (auto simp: object_loop.psimps Let_def checked_simps)
  let ?st4 = "skip_ws st3"
  have l4: "left ?st4 \<le> left st0" using 3(2)[OF refl _ key refl refl _ v] q c k2 left_skip_ws[of st3] by simp
  have l5: "left (skip_ws (advance 1 ?st4)) \<le> left st0" using left_skip_ws[of "advance 1 ?st4"] l4 by simp
  obtain b where b: "peek ?st4 = Some b" using 3(1,4) q key c v by (cases "peek ?st4") (simp_all add: object_loop.psimps err_at_def Let_def)
  show ?case
  proof (cases "b = 44 \<and> peek (skip_ws (advance 1 ?st4)) \<noteq> Some 125")
    case True
    then have "object_loop L depth (object_push key v entries) (skip_ws (advance 1 ?st4)) = Inr (entries', ost')"
      using 3(1,4) q key c v b by (simp add: object_loop.psimps Let_def)
    from 3(3)[OF refl _ key refl refl _ v refl refl b _ refl _ this] q c True l5 show ?thesis by simp
  next
    case False
    then have "ost' = advance 1 ?st4" using 3(1,4) q key c v b by (auto simp: object_loop.psimps Let_def err_at_def split: if_splits)
    then show ?thesis using l4 by simp
  qed
qed

termination parse_value
proof (relation "measures [\<lambda>x. case x of Inl (L, d, st) \<Rightarrow> left st | Inr (Inl (L, d, xs, st)) \<Rightarrow> left st | Inr (Inr (L, d, xs, st)) \<Rightarrow> left st,
    \<lambda>x. case x of Inl _ \<Rightarrow> 0 | Inr _ \<Rightarrow> 1]", goal_cases)
  case 1
  show ?case by simp
next
  case (2 L depth st0 st b st1 st2)
  then have "0 < left st" "left st \<le> left st0" "left st1 = left st - 1" "left st2 \<le> left st1"
    using peek_left[of st b] left_skip_ws[of st0] left_skip_ws[of st1] by auto
  then have "left st2 < left st0" by linarith
  then show ?case by simp
next
  case (3 L depth st0 st b st1 st2)
  then have "0 < left st" "left st \<le> left st0" "left st1 = left st - 1" "left st2 \<le> left st1"
    using peek_left[of st b] left_skip_ws[of st0] left_skip_ws[of st1] by auto
  then have "left st2 < left st0" by linarith
  then show ?case by simp
next
  case (4 L depth items st0)
  then show ?case using left_skip_ws[of st0] by (simp add: le_imp_less_or_eq)
next
  case (5 L depth items st0 x v st1 st b st2)
  have "left st1 \<le> left (skip_ws st0)" using parser_left(1)[of L depth "skip_ws st0" v st1] 5 by simp
  moreover have "0 < left st" "left st \<le> left st1" "left st2 \<le> left (advance 1 st)"
    using 5 peek_left[of st b] left_skip_ws[of st1] left_skip_ws[of "advance 1 st"] by auto
  ultimately have "left st2 < left st0" using left_skip_ws[of st0] left_advance[of 1 st] by linarith
  then show ?case by simp
next
  case (6 L depth entries st0 st x key st1 st2)
  have "left st1 \<le> left st" using parse_string_left[of st key st1] 6 by simp
  moreover have "0 < left st2" "left st2 \<le> left st1" "left st \<le> left st0"
    using 6 peek_left[of st2 58] left_skip_ws[of st1] left_skip_ws[of st0] by auto
  ultimately have "left (skip_ws (advance 1 st2)) < left st0"
    using left_skip_ws[of "advance 1 st2"] left_advance[of 1 st2] by linarith
  then show ?case by simp
next
  case (7 L depth entries st0 st x key st1 st2 y v st3 st4 b st5)
  have "left st1 \<le> left st" using parse_string_left[of st key st1] 7 by simp
  moreover have "left st3 \<le> left (skip_ws (advance 1 st2))" using parser_left(1)[of L depth "skip_ws (advance 1 st2)" v st3] 7 by simp
  moreover have "0 < left st4" "left st4 \<le> left st3" "left st2 \<le> left st1" "left st \<le> left st0" "left st5 \<le> left (advance 1 st4)"
    using 7 peek_left[of st4 b] left_skip_ws[of st3] left_skip_ws[of st1] left_skip_ws[of st0] left_skip_ws[of "advance 1 st4"] by auto
  ultimately have "left st5 < left st0"
    using left_skip_ws[of "advance 1 st2"] left_advance[of 1 st2] left_advance[of 1 st4] by linarith
  then show ?case by simp
qed

declare parse_value.simps [simp del] array_loop.simps [simp del] object_loop.simps [simp del]

definition parse :: "'f f64_lib \<Rightarrow> nat list \<Rightarrow> 'f json jresult" where
  "parse L input =
     and_then (parse_value L 0 (skip_ws (0, input))) (\<lambda>(v, st1).
       let st = skip_ws st1 in
       if snd st \<noteq> [] then err_at (fst st) TrailingCharacters else Inr v)"

subsection \<open>Writing\<close>

text \<open>The output is a string; the numbers are written by \<open>Display\<close>.\<close>

fun dec_digits :: "nat \<Rightarrow> nat list" where
  "dec_digits n = (if n < 10 then [48 + n] else dec_digits (n div 10) @ [48 + n mod 10])"

declare dec_digits.simps [simp del]

definition show_int :: "int \<Rightarrow> nat list" where
  "show_int i = (if i < 0 then 45 # dec_digits (nat (- i)) else dec_digits (nat i))"

text \<open>\<open>{:e}\<close> always has an \<open>e\<close> with a decimal exponent after it.\<close>

definition write_f64 :: "'f f64_lib \<Rightarrow> 'f \<Rightarrow> nat list" where
  "write_f64 L f =
     (if \<not> fl_finite L f then [110, 117, 108, 108]
      else
        let sci = fl_sci L f; e = tl (dropWhile (\<lambda>b. b \<noteq> 101) sci);
            ex = (if take 1 e = [45] then - int (dec_value (tl e)) else int (dec_value e)) in
        if -4 \<le> ex \<and> ex < 17 then
          (let fixed = fl_fixed L f in if 46 \<in> set fixed then fixed else fixed @ [46, 48])
        else sci)"

definition write_number :: "'f f64_lib \<Rightarrow> 'f json_number \<Rightarrow> nat list" where
  "write_number L n = (case n of JInt i \<Rightarrow> show_int i | JUInt u \<Rightarrow> dec_digits u | JFloat f \<Rightarrow> write_f64 L f)"

text \<open>\<open>{:04x}\<close>\<close>

definition hex_char :: "nat \<Rightarrow> nat" where
  "hex_char d = (if d < 10 then 48 + d else 97 + (d - 10))"

definition hex4 :: "nat \<Rightarrow> nat list" where
  "hex4 c = [hex_char (c div 4096 mod 16), hex_char (c div 256 mod 16), hex_char (c div 16 mod 16), hex_char (c mod 16)]"

definition escape_char :: "nat \<Rightarrow> nat list" where
  "escape_char c =
     (if c = 34 then [92, 34] else if c = 92 then [92, 92] else if c = 8 then [92, 98] else if c = 12 then [92, 102]
      else if c = 10 then [92, 110] else if c = 13 then [92, 114] else if c = 9 then [92, 116]
      else if c < 32 then 92 # 117 # hex4 c else [c])"

definition write_escaped_str :: "nat list \<Rightarrow> nat list" where
  "write_escaped_str s = 34 # concat (map escape_char s) @ [34]"

text \<open>The items of an array or object, with a comma before all but the first.\<close>

fun commas :: "nat list list \<Rightarrow> nat list" where
  "commas [] = []"
| "commas [x] = x"
| "commas (x # y # ys) = x @ 44 # commas (y # ys)"

fun write_compact :: "'f f64_lib \<Rightarrow> 'f json \<Rightarrow> nat list" where
  "write_compact L JNull = [110, 117, 108, 108]"
| "write_compact L (JBool True) = [116, 114, 117, 101]"
| "write_compact L (JBool False) = [102, 97, 108, 115, 101]"
| "write_compact L (JNumber n) = write_number L n"
| "write_compact L (JString s) = write_escaped_str s"
| "write_compact L (JArray items) = 91 # commas (map (write_compact L) items) @ [93]"
| "write_compact L (JObject entries) = 123 # commas (map (\<lambda>(k, v). write_escaped_str k @ 58 # write_compact L v) entries) @ [125]"

definition write_indent :: "nat list \<Rightarrow> nat \<Rightarrow> nat list" where
  "write_indent indent level = concat (replicate level indent)"

fun write_pretty_inner :: "'f f64_lib \<Rightarrow> nat list \<Rightarrow> nat \<Rightarrow> 'f json \<Rightarrow> nat list" where
  "write_pretty_inner L indent level (JArray (x # xs)) =
     91 # commas (map (\<lambda>item. 10 # write_indent indent (level + 1) @ write_pretty_inner L indent (level + 1) item) (x # xs))
       @ 10 # write_indent indent level @ [93]"
| "write_pretty_inner L indent level (JObject (x # xs)) =
     123 # commas (map (\<lambda>(k, v). 10 # write_indent indent (level + 1) @ write_escaped_str k @ [58, 32]
         @ write_pretty_inner L indent (level + 1) v) (x # xs))
       @ 10 # write_indent indent level @ [125]"
| "write_pretty_inner L indent level v = write_compact L v"

definition to_string :: "'f f64_lib \<Rightarrow> 'f json \<Rightarrow> nat list" where
  "to_string L v = write_compact L v"

definition to_string_pretty_with_indent :: "'f f64_lib \<Rightarrow> nat list \<Rightarrow> 'f json \<Rightarrow> nat list" where
  "to_string_pretty_with_indent L indent v = write_pretty_inner L indent 0 v"

definition to_string_pretty :: "'f f64_lib \<Rightarrow> 'f json \<Rightarrow> nat list" where
  "to_string_pretty L v = to_string_pretty_with_indent L [32, 32] v"

definition parse_str :: "'f f64_lib \<Rightarrow> nat list \<Rightarrow> 'f json jresult" where
  "parse_str L input = parse L (utf8_encode input)"

end
