(* ===== verification/Json_Grammar.thy ===== *)
theory Json_Grammar
  imports Json
begin

text \<open>
  RFC 8259 as an inductive relation between texts and values, and that the parser of \<open>Json\<close> decides it: every text
  of the grammar parses to its value (\<open>parse_complete\<close>) and every accepted text is one (\<open>parse_sound\<close>).
\<close>

subsection \<open>The grammar\<close>

definition ws :: "nat list \<Rightarrow> bool" where "ws w \<longleftrightarrow> (\<forall>b\<in>set w. is_ws b)"

definition digits_text :: "nat list \<Rightarrow> bool" where
  "digits_text ds \<longleftrightarrow> ds \<noteq> [] \<and> (\<forall>b\<in>set ds. digit b)"

definition int_text :: "nat list \<Rightarrow> bool" where
  "int_text t \<longleftrightarrow> (\<exists>sign ds. t = sign @ ds \<and> (sign = [] \<or> sign = [45]) \<and> (ds = [48] \<or> digits_text ds \<and> hd ds \<noteq> 48))"

definition frac_text :: "nat list \<Rightarrow> bool" where
  "frac_text t \<longleftrightarrow> t = [] \<or> (\<exists>ds. t = 46 # ds \<and> digits_text ds)"

definition exp_text :: "nat list \<Rightarrow> bool" where
  "exp_text t \<longleftrightarrow> t = [] \<or> (\<exists>e sign ds. t = e # sign @ ds \<and> (e = 101 \<or> e = 69) \<and> (sign = [] \<or> sign = [43] \<or> sign = [45]) \<and> digits_text ds)"

definition number_text :: "nat list \<Rightarrow> bool \<Rightarrow> bool" where
  "number_text t is_float \<longleftrightarrow>
     (\<exists>i fr ex. t = i @ fr @ ex \<and> int_text i \<and> frac_text fr \<and> exp_text ex \<and> is_float = (fr \<noteq> [] \<or> ex \<noteq> []))"

definition hex_text :: "nat list \<Rightarrow> nat \<Rightarrow> bool" where
  "hex_text h cp \<longleftrightarrow> length h = 4 \<and> hex_value 0 h = Some cp"

text \<open>The characters of a string; an unpaired surrogate stands for the replacement character.\<close>

inductive string_text :: "nat list \<Rightarrow> nat list \<Rightarrow> bool" where
  st_nil: "string_text [] []"
| st_char: "scalar c \<Longrightarrow> 32 \<le> c \<Longrightarrow> c \<noteq> 34 \<Longrightarrow> c \<noteq> 92 \<Longrightarrow> string_text t s \<Longrightarrow> string_text (utf8_char c @ t) (c # s)"
| st_escape: "simple_escape e = Some c \<Longrightarrow> string_text t s \<Longrightarrow> string_text (92 # e # t) (c # s)"
| st_unicode: "hex_text h cp \<Longrightarrow> \<not> high_surrogate cp \<Longrightarrow> \<not> low_surrogate cp \<Longrightarrow> string_text t s
    \<Longrightarrow> string_text (92 # 117 # h @ t) (cp # s)"
| st_pair: "hex_text h cp \<Longrightarrow> high_surrogate cp \<Longrightarrow> hex_text h2 low \<Longrightarrow> low_surrogate low \<Longrightarrow> string_text t s
    \<Longrightarrow> string_text (92 # 117 # h @ 92 # 117 # h2 @ t) ((0x10000 + (cp - 0xD800) * 1024 + (low - 0xDC00)) # s)"
| st_low: "hex_text h cp \<Longrightarrow> low_surrogate cp \<Longrightarrow> string_text t s \<Longrightarrow> string_text (92 # 117 # h @ t) (0xFFFD # s)"
| st_high: "hex_text h cp \<Longrightarrow> high_surrogate cp \<Longrightarrow> string_text t s
    \<Longrightarrow> (\<And>h2 low t'. t = 92 # 117 # h2 @ t' \<Longrightarrow> hex_text h2 low \<Longrightarrow> \<not> low_surrogate low)
    \<Longrightarrow> string_text (92 # 117 # h @ t) (0xFFFD # s)"

text \<open>Values, with the number of further arrays and objects that may be opened.\<close>

inductive json_text :: "'f f64_lib \<Rightarrow> nat \<Rightarrow> nat list \<Rightarrow> 'f json \<Rightarrow> bool"
  and items_text :: "'f f64_lib \<Rightarrow> nat \<Rightarrow> nat list \<Rightarrow> 'f json list \<Rightarrow> bool"
  and members_text :: "'f f64_lib \<Rightarrow> nat \<Rightarrow> nat list \<Rightarrow> (nat list \<times> 'f json) list \<Rightarrow> bool"
  for L where
  jt_null: "json_text L n [110, 117, 108, 108] JNull"
| jt_true: "json_text L n [116, 114, 117, 101] (JBool True)"
| jt_false: "json_text L n [102, 97, 108, 115, 101] (JBool False)"
| jt_number: "number_text t is_float \<Longrightarrow> number_of_token L is_float t = Some num \<Longrightarrow> json_text L n t (JNumber num)"
| jt_string: "string_text t s \<Longrightarrow> json_text L n (34 # t @ [34]) (JString s)"
| jt_array_nil: "ws w \<Longrightarrow> json_text L (Suc n) (91 # w @ [93]) (JArray [])"
| jt_array: "items_text L n t vs \<Longrightarrow> json_text L (Suc n) (91 # t @ [93]) (JArray vs)"
| jt_object_nil: "ws w \<Longrightarrow> json_text L (Suc n) (123 # w @ [125]) (JObject [])"
| jt_object: "members_text L n t kvs \<Longrightarrow> json_text L (Suc n) (123 # t @ [125]) (JObject kvs)"
| it_one: "ws w1 \<Longrightarrow> json_text L n t v \<Longrightarrow> ws w2 \<Longrightarrow> items_text L n (w1 @ t @ w2) [v]"
| it_more: "ws w1 \<Longrightarrow> json_text L n t v \<Longrightarrow> ws w2 \<Longrightarrow> items_text L n e vs \<Longrightarrow> items_text L n (w1 @ t @ w2 @ 44 # e) (v # vs)"
| mt_one: "ws w1 \<Longrightarrow> string_text kt k \<Longrightarrow> ws w2 \<Longrightarrow> ws w3 \<Longrightarrow> json_text L n t v \<Longrightarrow> ws w4
    \<Longrightarrow> members_text L n (w1 @ 34 # kt @ 34 # w2 @ 58 # w3 @ t @ w4) [(k, v)]"
| mt_more: "ws w1 \<Longrightarrow> string_text kt k \<Longrightarrow> ws w2 \<Longrightarrow> ws w3 \<Longrightarrow> json_text L n t v \<Longrightarrow> ws w4 \<Longrightarrow> members_text L n e kvs
    \<Longrightarrow> members_text L n (w1 @ 34 # kt @ 34 # w2 @ 58 # w3 @ t @ w4 @ 44 # e) ((k, v) # kvs)"

definition json_document :: "'f f64_lib \<Rightarrow> nat list \<Rightarrow> 'f json \<Rightarrow> bool" where
  "json_document L input v \<longleftrightarrow> (\<exists>w1 t w2. input = w1 @ t @ w2 \<and> ws w1 \<and> json_text L MAX_DEPTH t v \<and> ws w2)"

subsection \<open>Scanning a text of the grammar\<close>

text \<open>What may follow a run of bytes of one kind.\<close>

definition stops :: "(nat \<Rightarrow> bool) \<Rightarrow> nat list \<Rightarrow> bool" where
  "stops p r \<longleftrightarrow> (case r of [] \<Rightarrow> True | b # _ \<Rightarrow> \<not> p b)"

lemma stops_simps [simp]: "stops p []" "stops p (b # r) \<longleftrightarrow> \<not> p b"
  by (simp_all add: stops_def)

lemma stops_takeWhile [simp]: "stops p r \<Longrightarrow> takeWhile p r = []"
  by (cases r) simp_all

lemma stops_dropWhile [simp]: "stops p (dropWhile p r)"
  by (induction r) simp_all

lemma takeWhile_stops: "\<forall>b\<in>set w. p b \<Longrightarrow> stops p r \<Longrightarrow> takeWhile p (w @ r) = w"
  by (cases r) (simp_all add: takeWhile_append)

lemma skip_while_run: "\<forall>b\<in>set w. p b \<Longrightarrow> stops p r \<Longrightarrow> skip_while p (pos, w @ r) = (pos + length w, r)"
  by (simp add: skip_while_def takeWhile_stops)

lemma skip_ws_run: "ws w \<Longrightarrow> stops is_ws r \<Longrightarrow> skip_ws (pos, w @ r) = (pos + length w, r)"
  by (simp add: ws_def skip_ws_def skip_while_run)

lemma skip_ws_none: "stops is_ws r \<Longrightarrow> skip_ws (pos, r) = (pos, r)"
  using skip_ws_run[of "[]" r pos] by (simp add: ws_def)

lemma skip_ws_idem [simp]: "skip_ws (skip_ws st) = skip_ws st"
proof -
  obtain pos r where st: "st = (pos, r)" by (cases st)
  have "skip_ws st = (pos + length (takeWhile is_ws r), dropWhile is_ws r)"
    by (simp add: st skip_ws_def skip_while_def dropWhile_eq_drop)
  then show ?thesis by (simp add: skip_ws_none)
qed

lemma parse_value_skip: "parse_value L d (skip_ws st) = parse_value L d st"
  by (simp add: parse_value.simps)

lemma array_loop_skip: "array_loop L d xs (skip_ws st) = array_loop L d xs st"
  by (simp add: array_loop.simps)

lemma object_loop_skip: "object_loop L d xs (skip_ws st) = object_loop L d xs st"
  by (simp add: object_loop.simps)

lemma peek_Cons [simp]: "peek (pos, b # r) = Some b" by simp

subsection \<open>Strings\<close>

lemma plain_char: "32 \<le> c \<Longrightarrow> c \<noteq> 34 \<Longrightarrow> c \<noteq> 92 \<Longrightarrow> b \<in> set (utf8_char c) \<Longrightarrow> plain_byte b"
  using utf8_char_high[of c b] by (cases "c < 0x80") (auto simp: utf8_char_ascii plain_byte_def)

lemma string_loop_char:
  assumes c: "scalar c" "32 \<le> c" "c \<noteq> 34" "c \<noteq> 92"
    and run: "string_loop start (out @ [c]) (pos + length (utf8_char c), r) = Inr x"
  shows "string_loop start out (pos, utf8_char c @ r) = Inr x"
proof -
  have tw: "takeWhile plain_byte (utf8_char c @ r) = utf8_char c @ takeWhile plain_byte r"
    using plain_char[OF c(2-4)] by simp
  obtain s where s: "utf8_decode (takeWhile plain_byte r) = Some s"
    using run by (subst (asm) string_loop.simps) (auto simp: checked_simps string_run_def err_at_def split: option.splits)
  have "skip_while plain_byte (pos, utf8_char c @ r) = skip_while plain_byte (pos + length (utf8_char c), r)"
    by (simp add: skip_while_def tw)
  with s have "string_run (pos, utf8_char c @ r) = Inr (c # s, skip_while plain_byte (pos + length (utf8_char c), r))"
    "string_run (pos + length (utf8_char c), r) = Inr (s, skip_while plain_byte (pos + length (utf8_char c), r))"
    by (simp_all add: string_run_def tw utf8_decode_char[OF c(1)])
  moreover obtain b r' where "snd (skip_while plain_byte (pos + length (utf8_char c), r)) = b # r'"
    using run calculation by (subst (asm) string_loop.simps) (auto simp: err_at_def split: list.splits)
  ultimately show ?thesis using run by (subst string_loop.simps) (subst (asm) string_loop.simps, auto simp: err_at_def split: if_splits)
qed

lemma string_run_none: "\<not> plain_byte b \<Longrightarrow> string_run (pos, b # r) = Inr ([], (pos, b # r))"
  by (simp add: string_run_def skip_while_def utf8_decode.simps)

lemma string_loop_escape:
  assumes "parse_escape start pos (pos + 1, r) = Inr (c, st)"
  shows "string_loop start out (pos, 92 # r) = string_loop start (out @ [c]) st"
  using assms by (subst string_loop.simps) (simp add: string_run_none plain_byte_def)

lemma parse_hex4_text: "hex_text h cp \<Longrightarrow> parse_hex4 e (pos, h @ r) = Inr (cp, (pos + 4, r))"
  by (simp add: hex_text_def parse_hex4_def)

lemma utf8_char_backslash: "utf8_char c @ t = 92 # r \<Longrightarrow> c = 92"
  by (cases "c < 0x80") (auto simp: utf8_char_ascii, auto simp: utf8_char_def split: if_splits)

lemma string_text_u: "string_text (92 # 117 # r) s \<Longrightarrow> \<exists>h cp t. r = h @ t \<and> hex_text h cp"
  by (erule string_text.cases) (auto simp: simple_escape_def dest: utf8_char_backslash[OF sym])

lemma string_text_first: "string_text t s \<Longrightarrow> t = [] \<or> (\<exists>b r. t = b # r \<and> (b = 92 \<longrightarrow> r \<noteq> []))"
proof (erule string_text.cases, goal_cases)
  case (2 c ta sa)
  then obtain b r where "utf8_char c = b # r" by (cases "utf8_char c") simp_all
  then show ?case using 2 utf8_char_backslash[of c ta "r @ ta"] by auto
qed auto

text \<open>The parser reads every string of the grammar.\<close>

lemma simple_escape_not_u: "simple_escape e = Some c \<Longrightarrow> e \<noteq> 117"
  by (auto simp: simple_escape_def split: if_splits)

lemma pair_scalar: "high_surrogate cp \<Longrightarrow> low_surrogate low \<Longrightarrow> scalar (0x10000 + (cp - 0xD800) * 1024 + (low - 0xDC00))"
proof -
  assume "high_surrogate cp" "low_surrogate low"
  then have "cp - 0xD800 \<le> 1023" "low - 0xDC00 \<le> 1023" unfolding high_surrogate_def low_surrogate_def by linarith+
  then have "0x10000 + (cp - 0xD800) * 1024 + (low - 0xDC00) \<le> 0x10FFFF" by linarith
  then show ?thesis by (simp add: scalar_def)
qed

lemma hex_value_bound: "hex_value acc h = Some cp \<Longrightarrow> cp < (acc + 1) * 16 ^ length h"
proof (induction acc h rule: hex_value.induct)
  case (2 acc b bs)
  then obtain d where d: "hex_digit b = Some d" "hex_value (acc * 16 + d) bs = Some cp" by (auto split: option.splits)
  have "d < 16" using d(1) by (auto simp: hex_digit_def split: if_splits)
  then have "acc * 16 + d + 1 \<le> (acc + 1) * 16" by simp
  then have "(acc * 16 + d + 1) * 16 ^ length bs \<le> (acc + 1) * 16 * 16 ^ length bs" by (rule mult_le_mono1)
  then have "cp < (acc + 1) * 16 * 16 ^ length bs" using 2(1)[OF d] by (rule less_le_trans[rotated])
  then show ?case by (simp add: algebra_simps)
qed simp

lemma hex_text_scalar: "hex_text h cp \<Longrightarrow> \<not> high_surrogate cp \<Longrightarrow> \<not> low_surrogate cp \<Longrightarrow> scalar cp"
  using hex_value_bound[of 0 h cp] by (auto simp: hex_text_def scalar_def high_surrogate_def low_surrogate_def)

lemma string_complete:
  assumes "string_text t s"
  shows "string_loop start out (pos, t @ 34 # r) = Inr (out @ s, (pos + length t + 1, r))"
  using assms
proof (induction arbitrary: out pos)
  case st_nil
  then show ?case by (subst string_loop.simps) (simp add: string_run_none plain_byte_def)
next
  case (st_char c t s)
  then show ?case using string_loop_char[OF st_char(1-4), of start out pos "t @ 34 # r"] by (simp add: add.assoc)
next
  case (st_escape e c t s)
  have "parse_escape start pos (pos + 1, e # t @ 34 # r) = Inr (c, (pos + 2, t @ 34 # r))"
    using st_escape(1) by (simp add: parse_escape_def)
  from string_loop_escape[OF this, of out] st_escape(3) show ?case by simp
next
  case (st_unicode h cp t s)
  have "parse_hex4 pos (pos + 2, h @ t @ 34 # r) = Inr (cp, (pos + 6, t @ 34 # r))"
    using parse_hex4_text[OF st_unicode(1), of pos "pos + 2" "t @ 34 # r"] by simp
  then have "parse_escape start pos (pos + 1, 117 # h @ t @ 34 # r) = Inr (cp, (pos + 6, t @ 34 # r))"
    using st_unicode(2,3) hex_text_scalar[OF st_unicode(1-3)]
    by (simp add: parse_escape_def simple_escape_def parse_unicode_escape_def or_replacement_def)
  from string_loop_escape[OF this, of out] st_unicode show ?case by (simp add: hex_text_def)
next
  case (st_pair h cp h2 low t s)
  let ?c = "0x10000 + (cp - 0xD800) * 1024 + (low - 0xDC00)"
  have "parse_hex4 pos (pos + 2, h @ 92 # 117 # h2 @ t @ 34 # r) = Inr (cp, (pos + 6, 92 # 117 # h2 @ t @ 34 # r))"
    "parse_hex4 (pos + 6) (8 + pos, h2 @ t @ 34 # r) = Inr (low, (pos + 12, t @ 34 # r))"
    using parse_hex4_text[OF st_pair(1), of pos "pos + 2"] parse_hex4_text[OF st_pair(3), of "pos + 6" "8 + pos"] by simp_all
  then have "parse_escape start pos (pos + 1, 117 # h @ 92 # 117 # h2 @ t @ 34 # r) = Inr (?c, (pos + 12, t @ 34 # r))"
    using st_pair(2,4) pair_scalar[OF st_pair(2,4)]
    by (simp add: parse_escape_def simple_escape_def parse_unicode_escape_def or_replacement_def)
  from string_loop_escape[OF this, of out] st_pair show ?case by (simp add: hex_text_def)
next
  case (st_low h cp t s)
  have "parse_hex4 pos (pos + 2, h @ t @ 34 # r) = Inr (cp, (pos + 6, t @ 34 # r))"
    using parse_hex4_text[OF st_low(1), of pos "pos + 2" "t @ 34 # r"] by simp
  then have "parse_escape start pos (pos + 1, 117 # h @ t @ 34 # r) = Inr (0xFFFD, (pos + 6, t @ 34 # r))"
    using st_low(2) by (auto simp: parse_escape_def simple_escape_def parse_unicode_escape_def high_surrogate_def low_surrogate_def)
  from string_loop_escape[OF this, of out] st_low show ?case by (simp add: hex_text_def)
next
  case (st_high h cp t s)
  have h4: "parse_hex4 pos (pos + 2, h @ t @ 34 # r) = Inr (cp, (pos + 6, t @ 34 # r))"
    using parse_hex4_text[OF st_high(1), of pos "pos + 2" "t @ 34 # r"] by simp
  have "parse_escape start pos (pos + 1, 117 # h @ t @ 34 # r) = Inr (0xFFFD, (pos + 6, t @ 34 # r))"
  proof (cases "take 2 (t @ 34 # r) = [92, 117]")
    case True
    then obtain t' where t: "t = 92 # 117 # t'"
      using string_text_first[OF st_high(3)] by (cases t; cases "tl t") auto
    with string_text_u st_high(3) obtain h2 low t2 where h2: "t' = h2 @ t2" "hex_text h2 low" by blast
    have "parse_hex4 (pos + 6) (8 + pos, h2 @ t2 @ 34 # r) = Inr (low, (pos + 12, t2 @ 34 # r))"
      using parse_hex4_text[OF h2(2), of "pos + 6" "8 + pos"] by simp
    then show ?thesis using h4 t h2 st_high(2,4)
      by (simp add: parse_escape_def simple_escape_def parse_unicode_escape_def)
  next
    case False
    then show ?thesis using h4 st_high(2) by (simp add: parse_escape_def simple_escape_def parse_unicode_escape_def)
  qed
  from string_loop_escape[OF this, of out] st_high show ?case by (simp add: hex_text_def)
qed

lemma parse_string_complete:
  "string_text t s \<Longrightarrow> parse_string (pos, 34 # t @ 34 # r) = Inr (s, (pos + length t + 2, r))"
  using string_complete[of t s pos "[]" "pos + 1" r] by (simp add: parse_string_def)

subsection \<open>Numbers\<close>

definition in_number :: "nat \<Rightarrow> bool" where
  "in_number b \<longleftrightarrow> digit b \<or> b = 46 \<or> b = 101 \<or> b = 69"

lemma digit_not [simp]: "\<not> digit 45" "\<not> digit 46" "\<not> digit 101" "\<not> digit 69" "\<not> digit 43" "digit 48"
  by (simp_all add: digit_def)

lemma stops_mono: "stops p r \<Longrightarrow> (\<And>b. q b \<Longrightarrow> p b) \<Longrightarrow> stops q r"
  by (cases r) auto

lemma peek_in_number: "stops in_number r \<Longrightarrow> peek (pos, r) \<noteq> Some 46 \<and> peek (pos, r) \<noteq> Some 101 \<and> peek (pos, r) \<noteq> Some 69"
  by (cases r) (auto simp: in_number_def)

lemma some_digits_run: "digits_text ds \<Longrightarrow> stops digit r \<Longrightarrow> some_digits (pos, ds @ r) = Some (pos + length ds, r)"
proof (cases ds)
  case (Cons d ds')
  assume "digits_text ds" "stops digit r"
  then show ?thesis using Cons skip_while_run[of ds' digit r "pos + 1"] by (simp add: digits_text_def some_digits_def)
qed (simp add: digits_text_def)

lemma int_part_complete: "int_text t \<Longrightarrow> stops digit r \<Longrightarrow> int_part (pos, t @ r) = Some (pos + length t, r)"
proof -
  assume "int_text t" and r: "stops digit r"
  then obtain sign ds where t: "t = sign @ ds" "sign = [] \<or> sign = [45]" and ds: "ds = [48] \<or> digits_text ds \<and> hd ds \<noteq> 48"
    by (auto simp: int_text_def)
  have unsigned: "(if peek (p, ds @ r) = Some 48 then Some (advance 1 (p, ds @ r)) else some_digits (p, ds @ r)) = Some (p + length ds, r)"
    and ne: "peek (p, ds @ r) \<noteq> Some 45" for p
    using ds some_digits_run[OF _ r, of ds p] by (cases ds; auto simp: digits_text_def)+
  then show ?thesis using t(2) by (auto simp: t(1) int_part_def)
qed

lemma frac_part_complete: "frac_text t \<Longrightarrow> stops digit r \<Longrightarrow> peek (pos, r) \<noteq> Some 46 \<Longrightarrow> frac_part (pos, t @ r) = Some (t \<noteq> [], (pos + length t, r))"
  using some_digits_run[of _ r "pos + 1"] by (auto simp: frac_text_def frac_part_def)

lemma exp_part_complete:
  assumes "exp_text t" "stops in_number r" shows "exp_part (pos, t @ r) = Some (t \<noteq> [], (pos + length t, r))"
proof (cases "t = []")
  case True
  then show ?thesis using peek_in_number[OF assms(2), of pos] by (simp add: exp_part_def)
next
  case False
  then obtain e sign ds where t: "t = e # sign @ ds" "e = 101 \<or> e = 69" "sign = [] \<or> sign = [43] \<or> sign = [45]" "digits_text ds"
    using assms(1) by (auto simp: exp_text_def)
  have "stops digit r" using stops_mono[OF assms(2)] by (simp add: in_number_def)
  from some_digits_run[OF t(4) this] have d: "some_digits (p, ds @ r) = Some (p + length ds, r)" for p .
  have "peek (p, ds @ r) \<noteq> Some 43 \<and> peek (p, ds @ r) \<noteq> Some 45" for p using t(4) by (cases ds) (auto simp: digits_text_def)
  then show ?thesis using t(2,3) d by (auto simp: t(1) exp_part_def Let_def)
qed

lemma exp_text_starts: "exp_text t \<Longrightarrow> t \<noteq> [] \<Longrightarrow> \<exists>e u. t = e # u \<and> (e = 101 \<or> e = 69)"
  by (auto simp: exp_text_def)

lemma number_complete:
  assumes t: "number_text t fl" and n: "number_of_token L fl t = Some n" and r: "stops in_number r"
  shows "parse_number L (pos, t @ r) = Inr (n, (pos + length t, r))"
proof -
  obtain i fr ex where p: "t = i @ fr @ ex" "int_text i" "frac_text fr" "exp_text ex" "fl = (fr \<noteq> [] \<or> ex \<noteq> [])"
    using t by (auto simp: number_text_def)
  have rd: "stops digit r" using stops_mono[OF r] by (simp add: in_number_def)
  have e: "stops digit (ex @ r)" "peek (q, ex @ r) \<noteq> Some 46" for q
    using rd peek_in_number[OF r, of q] exp_text_starts[OF p(4)] by (cases "ex = []"; auto)+
  have f: "stops digit (fr @ ex @ r)"
    using e p(3) by (cases "fr = []") (auto simp: frac_text_def)
  have "int_part (pos, t @ r) = Some (pos + length i, fr @ ex @ r)"
    using int_part_complete[OF p(2) f, of pos] by (simp add: p(1))
  moreover have "frac_part (pos + length i, fr @ ex @ r) = Some (fr \<noteq> [], (pos + length i + length fr, ex @ r))"
    by (rule frac_part_complete[OF p(3) e])
  moreover have "exp_part (pos + length i + length fr, ex @ r) = Some (ex \<noteq> [], (pos + length i + length fr + length ex, r))"
    by (rule exp_part_complete[OF p(4) r])
  moreover have "pos + length i + length fr + length ex - pos = length t" by (simp add: p(1))
  ultimately show ?thesis using n p(5) by (simp add: parse_number_def p(1))
qed

subsection \<open>Values\<close>

lemma json_text_first: "json_text L n t v \<Longrightarrow> \<exists>b u. t = b # u \<and> \<not> is_ws b \<and> b \<noteq> 93 \<and> b \<noteq> 125 \<and> b \<noteq> 44"
proof (erule json_text.cases, goal_cases)
  case (4 t fl num n)
  then show ?case
    by (auto simp: number_text_def int_text_def is_ws_def digits_text_def digit_def neq_Nil_conv)
qed (simp_all add: is_ws_def)

lemma parse_lit_text: "parse_lit lit v start (pos, lit @ r) = Inr (v, (pos + length lit, r))"
  by (induction lit arbitrary: pos) simp_all

lemma stops_ws_text: "json_text L n t v \<Longrightarrow> stops is_ws (t @ r)"
  using json_text_first by fastforce

lemma ws_stops: "ws w \<Longrightarrow> stops in_number (b # r) \<Longrightarrow> stops in_number (w @ b # r)"
  by (cases w) (auto simp: ws_def is_ws_def in_number_def digit_def)

lemma stop_bytes [simp]: "\<not> in_number 93" "\<not> in_number 125" "\<not> in_number 44" "\<not> is_ws 93" "\<not> is_ws 125" "\<not> is_ws 44" "\<not> is_ws 34" "\<not> is_ws 58"
  "\<not> is_ws 91" "\<not> is_ws 123"
  by (simp_all add: in_number_def digit_def is_ws_def)

lemma items_text_first: "items_text L n t vs \<Longrightarrow> \<exists>w b u. t = w @ b # u \<and> ws w \<and> \<not> is_ws b \<and> b \<noteq> 93"
proof (erule items_text.cases, goal_cases)
  case (1 w1 n t' v w2)
  then obtain b u where "t' = b # u" "\<not> is_ws b" "b \<noteq> 93" using json_text_first by blast
  with 1 show ?case by auto
next
  case (2 w1 n t' v w2 e vs)
  then obtain b u where "t' = b # u" "\<not> is_ws b" "b \<noteq> 93" using json_text_first by blast
  with 2 show ?case by auto
qed

lemma members_text_first: "members_text L n t kvs \<Longrightarrow> \<exists>w u. t = w @ 34 # u \<and> ws w"
  by (erule members_text.cases) auto

lemma array_step:
  assumes v: "parse_value L d (pos + length w1, t @ w2 @ b # r) = Inr (v, (pos + length w1 + length t, w2 @ b # r))"
    and ws: "ws w1" "ws w2" "stops is_ws (t @ w2 @ b # r)" "\<not> is_ws b"
  shows "array_loop L d acc (pos, w1 @ t @ w2 @ b # r) =
    (let st = (pos + length w1 + length t + length w2, b # r) in
     if b = 44 then (let st2 = skip_ws (advance 1 st) in
        if peek st2 = Some 93 then err_at (fst st2) TrailingComma else array_loop L d (acc @ [v]) st2)
     else if b = 93 then Inr (acc @ [v], advance 1 st) else err_at (fst st) (UnexpectedByte b))"
proof -
  have 1: "skip_ws (pos, w1 @ t @ w2 @ b # r) = (pos + length w1, t @ w2 @ b # r)" by (rule skip_ws_run[OF ws(1,3)])
  have 2: "skip_ws (p, w2 @ c # r) = (p + length w2, c # r)" if "\<not> is_ws c" for p c using skip_ws_run[OF ws(2), of "c # r" p] that by simp
  show ?thesis using ws(4) by (subst array_loop.simps) (simp add: 1 2 v Let_def)
qed

lemma object_step:
  assumes k: "string_text kt k"
    and v: "parse_value L d (pos + length w1 + length kt + 3 + length w2 + length w3, t @ w4 @ b # r)
      = Inr (v, (pos + length w1 + length kt + 3 + length w2 + length w3 + length t, w4 @ b # r))"
    and ws: "ws w1" "ws w2" "ws w3" "ws w4" "stops is_ws (t @ w4 @ b # r)" "\<not> is_ws b"
  shows "object_loop L d acc (pos, w1 @ 34 # kt @ 34 # w2 @ 58 # w3 @ t @ w4 @ b # r) =
    (let st = (pos + length w1 + length kt + 3 + length w2 + length w3 + length t + length w4, b # r) in
     if b = 44 then (let st2 = skip_ws (advance 1 st) in
        if peek st2 = Some 125 then err_at (fst st2) TrailingComma else object_loop L d (acc @ [(k, v)]) st2)
     else if b = 125 then Inr (acc @ [(k, v)], advance 1 st) else err_at (fst st) (UnexpectedByte b))"
proof -
  have 1: "skip_ws (pos, w1 @ 34 # kt @ 34 # w2 @ 58 # w3 @ t @ w4 @ b # r) = (pos + length w1, 34 # kt @ 34 # w2 @ 58 # w3 @ t @ w4 @ b # r)"
    by (rule skip_ws_run[OF ws(1)]) simp
  have 2: "parse_string (pos + length w1, 34 # kt @ 34 # w2 @ 58 # w3 @ t @ w4 @ b # r) = Inr (k, (pos + length w1 + length kt + 2, w2 @ 58 # w3 @ t @ w4 @ b # r))"
    by (rule parse_string_complete[OF k])
  have 3: "skip_ws (p, w2 @ 58 # w3 @ t @ w4 @ b # r) = (p + length w2, 58 # w3 @ t @ w4 @ b # r)" for p
    by (rule skip_ws_run[OF ws(2)]) simp
  have 4: "skip_ws (p, w3 @ t @ w4 @ b # r) = (p + length w3, t @ w4 @ b # r)" for p by (rule skip_ws_run[OF ws(3,5)])
  have 5: "skip_ws (p, w4 @ c # r) = (p + length w4, c # r)" if "\<not> is_ws c" for p c using skip_ws_run[OF ws(4), of "c # r" p] that by simp
  have e: "pos + length w1 + length kt + 2 + length w2 + 1 + length w3 = pos + length w1 + length kt + 3 + length w2 + length w3" by simp
  show ?thesis using v ws(6)
    by (subst object_loop.simps) (simp add: 1 2 3 4 5 e Let_def object_push_def numeral_3_eq_3 numeral_2_eq_2)
qed

lemma value_complete:
  fixes L :: "'f f64_lib"
  shows "json_text L n t v \<Longrightarrow> n + d = MAX_DEPTH \<Longrightarrow> stops in_number r \<Longrightarrow> parse_value L d (pos, t @ r) = Inr (v, (pos + length t, r))"
    and "items_text L n t vs \<Longrightarrow> n + d = MAX_DEPTH \<Longrightarrow> array_loop L d acc (pos, t @ 93 # r) = Inr (acc @ vs, (pos + length t + 1, r))"
    and "members_text L n t kvs \<Longrightarrow> n + d = MAX_DEPTH
      \<Longrightarrow> object_loop L d oacc (pos, t @ 125 # r) = Inr (oacc @ kvs, (pos + length t + 1, r))"
proof (induct arbitrary: d r pos and d r pos acc and d r pos oacc rule: json_text_items_text_members_text.inducts)
  case (jt_null n)
  then show ?case using parse_lit_text[of "[110, 117, 108, 108]" JNull pos pos r]
    by (subst parse_value.simps) (simp add: skip_ws_none is_ws_def)
next
  case (jt_true n)
  then show ?case using parse_lit_text[of "[116, 114, 117, 101]" "JBool True" pos pos r]
    by (subst parse_value.simps) (simp add: skip_ws_none is_ws_def)
next
  case (jt_false n)
  then show ?case using parse_lit_text[of "[102, 97, 108, 115, 101]" "JBool False" pos pos r]
    by (subst parse_value.simps) (simp add: skip_ws_none is_ws_def)
next
  case (jt_number t fl num n)
  obtain b u where t: "t = b # u" "b = 45 \<or> digit b" "\<not> is_ws b"
    using jt_number(1) by (auto simp: number_text_def int_text_def digits_text_def neq_Nil_conv is_ws_def digit_def)
  have "b \<noteq> 34 \<and> b \<noteq> 123 \<and> b \<noteq> 91 \<and> b \<noteq> 116 \<and> b \<noteq> 102 \<and> b \<noteq> 110" using t(2) by (auto simp: digit_def)
  then show ?case using number_complete[OF jt_number(1) jt_number(2) jt_number(4), of pos] t
    by (subst parse_value.simps) (simp add: skip_ws_none)
next
  case (jt_string t s n)
  then show ?case using parse_string_complete[OF jt_string(1), of pos r]
    by (subst parse_value.simps) (simp add: skip_ws_none)
next
  case (jt_array_nil w n)
  have "skip_ws (Suc pos, w @ 93 # r) = (Suc pos + length w, 93 # r)" by (rule skip_ws_run[OF jt_array_nil(1)]) simp
  then show ?case using jt_array_nil(2) by (subst parse_value.simps) (simp add: skip_ws_none Let_def)
next
  case (jt_object_nil w n)
  have "skip_ws (Suc pos, w @ 125 # r) = (Suc pos + length w, 125 # r)" by (rule skip_ws_run[OF jt_object_nil(1)]) simp
  then show ?case using jt_object_nil(2) by (subst parse_value.simps) (simp add: skip_ws_none Let_def)
next
  case (jt_array n t vs)
  obtain w b u where t: "t = w @ b # u" "ws w" "\<not> is_ws b" "b \<noteq> 93" using items_text_first[OF jt_array(1)] by blast
  have p: "peek (skip_ws (Suc pos, t @ 93 # r)) \<noteq> Some 93"
    using skip_ws_run[OF t(2), of "b # u @ 93 # r" "Suc pos"] t by simp
  show ?case using jt_array(2)[of "Suc d" "[]" "Suc pos" r] jt_array(3) p
    by (subst parse_value.simps) (simp add: skip_ws_none Let_def array_loop_skip)
next
  case (jt_object n t kvs)
  obtain w u where t: "t = w @ 34 # u" "ws w" using members_text_first[OF jt_object(1)] by blast
  have p: "peek (skip_ws (Suc pos, t @ 125 # r)) \<noteq> Some 125"
    using skip_ws_run[OF t(2), of "34 # u @ 125 # r" "Suc pos"] t by simp
  show ?case using jt_object(2)[of "Suc d" "[]" "Suc pos" r] jt_object(3) p
    by (subst parse_value.simps) (simp add: skip_ws_none Let_def object_loop_skip)
next
  case (it_one w1 n t v w2)
  have "stops in_number (w2 @ 93 # r)" by (rule ws_stops[OF it_one(4)]) simp
  note v = it_one(3)[OF it_one(5) this, of "pos + length w1"]
  show ?case using array_step[OF v it_one(1) it_one(4), of acc] stops_ws_text[OF it_one(2)] by (simp add: Let_def add.assoc)
next
  case (it_more w1 n t v w2 e vs)
  have "stops in_number (w2 @ 44 # e @ 93 # r)" by (rule ws_stops[OF it_more(4)]) simp
  note v = it_more(3)[OF it_more(7) this, of "pos + length w1"]
  let ?p = "pos + length w1 + length t + length w2 + 1"
  obtain w b u where e: "e = w @ b # u" "ws w" "\<not> is_ws b" "b \<noteq> 93" using items_text_first[OF it_more(5)] by blast
  have p: "peek (skip_ws (?p, e @ 93 # r)) \<noteq> Some 93" using skip_ws_run[OF e(2), of "b # u @ 93 # r" ?p] e by simp
  have "array_loop L d (acc @ [v]) (skip_ws (?p, e @ 93 # r)) = Inr ((acc @ [v]) @ vs, (?p + length e + 1, r))"
    unfolding array_loop_skip by (rule it_more(6)[OF it_more(7)])
  then show ?case using array_step[OF v it_more(1) it_more(4), of acc] stops_ws_text[OF it_more(2)] p by (simp add: Let_def add.assoc add.commute)
next
  case (mt_one w1 kt k w2 w3 n t v w4)
  have "stops in_number (w4 @ 125 # r)" by (rule ws_stops[OF mt_one(7)]) simp
  note v = mt_one(6)[OF mt_one(8) this, of "pos + length w1 + length kt + 3 + length w2 + length w3"]
  show ?case using object_step[OF mt_one(2) v mt_one(1) mt_one(3) mt_one(4) mt_one(7), of oacc] stops_ws_text[OF mt_one(5)]
    by (simp add: Let_def add.assoc numeral_3_eq_3)
next
  case (mt_more w1 kt k w2 w3 n t v w4 e kvs)
  have "stops in_number (w4 @ 44 # e @ 125 # r)" by (rule ws_stops[OF mt_more(7)]) simp
  note v = mt_more(6)[OF mt_more(10) this, of "pos + length w1 + length kt + 3 + length w2 + length w3"]
  let ?p = "pos + length w1 + length kt + 3 + length w2 + length w3 + length t + length w4 + 1"
  obtain w u where e: "e = w @ 34 # u" "ws w" using members_text_first[OF mt_more(8)] by blast
  have p: "peek (skip_ws (?p, e @ 125 # r)) \<noteq> Some 125" using skip_ws_run[OF e(2), of "34 # u @ 125 # r" ?p] e by simp
  have "object_loop L d (oacc @ [(k, v)]) (skip_ws (?p, e @ 125 # r)) = Inr ((oacc @ [(k, v)]) @ kvs, (?p + length e + 1, r))"
    unfolding object_loop_skip by (rule mt_more(9)[OF mt_more(10)])
  then show ?case using object_step[OF mt_more(2) v mt_more(1) mt_more(3) mt_more(4) mt_more(7), of oacc] stops_ws_text[OF mt_more(5)] p
    by (simp add: Let_def add.assoc add.commute numeral_3_eq_3)
qed

text \<open>Every text of the grammar parses to its value.\<close>

lemma parse_complete:
  assumes "json_document L input v" shows "parse L input = Inr v"
proof -
  obtain w1 t w2 where d: "input = w1 @ t @ w2" "ws w1" "json_text L MAX_DEPTH t v" "ws w2"
    using assms by (auto simp: json_document_def)
  have "stops in_number w2"
    using d(4) by (cases w2) (auto simp: ws_def is_ws_def in_number_def digit_def)
  then have v: "parse_value L 0 (length w1, t @ w2) = Inr (v, (length w1 + length t, w2))"
    using value_complete(1)[OF d(3), of 0 w2 "length w1"] by simp
  have "skip_ws (0, w1 @ t @ w2) = (length w1, t @ w2)"
    using skip_ws_run[OF d(2) stops_ws_text[OF d(3)], of 0] by simp
  moreover have "skip_ws (p, w2) = (p + length w2, [])" for p using skip_ws_run[OF d(4), of "[]" p] by simp
  ultimately show ?thesis using v by (simp add: parse_def d(1) Let_def)
qed

subsection \<open>What the writers print is a text of the grammar\<close>

text \<open>
  What the core library documents of \<open>f64\<close>: \<open>{:e}\<close> prints a mantissa and an exponent, \<open>Display\<close> digits with at most
  one point, and both round-trip through \<open>parse\<close>; \<open>.0\<close> after an integer does not change it.
\<close>

definition f64_laws :: "'f f64_lib \<Rightarrow> bool" where
  "f64_laws L \<longleftrightarrow> (\<forall>f. fl_finite L f \<longrightarrow>
     (\<exists>i fr ex. fl_sci L f = i @ fr @ ex \<and> int_text i \<and> frac_text fr \<and> exp_text ex \<and> ex \<noteq> [])
     \<and> (\<exists>i fr. fl_fixed L f = i @ fr \<and> int_text i \<and> frac_text fr)
     \<and> fl_parse L (fl_sci L f) = Some f \<and> fl_parse L (fl_fixed L f) = Some f
     \<and> (46 \<notin> set (fl_fixed L f) \<longrightarrow> fl_parse L (fl_fixed L f @ [46, 48]) = Some f))"

text \<open>
  The values that have a text: integers in range and finite floats, scalar values in strings, and at most \<open>n\<close>
  arrays and objects inside one another.
\<close>

fun json_ok :: "'f f64_lib \<Rightarrow> nat \<Rightarrow> 'f json \<Rightarrow> bool" where
  "json_ok L n (JNumber (JInt i)) \<longleftrightarrow> - (2 ^ 63) \<le> i \<and> i < 2 ^ 63"
| "json_ok L n (JNumber (JUInt u)) \<longleftrightarrow> 2 ^ 63 \<le> u \<and> u < 2 ^ 64"
| "json_ok L n (JNumber (JFloat f)) \<longleftrightarrow> fl_finite L f"
| "json_ok L n (JString s) \<longleftrightarrow> list_all scalar s"
| "json_ok L n (JArray vs) \<longleftrightarrow> (case n of 0 \<Rightarrow> False | Suc m \<Rightarrow> list_all (json_ok L m) vs)"
| "json_ok L n (JObject kvs) \<longleftrightarrow> (case n of 0 \<Rightarrow> False | Suc m \<Rightarrow> list_all (\<lambda>(k, v). list_all scalar k \<and> json_ok L m v) kvs)"
| "json_ok L n v \<longleftrightarrow> True"

lemma dec_digits_value: "dec_value (dec_digits n) = n"
proof (induction n rule: dec_digits.induct)
  case (1 n)
  then show ?case by (subst dec_digits.simps) (simp add: dec_value_def)
qed

lemma dec_digits_text: "digits_text (dec_digits n)" "hd (dec_digits n) = 48 \<Longrightarrow> n = 0"
proof (induction n rule: dec_digits.induct)
  case (1 n)
  { case 1
    show ?case using "1.IH"(1) by (subst dec_digits.simps) (auto simp: digits_text_def digit_def)
  next
    case 2
    have "dec_digits (n div 10) \<noteq> []" if "\<not> n < 10" using "1.IH"(1)[OF that] by (simp add: digits_text_def)
    then show ?case using 2 "1.IH"(2) by (subst (asm) dec_digits.simps) (auto split: if_splits)
  }
qed

lemma dec_digits_int_text: "int_text (dec_digits n)" "int_text (45 # dec_digits n)"
proof -
  have d: "dec_digits n = [48] \<or> digits_text (dec_digits n) \<and> hd (dec_digits n) \<noteq> 48"
    using dec_digits_text[of n] dec_digits.simps[of 0] by (cases "n = 0") auto
  then show "int_text (dec_digits n)"
    unfolding int_text_def by (intro exI[of _ "[]"] exI[of _ "dec_digits n"]) simp
  show "int_text (45 # dec_digits n)"
    unfolding int_text_def using d by (intro exI[of _ "[45]"] exI[of _ "dec_digits n"]) simp
qed

lemma number_text_int: "int_text t \<Longrightarrow> number_text t False"
  unfolding number_text_def frac_text_def exp_text_def by (intro exI[of _ t] exI[of _ "[]"]) simp

lemma dec_digits_head: "\<exists>b ds. dec_digits n = b # ds \<and> b \<noteq> 45"
  using dec_digits_text(1)[of n] by (cases "dec_digits n") (auto simp: digits_text_def digit_def)

lemma write_f64_text:
  assumes "f64_laws L" "fl_finite L f"
  shows "number_text (write_f64 L f) True" "fl_parse L (write_f64 L f) = Some f"
proof -
  obtain i fr ex where sci: "fl_sci L f = i @ fr @ ex" "int_text i" "frac_text fr" "exp_text ex" "ex \<noteq> []"
    using assms unfolding f64_laws_def by blast
  obtain j fs where fixed: "fl_fixed L f = j @ fs" "int_text j" "frac_text fs" using assms unfolding f64_laws_def by blast
  have p: "fl_parse L (fl_sci L f) = Some f" "fl_parse L (fl_fixed L f) = Some f"
    "46 \<notin> set (fl_fixed L f) \<Longrightarrow> fl_parse L (fl_fixed L f @ [46, 48]) = Some f"
    using assms unfolding f64_laws_def by blast+
  have e: "exp_text []" and z: "frac_text [46, 48]" by (simp_all add: exp_text_def frac_text_def digits_text_def)
  have nj: "46 \<notin> set j" using fixed(2) by (force simp: int_text_def digits_text_def digit_def)
  have 1: "number_text (fl_sci L f) True" unfolding number_text_def using sci by blast
  have 2: "number_text (fl_fixed L f) True" if "46 \<in> set (fl_fixed L f)"
    unfolding number_text_def using that fixed nj e by (intro exI[of _ j] exI[of _ fs] exI[of _ "[]"]) auto
  have 3: "number_text (fl_fixed L f @ [46, 48]) True" if "46 \<notin> set (fl_fixed L f)"
  proof -
    have "fs = []" using that fixed by (auto simp: frac_text_def)
    then show ?thesis unfolding number_text_def using fixed e z by (intro exI[of _ j] exI[of _ "[46, 48]"] exI[of _ "[]"]) simp
  qed
  show "number_text (write_f64 L f) True" "fl_parse L (write_f64 L f) = Some f"
    using assms(2) 1 2 3 p by (auto simp: write_f64_def Let_def)
qed

lemma write_number_text:
  assumes "f64_laws L" "json_ok L n (JNumber num)"
  shows "\<exists>fl. number_text (write_number L num) fl \<and> number_of_token L fl (write_number L num) = Some num"
proof (cases num)
  case (JInt i)
  obtain b ds where h: "dec_digits (nat i) = b # ds" "b \<noteq> 45" using dec_digits_head by blast
  have "parse_i64 (show_int i) = Some i"
  proof (cases "i < 0")
    case True
    then show ?thesis using assms JInt by (simp add: show_int_def parse_i64_def dec_digits_value Let_def)
  next
    case False
    have "int (dec_value (b # ds)) = i" using False dec_digits_value[of "nat i"] h(1) by simp
    then show ?thesis using assms JInt False h by (simp add: show_int_def parse_i64_def Let_def)
  qed
  then show ?thesis using JInt dec_digits_int_text number_text_int
    by (auto simp: write_number_def number_of_token_def show_int_def)
next
  case (JUInt u)
  obtain b ds where h: "dec_digits u = b # ds" "b \<noteq> 45" using dec_digits_head by blast
  have v: "dec_value (b # ds) = u" using dec_digits_value[of u] h(1) by simp
  then have "parse_i64 (dec_digits u) = None" "parse_u64 (dec_digits u) = Some u"
    using assms JUInt h by (simp_all add: parse_i64_def parse_u64_def Let_def)
  then show ?thesis using JUInt dec_digits_int_text(1)[of u] number_text_int
    by (auto simp: write_number_def number_of_token_def)
next
  case (JFloat f)
  then show ?thesis using assms write_f64_text[OF assms(1), of f] by (auto simp: write_number_def number_of_token_def)
qed

lemma digits_text_ascii: "digits_text ds \<Longrightarrow> b \<in> set ds \<Longrightarrow> b < 0x80"
  by (auto simp: digits_text_def digit_def)

lemma number_parts_ascii:
  "int_text t \<Longrightarrow> b \<in> set t \<Longrightarrow> b < 0x80" "frac_text t \<Longrightarrow> b \<in> set t \<Longrightarrow> b < 0x80" "exp_text t \<Longrightarrow> b \<in> set t \<Longrightarrow> b < 0x80"
  unfolding int_text_def frac_text_def exp_text_def by (elim exE conjE disjE; force dest: digits_text_ascii)+

lemma number_text_ascii: "number_text t fl \<Longrightarrow> utf8_encode t = t"
  unfolding number_text_def by (rule utf8_encode_ascii) (use number_parts_ascii in auto)

text \<open>Strings.\<close>

lemma hex_digit_char: "d < 16 \<Longrightarrow> hex_digit (hex_char d) = Some d"
  by (auto simp: hex_digit_def hex_char_def)

lemma hex4_text:
  assumes "c < 32" shows "hex_text (hex4 c) c" "\<forall>b\<in>set (hex4 c). b < 0x80"
proof -
  have z: "c div 4096 = 0" "c div 256 = 0" "c div 16 mod 16 = c div 16" "c div 16 < 16" "c mod 16 < 16" using assms by simp_all
  have h: "hex4 c = [hex_char 0, hex_char 0, hex_char (c div 16), hex_char (c mod 16)]" by (simp add: hex4_def z)
  have "hex_value 0 (hex4 c) = Some (c div 16 * 16 + c mod 16)"
    unfolding h by (simp only: hex_value.simps hex_digit_char[OF z(4)] hex_digit_char[OF z(5)] hex_digit_char[of 0]) simp
  then show "hex_text (hex4 c) c" by (simp add: hex_text_def h)
  show "\<forall>b\<in>set (hex4 c). b < 0x80" using z(4,5) unfolding h by (auto simp: hex_char_def)
qed

lemma escaped_text:
  "list_all scalar s \<Longrightarrow> string_text (utf8_encode (concat (map escape_char s))) s"
proof (induction s)
  case (Cons c s)
  then have IH: "string_text (utf8_encode (concat (map escape_char s))) s" and c: "scalar c" by simp_all
  consider "c = 34 \<or> c = 92 \<or> c = 8 \<or> c = 12 \<or> c = 10 \<or> c = 13 \<or> c = 9"
    | "c < 32" "c \<noteq> 8" "c \<noteq> 12" "c \<noteq> 10" "c \<noteq> 13" "c \<noteq> 9" | "32 \<le> c" "c \<noteq> 34" "c \<noteq> 92" by linarith
  then show ?case
  proof cases
    case 1
    then obtain e where "escape_char c = [92, e]" "simple_escape e = Some c" "e < 0x80"
      by (auto simp: escape_char_def simple_escape_def)
    then show ?thesis using st_escape[OF _ IH, of e c] by (simp add: utf8_char_ascii)
  next
    case 2
    then have "utf8_encode (escape_char c) = 92 # 117 # hex4 c"
      using utf8_encode_ascii[of "92 # 117 # hex4 c"] hex4_text(2) by (simp add: escape_char_def)
    then show ?thesis using st_unicode[OF hex4_text(1)[OF 2(1)] _ _ IH] 2(1) by (simp add: high_surrogate_def low_surrogate_def)
  next
    case 3
    then have "escape_char c = [c]" by (simp add: escape_char_def)
    then show ?thesis using st_char[OF c 3 IH] by simp
  qed
qed (simp add: st_nil)

lemma utf8_ascii_byte [simp]: "b < 0x80 \<Longrightarrow> utf8_char b = [b]"
  by (rule utf8_char_ascii)

lemma write_escaped_encode:
  "utf8_encode (write_escaped_str s) = 34 # utf8_encode (concat (map escape_char s)) @ [34]"
  by (simp add: write_escaped_str_def)

text \<open>Lists: what comes before every item and after the last is white space.\<close>

lemma commas_items:
  assumes "\<And>x. x \<in> set xs \<Longrightarrow> json_text L n (utf8_encode (f x)) x" "xs \<noteq> []" "ws (utf8_encode pre)" "ws (utf8_encode post)"
  shows "items_text L n (utf8_encode (commas (map (\<lambda>x. pre @ f x) xs) @ post)) xs"
  using assms(1,2)
proof (induction xs)
  case (Cons x xs)
  show ?case
  proof (cases xs)
    case Nil
    then show ?thesis using it_one[OF assms(3) Cons.prems(1)[of x] assms(4)] by simp
  next
    case (Cons y ys)
    then show ?thesis using it_more[OF assms(3) Cons.prems(1)[of x], of "[]"] Cons.IH Cons.prems(1)
      by (simp add: ws_def)
  qed
qed simp

lemma commas_members:
  assumes "\<And>k v. (k, v) \<in> set kvs \<Longrightarrow> list_all scalar k \<and> json_text L n (utf8_encode (f v)) v" "kvs \<noteq> []"
    "ws (utf8_encode pre)" "ws (utf8_encode mid)" "ws (utf8_encode post)"
  shows "members_text L n (utf8_encode (commas (map (\<lambda>(k, v). pre @ write_escaped_str k @ 58 # mid @ f v) kvs) @ post)) kvs"
  using assms(1,2)
proof (induction kvs)
  case (Cons kv kvs)
  obtain k v where kv: "kv = (k, v)" by (cases kv)
  have k: "string_text (utf8_encode (concat (map escape_char k))) k" and v: "json_text L n (utf8_encode (f v)) v"
    using Cons.prems(1)[of k v] kv escaped_text by auto
  have e: "ws []" by (simp add: ws_def)
  show ?case
  proof (cases "kvs = []")
    case True
    then show ?thesis using mt_one[OF assms(3) k e assms(4) v assms(5)] by (simp add: kv write_escaped_encode)
  next
    case False
    then have rest: "members_text L n (utf8_encode (commas (map (\<lambda>(k, v). pre @ write_escaped_str k @ 58 # mid @ f v) kvs) @ post)) kvs"
      using Cons.IH[OF Cons.prems(1)] by simp
    obtain kv2 kvs2 where "kvs = kv2 # kvs2" using False by (cases kvs) simp_all
    then show ?thesis using mt_more[OF assms(3) k e assms(4) v e rest] by (simp add: kv write_escaped_encode)
  qed
qed simp

lemma write_number_json_text: "f64_laws L \<Longrightarrow> json_ok L n (JNumber num) \<Longrightarrow> json_text L n (utf8_encode (write_number L num)) (JNumber num)"
  using write_number_text[of L n num] number_text_ascii jt_number by fastforce

lemma write_string_json_text: "list_all scalar s \<Longrightarrow> json_text L n (utf8_encode (write_escaped_str s)) (JString s)"
  unfolding write_escaped_encode by (rule jt_string[OF escaped_text])

lemma ws_Nil [simp]: "ws []" by (simp add: ws_def)

lemma write_compact_text: "f64_laws L \<Longrightarrow> json_ok L n v \<Longrightarrow> json_text L n (utf8_encode (write_compact L v)) v"
proof (induction v arbitrary: n)
  case (JBool b)
  then show ?case by (cases b) (simp_all add: jt_true jt_false)
next
  case (JArray vs)
  then obtain m where n: "n = Suc m" "list_all (json_ok L m) vs" by (cases n) simp_all
  show ?case
  proof (cases "vs = []")
    case True
    then show ?thesis using jt_array_nil[of "[]" L m] n by simp
  next
    case False
    have "items_text L m (utf8_encode (commas (map (\<lambda>x. [] @ write_compact L x) vs) @ [])) vs"
      by (rule commas_items) (use JArray n False in \<open>auto simp: list_all_iff\<close>)
    from jt_array[OF this] show ?thesis using n by simp
  qed
next
  case (JObject kvs)
  then obtain m where n: "n = Suc m" "list_all (\<lambda>(k, v). list_all scalar k \<and> json_ok L m v) kvs" by (cases n) simp_all
  show ?case
  proof (cases "kvs = []")
    case True
    then show ?thesis using jt_object_nil[of "[]" L m] n by simp
  next
    case False
    have "members_text L m (utf8_encode (commas (map (\<lambda>(k, v). [] @ write_escaped_str k @ 58 # [] @ write_compact L v) kvs) @ [])) kvs"
    proof (rule commas_members)
      fix k v assume kv: "(k, v) \<in> set kvs"
      then have "list_all scalar k \<and> json_ok L m v" using n(2) by (auto simp: list_all_iff)
      moreover have "json_text L m (utf8_encode (write_compact L v)) v" if "json_ok L m v"
        using JObject.IH[of "(k, v)" v m] kv JObject.prems(1) that by (simp add: Basic_BNFs.snds.simps)
      ultimately show "list_all scalar k \<and> json_text L m (utf8_encode (write_compact L v)) v" by simp
    qed (use False in simp_all)
    from jt_object[OF this] show ?thesis using n by simp
  qed
qed (simp_all add: jt_null write_number_json_text write_string_json_text)

lemma ws_write_indent: "ws (utf8_encode indent) \<Longrightarrow> ws (utf8_encode (write_indent indent l))"
  by (induction l) (auto simp: write_indent_def ws_def)

lemma write_pretty_text:
  assumes L: "f64_laws L" and i: "ws (utf8_encode indent)"
  shows "json_ok L n v \<Longrightarrow> json_text L n (utf8_encode (write_pretty_inner L indent l v)) v"
proof (induction v arbitrary: n l)
  case (JArray vs)
  then obtain m where n: "n = Suc m" "list_all (json_ok L m) vs" by (cases n) simp_all
  have w: "ws (utf8_encode (10 # write_indent indent k))" for k using ws_write_indent[OF i, of k] by (simp add: ws_def is_ws_def)
  show ?case
  proof (cases vs)
    case Nil
    then show ?thesis using jt_array_nil[of "[]" L m] n by simp
  next
    case (Cons x xs)
    have "items_text L m (utf8_encode (commas (map (\<lambda>x. (10 # write_indent indent (l + 1)) @ write_pretty_inner L indent (l + 1) x) vs)
        @ 10 # write_indent indent l)) vs"
      by (rule commas_items[OF _ _ w w]) (use JArray n Cons in \<open>auto simp: list_all_iff\<close>)
    from jt_array[OF this] show ?thesis using n Cons by simp
  qed
next
  case (JObject kvs)
  then obtain m where n: "n = Suc m" "list_all (\<lambda>(k, v). list_all scalar k \<and> json_ok L m v) kvs" by (cases n) simp_all
  have w: "ws (utf8_encode (10 # write_indent indent k))" for k using ws_write_indent[OF i, of k] by (simp add: ws_def is_ws_def)
  have w2: "ws (utf8_encode [32])" by (simp add: ws_def is_ws_def)
  show ?case
  proof (cases kvs)
    case Nil
    then show ?thesis using jt_object_nil[of "[]" L m] n by simp
  next
    case (Cons x xs)
    have "members_text L m (utf8_encode (commas (map (\<lambda>(k, v). (10 # write_indent indent (l + 1)) @ write_escaped_str k @ 58 # [32]
        @ write_pretty_inner L indent (l + 1) v) kvs) @ 10 # write_indent indent l)) kvs"
    proof (rule commas_members[OF _ _ w w2 w])
      fix k v assume kv: "(k, v) \<in> set kvs"
      then have "list_all scalar k \<and> json_ok L m v" using n(2) by (auto simp: list_all_iff)
      moreover have "json_text L m (utf8_encode (write_pretty_inner L indent (l + 1) v)) v" if "json_ok L m v"
        using JObject.IH[of "(k, v)" v m] kv that by (simp add: Basic_BNFs.snds.simps)
      ultimately show "list_all scalar k \<and> json_text L m (utf8_encode (write_pretty_inner L indent (l + 1) v)) v" by simp
    qed (use Cons in simp)
    from jt_object[OF this] show ?thesis using n Cons by simp
  qed
qed (use write_compact_text[OF L, of n "JBool b" for n b] in \<open>simp_all add: L jt_null write_number_json_text write_string_json_text\<close>)

subsection \<open>What the parser accepts is a text of the grammar\<close>

lemma peek_eq_Some: "peek st = Some b \<longleftrightarrow> snd st = b # snd (advance 1 st)"
  by (cases st rule: peek.cases) auto

lemma peek_SomeD: "peek st = Some b \<Longrightarrow> snd st = b # snd (advance 1 st) \<and> fst (advance 1 st) = fst st + 1"
  by (cases st rule: peek.cases) auto

lemma skip_while_sound: "\<exists>w. snd st = w @ snd (skip_while p st) \<and> (\<forall>b\<in>set w. p b) \<and> fst (skip_while p st) = fst st + length w"
proof (cases st)
  case (Pair pos r)
  then have "snd st = takeWhile p r @ snd (skip_while p st)" "fst (skip_while p st) = fst st + length (takeWhile p r)"
    by (simp_all add: skip_while_def flip: dropWhile_eq_drop)
  then show ?thesis using set_takeWhileD by metis
qed

lemma skip_ws_sound: "\<exists>w. snd st = w @ snd (skip_ws st) \<and> ws w"
  using skip_while_sound[of st is_ws] by (auto simp: skip_ws_def ws_def)

text \<open>Strings.\<close>

lemma string_run_sound:
  assumes "string_run st = Inr (s, st')"
  shows "snd st = utf8_encode s @ snd st'" "\<forall>c\<in>set s. scalar c \<and> 32 \<le> c \<and> c \<noteq> 34 \<and> c \<noteq> 92"
proof -
  have d: "utf8_decode (takeWhile plain_byte (snd st)) = Some s" and st': "st' = skip_while plain_byte st"
    using assms by (auto simp: string_run_def err_at_def split: option.splits)
  have e: "utf8_encode s = takeWhile plain_byte (snd st)" by (rule utf8_decode_inv[OF d])
  show "snd st = utf8_encode s @ snd st'" unfolding e st' by (cases st) (simp add: skip_while_def flip: dropWhile_eq_drop)
  show "\<forall>c\<in>set s. scalar c \<and> 32 \<le> c \<and> c \<noteq> 34 \<and> c \<noteq> 92"
  proof
    fix c assume c: "c \<in> set s"
    have "plain_byte c" if "c < 0x80"
    proof -
      have "c \<in> set (utf8_encode s)" using c utf8_char_ascii[OF that] by (force simp: utf8_encode_def)
      then show ?thesis unfolding e using set_takeWhileD by metis
    qed
    then show "scalar c \<and> 32 \<le> c \<and> c \<noteq> 34 \<and> c \<noteq> 92"
      using utf8_decode_scalar[OF d c] by (cases "c < 0x80") (auto simp: plain_byte_def)
  qed
qed

lemma string_text_prefix:
  "\<forall>c\<in>set s. scalar c \<and> 32 \<le> c \<and> c \<noteq> 34 \<and> c \<noteq> 92 \<Longrightarrow> string_text t u \<Longrightarrow> string_text (utf8_encode s @ t) (s @ u)"
  by (induction s) (simp_all add: st_char)

lemma parse_hex4_sound: "parse_hex4 e st = Inr (cp, st') \<Longrightarrow> \<exists>h. snd st = h @ snd st' \<and> hex_text h cp"
  by (cases st) (fastforce simp: parse_hex4_def hex_text_def err_at_def split: if_splits option.splits intro!: exI[of _ "take 4 (snd st)"])

lemma hex_text_det: "hex_text h cp \<Longrightarrow> hex_text h cp' \<Longrightarrow> cp' = cp"
  by (simp add: hex_text_def)

lemma unicode_escape_sound:
  assumes run: "parse_unicode_escape e st = Inr (c, st')" and t: "string_text t s" and r: "snd st' = t @ 34 # r"
  shows "\<exists>x. snd st = x @ snd st' \<and> string_text (92 # 117 # x @ t) (c # s)"
proof -
  obtain cp st1 where 1: "parse_hex4 e st = Inr (cp, st1)"
    using run by (auto simp: parse_unicode_escape_def checked_simps)
  obtain h where h: "snd st = h @ snd st1" "hex_text h cp" using parse_hex4_sound[OF 1] by blast
  note run' = run[unfolded parse_unicode_escape_def 1 and_then.simps prod.case]
  show ?thesis
  proof (cases "high_surrogate cp")
    case hi: True
    show ?thesis
    proof (cases "take 2 (snd st1) = [92, 117]")
      case u: True
      then obtain low st2 where 2: "parse_hex4 (fst st1) (advance 2 st1) = Inr (low, st2)"
        using run' hi by (auto simp: checked_simps)
      obtain h2 where h2: "snd (advance 2 st1) = h2 @ snd st2" "hex_text h2 low" using parse_hex4_sound[OF 2] by blast
      have s1: "snd st1 = 92 # 117 # h2 @ snd st2"
        using u h2(1) append_take_drop_id[of 2 "snd st1"] by (cases st1) simp
      show ?thesis
      proof (cases "low_surrogate low")
        case True
        then have c: "c = 0x10000 + (cp - 0xD800) * 1024 + (low - 0xDC00)" "st' = st2"
          using run' hi u 2 pair_scalar[OF hi True] by (simp_all add: or_replacement_def)
        show ?thesis using st_pair[OF h(2) hi h2(2) True t] h(1) s1 unfolding c
          by (intro exI[of _ "h @ 92 # 117 # h2"]) simp
      next
        case False
        then have c: "c = 0xFFFD" "st' = st1" using run' hi u 2 by simp_all
        have "\<not> low_surrogate low'" if "t = 92 # 117 # h3 @ t'" "hex_text h3 low'" for h3 low' t'
        proof -
          have "h3 = h2" using that s1 r h2(2) c(2) by (simp add: hex_text_def)
          then show ?thesis using hex_text_det[OF h2(2)] that(2) False by blast
        qed
        then show ?thesis using st_high[OF h(2) hi t] h(1) c by blast
      qed
    next
      case False
      then have c: "c = 0xFFFD" "st' = st1" using run' hi by simp_all
      have "t \<noteq> 92 # 117 # t'" for t' using False r c(2) by auto
      then show ?thesis using st_high[OF h(2) hi t] h(1) c by blast
    qed
  next
    case lo: False
    show ?thesis
    proof (cases "low_surrogate cp")
      case True
      then show ?thesis using run' lo h st_low[OF h(2) True t] by auto
    next
      case False
      then show ?thesis using run' lo h st_unicode[OF h(2) lo False t] hex_text_scalar[OF h(2) lo False]
        by (auto simp: or_replacement_def)
    qed
  qed
qed

lemma escape_sound:
  assumes run: "parse_escape start e st = Inr (c, st')" and t: "string_text t s" and r: "snd st' = t @ 34 # r"
  shows "\<exists>x. snd st = x @ snd st' \<and> string_text (92 # x @ t) (c # s)"
proof -
  obtain b where b: "peek st = Some b" using run by (cases "peek st") (auto simp: parse_escape_def err_at_def)
  show ?thesis
  proof (cases "simple_escape b")
    case (Some d)
    then have "c = d" "st' = advance 1 st" using run b by (simp_all add: parse_escape_def)
    then show ?thesis using st_escape[OF Some t] peek_SomeD[OF b] by (intro exI[of _ "[b]"]) simp
  next
    case None
    then have "b = 117" and u: "parse_unicode_escape e (advance 1 st) = Inr (c, st')"
      using run b by (auto simp: parse_escape_def err_at_def split: if_splits)
    obtain x where "snd (advance 1 st) = x @ snd st'" "string_text (92 # 117 # x @ t) (c # s)"
      using unicode_escape_sound[OF u t r] by blast
    then show ?thesis using peek_SomeD[OF b] \<open>b = 117\<close> by (intro exI[of _ "117 # x"]) simp
  qed
qed

lemma string_loop_sound:
  "string_loop start out st = Inr (s', st') \<Longrightarrow> \<exists>t s. snd st = t @ 34 # snd st' \<and> s' = out @ s \<and> string_text t s"
proof (induction start out st rule: string_loop.induct)
  case (1 start out st)
  from 1(2) obtain x st1 where run: "string_run st = Inr (x, st1)"
    and k: "(case snd st1 of [] \<Rightarrow> err_at start UnterminatedString
       | b # r \<Rightarrow> if b = 34 then Inr (out @ x, advance 1 st1) else if b < 32 then err_at (fst st1) ControlCharacterInString
           else and_then (parse_escape start (fst st1) (advance 1 st1)) (\<lambda>(c, st2). string_loop start (out @ x @ [c]) st2)) = Inr (s', st')"
    by (subst (asm) string_loop.simps) (auto simp: checked_simps)
  note x = string_run_sound[OF run]
  obtain b r where s1: "snd st1 = b # r" using k by (cases "snd st1") (auto simp: err_at_def)
  have r: "snd (advance 1 st1) = r" using s1 by (cases st1) simp
  show ?case
  proof (cases "b = 34")
    case True
    then have "s' = out @ x" "st' = advance 1 st1" using k s1 by simp_all
    then show ?thesis using x(1) s1 r True string_text_prefix[OF x(2) st_nil] by (intro exI[of _ "utf8_encode x"] exI[of _ x]) simp
  next
    case ne: False
    then have ge: "\<not> b < 32" using k s1 by (auto simp: err_at_def)
    with k s1 ne obtain c st2 where c: "parse_escape start (fst st1) (advance 1 st1) = Inr (c, st2)"
      "string_loop start (out @ x @ [c]) st2 = Inr (s', st')" by (auto simp: checked_simps)
    have "\<not> plain_byte b"
    proof -
      have "snd st1 = dropWhile plain_byte (snd st)" using run
        by (cases st) (auto simp: string_run_def skip_while_def err_at_def split: option.splits simp flip: dropWhile_eq_drop)
      then have "stops plain_byte (snd st1)" by (simp only: stops_dropWhile)
      then show ?thesis by (simp add: s1)
    qed
    then have b: "b = 92" using ne ge by (simp add: plain_byte_def)
    from 1(1)[OF run refl s1 ne ge c(1) refl c(2)] obtain t s where
      ts: "snd st2 = t @ 34 # snd st'" "s' = (out @ x @ [c]) @ s" "string_text t s" by blast
    from escape_sound[OF c(1) ts(3,1)] obtain y where y: "r = y @ snd st2" "string_text (92 # y @ t) (c # s)" unfolding r by blast
    from string_text_prefix[OF x(2) y(2)] show ?thesis using x(1) s1 y(1) ts(1,2) b
      by (intro exI[of _ "utf8_encode x @ 92 # y @ t"] exI[of _ "x @ c # s"]) simp
  qed
qed

lemma parse_string_sound:
  "parse_string st = Inr (s, st') \<Longrightarrow> peek st = Some 34 \<Longrightarrow> \<exists>t. snd st = 34 # t @ 34 # snd st' \<and> string_text t s"
  using string_loop_sound[of "fst st" "[]" "advance 1 st" s st'] peek_SomeD[of st 34] by (auto simp: parse_string_def)

text \<open>Numbers.\<close>

definition took :: "jst \<Rightarrow> nat list \<Rightarrow> jst \<Rightarrow> bool" where
  "took st t st' \<longleftrightarrow> snd st = t @ snd st' \<and> fst st' = fst st + length t"

lemma took_Nil [simp]: "took st [] st" by (simp add: took_def)

lemma took_advance: "peek st = Some b \<Longrightarrow> took (advance 1 st) t st' \<Longrightarrow> took st (b # t) st'"
  using peek_SomeD[of st b] by (simp add: took_def)

lemma took_append: "took st t st1 \<Longrightarrow> took st1 u st2 \<Longrightarrow> took st (t @ u) st2"
  by (simp add: took_def)

lemma some_digits_sound: "some_digits st = Some st' \<Longrightarrow> \<exists>ds. took st ds st' \<and> digits_text ds"
proof -
  assume run: "some_digits st = Some st'"
  then obtain b where b: "peek st = Some b" "digit b" "st' = skip_while digit (advance 1 st)"
    by (auto simp: some_digits_def split: option.splits if_splits)
  obtain w where "took (advance 1 st) w st'" "\<forall>b\<in>set w. digit b"
    using skip_while_sound[of "advance 1 st" digit] b(3) by (auto simp: took_def)
  then show ?thesis using took_advance[OF b(1)] b(2) by (intro exI[of _ "b # w"]) (simp add: digits_text_def)
qed

lemma int_part_sound: "int_part st = Some st' \<Longrightarrow> \<exists>t. took st t st' \<and> int_text t"
proof -
  assume run: "int_part st = Some st'"
  have unsigned: "\<exists>ds. took s ds st' \<and> (ds = [48] \<or> digits_text ds \<and> hd ds \<noteq> 48)"
    if u: "(if peek s = Some 48 then Some (advance 1 s) else some_digits s) = Some st'" for s
  proof (cases "peek s = Some 48")
    case True
    then show ?thesis using u took_advance[OF True took_Nil] by (intro exI[of _ "[48]"]) simp
  next
    case False
    then obtain ds where ds: "took s ds st'" "digits_text ds" using u some_digits_sound[of s st'] by auto
    then have "hd ds \<noteq> 48" using False by (cases s; cases ds) (auto simp: took_def digits_text_def)
    then show ?thesis using ds by blast
  qed
  show ?thesis
  proof (cases "peek st = Some 45")
    case True
    then obtain ds where "took (advance 1 st) ds st'" "ds = [48] \<or> digits_text ds \<and> hd ds \<noteq> 48"
      using run unsigned[of "advance 1 st"] by (auto simp: int_part_def Let_def simp del: One_nat_def)
    moreover from this(2) have "int_text (45 # ds)" unfolding int_text_def by (intro exI[of _ "[45]"] exI[of _ ds]) simp
    ultimately show ?thesis using took_advance[OF True] by blast
  next
    case False
    then obtain ds where ds: "took st ds st'" "ds = [48] \<or> digits_text ds \<and> hd ds \<noteq> 48"
      using run unsigned[of st] by (auto simp: int_part_def Let_def simp del: One_nat_def)
    from ds(2) have "int_text ds" unfolding int_text_def by (intro exI[of _ "[]"] exI[of _ ds]) simp
    then show ?thesis using ds(1) by blast
  qed
qed

lemma frac_part_sound: "frac_part st = Some (fl, st') \<Longrightarrow> \<exists>t. took st t st' \<and> frac_text t \<and> fl = (t \<noteq> [])"
proof (cases "peek st = Some 46")
  case True
  assume "frac_part st = Some (fl, st')"
  then obtain ds where "took (advance 1 st) ds st'" "digits_text ds" "fl"
    using True some_digits_sound[of "advance 1 st" st'] by (auto simp: frac_part_def)
  then show ?thesis using took_advance[OF True] by (intro exI[of _ "46 # ds"]) (simp add: frac_text_def)
qed (auto simp: frac_part_def frac_text_def intro!: exI[of _ "[]"])

lemma exp_part_sound: "exp_part st = Some (fl, st') \<Longrightarrow> \<exists>t. took st t st' \<and> exp_text t \<and> fl = (t \<noteq> [])"
proof (cases "\<exists>e. peek st = Some e \<and> (e = 101 \<or> e = 69)")
  case True
  then obtain e where e: "peek st = Some e" "e = 101 \<or> e = 69" by blast
  let ?s1 = "advance 1 st"
  assume run: "exp_part st = Some (fl, st')"
  have "\<exists>sign ds. took ?s1 (sign @ ds) st' \<and> (sign = [] \<or> sign = [43] \<or> sign = [45]) \<and> digits_text ds"
  proof (cases "peek ?s1 = Some 43 \<or> peek ?s1 = Some 45")
    case True
    then obtain b where b: "peek ?s1 = Some b" "b = 43 \<or> b = 45" by blast
    then have "some_digits (advance 1 ?s1) = Some st'"
      using run e by (auto simp: exp_part_def Let_def simp del: One_nat_def)
    then obtain ds where "took (advance 1 ?s1) ds st'" "digits_text ds" using some_digits_sound by blast
    then show ?thesis using took_advance[OF b(1)] b(2) by (intro exI[of _ "[b]"] exI[of _ ds]) auto
  next
    case False
    then have "some_digits ?s1 = Some st'" using run e by (auto simp: exp_part_def Let_def simp del: One_nat_def)
    then obtain ds where "took ?s1 ds st'" "digits_text ds" using some_digits_sound by blast
    then show ?thesis by (intro exI[of _ "[]"] exI[of _ ds]) simp
  qed
  then obtain sign ds where "took ?s1 (sign @ ds) st'" "sign = [] \<or> sign = [43] \<or> sign = [45]" "digits_text ds" by blast
  moreover have fl using run e by (auto simp: exp_part_def Let_def)
  ultimately show ?thesis using took_advance[OF e(1)] e(2) unfolding exp_text_def by (intro exI[of _ "e # sign @ ds"]) blast
next
  case False
  assume "exp_part st = Some (fl, st')"
  then have "\<not> fl" "st' = st" using False by (auto simp: exp_part_def split: if_splits)
  then show ?thesis by (intro exI[of _ "[]"]) (simp add: exp_text_def)
qed

lemma parse_number_sound:
  assumes "parse_number L st = Inr (n, st')"
  shows "\<exists>t fl. snd st = t @ snd st' \<and> number_text t fl \<and> number_of_token L fl t = Some n"
proof -
  obtain st1 fr st2 ex where p: "int_part st = Some st1" "frac_part st1 = Some (fr, st2)" "exp_part st2 = Some (ex, st')"
    and n: "number_of_token L (fr \<or> ex) (take (fst st' - fst st) (snd st)) = Some n"
    using assms by (auto simp: parse_number_def err_at_def split: option.splits prod.splits)
  obtain i where i: "took st i st1" "int_text i" using int_part_sound[OF p(1)] by blast
  obtain f where f: "took st1 f st2" "frac_text f" "fr = (f \<noteq> [])" using frac_part_sound[OF p(2)] by blast
  obtain e where e: "took st2 e st'" "exp_text e" "ex = (e \<noteq> [])" using exp_part_sound[OF p(3)] by blast
  have t: "took st (i @ f @ e) st'" by (rule took_append[OF i(1) took_append[OF f(1) e(1)]])
  then have "take (fst st' - fst st) (snd st) = i @ f @ e" by (simp add: took_def)
  moreover have "number_text (i @ f @ e) (fr \<or> ex)" unfolding number_text_def using i(2) f(2,3) e(2,3) by blast
  ultimately show ?thesis using n t by (intro exI[of _ "i @ f @ e"]) (auto simp: took_def)
qed

lemma parse_lit_sound: "parse_lit lit v start st = Inr (w, st') \<Longrightarrow> w = v \<and> snd st = lit @ snd st'"
  by (induction lit v start st rule: parse_lit.induct) (auto simp: err_at_def dest!: peek_SomeD split: if_splits)

text \<open>Values.\<close>

lemma ws_append: "ws a \<Longrightarrow> ws b \<Longrightarrow> ws (a @ b)"
  by (auto simp: ws_def)

lemma items_text_pad: "items_text L n t vs \<Longrightarrow> ws w \<Longrightarrow> items_text L n (w @ t) vs"
proof (induct rule: items_text.cases)
  case (it_one w1 n t' v w2)
  then show ?case using json_text_items_text_members_text.it_one[OF ws_append, of w w1 L n t' v w2] by simp
next
  case (it_more w1 n t' v w2 e vs')
  then show ?case using json_text_items_text_members_text.it_more[OF ws_append, of w w1 L n t' v w2 e vs'] by simp
qed

lemma members_text_pad: "members_text L n t vs \<Longrightarrow> ws w \<Longrightarrow> members_text L n (w @ t) vs"
proof (induct rule: members_text.cases)
  case (mt_one w1 kt k w2 w3 n t' v w4)
  then show ?case using json_text_items_text_members_text.mt_one[OF ws_append, of w w1 kt k w2 w3 L n t' v w4] by simp
next
  case (mt_more w1 kt k w2 w3 n t' v w4 e kvs')
  then show ?case using json_text_items_text_members_text.mt_more[OF ws_append, of w w1 kt k w2 w3 L n t' v w4 e kvs'] by simp
qed

lemma value_sound:
  fixes L L' L'' :: "'f f64_lib"
  shows "parse_value L d st = Inr (v, st') \<Longrightarrow> d \<le> MAX_DEPTH
      \<Longrightarrow> \<exists>w t. snd st = w @ t @ snd st' \<and> ws w \<and> json_text L (MAX_DEPTH - d) t v"
  "array_loop L' d' items ast = Inr (items', ast') \<Longrightarrow> d' \<le> MAX_DEPTH
      \<Longrightarrow> \<exists>t vs. snd ast = t @ 93 # snd ast' \<and> items' = items @ vs \<and> items_text L' (MAX_DEPTH - d') t vs"
  "object_loop L'' d'' entries ost = Inr (entries', ost') \<Longrightarrow> d'' \<le> MAX_DEPTH
      \<Longrightarrow> \<exists>t kvs. snd ost = t @ 125 # snd ost' \<and> entries' = entries @ kvs \<and> members_text L'' (MAX_DEPTH - d'') t kvs"
proof (induction L d st and L' d' items ast and L'' d'' entries ost arbitrary: v st' and items' ast' and entries' ost'
    rule: parse_value_array_loop_object_loop.induct)
  case (1 L depth st0)
  let ?st = "skip_ws st0"
  let ?s2 = "skip_ws (advance 1 ?st)"
  obtain w where w: "snd st0 = w @ snd ?st" "ws w" using skip_ws_sound by blast
  obtain b where b: "peek ?st = Some b" using 1(3) by (cases "peek ?st") (simp_all add: parse_value.simps err_at_def Let_def)
  note run = 1(3)[unfolded parse_value.simps[of L depth st0] Let_def b option.case]
  note s1 = peek_SomeD[OF b]
  obtain w2 where w2: "snd (advance 1 ?st) = w2 @ snd ?s2" "ws w2" using skip_ws_sound by blast
  have "\<exists>t. snd ?st = t @ snd st' \<and> json_text L (MAX_DEPTH - depth) t v"
  proof (cases "b = 123 \<or> b = 91")
    case False
    then consider "b = 34" | "b = 116" | "b = 102" | "b = 110" | "b = 45 \<or> digit b" "b \<noteq> 34" "b \<noteq> 116" "b \<noteq> 102" "b \<noteq> 110"
      using run by (auto simp: err_at_def split: if_splits)
    then show ?thesis
    proof cases
      case 1
      then obtain s where s: "parse_string ?st = Inr (s, st')" "v = JString s" using run by (auto simp: checked_simps)
      obtain t where "snd ?st = 34 # t @ 34 # snd st'" "string_text t s" using parse_string_sound[OF s(1)] b 1 by auto
      then show ?thesis using jt_string s(2) by (intro exI[of _ "34 # t @ [34]"]) simp
    next
      case 2
      then have "parse_lit [116, 114, 117, 101] (JBool True) (fst ?st) ?st = Inr (v, st')" using run by (simp del: parse_lit.simps)
      from parse_lit_sound[OF this] show ?thesis using jt_true by (intro exI[of _ "[116, 114, 117, 101]"]) simp
    next
      case 3
      then have "parse_lit [102, 97, 108, 115, 101] (JBool False) (fst ?st) ?st = Inr (v, st')" using run by (simp del: parse_lit.simps)
      from parse_lit_sound[OF this] show ?thesis using jt_false by (intro exI[of _ "[102, 97, 108, 115, 101]"]) simp
    next
      case 4
      then have "parse_lit [110, 117, 108, 108] JNull (fst ?st) ?st = Inr (v, st')" using run by (simp del: parse_lit.simps)
      from parse_lit_sound[OF this] show ?thesis using jt_null by (intro exI[of _ "[110, 117, 108, 108]"]) simp
    next
      case 5
      then obtain n where "parse_number L ?st = Inr (n, st')" "v = JNumber n" using run False by (auto simp: checked_simps)
      then show ?thesis using parse_number_sound[of L ?st n st'] jt_number by blast
    qed
  next
    case br: True
    then have deep: "\<not> MAX_DEPTH < depth + 1" using run by (auto simp: err_at_def split: if_splits)
    then have n: "MAX_DEPTH - depth = Suc (MAX_DEPTH - (depth + 1))" and d: "depth + 1 \<le> MAX_DEPTH" by simp_all
    from br show ?thesis
    proof
      assume o: "b = 123"
      show ?thesis
      proof (cases "peek ?s2 = Some 125")
        case True
        then have "v = JObject []" "st' = advance 1 ?s2" using run o deep by simp_all
        then show ?thesis using s1 w2(1) peek_SomeD[OF True] o jt_object_nil[OF w2(2), of L "MAX_DEPTH - (depth + 1)"] unfolding n
          by (intro exI[of _ "123 # w2 @ [125]"]) simp
      next
        case ne: False
        then obtain es where es: "object_loop L (depth + 1) [] ?s2 = Inr (es, st')" "v = JObject es"
          using run o deep by (auto simp: checked_simps)
        obtain t where t: "snd ?s2 = t @ 125 # snd st'" "members_text L (MAX_DEPTH - (depth + 1)) t es"
          using 1(1)[OF refl b _ o refl deep refl ne es(1) d] o by auto
        show ?thesis using jt_object[OF members_text_pad[OF t(2) w2(2)]] s1 w2(1) t(1) o es(2) unfolding n
          by (intro exI[of _ "123 # (w2 @ t) @ [125]"]) simp
      qed
    next
      assume o: "b = 91"
      show ?thesis
      proof (cases "peek ?s2 = Some 93")
        case True
        then have "v = JArray []" "st' = advance 1 ?s2" using run o deep by simp_all
        then show ?thesis using s1 w2(1) peek_SomeD[OF True] o jt_array_nil[OF w2(2), of L "MAX_DEPTH - (depth + 1)"] unfolding n
          by (intro exI[of _ "91 # w2 @ [93]"]) simp
      next
        case ne: False
        then obtain es where es: "array_loop L (depth + 1) [] ?s2 = Inr (es, st')" "v = JArray es"
          using run o deep by (auto simp: checked_simps)
        obtain t where t: "snd ?s2 = t @ 93 # snd st'" "items_text L (MAX_DEPTH - (depth + 1)) t es"
          using 1(2)[OF refl b _ _ o refl deep refl ne es(1) d] o by auto
        show ?thesis using jt_array[OF items_text_pad[OF t(2) w2(2)]] s1 w2(1) t(1) o es(2) unfolding n
          by (intro exI[of _ "91 # (w2 @ t) @ [93]"]) simp
      qed
    qed
  qed
  then show ?case using w by auto
next
  case (2 L depth items st0)
  from 2(3) obtain v st1 where v: "parse_value L depth (skip_ws st0) = Inr (v, st1)"
    by (auto simp: array_loop.simps[of L depth items st0] checked_simps)
  obtain w1 t where t: "snd st0 = w1 @ t @ snd st1" "ws w1" "json_text L (MAX_DEPTH - depth) t v"
  proof -
    obtain w where "snd st0 = w @ snd (skip_ws st0)" "ws w" using skip_ws_sound by blast
    moreover obtain w' t where "snd (skip_ws st0) = w' @ t @ snd st1" "ws w'" "json_text L (MAX_DEPTH - depth) t v"
      using 2(1)[OF v 2(4)] by blast
    ultimately show ?thesis using that[of "w @ w'" t] ws_append by simp
  qed
  let ?st = "skip_ws st1"
  let ?s2 = "skip_ws (advance 1 ?st)"
  obtain w2 where w2: "snd st1 = w2 @ snd ?st" "ws w2" using skip_ws_sound by blast
  obtain w3 where w3: "snd (advance 1 ?st) = w3 @ snd ?s2" "ws w3" using skip_ws_sound by blast
  obtain b where b: "peek ?st = Some b" using 2(3) v
    by (cases "peek ?st") (simp_all add: array_loop.simps[of L depth items st0] err_at_def Let_def)
  note s1 = peek_SomeD[OF b]
  show ?case
  proof (cases "b = 44 \<and> peek ?s2 \<noteq> Some 93")
    case True
    then have more: "array_loop L depth (items @ [v]) ?s2 = Inr (items', ast')"
      using 2(3) v b by (simp add: array_loop.simps[of L depth items st0] Let_def)
    obtain u vs where u: "snd ?s2 = u @ 93 # snd ast'" "items' = (items @ [v]) @ vs" "items_text L (MAX_DEPTH - depth) u vs"
      using 2(2)[OF v refl refl b _ refl _ more 2(4)] True by blast
    have "items_text L (MAX_DEPTH - depth) (w1 @ t @ w2 @ 44 # w3 @ u) (v # vs)"
      by (rule it_more[OF t(2) t(3) w2(2) items_text_pad[OF u(3) w3(2)]])
    then show ?thesis using t(1) w2(1) s1 w3(1) u(1,2) True
      by (intro exI[of _ "w1 @ t @ w2 @ 44 # w3 @ u"] exI[of _ "v # vs"]) simp
  next
    case False
    then have e: "b = 93" "ast' = advance 1 ?st" "items' = items @ [v]"
      using 2(3) v b by (auto simp: array_loop.simps[of L depth items st0] Let_def err_at_def split: if_splits)
    show ?thesis using it_one[OF t(2) t(3) w2(2)] t(1) w2(1) s1 e
      by (intro exI[of _ "w1 @ t @ w2"] exI[of _ "[v]"]) simp
  qed
next
  case (3 L depth entries st0)
  let ?st = "skip_ws st0"
  note unf = object_loop.simps[of L depth entries st0]
  have q: "peek ?st = Some 34" using 3(3) by (auto simp: unf Let_def err_at_def split: if_splits)
  obtain key st1 where key: "parse_string ?st = Inr (key, st1)" using 3(3) q by (auto simp: unf Let_def checked_simps)
  let ?st2 = "skip_ws st1"
  have c: "peek ?st2 = Some 58" using 3(3) q key by (auto simp: unf Let_def err_at_def split: if_splits)
  let ?st3 = "skip_ws (advance 1 ?st2)"
  obtain v st3 where v: "parse_value L depth ?st3 = Inr (v, st3)" using 3(3) q key c by (auto simp: unf Let_def checked_simps)
  let ?st4 = "skip_ws st3"
  let ?st5 = "skip_ws (advance 1 ?st4)"
  obtain b where b: "peek ?st4 = Some b" using 3(3) q key c v by (cases "peek ?st4") (simp_all add: unf err_at_def Let_def)
  obtain w1 where w1: "snd st0 = w1 @ snd ?st" "ws w1" using skip_ws_sound by blast
  obtain kt where kt: "snd ?st = 34 # kt @ 34 # snd st1" "string_text kt key" using parse_string_sound[OF key q] by blast
  obtain w2 where w2: "snd st1 = w2 @ snd ?st2" "ws w2" using skip_ws_sound by blast
  obtain w3 where w3: "snd (advance 1 ?st2) = w3 @ snd ?st3" "ws w3" using skip_ws_sound by blast
  obtain w3' t where t: "snd ?st3 = w3' @ t @ snd st3" "ws w3'" "json_text L (MAX_DEPTH - depth) t v"
    using 3(1)[OF refl _ key refl refl _ v 3(4)] q c by auto
  obtain w4 where w4: "snd st3 = w4 @ snd ?st4" "ws w4" using skip_ws_sound by blast
  obtain w5 where w5: "snd (advance 1 ?st4) = w5 @ snd ?st5" "ws w5" using skip_ws_sound by blast
  note s = peek_SomeD[OF c] peek_SomeD[OF b]
  have pre: "snd st0 = w1 @ 34 # kt @ 34 # w2 @ 58 # (w3 @ w3') @ t @ w4 @ b # snd (advance 1 ?st4)"
    using w1(1) kt(1) w2(1) s w3(1) t(1) w4(1) by simp
  show ?case
  proof (cases "b = 44 \<and> peek ?st5 \<noteq> Some 125")
    case True
    then have more: "object_loop L depth (object_push key v entries) ?st5 = Inr (entries', ost')"
      using 3(3) q key c v b by (simp add: unf Let_def)
    obtain u kvs where u: "snd ?st5 = u @ 125 # snd ost'" "entries' = object_push key v entries @ kvs" "members_text L (MAX_DEPTH - depth) u kvs"
      using 3(2)[OF refl _ key refl refl _ v refl refl b _ refl _ more 3(4)] q c True by auto
    have "members_text L (MAX_DEPTH - depth) (w1 @ 34 # kt @ 34 # w2 @ 58 # (w3 @ w3') @ t @ w4 @ 44 # w5 @ u) ((key, v) # kvs)"
      by (rule mt_more[OF w1(2) kt(2) w2(2) ws_append[OF w3(2) t(2)] t(3) w4(2) members_text_pad[OF u(3) w5(2)]])
    then show ?thesis using pre w5(1) u(1,2) True
      by (intro exI[of _ "w1 @ 34 # kt @ 34 # w2 @ 58 # (w3 @ w3') @ t @ w4 @ 44 # w5 @ u"] exI[of _ "(key, v) # kvs"]) (simp add: object_push_def)
  next
    case False
    then have e: "b = 125" "ost' = advance 1 ?st4" "entries' = object_push key v entries"
      using 3(3) q key c v b by (auto simp: unf Let_def err_at_def split: if_splits)
    show ?thesis using mt_one[OF w1(2) kt(2) w2(2) ws_append[OF w3(2) t(2)] t(3) w4(2)] pre e
      by (intro exI[of _ "w1 @ 34 # kt @ 34 # w2 @ 58 # (w3 @ w3') @ t @ w4"] exI[of _ "[(key, v)]"]) (simp add: object_push_def)
  qed
qed

lemma parse_sound:
  assumes "parse L input = Inr v" shows "json_document L input v"
proof -
  obtain st1 where p: "parse_value L 0 (skip_ws (0, input)) = Inr (v, st1)" and e: "snd (skip_ws st1) = []"
    using assms by (auto simp: parse_def checked_simps Let_def err_at_def split: if_splits)
  obtain w0 where w0: "input = w0 @ snd (skip_ws (0, input))" "ws w0" using skip_ws_sound[of "(0, input)"] by auto
  obtain w t where t: "snd (skip_ws (0, input)) = w @ t @ snd st1" "ws w" "json_text L MAX_DEPTH t v" using value_sound(1)[OF p] by auto
  have "ws (snd st1)" using skip_ws_sound[of st1] e by auto
  then show ?thesis unfolding json_document_def using w0 t ws_append[OF w0(2) t(2)]
    by (intro exI[of _ "w0 @ w"] exI[of _ t] exI[of _ "snd st1"]) simp
qed

subsection \<open>Properties\<close>

text \<open>C35. The parser accepts a byte string exactly when it is a JSON text of RFC 8259 with at most 128 arrays and
  objects inside one another, and the value it returns is the one that text denotes.
\<close>
theorem parser_decides_json: "parse L input = Inr v \<longleftrightarrow> json_document L input v"
  using parse_complete parse_sound by blast

text \<open>A float library of integers, to run the writers on.\<close>

definition int_floats :: "int f64_lib" where
  "int_floats = \<lparr>fl_finite = (\<lambda>_. True), fl_sci = (\<lambda>f. show_int f @ [101, 48]), fl_fixed = show_int,
     fl_parse = (\<lambda>t. let u = takeWhile (\<lambda>b. b = 45 \<or> digit b) t in
       case u of b # ds \<Rightarrow> Some (if b = 45 then - int (dec_value ds) else int (dec_value u)) | [] \<Rightarrow> None)\<rparr>"

lemma show_int_shape:
  obtains ds where "digits_text ds" "show_int f = ds" "0 \<le> f" "int (dec_value ds) = f"
  | ds where "digits_text ds" "show_int f = 45 # ds" "f < 0" "int (dec_value ds) = - f"
proof (cases "f < 0")
  case True
  then show ?thesis using that(2)[of "dec_digits (nat (- f))"] dec_digits_text(1) by (simp add: show_int_def dec_digits_value)
next
  case False
  then show ?thesis using that(1)[of "dec_digits (nat f)"] dec_digits_text(1) by (simp add: show_int_def dec_digits_value)
qed

lemma int_floats_parse:
  assumes "t = [] \<or> (\<exists>b r. t = b # r \<and> b \<noteq> 45 \<and> \<not> digit b)"
  shows "fl_parse int_floats (show_int f @ t) = Some f"
proof -
  have tw: "takeWhile (\<lambda>b. b = 45 \<or> digit b) (ds @ t) = ds" if "digits_text ds" for ds
    using that assms by (auto simp: digits_text_def takeWhile_append)
  show ?thesis
  proof (cases rule: show_int_shape[of f])
    case (1 ds)
    obtain d ds' where "ds = d # ds'" "d \<noteq> 45" using 1(1) by (cases ds) (auto simp: digits_text_def digit_def)
    then show ?thesis using tw[OF 1(1)] 1 by (simp add: int_floats_def Let_def)
  next
    case (2 ds)
    then show ?thesis using tw[OF 2(1)] by (simp add: int_floats_def Let_def)
  qed
qed

lemma int_floats_laws: "f64_laws int_floats"
proof -
  have i: "int_text (show_int f)" for f by (simp add: show_int_def dec_digits_int_text)
  have e: "exp_text [101, 48]" unfolding exp_text_def
    by (intro disjI2 exI[of _ 101] exI[of _ "[]"] exI[of _ "[48]"]) (simp add: digits_text_def)
  have f: "frac_text []" by (simp add: frac_text_def)
  have "\<exists>j fr ex. fl_sci int_floats x = j @ fr @ ex \<and> int_text j \<and> frac_text fr \<and> exp_text ex \<and> ex \<noteq> []" for x
    using i[of x] e f by (intro exI[of _ "show_int x"] exI[of _ "[]"] exI[of _ "[101, 48]"]) (simp add: int_floats_def)
  moreover have "\<exists>j fr. fl_fixed int_floats x = j @ fr \<and> int_text j \<and> frac_text fr" for x
    using i[of x] f by (intro exI[of _ "show_int x"] exI[of _ "[]"]) (simp add: int_floats_def)
  moreover have "fl_parse int_floats (fl_sci int_floats x) = Some x" "fl_parse int_floats (fl_fixed int_floats x) = Some x"
    "fl_parse int_floats (fl_fixed int_floats x @ [46, 48]) = Some x" for x
    using int_floats_parse[of "[101, 48]" x] int_floats_parse[of "[]" x] int_floats_parse[of "[46, 48]" x]
    by (simp_all add: int_floats_def[THEN arg_cong, of fl_sci] int_floats_def[THEN arg_cong, of fl_fixed])
  ultimately show ?thesis unfolding f64_laws_def by blast
qed

text \<open>C36. Every value the writers have a text for - integers in range, finite floats, at most 128 arrays and objects
  inside one another - reads back from its compact and from its pretty text as the same value, duplicates and order
  of the entries included, whatever white space the indent is.
\<close>
theorem json_roundtrip:
  assumes "f64_laws L" "json_ok L MAX_DEPTH v" "ws (utf8_encode indent)"
  shows "parse_str L (to_string L v) = Inr v \<and> parse_str L (to_string_pretty_with_indent L indent v) = Inr v"
proof -
  have doc: "json_document L (utf8_encode t) v" if "json_text L MAX_DEPTH (utf8_encode t) v" for t
    unfolding json_document_def using that by (intro exI[of _ "[]"] exI[of _ "utf8_encode t"]) simp
  show ?thesis
    using doc[OF write_compact_text[OF assms(1,2)]] doc[OF write_pretty_text[OF assms(1,3,2)]]
    by (simp add: parse_str_def to_string_def to_string_pretty_with_indent_def parse_complete)
qed

text \<open>A document with escapes, a character of three bytes, the least \<open>i64\<close>, the greatest \<open>u64\<close>, a float and empty containers.\<close>

definition sample_json :: "int json" where
  "sample_json = JObject [([97, 34], JArray [JNumber (JInt (- (2 ^ 63))), JNumber (JUInt (2 ^ 64 - 1)), JNumber (JFloat 7), JArray []]),
     ([0x20AC], JString [10, 7, 92]), ([97, 34], JObject [])]"

theorem json_roundtrip_witness:
  "parse_str int_floats (to_string int_floats sample_json) = Inr sample_json"
  using json_roundtrip[OF int_floats_laws, of sample_json "[9]"]
  by (simp add: sample_json_def MAX_DEPTH_def scalar_def ws_def is_ws_def int_floats_def utf8_char_ascii)

end
