(* ===== verification/Textbuf.thy ===== *)
theory Textbuf
  imports Utf8
begin

text \<open>
  \<open>crates/otter-textbuf\<close>: the text buffer behind the editor.  A byte is a number below 256, a \<open>String\<close> or \<open>&str\<close> the
  list of its scalar values; the two undo stacks have their top first.  Casts to \<open>i32\<close> wrap.
\<close>

subsection \<open>State\<close>

record edit_op =
  op_text :: "nat list"
  op_position :: nat
  op_is_insert :: bool
  op_time :: nat

record text_buffer =
  tb_data :: "nat list"
  tb_cursor :: nat
  tb_anchor :: nat
  tb_line_starts :: "nat list"
  tb_uses_crlf :: bool
  tb_is_modified :: bool
  tb_undo :: "edit_op list"
  tb_redo :: "edit_op list"
  tb_last_edit_time :: nat
  tb_preferred_col :: nat

definition tb_new :: text_buffer where
  "tb_new = \<lparr>tb_data = [], tb_cursor = 0, tb_anchor = 0, tb_line_starts = [0], tb_uses_crlf = False, tb_is_modified = False,
     tb_undo = [], tb_redo = [], tb_last_edit_time = 0, tb_preferred_col = 0\<rparr>"

text \<open>The positions after the newlines, and 0; cursor and anchor are clamped.\<close>

definition line_index :: "nat list \<Rightarrow> nat list" where
  "line_index data = 0 # map Suc (filter (\<lambda>i. data ! i = 10) [0..<length data])"

definition rebuild_line_index :: "text_buffer \<Rightarrow> text_buffer" where
  "rebuild_line_index tb = tb\<lparr>tb_line_starts := line_index (tb_data tb),
     tb_cursor := min (tb_cursor tb) (length (tb_data tb)), tb_anchor := min (tb_anchor tb) (length (tb_data tb))\<rparr>"

text \<open>\<open>Vec::drain\<close> of a range and \<open>Vec::splice\<close> of an empty one.\<close>

definition drain :: "nat list \<Rightarrow> nat \<Rightarrow> nat \<Rightarrow> nat list checked" where
  "drain data i j = (if i \<le> j \<and> j \<le> length data then Inr (take i data @ drop j data) else Inl Index_bounds)"

definition splice_in :: "nat list \<Rightarrow> nat \<Rightarrow> nat list \<Rightarrow> nat list checked" where
  "splice_in data p t = (if p \<le> length data then Inr (take p data @ t @ drop p data) else Inl Index_bounds)"

text \<open>
  \<open>String::from_utf8_lossy\<close>: a longest part of an ill-formed sequence that could begin a well-formed one becomes one
  replacement character.
\<close>

definition bad_prefix :: "nat list \<Rightarrow> nat" where
  "bad_prefix bs =
     (case bs of
        b0 # b1 # r \<Rightarrow>
          if 0xE0 \<le> b0 \<and> b0 \<le> 0xF4 \<and> second_ok b0 b1 then
            (case r of b2 # _ \<Rightarrow> if 0xF0 \<le> b0 \<and> cont b2 then 3 else 2 | [] \<Rightarrow> 2)
          else 1
      | _ \<Rightarrow> 1)"

lemma bad_prefix_pos: "0 < bad_prefix bs"
  by (auto simp: bad_prefix_def split: list.splits)

function utf8_lossy :: "nat list \<Rightarrow> nat list" where
  "utf8_lossy bs =
     (if bs = [] then []
      else case utf8_one bs of
        Some (c, r) \<Rightarrow> c # utf8_lossy r
      | None \<Rightarrow> 0xFFFD # utf8_lossy (drop (bad_prefix bs) bs))"
  by auto
termination
  by (relation "measure length") (auto dest: utf8_one_shorter simp: bad_prefix_pos)

declare utf8_lossy.simps [simp del]

subsection \<open>Loading and reading\<close>

text \<open>On bad input \<open>load\<close> gives the first length minus one at which the prefix is not valid.\<close>

definition load :: "nat list \<Rightarrow> text_buffer \<Rightarrow> (nat + unit) \<times> text_buffer" where
  "load bs tb =
     (if utf8_decode bs = None then
        (Inl (case List.find (\<lambda>i. utf8_decode (take (i + 1) bs) = None) [0..<length bs] of Some i \<Rightarrow> i | None \<Rightarrow> length bs), tb)
      else
        (Inr (), rebuild_line_index (tb\<lparr>tb_uses_crlf := list_ex (\<lambda>i. take 2 (drop i bs) = [13, 10]) [0..<length bs],
           tb_data := bs, tb_cursor := 0, tb_anchor := 0, tb_is_modified := False, tb_undo := [], tb_redo := []\<rparr>)))"

definition save :: "text_buffer \<Rightarrow> nat list \<times> text_buffer" where
  "save tb = (tb_data tb, tb\<lparr>tb_is_modified := False\<rparr>)"

definition content :: "text_buffer \<Rightarrow> nat list" where
  "content tb = utf8_lossy (tb_data tb)"

definition has_selection :: "text_buffer \<Rightarrow> bool" where
  "has_selection tb \<longleftrightarrow> tb_cursor tb \<noteq> tb_anchor tb"

definition selection :: "text_buffer \<Rightarrow> nat \<times> nat" where
  "selection tb = (min (tb_cursor tb) (tb_anchor tb), max (tb_cursor tb) (tb_anchor tb))"

text \<open>\<open>slice::binary_search\<close> on a strictly sorted slice.\<close>

definition binary_search :: "nat list \<Rightarrow> nat \<Rightarrow> nat + nat" where
  "binary_search xs x =
     (let n = length (takeWhile (\<lambda>y. y < x) xs) in if n < length xs \<and> xs ! n = x then Inr n else Inl n)"

definition line_at :: "text_buffer \<Rightarrow> nat \<Rightarrow> nat" where
  "line_at tb p = (case binary_search (tb_line_starts tb) p of Inr i \<Rightarrow> i | Inl i \<Rightarrow> if 0 < i then i - 1 else 0)"

text \<open>Bytes that start a character.\<close>

definition chars_in :: "nat list \<Rightarrow> nat" where
  "chars_in bs = length (filter (\<lambda>b. \<not> cont b) bs)"

definition byte_to_line_col :: "text_buffer \<Rightarrow> nat \<Rightarrow> (nat \<times> nat) checked" where
  "byte_to_line_col tb pos =
     (let p = min pos (length (tb_data tb)); line = line_at tb p in
      and_then (index_at (tb_line_starts tb) line) (\<lambda>line_start.
      and_then (slice_at (tb_data tb) line_start p) (\<lambda>bs. Inr (line, chars_in bs))))"

text \<open>The byte before the next line's start, or the end.\<close>

definition line_end :: "text_buffer \<Rightarrow> nat \<Rightarrow> nat checked" where
  "line_end tb line =
     (if line + 1 < length (tb_line_starts tb) then usub (tb_line_starts tb ! (line + 1)) 1 else Inr (length (tb_data tb)))"

fun col_loop :: "nat list \<Rightarrow> nat \<Rightarrow> nat \<Rightarrow> nat \<Rightarrow> nat" where
  "col_loop [] col current_col byte_pos = byte_pos"
| "col_loop (b # bs) col current_col byte_pos =
     (if col \<le> current_col then byte_pos
      else col_loop bs col (if \<not> cont b then current_col + 1 else current_col) (byte_pos + 1))"

definition line_col_to_byte :: "text_buffer \<Rightarrow> nat \<Rightarrow> nat \<Rightarrow> nat checked" where
  "line_col_to_byte tb line col =
     (if length (tb_line_starts tb) \<le> line then Inr (length (tb_data tb))
      else
        let line_start = tb_line_starts tb ! line in
        and_then (line_end tb line) (\<lambda>e.
        and_then (slice_at (tb_data tb) line_start e) (\<lambda>bs. Inr (col_loop bs col 0 line_start))))"

definition line_count :: "text_buffer \<Rightarrow> nat" where
  "line_count tb = length (tb_line_starts tb)"

definition line_text :: "text_buffer \<Rightarrow> nat \<Rightarrow> nat list checked" where
  "line_text tb line =
     (if length (tb_line_starts tb) \<le> line then Inr []
      else and_then (line_end tb line) (\<lambda>e.
        and_then (slice_at (tb_data tb) (tb_line_starts tb ! line) e) (\<lambda>bs. Inr (utf8_lossy bs))))"

subsection \<open>Moving the cursor and the selection\<close>

definition set_cursor :: "nat \<Rightarrow> text_buffer \<Rightarrow> text_buffer" where
  "set_cursor pos tb = tb\<lparr>tb_cursor := min pos (length (tb_data tb)), tb_anchor := min pos (length (tb_data tb))\<rparr>"

text \<open>\<open>set_head\<close> is the assignment to \<open>cursor\<close> of the selection-extending operations.\<close>

definition set_head :: "nat \<Rightarrow> text_buffer \<Rightarrow> text_buffer" where
  "set_head pos tb = tb\<lparr>tb_cursor := pos\<rparr>"

definition as_i32 :: "nat \<Rightarrow> int" where
  "as_i32 n = (if n mod 2 ^ 32 < 2 ^ 31 then int (n mod 2 ^ 32) else int (n mod 2 ^ 32) - 2 ^ 32)"

definition as_usize :: "int \<Rightarrow> nat" where
  "as_usize i = nat (i mod 2 ^ 64)"

text \<open>One character to the right and to the left.\<close>

function char_right :: "nat list \<Rightarrow> int \<Rightarrow> int checked" where
  "char_right data p =
     (if length data \<le> as_usize p then Inr p
      else if 2 ^ 31 - 1 \<le> p then Inl Arith_overflow
      else and_then (index_at data (as_usize (p + 1))) (\<lambda>b.
        if \<not> cont b then Inr (p + 1) else char_right data (p + 1)))"
  by auto
termination
  by (relation "measure (\<lambda>(data, p). nat (2 ^ 31 - p))") auto

declare char_right.simps [simp del]

function char_left :: "nat list \<Rightarrow> int \<Rightarrow> int checked" where
  "char_left data p =
     (if p \<le> 0 then Inr p
      else and_then (index_at data (as_usize (p - 1))) (\<lambda>b.
        if \<not> cont b then Inr (p - 1) else char_left data (p - 1)))"
  by auto
termination
  by (relation "measure (\<lambda>(data, p). nat p)") auto

declare char_left.simps [simp del]

fun repeat_times :: "nat \<Rightarrow> ('s \<Rightarrow> 's checked) \<Rightarrow> 's \<Rightarrow> 's checked" where
  "repeat_times 0 f s = Inr s"
| "repeat_times (Suc n) f s = and_then (f s) (repeat_times n f)"

definition char_head :: "int \<Rightarrow> text_buffer \<Rightarrow> nat checked" where
  "char_head delta tb =
     and_then
       (if 0 < delta then repeat_times (nat delta) (char_right (tb_data tb)) (as_i32 (tb_cursor tb))
        else if delta = - (2 ^ 31) then Inl Arith_overflow
        else repeat_times (nat (- delta)) (char_left (tb_data tb)) (as_i32 (tb_cursor tb)))
       (\<lambda>p. Inr (min (as_usize p) (length (tb_data tb))))"

definition move_cursor_chars :: "int \<Rightarrow> text_buffer \<Rightarrow> text_buffer checked" where
  "move_cursor_chars delta tb = and_then (char_head delta tb) (\<lambda>p. Inr (tb\<lparr>tb_cursor := p, tb_anchor := p\<rparr>))"

definition extend_selection_char :: "int \<Rightarrow> text_buffer \<Rightarrow> text_buffer checked" where
  "extend_selection_char delta tb = and_then (char_head delta tb) (\<lambda>p. Inr (set_head p tb))"

definition line_start_head :: "text_buffer \<Rightarrow> nat checked" where
  "line_start_head tb = and_then (byte_to_line_col tb (tb_cursor tb)) (\<lambda>(line, _). index_at (tb_line_starts tb) line)"

definition line_end_head :: "text_buffer \<Rightarrow> nat checked" where
  "line_end_head tb = and_then (byte_to_line_col tb (tb_cursor tb)) (\<lambda>(line, _). line_end tb line)"

definition up_head :: "nat \<Rightarrow> text_buffer \<Rightarrow> (nat \<times> nat) checked" where
  "up_head n tb = and_then (byte_to_line_col tb (tb_cursor tb)) (\<lambda>(line, col).
     and_then (if n \<le> line then line_col_to_byte tb (line - n) col else Inr 0) (\<lambda>p. Inr (col, p)))"

definition down_head :: "nat \<Rightarrow> text_buffer \<Rightarrow> (nat \<times> nat) checked" where
  "down_head n tb = and_then (byte_to_line_col tb (tb_cursor tb)) (\<lambda>(line, col).
     and_then (uadd line n) (\<lambda>new_line.
     and_then (if new_line < length (tb_line_starts tb) then line_col_to_byte tb new_line col else Inr (length (tb_data tb)))
       (\<lambda>p. Inr (col, p))))"

definition move_to_line_start :: "text_buffer \<Rightarrow> text_buffer checked" where
  "move_to_line_start tb = and_then (line_start_head tb) (\<lambda>p. Inr (set_cursor p tb))"

definition move_to_line_end :: "text_buffer \<Rightarrow> text_buffer checked" where
  "move_to_line_end tb = and_then (line_end_head tb) (\<lambda>p. Inr (set_cursor p tb))"

definition move_to_start :: "text_buffer \<Rightarrow> text_buffer" where "move_to_start = set_cursor 0"
definition move_to_end :: "text_buffer \<Rightarrow> text_buffer" where "move_to_end tb = set_cursor (length (tb_data tb)) tb"

definition move_up :: "nat \<Rightarrow> text_buffer \<Rightarrow> text_buffer checked" where
  "move_up n tb = and_then (up_head n tb) (\<lambda>(col, p). Inr (set_cursor p (tb\<lparr>tb_preferred_col := col\<rparr>)))"

definition move_down :: "nat \<Rightarrow> text_buffer \<Rightarrow> text_buffer checked" where
  "move_down n tb = and_then (down_head n tb) (\<lambda>(col, p). Inr (set_cursor p (tb\<lparr>tb_preferred_col := col\<rparr>)))"

definition page_up :: "nat \<Rightarrow> text_buffer \<Rightarrow> text_buffer checked" where "page_up = move_up"
definition page_down :: "nat \<Rightarrow> text_buffer \<Rightarrow> text_buffer checked" where "page_down = move_down"

definition extend_selection_to_line_start :: "text_buffer \<Rightarrow> text_buffer checked" where
  "extend_selection_to_line_start tb = and_then (line_start_head tb) (\<lambda>p. Inr (set_head p tb))"

definition extend_selection_to_line_end :: "text_buffer \<Rightarrow> text_buffer checked" where
  "extend_selection_to_line_end tb = and_then (line_end_head tb) (\<lambda>p. Inr (set_head p tb))"

definition extend_selection_to_start :: "text_buffer \<Rightarrow> text_buffer" where "extend_selection_to_start = set_head 0"

definition extend_selection_to_end :: "text_buffer \<Rightarrow> text_buffer" where
  "extend_selection_to_end tb = set_head (length (tb_data tb)) tb"

definition extend_selection_up :: "nat \<Rightarrow> text_buffer \<Rightarrow> text_buffer checked" where
  "extend_selection_up n tb = and_then (up_head n tb) (\<lambda>(col, p). Inr (set_head p tb))"

definition extend_selection_down :: "nat \<Rightarrow> text_buffer \<Rightarrow> text_buffer checked" where
  "extend_selection_down n tb = and_then (down_head n tb) (\<lambda>(col, p). Inr (set_head p tb))"

definition is_word_char :: "nat \<Rightarrow> bool" where
  "is_word_char b \<longleftrightarrow> 97 \<le> b \<and> b \<le> 122 \<or> 65 \<le> b \<and> b \<le> 90 \<or> 48 \<le> b \<and> b \<le> 57 \<or> b = 95"

text \<open>A loop that steps to the right while the byte there has a property.\<close>

definition skip_right :: "(nat \<Rightarrow> bool) \<Rightarrow> nat list \<Rightarrow> nat \<Rightarrow> nat" where
  "skip_right p data pos = pos + length (takeWhile p (drop pos data))"

definition word_right :: "nat list \<Rightarrow> nat \<Rightarrow> nat" where
  "word_right data pos = skip_right (\<lambda>b. \<not> is_word_char b \<and> b \<noteq> 10) data (skip_right is_word_char data pos)"

fun skip_left :: "(nat \<Rightarrow> bool) \<Rightarrow> nat list \<Rightarrow> nat \<Rightarrow> nat" where
  "skip_left p data 0 = 0"
| "skip_left p data (Suc n) = (if p (data ! Suc n) then skip_left p data n else Suc n)"

fun word_start :: "nat list \<Rightarrow> nat \<Rightarrow> nat" where
  "word_start data 0 = 0"
| "word_start data (Suc n) = (if is_word_char (data ! n) then word_start data n else Suc n)"

definition word_left :: "nat list \<Rightarrow> nat \<Rightarrow> nat" where
  "word_left data cursor = word_start data (skip_left (\<lambda>b. \<not> is_word_char b \<and> b \<noteq> 10) data (cursor - 1))"

definition move_word_right :: "text_buffer \<Rightarrow> text_buffer" where
  "move_word_right tb =
     (if length (tb_data tb) \<le> tb_cursor tb then tb
      else tb\<lparr>tb_cursor := word_right (tb_data tb) (tb_cursor tb), tb_anchor := word_right (tb_data tb) (tb_cursor tb)\<rparr>)"

definition move_word_left :: "text_buffer \<Rightarrow> text_buffer" where
  "move_word_left tb =
     (if tb_cursor tb = 0 then tb
      else tb\<lparr>tb_cursor := word_left (tb_data tb) (tb_cursor tb), tb_anchor := word_left (tb_data tb) (tb_cursor tb)\<rparr>)"

definition extend_selection_word_right :: "text_buffer \<Rightarrow> text_buffer" where
  "extend_selection_word_right tb =
     (if length (tb_data tb) \<le> tb_cursor tb then tb else set_head (word_right (tb_data tb) (tb_cursor tb)) tb)"

definition extend_selection_word_left :: "text_buffer \<Rightarrow> text_buffer" where
  "extend_selection_word_left tb = (if tb_cursor tb = 0 then tb else set_head (word_left (tb_data tb) (tb_cursor tb)) tb)"

subsection \<open>Editing\<close>

definition drop_selection :: "text_buffer \<Rightarrow> text_buffer checked" where
  "drop_selection tb =
     (case selection tb of (s, e) \<Rightarrow>
        if s \<noteq> e then and_then (drain (tb_data tb) s e) (\<lambda>d. Inr (tb\<lparr>tb_data := d, tb_cursor := s\<rparr>)) else Inr tb)"

definition edited :: "nat \<Rightarrow> text_buffer \<Rightarrow> text_buffer" where
  "edited time tb = rebuild_line_index (tb\<lparr>tb_is_modified := True, tb_last_edit_time := time\<rparr>)"

text \<open>The entry of an insertion: a byte typed within a second right after the last insertion joins it.\<close>

definition push_insert :: "nat list \<Rightarrow> nat \<Rightarrow> nat \<Rightarrow> nat \<Rightarrow> edit_op list \<Rightarrow> edit_op list" where
  "push_insert t cursor last_time time undo =
     (case undo of
        op # ops \<Rightarrow>
          if time - last_time < 1000 \<and> op_is_insert op \<and> op_position op + length (op_text op) = cursor \<and> length t = 1
          then op\<lparr>op_text := op_text op @ t\<rparr> # ops
          else \<lparr>op_text = t, op_position = cursor, op_is_insert = True, op_time = time\<rparr> # undo
      | [] \<Rightarrow> [\<lparr>op_text = t, op_position = cursor, op_is_insert = True, op_time = time\<rparr>])"

definition insert_text :: "nat list \<Rightarrow> nat \<Rightarrow> text_buffer \<Rightarrow> text_buffer checked" where
  "insert_text text time tb =
     and_then (drop_selection tb) (\<lambda>tb1.
       let t = utf8_encode text; c = tb_cursor tb1 in
       and_then (splice_in (tb_data tb1) c t) (\<lambda>d.
         Inr (edited time (tb1\<lparr>tb_undo := push_insert t c (tb_last_edit_time tb1) time (tb_undo tb1), tb_redo := [],
           tb_data := d, tb_cursor := c + length t, tb_anchor := c + length t\<rparr>))))"

text \<open>The start of the character before a position, and the end of the one at it.\<close>

fun back_char :: "nat list \<Rightarrow> nat \<Rightarrow> nat checked" where
  "back_char data 0 = Inl Arith_overflow"
| "back_char data (Suc p) = and_then (index_at data p) (\<lambda>b. if \<not> cont b then Inr p else back_char data p)"

definition forward_char :: "nat list \<Rightarrow> nat \<Rightarrow> nat" where
  "forward_char data p = skip_right cont data (p + 1)"

definition delete_char :: "nat \<Rightarrow> text_buffer \<Rightarrow> text_buffer checked" where
  "delete_char time tb =
     (if tb_cursor tb = 0 then Inr tb
      else
        and_then (back_char (tb_data tb) (tb_cursor tb)) (\<lambda>s.
        and_then (slice_at (tb_data tb) s (tb_cursor tb)) (\<lambda>t.
        and_then (drain (tb_data tb) s (tb_cursor tb)) (\<lambda>d.
          Inr (edited time (tb\<lparr>tb_undo := \<lparr>op_text = t, op_position = s, op_is_insert = False, op_time = time\<rparr> # tb_undo tb,
            tb_redo := [], tb_data := d, tb_cursor := s, tb_anchor := s\<rparr>))))))"

definition delete_forward :: "nat \<Rightarrow> text_buffer \<Rightarrow> text_buffer checked" where
  "delete_forward time tb =
     (if length (tb_data tb) \<le> tb_cursor tb then Inr tb
      else
        let e = forward_char (tb_data tb) (tb_cursor tb) in
        and_then (slice_at (tb_data tb) (tb_cursor tb) e) (\<lambda>t.
        and_then (drain (tb_data tb) (tb_cursor tb) e) (\<lambda>d.
          Inr (edited time (tb\<lparr>tb_undo := \<lparr>op_text = t, op_position = tb_cursor tb, op_is_insert = False, op_time = time\<rparr>
            # tb_undo tb, tb_redo := [], tb_data := d\<rparr>)))))"

definition insert_newline :: "nat \<Rightarrow> text_buffer \<Rightarrow> text_buffer checked" where
  "insert_newline time tb =
     and_then (line_start_head tb) (\<lambda>s.
       let indent = takeWhile (\<lambda>b. b = 32 \<or> b = 9) (drop s (tb_data tb)) in
       insert_text ((if tb_uses_crlf tb then [13, 10] else [10]) @ indent) time tb)"

definition insert_tab :: "nat \<Rightarrow> text_buffer \<Rightarrow> text_buffer checked" where
  "insert_tab = insert_text [32, 32, 32, 32]"

definition paste :: "nat list \<Rightarrow> nat \<Rightarrow> text_buffer \<Rightarrow> text_buffer checked" where
  "paste = insert_text"

definition selected_lines :: "text_buffer \<Rightarrow> nat list checked" where
  "selected_lines tb =
     (case selection tb of (s, e) \<Rightarrow>
        and_then (byte_to_line_col tb s) (\<lambda>(start_line, _).
        and_then (byte_to_line_col tb e) (\<lambda>(end_line, _).
        and_then (usub (length (tb_line_starts tb)) 1) (\<lambda>last. Inr [start_line..<Suc (min end_line last)]))))"

definition indent_line :: "nat list \<Rightarrow> nat \<Rightarrow> nat list \<times> nat \<Rightarrow> (nat list \<times> nat) checked" where
  "indent_line starts line = (\<lambda>(data, offset).
     and_then (index_at starts line) (\<lambda>s.
       if s + offset < length data then and_then (splice_in data (s + offset) [32, 32, 32, 32]) (\<lambda>d. Inr (d, offset + 4))
       else Inr (data, offset)))"

definition indent_lines :: "nat \<Rightarrow> text_buffer \<Rightarrow> text_buffer checked" where
  "indent_lines time tb =
     and_then (selected_lines tb) (\<lambda>ls.
     and_then (for_each ls (indent_line (tb_line_starts tb)) (tb_data tb, 0)) (\<lambda>(d, _).
       Inr (edited time (tb\<lparr>tb_data := d\<rparr>))))"

definition outdent_line :: "nat list \<Rightarrow> nat \<Rightarrow> nat list \<times> nat \<Rightarrow> (nat list \<times> nat) checked" where
  "outdent_line starts line = (\<lambda>(data, offset).
     and_then (index_at starts line) (\<lambda>ls.
       let s = ls - offset in
       if s < length data then
         (let spaces = length (takeWhile (\<lambda>b. b = 32) (take 4 (drop s data))) in
          if 0 < spaces then and_then (drain data s (s + spaces)) (\<lambda>d. Inr (d, offset - spaces)) else Inr (data, offset))
       else Inr (data, offset)))"

definition outdent_lines :: "nat \<Rightarrow> text_buffer \<Rightarrow> text_buffer checked" where
  "outdent_lines time tb =
     and_then (selected_lines tb) (\<lambda>ls.
     and_then (for_each ls (outdent_line (tb_line_starts tb)) (tb_data tb, 0)) (\<lambda>(d, _).
       Inr (edited time (tb\<lparr>tb_data := d\<rparr>))))"

definition copy_selection :: "text_buffer \<Rightarrow> nat list checked" where
  "copy_selection tb =
     (case selection tb of (s, e) \<Rightarrow>
        if s = e then Inr [] else and_then (slice_at (tb_data tb) s e) (\<lambda>bs. Inr (utf8_lossy bs)))"

definition cut :: "nat \<Rightarrow> text_buffer \<Rightarrow> (nat list \<times> text_buffer) checked" where
  "cut time tb =
     (case selection tb of (s, e) \<Rightarrow>
        if s = e then Inr ([], tb)
        else
          and_then (copy_selection tb) (\<lambda>text.
          and_then (drain (tb_data tb) s e) (\<lambda>d.
            Inr (text, edited time (tb\<lparr>tb_data := d, tb_cursor := s, tb_anchor := s\<rparr>)))))"

definition cut_to_clipboard :: "nat list \<Rightarrow> nat \<Rightarrow> text_buffer \<Rightarrow> (nat list \<times> text_buffer) checked" where
  "cut_to_clipboard clipboard time tb = cut time tb"

definition copy_to_clipboard :: "nat list \<Rightarrow> text_buffer \<Rightarrow> nat list checked" where
  "copy_to_clipboard clipboard tb = copy_selection tb"

definition paste_from_clipboard :: "nat list \<Rightarrow> nat \<Rightarrow> text_buffer \<Rightarrow> text_buffer checked" where
  "paste_from_clipboard = insert_text"

subsection \<open>Searching and replacing\<close>

definition matches_at :: "nat list \<Rightarrow> nat list \<Rightarrow> nat \<Rightarrow> bool" where
  "matches_at data pat i \<longleftrightarrow> i + length pat \<le> length data \<and> take (length pat) (drop i data) = pat"

definition find_from :: "nat list \<Rightarrow> nat list \<Rightarrow> nat \<Rightarrow> (nat \<times> nat) option" where
  "find_from data pat start_pos =
     map_option (\<lambda>i. (i, i + length pat)) (List.find (matches_at data pat) [start_pos..<length data])"

definition find_back :: "nat list \<Rightarrow> nat list \<Rightarrow> nat \<Rightarrow> (nat \<times> nat) option checked" where
  "find_back data pat start_pos =
     and_then (uadd (start_pos - 1) (length pat)) (\<lambda>_.
       Inr (map_option (\<lambda>i. (i, i + length pat)) (List.find (matches_at data pat) (rev [0..<Suc (start_pos - 1)]))))"

definition find_next :: "nat list \<Rightarrow> nat \<Rightarrow> text_buffer \<Rightarrow> (nat \<times> nat) option" where
  "find_next pattern start_pos tb = find_from (tb_data tb) (utf8_encode pattern) start_pos"

definition find_prev :: "nat list \<Rightarrow> nat \<Rightarrow> text_buffer \<Rightarrow> (nat \<times> nat) option checked" where
  "find_prev pattern start_pos tb = find_back (tb_data tb) (utf8_encode pattern) start_pos"

text \<open>\<open>lower\<close> is \<open>str::to_lowercase\<close>; a buffer that is not UTF-8 reads as empty here.\<close>

definition lower_data :: "(nat list \<Rightarrow> nat list) \<Rightarrow> text_buffer \<Rightarrow> nat list" where
  "lower_data lower tb = utf8_encode (lower (case utf8_decode (tb_data tb) of Some s \<Rightarrow> s | None \<Rightarrow> []))"

definition find_next_case_insensitive :: "(nat list \<Rightarrow> nat list) \<Rightarrow> nat list \<Rightarrow> nat \<Rightarrow> text_buffer \<Rightarrow> (nat \<times> nat) option" where
  "find_next_case_insensitive lower pattern start_pos tb = find_from (lower_data lower tb) (utf8_encode (lower pattern)) start_pos"

definition find_prev_case_insensitive ::
    "(nat list \<Rightarrow> nat list) \<Rightarrow> nat list \<Rightarrow> nat \<Rightarrow> text_buffer \<Rightarrow> (nat \<times> nat) option checked" where
  "find_prev_case_insensitive lower pattern start_pos tb = find_back (lower_data lower tb) (utf8_encode (lower pattern)) start_pos"

definition replace_one :: "nat \<Rightarrow> nat list \<Rightarrow> nat list \<Rightarrow> nat \<Rightarrow> text_buffer \<Rightarrow> (bool \<times> text_buffer) checked" where
  "replace_one pos old new time tb =
     and_then (uadd pos (length (utf8_encode old))) (\<lambda>e.
       if matches_at (tb_data tb) (utf8_encode old) pos then
         and_then (drain (tb_data tb) pos e) (\<lambda>d1.
         and_then (splice_in d1 pos (utf8_encode new)) (\<lambda>d2.
           Inr (True, edited time (tb\<lparr>tb_data := d2, tb_cursor := pos\<rparr>))))
       else Inr (False, tb))"

text \<open>
  The loop of \<open>replace_all\<close>: data, position and count; it may run forever.  The count is a number without a bound: every
  turn but those of an empty pattern passes a byte of the text, so it stays below the length of a vector.  An empty pattern
  would end the loop after \<open>2 ^ 64\<close> turns, by the overflow of the \<open>usize\<close>; that is not modelled.
\<close>

partial_function (option) replace_loop :: "nat list \<Rightarrow> nat list \<Rightarrow> nat list \<Rightarrow> nat \<Rightarrow> nat \<Rightarrow> (nat list \<times> nat) checked option" where
  "replace_loop old new data pos count =
     (if length data \<le> pos then Some (Inr (data, count))
      else case find_from data old pos of
        None \<Rightarrow> Some (Inr (data, count))
      | Some (s, _) \<Rightarrow>
          (case and_then (drain data s (s + length old)) (\<lambda>d1. splice_in d1 s new) of
             Inl e \<Rightarrow> Some (Inl e)
           | Inr d \<Rightarrow> replace_loop old new d (s + length new) (count + 1)))"

definition replace_all :: "nat list \<Rightarrow> nat list \<Rightarrow> nat \<Rightarrow> text_buffer \<Rightarrow> (nat \<times> text_buffer) checked option" where
  "replace_all old new time tb =
     map_option (\<lambda>r. and_then r (\<lambda>(d, count).
       Inr (count, if 0 < count then edited time (tb\<lparr>tb_data := d\<rparr>) else tb)))
       (replace_loop (utf8_encode old) (utf8_encode new) (tb_data tb) 0 0)"

subsection \<open>Undo and redo\<close>

text \<open>Reverting or repeating an edit, with the cursor after it.\<close>

definition revert_op :: "edit_op \<Rightarrow> nat list \<Rightarrow> (nat list \<times> nat) checked" where
  "revert_op op data =
     (if op_is_insert op
      then and_then (drain data (op_position op) (op_position op + length (op_text op))) (\<lambda>d. Inr (d, op_position op))
      else and_then (splice_in data (op_position op) (op_text op)) (\<lambda>d. Inr (d, op_position op + length (op_text op))))"

definition repeat_op :: "edit_op \<Rightarrow> nat list \<Rightarrow> (nat list \<times> nat) checked" where
  "repeat_op op data =
     (if op_is_insert op
      then and_then (splice_in data (op_position op) (op_text op)) (\<lambda>d. Inr (d, op_position op + length (op_text op)))
      else and_then (drain data (op_position op) (op_position op + length (op_text op))) (\<lambda>d. Inr (d, op_position op)))"

definition undo :: "text_buffer \<Rightarrow> text_buffer checked" where
  "undo tb =
     (case tb_undo tb of
        [] \<Rightarrow> Inr tb
      | op # ops \<Rightarrow> and_then (revert_op op (tb_data tb)) (\<lambda>(d, c).
          Inr (rebuild_line_index (tb\<lparr>tb_data := d, tb_cursor := c, tb_anchor := c, tb_undo := ops, tb_redo := op # tb_redo tb\<rparr>))))"

definition redo :: "text_buffer \<Rightarrow> text_buffer checked" where
  "redo tb =
     (case tb_redo tb of
        [] \<Rightarrow> Inr tb
      | op # ops \<Rightarrow> and_then (repeat_op op (tb_data tb)) (\<lambda>(d, c).
          Inr (rebuild_line_index (tb\<lparr>tb_data := d, tb_cursor := c, tb_anchor := c, tb_redo := ops, tb_undo := op # tb_undo tb\<rparr>))))"

subsection \<open>The line index\<close>

lemma line_index_Nil [simp]: "line_index [] = [0]"
  by (simp add: line_index_def)

lemma line_index_snoc: "line_index (data @ [b]) = line_index data @ (if b = 10 then [length data + 1] else [])"
proof -
  have "filter (\<lambda>i. (data @ [b]) ! i = 10) [0..<length data] = filter (\<lambda>i. data ! i = 10) [0..<length data]"
    by (rule filter_cong) (simp_all add: nth_append)
  then show ?thesis by (simp add: line_index_def)
qed

lemma line_index_nonempty [simp]: "line_index data \<noteq> []" "0 < length (line_index data)"
  by (simp_all add: line_index_def)

lemma line_index_le: "s \<in> set (line_index data) \<Longrightarrow> s \<le> length data"
  by (auto simp: line_index_def)

lemma line_index_sorted: "sorted_wrt (<) (line_index data)"
  by (induction data rule: rev_induct) (auto simp: line_index_snoc sorted_wrt_append dest: line_index_le)

lemma line_index_upto: "p \<le> length data \<Longrightarrow> takeWhile (\<lambda>y. y \<le> p) (line_index data) = line_index (take p data)"
proof (induction data rule: rev_induct)
  case (snoc b data)
  show ?case
  proof (cases "p \<le> length data")
    case True
    have "takeWhile (\<lambda>y. y \<le> p) (line_index (data @ [b])) = takeWhile (\<lambda>y. y \<le> p) (line_index data)"
    proof (cases "\<forall>x\<in>set (line_index data). x \<le> p")
      case t: True
      then have e: "takeWhile (\<lambda>y. y \<le> p) (line_index data) = line_index data" by (simp only: takeWhile_eq_all_conv)
      show ?thesis using True t by (simp add: line_index_snoc e)
    qed (auto simp: line_index_snoc takeWhile_append)
    then show ?thesis using snoc.IH True by simp
  next
    case False
    then have "p = length (data @ [b])" using snoc.prems by simp
    then have "takeWhile (\<lambda>y. y \<le> p) (line_index (data @ [b])) = line_index (data @ [b])"
      using line_index_le[of _ "data @ [b]"] by (subst takeWhile_eq_all_conv) blast
    then show ?thesis using \<open>p = _\<close> by simp
  qed
qed simp

lemma length_line_index: "length (line_index data) = count_list data 10 + 1"
  by (induction data rule: rev_induct) (simp_all add: line_index_snoc)

text \<open>What follows the last newline.\<close>

definition last_line :: "nat list \<Rightarrow> nat list" where
  "last_line bs = rev (takeWhile (\<lambda>b. b \<noteq> 10) (rev bs))"

lemma last_line_index: "drop (last (line_index data)) data = last_line data"
proof (induction data rule: rev_induct)
  case (snoc b data)
  have "last (line_index data) \<le> length data" by (rule line_index_le) simp
  then show ?case using snoc by (simp add: line_index_snoc last_line_def)
qed (simp add: last_line_def)

lemma takeWhile_le_less:
  "sorted_wrt (<) xs \<Longrightarrow> length (takeWhile (\<lambda>y. y \<le> p) xs) =
     (let n = length (takeWhile (\<lambda>y. y < p) xs) in if n < length xs \<and> xs ! n = (p::nat) then n + 1 else n)"
proof (induction xs)
  case (Cons x xs)
  consider "x < p" | "x = p" | "p < x" by linarith
  then show ?case
  proof cases
    case 1
    then show ?thesis using Cons by (simp add: Let_def)
  next
    case 2
    have "takeWhile (\<lambda>y. y \<le> p) xs = []" using Cons.prems 2 by (cases xs) auto
    then show ?thesis using 2 by simp
  qed simp
qed simp

lemma binary_search_sorted:
  assumes "sorted_wrt (<) xs" "xs \<noteq> []" "hd xs = 0"
  shows "(case binary_search xs p of Inr i \<Rightarrow> i | Inl i \<Rightarrow> if 0 < i then i - 1 else 0) = length (takeWhile (\<lambda>y. y \<le> p) xs) - 1"
  unfolding takeWhile_le_less[OF assms(1)] binary_search_def Let_def by auto

definition tb_wf :: "text_buffer \<Rightarrow> bool" where
  "tb_wf tb \<longleftrightarrow> tb_line_starts tb = line_index (tb_data tb) \<and> tb_cursor tb \<le> length (tb_data tb) \<and> tb_anchor tb \<le> length (tb_data tb)"

lemma hd_line_index [simp]: "hd (line_index data) = 0"
  by (simp add: line_index_def)

lemma line_at_wf:
  assumes "tb_wf tb" "p \<le> length (tb_data tb)"
  shows "line_at tb p = count_list (take p (tb_data tb)) 10" "line_at tb p < length (tb_line_starts tb)"
    "tb_line_starts tb ! line_at tb p = last (line_index (take p (tb_data tb)))"
proof -
  let ?d = "tb_data tb"
  have s: "tb_line_starts tb = line_index ?d" using assms(1) by (simp add: tb_wf_def)
  have tw: "takeWhile (\<lambda>y. y \<le> p) (line_index ?d) = line_index (take p ?d)" by (rule line_index_upto[OF assms(2)])
  have "line_at tb p = length (takeWhile (\<lambda>y. y \<le> p) (line_index ?d)) - 1"
    unfolding line_at_def s by (rule binary_search_sorted[OF line_index_sorted]) simp_all
  then have l: "line_at tb p = length (line_index (take p ?d)) - 1" by (simp add: tw)
  then show "line_at tb p = count_list (take p ?d) 10" by (simp add: length_line_index)
  have le: "length (line_index (take p ?d)) \<le> length (line_index ?d)" using length_takeWhile_le[of "\<lambda>y. y \<le> p" "line_index ?d"] tw by simp
  then show "line_at tb p < length (tb_line_starts tb)" unfolding l s using line_index_nonempty(2)[of "take p ?d"] by linarith
  have "line_index ?d ! line_at tb p = takeWhile (\<lambda>y. y \<le> p) (line_index ?d) ! line_at tb p"
    by (rule takeWhile_nth[symmetric]) (simp add: l tw)
  then show "tb_line_starts tb ! line_at tb p = last (line_index (take p ?d))"
    by (simp add: s tw l last_conv_nth)
qed

text \<open>The line of a position is the number of newlines before it, the column the number of characters after the last one.\<close>

lemma last_line_index_le: "last (line_index bs) \<le> length bs"
  by (rule line_index_le) simp

lemma byte_to_line_col_exact:
  assumes "tb_wf tb"
  shows "byte_to_line_col tb pos =
    Inr (count_list (take pos (tb_data tb)) 10, chars_in (last_line (take pos (tb_data tb))))"
proof -
  let ?d = "tb_data tb" and ?p = "min pos (length (tb_data tb))"
  note l = line_at_wf[OF assms, of ?p]
  have t: "take ?p ?d = take pos ?d" by (cases "pos \<le> length ?d") simp_all
  have le: "last (line_index (take pos ?d)) \<le> ?p" using last_line_index_le[of "take pos ?d"] by simp
  have "slice_at ?d (last (line_index (take pos ?d))) ?p = Inr (drop (last (line_index (take pos ?d))) (take ?p ?d))"
    using le by (simp add: slice_at_def drop_take)
  then show ?thesis using l by (simp add: byte_to_line_col_def Let_def index_at_def t last_line_index)
qed

lemma line_end_ok:
  assumes "tb_wf tb" "line < length (tb_line_starts tb)"
  shows "\<exists>e. line_end tb line = Inr e \<and> tb_line_starts tb ! line \<le> e \<and> e \<le> length (tb_data tb)"
proof (cases "line + 1 < length (tb_line_starts tb)")
  case True
  have s: "tb_line_starts tb = line_index (tb_data tb)" using assms(1) by (simp add: tb_wf_def)
  have "line_index (tb_data tb) ! line < line_index (tb_data tb) ! (line + 1)"
    using sorted_wrt_nth_less[OF line_index_sorted, of line "line + 1"] True s by simp
  moreover have "line_index (tb_data tb) ! (line + 1) \<le> length (tb_data tb)" by (rule line_index_le) (use True s in simp)
  ultimately have "line_index (tb_data tb) ! line \<le> line_index (tb_data tb) ! (line + 1) - 1"
    "line_index (tb_data tb) ! (line + 1) - 1 \<le> length (tb_data tb)" "1 \<le> line_index (tb_data tb) ! (line + 1)" by linarith+
  then show ?thesis using True s by (simp add: line_end_def usub_def)
next
  case False
  have "tb_line_starts tb ! line \<le> length (tb_data tb)" using line_index_le assms by (simp add: tb_wf_def)
  then show ?thesis using False by (simp add: line_end_def)
qed

lemma col_loop_bounds: "byte_pos \<le> col_loop bs col c byte_pos \<and> col_loop bs col c byte_pos \<le> byte_pos + length bs"
  by (induction bs col c byte_pos rule: col_loop.induct) (auto simp: Suc_le_eq)

lemma line_col_to_byte_ok: "tb_wf tb \<Longrightarrow> \<exists>p. line_col_to_byte tb line col = Inr p \<and> p \<le> length (tb_data tb)"
proof (cases "length (tb_line_starts tb) \<le> line")
  case False
  assume wf: "tb_wf tb"
  obtain e where e: "line_end tb line = Inr e" "tb_line_starts tb ! line \<le> e" "e \<le> length (tb_data tb)"
    using line_end_ok[OF wf, of line] False by auto
  have "col_loop (take (e - tb_line_starts tb ! line) (drop (tb_line_starts tb ! line) (tb_data tb))) col 0 (tb_line_starts tb ! line) \<le> e"
    using col_loop_bounds[of "tb_line_starts tb ! line" "take (e - tb_line_starts tb ! line) (drop (tb_line_starts tb ! line) (tb_data tb))" col 0]
      e by simp
  then show ?thesis using False e by (simp add: line_col_to_byte_def Let_def)
qed (simp add: line_col_to_byte_def)

text \<open>The heads the moving operations compute are positions of the buffer; only an overflowing line number panics.\<close>

lemma line_start_head_ok: "tb_wf tb \<Longrightarrow> \<exists>p. line_start_head tb = Inr p \<and> p \<le> length (tb_data tb)"
proof -
  assume wf: "tb_wf tb"
  let ?l = "count_list (take (tb_cursor tb) (tb_data tb)) 10"
  have "?l < length (tb_line_starts tb)" using line_at_wf[OF wf, of "tb_cursor tb"] wf by (simp add: tb_wf_def)
  moreover from this have "tb_line_starts tb ! ?l \<le> length (tb_data tb)" using line_index_le wf by (simp add: tb_wf_def)
  ultimately show ?thesis by (simp add: line_start_head_def byte_to_line_col_exact[OF wf])
qed

lemma line_end_head_ok: "tb_wf tb \<Longrightarrow> \<exists>p. line_end_head tb = Inr p \<and> p \<le> length (tb_data tb)"
proof -
  assume wf: "tb_wf tb"
  let ?l = "count_list (take (tb_cursor tb) (tb_data tb)) 10"
  have "?l < length (tb_line_starts tb)" using line_at_wf[OF wf, of "tb_cursor tb"] wf by (simp add: tb_wf_def)
  then show ?thesis using line_end_ok[OF wf, of ?l] by (auto simp: line_end_head_def byte_to_line_col_exact[OF wf])
qed

lemma up_head_ok: "tb_wf tb \<Longrightarrow> \<exists>col p. up_head n tb = Inr (col, p) \<and> p \<le> length (tb_data tb)"
proof -
  assume wf: "tb_wf tb"
  obtain p where "line_col_to_byte tb (count_list (take (tb_cursor tb) (tb_data tb)) 10 - n)
      (chars_in (last_line (take (tb_cursor tb) (tb_data tb)))) = Inr p" "p \<le> length (tb_data tb)"
    using line_col_to_byte_ok[OF wf] by blast
  then show ?thesis by (simp add: up_head_def byte_to_line_col_exact[OF wf])
qed

lemma down_head_ok: "tb_wf tb \<Longrightarrow> down_head n tb = Inr (col, p) \<Longrightarrow> p \<le> length (tb_data tb)"
proof -
  assume wf: "tb_wf tb" and run: "down_head n tb = Inr (col, p)"
  have "p' \<le> length (tb_data tb)" if "line_col_to_byte tb l c = Inr p'" for l c p' using line_col_to_byte_ok[OF wf, of l c] that by auto
  then show ?thesis using run by (auto simp: down_head_def byte_to_line_col_exact[OF wf] checked_simps split: if_splits)
qed

subsection \<open>Every operation keeps the buffer well formed\<close>

lemma tb_wf_rebuild [simp]: "tb_wf (rebuild_line_index tb)"
  by (simp add: tb_wf_def rebuild_line_index_def)

lemma tb_wf_edited [simp]: "tb_wf (edited time tb)"
  by (simp add: edited_def)

lemma tb_wf_new [simp]: "tb_wf tb_new"
  by (simp add: tb_wf_def tb_new_def)

lemma tb_wf_set_cursor [simp]: "tb_wf tb \<Longrightarrow> tb_wf (set_cursor p tb)"
  by (simp add: tb_wf_def set_cursor_def)

lemma tb_wf_set_head: "tb_wf tb \<Longrightarrow> p \<le> length (tb_data tb) \<Longrightarrow> tb_wf (set_head p tb)"
  by (simp add: tb_wf_def set_head_def)

lemma tb_wf_cursor: "tb_wf tb \<Longrightarrow> p \<le> length (tb_data tb) \<Longrightarrow> tb_wf (tb\<lparr>tb_cursor := p, tb_anchor := p\<rparr>)"
  by (simp add: tb_wf_def)

lemma tb_wf_col: "tb_wf (tb\<lparr>tb_preferred_col := c\<rparr>) \<longleftrightarrow> tb_wf tb"
  by (simp add: tb_wf_def)

lemma skip_right_le: "p \<le> length data \<Longrightarrow> skip_right q data p \<le> length data"
  using length_takeWhile_le[of q "drop p data"] by (simp add: skip_right_def)

lemma word_right_le: "p \<le> length data \<Longrightarrow> word_right data p \<le> length data"
  by (simp add: word_right_def skip_right_le)

lemma skip_left_le: "skip_left q data p \<le> p"
  by (induction q data p rule: skip_left.induct) auto

lemma word_start_le: "word_start data p \<le> p"
  by (induction data p rule: word_start.induct) auto

lemma word_left_le: "word_left data p \<le> p"
  using word_start_le[of data "skip_left (\<lambda>b. \<not> is_word_char b \<and> b \<noteq> 10) data (p - 1)"]
    skip_left_le[of "\<lambda>b. \<not> is_word_char b \<and> b \<noteq> 10" data "p - 1"] unfolding word_left_def by linarith

text \<open>The operations on a buffer; a replacement may not return.\<close>

datatype tb_event = Ev_load "nat list" | Ev_save | Ev_set_cursor nat | Ev_chars int | Ev_line_start | Ev_line_end | Ev_start | Ev_end
  | Ev_up nat | Ev_down nat | Ev_page_up nat | Ev_page_down nat | Ev_word_right | Ev_word_left
  | Ev_extend_chars int | Ev_extend_line_start | Ev_extend_line_end | Ev_extend_start | Ev_extend_end | Ev_extend_up nat
  | Ev_extend_down nat | Ev_extend_word_right | Ev_extend_word_left
  | Ev_insert "nat list" nat | Ev_delete nat | Ev_delete_forward nat | Ev_newline nat | Ev_tab nat | Ev_indent nat | Ev_outdent nat
  | Ev_cut nat | Ev_paste "nat list" nat | Ev_replace_one nat "nat list" "nat list" nat | Ev_replace_all "nat list" "nat list" nat
  | Ev_undo | Ev_redo

fun tb_event_run :: "tb_event \<Rightarrow> text_buffer \<Rightarrow> text_buffer checked option" where
  "tb_event_run (Ev_load bs) tb = Some (Inr (snd (load bs tb)))"
| "tb_event_run Ev_save tb = Some (Inr (snd (save tb)))"
| "tb_event_run (Ev_set_cursor p) tb = Some (Inr (set_cursor p tb))"
| "tb_event_run (Ev_chars d) tb = Some (move_cursor_chars d tb)"
| "tb_event_run Ev_line_start tb = Some (move_to_line_start tb)"
| "tb_event_run Ev_line_end tb = Some (move_to_line_end tb)"
| "tb_event_run Ev_start tb = Some (Inr (move_to_start tb))"
| "tb_event_run Ev_end tb = Some (Inr (move_to_end tb))"
| "tb_event_run (Ev_up n) tb = Some (move_up n tb)"
| "tb_event_run (Ev_down n) tb = Some (move_down n tb)"
| "tb_event_run (Ev_page_up n) tb = Some (page_up n tb)"
| "tb_event_run (Ev_page_down n) tb = Some (page_down n tb)"
| "tb_event_run Ev_word_right tb = Some (Inr (move_word_right tb))"
| "tb_event_run Ev_word_left tb = Some (Inr (move_word_left tb))"
| "tb_event_run (Ev_extend_chars d) tb = Some (extend_selection_char d tb)"
| "tb_event_run Ev_extend_line_start tb = Some (extend_selection_to_line_start tb)"
| "tb_event_run Ev_extend_line_end tb = Some (extend_selection_to_line_end tb)"
| "tb_event_run Ev_extend_start tb = Some (Inr (extend_selection_to_start tb))"
| "tb_event_run Ev_extend_end tb = Some (Inr (extend_selection_to_end tb))"
| "tb_event_run (Ev_extend_up n) tb = Some (extend_selection_up n tb)"
| "tb_event_run (Ev_extend_down n) tb = Some (extend_selection_down n tb)"
| "tb_event_run Ev_extend_word_right tb = Some (Inr (extend_selection_word_right tb))"
| "tb_event_run Ev_extend_word_left tb = Some (Inr (extend_selection_word_left tb))"
| "tb_event_run (Ev_insert t time) tb = Some (insert_text t time tb)"
| "tb_event_run (Ev_delete time) tb = Some (delete_char time tb)"
| "tb_event_run (Ev_delete_forward time) tb = Some (delete_forward time tb)"
| "tb_event_run (Ev_newline time) tb = Some (insert_newline time tb)"
| "tb_event_run (Ev_tab time) tb = Some (insert_tab time tb)"
| "tb_event_run (Ev_indent time) tb = Some (indent_lines time tb)"
| "tb_event_run (Ev_outdent time) tb = Some (outdent_lines time tb)"
| "tb_event_run (Ev_cut time) tb = Some (and_then (cut time tb) (\<lambda>(_, tb'). Inr tb'))"
| "tb_event_run (Ev_paste t time) tb = Some (paste t time tb)"
| "tb_event_run (Ev_replace_one p old new time) tb = Some (and_then (replace_one p old new time tb) (\<lambda>(_, tb'). Inr tb'))"
| "tb_event_run (Ev_replace_all old new time) tb = map_option (\<lambda>r. and_then r (\<lambda>(_, tb'). Inr tb')) (replace_all old new time tb)"
| "tb_event_run Ev_undo tb = Some (undo tb)"
| "tb_event_run Ev_redo tb = Some (redo tb)"

inductive tb_reachable :: "text_buffer \<Rightarrow> bool" where
  tb_reach_new: "tb_reachable tb_new"
| tb_reach_event: "tb_reachable tb \<Longrightarrow> tb_event_run ev tb = Some (Inr tb') \<Longrightarrow> tb_reachable tb'"

lemma char_head_le: "char_head d tb = Inr p \<Longrightarrow> p \<le> length (tb_data tb)"
  by (auto simp: char_head_def checked_simps)

lemma insert_text_wf: "insert_text t time tb = Inr tb' \<Longrightarrow> tb_wf tb'"
  by (auto simp: insert_text_def checked_simps Let_def)

lemmas tb_op_defs = load_def save_def move_cursor_chars_def move_to_line_start_def move_to_line_end_def move_to_start_def move_to_end_def
  move_up_def move_down_def page_up_def page_down_def move_word_right_def move_word_left_def extend_selection_char_def
  extend_selection_to_line_start_def extend_selection_to_line_end_def extend_selection_to_start_def extend_selection_to_end_def
  extend_selection_up_def extend_selection_down_def extend_selection_word_right_def extend_selection_word_left_def
  delete_char_def delete_forward_def insert_newline_def insert_tab_def indent_lines_def outdent_lines_def cut_def paste_def
  replace_one_def replace_all_def undo_def redo_def

lemma head_bounds:
  assumes "tb_wf tb"
  shows "line_start_head tb = Inr p \<Longrightarrow> p \<le> length (tb_data tb)" "line_end_head tb = Inr p \<Longrightarrow> p \<le> length (tb_data tb)"
    "up_head n tb = Inr (col, p) \<Longrightarrow> p \<le> length (tb_data tb)" "down_head n tb = Inr (col, p) \<Longrightarrow> p \<le> length (tb_data tb)"
  using line_start_head_ok[OF assms] line_end_head_ok[OF assms] up_head_ok[OF assms, of n] down_head_ok[OF assms, of n col p] by auto

lemma tb_wf_saved: "tb_wf (tb\<lparr>tb_is_modified := m\<rparr>) \<longleftrightarrow> tb_wf tb"
  by (simp add: tb_wf_def)

lemma event_keeps_wf: "tb_wf tb \<Longrightarrow> tb_event_run ev tb = Some (Inr tb') \<Longrightarrow> tb_wf tb'"
proof -
  assume wf: "tb_wf tb" and run: "tb_event_run ev tb = Some (Inr tb')"
  have c: "tb_cursor tb \<le> length (tb_data tb)" using wf by (simp add: tb_wf_def)
  show ?thesis using run wf
    by (cases ev)
      (auto simp: tb_op_defs checked_simps Let_def tb_wf_col tb_wf_saved tb_wf_set_head tb_wf_cursor word_right_le[OF c] order.trans[OF word_left_le c]
      insert_text_wf char_head_le head_bounds[OF wf] split: if_splits list.splits prod.splits option.splits)
qed

subsection \<open>The history\<close>

text \<open>An entry takes one text to another; a list of entries does so one after the other.\<close>

definition edit_rel :: "edit_op \<Rightarrow> nat list \<Rightarrow> nat list \<Rightarrow> bool" where
  "edit_rel op d d' \<longleftrightarrow>
     (let p = op_position op; t = op_text op in
      if op_is_insert op then p \<le> length d \<and> d' = take p d @ t @ drop p d
      else p \<le> length d' \<and> d = take p d' @ t @ drop p d')"

fun replays :: "nat list \<Rightarrow> edit_op list \<Rightarrow> nat list \<Rightarrow> bool" where
  "replays d [] d' \<longleftrightarrow> d' = d"
| "replays d (op # ops) d' \<longleftrightarrow> (\<exists>m. edit_rel op d m \<and> replays m ops d')"

lemma replays_append: "replays d (xs @ ys) d' \<longleftrightarrow> (\<exists>m. replays d xs m \<and> replays m ys d')"
  by (induction xs arbitrary: d) auto

definition history :: "nat list \<Rightarrow> text_buffer \<Rightarrow> bool" where
  "history base tb \<longleftrightarrow> replays base (rev (tb_undo tb)) (tb_data tb) \<and> (\<exists>d. replays (tb_data tb) (tb_redo tb) d)"

lemma drain_mid: "p \<le> length d \<Longrightarrow> drain (take p d @ t @ drop p d) p (p + length t) = Inr d"
  by (simp add: drain_def)

lemma revert_edit: "edit_rel op d d' \<Longrightarrow> \<exists>c. revert_op op d' = Inr (d, c)"
  by (auto simp: edit_rel_def revert_op_def Let_def splice_in_def drain_mid split: if_splits)

lemma repeat_edit: "edit_rel op d d' \<Longrightarrow> \<exists>c. repeat_op op d = Inr (d', c)"
  by (auto simp: edit_rel_def repeat_op_def Let_def splice_in_def drain_mid split: if_splits)

lemma rebuild_fields [simp]:
  "tb_data (rebuild_line_index tb) = tb_data tb" "tb_undo (rebuild_line_index tb) = tb_undo tb" "tb_redo (rebuild_line_index tb) = tb_redo tb"
  by (simp_all add: rebuild_line_index_def)

lemma edited_fields [simp]:
  "tb_data (edited time tb) = tb_data tb" "tb_undo (edited time tb) = tb_undo tb" "tb_redo (edited time tb) = tb_redo tb"
  by (simp_all add: edited_def)

lemma undo_step:
  assumes "tb_undo tb = op # ops" "edit_rel op d (tb_data tb)"
  obtains tb' where "undo tb = Inr tb'" "tb_data tb' = d" "tb_undo tb' = ops" "tb_redo tb' = op # tb_redo tb"
  using revert_edit[OF assms(2)] assms(1) that by (fastforce simp: undo_def)

lemma redo_step:
  assumes "tb_redo tb = op # ops" "edit_rel op (tb_data tb) d"
  obtains tb' where "redo tb = Inr tb'" "tb_data tb' = d" "tb_redo tb' = ops" "tb_undo tb' = op # tb_undo tb"
  using repeat_edit[OF assms(2)] assms(1) that by (fastforce simp: redo_def)

lemma undo_all:
  "replays base (rev us) (tb_data tb) \<Longrightarrow> tb_undo tb = us @ vs
    \<Longrightarrow> \<exists>tb'. repeat_times (length us) undo tb = Inr tb' \<and> tb_data tb' = base \<and> tb_undo tb' = vs \<and> tb_redo tb' = rev us @ tb_redo tb"
proof (induction us arbitrary: tb)
  case (Cons op us)
  then obtain d where d: "replays base (rev us) d" "edit_rel op d (tb_data tb)" by (auto simp: replays_append)
  from Cons.prems(2) have "tb_undo tb = op # us @ vs" by simp
  from undo_step[OF this d(2)] obtain tb1 where 1: "undo tb = Inr tb1" "tb_data tb1 = d" "tb_undo tb1 = us @ vs"
    "tb_redo tb1 = op # tb_redo tb" .
  show ?case using Cons.IH[of tb1] d(1) 1 by auto
qed simp

lemma redo_all:
  "replays (tb_data tb) ops d \<Longrightarrow> tb_redo tb = ops @ rs
    \<Longrightarrow> \<exists>tb'. repeat_times (length ops) redo tb = Inr tb' \<and> tb_data tb' = d \<and> tb_redo tb' = rs \<and> tb_undo tb' = rev ops @ tb_undo tb"
proof (induction ops arbitrary: tb)
  case (Cons op ops)
  then obtain m where m: "edit_rel op (tb_data tb) m" "replays m ops d" by auto
  from Cons.prems(2) have "tb_redo tb = op # ops @ rs" by simp
  from redo_step[OF this m(1)] obtain tb1 where 1: "redo tb = Inr tb1" "tb_data tb1 = m" "tb_redo tb1 = ops @ rs"
    "tb_undo tb1 = op # tb_undo tb" .
  show ?case using Cons.IH[of tb1] m(2) 1 by auto
qed simp

text \<open>What keeps the history: everything but loading, the unrecorded edits, and typing over a selection.\<close>

definition recorded :: "tb_event \<Rightarrow> text_buffer \<Rightarrow> bool" where
  "recorded ev tb \<longleftrightarrow>
     (case ev of
        Ev_insert _ _ \<Rightarrow> \<not> has_selection tb | Ev_newline _ \<Rightarrow> \<not> has_selection tb | Ev_tab _ \<Rightarrow> \<not> has_selection tb
      | Ev_paste _ _ \<Rightarrow> \<not> has_selection tb | Ev_cut _ \<Rightarrow> \<not> has_selection tb
      | Ev_load _ \<Rightarrow> False | Ev_indent _ \<Rightarrow> False | Ev_outdent _ \<Rightarrow> False | Ev_replace_one _ _ _ _ \<Rightarrow> False | Ev_replace_all _ _ _ \<Rightarrow> False
      | _ \<Rightarrow> True)"

lemma insert_text_history:
  assumes h: "history base tb" and wf: "tb_wf tb" and ns: "\<not> has_selection tb" and run: "insert_text text time tb = Inr tb'"
  shows "history base tb'"
proof -
  let ?t = "utf8_encode text" and ?c = "tb_cursor tb" and ?d = "tb_data tb"
  have c: "?c \<le> length ?d" using wf by (simp add: tb_wf_def)
  have "drop_selection tb = Inr tb" using ns by (simp add: drop_selection_def selection_def has_selection_def)
  then have tb': "tb_data tb' = take ?c ?d @ ?t @ drop ?c ?d" "tb_redo tb' = []"
    "tb_undo tb' = push_insert ?t ?c (tb_last_edit_time tb) time (tb_undo tb)"
    using run c by (auto simp: insert_text_def splice_in_def Let_def)
  have past: "replays base (rev (tb_undo tb)) ?d" using h by (simp add: history_def)
  have new: "edit_rel \<lparr>op_text = ?t, op_position = ?c, op_is_insert = True, op_time = time\<rparr> ?d (tb_data tb')"
    using c tb'(1) by (simp add: edit_rel_def)
  have "replays base (rev (tb_undo tb')) (tb_data tb')"
  proof (cases "tb_undo tb' = \<lparr>op_text = ?t, op_position = ?c, op_is_insert = True, op_time = time\<rparr> # tb_undo tb")
    case True
    then show ?thesis using past new by (auto simp: replays_append)
  next
    case False
    then obtain op ops where o: "tb_undo tb = op # ops" "op_is_insert op" "op_position op + length (op_text op) = ?c"
      "tb_undo tb' = op\<lparr>op_text := op_text op @ ?t\<rparr> # ops"
      using tb'(3) by (auto simp: push_insert_def split: list.splits if_splits)
    obtain d0 where d0: "replays base (rev ops) d0" "edit_rel op d0 ?d" using past o(1) by (auto simp: replays_append)
    have "edit_rel (op\<lparr>op_text := op_text op @ ?t\<rparr>) d0 (tb_data tb')"
      using d0(2) o(2) tb'(1) unfolding o(3)[symmetric] by (simp add: edit_rel_def Let_def)
    then show ?thesis using d0(1) o(4) by (auto simp: replays_append)
  qed
  then show ?thesis using tb'(2) by (simp add: history_def)
qed

lemma delete_history:
  assumes h: "history base tb" and s: "s \<le> e" "e \<le> length (tb_data tb)"
    and tb': "tb_data tb' = take s (tb_data tb) @ drop e (tb_data tb)" "tb_redo tb' = []"
      "tb_undo tb' = \<lparr>op_text = take (e - s) (drop s (tb_data tb)), op_position = s, op_is_insert = False, op_time = time\<rparr> # tb_undo tb"
  shows "history base tb'"
proof -
  let ?d = "tb_data tb"
  have "take s ?d @ take (e - s) (drop s ?d) @ drop e ?d = ?d"
  proof -
    have "take (e - s) (drop s ?d) @ drop e ?d = drop s ?d"
      using append_take_drop_id[of "e - s" "drop s ?d"] s by simp
    then show ?thesis by simp
  qed
  then have "edit_rel (hd (tb_undo tb')) ?d (tb_data tb')" using s by (simp add: edit_rel_def tb' Let_def)
  then show ?thesis using h by (auto simp: history_def tb'(2,3) replays_append)
qed

lemma same_history: "history base tb \<Longrightarrow> tb_data tb' = tb_data tb \<Longrightarrow> tb_undo tb' = tb_undo tb \<Longrightarrow> tb_redo tb' = tb_redo tb \<Longrightarrow> history base tb'"
  by (simp add: history_def)

lemma delete_char_history: "history base tb \<Longrightarrow> tb_wf tb \<Longrightarrow> delete_char time tb = Inr tb' \<Longrightarrow> history base tb'"
  by (auto simp: delete_char_def checked_simps slice_at_def drain_def split: if_splits intro: delete_history)

lemma delete_forward_history: "history base tb \<Longrightarrow> tb_wf tb \<Longrightarrow> delete_forward time tb = Inr tb' \<Longrightarrow> history base tb'"
  by (auto simp: delete_forward_def checked_simps slice_at_def drain_def Let_def split: if_splits intro: delete_history)

lemma undo_history: "history base tb \<Longrightarrow> \<exists>tb'. undo tb = Inr tb' \<and> history base tb'"
proof (cases "tb_undo tb")
  case (Cons op ops)
  assume h: "history base tb"
  then obtain d where d: "replays base (rev ops) d" "edit_rel op d (tb_data tb)" using Cons by (auto simp: history_def replays_append)
  from undo_step[OF Cons d(2)] obtain tb' where "undo tb = Inr tb'" "tb_data tb' = d" "tb_undo tb' = ops" "tb_redo tb' = op # tb_redo tb" .
  moreover obtain e where "replays (tb_data tb) (tb_redo tb) e" using h by (auto simp: history_def)
  then have "replays d (op # tb_redo tb) e" using d(2) by auto
  ultimately show ?thesis using d(1) unfolding history_def by metis
qed (auto simp: undo_def)

lemma redo_history: "history base tb \<Longrightarrow> \<exists>tb'. redo tb = Inr tb' \<and> history base tb'"
proof (cases "tb_redo tb")
  case (Cons op ops)
  assume h: "history base tb"
  then obtain d e where d: "edit_rel op (tb_data tb) d" "replays d ops e" using Cons by (auto simp: history_def)
  from redo_step[OF Cons d(1)] obtain tb' where "redo tb = Inr tb'" "tb_data tb' = d" "tb_redo tb' = ops" "tb_undo tb' = op # tb_undo tb" .
  then show ?thesis using h d by (auto simp: history_def replays_append)
qed (auto simp: redo_def)

lemma event_keeps_history:
  assumes h: "history base tb" and wf: "tb_wf tb" and rec: "recorded ev tb" and run: "tb_event_run ev tb = Some (Inr tb')"
  shows "history base tb'"
proof -
  note ins = insert_text_history[OF h wf]
  show ?thesis
  proof (cases ev)
    case (Ev_insert t time)
    then show ?thesis using run rec ins by (simp add: recorded_def)
  next
    case (Ev_newline time)
    then show ?thesis using run rec by (auto simp: recorded_def insert_newline_def checked_simps Let_def intro: ins)
  next
    case (Ev_tab time)
    then show ?thesis using run rec ins by (simp add: recorded_def insert_tab_def)
  next
    case (Ev_paste t time)
    then show ?thesis using run rec ins by (simp add: recorded_def paste_def)
  next
    case (Ev_delete time)
    then show ?thesis using run delete_char_history[OF h wf] by simp
  next
    case (Ev_delete_forward time)
    then show ?thesis using run delete_forward_history[OF h wf] by simp
  next
    case Ev_undo
    then show ?thesis using run undo_history[OF h] by auto
  next
    case Ev_redo
    then show ?thesis using run redo_history[OF h] by auto
  next
    case (Ev_cut time)
    then have "tb' = tb" using run rec by (auto simp: recorded_def cut_def selection_def has_selection_def)
    then show ?thesis using h by simp
  qed (use run rec in \<open>auto simp: recorded_def tb_op_defs checked_simps set_cursor_def set_head_def
      split: if_splits prod.splits intro: same_history[OF h]\<close>)
qed

text \<open>Buffers reached from a loaded text by recorded events.\<close>

inductive edited_from :: "nat list \<Rightarrow> text_buffer \<Rightarrow> bool" for base where
  ef_load: "load base tb0 = (Inr (), tb) \<Longrightarrow> edited_from base tb"
| ef_event: "edited_from base tb \<Longrightarrow> recorded ev tb \<Longrightarrow> tb_event_run ev tb = Some (Inr tb') \<Longrightarrow> edited_from base tb'"

lemma load_history: "load base tb0 = (Inr (), tb) \<Longrightarrow> history base tb \<and> tb_wf tb"
  by (auto simp: load_def history_def split: if_splits)

lemma edited_from_history: "edited_from base tb \<Longrightarrow> history base tb \<and> tb_wf tb"
  by (induction rule: edited_from.induct) (auto dest: load_history event_keeps_history event_keeps_wf)

subsection \<open>Replacing\<close>

text \<open>Every occurrence from left to right, without overlaps, and their number.\<close>

function replaced :: "nat list \<Rightarrow> nat list \<Rightarrow> nat list \<Rightarrow> nat list \<times> nat" where
  "replaced old new bs =
     (if bs = [] then ([], 0)
      else if old \<noteq> [] \<and> take (length old) bs = old then
        (case replaced old new (drop (length old) bs) of (d, n) \<Rightarrow> (new @ d, n + 1))
      else (case replaced old new (tl bs) of (d, n) \<Rightarrow> (hd bs # d, n)))"
  by auto
termination
  by (relation "measure (\<lambda>(old, new, bs). length bs)") auto

declare replaced.simps [simp del]

lemma matches_at_take: "old \<noteq> [] \<Longrightarrow> matches_at data old i \<longleftrightarrow> take (length old) (drop i data) = old"
proof -
  assume ne: "old \<noteq> []"
  have "i + length old \<le> length data" if t: "take (length old) (drop i data) = old"
  proof -
    have "length (take (length old) (drop i data)) = length old" by (simp add: t)
    moreover have "0 < length old" using ne by simp
    ultimately show ?thesis unfolding length_take length_drop by linarith
  qed
  then show ?thesis by (auto simp: matches_at_def)
qed

lemma find_upt: "List.find p [a..<b] = Some i \<Longrightarrow> a \<le> i \<and> i < b \<and> p i \<and> (\<forall>j. a \<le> j \<and> j < i \<longrightarrow> \<not> p j)"
proof -
  assume "List.find p [a..<b] = Some i"
  then obtain k where k: "k < b - a" "p (a + k)" "i = a + k" "\<forall>j<k. \<not> p (a + j)" by (auto simp: find_Some_iff)
  have "\<not> p j" if "a \<le> j" "j < i" for j using k(4)[rule_format, of "j - a"] that k(3) by simp
  then show ?thesis using k by auto
qed

lemma replaced_none: "(\<And>i. i < length bs \<Longrightarrow> take (length old) (drop i bs) \<noteq> old) \<Longrightarrow> replaced old new bs = (bs, 0)"
proof (induction bs)
  case (Cons b bs)
  have "replaced old new bs = (bs, 0)"
  proof (rule Cons.IH)
    show "take (length old) (drop i bs) \<noteq> old" if "i < length bs" for i using Cons.prems[of "Suc i"] that by simp
  qed
  then show ?case using Cons.prems[of 0] by (subst replaced.simps) simp
qed (simp add: replaced.simps)

lemma replaced_first:
  "i < length bs \<Longrightarrow> old \<noteq> [] \<Longrightarrow> take (length old) (drop i bs) = old \<Longrightarrow> (\<And>j. j < i \<Longrightarrow> take (length old) (drop j bs) \<noteq> old)
    \<Longrightarrow> replaced old new bs = (case replaced old new (drop (i + length old) bs) of (d, n) \<Rightarrow> (take i bs @ new @ d, n + 1))"
proof (induction i arbitrary: bs)
  case 0
  then show ?case by (subst replaced.simps) auto
next
  case (Suc i)
  obtain b cs where bs: "bs = b # cs" using Suc.prems(1) by (cases bs) simp_all
  have "replaced old new cs = (case replaced old new (drop (i + length old) cs) of (d, n) \<Rightarrow> (take i cs @ new @ d, n + 1))"
  proof (rule Suc.IH)
    show "take (length old) (drop j cs) \<noteq> old" if "j < i" for j using Suc.prems(4)[of "Suc j"] that bs by simp
  qed (use Suc.prems bs in simp_all)
  then show ?case using Suc.prems(4)[of 0] bs by (subst replaced.simps) (auto split: prod.splits)
qed

lemma replace_loop_exact:
  assumes "old \<noteq> []"
  shows "replace_loop old new (pre @ bs) (length pre) n =
    (case replaced old new bs of (d, k) \<Rightarrow> Some (Inr (pre @ d, n + k)))"
proof (induction "length bs" arbitrary: pre bs n rule: less_induct)
  case less
  have m: "matches_at (pre @ bs) old (length pre + i) \<longleftrightarrow> take (length old) (drop i bs) = old" for i
    using matches_at_take[OF assms, of "pre @ bs" "length pre + i"] by simp
  show ?case
  proof (cases "List.find (matches_at (pre @ bs) old) [length pre..<length (pre @ bs)]")
    case None
    have "take (length old) (drop i bs) \<noteq> old" if "i < length bs" for i
      using None m[of i] that by (simp add: find_None_iff)
    then have "replaced old new bs = (bs, 0)" by (rule replaced_none)
    then show ?thesis using None by (subst replace_loop.simps) (simp add: find_from_def)
  next
    case (Some s)
    note f = find_upt[OF Some]
    define i where "i = s - length pre"
    have s: "s = length pre + i" "i < length bs" using f unfolding i_def by auto
    have hit: "take (length old) (drop i bs) = old" using f m[of i] s(1) by simp
    have first: "take (length old) (drop j bs) \<noteq> old" if "j < i" for j using f m[of j] s(1) that by simp
    have le: "i + length old \<le> length bs" using f s(1) by (simp add: matches_at_def)
    have ne: "bs \<noteq> []" using s(2) by auto
    have "drain (pre @ bs) s (s + length old) = Inr ((pre @ take i bs) @ drop (i + length old) bs)"
      using le s by (simp add: drain_def add.commute)
    moreover have "splice_in ((pre @ take i bs) @ drop (i + length old) bs) s new
        = Inr ((pre @ take i bs @ new) @ drop (i + length old) bs)" using s by (simp add: splice_in_def)
    ultimately have "replace_loop old new (pre @ bs) (length pre) n
        = replace_loop old new ((pre @ take i bs @ new) @ drop (i + length old) bs) (length (pre @ take i bs @ new)) (n + 1)"
      using Some s ne by (subst replace_loop.simps) (simp add: find_from_def min_def add.assoc)
    also have "\<dots> = (case replaced old new (drop (i + length old) bs) of (d, k) \<Rightarrow> Some (Inr ((pre @ take i bs @ new) @ d, n + 1 + k)))"
    proof (rule less)
      have "0 < length old" using assms by simp
      then show "length (drop (i + length old) bs) < length bs" unfolding length_drop using s(2) by linarith
    qed
    finally show ?thesis using replaced_first[OF s(2) assms hit first, of new] by (auto split: prod.splits)
  qed
qed

lemma replace_loop_empty: "replace_loop [] new data pos count = Some r \<Longrightarrow> \<not> pos < length data"
proof -
  have "\<not> (old = [] \<and> pos < length data)" if "replace_loop old new data pos count = Some r" for old
  proof (rule replace_loop.raw_induct[where P = "\<lambda>old new data pos count r. \<not> (old = [] \<and> pos < length data)", OF _ that], goal_cases)
    case (1 loop old new data pos count r)
    show ?case
    proof
      assume e: "old = [] \<and> pos < length data"
      then have "find_from data old pos = Some (pos, pos)" by (simp add: find_from_def upt_conv_Cons matches_at_def)
      then have "loop [] new (take pos data @ new @ drop pos data) (pos + length new) (count + 1) = Some r"
        using 1(2) e by (simp add: drain_def splice_in_def)
      then show False using 1(1) e by fastforce
    qed
  qed
  then show "replace_loop [] new data pos count = Some r \<Longrightarrow> \<not> pos < length data" by blast
qed

lemma utf8_encode_eq_Nil [simp]: "utf8_encode s = [] \<longleftrightarrow> s = []"
  by (cases s) simp_all

subsection \<open>Properties\<close>

text \<open>C37. In every buffer the operations reach from an empty one, the line index holds exactly the positions after
  newlines, cursor and anchor are positions of the text, and the line and column of any position are the newlines before
  it and the characters after the last of them.
\<close>
theorem textbuf_invariant:
  assumes "tb_reachable tb"
  shows "tb_wf tb \<and> byte_to_line_col tb pos = Inr (count_list (take pos (tb_data tb)) 10, chars_in (last_line (take pos (tb_data tb))))"
proof -
  have "tb_wf tb" using assms by induction (auto dest: event_keeps_wf)
  then show ?thesis by (simp add: byte_to_line_col_exact)
qed

lemma demo_insert: "insert_text [97, 10, 98] 0 tb_new = Inr (edited 0 (tb_new\<lparr>tb_undo := [\<lparr>op_text = [97, 10, 98], op_position = 0,
    op_is_insert = True, op_time = 0\<rparr>], tb_data := [97, 10, 98], tb_cursor := 3, tb_anchor := 3\<rparr>))"
  by (simp add: insert_text_def drop_selection_def selection_def tb_new_def splice_in_def push_insert_def utf8_char_ascii Let_def
      numeral_3_eq_3)

theorem textbuf_invariant_witness:
  "byte_to_line_col (edited 0 (tb_new\<lparr>tb_undo := [\<lparr>op_text = [97, 10, 98], op_position = 0, op_is_insert = True, op_time = 0\<rparr>],
     tb_data := [97, 10, 98], tb_cursor := 3, tb_anchor := 3\<rparr>)) 3 = Inr (1, 1)"
  using textbuf_invariant[OF tb_reach_event[OF tb_reach_new, of "Ev_insert [97, 10, 98] 0"], of _ 3]
  by (simp add: demo_insert last_line_def chars_in_def cont_def)

text \<open>C38. Undo and redo are exact over any sequence of movements, selections, insertions without a selection, deletions,
  undos and redos on a loaded text: undoing every entry never panics and restores the loaded text byte for byte, and
  redoing as many restores the edited one.
\<close>
theorem undo_redo_restore:
  assumes "edited_from base tb"
  shows "\<exists>tb1 tb2. repeat_times (length (tb_undo tb)) undo tb = Inr tb1 \<and> tb_data tb1 = base
    \<and> repeat_times (length (tb_undo tb)) redo tb1 = Inr tb2 \<and> tb_data tb2 = tb_data tb \<and> tb_undo tb2 = tb_undo tb"
proof -
  have past: "replays base (rev (tb_undo tb)) (tb_data tb)" using edited_from_history[OF assms] by (simp add: history_def)
  obtain tb1 where 1: "repeat_times (length (tb_undo tb)) undo tb = Inr tb1" "tb_data tb1 = base" "tb_undo tb1 = []"
    "tb_redo tb1 = rev (tb_undo tb) @ tb_redo tb"
    using undo_all[of base "tb_undo tb" tb "[]"] past by auto
  then show ?thesis using redo_all[of tb1 "rev (tb_undo tb)" "tb_data tb" "tb_redo tb"] past by auto
qed

definition undo_demo_start :: text_buffer where
  "undo_demo_start = rebuild_line_index (tb_new\<lparr>tb_data := [104, 105]\<rparr>)"

lemma undo_demo_load: "load [104, 105] tb_new = (Inr (), undo_demo_start)"
  by (simp add: load_def utf8_decode.simps undo_demo_start_def tb_new_def)

theorem undo_redo_restore_witness:
  "\<exists>tb. tb_event_run (Ev_delete_forward 5) undo_demo_start = Some (Inr tb) \<and> tb_data tb = [105]
     \<and> (\<exists>tb1. undo tb = Inr tb1 \<and> tb_data tb1 = [104, 105])"
proof -
  obtain tb where tb: "tb_event_run (Ev_delete_forward 5) undo_demo_start = Some (Inr tb)" "tb_data tb = [105]" "length (tb_undo tb) = 1"
    by (simp add: undo_demo_start_def rebuild_line_index_def tb_new_def delete_forward_def forward_char_def skip_right_def cont_def
        slice_at_def drain_def Let_def)
  have "edited_from [104, 105] tb" by (rule ef_event[OF ef_load[OF undo_demo_load] _ tb(1)]) (simp add: recorded_def)
  from undo_redo_restore[OF this] tb show ?thesis by (auto simp: checked_simps)
qed

text \<open>Undoing an insertion removes the range its entry names, if there is one, whatever the text holds there now.\<close>

lemma undo_insertion:
  assumes "tb_undo tb = op # ops" and "op_is_insert op"
  shows "undo tb = Inl Index_bounds \<longleftrightarrow> length (tb_data tb) < op_position op + length (op_text op)"
    and "undo tb = Inr tb' \<Longrightarrow> tb_undo tb' = ops
      \<and> tb_data tb' = take (op_position op) (tb_data tb) @ drop (op_position op + length (op_text op)) (tb_data tb)"
  using assms by (auto simp: undo_def revert_op_def drain_def rebuild_line_index_def split: if_splits)

text \<open>Cutting is not recorded: whatever is selected, cutting it leaves the undo stack as it was, and the next undo takes
  the last insertion out of a text that is no longer the one it was made in. It panics exactly when the range of the insertion
  no longer fits in the text that is left; otherwise it removes the bytes that happen to be there now, and what was cut does
  not come back.
\<close>
theorem undo_after_cut_panics:
  assumes "tb_undo tb = op # ops" and "op_is_insert op"
    and "selection tb = (s, e)" and "s < e" and "e \<le> length (tb_data tb)"
  shows "\<exists>text tb1. cut time tb = Inr (text, tb1) \<and> tb_data tb1 = take s (tb_data tb) @ drop e (tb_data tb)
    \<and> (undo tb1 = Inl Index_bounds \<longleftrightarrow> length (tb_data tb) < op_position op + length (op_text op) + (e - s))
    \<and> (\<forall>tb2. undo tb1 = Inr tb2 \<longrightarrow> tb_undo tb2 = ops
         \<and> tb_data tb2 = take (op_position op) (tb_data tb1) @ drop (op_position op + length (op_text op)) (tb_data tb1))"
proof -
  obtain taken tb1 where c: "cut time tb = Inr (taken, tb1)" "tb_data tb1 = take s (tb_data tb) @ drop e (tb_data tb)" "tb_undo tb1 = tb_undo tb"
    using assms(3-5) by (simp add: cut_def copy_selection_def slice_at_def drain_def edited_def rebuild_line_index_def)
  note u = undo_insertion[OF c(3)[unfolded assms(1)] assms(2)]
  have "length (tb_data tb1) + (e - s) = length (tb_data tb)" using assms(4,5) by (simp add: c(2))
  then have "undo tb1 = Inl Index_bounds \<longleftrightarrow> length (tb_data tb) < op_position op + length (op_text op) + (e - s)"
    unfolding u(1) by linarith
  with c(1,2) u(2) show ?thesis by blast
qed

text \<open>Three letters typed into an empty buffer, selected and cut: undo panics.\<close>

theorem undo_after_cut_panics_witness:
  "\<exists>a text b. insert_text [97, 98, 99] 0 tb_new = Inr a \<and> cut 2000 (extend_selection_to_start a) = Inr (text, b)
    \<and> undo b = Inl Index_bounds"
proof -
  obtain a where a: "insert_text [97, 98, 99] 0 tb_new = Inr a" "tb_data a = [97, 98, 99]" "tb_cursor a = 3" "tb_anchor a = 3"
    "tb_undo a = [\<lparr>op_text = [97, 98, 99], op_position = 0, op_is_insert = True, op_time = 0\<rparr>]"
    by (simp add: insert_text_def drop_selection_def selection_def tb_new_def splice_in_def push_insert_def utf8_char_ascii Let_def
        edited_def rebuild_line_index_def)
  let ?a = "extend_selection_to_start a"
  have f: "tb_undo ?a = tb_undo a" "tb_data ?a = tb_data a" "selection ?a = (0, 3)"
    using a(4) by (simp_all add: extend_selection_to_start_def set_head_def selection_def)
  from undo_after_cut_panics[of ?a, unfolded f a(2), OF a(5) _ refl] show ?thesis using a(1) by simp blast
qed

text \<open>With the cursor on the last character of the text, the step to the right reads one byte past the end and panics.
\<close>
theorem right_from_last_character_panics:
  assumes "tb_cursor tb < length (tb_data tb)" "\<forall>b\<in>set (drop (tb_cursor tb + 1) (tb_data tb)). cont b"
    "length (tb_data tb) < 2 ^ 31" "0 < delta"
  shows "move_cursor_chars delta tb = Inl Index_bounds \<and> extend_selection_char delta tb = Inl Index_bounds"
proof -
  let ?d = "tb_data tb" and ?n = "length (tb_data tb)"
  have us: "as_usize (int p) = p" if "p < 2 ^ 31" for p
  proof -
    have "int p < 2 ^ 64" using that by simp
    then show ?thesis by (simp add: as_usize_def)
  qed
  have "char_right ?d (int p) = Inl Index_bounds" if "tb_cursor tb \<le> p" "p < ?n" for p
    using that
  proof (induction "?n - p" arbitrary: p rule: less_induct)
    case less
    have p: "p < 2 ^ 31" "int p < 2 ^ 31 - 1" "p + 1 < 2 ^ 31" using less.prems assms(3) by simp_all
    have next_us: "as_usize (int p + 1) = p + 1" using us[OF p(3)] by (simp add: add.commute)
    show ?case
    proof (cases "p + 1 < ?n")
      case True
      have "?d ! (p + 1) = drop (tb_cursor tb + 1) ?d ! (p - tb_cursor tb)" using less.prems True by simp
      moreover have "p - tb_cursor tb < length (drop (tb_cursor tb + 1) ?d)" using less.prems True by simp
      ultimately have "cont (?d ! (p + 1))" using assms(2) nth_mem by metis
      moreover have "char_right ?d (int (p + 1)) = Inl Index_bounds" using less.hyps[of "p + 1"] less.prems True by simp
      ultimately show ?thesis using less.prems p True us[OF p(1)] next_us
        by (subst char_right.simps) (simp add: index_at_def add.commute)
    next
      case False
      then show ?thesis using less.prems p us[OF p(1)] next_us by (subst char_right.simps) (simp add: index_at_def)
    qed
  qed
  moreover have "as_i32 (tb_cursor tb) = int (tb_cursor tb)" using assms(1,3) by (simp add: as_i32_def)
  moreover obtain k where "nat delta = Suc k" using assms(4) by (cases "nat delta") simp_all
  ultimately have "char_head delta tb = Inl Index_bounds" using assms(1,4) by (simp add: char_head_def)
  then show ?thesis by (simp add: move_cursor_chars_def extend_selection_char_def)
qed

theorem right_from_last_character_panics_witness:
  "move_cursor_chars 1 (tb_new\<lparr>tb_data := [104, 105], tb_cursor := 1, tb_anchor := 1\<rparr>) = Inl Index_bounds"
  using right_from_last_character_panics[of "tb_new\<lparr>tb_data := [104, 105], tb_cursor := 1, tb_anchor := 1\<rparr>" 1] by simp

text \<open>Columns are read back as positions inside a character: moving down from column one onto a line that begins with
  a character of two bytes leaves the cursor between them, and the next letter typed makes the text invalid UTF-8.
\<close>
theorem move_down_splits_character:
  "\<exists>tb tb1 tb2. load [97, 98, 10, 195, 169] tb_new = (Inr (), tb) \<and> move_down 1 (set_cursor 1 tb) = Inr tb1 \<and> tb_cursor tb1 = 4
     \<and> insert_text [120] 0 tb1 = Inr tb2 \<and> tb_data tb2 = [97, 98, 10, 195, 120, 169] \<and> utf8_decode (tb_data tb2) = None"
proof -
  let ?tb = "rebuild_line_index (tb_new\<lparr>tb_data := [97, 98, 10, 195, 169]\<rparr>)"
  have 1: "load [97, 98, 10, 195, 169] tb_new = (Inr (), ?tb)"
    by (simp add: load_def utf8_decode.simps cont_def tb_new_def)
  have 2: "move_down 1 (set_cursor 1 ?tb) = Inr (set_cursor 4 (set_cursor 1 ?tb\<lparr>tb_preferred_col := 1\<rparr>))"
    by (simp add: move_down_def down_head_def byte_to_line_col_def line_at_def binary_search_def rebuild_line_index_def tb_new_def
        line_index_def set_cursor_def chars_in_def cont_def slice_at_def line_col_to_byte_def line_end_def usub_def uadd_def Let_def
        index_at_def upt_rec)
  have c: "tb_cursor (set_cursor 4 (set_cursor 1 ?tb\<lparr>tb_preferred_col := 1\<rparr>)) = 4"
    by (simp add: set_cursor_def rebuild_line_index_def tb_new_def)
  obtain tb2 where 3: "insert_text [120] 0 (set_cursor 4 (set_cursor 1 ?tb\<lparr>tb_preferred_col := 1\<rparr>)) = Inr tb2"
    "tb_data tb2 = [97, 98, 10, 195, 120, 169]"
    by (simp add: insert_text_def drop_selection_def selection_def set_cursor_def splice_in_def Let_def utf8_char_ascii
        rebuild_line_index_def tb_new_def)
  have "utf8_decode [97, 98, 10, 195, 120, 169] = None" by (simp add: utf8_decode.simps cont_def)
  with 1 2 3 c show ?thesis by auto
qed

text \<open>C39. \<open>replace_all\<close> replaces the occurrences from left to right without overlaps and counts them; with an empty pattern
  on a text that is not empty it never returns.
\<close>
theorem replace_all_exact:
  "replace_all old new time tb =
    (if old = [] \<and> tb_data tb \<noteq> [] then None
     else case replaced (utf8_encode old) (utf8_encode new) (tb_data tb) of (d, n) \<Rightarrow>
       Some (Inr (n, if 0 < n then edited time (tb\<lparr>tb_data := d\<rparr>) else tb)))"
proof (cases "old = []")
  case True
  show ?thesis
  proof (cases "tb_data tb = []")
    case d: True
    have "replace_loop [] (utf8_encode new) [] 0 0 = Some (Inr ([], 0))" by (subst replace_loop.simps) simp
    then show ?thesis using True d by (simp add: replace_all_def replaced.simps)
  next
    case False
    then have "replace_loop [] (utf8_encode new) (tb_data tb) 0 0 = None"
      using replace_loop_empty[of "utf8_encode new" "tb_data tb" 0 0] by fastforce
    then show ?thesis using True False by (simp add: replace_all_def)
  qed
next
  case False
  then show ?thesis using replace_loop_exact[of "utf8_encode old" "utf8_encode new" "[]" "tb_data tb" 0]
    by (auto simp: replace_all_def split: prod.splits)
qed

end
