(* ===== verification/Line_Editor.thy ===== *)
theory Line_Editor
  imports Textbuf
begin

text \<open>
  \<open>user/libotter/src/lineeditor.rs\<close>, the line editor of the shell, with the loop of \<open>user/sh/src/main.rs\<close> that feeds it
  (\<open>crates/line-editor\<close> is an earlier copy of it without the escape sequences).  Bytes are numbers below 256, the commands of
  the history are lists of scalar values.  What the shell draws is left out.  A vector is never as long as a \<open>usize\<close> can
  count, so the cursor does not overflow.
\<close>

subsection \<open>The editor\<close>

datatype escape_state = Normal | AfterEsc | InCsi | AfterDelete3

datatype editor_action = Byte nat | HistoryUp | HistoryDown | CursorRight | CursorLeft | CursorHome | CursorEnd | DeleteKey

record line_editor =
  ed_line :: "nat list"
  ed_cursor :: nat
  ed_history :: "nat list list"
  ed_history_index :: "nat option"
  ed_escape_state :: escape_state

definition line_editor_new :: line_editor where
  "line_editor_new = \<lparr>ed_line = [], ed_cursor = 0, ed_history = [], ed_history_index = None, ed_escape_state = Normal\<rparr>"

definition feed_byte :: "nat \<Rightarrow> line_editor \<Rightarrow> editor_action option \<times> line_editor" where
  "feed_byte byte e =
     (case ed_escape_state e of
        Normal \<Rightarrow> if byte = 0x1B then (None, e\<lparr>ed_escape_state := AfterEsc\<rparr>) else (Some (Byte byte), e)
      | AfterEsc \<Rightarrow> (None, e\<lparr>ed_escape_state := if byte = 91 then InCsi else Normal\<rparr>)
      | InCsi \<Rightarrow> let e = e\<lparr>ed_escape_state := Normal\<rparr> in
          if byte = 65 then (Some HistoryUp, e)
          else if byte = 66 then (Some HistoryDown, e)
          else if byte = 67 then (Some CursorRight, e)
          else if byte = 68 then (Some CursorLeft, e)
          else if byte = 72 then (Some CursorHome, e)
          else if byte = 70 then (Some CursorEnd, e)
          else if byte = 51 then (None, e\<lparr>ed_escape_state := AfterDelete3\<rparr>)
          else (None, e)
      | AfterDelete3 \<Rightarrow> (if byte = 126 then Some DeleteKey else None, e\<lparr>ed_escape_state := Normal\<rparr>))"

definition editor_text :: "line_editor \<Rightarrow> nat list" where
  "editor_text e = utf8_lossy (ed_line e)"

text \<open>\<open>Vec::insert\<close> and \<open>Vec::remove\<close>.\<close>

definition vec_insert :: "nat \<Rightarrow> 'a \<Rightarrow> 'a list \<Rightarrow> 'a list checked" where
  "vec_insert i x xs = (if i \<le> length xs then Inr (take i xs @ x # drop i xs) else Inl Index_bounds)"

definition vec_remove :: "nat \<Rightarrow> 'a list \<Rightarrow> 'a list checked" where
  "vec_remove i xs = (if i < length xs then Inr (take i xs @ drop (i + 1) xs) else Inl Index_bounds)"

definition add_to_history :: "nat list \<Rightarrow> line_editor \<Rightarrow> line_editor checked" where
  "add_to_history cmd e =
     and_then (if cmd = [] then Inr (ed_history e)
       else and_then (if 64 \<le> length (ed_history e) then vec_remove 0 (ed_history e) else Inr (ed_history e)) (\<lambda>h. Inr (h @ [cmd])))
     (\<lambda>h. Inr (e\<lparr>ed_history := h, ed_history_index := None\<rparr>))"

definition clear_line :: "line_editor \<Rightarrow> line_editor" where
  "clear_line e = e\<lparr>ed_line := [], ed_cursor := 0, ed_history_index := None\<rparr>"

definition insert_char :: "nat \<Rightarrow> line_editor \<Rightarrow> line_editor checked" where
  "insert_char ch e = and_then (vec_insert (ed_cursor e) ch (ed_line e)) (\<lambda>l.
     Inr (e\<lparr>ed_history_index := None, ed_line := l, ed_cursor := ed_cursor e + 1\<rparr>))"

definition editor_backspace :: "line_editor \<Rightarrow> line_editor checked" where
  "editor_backspace e = (if 0 < ed_cursor e then and_then (vec_remove (ed_cursor e - 1) (ed_line e)) (\<lambda>l.
     Inr (e\<lparr>ed_history_index := None, ed_cursor := ed_cursor e - 1, ed_line := l\<rparr>)) else Inr e)"

definition editor_delete :: "line_editor \<Rightarrow> line_editor checked" where
  "editor_delete e = (if ed_cursor e < length (ed_line e) then and_then (vec_remove (ed_cursor e) (ed_line e)) (\<lambda>l.
     Inr (e\<lparr>ed_history_index := None, ed_line := l\<rparr>)) else Inr e)"

definition cursor_left :: "line_editor \<Rightarrow> line_editor" where
  "cursor_left e = (if 0 < ed_cursor e then e\<lparr>ed_cursor := ed_cursor e - 1\<rparr> else e)"

definition cursor_right :: "line_editor \<Rightarrow> line_editor" where
  "cursor_right e = (if ed_cursor e < length (ed_line e) then e\<lparr>ed_cursor := ed_cursor e + 1\<rparr> else e)"

definition cursor_home :: "line_editor \<Rightarrow> line_editor" where
  "cursor_home e = e\<lparr>ed_cursor := 0\<rparr>"

definition cursor_end :: "line_editor \<Rightarrow> line_editor" where
  "cursor_end e = e\<lparr>ed_cursor := length (ed_line e)\<rparr>"

definition ctrl_u :: "line_editor \<Rightarrow> line_editor" where
  "ctrl_u e = e\<lparr>ed_line := [], ed_cursor := 0, ed_history_index := None\<rparr>"

definition show_entry :: "nat \<Rightarrow> line_editor \<Rightarrow> line_editor checked" where
  "show_entry i e = and_then (index_at (ed_history e) i) (\<lambda>cmd.
     Inr (e\<lparr>ed_history_index := Some i, ed_line := utf8_encode cmd, ed_cursor := length (utf8_encode cmd)\<rparr>))"

definition history_up :: "line_editor \<Rightarrow> line_editor checked" where
  "history_up e =
     (if ed_history e = [] then Inr e
      else and_then (case ed_history_index e of None \<Rightarrow> usub (length (ed_history e)) 1 | Some i \<Rightarrow> if 0 < i then Inr (i - 1) else Inr i)
        (\<lambda>i. show_entry i e))"

definition history_down :: "line_editor \<Rightarrow> line_editor checked" where
  "history_down e =
     (case ed_history_index e of
        None \<Rightarrow> Inr e
      | Some i \<Rightarrow> if i + 1 < length (ed_history e) then show_entry (i + 1) e
          else Inr (e\<lparr>ed_history_index := None, ed_line := [], ed_cursor := 0\<rparr>))"

definition cursor_pos :: "line_editor \<Rightarrow> nat" where "cursor_pos e = ed_cursor e"

definition line_len :: "line_editor \<Rightarrow> nat" where "line_len e = length (ed_line e)"

subsection \<open>The shell's loop\<close>

text \<open>The reaction to what \<open>feed_byte\<close> reports, to a control byte, and the loop over the bytes of the terminal until a newline:
  the line and the bytes not read, or nothing where the input ends and the shell waits.\<close>

fun act_on :: "editor_action option \<Rightarrow> line_editor \<Rightarrow> line_editor checked" where
  "act_on None e = Inr e"
| "act_on (Some (Byte ch)) e = insert_char ch e"
| "act_on (Some HistoryUp) e = history_up e"
| "act_on (Some HistoryDown) e = history_down e"
| "act_on (Some CursorRight) e = Inr (cursor_right e)"
| "act_on (Some CursorLeft) e = Inr (cursor_left e)"
| "act_on (Some CursorHome) e = Inr (cursor_home e)"
| "act_on (Some CursorEnd) e = Inr (cursor_end e)"
| "act_on (Some DeleteKey) e = editor_delete e"

definition control_byte :: "nat \<Rightarrow> line_editor \<Rightarrow> line_editor" where
  "control_byte b e = (if b = 0x01 then cursor_home e else if b = 0x05 then cursor_end e else if b = 0x15 then ctrl_u e else e)"

definition on_byte :: "nat \<Rightarrow> line_editor \<Rightarrow> line_editor checked" where
  "on_byte b e =
     (if b = 0x7F then editor_backspace e
      else if 0x01 \<le> b \<and> b \<le> 0x1A then Inr (control_byte b e)
      else (case feed_byte b e of (a, e') \<Rightarrow> act_on a e'))"

fun read_loop :: "nat list \<Rightarrow> line_editor \<Rightarrow> ((nat list \<times> nat list) option \<times> line_editor) checked" where
  "read_loop [] e = Inr (None, e)"
| "read_loop (b # bs) e = (if b = 10 then Inr (Some (editor_text e, bs), e) else and_then (on_byte b e) (read_loop bs))"

definition read_line_with_editor :: "nat list \<Rightarrow> line_editor \<Rightarrow> ((nat list \<times> nat list) option \<times> line_editor) checked" where
  "read_line_with_editor input e = read_loop input (ctrl_u e)"

subsection \<open>The invariant\<close>

definition editor_ok :: "line_editor \<Rightarrow> bool" where
  "editor_ok e \<longleftrightarrow> ed_cursor e \<le> length (ed_line e) \<and> length (ed_history e) \<le> 64 \<and> [] \<notin> set (ed_history e)
     \<and> (\<forall>i. ed_history_index e = Some i \<longrightarrow> i < length (ed_history e))"

named_theorems editor_defs \<open>the operations of the editor\<close>

declare insert_char_def [editor_defs] editor_backspace_def [editor_defs] editor_delete_def [editor_defs] cursor_left_def [editor_defs]
  cursor_right_def [editor_defs] cursor_home_def [editor_defs] cursor_end_def [editor_defs] ctrl_u_def [editor_defs]
  history_up_def [editor_defs] history_down_def [editor_defs] show_entry_def [editor_defs] vec_insert_def [editor_defs]
  vec_remove_def [editor_defs] index_at_def [editor_defs] usub_def [editor_defs]

text \<open>An operation that keeps the invariant and the history.\<close>

definition keeps :: "(line_editor \<Rightarrow> line_editor checked) \<Rightarrow> bool" where
  "keeps f \<longleftrightarrow> (\<forall>e. editor_ok e \<longrightarrow> (\<exists>e'. f e = Inr e' \<and> editor_ok e' \<and> ed_history e' = ed_history e))"

lemma keeps_ops:
  "keeps (insert_char c)" "keeps editor_backspace" "keeps editor_delete" "keeps (\<lambda>e. Inr (cursor_left e))" "keeps (\<lambda>e. Inr (cursor_right e))"
  "keeps (\<lambda>e. Inr (cursor_home e))" "keeps (\<lambda>e. Inr (cursor_end e))" "keeps (\<lambda>e. Inr (ctrl_u e))" "keeps history_up" "keeps history_down"
  by (auto simp: keeps_def editor_ok_def editor_defs Suc_le_eq split: option.splits)

lemma keeps_act: "keeps (act_on a)"
proof (cases a)
  case (Some x)
  then show ?thesis using keeps_ops by (cases x) (simp_all add: keeps_def)
qed (simp add: keeps_def)

lemma feed_byte_frame:
  assumes "feed_byte b e = (a, e')" shows "editor_ok e' = editor_ok e" "ed_history e' = ed_history e"
  using assms by (auto simp: feed_byte_def editor_ok_def Let_def split: escape_state.splits if_splits)

lemma keeps_on_byte: "keeps (on_byte b)"
  unfolding keeps_def
proof (intro allI impI)
  fix e assume e: "editor_ok e"
  obtain a e1 where f: "feed_byte b e = (a, e1)" by fastforce
  have "\<exists>e'. act_on a e1 = Inr e' \<and> editor_ok e' \<and> ed_history e' = ed_history e"
    using keeps_act[of a, unfolded keeps_def, rule_format, of e1] e feed_byte_frame[OF f] by simp
  moreover have "\<exists>e'. editor_backspace e = Inr e' \<and> editor_ok e' \<and> ed_history e' = ed_history e"
    using keeps_ops(2) e by (simp add: keeps_def)
  moreover have "editor_ok (control_byte b e) \<and> ed_history (control_byte b e) = ed_history e"
    using keeps_ops(6-8) e by (simp add: keeps_def control_byte_def)
  ultimately show "\<exists>e'. on_byte b e = Inr e' \<and> editor_ok e' \<and> ed_history e' = ed_history e"
    using f by (auto simp: on_byte_def)
qed

lemma read_loop_keeps: "editor_ok e \<Longrightarrow> \<exists>r e'. read_loop bs e = Inr (r, e') \<and> editor_ok e' \<and> ed_history e' = ed_history e"
proof (induction bs arbitrary: e)
  case (Cons b bs)
  obtain e1 where e1: "on_byte b e = Inr e1" "editor_ok e1" "ed_history e1 = ed_history e"
    using keeps_on_byte Cons.prems unfolding keeps_def by blast
  show ?case using Cons.IH[OF e1(2)] Cons.prems e1 by auto
qed simp

lemma read_line_keeps: "editor_ok e \<Longrightarrow> \<exists>r e'. read_line_with_editor bs e = Inr (r, e') \<and> editor_ok e' \<and> ed_history e' = ed_history e"
  using read_loop_keeps[of "ctrl_u e" bs] keeps_ops(8) unfolding read_line_with_editor_def keeps_def by force

definition last_64 :: "'a list \<Rightarrow> 'a list" where
  "last_64 xs = drop (length xs - 64) xs"

lemma last_64_snoc: "last_64 (xs @ [x]) = (if 64 \<le> length (last_64 xs) then tl (last_64 xs) else last_64 xs) @ [x]"
proof (cases "64 \<le> length xs")
  case True
  have "tl (drop (length xs - 64) xs) = drop (Suc (length xs - 64)) xs" by (simp add: drop_Suc tl_drop)
  moreover have "Suc (length xs - 64) = length xs - 63" using True by simp
  ultimately show ?thesis using True by (simp add: last_64_def)
qed (simp add: last_64_def)

lemma add_to_history_ok:
  assumes "editor_ok e" "ed_history e = last_64 cs"
  shows "\<exists>e'. add_to_history cmd e = Inr e' \<and> editor_ok e' \<and> ed_history e' = last_64 (if cmd = [] then cs else cs @ [cmd])"
proof (cases "cmd = []")
  case True
  then show ?thesis using assms by (auto simp: add_to_history_def editor_ok_def)
next
  case False
  define h where "h = (if 64 \<le> length (ed_history e) then tl (ed_history e) else ed_history e)"
  have len: "length h < 64" "[] \<notin> set h" using assms(1) by (auto simp: h_def editor_ok_def dest: list.set_sel(2)[rotated])
  have "(if 64 \<le> length (ed_history e) then vec_remove 0 (ed_history e) else Inr (ed_history e)) = Inr h"
    by (auto simp: h_def vec_remove_def drop_Suc)
  then have "add_to_history cmd e = Inr (e\<lparr>ed_history := h @ [cmd], ed_history_index := None\<rparr>)"
    using False by (simp add: add_to_history_def)
  then show ?thesis using False assms len by (auto simp: editor_ok_def last_64_snoc h_def)
qed

subsection \<open>The reference: a line with a gap\<close>

text \<open>What is before and after the cursor, the history, and how many entries back it shows (0: none of them).\<close>

record zipper =
  zp_before :: "nat list"
  zp_after :: "nat list"
  zp_history :: "nat list list"
  zp_back :: nat

datatype key = Char nat | Back | Del | Go_left | Go_right | Go_home | Go_end | Kill | Older | Newer

fun zip_key :: "key \<Rightarrow> zipper \<Rightarrow> zipper" where
  "zip_key (Char c) z = z\<lparr>zp_before := zp_before z @ [c], zp_back := 0\<rparr>"
| "zip_key Back z = (if zp_before z = [] then z else z\<lparr>zp_before := butlast (zp_before z), zp_back := 0\<rparr>)"
| "zip_key Del z = (if zp_after z = [] then z else z\<lparr>zp_after := tl (zp_after z), zp_back := 0\<rparr>)"
| "zip_key Go_left z = (if zp_before z = [] then z else z\<lparr>zp_before := butlast (zp_before z), zp_after := last (zp_before z) # zp_after z\<rparr>)"
| "zip_key Go_right z = (if zp_after z = [] then z else z\<lparr>zp_before := zp_before z @ [hd (zp_after z)], zp_after := tl (zp_after z)\<rparr>)"
| "zip_key Go_home z = z\<lparr>zp_before := [], zp_after := zp_before z @ zp_after z\<rparr>"
| "zip_key Go_end z = z\<lparr>zp_before := zp_before z @ zp_after z, zp_after := []\<rparr>"
| "zip_key Kill z = z\<lparr>zp_before := [], zp_after := [], zp_back := 0\<rparr>"
| "zip_key Older z = (if zp_history z = [] then z else let k = min (zp_back z + 1) (length (zp_history z)) in
     z\<lparr>zp_before := utf8_encode (rev (zp_history z) ! (k - 1)), zp_after := [], zp_back := k\<rparr>)"
| "zip_key Newer z = (if zp_back z = 0 then z else let k = zp_back z - 1 in
     z\<lparr>zp_before := if k = 0 then [] else utf8_encode (rev (zp_history z) ! (k - 1)), zp_after := [], zp_back := k\<rparr>)"

text \<open>The bytes a terminal sends for a key.  A character byte is none of those the shell or the editor treats in another way.\<close>

fun key_bytes :: "key \<Rightarrow> nat list" where
  "key_bytes (Char c) = [c]"
| "key_bytes Back = [0x7F]"
| "key_bytes Del = [0x1B, 91, 51, 126]"
| "key_bytes Go_left = [0x1B, 91, 68]"
| "key_bytes Go_right = [0x1B, 91, 67]"
| "key_bytes Go_home = [0x1B, 91, 72]"
| "key_bytes Go_end = [0x1B, 91, 70]"
| "key_bytes Kill = [0x15]"
| "key_bytes Older = [0x1B, 91, 65]"
| "key_bytes Newer = [0x1B, 91, 66]"

definition plain_byte :: "nat \<Rightarrow> bool" where
  "plain_byte c \<longleftrightarrow> c \<noteq> 0x7F \<and> (c = 0 \<or> 0x1B < c)"

definition key_ok :: "key \<Rightarrow> bool" where
  "key_ok k = (case k of Char c \<Rightarrow> plain_byte c | _ \<Rightarrow> True)"

definition zip_of :: "line_editor \<Rightarrow> zipper" where
  "zip_of e = \<lparr>zp_before = take (ed_cursor e) (ed_line e), zp_after = drop (ed_cursor e) (ed_line e), zp_history = ed_history e,
     zp_back = (case ed_history_index e of None \<Rightarrow> 0 | Some i \<Rightarrow> length (ed_history e) - i)\<rparr>"

lemma zip_of_text: "zp_before (zip_of e) @ zp_after (zip_of e) = ed_line e"
  by (simp add: zip_of_def)

fun edit_key :: "key \<Rightarrow> line_editor \<Rightarrow> line_editor checked" where
  "edit_key (Char c) e = insert_char c e"
| "edit_key Back e = editor_backspace e"
| "edit_key Del e = editor_delete e"
| "edit_key Go_left e = Inr (cursor_left e)"
| "edit_key Go_right e = Inr (cursor_right e)"
| "edit_key Go_home e = Inr (cursor_home e)"
| "edit_key Go_end e = Inr (cursor_end e)"
| "edit_key Kill e = Inr (ctrl_u e)"
| "edit_key Older e = history_up e"
| "edit_key Newer e = history_down e"

lemma take_back: "0 < c \<Longrightarrow> c \<le> length xs \<Longrightarrow> butlast (take c xs) = take (c - 1) xs" "0 < c \<Longrightarrow> c \<le> length xs \<Longrightarrow> last (take c xs) # drop c xs = drop (c - 1) xs"
  "c < length xs \<Longrightarrow> take c xs @ [hd (drop c xs)] = take (c + 1) xs"
proof -
  assume c: "0 < c" "c \<le> length xs"
  then have "take c xs \<noteq> []" by auto
  then have "last (take c xs) = xs ! (c - 1)" using c by (simp add: last_conv_nth min_def)
  then show "last (take c xs) # drop c xs = drop (c - 1) xs" using Cons_nth_drop_Suc[of "c - 1" xs] c by simp
qed (simp_all add: butlast_take take_hd_drop)

lemma edit_key_zip:
  assumes "editor_ok e"
  shows "\<exists>e'. edit_key k e = Inr e' \<and> editor_ok e' \<and> zip_of e' = zip_key k (zip_of e) \<and> ed_escape_state e' = ed_escape_state e"
proof -
  have "\<exists>e'. edit_key k e = Inr e' \<and> zip_of e' = zip_key k (zip_of e) \<and> ed_escape_state e' = ed_escape_state e"
  proof (cases k)
    case Older
    then show ?thesis using assms
      by (auto simp: editor_defs editor_ok_def zip_of_def rev_nth Suc_le_eq min_def Let_def split: option.splits)
  next
    case Newer
    then show ?thesis using assms
      by (auto simp: editor_defs editor_ok_def zip_of_def rev_nth Suc_le_eq Let_def split: option.splits)
  qed (use assms in \<open>auto simp: editor_defs editor_ok_def zip_of_def take_back Suc_le_eq tl_drop drop_Suc split: option.splits\<close>)
  moreover have "keeps (edit_key k)" using keeps_ops by (cases k) (simp_all add: keeps_def)
  ultimately show ?thesis using assms unfolding keeps_def by force
qed

lemma key_bytes_edit:
  assumes "key_ok k" "ed_escape_state e = Normal"
  shows "read_loop (key_bytes k @ bs) e = and_then (edit_key k e) (read_loop bs)"
proof -
  obtain l c h i where e: "e = \<lparr>ed_line = l, ed_cursor = c, ed_history = h, ed_history_index = i, ed_escape_state = Normal\<rparr>"
    using assms(2) by (cases e) auto
  show ?thesis using assms(1) unfolding e
    by (cases k) (auto simp: on_byte_def feed_byte_def control_byte_def key_ok_def plain_byte_def)
qed

lemma read_keys:
  "editor_ok e \<Longrightarrow> ed_escape_state e = Normal \<Longrightarrow> \<forall>k\<in>set ks. key_ok k \<Longrightarrow>
   \<exists>e'. read_loop (concat (map key_bytes ks) @ 10 # rest) e = Inr (Some (editor_text e', rest), e') \<and> editor_ok e'
     \<and> zip_of e' = fold zip_key ks (zip_of e)"
proof (induction ks arbitrary: e)
  case (Cons k ks)
  obtain e1 where e1: "edit_key k e = Inr e1" "editor_ok e1" "zip_of e1 = zip_key k (zip_of e)" "ed_escape_state e1 = Normal"
    using edit_key_zip[OF Cons.prems(1), of k] Cons.prems(2) by auto
  have k: "key_ok k" using Cons.prems(3) by simp
  show ?case using Cons.IH[OF e1(2,4)] Cons.prems(3) e1(1,3) by (simp add: key_bytes_edit[OF k Cons.prems(2)])
qed auto

subsection \<open>Properties\<close>

text \<open>What the shell does with its editor: it reads a line from the bytes that arrive, or remembers a command.\<close>

datatype shell_step = Read_line "nat list" | Remember "nat list"

fun shell_run :: "shell_step list \<Rightarrow> line_editor \<Rightarrow> line_editor checked" where
  "shell_run [] e = Inr e"
| "shell_run (Read_line bs # xs) e = and_then (read_line_with_editor bs e) (\<lambda>(r, e'). shell_run xs e')"
| "shell_run (Remember cmd # xs) e = and_then (add_to_history cmd e) (shell_run xs)"

definition remembered :: "shell_step list \<Rightarrow> nat list list" where
  "remembered xs = filter (\<lambda>c. c \<noteq> []) (concat (map (\<lambda>x. case x of Remember c \<Rightarrow> [c] | _ \<Rightarrow> []) xs))"

lemma shell_run_ok:
  "editor_ok e \<Longrightarrow> ed_history e = last_64 cs \<Longrightarrow> \<exists>e'. shell_run xs e = Inr e' \<and> editor_ok e' \<and> ed_history e' = last_64 (cs @ remembered xs)"
proof (induction xs arbitrary: e cs)
  case (Cons x xs)
  show ?case
  proof (cases x)
    case (Read_line bs)
    obtain r e1 where "read_line_with_editor bs e = Inr (r, e1)" "editor_ok e1" "ed_history e1 = ed_history e"
      using read_line_keeps[OF Cons.prems(1)] by blast
    then show ?thesis using Cons.IH[of e1 cs] Cons.prems(2) Read_line by (simp add: remembered_def)
  next
    case (Remember cmd)
    obtain e1 where "add_to_history cmd e = Inr e1" "editor_ok e1" "ed_history e1 = last_64 (if cmd = [] then cs else cs @ [cmd])"
      using add_to_history_ok[OF Cons.prems] by blast
    then show ?thesis
      using Cons.IH[of e1 cs] Cons.IH[of e1 "cs @ [cmd]"] Remember by (cases "cmd = []") (simp_all add: remembered_def)
  qed
qed (simp add: remembered_def)

text \<open>
  Whatever bytes arrive and whatever commands are remembered, the editor never panics, its cursor stays inside the line and
  its place in the history is one of the entries; and the history is the last 64 commands that were not empty.
\<close>

theorem editor_well_formed:
  "\<exists>e. shell_run xs line_editor_new = Inr e \<and> ed_cursor e \<le> length (ed_line e)
     \<and> pred_option (\<lambda>i. i < length (ed_history e)) (ed_history_index e) \<and> ed_history e = last_64 (remembered xs)"
proof -
  have "editor_ok line_editor_new" "ed_history line_editor_new = last_64 []" by (simp_all add: editor_ok_def line_editor_new_def last_64_def)
  from shell_run_ok[OF this, of xs] show ?thesis by (auto simp: editor_ok_def pred_option_def)
qed

text \<open>
  C40. A line read from the bytes of any sequence of keys is what these keys make of an empty line with a gap in it, typed text
  being inserted at the gap, and the walk through the history being one of how many entries back it is.
\<close>

theorem typed_keys_edit_line:
  assumes "editor_ok e" "ed_escape_state e = Normal" "\<forall>k\<in>set ks. key_ok k"
  defines "z \<equiv> fold zip_key ks \<lparr>zp_before = [], zp_after = [], zp_history = ed_history e, zp_back = 0\<rparr>"
  shows "\<exists>e'. read_line_with_editor (concat (map key_bytes ks) @ 10 # rest) e = Inr (Some (utf8_lossy (zp_before z @ zp_after z), rest), e') \<and> zip_of e' = z"
proof -
  have u: "editor_ok (ctrl_u e)" "ed_escape_state (ctrl_u e) = Normal" "zip_of (ctrl_u e) = \<lparr>zp_before = [], zp_after = [], zp_history = ed_history e, zp_back = 0\<rparr>"
    using assms(1,2) by (simp_all add: editor_ok_def ctrl_u_def zip_of_def)
  obtain e' where e': "read_loop (concat (map key_bytes ks) @ 10 # rest) (ctrl_u e) = Inr (Some (editor_text e', rest), e')" "zip_of e' = z"
    using read_keys[OF u(1,2) assms(3)] u(3) unfolding z_def by metis
  then show ?thesis using zip_of_text[of e'] by (auto simp: read_line_with_editor_def editor_text_def)
qed

theorem typed_keys_edit_line_witness:
  "\<exists>e'. read_line_with_editor ([97, 99, 27, 91, 68, 98] @ 10 # []) line_editor_new = Inr (Some (utf8_lossy [97, 98, 99], []), e')"
proof -
  have "editor_ok line_editor_new" "ed_escape_state line_editor_new = Normal" "\<forall>k\<in>set [Char 97, Char 99, Go_left, Char 98]. key_ok k"
    by (simp_all add: editor_ok_def line_editor_new_def key_ok_def plain_byte_def)
  from typed_keys_edit_line[OF this, of "[]"] show ?thesis by (auto simp: line_editor_new_def)
qed

text \<open>
  A lone escape loses what is typed after it: the state of the sequence outlives the line, so the first byte of the next
  line is swallowed.
\<close>

theorem lone_escape_eats_next_line:
  assumes "editor_ok e" "ed_escape_state e = Normal" "plain_byte c" "c \<noteq> 91"
  shows "\<exists>e1 e2. read_line_with_editor [0x1B, 10] e = Inr (Some ([], []), e1) \<and> read_line_with_editor [c, 10] e1 = Inr (Some ([], []), e2)"
proof -
  have l: "utf8_lossy [] = []" by (simp add: utf8_lossy.simps)
  show ?thesis using assms(2-4)
    by (auto simp: read_line_with_editor_def on_byte_def feed_byte_def ctrl_u_def editor_text_def plain_byte_def l)
qed

theorem lone_escape_eats_next_line_witness:
  "\<exists>e1 e2. read_line_with_editor [0x1B, 10] line_editor_new = Inr (Some ([], []), e1) \<and> read_line_with_editor [108, 10] e1 = Inr (Some ([], []), e2)"
proof (rule lone_escape_eats_next_line)
  show "editor_ok line_editor_new" "ed_escape_state line_editor_new = Normal" "plain_byte 108" "(108::nat) \<noteq> 91"
    by (simp_all add: editor_ok_def line_editor_new_def plain_byte_def)
qed

end
