(* ===== verification/Spec2Isabelle.thy ===== *)
theory Spec2Isabelle
  imports Elf Heap_Props Virtio_Props Vm_Ranges Ring_Buffers Block_Cache Partitions Dhcp_Client Dns_Lookup Sched_Props Sched_Mutex Json_Grammar Line_Editor
begin

text \<open>
  A verification development of OtterOS, a small x86-64 operating system in Rust: the kernel under \<open>kernel/src\<close> and
  the host-testable crates under \<open>crates\<close>.  It models the parts that decide something - memory and the heap, scheduling,
  the virtio queues, storage, network protocols, JSON, the text buffer and the shell's line editor - and leaves out what
  only moves data between registers, devices and pixels.

  \<^bold>\<open>Conventions\<close> (theory \<open>Prelude\<close>).  The kernel and its crates are built with the \<open>dev\<close> profile: an overflowing
  \<open>+\<close>, \<open>-\<close> or \<open>*\<close>, an index out of range, a failed \<open>assert!\<close> and an \<open>expect\<close> on nothing are panics.  A fallible
  step has the type \<open>'a checked\<close>, \<open>Inl panic\<close> or \<open>Inr value\<close>; \<open>and_then\<close> sequences such steps, \<open>try_then\<close> does so
  where the value is itself a \<open>Result\<close>.  \<open>usize\<close> and \<open>u64\<close> are naturals with checked operations (\<open>uadd\<close>,
  \<open>usub\<close>, \<open>umul\<close>) where only arithmetic is done, and \<open>64 word\<close> where bits matter.  Structs are records with the
  fields of the code, \<open>&mut self\<close> is a state passed and returned, a loop is a recursion with its termination proof; a
  loop that can run forever is a \<open>partial_function (option)\<close> of which \<open>None\<close> is not returning.  No fuel is used.

  \<^bold>\<open>Memory.\<close>  \<open>Addr\<close> is \<open>mm/addr.rs\<close>; \<open>Bitmap\<close> is \<open>mm/bitmap.rs\<close>, proved against the set of free positions;
  \<open>Frame_Pool\<close> is the interface of a frame allocator as a locale, interpreted by \<open>Pmm\<close> (\<open>mm/pmm.rs\<close>, both pools,
  the boot memory map and the freelist of injected failures).  \<open>Paging\<close> and \<open>Vmm\<close> are \<open>mm/paging.rs\<close> and
  \<open>mm/vmm\<close>: page tables live in a memory of words, and the proofs relate the walk to a function from addresses to
  frames, for mapping, unmapping, ranges and new user spaces.  \<open>Vm_Ranges\<close> is the computation of the ranges of the
  direct map; \<open>Kstack\<close> is \<open>mm/kstack.rs\<close>: stacks with a guard page, over \<open>Vmm\<close>, and the invariant that the slots
  in use are mapped to frames of their own (\<open>stacks_mapped\<close>), which allocating and freeing keep.  \<open>Elf\<close> is \<open>proc/elf.rs\<close>, from
  the bytes of an image to the pages of an address space, and uses \<open>Vmm\<close> and \<open>Pmm\<close>.  \<open>Heap\<close> is \<open>mm/heap.rs\<close> over
  the frames of \<open>Pmm\<close>: slabs whose headers and free lists live in the frames themselves, and whole frames for large
  blocks; \<open>Heap_Slabs\<close> says what a slab in memory stands for, \<open>Heap_Inv\<close> keeps the invariant through every operation and
  \<open>Heap_Props\<close> has what a client relies on (fresh blocks, double frees caught, contents kept, nothing leaked).

  \<^bold>\<open>Scheduling.\<close>  \<open>Sched\<close> has \<open>sched/mod.rs\<close>, \<open>thread.rs\<close>, \<open>runqueue.rs\<close>, \<open>sleep.rs\<close> and \<open>waitqueue.rs\<close>: every
  critical section as a function on the scheduler state, which holds the memory manager's, as threads get their stacks
  from \<open>Kstack\<close>; what the rest of the kernel does to memory in between is an event of its own.  \<open>Sched_Inv\<close> proves the
  invariant (each thread is exactly where its state says) for every event and \<open>Sched_Props\<close> draws the consequences:
  no panic within the bounds on threads and memory, a bound on waiting, join.  \<open>Sched_Mutex\<close> interleaves the atomic actions of
  \<open>sched/mutex.rs\<close> between threads: mutual exclusion holds, only locking again by the holder panics, and a wake-up can be lost.

  \<^bold>\<open>Virtio.\<close>  \<open>Virtio\<close> is \<open>crates/otter-virtio\<close>: the layout of a split queue in its ring memory, posting and taking
  back buffers, notification.  \<open>Virtio_Queue\<close> runs it against a device that follows the standard, each read and write
  of the ring in between, and relates memory to a queue of requests; \<open>Virtio_Props\<close> has the refinement, the order of
  delivery, freedom from panics, and what a device that does not follow the standard can do.

  \<^bold>\<open>Storage and rings.\<close>  \<open>Ring_Buffers\<close> has the single-producer ring of the keyboard driver under every interleaving
  and the boot log ring; \<open>Block_Cache\<close> is \<open>block/cache.rs\<close>, a refinement of a least-recently-used map.  \<open>Crc32\<close>,
  \<open>Guid\<close> and \<open>Partitions\<close> are \<open>crates/otter-part\<close>: what the reader accepts is consistent, whatever the disk holds.

  \<^bold>\<open>Network.\<close>  \<open>Net_Proto\<close> is \<open>crates/otter-net-proto\<close>, parsers and builders that invert each other; \<open>Arp_Cache\<close>,
  \<open>Dhcp_Client\<close> and \<open>Dns_Lookup\<close> are the state machines of \<open>crates/otter-netlogic\<close> over it.

  \<^bold>\<open>Text.\<close>  \<open>Utf8\<close> is the UTF-8 of the core library.  \<open>Json\<close> is \<open>crates/otter-json\<close>; \<open>Json_Grammar\<close> states RFC 8259
  as an inductive relation and shows that the parser decides it and that the writers print it.  \<open>Textbuf\<close> is
  \<open>crates/otter-textbuf\<close>: the line index, undo and redo as an exact history, replacement against a reference, and four
  ways in which the editor goes wrong.  \<open>Line_Editor\<close> is the shell's line editor (\<open>user/libotter\<close>) with the loop of
  \<open>user/sh\<close> that feeds it, against a line with a gap.

  \<^bold>\<open>Parameters.\<close>  What is not under \<open>src\<close> is an argument: the block device and the random source as functions, \<open>f64\<close>
  formatting and parsing as a record of functions with their documented laws (\<open>f64_laws\<close>), \<open>str::to_lowercase\<close> as
  a function.

  \<^bold>\<open>Not modelled.\<close>  Registers, descriptor tables, assembly, MMIO and port access; drawing; the other user programs; the
  cryptography, TLS, HTML and inference crates, each a development of its own; the process table, the system calls and the
  initramfs, which dispatch to and copy between the modelled parts; the xHCI rings, of which the virtio queues are the like.
  Spin locks appear as the atomicity of the sections they guard.  Allocation of \<open>Vec\<close>, \<open>Arc\<close> and \<open>BTreeMap\<close> never
  fails in the components above the heap.
\<close>

end
